(* ===== verification/HxPrelude.thy ===== *)
theory HxPrelude
  imports Main "HOL-Library.Word" "HOL-Library.Multiset"
begin

unbundle bit_operations_syntax

text \<open>
  Shared vocabulary of the development: the machine types of the 64-bit target, the ways in
  which an operation of the library can stop (the three kinds of assertion of
  \<^verbatim>\<open>libhatchet.h\<close> and undefined behaviour), raw storage whose slots may or may not hold a
  live object, and the facts on lists and words that the components share.
\<close>

section \<open>Machine types\<close>

text \<open>\<open>size_t\<close> of the 64-bit target wraps around; \<open>hxsize_t\<close> is the signed
  \<open>ptrdiff_t\<close>, whose overflow is undefined behaviour, so it is an unbounded \<open>int\<close>.\<close>

type_synonym size_t = "64 word"
type_synonym uintptr_t = "64 word"
type_synonym hxsize_t = int
type_synonym u32 = "32 word"
type_synonym u64 = "64 word"

section \<open>How an operation can stop\<close>

text \<open>
  The model is the build with every assertion enabled (\<open>HX_HARDENING_MODE_DEBUG\<close>).
  \<open>hxassert_hard\<close> is compiled in from the standard hardening mode on, \<open>hxassertf\<close> in debug
  only, \<open>hxassert_always\<close> in every mode. Wherever a theorem shows that no assertion stops an
  operation, the weaker builds run the same steps.
\<close>

datatype hxerror =
    Assert_hard string
  | Assert_debug string
  | Assert_always string
  | Undefined_behavior string
  | Exit_failure

type_synonym 'a hx = "hxerror + 'a"

definition hx_bind :: "'a hx \<Rightarrow> ('a \<Rightarrow> 'b hx) \<Rightarrow> 'b hx" where
  "hx_bind m f = (case m of Inl e \<Rightarrow> Inl e | Inr x \<Rightarrow> f x)"

definition hx_map :: "('a \<Rightarrow> 'b) \<Rightarrow> 'a hx \<Rightarrow> 'b hx" where
  "hx_map f m = (case m of Inl e \<Rightarrow> Inl e | Inr x \<Rightarrow> Inr (f x))"

definition hx_ok :: "'a hx \<Rightarrow> bool" where
  "hx_ok m = (case m of Inl _ \<Rightarrow> False | Inr _ \<Rightarrow> True)"

lemma hx_bind_simps [simp]:
  "hx_bind (Inl e) f = Inl e"
  "hx_bind (Inr x) f = f x"
  by (simp_all add: hx_bind_def)

lemma hx_map_simps [simp]:
  "hx_map f (Inl e) = Inl e"
  "hx_map f (Inr x) = Inr (f x)"
  by (simp_all add: hx_map_def)

lemma hx_ok_simps [simp]: "\<not> hx_ok (Inl e)" "hx_ok (Inr x)"
  by (simp_all add: hx_ok_def)

lemma hx_bind_Inr_iff: "hx_bind m f = Inr y \<longleftrightarrow> (\<exists>x. m = Inr x \<and> f x = Inr y)"
  by (cases m) auto

lemma hx_bindE:
  assumes "hx_bind m f = Inr y"
  obtains x where "m = Inr x" and "f x = Inr y"
  using assms by (auto simp: hx_bind_Inr_iff)

lemma hx_bind_cong [fundef_cong]:
  "m = n \<Longrightarrow> (\<And>x. n = Inr x \<Longrightarrow> f x = g x) \<Longrightarrow> hx_bind m f = hx_bind n g"
  by (cases n) auto

lemma hx_ok_iff: "hx_ok m \<longleftrightarrow> (\<exists>x. m = Inr x)"
  by (cases m) auto

text \<open>A computation that may also not end: \<open>None\<close>.\<close>

type_synonym 'a run = "'a hx option"

definition run_bind :: "'a run \<Rightarrow> ('a \<Rightarrow> 'b run) \<Rightarrow> 'b run" where
  "run_bind m f = (case m of None \<Rightarrow> None | Some r \<Rightarrow> (case r of Inl e \<Rightarrow> Some (Inl e) | Inr x \<Rightarrow> f x))"

definition run_loop :: "'a option \<Rightarrow> 'a run" where
  "run_loop m = map_option Inr m"

lemma run_bind_simps [simp]:
  "run_bind None f = None"
  "run_bind (Some (Inl e)) f = Some (Inl e)"
  "run_bind (Some (Inr x)) f = f x"
  by (simp_all add: run_bind_def)

text \<open>With it a loop may be written with \<open>run_bind\<close> in a \<open>partial_function\<close>.\<close>

lemma run_bind_mono [partial_function_mono]:
  assumes "mono_option B" and "\<And>y. mono_option (\<lambda>f. C y f)"
  shows "mono_option (\<lambda>f. run_bind (B f) (\<lambda>y. C y f))"
proof -
  have "mono_option (\<lambda>f. case r of Inl e \<Rightarrow> Some (Inl e) | Inr x \<Rightarrow> C x f)" for r
    by (cases r) (auto intro: assms(2) partial_function_mono)
  then have "mono_option (\<lambda>f. Option.bind (B f) (\<lambda>r. case r of Inl e \<Rightarrow> Some (Inl e) | Inr x \<Rightarrow> C x f))"
    by (rule bind_mono [OF assms(1)])
  moreover have "(\<lambda>f. Option.bind (B f) (\<lambda>r. case r of Inl e \<Rightarrow> Some (Inl e) | Inr x \<Rightarrow> C x f)) =
      (\<lambda>f. run_bind (B f) (\<lambda>y. C y f))"
    by (intro ext) (simp add: run_bind_def split: option.split)
  ultimately show ?thesis by (simp only:)
qed

lemma run_loop_simps [simp]: "run_loop None = None" "run_loop (Some x) = Some (Inr x)"
  by (simp_all add: run_loop_def)

section \<open>Raw storage\<close>

text \<open>
  \<open>hxallocator::data()\<close> is a \<^emph>\<open>potentially uninitialized array\<close>. A slot that holds a live
  object is \<open>Some x\<close>, raw memory is \<open>None\<close>. Reading or destroying raw memory, and any access
  outside the array, is undefined behaviour; constructing over a live object would lose it
  without running its destructor, so the model refuses it too.
\<close>

definition read_slot :: "'a option list \<Rightarrow> nat \<Rightarrow> 'a hx" where
  "read_slot m i =
     (if i < length m
      then (case m ! i of None \<Rightarrow> Inl (Undefined_behavior ''read of raw memory'') | Some x \<Rightarrow> Inr x)
      else Inl (Undefined_behavior ''out of bounds''))"

definition construct_slot :: "'a option list \<Rightarrow> nat \<Rightarrow> 'a \<Rightarrow> 'a option list hx" where
  "construct_slot m i x =
     (if i < length m
      then (case m ! i of None \<Rightarrow> Inr (m[i := Some x])
            | Some _ \<Rightarrow> Inl (Undefined_behavior ''construct over a live object''))
      else Inl (Undefined_behavior ''out of bounds''))"

definition destroy_slot :: "'a option list \<Rightarrow> nat \<Rightarrow> 'a option list hx" where
  "destroy_slot m i =
     (if i < length m
      then (case m ! i of None \<Rightarrow> Inl (Undefined_behavior ''destroy raw memory'')
            | Some _ \<Rightarrow> Inr (m[i := None]))
      else Inl (Undefined_behavior ''out of bounds''))"

definition assign_slot :: "'a option list \<Rightarrow> nat \<Rightarrow> 'a \<Rightarrow> 'a option list hx" where
  "assign_slot m i x =
     (if i < length m
      then (case m ! i of None \<Rightarrow> Inl (Undefined_behavior ''assign to raw memory'')
            | Some _ \<Rightarrow> Inr (m[i := Some x]))
      else Inl (Undefined_behavior ''out of bounds''))"

text \<open>The facts that say when an access to storage is defined.\<close>

named_theorems slot_simps

lemma read_slot_Inr [slot_simps]:
  "i < length m \<Longrightarrow> m ! i = Some x \<Longrightarrow> read_slot m i = Inr x"
  by (simp add: read_slot_def)

lemma construct_slot_Inr [slot_simps]:
  "i < length m \<Longrightarrow> m ! i = None \<Longrightarrow> construct_slot m i x = Inr (m[i := Some x])"
  by (simp add: construct_slot_def)

lemma destroy_slot_Inr [slot_simps]:
  "i < length m \<Longrightarrow> m ! i = Some x \<Longrightarrow> destroy_slot m i = Inr (m[i := None])"
  by (simp add: destroy_slot_def)

lemma assign_slot_Inr [slot_simps]:
  "i < length m \<Longrightarrow> m ! i = Some y \<Longrightarrow> assign_slot m i x = Inr (m[i := Some x])"
  by (simp add: assign_slot_def)

text \<open>A prefix of live objects followed by raw memory: the storage of the sequence containers.\<close>

definition live_prefix :: "'a list \<Rightarrow> nat \<Rightarrow> 'a option list" where
  "live_prefix xs c = map Some xs @ replicate (c - length xs) None"

lemma length_live_prefix [simp]: "length xs \<le> c \<Longrightarrow> length (live_prefix xs c) = c"
  by (simp add: live_prefix_def)

lemma live_prefix_nth_live [simp]: "i < length xs \<Longrightarrow> live_prefix xs c ! i = Some (xs ! i)"
  by (simp add: live_prefix_def nth_append)

lemma live_prefix_nth_raw [simp]:
  "length xs \<le> i \<Longrightarrow> i < c \<Longrightarrow> live_prefix xs c ! i = None"
  by (simp add: live_prefix_def nth_append)

lemma live_prefix_snoc: "length xs < c \<Longrightarrow> (live_prefix xs c)[length xs := Some x] = live_prefix (xs @ [x]) c"
  by (rule nth_equalityI)
     (auto simp: live_prefix_def nth_append nth_list_update less_Suc_eq nth_Cons' split: if_splits)

lemma live_prefix_butlast:
  "xs \<noteq> [] \<Longrightarrow> length xs \<le> c \<Longrightarrow> (live_prefix xs c)[length xs - 1 := None] = live_prefix (butlast xs) c"
  by (rule nth_equalityI)
     (auto simp: live_prefix_def nth_append nth_list_update nth_butlast split: if_splits)

lemma live_prefix_update:
  "i < length xs \<Longrightarrow> (live_prefix xs c)[i := Some x] = live_prefix (xs[i := x]) c"
  by (simp add: live_prefix_def list_update_append map_update)

lemma read_slot_live: "i < length xs \<Longrightarrow> length xs \<le> c \<Longrightarrow> read_slot (live_prefix xs c) i = Inr (xs ! i)"
  by (simp add: slot_simps)

lemma assign_slot_live: "i < length xs \<Longrightarrow> length xs \<le> c \<Longrightarrow> assign_slot (live_prefix xs c) i x = Inr (live_prefix (xs[i := x]) c)"
  using live_prefix_update [of i xs c x] by (simp add: slot_simps)

lemma construct_slot_live: "length xs < c \<Longrightarrow> construct_slot (live_prefix xs c) (length xs) x = Inr (live_prefix (xs @ [x]) c)"
  using live_prefix_snoc [of xs c x] by (simp add: slot_simps)

lemma destroy_slot_live:
  "xs \<noteq> [] \<Longrightarrow> length xs \<le> c \<Longrightarrow> destroy_slot (live_prefix xs c) (length xs - 1) = Inr (live_prefix (butlast xs) c)"
  using live_prefix_butlast [of xs c] live_prefix_nth_live [of "length xs - 1" xs c]
  by (cases xs) (simp_all add: destroy_slot_def)

section \<open>Lists\<close>

lemma mset_swap_nth:
  "i < length xs \<Longrightarrow> j < length xs \<Longrightarrow> mset (xs[i := xs ! j, j := xs ! i]) = mset xs"
  by (rule Multiset.mset_swap)

section \<open>Words\<close>

lemma unat_bound: "unat (w :: 'a::len word) < 2 ^ LENGTH('a)"
  by (rule unsigned_less)

lemma bit_unat: "bit (unat (w :: 'a::len word)) n \<longleftrightarrow> bit w n"
  by (auto simp: bit_unsigned_iff dest: bit_imp_le_length)

lemma unat_add_wrap: "unat (a + b :: 'a::len word) = (unat a + unat b) mod 2 ^ LENGTH('a)"
  by (simp add: unat_word_ariths)

lemma unat_of_nat_small: "n < 2 ^ LENGTH('a) \<Longrightarrow> unat (word_of_nat n :: 'a::len word) = n"
  by (simp add: unat_of_nat)

lemma unat_and_mask: "unat ((w :: 'a::len word) AND (2 ^ k - 1)) = unat w mod 2 ^ k"
proof -
  have "w AND (2 ^ k - 1) = take_bit k w"
    by (simp only: take_bit_eq_mask mask_eq_exp_minus_1)
  then have "unat (w AND (2 ^ k - 1)) = take_bit k (unat w)"
    by (simp only: unsigned_take_bit_eq)
  then show ?thesis by (simp only: take_bit_eq_mod)
qed

lemma unat_drop_bit: "unat (drop_bit k (w :: 'a::len word)) = unat w div 2 ^ k"
  by (rule unat_drop_bit_eq [THEN trans, OF drop_bit_eq_div])

section \<open>Sequences of operations\<close>

text \<open>The results a client gets from a sequence of operations up to the first that stops, and how the sequence ends. A
  program and its abstract specification that agree on every step agree on every sequence.\<close>

fun run_ops :: "('s \<Rightarrow> 'op \<Rightarrow> ('s \<times> 'r) hx) \<Rightarrow> 's \<Rightarrow> 'op list \<Rightarrow> 'r list \<times> 's hx" where
  "run_ops step s [] = ([], Inr s)"
| "run_ops step s (x # xs) =
     (case step s x of Inl e \<Rightarrow> ([], Inl e) | Inr (s1, r) \<Rightarrow> (let (rs, out) = run_ops step s1 xs in (r # rs, out)))"

lemma run_ops_refines:
  assumes "\<And>s a x. R s a \<Longrightarrow> rel_sum (=) (rel_prod R (=)) (f s x) (g a x)" and "R s a"
  shows "rel_prod (=) (rel_sum (=) R) (run_ops f s xs) (run_ops g a xs)"
  using assms(2)
proof (induction xs arbitrary: s a)
  case Nil
  then show ?case by simp
next
  case (Cons x xs)
  from assms(1) [OF Cons.prems, of x] show ?case
  proof (cases rule: rel_sum.cases)
    case (2 sr ar)
    then have r: "R (fst sr) (fst ar)" "snd sr = snd ar" by (simp_all add: rel_prod_sel)
    have "rel_prod (=) (rel_sum (=) R) (run_ops f (fst sr) xs) (run_ops g (fst ar) xs)" by (rule Cons.IH [OF r(1)])
    then show ?thesis using r(2) 2 by (cases sr; cases ar) (auto simp: rel_prod_sel split: prod.split)
  qed simp
qed

section \<open>What the objects of a program hold\<close>

text \<open>Objects named by their place in a list, \<open>None\<close> once destroyed, each of which holds a multiset \<open>h x\<close> of resources.\<close>

definition slots_held :: "('a \<Rightarrow> 'b multiset) \<Rightarrow> 'a option list \<Rightarrow> 'b multiset" where
  "slots_held h xs = sum_list (map (case_option {#} h) xs)"

lemma slots_held_simps [simp]:
  "slots_held h [] = {#}" "slots_held h (xs @ ys) = slots_held h xs + slots_held h ys"
  "slots_held h (None # xs) = slots_held h xs" "slots_held h (Some x # xs) = h x + slots_held h xs"
  by (simp_all add: slots_held_def)

lemma slots_held_read: "i < length xs \<Longrightarrow> xs ! i = Some x \<Longrightarrow> slots_held h xs = h x + slots_held h (xs[i := None])"
  by (subst id_take_nth_drop [of i xs], assumption) (simp add: upd_conv_take_nth_drop)

lemma slots_held_update: "i < length xs \<Longrightarrow> slots_held h (xs[i := Some x]) = h x + slots_held h (xs[i := None])"
  using slots_held_read [of i "xs[i := Some x]" x h] by simp

lemma slots_held_two:
  assumes "i < length xs" and "j < length xs" and "i \<noteq> j"
  shows "slots_held h (xs[i := Some x, j := Some y]) = h x + h y + slots_held h (xs[i := None, j := None])"
    and "xs ! i = Some x \<Longrightarrow> xs ! j = Some y \<Longrightarrow> slots_held h xs = h x + h y + slots_held h (xs[i := None, j := None])"
proof -
  show "slots_held h (xs[i := Some x, j := Some y]) = h x + h y + slots_held h (xs[i := None, j := None])"
    using assms slots_held_update [of j "xs[i := Some x]" h y] slots_held_update [of i "xs[j := None]" h x] by (simp add: list_update_swap)
  show "slots_held h xs = h x + h y + slots_held h (xs[i := None, j := None])" if "xs ! i = Some x" "xs ! j = Some y"
    using assms that slots_held_read [of i xs x h] slots_held_read [of j "xs[i := None]" y h] by simp
qed

lemma slots_held_none: "set xs \<subseteq> {None} \<Longrightarrow> slots_held h xs = {#}"
  by (induction xs) auto

lemma read_slot_InrD: "read_slot m i = Inr x \<Longrightarrow> i < length m \<and> m ! i = Some x"
  by (auto simp: read_slot_def split: if_splits option.splits)

lemma hx_map_Inr_iff: "hx_map f m = Inr y \<longleftrightarrow> (\<exists>x. m = Inr x \<and> y = f x)"
  by (cases m) auto

text \<open>A sequence of operations adds up what each of them adds.\<close>

lemma run_ops_sum:
  assumes "\<And>s x s' r. step s x = Inr (s', r) \<Longrightarrow> f s' = f s + mset r"
  shows "run_ops step s xs = (rs, Inr s') \<Longrightarrow> f s' = f s + mset (concat rs)"
proof (induction xs arbitrary: s rs)
  case (Cons x xs)
  then obtain s1 r where step: "step s x = Inr (s1, r)" by (auto split: sum.splits prod.splits)
  then obtain rs1 where "run_ops step s1 xs = (rs1, Inr s')" "rs = r # rs1" using Cons.prems by (auto split: prod.splits)
  then show ?case using Cons.IH [of s1 rs1] assms [OF step] by simp
qed simp

text \<open>When everything that was handed in is distinct, nothing is accounted for twice.\<close>

lemma distinct_account:
  assumes "mset ys = H + mset zs" and "distinct (map f ys)"
  shows "distinct (map f zs)" and "p \<in> f ` set zs \<Longrightarrow> p \<notin># image_mset f H" and "\<not> add_mset p {#p#} \<subseteq># image_mset f H"
proof -
  have all: "mset (map f ys) = image_mset f H + mset (map f zs)" using assms(1) by simp
  have one: "count (mset (map f ys)) q \<le> 1" for q using assms(2) by (simp add: distinct_count_atmost_1)
  have sum: "count (image_mset f H) q + count (mset (map f zs)) q \<le> 1" for q
    using one [of q] unfolding all by simp
  have "count (mset (map f zs)) q \<le> 1" for q using sum [of q] by linarith
  then show "distinct (map f zs)"
    by (metis count_greater_eq_one_iff distinct_count_atmost_1 le_antisym not_in_iff set_mset_mset)
  show "p \<notin># image_mset f H" if "p \<in> f ` set zs"
  proof
    assume "p \<in># image_mset f H"
    moreover have "p \<in># mset (map f zs)" using that by simp
    ultimately show False using sum [of p] unfolding count_greater_zero_iff [symmetric] by linarith
  qed
  show "\<not> add_mset p {#p#} \<subseteq># image_mset f H"
  proof
    assume "add_mset p {#p#} \<subseteq># image_mset f H"
    then have "2 \<le> count (image_mset f H) p" using mset_subset_eq_count [of "add_mset p {#p#}" "image_mset f H" p] by simp
    then show False using sum [of p] by linarith
  qed
qed

end
