(* ===== verification/HxUtility.thy ===== *)
theory HxUtility
  imports HxPrelude
begin

text \<open>
  The scalar helpers of \<^verbatim>\<open>include/hx/hxutility.h\<close>: minimum, maximum, clamping, the character
  classes used by the console, and the two implementations of \<open>hxlog2i\<close> with the proof that
  they agree and compute the floor of the binary logarithm.
\<close>

section \<open>Comparison helpers\<close>

text \<open>They take the type's \<open>operator<\<close>, as the templates do.\<close>

definition hxmin :: "('a \<Rightarrow> 'a \<Rightarrow> bool) \<Rightarrow> 'a \<Rightarrow> 'a \<Rightarrow> 'a" where
  "hxmin lt x y = (if lt x y then x else y)"

definition hxmax :: "('a \<Rightarrow> 'a \<Rightarrow> bool) \<Rightarrow> 'a \<Rightarrow> 'a \<Rightarrow> 'a" where
  "hxmax lt x y = (if lt y x then x else y)"

definition hxabs :: "int \<Rightarrow> int" where
  "hxabs x = (if x < 0 then 0 - x else x)"

definition hxclamp :: "('a \<Rightarrow> 'a \<Rightarrow> bool) \<Rightarrow> 'a \<Rightarrow> 'a \<Rightarrow> 'a \<Rightarrow> 'a hx" where
  "hxclamp lt x minimum maximum =
     (if lt maximum minimum then Inl (Assert_debug ''bad_span inversion'')
      else Inr (if lt x minimum then minimum else if lt maximum x then maximum else x))"

definition hxswap :: "'a \<times> 'a \<Rightarrow> 'a \<times> 'a" where
  "hxswap p = (let t = fst p in (snd p, t))"

lemma hxclamp_int: "lo \<le> hi \<Longrightarrow> hxclamp (<) (x::int) lo hi = Inr (max lo (min x hi))"
  by (auto simp: hxclamp_def)

section \<open>Character classes\<close>

text \<open>The subtraction is done on \<open>unsigned int\<close>, so a character below the range wraps around to a
  large value and fails the single comparison.\<close>

definition char_u32 :: "char \<Rightarrow> u32" where
  "char_u32 c = word_of_nat (of_char c)"

definition hxisgraph :: "char \<Rightarrow> bool" where
  "hxisgraph ch \<longleftrightarrow> char_u32 ch - 0x21 < 0x5e \<or> char_u32 ch AND 0x80 \<noteq> 0"

definition hxisspace :: "char \<Rightarrow> bool" where
  "hxisspace ch \<longleftrightarrow> ch = CHR '' '' \<or> char_u32 ch - 0x09 < 0x05"

section \<open>The integer logarithm\<close>

text \<open>The portable branch narrows the highest set bit down by binary search.\<close>

definition log2i_narrow :: "u32 \<Rightarrow> nat \<Rightarrow> u32 \<times> int \<Rightarrow> u32 \<times> int" where
  "log2i_narrow m s p = (if fst p AND m \<noteq> 0 then (drop_bit s (fst p), snd p + int s) else p)"

definition hxlog2i_portable :: "u32 \<Rightarrow> int" where
  "hxlog2i_portable i0 =
     (let p1 = log2i_narrow 0xffff0000 16 (i0, 0);
          p2 = log2i_narrow 0x0000ff00 8 p1;
          p3 = log2i_narrow 0x000000f0 4 p2;
          p4 = log2i_narrow 0x0000000c 2 p3
      in if fst p4 AND 0x00000002 \<noteq> 0 then snd p4 + 1 else snd p4)"

text \<open>\<open>__builtin_clz\<close> counts the zero bits above the highest set bit and is undefined for 0.\<close>

fun builtin_clz_from :: "nat \<Rightarrow> u32 \<Rightarrow> int" where
  "builtin_clz_from 0 w = 0"
| "builtin_clz_from (Suc n) w = (if bit w n then 0 else 1 + builtin_clz_from n w)"

definition hxlog2i :: "u32 \<Rightarrow> int hx" where
  "hxlog2i i =
     (if i = 0 then Inl (Undefined_behavior ''__builtin_clz(0)'')
      else Inr (31 - builtin_clz_from 32 i))"

subsection \<open>Both branches are the floor of the logarithm\<close>

lemma builtin_clz_from_bounds:
  "unat w < 2 ^ n \<Longrightarrow> w \<noteq> 0 \<Longrightarrow> n \<le> 32 \<Longrightarrow>
   \<exists>l. builtin_clz_from n w = int n - 1 - int l \<and> l < n \<and> 2 ^ l \<le> unat w \<and> unat w < 2 ^ Suc l"
proof (induction n)
  case 0
  then show ?case by (simp add: unat_eq_zero)
next
  case (Suc n)
  show ?case
  proof (cases "bit w n")
    case True
    then have "2 ^ n \<le> unat w"
      by (metis bit_unat not_less bit_iff_odd div_less even_zero)
    with Suc.prems True show ?thesis
      by (intro exI [of _ n]) simp
  next
    case False
    have "unat w < 2 ^ n"
    proof (rule ccontr)
      assume "\<not> unat w < 2 ^ n"
      with Suc.prems(1) have "unat w div 2 ^ n = 1"
        by (simp add: div_nat_eqI)
      then have "bit (unat w) n" by (simp add: bit_iff_odd)
      with False show False by (simp add: bit_unat)
    qed
    with Suc obtain l where
      "builtin_clz_from n w = int n - 1 - int l" "l < n" "2 ^ l \<le> unat w" "unat w < 2 ^ Suc l"
      by auto
    with False show ?thesis by (intro exI [of _ l]) simp
  qed
qed

lemma hxlog2i_floor:
  assumes "i \<noteq> 0"
  obtains l where "hxlog2i i = Inr (int l)" and "2 ^ l \<le> unat i" and "unat i < 2 ^ Suc l" and "l < 32"
proof -
  have "unat i < 2 ^ 32" using unat_bound [of i] by simp
  from builtin_clz_from_bounds [OF this assms] obtain l where
    "builtin_clz_from 32 i = 31 - int l" "l < 32" "2 ^ l \<le> unat i" "unat i < 2 ^ Suc l"
    by auto
  then show ?thesis using assms by (intro that [of l]) (simp_all add: hxlog2i_def)
qed

text \<open>A mask over the bits \<open>a\<close> to \<open>a + b - 1\<close> decides a comparison with \<open>2 ^ a\<close>, as soon as no
  higher bit is set.\<close>

lemma and_high_mask_zero_iff:
  fixes w :: u32
  assumes "unat w < 2 ^ (a + b)" and "a + b \<le> 32"
  shows "w AND push_bit a (mask b) = 0 \<longleftrightarrow> unat w < 2 ^ a"
proof -
  have high: "\<not> bit w n" if "a + b \<le> n" for n
  proof -
    have "unat w < 2 ^ n" using assms(1) that by (meson less_le_trans one_le_numeral power_increasing)
    then show ?thesis by (metis bit_unat bit_iff_odd div_less even_zero)
  qed
  have "w AND push_bit a (mask b) = 0 \<longleftrightarrow> (\<forall>n. a \<le> n \<longrightarrow> n < a + b \<longrightarrow> \<not> bit w n)"
  proof -
    have "bit (push_bit a (mask b) :: u32) n \<longleftrightarrow> a \<le> n \<and> n < a + b" for n
      using assms(2) by (auto simp: bit_push_bit_iff bit_mask_iff)
    then show ?thesis
      using assms(2) by (simp add: bit_eq_iff bit_and_iff) (meson less_le_trans)
  qed
  also have "\<dots> \<longleftrightarrow> (\<forall>n. \<not> bit (unat w) (a + n))"
    using high by (metis add.commute bit_unat le_add1 le_iff_add not_less)
  also have "\<dots> \<longleftrightarrow> drop_bit a (unat w) = 0"
    by (auto simp: bit_eq_iff bit_drop_bit_eq)
  also have "\<dots> \<longleftrightarrow> unat w < 2 ^ a"
    by (simp add: drop_bit_eq_div div_eq_0_iff)
  finally show ?thesis .
qed

lemma hxlog2i_masks:
  "(0xffff0000 :: u32) = push_bit 16 (mask 16)" "(0x0000ff00 :: u32) = push_bit 8 (mask 8)"
  "(0x000000f0 :: u32) = push_bit 4 (mask 4)" "(0x0000000c :: u32) = push_bit 2 (mask 2)"
  "(0x00000002 :: u32) = push_bit 1 (mask 1)"
  by (simp_all add: mask_eq_exp_minus_1 push_bit_eq_mult)

text \<open>One step of the search: it keeps the quotient by the power found so far and halves the width
  of what is left.\<close>

definition log_step :: "nat \<Rightarrow> u32 \<Rightarrow> u32 \<times> int \<Rightarrow> bool" where
  "log_step k i p \<longleftrightarrow>
     0 \<le> snd p \<and> unat (fst p) = unat i div 2 ^ nat (snd p) \<and> unat (fst p) < 2 ^ k \<and> fst p \<noteq> 0"

lemma log_step_narrow:
  assumes "log_step (k + k) i p" and "k + k \<le> 32" and m: "m = push_bit k (mask k)"
  shows "log_step k i (log2i_narrow m k p)"
proof -
  obtain w r where p: "p = (w, r)" by (cases p)
  have w: "unat w = unat i div 2 ^ nat r" "unat w < 2 ^ (k + k)" "w \<noteq> 0" "0 \<le> r"
    using assms(1) by (auto simp: log_step_def p)
  note cmp = and_high_mask_zero_iff [OF w(2) assms(2)]
  note drop = unat_drop_bit [of k w]
  show ?thesis
  proof (cases "unat w < 2 ^ k")
    case True
    with w cmp show ?thesis by (simp add: log_step_def log2i_narrow_def m p)
  next
    case False
    have "unat w div 2 ^ k < 2 ^ k" using w(2) by (simp add: less_mult_imp_div_less power_add)
    moreover have "drop_bit k w \<noteq> 0"
      using False drop by (metis div_greater_zero_iff not_gr_zero not_less unsigned_0 zero_less_numeral zero_less_power)
    moreover have "unat w div 2 ^ k = unat i div 2 ^ nat (r + int k)"
      using w(4) by (simp add: w(1) div_mult2_eq power_add nat_add_distrib)
    ultimately show ?thesis using False cmp drop w(4) by (simp add: log_step_def log2i_narrow_def m p)
  qed
qed

lemma log_step_finish:
  assumes "log_step 1 i p"
  shows "unat i div 2 ^ nat (snd p) = 1"
proof -
  have "fst p \<noteq> 0" "unat (fst p) < 2" and eq: "unat (fst p) = unat i div 2 ^ nat (snd p)"
    using assms by (simp_all add: log_step_def)
  then have "unat (fst p) = 1" by (metis less_2_cases unat_eq_0 One_nat_def)
  with eq show ?thesis by simp
qed

lemma floor_log_unique:
  assumes "2 ^ l \<le> n" and "n < 2 ^ Suc l" and "n div 2 ^ r = (1::nat)"
  shows "l = r"
proof (rule antisym)
  have "2 ^ r \<le> n" "n < 2 ^ Suc r"
    using assms(3) by (metis div_less not_less zero_neq_one, simp add: div_less_iff_less_mult [of "2 ^ r" n 2, symmetric])
  with assms show "l \<le> r" "r \<le> l"
    by (metis le_less_trans less_Suc_eq_le one_less_numeral_iff power_less_imp_less_exp semiring_norm(76))+
qed

lemma hxlog2i_portable_quotient:
  assumes "i \<noteq> 0"
  shows "0 \<le> hxlog2i_portable i \<and> unat i div 2 ^ nat (hxlog2i_portable i) = 1"
proof -
  define p1 where "p1 = log2i_narrow 0xffff0000 16 (i, 0)"
  define p2 where "p2 = log2i_narrow 0x0000ff00 8 p1"
  define p3 where "p3 = log2i_narrow 0x000000f0 4 p2"
  define p4 where "p4 = log2i_narrow 0x0000000c 2 p3"
  define p5 where "p5 = log2i_narrow 0x00000002 1 p4"
  have s0: "log_step 32 i (i, 0)" using unat_bound [of i] assms by (simp add: log_step_def)
  have s1: "log_step 16 i p1" unfolding p1_def by (rule log_step_narrow) (simp_all add: s0 hxlog2i_masks)
  have s2: "log_step 8 i p2" unfolding p2_def by (rule log_step_narrow) (simp_all add: s1 hxlog2i_masks)
  have s3: "log_step 4 i p3" unfolding p3_def by (rule log_step_narrow) (simp_all add: s2 hxlog2i_masks)
  have s4: "log_step 2 i p4" unfolding p4_def by (rule log_step_narrow) (simp_all add: s3 hxlog2i_masks)
  have s5: "log_step 1 i p5" unfolding p5_def
    by (rule log_step_narrow) (simp_all add: s4 hxlog2i_masks one_add_one del: One_nat_def)
  have "hxlog2i_portable i = snd p5"
    by (simp add: hxlog2i_portable_def Let_def p1_def p2_def p3_def p4_def p5_def log2i_narrow_def [of 2])
  with log_step_finish [OF s5] s5 show ?thesis by (simp add: log_step_def)
qed

section \<open>Properties\<close>

text \<open>For every nonzero argument, the portable bit search of \<open>hxlog2i\<close> returns what the
  \<open>__builtin_clz\<close> branch returns, and that value is the floor of the binary logarithm.\<close>

lemma hxlog2i_branches_agree:
  assumes "i \<noteq> 0"
  shows "\<exists>l. hxlog2i i = Inr (int l) \<and> hxlog2i_portable i = int l \<and>
             2 ^ l \<le> unat i \<and> unat i < 2 ^ Suc l"
proof -
  obtain l where l: "hxlog2i i = Inr (int l)" "2 ^ l \<le> unat i" "unat i < 2 ^ Suc l"
    using hxlog2i_floor [OF assms] by blast
  moreover have "l = nat (hxlog2i_portable i)"
    using floor_log_unique [OF l(2,3)] hxlog2i_portable_quotient [OF assms] by blast
  ultimately show ?thesis
    using hxlog2i_portable_quotient [OF assms] by (intro exI [of _ l]) simp
qed

lemma hxlog2i_branches_agree_witness: "(1000000 :: u32) \<noteq> 0 \<and> hxlog2i 1000000 = Inr 19"
proof -
  obtain l where l: "hxlog2i 1000000 = Inr (int l)" "2 ^ l \<le> (1000000::nat)" "1000000 < (2::nat) ^ Suc l"
    using hxlog2i_branches_agree [of 1000000] by auto
  have "l = 19" by (rule floor_log_unique [OF l(2,3)]) simp
  with l(1) show ?thesis by simp
qed

end
