(* ===== verification/HxKey.thy ===== *)
theory HxKey
  imports HxPrelude "HOL-Library.List_Lexorder"
begin

text \<open>
  The key operations of \<^verbatim>\<open>include/hx/hxkey.hpp\<close>: equality, ordering, three-way comparison and the
  xxhash32 style hashes, for numeric keys and for C strings. The two interfaces every ordered
  algorithm of the library relies on are the locales of this theory: a strict weak order on
  keys, and a consistent triple of less-than, equality and three-way comparison.
\<close>

section \<open>The interfaces\<close>

locale strict_weak_order =
  fixes lt :: "'a \<Rightarrow> 'a \<Rightarrow> bool"
  assumes asym: "lt x y \<Longrightarrow> \<not> lt y x"
    and cotrans: "lt x z \<Longrightarrow> lt x y \<or> lt y z"
begin

lemma irrefl: "\<not> lt x x"
  using asym by blast

lemma trans: "lt x y \<Longrightarrow> lt y z \<Longrightarrow> lt x z"
  using asym cotrans by blast

lemma nlt_trans: "\<not> lt y x \<Longrightarrow> \<not> lt z y \<Longrightarrow> \<not> lt z x"
  using cotrans by blast

lemma lt_nlt_trans: "lt x y \<Longrightarrow> \<not> lt z y \<Longrightarrow> lt x z"
  using cotrans by blast

lemma nlt_lt_trans: "\<not> lt y x \<Longrightarrow> lt y z \<Longrightarrow> lt x z"
  using cotrans by blast

lemma nlt_total: "\<not> lt y x \<or> \<not> lt x y"
  using asym by blast

text \<open>Sorted lists: no later element is ordered before an earlier one.\<close>

lemma sorted_wrt_nlt_append:
  "sorted_wrt (\<lambda>x y. \<not> lt y x) (xs @ ys) \<longleftrightarrow>
   sorted_wrt (\<lambda>x y. \<not> lt y x) xs \<and> sorted_wrt (\<lambda>x y. \<not> lt y x) ys \<and>
   (\<forall>x\<in>set xs. \<forall>y\<in>set ys. \<not> lt y x)"
  by (rule sorted_wrt_append)

lemma transp_nlt: "transp (\<lambda>x y. \<not> lt y x)"
  by (rule transpI) (blast dest: nlt_trans)

lemma sorted_wrt_nlt_adjacent:
  "(\<And>i. Suc i < length xs \<Longrightarrow> \<not> lt (xs ! Suc i) (xs ! i)) \<Longrightarrow> sorted_wrt (\<lambda>x y. \<not> lt y x) xs"
  by (simp add: sorted_wrt_iff_nth_Suc_transp [OF transp_nlt])

end

text \<open>
  \<open>hxkey_equal_t\<close>, \<open>hxkey_less_t\<close> and \<open>hxkey_three_way_t\<close> must describe one order: containers
  choose freely between them (\<open>hxtrait_three_way\<close>).
\<close>

locale key_order = strict_weak_order lt
  for lt :: "'a \<Rightarrow> 'a \<Rightarrow> bool" +
  fixes eq :: "'a \<Rightarrow> 'a \<Rightarrow> bool"
    and three_way :: "'a \<Rightarrow> 'a \<Rightarrow> int"
  assumes eq_iff: "eq x y \<longleftrightarrow> \<not> lt x y \<and> \<not> lt y x"
    and three_way_neg: "three_way x y < 0 \<longleftrightarrow> lt x y"
    and three_way_zero: "three_way x y = 0 \<longleftrightarrow> eq x y"
begin

lemma eq_refl: "eq x x"
  by (simp add: eq_iff irrefl)

lemma eq_sym: "eq x y \<Longrightarrow> eq y x"
  by (auto simp: eq_iff)

lemma eq_trans: "eq x y \<Longrightarrow> eq y z \<Longrightarrow> eq x z"
  by (auto simp: eq_iff dest: cotrans)

lemma three_way_nonneg: "0 \<le> three_way x y \<longleftrightarrow> \<not> lt x y"
  using three_way_neg [of x y] by linarith

end

text \<open>A hash is usable in a table when equal keys have equal hashes.\<close>

locale key_hash =
  fixes eq :: "'a \<Rightarrow> 'a \<Rightarrow> bool"
    and hash :: "'a \<Rightarrow> u32"
  assumes equiv_refl: "eq x x"
    and equiv_sym: "eq x y \<Longrightarrow> eq y x"
    and equiv_trans: "eq x y \<Longrightarrow> eq y z \<Longrightarrow> eq x z"
    and hash_eq: "eq x y \<Longrightarrow> hash x = hash y"

section \<open>Numeric keys\<close>

text \<open>The default templates apply the operators of the type. The three-way comparison subtracts, which the source documents as
  suitable only when the subtraction cannot overflow: numbers are unbounded here, so the difference is exact as it is there under
  that condition.\<close>

definition hxkey_equal_num :: "int \<Rightarrow> int \<Rightarrow> bool" where
  "hxkey_equal_num a b \<longleftrightarrow> a = b"

definition hxkey_less_num :: "int \<Rightarrow> int \<Rightarrow> bool" where
  "hxkey_less_num a b \<longleftrightarrow> a < b"

definition hxkey_three_way_num :: "int \<Rightarrow> int \<Rightarrow> int" where
  "hxkey_three_way_num a b = a - b"

interpretation num_key: key_order hxkey_less_num hxkey_equal_num hxkey_three_way_num
  by unfold_locales (auto simp: hxkey_less_num_def hxkey_equal_num_def hxkey_three_way_num_def)

section \<open>C strings\<close>

text \<open>A key is a \<open>char\<close> array; the string ends at its first zero byte. \<open>strcmp\<close> compares the bytes
  as unsigned values and reads the terminator as 0.\<close>

definition c_str :: "string \<Rightarrow> string" where
  "c_str s = takeWhile (\<lambda>c. c \<noteq> CHR 0x00) s"

fun strcmp_bytes :: "string \<Rightarrow> string \<Rightarrow> int" where
  "strcmp_bytes [] [] = 0"
| "strcmp_bytes [] (y # ys) = - of_char y"
| "strcmp_bytes (x # xs) [] = of_char x"
| "strcmp_bytes (x # xs) (y # ys) = (if x = y then strcmp_bytes xs ys else of_char x - of_char y)"

definition strcmp :: "string \<Rightarrow> string \<Rightarrow> int" where
  "strcmp a b = strcmp_bytes (c_str a) (c_str b)"

definition hxkey_equal_str :: "string \<Rightarrow> string \<Rightarrow> bool" where
  "hxkey_equal_str a b \<longleftrightarrow> strcmp a b = 0"

definition hxkey_less_str :: "string \<Rightarrow> string \<Rightarrow> bool" where
  "hxkey_less_str a b \<longleftrightarrow> strcmp a b < 0"

definition hxkey_three_way_str :: "string \<Rightarrow> string \<Rightarrow> int" where
  "hxkey_three_way_str a b = strcmp a b"

lemma of_char_pos:
  assumes "c \<noteq> CHR 0x00"
  shows "0 < (of_char c :: int)"
proof -
  have "(of_char c :: nat) \<noteq> of_char (CHR 0x00)"
    using assms by (simp only: of_char_eq_iff not_False_eq_True)
  moreover have "of_char (CHR 0x00) = (0 :: nat)" by simp
  ultimately have "0 < (of_char c :: nat)" by (metis neq0_conv)
  then have "0 < int (of_char c)" by simp
  then show ?thesis by (simp only: of_nat_of_char)
qed

lemma of_char_pos_facts:
  assumes "CHR 0x00 \<noteq> c"
  shows "(of_char c :: int) \<noteq> 0" "0 < (of_char c :: int)" "\<not> (of_char c :: int) < 0"
  using of_char_pos [of c] assms by auto

lemma of_char_less_int: "(of_char x :: int) - of_char y < 0 \<longleftrightarrow> (of_char x :: nat) < of_char y"
proof -
  have "(of_char x :: int) = int (of_char x)" "(of_char y :: int) = int (of_char y)"
    by (simp_all only: of_nat_of_char)
  then show ?thesis by simp
qed

lemma strcmp_bytes_zero:
  "CHR 0x00 \<notin> set xs \<Longrightarrow> CHR 0x00 \<notin> set ys \<Longrightarrow> strcmp_bytes xs ys = 0 \<longleftrightarrow> xs = ys"
  by (induction xs ys rule: strcmp_bytes.induct) (auto simp: of_char_pos_facts)

lemma strcmp_bytes_neg:
  "CHR 0x00 \<notin> set xs \<Longrightarrow> CHR 0x00 \<notin> set ys \<Longrightarrow>
   strcmp_bytes xs ys < 0 \<longleftrightarrow> (map of_char xs :: nat list) < map of_char ys"
  by (induction xs ys rule: strcmp_bytes.induct)
     (auto simp: of_char_pos_facts of_char_less_int simp del: diff_less_0_iff_less)

lemma c_str_no_zero: "CHR 0x00 \<notin> set (c_str s)"
  by (auto simp: c_str_def dest: set_takeWhileD)

lemma hxkey_equal_str_iff: "hxkey_equal_str a b \<longleftrightarrow> c_str a = c_str b"
  by (simp add: hxkey_equal_str_def strcmp_def strcmp_bytes_zero c_str_no_zero)

lemma hxkey_less_str_iff:
  "hxkey_less_str a b \<longleftrightarrow> (map of_char (c_str a) :: nat list) < map of_char (c_str b)"
  by (simp add: hxkey_less_str_def strcmp_def strcmp_bytes_neg c_str_no_zero)

lemma of_char_map_inj: "(map of_char xs :: nat list) = map of_char ys \<longleftrightarrow> xs = ys"
  by (rule inj_map_eq_map) (simp add: inj_def)

interpretation str_key: key_order hxkey_less_str hxkey_equal_str hxkey_three_way_str
proof unfold_locales
  show "hxkey_equal_str x y \<longleftrightarrow> \<not> hxkey_less_str x y \<and> \<not> hxkey_less_str y x" for x y
    unfolding hxkey_equal_str_iff hxkey_less_str_iff of_char_map_inj [symmetric] by auto
qed (auto simp: hxkey_less_str_iff hxkey_three_way_str_def hxkey_equal_str_def
       simp flip: hxkey_less_str_def)

section \<open>Hashes\<close>

definition hxhash_k1 :: u32 where "hxhash_k1 = 0x9E3779B1"
definition hxhash_k2 :: u32 where "hxhash_k2 = 0x85EBCA77"
definition hxhash_k3 :: u32 where "hxhash_k3 = 0xC2B2AE3D"
definition hxhash_k4 :: u32 where "hxhash_k4 = 0x27D4EB2F"
definition hxhash_k5 :: u32 where "hxhash_k5 = 0x165667B1"

definition hxhash_avalanche :: "u32 \<Rightarrow> u32" where
  "hxhash_avalanche x0 =
     (let x1 = x0 XOR drop_bit 15 x0;
          x2 = x1 * hxhash_k2;
          x3 = x2 XOR drop_bit 13 x2;
          x4 = x3 * hxhash_k3
      in x4 XOR drop_bit 16 x4)"

text \<open>The key is cast to 32 bits first.\<close>

definition hxkey_hash_num :: "int \<Rightarrow> u32" where
  "hxkey_hash_num x =
     (let h0 = hxhash_k5 + 4;
          h1 = h0 + word_of_int x * hxhash_k3;
          h2 = (push_bit 17 h1 OR drop_bit 15 h1) * hxhash_k4
      in hxhash_avalanche h2)"

fun hash_str_loop :: "u32 \<Rightarrow> string \<Rightarrow> u32" where
  "hash_str_loop h [] = h"
| "hash_str_loop h (c # cs) =
     (if c = CHR 0x00 then h
      else let h1 = h + word_of_nat (of_char c) * hxhash_k5;
               h2 = (push_bit 11 h1 OR drop_bit 21 h1) * hxhash_k1
           in hash_str_loop h2 cs)"

definition hxkey_hash_str :: "string \<Rightarrow> u32" where
  "hxkey_hash_str s = hxhash_avalanche (hash_str_loop hxhash_k5 s)"

lemma hash_str_loop_c_str: "hash_str_loop h s = hash_str_loop h (c_str s)"
  by (induction h s rule: hash_str_loop.induct) (auto simp: c_str_def Let_def)

interpretation str_hash: key_hash hxkey_equal_str hxkey_hash_str
  by unfold_locales (metis hxkey_equal_str_iff hxkey_hash_str_def hash_str_loop_c_str)+

interpretation num_hash: key_hash hxkey_equal_num hxkey_hash_num
  by unfold_locales (auto simp: hxkey_equal_num_def)

subsection \<open>The integer hash loses no information\<close>

lemma xor_shift_inj:
  fixes x y :: "'a::len word"
  assumes "0 < k" and eq: "x XOR drop_bit k x = y XOR drop_bit k y"
  shows "x = y"
proof -
  have "bit x n = bit y n" for n
  proof (induction "LENGTH('a) - n" arbitrary: n rule: less_induct)
    case less
    show ?case
    proof (cases "n < LENGTH('a)")
      case True
      have "bit x (n + k) = bit y (n + k)"
        using less.hyps [of "n + k"] True assms(1) by (cases "n + k < LENGTH('a)") (auto dest: bit_imp_le_length)
      moreover have "bit (x XOR drop_bit k x) n = bit (y XOR drop_bit k y) n" by (simp only: eq)
      ultimately show ?thesis by (auto simp: bit_xor_iff bit_drop_bit_eq add.commute)
    qed (auto dest: bit_imp_le_length)
  qed
  then show ?thesis by (simp add: bit_eq_iff)
qed

lemma odd_mult_inj:
  fixes x y :: "'a::len word"
  assumes "k * k' = 1" and "x * k = y * k"
  shows "x = y"
proof -
  have "x = x * (k * k')" using assms(1) by simp
  also have "\<dots> = (y * k) * k'" using assms(2) by (simp add: mult.assoc [symmetric])
  also have "\<dots> = y" using assms(1) by (simp add: mult.assoc)
  finally show ?thesis .
qed

lemma rotate_or_bit:
  fixes h :: u32
  shows "bit (push_bit 17 h OR drop_bit 15 h) n \<longleftrightarrow> n < 32 \<and> bit h (if 17 \<le> n then n - 17 else n + 15)"
  by (auto simp: bit_or_iff bit_push_bit_iff bit_drop_bit_eq add.commute dest: bit_imp_le_length)

lemma rotate_inj:
  fixes g h :: u32
  assumes "push_bit 17 g OR drop_bit 15 g = push_bit 17 h OR drop_bit 15 h"
  shows "g = h"
proof -
  have "bit g n = bit h n" for n
  proof (cases "n < 15")
    case True
    then show ?thesis
      using arg_cong [OF assms, of "\<lambda>w. bit w (n + 17)"] by (simp only: rotate_or_bit) simp
  next
    case False
    show ?thesis
    proof (cases "n < 32")
      case True
      then show ?thesis
        using False arg_cong [OF assms, of "\<lambda>w. bit w (n - 15)"] by (simp only: rotate_or_bit) (simp split: if_splits)
    qed (auto dest: bit_imp_le_length)
  qed
  then show ?thesis by (simp add: bit_eq_iff)
qed

lemma hxhash_k_inverses:
  "hxhash_k2 * 0xb6c92f47 = 1" "hxhash_k3 * 0xa89ed915 = 1" "hxhash_k4 * 0xa0fe3bcf = 1"
  by (simp_all add: hxhash_k2_def hxhash_k3_def hxhash_k4_def)

lemma hxhash_avalanche_inj: "hxhash_avalanche x = hxhash_avalanche y \<Longrightarrow> x = y"
  unfolding hxhash_avalanche_def Let_def
  by (drule xor_shift_inj [rotated], simp, drule odd_mult_inj [OF hxhash_k_inverses(2)],
      drule xor_shift_inj [rotated], simp, drule odd_mult_inj [OF hxhash_k_inverses(1)],
      erule xor_shift_inj [rotated], simp)

section \<open>Properties\<close>

text \<open>The xxhash32 style hash of a numeric key is a bijection on the 32 bits it is cast to: two keys
  collide exactly when they are congruent modulo \<open>2 ^ 32\<close>, so keys of at most 32 bits never collide.\<close>

lemma hxkey_hash_num_collision_free:
  "hxkey_hash_num x = hxkey_hash_num y \<longleftrightarrow> x mod 2 ^ 32 = y mod 2 ^ 32"
proof
  assume "hxkey_hash_num x = hxkey_hash_num y"
  then have "(word_of_int x :: u32) * hxhash_k3 = word_of_int y * hxhash_k3"
    unfolding hxkey_hash_num_def Let_def
    by (auto dest!: hxhash_avalanche_inj odd_mult_inj [OF hxhash_k_inverses(3)] rotate_inj)
  then have "(word_of_int x :: u32) = word_of_int y" by (rule odd_mult_inj [OF hxhash_k_inverses(2)])
  then show "x mod 2 ^ 32 = y mod 2 ^ 32" by (simp add: word_of_int_eq_iff take_bit_eq_mod)
next
  assume "x mod 2 ^ 32 = y mod 2 ^ 32"
  then have "(word_of_int x :: u32) = word_of_int y" by (simp add: word_of_int_eq_iff take_bit_eq_mod)
  then show "hxkey_hash_num x = hxkey_hash_num y" by (simp add: hxkey_hash_num_def)
qed

end
