(* ===== verification/HxPair.thy ===== *)
theory HxPair
  imports HxKey
begin

text \<open>
  The pair of \<^verbatim>\<open>include/hx/hxpair.hpp\<close>: its order, equality and hash are made of those of its parts. The interfaces of keys carry over, so a pair
  is a key for every container of the library; pairs of numbers and strings are the instances.
\<close>

record ('a, 'b) hxpair =
  pair_a :: 'a
  pair_b :: 'b

definition hxpair_less :: "('a \<Rightarrow> 'a \<Rightarrow> bool) \<Rightarrow> ('a \<Rightarrow> 'a \<Rightarrow> bool) \<Rightarrow> ('b \<Rightarrow> 'b \<Rightarrow> bool) \<Rightarrow> ('a, 'b) hxpair \<Rightarrow> ('a, 'b) hxpair \<Rightarrow> bool" where
  "hxpair_less equal_a less_a less_b x y =
     (if equal_a (pair_a x) (pair_a y) then less_b (pair_b x) (pair_b y) else less_a (pair_a x) (pair_a y))"

definition hxpair_equal :: "('a \<Rightarrow> 'a \<Rightarrow> bool) \<Rightarrow> ('b \<Rightarrow> 'b \<Rightarrow> bool) \<Rightarrow> ('a, 'b) hxpair \<Rightarrow> ('a, 'b) hxpair \<Rightarrow> bool" where
  "hxpair_equal equal_a equal_b x y = (equal_a (pair_a x) (pair_a y) \<and> equal_b (pair_b x) (pair_b y))"

definition hxpair_three_way :: "('a \<Rightarrow> 'a \<Rightarrow> int) \<Rightarrow> ('b \<Rightarrow> 'b \<Rightarrow> int) \<Rightarrow> ('a, 'b) hxpair \<Rightarrow> ('a, 'b) hxpair \<Rightarrow> int" where
  "hxpair_three_way three_way_a three_way_b x y =
     (let c = three_way_a (pair_a x) (pair_a y) in if c \<noteq> 0 then c else three_way_b (pair_b x) (pair_b y))"

definition hxpair_hash :: "('a \<Rightarrow> u32) \<Rightarrow> ('b \<Rightarrow> u32) \<Rightarrow> ('a, 'b) hxpair \<Rightarrow> u32" where
  "hxpair_hash hash_a hash_b x =
     (let h0 = hxhash_k5;
          h1 = h0 + hash_a (pair_a x) * hxhash_k5;
          h2 = (push_bit 11 h1 OR drop_bit 21 h1) * hxhash_k1;
          h3 = h2 + hash_b (pair_b x) * hxhash_k5;
          h4 = (push_bit 11 h3 OR drop_bit 21 h3) * hxhash_k1
      in hxhash_avalanche h4)"

text \<open>Two ordered keys make an ordered pair.\<close>

locale pair_order = a: key_order lt_a eq_a tw_a + b: key_order lt_b eq_b tw_b
  for lt_a :: "'a \<Rightarrow> 'a \<Rightarrow> bool" and eq_a :: "'a \<Rightarrow> 'a \<Rightarrow> bool" and tw_a :: "'a \<Rightarrow> 'a \<Rightarrow> int"
    and lt_b :: "'b \<Rightarrow> 'b \<Rightarrow> bool" and eq_b :: "'b \<Rightarrow> 'b \<Rightarrow> bool" and tw_b :: "'b \<Rightarrow> 'b \<Rightarrow> int"
begin

lemma less_iff: "hxpair_less eq_a lt_a lt_b x y \<longleftrightarrow> lt_a (pair_a x) (pair_a y) \<or> \<not> lt_a (pair_a y) (pair_a x) \<and> lt_b (pair_b x) (pair_b y)"
  using a.asym a.eq_iff by (auto simp: hxpair_less_def)

lemma pair_is_key: "key_order (hxpair_less eq_a lt_a lt_b) (hxpair_equal eq_a eq_b) (hxpair_three_way tw_a tw_b)"
proof
  show "\<not> hxpair_less eq_a lt_a lt_b y x" if "hxpair_less eq_a lt_a lt_b x y" for x y
    using that a.asym b.asym unfolding less_iff by blast
  show "hxpair_less eq_a lt_a lt_b x y \<or> hxpair_less eq_a lt_a lt_b y z" if "hxpair_less eq_a lt_a lt_b x z" for x y z
    using that a.cotrans b.cotrans a.asym unfolding less_iff by blast
  show "hxpair_equal eq_a eq_b x y \<longleftrightarrow> \<not> hxpair_less eq_a lt_a lt_b x y \<and> \<not> hxpair_less eq_a lt_a lt_b y x" for x y
    unfolding less_iff hxpair_equal_def a.eq_iff b.eq_iff by blast
  show "hxpair_three_way tw_a tw_b x y < 0 \<longleftrightarrow> hxpair_less eq_a lt_a lt_b x y" for x y
    using a.three_way_zero a.three_way_neg b.three_way_neg by (auto simp: hxpair_three_way_def hxpair_less_def Let_def)
  show "hxpair_three_way tw_a tw_b x y = 0 \<longleftrightarrow> hxpair_equal eq_a eq_b x y" for x y
    using a.three_way_zero b.three_way_zero by (simp add: hxpair_three_way_def hxpair_equal_def Let_def)
qed

end

sublocale pair_order \<subseteq> pair: key_order "hxpair_less eq_a lt_a lt_b" "hxpair_equal eq_a eq_b" "hxpair_three_way tw_a tw_b"
  by (rule pair_is_key)

interpretation num_str_pair: pair_order hxkey_less_num hxkey_equal_num hxkey_three_way_num hxkey_less_str hxkey_equal_str hxkey_three_way_str
  by unfold_locales

text \<open>Two hashed keys make a hashed pair.\<close>

lemma pair_hash:
  assumes "key_hash eq_a hash_a" and "key_hash eq_b hash_b"
  shows "key_hash (hxpair_equal eq_a eq_b) (hxpair_hash hash_a hash_b)"
proof
  show "hxpair_equal eq_a eq_b x x" for x
    using key_hash.equiv_refl [OF assms(1)] key_hash.equiv_refl [OF assms(2)] by (simp add: hxpair_equal_def)
  show "hxpair_equal eq_a eq_b y x" if "hxpair_equal eq_a eq_b x y" for x y
    using that key_hash.equiv_sym [OF assms(1)] key_hash.equiv_sym [OF assms(2)] by (simp add: hxpair_equal_def)
  show "hxpair_equal eq_a eq_b x z" if "hxpair_equal eq_a eq_b x y" "hxpair_equal eq_a eq_b y z" for x y z
    using that key_hash.equiv_trans [OF assms(1)] key_hash.equiv_trans [OF assms(2)] unfolding hxpair_equal_def by blast
  show "hxpair_hash hash_a hash_b x = hxpair_hash hash_a hash_b y" if "hxpair_equal eq_a eq_b x y" for x y
  proof -
    have "hash_a (pair_a x) = hash_a (pair_a y)" "hash_b (pair_b x) = hash_b (pair_b y)"
      using that key_hash.hash_eq [OF assms(1)] key_hash.hash_eq [OF assms(2)] unfolding hxpair_equal_def by blast+
    then show ?thesis by (simp only: hxpair_hash_def)
  qed
qed

interpretation num_str_pair_hash: key_hash "hxpair_equal hxkey_equal_num hxkey_equal_str" "hxpair_hash hxkey_hash_num hxkey_hash_str"
  by (rule pair_hash [OF num_hash.key_hash_axioms str_hash.key_hash_axioms])

end
