(* ===== verification/HxRange.thy ===== *)
theory HxRange
  imports HxKey HxUtility
begin

text \<open>
  The range algorithms of \<^verbatim>\<open>include/hx/hxrange.hpp\<close> and the searches of
  \<^verbatim>\<open>include/hx/detail/hxrange_detail.hpp\<close>. A range is the list of the elements its iterators
  visit, an iterator into it is an index (\<open>end()\<close> is the length), and an output iterator is the
  list of what has been written through it so far.
\<close>

section \<open>Visiting every element\<close>

fun hxall_of :: "('a \<Rightarrow> bool) \<Rightarrow> 'a list \<Rightarrow> bool" where
  "hxall_of callable [] = True"
| "hxall_of callable (x # xs) = (if \<not> callable x then False else hxall_of callable xs)"

fun hxany_of :: "('a \<Rightarrow> bool) \<Rightarrow> 'a list \<Rightarrow> bool" where
  "hxany_of callable [] = False"
| "hxany_of callable (x # xs) = (if callable x then True else hxany_of callable xs)"

fun hxcount_if_loop :: "('a \<Rightarrow> bool) \<Rightarrow> 'a list \<Rightarrow> hxsize_t \<Rightarrow> hxsize_t" where
  "hxcount_if_loop callable [] cnt = cnt"
| "hxcount_if_loop callable (x # xs) cnt =
     hxcount_if_loop callable xs (if callable x then cnt + 1 else cnt)"

definition hxcount_if :: "('a \<Rightarrow> bool) \<Rightarrow> 'a list \<Rightarrow> hxsize_t" where
  "hxcount_if callable xs = hxcount_if_loop callable xs 0"

text \<open>The result is the index of the iterator returned.\<close>

fun hxfind_if_loop :: "('a \<Rightarrow> bool) \<Rightarrow> 'a list \<Rightarrow> nat \<Rightarrow> nat" where
  "hxfind_if_loop callable [] it = it"
| "hxfind_if_loop callable (x # xs) it = (if callable x then it else hxfind_if_loop callable xs (Suc it))"

definition hxfind_if :: "('a \<Rightarrow> bool) \<Rightarrow> 'a list \<Rightarrow> nat" where
  "hxfind_if callable xs = hxfind_if_loop callable xs 0"

text \<open>The callable is an object whose calls may change its state \<open>s\<close> and the element visited.\<close>

fun hxfor_each :: "('s \<Rightarrow> 'a \<Rightarrow> 's \<times> 'a) \<Rightarrow> 's \<Rightarrow> 'a list \<Rightarrow> 's \<times> 'a list" where
  "hxfor_each callable s [] = (s, [])"
| "hxfor_each callable s (x # xs) =
     (let (s1, x1) = callable s x; (s2, xs2) = hxfor_each callable s1 xs in (s2, x1 # xs2))"

definition hxexchange :: "'a \<Rightarrow> 'a \<Rightarrow> 'a \<times> 'a" where
  "hxexchange obj new = (let old = obj in (old, new))"

section \<open>Copying\<close>

text \<open>Copying, moving and forwarding write the same values; they differ in the value category of
  what they read, which the model's immutable values do not show.\<close>

fun hxcopy_range :: "'a list \<Rightarrow> 'a list \<Rightarrow> 'a list" where
  "hxcopy_range [] output = output"
| "hxcopy_range (x # xs) output = hxcopy_range xs (output @ [x])"

fun hxcopy_range_if :: "'a list \<Rightarrow> 'a list \<Rightarrow> ('a \<Rightarrow> bool) \<Rightarrow> 'a list" where
  "hxcopy_range_if [] output callable = output"
| "hxcopy_range_if (x # xs) output callable =
     hxcopy_range_if xs (if callable x then output @ [x] else output) callable"

fun hxmove_range :: "'a list \<Rightarrow> 'a list \<Rightarrow> 'a list" where
  "hxmove_range [] output = output"
| "hxmove_range (x # xs) output = hxmove_range xs (output @ [x])"

fun hxmove_range_if :: "'a list \<Rightarrow> 'a list \<Rightarrow> ('a \<Rightarrow> bool) \<Rightarrow> 'a list" where
  "hxmove_range_if [] output callable = output"
| "hxmove_range_if (x # xs) output callable =
     hxmove_range_if xs (if callable x then output @ [x] else output) callable"

fun hxforward_range :: "'a list \<Rightarrow> 'a list \<Rightarrow> 'a list" where
  "hxforward_range [] output = output"
| "hxforward_range (x # xs) output = hxforward_range xs (output @ [x])"

fun hxforward_range_if :: "'a list \<Rightarrow> 'a list \<Rightarrow> ('a \<Rightarrow> bool) \<Rightarrow> 'a list" where
  "hxforward_range_if [] output callable = output"
| "hxforward_range_if (x # xs) output callable =
     hxforward_range_if xs (if callable x then output @ [x] else output) callable"

section \<open>Comparing ranges\<close>

text \<open>Random access iterators compare the lengths first; forward iterators find out at the end.\<close>

fun hxequal_range_forward :: "('a \<Rightarrow> 'b \<Rightarrow> bool) \<Rightarrow> 'a list \<Rightarrow> 'b list \<Rightarrow> bool" where
  "hxequal_range_forward equal (x # xs) (y # ys) =
     (if \<not> equal x y then False else hxequal_range_forward equal xs ys)"
| "hxequal_range_forward equal xs ys = (xs = [] \<and> ys = [])"

fun hxequal_range_body :: "('a \<Rightarrow> 'b \<Rightarrow> bool) \<Rightarrow> 'a list \<Rightarrow> 'b list \<Rightarrow> bool" where
  "hxequal_range_body equal [] ys = True"
| "hxequal_range_body equal (x # xs) ys =
     (if \<not> equal x (hd ys) then False else hxequal_range_body equal xs (tl ys))"

definition hxequal_range :: "('a \<Rightarrow> 'b \<Rightarrow> bool) \<Rightarrow> 'a list \<Rightarrow> 'b list \<Rightarrow> bool" where
  "hxequal_range equal xs ys =
     (if length xs \<noteq> length ys then False else hxequal_range_body equal xs ys)"

fun hxless_range :: "('a \<Rightarrow> 'b \<Rightarrow> bool) \<Rightarrow> ('a \<Rightarrow> 'b \<Rightarrow> bool) \<Rightarrow> 'a list \<Rightarrow> 'b list \<Rightarrow> bool" where
  "hxless_range equal lt (x # xs) (y # ys) =
     (if \<not> equal x y then lt x y else hxless_range equal lt xs ys)"
| "hxless_range equal lt xs ys = (xs = [] \<and> ys \<noteq> [])"

section \<open>Binary searches\<close>

text \<open>The loop all the searches share: \<open>advance\<close> decides from the middle element whether the answer
  lies to its right.\<close>

function bound_loop :: "('a \<Rightarrow> bool) \<Rightarrow> 'a list \<Rightarrow> nat \<Rightarrow> nat \<Rightarrow> nat" where
  "bound_loop advance xs begin cnt =
     (if 0 < cnt
      then let step = cnt div 2; mid = begin + step
           in if advance (xs ! mid) then bound_loop advance xs (mid + 1) (cnt - (step + 1))
              else bound_loop advance xs begin step
      else begin)"
  by pat_completeness auto
termination
  by (relation "measure (\<lambda>(advance, xs, begin, cnt). cnt)") auto

declare bound_loop.simps [simp del]

definition hxlower_bound :: "('a \<Rightarrow> 'b \<Rightarrow> bool) \<Rightarrow> 'a list \<Rightarrow> 'b \<Rightarrow> nat" where
  "hxlower_bound lt xs v = bound_loop (\<lambda>m. lt m v) xs 0 (length xs)"

definition hxupper_bound :: "('b \<Rightarrow> 'a \<Rightarrow> bool) \<Rightarrow> 'a list \<Rightarrow> 'b \<Rightarrow> nat" where
  "hxupper_bound lt xs v = bound_loop (\<lambda>m. \<not> lt v m) xs 0 (length xs)"

definition hxsearch :: "('a \<Rightarrow> 'a \<Rightarrow> bool) \<Rightarrow> 'a list \<Rightarrow> 'a \<Rightarrow> nat" where
  "hxsearch lt xs v =
     (let it = hxlower_bound lt xs v
      in if it \<noteq> length xs \<and> \<not> lt v (xs ! it) then it else length xs)"

text \<open>\<open>hxcompare_<three_way>\<close>: a comparison object is a less-than predicate or a three-way
  comparison, chosen by \<open>hxtrait_three_way\<close>.\<close>

datatype 'a hxcompare = Compare_less "'a \<Rightarrow> 'a \<Rightarrow> bool" | Compare_three_way "'a \<Rightarrow> 'a \<Rightarrow> int"

fun hxcompare_before :: "'a hxcompare \<Rightarrow> 'a \<Rightarrow> 'a \<Rightarrow> bool" where
  "hxcompare_before (Compare_less compare) a b = compare a b"
| "hxcompare_before (Compare_three_way compare) a b = (compare a b < 0)"

fun hxcompare_after :: "'a hxcompare \<Rightarrow> 'a \<Rightarrow> 'a \<Rightarrow> bool" where
  "hxcompare_after (Compare_less compare) a b = (\<not> compare a b)"
| "hxcompare_after (Compare_three_way compare) a b = (compare a b \<ge> 0)"

fun hxcompare_equal :: "'a hxcompare \<Rightarrow> 'a \<Rightarrow> 'a \<Rightarrow> bool" where
  "hxcompare_equal (Compare_less compare) a b = (\<not> compare a b)"
| "hxcompare_equal (Compare_three_way compare) a b = (compare a b = 0)"

fun hxcompare_step :: "'a hxcompare \<Rightarrow> 'a \<Rightarrow> 'a \<Rightarrow> bool \<times> bool" where
  "hxcompare_step (Compare_less compare) a b = (compare a b, False)"
| "hxcompare_step (Compare_three_way compare) a b = (let cmp = compare a b in (cmp < 0, cmp = 0))"

definition hxlower_bound_iterator :: "'a hxcompare \<Rightarrow> 'a list \<Rightarrow> 'a \<Rightarrow> nat" where
  "hxlower_bound_iterator compare xs v = bound_loop (\<lambda>m. hxcompare_before compare m v) xs 0 (length xs)"

definition hxupper_bound_iterator :: "'a hxcompare \<Rightarrow> 'a list \<Rightarrow> 'a \<Rightarrow> nat" where
  "hxupper_bound_iterator compare xs v = bound_loop (\<lambda>m. hxcompare_after compare v m) xs 0 (length xs)"

function lower_bound_pair_loop :: "'a hxcompare \<Rightarrow> 'a list \<Rightarrow> 'a \<Rightarrow> nat \<Rightarrow> nat \<Rightarrow> bool \<Rightarrow> nat \<times> bool" where
  "lower_bound_pair_loop compare xs v begin cnt found =
     (if 0 < cnt
      then let step = cnt div 2; mid = begin + step; cmp = hxcompare_step compare (xs ! mid) v
           in if fst cmp then lower_bound_pair_loop compare xs v (mid + 1) (cnt - (step + 1)) found
              else lower_bound_pair_loop compare xs v begin step (snd cmp)
      else (begin, found))"
  by pat_completeness auto
termination
  by (relation "measure (\<lambda>(compare, xs, v, begin, cnt, found). cnt)") auto

declare lower_bound_pair_loop.simps [simp del]

text \<open>Without \<open>hxtrait_three_way\<close> equality is tested once, after the loop.\<close>

definition hxlower_bound_pair :: "'a hxcompare \<Rightarrow> 'a list \<Rightarrow> 'a \<Rightarrow> nat \<times> bool" where
  "hxlower_bound_pair compare xs v =
     (let (begin, found) = lower_bound_pair_loop compare xs v 0 (length xs) False
      in case compare of
           Compare_less lt \<Rightarrow> (begin, begin \<noteq> length xs \<and> hxcompare_equal compare v (xs ! begin))
         | Compare_three_way _ \<Rightarrow> (begin, found))"

definition hxbinary_search :: "'a hxcompare \<Rightarrow> 'a list \<Rightarrow> 'a \<Rightarrow> bool" where
  "hxbinary_search compare xs v = snd (hxlower_bound_pair compare xs v)"

section \<open>Specifications of the visits and copies\<close>

named_theorems range_spec

lemma hxall_of_spec [range_spec]: "hxall_of p xs \<longleftrightarrow> (\<forall>x\<in>set xs. p x)"
  by (induction xs) auto

lemma hxany_of_spec [range_spec]: "hxany_of p xs \<longleftrightarrow> (\<exists>x\<in>set xs. p x)"
  by (induction xs) auto

lemma hxcount_if_loop_spec: "hxcount_if_loop p xs n = n + int (length (filter p xs))"
  by (induction xs arbitrary: n) auto

lemma hxcount_if_spec [range_spec]: "hxcount_if p xs = int (length (filter p xs))"
  by (simp add: hxcount_if_def hxcount_if_loop_spec)

lemma hxfind_if_loop_spec:
  "hxfind_if_loop p xs it = it + length (takeWhile (\<lambda>x. \<not> p x) xs)"
  by (induction xs arbitrary: it) auto

lemma hxfind_if_spec [range_spec]: "hxfind_if p xs = length (takeWhile (\<lambda>x. \<not> p x) xs)"
  by (simp add: hxfind_if_def hxfind_if_loop_spec)

lemma hxcopy_range_spec [range_spec]: "hxcopy_range xs out = out @ xs"
  by (induction xs arbitrary: out) auto

lemma hxmove_range_spec [range_spec]: "hxmove_range xs out = out @ xs"
  by (induction xs arbitrary: out) auto

lemma hxforward_range_spec [range_spec]: "hxforward_range xs out = out @ xs"
  by (induction xs arbitrary: out) auto

lemma hxcopy_range_if_spec [range_spec]: "hxcopy_range_if xs out p = out @ filter p xs"
  by (induction xs arbitrary: out) auto

lemma hxmove_range_if_spec [range_spec]: "hxmove_range_if xs out p = out @ filter p xs"
  by (induction xs arbitrary: out) auto

lemma hxforward_range_if_spec [range_spec]: "hxforward_range_if xs out p = out @ filter p xs"
  by (induction xs arbitrary: out) auto

lemma hxequal_range_forward_spec: "hxequal_range_forward eq xs ys \<longleftrightarrow> list_all2 eq xs ys"
  by (induction eq xs ys rule: hxequal_range_forward.induct) (auto simp: list_all2_Cons1)

lemma hxequal_range_body_spec:
  "length xs = length ys \<Longrightarrow> hxequal_range_body eq xs ys \<longleftrightarrow> list_all2 eq xs ys"
  by (induction xs ys rule: list_induct2) auto

lemma hxequal_range_spec [range_spec]: "hxequal_range eq xs ys \<longleftrightarrow> list_all2 eq xs ys"
  by (auto simp: hxequal_range_def hxequal_range_body_spec dest: list_all2_lengthD)

section \<open>Container comparison is again an order on keys\<close>

context key_order begin

lemma hxless_range_asym: "hxless_range eq lt xs ys \<Longrightarrow> \<not> hxless_range eq lt ys xs"
  by (induction xs ys rule: list_induct2') (auto simp: eq_iff split: if_splits dest: asym)

lemma hxless_range_cotrans:
  "hxless_range eq lt xs zs \<Longrightarrow> hxless_range eq lt xs ys \<or> hxless_range eq lt ys zs"
proof (induction xs zs arbitrary: ys rule: list_induct2')
  case (3 z zs)
  then show ?case by (cases ys) auto
next
  case (4 x xs z zs)
  show ?case
  proof (cases ys)
    case Nil
    then show ?thesis by simp
  next
    case (Cons y ys')
    from "4.prems" consider "\<not> eq x z" "lt x z" | "eq x z" "hxless_range eq lt xs zs"
      by (auto split: if_splits)
    then show ?thesis
    proof cases
      case 1
      then have "lt x y \<or> lt y z" using cotrans by blast
      then show ?thesis using 1 Cons by (auto simp: eq_iff dest: asym cotrans)
    next
      case 2
      then have "hxless_range eq lt xs ys' \<or> hxless_range eq lt ys' zs" using "4.IH" by blast
      then show ?thesis using 2(1) Cons by (metis hxless_range.simps(1) eq_iff cotrans)
    qed
  qed
qed auto

lemma list_all2_eq_iff:
  "list_all2 eq xs ys \<longleftrightarrow> \<not> hxless_range eq lt xs ys \<and> \<not> hxless_range eq lt ys xs"
  by (induction xs ys rule: list_induct2') (auto simp: eq_iff)

end

section \<open>Binary searches on a partitioned range\<close>

text \<open>The range is partitioned by \<open>p\<close>: the elements that satisfy it come first.\<close>

definition partitioned :: "('a \<Rightarrow> bool) \<Rightarrow> 'a list \<Rightarrow> bool" where
  "partitioned p xs \<longleftrightarrow> (\<forall>i j. i < j \<longrightarrow> j < length xs \<longrightarrow> p (xs ! j) \<longrightarrow> p (xs ! i))"

definition is_partition_point :: "('a \<Rightarrow> bool) \<Rightarrow> 'a list \<Rightarrow> nat \<Rightarrow> bool" where
  "is_partition_point p xs k \<longleftrightarrow>
     k \<le> length xs \<and> (\<forall>i<k. p (xs ! i)) \<and> (\<forall>i. k \<le> i \<longrightarrow> i < length xs \<longrightarrow> \<not> p (xs ! i))"

lemma is_partition_point_unique:
  "is_partition_point p xs k \<Longrightarrow> is_partition_point p xs l \<Longrightarrow> k = l"
  unfolding is_partition_point_def by (meson less_le_trans nat_neq_iff order_refl)

lemma partitionedD:
  "partitioned p xs \<Longrightarrow> p (xs ! j) \<Longrightarrow> i \<le> j \<Longrightarrow> j < length xs \<Longrightarrow> p (xs ! i)"
  unfolding partitioned_def by (metis le_neq_implies_less)

text \<open>The loop invariant: everything left of the window satisfies \<open>p\<close>, nothing right of it does.\<close>

definition bound_inv :: "('a \<Rightarrow> bool) \<Rightarrow> 'a list \<Rightarrow> nat \<Rightarrow> nat \<Rightarrow> bool" where
  "bound_inv p xs begin n \<longleftrightarrow>
     begin + n \<le> length xs \<and> (\<forall>i<begin. p (xs ! i)) \<and>
     (\<forall>i. begin + n \<le> i \<longrightarrow> i < length xs \<longrightarrow> \<not> p (xs ! i))"

lemma bound_inv_right:
  assumes "partitioned p xs" "bound_inv p xs b n" "0 < n" "p (xs ! (b + n div 2))"
  shows "bound_inv p xs (b + n div 2 + 1) (n - (n div 2 + 1))"
proof -
  have "n div 2 < n" using assms(3) by simp
  moreover from this have "p (xs ! i)" if "i < b + n div 2 + 1" for i
    using that assms(2) by (intro partitionedD [OF assms(1,4)]) (auto simp: bound_inv_def)
  ultimately show ?thesis using assms(2) by (auto simp: bound_inv_def)
qed

lemma bound_inv_left:
  assumes "partitioned p xs" "bound_inv p xs b n" "0 < n" "\<not> p (xs ! (b + n div 2))"
  shows "bound_inv p xs b (n div 2)"
proof -
  have "\<not> p (xs ! i)" if "b + n div 2 \<le> i" "i < length xs" for i
    using partitionedD [OF assms(1) _ that] assms(4) by blast
  then show ?thesis using assms(2) by (auto simp: bound_inv_def)
qed

lemma bound_loop_correct:
  "partitioned p xs \<Longrightarrow> bound_inv p xs b n \<Longrightarrow> is_partition_point p xs (bound_loop p xs b n)"
proof (induction p xs b n rule: bound_loop.induct)
  case (1 p xs b n)
  show ?case
  proof (cases "0 < n")
    case True
    with 1 show ?thesis
      by (subst bound_loop.simps) (auto simp: Let_def dest: bound_inv_right bound_inv_left)
  next
    case False
    with 1 show ?thesis
      by (subst bound_loop.simps) (auto simp: bound_inv_def is_partition_point_def)
  qed
qed

lemma bound_loop_partition_point:
  "partitioned p xs \<Longrightarrow> is_partition_point p xs (bound_loop p xs 0 (length xs))"
  by (rule bound_loop_correct) (simp_all add: bound_inv_def)

lemma lower_bound_pair_loop_eq:
  "b + n \<le> length xs \<Longrightarrow> found \<longleftrightarrow> b + n < length xs \<and> snd (hxcompare_step c (xs ! (b + n)) v) \<Longrightarrow>
   lower_bound_pair_loop c xs v b n found =
     (let r = bound_loop (\<lambda>m. fst (hxcompare_step c m v)) xs b n
      in (r, r < length xs \<and> snd (hxcompare_step c (xs ! r) v)))"
proof (induction c xs v b n found rule: lower_bound_pair_loop.induct)
  case (1 c xs v b n found)
  show ?case
  proof (cases "0 < n")
    case True
    then have n: "n div 2 < n" by simp
    show ?thesis
    proof (cases "fst (hxcompare_step c (xs ! (b + n div 2)) v)")
      case adv: True
      have "b + n div 2 + 1 + (n - (n div 2 + 1)) = b + n" using n by simp
      with 1 True adv show ?thesis
        by (subst lower_bound_pair_loop.simps, subst bound_loop.simps) (simp add: Let_def)
    next
      case False
      with 1 True n show ?thesis
        by (subst lower_bound_pair_loop.simps, subst bound_loop.simps) (simp add: Let_def)
    qed
  next
    case False
    with 1 show ?thesis
      by (subst lower_bound_pair_loop.simps, subst bound_loop.simps) auto
  qed
qed

context strict_weak_order begin

abbreviation sorted_range :: "'a list \<Rightarrow> bool" where
  "sorted_range \<equiv> sorted_wrt (\<lambda>x y. \<not> lt y x)"

lemma sorted_partitioned_before: "sorted_range xs \<Longrightarrow> partitioned (\<lambda>m. lt m v) xs"
  by (auto simp: partitioned_def sorted_wrt_iff_nth_less dest: nlt_lt_trans)

lemma sorted_partitioned_not_after: "sorted_range xs \<Longrightarrow> partitioned (\<lambda>m. \<not> lt v m) xs"
  by (auto simp: partitioned_def sorted_wrt_iff_nth_less dest: nlt_trans)

lemma hxlower_bound_point:
  "sorted_range xs \<Longrightarrow> is_partition_point (\<lambda>m. lt m v) xs (hxlower_bound lt xs v)"
  unfolding hxlower_bound_def by (intro bound_loop_partition_point sorted_partitioned_before)

lemma hxupper_bound_point:
  "sorted_range xs \<Longrightarrow> is_partition_point (\<lambda>m. \<not> lt v m) xs (hxupper_bound lt xs v)"
  unfolding hxupper_bound_def by (intro bound_loop_partition_point sorted_partitioned_not_after)

lemma hxlower_bound_le_upper_bound:
  assumes "sorted_range xs"
  shows "hxlower_bound lt xs v \<le> hxupper_bound lt xs v"
proof (rule ccontr)
  let ?l = "hxlower_bound lt xs v" and ?u = "hxupper_bound lt xs v"
  assume "\<not> ?l \<le> ?u"
  with hxlower_bound_point [OF assms, of v] hxupper_bound_point [OF assms, of v]
  have "lt (xs ! ?u) v" "lt v (xs ! ?u)" by (auto simp: is_partition_point_def)
  then show False by (blast dest: asym)
qed

text \<open>The equivalent elements are exactly those between the two bounds.\<close>

lemma equal_range_bounds:
  assumes "sorted_range xs" and "i < length xs"
  shows "hxlower_bound lt xs v \<le> i \<and> i < hxupper_bound lt xs v \<longleftrightarrow>
         \<not> lt (xs ! i) v \<and> \<not> lt v (xs ! i)"
  using hxlower_bound_point [OF assms(1), of v] hxupper_bound_point [OF assms(1), of v] assms(2)
  unfolding is_partition_point_def by (metis not_less)

lemma lower_bound_hit:
  assumes "sorted_range xs"
  shows "hxlower_bound lt xs v < length xs \<and> \<not> lt v (xs ! hxlower_bound lt xs v) \<longleftrightarrow>
         (\<exists>x\<in>set xs. \<not> lt x v \<and> \<not> lt v x)"
proof
  let ?l = "hxlower_bound lt xs v"
  note l = hxlower_bound_point [OF assms, of v, unfolded is_partition_point_def]
  show "\<exists>x\<in>set xs. \<not> lt x v \<and> \<not> lt v x" if "?l < length xs \<and> \<not> lt v (xs ! ?l)"
    using that l by (metis nth_mem order_refl)
  assume "\<exists>x\<in>set xs. \<not> lt x v \<and> \<not> lt v x"
  then obtain i where i: "i < length xs" "\<not> lt (xs ! i) v" "\<not> lt v (xs ! i)"
    by (auto simp: in_set_conv_nth)
  then have "?l \<le> i" using l by (metis not_less)
  then have "\<not> lt v (xs ! ?l)"
    using i(1,3) assms by (metis le_neq_implies_less nlt_trans sorted_wrt_nth_less)
  with i(1) \<open>?l \<le> i\<close> show "?l < length xs \<and> \<not> lt v (xs ! ?l)" by simp
qed

lemma hxsearch_first:
  assumes "sorted_range xs"
  shows "hxsearch lt xs v =
    (if \<exists>x\<in>set xs. \<not> lt x v \<and> \<not> lt v x then hxlower_bound lt xs v else length xs)"
  using hxlower_bound_point [OF assms, of v]
  unfolding lower_bound_hit [OF assms, symmetric] hxsearch_def Let_def is_partition_point_def by auto

end

context key_order begin

lemma hxlower_bound_pair_less:
  assumes "sorted_range xs"
  shows "hxlower_bound_pair (Compare_less lt) xs v =
    (hxlower_bound lt xs v, \<exists>x\<in>set xs. eq x v)"
proof -
  have "lower_bound_pair_loop (Compare_less lt) xs v 0 (length xs) False =
      (let r = hxlower_bound lt xs v in (r, False))"
    by (subst lower_bound_pair_loop_eq) (simp_all add: hxlower_bound_def)
  moreover have "hxlower_bound lt xs v \<noteq> length xs \<and> \<not> lt v (xs ! hxlower_bound lt xs v) \<longleftrightarrow> (\<exists>x\<in>set xs. eq x v)"
    using lower_bound_hit [OF assms, of v] hxlower_bound_point [OF assms, of v]
    by (auto simp: eq_iff is_partition_point_def)
  ultimately show ?thesis by (simp add: hxlower_bound_pair_def Let_def)
qed

lemma hxlower_bound_pair_three_way:
  assumes "sorted_range xs"
  shows "hxlower_bound_pair (Compare_three_way three_way) xs v = hxlower_bound_pair (Compare_less lt) xs v"
proof -
  let ?l = "hxlower_bound lt xs v"
  have "lower_bound_pair_loop (Compare_three_way three_way) xs v 0 (length xs) False =
      (?l, ?l < length xs \<and> eq (xs ! ?l) v)"
    by (subst lower_bound_pair_loop_eq)
       (simp_all add: hxlower_bound_def Let_def three_way_neg three_way_zero)
  moreover have "?l < length xs \<and> eq (xs ! ?l) v \<longleftrightarrow> (\<exists>x\<in>set xs. eq x v)"
    using lower_bound_hit [OF assms, of v] hxlower_bound_point [OF assms, of v]
    by (auto simp: eq_iff is_partition_point_def)
  ultimately show ?thesis
    by (subst hxlower_bound_pair_less [OF assms]) (simp add: hxlower_bound_pair_def)
qed

end

section \<open>Properties\<close>

text \<open>C18: on a range sorted by a strict weak order, \<open>hxlower_bound\<close> and \<open>hxupper_bound\<close> delimit exactly
  the elements equivalent to the value: an index lies between the two results if and only if the
  element there is neither before nor after the value, and \<open>hxsearch\<close> returns the first such index
  or the end.\<close>

theorem binary_search_bounds:
  assumes "strict_weak_order lt" and "sorted_wrt (\<lambda>x y. \<not> lt y x) xs"
  shows "hxlower_bound lt xs v \<le> hxupper_bound lt xs v \<and> hxupper_bound lt xs v \<le> length xs \<and>
    (\<forall>i. i < length xs \<longrightarrow>
       (hxlower_bound lt xs v \<le> i \<and> i < hxupper_bound lt xs v \<longleftrightarrow>
        \<not> lt (xs ! i) v \<and> \<not> lt v (xs ! i))) \<and>
    hxsearch lt xs v = (if hxlower_bound lt xs v < hxupper_bound lt xs v
                        then hxlower_bound lt xs v else length xs)"
proof -
  let ?l = "hxlower_bound lt xs v" and ?u = "hxupper_bound lt xs v"
  note le = strict_weak_order.hxlower_bound_le_upper_bound [OF assms, of v]
  note eqr = strict_weak_order.equal_range_bounds [OF assms, of _ v]
  note u = strict_weak_order.hxupper_bound_point [OF assms, of v, unfolded is_partition_point_def]
  have "(\<exists>x\<in>set xs. \<not> lt x v \<and> \<not> lt v x) \<longleftrightarrow> ?l < ?u"
  proof
    assume "\<exists>x\<in>set xs. \<not> lt x v \<and> \<not> lt v x"
    then obtain i where "i < length xs" "\<not> lt (xs ! i) v" "\<not> lt v (xs ! i)"
      by (auto simp: in_set_conv_nth)
    then show "?l < ?u" using eqr [of i] by simp
  next
    assume "?l < ?u"
    then have "?l < length xs" using u by simp
    with eqr [of ?l] \<open>?l < ?u\<close> show "\<exists>x\<in>set xs. \<not> lt x v \<and> \<not> lt v x"
      by (auto intro!: bexI [of _ "xs ! ?l"])
  qed
  with le eqr u strict_weak_order.hxsearch_first [OF assms, of v] show ?thesis by simp
qed

theorem binary_search_bounds_witness:
  "hxsearch hxkey_less_num [1, 3, 3, 5] 3 = 1 \<and> hxlower_bound hxkey_less_num [1, 3, 3, 5] 3 \<le> 4"
proof -
  have s: "sorted_wrt (\<lambda>x y. \<not> hxkey_less_num y x) [1, 3, 3, 5]"
    by (simp add: hxkey_less_num_def)
  have l: "hxlower_bound hxkey_less_num [1, 3, 3, 5] 3 = 1"
    by (simp add: hxlower_bound_def bound_loop.simps hxkey_less_num_def)
  have u: "hxupper_bound hxkey_less_num [1, 3, 3, 5] 3 = 3"
    by (simp add: hxupper_bound_def bound_loop.simps hxkey_less_num_def)
  from binary_search_bounds [OF num_key.strict_weak_order_axioms s, of 3]
  show ?thesis unfolding l u by simp
qed

text \<open>The search that reports whether the key was found gives the same position and the same answer
  with a less-than predicate as with the three-way comparison of the same order, and the answer is
  whether an equal key is in the range.\<close>

lemma binary_search_traits_agree:
  assumes "key_order lt eq three_way" and "sorted_wrt (\<lambda>x y. \<not> lt y x) xs"
  shows "hxlower_bound_pair (Compare_three_way three_way) xs v = hxlower_bound_pair (Compare_less lt) xs v \<and>
    hxlower_bound_pair (Compare_less lt) xs v = (hxlower_bound lt xs v, \<exists>x\<in>set xs. eq x v) \<and>
    hxbinary_search (Compare_less lt) xs v = (\<exists>x\<in>set xs. eq x v)"
  using key_order.hxlower_bound_pair_less [OF assms, of v]
    key_order.hxlower_bound_pair_three_way [OF assms, of v]
  by (simp add: hxbinary_search_def)

lemma binary_search_traits_agree_witness:
  "hxlower_bound_pair (Compare_three_way hxkey_three_way_str) [''ab'', ''b''] ''b'' =
   hxlower_bound_pair (Compare_less hxkey_less_str) [''ab'', ''b''] ''b''"
proof -
  have "sorted_wrt (\<lambda>x y. \<not> hxkey_less_str y x) [''ab'', ''b'']"
    by (simp add: hxkey_less_str_def strcmp_def c_str_def)
  from binary_search_traits_agree [OF str_key.key_order_axioms this, of "''b''"] show ?thesis by blast
qed

end
