(* ===== verification/HxSetAlgorithms.thy ===== *)
theory HxSetAlgorithms
  imports HxRange
begin

text \<open>
  The algorithms on ordered ranges of \<^verbatim>\<open>include/hx/hxset_algorithms.hpp\<close>. A source iterator
  is the list of the elements still ahead of it and the output iterator is the list of the
  elements written so far, so one turn of a loop consumes heads and appends to the output.

  The set operations compare the heads both ways round. A predicate that answers yes to both is
  not an order, and the loops then advance neither iterator: they never return, which is the
  result \<open>None\<close>.
\<close>

section \<open>The algorithms\<close>

fun hxmerge_loop :: "('a \<Rightarrow> 'a \<Rightarrow> bool) \<Rightarrow> 'a list \<Rightarrow> 'a list \<Rightarrow> 'a list \<Rightarrow> 'a list" where
  "hxmerge_loop lt (x # xs) (y # ys) output =
     (let take1 = lt y x
      in if take1 then hxmerge_loop lt (x # xs) ys (output @ [y])
         else hxmerge_loop lt xs (y # ys) (output @ [x]))"
| "hxmerge_loop lt xs ys output = hxforward_range ys (hxforward_range xs output)"

definition hxmerge :: "('a \<Rightarrow> 'a \<Rightarrow> bool) \<Rightarrow> 'a list \<Rightarrow> 'a list \<Rightarrow> 'a list \<Rightarrow> 'a list" where
  "hxmerge lt range0 range1 output = hxmerge_loop lt range0 range1 output"

fun hxset_difference :: "('a \<Rightarrow> 'a \<Rightarrow> bool) \<Rightarrow> 'a list \<Rightarrow> 'a list \<Rightarrow> 'a list \<Rightarrow> 'a list option" where
  "hxset_difference lt (x # xs) (y # ys) output =
     (let lt0 = lt x y; gt0 = lt y x;
          output' = (if lt0 then output @ [x] else output)
      in if lt0 \<and> gt0 then None
         else if lt0 then hxset_difference lt xs (y # ys) output'
         else if gt0 then hxset_difference lt (x # xs) ys output'
         else hxset_difference lt xs ys output')"
| "hxset_difference lt xs ys output = Some (hxforward_range xs output)"

fun hxset_intersection :: "('a \<Rightarrow> 'a \<Rightarrow> bool) \<Rightarrow> 'a list \<Rightarrow> 'a list \<Rightarrow> 'a list \<Rightarrow> 'a list option" where
  "hxset_intersection lt (x # xs) (y # ys) output =
     (let lt0 = lt x y; gt0 = lt y x;
          output' = (if \<not> lt0 \<and> \<not> gt0 then output @ [x] else output)
      in if lt0 \<and> gt0 then None
         else if lt0 then hxset_intersection lt xs (y # ys) output'
         else if gt0 then hxset_intersection lt (x # xs) ys output'
         else hxset_intersection lt xs ys output')"
| "hxset_intersection lt xs ys output = Some output"

fun hxset_union :: "('a \<Rightarrow> 'a \<Rightarrow> bool) \<Rightarrow> 'a list \<Rightarrow> 'a list \<Rightarrow> 'a list \<Rightarrow> 'a list option" where
  "hxset_union lt (x # xs) (y # ys) output =
     (let take1 = lt y x; less0 = lt x y;
          output' = output @ [if take1 then y else x]
      in if take1 \<and> less0 then None
         else if take1 then hxset_union lt (x # xs) ys output'
         else if less0 then hxset_union lt xs (y # ys) output'
         else hxset_union lt xs ys output')"
| "hxset_union lt xs ys output = Some (hxforward_range ys (hxforward_range xs output))"

text \<open>The two results are iterators: indices into the range, both \<open>end()\<close> when it is empty.\<close>

record hxminmax_result =
  min_it :: nat
  max_it :: nat

fun hxminmax_loop :: "('a \<Rightarrow> 'a \<Rightarrow> bool) \<Rightarrow> 'a list \<Rightarrow> nat list \<Rightarrow> hxminmax_result \<Rightarrow> hxminmax_result" where
  "hxminmax_loop lt xs [] result = result"
| "hxminmax_loop lt xs (it # its) result =
     hxminmax_loop lt xs its
       (if lt (xs ! it) (xs ! min_it result) then result\<lparr>min_it := it\<rparr>
        else if lt (xs ! max_it result) (xs ! it) then result\<lparr>max_it := it\<rparr>
        else result)"

definition hxminmax :: "('a \<Rightarrow> 'a \<Rightarrow> bool) \<Rightarrow> 'a list \<Rightarrow> hxminmax_result" where
  "hxminmax lt xs =
     (let result = \<lparr>min_it = 0, max_it = 0\<rparr>
      in if xs = [] then result else hxminmax_loop lt xs [1..<length xs] result)"

text \<open>\<open>hxunique\<close> works in place: the first loop looks for the first duplicate, the second moves the
  elements that are kept down over it. The result is the array and the new end.\<close>

function hxunique_find :: "('a \<Rightarrow> 'a \<Rightarrow> bool) \<Rightarrow> 'a list \<Rightarrow> nat \<Rightarrow> nat \<Rightarrow> nat \<times> nat" where
  "hxunique_find equal xs dst begin =
     (if begin < length xs
      then if equal (xs ! dst) (xs ! begin) then (dst, begin)
           else hxunique_find equal xs (dst + 1) (begin + 1)
      else (dst, begin))"
  by pat_completeness auto
termination
  by (relation "measure (\<lambda>(equal, xs, dst, begin). length xs - begin)") auto

function hxunique_move :: "('a \<Rightarrow> 'a \<Rightarrow> bool) \<Rightarrow> 'a list \<Rightarrow> nat \<Rightarrow> nat \<Rightarrow> 'a list \<times> nat" where
  "hxunique_move equal xs dst src =
     (if src < length xs
      then if \<not> equal (xs ! dst) (xs ! src)
           then hxunique_move equal (xs[dst + 1 := xs ! src]) (dst + 1) (src + 1)
           else hxunique_move equal xs dst (src + 1)
      else (xs, dst + 1))"
  by pat_completeness auto
termination
  by (relation "measure (\<lambda>(equal, xs, dst, src). length xs - src)") auto

declare hxunique_find.simps [simp del] hxunique_move.simps [simp del]

definition hxunique :: "('a \<Rightarrow> 'a \<Rightarrow> bool) \<Rightarrow> 'a list \<Rightarrow> 'a list \<times> nat" where
  "hxunique equal xs =
     (if xs = [] then (xs, length xs)
      else let (dst, begin) = hxunique_find equal xs 0 1
           in if begin = length xs then (xs, length xs) else hxunique_move equal xs dst (begin + 1))"

section \<open>Equivalence classes of sorted ranges\<close>

text \<open>The elements of a range that the order does not separate from a key, in their order.\<close>

definition equiv_class :: "('a \<Rightarrow> 'a \<Rightarrow> bool) \<Rightarrow> 'a \<Rightarrow> 'a list \<Rightarrow> 'a list" where
  "equiv_class lt k xs = filter (\<lambda>x. \<not> lt x k \<and> \<not> lt k x) xs"

lemma equiv_class_simps [simp]:
  "equiv_class lt k [] = []"
  "equiv_class lt k (x # xs) =
     (if \<not> lt x k \<and> \<not> lt k x then x # equiv_class lt k xs else equiv_class lt k xs)"
  "equiv_class lt k (xs @ ys) = equiv_class lt k xs @ equiv_class lt k ys"
  by (simp_all add: equiv_class_def)

text \<open>The induction that all the loops over two ranges follow.\<close>

lemma two_range_induct [case_names left right heads]:
  assumes "\<And>ys. P [] ys" and "\<And>xs. P xs []"
    and "\<And>x xs y ys. P xs (y # ys) \<Longrightarrow> P (x # xs) ys \<Longrightarrow> P xs ys \<Longrightarrow> P (x # xs) (y # ys)"
  shows "P xs ys"
proof (induction xs arbitrary: ys)
  case (Cons x xs ys)
  then show ?case by (induction ys) (use assms in auto)
qed (use assms in auto)

context strict_weak_order begin

lemma equiv_class_after:
  assumes "sorted_range (x # xs)" "lt y x" "\<not> lt y k" "\<not> lt k y"
  shows "equiv_class lt k (x # xs) = []"
proof -
  have "lt k z" if "z \<in> set (x # xs)" for z
  proof -
    have "\<not> lt z x" using assms(1) that by (auto simp: irrefl)
    then show ?thesis using assms(2-4) lt_nlt_trans nlt_lt_trans by blast
  qed
  then show ?thesis by (simp only: equiv_class_def filter_empty_conv) blast
qed

lemma equiv_sym_cong:
  "\<not> lt x y \<Longrightarrow> \<not> lt y x \<Longrightarrow> \<not> lt x k \<and> \<not> lt k x \<longleftrightarrow> \<not> lt y k \<and> \<not> lt k y"
  using cotrans by blast

section \<open>Merging\<close>

lemma hxmerge_loop_correct:
  "sorted_range xs \<Longrightarrow> sorted_range ys \<Longrightarrow>
   \<exists>r. hxmerge_loop lt xs ys out = out @ r \<and> sorted_range r \<and> set r = set xs \<union> set ys \<and>
       (\<forall>k. equiv_class lt k r = equiv_class lt k xs @ equiv_class lt k ys)"
proof (induction xs ys arbitrary: out rule: two_range_induct)
  case (heads x xs y ys)
  show ?case
  proof (cases "lt y x")
    case True
    with heads.IH(2) [of "out @ [y]"] heads.prems obtain r where
      r: "hxmerge_loop lt (x # xs) ys (out @ [y]) = out @ y # r" "sorted_range r"
         "set r = set (x # xs) \<union> set ys"
         "\<And>k. equiv_class lt k r = equiv_class lt k (x # xs) @ equiv_class lt k ys"
      by auto
    have "\<not> lt z y" if "z \<in> set r" for z
      using that r(3) heads.prems True by (auto dest: asym nlt_lt_trans lt_nlt_trans)
    then have "sorted_range (y # r)" using r(2) by simp
    moreover have "equiv_class lt k (y # r) = equiv_class lt k (x # xs) @ equiv_class lt k (y # ys)" for k
      using equiv_class_after [OF heads.prems(1) True, of k] r(4) [of k]
      by (auto simp del: equiv_class_simps(2) simp: equiv_class_simps(2) [of _ _ y])
    ultimately show ?thesis using r(1,3) True by (intro exI [of _ "y # r"]) (auto simp: Let_def)
  next
    case False
    with heads.IH(1) [of "out @ [x]"] heads.prems obtain r where
      r: "hxmerge_loop lt xs (y # ys) (out @ [x]) = out @ x # r" "sorted_range r"
         "set r = set xs \<union> set (y # ys)"
         "\<And>k. equiv_class lt k r = equiv_class lt k xs @ equiv_class lt k (y # ys)"
      by auto
    have "\<not> lt z x" if "z \<in> set r" for z
      using that r(3) heads.prems False by (auto dest: nlt_trans)
    then show ?thesis using r False by (intro exI [of _ "x # r"]) (auto simp: Let_def)
  qed
qed (auto simp: range_spec)

section \<open>Difference, intersection and union\<close>

text \<open>What separates the heads also empties the class of the smaller one in the other range.\<close>

lemma heads_separated:
  assumes "sorted_range (x # xs)" "sorted_range (y # ys)"
  shows "lt x y \<Longrightarrow> \<not> lt x k \<and> \<not> lt k x \<Longrightarrow> equiv_class lt k (y # ys) = []"
    and "lt y x \<Longrightarrow> \<not> lt y k \<and> \<not> lt k y \<Longrightarrow> equiv_class lt k (x # xs) = []"
  using assms equiv_class_after by blast+

lemma hxset_difference_correct:
  "sorted_range xs \<Longrightarrow> sorted_range ys \<Longrightarrow>
   \<exists>r. hxset_difference lt xs ys out = Some (out @ r) \<and> sorted_range r \<and> set r \<subseteq> set xs \<and>
       (\<forall>k. equiv_class lt k r = drop (length (equiv_class lt k ys)) (equiv_class lt k xs))"
proof (induction xs ys arbitrary: out rule: two_range_induct)
  case (heads x xs y ys)
  note sep = heads_separated [OF heads.prems]
  consider "lt x y" "\<not> lt y x" | "lt y x" "\<not> lt x y" | "\<not> lt x y" "\<not> lt y x"
    using asym by blast
  then show ?case
  proof cases
    case 1
    with heads.IH(1) [of "out @ [x]"] heads.prems obtain r where
      r: "hxset_difference lt xs (y # ys) (out @ [x]) = Some (out @ x # r)" "sorted_range r"
         "set r \<subseteq> set xs"
         "\<And>k. equiv_class lt k r = drop (length (equiv_class lt k (y # ys))) (equiv_class lt k xs)"
      by auto
    have "equiv_class lt k (x # r) = drop (length (equiv_class lt k (y # ys))) (equiv_class lt k (x # xs))" for k
    proof (cases "\<not> lt x k \<and> \<not> lt k x")
      case True
      then show ?thesis using sep(1) [OF 1(1), of k] r(4) [of k] by simp
    next
      case False
      then show ?thesis using r(4) [of k] by auto
    qed
    moreover have "sorted_range (x # r)" using r(2,3) heads.prems by auto
    ultimately show ?thesis using 1 r(1,3) by (intro exI [of _ "x # r"]) (auto simp: Let_def)
  next
    case 2
    with heads.IH(2) [of out] heads.prems obtain r where
      r: "hxset_difference lt (x # xs) ys out = Some (out @ r)" "sorted_range r"
         "set r \<subseteq> set (x # xs)"
         "\<And>k. equiv_class lt k r = drop (length (equiv_class lt k ys)) (equiv_class lt k (x # xs))"
      by auto
    have "equiv_class lt k r = drop (length (equiv_class lt k (y # ys))) (equiv_class lt k (x # xs))" for k
      using sep(2) [OF 2(1), of k] r(4) [of k] by (cases "\<not> lt y k \<and> \<not> lt k y") auto
    then show ?thesis using 2 r(1-3) by (intro exI [of _ r]) (auto simp: Let_def)
  next
    case 3
    with heads.IH(3) [of out] heads.prems obtain r where
      r: "hxset_difference lt xs ys out = Some (out @ r)" "sorted_range r" "set r \<subseteq> set xs"
         "\<And>k. equiv_class lt k r = drop (length (equiv_class lt k ys)) (equiv_class lt k xs)"
      by auto
    have "equiv_class lt k r = drop (length (equiv_class lt k (y # ys))) (equiv_class lt k (x # xs))" for k
      using equiv_sym_cong [OF 3, of k] r(4) [of k] by auto
    then show ?thesis using 3 r(1-3) by (intro exI [of _ r]) (auto simp: Let_def)
  qed
qed (auto simp: range_spec)

lemma hxset_intersection_correct:
  "sorted_range xs \<Longrightarrow> sorted_range ys \<Longrightarrow>
   \<exists>r. hxset_intersection lt xs ys out = Some (out @ r) \<and> sorted_range r \<and> set r \<subseteq> set xs \<and>
       (\<forall>k. equiv_class lt k r = take (length (equiv_class lt k ys)) (equiv_class lt k xs))"
proof (induction xs ys arbitrary: out rule: two_range_induct)
  case (heads x xs y ys)
  note sep = heads_separated [OF heads.prems]
  consider "lt x y" "\<not> lt y x" | "lt y x" "\<not> lt x y" | "\<not> lt x y" "\<not> lt y x"
    using asym by blast
  then show ?case
  proof cases
    case 1
    with heads.IH(1) [of out] heads.prems obtain r where
      r: "hxset_intersection lt xs (y # ys) out = Some (out @ r)" "sorted_range r"
         "set r \<subseteq> set xs"
         "\<And>k. equiv_class lt k r = take (length (equiv_class lt k (y # ys))) (equiv_class lt k xs)"
      by auto
    have "equiv_class lt k r = take (length (equiv_class lt k (y # ys))) (equiv_class lt k (x # xs))" for k
    proof (cases "\<not> lt x k \<and> \<not> lt k x")
      case True
      then show ?thesis using sep(1) [OF 1(1), of k] r(4) [of k] by simp
    next
      case False
      then show ?thesis using r(4) [of k] by auto
    qed
    then show ?thesis using 1 r(1-3) by (intro exI [of _ r]) (auto simp: Let_def)
  next
    case 2
    with heads.IH(2) [of out] heads.prems obtain r where
      r: "hxset_intersection lt (x # xs) ys out = Some (out @ r)" "sorted_range r"
         "set r \<subseteq> set (x # xs)"
         "\<And>k. equiv_class lt k r = take (length (equiv_class lt k ys)) (equiv_class lt k (x # xs))"
      by auto
    have "equiv_class lt k r = take (length (equiv_class lt k (y # ys))) (equiv_class lt k (x # xs))" for k
      using sep(2) [OF 2(1), of k] r(4) [of k] by (cases "\<not> lt y k \<and> \<not> lt k y") auto
    then show ?thesis using 2 r(1-3) by (intro exI [of _ r]) (auto simp: Let_def)
  next
    case 3
    with heads.IH(3) [of "out @ [x]"] heads.prems obtain r where
      r: "hxset_intersection lt xs ys (out @ [x]) = Some (out @ x # r)" "sorted_range r" "set r \<subseteq> set xs"
         "\<And>k. equiv_class lt k r = take (length (equiv_class lt k ys)) (equiv_class lt k xs)"
      by auto
    have "equiv_class lt k (x # r) = take (length (equiv_class lt k (y # ys))) (equiv_class lt k (x # xs))" for k
      using equiv_sym_cong [OF 3, of k] r(4) [of k] by auto
    moreover have "sorted_range (x # r)" using r(2,3) heads.prems by auto
    ultimately show ?thesis using 3 r(1,3) by (intro exI [of _ "x # r"]) (auto simp: Let_def)
  qed
qed auto

lemma hxset_union_correct:
  "sorted_range xs \<Longrightarrow> sorted_range ys \<Longrightarrow>
   \<exists>r. hxset_union lt xs ys out = Some (out @ r) \<and> sorted_range r \<and> set r \<subseteq> set xs \<union> set ys \<and>
       (\<forall>k. equiv_class lt k r =
            equiv_class lt k xs @ drop (length (equiv_class lt k xs)) (equiv_class lt k ys))"
proof (induction xs ys arbitrary: out rule: two_range_induct)
  case (heads x xs y ys)
  note sep = heads_separated [OF heads.prems]
  have below: "sorted_range (w # r)"
    if "sorted_range r" "set r \<subseteq> set (x # xs) \<union> set (y # ys)" "\<not> lt x w" "\<not> lt y w" for w r
  proof -
    have "\<not> lt z w" if "z \<in> set (x # xs) \<union> set (y # ys)" for z
      using that \<open>\<not> lt x w\<close> \<open>\<not> lt y w\<close> heads.prems by (auto dest: nlt_trans)
    with that show ?thesis by auto
  qed
  consider "lt x y" "\<not> lt y x" | "lt y x" "\<not> lt x y" | "\<not> lt x y" "\<not> lt y x"
    using asym by blast
  then show ?case
  proof cases
    case 1
    with heads.IH(1) [of "out @ [x]"] heads.prems obtain r where
      r: "hxset_union lt xs (y # ys) (out @ [x]) = Some (out @ x # r)" "sorted_range r"
         "set r \<subseteq> set xs \<union> set (y # ys)"
         "\<And>k. equiv_class lt k r = equiv_class lt k xs @
               drop (length (equiv_class lt k xs)) (equiv_class lt k (y # ys))"
      by auto
    have "equiv_class lt k (x # r) = equiv_class lt k (x # xs) @
        drop (length (equiv_class lt k (x # xs))) (equiv_class lt k (y # ys))" for k
    proof (cases "\<not> lt x k \<and> \<not> lt k x")
      case True
      then show ?thesis using sep(1) [OF 1(1), of k] r(4) [of k] by simp
    next
      case False
      then show ?thesis using r(4) [of k] by auto
    qed
    moreover have "sorted_range (x # r)" using 1 r(2,3) by (intro below) (auto simp: irrefl)
    ultimately show ?thesis using 1 r(1,3) by (intro exI [of _ "x # r"]) (auto simp: Let_def)
  next
    case 2
    with heads.IH(2) [of "out @ [y]"] heads.prems obtain r where
      r: "hxset_union lt (x # xs) ys (out @ [y]) = Some (out @ y # r)" "sorted_range r"
         "set r \<subseteq> set (x # xs) \<union> set ys"
         "\<And>k. equiv_class lt k r = equiv_class lt k (x # xs) @
               drop (length (equiv_class lt k (x # xs))) (equiv_class lt k ys)"
      by auto
    have "equiv_class lt k (y # r) = equiv_class lt k (x # xs) @
        drop (length (equiv_class lt k (x # xs))) (equiv_class lt k (y # ys))" for k
      using sep(2) [OF 2(1), of k] r(4) [of k] by (cases "\<not> lt y k \<and> \<not> lt k y") auto
    moreover have "sorted_range (y # r)" using 2 r(2,3) by (intro below) (auto simp: irrefl)
    ultimately show ?thesis using 2 r(1,3) by (intro exI [of _ "y # r"]) (auto simp: Let_def)
  next
    case 3
    with heads.IH(3) [of "out @ [x]"] heads.prems obtain r where
      r: "hxset_union lt xs ys (out @ [x]) = Some (out @ x # r)" "sorted_range r"
         "set r \<subseteq> set xs \<union> set ys"
         "\<And>k. equiv_class lt k r = equiv_class lt k xs @
               drop (length (equiv_class lt k xs)) (equiv_class lt k ys)"
      by auto
    have "equiv_class lt k (x # r) = equiv_class lt k (x # xs) @
        drop (length (equiv_class lt k (x # xs))) (equiv_class lt k (y # ys))" for k
      using equiv_sym_cong [OF 3, of k] r(4) [of k] by auto
    moreover have "sorted_range (x # r)" using 3 r(2,3) by (intro below) (auto simp: irrefl)
    ultimately show ?thesis using 3 r(1,3) by (intro exI [of _ "x # r"]) (auto simp: Let_def)
  qed
qed (auto simp: range_spec)

end

section \<open>The smallest and the largest element\<close>

text \<open>After the elements before \<open>k\<close> are visited, each result is the first of the extreme ones.\<close>

definition minmax_inv :: "('a \<Rightarrow> 'a \<Rightarrow> bool) \<Rightarrow> 'a list \<Rightarrow> nat \<Rightarrow> hxminmax_result \<Rightarrow> bool" where
  "minmax_inv lt xs k r \<longleftrightarrow>
     min_it r < k \<and> max_it r < k \<and>
     (\<forall>i<k. \<not> lt (xs ! i) (xs ! min_it r) \<and> \<not> lt (xs ! max_it r) (xs ! i)) \<and>
     (\<forall>i<min_it r. lt (xs ! min_it r) (xs ! i)) \<and> (\<forall>i<max_it r. lt (xs ! i) (xs ! max_it r))"

context strict_weak_order begin

lemma minmax_inv_step:
  assumes "minmax_inv lt xs k r"
  shows "minmax_inv lt xs (Suc k)
    (if lt (xs ! k) (xs ! min_it r) then r\<lparr>min_it := k\<rparr>
     else if lt (xs ! max_it r) (xs ! k) then r\<lparr>max_it := k\<rparr> else r)"
proof -
  have mm: "\<not> lt (xs ! max_it r) (xs ! min_it r)"
    using assms by (auto simp: minmax_inv_def)
  consider "lt (xs ! k) (xs ! min_it r)"
    | "\<not> lt (xs ! k) (xs ! min_it r)" "lt (xs ! max_it r) (xs ! k)"
    | "\<not> lt (xs ! k) (xs ! min_it r)" "\<not> lt (xs ! max_it r) (xs ! k)" by blast
  then show ?thesis
  proof cases
    case 1
    have below: "lt (xs ! k) (xs ! i)" if "i < k" for i
      by (rule lt_nlt_trans [OF 1]) (use assms that in \<open>simp add: minmax_inv_def\<close>)
    moreover have "\<not> lt (xs ! max_it r) (xs ! k)" using lt_nlt_trans [OF 1 mm] asym by blast
    ultimately show ?thesis
      using assms 1 by (auto simp: minmax_inv_def less_Suc_eq irrefl dest: asym)
  next
    case 2
    have above: "lt (xs ! i) (xs ! k)" if "i < k" for i
      by (rule nlt_lt_trans [OF _ 2(2)]) (use assms that in \<open>simp add: minmax_inv_def\<close>)
    then show ?thesis
      using assms 2 by (auto simp: minmax_inv_def less_Suc_eq irrefl dest: asym)
  next
    case 3
    then show ?thesis using assms by (auto simp: minmax_inv_def less_Suc_eq)
  qed
qed

lemma hxminmax_loop_inv:
  "minmax_inv lt xs k r \<Longrightarrow> k \<le> n \<Longrightarrow> minmax_inv lt xs n (hxminmax_loop lt xs [k..<n] r)"
proof (induction "n - k" arbitrary: k r)
  case (Suc d)
  then have "[k..<n] = k # [Suc k..<n]" by (simp add: upt_conv_Cons)
  then show ?case using Suc.hyps(1) [OF _ minmax_inv_step [OF Suc.prems(1)]] Suc.hyps(2) by simp
qed simp

lemma hxminmax_inv: "xs \<noteq> [] \<Longrightarrow> minmax_inv lt xs (length xs) (hxminmax lt xs)"
  unfolding hxminmax_def Let_def
  using hxminmax_loop_inv [of xs 1 "\<lparr>min_it = 0, max_it = 0\<rparr>" "length xs"]
  by (simp add: minmax_inv_def irrefl Suc_leI)

end

section \<open>Removing consecutive duplicates\<close>

text \<open>The reference: keep the first element of each run of elements equal to it.\<close>

fun keep_first :: "('a \<Rightarrow> 'a \<Rightarrow> bool) \<Rightarrow> 'a list \<Rightarrow> 'a list" where
  "keep_first equal [] = []"
| "keep_first equal [x] = [x]"
| "keep_first equal (x # y # ys) =
     (if equal x y then keep_first equal (x # ys) else x # keep_first equal (y # ys))"

lemma hxunique_move_correct:
  "dst < src \<Longrightarrow> src \<le> length xs \<Longrightarrow>
   (case hxunique_move equal xs dst src of (ys, n) \<Rightarrow>
      length ys = length xs \<and> n \<le> length xs \<and>
      take n ys = take dst xs @ keep_first equal (xs ! dst # drop src xs))"
proof (induction equal xs dst src rule: hxunique_move.induct)
  case (1 equal xs dst src)
  show ?case
  proof (cases "src < length xs")
    case False
    with 1(3,4) show ?thesis
      by (subst hxunique_move.simps) (simp add: take_Suc_conv_app_nth)
  next
    case True
    then have d: "drop src xs = xs ! src # drop (Suc src) xs" by (simp add: Cons_nth_drop_Suc)
    show ?thesis
    proof (cases "equal (xs ! dst) (xs ! src)")
      case False
      have "take (Suc dst) (xs[Suc dst := v]) = take dst xs @ [xs ! dst]" for v
        using 1(3) True by (simp add: take_Suc_conv_app_nth)
      moreover have "drop (Suc src) (xs[Suc dst := v]) = drop (Suc src) xs" for v
        using 1(3) by simp
      ultimately show ?thesis
        using 1(1) [OF True False] 1(3) True False
        by (subst hxunique_move.simps) (auto simp: d split: prod.splits)
    next
      case eq: True
      then show ?thesis
        using 1(2) [OF True] 1(3) True by (subst hxunique_move.simps) (auto simp: d split: prod.splits)
    qed
  qed
qed

lemma hxunique_find_correct:
  "begin = Suc dst \<Longrightarrow> dst < length xs \<Longrightarrow> hxunique_find equal xs dst begin = (d, b) \<Longrightarrow>
   b = Suc d \<and> d < length xs \<and>
   keep_first equal (drop dst xs) = take (d - dst) (drop dst xs) @ keep_first equal (drop d xs) \<and>
   dst \<le> d \<and> (b < length xs \<longrightarrow> equal (xs ! d) (xs ! b))"
proof (induction equal xs dst "begin" rule: hxunique_find.induct)
  case (1 equal xs dst src)
  show ?case
  proof (cases "src < length xs \<and> \<not> equal (xs ! dst) (xs ! src)")
    case False
    with 1(2-4) show ?thesis by (subst (asm) hxunique_find.simps) (auto split: if_splits)
  next
    case True
    have dr: "drop dst xs = xs ! dst # drop (Suc dst) xs"
      "drop (Suc dst) xs = xs ! Suc dst # drop (Suc (Suc dst)) xs"
      using 1(2) True by (simp_all add: Cons_nth_drop_Suc)
    have "hxunique_find equal xs (dst + 1) (src + 1) = (d, b)"
      using 1(4) True by (subst (asm) hxunique_find.simps) simp
    with 1(1) True 1(2) have ih: "b = Suc d" "d < length xs" "Suc dst \<le> d"
       "keep_first equal (drop (Suc dst) xs) =
        take (d - Suc dst) (drop (Suc dst) xs) @ keep_first equal (drop d xs)"
       "b < length xs \<longrightarrow> equal (xs ! d) (xs ! b)"
      by auto
    have "keep_first equal (drop dst xs) = xs ! dst # keep_first equal (drop (Suc dst) xs)"
      using True 1(2) by (simp only: dr(1)) (simp add: dr(2))
    moreover have "take (d - dst) (drop dst xs) = xs ! dst # take (d - Suc dst) (drop (Suc dst) xs)"
      using ih(3) by (subst dr(1)) (simp add: take_Cons' Suc_diff_Suc)
    ultimately show ?thesis using ih by simp
  qed
qed

lemma hxunique_keep_first:
  "hxunique equal xs = (ys, n) \<Longrightarrow>
   length ys = length xs \<and> n \<le> length xs \<and> take n ys = keep_first equal xs"
proof (cases "xs = []")
  case False
  assume r: "hxunique equal xs = (ys, n)"
  obtain d b where f: "hxunique_find equal xs 0 1 = (d, b)" by fastforce
  from hxunique_find_correct [OF _ _ f] False have f':
    "b = Suc d" "d < length xs" "keep_first equal xs = take d xs @ keep_first equal (drop d xs)"
    "b < length xs \<longrightarrow> equal (xs ! d) (xs ! b)" by auto
  have dr: "drop d xs = xs ! d # drop (Suc d) xs" using f'(2) by (simp add: Cons_nth_drop_Suc)
  show ?thesis
  proof (cases "b = length xs")
    case True
    then have "keep_first equal xs = xs" using f' dr by (simp add: take_Suc_conv_app_nth [symmetric])
    then show ?thesis using r False f True by (auto simp: hxunique_def)
  next
    case bl: False
    then have dr2: "drop (Suc d) xs = xs ! Suc d # drop (Suc (Suc d)) xs"
      using f'(1,2) by (simp add: Cons_nth_drop_Suc)
    have "keep_first equal (drop d xs) = keep_first equal (xs ! d # drop (b + 1) xs)"
      using bl f' by (simp add: dr dr2)
    then show ?thesis
      using r False f bl f'(1-3) hxunique_move_correct [of d "b + 1" xs equal]
      by (simp add: hxunique_def)
  qed
qed (simp add: hxunique_def)

lemma keep_first_subset: "set (keep_first equal xs) \<subseteq> set xs"
  by (induction equal xs rule: keep_first.induct) auto

lemma keep_first_eq: "keep_first (=) xs = remdups_adj xs"
proof (induction xs rule: remdups_adj.induct)
  case (3 x y xs)
  then show ?case by (cases "x = y") simp_all
qed simp_all

lemma keep_first_keys_aux:
  "(\<And>x y. equal x y \<Longrightarrow> equal k y \<Longrightarrow> equal k x) \<Longrightarrow>
   (\<exists>x\<in>set xs. equal k x) \<longleftrightarrow> (\<exists>x\<in>set (keep_first equal xs). equal k x)"
proof (induction equal xs rule: keep_first.induct)
  case (3 equal x y ys)
  show ?case
  proof (cases "equal x y")
    case True
    have "(\<exists>z\<in>set (x # y # ys). equal k z) \<longleftrightarrow> (\<exists>z\<in>set (x # ys). equal k z)"
      using 3(3) [OF True] by auto
    then show ?thesis using 3(1) [OF True 3(3)] True by simp
  next
    case False
    then show ?thesis using 3(2) [OF False 3(3)] by simp
  qed
qed simp_all

context key_order begin

lemma keep_first_strict: "sorted_range xs \<Longrightarrow> sorted_wrt lt (keep_first eq xs)"
proof (induction xs rule: induct_list012)
  case (3 x y ys)
  show ?case
  proof (cases "eq x y")
    case False
    then have xy: "lt x y" using 3(3) by (simp add: eq_iff)
    have "lt x z" if "z \<in> set (keep_first eq (y # ys))" for z
      using that keep_first_subset [of eq "y # ys"] xy 3(3) by (auto dest: lt_nlt_trans)
    then show ?thesis using False 3 by auto
  next
    case True
    have "sorted_wrt lt (keep_first eq (x # ys))" if "sorted_range (x # ys)" for x
      using that
    proof (induction ys arbitrary: x)
      case (Cons z zs)
      have "lt x w" if "lt x z" "w \<in> set (keep_first eq (z # zs))" for w
        using that keep_first_subset [of eq "z # zs"] Cons.prems by (auto dest: lt_nlt_trans)
      moreover have "lt x z" if "\<not> eq x z" using that Cons.prems by (simp add: eq_iff)
      moreover have "sorted_range (x # zs)" "sorted_range (z # zs)" using Cons.prems by simp_all
      ultimately show ?case using Cons.IH by simp
    qed simp
    then show ?thesis using True 3(3) by simp
  qed
qed simp_all

lemma keep_first_keys: "(\<exists>x\<in>set xs. eq k x) \<longleftrightarrow> (\<exists>x\<in>set (keep_first eq xs). eq k x)"
  by (rule keep_first_keys_aux) (blast intro: eq_trans eq_sym)

end

section \<open>Ranges without equivalent elements\<close>

context strict_weak_order begin

lemma strict_range_unique: "sorted_wrt lt xs \<Longrightarrow> sorted_wrt lt ys \<Longrightarrow> set xs = set ys \<Longrightarrow> xs = ys"
proof (induction xs arbitrary: ys)
  case (Cons x xs)
  then obtain y zs where ys: "ys = y # zs" by (cases ys) auto
  have "x = y \<or> x \<in> set zs" "x = y \<or> y \<in> set xs" using Cons.prems(3) unfolding ys by auto
  then have "x = y" using Cons.prems(1,2) asym [of x y] unfolding ys by auto
  moreover have "x \<notin> set xs" "y \<notin> set zs" using Cons.prems irrefl unfolding ys by auto
  ultimately have "set xs = set zs" using Cons.prems(3) unfolding ys by auto
  then show ?case using Cons.IH [of zs] Cons.prems \<open>x = y\<close> unfolding ys by simp
qed simp

lemma strict_classes:
  assumes "sorted_wrt (\<lambda>x y. \<not> lt y x) xs" and "\<And>k. length (equiv_class lt k xs) \<le> 1"
  shows "sorted_wrt lt xs"
  using assms
proof (induction xs)
  case (Cons x xs)
  have "lt x y" if "y \<in> set xs" for y
  proof (rule ccontr)
    assume "\<not> lt x y"
    moreover have "\<not> lt y x" using Cons.prems(1) that by simp
    ultimately have "y \<in> set (equiv_class lt x xs)" using that by (simp add: equiv_class_def)
    then have "equiv_class lt x xs \<noteq> []" by auto
    then show False using Cons.prems(2) [of x] irrefl by simp
  qed
  moreover have "length (equiv_class lt k xs) \<le> 1" for k using Cons.prems(2) [of k] by (simp split: if_splits)
  ultimately show ?case using Cons by simp
qed simp

lemma strict_class:
  assumes "sorted_wrt lt xs"
  shows "length (equiv_class lt k xs) \<le> 1" and "x \<in> set xs \<Longrightarrow> equiv_class lt x xs = [x]"
proof -
  show "length (equiv_class lt k xs) \<le> 1" for k
    using assms
  proof (induction xs)
    case (Cons x xs)
    have "equiv_class lt k xs = []" if "\<not> lt x k \<and> \<not> lt k x"
      using Cons.prems that cotrans by (auto simp: equiv_class_def filter_empty_conv)
    then show ?case using Cons by simp
  qed simp
  from this [of x] show "equiv_class lt x xs = [x]" if "x \<in> set xs"
  proof -
    have "x \<in> set (equiv_class lt x xs)" using that irrefl by (simp add: equiv_class_def)
    then show ?thesis using \<open>length (equiv_class lt x xs) \<le> 1\<close> by (cases "equiv_class lt x xs") auto
  qed
qed

lemma strict_difference:
  assumes strict: "sorted_wrt lt xs" and d: "sorted_wrt (\<lambda>x y. \<not> lt y x) d" "set d \<subseteq> set xs"
    and classes: "\<And>k. equiv_class lt k d = drop (length (equiv_class lt k ys)) (equiv_class lt k xs)"
  shows "d = filter (\<lambda>x. equiv_class lt x ys = []) xs"
proof (rule strict_range_unique)
  show "sorted_wrt lt d"
  proof (rule strict_classes [OF d(1)])
    show "length (equiv_class lt k d) \<le> 1" for k using strict_class(1) [OF strict, of k] unfolding classes length_drop by linarith
  qed
  show "sorted_wrt lt (filter (\<lambda>x. equiv_class lt x ys = []) xs)" using strict by (rule sorted_wrt_filter)
  have "x \<in> set d \<longleftrightarrow> equiv_class lt x ys = []" if "x \<in> set xs" for x
  proof -
    have "x \<in> set d \<longleftrightarrow> x \<in> set (equiv_class lt x d)" using irrefl by (simp add: equiv_class_def)
    also have "\<dots> \<longleftrightarrow> x \<in> set (drop (length (equiv_class lt x ys)) [x])" by (simp only: classes strict_class(2) [OF strict that])
    also have "\<dots> \<longleftrightarrow> equiv_class lt x ys = []" by (cases "equiv_class lt x ys") simp_all
    finally show ?thesis .
  qed
  then show "set d = set (filter (\<lambda>x. equiv_class lt x ys = []) xs)" using d(2) by auto
qed

end

section \<open>Properties\<close>

text \<open>C19: \<open>hxmerge\<close> of two sorted ranges appends a sorted range that is a stable merge: the elements
  equivalent to any key are those of the first range followed by those of the second, each in
  their original order.\<close>

theorem hxmerge_stable:
  assumes "strict_weak_order lt" and "sorted_wrt (\<lambda>x y. \<not> lt y x) xs" and "sorted_wrt (\<lambda>x y. \<not> lt y x) ys"
  shows "\<exists>r. hxmerge lt xs ys out = out @ r \<and> sorted_wrt (\<lambda>x y. \<not> lt y x) r \<and>
    (\<forall>k. equiv_class lt k r = equiv_class lt k xs @ equiv_class lt k ys)"
  using strict_weak_order.hxmerge_loop_correct [OF assms, of out] by (auto simp: hxmerge_def)

text \<open>Pairs ordered by their first component only: a total preorder with distinct equivalent values.\<close>

definition fst_less :: "int \<times> 'b \<Rightarrow> int \<times> 'b \<Rightarrow> bool" where
  "fst_less x y = hxkey_less_num (fst x) (fst y)"

interpretation fst_key: strict_weak_order fst_less
  by unfold_locales (auto simp: fst_less_def hxkey_less_num_def)

theorem hxmerge_stable_witness:
  "hxmerge fst_less [(1, ''a''), (2, ''b'')] [(1, ''c''), (3, ''d'')] [] =
     [(1, ''a''), (1, ''c''), (2, ''b''), (3, ''d'')] \<and>
   (\<exists>r. hxmerge fst_less [(1, ''a''), (2, ''b'')] [(1, ''c''), (3, ''d'')] [] = [] @ r \<and>
     equiv_class fst_less (1, []) r = [(1, ''a''), (1, ''c'')])"
proof -
  have s: "sorted_wrt (\<lambda>x y. \<not> fst_less y x) [(1, ''a''), (2, ''b'')]"
    "sorted_wrt (\<lambda>x y. \<not> fst_less y x) [(1, ''c''), (3, ''d'')]"
    by (simp_all add: fst_less_def hxkey_less_num_def)
  show ?thesis using hxmerge_stable [OF fst_key.strict_weak_order_axioms s, of "[]"]
    by (auto simp: hxmerge_def fst_less_def hxkey_less_num_def)
qed

text \<open>C20: on two sorted ranges the set operations return and append sorted ranges to the output. Of a key with
  \<open>m\<close> equivalent elements in the first range and \<open>n\<close> in the second, the union keeps the \<open>m\<close> and the last
  \<open>n - m\<close> of the second range, so \<open>max m n\<close> as documented, and the intersection the first \<open>min m n\<close> of the first range.
  The difference has every element of the first range whose key is not in the second, and when
  no key is repeated in the first range it has exactly those. (What the difference does with a repeated key that both
  ranges have is left open here: the comment of \<open>hxset_difference\<close> drops the key, the code keeps the surplus, see
  \<open>set_difference_surplus\<close>.)\<close>

theorem set_operations_multiset:
  assumes "strict_weak_order lt" and "sorted_wrt (\<lambda>x y. \<not> lt y x) xs" and "sorted_wrt (\<lambda>x y. \<not> lt y x) ys"
  shows "\<exists>u i d. hxset_union lt xs ys out = Some (out @ u) \<and>
    hxset_intersection lt xs ys out = Some (out @ i) \<and>
    hxset_difference lt xs ys out = Some (out @ d) \<and>
    sorted_wrt (\<lambda>x y. \<not> lt y x) u \<and> sorted_wrt (\<lambda>x y. \<not> lt y x) i \<and> sorted_wrt (\<lambda>x y. \<not> lt y x) d \<and>
    (\<forall>k. equiv_class lt k u = equiv_class lt k xs @ drop (length (equiv_class lt k xs)) (equiv_class lt k ys) \<and>
         equiv_class lt k i = take (length (equiv_class lt k ys)) (equiv_class lt k xs) \<and>
         (equiv_class lt k ys = [] \<longrightarrow> equiv_class lt k d = equiv_class lt k xs)) \<and>
    (sorted_wrt lt xs \<longrightarrow> d = filter (\<lambda>x. equiv_class lt x ys = []) xs)"
proof -
  note sets = strict_weak_order.hxset_union_correct [OF assms, of out] strict_weak_order.hxset_intersection_correct [OF assms, of out]
  obtain d where d: "hxset_difference lt xs ys out = Some (out @ d)" "sorted_wrt (\<lambda>x y. \<not> lt y x) d" "set d \<subseteq> set xs"
    "\<And>k. equiv_class lt k d = drop (length (equiv_class lt k ys)) (equiv_class lt k xs)"
    using strict_weak_order.hxset_difference_correct [OF assms, of out] by blast
  moreover have "sorted_wrt lt xs \<longrightarrow> d = filter (\<lambda>x. equiv_class lt x ys = []) xs"
    using strict_weak_order.strict_difference [OF assms(1) _ d(2-4)] by blast
  moreover have "equiv_class lt k d = equiv_class lt k xs" if "equiv_class lt k ys = []" for k using d(4) [of k] that by simp
  ultimately show ?thesis using sets by blast
qed

theorem set_operations_multiset_witness:
  "hxset_union hxkey_less_num [1, 2, 4] [2, 2, 3] [] = Some [1, 2, 2, 3, 4] \<and>
   hxset_intersection hxkey_less_num [1, 2, 4] [2, 2, 3] [] = Some [2] \<and>
   hxset_difference hxkey_less_num [1, 2, 4] [2, 2, 3] [] = Some [1, 4] \<and>
   (\<exists>d. hxset_difference hxkey_less_num [1, 2, 4] [2, 2, 3] [] = Some ([] @ d) \<and>
        d = filter (\<lambda>x. equiv_class hxkey_less_num x [2, 2, 3] = []) [1, 2, 4])"
proof -
  have s: "sorted_wrt (\<lambda>x y. \<not> hxkey_less_num y x) [1, 2, 4]"
    "sorted_wrt (\<lambda>x y. \<not> hxkey_less_num y x) [2, 2, 3]" and strict: "sorted_wrt hxkey_less_num [1, 2, 4]"
    by (simp_all add: hxkey_less_num_def)
  have "\<exists>d. hxset_difference hxkey_less_num [1, 2, 4] [2, 2, 3] [] = Some ([] @ d) \<and>
        d = filter (\<lambda>x. equiv_class hxkey_less_num x [2, 2, 3] = []) [1, 2, 4]"
    using set_operations_multiset [OF num_key.strict_weak_order_axioms s, of "[]"] strict by blast
  then show ?thesis by (simp add: hxkey_less_num_def)
qed

text \<open>The difference as the code computes it: of a key with \<open>m\<close> equivalent elements in the first range and \<open>n\<close> in the
  second, the last \<open>m - n\<close> of the first range. The comment says that the output contains keys that appear in
  the first range but not the second, which holds when \<open>m \<le> n\<close> or \<open>n = 0\<close> only.\<close>

lemma set_difference_surplus:
  assumes "strict_weak_order lt" and "sorted_wrt (\<lambda>x y. \<not> lt y x) xs" and "sorted_wrt (\<lambda>x y. \<not> lt y x) ys"
  shows "\<exists>d. hxset_difference lt xs ys out = Some (out @ d) \<and>
    (\<forall>k. equiv_class lt k d = drop (length (equiv_class lt k ys)) (equiv_class lt k xs))"
  using strict_weak_order.hxset_difference_correct [OF assms, of out] by blast

lemma set_difference_surplus_example:
  "hxset_difference hxkey_less_num [1, 2, 2] [2, 3] [] = Some [1, 2]"
  by (simp add: hxkey_less_num_def)

text \<open>\<open>hxminmax\<close> of a range that is not empty returns the first of its smallest elements and the
  first of its largest elements.\<close>

lemma hxminmax_first_extremes:
  assumes "strict_weak_order lt" and "xs \<noteq> []"
  shows "let r = hxminmax lt xs
    in min_it r < length xs \<and> max_it r < length xs \<and>
       (\<forall>i<length xs. \<not> lt (xs ! i) (xs ! min_it r) \<and> \<not> lt (xs ! max_it r) (xs ! i)) \<and>
       (\<forall>i<min_it r. lt (xs ! min_it r) (xs ! i)) \<and> (\<forall>i<max_it r. lt (xs ! i) (xs ! max_it r))"
  using strict_weak_order.hxminmax_inv [OF assms] by (simp add: minmax_inv_def Let_def)

lemma hxminmax_first_extremes_witness:
  "hxminmax hxkey_less_num [2, 1, 3, 1, 3] = \<lparr>min_it = 1, max_it = 2\<rparr> \<and>
   \<not> hxkey_less_num 3 ([2, 1, 3, 1, 3] ! 4)"
proof -
  have r: "hxminmax hxkey_less_num [2, 1, 3, 1, 3] = \<lparr>min_it = 1, max_it = 2\<rparr>"
    by (simp add: hxminmax_def hxkey_less_num_def upt_rec)
  from hxminmax_first_extremes [OF num_key.strict_weak_order_axioms, of "[2, 1, 3, 1, 3]"] r
  have "\<not> hxkey_less_num ([2, 1, 3, 1, 3] ! 2) ([2, 1, 3, 1, 3] ! 4)"
    unfolding Let_def by (auto simp del: nth_Cons_numeral)
  with r show ?thesis by simp
qed

text \<open>On a sorted range \<open>hxunique\<close> leaves, before the end it returns, one element of each key in
  strictly increasing order, the first of its run, in an array of the same length.\<close>

lemma hxunique_sorted:
  assumes "key_order lt eq three_way" and "sorted_wrt (\<lambda>x y. \<not> lt y x) xs"
  shows "case hxunique eq xs of (ys, n) \<Rightarrow>
    length ys = length xs \<and> n \<le> length xs \<and> take n ys = keep_first eq xs \<and>
    sorted_wrt lt (take n ys) \<and> (\<forall>k. (\<exists>x\<in>set xs. eq k x) \<longleftrightarrow> (\<exists>x\<in>set (take n ys). eq k x))"
  using key_order.keep_first_strict [OF assms] hxunique_keep_first [of eq xs]
    key_order.keep_first_keys [OF assms(1), of xs]
  by (auto split: prod.splits)

lemma hxunique_sorted_witness:
  "hxunique hxkey_equal_num [1, 1, 2, 3, 3] = ([1, 2, 3, 3, 3], 3) \<and> sorted_wrt hxkey_less_num [1, 2, 3]"
proof -
  have s: "sorted_wrt (\<lambda>x y. \<not> hxkey_less_num y x) [1, 1, 2, 3, 3]"
    by (simp add: hxkey_less_num_def)
  have r: "hxunique hxkey_equal_num [1, 1, 2, 3, 3] = ([1, 2, 3, 3, 3], 3)"
    by (simp add: hxunique_def hxunique_find.simps hxunique_move.simps hxkey_equal_num_def)
  from hxunique_sorted [OF num_key.key_order_axioms s] show ?thesis
    by (simp only: r) (simp add: hxkey_less_num_def hxkey_equal_num_def)
qed

end
