(* ===== verification/HxSort.thy ===== *)
theory HxSort
  imports HxRange
begin

text \<open>
  The comparison sorts of \<^verbatim>\<open>include/hx/hxsort.hpp\<close> and
  \<^verbatim>\<open>include/hx/detail/hxsort_detail.hpp\<close>. They work in place on \<open>[begin, end)\<close>: the model
  takes the array as a list, the iterators as indices and returns the array. A moved-from
  element keeps its value here, so a theorem that the result is a permutation shows that the
  code never uses a moved-from value for an element.
\<close>

section \<open>Insertion sort\<close>

text \<open>The hole at \<open>i\<close> moves left past the elements ordered after \<open>t\<close>.\<close>

fun hxinsertion_shift :: "('a \<Rightarrow> 'a \<Rightarrow> bool) \<Rightarrow> 'a \<Rightarrow> nat \<Rightarrow> 'a list \<Rightarrow> nat \<Rightarrow> 'a list" where
  "hxinsertion_shift lt t b xs 0 = xs[0 := t]"
| "hxinsertion_shift lt t b xs (Suc i) =
     (if b < Suc i \<and> lt t (xs ! i) then hxinsertion_shift lt t b (xs[Suc i := xs ! i]) i
      else xs[Suc i := t])"

definition hxinsertion_step :: "('a \<Rightarrow> 'a \<Rightarrow> bool) \<Rightarrow> nat \<Rightarrow> 'a list \<Rightarrow> nat \<Rightarrow> 'a list" where
  "hxinsertion_step lt b xs j =
     (let i = j - 1
      in if lt (xs ! j) (xs ! i)
         then let t = xs ! j in hxinsertion_shift lt t b (xs[j := xs ! i]) i
         else xs)"

definition hxinsertion_sort :: "('a \<Rightarrow> 'a \<Rightarrow> bool) \<Rightarrow> 'a list \<Rightarrow> nat \<Rightarrow> nat \<Rightarrow> 'a list" where
  "hxinsertion_sort lt xs b e =
     (if b = e then xs else foldl (hxinsertion_step lt b) xs [b + 1..<e])"

section \<open>Heapsort\<close>

definition hxinsertion_sort_cutoff :: hxsize_t where "hxinsertion_sort_cutoff = 10"
definition hxheapsort_cutoff :: hxsize_t where "hxheapsort_cutoff = 20"

function hxheapsort_heapify :: "('a \<Rightarrow> 'a \<Rightarrow> bool) \<Rightarrow> 'a list \<Rightarrow> nat \<Rightarrow> nat \<Rightarrow> nat \<Rightarrow> 'a \<Rightarrow> 'a list" where
  "hxheapsort_heapify lt xs b current e v =
     (let left_idx = 2 * (current - b) + 1
      in if left_idx \<ge> e - b then xs[current := v]
         else let next0 = b + left_idx;
                  right = next0 + 1;
                  next = (if right < e \<and> lt (xs ! next0) (xs ! right) then right else next0)
              in if \<not> lt v (xs ! next) then xs[current := v]
                 else hxheapsort_heapify lt (xs[current := xs ! next]) b next e v)"
  by pat_completeness auto
termination
  by (relation "measure (\<lambda>(lt, xs, b, current, e, v). e - current)") (auto simp: Let_def)

declare hxheapsort_heapify.simps [simp del]

fun hxmake_heap_loop :: "('a \<Rightarrow> 'a \<Rightarrow> bool) \<Rightarrow> 'a list \<Rightarrow> nat \<Rightarrow> nat \<Rightarrow> nat \<Rightarrow> 'a list" where
  "hxmake_heap_loop lt xs b e 0 = xs"
| "hxmake_heap_loop lt xs b e (Suc i) =
     (let v = xs ! (b + i)
      in hxmake_heap_loop lt (hxheapsort_heapify lt xs b (b + i) e v) b e i)"

definition hxmake_heap :: "('a \<Rightarrow> 'a \<Rightarrow> bool) \<Rightarrow> 'a list \<Rightarrow> nat \<Rightarrow> nat \<Rightarrow> 'a list" where
  "hxmake_heap lt xs b e = hxmake_heap_loop lt xs b e ((e - b) div 2)"

text \<open>The loop of \<open>hxheapsort_\<close> takes the largest element off the heap \<open>[b, it + 1)\<close>.\<close>

fun hxheapsort_loop :: "('a \<Rightarrow> 'a \<Rightarrow> bool) \<Rightarrow> 'a list \<Rightarrow> nat \<Rightarrow> nat \<Rightarrow> 'a list" where
  "hxheapsort_loop lt xs b it =
     (if b < it
      then let v = xs ! it
           in hxheapsort_loop lt (hxheapsort_heapify lt (xs[it := xs ! b]) b b it v) b (it - 1)
      else xs)"

declare hxheapsort_loop.simps [simp del]

definition hxheapsort_body :: "('a \<Rightarrow> 'a \<Rightarrow> bool) \<Rightarrow> 'a list \<Rightarrow> nat \<Rightarrow> nat \<Rightarrow> 'a list hx" where
  "hxheapsort_body lt xs b e =
     (if \<not> int e - int b > hxheapsort_cutoff then Inl (Assert_debug ''bad_range too small'')
      else Inr (hxheapsort_loop lt (hxmake_heap lt xs b e) b (e - 1)))"

definition hxheapsort :: "('a \<Rightarrow> 'a \<Rightarrow> bool) \<Rightarrow> 'a list \<Rightarrow> nat \<Rightarrow> nat \<Rightarrow> 'a list hx" where
  "hxheapsort lt xs b e =
     (if int e - int b \<le> hxheapsort_cutoff then Inr (hxinsertion_sort lt xs b e)
      else hxheapsort_body lt xs b e)"

section \<open>Dual-pivot quicksort and introsort\<close>

text \<open>The sorting network works on the five pivot iterators, here the list of their positions.\<close>

definition compare_swap :: "('a \<Rightarrow> 'a \<Rightarrow> bool) \<Rightarrow> 'a list \<Rightarrow> nat list \<Rightarrow> nat \<times> nat \<Rightarrow> nat list" where
  "compare_swap lt xs ps hl =
     (if lt (xs ! (ps ! fst hl)) (xs ! (ps ! snd hl))
      then ps[fst hl := ps ! snd hl, snd hl := ps ! fst hl] else ps)"

definition hxpivots :: "('a \<Rightarrow> 'a \<Rightarrow> bool) \<Rightarrow> 'a list \<Rightarrow> nat \<Rightarrow> nat \<Rightarrow> nat list" where
  "hxpivots lt xs b e =
     (let len = e - b;
          seventh = drop_bit 3 len + drop_bit 6 len + 1;
          p2 = b + drop_bit 1 len;
          p1 = p2 - seventh;
          p0 = p1 - seventh;
          p3 = p2 + seventh;
          p4 = p3 + seventh
      in foldl (compare_swap lt xs) [p0, p1, p2, p3, p4]
           [(3, 0), (4, 1), (2, 0), (3, 1), (1, 0), (4, 2), (2, 1), (4, 3), (3, 2)])"

text \<open>The loop of the three-way partition carries the end of the less-than range \<open>l\<close>, the scan
  position \<open>i\<close> and \<open>g\<close>, the position after the source's \<open>gt_\<close>: \<open>!(gt_ < i_)\<close> is \<open>i < g\<close>.\<close>

function hxpartition_loop :: "('a \<Rightarrow> 'a \<Rightarrow> bool) \<Rightarrow> 'a \<Rightarrow> 'a \<Rightarrow> 'a list \<Rightarrow> nat \<Rightarrow> nat \<Rightarrow> nat \<Rightarrow> 'a list \<times> nat \<times> nat" where
  "hxpartition_loop lt pivot1 pivot2 xs l g i =
     (if i < g
      then if lt (xs ! i) pivot1
           then hxpartition_loop lt pivot1 pivot2
                  (if l \<noteq> i then xs[i := xs ! l, l := xs ! i] else xs) (l + 1) g (i + 1)
           else if lt pivot2 (xs ! i)
           then hxpartition_loop lt pivot1 pivot2
                  (if g - 1 \<noteq> i then xs[i := xs ! (g - 1), g - 1 := xs ! i] else xs) l (g - 1) i
           else hxpartition_loop lt pivot1 pivot2 xs l g (i + 1)
      else (xs, l, g))"
  by pat_completeness auto
termination
  by (relation "measure (\<lambda>(lt, p1, p2, xs, l, g, i). g - i)") auto

declare hxpartition_loop.simps [simp del]

definition hxpartition :: "('a \<Rightarrow> 'a \<Rightarrow> bool) \<Rightarrow> 'a list \<Rightarrow> nat \<Rightarrow> nat \<Rightarrow> 'a list \<times> nat \<times> nat" where
  "hxpartition lt xs b e =
     (let ps = hxpivots lt xs b e; p1 = ps ! 1; p3 = ps ! 3;
          back = e - 1;
          pivot1 = xs ! p1;
          xs = xs[p1 := xs ! b];
          pivot2 = xs ! p3;
          xs = xs[p3 := xs ! back];
          (xs, l, g) = hxpartition_loop lt pivot1 pivot2 xs (b + 1) back (b + 1);
          l = l - 1;
          xs = (if b \<noteq> l then xs[b := xs ! l] else xs);
          xs = xs[l := pivot1];
          xs = (if back \<noteq> g then xs[back := xs ! g] else xs);
          xs = xs[g := pivot2]
      in (xs, l, g))"

text \<open>The callback sorts a subrange with the depth that is left.\<close>

definition hxpartition_sort ::
  "('a \<Rightarrow> 'a \<Rightarrow> bool) \<Rightarrow> ('a list \<Rightarrow> nat \<Rightarrow> nat \<Rightarrow> 'a list hx) \<Rightarrow> 'a list \<Rightarrow> nat \<Rightarrow> nat \<Rightarrow> 'a list hx" where
  "hxpartition_sort lt sort_callback xs b e =
     (if \<not> int e - int b > hxinsertion_sort_cutoff then Inl (Assert_debug ''bad_range too small'')
      else let (xs1, l, g) = hxpartition lt xs b e
           in hx_bind (sort_callback xs1 b l) (\<lambda>xs2.
              hx_bind (if lt (xs2 ! l) (xs2 ! g) then sort_callback xs2 (l + 1) g else Inr xs2) (\<lambda>xs3.
              sort_callback xs3 (g + 1) e)))"

primrec hxintro_sort :: "('a \<Rightarrow> 'a \<Rightarrow> bool) \<Rightarrow> nat \<Rightarrow> 'a list \<Rightarrow> nat \<Rightarrow> nat \<Rightarrow> 'a list hx" where
  "hxintro_sort lt 0 xs b e =
     (if e < b then Inl (Assert_debug ''bad_range end before begin'')
      else if int e - int b \<le> hxheapsort_cutoff then Inr (hxinsertion_sort lt xs b e)
      else hxheapsort_body lt xs b e)"
| "hxintro_sort lt (Suc depth) xs b e =
     (if e < b then Inl (Assert_debug ''bad_range end before begin'')
      else if int e - int b \<le> hxinsertion_sort_cutoff then Inr (hxinsertion_sort lt xs b e)
      else hxpartition_sort lt (hxintro_sort lt depth) xs b e)"

text \<open>The depth comes from the size truncated to 32 bits, as \<open>hxlog2i\<close> takes a \<open>uint32_t\<close>.\<close>

definition hxsort :: "('a \<Rightarrow> 'a \<Rightarrow> bool) \<Rightarrow> 'a list \<Rightarrow> nat \<Rightarrow> nat \<Rightarrow> 'a list hx" where
  "hxsort lt xs b e =
     (let sz = int e - int b
      in hx_bind (if sz > 0 then hx_map (\<lambda>l. 2 * l) (hxlog2i (word_of_int sz)) else Inr 0)
           (\<lambda>depth. hxintro_sort lt (nat depth) xs b e))"

section \<open>Rearrangements of a range\<close>

text \<open>What every step of a sort does to the array: permute the elements of \<open>[b, e)\<close>.\<close>

definition range_perm :: "nat \<Rightarrow> nat \<Rightarrow> 'a list \<Rightarrow> 'a list \<Rightarrow> bool" where
  "range_perm b e xs ys \<longleftrightarrow>
     length ys = length xs \<and> mset ys = mset xs \<and> (\<forall>i. i < b \<or> e \<le> i \<longrightarrow> ys ! i = xs ! i)"

lemma range_perm_refl [simp]: "range_perm b e xs xs"
  by (simp add: range_perm_def)

lemma range_perm_trans [trans]:
  "range_perm b e xs ys \<Longrightarrow> range_perm b e ys zs \<Longrightarrow> range_perm b e xs zs"
  by (auto simp: range_perm_def)

lemma range_perm_mono: "range_perm b e xs ys \<Longrightarrow> b' \<le> b \<Longrightarrow> e \<le> e' \<Longrightarrow> range_perm b' e' xs ys"
  by (auto simp: range_perm_def)

lemma range_perm_length: "range_perm b e xs ys \<Longrightarrow> length ys = length xs"
  by (simp add: range_perm_def)

lemma range_perm_outside: "range_perm b e xs ys \<Longrightarrow> i < b \<or> e \<le> i \<Longrightarrow> ys ! i = xs ! i"
  by (auto simp: range_perm_def)

lemma range_perm_swap:
  "b \<le> i \<Longrightarrow> i < e \<Longrightarrow> b \<le> j \<Longrightarrow> j < e \<Longrightarrow> e \<le> length xs \<Longrightarrow>
   range_perm b e xs (xs[i := xs ! j, j := xs ! i])"
  by (auto simp: range_perm_def mset_swap_nth)

lemma range_perm_slice:
  assumes "range_perm b e xs ys" "b \<le> e" "e \<le> length xs"
  shows "mset (take (e - b) (drop b ys)) = mset (take (e - b) (drop b xs))"
proof -
  have split: "mset zs = mset (take b zs) + mset (take (e - b) (drop b zs)) + mset (drop e zs)" for zs :: "'a list"
    using \<open>b \<le> e\<close> by (metis append.assoc append_take_drop_id drop_drop le_add_diff_inverse2 mset_append)
  have "take b ys = take b xs" "drop e ys = drop e xs"
    using assms by (auto simp: range_perm_def intro!: nth_equalityI)
  then show ?thesis using split [of xs] split [of ys] assms(1) by (simp add: range_perm_def)
qed

lemma in_slice_iff:
  assumes "b \<le> e" "e \<le> length xs"
  shows "x \<in> set (take (e - b) (drop b xs)) \<longleftrightarrow> (\<exists>i. b \<le> i \<and> i < e \<and> xs ! i = x)"
proof
  assume "x \<in> set (take (e - b) (drop b xs))"
  then obtain i where "i < e - b" "x = xs ! (b + i)"
    using assms by (auto simp: in_set_conv_nth)
  then show "\<exists>i. b \<le> i \<and> i < e \<and> xs ! i = x" by (intro exI [of _ "b + i"]) auto
next
  assume "\<exists>i. b \<le> i \<and> i < e \<and> xs ! i = x"
  then obtain i where "b \<le> i" "i < e" "xs ! i = x" by blast
  then show "x \<in> set (take (e - b) (drop b xs))"
    using assms by (auto simp: in_set_conv_nth intro!: exI [of _ "i - b"])
qed

text \<open>Whatever holds of all elements of a range still does after a rearrangement of it.\<close>

lemma range_perm_all:
  assumes "range_perm b e xs ys" "e \<le> length xs" "\<And>i. b \<le> i \<Longrightarrow> i < e \<Longrightarrow> P (xs ! i)" "b \<le> i" "i < e"
  shows "P (ys ! i)"
proof -
  have be: "b \<le> e" using assms by simp
  have "ys ! i \<in> set (take (e - b) (drop b ys))"
    using assms by (subst in_slice_iff) (auto simp: range_perm_length)
  then have "ys ! i \<in> set (take (e - b) (drop b xs))"
    using range_perm_slice [OF assms(1) be assms(2)] by (metis set_mset_mset)
  then obtain k where "b \<le> k" "k < e" "xs ! k = ys ! i" using be assms(2) by (auto simp: in_slice_iff)
  then show ?thesis using assms(3) [of k] by simp
qed

text \<open>Moving a value along a hole is a swap once the hole is filled.\<close>

lemma hole_move:
  assumes "b \<le> i" "i < e" "b \<le> j" "j < e" "e \<le> length xs"
  shows "range_perm b e (xs[i := v]) (xs[i := xs ! j, j := v])"
proof (cases "i = j")
  case False
  have "xs[i := xs ! j, j := v] = (xs[i := v])[i := xs[i := v] ! j, j := xs[i := v] ! i]"
    using False assms by simp
  then show ?thesis using range_perm_swap [of b i e j "xs[i := v]"] assms by simp
qed simp

text \<open>Sortedness of a range.\<close>

definition sorted_between :: "('a \<Rightarrow> 'a \<Rightarrow> bool) \<Rightarrow> 'a list \<Rightarrow> nat \<Rightarrow> nat \<Rightarrow> bool" where
  "sorted_between lt xs b e \<longleftrightarrow> (\<forall>i j. b \<le> i \<longrightarrow> i < j \<longrightarrow> j < e \<longrightarrow> \<not> lt (xs ! j) (xs ! i))"

lemma sorted_betweenD: "sorted_between lt xs b e \<Longrightarrow> b \<le> i \<Longrightarrow> i < j \<Longrightarrow> j < e \<Longrightarrow> \<not> lt (xs ! j) (xs ! i)"
  by (simp add: sorted_between_def)

lemma sorted_between_all:
  "sorted_between lt xs 0 (length xs) \<longleftrightarrow> sorted_wrt (\<lambda>x y. \<not> lt y x) xs"
  by (auto simp: sorted_between_def sorted_wrt_iff_nth_less)

lemma sorted_between_cong:
  "(\<And>i. b \<le> i \<Longrightarrow> i < e \<Longrightarrow> ys ! i = xs ! i) \<Longrightarrow> sorted_between lt xs b e \<Longrightarrow> sorted_between lt ys b e"
  by (auto simp: sorted_between_def)

section \<open>Insertion sort is correct\<close>

lemma hxinsertion_shift_perm:
  "b \<le> i \<Longrightarrow> i < e \<Longrightarrow> e \<le> length xs \<Longrightarrow> range_perm b e (xs[i := t]) (hxinsertion_shift lt t b xs i)"
proof (induction lt t b xs i rule: hxinsertion_shift.induct)
  case (2 lt t b xs i)
  show ?case
  proof (cases "b < Suc i \<and> lt t (xs ! i)")
    case True
    then have "range_perm b e (xs[Suc i := t]) (xs[Suc i := xs ! i, i := t])"
      using 2 by (intro hole_move) auto
    also have "range_perm b e \<dots> (hxinsertion_shift lt t b (xs[Suc i := xs ! i]) i)"
      using 2 True by auto
    finally show ?thesis using True by simp
  qed auto
qed simp

lemma hxinsertion_step_perm:
  assumes "b < j" "j < e" "e \<le> length xs"
  shows "range_perm b e xs (hxinsertion_step lt b xs j)"
proof -
  have "range_perm b e xs (xs[j := xs ! (j - 1), j - 1 := xs ! j])"
    using assms by (intro range_perm_swap) auto
  also have "range_perm b e \<dots> (hxinsertion_shift lt (xs ! j) b (xs[j := xs ! (j - 1)]) (j - 1))"
    using assms by (intro hxinsertion_shift_perm) auto
  finally show ?thesis by (simp add: hxinsertion_step_def Let_def)
qed

lemma foldl_insertion_perm:
  "(\<And>j. j \<in> set js \<Longrightarrow> b < j \<and> j < e) \<Longrightarrow> e \<le> length xs \<Longrightarrow>
   range_perm b e xs (foldl (hxinsertion_step lt b) xs js)"
proof (induction js arbitrary: xs)
  case (Cons j js)
  have "range_perm b e xs (hxinsertion_step lt b xs j)"
    using Cons.prems by (intro hxinsertion_step_perm) auto
  moreover have "range_perm b e (hxinsertion_step lt b xs j) (foldl (hxinsertion_step lt b) xs (j # js))"
    using Cons range_perm_length [OF calculation] by simp
  ultimately show ?case by (rule range_perm_trans)
qed simp

lemma hxinsertion_sort_perm: "e \<le> length xs \<Longrightarrow> range_perm b e xs (hxinsertion_sort lt xs b e)"
  unfolding hxinsertion_sort_def by (auto intro!: foldl_insertion_perm)

context strict_weak_order begin

lemma hxinsertion_shift_sorted:
  "b \<le> i \<Longrightarrow> i < e \<Longrightarrow> e \<le> length xs \<Longrightarrow>
   (\<And>p q. b \<le> p \<Longrightarrow> p < q \<Longrightarrow> q < e \<Longrightarrow> p \<noteq> i \<Longrightarrow> q \<noteq> i \<Longrightarrow> \<not> lt (xs ! q) (xs ! p)) \<Longrightarrow>
   (\<And>q. i < q \<Longrightarrow> q < e \<Longrightarrow> lt t (xs ! q)) \<Longrightarrow>
   sorted_between lt (hxinsertion_shift lt t b xs i) b e"
proof (induction i arbitrary: xs)
  case 0
  have "\<not> lt (xs[0 := t] ! q) (xs[0 := t] ! p)" if "p < q" "q < e" for p q
  proof -
    have "0 < length xs" using that "0.prems"(3) by (metis less_le_trans not_less0 gr0I)
    then show ?thesis using that "0.prems" by (cases "p = 0") (auto dest: asym)
  qed
  then show ?case by (simp add: sorted_between_def)
next
  case (Suc i)
  show ?case
  proof (cases "b < Suc i \<and> lt t (xs ! i)")
    case True
    have "sorted_between lt (hxinsertion_shift lt t b (xs[Suc i := xs ! i]) i) b e"
    proof (rule Suc.IH)
      fix p q assume "b \<le> p" "p < q" "q < e" "p \<noteq> i" "q \<noteq> i"
      then show "\<not> lt (xs[Suc i := xs ! i] ! q) (xs[Suc i := xs ! i] ! p)"
        using Suc.prems(2,3) True Suc.prems(4) [of p q] Suc.prems(4) [of p i] Suc.prems(4) [of i q]
        by (cases "p = Suc i"; cases "q = Suc i") auto
    next
      fix q assume "i < q" "q < e"
      then show "lt t (xs[Suc i := xs ! i] ! q)"
        using Suc.prems(3,5) True by (cases "q = Suc i") auto
    qed (use True Suc.prems in auto)
    then show ?thesis using True by simp
  next
    case False
    have below: "\<not> lt t (xs ! p)" if "b \<le> p" "p < Suc i" for p
    proof (cases "p = i")
      case False
      then have "\<not> lt (xs ! i) (xs ! p)" using that Suc.prems by simp
      moreover have "\<not> lt t (xs ! i)" using that \<open>\<not> (b < Suc i \<and> lt t (xs ! i))\<close> by simp
      ultimately show ?thesis using nlt_trans by blast
    qed (use False that in auto)
    have "\<not> lt (xs[Suc i := t] ! q) (xs[Suc i := t] ! p)" if "b \<le> p" "p < q" "q < e" for p q
    proof -
      consider "p = Suc i" | "q = Suc i" | "p \<noteq> Suc i" "q \<noteq> Suc i" by blast
      then show ?thesis using that Suc.prems below by cases (auto dest: asym)
    qed
    then have "sorted_between lt (xs[Suc i := t]) b e" by (simp add: sorted_between_def)
    then show ?thesis by (subst hxinsertion_shift.simps) (simp only: False if_False)
  qed
qed

lemma hxinsertion_step_sorted:
  assumes "sorted_between lt xs b j" "b < j" "j < length xs"
  shows "sorted_between lt (hxinsertion_step lt b xs j) b (Suc j)"
proof (cases "lt (xs ! j) (xs ! (j - 1))")
  case True
  let ?ys = "xs[j := xs ! (j - 1)]"
  have "sorted_between lt (hxinsertion_shift lt (xs ! j) b ?ys (j - 1)) b (Suc j)"
  proof (rule hxinsertion_shift_sorted)
    fix p q assume "b \<le> p" "p < q" "q < Suc j" "p \<noteq> j - 1" "q \<noteq> j - 1"
    then show "\<not> lt (?ys ! q) (?ys ! p)"
      using assms sorted_betweenD [OF assms(1), of p q] sorted_betweenD [OF assms(1), of p "j - 1"]
      by (cases "q = j") auto
  next
    fix q assume "j - 1 < q" "q < Suc j"
    then have "q = j" by simp
    then show "lt (xs ! j) (?ys ! q)" using True assms by simp
  qed (use assms in auto)
  then show ?thesis using True by (simp add: hxinsertion_step_def Let_def)
next
  case False
  have "\<not> lt (xs ! j) (xs ! p)" if "b \<le> p" "p < j" for p
  proof (cases "p = j - 1")
    case False
    then have "\<not> lt (xs ! (j - 1)) (xs ! p)" using that by (intro sorted_betweenD [OF assms(1)]) auto
    then show ?thesis using \<open>\<not> lt (xs ! j) (xs ! (j - 1))\<close> nlt_trans by blast
  qed (use False in simp)
  then show ?thesis
    using False assms(1) by (auto simp: hxinsertion_step_def Let_def sorted_between_def less_Suc_eq)
qed

lemma foldl_insertion_sorted:
  "sorted_between lt xs b j \<Longrightarrow> b < j \<Longrightarrow> j \<le> e \<Longrightarrow> e \<le> length xs \<Longrightarrow>
   sorted_between lt (foldl (hxinsertion_step lt b) xs [j..<e]) b e"
proof (induction "e - j" arbitrary: j xs)
  case (Suc d)
  then have "[j..<e] = j # [Suc j..<e]" by (simp add: upt_conv_Cons)
  moreover have "length (hxinsertion_step lt b xs j) = length xs"
    using Suc by (intro range_perm_length [OF hxinsertion_step_perm [of b j e]]) auto
  ultimately show ?case using Suc hxinsertion_step_sorted [of xs b j] by simp
qed (simp)

lemma hxinsertion_sort_sorted:
  "b \<le> e \<Longrightarrow> e \<le> length xs \<Longrightarrow> sorted_between lt (hxinsertion_sort lt xs b e) b e"
  using foldl_insertion_sorted [of xs b "b + 1" e]
  by (cases "b = e") (auto simp: hxinsertion_sort_def sorted_between_def)

end

subsection \<open>Insertion sort is stable\<close>

text \<open>It exchanges neighbours only when the comparison separates them, so it keeps the order of the
  elements of any set that the comparison does not separate.\<close>

lemma filter_adjacent_swap:
  assumes "Suc i < length xs" "\<not> (P (xs ! i) \<and> P (xs ! Suc i))"
  shows "filter P (xs[i := xs ! Suc i, Suc i := xs ! i]) = filter P xs"
proof -
  obtain ys x y zs where xs: "xs = ys @ x # y # zs" and i: "length ys = i"
    using assms(1) id_take_nth_drop [of i xs] Cons_nth_drop_Suc [of "Suc i" xs]
    by (metis Suc_lessD length_take less_imp_le min.absorb2)
  then show ?thesis using assms(2) by (simp add: list_update_append nth_append)
qed

lemma hxinsertion_shift_filter:
  assumes sep: "\<And>x y. lt x y \<Longrightarrow> \<not> (P x \<and> P y)"
  shows "i < length xs \<Longrightarrow> filter P (hxinsertion_shift lt t b xs i) = filter P (xs[i := t])"
proof (induction i arbitrary: xs)
  case (Suc i)
  show ?case
  proof (cases "b < Suc i \<and> lt t (xs ! i)")
    case True
    then have "filter P (xs[Suc i := xs ! i, i := t]) = filter P (xs[Suc i := t])"
      using filter_adjacent_swap [of i "xs[Suc i := t]" P] sep Suc.prems
      by (auto simp: list_update_swap)
    then show ?thesis using Suc True by simp
  qed (subst hxinsertion_shift.simps, auto)
qed simp

lemma length_hxinsertion_shift: "length (hxinsertion_shift lt t b xs i) = length xs"
  by (induction i arbitrary: xs) auto

lemma length_hxinsertion_step: "length (hxinsertion_step lt b xs j) = length xs"
  by (simp add: hxinsertion_step_def Let_def length_hxinsertion_shift)

lemma hxinsertion_step_filter:
  assumes sep: "\<And>x y. lt x y \<Longrightarrow> \<not> (P x \<and> P y)" and "0 < j" "j < length xs"
  shows "filter P (hxinsertion_step lt b xs j) = filter P xs"
proof (cases "lt (xs ! j) (xs ! (j - 1))")
  case True
  have "filter P (xs[j := xs ! (j - 1), j - 1 := xs ! j]) = filter P xs"
    using filter_adjacent_swap [of "j - 1" xs P] True sep assms(2,3) by (auto simp: list_update_swap)
  then show ?thesis
    using True assms(3) hxinsertion_shift_filter [where lt = lt and P = P, OF sep]
    by (simp add: hxinsertion_step_def Let_def)
qed (simp add: hxinsertion_step_def)

lemma hxinsertion_sort_filter:
  assumes sep: "\<And>x y. lt x y \<Longrightarrow> \<not> (P x \<and> P y)" and "e \<le> length xs"
  shows "filter P (hxinsertion_sort lt xs b e) = filter P xs"
proof -
  have "\<forall>j\<in>set js. 0 < j \<and> j < length xs \<Longrightarrow>
      filter P (foldl (hxinsertion_step lt b) xs js) = filter P xs" for js
    using assms(2)
  proof (induction js rule: rev_induct)
    case (snoc j js)
    have "length (foldl (hxinsertion_step lt b) xs js) = length xs"
      by (induction js rule: rev_induct) (simp_all add: length_hxinsertion_step)
    then show ?case using snoc hxinsertion_step_filter [where lt = lt and P = P, OF sep] by simp
  qed simp
  from this [of "[b + 1..<e]"] show ?thesis using assms(2) by (simp add: hxinsertion_sort_def)
qed

section \<open>Heapsort is correct\<close>

text \<open>\<open>heap_next\<close> is the larger child, the position the hole may move to.\<close>

definition heap_next :: "('a \<Rightarrow> 'a \<Rightarrow> bool) \<Rightarrow> 'a list \<Rightarrow> nat \<Rightarrow> nat \<Rightarrow> nat \<Rightarrow> nat" where
  "heap_next lt xs b c n =
     (if 2 * c + 2 < n \<and> lt (xs ! (b + (2 * c + 1))) (xs ! (b + (2 * c + 2))) then 2 * c + 2 else 2 * c + 1)"

lemma heapify_unfold:
  "e = b + n \<Longrightarrow> hxheapsort_heapify lt xs b (b + c) e v =
    (if n \<le> 2 * c + 1 \<or> \<not> lt v (xs ! (b + heap_next lt xs b c n)) then xs[b + c := v]
     else hxheapsort_heapify lt (xs[b + c := xs ! (b + heap_next lt xs b c n)]) b
            (b + heap_next lt xs b c n) e v)"
  by (subst hxheapsort_heapify.simps) (auto simp: Let_def heap_next_def)

lemma heap_next_bounds: "2 * c + 1 < n \<Longrightarrow> c < heap_next lt xs b c n \<and> heap_next lt xs b c n < n"
  by (auto simp: heap_next_def)

lemma heap_next_child: "heap_next lt xs b c n \<noteq> 0 \<and> (heap_next lt xs b c n - 1) div 2 = c"
  by (auto simp: heap_next_def)

lemma heapify_perm:
  "c < n \<Longrightarrow> b + n \<le> length xs \<Longrightarrow>
   range_perm b (b + n) (xs[b + c := v]) (hxheapsort_heapify lt xs b (b + c) (b + n) v)"
proof (induction "n - c" arbitrary: c xs rule: less_induct)
  case less
  let ?k = "heap_next lt xs b c n"
  show ?case
  proof (cases "n \<le> 2 * c + 1 \<or> \<not> lt v (xs ! (b + ?k))")
    case False
    then have k: "c < ?k" "?k < n" using heap_next_bounds [of c n] by auto
    then have "range_perm b (b + n) (xs[b + c := v]) (xs[b + c := xs ! (b + ?k), b + ?k := v])"
      using less.prems by (intro hole_move) auto
    also have "range_perm b (b + n) \<dots>
        (hxheapsort_heapify lt (xs[b + c := xs ! (b + ?k)]) b (b + ?k) (b + n) v)"
      using less.hyps k less.prems by simp
    finally show ?thesis using False by (subst heapify_unfold [OF refl]) simp
  qed (subst heapify_unfold [OF refl], simp)
qed

lemma make_heap_loop_perm:
  "b + i \<le> e \<Longrightarrow> e \<le> length xs \<Longrightarrow> range_perm b e xs (hxmake_heap_loop lt xs b e i)"
proof (induction i arbitrary: xs)
  case (Suc i)
  let ?ys = "hxheapsort_heapify lt xs b (b + i) e (xs ! (b + i))"
  have "range_perm b e (xs[b + i := xs ! (b + i)]) ?ys"
    using heapify_perm [of i "e - b" b xs "xs ! (b + i)" lt] Suc.prems by simp
  then have "range_perm b e xs ?ys" by simp
  moreover from this have "range_perm b e ?ys (hxmake_heap_loop lt ?ys b e i)"
    using Suc.IH [of ?ys] Suc.prems by (simp add: range_perm_length)
  ultimately show ?case by (auto simp: Let_def intro: range_perm_trans)
qed simp

lemma heap_extract_perm:
  assumes "b < it" "it < length xs"
  shows "range_perm b (Suc it) xs (hxheapsort_heapify lt (xs[it := xs ! b]) b b it (xs ! it))"
proof -
  have "range_perm b (Suc it) xs (xs[it := xs ! b, b := xs ! it])"
    using assms by (intro range_perm_swap) auto
  also have "range_perm b (Suc it) \<dots> (hxheapsort_heapify lt (xs[it := xs ! b]) b b it (xs ! it))"
    using heapify_perm [of 0 "it - b" b "xs[it := xs ! b]" "xs ! it" lt] assms
    by (intro range_perm_mono [of b it _ _ b "Suc it"]) auto
  finally show ?thesis .
qed

lemma heapsort_loop_perm:
  "it < e \<Longrightarrow> e \<le> length xs \<Longrightarrow> range_perm b e xs (hxheapsort_loop lt xs b it)"
proof (induction it arbitrary: xs)
  case 0
  then show ?case by (subst hxheapsort_loop.simps) simp
next
  case (Suc it)
  show ?case
  proof (cases "b < Suc it")
    case True
    let ?ys = "hxheapsort_heapify lt (xs[Suc it := xs ! b]) b b (Suc it) (xs ! Suc it)"
    have p: "range_perm b e xs ?ys"
      using heap_extract_perm [of b "Suc it" xs lt] True Suc.prems by (auto elim: range_perm_mono)
    moreover have "range_perm b e ?ys (hxheapsort_loop lt ?ys b it)"
      using Suc.IH [of ?ys] Suc.prems p by (simp add: range_perm_length)
    ultimately show ?thesis
      using True by (subst hxheapsort_loop.simps) (auto simp: Let_def intro: range_perm_trans)
  qed (subst hxheapsort_loop.simps, simp)
qed

lemma hxheapsort_body_perm:
  assumes "20 < e - b" "e \<le> length xs"
  shows "\<exists>ys. hxheapsort_body lt xs b e = Inr ys \<and> range_perm b e xs ys"
proof -
  have "range_perm b e xs (hxmake_heap lt xs b e)"
    using assms unfolding hxmake_heap_def by (intro make_heap_loop_perm) auto
  moreover from this have "range_perm b e (hxmake_heap lt xs b e)
      (hxheapsort_loop lt (hxmake_heap lt xs b e) b (e - 1))"
    using assms by (intro heapsort_loop_perm) (auto simp: range_perm_length)
  ultimately show ?thesis
    using assms by (auto simp: hxheapsort_body_def hxheapsort_cutoff_def intro: range_perm_trans)
qed

text \<open>The heap order on the offsets whose parent is at least \<open>k\<close>, and the same with one offset \<open>c\<close>
  whose value may be too small: its children are still not after its parent.\<close>

definition heap_from :: "('a \<Rightarrow> 'a \<Rightarrow> bool) \<Rightarrow> 'a list \<Rightarrow> nat \<Rightarrow> nat \<Rightarrow> nat \<Rightarrow> bool" where
  "heap_from lt xs b n k \<longleftrightarrow>
     (\<forall>j. 0 < j \<longrightarrow> j < n \<longrightarrow> k \<le> (j - 1) div 2 \<longrightarrow> \<not> lt (xs ! (b + (j - 1) div 2)) (xs ! (b + j)))"

definition heap_except :: "('a \<Rightarrow> 'a \<Rightarrow> bool) \<Rightarrow> 'a list \<Rightarrow> nat \<Rightarrow> nat \<Rightarrow> nat \<Rightarrow> nat \<Rightarrow> bool" where
  "heap_except lt xs b n k c \<longleftrightarrow>
     (\<forall>j. 0 < j \<longrightarrow> j < n \<longrightarrow> k \<le> (j - 1) div 2 \<longrightarrow> (j - 1) div 2 \<noteq> c \<longrightarrow>
          \<not> lt (xs ! (b + (j - 1) div 2)) (xs ! (b + j))) \<and>
     (\<forall>j. 0 < j \<longrightarrow> j < n \<longrightarrow> (j - 1) div 2 = c \<longrightarrow> 0 < c \<longrightarrow> k \<le> (c - 1) div 2 \<longrightarrow>
          \<not> lt (xs ! (b + (c - 1) div 2)) (xs ! (b + j)))"

lemma heap_exceptD:
  assumes "heap_except lt xs b n k c" "0 < j" "j < n"
  shows "k \<le> (j - 1) div 2 \<Longrightarrow> (j - 1) div 2 \<noteq> c \<Longrightarrow> \<not> lt (xs ! (b + (j - 1) div 2)) (xs ! (b + j))"
    and "(j - 1) div 2 = c \<Longrightarrow> 0 < c \<Longrightarrow> k \<le> (c - 1) div 2 \<Longrightarrow>
         \<not> lt (xs ! (b + (c - 1) div 2)) (xs ! (b + j))"
  using assms unfolding heap_except_def by blast+

lemma child_offset: "0 < j \<Longrightarrow> (j - 1) div 2 = c \<Longrightarrow> j = 2 * c + 1 \<or> j = 2 * c + 2"
  for j c :: nat
  by presburger

lemma parent_less: "0 < j \<Longrightarrow> (j - 1) div 2 < j" for j :: nat
  by presburger

context strict_weak_order begin

lemma heap_next_max:
  assumes "0 < j" "j < n" "(j - 1) div 2 = c"
  shows "\<not> lt (xs ! (b + heap_next lt xs b c n)) (xs ! (b + j))"
  using child_offset [OF assms(1,3)] assms(2) by (auto simp: heap_next_def irrefl dest: asym)

lemma heap_except_step:
  assumes ex: "heap_except lt (xs[b + c := v]) b n k c" and c: "c < n" "b + n \<le> length xs"
    and n: "2 * c + 1 < n" and v: "lt v (xs ! (b + heap_next lt xs b c n))"
  shows "heap_except lt (xs[b + c := xs ! (b + heap_next lt xs b c n), b + heap_next lt xs b c n := v]) b n k
           (heap_next lt xs b c n)"
proof -
  let ?m = "heap_next lt xs b c n"
  let ?H = "xs[b + c := v]" and ?H' = "xs[b + c := xs ! (b + ?m), b + ?m := v]"
  have m: "c < ?m" "?m < n" "?m \<noteq> 0" "(?m - 1) div 2 = c"
    using heap_next_bounds [OF n] heap_next_child [of lt xs b c n] by auto
  have H': "?H' ! (b + j) = (if j = ?m then v else if j = c then xs ! (b + ?m) else xs ! (b + j))"
    if "j < n" for j
    using that c m by simp
  have H: "?H ! (b + j) = (if j = c then v else xs ! (b + j))" if "j < n" for j
    using that c by simp
  have ord: "\<not> lt (xs ! (b + (j - 1) div 2)) (xs ! (b + j))"
    if "0 < j" "j < n" "k \<le> (j - 1) div 2" "(j - 1) div 2 \<noteq> c" "j \<noteq> c" for j
  proof -
    have "\<not> lt (?H ! (b + (j - 1) div 2)) (?H ! (b + j))" using that by (intro heap_exceptD(1) [OF ex])
    moreover have "(j - 1) div 2 < n" using parent_less [OF that(1)] that(2) by simp
    ultimately show ?thesis using that by (simp only: H) simp
  qed
  have grand: "\<not> lt (xs ! (b + (c - 1) div 2)) (xs ! (b + j))"
    if "0 < j" "j < n" "(j - 1) div 2 = c" "0 < c" "k \<le> (c - 1) div 2" for j
  proof -
    have "\<not> lt (?H ! (b + (c - 1) div 2)) (?H ! (b + j))" using that by (intro heap_exceptD(2) [OF ex])
    moreover have "(c - 1) div 2 < n" "(c - 1) div 2 \<noteq> c" "j \<noteq> c"
      using parent_less [OF that(4)] parent_less [OF that(1)] c that by auto
    ultimately show ?thesis using that by (simp only: H) simp
  qed
  have "\<not> lt (?H' ! (b + (j - 1) div 2)) (?H' ! (b + j))"
    if j: "0 < j" "j < n" "k \<le> (j - 1) div 2" "(j - 1) div 2 \<noteq> ?m" for j
  proof -
    have pn: "(j - 1) div 2 < n" using parent_less [OF j(1)] j(2) by simp
    consider "j = ?m" | "j \<noteq> ?m" "(j - 1) div 2 = c" | "j = c" "(j - 1) div 2 \<noteq> c"
      | "j \<noteq> ?m" "(j - 1) div 2 \<noteq> c" "j \<noteq> c" by blast
    then show ?thesis
    proof cases
      case 1
      then show ?thesis using j m v pn by (simp only: H') (auto dest: asym)
    next
      case 2
      then have "j \<noteq> c" using parent_less [OF j(1)] by auto
      with 2 show ?thesis using j m pn heap_next_max [OF j(1,2) 2(2)] by (simp only: H') simp
    next
      case 3
      then show ?thesis using j m pn grand [of ?m] by (simp only: H') simp
    next
      case 4
      then show ?thesis using j m pn ord [of j] by (simp only: H') simp
    qed
  qed
  moreover have "\<not> lt (?H' ! (b + (?m - 1) div 2)) (?H' ! (b + j))"
    if j: "0 < j" "j < n" "(j - 1) div 2 = ?m" "k \<le> (?m - 1) div 2" for j
  proof -
    have "j \<noteq> ?m" "j \<noteq> c" "c \<noteq> ?m" using parent_less [OF j(1)] j m by auto
    then show ?thesis using ord [of j] j m by (simp only: H') simp
  qed
  ultimately show ?thesis unfolding heap_except_def by blast
qed

lemma heapify_heap:
  "c < n \<Longrightarrow> b + n \<le> length xs \<Longrightarrow> k \<le> c \<Longrightarrow> heap_except lt (xs[b + c := v]) b n k c \<Longrightarrow>
   heap_from lt (hxheapsort_heapify lt xs b (b + c) (b + n) v) b n k"
proof (induction "n - c" arbitrary: c xs rule: less_induct)
  case less
  let ?m = "heap_next lt xs b c n"
  show ?case
  proof (cases "n \<le> 2 * c + 1 \<or> \<not> lt v (xs ! (b + ?m))")
    case False
    then have m: "c < ?m" "?m < n" using heap_next_bounds [of c n] by auto
    with False less.prems show ?thesis
      using less.hyps [of ?m "xs[b + c := xs ! (b + ?m)]"] heap_except_step [OF less.prems(4,1,2)]
      by (subst heapify_unfold [OF refl]) auto
  next
    case True
    have "\<not> lt (xs[b + c := v] ! (b + (j - 1) div 2)) (xs[b + c := v] ! (b + j))"
      if j: "0 < j" "j < n" "k \<le> (j - 1) div 2" for j
    proof (cases "(j - 1) div 2 = c")
      case False
      then show ?thesis using j by (intro heap_exceptD(1) [OF less.prems(4)])
    next
      case at: True
      then have "2 * c + 1 < n \<or> j = 2 * c + 1" "j \<noteq> c" using child_offset [OF j(1) at] j(2) by auto
      then have "\<not> lt v (xs ! (b + ?m))" using True j(2) by auto
      then have "\<not> lt v (xs ! (b + j))" using heap_next_max [OF j(1,2) at] nlt_trans by blast
      then show ?thesis using at less.prems(1,2) \<open>j \<noteq> c\<close> by simp
    qed
    then show ?thesis using True by (subst heapify_unfold [OF refl]) (simp add: heap_from_def)
  qed
qed

lemma make_heap_loop_heap:
  "b + n \<le> length xs \<Longrightarrow> i \<le> n \<Longrightarrow> heap_from lt xs b n i \<Longrightarrow>
   heap_from lt (hxmake_heap_loop lt xs b (b + n) i) b n 0"
proof (induction i arbitrary: xs)
  case (Suc i)
  let ?ys = "hxheapsort_heapify lt xs b (b + i) (b + n) (xs ! (b + i))"
  have "heap_except lt (xs[b + i := xs ! (b + i)]) b n i i"
    using Suc.prems(3) by (auto simp: heap_except_def heap_from_def)
  then have "heap_from lt ?ys b n i" using Suc.prems by (intro heapify_heap) auto
  moreover have "length ?ys = length xs"
    using heapify_perm [of i n b xs "xs ! (b + i)" lt] Suc.prems by (simp add: range_perm_length)
  ultimately show ?case using Suc.IH [of ?ys] Suc.prems by (simp add: Let_def)
qed simp

lemma make_heap_heap:
  assumes "b + n \<le> length xs"
  shows "heap_from lt (hxmake_heap lt xs b (b + n)) b n 0"
proof -
  have "(j - 1) div 2 < n div 2" if "0 < j" "j < n" for j using that by presburger
  then have "heap_from lt xs b n (n div 2)" unfolding heap_from_def by (metis not_le)
  then show ?thesis using make_heap_loop_heap [OF assms, of "n div 2"] by (simp add: hxmake_heap_def)
qed

text \<open>The root of a heap is its largest element.\<close>

lemma heap_root_max:
  assumes "heap_from lt xs b n 0"
  shows "j < n \<Longrightarrow> \<not> lt (xs ! b) (xs ! (b + j))"
proof (induction j rule: less_induct)
  case (less j)
  show ?case
  proof (cases "j = 0")
    case False
    then have p: "(j - 1) div 2 < j" using parent_less by simp
    then have "\<not> lt (xs ! b) (xs ! (b + (j - 1) div 2))" using less by simp
    moreover have "\<not> lt (xs ! (b + (j - 1) div 2)) (xs ! (b + j))"
      using assms False less.prems unfolding heap_from_def by blast
    ultimately show ?thesis using nlt_trans by blast
  qed (simp add: irrefl)
qed

text \<open>The invariant of the extraction: a heap, then the sorted elements, none of them smaller.\<close>

definition extract_inv :: "'a list \<Rightarrow> nat \<Rightarrow> nat \<Rightarrow> nat \<Rightarrow> bool" where
  "extract_inv xs b it e \<longleftrightarrow>
     heap_from lt xs b (Suc it - b) 0 \<and> sorted_between lt xs (Suc it) e \<and>
     (\<forall>p q. b \<le> p \<longrightarrow> p \<le> it \<longrightarrow> it < q \<longrightarrow> q < e \<longrightarrow> \<not> lt (xs ! q) (xs ! p))"

lemma extract_inv_step:
  assumes inv: "extract_inv xs b it e" and it: "b < it" "it < e" "e \<le> length xs"
  shows "extract_inv (hxheapsort_heapify lt (xs[it := xs ! b]) b b it (xs ! it)) b (it - 1) e"
proof -
  let ?zs = "xs[it := xs ! b]" and ?ys = "hxheapsort_heapify lt (xs[it := xs ! b]) b b it (xs ! it)"
  have heap: "heap_from lt xs b (Suc it - b) 0" and srt: "sorted_between lt xs (Suc it) e"
    and sep: "\<And>p q. b \<le> p \<Longrightarrow> p \<le> it \<Longrightarrow> it < q \<Longrightarrow> q < e \<Longrightarrow> \<not> lt (xs ! q) (xs ! p)"
    using inv by (auto simp: extract_inv_def)
  have root: "\<not> lt (xs ! b) (xs ! p)" if "b \<le> p" "p \<le> it" for p
    using heap_root_max [OF heap, of "p - b"] that by simp
  have pm: "range_perm b it (?zs[b := xs ! it]) ?ys"
    using heapify_perm [of 0 "it - b" b ?zs "xs ! it" lt] it by simp
  have len: "length ?ys = length xs" using range_perm_length [OF pm] by simp
  have "heap_except lt (?zs[b + 0 := xs ! it]) b (it - b) 0 0"
    using heap it parent_less unfolding heap_except_def heap_from_def
    by (auto simp: nth_list_update)
  then have hy: "heap_from lt ?ys b (it - b) 0"
    using heapify_heap [of 0 "it - b" b ?zs 0 "xs ! it"] it by simp
  have low: "\<not> lt (xs ! b) (?ys ! p) \<and> (\<forall>q. it < q \<longrightarrow> q < e \<longrightarrow> \<not> lt (xs ! q) (?ys ! p))"
    if "b \<le> p" "p < it" for p
  proof (rule range_perm_all [OF pm _ _ that])
    fix i assume "b \<le> i" "i < it"
    then show "\<not> lt (xs ! b) (?zs[b := xs ! it] ! i) \<and>
        (\<forall>q. it < q \<longrightarrow> q < e \<longrightarrow> \<not> lt (xs ! q) (?zs[b := xs ! it] ! i))"
      using it root sep by (cases "i = b") auto
  qed (use it in simp)
  have high: "?ys ! q = (if q = it then xs ! b else xs ! q)" if "it \<le> q" "q < e" for q
    using range_perm_outside [OF pm, of q] that it by simp
  have "sorted_between lt ?ys it e"
    using srt it sep by (auto simp: sorted_between_def high)
  moreover have "\<not> lt (?ys ! q) (?ys ! p)" if "b \<le> p" "p < it" "it \<le> q" "q < e" for p q
    using low [OF that(1,2)] high [OF that(3,4)] that by auto
  ultimately show ?thesis using hy it by (auto simp: extract_inv_def)
qed

lemma extract_inv_done: "extract_inv xs b b e \<Longrightarrow> sorted_between lt xs b e"
  unfolding extract_inv_def sorted_between_def by (metis Suc_leI le_neq_implies_less order_refl)

lemma heapsort_loop_sorted:
  "extract_inv xs b it e \<Longrightarrow> b \<le> it \<Longrightarrow> it < e \<Longrightarrow> e \<le> length xs \<Longrightarrow>
   sorted_between lt (hxheapsort_loop lt xs b it) b e"
proof (induction it arbitrary: xs)
  case 0
  then show ?case
    using extract_inv_done [of xs 0 e] by (subst hxheapsort_loop.simps) simp
next
  case (Suc it)
  show ?case
  proof (cases "b < Suc it")
    case True
    let ?ys = "hxheapsort_heapify lt (xs[Suc it := xs ! b]) b b (Suc it) (xs ! Suc it)"
    have "extract_inv ?ys b it e" using extract_inv_step [OF Suc.prems(1) True Suc.prems(3,4)] by simp
    moreover have "length ?ys = length xs"
      using range_perm_length [OF heap_extract_perm [of b "Suc it" xs lt]] True Suc.prems by simp
    ultimately show ?thesis
      using True Suc.IH [of ?ys] Suc.prems by (subst hxheapsort_loop.simps) (simp add: Let_def)
  next
    case False
    then have "b = Suc it" using Suc.prems by simp
    then show ?thesis
      using Suc.prems(1) extract_inv_done [of xs "Suc it" e] by (subst hxheapsort_loop.simps) simp
  qed
qed

lemma hxheapsort_body_sorted:
  assumes "20 < e - b" "e \<le> length xs" "hxheapsort_body lt xs b e = Inr ys"
  shows "sorted_between lt ys b e"
proof -
  let ?hs = "hxmake_heap lt xs b e"
  have pm: "range_perm b e xs ?hs"
    using assms unfolding hxmake_heap_def by (intro make_heap_loop_perm) auto
  have "extract_inv ?hs b (e - 1) e"
    using make_heap_heap [of b "e - b" xs] assms by (auto simp: extract_inv_def sorted_between_def)
  then have "sorted_between lt (hxheapsort_loop lt ?hs b (e - 1)) b e"
    using assms pm by (intro heapsort_loop_sorted) (auto simp: range_perm_length)
  then show ?thesis using assms by (auto simp: hxheapsort_body_def split: if_splits)
qed

end

section \<open>The dual-pivot partition\<close>

subsection \<open>The pivots\<close>

lemma compare_swap_mset:
  "fst hl < length ps \<Longrightarrow> snd hl < length ps \<Longrightarrow> mset (compare_swap lt xs ps hl) = mset ps"
  by (simp add: compare_swap_def mset_swap_nth)

lemma length_compare_swap [simp]: "length (compare_swap lt xs ps hl) = length ps"
  by (simp add: compare_swap_def)

lemma foldl_compare_swap_mset:
  "list_all (\<lambda>hl. fst hl < length ps \<and> snd hl < length ps) hls \<Longrightarrow>
   mset (foldl (compare_swap lt xs) ps hls) = mset ps"
  by (induction hls arbitrary: ps) (auto simp: compare_swap_mset)

lemma length_foldl_compare_swap [simp]: "length (foldl (compare_swap lt xs) ps hls) = length ps"
  by (induction hls arbitrary: ps) auto

lemma seventh_bounds:
  fixes n :: nat
  assumes "10 < n"
  shows "2 * (n div 8 + n div 64 + 1) + 1 \<le> n div 2" "n div 2 + 2 * (n div 8 + n div 64 + 1) + 2 \<le> n"
proof -
  have "2 * (n div 8 + n div 64 + 1) + 1 \<le> n div 2 \<and> n div 2 + 2 * (n div 8 + n div 64 + 1) + 2 \<le> n"
  proof (cases "n < 20")
    case True
    with assms consider "n = 11" | "n = 12" | "n = 13" | "n = 14" | "n = 15" | "n = 16" | "n = 17"
      | "n = 18" | "n = 19" by linarith
    then show ?thesis by cases simp_all
  next
    case False
    define a c h where "a = n div 8" and "c = n div 64" and "h = n div 2"
    have "8 * a \<le> n" "64 * c \<le> n" "2 * h \<le> n" "n < 2 * h + 2"
      by (simp_all add: a_def c_def h_def)
    with False have "2 * (a + c + 1) + 1 \<le> h" and "h + 2 * (a + c + 1) + 2 \<le> n" by simp_all
    then show ?thesis by (simp only: a_def c_def h_def)
  qed
  then show "2 * (n div 8 + n div 64 + 1) + 1 \<le> n div 2" "n div 2 + 2 * (n div 8 + n div 64 + 1) + 2 \<le> n"
    by auto
qed

lemma hxpivots_positions:
  assumes "10 < e - b"
  shows "length (hxpivots lt xs b e) = 5" and "distinct (hxpivots lt xs b e)"
    and "\<forall>p\<in>set (hxpivots lt xs b e). b < p \<and> p < e - 1"
proof -
  define n where "n = e - b"
  define s where "s = n div 8 + n div 64 + 1"
  let ?p = "b + n div 2"
  let ?ps = "[?p - s - s, ?p - s, ?p, ?p + s, ?p + s + s]"
  have n: "2 * s + 1 \<le> n div 2" "n div 2 + 2 * s + 2 \<le> n" "0 < s"
    using seventh_bounds [of n] assms by (simp_all add: s_def n_def)
  have e: "hxpivots lt xs b e = foldl (compare_swap lt xs) ?ps
      [(3, 0), (4, 1), (2, 0), (3, 1), (1, 0), (4, 2), (2, 1), (4, 3), (3, 2)]"
    by (simp add: hxpivots_def Let_def n_def s_def drop_bit_eq_div)
  show "length (hxpivots lt xs b e) = 5" by (simp add: e del: foldl.simps)
  have m: "mset (hxpivots lt xs b e) = mset ?ps"
    unfolding e by (intro foldl_compare_swap_mset) simp
  have "distinct ?ps" using n by auto
  then show "distinct (hxpivots lt xs b e)" using m by (metis mset_eq_imp_distinct_iff)
  have "set (hxpivots lt xs b e) = set ?ps" using m by (metis set_mset_mset)
  moreover have "e = b + n" using assms by (simp add: n_def)
  then have "\<forall>p\<in>set ?ps. b < p \<and> p < e - 1" using n by auto
  ultimately show "\<forall>p\<in>set (hxpivots lt xs b e). b < p \<and> p < e - 1" by simp
qed

text \<open>The last three exchanges of the network already put the second pivot before the fourth.\<close>

context strict_weak_order begin

lemma compare_swap_order:
  assumes "h < length ps" "l < length ps" "h \<noteq> l"
  shows "\<not> lt (xs ! (compare_swap lt xs ps (h, l) ! h)) (xs ! (compare_swap lt xs ps (h, l) ! l))"
  using assms by (auto simp: compare_swap_def dest: asym)

lemma network_last_steps:
  assumes "length ps = 5"
  shows "let qs = foldl (compare_swap lt xs) ps [(2, 1), (4, 3), (3, 2)]
         in \<not> lt (xs ! (qs ! 3)) (xs ! (qs ! 1))"
proof -
  define p1 where "p1 = compare_swap lt xs ps (2, 1)"
  define p2 where "p2 = compare_swap lt xs p1 (4, 3)"
  define p3 where "p3 = compare_swap lt xs p2 (3, 2)"
  have len: "length p1 = 5" "length p2 = 5" using assms by (simp_all add: p1_def p2_def)
  have "\<not> lt (xs ! (p1 ! 2)) (xs ! (p1 ! 1))"
    using compare_swap_order [of 2 ps 1 xs] assms by (simp add: p1_def)
  then have a: "\<not> lt (xs ! (p2 ! 2)) (xs ! (p2 ! 1))"
    using len by (simp add: p2_def compare_swap_def)
  have "\<not> lt (xs ! (p3 ! 3)) (xs ! (p3 ! 1))"
  proof (cases "lt (xs ! (p2 ! 3)) (xs ! (p2 ! 2))")
    case True
    then show ?thesis using a len by (simp add: p3_def compare_swap_def)
  next
    case False
    then show ?thesis using nlt_trans [OF a] by (simp add: p3_def compare_swap_def)
  qed
  then show ?thesis by (simp add: p1_def p2_def p3_def)
qed

lemma hxpivots_ordered:
  "\<not> lt (xs ! (hxpivots lt xs b e ! 3)) (xs ! (hxpivots lt xs b e ! 1))"
proof -
  have split: "[(3, 0), (4, 1), (2, 0), (3, 1), (1, 0), (4, 2), (2, 1), (4, 3), (3, 2)] =
    [(3, 0), (4, 1), (2, 0), (3, 1), (1, 0), (4, 2)] @ [(2, 1), (4, 3), (3, 2 :: nat)] " by simp
  show ?thesis
    unfolding hxpivots_def Let_def split foldl_append
    by (rule network_last_steps [unfolded Let_def]) (simp del: foldl.simps)
qed

end

subsection \<open>The loop\<close>

lemma hxpartition_loop_correct:
  "l \<le> i \<Longrightarrow> i \<le> g \<Longrightarrow> g \<le> length xs \<Longrightarrow>
   (\<And>p. l \<le> p \<Longrightarrow> p < i \<Longrightarrow> \<not> lt (xs ! p) pivot1 \<and> \<not> lt pivot2 (xs ! p)) \<Longrightarrow>
   hxpartition_loop lt pivot1 pivot2 xs l g i = (ys, l', g') \<Longrightarrow>
   range_perm l g xs ys \<and> l \<le> l' \<and> l' \<le> g' \<and> g' \<le> g \<and>
   (\<forall>p. l \<le> p \<longrightarrow> p < l' \<longrightarrow> lt (ys ! p) pivot1) \<and>
   (\<forall>p. l' \<le> p \<longrightarrow> p < g' \<longrightarrow> \<not> lt (ys ! p) pivot1 \<and> \<not> lt pivot2 (ys ! p)) \<and>
   (\<forall>p. g' \<le> p \<longrightarrow> p < g \<longrightarrow> lt pivot2 (ys ! p))"
proof (induction lt pivot1 pivot2 xs l g i rule: hxpartition_loop.induct)
  case (1 lt pivot1 pivot2 xs l g i)
  note prems = 1(4-7) and res = 1(8)
  consider "\<not> i < g" | "i < g" "lt (xs ! i) pivot1"
    | "i < g" "\<not> lt (xs ! i) pivot1" "lt pivot2 (xs ! i)"
    | "i < g" "\<not> lt (xs ! i) pivot1" "\<not> lt pivot2 (xs ! i)" by blast
  then show ?case
  proof cases
    case 1
    then show ?thesis using res prems by (subst (asm) hxpartition_loop.simps) auto
  next
    case 2
    define zs where "zs = (if l \<noteq> i then xs[i := xs ! l, l := xs ! i] else xs)"
    have "hxpartition_loop lt pivot1 pivot2 zs (l + 1) g (i + 1) = (ys, l', g')"
      using res 2 by (subst (asm) hxpartition_loop.simps) (simp add: zs_def)
    moreover have "\<not> lt (zs ! p) pivot1 \<and> \<not> lt pivot2 (zs ! p)" if "l + 1 \<le> p" "p < i + 1" for p
    proof (cases "p = i")
      case True
      then show ?thesis using that prems(4) [of l] prems 2 by (auto simp: zs_def)
    next
      case False
      then show ?thesis using that prems(4) [of p] by (simp add: zs_def)
    qed
    moreover have zp: "range_perm l g xs zs"
      using prems 2 by (auto simp: zs_def intro: range_perm_swap)
    ultimately have ih: "range_perm (l + 1) g zs ys" "l + 1 \<le> l'" "l' \<le> g'" "g' \<le> g"
      "\<forall>p. l + 1 \<le> p \<longrightarrow> p < l' \<longrightarrow> lt (ys ! p) pivot1"
      "\<forall>p. l' \<le> p \<longrightarrow> p < g' \<longrightarrow> \<not> lt (ys ! p) pivot1 \<and> \<not> lt pivot2 (ys ! p)"
      "\<forall>p. g' \<le> p \<longrightarrow> p < g \<longrightarrow> lt pivot2 (ys ! p)"
      using 1(1) [OF 2, folded zs_def] prems 2(1) range_perm_length [OF zp] by simp_all
    have "ys ! l = xs ! i"
      using range_perm_outside [OF ih(1), of l] prems 2(1) by (auto simp: zs_def)
    then have "lt (ys ! p) pivot1" if "l \<le> p" "p < l'" for p
      using ih(5) that 2(2) by (cases "p = l") auto
    moreover have "range_perm l g xs ys"
      using zp range_perm_mono [OF ih(1), of l g] by (auto intro: range_perm_trans)
    ultimately show ?thesis using ih by simp
  next
    case 3
    define zs where "zs = (if g - 1 \<noteq> i then xs[i := xs ! (g - 1), g - 1 := xs ! i] else xs)"
    have "hxpartition_loop lt pivot1 pivot2 zs l (g - 1) i = (ys, l', g')"
      using res 3 by (subst (asm) hxpartition_loop.simps) (simp add: zs_def)
    moreover have "\<not> lt (zs ! p) pivot1 \<and> \<not> lt pivot2 (zs ! p)" if "l \<le> p" "p < i" for p
      using that prems(4) [of p] 3(1) by (simp add: zs_def)
    moreover have zp: "range_perm l g xs zs"
      using prems 3 by (auto simp: zs_def intro: range_perm_swap)
    ultimately have ih: "range_perm l (g - 1) zs ys" "l \<le> l'" "l' \<le> g'" "g' \<le> g - 1"
      "\<forall>p. l \<le> p \<longrightarrow> p < l' \<longrightarrow> lt (ys ! p) pivot1"
      "\<forall>p. l' \<le> p \<longrightarrow> p < g' \<longrightarrow> \<not> lt (ys ! p) pivot1 \<and> \<not> lt pivot2 (ys ! p)"
      "\<forall>p. g' \<le> p \<longrightarrow> p < g - 1 \<longrightarrow> lt pivot2 (ys ! p)"
      using 1(2) [OF 3, folded zs_def] prems 3(1) range_perm_length [OF zp] by simp_all
    have "ys ! (g - 1) = xs ! i"
      using range_perm_outside [OF ih(1), of "g - 1"] prems 3(1) by (auto simp: zs_def)
    then have "lt pivot2 (ys ! p)" if "g' \<le> p" "p < g" for p
      using ih(7) that 3(3) by (cases "p = g - 1") auto
    moreover have "range_perm l g xs ys"
      using zp range_perm_mono [OF ih(1), of l g] by (auto intro: range_perm_trans)
    ultimately show ?thesis using ih by simp
  next
    case 4
    have "hxpartition_loop lt pivot1 pivot2 xs l g (i + 1) = (ys, l', g')"
      using res 4 by (subst (asm) hxpartition_loop.simps) simp
    moreover have "\<not> lt (xs ! p) pivot1 \<and> \<not> lt pivot2 (xs ! p)" if "l \<le> p" "p < i + 1" for p
      using that prems(4) [of p] 4 by (cases "p = i") auto
    ultimately show ?thesis using 1(3) [OF 4] prems 4(1) by simp
  qed
qed

subsection \<open>The whole partition\<close>

lemma range_perm_update:
  assumes "range_perm b e xs ys" "i < b \<or> e \<le> i"
  shows "range_perm b e (xs[i := v]) (ys[i := v])"
proof (cases "i < length xs")
  case True
  then show ?thesis using assms by (auto simp: range_perm_def mset_update nth_list_update)
next
  case False
  then show ?thesis using assms range_perm_length [OF assms(1)] by (simp add: list_update_beyond)
qed

text \<open>Taking the pivots out of their slots and the ends of the range into them.\<close>

lemma pivots_out_perm:
  assumes "b < p" "p < k" "b < q" "q < k" "p \<noteq> q" "k < e" "e \<le> length xs"
  shows "range_perm b e xs (xs[p := xs ! b, q := xs[p := xs ! b] ! k, b := xs ! p, k := xs[p := xs ! b] ! q])"
proof -
  have "range_perm b e xs (xs[p := xs ! b, b := xs ! p])"
    using assms by (intro range_perm_swap) auto
  also have "range_perm b e \<dots> ((xs[p := xs ! b, b := xs ! p])
      [q := xs[p := xs ! b, b := xs ! p] ! k, k := xs[p := xs ! b, b := xs ! p] ! q])"
    using assms by (intro range_perm_swap) auto
  also have "\<dots> = xs[p := xs ! b, q := xs[p := xs ! b] ! k, b := xs ! p, k := xs[p := xs ! b] ! q]"
    using assms by (simp add: list_update_swap)
  finally show ?thesis .
qed

lemma pivots_in_perm:
  assumes "b \<le> l" "l < g" "g \<le> k" "k < e" "e \<le> length zs"
  shows "range_perm b e (zs[b := v, k := w]) (zs[b := zs ! l, l := v, k := zs[b := zs ! l, l := v] ! g, g := w])"
proof -
  have "range_perm b (Suc l) (zs[b := v]) (zs[b := zs ! l, l := v])"
    using assms by (intro hole_move) auto
  then have "range_perm b (Suc l) (zs[b := v, k := w]) (zs[b := zs ! l, l := v, k := w])"
    using assms by (intro range_perm_update) auto
  then have "range_perm b e (zs[b := v, k := w]) (zs[b := zs ! l, l := v, k := w])"
    using assms by (elim range_perm_mono) auto
  also have "range_perm b e \<dots> (zs[b := zs ! l, l := v, k := zs[b := zs ! l, l := v] ! g, g := w])"
    using assms by (intro hole_move) auto
  finally show ?thesis .
qed

lemma hxpartition_correct:
  assumes n: "10 < e - b" "e \<le> length xs" and r: "hxpartition lt xs b e = (ys, l, g)"
  shows "range_perm b e xs ys \<and> b \<le> l \<and> l < g \<and> g < e \<and>
    ys ! l = xs ! (hxpivots lt xs b e ! 1) \<and> ys ! g = xs ! (hxpivots lt xs b e ! 3) \<and>
    (\<forall>p. b \<le> p \<longrightarrow> p < l \<longrightarrow> lt (ys ! p) (ys ! l)) \<and>
    (\<forall>p. l < p \<longrightarrow> p < g \<longrightarrow> \<not> lt (ys ! p) (ys ! l) \<and> \<not> lt (ys ! g) (ys ! p)) \<and>
    (\<forall>p. g < p \<longrightarrow> p < e \<longrightarrow> lt (ys ! g) (ys ! p))"
proof -
  let ?ps = "hxpivots lt xs b e" and ?k = "e - 1"
  define p where "p = ?ps ! 1"
  define q where "q = ?ps ! 3"
  define v where "v = xs ! p"
  define w where "w = xs[p := xs ! b] ! q"
  define us where "us = xs[p := xs ! b, q := xs[p := xs ! b] ! ?k]"
  note ps = hxpivots_positions [OF n(1), of lt xs]
  have pq: "b < p" "p < ?k" "b < q" "q < ?k" "p \<noteq> q"
    using ps by (auto simp: p_def q_def nth_eq_iff_index_eq)
  have w: "w = xs ! q" using pq by (simp add: w_def)
  obtain zs l' g' where loop: "hxpartition_loop lt v w us (b + 1) ?k (b + 1) = (zs, l', g')"
    by (metis prod_cases3)
  have lc: "range_perm (b + 1) ?k us zs" "b + 1 \<le> l'" "l' \<le> g'" "g' \<le> ?k"
    "\<And>i. b + 1 \<le> i \<Longrightarrow> i < l' \<Longrightarrow> lt (zs ! i) v"
    "\<And>i. l' \<le> i \<Longrightarrow> i < g' \<Longrightarrow> \<not> lt (zs ! i) v \<and> \<not> lt w (zs ! i)"
    "\<And>i. g' \<le> i \<Longrightarrow> i < ?k \<Longrightarrow> lt w (zs ! i)"
    using hxpartition_loop_correct [OF _ _ _ _ loop] n by (auto simp: us_def)
  have lg: "l = l' - 1" "g = g'" "b \<le> l" "l < g" "g \<le> ?k" "?k < e"
    and ys: "ys = zs[b := zs ! l, l := v, ?k := zs[b := zs ! l, l := v] ! g, g := w]"
    using r [unfolded hxpartition_def Let_def, folded p_def q_def, folded v_def w_def,
        folded us_def, unfolded loop prod.case] lc(2-4) n
    by (auto split: if_splits)
  have len: "length us = length xs" "length zs = length xs"
    using lc(1) by (simp_all add: us_def range_perm_length)
  have "range_perm b e xs (us[b := v, ?k := w])"
    using pivots_out_perm [OF pq, of e xs] n by (simp add: us_def v_def w_def)
  also have "range_perm b e \<dots> (zs[b := v, ?k := w])"
    using range_perm_mono [OF range_perm_update [OF range_perm_update [OF lc(1)]], of b ?k b e v w] n by simp
  also have "range_perm b e \<dots> ys"
    unfolding ys using lg n len by (intro pivots_in_perm) auto
  finally have perm: "range_perm b e xs ys" .
  have nth: "ys ! i = (if i = g then w else if i = ?k then zs ! g else if i = l then v
      else if i = b then zs ! l else zs ! i)" if "i < e" for i
    using that lg n len by (auto simp: ys nth_list_update)
  have "lt (ys ! i) v" if "b \<le> i" "i < l" for i
    using that lg lc(5) [of i] lc(5) [of l] by (simp add: nth)
  moreover have "\<not> lt (ys ! i) v \<and> \<not> lt w (ys ! i)" if "l < i" "i < g" for i
    using that lg lc(6) [of i] by (simp add: nth)
  moreover have "lt w (ys ! i)" if "g < i" "i < e" for i
    using that lg lc(7) [of i] lc(7) [of g] by (simp add: nth)
  moreover have "ys ! l = v" "ys ! g = w" using lg by (simp_all add: nth)
  ultimately show ?thesis using perm lg w by (simp add: v_def p_def q_def)
qed

section \<open>The contract of the sort callback\<close>

text \<open>\<open>hxpartition_sort_\<close> relies on its callback to rearrange the subrange it is given, and for a
  sorted result to sort it. The first half needs nothing of the comparison.\<close>

locale subrange_permute =
  fixes sort :: "'a list \<Rightarrow> nat \<Rightarrow> nat \<Rightarrow> 'a list hx"
  assumes permutes: "b \<le> e \<Longrightarrow> e \<le> length xs \<Longrightarrow> \<exists>ys. sort xs b e = Inr ys \<and> range_perm b e xs ys"
begin

lemma hxpartition_sort_steps:
  assumes "10 < e - b" "e \<le> length xs" "hxpartition lt xs b e = (xs1, l, g)"
  obtains xs2 xs3 ys where "sort xs1 b l = Inr xs2" "range_perm b l xs1 xs2"
    "(if lt (xs2 ! l) (xs2 ! g) then sort xs2 (l + 1) g else Inr xs2) = Inr xs3" "range_perm (l + 1) g xs2 xs3"
    "sort xs3 (g + 1) e = Inr ys" "range_perm (g + 1) e xs3 ys"
    "hxpartition_sort lt sort xs b e = Inr ys"
proof -
  note pt = hxpartition_correct [OF assms]
  from pt permutes [of b l xs1] assms obtain xs2 where
    2: "sort xs1 b l = Inr xs2" "range_perm b l xs1 xs2"
    by (auto simp: range_perm_length)
  have len2: "length xs2 = length xs" using range_perm_length [OF 2(2)] pt by (simp add: range_perm_def)
  have "\<exists>xs3. (if lt (xs2 ! l) (xs2 ! g) then sort xs2 (l + 1) g else Inr xs2) = Inr xs3 \<and>
      range_perm (l + 1) g xs2 xs3"
    using permutes [of "l + 1" g xs2] pt assms(2) len2 by auto
  then obtain xs3 where 3: "(if lt (xs2 ! l) (xs2 ! g) then sort xs2 (l + 1) g else Inr xs2) = Inr xs3"
    "range_perm (l + 1) g xs2 xs3" by blast
  from permutes [of "g + 1" e xs3] pt assms(2) len2 3(2) obtain ys where
    4: "sort xs3 (g + 1) e = Inr ys" "range_perm (g + 1) e xs3 ys"
    by (auto simp: range_perm_length)
  have "hxpartition_sort lt sort xs b e = Inr ys"
    using assms(1,3) 2(1) 3(1) 4(1) by (simp add: hxpartition_sort_def hxinsertion_sort_cutoff_def)
  with 2 3 4 show ?thesis by (rule that)
qed

lemma hxpartition_sort_permutes:
  assumes "10 < e - b" "e \<le> length xs"
  shows "\<exists>ys. hxpartition_sort lt sort xs b e = Inr ys \<and> range_perm b e xs ys"
proof -
  obtain xs1 l g where pt: "hxpartition lt xs b e = (xs1, l, g)" by (metis prod_cases3)
  note pc = hxpartition_correct [OF assms pt]
  obtain xs2 xs3 ys where st: "range_perm b l xs1 xs2" "range_perm (l + 1) g xs2 xs3"
    "range_perm (g + 1) e xs3 ys" "hxpartition_sort lt sort xs b e = Inr ys"
    by (rule hxpartition_sort_steps [OF assms pt])
  have "range_perm b e xs1 xs2" "range_perm b e xs2 xs3" "range_perm b e xs3 ys"
    using st pc by (auto elim: range_perm_mono)
  then show ?thesis using pc st(4) by (blast intro: range_perm_trans)
qed

end

locale subrange_sort = subrange_permute sort + strict_weak_order lt
  for lt :: "'a \<Rightarrow> 'a \<Rightarrow> bool" and sort :: "'a list \<Rightarrow> nat \<Rightarrow> nat \<Rightarrow> 'a list hx" +
  assumes sorts: "b \<le> e \<Longrightarrow> e \<le> length xs \<Longrightarrow> sort xs b e = Inr ys \<Longrightarrow> sorted_between lt ys b e"
begin

lemma sorted_between_pivot:
  assumes "sorted_between lt ys b l" "sorted_between lt ys (l + 1) e"
    "\<And>p. b \<le> p \<Longrightarrow> p < l \<Longrightarrow> \<not> lt (ys ! l) (ys ! p)" "\<And>p. l < p \<Longrightarrow> p < e \<Longrightarrow> \<not> lt (ys ! p) (ys ! l)"
  shows "sorted_between lt ys b e"
  unfolding sorted_between_def
proof (intro allI impI)
  fix i j assume "b \<le> i" "i < j" "j < e"
  then consider "j < l" | "l < i" | "i = l" | "j = l" | "i < l" "l < j" by linarith
  then show "\<not> lt (ys ! j) (ys ! i)"
  proof cases
    case 2
    then show ?thesis using \<open>i < j\<close> \<open>j < e\<close> by (intro sorted_betweenD [OF assms(2)]) auto
  next
    case 5
    then show ?thesis using assms(3) [of i] assms(4) [of j] \<open>b \<le> i\<close> \<open>j < e\<close> nlt_trans by blast
  qed (use assms \<open>b \<le> i\<close> \<open>i < j\<close> \<open>j < e\<close> in \<open>auto dest: sorted_betweenD\<close>)
qed

lemma hxpartition_sort_sorts:
  assumes n: "10 < e - b" "e \<le> length xs" and r: "hxpartition_sort lt sort xs b e = Inr ys"
  shows "sorted_between lt ys b e"
proof -
  obtain xs1 l g where pt: "hxpartition lt xs b e = (xs1, l, g)" by (metis prod_cases3)
  note pc = hxpartition_correct [OF n pt]
  obtain xs2 xs3 where st: "sort xs1 b l = Inr xs2" "range_perm b l xs1 xs2"
    "(if lt (xs2 ! l) (xs2 ! g) then sort xs2 (l + 1) g else Inr xs2) = Inr xs3" "range_perm (l + 1) g xs2 xs3"
    "sort xs3 (g + 1) e = Inr ys" "range_perm (g + 1) e xs3 ys"
    by (rule hxpartition_sort_steps [OF n pt]) (use r in auto)
  have len: "length xs1 = length xs" "length xs2 = length xs" "length xs3 = length xs"
    using pc range_perm_length [OF st(2)] range_perm_length [OF st(4)] by (auto simp: range_perm_def)
  have le: "b \<le> l" "l < g" "g < e" "l \<le> length xs1" "g \<le> length xs2" "e \<le> length xs3"
    using pc len n by auto
  define v w where "v = xs1 ! l" and "w = xs1 ! g"
  have vw: "xs2 ! l = v" "xs2 ! g = w" "ys ! l = v" "ys ! g = w"
    using st(2,4,6) le by (simp_all add: range_perm_outside v_def w_def)
  have ord: "\<not> lt w v" using hxpivots_ordered pc by (simp add: v_def w_def)
  have low1: "lt (xs1 ! p) v" if "b \<le> p" "p < l" for p using pc that unfolding v_def by blast
  have mid1: "\<not> lt (xs1 ! p) v \<and> \<not> lt w (xs1 ! p)" if "l < p" "p < g" for p
    using pc that unfolding v_def w_def by blast
  have high1: "lt w (xs1 ! p)" if "g < p" "p < e" for p using pc that unfolding w_def by blast
  have 1: "sorted_between lt ys b l"
    using sorts [OF le(1,4) st(1)] le st(4,6)
    by (elim sorted_between_cong [rotated]) (simp add: range_perm_outside)
  have 3: "sorted_between lt ys (g + 1) e" using sorts [OF _ le(6) st(5)] le by simp
  have low: "lt (ys ! p) v" if "b \<le> p" "p < l" for p
  proof -
    have "lt (xs2 ! p) v" by (rule range_perm_all [where P = "\<lambda>x. lt x v", OF st(2) le(4) low1 that])
    then show ?thesis using that st(4,6) le by (simp add: range_perm_outside)
  qed
  have "\<not> lt (xs2 ! p) v \<and> \<not> lt w (xs2 ! p)" if "l + 1 \<le> p" "p < g" for p
    using mid1 [of p] that st(2) by (simp add: range_perm_outside)
  from range_perm_all [where P = "\<lambda>x. \<not> lt x v \<and> \<not> lt w x", OF st(4) le(5) this]
  have mid: "\<not> lt (ys ! p) v \<and> \<not> lt w (ys ! p)" if "l < p" "p < g" for p
    using that st(6) by (simp add: range_perm_outside)
  have "lt w (xs3 ! p)" if "g + 1 \<le> p" "p < e" for p
    using high1 [of p] that st(2,4) le by (simp add: range_perm_outside)
  from range_perm_all [where P = "lt w", OF st(6) le(6) this]
  have high: "lt w (ys ! p)" if "g < p" "p < e" for p using that by simp
  have 2: "sorted_between lt ys (l + 1) g"
  proof (cases "lt v w")
    case True
    then have "sorted_between lt xs3 (l + 1) g" using sorts [of "l + 1" g xs2 xs3] st(3) vw le by simp
    then show ?thesis using st(6) by (elim sorted_between_cong [rotated]) (simp add: range_perm_outside)
  next
    case False
    have "\<not> lt (ys ! j) (ys ! i)" if "l < i" "i < g" "l < j" "j < g" for i j
      using mid [OF that(1,2)] mid [OF that(3,4)] False cotrans by blast
    then show ?thesis by (simp add: sorted_between_def)
  qed
  have "sorted_between lt ys (l + 1) e"
    by (rule sorted_between_pivot [OF 2 3]) (use mid high asym vw in \<open>auto dest: asym\<close>)
  moreover have "\<not> lt (ys ! p) v" if "l < p" "p < e" for p
    using mid [of p] high [of p] that ord vw(4) nlt_trans asym by (metis linorder_neqE_nat)
  ultimately show ?thesis
    using low asym vw(3) by (intro sorted_between_pivot [OF 1]) auto
qed

end

lemma cutoff_nat:
  "b \<le> e \<Longrightarrow> int e - int b \<le> 20 \<longleftrightarrow> e - b \<le> 20" "b \<le> e \<Longrightarrow> int e - int b \<le> 10 \<longleftrightarrow> e - b \<le> 10"
  by auto

text \<open>The introsort provides the contract at every depth, and so does the heapsort.\<close>

lemma hxintro_sort_permute: "subrange_permute (hxintro_sort lt depth)"
proof (induction depth)
  case 0
  show ?case
    by standard (auto simp: hxheapsort_cutoff_def cutoff_nat not_le
        intro: hxheapsort_body_perm hxinsertion_sort_perm)
next
  case (Suc depth)
  show ?case
    by standard (use subrange_permute.hxpartition_sort_permutes [OF Suc] hxinsertion_sort_perm
      in \<open>auto simp: hxinsertion_sort_cutoff_def cutoff_nat\<close>)
qed

lemma hxheapsort_permute: "subrange_permute (hxheapsort lt)"
  by standard (auto simp: hxheapsort_def hxheapsort_cutoff_def cutoff_nat not_le
      intro: hxheapsort_body_perm hxinsertion_sort_perm)

lemma hxintro_sort_sort:
  assumes "strict_weak_order lt"
  shows "subrange_sort lt (hxintro_sort lt depth)"
proof (induction depth)
  case 0
  show ?case
    by (intro subrange_sort.intro subrange_sort_axioms.intro hxintro_sort_permute assms)
       (use strict_weak_order.hxheapsort_body_sorted [OF assms] strict_weak_order.hxinsertion_sort_sorted [OF assms]
        in \<open>auto simp: hxheapsort_cutoff_def cutoff_nat split: if_splits\<close>)
next
  case (Suc depth)
  show ?case
    by (intro subrange_sort.intro subrange_sort_axioms.intro hxintro_sort_permute assms)
       (use subrange_sort.hxpartition_sort_sorts [OF Suc] strict_weak_order.hxinsertion_sort_sorted [OF assms]
        in \<open>auto simp: hxinsertion_sort_cutoff_def cutoff_nat split: if_splits\<close>)
qed

lemma hxheapsort_sort:
  assumes "strict_weak_order lt"
  shows "subrange_sort lt (hxheapsort lt)"
  by (intro subrange_sort.intro subrange_sort_axioms.intro hxheapsort_permute assms)
     (use strict_weak_order.hxheapsort_body_sorted [OF assms] strict_weak_order.hxinsertion_sort_sorted [OF assms]
      in \<open>auto simp: hxheapsort_def hxheapsort_cutoff_def cutoff_nat split: if_splits\<close>)

interpretation num_intro_sort: subrange_sort hxkey_less_num "hxintro_sort hxkey_less_num depth" for depth
  by (rule hxintro_sort_sort [OF num_key.strict_weak_order_axioms])

interpretation str_heapsort: subrange_sort hxkey_less_str "hxheapsort hxkey_less_str"
  by (rule hxheapsort_sort [OF str_key.strict_weak_order_axioms])

section \<open>Properties\<close>

lemma len_num32: "LENGTH(32) = 32"
  by simp

lemma hxsort_size:
  assumes "b < e"
  shows "hxsort lt xs b e = hx_bind (hx_map (\<lambda>l. 2 * l) (hxlog2i (word_of_nat (e - b))))
    (\<lambda>depth. hxintro_sort lt (nat depth) xs b e)"
proof -
  have sz: "int e - int b = int (e - b)" and pos: "0 < int (e - b)" using assms by simp_all
  show ?thesis unfolding hxsort_def Let_def sz using pos by (simp only: of_int_of_nat_eq if_True)
qed

lemma hxsort_depth:
  assumes "b < e" "\<not> 2 ^ 32 dvd e - b"
  obtains d where "hxsort lt xs b e = hxintro_sort lt d xs b e"
proof -
  have "(word_of_nat (e - b) :: u32) \<noteq> 0"
    unfolding word_of_nat_eq_0_iff using assms(2) by simp
  then obtain l where "hxlog2i (word_of_nat (e - b)) = Inr l" by (rule hxlog2i_floor)
  then show ?thesis using that [of "nat (2 * l)"] unfolding hxsort_size [OF assms(1)] by simp
qed

lemma hxsort_result:
  assumes "strict_weak_order lt" and "b < e" and "e \<le> length xs" and "\<not> 2 ^ 32 dvd e - b"
  shows "\<exists>ys. hxsort lt xs b e = Inr ys \<and> range_perm b e xs ys \<and> sorted_between lt ys b e"
proof -
  obtain d where d: "hxsort lt xs b e = hxintro_sort lt d xs b e"
    using hxsort_depth [OF assms(2,4)] by blast
  from subrange_permute.permutes [OF hxintro_sort_permute, of b e xs lt d] assms
    subrange_sort.sorts [OF hxintro_sort_sort [OF assms(1)], of b e xs d]
  show ?thesis unfolding d by auto
qed

text \<open>C3: for a strict weak order \<open>hxsort\<close> returns, whatever the depth limit of its introsort makes of
  it, and leaves the range sorted and a rearrangement of what it was, with nothing outside the
  range touched. The size must not be a multiple of \<open>2\<^sup>32\<close>.\<close>

theorem hxsort_sorts:
  assumes "strict_weak_order lt" and "b < e" and "e \<le> length xs" and "\<not> 2 ^ 32 dvd e - b"
  shows "\<exists>ys. hxsort lt xs b e = Inr ys \<and> range_perm b e xs ys \<and> sorted_between lt ys b e"
  using assms by (rule hxsort_result)

theorem hxsort_sorts_witness:
  "\<exists>ys. hxsort hxkey_less_num [3, 1, 2] 0 3 = Inr ys \<and> range_perm 0 3 [3, 1, 2] ys \<and>
     sorted_between hxkey_less_num ys 0 3"
  by (rule hxsort_sorts [OF num_key.strict_weak_order_axioms])
    (simp_all only: length_Cons list.size diff_zero nat_dvd_not_less, simp_all)

text \<open>With any comparison at all, even one that is not an order, \<open>hxsort\<close> ends, raises none of its
  range assertions and only rearranges the elements of the range.\<close>

lemma hxsort_permutes:
  assumes "b < e" and "e \<le> length xs" and "\<not> 2 ^ 32 dvd e - b"
  shows "\<exists>ys. hxsort lt xs b e = Inr ys \<and> range_perm b e xs ys"
proof -
  obtain d where d: "hxsort lt xs b e = hxintro_sort lt d xs b e"
    using hxsort_depth [OF assms(1,3)] by blast
  from subrange_permute.permutes [OF hxintro_sort_permute, of b e xs lt d] assms
  show ?thesis unfolding d by auto
qed

lemma hxsort_permutes_witness:
  "\<exists>ys. hxsort (\<lambda>x y. True) [3, 1, 2 :: int] 0 3 = Inr ys \<and> range_perm 0 3 [3, 1, 2] ys"
  by (rule hxsort_permutes)
    (simp_all only: length_Cons list.size diff_zero nat_dvd_not_less, simp_all)

text \<open>A range whose size is a multiple of \<open>2\<^sup>32\<close> makes \<open>hxsort\<close> take the logarithm of the size
  truncated to 32 bits, which is 0: the call is undefined before anything is sorted.\<close>

lemma hxsort_truncated_size:
  assumes "b < e" and "2 ^ 32 dvd e - b"
  shows "hxsort lt xs b e = Inl (Undefined_behavior ''__builtin_clz(0)'')"
proof -
  have "2 ^ LENGTH(32) dvd e - b" using assms(2) unfolding len_num32 .
  then have z: "(word_of_nat (e - b) :: u32) = 0" unfolding word_of_nat_eq_0_iff .
  show ?thesis unfolding hxsort_size [OF assms(1)] z by (simp add: hxlog2i_def)
qed

lemma hxsort_truncated_size_witness:
  "hxsort hxkey_less_num (replicate 4294967296 0) 0 4294967296 = Inl (Undefined_behavior ''__builtin_clz(0)'')"
  by (rule hxsort_truncated_size) simp_all

text \<open>\<open>hxheapsort\<close> and \<open>hxinsertion_sort\<close> sort as well, on ranges of every size.\<close>

lemma other_sorts_sort:
  assumes "strict_weak_order lt" and "b \<le> e" and "e \<le> length xs"
  shows "(\<exists>ys. hxheapsort lt xs b e = Inr ys \<and> range_perm b e xs ys \<and> sorted_between lt ys b e) \<and>
    range_perm b e xs (hxinsertion_sort lt xs b e) \<and> sorted_between lt (hxinsertion_sort lt xs b e) b e"
  using subrange_permute.permutes [OF hxheapsort_permute, of b e xs lt]
    subrange_sort.sorts [OF hxheapsort_sort [OF assms(1)], of b e xs]
    hxinsertion_sort_perm [OF assms(3), of b lt] strict_weak_order.hxinsertion_sort_sorted [OF assms]
    assms(2,3)
  by auto

lemma other_sorts_sort_witness:
  "hxinsertion_sort hxkey_less_num [3, 1, 2] 0 3 = [1, 2, 3] \<and>
   sorted_between hxkey_less_num [1, 2, 3] 0 3"
proof -
  have "hxinsertion_sort hxkey_less_num [3, 1, 2] 0 3 = [1, 2, 3]"
    by code_simp
  then show ?thesis using other_sorts_sort [OF num_key.strict_weak_order_axioms, of 0 3 "[3, 1, 2]"] by simp
qed

end
