(* ===== verification/HxRadixSort.thy ===== *)
theory HxRadixSort
  imports HxSort
begin

text \<open>
  The radix sorts of \<^verbatim>\<open>src/hxradix_sort.cpp\<close> and the key conversions of
  \<^verbatim>\<open>include/hx/hxradix_sort.hpp\<close>. Both sorts are shown to compute the stable sort by key
  of the library. The histograms keep their 32-bit counters; a working buffer is raw storage
  until a pass has written it.
\<close>

section \<open>Keys\<close>

record 'v hxradix_sort_key =
  m_key :: u32
  m_value :: 'v

text \<open>\<open>set_\<close>: the conversions that make the unsigned order of the stored key the order of the key
  type. A \<open>float\<close> is given by its bits.\<close>

definition set_uint32 :: "u32 \<Rightarrow> 'v \<Rightarrow> 'v hxradix_sort_key" where
  "set_uint32 k v = \<lparr>m_key = k, m_value = v\<rparr>"

definition set_int32 :: "32 word \<Rightarrow> 'v \<Rightarrow> 'v hxradix_sort_key" where
  "set_int32 k v = \<lparr>m_key = k XOR 0x80000000, m_value = v\<rparr>"

definition set_uint16 :: "16 word \<Rightarrow> 'v \<Rightarrow> 'v hxradix_sort_key" where
  "set_uint16 k v = \<lparr>m_key = ucast k, m_value = v\<rparr>"

definition set_uint8 :: "8 word \<Rightarrow> 'v \<Rightarrow> 'v hxradix_sort_key" where
  "set_uint8 k v = \<lparr>m_key = ucast k, m_value = v\<rparr>"

definition set_int16 :: "16 word \<Rightarrow> 'v \<Rightarrow> 'v hxradix_sort_key" where
  "set_int16 k v = set_int32 (scast k) v"

definition set_int8 :: "8 word \<Rightarrow> 'v \<Rightarrow> 'v hxradix_sort_key" where
  "set_int8 k v = set_int32 (scast k) v"

definition set_float :: "32 word \<Rightarrow> 'v \<Rightarrow> 'v hxradix_sort_key" where
  "set_float t v = \<lparr>m_key = t XOR (signed_drop_bit 31 t OR 0x80000000), m_value = v\<rparr>"

definition radix_key_less :: "'v hxradix_sort_key \<Rightarrow> 'v hxradix_sort_key \<Rightarrow> bool" where
  "radix_key_less a b \<longleftrightarrow> m_key a < m_key b"

interpretation radix_key: strict_weak_order radix_key_less
  by unfold_locales (auto simp: radix_key_less_def)

section \<open>Histograms and passes\<close>

definition histogram_step :: "(u32 \<Rightarrow> nat) \<Rightarrow> u32 list \<Rightarrow> 'v hxradix_sort_key \<Rightarrow> u32 list" where
  "histogram_step digit hist x = (let d = digit (m_key x) in hist[d := hist ! d + 1])"

text \<open>The loop that turns counts into start indices: the source runs it for all the histograms side by
  side, each with its own running sum.\<close>

fun start_indices :: "u32 list \<Rightarrow> u32 \<Rightarrow> u32 list" where
  "start_indices [] s = []"
| "start_indices (h # hs) s = s # start_indices hs (h + s)"

text \<open>One pass: \<open>dst[hist[digit]++] = *it\<close> for every element of the source buffer.\<close>

fun scatter :: "(u32 \<Rightarrow> nat) \<Rightarrow> 'v hxradix_sort_key option list \<Rightarrow> u32 list \<Rightarrow>
    'v hxradix_sort_key option list \<Rightarrow> 'v hxradix_sort_key option list hx" where
  "scatter digit [] hist dst = Inr dst"
| "scatter digit (None # src) hist dst = Inl (Undefined_behavior ''read of raw memory'')"
| "scatter digit (Some x # src) hist dst =
     (let d = digit (m_key x); i = unat (hist ! d)
      in if i < length dst then scatter digit src (hist[d := hist ! d + 1]) (dst[i := Some x])
         else Inl (Undefined_behavior ''out of bounds''))"

text \<open>The three arrays, and a pointer to one of them. The pointers of a pass are \<open>hxrestrict\<close>.\<close>

datatype radix_buffer = Begin | Buf1 | Buf2

type_synonym 'v radix_store = "radix_buffer \<Rightarrow> 'v hxradix_sort_key option list"

definition radix_pass :: "bool \<Rightarrow> (u32 \<Rightarrow> nat) \<Rightarrow> u32 list \<Rightarrow> radix_buffer \<Rightarrow>
    radix_buffer \<times> 'v radix_store \<Rightarrow> (radix_buffer \<times> 'v radix_store) hx" where
  "radix_pass skip digit hist dst = (\<lambda>(src, store).
     if skip then Inr (src, store)
     else if dst = src then Inl (Undefined_behavior ''restrict pointers alias'')
     else hx_map (\<lambda>m. (dst, store(dst := m))) (scatter digit (store src) hist (store dst)))"

section \<open>The sorts\<close>

definition HX_RADIX_SORT_MIN_SIZE :: u32 where "HX_RADIX_SORT_MIN_SIZE = 32"

definition digit8_0 :: "u32 \<Rightarrow> nat" where "digit8_0 x = unat (x AND 0xff)"
definition digit8_1 :: "u32 \<Rightarrow> nat" where "digit8_1 x = unat (drop_bit 8 x AND 0xff)"
definition digit8_2 :: "u32 \<Rightarrow> nat" where "digit8_2 x = unat (drop_bit 16 x AND 0xff)"
definition digit8_3 :: "u32 \<Rightarrow> nat" where "digit8_3 x = unat (drop_bit 24 x)"

definition other_buffer :: "radix_buffer \<Rightarrow> radix_buffer" where
  "other_buffer src = (if src = Begin then Buf1 else Begin)"

definition radix_finish :: "radix_buffer \<times> 'v radix_store \<Rightarrow> 'v hxradix_sort_key option list" where
  "radix_finish = (\<lambda>(src, store). if src \<noteq> Begin then store src else store Begin)"

definition hxradix_sort_void :: "'v hxradix_sort_key list \<Rightarrow> 'v hxradix_sort_key option list hx" where
  "hxradix_sort_void xs =
     (if \<not> word_of_nat (length xs) < (ucast (NOT (0 :: u32)) :: size_t)
      then Inl (Assert_debug ''hxhistogram_t overflow'')
      else let sz = (word_of_nat (length xs) :: u32)
      in if sz < HX_RADIX_SORT_MIN_SIZE
         then Inr (map Some (hxinsertion_sort radix_key_less xs 0 (length xs)))
         else let zero = replicate 256 0;
                  hist0 = foldl (histogram_step digit8_0) zero xs;
                  hist1 = foldl (histogram_step digit8_1) zero xs;
                  hist2 = foldl (histogram_step digit8_2) zero xs;
                  hist3 = foldl (histogram_step digit8_3) zero xs;
                  first_key = m_key (xs ! 0);
                  skip0 = (hist0 ! digit8_0 first_key = sz);
                  skip1 = (hist1 ! digit8_1 first_key = sz);
                  skip2 = (hist2 ! digit8_2 first_key = sz);
                  skip3 = (hist3 ! digit8_3 first_key = sz);
                  raw = replicate (length xs) None;
                  store = (\<lambda>b. raw)(Begin := map Some xs)
              in hx_bind (radix_pass skip0 digit8_0 (start_indices hist0 0) Buf1 (Begin, store)) (\<lambda>s0.
                 hx_bind (radix_pass skip1 digit8_1 (start_indices hist1 0) (other_buffer (fst s0)) s0) (\<lambda>s1.
                 hx_bind (radix_pass skip2 digit8_2 (start_indices hist2 0) (other_buffer (fst s1)) s1) (\<lambda>s2.
                 hx_bind (radix_pass skip3 digit8_3 (start_indices hist3 0) (other_buffer (fst s2)) s2) (\<lambda>s3.
                 Inr (radix_finish s3))))))"

definition digit11_0 :: "u32 \<Rightarrow> nat" where "digit11_0 x = unat (x AND 0x7ff)"
definition digit11_1 :: "u32 \<Rightarrow> nat" where "digit11_1 x = unat (drop_bit 11 x AND 0x7ff)"
definition digit11_2 :: "u32 \<Rightarrow> nat" where "digit11_2 x = unat (drop_bit 22 x)"

definition hxradix_sort_void11 :: "'v hxradix_sort_key list \<Rightarrow> 'v hxradix_sort_key option list hx" where
  "hxradix_sort_void11 xs =
     (if \<not> word_of_nat (length xs) < (ucast (NOT (0 :: u32)) :: size_t)
      then Inl (Assert_debug ''hxhistogram_t overflow'')
      else let sz = (word_of_nat (length xs) :: u32)
      in if sz < HX_RADIX_SORT_MIN_SIZE
         then Inr (map Some (hxinsertion_sort radix_key_less xs 0 (length xs)))
         else let hist0 = foldl (histogram_step digit11_0) (replicate 2048 0) xs;
                  hist1 = foldl (histogram_step digit11_1) (replicate 2048 0) xs;
                  hist2 = foldl (histogram_step digit11_2) (replicate 1024 0) xs;
                  first_key = m_key (xs ! 0);
                  skip0 = (hist0 ! digit11_0 first_key = sz);
                  skip1 = (hist1 ! digit11_1 first_key = sz);
                  skip2 = (hist2 ! digit11_2 first_key = sz);
                  raw = replicate (length xs) None;
                  store = (\<lambda>b. raw)(Begin := map Some xs)
              in hx_bind (radix_pass skip0 digit11_0 (start_indices hist0 0) Buf1 (Begin, store)) (\<lambda>s0.
                 hx_bind (radix_pass skip1 digit11_1 (start_indices hist1 0)
                   (if fst s0 = Begin then Buf1 else if skip2 then Begin else Buf2) s0) (\<lambda>s1.
                 hx_bind (radix_pass skip2 digit11_2 (start_indices hist2 0) (other_buffer (fst s1)) s1) (\<lambda>s2.
                 Inr (radix_finish s2)))))"

section \<open>Concatenated buckets\<close>

text \<open>Where the elements of bucket \<open>d\<close> start in the concatenation of the buckets.\<close>

definition offset :: "(nat \<Rightarrow> 'a list) \<Rightarrow> nat \<Rightarrow> nat" where
  "offset f d = (\<Sum>i<d. length (f i))"

lemma offset_simps [simp]: "offset f 0 = 0" "offset f (Suc d) = offset f d + length (f d)"
  by (simp_all add: offset_def)

lemma offset_mono: "d < d' \<Longrightarrow> offset f d + length (f d) \<le> offset f d'"
  by (induction d') (auto simp: less_Suc_eq)

lemma length_concat_buckets: "length (concat (map f [0..<r])) = offset f r"
  by (induction r) auto

lemma concat_buckets_nth:
  "d < r \<Longrightarrow> j < length (f d) \<Longrightarrow> concat (map f [0..<r]) ! (offset f d + j) = f d ! j"
proof (induction r)
  case (Suc r)
  show ?case
  proof (cases "d = r")
    case False
    then have "offset f d + j < offset f r" using Suc.prems offset_mono [of d r f] by simp
    then show ?thesis using Suc False by (simp add: nth_append length_concat_buckets)
  qed (use Suc.prems in \<open>simp add: nth_append length_concat_buckets\<close>)
qed simp

lemma concat_buckets_cover:
  "i < offset f r \<Longrightarrow> \<exists>d<r. \<exists>j<length (f d). i = offset f d + j"
proof (induction r)
  case (Suc r)
  show ?case
  proof (cases "i < offset f r")
    case True
    then show ?thesis using Suc.IH less_SucI by blast
  next
    case False
    then show ?thesis using Suc.prems by (intro exI [of _ r]) (auto intro!: exI [of _ "i - offset f r"])
  qed
qed simp

lemma bucket_slot_inj:
  assumes "offset f d + j = offset f d' + j'" "j < length (f d)" "j' < length (f d')"
  shows "d = d' \<and> j = j'"
  using assms offset_mono [of d d' f] offset_mono [of d' d f] by (cases d d' rule: linorder_cases) auto

section \<open>One pass is a stable sort by its digit\<close>

definition bucket :: "(u32 \<Rightarrow> nat) \<Rightarrow> 'v hxradix_sort_key list \<Rightarrow> nat \<Rightarrow> 'v hxradix_sort_key list" where
  "bucket digit xs d = filter (\<lambda>x. digit (m_key x) = d) xs"

lemma bucket_append: "bucket digit (xs @ ys) d = bucket digit xs d @ bucket digit ys d"
  by (simp add: bucket_def)

lemma histogram_counts:
  assumes "\<And>w. digit w < r"
  shows "foldl (histogram_step digit) (replicate r 0) xs =
    map (\<lambda>d. word_of_nat (length (bucket digit xs d))) [0..<r]"
proof (induction xs rule: rev_induct)
  case Nil
  show ?case by (intro nth_equalityI) (simp_all add: bucket_def)
next
  case (snoc x xs)
  show ?case
    unfolding foldl_append foldl.simps snoc.IH unfolding histogram_step_def Let_def
    by (intro nth_equalityI) (auto simp: assms bucket_def nth_list_update)
qed

lemma start_indices_sums:
  "start_indices (map (\<lambda>d. word_of_nat (length (f d))) [k..<r]) (word_of_nat (offset f k)) =
   map (\<lambda>d. word_of_nat (offset f d)) [k..<r]"
proof (induction "r - k" arbitrary: k)
  case (Suc n)
  then have "[k..<r] = k # [Suc k..<r]" by (simp add: upt_conv_Cons)
  then show ?case using Suc.hyps(1) [of "Suc k"] Suc.hyps(2) by (simp add: add.commute)
qed simp

lemma offset_bucket_total:
  assumes "\<And>w. digit w < r"
  shows "offset (bucket digit xs) r = length xs"
proof (induction xs)
  case (Cons x xs)
  have "offset (bucket digit (x # xs)) d = offset (bucket digit xs) d + (if digit (m_key x) < d then 1 else 0)" for d
    by (induction d) (auto simp: bucket_def less_Suc_eq)
  then show ?case using Cons assms by simp
qed (simp add: offset_def bucket_def)

text \<open>The invariant of a pass: the counters stand after the elements of their bucket written so far,
  which are in place.\<close>

lemma scatter_invariant:
  assumes digit: "\<And>w. digit w < r" and small: "length (pre @ todo) < 2 ^ 32"
    and len: "length dst = length (pre @ todo)"
    and hist: "hist = map (\<lambda>d. word_of_nat (offset (bucket digit (pre @ todo)) d + length (bucket digit pre d))) [0..<r]"
    and placed: "\<And>d j. d < r \<Longrightarrow> j < length (bucket digit pre d) \<Longrightarrow>
        dst ! (offset (bucket digit (pre @ todo)) d + j) = Some (bucket digit pre d ! j)"
  shows "\<exists>out. scatter digit (map Some todo) hist dst = Inr out \<and> length out = length (pre @ todo) \<and>
    (\<forall>d j. d < r \<longrightarrow> j < length (bucket digit (pre @ todo) d) \<longrightarrow>
       out ! (offset (bucket digit (pre @ todo)) d + j) = Some (bucket digit (pre @ todo) d ! j))"
  using small len hist placed
proof (induction todo arbitrary: pre hist dst)
  case (Cons x todo)
  let ?b = "bucket digit (pre @ x # todo)"
  let ?d = "digit (m_key x)"
  let ?i = "offset ?b ?d + length (bucket digit pre ?d)"
  have app: "(pre @ [x]) @ todo = pre @ x # todo" by simp
  have bx: "bucket digit (pre @ [x]) d = (if d = ?d then bucket digit pre d @ [x] else bucket digit pre d)" for d
    by (simp add: bucket_def)
  have inb: "length (bucket digit pre ?d) < length (?b ?d)" by (simp add: bucket_def)
  then have "?i < offset ?b ?d + length (?b ?d)" by simp
  also have "\<dots> \<le> offset ?b r" using offset_mono [OF digit] .
  finally have i: "?i < length (pre @ x # todo)" using offset_bucket_total [where digit = digit and xs = "pre @ x # todo", OF digit] by simp
  have "hist ! ?d = word_of_nat ?i" using Cons.prems(3) digit by simp
  moreover have "?i < 2 ^ LENGTH(32)" using Cons.prems(1) i by simp
  ultimately have hi: "unat (hist ! ?d) = ?i" by (simp only: unat_of_nat_small)
  have step: "scatter digit (map Some (x # todo)) hist dst =
      scatter digit (map Some todo) (hist[?d := hist ! ?d + 1]) (dst[?i := Some x])"
    using i Cons.prems(2) hi by (simp add: Let_def)
  have "\<exists>out. scatter digit (map Some todo) (hist[?d := hist ! ?d + 1]) (dst[?i := Some x]) = Inr out \<and>
      length out = length ((pre @ [x]) @ todo) \<and>
      (\<forall>d j. d < r \<longrightarrow> j < length (bucket digit ((pre @ [x]) @ todo) d) \<longrightarrow>
         out ! (offset (bucket digit ((pre @ [x]) @ todo)) d + j) =
         Some (bucket digit ((pre @ [x]) @ todo) d ! j))"
  proof (rule Cons.IH)
    show "hist[?d := hist ! ?d + 1] = map (\<lambda>d. word_of_nat (offset (bucket digit ((pre @ [x]) @ todo)) d +
        length (bucket digit (pre @ [x]) d))) [0..<r]"
      using Cons.prems(3) digit unfolding app
      by (intro nth_equalityI) (auto simp: nth_list_update bx)
  next
    fix d j assume dj: "d < r" "j < length (bucket digit (pre @ [x]) d)"
    have ge: "length (bucket digit (pre @ [x]) d) \<le> length (?b d)" by (simp add: bucket_def)
    show "dst[?i := Some x] ! (offset (bucket digit ((pre @ [x]) @ todo)) d + j) =
        Some (bucket digit (pre @ [x]) d ! j)"
    proof (cases "offset ?b d + j = ?i")
      case True
      then have "d = ?d \<and> j = length (bucket digit pre ?d)"
        using bucket_slot_inj [OF True] dj(2) ge inb by simp
      then show ?thesis using i Cons.prems(2) True unfolding app by (simp add: bx)
    next
      case False
      then have j: "j < length (bucket digit pre d)" using dj(2) by (auto simp: bx less_Suc_eq split: if_splits)
      then have "bucket digit (pre @ [x]) d ! j = bucket digit pre d ! j"
        by (cases "d = ?d") (simp_all add: bx nth_append)
      then show ?thesis using False Cons.prems(4) [OF dj(1) j] unfolding app by simp
    qed
  qed (use Cons.prems in simp_all)
  then show ?case unfolding step app .
qed simp

lemma scatter_buckets:
  assumes digit: "\<And>w. digit w < r" and small: "length xs < 2 ^ 32" and len: "length dst = length xs"
  shows "scatter digit (map Some xs) (start_indices (foldl (histogram_step digit) (replicate r 0) xs) 0) dst =
    Inr (map Some (concat (map (bucket digit xs) [0..<r])))"
proof -
  have h: "start_indices (foldl (histogram_step digit) (replicate r 0) xs) 0 =
      map (\<lambda>d. word_of_nat (offset (bucket digit xs) d)) [0..<r]"
    using start_indices_sums [of "bucket digit xs" 0 r] by (simp add: histogram_counts [OF digit])
  obtain out where out: "scatter digit (map Some xs) (start_indices (foldl (histogram_step digit) (replicate r 0) xs) 0) dst = Inr out"
    "length out = length xs"
    "\<And>d j. d < r \<Longrightarrow> j < length (bucket digit xs d) \<Longrightarrow>
       out ! (offset (bucket digit xs) d + j) = Some (bucket digit xs d ! j)"
    using scatter_invariant [where digit = digit and r = r and pre = "[]" and todo = xs and dst = dst,
        OF digit _ _ refl] small len
    by (auto simp: h bucket_def)
  have tot: "length (concat (map (bucket digit xs) [0..<r])) = length xs"
    unfolding length_concat_buckets by (rule offset_bucket_total [where digit = digit, OF digit])
  have "out = map Some (concat (map (bucket digit xs) [0..<r]))"
  proof (rule nth_equalityI)
    fix i assume "i < length out"
    then have "i < offset (bucket digit xs) r" using out(2) offset_bucket_total [where digit = digit and xs = xs, OF digit] by simp
    then obtain d j where "d < r" "j < length (bucket digit xs d)" "i = offset (bucket digit xs) d + j"
      using concat_buckets_cover by blast
    then show "out ! i = map Some (concat (map (bucket digit xs) [0..<r])) ! i"
      using out(3) concat_buckets_nth [of d r j "bucket digit xs"] \<open>i < length out\<close> tot out(2) by simp
  qed (simp add: out(2) tot del: length_concat)
  with out(1) show ?thesis by simp
qed

section \<open>The passes compose to the stable sort by key\<close>

lemma stable_sort_keyI:
  assumes "\<And>k. filter (\<lambda>x. f x = k) ys = filter (\<lambda>x. f x = k) xs" and "sorted (map f ys)"
  shows "sort_key f xs = ys"
proof (rule properties_for_sort_key)
  have "count (mset zs) x = count (mset (filter (\<lambda>y. f y = f x) zs)) x" for x zs
    by (simp add: mset_filter)
  then show "mset ys = mset xs" using assms(1) by (metis multiset_eqI)
  show "filter (\<lambda>x. f k = f x) ys = filter (\<lambda>x. f k = f x) xs" for k
    using assms(1) [of "f k"] by (simp add: eq_commute)
qed (rule assms)

lemma sorted_class: "sorted (map f (filter (\<lambda>x. f x = k) xs))"
  by (induction xs) auto

lemma concat_buckets_sort_key:
  assumes "\<And>w. digit w < r"
  shows "concat (map (bucket digit xs) [0..<r]) = sort_key (\<lambda>x. digit (m_key x)) xs"
proof (rule stable_sort_keyI [symmetric])
  have "filter (\<lambda>x. digit (m_key x) = k) (concat (map (bucket digit xs) [0..<n])) =
      (if k < n then bucket digit xs k else [])" for k n
    by (induction n) (auto simp: bucket_def less_Suc_eq filter_empty_conv)
  then show "filter (\<lambda>x. digit (m_key x) = k) (concat (map (bucket digit xs) [0..<r])) =
      filter (\<lambda>x. digit (m_key x) = k) xs" for k
    using assms by (fastforce simp: bucket_def filter_empty_conv intro: sym [of "filter _ _" "[]"])
  show "sorted (map (\<lambda>x. digit (m_key x)) (concat (map (bucket digit xs) [0..<r])))"
    by (induction r) (auto simp: sorted_append bucket_def sorted_class)
qed

lemma sorted_combined_key:
  assumes "sorted (map g ys)" and "\<And>k. sorted (map h (filter (\<lambda>x. g x = k) ys))" and "\<And>x. h x < B"
  shows "sorted (map (\<lambda>x. g x * B + h x :: nat) ys)"
  using assms(1,2)
proof (induction ys)
  case (Cons y ys)
  have "sorted (map h (filter (\<lambda>x. g x = k) ys))" for k
    using Cons.prems(2) [of k] by (auto split: if_splits)
  moreover have "g y * B + h y \<le> g z * B + h z" if "z \<in> set ys" for z
  proof (cases "g y = g z")
    case True
    then show ?thesis using Cons.prems(2) [of "g y"] that by auto
  next
    case False
    then have "Suc (g y) \<le> g z" using Cons.prems(1) that by auto
    then have "Suc (g y) * B \<le> g z * B" by (rule mult_le_mono1)
    then show ?thesis using assms(3) [of y] by simp
  qed
  ultimately show ?case using Cons by simp
qed simp

text \<open>Sorting by the next digit after the lower ones sorts by both.\<close>

lemma sort_key_compose:
  assumes "\<And>x. h x < B"
  shows "sort_key g (sort_key h xs) = sort_key (\<lambda>x. g x * B + h x :: nat) xs"
proof (rule stable_sort_keyI [symmetric])
  let ?ys = "sort_key g (sort_key h xs)"
  have eq: "g x * B + h x = k \<longleftrightarrow> g x = k div B \<and> h x = k mod B" for x k
    using assms [of x] by (auto simp: div_add1_eq)
  have "filter (\<lambda>x. g x * B + h x = k) zs = filter (\<lambda>x. h x = k mod B) (filter (\<lambda>x. g x = k div B) zs)"
    "filter (\<lambda>x. g x * B + h x = k) zs = filter (\<lambda>x. g x = k div B) (filter (\<lambda>x. h x = k mod B) zs)" for k zs
    by (auto simp: eq conj_commute)
  then show "filter (\<lambda>x. g x * B + h x = k) ?ys = filter (\<lambda>x. g x * B + h x = k) xs" for k
    by (metis sort_key_stable)
  have "sorted (map h (filter (\<lambda>x. g x = k) ?ys))" for k
    unfolding sort_key_stable using sorted_filter [of h "sort_key h xs"] by simp
  then show "sorted (map (\<lambda>x. g x * B + h x) ?ys)"
    by (intro sorted_combined_key assms) (rule sorted_sort_key)
qed

text \<open>The bits of the key as the digits of a number.\<close>

lemma digit8_unat:
  "digit8_0 w = unat w mod 256" "digit8_1 w = unat w div 256 mod 256"
  "digit8_2 w = unat w div 65536 mod 256" "digit8_3 w = unat w div 16777216"
  using unat_and_mask [of w 8] unat_and_mask [of "drop_bit 8 w" 8] unat_and_mask [of "drop_bit 16 w" 8]
  by (simp_all add: digit8_0_def digit8_1_def digit8_2_def digit8_3_def unat_drop_bit)

lemma digit11_unat:
  "digit11_0 w = unat w mod 2048" "digit11_1 w = unat w div 2048 mod 2048" "digit11_2 w = unat w div 4194304"
  using unat_and_mask [of w 11] unat_and_mask [of "drop_bit 11 w" 11]
  by (simp_all add: digit11_0_def digit11_1_def digit11_2_def unat_drop_bit)

lemma digit_bounds:
  "digit8_0 w < 256" "digit8_1 w < 256" "digit8_2 w < 256" "digit8_3 w < 256"
  "digit11_0 w < 2048" "digit11_1 w < 2048" "digit11_2 w < 1024"
  using unat_bound [of w] by (simp_all add: digit8_unat digit11_unat)

lemma horner8: "a * 16777216 + (b * 65536 + (c * 256 + d)) = ((a * 256 + b) * 256 + c) * 256 + (d :: nat)"
  by simp

lemma horner11: "a * 4194304 + (b * 2048 + c) = (a * 2048 + b) * 2048 + (c :: nat)"
  by simp

lemma digits8_sort:
  fixes xs :: "'a hxradix_sort_key list"
  shows "sort_key (\<lambda>x. digit8_3 (m_key x)) (sort_key (\<lambda>x. digit8_2 (m_key x))
     (sort_key (\<lambda>x. digit8_1 (m_key x)) (sort_key (\<lambda>x. digit8_0 (m_key x)) xs))) =
   sort_key (\<lambda>x. unat (m_key x)) xs"
proof -
  have b1: "digit8_1 (m_key x) * 256 + digit8_0 (m_key x) < 65536" for x :: "'a hxradix_sort_key"
    using digit_bounds(1,2) [of "m_key x"] by simp
  have b2: "digit8_2 (m_key x) * 65536 + (digit8_1 (m_key x) * 256 + digit8_0 (m_key x)) < 16777216"
    for x :: "'a hxradix_sort_key"
    using b1 [of x] digit_bounds(3) [of "m_key x"] by simp
  have num: "digit8_3 w * 16777216 + (digit8_2 w * 65536 + (digit8_1 w * 256 + digit8_0 w)) = unat w" for w
  proof -
    have "unat w div 65536 = unat w div 256 div 256" "unat w div 16777216 = unat w div 256 div 256 div 256"
      by (simp_all add: div_mult2_eq [symmetric])
    then show ?thesis by (simp only: digit8_unat horner8 div_mult_mod_eq)
  qed
  note c1 = sort_key_compose [of "\<lambda>x. digit8_0 (m_key x)", OF digit_bounds(1)]
  note c2 = sort_key_compose [of "\<lambda>x. digit8_1 (m_key x) * 256 + digit8_0 (m_key x)", OF b1]
  note c3 = sort_key_compose [of "\<lambda>x. digit8_2 (m_key x) * 65536 + (digit8_1 (m_key x) * 256 + digit8_0 (m_key x))", OF b2]
  show ?thesis unfolding c1 c2 c3 num ..
qed

lemma digits11_sort:
  fixes xs :: "'a hxradix_sort_key list"
  shows "sort_key (\<lambda>x. digit11_2 (m_key x)) (sort_key (\<lambda>x. digit11_1 (m_key x))
     (sort_key (\<lambda>x. digit11_0 (m_key x)) xs)) = sort_key (\<lambda>x. unat (m_key x)) xs"
proof -
  have b1: "digit11_1 (m_key x) * 2048 + digit11_0 (m_key x) < 4194304" for x :: "'a hxradix_sort_key"
    using digit_bounds(5,6) [of "m_key x"] by simp
  have num: "digit11_2 w * 4194304 + (digit11_1 w * 2048 + digit11_0 w) = unat w" for w
  proof -
    have "unat w div 4194304 = unat w div 2048 div 2048" by (simp add: div_mult2_eq [symmetric])
    then show ?thesis by (simp only: digit11_unat horner11 div_mult_mod_eq)
  qed
  note c1 = sort_key_compose [of "\<lambda>x. digit11_0 (m_key x)", OF digit_bounds(5)]
  note c2 = sort_key_compose [of "\<lambda>x. digit11_1 (m_key x) * 2048 + digit11_0 (m_key x)", OF b1]
  show ?thesis unfolding c1 c2 num ..
qed

section \<open>The passes over the buffers\<close>

text \<open>A digit that all keys share leaves the stable sort by it the identity.\<close>

lemma length_filter_all:
  assumes "length (filter P xs) = length xs"
  shows "\<forall>x\<in>set xs. P x"
  using length_filter_less [of _ xs P] assms by auto

lemma skip_same_digit:
  assumes digit: "\<And>w. digit w < r" and "length xs < 2 ^ 32" "xs \<noteq> []"
    and "foldl (histogram_step digit) (replicate r 0) xs ! digit (m_key (xs ! 0)) = word_of_nat (length xs)"
  shows "\<forall>x\<in>set xs. digit (m_key x) = digit (m_key (xs ! 0))"
proof -
  let ?d = "digit (m_key (xs ! 0))"
  have le: "length (bucket digit xs ?d) \<le> length xs" by (simp add: bucket_def)
  have "(word_of_nat (length (bucket digit xs ?d)) :: u32) = word_of_nat (length xs)"
    using assms(4) digit by (simp add: histogram_counts [OF digit])
  then have "unat (word_of_nat (length (bucket digit xs ?d)) :: u32) = unat (word_of_nat (length xs) :: u32)"
    by (rule arg_cong)
  then have "length (bucket digit xs ?d) = length xs"
    using le assms(2) by (simp add: unat_of_nat_small)
  then show ?thesis unfolding bucket_def by (rule length_filter_all)
qed

text \<open>What the chain of passes keeps: the source pointer leads to the sorted list, the arrays keep
  their size.\<close>

definition pass_state :: "nat \<Rightarrow> 'v hxradix_sort_key list \<Rightarrow> radix_buffer \<times> 'v radix_store \<Rightarrow> bool" where
  "pass_state n ys s \<longleftrightarrow> snd s (fst s) = map Some ys \<and> (\<forall>b. length (snd s b) = n)"

lemma bucket_length_mset: "mset ys = mset xs \<Longrightarrow> length (bucket digit ys d) = length (bucket digit xs d)"
  unfolding bucket_def by (metis mset_filter size_mset)

lemma histogram_mset:
  "(\<And>w. digit w < r) \<Longrightarrow> mset ys = mset xs \<Longrightarrow>
   foldl (histogram_step digit) (replicate r 0) ys = foldl (histogram_step digit) (replicate r 0) xs"
  using histogram_counts [of digit r ys] histogram_counts [of digit r xs]
  by (simp only: bucket_length_mset [of ys xs])

lemma radix_pass_correct:
  assumes digit: "\<And>w. digit w < r" and n: "length xs = n" "n < 2 ^ 32" "mset ys = mset xs"
    and s: "pass_state n ys s" and dst: "\<not> skip \<Longrightarrow> dst \<noteq> fst s"
    and skip: "skip \<Longrightarrow> sort_key (\<lambda>x. digit (m_key x)) ys = ys"
  shows "\<exists>s'. radix_pass skip digit (start_indices (foldl (histogram_step digit) (replicate r 0) xs) 0) dst s = Inr s' \<and>
    fst s' = (if skip then fst s else dst) \<and>
    pass_state n (sort_key (\<lambda>x. digit (m_key x)) ys) s'"
proof (cases skip)
  case True
  then show ?thesis using s skip by (cases s) (simp add: radix_pass_def)
next
  case False
  obtain src store where st: "s = (src, store)" by (cases s)
  have "length ys = n" using n(1,3) by (metis size_mset)
  then have "scatter digit (map Some ys) (start_indices (foldl (histogram_step digit) (replicate r 0) ys) 0) (store dst)
      = Inr (map Some (sort_key (\<lambda>x. digit (m_key x)) ys))"
    using scatter_buckets [of digit r ys "store dst", OF digit] n s
    by (simp add: concat_buckets_sort_key [of digit r ys, OF digit] pass_state_def st)
  then have "scatter digit (map Some ys) (start_indices (foldl (histogram_step digit) (replicate r 0) xs) 0) (store dst)
      = Inr (map Some (sort_key (\<lambda>x. digit (m_key x)) ys))"
    by (simp only: histogram_mset [of digit r ys xs, OF digit n(3)])
  then show ?thesis
    using False dst s \<open>length ys = n\<close> by (simp add: radix_pass_def st pass_state_def)
qed

text \<open>Skipping is decided on the input, but which keys share a digit does not depend on their order.\<close>

lemma skip_sort_mset:
  assumes digit: "\<And>w. digit w < r" and "length xs < 2 ^ 32" "xs \<noteq> []" "mset ys = mset xs"
    and skip: "foldl (histogram_step digit) (replicate r 0) xs ! digit (m_key (xs ! 0)) = word_of_nat (length xs)"
  shows "sort_key (\<lambda>x. digit (m_key x)) ys = ys"
proof -
  let ?d = "digit (m_key (xs ! 0))"
  have "\<forall>x\<in>set xs. digit (m_key x) = ?d" by (rule skip_same_digit [OF digit assms(2,3) skip])
  then have "\<forall>x\<in>set ys. digit (m_key x) = ?d" using assms(4) by (metis set_mset_mset)
  then show ?thesis by (intro sort_key_id_if_sorted) (simp add: sorted_wrt_iff_nth_less)
qed

section \<open>The whole sorts\<close>

lemma small_sort:
  "hxinsertion_sort radix_key_less xs 0 (length xs) = sort_key (\<lambda>x. unat (m_key x)) xs"
proof (rule stable_sort_keyI [symmetric])
  show "filter (\<lambda>x. unat (m_key x) = k) (hxinsertion_sort radix_key_less xs 0 (length xs)) =
      filter (\<lambda>x. unat (m_key x) = k) xs" for k
    by (rule hxinsertion_sort_filter) (auto simp: radix_key_less_def word_less_nat_alt)
  have "sorted_wrt (\<lambda>x y. \<not> radix_key_less y x) (hxinsertion_sort radix_key_less xs 0 (length xs))"
    using radix_key.hxinsertion_sort_sorted [of 0 "length xs" xs]
      range_perm_length [OF hxinsertion_sort_perm [of "length xs" xs 0 radix_key_less]]
    by (simp add: sorted_between_all [symmetric])
  then show "sorted (map (\<lambda>x. unat (m_key x)) (hxinsertion_sort radix_key_less xs 0 (length xs)))"
    by (simp add: sorted_map radix_key_less_def word_less_nat_alt not_less)
qed

lemma size_check:
  assumes "length xs < 2 ^ 32 - 1"
  shows "(word_of_nat (length xs) :: size_t) < ucast (NOT (0 :: u32))"
proof -
  have "unat (word_of_nat (length xs) :: size_t) = length xs" using assms by (simp add: unat_of_nat_small)
  moreover have "unat (ucast (NOT (0 :: u32)) :: size_t) = 2 ^ 32 - 1"
    by (simp add: unsigned_ucast_eq unsigned_minus_1_eq_mask mask_eq_exp_minus_1 take_bit_eq_mod)
  ultimately show ?thesis using assms by (simp add: word_less_nat_alt)
qed

lemma initial_pass_state:
  "pass_state (length xs) xs (Begin, (\<lambda>b. replicate (length xs) None)(Begin := map Some xs))"
  by (simp add: pass_state_def)

lemma radix_finish_sorted: "pass_state n ys s \<Longrightarrow> radix_finish s = map Some ys"
  by (cases s) (auto simp: pass_state_def radix_finish_def)

lemma other_buffer_neq: "other_buffer b \<noteq> b"
  by (cases b) (simp_all add: other_buffer_def)

text \<open>Below the overflow check, both sorts give the stable sort by the unsigned key.\<close>

lemma hxradix_sort_void_sorts:
  fixes xs :: "'v hxradix_sort_key list"
  assumes len: "length xs < 2 ^ 32 - 1"
  shows "hxradix_sort_void xs = Inr (map Some (sort_key (\<lambda>x. unat (m_key x)) xs))"
proof (cases "(word_of_nat (length xs) :: u32) < HX_RADIX_SORT_MIN_SIZE")
  case True
  then show ?thesis using size_check [OF len] by (simp add: hxradix_sort_void_def Let_def small_sort)
next
  case False
  then have ne: "xs \<noteq> []" by (auto simp: HX_RADIX_SORT_MIN_SIZE_def)
  have l: "length xs < 2 ^ 32" using len by simp
  define h where "h digit = foldl (histogram_step digit) (replicate 256 0) xs" for digit
  define sk where "sk digit \<longleftrightarrow> h digit ! digit (m_key (xs ! 0)) = word_of_nat (length xs)" for digit
  define so where "so digit ys = sort_key (\<lambda>x. digit (m_key x)) ys" for digit :: "u32 \<Rightarrow> nat" and ys :: "'v hxradix_sort_key list"
  have so_mset: "mset ys = mset xs \<Longrightarrow> mset (so digit ys) = mset xs" for digit ys by (simp add: so_def)
  have pass: "\<exists>s'. radix_pass (sk digit) digit (start_indices (h digit) 0) dst s = Inr s' \<and>
      pass_state (length xs) (so digit ys) s'"
    if "\<And>w. digit w < 256" "mset ys = mset xs" "pass_state (length xs) ys s" "dst \<noteq> fst s" for digit dst s ys
  proof -
    have "sk digit \<Longrightarrow> so digit ys = ys"
      using skip_sort_mset [of digit 256 xs ys, OF that(1) l ne that(2)] by (simp add: sk_def h_def so_def)
    then show ?thesis
      using radix_pass_correct [of digit 256 xs "length xs" ys s "sk digit" dst, OF that(1) refl l that(2,3)] that(4)
      unfolding h_def so_def by blast
  qed
  let ?s = "(Begin, (\<lambda>b. replicate (length xs) None)(Begin := map Some xs))"
  obtain s0 where s0: "radix_pass (sk digit8_0) digit8_0 (start_indices (h digit8_0) 0) Buf1 ?s = Inr s0"
    "pass_state (length xs) (so digit8_0 xs) s0"
    using pass [where digit = digit8_0, OF digit_bounds(1) refl initial_pass_state, of Buf1] by auto
  obtain s1 where s1: "radix_pass (sk digit8_1) digit8_1 (start_indices (h digit8_1) 0) (other_buffer (fst s0)) s0 = Inr s1"
    "pass_state (length xs) (so digit8_1 (so digit8_0 xs)) s1"
    using pass [where digit = digit8_1, OF digit_bounds(2) so_mset s0(2) other_buffer_neq] by auto
  obtain s2 where s2: "radix_pass (sk digit8_2) digit8_2 (start_indices (h digit8_2) 0) (other_buffer (fst s1)) s1 = Inr s2"
    "pass_state (length xs) (so digit8_2 (so digit8_1 (so digit8_0 xs))) s2"
    using pass [where digit = digit8_2, OF digit_bounds(3) so_mset s1(2) other_buffer_neq] so_mset by auto
  obtain s3 where s3: "radix_pass (sk digit8_3) digit8_3 (start_indices (h digit8_3) 0) (other_buffer (fst s2)) s2 = Inr s3"
    "pass_state (length xs) (so digit8_3 (so digit8_2 (so digit8_1 (so digit8_0 xs)))) s3"
    using pass [where digit = digit8_3, OF digit_bounds(4) so_mset s2(2) other_buffer_neq] so_mset by auto
  have "hxradix_sort_void xs = Inr (radix_finish s3)"
    using size_check [OF len] False s0(1) s1(1) s2(1) s3(1)
    by (simp add: hxradix_sort_void_def Let_def h_def sk_def)
  then show ?thesis using radix_finish_sorted [OF s3(2)] by (simp add: so_def digits8_sort)
qed

text \<open>The 11-bit passes rotate through a third array, chosen so that a chain of three ends at the
  caller's array.\<close>

lemma hxradix_sort_void11_sorts:
  fixes xs :: "'v hxradix_sort_key list"
  assumes len: "length xs < 2 ^ 32 - 1"
  shows "hxradix_sort_void11 xs = Inr (map Some (sort_key (\<lambda>x. unat (m_key x)) xs))"
proof (cases "(word_of_nat (length xs) :: u32) < HX_RADIX_SORT_MIN_SIZE")
  case True
  then show ?thesis using size_check [OF len] by (simp add: hxradix_sort_void11_def Let_def small_sort)
next
  case False
  then have ne: "xs \<noteq> []" by (auto simp: HX_RADIX_SORT_MIN_SIZE_def)
  have l: "length xs < 2 ^ 32" using len by simp
  define h where "h r digit = foldl (histogram_step digit) (replicate r 0) xs" for r digit
  define sk where "sk r digit \<longleftrightarrow> h r digit ! digit (m_key (xs ! 0)) = word_of_nat (length xs)" for r digit
  define so where "so digit ys = sort_key (\<lambda>x. digit (m_key x)) ys" for digit :: "u32 \<Rightarrow> nat" and ys :: "'v hxradix_sort_key list"
  have so_mset: "mset ys = mset xs \<Longrightarrow> mset (so digit ys) = mset xs" for digit ys by (simp add: so_def)
  have pass: "\<exists>s'. radix_pass (sk r digit) digit (start_indices (h r digit) 0) dst s = Inr s' \<and>
      fst s' = (if sk r digit then fst s else dst) \<and> pass_state (length xs) (so digit ys) s'"
    if "\<And>w. digit w < r" "mset ys = mset xs" "pass_state (length xs) ys s" "dst \<noteq> fst s" for r digit dst s ys
  proof -
    have "sk r digit \<Longrightarrow> so digit ys = ys"
      using skip_sort_mset [of digit r xs ys, OF that(1) l ne that(2)] by (simp add: sk_def h_def so_def)
    then show ?thesis
      using radix_pass_correct [of digit r xs "length xs" ys s "sk r digit" dst, OF that(1) refl l that(2,3)] that(4)
      unfolding h_def so_def by blast
  qed
  let ?s = "(Begin, (\<lambda>b. replicate (length xs) None)(Begin := map Some xs))"
  obtain s0 where s0: "radix_pass (sk 2048 digit11_0) digit11_0 (start_indices (h 2048 digit11_0) 0) Buf1 ?s = Inr s0"
    "fst s0 = (if sk 2048 digit11_0 then fst ?s else Buf1)" "pass_state (length xs) (so digit11_0 xs) s0"
    using pass [where digit = digit11_0, OF digit_bounds(5) refl initial_pass_state, of Buf1]
    by (metis fst_conv radix_buffer.distinct(1))
  let ?d = "if fst s0 = Begin then Buf1 else if sk 1024 digit11_2 then Begin else Buf2"
  have "?d \<noteq> fst s0" using s0(2) by simp
  then obtain s1 where s1: "radix_pass (sk 2048 digit11_1) digit11_1 (start_indices (h 2048 digit11_1) 0) ?d s0 = Inr s1"
    "pass_state (length xs) (so digit11_1 (so digit11_0 xs)) s1"
    using pass [where digit = digit11_1, OF digit_bounds(6) so_mset s0(3)] by blast
  obtain s2 where s2: "radix_pass (sk 1024 digit11_2) digit11_2 (start_indices (h 1024 digit11_2) 0) (other_buffer (fst s1)) s1 = Inr s2"
    "pass_state (length xs) (so digit11_2 (so digit11_1 (so digit11_0 xs))) s2"
    using pass [where digit = digit11_2, OF digit_bounds(7) so_mset s1(2) other_buffer_neq] so_mset by auto
  have "hxradix_sort_void11 xs = Inr (radix_finish s2)"
    unfolding hxradix_sort_void11_def Let_def h_def [symmetric] sk_def [symmetric]
    using size_check [OF len] False s0(1) s1(1) s2(1) by simp
  then show ?thesis using radix_finish_sorted [OF s2(2)] by (simp add: so_def digits11_sort)
qed

section \<open>The conversions keep the order\<close>

text \<open>The order of IEEE floats that are not NaN, with \<open>-0\<close> before \<open>+0\<close>, read off the bits: the sign and
  the magnitude.\<close>

definition float_order :: "32 word \<Rightarrow> int" where
  "float_order t = (let m = uint (t AND 0x7fffffff) in if bit t 31 then - m - 1 else m)"

lemma bit_31_iff: "bit (k :: u32) 31 \<longleftrightarrow> 2 ^ 31 \<le> uint k"
proof -
  have "bit k 31 \<longleftrightarrow> bit (uint k) 31" by (simp add: bit_uint_iff)
  also have "\<dots> \<longleftrightarrow> odd (uint k div 2 ^ 31)" by (rule bit_iff_odd)
  finally have "bit k 31 \<longleftrightarrow> odd (uint k div 2 ^ 31)" .
  moreover have "0 \<le> uint k" "uint k < 2 ^ 32" using uint_lt2p [of k] by simp_all
  then have "uint k div 2 ^ 31 = (if 2 ^ 31 \<le> uint k then 1 else 0)" by auto
  ultimately show ?thesis by simp
qed

lemma bit_high: "bit (0x80000000 :: u32) n \<longleftrightarrow> n = 31"
proof -
  have c: "(0x80000000 :: u32) = 2 ^ 31" by simp
  show ?thesis unfolding c by (simp only: bit_exp_iff possible_bit_word len_num32) auto
qed

lemma uint_xor_high: "uint (k XOR 0x80000000 :: u32) = (if bit k 31 then uint k - 2 ^ 31 else uint k + 2 ^ 31)"
proof -
  have clear: "uint (w XOR 0x80000000) = uint w + 2 ^ 31" if "\<not> bit w 31" for w :: u32
  proof -
    have "\<not> bit (w AND 0x80000000) n" for n
      using that by (cases "n = 31") (simp_all only: bit_and_iff bit_high simp_thms)
    then have "w AND 0x80000000 = 0" by (intro bit_eqI) simp
    then have "w XOR 0x80000000 = w + 0x80000000" by (simp only: disjunctive_add_eq_xor)
    moreover have "uint w < 2 ^ 31" using that bit_31_iff [of w] by simp
    ultimately show ?thesis by (simp add: uint_word_ariths)
  qed
  show ?thesis
  proof (cases "bit k 31")
    case True
    let ?w = "k XOR 0x80000000"
    have "\<not> bit ?w 31" using True by (simp add: bit_xor_iff bit_high)
    from clear [OF this] have "uint (?w XOR 0x80000000) = uint ?w + 2 ^ 31" .
    then show ?thesis using True by (simp add: xor.assoc)
  qed (simp add: clear)
qed

lemma sint_bit_31: "sint (k :: u32) = (if bit k 31 then uint k - 2 ^ 32 else uint k)"
proof -
  have "sint k = (uint k + 2 ^ 31) mod 2 ^ 32 - 2 ^ 31"
    by (simp add: sint_uint signed_take_bit_eq_take_bit_shift take_bit_eq_mod)
  moreover have "0 \<le> uint k" "uint k < 2 ^ 32" using uint_lt2p [of k] by simp_all
  moreover have "(uint k + 2 ^ 31) mod 2 ^ 32 = uint k - 2 ^ 31" if "bit k 31"
    using mod_add_self2 [of "uint k - 2 ^ 31" "2 ^ 32"] that bit_31_iff [of k] \<open>uint k < 2 ^ 32\<close>
    by (simp add: add.commute)
  ultimately show ?thesis using bit_31_iff [of k] by (cases "bit k 31") auto
qed

lemma set_int32_key: "uint (m_key (set_int32 k v)) = sint k + 2 ^ 31"
  using sint_bit_31 [of k] uint_xor_high [of k] by (simp add: set_int32_def)

lemma signed_drop_bit_31: "signed_drop_bit 31 (t :: u32) = (if bit t 31 then - 1 else 0)"
  by (intro bit_word_eqI) (auto simp: bit_signed_drop_bit_iff Suc_le_eq)

lemma uint_and_low: "uint (t AND 0x7fffffff :: u32) = (if bit t 31 then uint t - 2 ^ 31 else uint t)"
proof -
  have "unat (t AND 0x7fffffff) = unat t mod 2 ^ 31" using unat_and_mask [of t 31] by simp
  then have "int (unat (t AND 0x7fffffff)) = int (unat t) mod 2 ^ 31" by (simp add: zmod_int)
  then have "uint (t AND 0x7fffffff) = uint t mod 2 ^ 31" by simp
  moreover have "0 \<le> uint t" "uint t < 2 ^ 32" using uint_lt2p [of t] by simp_all
  moreover have "uint t mod 2 ^ 31 = uint t - 2 ^ 31" if "bit t 31"
  proof -
    have "(uint t - 2 ^ 31 + 2 ^ 31) mod 2 ^ 31 = (uint t - 2 ^ 31) mod 2 ^ 31" by (rule mod_add_self2)
    also have "\<dots> = uint t - 2 ^ 31"
      using that bit_31_iff [of t] \<open>uint t < 2 ^ 32\<close> by (intro mod_pos_pos_trivial) auto
    finally show ?thesis by simp
  qed
  ultimately show ?thesis using bit_31_iff [of t] by (cases "bit t 31") auto
qed

lemma set_float_key: "uint (m_key (set_float t v)) = float_order t + 2 ^ 31"
proof (cases "bit t 31")
  case True
  have "uint t < 2 ^ 32" using uint_lt2p [of t] by simp
  have "uint (NOT t) = (- uint t - 1) mod 2 ^ 32"
    by (simp add: unsigned_not_eq take_bit_eq_mod not_int_def)
  also have "\<dots> = (- uint t - 1 + 2 ^ 32) mod 2 ^ 32" by (rule mod_add_self2 [symmetric])
  also have "\<dots> = - uint t - 1 + 2 ^ 32"
  proof (rule mod_pos_pos_trivial)
    have "0 \<le> uint t" by simp
    with \<open>uint t < 2 ^ 32\<close> show "0 \<le> - uint t - 1 + 2 ^ 32" "- uint t - 1 + 2 ^ 32 < 2 ^ 32" by linarith+
  qed
  finally have "uint (NOT t) = 2 ^ 32 - 1 - uint t" by simp
  then show ?thesis using True uint_and_low [of t]
    by (simp add: set_float_def float_order_def signed_drop_bit_31 Let_def)
next
  case False
  then show ?thesis using uint_xor_high [of t] uint_and_low [of t]
    by (simp add: set_float_def float_order_def signed_drop_bit_31 Let_def)
qed

section \<open>Properties\<close>

text \<open>C9: both radix sorts return for every size below the range of their 32-bit histograms and leave
  in the caller's array the stable sort of its elements by the unsigned key: they never read raw
  memory, write out of bounds or let the buffers of a pass alias, whichever passes are skipped.\<close>

theorem hxradix_sort_stable:
  assumes "length xs < 2 ^ 32 - 1"
  shows "hxradix_sort_void xs = Inr (map Some (sort_key (\<lambda>x. unat (m_key x)) xs)) \<and>
    hxradix_sort_void11 xs = Inr (map Some (sort_key (\<lambda>x. unat (m_key x)) xs))"
  using hxradix_sort_void_sorts [OF assms] hxradix_sort_void11_sorts [OF assms] by blast

theorem hxradix_sort_stable_witness:
  "hxradix_sort_void (map (\<lambda>i. set_int32 (word_of_int (- i)) i) [0..40]) =
   Inr (map Some (sort_key (\<lambda>x. unat (m_key x)) (map (\<lambda>i. set_int32 (word_of_int (- i)) i) [0..40])))"
  by (rule hxradix_sort_stable [THEN conjunct1]) simp

text \<open>The key conversions keep the order of the key types: the unsigned order of the converted keys
  is the order of the signed integers of 32, 16 and 8 bits, of the unsigned ones, and for floats
  the order of the numbers their bits stand for.\<close>

lemma radix_keys_ordered:
  "(m_key (set_int32 a v) < m_key (set_int32 b w)) = (sint a < sint b) \<and>
   (m_key (set_int16 c v) < m_key (set_int16 d w)) = (sint c < sint d) \<and>
   (m_key (set_int8 e v) < m_key (set_int8 f w)) = (sint e < sint f) \<and>
   (m_key (set_uint32 a v) < m_key (set_uint32 b w)) = (a < b) \<and>
   (m_key (set_uint16 c v) < m_key (set_uint16 d w)) = (c < d) \<and>
   (m_key (set_uint8 e v) < m_key (set_uint8 f w)) = (e < f) \<and>
   (m_key (set_float a v) < m_key (set_float b w)) = (float_order a < float_order b)"
proof -
  have s: "sint (scast c :: u32) = sint c" "sint (scast e :: u32) = sint e" for c :: "16 word" and e :: "8 word"
    by (simp_all add: sint_up_scast is_up)
  have i: "(m_key (set_int32 a v) < m_key (set_int32 b w)) = (sint a < sint b)" for a b
    by (simp add: word_less_def set_int32_key)
  have "(m_key (set_float a v) < m_key (set_float b w)) = (float_order a < float_order b)"
    by (simp add: word_less_def set_float_key)
  moreover have "(m_key (set_uint32 a v) < m_key (set_uint32 b w)) = (a < b)"
    by (simp add: set_uint32_def)
  moreover have "(m_key (set_uint16 c v) < m_key (set_uint16 d w)) = (c < d)"
    "(m_key (set_uint8 e v) < m_key (set_uint8 f w)) = (e < f)"
    by (simp_all add: set_uint16_def set_uint8_def word_less_def uint_up_ucast is_up)
  ultimately show ?thesis by (simp add: i s set_int16_def set_int8_def)
qed

end
