(* ===== verification/HxAllocator.thy ===== *)
theory HxAllocator
  imports HxPrelude
begin

text \<open>
  The storage of the containers, \<^verbatim>\<open>include/hx/hxallocator.hpp\<close>, and the interface through
  which ranges are appended to a container. \<open>al_fixed\<close> is the template parameter: a positive
  fixed capacity, or \<open>hxallocator_dynamic_capacity\<close> when the capacity is set once at run time.
  The memory a dynamic allocator asks for is assumed to be there: \<open>hxmalloc_ext\<close> never returns
  null (it asserts instead).
\<close>

section \<open>The allocator\<close>

definition hxallocator_dynamic_capacity :: hxsize_t where "hxallocator_dynamic_capacity = 0"

record 'a hxallocator =
  al_fixed :: hxsize_t
  al_pow2 :: bool
  al_capacity :: hxsize_t
  al_data :: "'a option list"

definition element_count :: "bool \<Rightarrow> hxsize_t \<Rightarrow> nat" where
  "element_count pow2 sz = (if pow2 then 2 ^ nat sz else nat sz)"

text \<open>A fixed allocator holds its array from the start, a dynamic one holds nothing.\<close>

definition hxallocator_new :: "hxsize_t \<Rightarrow> bool \<Rightarrow> 'a hxallocator" where
  "hxallocator_new fixed pow2 =
     \<lparr>al_fixed = fixed, al_pow2 = pow2, al_capacity = fixed,
      al_data = (if fixed = hxallocator_dynamic_capacity then [] else replicate (element_count pow2 fixed) None)\<rparr>"

definition reserve_storage :: "hxsize_t \<Rightarrow> 'a hxallocator \<Rightarrow> 'a hxallocator hx" where
  "reserve_storage sz al =
     (if al_fixed al \<noteq> hxallocator_dynamic_capacity
      then if sz = al_fixed al then Inr al else Inl (Assert_always ''bad_reserve already sized'')
      else if sz = al_capacity al then Inr al
      else if al_capacity al \<noteq> 0 then Inl (Assert_always ''bad_reserve already sized'')
      else if sz < 0 then Inl (Assert_always ''hxmalloc_ext'')
      else Inr (al\<lparr>al_capacity := sz, al_data := replicate (element_count (al_pow2 al) sz) None\<rparr>))"

text \<open>What every container relies on: the array has as many elements as the capacity says.\<close>

definition allocator_ok :: "'a hxallocator \<Rightarrow> bool" where
  "allocator_ok al \<longleftrightarrow> 0 \<le> al_capacity al \<and> 0 \<le> al_fixed al \<and>
     (al_fixed al \<noteq> 0 \<longrightarrow> al_capacity al = al_fixed al) \<and>
     length (al_data al) = (if al_fixed al = 0 \<and> al_capacity al = 0 then 0 else element_count (al_pow2 al) (al_capacity al))"

lemma allocator_new_ok: "0 \<le> fixed \<Longrightarrow> allocator_ok (hxallocator_new fixed pow2)"
  by (auto simp: allocator_ok_def hxallocator_new_def hxallocator_dynamic_capacity_def)

lemma reserve_storage_ok: "allocator_ok al \<Longrightarrow> reserve_storage sz al = Inr al' \<Longrightarrow> allocator_ok al' \<and> al_capacity al' = sz"
  by (auto simp: reserve_storage_def allocator_ok_def hxallocator_dynamic_capacity_def split: if_splits)

text \<open>A capacity is set once: only the same size can be asked for again.\<close>

lemma reserve_storage_once:
  "allocator_ok al \<Longrightarrow> al_capacity al \<noteq> 0 \<Longrightarrow>
   reserve_storage sz al = (if sz = al_capacity al then Inr al else Inl (Assert_always ''bad_reserve already sized''))"
  by (auto simp: reserve_storage_def allocator_ok_def hxallocator_dynamic_capacity_def)

text \<open>An index is compared with a count after a cast to \<open>size_t\<close>, so a negative one is out of range too.\<close>

lemma index_in_range:
  fixes w :: size_t
  assumes "- (2 ^ 63) \<le> i" and "i < 2 ^ 63" and "unat w < 2 ^ 63"
  shows "word_of_int i < w \<longleftrightarrow> 0 \<le> i \<and> i < int (unat w)"
proof -
  have "uint (word_of_int i :: size_t) = (if 0 \<le> i then i else i + 2 ^ 64)"
  proof (cases "0 \<le> i")
    case True
    then show ?thesis using assms(2) by (simp add: uint_word_of_int)
  next
    case False
    have "i mod 2 ^ 64 = (i + 2 ^ 64) mod 2 ^ 64" by simp
    also have "\<dots> = i + 2 ^ 64" using False assms(1) by (intro mod_pos_pos_trivial) simp_all
    finally show ?thesis using False by (simp add: uint_word_of_int)
  qed
  moreover have w: "int (unat w) = uint w" by (rule uint_nat [symmetric])
  moreover have "int (unat w) < int (2 ^ 63)" using assms(3) by (simp only: of_nat_less_iff)
  then have "uint w < 2 ^ 63" unfolding w by simp
  ultimately show ?thesis unfolding word_less_def w using assms(1) by (cases "0 \<le> i") simp_all
qed

section \<open>Appending to a container\<close>

text \<open>The body of every \<open>add_range\<close>: push the elements one by one.\<close>

fun push_range :: "('c \<Rightarrow> 'a \<Rightarrow> 'c hx) \<Rightarrow> 'c \<Rightarrow> 'a list \<Rightarrow> 'c hx" where
  "push_range push c [] = Inr c"
| "push_range push c (x # xs) = hx_bind (push c x) (\<lambda>c'. push_range push c' xs)"

text \<open>What a container promises: \<open>rel c xs\<close> says that it holds the list \<open>xs\<close>, pushing appends while there
  is room, and a full container stops the program instead of overwriting anything.\<close>

locale back_inserter =
  fixes push :: "'c \<Rightarrow> 'a \<Rightarrow> 'c hx"
    and rel :: "'c \<Rightarrow> 'a list \<Rightarrow> bool"
    and room :: "'c \<Rightarrow> nat"
  assumes push_ok: "rel c xs \<Longrightarrow> length xs < room c \<Longrightarrow>
      \<exists>c'. push c x = Inr c' \<and> rel c' (xs @ [x]) \<and> room c' = room c"
    and push_full: "rel c xs \<Longrightarrow> room c \<le> length xs \<Longrightarrow> \<not> hx_ok (push c x)"
    and rel_room: "rel c xs \<Longrightarrow> length xs \<le> room c"
begin

lemma push_range_ok:
  "rel c xs \<Longrightarrow> length xs + length ys \<le> room c \<Longrightarrow>
   \<exists>c'. push_range push c ys = Inr c' \<and> rel c' (xs @ ys) \<and> room c' = room c"
proof (induction ys arbitrary: c xs)
  case (Cons y ys)
  then obtain c1 where "push c y = Inr c1" "rel c1 (xs @ [y])" "room c1 = room c"
    using push_ok [of c xs y] by auto
  then show ?case using Cons.IH [of c1 "xs @ [y]"] Cons.prems(2) by auto
qed simp

lemma push_range_full:
  "rel c xs \<Longrightarrow> room c < length xs + length ys \<Longrightarrow> \<not> hx_ok (push_range push c ys)"
proof (induction ys arbitrary: c xs)
  case Nil
  then show ?case using rel_room by fastforce
next
  case (Cons y ys)
  show ?case
  proof (cases "length xs < room c")
    case True
    then obtain c1 where "push c y = Inr c1" "rel c1 (xs @ [y])" "room c1 = room c"
      using push_ok [of c xs y] Cons.prems(1) by auto
    then show ?thesis using Cons.IH [of c1 "xs @ [y]"] Cons.prems(2) by simp
  next
    case False
    then show ?thesis using push_full [OF Cons.prems(1), of y] by (cases "push c y") auto
  qed
qed

end

end
