(* ===== verification/HxVector.thy ===== *)
theory HxVector
  imports HxAllocator HxSort
begin

text \<open>
  The vector of \<^verbatim>\<open>include/hx/hxvector.hpp\<close> and \<^verbatim>\<open>detail/hxvector.inl\<close>: an end pointer into storage
  whose capacity is set once. Pointers are offsets from \<open>data()\<close>. An element that was moved from is
  still live and holds any value: \<open>moved\<close> is the function of its old value that is left behind, and
  no result depends on it. Arguments passed by reference are values: they do not refer to elements
  of the vector itself.
\<close>

section \<open>State and storage\<close>

record 'a hxvector =
  vec_alloc :: "'a hxallocator"
  vec_end :: nat

abbreviation vec_data :: "'a hxvector \<Rightarrow> 'a option list" where
  "vec_data v \<equiv> al_data (vec_alloc v)"

definition vec_set :: "'a hxvector \<Rightarrow> 'a option list \<Rightarrow> nat \<Rightarrow> 'a hxvector" where
  "vec_set v m e = v\<lparr>vec_alloc := (vec_alloc v)\<lparr>al_data := m\<rparr>, vec_end := e\<rparr>"

definition move_slot :: "('a \<Rightarrow> 'a) \<Rightarrow> 'a option list \<Rightarrow> nat \<Rightarrow> nat \<Rightarrow> 'a option list hx" where
  "move_slot moved m src dst =
     hx_bind (read_slot m src) (\<lambda>x. hx_bind (assign_slot m src (moved x)) (\<lambda>m1. assign_slot m1 dst x))"

fun read_slots :: "'a option list \<Rightarrow> nat list \<Rightarrow> 'a list hx" where
  "read_slots m [] = Inr []"
| "read_slots m (i # is) = hx_bind (read_slot m i) (\<lambda>x. hx_map (\<lambda>xs. x # xs) (read_slots m is))"

fun write_slots :: "'a option list \<Rightarrow> nat \<Rightarrow> 'a list \<Rightarrow> 'a option list hx" where
  "write_slots m i [] = Inr m"
| "write_slots m i (x # xs) = hx_bind (assign_slot m i x) (\<lambda>m1. write_slots m1 (i + 1) xs)"

text \<open>Constructing elements one after the other, and \<open>destruct_\<close>.\<close>

fun construct_slots :: "'a option list \<Rightarrow> nat \<Rightarrow> 'a list \<Rightarrow> 'a option list hx" where
  "construct_slots m i [] = Inr m"
| "construct_slots m i (x # xs) = hx_bind (construct_slot m i x) (\<lambda>m1. construct_slots m1 (i + 1) xs)"

fun destruct_slots :: "'a option list \<Rightarrow> nat list \<Rightarrow> 'a option list hx" where
  "destruct_slots m [] = Inr m"
| "destruct_slots m (i # is) = hx_bind (destroy_slot m i) (\<lambda>m1. destruct_slots m1 is)"

section \<open>Operations\<close>

definition hxvector_capacity :: "'a hxvector \<Rightarrow> hxsize_t" where
  "hxvector_capacity v = al_capacity (vec_alloc v)"

definition hxvector_size :: "'a hxvector \<Rightarrow> hxsize_t" where
  "hxvector_size v = int (vec_end v)"

definition hxvector_empty :: "'a hxvector \<Rightarrow> bool" where
  "hxvector_empty v = (vec_end v = 0)"

definition hxvector_full :: "'a hxvector \<Rightarrow> bool" where
  "hxvector_full v = (int (vec_end v) = hxvector_capacity v)"

definition hxvector_new :: "hxsize_t \<Rightarrow> 'a hxvector" where
  "hxvector_new fixed = \<lparr>vec_alloc = hxallocator_new fixed False, vec_end = 0\<rparr>"

definition hxvector_reserve :: "'a hxvector \<Rightarrow> hxsize_t \<Rightarrow> 'a hxvector hx" where
  "hxvector_reserve v sz = hx_map (\<lambda>al. v\<lparr>vec_alloc := al, vec_end := 0\<rparr>) (reserve_storage sz (vec_alloc v))"

text \<open>The elements in the order of iteration, and writing them back after an algorithm on the range.\<close>

definition vec_values :: "'a hxvector \<Rightarrow> 'a list hx" where
  "vec_values v = read_slots (vec_data v) [0..<vec_end v]"

definition vec_update :: "'a hxvector \<Rightarrow> ('a list \<Rightarrow> 'a list hx) \<Rightarrow> 'a hxvector hx" where
  "vec_update v f =
     hx_bind (vec_values v) (\<lambda>xs. hx_bind (f xs) (\<lambda>ys. hx_map (\<lambda>m. vec_set v m (vec_end v)) (write_slots (vec_data v) 0 ys)))"

text \<open>An index is checked after a cast to \<open>size_t\<close>, so a negative one is out of range too.\<close>

definition index_in :: "hxsize_t \<Rightarrow> 'a hxvector \<Rightarrow> bool" where
  "index_in index v = ((word_of_int index :: size_t) < word_of_int (hxvector_size v))"

definition hxvector_at :: "'a hxvector \<Rightarrow> hxsize_t \<Rightarrow> 'a hx" where
  "hxvector_at v index =
     (if \<not> index_in index v then Inl (Assert_hard ''bad_index'') else read_slot (vec_data v) (nat index))"

definition hxvector_front :: "'a hxvector \<Rightarrow> 'a hx" where
  "hxvector_front v = (if hxvector_empty v then Inl (Assert_hard ''bad_ref'') else read_slot (vec_data v) 0)"

definition hxvector_back :: "'a hxvector \<Rightarrow> 'a hx" where
  "hxvector_back v = (if hxvector_empty v then Inl (Assert_hard ''bad_ref'') else read_slot (vec_data v) (vec_end v - 1))"

definition push_back_unconstructed :: "'a hxvector \<Rightarrow> (nat \<times> 'a hxvector) hx" where
  "push_back_unconstructed v =
     (if hxvector_full v then Inl (Assert_hard ''stack_full'') else Inr (vec_end v, v\<lparr>vec_end := vec_end v + 1\<rparr>))"

definition hxvector_push_back :: "'a hxvector \<Rightarrow> 'a \<Rightarrow> 'a hxvector hx" where
  "hxvector_push_back v x =
     (if hxvector_full v then Inl (Assert_hard ''stack_full'')
      else hx_map (\<lambda>m. vec_set v m (vec_end v + 1)) (construct_slot (vec_data v) (vec_end v) x))"

definition hxvector_emplace_back :: "'a hxvector \<Rightarrow> ('b \<Rightarrow> 'a) \<Rightarrow> 'b \<Rightarrow> 'a hxvector hx" where
  "hxvector_emplace_back v constructor args =
     (if hxvector_full v then Inl (Assert_hard ''stack_full'')
      else hx_map (\<lambda>m. vec_set v m (vec_end v + 1)) (construct_slot (vec_data v) (vec_end v) (constructor args)))"

text \<open>\<open>operator+=\<close> of one element and of another vector.\<close>

definition hxvector_append :: "'a hxvector \<Rightarrow> 'a \<Rightarrow> 'a hxvector hx" where
  "hxvector_append v x =
     hx_bind (push_back_unconstructed v) (\<lambda>(p, v1). hx_map (\<lambda>m. vec_set v1 m (vec_end v1)) (construct_slot (vec_data v1) p x))"

definition hxvector_append_vector :: "'a hxvector \<Rightarrow> 'a hxvector \<Rightarrow> 'a hxvector hx" where
  "hxvector_append_vector v x =
     (if \<not> hxvector_size v + hxvector_size x \<le> hxvector_capacity v then Inl (Assert_hard ''stack_full'')
      else hx_bind (vec_values x) (\<lambda>xs.
           hx_map (\<lambda>m. vec_set v m (vec_end v + length xs)) (construct_slots (vec_data v) (vec_end v) xs)))"

definition hxvector_add_range :: "'a hxvector \<Rightarrow> 'a list \<Rightarrow> 'a hxvector hx" where
  "hxvector_add_range v xs = push_range hxvector_push_back v xs"

definition hxvector_copy_if :: "'a hxvector \<Rightarrow> 'a list \<Rightarrow> ('a \<Rightarrow> bool) \<Rightarrow> 'a hxvector hx" where
  "hxvector_copy_if v xs callable = push_range hxvector_push_back v (filter callable xs)"

definition hxvector_pop_back :: "'a hxvector \<Rightarrow> 'a hxvector hx" where
  "hxvector_pop_back v =
     (if hxvector_empty v then Inl (Assert_hard ''stack_empty'')
      else hx_map (\<lambda>m. vec_set v m (vec_end v - 1)) (destroy_slot (vec_data v) (vec_end v - 1)))"

definition hxvector_clear :: "'a hxvector \<Rightarrow> 'a hxvector hx" where
  "hxvector_clear v = hx_map (\<lambda>m. vec_set v m 0) (destruct_slots (vec_data v) [0..<vec_end v])"

definition hxvector_assign :: "'a hxvector \<Rightarrow> 'a list \<Rightarrow> 'a hxvector hx" where
  "hxvector_assign v xs =
     (let sz = int (length xs)
      in hx_bind (if hxvector_capacity v = 0 then hxvector_reserve v sz else Inr v) (\<lambda>v1.
         if \<not> sz \<le> hxvector_capacity v1 then Inl (Assert_hard ''stack_full'')
         else hx_bind (destruct_slots (vec_data v1) [0..<vec_end v1]) (\<lambda>m.
              hx_map (\<lambda>m1. vec_set v1 m1 (length xs)) (construct_slots m 0 xs))))"

text \<open>\<open>resize\<close>: the new elements are \<open>x\<close>, or, without an argument, default-initialized.\<close>

definition hxvector_resize :: "'a hxvector \<Rightarrow> hxsize_t \<Rightarrow> (nat \<Rightarrow> 'a) \<Rightarrow> 'a hxvector hx" where
  "hxvector_resize v sz fresh =
     (let previous = vec_end v
      in hx_bind (if hxvector_capacity v = 0 then hx_map (\<lambda>al. v\<lparr>vec_alloc := al\<rparr>) (reserve_storage sz (vec_alloc v)) else Inr v) (\<lambda>v1.
         if \<not> sz \<le> hxvector_capacity v1 then Inl (Assert_hard ''stack_full'')
         else if sz < 0 then Inl (Undefined_behavior ''pointer before the array'')
         else hx_bind (construct_slots (vec_data v1) previous (map fresh [previous..<nat sz])) (\<lambda>m.
              hx_map (\<lambda>m1. vec_set v1 m1 (nat sz)) (destruct_slots m [nat sz..<max previous (nat sz)]))))"

definition hxvector_of_size :: "hxsize_t \<Rightarrow> hxsize_t \<Rightarrow> (nat \<Rightarrow> 'a) \<Rightarrow> 'a hxvector hx" where
  "hxvector_of_size fixed sz fresh = hxvector_resize (hxvector_new fixed) sz fresh"

definition hxvector_of_list :: "hxsize_t \<Rightarrow> 'a list \<Rightarrow> 'a hxvector hx" where
  "hxvector_of_list fixed xs = hxvector_assign (hxvector_new fixed) xs"

definition hxvector_copy :: "hxsize_t \<Rightarrow> 'a hxvector \<Rightarrow> 'a hxvector hx" where
  "hxvector_copy fixed x = hx_bind (vec_values x) (hxvector_assign (hxvector_new fixed))"

definition hxvector_copy_assign :: "'a hxvector \<Rightarrow> 'a hxvector \<Rightarrow> 'a hxvector hx" where
  "hxvector_copy_assign v x = hx_bind (vec_values x) (hxvector_assign v)"

text \<open>Moving takes the storage and leaves zeroes, an empty dynamic vector.\<close>

definition hxvector_move :: "'a hxvector \<Rightarrow> 'a hxvector \<times> 'a hxvector" where
  "hxvector_move x = (x, hxvector_new hxallocator_dynamic_capacity)"

definition hxvector_swap :: "'a hxvector \<Rightarrow> 'a hxvector \<Rightarrow> 'a hxvector \<times> 'a hxvector" where
  "hxvector_swap v x = (x, v)"

function erase_shift :: "('a \<Rightarrow> 'a) \<Rightarrow> 'a option list \<Rightarrow> nat \<Rightarrow> nat \<Rightarrow> 'a option list hx" where
  "erase_shift moved m it e =
     (if it < e then hx_bind (move_slot moved m (it + 1) it) (\<lambda>m1. erase_shift moved m1 (it + 1) e) else Inr m)"
  by pat_completeness auto
termination by (relation "measure (\<lambda>(moved, m, it, e). e - it)") auto

declare erase_shift.simps [simp del]

definition hxvector_erase_it :: "('a \<Rightarrow> 'a) \<Rightarrow> 'a hxvector \<Rightarrow> hxsize_t \<Rightarrow> 'a hxvector hx" where
  "hxvector_erase_it moved v it =
     (if \<not> (0 \<le> it \<and> it < int (vec_end v)) then Inl (Assert_hard ''bad_iter'')
      else let e = vec_end v - 1
           in hx_bind (erase_shift moved (vec_data v) (nat it) e) (\<lambda>m.
              hx_map (\<lambda>m1. vec_set v m1 e) (destroy_slot m e)))"

definition hxvector_erase :: "('a \<Rightarrow> 'a) \<Rightarrow> 'a hxvector \<Rightarrow> hxsize_t \<Rightarrow> 'a hxvector hx" where
  "hxvector_erase moved v index =
     (if \<not> index_in index v then Inl (Assert_hard ''bad_index'') else hxvector_erase_it moved v index)"

fun erase_if_loop :: "('a \<Rightarrow> 'a) \<Rightarrow> ('a \<Rightarrow> bool) \<Rightarrow> 'a option list \<Rightarrow> nat \<Rightarrow> nat \<Rightarrow> hxsize_t \<Rightarrow> ('a option list \<times> nat \<times> hxsize_t) hx" where
  "erase_if_loop moved callable m e 0 removed = Inr (m, e, removed)"
| "erase_if_loop moved callable m e (Suc it) removed =
     hx_bind (read_slot m it) (\<lambda>x.
       if callable x
       then hx_bind (if it \<noteq> e - 1 then move_slot moved m (e - 1) it else Inr m) (\<lambda>m1.
            hx_bind (destroy_slot m1 (e - 1)) (\<lambda>m2. erase_if_loop moved callable m2 (e - 1) it (removed + 1)))
       else erase_if_loop moved callable m e it removed)"

definition hxvector_erase_if_unordered :: "('a \<Rightarrow> 'a) \<Rightarrow> 'a hxvector \<Rightarrow> ('a \<Rightarrow> bool) \<Rightarrow> ('a hxvector \<times> hxsize_t) hx" where
  "hxvector_erase_if_unordered moved v callable =
     hx_map (\<lambda>(m, e, removed). (vec_set v m e, removed)) (erase_if_loop moved callable (vec_data v) (vec_end v) (vec_end v) 0)"

definition hxvector_erase_unordered_it :: "('a \<Rightarrow> 'a) \<Rightarrow> 'a hxvector \<Rightarrow> hxsize_t \<Rightarrow> 'a hxvector hx" where
  "hxvector_erase_unordered_it moved v it =
     (if \<not> (0 \<le> it \<and> it \<le> int (vec_end v) - 1) then Inl (Assert_hard ''bad_iter'')
      else let e = vec_end v - 1
           in hx_bind (if nat it \<noteq> e then move_slot moved (vec_data v) e (nat it) else Inr (vec_data v)) (\<lambda>m.
              hx_map (\<lambda>m1. vec_set v m1 e) (destroy_slot m e)))"

definition hxvector_erase_unordered :: "('a \<Rightarrow> 'a) \<Rightarrow> 'a hxvector \<Rightarrow> hxsize_t \<Rightarrow> 'a hxvector hx" where
  "hxvector_erase_unordered moved v index =
     (if \<not> index_in index v then Inl (Assert_hard ''bad_index'') else hxvector_erase_unordered_it moved v index)"

text \<open>\<open>while(it_ < --pos_) *pos_ = move(pos_[-1])\<close>.\<close>

fun insert_shift :: "('a \<Rightarrow> 'a) \<Rightarrow> 'a option list \<Rightarrow> nat \<Rightarrow> nat \<Rightarrow> ('a option list \<times> nat) hx" where
  "insert_shift moved m it 0 = Inl (Undefined_behavior ''pointer before the array'')"
| "insert_shift moved m it (Suc pos) =
     (if it < pos then hx_bind (move_slot moved m (pos - 1) pos) (\<lambda>m1. insert_shift moved m1 it pos) else Inr (m, pos))"

definition hxvector_insert_it :: "('a \<Rightarrow> 'a) \<Rightarrow> 'a hxvector \<Rightarrow> hxsize_t \<Rightarrow> 'a \<Rightarrow> 'a hxvector hx" where
  "hxvector_insert_it moved v it x =
     (if \<not> (0 \<le> it \<and> it \<le> int (vec_end v)) then Inl (Assert_hard ''bad_insert'')
      else if it = int (vec_end v) then hxvector_append v x
      else hx_bind (push_back_unconstructed v) (\<lambda>(pos, v1).
           hx_bind (read_slot (vec_data v1) (pos - 1)) (\<lambda>y.
           hx_bind (assign_slot (vec_data v1) (pos - 1) (moved y)) (\<lambda>m1.
           hx_bind (construct_slot m1 pos y) (\<lambda>m2.
           hx_bind (insert_shift moved m2 (nat it) pos) (\<lambda>(m3, pos3).
           hx_map (\<lambda>m4. vec_set v1 m4 (vec_end v1)) (assign_slot m3 pos3 x)))))))"

definition hxvector_insert :: "('a \<Rightarrow> 'a) \<Rightarrow> 'a hxvector \<Rightarrow> hxsize_t \<Rightarrow> 'a \<Rightarrow> 'a hxvector hx" where
  "hxvector_insert moved v index x =
     (if \<not> (word_of_int index :: size_t) \<le> word_of_int (hxvector_size v) then Inl (Assert_hard ''bad_index'')
      else hxvector_insert_it moved v index x)"

text \<open>The callable of \<open>generate_n\<close> has a state. A negative count never reaches zero.\<close>

fun generate_list :: "('s \<Rightarrow> 'a \<times> 's) \<Rightarrow> 's \<Rightarrow> nat \<Rightarrow> 'a list \<times> 's" where
  "generate_list callable s 0 = ([], s)"
| "generate_list callable s (Suc n) =
     (let (x, s1) = callable s; (xs, s2) = generate_list callable s1 n in (x # xs, s2))"

definition hxvector_generate_n :: "'a hxvector \<Rightarrow> hxsize_t \<Rightarrow> ('s \<Rightarrow> 'a \<times> 's) \<Rightarrow> 's \<Rightarrow> ('a hxvector \<times> 's) hx" where
  "hxvector_generate_n v sz callable s =
     (if \<not> hxvector_size v + sz \<le> hxvector_capacity v then Inl (Assert_hard ''stack_full'')
      else if sz < 0 then Inl (Undefined_behavior ''out of bounds'')
      else let (xs, s1) = generate_list callable s (nat sz)
           in hx_map (\<lambda>m. (vec_set v m (vec_end v + length xs), s1)) (construct_slots (vec_data v) (vec_end v) xs))"

fun hash_elements :: "('a \<Rightarrow> u32) \<Rightarrow> 'a list \<Rightarrow> u32 \<Rightarrow> u32" where
  "hash_elements hash_of [] h = h"
| "hash_elements hash_of (x # xs) h =
     (let h1 = h + hash_of x * hxhash_k5; h2 = (push_bit 11 h1 OR drop_bit 21 h1) * hxhash_k1
      in hash_elements hash_of xs h2)"

definition hxvector_hash :: "('a \<Rightarrow> u32) \<Rightarrow> 'a hxvector \<Rightarrow> u32 hx" where
  "hxvector_hash hash_of v = hx_map (\<lambda>xs. hxhash_avalanche (hash_elements hash_of xs hxhash_k5)) (vec_values v)"

section \<open>Searching, sorting and visiting\<close>

definition hxvector_all_of :: "('a \<Rightarrow> bool) \<Rightarrow> 'a hxvector \<Rightarrow> bool hx" where
  "hxvector_all_of callable v = hx_map (hxall_of callable) (vec_values v)"

definition hxvector_any_of :: "('a \<Rightarrow> bool) \<Rightarrow> 'a hxvector \<Rightarrow> bool hx" where
  "hxvector_any_of callable v = hx_map (hxany_of callable) (vec_values v)"

definition hxvector_find_if :: "('a \<Rightarrow> bool) \<Rightarrow> 'a hxvector \<Rightarrow> nat hx" where
  "hxvector_find_if callable v = hx_map (hxfind_if callable) (vec_values v)"

definition hxvector_find :: "('a \<Rightarrow> 'a \<Rightarrow> bool) \<Rightarrow> 'a hxvector \<Rightarrow> 'a \<Rightarrow> nat hx" where
  "hxvector_find equal v value = hxvector_find_if (\<lambda>x. equal x value) v"

definition hxvector_for_each :: "('s \<Rightarrow> 'a \<Rightarrow> 's \<times> 'a) \<Rightarrow> 's \<Rightarrow> 'a hxvector \<Rightarrow> ('s \<times> 'a hxvector) hx" where
  "hxvector_for_each callable s v =
     hx_bind (vec_values v) (\<lambda>xs. let (s1, ys) = hxfor_each callable s xs
       in hx_map (\<lambda>m. (s1, vec_set v m (vec_end v))) (write_slots (vec_data v) 0 ys))"

definition hxvector_equal :: "('a \<Rightarrow> 'a \<Rightarrow> bool) \<Rightarrow> 'a hxvector \<Rightarrow> 'a hxvector \<Rightarrow> bool hx" where
  "hxvector_equal equal v x = hx_bind (vec_values v) (\<lambda>xs. hx_map (hxequal_range equal xs) (vec_values x))"

definition hxvector_less :: "('a \<Rightarrow> 'a \<Rightarrow> bool) \<Rightarrow> ('a \<Rightarrow> 'a \<Rightarrow> bool) \<Rightarrow> 'a hxvector \<Rightarrow> 'a hxvector \<Rightarrow> bool hx" where
  "hxvector_less equal lt v x = hx_bind (vec_values v) (\<lambda>xs. hx_map (hxless_range equal lt xs) (vec_values x))"

definition hxvector_sort :: "('a \<Rightarrow> 'a \<Rightarrow> bool) \<Rightarrow> 'a hxvector \<Rightarrow> 'a hxvector hx" where
  "hxvector_sort lt v = vec_update v (\<lambda>xs. hxsort lt xs 0 (vec_end v))"

definition hxvector_insertion_sort :: "('a \<Rightarrow> 'a \<Rightarrow> bool) \<Rightarrow> 'a hxvector \<Rightarrow> 'a hxvector hx" where
  "hxvector_insertion_sort lt v = vec_update v (\<lambda>xs. Inr (hxinsertion_sort lt xs 0 (vec_end v)))"

definition hxvector_make_heap :: "('a \<Rightarrow> 'a \<Rightarrow> bool) \<Rightarrow> 'a hxvector \<Rightarrow> 'a hxvector hx" where
  "hxvector_make_heap lt v = vec_update v (\<lambda>xs. Inr (hxmake_heap lt xs 0 (vec_end v)))"

definition hxvector_pop_heap :: "('a \<Rightarrow> 'a \<Rightarrow> bool) \<Rightarrow> 'a hxvector \<Rightarrow> 'a hxvector hx" where
  "hxvector_pop_heap lt v =
     (if hxvector_empty v then Inl (Assert_hard ''stack_empty'')
      else let e = vec_end v - 1; v1 = v\<lparr>vec_end := e\<rparr>
           in if e = 0 then hx_map (\<lambda>m. vec_set v1 m e) (destroy_slot (vec_data v1) 0)
              else hx_bind (read_slot (vec_data v1) e) (\<lambda>value.
                   hx_bind (destroy_slot (vec_data v1) e) (\<lambda>m.
                   vec_update (vec_set v1 m e) (\<lambda>xs. Inr (hxheapsort_heapify lt xs 0 0 e value)))))"

text \<open>The second part of \<open>push_heap\<close>: the hole at \<open>node\<close> moves up while the parent is smaller.\<close>

function push_heap_loop :: "('a \<Rightarrow> 'a \<Rightarrow> bool) \<Rightarrow> ('a \<Rightarrow> 'a) \<Rightarrow> 'a option list \<Rightarrow> nat \<Rightarrow> 'a \<Rightarrow> 'a option list hx" where
  "push_heap_loop lt moved m index arg =
     (if index \<noteq> 0
      then let parent = (index - 1) div 2
           in hx_bind (read_slot m parent) (\<lambda>p.
              if \<not> lt p arg then assign_slot m index arg
              else hx_bind (move_slot moved m parent index) (\<lambda>m1. push_heap_loop lt moved m1 parent arg))
      else assign_slot m index arg)"
  by pat_completeness auto
termination by (relation "measure (\<lambda>(lt, moved, m, index, arg). index)") auto

declare push_heap_loop.simps [simp del]

definition hxvector_push_heap :: "('a \<Rightarrow> 'a \<Rightarrow> bool) \<Rightarrow> ('a \<Rightarrow> 'a) \<Rightarrow> 'a hxvector \<Rightarrow> 'a \<Rightarrow> 'a hxvector hx" where
  "hxvector_push_heap lt moved v arg =
     hx_bind (push_back_unconstructed v) (\<lambda>(node, v1). let m = vec_data v1 in
       if node = 0 then hx_map (\<lambda>m1. vec_set v1 m1 (vec_end v1)) (construct_slot m node arg)
       else let parent = (node - 1) div 2
            in hx_bind (read_slot m parent) (\<lambda>p.
               if \<not> lt p arg then hx_map (\<lambda>m1. vec_set v1 m1 (vec_end v1)) (construct_slot m node arg)
               else hx_bind (assign_slot m parent (moved p)) (\<lambda>m1.
                    hx_bind (construct_slot m1 node p) (\<lambda>m2.
                    hx_map (\<lambda>m3. vec_set v1 m3 (vec_end v1)) (push_heap_loop lt moved m2 parent arg)))))"

definition hxvector_search :: "('a \<Rightarrow> 'a \<Rightarrow> bool) \<Rightarrow> 'a hxvector \<Rightarrow> 'a \<Rightarrow> nat hx" where
  "hxvector_search lt v value = hx_map (\<lambda>xs. hxsearch lt xs value) (vec_values v)"

text \<open>The lookups of C++23, by index.\<close>

definition hxvector_and_then :: "'a hxvector \<Rightarrow> hxsize_t \<Rightarrow> ('a \<Rightarrow> 'r option) \<Rightarrow> 'r option hx" where
  "hxvector_and_then v index callable =
     (if index_in index v then hx_map callable (read_slot (vec_data v) (nat index)) else Inr None)"

definition hxvector_or_else :: "'a hxvector \<Rightarrow> hxsize_t \<Rightarrow> nat \<Rightarrow> nat" where
  "hxvector_or_else v index alternative = (if index_in index v then nat index else alternative)"

definition hxvector_value_or :: "'a hxvector \<Rightarrow> hxsize_t \<Rightarrow> 'a \<Rightarrow> 'a hx" where
  "hxvector_value_or v index alternative =
     (if index_in index v then read_slot (vec_data v) (nat index) else Inr alternative)"

section \<open>Live storage\<close>

lemma move_slot_live:
  "src < length xs \<Longrightarrow> dst < length xs \<Longrightarrow> length xs \<le> c \<Longrightarrow>
   move_slot moved (live_prefix xs c) src dst = Inr (live_prefix (xs[src := moved (xs ! src), dst := xs ! src]) c)"
  by (simp add: move_slot_def read_slot_live assign_slot_live)

lemmas live_slots = read_slot_live assign_slot_live construct_slot_live destroy_slot_live move_slot_live

lemma read_slots_live:
  "k \<le> length xs \<Longrightarrow> length xs \<le> c \<Longrightarrow> read_slots (live_prefix xs c) [length xs - k..<length xs] = Inr (drop (length xs - k) xs)"
proof (induction k)
  case (Suc k)
  let ?i = "length xs - Suc k"
  have "?i < length xs" using Suc.prems by simp
  moreover have suc: "Suc ?i = length xs - k" using Suc.prems by simp
  moreover have "[?i..<length xs] = ?i # [length xs - k..<length xs]"
    using upt_conv_Cons [OF \<open>?i < length xs\<close>] unfolding suc .
  moreover have "drop ?i xs = xs ! ?i # drop (length xs - k) xs"
    using Cons_nth_drop_Suc [OF \<open>?i < length xs\<close>] unfolding suc by simp
  ultimately show ?case using Suc by (simp add: read_slot_live)
qed simp

lemma read_all_live: "length xs \<le> c \<Longrightarrow> read_slots (live_prefix xs c) [0..<length xs] = Inr xs"
  using read_slots_live [of "length xs" xs c] by simp

lemma write_slots_live:
  "i + length ys \<le> length xs \<Longrightarrow> length xs \<le> c \<Longrightarrow>
   write_slots (live_prefix xs c) i ys = Inr (live_prefix (take i xs @ ys @ drop (i + length ys) xs) c)"
proof (induction ys arbitrary: i xs)
  case (Cons y ys)
  then show ?case
    using Cons.IH [of "i + 1" "xs[i := y]"] by (simp add: assign_slot_live take_Suc_conv_app_nth)
qed simp

lemma write_all_live: "length ys = length xs \<Longrightarrow> length xs \<le> c \<Longrightarrow> write_slots (live_prefix xs c) 0 ys = Inr (live_prefix ys c)"
  using write_slots_live [of 0 ys xs c] by simp

lemma construct_slots_live:
  "length xs + length ys \<le> c \<Longrightarrow> construct_slots (live_prefix xs c) (length xs) ys = Inr (live_prefix (xs @ ys) c)"
proof (induction ys arbitrary: xs)
  case (Cons y ys)
  then show ?case using Cons.IH [of "xs @ [y]"] by (simp add: construct_slot_live)
qed simp

lemma destruct_slots_range:
  "(\<And>i. a \<le> i \<Longrightarrow> i < b \<Longrightarrow> i < length m \<and> m ! i \<noteq> None) \<Longrightarrow> a \<le> b \<Longrightarrow> b \<le> length m \<Longrightarrow>
   destruct_slots m [a..<b] = Inr (take a m @ replicate (b - a) None @ drop b m)"
proof (induction "b - a" arbitrary: a m)
  case (Suc n)
  then have ab: "a < b" "[a..<b] = a # [a + 1..<b]" by (auto simp: upt_conv_Cons)
  obtain x where x: "a < length m" "m ! a = Some x" using Suc.prems(1) [of a] ab by auto
  have "destruct_slots (m[a := None]) [a + 1..<b] =
      Inr (take (a + 1) (m[a := None]) @ replicate (b - (a + 1)) None @ drop b (m[a := None]))"
    using Suc.hyps(2) Suc.prems ab by (intro Suc.hyps(1)) (auto simp: nth_list_update)
  moreover have "take (a + 1) (m[a := None]) @ replicate (b - (a + 1)) None = take a m @ replicate (b - a) None"
    using x ab by (simp add: take_Suc_conv_app_nth Suc_diff_Suc flip: replicate_Suc)
  ultimately show ?case using x ab by (simp add: slot_simps flip: append_assoc)
qed simp

lemma destruct_slots_live:
  assumes "k \<le> length xs" and "length xs \<le> c"
  shows "destruct_slots (live_prefix xs c) [k..<length xs] = Inr (live_prefix (take k xs) c)"
proof -
  have "destruct_slots (live_prefix xs c) [k..<length xs] =
      Inr (take k (live_prefix xs c) @ replicate (length xs - k) None @ drop (length xs) (live_prefix xs c))"
    using assms by (intro destruct_slots_range) auto
  also have "take k (live_prefix xs c) @ replicate (length xs - k) None @ drop (length xs) (live_prefix xs c) = live_prefix (take k xs) c"
    using assms by (simp add: live_prefix_def take_map flip: replicate_add)
  finally show ?thesis .
qed

section \<open>The abstraction\<close>

abbreviation vec_room :: "'a hxvector \<Rightarrow> nat" where
  "vec_room v \<equiv> nat (hxvector_capacity v)"

definition vec_rel :: "'a hxvector \<Rightarrow> 'a list \<Rightarrow> bool" where
  "vec_rel v xs \<longleftrightarrow> allocator_ok (vec_alloc v) \<and> \<not> al_pow2 (vec_alloc v) \<and> vec_end v = length xs \<and>
     length xs \<le> vec_room v \<and> vec_data v = live_prefix xs (vec_room v)"

lemma vec_relD:
  assumes "vec_rel v xs"
  shows "vec_end v = length xs" and "length xs \<le> vec_room v" and "vec_data v = live_prefix xs (vec_room v)"
    and "0 \<le> hxvector_capacity v" and "allocator_ok (vec_alloc v)" and "\<not> al_pow2 (vec_alloc v)"
  using assms by (auto simp: vec_rel_def allocator_ok_def hxvector_capacity_def)

lemma vec_set_rel:
  assumes "vec_rel v xs" and "length ys \<le> vec_room v"
  shows "vec_rel (vec_set v (live_prefix ys (vec_room v)) (length ys)) ys" and "vec_room (vec_set v m e) = vec_room v"
proof -
  show "vec_room (vec_set v m e) = vec_room v" for m e by (simp add: vec_set_def hxvector_capacity_def)
  have "length (vec_data v) = vec_room v" using vec_relD [OF assms(1)] by simp
  then show "vec_rel (vec_set v (live_prefix ys (vec_room v)) (length ys)) ys"
    using assms by (auto simp: vec_rel_def vec_set_def allocator_ok_def hxvector_capacity_def)
qed

lemma vec_values_rel: "vec_rel v xs \<Longrightarrow> vec_values v = Inr xs"
  using vec_relD(1,2,3) [of v xs] by (simp add: vec_values_def read_all_live)

lemma hxvector_full_rel: "vec_rel v xs \<Longrightarrow> hxvector_full v \<longleftrightarrow> length xs = vec_room v"
  using vec_relD(1,4) [of v xs] by (auto simp: hxvector_full_def)

lemma hxvector_empty_rel: "vec_rel v xs \<Longrightarrow> hxvector_empty v \<longleftrightarrow> xs = []"
  by (simp add: hxvector_empty_def vec_relD(1))

text \<open>A result that holds a list in the same storage.\<close>

definition vec_holds :: "'a hxvector \<Rightarrow> 'a hxvector hx \<Rightarrow> 'a list \<Rightarrow> bool" where
  "vec_holds v r ys \<longleftrightarrow> (\<exists>v'. r = Inr v' \<and> vec_rel v' ys \<and> vec_room v' = vec_room v)"

lemma vec_holdsI:
  assumes "vec_rel v xs" and "length ys \<le> vec_room v" and "r = Inr (vec_set v (live_prefix ys (vec_room v)) (length ys))"
  shows "vec_holds v r ys"
  using vec_set_rel [OF assms(1,2)] assms(3) by (auto simp: vec_holds_def)

lemma vec_empty_new: "0 \<le> fixed \<Longrightarrow> vec_rel (hxvector_new fixed) []"
  using allocator_new_ok [of fixed False]
  by (auto simp: vec_rel_def hxvector_new_def hxallocator_new_def hxvector_capacity_def live_prefix_def element_count_def hxallocator_dynamic_capacity_def)

lemma hxvector_push_back_rel:
  assumes "vec_rel v xs"
  shows "length xs < vec_room v \<Longrightarrow> vec_holds v (hxvector_push_back v x) (xs @ [x])"
    and "vec_room v \<le> length xs \<Longrightarrow> hxvector_push_back v x = Inl (Assert_hard ''stack_full'')"
proof -
  assume "length xs < vec_room v"
  then show "vec_holds v (hxvector_push_back v x) (xs @ [x])"
    using vec_relD [OF assms] by (intro vec_holdsI [OF assms]) (simp_all add: hxvector_push_back_def hxvector_full_rel [OF assms] construct_slot_live)
next
  assume "vec_room v \<le> length xs"
  then show "hxvector_push_back v x = Inl (Assert_hard ''stack_full'')"
    using vec_relD(2) [OF assms] by (simp add: hxvector_push_back_def hxvector_full_rel [OF assms])
qed

interpretation vec: back_inserter hxvector_push_back vec_rel vec_room
proof
  fix v :: "'a hxvector" and xs x
  assume rel: "vec_rel v xs"
  show "length xs < vec_room v \<Longrightarrow> \<exists>v'. hxvector_push_back v x = Inr v' \<and> vec_rel v' (xs @ [x]) \<and> vec_room v' = vec_room v"
    using hxvector_push_back_rel(1) [OF rel] by (auto simp: vec_holds_def)
  show "vec_room v \<le> length xs \<Longrightarrow> \<not> hx_ok (hxvector_push_back v x)"
    by (simp add: hxvector_push_back_rel(2) [OF rel])
  show "length xs \<le> vec_room v" by (rule vec_relD(2) [OF rel])
qed

section \<open>Operations on lists\<close>

text \<open>A signed size seen as \<open>size_t\<close>: a negative one is larger than every size there is.\<close>

lemma uint_size_t:
  assumes "- (2 ^ 63) \<le> i" and "i < 2 ^ 63"
  shows "uint (word_of_int i :: size_t) = (if 0 \<le> i then i else i + 2 ^ 64)"
proof (cases "0 \<le> i")
  case True
  then show ?thesis using assms by (simp add: uint_word_of_int)
next
  case False
  have "i mod 2 ^ 64 = (i + 2 ^ 64) mod 2 ^ 64" by simp
  also have "\<dots> = i + 2 ^ 64" using False assms(1) by (intro mod_pos_pos_trivial) auto
  finally show ?thesis using False by (simp add: uint_word_of_int)
qed

lemma size_t_compare:
  assumes "int n < 2 ^ 63" and "- (2 ^ 63) \<le> i" and "i < 2 ^ 63"
  shows "(word_of_int i :: size_t) < word_of_int (int n) \<longleftrightarrow> 0 \<le> i \<and> i < int n"
    and "(word_of_int i :: size_t) \<le> word_of_int (int n) \<longleftrightarrow> 0 \<le> i \<and> i \<le> int n"
proof -
  have "- (2 ^ 63) \<le> int n" by (rule order_trans [of _ 0]) simp_all
  then have "uint (word_of_int (int n) :: size_t) = int n" using assms(1) by (subst uint_size_t) simp_all
  moreover have "\<not> 0 \<le> i \<Longrightarrow> int n < i + 2 ^ 64" using assms(1,2) by simp
  ultimately show "(word_of_int i :: size_t) < word_of_int (int n) \<longleftrightarrow> 0 \<le> i \<and> i < int n"
    "(word_of_int i :: size_t) \<le> word_of_int (int n) \<longleftrightarrow> 0 \<le> i \<and> i \<le> int n"
    unfolding word_less_def word_le_def uint_size_t [OF assms(2,3)] by auto
qed

lemma index_in_rel:
  assumes "vec_rel v xs" and "length xs < 2 ^ 63" and "- (2 ^ 63) \<le> index" and "index < 2 ^ 63"
  shows "index_in index v \<longleftrightarrow> 0 \<le> index \<and> index < int (length xs)"
  unfolding index_in_def hxvector_size_def vec_relD(1) [OF assms(1)]
  using assms(2) by (intro size_t_compare(1) [OF _ assms(3,4)]) (simp flip: of_nat_less_numeral_iff)

lemma index_upto_rel:
  assumes "vec_rel v xs" and "length xs < 2 ^ 63" and "- (2 ^ 63) \<le> index" and "index < 2 ^ 63"
  shows "(word_of_int index :: size_t) \<le> word_of_int (hxvector_size v) \<longleftrightarrow> 0 \<le> index \<and> index \<le> int (length xs)"
  unfolding hxvector_size_def vec_relD(1) [OF assms(1)]
  using assms(2) by (intro size_t_compare(2) [OF _ assms(3,4)]) (simp flip: of_nat_less_numeral_iff)

lemma hxvector_append_push: "hxvector_append v x = hxvector_push_back v x"
  by (cases v) (auto simp: hxvector_append_def push_back_unconstructed_def hxvector_push_back_def vec_set_def)

lemma hxvector_pop_back_rel:
  assumes "vec_rel v xs"
  shows "if xs = [] then hxvector_pop_back v = Inl (Assert_hard ''stack_empty'') else vec_holds v (hxvector_pop_back v) (butlast xs)"
  using vec_relD [OF assms] destroy_slot_live [of xs "vec_room v"]
  by (auto simp: hxvector_pop_back_def hxvector_empty_rel [OF assms] intro!: vec_holdsI [OF assms])

lemma hxvector_clear_rel: "vec_rel v xs \<Longrightarrow> vec_holds v (hxvector_clear v) []"
  using vec_relD [of v xs] destruct_slots_live [of 0 xs "vec_room v"]
  by (auto simp: hxvector_clear_def intro!: vec_holdsI [of v xs])

lemma erase_shift_live:
  "it < length xs \<Longrightarrow> length xs \<le> c \<Longrightarrow>
   \<exists>j. erase_shift moved (live_prefix xs c) it (length xs - 1) = Inr (live_prefix (take it xs @ drop (it + 1) xs @ [j]) c)"
proof (induction "length xs - it" arbitrary: it xs)
  case (Suc n)
  show ?case
  proof (cases "it < length xs - 1")
    case False
    then have "it = length xs - 1" using Suc.prems by simp
    moreover have "xs = take (length xs - 1) xs @ [last xs]" using Suc.prems by (cases xs rule: rev_cases) auto
    ultimately show ?thesis using Suc.prems by (subst erase_shift.simps) (auto intro: exI [of _ "last xs"])
  next
    case True
    let ?ys = "xs[it + 1 := moved (xs ! (it + 1)), it := xs ! (it + 1)]"
    obtain j where "erase_shift moved (live_prefix ?ys c) (it + 1) (length ?ys - 1) =
        Inr (live_prefix (take (it + 1) ?ys @ drop (it + 1 + 1) ?ys @ [j]) c)"
    proof -
      have "n = length ?ys - (it + 1)" "it + 1 < length ?ys" "length ?ys \<le> c" using Suc.hyps(2) Suc.prems True by auto
      then show ?thesis using Suc.hyps(1) that by blast
    qed
    moreover have "take (it + 1) ?ys = take it xs @ [xs ! (it + 1)]" "drop (it + 1 + 1) ?ys = drop (it + 1 + 1) xs"
      using True by (auto simp: take_Suc_conv_app_nth)
    moreover have "drop (it + 1) xs = xs ! (it + 1) # drop (it + 1 + 1) xs"
      using True Cons_nth_drop_Suc [of "it + 1" xs] by simp
    ultimately show ?thesis
      using True Suc.prems by (subst erase_shift.simps) (auto simp: move_slot_live)
  qed
qed simp

lemma hxvector_erase_it_rel:
  assumes "vec_rel v xs" and "i < length xs"
  shows "vec_holds v (hxvector_erase_it moved v (int i)) (take i xs @ drop (Suc i) xs)"
proof -
  note v = vec_relD [OF assms(1)]
  obtain j where "erase_shift moved (vec_data v) i (length xs - 1) = Inr (live_prefix ((take i xs @ drop (Suc i) xs) @ [j]) (vec_room v))"
    using erase_shift_live [of i xs "vec_room v" moved] assms(2) v by auto
  moreover have "destroy_slot (live_prefix ((take i xs @ drop (Suc i) xs) @ [j]) (vec_room v)) (length xs - 1) =
      Inr (live_prefix (take i xs @ drop (Suc i) xs) (vec_room v))"
    using destroy_slot_live [of "(take i xs @ drop (Suc i) xs) @ [j]" "vec_room v"] assms(2) v(2) by (simp add: butlast_append)
  ultimately show ?thesis
    using assms(2) v by (intro vec_holdsI [OF assms(1)]) (simp_all add: hxvector_erase_it_def)
qed

lemma mset_butlast_last: "zs \<noteq> [] \<Longrightarrow> mset zs = add_mset (last zs) (mset (butlast zs))"
  by (cases zs rule: rev_cases) auto

lemma hxvector_erase_unordered_it_rel:
  assumes "vec_rel v xs" and "i < length xs"
  shows "\<exists>ys. vec_holds v (hxvector_erase_unordered_it moved v (int i)) ys \<and> add_mset (xs ! i) (mset ys) = mset xs \<and>
    take i ys = take i xs \<and> ys = butlast (xs[i := last xs])"
proof -
  note v = vec_relD [OF assms(1)]
  let ?e = "length xs - 1"
  have last: "last xs = xs ! ?e" using assms(2) by (cases xs rule: rev_cases) auto
  let ?xs = "if i \<noteq> ?e then xs[?e := moved (xs ! ?e), i := xs ! ?e] else xs"
  have A: "(if i \<noteq> ?e then move_slot moved (vec_data v) ?e i else Inr (vec_data v)) = Inr (live_prefix ?xs (vec_room v))"
    using assms(2) v by (auto simp: move_slot_live)
  have B: "destroy_slot (live_prefix ?xs (vec_room v)) ?e = Inr (live_prefix (butlast ?xs) (vec_room v))"
  proof -
    have "?xs \<noteq> []" "length ?xs = length xs" using assms(2) by auto
    then show ?thesis using destroy_slot_live [of ?xs "vec_room v"] v(2) by metis
  qed
  have but: "butlast ?xs = butlast (xs[i := last xs])"
    using assms(2) last by (auto simp: butlast_list_update list_update_swap)
  have d: "hxvector_erase_unordered_it moved v (int i) =
      hx_bind (if i \<noteq> ?e then move_slot moved (vec_data v) ?e i else Inr (vec_data v)) (\<lambda>m. hx_map (\<lambda>m1. vec_set v m1 ?e) (destroy_slot m ?e))"
    using assms(2) v(1) by (simp add: hxvector_erase_unordered_it_def Let_def)
  have "hxvector_erase_unordered_it moved v (int i) = Inr (vec_set v (live_prefix (butlast (xs[i := last xs])) (vec_room v)) ?e)"
    by (simp only: d A B but hx_bind_simps hx_map_simps)
  then have holds: "vec_holds v (hxvector_erase_unordered_it moved v (int i)) (butlast (xs[i := last xs]))"
    using v(2) by (intro vec_holdsI [OF assms(1)]) simp_all
  have "mset xs = add_mset (xs ! i) (mset (butlast (xs[i := last xs])))"
  proof -
    have "xs \<noteq> []" using assms(2) by auto
    then have "mset (xs[i := last xs]) = add_mset (last (xs[i := last xs])) (mset (butlast (xs[i := last xs])))"
      by (intro mset_butlast_last) simp
    moreover have "last (xs[i := last xs]) = last xs" using \<open>xs \<noteq> []\<close> assms(2) by (simp add: last_list_update)
    moreover have "mset (xs[i := last xs]) = add_mset (last xs) (mset xs - {#xs ! i#})"
      using assms(2) by (simp add: mset_update)
    ultimately have "mset xs - {#xs ! i#} = mset (butlast (xs[i := last xs]))" by simp
    then show ?thesis using assms(2) by (metis insert_DiffM nth_mem_mset)
  qed
  moreover have "take i (butlast (xs[i := last xs])) = take i xs"
    using assms(2) by (simp add: butlast_conv_take)
  ultimately show ?thesis using holds by auto
qed

lemma insert_shift_live:
  "it < pos \<Longrightarrow> pos \<le> length ys \<Longrightarrow> length ys \<le> c \<Longrightarrow>
   \<exists>ys'. insert_shift moved (live_prefix ys c) it pos = Inr (live_prefix ys' c, it) \<and> length ys' = length ys \<and>
     ys'[it := x] = take it ys @ [x] @ take (pos - 1 - it) (drop it ys) @ drop pos ys"
proof (induction pos arbitrary: ys)
  case (Suc p)
  show ?case
  proof (cases "it < p")
    case False
    then have "it = p" using Suc.prems by simp
    then show ?thesis using Suc.prems by (auto simp: upd_conv_take_nth_drop)
  next
    case True
    let ?ys = "ys[p - 1 := moved (ys ! (p - 1)), p := ys ! (p - 1)]"
    obtain ys' where ys': "insert_shift moved (live_prefix ?ys c) it p = Inr (live_prefix ys' c, it)" "length ys' = length ys"
      "ys'[it := x] = take it ?ys @ [x] @ take (p - 1 - it) (drop it ?ys) @ drop p ?ys"
      using Suc.IH [of ?ys] True Suc.prems by auto
    have "take it ?ys = take it ys" using True by simp
    moreover have "take (p - 1 - it) (drop it ?ys) = take (p - 1 - it) (drop it ys)"
      using True by (simp add: drop_update_swap take_update_swap list_update_beyond)
    moreover have "drop p ?ys = ys ! (p - 1) # drop (Suc p) ys"
      using True Suc.prems Cons_nth_drop_Suc [of p ?ys] by simp
    moreover have "take (p - it) (drop it ys) = take (p - 1 - it) (drop it ys) @ [ys ! (p - 1)]"
    proof -
      have "p - it = Suc (p - 1 - it)" "drop it ys ! (p - 1 - it) = ys ! (p - 1)" "p - 1 - it < length (drop it ys)"
        using True Suc.prems by auto
      then show ?thesis using take_Suc_conv_app_nth by metis
    qed
    ultimately show ?thesis using ys' True Suc.prems by (auto simp: move_slot_live)
  qed
qed simp

lemma hxvector_insert_it_rel:
  assumes "vec_rel v xs" and "i \<le> length xs" and "length xs < vec_room v"
  shows "vec_holds v (hxvector_insert_it moved v (int i) x) (take i xs @ x # drop i xs)"
proof (cases "i = length xs")
  case True
  then show ?thesis
    using vec_relD(1) [OF assms(1)] hxvector_push_back_rel(1) [OF assms(1,3), of x]
    by (simp add: hxvector_insert_it_def hxvector_append_push)
next
  case False
  note v = vec_relD [OF assms(1)]
  let ?n = "length xs" and ?c = "vec_room v"
  have n: "0 < ?n" "i < ?n" using False assms(2) by auto
  let ?y = "xs ! (?n - 1)"
  let ?ys = "xs[?n - 1 := moved ?y] @ [?y]"
  have m2: "construct_slot (live_prefix (xs[?n - 1 := moved ?y]) ?c) ?n ?y = Inr (live_prefix ?ys ?c)"
    using construct_slot_live [of "xs[?n - 1 := moved ?y]" ?c ?y] assms(3) by simp
  obtain ys' where ys': "insert_shift moved (live_prefix ?ys ?c) i ?n = Inr (live_prefix ys' ?c, i)" "length ys' = Suc ?n"
    "ys'[i := x] = take i ?ys @ [x] @ take (?n - 1 - i) (drop i ?ys) @ drop ?n ?ys"
    using insert_shift_live [of i ?n ?ys ?c moved x] n assms(3) by auto
  have "take (?n - 1 - i) (drop i ?ys) @ drop ?n ?ys = drop i xs"
  proof -
    have "take (?n - 1 - i) (drop i ?ys) = take (?n - 1 - i) (drop i xs)"
      using n by (simp add: drop_update_swap take_update_swap list_update_beyond)
    moreover have "drop i xs = take (?n - 1 - i) (drop i xs) @ [?y]"
    proof -
      have "drop i xs = take (Suc (?n - 1 - i)) (drop i xs)" using n by simp
      also have "\<dots> = take (?n - 1 - i) (drop i xs) @ [drop i xs ! (?n - 1 - i)]" using n by (intro take_Suc_conv_app_nth) simp
      finally show ?thesis using n by simp
    qed
    ultimately show ?thesis by simp
  qed
  then have final: "ys'[i := x] = take i xs @ x # drop i xs" using ys'(3) n by simp
  have "assign_slot (live_prefix ys' ?c) i x = Inr (live_prefix (take i xs @ x # drop i xs) ?c)"
    using assign_slot_live [of i ys' ?c x] ys'(2) n assms(3) unfolding final by simp
  then show ?thesis
    using n v ys'(1) m2 assms(3)
    by (intro vec_holdsI [OF assms(1)])
       (simp_all add: hxvector_insert_it_def push_back_unconstructed_def hxvector_full_rel [OF assms(1)]
         read_slot_live assign_slot_live vec_set_def)
qed

lemma hxvector_insert_it_full:
  assumes "vec_rel v xs" and "0 \<le> i" and "i \<le> int (length xs)" and "vec_room v \<le> length xs"
  shows "hxvector_insert_it moved v i x = Inl (Assert_hard ''stack_full'')"
proof -
  have "hxvector_full v" using assms(4) vec_relD(2) [OF assms(1)] by (simp add: hxvector_full_rel [OF assms(1)])
  then show ?thesis
    using assms(2,3) vec_relD(1) [OF assms(1)]
    by (simp add: hxvector_insert_it_def hxvector_append_def push_back_unconstructed_def)
qed

lemma hxvector_assign_rel:
  assumes "vec_rel v xs" and "0 < vec_room v"
  shows "if length ys \<le> vec_room v then vec_holds v (hxvector_assign v ys) ys
    else hxvector_assign v ys = Inl (Assert_hard ''stack_full'')"
proof -
  note v = vec_relD [OF assms(1)]
  have "hxvector_capacity v \<noteq> 0" using assms(2) by auto
  moreover have "destruct_slots (vec_data v) [0..<vec_end v] = Inr (live_prefix [] (vec_room v))"
    using destruct_slots_live [of 0 xs "vec_room v"] v by simp
  moreover have "length ys \<le> vec_room v \<Longrightarrow> construct_slots (live_prefix [] (vec_room v)) 0 ys = Inr (live_prefix ys (vec_room v))"
    using construct_slots_live [of "[]" ys "vec_room v"] by simp
  moreover have "int (length ys) \<le> hxvector_capacity v \<longleftrightarrow> length ys \<le> vec_room v" using v(4) by auto
  ultimately show ?thesis
    by (auto simp: hxvector_assign_def Let_def intro!: vec_holdsI [OF assms(1)])
qed

lemma hxvector_resize_rel:
  assumes "vec_rel v xs" and "0 < vec_room v"
  shows "if int n \<le> hxvector_capacity v then vec_holds v (hxvector_resize v (int n) fresh) (take n xs @ map fresh [length xs..<n])
    else hxvector_resize v (int n) fresh = Inl (Assert_hard ''stack_full'')"
proof (cases "int n \<le> hxvector_capacity v")
  case True
  note v = vec_relD [OF assms(1)]
  have cap: "hxvector_capacity v \<noteq> 0" using assms(2) by auto
  have n: "n \<le> vec_room v" using True by simp
  show ?thesis
  proof (cases "n \<le> length xs")
    case True
    then have "destruct_slots (live_prefix xs (vec_room v)) [n..<max (length xs) n] = Inr (live_prefix (take n xs) (vec_room v))"
      using destruct_slots_live [of n xs "vec_room v"] v(2) by simp
    then show ?thesis
      using \<open>int n \<le> hxvector_capacity v\<close> n True cap v by (auto simp: hxvector_resize_def Let_def intro!: vec_holdsI [OF assms(1)])
  next
    case False
    then have "construct_slots (live_prefix xs (vec_room v)) (length xs) (map fresh [length xs..<n]) =
        Inr (live_prefix (xs @ map fresh [length xs..<n]) (vec_room v))"
      using construct_slots_live [of xs "map fresh [length xs..<n]" "vec_room v"] n by simp
    then show ?thesis
      using \<open>int n \<le> hxvector_capacity v\<close> n False cap v by (auto simp: hxvector_resize_def Let_def intro!: vec_holdsI [OF assms(1)])
  qed
qed (use assms(2) in \<open>auto simp: hxvector_resize_def Let_def\<close>)

lemma hxvector_append_vector_rel:
  assumes "vec_rel v xs" and "vec_rel w ys"
  shows "if length xs + length ys \<le> vec_room v then vec_holds v (hxvector_append_vector v w) (xs @ ys)
    else hxvector_append_vector v w = Inl (Assert_hard ''stack_full'')"
proof -
  note v = vec_relD [OF assms(1)]
  have "hxvector_size v + hxvector_size w \<le> hxvector_capacity v \<longleftrightarrow> length xs + length ys \<le> vec_room v"
    using v(1,4) vec_relD(1) [OF assms(2)] by (auto simp: hxvector_size_def)
  moreover have "length xs + length ys \<le> vec_room v \<Longrightarrow>
      construct_slots (live_prefix xs (vec_room v)) (length xs) ys = Inr (live_prefix (xs @ ys) (vec_room v))"
    by (rule construct_slots_live)
  ultimately show ?thesis
    using v vec_values_rel [OF assms(2)] by (auto simp: hxvector_append_vector_def intro!: vec_holdsI [OF assms(1)])
qed

lemma erase_if_live:
  "it \<le> length xs \<Longrightarrow> length xs \<le> c \<Longrightarrow>
   \<exists>ys. erase_if_loop moved P (live_prefix xs c) (length xs) it r =
        Inr (live_prefix ys c, length ys, r + int (length (filter P (take it xs)))) \<and> length ys \<le> c \<and>
     mset ys = mset (filter (\<lambda>x. \<not> P x) (take it xs)) + mset (drop it xs)"
proof (induction it arbitrary: xs r)
  case (Suc it)
  let ?e = "length xs - 1"
  have it: "it < length xs" "take (Suc it) xs = take it xs @ [xs ! it]" "drop it xs = xs ! it # drop (Suc it) xs"
    using Suc.prems by (simp_all add: take_Suc_conv_app_nth Cons_nth_drop_Suc)
  show ?case
  proof (cases "P (xs ! it)")
    case False
    obtain ys where "erase_if_loop moved P (live_prefix xs c) (length xs) it r =
        Inr (live_prefix ys c, length ys, r + int (length (filter P (take it xs))))" "length ys \<le> c"
      "mset ys = mset (filter (\<lambda>x. \<not> P x) (take it xs)) + mset (drop it xs)"
      using Suc.IH [of xs r] Suc.prems by auto
    then show ?thesis using False it Suc.prems(2) by (auto simp: read_slot_live)
  next
    case True
    let ?m = "if it \<noteq> ?e then xs[?e := moved (xs ! ?e), it := xs ! ?e] else xs"
    let ?xs = "butlast ?m"
    have len: "length ?m = length xs" "length ?xs = ?e" "?m \<noteq> []" using it by auto
    have "(if it \<noteq> ?e then move_slot moved (live_prefix xs c) ?e it else Inr (live_prefix xs c)) = Inr (live_prefix ?m c)"
      using it Suc.prems(2) by (auto simp: move_slot_live)
    moreover have "destroy_slot (live_prefix ?m c) ?e = Inr (live_prefix ?xs c)"
      using destroy_slot_live [of ?m c] len(1,3) Suc.prems(2) by metis
    ultimately have step: "erase_if_loop moved P (live_prefix xs c) (length xs) (Suc it) r =
        erase_if_loop moved P (live_prefix ?xs c) (length ?xs) it (r + 1)"
      using it Suc.prems(2) True len(2) by (simp only: erase_if_loop.simps read_slot_live hx_bind_simps if_True)
    have tk: "take it ?xs = take it xs" using it by (auto simp: butlast_conv_take)
    have dr: "mset (drop it ?xs) = mset (drop (Suc it) xs)"
    proof (cases "it = ?e")
      case True
      then show ?thesis using it by (auto simp: butlast_conv_take)
    next
      case False
      let ?d = "drop (Suc it) xs"
      have "last xs = xs ! ?e" using it by (intro last_conv_nth) auto
      then have d: "?d \<noteq> []" "last ?d = xs ! ?e" using it False by (auto simp: last_drop)
      have "drop it ?xs = xs ! ?e # butlast ?d"
      proof -
        have "drop it ?m = ?m ! it # drop (Suc it) ?m" using it by (simp add: Cons_nth_drop_Suc)
        moreover have "drop (Suc it) ?m = ?d[?e - Suc it := moved (xs ! ?e)]"
          using it False by (simp add: drop_update_swap)
        moreover have "butlast (?d[?e - Suc it := moved (xs ! ?e)]) = butlast ?d"
          using it False by (simp add: butlast_list_update)
        moreover have "?m ! it = xs ! ?e" using it False by simp
        ultimately show ?thesis using d(1) by (simp add: drop_butlast del: One_nat_def)
      qed
      then show ?thesis using d mset_butlast_last [of ?d] by simp
    qed
    obtain ys where "erase_if_loop moved P (live_prefix ?xs c) (length ?xs) it (r + 1) =
        Inr (live_prefix ys c, length ys, r + 1 + int (length (filter P (take it ?xs))))" "length ys \<le> c"
      "mset ys = mset (filter (\<lambda>x. \<not> P x) (take it ?xs)) + mset (drop it ?xs)"
    proof -
      have "it \<le> length ?xs" "length ?xs \<le> c" using it len(2) Suc.prems(2) by auto
      then show ?thesis using Suc.IH [of ?xs "r + 1"] that by blast
    qed
    then show ?thesis unfolding step tk dr using True it by auto
  qed
qed auto

lemma hxvector_erase_if_rel:
  assumes rel: "vec_rel v xs"
  shows "\<exists>r us. hxvector_erase_if_unordered moved v callable = Inr (r, int (length (filter callable xs))) \<and>
    vec_holds v (Inr r) us \<and> mset us = mset (filter (\<lambda>x. \<not> callable x) xs)"
proof -
  note v = vec_relD [OF rel]
  obtain us where us: "erase_if_loop moved callable (live_prefix xs (vec_room v)) (length xs) (length xs) 0 =
      Inr (live_prefix us (vec_room v), length us, 0 + int (length (filter callable (take (length xs) xs))))" "length us \<le> vec_room v"
      "mset us = mset (filter (\<lambda>x. \<not> callable x) (take (length xs) xs)) + mset (drop (length xs) xs)"
    using erase_if_live [of "length xs" xs "vec_room v" moved callable 0] v(2) by blast
  then have "hxvector_erase_if_unordered moved v callable =
      Inr (vec_set v (live_prefix us (vec_room v)) (length us), int (length (filter callable xs)))"
    using v by (simp add: hxvector_erase_if_unordered_def)
  moreover have "vec_holds v (Inr (vec_set v (live_prefix us (vec_room v)) (length us))) us"
    using us(2) by (rule vec_holdsI [OF rel]) simp
  ultimately show ?thesis using us(3) by auto
qed

section \<open>The heap\<close>

text \<open>A heap but for the element at \<open>c\<close>, which may be larger than its parent and is on its way up.\<close>

definition heap_rising :: "('a \<Rightarrow> 'a \<Rightarrow> bool) \<Rightarrow> 'a list \<Rightarrow> nat \<Rightarrow> nat \<Rightarrow> bool" where
  "heap_rising lt xs n c \<longleftrightarrow>
     (\<forall>j. 0 < j \<longrightarrow> j < n \<longrightarrow> j \<noteq> c \<longrightarrow> \<not> lt (xs ! ((j - 1) div 2)) (xs ! j)) \<and>
     (\<forall>j. 0 < j \<longrightarrow> j < n \<longrightarrow> (j - 1) div 2 = c \<longrightarrow> 0 < c \<longrightarrow> \<not> lt (xs ! ((c - 1) div 2)) (xs ! j))"

lemma heap_risingD:
  assumes "heap_rising lt xs n c" and "0 < j" and "j < n"
  shows "j \<noteq> c \<Longrightarrow> \<not> lt (xs ! ((j - 1) div 2)) (xs ! j)"
    and "(j - 1) div 2 = c \<Longrightarrow> 0 < c \<Longrightarrow> \<not> lt (xs ! ((c - 1) div 2)) (xs ! j)"
  using assms unfolding heap_rising_def by blast+

lemma heap_rising_done:
  assumes "heap_rising lt xs n c" and "c = 0 \<or> \<not> lt (xs ! ((c - 1) div 2)) (xs ! c)"
  shows "heap_from lt xs 0 n 0"
  unfolding heap_from_def
proof (intro allI impI)
  fix j assume "0 < j" "j < n"
  then show "\<not> lt (xs ! (0 + (j - 1) div 2)) (xs ! (0 + j))"
    using heap_risingD(1) [OF assms(1), of j] assms(2) by (cases "j = c") auto
qed

context strict_weak_order begin

lemma heap_rising_step:
  assumes rising: "heap_rising lt xs n c" and c: "0 < c" "c < n" "n \<le> length xs"
    and p: "p = (c - 1) div 2" and larger: "lt (xs ! p) (xs ! c)"
  shows "heap_rising lt (xs[c := xs ! p, p := xs ! c]) n p"
proof -
  let ?ys = "xs[c := xs ! p, p := xs ! c]"
  have pc: "p < c" "p < length xs" using parent_less [OF c(1)] p c by auto
  have nth: "?ys ! p = xs ! c" "?ys ! c = xs ! p" "\<And>i. i \<noteq> p \<Longrightarrow> i \<noteq> c \<Longrightarrow> ?ys ! i = xs ! i"
    using pc c by auto
  have first: "\<not> lt (?ys ! ((j - 1) div 2)) (?ys ! j)" if j: "0 < j" "j < n" "j \<noteq> p" for j
  proof -
    let ?q = "(j - 1) div 2"
    consider "j = c" | "j \<noteq> c" "?q = c" | "j \<noteq> c" "?q = p" | "j \<noteq> c" "?q \<noteq> c" "?q \<noteq> p" by blast
    then show ?thesis
    proof cases
      case 1
      then show ?thesis using nth(1,2) p asym [OF larger] by simp
    next
      case 2
      then show ?thesis using nth heap_risingD(2) [OF rising j(1,2)] c(1) p j(3) by simp
    next
      case 3
      then show ?thesis using nth heap_risingD(1) [OF rising j(1,2)] j(3) larger trans by metis
    next
      case 4
      then show ?thesis using nth(3) heap_risingD(1) [OF rising j(1,2)] j(3) by simp
    qed
  qed
  have second: "\<not> lt (?ys ! ((p - 1) div 2)) (?ys ! j)" if j: "0 < j" "j < n" "(j - 1) div 2 = p" "0 < p" for j
  proof -
    let ?g = "(p - 1) div 2"
    have g: "?g < p" using parent_less [OF j(4)] .
    have gp: "\<not> lt (xs ! ?g) (xs ! p)" using heap_risingD(1) [OF rising j(4)] pc c by auto
    have ys_g: "?ys ! ?g = xs ! ?g" using nth(3) g pc by simp
    show ?thesis
    proof (cases "j = c")
      case True
      then show ?thesis using gp nth(2) ys_g by simp
    next
      case False
      then have "\<not> lt (xs ! p) (xs ! j)" using heap_risingD(1) [OF rising j(1,2)] j(3) by simp
      then have "\<not> lt (xs ! ?g) (xs ! j)" using gp cotrans by blast
      moreover have "j \<noteq> p" using parent_less [OF j(1)] j(3) by simp
      ultimately show ?thesis using nth(3) False ys_g by simp
    qed
  qed
  show ?thesis unfolding heap_rising_def using first second by blast
qed

lemma push_heap_loop_live:
  "c < length zs \<Longrightarrow> length zs \<le> cap \<Longrightarrow> heap_rising lt (zs[c := arg]) (length zs) c \<Longrightarrow>
   \<exists>ys. push_heap_loop lt moved (live_prefix zs cap) c arg = Inr (live_prefix ys cap) \<and> length ys = length zs \<and>
     heap_from lt ys 0 (length ys) 0 \<and> mset ys = mset (zs[c := arg])"
proof (induction c arbitrary: zs rule: less_induct)
  case (less c)
  let ?p = "(c - 1) div 2" and ?zs = "zs[c := arg]"
  show ?case
  proof (cases "c = 0 \<or> \<not> lt (zs ! ?p) arg")
    case True
    have "?zs ! ?p = zs ! ?p" if "c \<noteq> 0" using parent_less [of c] that by simp
    then have "heap_from lt ?zs 0 (length zs) 0"
      using True less.prems by (intro heap_rising_done [OF less.prems(3)]) auto
    moreover have "push_heap_loop lt moved (live_prefix zs cap) c arg = Inr (live_prefix ?zs cap)"
      using True less.prems parent_less [of c] by (subst push_heap_loop.simps) (auto simp: Let_def read_slot_live assign_slot_live)
    ultimately show ?thesis by auto
  next
    case False
    then have c: "0 < c" and p: "?p < c" and lt: "lt (zs ! ?p) arg" using parent_less [of c] by auto
    let ?ys = "zs[?p := moved (zs ! ?p), c := zs ! ?p]"
    have eq: "?ys[?p := arg] = ?zs[c := ?zs ! ?p, ?p := ?zs ! c]"
      using p less.prems(1) by (simp add: list_update_swap)
    have "lt (?zs ! ?p) (?zs ! c)" using lt p less.prems(1) by simp
    from heap_rising_step [OF less.prems(3) c _ _ refl this]
    have "heap_rising lt (?ys[?p := arg]) (length ?ys) ?p" unfolding eq using less.prems(1) by simp
    then obtain ys where ys: "push_heap_loop lt moved (live_prefix ?ys cap) ?p arg = Inr (live_prefix ys cap)" "length ys = length ?ys"
      "heap_from lt ys 0 (length ys) 0" "mset ys = mset (?ys[?p := arg])"
      using less.IH [OF p, of ?ys] p less.prems(1,2) by auto
    have "mset ys = mset ?zs"
      unfolding ys(4) eq using p less.prems(1) by (subst mset_swap_nth) auto
    moreover have "push_heap_loop lt moved (live_prefix zs cap) c arg = push_heap_loop lt moved (live_prefix ?ys cap) ?p arg"
      using c lt p less.prems(1,2) by (subst push_heap_loop.simps) (simp add: Let_def read_slot_live move_slot_live)
    ultimately show ?thesis using ys by auto
  qed
qed

lemma heap_rising_snoc:
  assumes "heap_from lt xs 0 (length xs) 0"
  shows "heap_rising lt (xs @ [arg]) (Suc (length xs)) (length xs)"
proof -
  have "\<not> lt ((xs @ [arg]) ! ((j - 1) div 2)) ((xs @ [arg]) ! j)" if "0 < j" "j < Suc (length xs)" "j \<noteq> length xs" for j
    using that assms parent_less [of j] by (auto simp: heap_from_def nth_append)
  moreover have "(j - 1) div 2 \<noteq> length xs" if "0 < j" "j < Suc (length xs)" for j
    using parent_less [OF that(1)] that(2) by simp
  ultimately show ?thesis unfolding heap_rising_def by blast
qed

lemma hxvector_push_heap_rel:
  assumes rel: "vec_rel v xs" and room: "length xs < vec_room v" and heap: "heap_from lt xs 0 (length xs) 0"
  shows "\<exists>ys. vec_holds v (hxvector_push_heap lt moved v arg) ys \<and> heap_from lt ys 0 (length ys) 0 \<and> mset ys = add_mset arg (mset xs)"
proof -
  note v = vec_relD [OF rel]
  let ?n = "length xs" and ?c = "vec_room v"
  let ?p = "(?n - 1) div 2"
  have rising: "heap_rising lt (xs @ [arg]) (Suc ?n) ?n" by (rule heap_rising_snoc [OF heap])
  have build: "construct_slot (live_prefix xs ?c) ?n arg = Inr (live_prefix (xs @ [arg]) ?c)"
    using room by (rule construct_slot_live)
  show ?thesis
  proof (cases "?n = 0 \<or> \<not> lt (xs ! ?p) arg")
    case True
    have "(xs @ [arg]) ! ?p = xs ! ?p" if "?n \<noteq> 0" using parent_less [of ?n] that by (simp add: nth_append)
    then have "heap_from lt (xs @ [arg]) 0 (Suc ?n) 0" using True by (intro heap_rising_done [OF rising]) auto
    moreover have "vec_holds v (hxvector_push_heap lt moved v arg) (xs @ [arg])"
      using True room v build parent_less [of ?n]
      by (intro vec_holdsI [OF rel])
         (auto simp: hxvector_push_heap_def push_back_unconstructed_def hxvector_full_rel [OF rel] Let_def read_slot_live vec_set_def)
    ultimately show ?thesis by (auto intro!: exI [of _ "xs @ [arg]"])
  next
    case False
    then have n: "0 < ?n" and p: "?p < ?n" and lt: "lt (xs ! ?p) arg" using parent_less [of ?n] by auto
    let ?zs = "xs[?p := moved (xs ! ?p)] @ [xs ! ?p]"
    have "?zs[?p := arg] = (xs @ [arg])[?n := (xs @ [arg]) ! ?p, ?p := (xs @ [arg]) ! ?n]"
      using p by (simp add: list_update_append nth_append)
    moreover have "lt ((xs @ [arg]) ! ?p) ((xs @ [arg]) ! ?n)" using lt p by (simp add: nth_append)
    ultimately have "heap_rising lt (?zs[?p := arg]) (length ?zs) ?p"
      using heap_rising_step [OF rising n _ _ refl] by simp
    then obtain ys where ys: "push_heap_loop lt moved (live_prefix ?zs ?c) ?p arg = Inr (live_prefix ys ?c)" "length ys = length ?zs"
      "heap_from lt ys 0 (length ys) 0" "mset ys = mset (?zs[?p := arg])"
      using push_heap_loop_live [of ?p ?zs ?c arg moved] p room by auto
    have "mset ys = add_mset arg (mset xs)"
      unfolding ys(4) using p by (simp add: list_update_append mset_update insert_DiffM)
    moreover have "construct_slot (live_prefix (xs[?p := moved (xs ! ?p)]) ?c) ?n (xs ! ?p) = Inr (live_prefix ?zs ?c)"
      using construct_slot_live [of "xs[?p := moved (xs ! ?p)]" ?c "xs ! ?p"] room by simp
    then have "vec_holds v (hxvector_push_heap lt moved v arg) ys"
      using n lt p room v ys(1,2)
      by (intro vec_holdsI [OF rel])
         (simp_all add: hxvector_push_heap_def push_back_unconstructed_def hxvector_full_rel [OF rel] Let_def read_slot_live
           assign_slot_live vec_set_def)
    ultimately show ?thesis using ys(3) by blast
  qed
qed

lemma hxvector_pop_heap_rel:
  assumes rel: "vec_rel v xs" and some: "xs \<noteq> []" and heap: "heap_from lt xs 0 (length xs) 0"
  shows "\<exists>ys. vec_holds v (hxvector_pop_heap lt v) ys \<and> heap_from lt ys 0 (length ys) 0 \<and> mset xs = add_mset (xs ! 0) (mset ys)"
proof -
  note v = vec_relD [OF rel]
  let ?n = "length xs - 1" and ?c = "vec_room v" and ?xs = "butlast xs"
  let ?v = "xs ! ?n"
  have destroy: "destroy_slot (live_prefix xs ?c) ?n = Inr (live_prefix ?xs ?c)" by (rule destroy_slot_live [OF some v(2)])
  show ?thesis
  proof (cases "?n = 0")
    case True
    then have xs: "xs = [xs ! 0]" using some by (cases xs) auto
    have "vec_holds v (hxvector_pop_heap lt v) []"
      using True destroy v some by (intro vec_holdsI [OF rel])
        (auto simp: hxvector_pop_heap_def hxvector_empty_rel [OF rel] Let_def vec_set_def butlast_conv_take)
    moreover have "mset xs = add_mset (xs ! 0) (mset [])" by (subst xs) simp
    ultimately show ?thesis by (auto simp: heap_from_def intro!: exI [of _ "[]"])
  next
    case False
    let ?ys = "hxheapsort_heapify lt ?xs 0 0 ?n ?v"
    have len: "length ?xs = ?n" "0 < ?n" using False by auto
    have "range_perm 0 (0 + ?n) (?xs[0 + 0 := ?v]) (hxheapsort_heapify lt ?xs 0 (0 + 0) (0 + ?n) ?v)"
      using len by (intro heapify_perm) auto
    then have perm: "range_perm 0 ?n (?xs[0 := ?v]) ?ys" by simp
    then have ylen: "length ?ys = ?n" using len by (simp add: range_perm_length)
    have "heap_except lt (?xs[0 + 0 := ?v]) 0 ?n 0 0"
      using heap len by (auto simp: heap_except_def heap_from_def nth_list_update nth_butlast)
    then have "heap_from lt (hxheapsort_heapify lt ?xs 0 (0 + 0) (0 + ?n) ?v) 0 ?n 0"
      using len by (intro heapify_heap) auto
    then have "heap_from lt ?ys 0 (length ?ys) 0" using ylen by simp
    moreover have "mset xs = add_mset (xs ! 0) (mset ?ys)"
    proof -
      have "mset ?ys = mset (?xs[0 := ?v])" using perm by (simp add: range_perm_def)
      also have "\<dots> = add_mset ?v (mset ?xs) - {#xs ! 0#}" 
      proof -
        have x0: "?xs ! 0 = xs ! 0" using len by (simp add: nth_butlast)
        have "?xs ! 0 \<in># mset ?xs" using len(2) len(1) by (intro nth_mem_mset) simp
        then show ?thesis using len by (simp add: mset_update x0)
      qed
      also have "add_mset ?v (mset ?xs) = mset xs"
        using mset_butlast_last [OF some] last_conv_nth [OF some] by simp
      finally show ?thesis using some by (metis insert_DiffM length_greater_0_conv nth_mem_mset)
    qed
    moreover have "vec_holds v (hxvector_pop_heap lt v) ?ys"
    proof (rule vec_holdsI [OF rel])
      let ?w = "vec_set (v\<lparr>vec_end := ?n\<rparr>) (live_prefix ?xs ?c) ?n"
      have w: "vec_rel ?w ?xs" and room: "vec_room ?w = ?c"
        using vec_set_rel [OF rel, of ?xs] len v(2) by (simp_all add: vec_set_def hxvector_capacity_def)
      have "write_slots (live_prefix ?xs ?c) 0 ?ys = Inr (live_prefix ?ys ?c)"
        using ylen len v(2) by (intro write_all_live) auto
      then have "vec_update ?w (\<lambda>xs. Inr (hxheapsort_heapify lt xs 0 0 ?n ?v)) = Inr (vec_set v (live_prefix ?ys ?c) ?n)"
        using vec_values_rel [OF w] vec_relD(3) [OF w] room by (simp add: vec_update_def vec_set_def)
      then show "hxvector_pop_heap lt v = Inr (vec_set v (live_prefix ?ys ?c) (length ?ys))"
        using False destroy v some ylen
        by (simp add: hxvector_pop_heap_def hxvector_empty_rel [OF rel] Let_def read_slot_live)
    qed (use ylen v(2) in simp)
    ultimately show ?thesis by blast
  qed
qed

end

lemma hxvector_make_heap_rel:
  assumes "strict_weak_order lt" and rel: "vec_rel v xs"
  shows "\<exists>ys. vec_holds v (hxvector_make_heap lt v) ys \<and> mset ys = mset xs \<and> heap_from lt ys 0 (length ys) 0"
proof -
  note v = vec_relD [OF rel]
  let ?ys = "hxmake_heap lt xs 0 (0 + length xs)"
  have "range_perm 0 (length xs) xs ?ys" 
    using make_heap_loop_perm [of 0 "length xs div 2" "length xs" xs lt] by (simp add: hxmake_heap_def)
  then have len: "length ?ys = length xs" "mset ?ys = mset xs" by (simp_all add: range_perm_def)
  have "heap_from lt ?ys 0 (length xs) 0" by (rule strict_weak_order.make_heap_heap [OF assms(1)]) simp
  moreover have "vec_holds v (hxvector_make_heap lt v) ?ys"
    using len v write_all_live [of ?ys xs "vec_room v"]
    by (intro vec_holdsI [OF rel]) (auto simp: hxvector_make_heap_def vec_update_def vec_values_rel [OF rel])
  ultimately show ?thesis using len by auto
qed

lemma hxvector_sort_rel:
  assumes "strict_weak_order lt" and rel: "vec_rel v xs" and "\<not> 2 ^ 32 dvd length xs"
  shows "\<exists>ys. vec_holds v (hxvector_sort lt v) ys \<and> mset ys = mset xs \<and> sorted_between lt ys 0 (length ys)"
proof -
  note v = vec_relD [OF rel]
  have "xs \<noteq> []" using assms(3) by auto
  then obtain ys where ys: "hxsort lt xs 0 (length xs) = Inr ys" "range_perm 0 (length xs) xs ys" "sorted_between lt ys 0 (length xs)"
    using hxsort_result [OF assms(1), of 0 "length xs" xs] assms(3) by auto
  then have len: "length ys = length xs" "mset ys = mset xs" by (simp_all add: range_perm_def)
  have "hxvector_sort lt v = Inr (vec_set v (live_prefix ys (vec_room v)) (length ys))"
    using ys(1) len v write_all_live [of ys xs "vec_room v"] by (simp add: hxvector_sort_def vec_update_def vec_values_rel [OF rel])
  then have "vec_holds v (hxvector_sort lt v) ys" using len v by (intro vec_holdsI [OF rel]) auto
  then show ?thesis using ys(3) len by auto
qed

section \<open>Claims\<close>

text \<open>A vector of room 4 with three elements, for the examples.\<close>

definition example_vec :: "int hxvector" where
  "example_vec = \<lparr>vec_alloc = \<lparr>al_fixed = 4, al_pow2 = False, al_capacity = 4, al_data = live_prefix [7, 5, 6] 4\<rparr>, vec_end = 3\<rparr>"

lemma example_vec_rel: "vec_rel example_vec [7, 5, 6]" and example_vec_room: "vec_room example_vec = 4"
  by (simp_all add: example_vec_def vec_rel_def hxvector_capacity_def allocator_ok_def element_count_def hxallocator_dynamic_capacity_def)

text \<open>C12: \<open>hxvector\<close> is a bounded list: access, appending, removing the last element, ordered insertion
  and ordered erasure do what the list operations do, whatever a moved-from element is left as, and
  an index out of range (a negative one too) or a full or empty vector is the assertion of the code.\<close>

theorem hxvector_refines_list:
  assumes rel: "vec_rel v xs" and len: "length xs < 2 ^ 63" and i: "- (2 ^ 63) \<le> i" "i < 2 ^ 63"
  shows "(hxvector_at v i = (if 0 \<le> i \<and> i < int (length xs) then Inr (xs ! nat i) else Inl (Assert_hard ''bad_index''))) \<and>
    (if length xs < vec_room v then vec_holds v (hxvector_push_back v x) (xs @ [x])
         else hxvector_push_back v x = Inl (Assert_hard ''stack_full'')) \<and>
    (if xs = [] then hxvector_pop_back v = Inl (Assert_hard ''stack_empty'')
         else vec_holds v (hxvector_pop_back v) (butlast xs)) \<and>
    (if \<not> (0 \<le> i \<and> i \<le> int (length xs)) then hxvector_insert moved v i x = Inl (Assert_hard ''bad_index'')
         else if length xs < vec_room v then vec_holds v (hxvector_insert moved v i x) (take (nat i) xs @ x # drop (nat i) xs)
         else hxvector_insert moved v i x = Inl (Assert_hard ''stack_full'')) \<and>
    (if 0 \<le> i \<and> i < int (length xs) then vec_holds v (hxvector_erase moved v i) (take (nat i) xs @ drop (Suc (nat i)) xs)
         else hxvector_erase moved v i = Inl (Assert_hard ''bad_index''))"
proof (intro conjI impI)
  note v = vec_relD [OF rel]
  note index = index_in_rel [OF rel len i]
  have upto: "(word_of_int i :: size_t) \<le> word_of_int (hxvector_size v) \<longleftrightarrow> 0 \<le> i \<and> i \<le> int (length xs)"
    by (rule index_upto_rel [OF rel len i])
  show "hxvector_at v i = (if 0 \<le> i \<and> i < int (length xs) then Inr (xs ! nat i) else Inl (Assert_hard ''bad_index''))"
    using v by (auto simp: hxvector_at_def index read_slot_live)
  show "if length xs < vec_room v then vec_holds v (hxvector_push_back v x) (xs @ [x])
      else hxvector_push_back v x = Inl (Assert_hard ''stack_full'')"
    using hxvector_push_back_rel [OF rel] by simp
  show "if xs = [] then hxvector_pop_back v = Inl (Assert_hard ''stack_empty'')
      else vec_holds v (hxvector_pop_back v) (butlast xs)"
    by (rule hxvector_pop_back_rel [OF rel])
  show "if \<not> (0 \<le> i \<and> i \<le> int (length xs)) then hxvector_insert moved v i x = Inl (Assert_hard ''bad_index'')
      else if length xs < vec_room v then vec_holds v (hxvector_insert moved v i x) (take (nat i) xs @ x # drop (nat i) xs)
      else hxvector_insert moved v i x = Inl (Assert_hard ''stack_full'')"
    using hxvector_insert_it_rel [OF rel, of "nat i" moved x] hxvector_insert_it_full [OF rel, of i moved x] v(2)
    by (cases "0 \<le> i") (simp_all add: hxvector_insert_def upto)
  show "if 0 \<le> i \<and> i < int (length xs) then vec_holds v (hxvector_erase moved v i) (take (nat i) xs @ drop (Suc (nat i)) xs)
      else hxvector_erase moved v i = Inl (Assert_hard ''bad_index'')"
    using hxvector_erase_it_rel [OF rel, of "nat i" moved] by (cases "0 \<le> i") (simp_all add: hxvector_erase_def index)
qed

theorem hxvector_refines_list_witness:
  "hxvector_at example_vec 1 = Inr 5 \<and> vec_holds example_vec (hxvector_insert uminus example_vec 1 9) [7, 9, 5, 6] \<and>
   vec_holds example_vec (hxvector_erase uminus example_vec 1) [7, 6]"
  using hxvector_refines_list [OF example_vec_rel, of 1 9 uminus]
  by (simp add: example_vec_room)

text \<open>The bulk operations of \<open>hxvector\<close>: \<open>clear\<close>, \<open>assign\<close>, \<open>resize\<close> and \<open>operator+=\<close> of a vector
  give the list they name or raise \<open>stack_full\<close>, \<open>erase_unordered\<close> puts the last element in the
  place of the erased one, and \<open>erase_if_unordered\<close> removes exactly the elements its callable
  accepts and returns their number.\<close>

lemma hxvector_bulk_operations:
  assumes rel: "vec_rel v xs" and other: "vec_rel w ys" and room: "0 < vec_room v"
  shows "(vec_holds v (hxvector_clear v) []) \<and>
    (if length zs \<le> vec_room v then vec_holds v (hxvector_assign v zs) zs
         else hxvector_assign v zs = Inl (Assert_hard ''stack_full'')) \<and>
    (if n \<le> vec_room v then vec_holds v (hxvector_resize v (int n) fresh) (take n xs @ map fresh [length xs..<n])
         else hxvector_resize v (int n) fresh = Inl (Assert_hard ''stack_full'')) \<and>
    (if length xs + length ys \<le> vec_room v then vec_holds v (hxvector_append_vector v w) (xs @ ys)
         else hxvector_append_vector v w = Inl (Assert_hard ''stack_full'')) \<and>
    (i < length xs \<longrightarrow> vec_holds v (hxvector_erase_unordered_it moved v (int i)) (butlast (xs[i := last xs]))) \<and>
    (\<exists>r us. hxvector_erase_if_unordered moved v callable = Inr (r, int (length (filter callable xs))) \<and>
           vec_holds v (Inr r) us \<and> mset us = mset (filter (\<lambda>x. \<not> callable x) xs))"
proof (intro conjI impI)
  note v = vec_relD [OF rel]
  show "vec_holds v (hxvector_clear v) []" by (rule hxvector_clear_rel [OF rel])
  show "if length zs \<le> vec_room v then vec_holds v (hxvector_assign v zs) zs
      else hxvector_assign v zs = Inl (Assert_hard ''stack_full'')"
    by (rule hxvector_assign_rel [OF rel room])
  have "int n \<le> hxvector_capacity v \<longleftrightarrow> n \<le> vec_room v" using v(4) by auto
  then show "if n \<le> vec_room v then vec_holds v (hxvector_resize v (int n) fresh) (take n xs @ map fresh [length xs..<n])
      else hxvector_resize v (int n) fresh = Inl (Assert_hard ''stack_full'')"
    using hxvector_resize_rel [OF rel room, of n fresh] by simp
  show "if length xs + length ys \<le> vec_room v then vec_holds v (hxvector_append_vector v w) (xs @ ys)
      else hxvector_append_vector v w = Inl (Assert_hard ''stack_full'')"
    by (rule hxvector_append_vector_rel [OF rel other])
  show "vec_holds v (hxvector_erase_unordered_it moved v (int i)) (butlast (xs[i := last xs]))" if "i < length xs"
    using hxvector_erase_unordered_it_rel [OF rel that] by blast
  show "\<exists>r us. hxvector_erase_if_unordered moved v callable = Inr (r, int (length (filter callable xs))) \<and>
      vec_holds v (Inr r) us \<and> mset us = mset (filter (\<lambda>x. \<not> callable x) xs)"
    by (rule hxvector_erase_if_rel [OF rel])
qed

lemma hxvector_bulk_operations_witness:
  "vec_holds example_vec (hxvector_resize example_vec (int 2) int) [7, 5] \<and>
   (\<exists>r us. hxvector_erase_if_unordered uminus example_vec even = Inr (r, 1) \<and> vec_holds example_vec (Inr r) us \<and> mset us = {#7, 5#})"
  using hxvector_bulk_operations [OF example_vec_rel example_vec_rel, where n = 2 and fresh = int and moved = uminus and callable = even]
  by (simp add: example_vec_room numeral_2_eq_2)

text \<open>The heap of \<open>hxvector\<close>: \<open>push_heap\<close> adds the element and keeps the heap order, \<open>pop_heap\<close> removes
  an element that no other is after and keeps the heap order. \<open>sort\<close> leaves the same
  elements sorted.\<close>

lemma hxvector_heap_operations:
  assumes order: "strict_weak_order lt" and rel: "vec_rel v xs"
  shows "(heap_from lt xs 0 (length xs) 0 \<longrightarrow> length xs < vec_room v \<longrightarrow>
      (\<exists>ys. vec_holds v (hxvector_push_heap lt moved v arg) ys \<and> heap_from lt ys 0 (length ys) 0 \<and> mset ys = add_mset arg (mset xs))) \<and>
    (heap_from lt xs 0 (length xs) 0 \<longrightarrow> xs \<noteq> [] \<longrightarrow>
      (\<exists>top ys. vec_holds v (hxvector_pop_heap lt v) ys \<and> heap_from lt ys 0 (length ys) 0 \<and> mset xs = add_mset top (mset ys) \<and>
        (\<forall>y \<in> set ys. \<not> lt top y))) \<and>
    (\<not> 2 ^ 32 dvd length xs \<longrightarrow>
      (\<exists>ys. vec_holds v (hxvector_sort lt v) ys \<and> mset ys = mset xs \<and> sorted_between lt ys 0 (length ys)))"
proof (intro conjI impI)
  assume heap: "heap_from lt xs 0 (length xs) 0"
  show "\<exists>ys. vec_holds v (hxvector_push_heap lt moved v arg) ys \<and> heap_from lt ys 0 (length ys) 0 \<and> mset ys = add_mset arg (mset xs)"
    if "length xs < vec_room v"
    by (rule strict_weak_order.hxvector_push_heap_rel [OF order rel that heap])
  assume some: "xs \<noteq> []"
  have "\<not> lt (xs ! 0) y" if y: "y \<in> set xs" for y
  proof -
    obtain j where "j < length xs" "xs ! j = y" using y by (auto simp: in_set_conv_nth)
    then show ?thesis using strict_weak_order.heap_root_max [OF order heap, of j] by simp
  qed
  moreover obtain ys where "vec_holds v (hxvector_pop_heap lt v) ys" "heap_from lt ys 0 (length ys) 0" "mset xs = add_mset (xs ! 0) (mset ys)"
    using strict_weak_order.hxvector_pop_heap_rel [OF order rel some heap] by blast
  moreover from this(3) have "set ys \<subseteq> set xs" by (metis set_mset_add_mset_insert set_mset_mset subset_insertI)
  ultimately show "\<exists>top ys. vec_holds v (hxvector_pop_heap lt v) ys \<and> heap_from lt ys 0 (length ys) 0 \<and> mset xs = add_mset top (mset ys) \<and>
      (\<forall>y \<in> set ys. \<not> lt top y)" by blast
next
  assume "\<not> 2 ^ 32 dvd length xs"
  then show "\<exists>ys. vec_holds v (hxvector_sort lt v) ys \<and> mset ys = mset xs \<and> sorted_between lt ys 0 (length ys)"
    by (rule hxvector_sort_rel [OF order rel])
qed

lemma hxvector_heap_operations_witness:
  "\<exists>ys. vec_holds example_vec (hxvector_push_heap hxkey_less_num uminus example_vec 8) ys \<and> heap_from hxkey_less_num ys 0 (length ys) 0 \<and>
     mset ys = {#8, 7, 5, 6#}"
proof -
  have "heap_from hxkey_less_num [7, 5, 6] 0 (length [7, 5, 6]) 0"
    by (auto simp: heap_from_def hxkey_less_num_def less_Suc_eq numeral_3_eq_3)
  then show ?thesis
    using hxvector_heap_operations [OF num_key.strict_weak_order_axioms example_vec_rel, where arg = 8 and moved = uminus]
    by (simp add: example_vec_room)
qed

text \<open>\<open>reserve\<close> does not only reserve: a capacity is set once, and asking a vector for the capacity
  it has sets the end to the start of the storage, so the vector reports that it is empty while every
  element is still alive in it, and the next \<open>push_back\<close> constructs over a live object.\<close>

lemma hxvector_reserve_forgets:
  assumes "vec_rel v xs" and "0 < length xs"
  shows "(hxvector_reserve v sz =
      (if sz = hxvector_capacity v then Inr (v\<lparr>vec_end := 0\<rparr>) else Inl (Assert_always ''bad_reserve already sized''))) \<and>
    (hxvector_empty (v\<lparr>vec_end := 0\<rparr>)) \<and>
    (vec_data (v\<lparr>vec_end := 0\<rparr>) = live_prefix xs (vec_room v)) \<and>
    (\<not> hx_ok (hxvector_push_back (v\<lparr>vec_end := 0\<rparr>) x))"
proof (intro conjI impI)
  note v = vec_relD [OF assms(1)]
  have cap: "al_capacity (vec_alloc v) \<noteq> 0" using assms(2) v(2) by (auto simp: hxvector_capacity_def)
  show "hxvector_reserve v sz =
      (if sz = hxvector_capacity v then Inr (v\<lparr>vec_end := 0\<rparr>) else Inl (Assert_always ''bad_reserve already sized''))"
    using reserve_storage_once [OF v(5) cap, of sz] by (cases v) (simp add: hxvector_reserve_def hxvector_capacity_def)
  show "hxvector_empty (v\<lparr>vec_end := 0\<rparr>)" by (simp add: hxvector_empty_def)
  show "vec_data (v\<lparr>vec_end := 0\<rparr>) = live_prefix xs (vec_room v)" using v(3) by simp
  show "\<not> hx_ok (hxvector_push_back (v\<lparr>vec_end := 0\<rparr>) x)"
    using assms(2) v(2,3) by (simp add: hxvector_push_back_def construct_slot_def hx_ok_def)
qed

lemma hxvector_reserve_forgets_witness:
  "hxvector_reserve example_vec 4 = Inr (example_vec\<lparr>vec_end := 0\<rparr>) \<and> \<not> hx_ok (hxvector_push_back (example_vec\<lparr>vec_end := 0\<rparr>) 1)"
  using hxvector_reserve_forgets [OF example_vec_rel, of 4 1]
  by (simp add: example_vec_def hxvector_capacity_def)

end
