(* ===== verification/HxArray.thy ===== *)
theory HxArray
  imports HxVector
begin

text \<open>
  The array of \<^verbatim>\<open>include/hx/hxarray.hpp\<close> and \<^verbatim>\<open>detail/hxarray.inl\<close>: a storage of the container allocator all of whose
  slots hold an object from construction to destruction. A size is fixed by the type or set once; sources of another size stop the
  program. \<open>memset\<close> writes bytes and is not modelled.
\<close>

section \<open>State\<close>

type_synonym 'a hxarray = "'a hxallocator"

definition hxarray_capacity :: "'a hxarray \<Rightarrow> hxsize_t" where
  "hxarray_capacity a = al_capacity a"

definition hxarray_size :: "'a hxarray \<Rightarrow> hxsize_t" where
  "hxarray_size a = hxarray_capacity a"

definition hxarray_size_bytes :: "hxsize_t \<Rightarrow> 'a hxarray \<Rightarrow> hxsize_t" where
  "hxarray_size_bytes object_size a = object_size * hxarray_capacity a"

definition hxarray_empty :: "'a hxarray \<Rightarrow> bool" where
  "hxarray_empty a = (hxarray_size a = 0)"

definition hxarray_full :: "'a hxarray \<Rightarrow> bool" where
  "hxarray_full a = (hxarray_capacity a \<noteq> 0)"

text \<open>The elements in order, writing them back, and constructing all of them.\<close>

definition array_values :: "'a hxarray \<Rightarrow> 'a list hx" where
  "array_values a = read_slots (al_data a) [0..<nat (hxarray_capacity a)]"

definition array_write :: "'a hxarray \<Rightarrow> 'a list \<Rightarrow> 'a hxarray hx" where
  "array_write a xs = hx_map (\<lambda>m. a\<lparr>al_data := m\<rparr>) (write_slots (al_data a) 0 xs)"

definition array_construct :: "'a hxarray \<Rightarrow> 'a list \<Rightarrow> 'a hxarray hx" where
  "array_construct a xs = hx_map (\<lambda>m. a\<lparr>al_data := m\<rparr>) (construct_slots (al_data a) 0 xs)"

section \<open>Construction, destruction and assignment\<close>

text \<open>\<open>initial i\<close> is what the default constructor of element \<open>i\<close> makes.\<close>

definition hxarray_new :: "hxsize_t \<Rightarrow> (nat \<Rightarrow> 'a) \<Rightarrow> 'a hxarray hx" where
  "hxarray_new fixed initial =
     (let a = hxallocator_new fixed False
      in if fixed \<noteq> hxallocator_dynamic_capacity then array_construct a (map initial [0..<nat fixed]) else Inr a)"

definition hxarray_filled :: "hxsize_t \<Rightarrow> 'a \<Rightarrow> 'a hxarray hx" where
  "hxarray_filled fixed x = array_construct (hxallocator_new fixed False) (replicate (nat fixed) x)"

definition hxarray_of_list :: "hxsize_t \<Rightarrow> 'a list \<Rightarrow> 'a hxarray hx" where
  "hxarray_of_list fixed xs =
     hx_bind (reserve_storage (int (length xs)) (hxallocator_new fixed False)) (\<lambda>a. array_construct a xs)"

text \<open>The copy constructor takes an array of the same type, so the fixed size is that of the source; another one is deleted.\<close>

definition hxarray_copy :: "'a hxarray \<Rightarrow> 'a hxarray hx" where
  "hxarray_copy x = hx_bind (array_values x) (hxarray_of_list (al_fixed x))"

definition hxarray_move :: "'a hxarray \<Rightarrow> 'a hxarray \<times> 'a hxarray" where
  "hxarray_move x = (x, hxallocator_new hxallocator_dynamic_capacity False)"

text \<open>A range whose iterators subtract gives its size first; another is copied up to the capacity and then checked.\<close>

definition hxarray_of_range :: "hxsize_t \<Rightarrow> bool \<Rightarrow> 'a list \<Rightarrow> 'a hxarray hx" where
  "hxarray_of_range fixed sized xs =
     (if sized then hxarray_of_list fixed xs
      else hx_bind (array_construct (hxallocator_new fixed False) (take (nat fixed) xs)) (\<lambda>a.
        if int (length xs) = hxarray_capacity a then Inr a else Inl (Assert_hard ''array_size mismatch'')))"

definition hxarray_destroy :: "'a hxarray \<Rightarrow> 'a hxarray hx" where
  "hxarray_destroy a = hx_map (\<lambda>m. a\<lparr>al_data := m\<rparr>) (destruct_slots (al_data a) [0..<nat (hxarray_capacity a)])"

text \<open>The two sides of an assignment and of \<open>memcpy\<close> are different objects (\<open>hxassertf\<close> checks that as \<open>bad_ref\<close>). Only arrays
  of the same type are assigned, and a move assignment exchanges the two.\<close>

definition hxarray_assign :: "'a hxarray \<Rightarrow> 'a hxarray \<Rightarrow> 'a hxarray hx" where
  "hxarray_assign a x = hx_bind (array_values x) (array_write a)"

definition hxarray_swap :: "'a hxarray \<Rightarrow> 'a hxarray \<Rightarrow> 'a hxarray \<times> 'a hxarray" where
  "hxarray_swap a x = (x, a)"

definition hxarray_assign_list :: "'a hxarray \<Rightarrow> 'a list \<Rightarrow> 'a hxarray hx" where
  "hxarray_assign_list a xs =
     (let was_unallocated = (hxarray_capacity a = 0)
      in hx_bind (reserve_storage (int (length xs)) a) (\<lambda>a1. if was_unallocated then array_construct a1 xs else array_write a1 xs))"

definition hxarray_reserve :: "(nat \<Rightarrow> 'a) \<Rightarrow> 'a hxarray \<Rightarrow> hxsize_t \<Rightarrow> 'a hxarray hx" where
  "hxarray_reserve initial a sz =
     hx_bind (reserve_storage sz a) (\<lambda>a1.
       if hxarray_capacity a = 0 then array_construct a1 (map initial [0..<nat sz]) else Inr a1)"

definition hxarray_memcpy :: "'a hxarray \<Rightarrow> 'a hxarray \<Rightarrow> 'a hxarray hx" where
  "hxarray_memcpy a x =
     (if hxarray_capacity a \<noteq> hxarray_capacity x then Inl (Assert_hard ''array_size mismatch'')
      else hx_bind (array_values x) (array_write a))"

section \<open>Elements\<close>

text \<open>An index is checked after a cast to \<open>size_t\<close>, so a negative one is out of range too.\<close>

definition array_index_in :: "hxsize_t \<Rightarrow> 'a hxarray \<Rightarrow> bool" where
  "array_index_in index a = ((word_of_int index :: size_t) < word_of_int (hxarray_capacity a))"

definition hxarray_at :: "'a hxarray \<Rightarrow> hxsize_t \<Rightarrow> 'a hx" where
  "hxarray_at a index =
     (if \<not> array_index_in index a then Inl (Assert_hard ''bad_index'') else read_slot (al_data a) (nat index))"

definition hxarray_and_then :: "('a \<Rightarrow> 'r option) \<Rightarrow> 'a hxarray \<Rightarrow> hxsize_t \<Rightarrow> 'r option hx" where
  "hxarray_and_then callable a index =
     (if array_index_in index a then hx_map callable (read_slot (al_data a) (nat index)) else Inr None)"

definition hxarray_and_then_it :: "('a \<Rightarrow> 'r option) \<Rightarrow> 'a hxarray \<Rightarrow> nat \<Rightarrow> 'r option hx" where
  "hxarray_and_then_it callable a it =
     (if int it \<noteq> hxarray_capacity a then hx_map callable (read_slot (al_data a) it) else Inr None)"

definition hxarray_or_else :: "nat \<Rightarrow> 'a hxarray \<Rightarrow> hxsize_t \<Rightarrow> nat" where
  "hxarray_or_else alternative a index = (if array_index_in index a then nat index else alternative)"

definition hxarray_or_else_it :: "nat \<Rightarrow> 'a hxarray \<Rightarrow> nat \<Rightarrow> nat" where
  "hxarray_or_else_it alternative a it = (if int it \<noteq> hxarray_capacity a then it else alternative)"

definition hxarray_value_or :: "'a \<Rightarrow> 'a hxarray \<Rightarrow> hxsize_t \<Rightarrow> 'a hx" where
  "hxarray_value_or alternative a index =
     (if array_index_in index a then read_slot (al_data a) (nat index) else Inr alternative)"

definition hxarray_value_or_it :: "'a \<Rightarrow> 'a hxarray \<Rightarrow> nat \<Rightarrow> 'a hx" where
  "hxarray_value_or_it alternative a it =
     (if int it \<noteq> hxarray_capacity a then read_slot (al_data a) it else Inr alternative)"

section \<open>Algorithms over the elements\<close>

definition hxarray_equal :: "('a \<Rightarrow> 'a \<Rightarrow> bool) \<Rightarrow> 'a hxarray \<Rightarrow> 'a hxarray \<Rightarrow> bool hx" where
  "hxarray_equal equal a x = hx_bind (array_values a) (\<lambda>xs. hx_map (hxequal_range equal xs) (array_values x))"

definition hxarray_less :: "('a \<Rightarrow> 'a \<Rightarrow> bool) \<Rightarrow> ('a \<Rightarrow> 'a \<Rightarrow> bool) \<Rightarrow> 'a hxarray \<Rightarrow> 'a hxarray \<Rightarrow> bool hx" where
  "hxarray_less equal lt a x = hx_bind (array_values a) (\<lambda>xs. hx_map (hxless_range equal lt xs) (array_values x))"

definition hxarray_all_of :: "('a \<Rightarrow> bool) \<Rightarrow> 'a hxarray \<Rightarrow> bool hx" where
  "hxarray_all_of callable a = hx_map (hxall_of callable) (array_values a)"

definition hxarray_any_of :: "('a \<Rightarrow> bool) \<Rightarrow> 'a hxarray \<Rightarrow> bool hx" where
  "hxarray_any_of callable a = hx_map (hxany_of callable) (array_values a)"

definition hxarray_find_if :: "('a \<Rightarrow> bool) \<Rightarrow> 'a hxarray \<Rightarrow> nat hx" where
  "hxarray_find_if callable a = hx_map (hxfind_if callable) (array_values a)"

definition hxarray_find :: "('a \<Rightarrow> 'a \<Rightarrow> bool) \<Rightarrow> 'a hxarray \<Rightarrow> 'a \<Rightarrow> nat hx" where
  "hxarray_find equal a v = hx_map (hxfind_if (\<lambda>x. equal x v)) (array_values a)"

definition hxarray_for_each :: "('s \<Rightarrow> 'a \<Rightarrow> 's \<times> 'a) \<Rightarrow> 's \<Rightarrow> 'a hxarray \<Rightarrow> ('s \<times> 'a hxarray) hx" where
  "hxarray_for_each callable s a =
     hx_bind (array_values a) (\<lambda>xs. let (s1, ys) = hxfor_each callable s xs in hx_map (Pair s1) (array_write a ys))"

definition hxarray_hash :: "('a \<Rightarrow> u32) \<Rightarrow> 'a hxarray \<Rightarrow> u32 hx" where
  "hxarray_hash hash_of a = hx_map (\<lambda>xs. hxhash_avalanche (hash_elements hash_of xs hxhash_k5)) (array_values a)"

definition hxarray_insertion_sort :: "('a \<Rightarrow> 'a \<Rightarrow> bool) \<Rightarrow> 'a hxarray \<Rightarrow> 'a hxarray hx" where
  "hxarray_insertion_sort lt a =
     hx_bind (array_values a) (\<lambda>xs. array_write a (hxinsertion_sort lt xs 0 (nat (hxarray_capacity a))))"

definition hxarray_sort :: "('a \<Rightarrow> 'a \<Rightarrow> bool) \<Rightarrow> 'a hxarray \<Rightarrow> 'a hxarray hx" where
  "hxarray_sort lt a =
     hx_bind (array_values a) (\<lambda>xs. hx_bind (hxsort lt xs 0 (nat (hxarray_capacity a))) (array_write a))"

definition hxarray_search :: "('a \<Rightarrow> 'a \<Rightarrow> bool) \<Rightarrow> 'a hxarray \<Rightarrow> 'a \<Rightarrow> nat hx" where
  "hxarray_search lt a v = hx_map (\<lambda>xs. hxsearch lt xs v) (array_values a)"

section \<open>The array as a list\<close>

definition array_rel :: "'a hxarray \<Rightarrow> 'a list \<Rightarrow> bool" where
  "array_rel a xs \<longleftrightarrow> allocator_ok a \<and> \<not> al_pow2 a \<and> al_capacity a = int (length xs) \<and> al_data a = map Some xs \<and> length xs < 2 ^ 63"

definition array_holds :: "'a hxarray hx \<Rightarrow> 'a list \<Rightarrow> bool" where
  "array_holds r xs \<longleftrightarrow> (\<exists>a. r = Inr a \<and> array_rel a xs)"

lemma all_live: "map Some xs = live_prefix xs (length xs)"
  by (simp add: live_prefix_def)

lemma array_values_rel: "array_rel a xs \<Longrightarrow> array_values a = Inr xs"
  using read_all_live [of xs "length xs"] by (simp add: array_values_def array_rel_def hxarray_capacity_def all_live)

lemma array_write_rel: "array_rel a xs \<Longrightarrow> length ys = length xs \<Longrightarrow> array_holds (array_write a ys) ys"
proof -
  assume rel: "array_rel a xs" and len: "length ys = length xs"
  have "write_slots (al_data a) 0 ys = Inr (map Some ys)"
    using write_all_live [of ys xs "length xs"] rel len by (simp add: array_rel_def live_prefix_def)
  then show ?thesis using rel len by (auto simp: array_write_def array_holds_def array_rel_def allocator_ok_def)
qed

lemma array_construct_raw:
  assumes "allocator_ok a" and "\<not> al_pow2 a" and "al_capacity a = int (length xs)" and "al_data a = replicate (length xs) None" and "length xs < 2 ^ 63"
  shows "array_holds (array_construct a xs) xs"
proof -
  have "construct_slots (al_data a) 0 xs = Inr (map Some xs)"
    using construct_slots_live [of "[]" xs "length xs"] assms(4) by (simp add: live_prefix_def)
  then show ?thesis using assms by (auto simp: array_construct_def array_holds_def array_rel_def allocator_ok_def)
qed

lemma new_fixed: "0 < n \<Longrightarrow> allocator_ok (hxallocator_new n False) \<and> al_capacity (hxallocator_new n False) = n \<and> al_data (hxallocator_new n False) = replicate (nat n) None"
  using allocator_new_ok [of n False] by (simp add: hxallocator_new_def hxallocator_dynamic_capacity_def element_count_def)

lemma hxarray_of_list_rel:
  fixes xs :: "'a list"
  assumes "0 \<le> fixed" and "length xs < 2 ^ 63"
  shows "if fixed = 0 \<or> fixed = int (length xs) then array_holds (hxarray_of_list fixed xs) xs
    else hxarray_of_list fixed xs = Inl (Assert_always ''bad_reserve already sized'')"
proof -
  have reserve: "reserve_storage (int (length xs)) (hxallocator_new fixed False :: 'a hxallocator) =
      (if fixed = 0 then Inr ((hxallocator_new 0 False)\<lparr>al_capacity := int (length xs), al_data := replicate (length xs) None\<rparr>)
       else if fixed = int (length xs) then Inr (hxallocator_new fixed False) else Inl (Assert_always ''bad_reserve already sized''))"
    by (auto simp: reserve_storage_def hxallocator_new_def hxallocator_dynamic_capacity_def element_count_def)
  show ?thesis
  proof (cases "fixed = 0")
    case True
    have "array_holds (array_construct ((hxallocator_new 0 False)\<lparr>al_capacity := int (length xs), al_data := replicate (length xs) None\<rparr>) xs) xs"
      by (rule array_construct_raw) (use assms in \<open>simp_all add: allocator_ok_def hxallocator_new_def hxallocator_dynamic_capacity_def element_count_def\<close>)
    then show ?thesis using True reserve by (simp add: hxarray_of_list_def)
  next
    case False
    have built: "array_holds (array_construct (hxallocator_new fixed False) xs) xs" if "fixed = int (length xs)"
      using new_fixed [of fixed] assms False that by (intro array_construct_raw) (auto simp: hxallocator_new_def)
    show ?thesis unfolding hxarray_of_list_def reserve using False built by auto
  qed
qed

lemma array_index_in_iff:
  assumes "array_rel a xs" and "- (2 ^ 63) \<le> i" and "i < 2 ^ 63"
  shows "array_index_in i a \<longleftrightarrow> 0 \<le> i \<and> i < int (length xs)"
proof -
  have "unat (word_of_int (hxarray_capacity a) :: size_t) = length xs"
    using assms(1) by (simp add: array_rel_def hxarray_capacity_def unat_of_nat_small)
  then show ?thesis
    using index_in_range [OF assms(2,3), of "word_of_int (hxarray_capacity a)"] assms(1) by (simp add: array_index_in_def array_rel_def)
qed

text \<open>Sorting: an empty array stays as it is, and a size that is a positive multiple of \<open>2\<^sup>32\<close> is not sorted at all.\<close>

lemma array_sort_rel:
  assumes order: "strict_weak_order lt" and rel: "array_rel a xs"
  shows "if xs \<noteq> [] \<and> 2 ^ 32 dvd length xs then hxarray_sort lt a = Inl (Undefined_behavior ''__builtin_clz(0)'')
    else \<exists>ys. array_holds (hxarray_sort lt a) ys \<and> mset ys = mset xs \<and> sorted_between lt ys 0 (length ys)"
proof -
  have sort: "hxarray_sort lt a = hx_bind (hxsort lt xs 0 (length xs)) (array_write a)"
    using rel by (simp add: hxarray_sort_def array_values_rel [OF rel] hxarray_capacity_def array_rel_def)
  have sorted: "\<exists>ys. array_holds (hxarray_sort lt a) ys \<and> mset ys = mset xs \<and> sorted_between lt ys 0 (length ys)"
    if "hxsort lt xs 0 (length xs) = Inr ys" "range_perm 0 (length xs) xs ys" "sorted_between lt ys 0 (length xs)" for ys
  proof -
    have "length ys = length xs" "mset ys = mset xs" using that(2) by (simp_all add: range_perm_def)
    then show ?thesis using array_write_rel [OF rel, of ys] that(1,3) sort by (intro exI [of _ ys]) simp
  qed
  show ?thesis
  proof (cases "xs = []")
    case True
    then have "hxsort lt xs 0 (length xs) = Inr xs"
      by (simp add: hxsort_def hxheapsort_cutoff_def hxinsertion_sort_def)
    then show ?thesis using sorted [of xs] True by (simp add: sorted_between_def)
  next
    case False
    then show ?thesis
      using hxsort_truncated_size [of 0 "length xs" lt xs] hxsort_result [OF order, of 0 "length xs" xs] sorted sort by auto
  qed
qed

lemma length_hxfor_each: "length (snd (hxfor_each callable s xs)) = length xs"
proof (induction xs arbitrary: s)
  case (Cons x xs)
  then show ?case by (simp add: case_prod_beta Let_def)
qed simp

lemma array_destroy_rel:
  assumes rel: "array_rel a xs"
  shows "hxarray_destroy a = Inr (a\<lparr>al_data := replicate (length xs) None\<rparr>)"
  using destruct_slots_live [of 0 xs "length xs"] rel by (simp add: hxarray_destroy_def hxarray_capacity_def array_rel_def live_prefix_def)

text \<open>A size is set once: a sized array takes sources of its size only, a dynamic one without storage takes any.\<close>

lemma array_reserve_rel:
  assumes rel: "array_rel a xs" and "n < 2 ^ 63"
  shows "reserve_storage (int n) a =
    (if n = length xs then Inr a else if xs \<noteq> [] then Inl (Assert_always ''bad_reserve already sized'')
     else Inr (a\<lparr>al_capacity := int n, al_data := replicate n None\<rparr>))"
  using rel by (auto simp: reserve_storage_def array_rel_def allocator_ok_def element_count_def hxallocator_dynamic_capacity_def)

lemma array_sized_rel:
  assumes rel: "array_rel a []" and "length zs < 2 ^ 63"
  shows "array_holds (array_construct (a\<lparr>al_capacity := int (length zs), al_data := replicate (length zs) None\<rparr>) zs) zs"
  using assms by (intro array_construct_raw) (auto simp: array_rel_def allocator_ok_def element_count_def)

lemma array_assign_list_rel:
  assumes rel: "array_rel a xs" and len: "length zs < 2 ^ 63"
  shows "if length zs = length xs \<or> xs = [] then array_holds (hxarray_assign_list a zs) zs
    else hxarray_assign_list a zs = Inl (Assert_always ''bad_reserve already sized'')"
proof -
  have capacity: "hxarray_capacity a = 0 \<longleftrightarrow> xs = []" using rel by (simp add: hxarray_capacity_def array_rel_def)
  have empty: "array_construct a [] = array_write a []" by (simp add: array_construct_def array_write_def)
  show ?thesis
    using array_reserve_rel [OF rel len] array_write_rel [OF rel, of zs] array_sized_rel [of a zs] rel len
    by (cases "xs = []"; cases "zs = []") (auto simp: hxarray_assign_list_def capacity empty)
qed

lemma array_reserve_size_rel:
  assumes rel: "array_rel a xs" and len: "n < 2 ^ 63"
  shows "if n = length xs then array_holds (hxarray_reserve initial a (int n)) xs
    else if xs = [] then array_holds (hxarray_reserve initial a (int n)) (map initial [0..<n])
    else hxarray_reserve initial a (int n) = Inl (Assert_always ''bad_reserve already sized'')"
proof -
  have capacity: "hxarray_capacity a = 0 \<longleftrightarrow> xs = []" using rel by (simp add: hxarray_capacity_def array_rel_def)
  have "array_holds (array_construct a []) []" if "xs = []" using array_write_rel [OF rel, of "[]"] that by (simp add: array_construct_def array_write_def)
  moreover have "array_holds (Inr a) xs" using rel by (simp add: array_holds_def)
  ultimately show ?thesis
    using array_reserve_rel [OF rel len] array_sized_rel [of a "map initial [0..<n]"] rel len
    by (auto simp: hxarray_reserve_def capacity)
qed

section \<open>Claims\<close>

text \<open>A dynamic array with the elements of a short list, for the examples.\<close>

definition example_array :: "int list \<Rightarrow> int hxarray" where
  "example_array xs = \<lparr>al_fixed = 0, al_pow2 = False, al_capacity = int (length xs), al_data = map Some xs\<rparr>"

lemma example_array_rel: "length xs < 2 ^ 63 \<Longrightarrow> array_rel (example_array xs) xs"
  by (simp add: example_array_def array_rel_def allocator_ok_def element_count_def)

text \<open>C33: an array is a list of fixed length, also the empty list of a dynamic array without storage. Constructing from a list
  gives that list or stops on another fixed size; copying gives the same list; an index of type \<open>hxsize_t\<close> reads the
  element it names or is \<open>bad_index\<close> (a negative one too); assigning another array of the type or memory of the
  same size replaces every element; assigning a list does so as well when the size is the same, constructs the elements of an array
  without storage, and stops otherwise; \<open>reserve\<close> keeps an array of that size, constructs the elements of one without storage and stops
  otherwise; \<open>for_each\<close> changes each element in order; \<open>sort\<close> sorts every array (by a strict weak order) except those
  whose size is a positive multiple of \<open>2\<^sup>32\<close>, where the call is undefined; destruction leaves every slot without an object.
  Lengths and sizes are values of \<open>hxsize_t\<close>, below \<open>2\<^sup>63\<close>.\<close>

theorem hxarray_refines_list:
  fixes a b :: "'a hxarray"
  assumes rel: "array_rel a xs" and other: "array_rel b ys"
    and i: "- (2 ^ 63) \<le> i" "i < 2 ^ 63" and zs: "length zs < 2 ^ 63" and n: "n < 2 ^ 63" and fixed: "0 \<le> fixed"
    and order: "strict_weak_order lt"
  shows "(if fixed = 0 \<or> fixed = int (length zs) then array_holds (hxarray_of_list fixed zs) zs
        else hxarray_of_list fixed zs = Inl (Assert_always ''bad_reserve already sized'')) \<and>
    array_holds (hxarray_copy a) xs \<and>
    (hxarray_at a i = (if 0 \<le> i \<and> i < int (length xs) then Inr (xs ! nat i) else Inl (Assert_hard ''bad_index''))) \<and>
    (if length ys = length xs then array_holds (hxarray_memcpy a b) ys else hxarray_memcpy a b = Inl (Assert_hard ''array_size mismatch'')) \<and>
    (length ys = length xs \<longrightarrow> array_holds (hxarray_assign a b) ys) \<and>
    (if length zs = length xs \<or> xs = [] then array_holds (hxarray_assign_list a zs) zs
        else hxarray_assign_list a zs = Inl (Assert_always ''bad_reserve already sized'')) \<and>
    (if n = length xs then array_holds (hxarray_reserve initial a (int n)) xs
        else if xs = [] then array_holds (hxarray_reserve initial a (int n)) (map initial [0..<n])
        else hxarray_reserve initial a (int n) = Inl (Assert_always ''bad_reserve already sized'')) \<and>
    (\<exists>r. hxarray_for_each callable s a = Inr r \<and> fst r = fst (hxfor_each callable s xs) \<and> array_rel (snd r) (snd (hxfor_each callable s xs))) \<and>
    (if xs \<noteq> [] \<and> 2 ^ 32 dvd length xs then hxarray_sort lt a = Inl (Undefined_behavior ''__builtin_clz(0)'')
        else \<exists>us. array_holds (hxarray_sort lt a) us \<and> mset us = mset xs \<and> sorted_between lt us 0 (length us)) \<and>
    (hxarray_destroy a = Inr (a\<lparr>al_data := replicate (length xs) None\<rparr>))"
proof (intro conjI impI)
  note elements = array_values_rel [OF rel] array_values_rel [OF other]
  have len: "length xs < 2 ^ 63" "hxarray_capacity a = int (length xs)" "al_data a = live_prefix xs (length xs)" "hxarray_capacity b = int (length ys)"
    using rel other by (simp_all add: array_rel_def all_live hxarray_capacity_def)
  have "0 \<le> al_fixed a" "al_fixed a = 0 \<or> al_fixed a = int (length xs)" using rel by (auto simp: array_rel_def allocator_ok_def)
  then show "array_holds (hxarray_copy a) xs" using hxarray_of_list_rel [of "al_fixed a" xs] len(1) by (simp add: hxarray_copy_def elements)
  show "hxarray_at a i = (if 0 \<le> i \<and> i < int (length xs) then Inr (xs ! nat i) else Inl (Assert_hard ''bad_index''))"
    using read_slot_live [of "nat i" xs "length xs"] by (auto simp: hxarray_at_def array_index_in_iff [OF rel i] len(3))
  show "if length ys = length xs then array_holds (hxarray_memcpy a b) ys else hxarray_memcpy a b = Inl (Assert_hard ''array_size mismatch'')"
    using array_write_rel [OF rel, of ys] by (simp add: hxarray_memcpy_def elements len)
  show "array_holds (hxarray_assign a b) ys" if "length ys = length xs"
    using array_write_rel [OF rel that] by (simp add: hxarray_assign_def elements)
  have "length (snd (hxfor_each callable s xs)) = length xs" by (rule length_hxfor_each)
  from array_write_rel [OF rel this]
  show "\<exists>r. hxarray_for_each callable s a = Inr r \<and> fst r = fst (hxfor_each callable s xs) \<and> array_rel (snd r) (snd (hxfor_each callable s xs))"
    by (auto simp: hxarray_for_each_def elements array_holds_def split: prod.splits)
qed (rule hxarray_of_list_rel [OF fixed zs] array_assign_list_rel [OF rel zs] array_reserve_size_rel [OF rel n]
    array_sort_rel [OF order rel] array_destroy_rel [OF rel])+

text \<open>The theorem at an array of three elements and at one without storage, which takes a list or a size.\<close>

theorem hxarray_refines_list_witness:
  "hxarray_at (example_array [7, 5, 6]) (- 1) = Inl (Assert_hard ''bad_index'') \<and>
   hxarray_assign_list (example_array [7, 5, 6]) [4] = Inl (Assert_always ''bad_reserve already sized'') \<and>
   array_holds (hxarray_memcpy (example_array [7, 5, 6]) (example_array [1, 2, 3])) [1, 2, 3] \<and>
   (\<exists>us. array_holds (hxarray_sort hxkey_less_num (example_array [7, 5, 6])) us \<and> mset us = {#5, 6, 7#}) \<and>
   array_holds (hxarray_assign_list (example_array []) [4]) [4] \<and>
   array_holds (hxarray_reserve int (example_array []) 2) [0, 1]"
proof -
  have sizes: "- (2 ^ 63) \<le> (- 1 :: int)" "(- 1 :: int) < 2 ^ 63" "length [4 :: int] < 2 ^ 63" "2 < (2 :: nat) ^ 63" "0 \<le> (2 :: hxsize_t)"
    by simp_all
  have rels: "array_rel (example_array [7, 5, 6]) [7, 5, 6]" "array_rel (example_array [1, 2, 3]) [1, 2, 3]" "array_rel (example_array []) []"
    by (simp_all add: example_array_rel)
  note three = hxarray_refines_list [OF rels(1,2) sizes num_key.strict_weak_order_axioms,
      where initial = int and callable = Pair and s = "0 :: nat"]
    and none = hxarray_refines_list [OF rels(3,2) sizes num_key.strict_weak_order_axioms,
      where initial = int and callable = Pair and s = "0 :: nat"]
  have "\<not> 2 ^ 32 dvd length [7 :: int, 5, 6]" by (simp add: nat_dvd_not_less)
  then obtain us where us: "array_holds (hxarray_sort hxkey_less_num (example_array [7, 5, 6])) us" "mset us = {#7, 5, 6#}"
    using three by (elim conjE) auto
  from us(2) have "mset us = {#5, 6, 7#}" by (simp add: add_mset_commute)
  moreover have "map int [0..<2] = [0, 1]" by (simp add: upt_rec)
  ultimately show ?thesis using three none us(1) by (intro conjI) (simp, simp, simp, blast, simp, simp)
qed

end
