(* ===== verification/HxDeque.thy ===== *)
theory HxDeque
  imports HxAllocator HxRange
begin

text \<open>
  The double-ended queue of \<^verbatim>\<open>include/hx/hxdeque.hpp\<close>. The head and tail counters are
  \<open>size_t\<close> values that are never reduced: they run over the whole word and wrap around it, and
  only the slot of an element is masked by the capacity, a power of two. The abstraction of a
  deque is the list of its elements from head to tail.
\<close>

section \<open>State\<close>

record 'a hxdeque =
  dq_alloc :: "'a hxallocator"
  dq_head :: size_t
  dq_tail :: size_t

abbreviation dq_data :: "'a hxdeque \<Rightarrow> 'a option list" where
  "dq_data d \<equiv> al_data (dq_alloc d)"

definition hxdeque_capacity :: "'a hxdeque \<Rightarrow> hxsize_t" where
  "hxdeque_capacity d = al_capacity (dq_alloc d)"

definition dq_mask :: "'a hxdeque \<Rightarrow> size_t" where
  "dq_mask d = word_of_int (hxdeque_capacity d) - 1"

definition dq_slot :: "'a hxdeque \<Rightarrow> size_t \<Rightarrow> nat" where
  "dq_slot d i = unat (i AND dq_mask d)"

definition dq_set_data :: "'a hxdeque \<Rightarrow> 'a option list \<Rightarrow> 'a hxdeque" where
  "dq_set_data d m = d\<lparr>dq_alloc := (dq_alloc d)\<lparr>al_data := m\<rparr>\<rparr>"

section \<open>Operations\<close>

definition hxdeque_size :: "'a hxdeque \<Rightarrow> hxsize_t" where
  "hxdeque_size d = sint (dq_tail d - dq_head d)"

definition hxdeque_empty :: "'a hxdeque \<Rightarrow> bool" where
  "hxdeque_empty d = (dq_tail d = dq_head d)"

definition hxdeque_full :: "'a hxdeque \<Rightarrow> bool" where
  "hxdeque_full d = (dq_tail d - dq_head d = word_of_int (hxdeque_capacity d))"

definition hxdeque_at :: "'a hxdeque \<Rightarrow> hxsize_t \<Rightarrow> 'a hx" where
  "hxdeque_at d index =
     (if \<not> word_of_int index < dq_tail d - dq_head d then Inl (Assert_hard ''bad_index'')
      else read_slot (dq_data d) (dq_slot d (dq_head d + word_of_int index)))"

text \<open>Assignment through the reference that the non-const \<open>operator[]\<close> returns.\<close>

definition hxdeque_assign :: "'a hxdeque \<Rightarrow> hxsize_t \<Rightarrow> 'a \<Rightarrow> 'a hxdeque hx" where
  "hxdeque_assign d index x =
     (if \<not> word_of_int index < dq_tail d - dq_head d then Inl (Assert_hard ''bad_index'')
      else hx_map (dq_set_data d) (assign_slot (dq_data d) (dq_slot d (dq_head d + word_of_int index)) x))"

definition hxdeque_front :: "'a hxdeque \<Rightarrow> 'a hx" where
  "hxdeque_front d =
     (if dq_tail d = dq_head d then Inl (Assert_hard ''queue_empty'')
      else read_slot (dq_data d) (dq_slot d (dq_head d)))"

definition hxdeque_back :: "'a hxdeque \<Rightarrow> 'a hx" where
  "hxdeque_back d =
     (if dq_tail d = dq_head d then Inl (Assert_hard ''queue_empty'')
      else read_slot (dq_data d) (dq_slot d (dq_tail d - 1)))"

definition hxdeque_push_back :: "'a hxdeque \<Rightarrow> 'a \<Rightarrow> 'a hxdeque hx" where
  "hxdeque_push_back d x =
     (if \<not> dq_tail d - dq_head d < word_of_int (hxdeque_capacity d) then Inl (Assert_hard ''deque_full'')
      else let slot = dq_slot d (dq_tail d);
               d1 = d\<lparr>dq_tail := dq_tail d + 1\<rparr>
           in hx_map (dq_set_data d1) (construct_slot (dq_data d1) slot x))"

definition hxdeque_push_front :: "'a hxdeque \<Rightarrow> 'a \<Rightarrow> 'a hxdeque hx" where
  "hxdeque_push_front d x =
     (if \<not> dq_tail d - dq_head d < word_of_int (hxdeque_capacity d) then Inl (Assert_hard ''deque_full'')
      else let d1 = d\<lparr>dq_head := dq_head d - 1\<rparr>;
               slot = dq_slot d1 (dq_head d1)
           in hx_map (dq_set_data d1) (construct_slot (dq_data d1) slot x))"

text \<open>\<open>emplace_back\<close> and \<open>emplace_front\<close> construct the element in place from its arguments.\<close>

definition hxdeque_emplace_back :: "'a hxdeque \<Rightarrow> ('b \<Rightarrow> 'a) \<Rightarrow> 'b \<Rightarrow> 'a hxdeque hx" where
  "hxdeque_emplace_back d constructor args =
     (if \<not> dq_tail d - dq_head d < word_of_int (hxdeque_capacity d) then Inl (Assert_hard ''deque_full'')
      else let slot = dq_slot d (dq_tail d);
               d1 = d\<lparr>dq_tail := dq_tail d + 1\<rparr>
           in hx_map (dq_set_data d1) (construct_slot (dq_data d1) slot (constructor args)))"

definition hxdeque_emplace_front :: "'a hxdeque \<Rightarrow> ('b \<Rightarrow> 'a) \<Rightarrow> 'b \<Rightarrow> 'a hxdeque hx" where
  "hxdeque_emplace_front d constructor args =
     (if \<not> dq_tail d - dq_head d < word_of_int (hxdeque_capacity d) then Inl (Assert_hard ''deque_full'')
      else let d1 = d\<lparr>dq_head := dq_head d - 1\<rparr>;
               slot = dq_slot d1 (dq_head d1)
           in hx_map (dq_set_data d1) (construct_slot (dq_data d1) slot (constructor args)))"

definition hxdeque_pop_back :: "'a hxdeque \<Rightarrow> 'a hxdeque hx" where
  "hxdeque_pop_back d =
     (if dq_tail d = dq_head d then Inl (Assert_hard ''queue_empty'')
      else let d1 = d\<lparr>dq_tail := dq_tail d - 1\<rparr>
           in hx_map (dq_set_data d1) (destroy_slot (dq_data d1) (dq_slot d1 (dq_tail d1))))"

definition hxdeque_pop_front :: "'a hxdeque \<Rightarrow> 'a hxdeque hx" where
  "hxdeque_pop_front d =
     (if dq_tail d = dq_head d then Inl (Assert_hard ''queue_empty'')
      else hx_map (\<lambda>m. dq_set_data (d\<lparr>dq_head := dq_head d + 1\<rparr>) m)
             (destroy_slot (dq_data d) (dq_slot d (dq_head d))))"

text \<open>The loop of \<open>clear\<close> counts from head to tail, through the end of the word if need be.\<close>

lemma distance_decreases: "i \<noteq> tail \<Longrightarrow> unat (tail - (i + 1)) < unat (tail - i)" for i tail :: size_t
  using measure_unat [of "tail - i"] by (simp add: diff_diff_add)

function hxdeque_clear_loop :: "size_t \<Rightarrow> size_t \<Rightarrow> size_t \<Rightarrow> 'a option list \<Rightarrow> 'a option list hx" where
  "hxdeque_clear_loop msk tail i m =
     (if i \<noteq> tail
      then hx_bind (destroy_slot m (unat (i AND msk))) (\<lambda>m'. hxdeque_clear_loop msk tail (i + 1) m')
      else Inr m)"
  by pat_completeness auto
termination
  by (relation "measure (\<lambda>(msk, tail, i, m). unat (tail - i))") (auto intro: distance_decreases)

declare hxdeque_clear_loop.simps [simp del]

definition hxdeque_clear :: "'a hxdeque \<Rightarrow> 'a hxdeque hx" where
  "hxdeque_clear d =
     hx_map (\<lambda>m. (dq_set_data d m)\<lparr>dq_head := 0, dq_tail := 0\<rparr>)
       (hxdeque_clear_loop (dq_mask d) (dq_tail d) (dq_head d) (dq_data d))"

definition is_pow2_or_0 :: "hxsize_t \<Rightarrow> bool" where
  "is_pow2_or_0 n = (n = 0 \<or> n AND (n - 1) = 0)"

definition hxdeque_reserve :: "'a hxdeque \<Rightarrow> hxsize_t \<Rightarrow> 'a hxdeque hx" where
  "hxdeque_reserve d sz =
     (if \<not> (sz > hxallocator_dynamic_capacity \<and> sz AND (sz - 1) = 0) then Inl (Assert_hard ''bad_capacity not pow2'')
      else hx_map (\<lambda>al. d\<lparr>dq_alloc := al\<rparr>) (reserve_storage sz (dq_alloc d)))"

text \<open>Construction. That a fixed capacity is zero or a power of two is checked when the type is instantiated.\<close>

definition hxdeque_raw :: "hxsize_t \<Rightarrow> 'a hxdeque" where
  "hxdeque_raw fixed = \<lparr>dq_alloc = hxallocator_new fixed False, dq_head = 0, dq_tail = 0\<rparr>"

definition hxdeque_new :: "hxsize_t \<Rightarrow> hxsize_t \<Rightarrow> 'a hxdeque hx" where
  "hxdeque_new fixed dynamic_capacity =
     (if \<not> is_pow2_or_0 dynamic_capacity then Inl (Assert_hard ''bad_capacity not pow2'')
      else if fixed = hxallocator_dynamic_capacity
      then hx_map (\<lambda>al. (hxdeque_raw fixed)\<lparr>dq_alloc := al\<rparr>)
             (reserve_storage dynamic_capacity (dq_alloc (hxdeque_raw fixed)))
      else Inr (hxdeque_raw fixed))"

definition hxdeque_add_range :: "'a hxdeque \<Rightarrow> 'a list \<Rightarrow> 'a hxdeque hx" where
  "hxdeque_add_range d xs = push_range hxdeque_push_back d xs"

definition hxdeque_of_list :: "hxsize_t \<Rightarrow> 'a list \<Rightarrow> 'a hxdeque hx" where
  "hxdeque_of_list fixed xs =
     (let sz = (word_of_nat (length xs) :: size_t)
      in hx_bind
        (if fixed = hxallocator_dynamic_capacity
         then if sz AND (sz - 1) \<noteq> 0 then Inl (Assert_hard ''bad_capacity not pow2'')
              else hx_map (\<lambda>al. (hxdeque_raw fixed)\<lparr>dq_alloc := al\<rparr>)
                     (reserve_storage (int (length xs)) (dq_alloc (hxdeque_raw fixed)))
         else if \<not> int (length xs) \<le> fixed then Inl (Assert_hard ''bad_capacity not pow2'')
              else Inr (hxdeque_raw fixed))
        (\<lambda>d. push_range hxdeque_push_back d xs))"

text \<open>Iterators are indices; a range over the deque reads the elements from \<open>begin()\<close> to \<open>end()\<close>.\<close>

fun hxdeque_visit :: "'a hxdeque \<Rightarrow> nat list \<Rightarrow> 'a list hx" where
  "hxdeque_visit d [] = Inr []"
| "hxdeque_visit d (i # is) =
     hx_bind (hxdeque_at d (int i)) (\<lambda>x. hx_map (\<lambda>xs. x # xs) (hxdeque_visit d is))"

definition hxdeque_elements :: "'a hxdeque \<Rightarrow> 'a list hx" where
  "hxdeque_elements d = hxdeque_visit d [0..<nat (hxdeque_size d)]"

fun hxdeque_find_loop :: "('a \<Rightarrow> 'a \<Rightarrow> bool) \<Rightarrow> 'a hxdeque \<Rightarrow> 'a \<Rightarrow> nat \<Rightarrow> nat list \<Rightarrow> nat hx" where
  "hxdeque_find_loop eq d v end_it [] = Inr end_it"
| "hxdeque_find_loop eq d v end_it (it # its) =
     hx_bind (hxdeque_at d (int it)) (\<lambda>x. if eq x v then Inr it else hxdeque_find_loop eq d v end_it its)"

definition hxdeque_find :: "('a \<Rightarrow> 'a \<Rightarrow> bool) \<Rightarrow> 'a hxdeque \<Rightarrow> 'a \<Rightarrow> nat hx" where
  "hxdeque_find eq d v = (let end_it = nat (hxdeque_size d) in hxdeque_find_loop eq d v end_it [0..<end_it])"

definition hxdeque_equal :: "('a \<Rightarrow> 'a \<Rightarrow> bool) \<Rightarrow> 'a hxdeque \<Rightarrow> 'a hxdeque \<Rightarrow> bool hx" where
  "hxdeque_equal eq d e =
     hx_bind (hxdeque_elements d) (\<lambda>xs. hx_map (hxequal_range eq xs) (hxdeque_elements e))"

definition hxdeque_less :: "('a \<Rightarrow> 'a \<Rightarrow> bool) \<Rightarrow> ('a \<Rightarrow> 'a \<Rightarrow> bool) \<Rightarrow> 'a hxdeque \<Rightarrow> 'a hxdeque \<Rightarrow> bool hx" where
  "hxdeque_less eq lt d e =
     hx_bind (hxdeque_elements d) (\<lambda>xs. hx_map (hxless_range eq lt xs) (hxdeque_elements e))"

definition hxdeque_swap :: "'a hxdeque \<Rightarrow> 'a hxdeque \<Rightarrow> 'a hxdeque \<times> 'a hxdeque" where
  "hxdeque_swap d e = (e, d)"

section \<open>The ring\<close>

text \<open>The storage read from the slot of the head, once round.\<close>

definition ring_view :: "'a list \<Rightarrow> nat \<Rightarrow> nat \<Rightarrow> 'a list" where
  "ring_view m h c = map (\<lambda>j. m ! ((h + j) mod c)) [0..<c]"

lemma length_ring_view [simp]: "length (ring_view m h c) = c"
  by (simp add: ring_view_def)

lemma ring_view_nth [simp]: "j < c \<Longrightarrow> ring_view m h c ! j = m ! ((h + j) mod c)"
  by (simp add: ring_view_def)

lemma ring_index_inj:
  assumes "(h + i) mod c = (h + j) mod c" "i < c" "j < c"
  shows "i = (j :: nat)"
proof -
  have "i = j" if "i \<le> j" "(h + i) mod c = (h + j) mod c" "j < c" for i j :: nat
  proof -
    have "c dvd (h + j) - (h + i)" using that mod_eq_dvd_iff_nat [of "h + i" "h + j" c] by simp
    then show ?thesis using that by (auto dest: dvd_imp_le)
  qed
  from this [of i j] this [of j i] show ?thesis using assms by (cases i j rule: linorder_le_cases) auto
qed

lemma ring_view_update:
  assumes "j < c" "length m = c"
  shows "ring_view (m[(h + j) mod c := v]) h c = (ring_view m h c)[j := v]"
  using assms by (intro nth_equalityI) (auto simp: nth_list_update dest: ring_index_inj)

lemma ring_view_mod: "ring_view m (h mod c) c = ring_view m h c"
  by (simp add: ring_view_def mod_add_left_eq)

lemma ring_view_rotate:
  assumes "0 < c"
  shows "ring_view m (Suc h) c = rotate1 (ring_view m h c)"
proof (rule nth_equalityI)
  fix i assume "i < length (ring_view m (Suc h) c)"
  then show "ring_view m (Suc h) c ! i = rotate1 (ring_view m h c) ! i"
    using assms by (simp add: nth_rotate1 mod_add_right_eq)
qed simp

text \<open>Word arithmetic on the counters, masked by a power of two.\<close>

lemma mask_slot:
  fixes w :: size_t
  assumes "k \<le> 64"
  shows "unat ((w + word_of_nat j) AND (2 ^ k - 1)) = (unat w + j) mod 2 ^ k"
proof -
  have "(2 :: nat) ^ k dvd 2 ^ 64" using assms by (rule le_imp_power_dvd)
  then have "(unat w + unat (word_of_nat j :: size_t)) mod 2 ^ 64 mod 2 ^ k = (unat w + j) mod 2 ^ k"
    by (simp add: mod_mod_cancel unat_of_nat mod_add_right_eq)
  then show ?thesis by (simp add: unat_and_mask unat_add_wrap)
qed

section \<open>The deque holds a list\<close>

definition deque_storage :: "'a hxallocator \<Rightarrow> bool" where
  "deque_storage al \<longleftrightarrow> allocator_ok al \<and> \<not> al_pow2 al \<and>
     (al_capacity al = 0 \<or> (\<exists>k<63. al_capacity al = 2 ^ k))"

definition deque_rel :: "'a hxdeque \<Rightarrow> 'a list \<Rightarrow> bool" where
  "deque_rel d xs \<longleftrightarrow>
     deque_storage (dq_alloc d) \<and>
     unat (dq_tail d - dq_head d) = length xs \<and> length xs \<le> nat (hxdeque_capacity d) \<and>
     ring_view (dq_data d) (unat (dq_head d)) (nat (hxdeque_capacity d)) =
       live_prefix xs (nat (hxdeque_capacity d))"

abbreviation deque_room :: "'a hxdeque \<Rightarrow> nat" where
  "deque_room d \<equiv> nat (hxdeque_capacity d)"

lemma deque_storage_facts:
  assumes "deque_storage al"
  shows "length (al_data al) = nat (al_capacity al)" "0 \<le> al_capacity al" "al_capacity al < 2 ^ 63"
proof -
  have "(2 :: int) ^ k < 2 ^ 63" if "k < 63" for k using that by (intro power_strict_increasing) auto
  then show "length (al_data al) = nat (al_capacity al)" "0 \<le> al_capacity al" "al_capacity al < 2 ^ 63"
    using assms by (auto simp: deque_storage_def allocator_ok_def element_count_def)
qed

lemma deque_storage_data: "deque_storage al \<Longrightarrow> length m = length (al_data al) \<Longrightarrow> deque_storage (al\<lparr>al_data := m\<rparr>)"
  by (simp add: deque_storage_def allocator_ok_def)

lemma deque_rel_facts:
  assumes "deque_rel d xs"
  shows "length (dq_data d) = deque_room d" "length xs \<le> deque_room d" "0 \<le> hxdeque_capacity d"
    "dq_tail d = dq_head d + word_of_nat (length xs)"
    "unat (dq_tail d - dq_head d) = length xs"
    "unat (word_of_int (hxdeque_capacity d) :: size_t) = deque_room d"
    "ring_view (dq_data d) (unat (dq_head d)) (deque_room d) = live_prefix xs (deque_room d)"
    "deque_room d < 2 ^ 63"
proof -
  note r = assms [unfolded deque_rel_def]
  note st = deque_storage_facts [OF r [THEN conjunct1], folded hxdeque_capacity_def]
  show "length (dq_data d) = deque_room d" "length xs \<le> deque_room d" "0 \<le> hxdeque_capacity d"
    "unat (dq_tail d - dq_head d) = length xs"
    "ring_view (dq_data d) (unat (dq_head d)) (deque_room d) = live_prefix xs (deque_room d)"
    using r st by blast+
  then have "dq_tail d - dq_head d = word_of_nat (length xs)" by (metis of_nat_unat ucast_id)
  then show "dq_tail d = dq_head d + word_of_nat (length xs)" by (simp add: algebra_simps)
  have "uint (word_of_int (hxdeque_capacity d) :: size_t) = hxdeque_capacity d"
    using st(2,3) by (simp add: uint_word_of_int)
  then show "unat (word_of_int (hxdeque_capacity d) :: size_t) = deque_room d"
    by (metis nat_uint_eq)
  show "deque_room d < 2 ^ 63" using st(2,3) by simp
qed

lemma deque_slot:
  assumes "deque_rel d xs" "0 < deque_room d"
  shows "unat ((w + word_of_nat j) AND dq_mask d) = (unat w + j) mod deque_room d"
proof -
  obtain k where k: "k < 63" "hxdeque_capacity d = 2 ^ k"
    using assms by (auto simp: deque_rel_def deque_storage_def hxdeque_capacity_def)
  then have "dq_mask d = 2 ^ k - 1" "deque_room d = 2 ^ k"
    by (simp_all add: dq_mask_def nat_power_eq)
  then show ?thesis using mask_slot [of k w j] k(1) by (simp only: less_imp_le)
qed

lemma deque_slot_0:
  assumes "deque_rel d xs" "0 < deque_room d"
  shows "unat (w AND dq_mask d) = unat w mod deque_room d"
  using deque_slot [OF assms, of w 0] by simp

text \<open>The guards of the operations decide on the number of elements.\<close>

lemma deque_full_iff: "deque_rel d xs \<Longrightarrow> dq_tail d - dq_head d < word_of_int (hxdeque_capacity d) \<longleftrightarrow> length xs < deque_room d"
  by (simp only: word_less_nat_alt deque_rel_facts(5,6))

lemma deque_empty_iff: "deque_rel d xs \<Longrightarrow> dq_tail d = dq_head d \<longleftrightarrow> xs = []"
  using deque_rel_facts(5) [of d xs] by (metis eq_iff_diff_eq_0 length_0_conv unat_eq_zero)

lemma deque_ring_slot:
  assumes "deque_rel d xs" "j < deque_room d"
  shows "dq_data d ! ((unat (dq_head d) + j) mod deque_room d) = live_prefix xs (deque_room d) ! j"
  using deque_rel_facts(7) [OF assms(1)] assms(2) by (metis ring_view_nth)

lemma dq_set_data_simps [simp]:
  "dq_data (dq_set_data d m) = m" "dq_head (dq_set_data d m) = dq_head d"
  "dq_tail (dq_set_data d m) = dq_tail d" "hxdeque_capacity (dq_set_data d m) = hxdeque_capacity d"
  "dq_alloc (dq_set_data d m) = (dq_alloc d)\<lparr>al_data := m\<rparr>"
  by (simp_all add: dq_set_data_def hxdeque_capacity_def)

lemma capacity_counters [simp]:
  "hxdeque_capacity (d\<lparr>dq_tail := t\<rparr>) = hxdeque_capacity d" "hxdeque_capacity (d\<lparr>dq_head := h\<rparr>) = hxdeque_capacity d"
  "dq_mask (d\<lparr>dq_tail := t\<rparr>) = dq_mask d" "dq_mask (d\<lparr>dq_head := h\<rparr>) = dq_mask d"
  by (simp_all add: hxdeque_capacity_def dq_mask_def)

text \<open>Establishing the relation again after an update of the storage.\<close>

lemma deque_relI:
  assumes "deque_rel d xs" "length ys \<le> deque_room d" "length m = deque_room d"
    "t = h + word_of_nat (length ys)"
    "ring_view m (unat h) (deque_room d) = live_prefix ys (deque_room d)"
  shows "deque_rel (dq_set_data (d\<lparr>dq_head := h, dq_tail := t\<rparr>) m) ys"
proof -
  have "length ys < 2 ^ 64" using assms(2) deque_rel_facts(8) [OF assms(1)] by simp
  then have "unat (t - h) = length ys" using assms(4) by (simp add: unat_of_nat_small)
  moreover have "deque_storage (dq_alloc d)" using assms(1) by (simp add: deque_rel_def)
  then have "deque_storage ((dq_alloc d)\<lparr>al_data := m\<rparr>)"
    using assms(3) deque_rel_facts(1) [OF assms(1)] by (intro deque_storage_data) simp_all
  ultimately show ?thesis
    using assms(2,5) by (simp add: deque_rel_def hxdeque_capacity_def dq_set_data_def)
qed

section \<open>The operations on the list\<close>

lemma live_prefix_Cons_shift:
  "length xs < c \<Longrightarrow> live_prefix (x # xs) c = Some x # live_prefix xs (c - 1)"
  by (simp add: live_prefix_def)

lemma live_prefix_shrink:
  "length xs < c \<Longrightarrow> live_prefix xs c = live_prefix xs (c - 1) @ [None]"
proof -
  assume "length xs < c"
  then have "c - length xs = Suc (c - 1 - length xs)" by simp
  then show ?thesis by (simp only: live_prefix_def replicate.simps append.assoc replicate_append_same)
qed

lemma hxdeque_push_back_rel:
  assumes rel: "deque_rel d xs"
  shows "length xs < deque_room d \<Longrightarrow>
      \<exists>d'. hxdeque_push_back d x = Inr d' \<and> deque_rel d' (xs @ [x]) \<and> hxdeque_capacity d' = hxdeque_capacity d"
    and "deque_room d \<le> length xs \<Longrightarrow> hxdeque_push_back d x = Inl (Assert_hard ''deque_full'')"
proof -
  note f = deque_rel_facts [OF rel]
  show "hxdeque_push_back d x = Inl (Assert_hard ''deque_full'')" if "deque_room d \<le> length xs"
    using that deque_full_iff [OF rel] by (simp add: hxdeque_push_back_def)
  assume room: "length xs < deque_room d"
  let ?s = "(unat (dq_head d) + length xs) mod deque_room d"
  have s: "dq_slot d (dq_tail d) = ?s"
    using deque_slot [OF rel, of "dq_head d" "length xs"] room f(4) by (simp add: dq_slot_def)
  have raw: "dq_data d ! ?s = None" using deque_ring_slot [OF rel room] room by simp
  have sl: "?s < length (dq_data d)" using room f(1) by simp
  let ?d = "dq_set_data (d\<lparr>dq_head := dq_head d, dq_tail := dq_tail d + 1\<rparr>) ((dq_data d)[?s := Some x])"
  have "hxdeque_push_back d x = Inr ?d"
    using deque_full_iff [OF rel] room
    by (simp add: hxdeque_push_back_def s construct_slot_Inr [OF sl raw] Let_def)
  moreover have "deque_rel ?d (xs @ [x])"
    using room f by (intro deque_relI [OF rel]) (simp_all add: ring_view_update live_prefix_snoc)
  ultimately show "\<exists>d'. hxdeque_push_back d x = Inr d' \<and> deque_rel d' (xs @ [x]) \<and>
      hxdeque_capacity d' = hxdeque_capacity d"
    by (intro exI [of _ ?d]) simp
qed

lemma ring_view_head:
  fixes h :: size_t
  assumes rel: "deque_rel d xs" and c: "0 < deque_room d"
  shows "ring_view m (unat (h + 1)) (deque_room d) = rotate1 (ring_view m (unat h) (deque_room d))"
proof -
  have "unat ((h + 1) AND dq_mask d) = unat (h + 1) mod deque_room d" by (rule deque_slot_0 [OF assms])
  moreover have "unat ((h + 1) AND dq_mask d) = Suc (unat h) mod deque_room d"
    using deque_slot [OF assms, of h 1] by simp
  ultimately have "ring_view m (unat (h + 1)) (deque_room d) = ring_view m (Suc (unat h)) (deque_room d)"
    by (metis ring_view_mod)
  then show ?thesis by (simp add: ring_view_rotate [OF c])
qed

lemma hxdeque_push_front_rel:
  assumes rel: "deque_rel d xs"
  shows "length xs < deque_room d \<Longrightarrow>
      \<exists>d'. hxdeque_push_front d x = Inr d' \<and> deque_rel d' (x # xs) \<and> hxdeque_capacity d' = hxdeque_capacity d"
    and "deque_room d \<le> length xs \<Longrightarrow> hxdeque_push_front d x = Inl (Assert_hard ''deque_full'')"
proof -
  note f = deque_rel_facts [OF rel]
  show "hxdeque_push_front d x = Inl (Assert_hard ''deque_full'')" if "deque_room d \<le> length xs"
    using that deque_full_iff [OF rel] by (simp add: hxdeque_push_front_def)
  assume room: "length xs < deque_room d"
  let ?h = "dq_head d - 1" and ?c = "deque_room d"
  let ?s = "(unat ?h + 0) mod ?c"
  have s: "dq_slot d ?h = ?s" using deque_slot_0 [OF rel, of ?h] room by (simp add: dq_slot_def)
  have sl: "?s < length (dq_data d)" using room f(1) by simp
  have "rotate1 (ring_view (dq_data d) (unat ?h) ?c) = live_prefix xs (?c - 1) @ [None]"
    using ring_view_head [OF rel, of "dq_data d" ?h] room f(7) live_prefix_shrink [OF room] by simp
  then have view: "ring_view (dq_data d) (unat ?h) ?c = None # live_prefix xs (?c - 1)"
    by (cases "ring_view (dq_data d) (unat ?h) ?c") simp_all
  have "0 < ?c" using room by simp
  from ring_view_nth [OF this, of "dq_data d" "unat ?h"] have raw: "dq_data d ! ?s = None"
    by (simp only: view) simp
  let ?d = "dq_set_data (d\<lparr>dq_head := ?h, dq_tail := dq_tail d\<rparr>) ((dq_data d)[?s := Some x])"
  have "hxdeque_push_front d x = Inr ?d"
    using deque_full_iff [OF rel] room construct_slot_Inr [OF sl raw, of x]
    by (simp add: hxdeque_push_front_def s [unfolded dq_slot_def] dq_slot_def Let_def)
  moreover have "ring_view ((dq_data d)[?s := Some x]) (unat ?h) ?c = live_prefix (x # xs) ?c"
    using ring_view_update [of 0 ?c "dq_data d" "unat ?h" "Some x"] \<open>0 < ?c\<close> f(1) view
      live_prefix_Cons_shift [OF room] by simp
  then have "deque_rel ?d (x # xs)"
    using room f by (intro deque_relI [OF rel]) simp_all
  ultimately show "\<exists>d'. hxdeque_push_front d x = Inr d' \<and> deque_rel d' (x # xs) \<and>
      hxdeque_capacity d' = hxdeque_capacity d"
    by (intro exI [of _ ?d]) simp
qed

lemma hxdeque_pop_back_rel:
  assumes rel: "deque_rel d xs"
  shows "xs \<noteq> [] \<Longrightarrow>
      \<exists>d'. hxdeque_pop_back d = Inr d' \<and> deque_rel d' (butlast xs) \<and> hxdeque_capacity d' = hxdeque_capacity d"
    and "xs = [] \<Longrightarrow> hxdeque_pop_back d = Inl (Assert_hard ''queue_empty'')"
proof -
  note f = deque_rel_facts [OF rel]
  show "hxdeque_pop_back d = Inl (Assert_hard ''queue_empty'')" if "xs = []"
    using that deque_empty_iff [OF rel] by (simp add: hxdeque_pop_back_def)
  assume ne: "xs \<noteq> []"
  then have "0 < length xs" by simp
  then have n: "length xs - 1 < deque_room d" "0 < deque_room d" using f(2) by linarith+
  have t: "dq_tail d - 1 = dq_head d + word_of_nat (length xs - 1)"
    using ne by (simp add: f(4) of_nat_diff Suc_leI)
  let ?s = "(unat (dq_head d) + (length xs - 1)) mod deque_room d"
  have s: "dq_slot d (dq_tail d - 1) = ?s"
    unfolding t dq_slot_def using deque_slot [OF rel n(2)] by simp
  have live: "dq_data d ! ?s = Some (xs ! (length xs - 1))"
    using deque_ring_slot [OF rel n(1)] ne by simp
  have sl: "?s < length (dq_data d)" using n f(1) by simp
  let ?d = "dq_set_data (d\<lparr>dq_head := dq_head d, dq_tail := dq_tail d - 1\<rparr>) ((dq_data d)[?s := None])"
  have "hxdeque_pop_back d = Inr ?d"
    using deque_empty_iff [OF rel] ne destroy_slot_Inr [OF sl live] s
    by (simp add: hxdeque_pop_back_def dq_slot_def Let_def)
  moreover have "deque_rel ?d (butlast xs)"
    using ne f n t by (intro deque_relI [OF rel]) (simp_all add: ring_view_update live_prefix_butlast [unfolded One_nat_def])
  ultimately show "\<exists>d'. hxdeque_pop_back d = Inr d' \<and> deque_rel d' (butlast xs) \<and>
      hxdeque_capacity d' = hxdeque_capacity d"
    by (intro exI [of _ ?d]) simp
qed

lemma hxdeque_pop_front_rel:
  assumes rel: "deque_rel d xs"
  shows "xs \<noteq> [] \<Longrightarrow>
      \<exists>d'. hxdeque_pop_front d = Inr d' \<and> deque_rel d' (tl xs) \<and> hxdeque_capacity d' = hxdeque_capacity d"
    and "xs = [] \<Longrightarrow> hxdeque_pop_front d = Inl (Assert_hard ''queue_empty'')"
proof -
  note f = deque_rel_facts [OF rel]
  show "hxdeque_pop_front d = Inl (Assert_hard ''queue_empty'')" if "xs = []"
    using that deque_empty_iff [OF rel] by (simp add: hxdeque_pop_front_def)
  assume "xs \<noteq> []"
  then obtain x ys where xs: "xs = x # ys" by (cases xs) auto
  let ?c = "deque_room d"
  have c: "0 < ?c" "length ys < ?c" using f(2) xs by auto
  let ?s = "(unat (dq_head d) + 0) mod ?c"
  have s: "dq_slot d (dq_head d) = ?s"
    using deque_slot_0 [OF rel c(1)] by (simp add: dq_slot_def)
  have live: "dq_data d ! ?s = Some x" using deque_ring_slot [OF rel c(1)] xs by simp
  have sl: "?s < length (dq_data d)" using c f(1) by simp
  let ?d = "dq_set_data (d\<lparr>dq_head := dq_head d + 1, dq_tail := dq_tail d\<rparr>) ((dq_data d)[?s := None])"
  have "hxdeque_pop_front d = Inr ?d"
    using deque_empty_iff [OF rel] xs destroy_slot_Inr [OF sl live] s
    by (simp add: hxdeque_pop_front_def)
  moreover have "ring_view ((dq_data d)[?s := None]) (unat (dq_head d + 1)) ?c = live_prefix ys ?c"
    using ring_view_head [OF rel c(1), of "(dq_data d)[?s := None]" "dq_head d"] ring_view_update [of 0 ?c "dq_data d" "unat (dq_head d)" None]
      c f(1,7) xs live_prefix_Cons_shift [OF c(2), of x] live_prefix_shrink [OF c(2)] by simp
  then have "deque_rel ?d ys"
    using c f xs by (intro deque_relI [OF rel]) simp_all
  ultimately show "\<exists>d'. hxdeque_pop_front d = Inr d' \<and> deque_rel d' (tl xs) \<and>
      hxdeque_capacity d' = hxdeque_capacity d"
    using xs by (intro exI [of _ ?d]) simp
qed

lemma hxdeque_at_rel:
  assumes rel: "deque_rel d xs" and i: "i < 2 ^ 64"
  shows "hxdeque_at d (int i) = (if i < length xs then Inr (xs ! i) else Inl (Assert_hard ''bad_index''))"
proof -
  note f = deque_rel_facts [OF rel]
  have u: "unat (word_of_nat i :: size_t) = i" using i by (simp add: unat_of_nat_small)
  show ?thesis
  proof (cases "i < length xs")
    case True
    then have c: "i < deque_room d" "0 < deque_room d" using f(2) by auto
    have "dq_data d ! ((unat (dq_head d) + i) mod deque_room d) = Some (xs ! i)"
      using deque_ring_slot [OF rel c(1)] True by simp
    then have "read_slot (dq_data d) (dq_slot d (dq_head d + word_of_nat i)) = Inr (xs ! i)"
      unfolding dq_slot_def deque_slot [OF rel c(2)] using c f(1) by (intro read_slot_Inr) auto
    then show ?thesis using True by (simp add: hxdeque_at_def word_less_nat_alt f(5) u)
  next
    case False
    then show ?thesis by (simp add: hxdeque_at_def word_less_nat_alt f(5) u)
  qed
qed

lemma hxdeque_assign_rel:
  assumes rel: "deque_rel d xs" and i: "i < length xs"
  shows "\<exists>d'. hxdeque_assign d (int i) x = Inr d' \<and> deque_rel d' (xs[i := x])"
proof -
  note f = deque_rel_facts [OF rel]
  have c: "i < deque_room d" "0 < deque_room d" using i f(2) by auto
  have u: "unat (word_of_nat i :: size_t) = i" using c f(8) by (simp add: unat_of_nat_small)
  let ?s = "(unat (dq_head d) + i) mod deque_room d"
  have live: "dq_data d ! ?s = Some (xs ! i)" using deque_ring_slot [OF rel c(1)] i by simp
  have sl: "?s < length (dq_data d)" using c f(1) by simp
  let ?d = "dq_set_data (d\<lparr>dq_head := dq_head d, dq_tail := dq_tail d\<rparr>) ((dq_data d)[?s := Some x])"
  have "hxdeque_assign d (int i) x = Inr ?d"
    using i assign_slot_Inr [OF sl live, of x]
    by (simp add: hxdeque_assign_def word_less_nat_alt f(5) u dq_slot_def deque_slot [OF rel c(2)])
  moreover have "deque_rel ?d (xs[i := x])"
    using i f c by (intro deque_relI [OF rel]) (simp_all add: ring_view_update live_prefix_update)
  ultimately show ?thesis by blast
qed

lemma hxdeque_ends_rel:
  assumes rel: "deque_rel d xs"
  shows "hxdeque_front d = (if xs = [] then Inl (Assert_hard ''queue_empty'') else Inr (hd xs))"
    and "hxdeque_back d = (if xs = [] then Inl (Assert_hard ''queue_empty'') else Inr (last xs))"
proof -
  note f = deque_rel_facts [OF rel]
  show "hxdeque_front d = (if xs = [] then Inl (Assert_hard ''queue_empty'') else Inr (hd xs))"
  proof (cases "xs = []")
    case False
    then have "hxdeque_at d 0 = Inr (hd xs)" using hxdeque_at_rel [OF rel, of 0] by (simp add: hd_conv_nth)
    then show ?thesis using False deque_empty_iff [OF rel]
      by (auto simp: hxdeque_front_def hxdeque_at_def split: if_splits)
  qed (use deque_empty_iff [OF rel] in \<open>simp add: hxdeque_front_def\<close>)
  show "hxdeque_back d = (if xs = [] then Inl (Assert_hard ''queue_empty'') else Inr (last xs))"
  proof (cases "xs = []")
    case False
    have len: "length xs - 1 < 2 ^ 64" "length xs - 1 < length xs" using False f(2,8) by auto
    have t: "dq_tail d - 1 = dq_head d + word_of_int (int (length xs - 1))"
      using False by (simp add: f(4) of_nat_diff Suc_leI)
    have "hxdeque_at d (int (length xs - 1)) = Inr (last xs)"
      using hxdeque_at_rel [OF rel len(1)] len(2)
      by (simp only: last_conv_nth [OF False] if_True)
    then have "read_slot (dq_data d) (dq_slot d (dq_tail d - 1)) = Inr (last xs)"
      unfolding t by (auto simp: hxdeque_at_def split: if_splits)
    then show ?thesis using False deque_empty_iff [OF rel] by (simp add: hxdeque_back_def)
  qed (use deque_empty_iff [OF rel] in \<open>simp add: hxdeque_back_def\<close>)
qed

lemma hxdeque_size_rel:
  assumes "deque_rel d xs"
  shows "hxdeque_size d = int (length xs)" "hxdeque_empty d \<longleftrightarrow> xs = []"
    "hxdeque_full d \<longleftrightarrow> length xs = deque_room d"
proof -
  note f = deque_rel_facts [OF assms]
  have "uint (dq_tail d - dq_head d) = int (length xs)" using f(5) by (simp add: uint_nat)
  then show "hxdeque_size d = int (length xs)"
    using f(2,8) by (simp add: hxdeque_size_def sint_uint signed_take_bit_int_eq_self)
  show "hxdeque_empty d \<longleftrightarrow> xs = []" by (simp add: hxdeque_empty_def deque_empty_iff [OF assms])
  show "hxdeque_full d \<longleftrightarrow> length xs = deque_room d"
    unfolding hxdeque_full_def by (metis f(5,6) word_unat_eq_iff)
qed

text \<open>Clearing destroys every element once and leaves all slots raw.\<close>

lemma hxdeque_clear_loop_correct:
  assumes "0 < c" "\<And>w j. unat (((w :: size_t) + word_of_nat j) AND msk) = (unat w + j) mod c"
  shows "ring_view m (unat i) c = live_prefix xs c \<Longrightarrow> length m = c \<Longrightarrow> length xs \<le> c \<Longrightarrow> c < 2 ^ 63 \<Longrightarrow>
    tail = i + word_of_nat (length xs) \<Longrightarrow> hxdeque_clear_loop msk tail i m = Inr (replicate c None)"
proof (induction xs arbitrary: i m)
  case Nil
  have "m ! k = None" if "k < c" for k
  proof -
    define j where "j = (k + c - unat i mod c) mod c"
    have "(unat i + j) mod c = (unat i mod c + (k + c - unat i mod c)) mod c"
      unfolding j_def by (simp add: mod_simps)
    also have "unat i mod c + (k + c - unat i mod c) = k + c"
      using assms(1) mod_less_divisor [of c "unat i"] by linarith
    finally have "(unat i + j) mod c = k" using that by simp
    moreover have "j < c" using assms(1) by (simp add: j_def)
    ultimately show ?thesis using ring_view_nth [of j c m "unat i"] Nil.prems(1) by simp
  qed
  then have "m = replicate c None" using Nil.prems(2) by (intro nth_equalityI) auto
  then show ?case using Nil.prems by (subst hxdeque_clear_loop.simps) simp
next
  case (Cons x xs)
  let ?s = "(unat i + 0) mod c"
  have ne: "i \<noteq> tail"
  proof -
    have "unat (word_of_nat (length (x # xs)) :: size_t) = length (x # xs)"
      using Cons.prems(3,4) by (intro unat_of_nat_small) simp
    then have "(word_of_nat (length (x # xs)) :: size_t) \<noteq> 0" by (metis unat_0 list.size(4) add_is_0 one_neq_zero One_nat_def)
    then show ?thesis using Cons.prems(5) by simp
  qed
  have s: "unat (i AND msk) = ?s" using assms(2) [of i 0] by simp
  have "m ! ?s = Some x" using ring_view_nth [OF assms(1), of m "unat i"] Cons.prems(1,3) assms(1)
    by (simp add: live_prefix_def)
  then have d: "destroy_slot m (unat (i AND msk)) = Inr (m[?s := None])"
    unfolding s using assms(1) Cons.prems(2) by (intro destroy_slot_Inr) auto
  have lt: "length xs < c" using Cons.prems(3) by simp
  have "ring_view (m[?s := None]) (unat (i + 1)) c = ring_view (m[?s := None]) (Suc (unat i)) c"
  proof -
    have "unat (i + 1) mod c = Suc (unat i) mod c" using assms(2) [of i 1] assms(2) [of "i + 1" 0] by simp
    then show ?thesis by (metis ring_view_mod)
  qed
  also have "\<dots> = live_prefix xs c"
    using ring_view_update [of 0 c m "unat i" None] assms(1) Cons.prems(1,2)
      live_prefix_Cons_shift [OF lt, of x] live_prefix_shrink [OF lt]
    by (simp add: ring_view_rotate [OF assms(1)])
  finally have "hxdeque_clear_loop msk tail (i + 1) (m[?s := None]) = Inr (replicate c None)"
    using Cons.prems lt by (intro Cons.IH) (simp_all add: add.assoc)
  then show ?case using ne d by (subst hxdeque_clear_loop.simps) simp
qed

lemma ring_view_raw: "ring_view (replicate c None) h c = live_prefix [] c"
  by (intro nth_equalityI) (simp_all add: live_prefix_def)

lemma hxdeque_clear_rel:
  assumes rel: "deque_rel d xs"
  shows "\<exists>d'. hxdeque_clear d = Inr d' \<and> deque_rel d' [] \<and> dq_data d' = replicate (deque_room d) None \<and>
    hxdeque_capacity d' = hxdeque_capacity d"
proof -
  note f = deque_rel_facts [OF rel]
  let ?d = "dq_set_data (d\<lparr>dq_head := 0, dq_tail := 0\<rparr>) (replicate (deque_room d) None)"
  have upd: "(dq_set_data d m)\<lparr>dq_head := 0, dq_tail := 0\<rparr> = dq_set_data (d\<lparr>dq_head := 0, dq_tail := 0\<rparr>) m" for m
    by (simp add: dq_set_data_def)
  have "hxdeque_clear_loop (dq_mask d) (dq_tail d) (dq_head d) (dq_data d) = Inr (replicate (deque_room d) None)"
  proof (cases "0 < deque_room d")
    case True
    then show ?thesis
      using f deque_slot [OF rel True] by (intro hxdeque_clear_loop_correct [where xs = xs]) auto
  next
    case False
    then have "xs = []" "dq_data d = []" using f(1,2) by auto
    then show ?thesis using False f(4) by (subst hxdeque_clear_loop.simps) simp
  qed
  then have "hxdeque_clear d = Inr ?d" by (simp add: hxdeque_clear_def upd)
  moreover have "deque_rel ?d []"
    by (rule deque_relI [OF rel]) (simp_all add: ring_view_raw)
  ultimately show ?thesis by (intro exI [of _ ?d]) simp
qed

text \<open>The deque provides the interface of the containers that are appended to.\<close>

interpretation dq: back_inserter hxdeque_push_back deque_rel deque_room
proof
  fix c :: "'a hxdeque" and xs :: "'a list" and x
  assume rel: "deque_rel c xs"
  show "length xs < deque_room c \<Longrightarrow>
      \<exists>c'. hxdeque_push_back c x = Inr c' \<and> deque_rel c' (xs @ [x]) \<and> deque_room c' = deque_room c"
    using hxdeque_push_back_rel(1) [OF rel] by fastforce
  show "deque_room c \<le> length xs \<Longrightarrow> \<not> hx_ok (hxdeque_push_back c x)"
    using hxdeque_push_back_rel(2) [OF rel] by simp
  show "length xs \<le> deque_room c" by (rule deque_rel_facts(2) [OF rel])
qed

text \<open>Visiting the deque through its iterators reads its list.\<close>

lemma hxdeque_visit_rel:
  "deque_rel d xs \<Longrightarrow> (\<And>i. i \<in> set is \<Longrightarrow> i < length xs) \<Longrightarrow> hxdeque_visit d is = Inr (map ((!) xs) is)"
proof (induction "is")
  case (Cons i "is")
  then have "i < length xs" by simp
  then have "hxdeque_at d (int i) = Inr (xs ! i)"
    using hxdeque_at_rel [OF Cons.prems(1), of i] deque_rel_facts(2,8) [OF Cons.prems(1)] by simp
  then show ?case using Cons by simp
qed simp

lemma hxdeque_elements_rel: "deque_rel d xs \<Longrightarrow> hxdeque_elements d = Inr xs"
  using hxdeque_visit_rel [of d xs "[0..<length xs]"]
  by (simp add: hxdeque_elements_def hxdeque_size_rel(1) map_nth)

lemma hxdeque_find_loop_rel:
  "deque_rel d xs \<Longrightarrow> k \<le> length xs \<Longrightarrow>
   hxdeque_find_loop eq d v (length xs) [k..<length xs] = Inr (k + length (takeWhile (\<lambda>x. \<not> eq x v) (drop k xs)))"
proof (induction "length xs - k" arbitrary: k)
  case (Suc n)
  then have k: "k < length xs" "[k..<length xs] = k # [Suc k..<length xs]" by (simp_all add: upt_conv_Cons)
  have "hxdeque_at d (int k) = Inr (xs ! k)"
    using hxdeque_at_rel [OF Suc.prems(1), of k] deque_rel_facts(2,8) [OF Suc.prems(1)] k(1) by simp
  then show ?case
    using Suc.hyps(1) [of "Suc k"] Suc.hyps(2) Suc.prems(1) k by (simp add: Cons_nth_drop_Suc [symmetric])
qed simp

lemma hxdeque_find_rel:
  "deque_rel d xs \<Longrightarrow> hxdeque_find eq d v = Inr (hxfind_if (\<lambda>x. eq x v) xs)"
  using hxdeque_find_loop_rel [of d xs 0 eq v]
  by (simp add: hxdeque_find_def Let_def hxdeque_size_rel(1) hxfind_if_spec)

text \<open>A deque is empty when it is made, with the capacity it was asked for.\<close>

lemma deque_rel_raw:
  assumes "deque_storage al" "\<And>i. i < length (al_data al) \<Longrightarrow> al_data al ! i = None"
  shows "deque_rel \<lparr>dq_alloc = al, dq_head = 0, dq_tail = 0\<rparr> []"
proof -
  have "al_data al = replicate (nat (al_capacity al)) None"
    using assms deque_storage_facts(1) [OF assms(1)] by (intro nth_equalityI) auto
  then show ?thesis using assms(1) by (simp add: deque_rel_def hxdeque_capacity_def ring_view_raw)
qed

lemma pow2_and_pred: "(2 :: int) ^ k AND (2 ^ k - 1) = 0"
  by (simp only: mask_eq_exp_minus_1 [symmetric] take_bit_eq_mask [symmetric]) (simp add: take_bit_eq_mod)

lemma reserved_storage:
  assumes "k < 63"
  shows "\<exists>al. reserve_storage (2 ^ k) (hxallocator_new 0 False) = Inr al \<and> deque_storage al \<and>
    al_capacity al = 2 ^ k \<and> (\<forall>i<length (al_data al). al_data al ! i = None)"
  using assms
  by (auto simp: reserve_storage_def hxallocator_new_def hxallocator_dynamic_capacity_def deque_storage_def
      allocator_ok_def)

lemma fixed_storage:
  assumes "k < 63"
  shows "deque_storage (hxallocator_new (2 ^ k) False)" "al_capacity (hxallocator_new (2 ^ k) False) = 2 ^ k"
    "i < length (al_data (hxallocator_new (2 ^ k) False)) \<Longrightarrow> al_data (hxallocator_new (2 ^ k) False) ! i = None"
  using assms by (auto simp: hxallocator_new_def hxallocator_dynamic_capacity_def deque_storage_def allocator_ok_def)

lemma hxdeque_new_rel:
  assumes "k < 63"
  shows "\<exists>d. hxdeque_new 0 (2 ^ k) = Inr (d :: 'a hxdeque) \<and> deque_rel d [] \<and> hxdeque_capacity d = 2 ^ k"
    and "\<exists>d. hxdeque_new (2 ^ k) 0 = Inr (d :: 'a hxdeque) \<and> deque_rel d [] \<and> hxdeque_capacity d = 2 ^ k"
proof -
  obtain al :: "'a hxallocator" where "reserve_storage (2 ^ k) (hxallocator_new 0 False) = Inr al" "deque_storage al"
    "al_capacity al = 2 ^ k" "\<And>i. i < length (al_data al) \<Longrightarrow> al_data al ! i = None"
    using reserved_storage [OF assms] by blast
  then show "\<exists>d. hxdeque_new 0 (2 ^ k) = Inr (d :: 'a hxdeque) \<and> deque_rel d [] \<and> hxdeque_capacity d = 2 ^ k"
    using deque_rel_raw [of al]
    by (simp add: hxdeque_new_def is_pow2_or_0_def pow2_and_pred hxallocator_dynamic_capacity_def
        hxdeque_raw_def hxdeque_capacity_def)
  show "\<exists>d. hxdeque_new (2 ^ k) 0 = Inr (d :: 'a hxdeque) \<and> deque_rel d [] \<and> hxdeque_capacity d = 2 ^ k"
    using deque_rel_raw [OF fixed_storage(1,3) [OF assms]]
    by (simp add: fixed_storage(2) [OF assms] hxdeque_new_def is_pow2_or_0_def hxallocator_dynamic_capacity_def hxdeque_raw_def
        hxdeque_capacity_def)
qed

text \<open>Emplacing constructs the element that pushing would copy.\<close>

lemma hxdeque_emplace_push:
  "hxdeque_emplace_back d constructor args = hxdeque_push_back d (constructor args)"
  "hxdeque_emplace_front d constructor args = hxdeque_push_front d (constructor args)"
  by (simp_all add: hxdeque_emplace_back_def hxdeque_push_back_def hxdeque_emplace_front_def hxdeque_push_front_def)

text \<open>An index of type \<open>hxsize_t\<close>, negative ones included.\<close>

lemma deque_index:
  assumes rel: "deque_rel d xs" and i: "- (2 ^ 63) \<le> i" "i < 2 ^ 63"
  shows "word_of_int i < dq_tail d - dq_head d \<longleftrightarrow> 0 \<le> i \<and> i < int (length xs)"
  using index_in_range [OF i, of "dq_tail d - dq_head d"] deque_rel_facts(2,5,8) [OF rel] by simp

lemma hxdeque_index_rel:
  assumes rel: "deque_rel d xs" and i: "- (2 ^ 63) \<le> i" "i < 2 ^ 63"
  shows "hxdeque_at d i = (if 0 \<le> i \<and> i < int (length xs) then Inr (xs ! nat i) else Inl (Assert_hard ''bad_index''))"
    and "if 0 \<le> i \<and> i < int (length xs) then \<exists>d'. hxdeque_assign d i x = Inr d' \<and> deque_rel d' (xs[nat i := x])
      else hxdeque_assign d i x = Inl (Assert_hard ''bad_index'')"
proof -
  have in_range: "hxdeque_at d i = Inr (xs ! nat i)" if "0 \<le> i \<and> i < int (length xs)"
  proof -
    have "nat i < 2 ^ 64" "nat i < length xs" "int (nat i) = i" using that i by auto
    then show ?thesis using hxdeque_at_rel [OF rel, of "nat i"] by simp
  qed
  then show "hxdeque_at d i = (if 0 \<le> i \<and> i < int (length xs) then Inr (xs ! nat i) else Inl (Assert_hard ''bad_index''))"
    using deque_index [OF assms] by (auto simp: hxdeque_at_def)
  show "if 0 \<le> i \<and> i < int (length xs) then \<exists>d'. hxdeque_assign d i x = Inr d' \<and> deque_rel d' (xs[nat i := x])
      else hxdeque_assign d i x = Inl (Assert_hard ''bad_index'')"
    using deque_index [OF assms] hxdeque_assign_rel [OF rel, of "nat i" x] by (auto simp: hxdeque_assign_def)
qed

text \<open>The test of the source for a power of two is exact.\<close>

lemma pow2_test: "0 < n \<Longrightarrow> n AND (n - 1) = 0 \<longleftrightarrow> (\<exists>k. n = 2 ^ k)" for n :: int
proof (induction "nat n" arbitrary: n rule: less_induct)
  case less
  have step: "n AND (n - 1) = of_bool (odd n \<and> odd (n - 1)) + 2 * ((n div 2) AND ((n - 1) div 2))" by (rule and_rec)
  show ?case
  proof (cases "even n")
    case True
    then obtain m where m: "n = 2 * m" by (rule evenE)
    have "(n - 1) div 2 = m - 1" using m by simp
    then have "n AND (n - 1) = 0 \<longleftrightarrow> (\<exists>k. m = 2 ^ k)"
      using step less.hyps [of m] less.prems m by simp
    also have "\<dots> \<longleftrightarrow> (\<exists>k. n = 2 ^ k)"
    proof
      show "\<exists>k. n = 2 ^ k" if "\<exists>k. m = 2 ^ k" using that m by (metis power_Suc)
      assume "\<exists>k. n = 2 ^ k"
      then obtain k where k: "n = 2 ^ k" ..
      then show "\<exists>k. m = 2 ^ k" using m True by (cases k) auto
    qed
    finally show ?thesis .
  next
    case False
    then obtain m where m: "n = 2 * m + 1" by (rule oddE)
    then have "n AND (n - 1) = 2 * m" using step by simp
    moreover have "m = 0 \<longleftrightarrow> (\<exists>k. n = 2 ^ k)"
    proof
      show "\<exists>k. n = 2 ^ k" if "m = 0" using that m by (intro exI [of _ 0]) simp
      assume "\<exists>k. n = 2 ^ k"
      then obtain k where "n = 2 ^ k" ..
      then show "m = 0" using False m by (cases k) auto
    qed
    ultimately show ?thesis by simp
  qed
qed

lemma pow2_exponent:
  assumes "0 < n" and "n < 2 ^ 63" and "n AND (n - 1) = 0"
  obtains k where "k < 63" and "n = (2 :: int) ^ k"
proof -
  obtain k where k: "n = 2 ^ k" using pow2_test [OF assms(1)] assms(3) by blast
  then have "(2 :: int) ^ k < 2 ^ 63" using assms(2) by simp
  then have "k < 63" by (simp only: power_strict_increasing_iff)
  then show ?thesis using k that by blast
qed

text \<open>Reserving sets the capacity of a deque without storage once; asking again for the same size is allowed.\<close>

lemma deque_no_storage: "deque_rel d xs \<Longrightarrow> hxdeque_capacity d = 0 \<Longrightarrow> xs = []"
  using deque_rel_facts(2) [of d xs] by simp

lemma reserved_deque:
  assumes rel: "deque_rel d xs" and none: "hxdeque_capacity d = 0" and k: "k < 63"
  shows "\<exists>al. reserve_storage (2 ^ k) (dq_alloc d) = Inr al \<and> deque_rel (d\<lparr>dq_alloc := al\<rparr>) [] \<and>
    hxdeque_capacity (d\<lparr>dq_alloc := al\<rparr>) = 2 ^ k"
proof -
  let ?al = "(dq_alloc d)\<lparr>al_capacity := 2 ^ k, al_data := replicate (2 ^ k) None\<rparr>"
  let ?d = "d\<lparr>dq_alloc := ?al\<rparr>"
  have st: "allocator_ok (dq_alloc d)" "\<not> al_pow2 (dq_alloc d)" "al_capacity (dq_alloc d) = 0"
    using rel none by (simp_all add: deque_rel_def deque_storage_def hxdeque_capacity_def)
  then have fixed: "al_fixed (dq_alloc d) = 0" by (auto simp: allocator_ok_def)
  have "reserve_storage (2 ^ k) (dq_alloc d) = Inr ?al"
    using st fixed by (simp add: reserve_storage_def hxallocator_dynamic_capacity_def element_count_def nat_power_eq)
  moreover have "deque_storage ?al"
    using st fixed k by (auto simp: deque_storage_def allocator_ok_def element_count_def nat_power_eq)
  then have "deque_rel ?d []"
    using rel deque_no_storage [OF rel none] by (simp add: deque_rel_def hxdeque_capacity_def ring_view_raw nat_power_eq)
  ultimately show ?thesis by (intro exI [of _ ?al]) (simp add: hxdeque_capacity_def)
qed

lemma hxdeque_reserve_rel:
  assumes rel: "deque_rel d xs" and sz: "sz < 2 ^ 63"
  shows "if \<not> (0 < sz \<and> sz AND (sz - 1) = 0) then hxdeque_reserve d sz = Inl (Assert_hard ''bad_capacity not pow2'')
    else if sz = hxdeque_capacity d then hxdeque_reserve d sz = Inr d
    else if hxdeque_capacity d = 0 then \<exists>d'. hxdeque_reserve d sz = Inr d' \<and> deque_rel d' [] \<and> hxdeque_capacity d' = sz
    else hxdeque_reserve d sz = Inl (Assert_always ''bad_reserve already sized'')"
proof (cases "0 < sz \<and> sz AND (sz - 1) = 0")
  case True
  then obtain k where k: "k < 63" "sz = 2 ^ k" using sz pow2_exponent by blast
  have reserve: "hxdeque_reserve d sz = hx_map (\<lambda>al. d\<lparr>dq_alloc := al\<rparr>) (reserve_storage sz (dq_alloc d))"
    using True by (simp add: hxdeque_reserve_def hxallocator_dynamic_capacity_def)
  show ?thesis
  proof (cases "hxdeque_capacity d = 0")
    case none: True
    have "\<exists>d'. hxdeque_reserve d sz = Inr d' \<and> deque_rel d' [] \<and> hxdeque_capacity d' = sz"
      using reserved_deque [OF rel none k(1)] unfolding reserve unfolding k(2) by auto
    then show ?thesis using True none by simp
  next
    case False
    have ok: "allocator_ok (dq_alloc d)" using rel by (simp add: deque_rel_def deque_storage_def)
    have "reserve_storage sz (dq_alloc d) = (if sz = hxdeque_capacity d then Inr (dq_alloc d)
        else Inl (Assert_always ''bad_reserve already sized''))"
      using reserve_storage_once [OF ok, of sz] False by (simp add: hxdeque_capacity_def)
    then have "hxdeque_reserve d sz = (if sz = hxdeque_capacity d then Inr d
        else Inl (Assert_always ''bad_reserve already sized''))" unfolding reserve by simp
    then show ?thesis using True False by metis
  qed
qed (simp add: hxdeque_reserve_def hxallocator_dynamic_capacity_def)

lemma deque_push_range_rel:
  assumes "deque_rel d xs" and "length xs + length ys \<le> deque_room d"
  shows "\<exists>d'. push_range hxdeque_push_back d ys = Inr d' \<and> deque_rel d' (xs @ ys) \<and> hxdeque_capacity d' = hxdeque_capacity d"
proof -
  obtain d' where "push_range hxdeque_push_back d ys = Inr d'" "deque_rel d' (xs @ ys)" "deque_room d' = deque_room d"
    using dq.push_range_ok [OF assms] by blast
  moreover from this(2,3) have "hxdeque_capacity d' = hxdeque_capacity d"
    using deque_rel_facts(3) [of d' "xs @ ys"] deque_rel_facts(3) [OF assms(1)] by simp
  ultimately show ?thesis by blast
qed

text \<open>A deque made from a list: with dynamic storage the length of the list has to be zero or a power of two
  and becomes the capacity, with fixed storage the list has to fit.\<close>

lemma pow2_word_test:
  assumes "length xs < 2 ^ 63"
  shows "(word_of_nat (length xs) :: size_t) AND (word_of_nat (length xs) - 1) = 0 \<longleftrightarrow> is_pow2_or_0 (int (length xs))"
proof (cases "length xs = 0")
  case False
  have u: "uint (word_of_nat (length xs) :: size_t) = int (length xs)"
    using assms by (subst uint_nat) (simp add: unat_of_nat_small)
  have u1: "uint (word_of_nat (length xs) - 1 :: size_t) = int (length xs) - 1"
    using u False by (simp add: uint_sub_if' Suc_le_eq)
  have "uint ((word_of_nat (length xs) :: size_t) AND (word_of_nat (length xs) - 1)) = int (length xs) AND (int (length xs) - 1)"
    by (simp only: uint_and u u1)
  then show ?thesis using False by (auto simp: is_pow2_or_0_def simp flip: uint_0_iff)
qed (simp add: is_pow2_or_0_def)

lemma hxdeque_of_list_rel:
  fixes xs :: "'a list"
  assumes len: "length xs < 2 ^ 63" and fixed: "fixed = 0 \<or> (\<exists>k<63. fixed = 2 ^ k)"
  shows "if (if fixed = 0 then is_pow2_or_0 (int (length xs)) else int (length xs) \<le> fixed)
    then \<exists>d. hxdeque_of_list fixed xs = Inr d \<and> deque_rel d xs \<and> hxdeque_capacity d = (if fixed = 0 then int (length xs) else fixed)
    else hxdeque_of_list fixed xs = Inl (Assert_hard ''bad_capacity not pow2'')"
proof (cases "fixed = 0")
  case False
  then obtain k where k: "k < 63" "fixed = 2 ^ k" using fixed by auto
  have raw: "deque_rel (hxdeque_raw fixed :: 'a hxdeque) []" "hxdeque_capacity (hxdeque_raw fixed :: 'a hxdeque) = fixed"
    using deque_rel_raw [OF fixed_storage(1,3) [OF k(1)]] fixed_storage(2) [OF k(1)]
    by (simp_all add: k(2) hxdeque_raw_def hxdeque_capacity_def)
  have eq: "hxdeque_of_list fixed xs = (if int (length xs) \<le> fixed then push_range hxdeque_push_back (hxdeque_raw fixed) xs
      else Inl (Assert_hard ''bad_capacity not pow2''))"
    using False by (simp add: hxdeque_of_list_def hxallocator_dynamic_capacity_def Let_def)
  show ?thesis
    using deque_push_range_rel [OF raw(1), of xs] raw(2) False unfolding eq by (auto simp: le_nat_iff)
next
  case True
  let ?raw = "hxdeque_raw fixed :: 'a hxdeque"
  have raw: "deque_rel ?raw []" "hxdeque_capacity ?raw = 0"
    using deque_rel_raw [of "hxallocator_new 0 False :: 'a hxallocator"] True
    by (simp_all add: hxdeque_raw_def hxdeque_capacity_def hxallocator_new_def hxallocator_dynamic_capacity_def
        deque_storage_def allocator_ok_def)
  have eq: "hxdeque_of_list fixed xs = (if is_pow2_or_0 (int (length xs))
      then hx_bind (hx_map (\<lambda>al. ?raw\<lparr>dq_alloc := al\<rparr>) (reserve_storage (int (length xs)) (dq_alloc ?raw)))
        (\<lambda>d. push_range hxdeque_push_back d xs)
      else Inl (Assert_hard ''bad_capacity not pow2''))"
    using True pow2_word_test [OF len] by (simp add: hxdeque_of_list_def hxallocator_dynamic_capacity_def Let_def)
  have "\<exists>d. hxdeque_of_list fixed xs = Inr d \<and> deque_rel d xs \<and> hxdeque_capacity d = int (length xs)"
    if pow: "is_pow2_or_0 (int (length xs))"
  proof (cases "length xs = 0")
    case True
    then show ?thesis using raw pow unfolding eq
      by (simp add: reserve_storage_def hxdeque_capacity_def hxdeque_raw_def hxallocator_new_def hxallocator_dynamic_capacity_def)
  next
    case False
    have "int (length xs) < 2 ^ 63" using len by simp
    then obtain k where k: "k < 63" "int (length xs) = 2 ^ k"
      using pow2_exponent [of "int (length xs)"] pow False by (auto simp: is_pow2_or_0_def)
    obtain al where al: "reserve_storage (2 ^ k) (dq_alloc ?raw) = Inr al" "deque_rel (?raw\<lparr>dq_alloc := al\<rparr>) []"
      "hxdeque_capacity (?raw\<lparr>dq_alloc := al\<rparr>) = 2 ^ k"
      using reserved_deque [OF raw k(1)] by blast
    have "length xs \<le> deque_room (?raw\<lparr>dq_alloc := al\<rparr>)" unfolding al(3) k(2) [symmetric] by simp
    then show ?thesis using deque_push_range_rel [OF al(2), of xs] pow al(3) unfolding eq k(2) al(1) by auto
  qed
  then show ?thesis using True eq by auto
qed

text \<open>The constructor with a capacity, which has to be zero or a power of two; fixed storage keeps its own.\<close>

lemma hxdeque_make_rel:
  assumes sz: "sz < 2 ^ 63" and fixed: "fixed = 0 \<or> (\<exists>k<63. fixed = 2 ^ k)"
  shows "if is_pow2_or_0 sz
    then \<exists>d. hxdeque_new fixed sz = Inr (d :: 'a hxdeque) \<and> deque_rel d [] \<and> hxdeque_capacity d = (if fixed = 0 then sz else fixed)
    else hxdeque_new fixed sz = Inl (Assert_hard ''bad_capacity not pow2'')"
proof (cases "is_pow2_or_0 sz")
  case True
  show ?thesis
  proof (cases "fixed = 0")
    case False
    then obtain k where "k < 63" "fixed = 2 ^ k" using fixed by auto
    then show ?thesis
      using True hxdeque_new_rel(2) [of k] by (auto simp: hxdeque_new_def is_pow2_or_0_def hxallocator_dynamic_capacity_def)
  next
    case dynamic: True
    show ?thesis
    proof (cases "sz = 0")
      case True
      then show ?thesis
        using dynamic deque_rel_raw [of "hxallocator_new 0 False :: 'a hxallocator"]
        by (simp add: hxdeque_new_def is_pow2_or_0_def reserve_storage_def hxdeque_raw_def hxdeque_capacity_def hxallocator_new_def
            hxallocator_dynamic_capacity_def deque_storage_def allocator_ok_def)
    next
      case False
      have "sz AND (sz - 1) = 0" using True False by (simp add: is_pow2_or_0_def)
      moreover from this have "\<not> sz < 0" using and_negative_int_iff [of sz "sz - 1"] by auto
      ultimately have "0 < sz" "sz AND (sz - 1) = 0" using False by auto
      then obtain k where "k < 63" "sz = 2 ^ k" using pow2_exponent sz by blast
      then show ?thesis using True dynamic hxdeque_new_rel(1) [of k] by simp
    qed
  qed
qed (simp add: hxdeque_new_def)

text \<open>Appending a range, which stops the program when it does not fit.\<close>

lemma hxdeque_add_range_rel:
  assumes "deque_rel d xs"
  shows "if length xs + length ys \<le> deque_room d then \<exists>d'. hxdeque_add_range d ys = Inr d' \<and> deque_rel d' (xs @ ys)
    else \<not> hx_ok (hxdeque_add_range d ys)"
  using deque_push_range_rel [OF assms, of ys] dq.push_range_full [OF assms, of ys] by (auto simp: hxdeque_add_range_def)

section \<open>An example\<close>

text \<open>A deque whose counters are about to wrap around: the head is the last value of the word.\<close>

definition wrapping_deque :: "int hxdeque" where
  "wrapping_deque = \<lparr>dq_alloc = \<lparr>al_fixed = 2, al_pow2 = False, al_capacity = 2, al_data = [None, Some 5]\<rparr>,
     dq_head = - 1, dq_tail = 0\<rparr>"

lemma wrapping_deque_rel: "deque_rel wrapping_deque [5]"
proof -
  have "\<exists>k<63. (2 :: int) = 2 ^ k" by (intro exI [of _ 1]) simp
  moreover have "unat (- 1 :: size_t) = 18446744073709551615" by (simp add: unsigned_minus_1_eq_mask mask_eq_exp_minus_1)
  moreover have "[0..<2] = [0, 1 :: nat]" by (simp add: upt_rec)
  ultimately show ?thesis
    by (simp add: deque_rel_def wrapping_deque_def deque_storage_def allocator_ok_def element_count_def
        hxdeque_capacity_def ring_view_def live_prefix_def)
qed

section \<open>Properties\<close>

text \<open>C10: the deque implements a list. On a deque that holds \<open>xs\<close>, whatever the values of its wrapping counters: pushing
  and emplacing at either end and popping at either end give a deque that holds the list after the same operation, or stop in
  the assertion of a full or empty deque; \<open>clear\<close> destroys every element; an index of type \<open>hxsize_t\<close> reads and assigns the
  element it names or is \<open>bad_index\<close>, a negative one too; the ends, the size, the tests, iteration, \<open>find\<close> and
  the comparisons are those of the list; \<open>add_range\<close> appends the range or stops when it does not fit; \<open>reserve\<close> takes a
  positive power of two, sets the capacity of a deque without storage and stops on another size once it is set; \<open>swap\<close>
  exchanges the lists of two deques. A deque made with a capacity (zero, or a power of two) is empty, and
  one made from a list holds it, with a capacity of its length (zero or a power of two) or the fixed one it has to fit in.
  Sizes and lengths are values of \<open>hxsize_t\<close>, below \<open>2\<^sup>63\<close>, and a fixed capacity is zero (dynamic) or a power of two.\<close>

theorem hxdeque_refines_list:
  fixes d e :: "'a hxdeque"
  assumes rel: "deque_rel d xs" and other: "deque_rel e ys"
    and i: "- (2 ^ 63) \<le> i" "i < 2 ^ 63" and sz: "sz < 2 ^ 63" and zs: "length zs < 2 ^ 63"
    and fixed: "fixed = 0 \<or> (\<exists>k<63. fixed = 2 ^ k)"
  shows "(if length xs < deque_room d
      then (\<exists>d1 d2 d3 d4. hxdeque_push_back d x = Inr d1 \<and> deque_rel d1 (xs @ [x]) \<and>
          hxdeque_push_front d x = Inr d2 \<and> deque_rel d2 (x # xs) \<and>
          hxdeque_emplace_back d constructor args = Inr d3 \<and> deque_rel d3 (xs @ [constructor args]) \<and>
          hxdeque_emplace_front d constructor args = Inr d4 \<and> deque_rel d4 (constructor args # xs))
      else hxdeque_push_back d x = Inl (Assert_hard ''deque_full'') \<and>
          hxdeque_push_front d x = Inl (Assert_hard ''deque_full'') \<and>
          hxdeque_emplace_back d constructor args = Inl (Assert_hard ''deque_full'') \<and>
          hxdeque_emplace_front d constructor args = Inl (Assert_hard ''deque_full'')) \<and>
    (if xs = []
      then hxdeque_pop_back d = Inl (Assert_hard ''queue_empty'') \<and>
          hxdeque_pop_front d = Inl (Assert_hard ''queue_empty'')
      else (\<exists>d1 d2. hxdeque_pop_back d = Inr d1 \<and> deque_rel d1 (butlast xs) \<and>
          hxdeque_pop_front d = Inr d2 \<and> deque_rel d2 (tl xs))) \<and>
    (\<exists>d1. hxdeque_clear d = Inr d1 \<and> deque_rel d1 [] \<and> dq_data d1 = replicate (deque_room d) None) \<and>
    (if 0 \<le> i \<and> i < int (length xs)
      then hxdeque_at d i = Inr (xs ! nat i) \<and> (\<exists>d1. hxdeque_assign d i x = Inr d1 \<and> deque_rel d1 (xs[nat i := x]))
      else hxdeque_at d i = Inl (Assert_hard ''bad_index'') \<and> hxdeque_assign d i x = Inl (Assert_hard ''bad_index'')) \<and>
    (if xs = []
      then hxdeque_front d = Inl (Assert_hard ''queue_empty'') \<and> hxdeque_back d = Inl (Assert_hard ''queue_empty'')
      else hxdeque_front d = Inr (hd xs) \<and> hxdeque_back d = Inr (last xs)) \<and>
    (hxdeque_size d = int (length xs) \<and> hxdeque_empty d = (xs = []) \<and> hxdeque_full d = (length xs = deque_room d) \<and>
      hxdeque_elements d = Inr xs \<and> hxdeque_find eq d x = Inr (length (takeWhile (\<lambda>y. \<not> eq y x) xs)) \<and>
      hxdeque_equal eq d e = Inr (list_all2 eq xs ys) \<and> hxdeque_less eq lt d e = Inr (hxless_range eq lt xs ys)) \<and>
    (if length xs + length zs \<le> deque_room d
      then (\<exists>d1. hxdeque_add_range d zs = Inr d1 \<and> deque_rel d1 (xs @ zs))
      else \<not> hx_ok (hxdeque_add_range d zs)) \<and>
    (if \<not> (0 < sz \<and> sz AND (sz - 1) = 0) then hxdeque_reserve d sz = Inl (Assert_hard ''bad_capacity not pow2'')
      else if sz = hxdeque_capacity d then hxdeque_reserve d sz = Inr d
      else if hxdeque_capacity d = 0 then (\<exists>d1. hxdeque_reserve d sz = Inr d1 \<and> deque_rel d1 [] \<and> hxdeque_capacity d1 = sz)
      else hxdeque_reserve d sz = Inl (Assert_always ''bad_reserve already sized'')) \<and>
    (case hxdeque_swap d e of (d1, e1) \<Rightarrow> deque_rel d1 ys \<and> deque_rel e1 xs) \<and>
    (if is_pow2_or_0 sz
      then (\<exists>d1. hxdeque_new fixed sz = Inr (d1 :: 'a hxdeque) \<and> deque_rel d1 [] \<and> hxdeque_capacity d1 = (if fixed = 0 then sz else fixed))
      else hxdeque_new fixed sz = (Inl (Assert_hard ''bad_capacity not pow2'') :: 'a hxdeque hx)) \<and>
    (if (if fixed = 0 then is_pow2_or_0 (int (length zs)) else int (length zs) \<le> fixed)
      then (\<exists>d1. hxdeque_of_list fixed zs = Inr d1 \<and> deque_rel d1 zs \<and> hxdeque_capacity d1 = (if fixed = 0 then int (length zs) else fixed))
      else hxdeque_of_list fixed zs = Inl (Assert_hard ''bad_capacity not pow2''))" (is "?push \<and> ?pop \<and> ?rest")
proof -
  have push: ?push
    using hxdeque_push_back_rel [OF rel] hxdeque_push_front_rel [OF rel]
    by (cases "length xs < deque_room d") (simp, metis hxdeque_emplace_push, simp add: hxdeque_emplace_push)
  have pop: ?pop
    using hxdeque_pop_back_rel [OF rel] hxdeque_pop_front_rel [OF rel] by (cases "xs = []") auto
  have rest: ?rest
  proof (intro conjI, goal_cases)
    case 1 show ?case using hxdeque_clear_rel [OF rel] by blast
  next
    case 2 show ?case using hxdeque_index_rel [OF rel i] by simp
  next
    case 3 show ?case using hxdeque_ends_rel [OF rel] by simp
  next
    case 11 show ?case using hxdeque_add_range_rel [OF rel] by simp
  next
    case 12 show ?case by (rule hxdeque_reserve_rel [OF rel sz])
  next
    case 14 show ?case by (rule hxdeque_make_rel [OF sz fixed])
  next
    case 15 show ?case by (rule hxdeque_of_list_rel [OF zs fixed])
  qed (use hxdeque_size_rel [OF rel] hxdeque_elements_rel [OF rel] hxdeque_elements_rel [OF other] rel other hxdeque_find_rel [OF rel]
      in \<open>simp_all add: hxdeque_equal_def hxdeque_less_def hxequal_range_spec hxfind_if_spec hxdeque_swap_def\<close>)
  show ?thesis by (rule conjI [OF push conjI [OF pop rest]])
qed

text \<open>The theorem at a deque whose head is the last value of the word, with one free slot.\<close>

theorem hxdeque_refines_list_witness:
  "(\<exists>d1. hxdeque_push_front wrapping_deque 4 = Inr d1 \<and> deque_rel d1 [4, 5]) \<and>
   hxdeque_at wrapping_deque (- 1) = Inl (Assert_hard ''bad_index'') \<and>
   \<not> hx_ok (hxdeque_add_range wrapping_deque [6, 7]) \<and>
   hxdeque_reserve wrapping_deque 4 = Inl (Assert_always ''bad_reserve already sized'')"
proof -
  have room: "hxdeque_capacity wrapping_deque = 2" by (simp add: wrapping_deque_def hxdeque_capacity_def)
  have sizes: "- (2 ^ 63) \<le> (- 1 :: int)" "(- 1 :: int) < 2 ^ 63" "(4 :: int) < 2 ^ 63" "length [6, 7 :: int] < 2 ^ 63"
    "(0 :: hxsize_t) = 0 \<or> (\<exists>k<63. 0 = 2 ^ k)"
    by simp_all
  note use = hxdeque_refines_list [OF wrapping_deque_rel wrapping_deque_rel sizes, where x = 4 and constructor = abs and args = "- 4"]
  have "4 AND (4 - 1) = (0 :: int)" using pow2_and_pred [of 2] by simp
  then show ?thesis using use room by auto
qed

end
