(* ===== verification/HxList.thy ===== *)
theory HxList
  imports HxRange
begin

text \<open>
  The intrusive doubly linked list of \<^verbatim>\<open>include/hx/hxlist.hpp\<close>, \<^verbatim>\<open>src/hxlist.cpp\<close> and
  \<^verbatim>\<open>detail/hxlist.inl\<close>. A node stores the address of its predecessor XOR the address of its
  successor in one word, and a sentinel closes the ring. The memory is explicit: \<open>links\<close> maps an
  address to the \<open>m_list_link_\<close> stored there, and every list of the program shares it.

  The key to the proofs is that the links are linear in the edges of the ring: the link of a node
  is the XOR over all edges of the ring of the other end of the edges it is on. Replacing edges is
  then XOR-ing them in and out, whether or not the nodes involved are distinct, which is what makes
  the code work on empty and one-element lists without a case distinction.
\<close>

section \<open>State\<close>

type_synonym addr = "64 word"
type_synonym links = "addr \<Rightarrow> addr"

record hxlist_base =
  ls_size :: hxsize_t
  ls_sentinel :: addr
  ls_tail :: addr

type_synonym list_state = "links \<times> hxlist_base"

text \<open>\<open>node->m_list_link_ ^= w\<close>.\<close>

definition link_xor :: "links \<Rightarrow> addr \<Rightarrow> addr \<Rightarrow> links" where
  "link_xor m a w = m(a := m a XOR w)"

text \<open>The constructor: the sentinel is a member, so its address is that of the list.\<close>

definition hxlist_new :: "links \<Rightarrow> addr \<Rightarrow> list_state" where
  "hxlist_new m s = (m(s := 0), \<lparr>ls_size = 0, ls_sentinel = s, ls_tail = s\<rparr>)"

section \<open>Operations on the base\<close>

definition list_front :: "links \<Rightarrow> hxlist_base \<Rightarrow> addr" where
  "list_front m l = ls_tail l XOR m (ls_sentinel l)"

definition list_extract :: "links \<Rightarrow> hxlist_base \<Rightarrow> addr \<Rightarrow> addr \<Rightarrow> list_state hx" where
  "list_extract m l prev current =
     (if ls_size l = 0 then Inl (Assert_hard ''list_empty'')
      else if current = 0 then Inl (Assert_debug ''bad_node'')
      else let nxt = prev XOR m current;
               m1 = link_xor m prev (current XOR nxt);
               m2 = link_xor m1 nxt (current XOR prev);
               l1 = (if nxt = ls_sentinel l then l\<lparr>ls_tail := prev\<rparr> else l)
           in Inr (m2, l1\<lparr>ls_size := ls_size l - 1\<rparr>))"

definition list_insert_after :: "links \<Rightarrow> hxlist_base \<Rightarrow> addr \<Rightarrow> addr \<Rightarrow> addr \<Rightarrow> list_state hx" where
  "list_insert_after m l prev current ptr =
     (let new_prev = current;
          new_next = prev XOR m new_prev
      in if ptr = 0 then Inl (Assert_debug ''bad_node'')
         else let m1 = m(ptr := new_prev XOR new_next);
                  m2 = link_xor m1 new_prev (new_next XOR ptr);
                  m3 = link_xor m2 new_next (new_prev XOR ptr);
                  l1 = (if new_next = ls_sentinel l then l\<lparr>ls_tail := ptr\<rparr> else l)
              in Inr (m3, l1\<lparr>ls_size := ls_size l + 1\<rparr>))"

definition list_insert_before :: "links \<Rightarrow> hxlist_base \<Rightarrow> addr \<Rightarrow> addr \<Rightarrow> addr \<Rightarrow> list_state hx" where
  "list_insert_before m l prev current ptr =
     (if ptr = 0 then Inl (Assert_debug ''bad_node'')
      else let m1 = m(ptr := prev XOR current);
               m2 = link_xor m1 prev (current XOR ptr);
               m3 = link_xor m2 current (prev XOR ptr);
               l1 = (if current = ls_sentinel l then l\<lparr>ls_tail := ptr\<rparr> else l)
           in Inr (m3, l1\<lparr>ls_size := ls_size l + 1\<rparr>))"

definition list_pop_back :: "links \<Rightarrow> hxlist_base \<Rightarrow> (addr \<times> list_state) hx" where
  "list_pop_back m l =
     (if ls_size l = 0 then Inl (Assert_hard ''list_empty'')
      else let node = ls_tail l;
               prev = ls_sentinel l XOR m node;
               m1 = link_xor m prev (node XOR ls_sentinel l);
               m2 = link_xor m1 (ls_sentinel l) (node XOR prev)
           in Inr (node, m2, l\<lparr>ls_tail := prev, ls_size := ls_size l - 1\<rparr>))"

definition list_pop_front :: "links \<Rightarrow> hxlist_base \<Rightarrow> (addr \<times> list_state) hx" where
  "list_pop_front m l =
     (if ls_size l = 0 then Inl (Assert_hard ''list_empty'')
      else let node = ls_tail l XOR m (ls_sentinel l);
               nxt = ls_sentinel l XOR m node;
               m1 = link_xor m (ls_sentinel l) (node XOR nxt);
               m2 = link_xor m1 nxt (node XOR ls_sentinel l);
               l1 = (if nxt = ls_sentinel l then l\<lparr>ls_tail := ls_sentinel l\<rparr> else l)
           in Inr (node, m2, l1\<lparr>ls_size := ls_size l - 1\<rparr>))"

definition list_push_back :: "links \<Rightarrow> hxlist_base \<Rightarrow> addr \<Rightarrow> list_state hx" where
  "list_push_back m l ptr =
     (if ptr = 0 then Inl (Assert_hard ''bad_node'')
      else let prev = ls_tail l;
               m1 = m(ptr := prev XOR ls_sentinel l);
               m2 = link_xor m1 prev (ls_sentinel l XOR ptr);
               m3 = link_xor m2 (ls_sentinel l) (prev XOR ptr)
           in Inr (m3, l\<lparr>ls_tail := ptr, ls_size := ls_size l + 1\<rparr>))"

definition list_push_front :: "links \<Rightarrow> hxlist_base \<Rightarrow> addr \<Rightarrow> list_state hx" where
  "list_push_front m l ptr =
     (if ptr = 0 then Inl (Assert_hard ''bad_node'')
      else let first = ls_tail l XOR m (ls_sentinel l);
               m1 = m(ptr := ls_sentinel l XOR first);
               m2 = link_xor m1 (ls_sentinel l) (first XOR ptr);
               m3 = link_xor m2 first (ls_sentinel l XOR ptr);
               l1 = (if first = ls_sentinel l then l\<lparr>ls_tail := ptr\<rparr> else l)
           in Inr (m3, l1\<lparr>ls_size := ls_size l + 1\<rparr>))"

definition list_release_all :: "links \<Rightarrow> hxlist_base \<Rightarrow> list_state" where
  "list_release_all m l = (m(ls_sentinel l := 0), l\<lparr>ls_tail := ls_sentinel l, ls_size := 0\<rparr>)"

definition list_reverse :: "links \<Rightarrow> hxlist_base \<Rightarrow> hxlist_base" where
  "list_reverse m l = l\<lparr>ls_tail := ls_tail l XOR m (ls_sentinel l)\<rparr>"

text \<open>\<open>&x_ != this\<close> compares the addresses of the lists, which are those of their sentinels.\<close>

definition list_splice ::
  "links \<Rightarrow> hxlist_base \<Rightarrow> addr \<Rightarrow> addr \<Rightarrow> hxlist_base \<Rightarrow> (links \<times> hxlist_base \<times> hxlist_base) hx" where
  "list_splice m l prev current x =
     (if ls_sentinel x = ls_sentinel l then Inl (Assert_debug ''bad_splice'')
      else if ls_size x = 0 then Inr (m, l, x)
      else let other_first = ls_tail x XOR m (ls_sentinel x);
               other_last = ls_tail x;
               m1 = link_xor m prev (current XOR other_first);
               m2 = link_xor m1 other_first (ls_sentinel x XOR prev);
               m3 = link_xor m2 other_last (ls_sentinel x XOR current);
               m4 = link_xor m3 current (prev XOR other_last);
               l1 = (if current = ls_sentinel l then l\<lparr>ls_tail := other_last\<rparr> else l);
               l2 = l1\<lparr>ls_size := ls_size l + ls_size x\<rparr>;
               (m5, x1) = list_release_all m4 x
           in Inr (m5, l2, x1))"

section \<open>Iterators\<close>

text \<open>\<open>m_sentinel_\<close> is only kept in debug builds; \<open>0\<close> is the null pointer.\<close>

record hxlist_iterator =
  it_prev :: addr
  it_current :: addr
  it_sentinel :: addr

definition iterator_next :: "links \<Rightarrow> hxlist_iterator \<Rightarrow> hxlist_iterator hx" where
  "iterator_next m it =
     (if it_sentinel it = 0 then Inl (Assert_debug ''bad_iter'')
      else Inr (it\<lparr>it_prev := it_current it, it_current := it_prev it XOR m (it_current it)\<rparr>))"

definition iterator_prev :: "links \<Rightarrow> hxlist_iterator \<Rightarrow> hxlist_iterator hx" where
  "iterator_prev m it =
     (if it_sentinel it = 0 then Inl (Assert_debug ''bad_iter'')
      else Inr (it\<lparr>it_current := it_prev it, it_prev := it_current it XOR m (it_prev it)\<rparr>))"

definition iterator_eq :: "hxlist_iterator \<Rightarrow> hxlist_iterator \<Rightarrow> bool" where
  "iterator_eq it x = (it_current it = it_current x)"

definition iterator_deref :: "hxlist_iterator \<Rightarrow> addr hx" where
  "iterator_deref it =
     (if it_current it = 0 \<or> it_current it = it_sentinel it then Inl (Assert_debug ''bad_iter'')
      else Inr (it_current it))"

section \<open>Operations on the list\<close>

definition hxlist_begin :: "links \<Rightarrow> hxlist_base \<Rightarrow> hxlist_iterator" where
  "hxlist_begin m l = \<lparr>it_prev = ls_sentinel l, it_current = list_front m l, it_sentinel = ls_sentinel l\<rparr>"

definition hxlist_end :: "hxlist_base \<Rightarrow> hxlist_iterator" where
  "hxlist_end l = \<lparr>it_prev = ls_tail l, it_current = ls_sentinel l, it_sentinel = ls_sentinel l\<rparr>"

definition hxlist_front :: "links \<Rightarrow> hxlist_base \<Rightarrow> addr hx" where
  "hxlist_front m l = (if ls_size l = 0 then Inl (Assert_hard ''list_empty'') else Inr (list_front m l))"

definition hxlist_back :: "hxlist_base \<Rightarrow> addr hx" where
  "hxlist_back l = (if ls_size l = 0 then Inl (Assert_hard ''list_empty'') else Inr (ls_tail l))"

definition hxlist_push_back :: "links \<Rightarrow> hxlist_base \<Rightarrow> addr \<Rightarrow> (list_state \<times> hxlist_iterator) hx" where
  "hxlist_push_back m l ptr =
     hx_map (\<lambda>s. (s, \<lparr>it_prev = ls_tail l, it_current = ptr, it_sentinel = ls_sentinel l\<rparr>)) (list_push_back m l ptr)"

definition hxlist_push_front :: "links \<Rightarrow> hxlist_base \<Rightarrow> addr \<Rightarrow> (list_state \<times> hxlist_iterator) hx" where
  "hxlist_push_front m l ptr =
     hx_map (\<lambda>s. (s, \<lparr>it_prev = ls_sentinel l, it_current = ptr, it_sentinel = ls_sentinel l\<rparr>)) (list_push_front m l ptr)"

definition hxlist_insert :: "links \<Rightarrow> hxlist_base \<Rightarrow> hxlist_iterator \<Rightarrow> addr \<Rightarrow> (list_state \<times> hxlist_iterator) hx" where
  "hxlist_insert m l it ptr =
     hx_map (\<lambda>s. (s, \<lparr>it_prev = it_prev it, it_current = ptr, it_sentinel = ls_sentinel l\<rparr>))
       (list_insert_before m l (it_prev it) (it_current it) ptr)"

definition hxlist_insert_after :: "links \<Rightarrow> hxlist_base \<Rightarrow> hxlist_iterator \<Rightarrow> addr \<Rightarrow> (list_state \<times> hxlist_iterator) hx" where
  "hxlist_insert_after m l it ptr =
     hx_map (\<lambda>s. (s, \<lparr>it_prev = it_current it, it_current = ptr, it_sentinel = ls_sentinel l\<rparr>))
       (list_insert_after m l (it_prev it) (it_current it) ptr)"

definition hxlist_splice ::
  "links \<Rightarrow> hxlist_base \<Rightarrow> hxlist_iterator \<Rightarrow> hxlist_base \<Rightarrow> (links \<times> hxlist_base \<times> hxlist_base) hx" where
  "hxlist_splice m l it x = list_splice m l (it_prev it) (it_current it) x"

text \<open>A deleter frees the node, so nothing is known of what its memory holds afterwards: the model
  overwrites the link with an arbitrary function of the memory. The deleted nodes are recorded in
  the order of the calls. \<open>None\<close> is a deleter that tests false.\<close>

type_synonym deleter = "(addr \<Rightarrow> links \<Rightarrow> addr) option"

definition run_deleter :: "deleter \<Rightarrow> addr \<Rightarrow> links \<Rightarrow> addr list \<Rightarrow> links \<times> addr list" where
  "run_deleter d p m log = (case d of None \<Rightarrow> (m, log) | Some f \<Rightarrow> (m(p := f p m), log @ [p]))"

definition hxlist_erase :: "links \<Rightarrow> hxlist_base \<Rightarrow> hxlist_iterator \<Rightarrow> deleter \<Rightarrow> (list_state \<times> addr list) hx" where
  "hxlist_erase m l it d =
     hx_map (\<lambda>(m1, l1). let (m2, log) = run_deleter d (it_current it) m1 [] in ((m2, l1), log))
       (list_extract m l (it_prev it) (it_current it))"

definition hxlist_extract :: "links \<Rightarrow> hxlist_base \<Rightarrow> hxlist_iterator \<Rightarrow> (addr \<times> list_state) hx" where
  "hxlist_extract m l it = hx_map (\<lambda>s. (it_current it, s)) (list_extract m l (it_prev it) (it_current it))"

text \<open>The loops follow links, so they end only on a closed ring: \<open>None\<close> is a loop that does not end.\<close>

partial_function (option) clear_loop ::
  "(addr \<Rightarrow> links \<Rightarrow> addr) \<Rightarrow> addr \<Rightarrow> addr \<Rightarrow> addr \<Rightarrow> links \<Rightarrow> addr list \<Rightarrow> (links \<times> addr list) option" where
  "clear_loop f sentinel prev current m log =
     (if current \<noteq> sentinel
      then let nxt = prev XOR m current;
               (m1, log1) = run_deleter (Some f) current m log
           in clear_loop f sentinel current nxt m1 log1
      else Some (m, log))"

definition hxlist_clear :: "links \<Rightarrow> hxlist_base \<Rightarrow> deleter \<Rightarrow> (list_state \<times> addr list) option" where
  "hxlist_clear m l d =
     (if ls_size l \<noteq> 0
      then let prev = ls_sentinel l;
               current = list_front m l;
               (m1, l1) = list_release_all m l
           in (case d of None \<Rightarrow> Some ((m1, l1), [])
               | Some f \<Rightarrow> (case clear_loop f prev prev current m1 [] of None \<Rightarrow> None
                           | Some (m2, log) \<Rightarrow> Some ((m2, l1), log)))
      else Some ((m, l), []))"

partial_function (option) find_if_loop ::
  "links \<Rightarrow> (addr \<Rightarrow> bool) \<Rightarrow> hxlist_iterator \<Rightarrow> hxlist_iterator \<Rightarrow> hxlist_iterator hx option" where
  "find_if_loop m callable end_it it =
     (if \<not> iterator_eq it end_it
      then case iterator_deref it of Inl e \<Rightarrow> Some (Inl e)
           | Inr x \<Rightarrow> if callable x then Some (Inr it)
                     else case iterator_next m it of Inl e \<Rightarrow> Some (Inl e)
                          | Inr it' \<Rightarrow> find_if_loop m callable end_it it'
      else Some (Inr end_it))"

definition hxlist_find_if :: "links \<Rightarrow> hxlist_base \<Rightarrow> (addr \<Rightarrow> bool) \<Rightarrow> hxlist_iterator hx option" where
  "hxlist_find_if m l callable = find_if_loop m callable (hxlist_end l) (hxlist_begin m l)"

text \<open>\<open>for_each\<close>: the nodes the callable is called with, in order.\<close>

partial_function (option) for_each_loop ::
  "links \<Rightarrow> hxlist_iterator \<Rightarrow> hxlist_iterator \<Rightarrow> addr list \<Rightarrow> addr list hx option" where
  "for_each_loop m end_it it visited =
     (if \<not> iterator_eq it end_it
      then case iterator_deref it of Inl e \<Rightarrow> Some (Inl e)
           | Inr x \<Rightarrow> (case iterator_next m it of Inl e \<Rightarrow> Some (Inl e)
                      | Inr it' \<Rightarrow> for_each_loop m end_it it' (visited @ [x]))
      else Some (Inr visited))"

definition hxlist_for_each :: "links \<Rightarrow> hxlist_base \<Rightarrow> addr list hx option" where
  "hxlist_for_each m l = for_each_loop m (hxlist_end l) (hxlist_begin m l) []"

partial_function (option) remove_if_loop ::
  "(addr \<Rightarrow> bool) \<Rightarrow> deleter \<Rightarrow> addr \<Rightarrow> addr \<Rightarrow> links \<Rightarrow> hxlist_base \<Rightarrow> hxsize_t \<Rightarrow> addr list
    \<Rightarrow> (list_state \<times> hxsize_t \<times> addr list) hx option" where
  "remove_if_loop callable d prev current m l removed log =
     (if current \<noteq> ls_sentinel l
      then let nxt = prev XOR m current
           in if callable current
              then case list_extract m l prev current of Inl e \<Rightarrow> Some (Inl e)
                   | Inr (m1, l1) \<Rightarrow>
                       (case run_deleter d current m1 log of (m2, log2) \<Rightarrow>
                          remove_if_loop callable d prev nxt m2 l1 (removed + 1) log2)
              else remove_if_loop callable d current nxt m l removed log
      else Some (Inr ((m, l), removed, log)))"

definition hxlist_remove_if ::
  "links \<Rightarrow> hxlist_base \<Rightarrow> (addr \<Rightarrow> bool) \<Rightarrow> deleter \<Rightarrow> (list_state \<times> hxsize_t \<times> addr list) hx option" where
  "hxlist_remove_if m l callable d =
     remove_if_loop callable d (ls_sentinel l) (list_front m l) m l 0 []"

fun hxlist_add_range :: "links \<Rightarrow> hxlist_base \<Rightarrow> addr list \<Rightarrow> list_state hx" where
  "hxlist_add_range m l [] = Inr (m, l)"
| "hxlist_add_range m l (p # ps) = hx_bind (list_push_back m l p) (\<lambda>(m1, l1). hxlist_add_range m1 l1 ps)"

section \<open>The ring\<close>

text \<open>What the edge between \<open>u\<close> and \<open>v\<close> contributes to the link of \<open>a\<close>, and the sum over a path.\<close>

definition edge_xor :: "addr \<Rightarrow> addr \<Rightarrow> addr \<Rightarrow> addr" where
  "edge_xor a u v = (if a = u then v else 0) XOR (if a = v then u else 0)"

fun path_xor :: "addr list \<Rightarrow> addr \<Rightarrow> addr" where
  "path_xor (u # v # p) a = edge_xor a u v XOR path_xor (v # p) a"
| "path_xor p a = 0"

definition list_rel :: "links \<Rightarrow> hxlist_base \<Rightarrow> addr list \<Rightarrow> bool" where
  "list_rel m l xs \<longleftrightarrow>
     distinct (ls_sentinel l # xs) \<and> 0 \<notin> set (ls_sentinel l # xs) \<and>
     ls_tail l = last (ls_sentinel l # xs) \<and> ls_size l = int (length xs) \<and>
     (\<forall>a\<in>set (ls_sentinel l # xs). m a = path_xor (ls_sentinel l # xs @ [ls_sentinel l]) a)"

text \<open>An iterator between the prefix \<open>as\<close> and the rest \<open>bs\<close> of the list.\<close>

definition cursor :: "hxlist_base \<Rightarrow> addr list \<Rightarrow> addr list \<Rightarrow> hxlist_iterator" where
  "cursor l as bs = \<lparr>it_prev = last (ls_sentinel l # as), it_current = hd (bs @ [ls_sentinel l]),
     it_sentinel = ls_sentinel l\<rparr>"

lemma edge_xor_commute: "edge_xor a u v = edge_xor a v u"
  by (simp add: edge_xor_def xor.commute)

lemma xor_cancel_left: "x XOR (x XOR y) = (y :: addr)"
  by (simp add: xor.assoc [symmetric])

lemma xor_cancel_mid: "x XOR (y XOR x) = (y :: addr)"
  by (subst xor.left_commute) simp

lemma path_xor_append:
  "us \<noteq> [] \<Longrightarrow> vs \<noteq> [] \<Longrightarrow> path_xor (us @ vs) a = path_xor us a XOR edge_xor a (last us) (hd vs) XOR path_xor vs a"
proof (induction us a rule: path_xor.induct)
  case (1 u v p a)
  then show ?case by (simp add: xor.assoc)
qed (auto simp: neq_Nil_conv)

lemma path_xor_outside: "a \<notin> set p \<Longrightarrow> path_xor p a = 0"
  by (induction p a rule: path_xor.induct) (auto simp: edge_xor_def)

lemma path_xor_rev: "path_xor (rev p) a = path_xor p a"
proof (induction p a rule: path_xor.induct)
  case (1 u v p a)
  have "path_xor (rev (u # v # p)) a = path_xor (rev (v # p) @ [u]) a" by simp
  also have "\<dots> = path_xor (rev (v # p)) a XOR edge_xor a (last (rev (v # p))) u XOR path_xor [u] a"
    by (subst path_xor_append) auto
  also have "\<dots> = path_xor (u # v # p) a"
    using 1 by (simp add: edge_xor_commute xor.commute)
  finally show ?case .
qed auto

text \<open>The link of a node that occurs once on a path is its predecessor XOR its successor.\<close>

lemma path_xor_inner:
  assumes "us \<noteq> []" and "vs \<noteq> []" and "a \<notin> set us" and "a \<notin> set vs"
  shows "path_xor (us @ a # vs) a = last us XOR hd vs"
proof -
  have "path_xor (us @ a # vs) a = path_xor us a XOR edge_xor a (last us) a XOR path_xor (a # vs) a"
    using assms(1) by (subst path_xor_append) auto
  moreover have "path_xor (a # vs) a = edge_xor a a (hd vs) XOR path_xor vs a"
    using assms(2) by (cases vs) auto
  moreover have "last us \<noteq> a" "hd vs \<noteq> a" using assms by auto
  ultimately show ?thesis
    using assms by (simp add: path_xor_outside edge_xor_def)
qed

lemma sentinel_link:
  assumes "s \<notin> set xs"
  shows "path_xor (s # xs @ [s]) s = hd (xs @ [s]) XOR last (s # xs)"
proof (cases xs)
  case Nil
  then show ?thesis by (simp add: edge_xor_def)
next
  case (Cons x ys)
  have "path_xor (s # xs @ [s]) s = edge_xor s s x XOR path_xor (xs @ [s]) s"
    using Cons by simp
  also have "path_xor (xs @ [s]) s = path_xor xs s XOR edge_xor s (last xs) s XOR path_xor [s] s"
    using Cons by (subst path_xor_append) auto
  moreover have "last xs \<in> set xs" using Cons by simp
  ultimately show ?thesis
    using Cons assms by (auto simp: edge_xor_def path_xor_outside)
qed

subsection \<open>Reading the ring\<close>

lemma list_rel_sentinel:
  "list_rel m l xs \<Longrightarrow> m (ls_sentinel l) = hd (xs @ [ls_sentinel l]) XOR last (ls_sentinel l # xs)"
  by (simp add: list_rel_def sentinel_link del: last.simps)

lemma list_rel_tail: "list_rel m l xs \<Longrightarrow> ls_tail l = last (ls_sentinel l # xs)"
  by (simp add: list_rel_def)

lemma list_rel_size: "list_rel m l xs \<Longrightarrow> ls_size l = int (length xs)"
  by (simp add: list_rel_def)

lemma list_front_rel: "list_rel m l xs \<Longrightarrow> list_front m l = hd (xs @ [ls_sentinel l])"
  using list_rel_tail [of m l xs] list_rel_sentinel [of m l xs]
  by (simp add: list_front_def xor_cancel_mid del: last.simps)

lemma list_rel_link:
  assumes "list_rel m l (as @ c # bs)"
  shows "m c = last (ls_sentinel l # as) XOR hd (bs @ [ls_sentinel l])"
proof -
  have "m c = path_xor ((ls_sentinel l # as) @ c # (bs @ [ls_sentinel l])) c"
    using assms by (simp add: list_rel_def)
  also have "\<dots> = last (ls_sentinel l # as) XOR hd (bs @ [ls_sentinel l])"
    using assms by (intro path_xor_inner) (auto simp: list_rel_def)
  finally show ?thesis .
qed

text \<open>The successor that every operation computes: the predecessor XOR the link.\<close>

lemma list_rel_next:
  "list_rel m l (as @ c # bs) \<Longrightarrow> last (ls_sentinel l # as) XOR m c = hd (bs @ [ls_sentinel l])"
  by (simp add: list_rel_link xor_cancel_left del: last.simps)

lemma list_rel_prev:
  "list_rel m l (as @ c # bs) \<Longrightarrow> hd (bs @ [ls_sentinel l]) XOR m c = last (ls_sentinel l # as)"
  by (simp add: list_rel_link xor_cancel_mid del: last.simps)

lemma list_rel_nonnull:
  "list_rel m l xs \<Longrightarrow> ls_sentinel l \<noteq> 0"
  "list_rel m l xs \<Longrightarrow> x \<in> set xs \<Longrightarrow> x \<noteq> 0"
  "list_rel m l xs \<Longrightarrow> x \<in> set xs \<Longrightarrow> x \<noteq> ls_sentinel l"
  by (auto simp: list_rel_def)

text \<open>A list only depends on the links of its own ring.\<close>

lemma list_rel_frame:
  "list_rel m l xs \<Longrightarrow> (\<And>a. a \<in> set (ls_sentinel l # xs) \<Longrightarrow> m' a = m a) \<Longrightarrow> list_rel m' l xs"
  by (auto simp: list_rel_def)

lemma list_relI:
  assumes "distinct (s # xs)" and "0 \<notin> set (s # xs)" and "ls_sentinel l = s" and "ls_tail l = last (s # xs)"
    and "ls_size l = int (length xs)"
    and "\<And>a. a \<in> set (s # xs) \<Longrightarrow> m a = path_xor (s # xs @ [s]) a"
  shows "list_rel m l xs"
  using assms by (simp add: list_rel_def)

lemma list_relD:
  assumes "list_rel m l xs"
  shows "distinct (ls_sentinel l # xs)" and "0 \<notin> set (ls_sentinel l # xs)"
    and "\<And>a. a \<in> set (ls_sentinel l # xs) \<Longrightarrow> m a = path_xor (ls_sentinel l # xs @ [ls_sentinel l]) a"
  using assms by (auto simp: list_rel_def)

subsection \<open>Adding and removing a node\<close>

text \<open>The path through the ring, cut where the node \<open>p\<close> goes.\<close>

lemma path_xor_cut:
  "path_xor (s # (as @ bs) @ [s]) a =
     path_xor (s # as) a XOR edge_xor a (last (s # as)) (hd (bs @ [s])) XOR path_xor (bs @ [s]) a"
  using path_xor_append [of "s # as" "bs @ [s]" a] by simp

lemma path_xor_with:
  "path_xor (s # (as @ p # bs) @ [s]) a =
     path_xor (s # as) a XOR edge_xor a (last (s # as)) p XOR edge_xor a p (hd (bs @ [s])) XOR path_xor (bs @ [s]) a"
  using path_xor_append [of "s # as" "p # bs @ [s]" a] path_xor_append [of "[p]" "bs @ [s]" a]
  by (simp add: xor.assoc)

lemma path_xor_insert:
  assumes "a \<noteq> p"
  shows "path_xor (s # (as @ p # bs) @ [s]) a =
     path_xor (s # (as @ bs) @ [s]) a XOR
       (if a = last (s # as) then hd (bs @ [s]) XOR p else 0) XOR (if a = hd (bs @ [s]) then last (s # as) XOR p else 0)"
  unfolding path_xor_with unfolding path_xor_cut edge_xor_def
  using assms by (simp add: xor.assoc xor.left_commute xor.commute xor_cancel_left del: last.simps path_xor.simps)

lemma link_xor_apply: "link_xor m n w a = m a XOR (if a = n then w else 0)"
  by (simp add: link_xor_def)

lemma ring_insert:
  assumes "list_rel m l (as @ bs)" and "p \<noteq> 0" and "p \<notin> set (ls_sentinel l # as @ bs)"
    and "prev = last (ls_sentinel l # as)" and "cur = hd (bs @ [ls_sentinel l])"
    and "m' p = prev XOR cur"
    and "\<And>a. a \<noteq> p \<Longrightarrow> m' a = m a XOR (if a = prev then cur XOR p else 0) XOR (if a = cur then prev XOR p else 0)"
    and "ls_sentinel l' = ls_sentinel l" and "ls_tail l' = last (ls_sentinel l # as @ p # bs)"
    and "ls_size l' = ls_size l + 1"
  shows "list_rel m' l' (as @ p # bs)"
proof (rule list_relI [OF _ _ assms(8) assms(9)])
  fix a assume a: "a \<in> set (ls_sentinel l # as @ p # bs)"
  show "m' a = path_xor (ls_sentinel l # (as @ p # bs) @ [ls_sentinel l]) a"
  proof (cases "a = p")
    case True
    have "path_xor ((ls_sentinel l # as) @ p # (bs @ [ls_sentinel l])) p = prev XOR cur"
      unfolding assms(4,5) using assms(3) by (intro path_xor_inner) auto
    then show ?thesis using True assms(6) by simp
  next
    case False
    then have "m a = path_xor (ls_sentinel l # (as @ bs) @ [ls_sentinel l]) a"
      using a by (intro list_relD(3) [OF assms(1)]) auto
    then show ?thesis
      unfolding path_xor_insert [OF False] using assms(7) [OF False] unfolding assms(4,5) by (simp only:)
  qed
qed (use assms(2,3,10) list_relD(1,2) [OF assms(1)] list_rel_size [OF assms(1)] in auto)

lemma ring_remove:
  assumes "list_rel m l (as @ p # bs)"
    and "prev = last (ls_sentinel l # as)" and "cur = hd (bs @ [ls_sentinel l])"
    and "\<And>a. a \<noteq> p \<Longrightarrow> m' a = m a XOR (if a = prev then cur XOR p else 0) XOR (if a = cur then prev XOR p else 0)"
    and "ls_sentinel l' = ls_sentinel l" and "ls_tail l' = last (ls_sentinel l # as @ bs)"
    and "ls_size l' = ls_size l - 1"
  shows "list_rel m' l' (as @ bs)"
proof (rule list_relI [OF _ _ assms(5) assms(6)])
  fix a assume a: "a \<in> set (ls_sentinel l # as @ bs)"
  then have ne: "a \<noteq> p" using list_relD(1) [OF assms(1)] by auto
  have "m a = path_xor (ls_sentinel l # (as @ p # bs) @ [ls_sentinel l]) a"
    using a by (intro list_relD(3) [OF assms(1)]) auto
  then show "m' a = path_xor (ls_sentinel l # (as @ bs) @ [ls_sentinel l]) a"
    unfolding assms(4) [OF ne] path_xor_insert [OF ne] unfolding assms(2,3)
    by (simp add: xor.assoc xor.left_commute xor.commute xor_cancel_left del: last.simps path_xor.simps)
qed (use list_relD(1,2) [OF assms(1)] list_rel_size [OF assms(1)] assms(7) in auto)

lemma list_new_rel: "s \<noteq> 0 \<Longrightarrow> hxlist_new m s = (m', l) \<Longrightarrow> list_rel m' l []"
  by (auto simp: hxlist_new_def list_rel_def edge_xor_def)

subsection \<open>What an operation does to a list and to the rest of the memory\<close>

definition list_step :: "links \<Rightarrow> hxlist_base \<Rightarrow> addr list \<Rightarrow> list_state \<Rightarrow> addr list \<Rightarrow> bool" where
  "list_step m l touched s xs \<longleftrightarrow> list_rel (fst s) (snd s) xs \<and> ls_sentinel (snd s) = ls_sentinel l \<and>
     (\<forall>a. a \<notin> set (ls_sentinel l # touched) \<longrightarrow> fst s a = m a)"

lemma list_step_insert:
  assumes "list_rel m l (as @ bs)" and "p \<noteq> 0" and "p \<notin> set (ls_sentinel l # as @ bs)"
    and "prev = last (ls_sentinel l # as)" and "cur = hd (bs @ [ls_sentinel l])"
    and "m' p = prev XOR cur"
    and "\<And>a. a \<noteq> p \<Longrightarrow> m' a = m a XOR (if a = prev then cur XOR p else 0) XOR (if a = cur then prev XOR p else 0)"
    and "ls_sentinel l' = ls_sentinel l" and "ls_tail l' = last (ls_sentinel l # as @ p # bs)"
    and "ls_size l' = ls_size l + 1"
  shows "list_step m l (as @ p # bs) (m', l') (as @ p # bs)"
proof -
  have "prev \<in> set (ls_sentinel l # as)" "cur \<in> set (ls_sentinel l # bs)"
    using assms(4,5) last_in_set [of "ls_sentinel l # as"] hd_in_set [of "bs @ [ls_sentinel l]"] by auto
  then show ?thesis
    using ring_insert [OF assms] assms(7,8) by (auto simp: list_step_def)
qed

lemma list_step_remove:
  assumes "list_rel m l (as @ p # bs)"
    and "prev = last (ls_sentinel l # as)" and "cur = hd (bs @ [ls_sentinel l])"
    and "\<And>a. m' a = m a XOR (if a = prev then cur XOR p else 0) XOR (if a = cur then prev XOR p else 0)"
    and "ls_sentinel l' = ls_sentinel l" and "ls_tail l' = last (ls_sentinel l # as @ bs)"
    and "ls_size l' = ls_size l - 1"
  shows "list_step m l (as @ bs) (m', l') (as @ bs)"
proof -
  have "prev \<in> set (ls_sentinel l # as)" "cur \<in> set (ls_sentinel l # bs)"
    using assms(2,3) last_in_set [of "ls_sentinel l # as"] hd_in_set [of "bs @ [ls_sentinel l]"] by auto
  moreover have "list_rel m' l' (as @ bs)"
    by (rule ring_remove [OF assms(1,2,3) _ assms(5,6,7)]) (rule assms(4))
  ultimately show ?thesis
    using assms(4,5) by (auto simp: list_step_def)
qed

lemma ring_last:
  "last (s # as @ p # bs) = (if bs = [] then p else last bs)"
  "last (s # as @ bs) = (if bs = [] then last (s # as) else last bs)"
  "bs \<noteq> [] \<Longrightarrow> last (p # bs) = last bs"
  "last [p] = p"
  by (induction as) auto

lemma list_rel_hd_sentinel:
  "list_rel m l (as @ bs) \<Longrightarrow> hd (bs @ [ls_sentinel l]) = ls_sentinel l \<longleftrightarrow> bs = []"
  by (cases bs) (auto simp: list_rel_def)

lemma list_insert_before_step:
  assumes "list_rel m l (as @ bs)" and "p \<noteq> 0" and "p \<notin> set (ls_sentinel l # as @ bs)"
  shows "\<exists>s. list_insert_before m l (last (ls_sentinel l # as)) (hd (bs @ [ls_sentinel l])) p = Inr s \<and>
    list_step m l (as @ p # bs) s (as @ p # bs)"
  unfolding list_insert_before_def Let_def if_not_P [OF assms(2)]
  by (rule exI, rule conjI, rule refl, rule list_step_insert [OF assms refl refl])
     (use assms list_rel_tail [OF assms(1)] list_rel_hd_sentinel [OF assms(1)]
       last_in_set [of "ls_sentinel l # as"] hd_in_set [of "bs @ [ls_sentinel l]"]
      in \<open>auto simp: link_xor_apply xor.assoc ring_last simp del: last.simps\<close>)

lemma list_push_back_step:
  assumes "list_rel m l xs" and "p \<noteq> 0" and "p \<notin> set (ls_sentinel l # xs)"
  shows "\<exists>s. list_push_back m l p = Inr s \<and> list_step m l (xs @ [p]) s (xs @ [p])"
proof -
  have "list_push_back m l p = list_insert_before m l (last (ls_sentinel l # xs)) (hd ([] @ [ls_sentinel l])) p"
    using assms(2) list_rel_tail [OF assms(1)]
    by (simp add: list_push_back_def list_insert_before_def Let_def del: last.simps)
  then show ?thesis using list_insert_before_step [of m l xs "[]" p] assms by simp
qed

lemma list_insert_after_step:
  assumes "list_rel m l (as @ c # bs)" and "p \<noteq> 0" and "p \<notin> set (ls_sentinel l # as @ c # bs)"
  shows "\<exists>s. list_insert_after m l (last (ls_sentinel l # as)) c p = Inr s \<and>
    list_step m l (as @ c # p # bs) s (as @ c # p # bs)"
proof -
  have "list_insert_after m l (last (ls_sentinel l # as)) c p =
    list_insert_before m l (last (ls_sentinel l # as @ [c])) (hd (bs @ [ls_sentinel l])) p"
    using assms(2) list_rel_next [OF assms(1)]
    by (simp add: list_insert_after_def list_insert_before_def Let_def ring_last del: last.simps)
  then show ?thesis using list_insert_before_step [of m l "as @ [c]" bs p] assms by simp
qed

text \<open>Inserting after the end is inserting at the front: the ring has no other place for it.\<close>

lemma list_insert_after_end_step:
  assumes "list_rel m l xs" and "p \<noteq> 0" and "p \<notin> set (ls_sentinel l # xs)"
  shows "\<exists>s. list_insert_after m l (last (ls_sentinel l # xs)) (ls_sentinel l) p = Inr s \<and>
    list_step m l (p # xs) s (p # xs)"
proof -
  have "last (ls_sentinel l # xs) XOR m (ls_sentinel l) = hd (xs @ [ls_sentinel l])"
    using list_front_rel [OF assms(1)] list_rel_tail [OF assms(1)] by (simp add: list_front_def)
  then have "list_insert_after m l (last (ls_sentinel l # xs)) (ls_sentinel l) p =
    list_insert_before m l (last (ls_sentinel l # [])) (hd (xs @ [ls_sentinel l])) p"
    using assms(2) by (simp add: list_insert_after_def list_insert_before_def Let_def ring_last del: last.simps)
  then show ?thesis using list_insert_before_step [of m l "[]" xs p] assms by simp
qed

lemma list_push_front_step:
  assumes "list_rel m l xs" and "p \<noteq> 0" and "p \<notin> set (ls_sentinel l # xs)"
  shows "\<exists>s. list_push_front m l p = Inr s \<and> list_step m l (p # xs) s (p # xs)"
proof -
  have "list_push_front m l p = list_insert_before m l (last (ls_sentinel l # [])) (hd (xs @ [ls_sentinel l])) p"
    using assms(2) list_front_rel [OF assms(1)]
    by (simp add: list_push_front_def list_insert_before_def list_front_def Let_def)
  then show ?thesis using list_insert_before_step [of m l "[]" xs p] assms by simp
qed

lemma list_extract_step:
  assumes "list_rel m l (as @ c # bs)"
  shows "\<exists>s. list_extract m l (last (ls_sentinel l # as)) c = Inr s \<and> list_step m l (as @ bs) s (as @ bs)"
proof -
  let ?prev = "last (ls_sentinel l # as)" and ?next = "hd (bs @ [ls_sentinel l])"
  let ?m = "link_xor (link_xor m ?prev (c XOR ?next)) ?next (c XOR ?prev)"
  let ?l = "(if ?next = ls_sentinel l then l\<lparr>ls_tail := ?prev\<rparr> else l)\<lparr>ls_size := ls_size l - 1\<rparr>"
  have "list_rel m l ((as @ [c]) @ bs)" using assms by simp
  note sent = list_rel_hd_sentinel [OF this]
  have "list_extract m l ?prev c = Inr (?m, ?l)"
    using list_rel_next [OF assms] list_rel_size [OF assms] list_rel_nonnull(2) [OF assms, of c]
    by (simp add: list_extract_def Let_def del: last.simps)
  moreover have "list_step m l (as @ bs) (?m, ?l) (as @ bs)"
    by (rule list_step_remove [OF assms refl refl])
       (use list_rel_tail [OF assms] sent
        in \<open>auto simp: link_xor_apply xor.commute xor.left_commute xor.assoc xor_cancel_left ring_last simp del: last.simps\<close>)
  ultimately show ?thesis by blast
qed

lemma list_pop_back_step:
  assumes "list_rel m l (as @ [c])"
  shows "\<exists>s. list_pop_back m l = Inr (c, s) \<and> list_step m l as s as"
proof -
  have tail: "ls_tail l = c" using list_rel_tail [OF assms] by simp
  have nonempty: "ls_size l \<noteq> 0" using list_rel_size [OF assms] by simp
  have "list_pop_back m l = hx_map (\<lambda>s. (c, s)) (list_extract m l (last (ls_sentinel l # as)) c)"
    using nonempty tail list_rel_next [OF assms] list_rel_prev [OF assms] list_rel_nonnull(2) [OF assms, of c]
    by (simp add: list_pop_back_def list_extract_def Let_def del: last.simps)
  then show ?thesis using list_extract_step [OF assms] by auto
qed

lemma list_pop_front_step:
  assumes "list_rel m l (c # bs)"
  shows "\<exists>s. list_pop_front m l = Inr (c, s) \<and> list_step m l bs s bs"
proof -
  have front: "ls_tail l XOR m (ls_sentinel l) = c" using list_front_rel [OF assms] by (simp add: list_front_def)
  have nonempty: "ls_size l \<noteq> 0" using list_rel_size [OF assms] by simp
  have "list_pop_front m l = hx_map (\<lambda>s. (c, s)) (list_extract m l (last (ls_sentinel l # [])) c)"
    using nonempty front list_rel_nonnull(2) [OF assms, of c]
    by (simp add: list_pop_front_def list_extract_def Let_def)
  then show ?thesis using list_extract_step [of m l "[]" c bs] assms by auto
qed

lemma list_release_all_step:
  assumes "list_rel m l xs"
  shows "list_step m l [] (list_release_all m l) []"
  using list_relD(2) [OF assms] by (auto simp: list_step_def list_release_all_def list_rel_def edge_xor_def)

lemma list_reverse_step:
  assumes "list_rel m l xs"
  shows "list_step m l [] (m, list_reverse m l) (rev xs)"
proof -
  have front: "ls_tail l XOR m (ls_sentinel l) = hd (xs @ [ls_sentinel l])"
    using list_front_rel [OF assms] by (simp add: list_front_def)
  have "list_rel m (list_reverse m l) (rev xs)"
  proof (rule list_relI [where s = "ls_sentinel l"])
    show "ls_tail (list_reverse m l) = last (ls_sentinel l # rev xs)"
      using front by (cases xs) (auto simp: list_reverse_def)
    fix a assume "a \<in> set (ls_sentinel l # rev xs)"
    then have "m a = path_xor (ls_sentinel l # xs @ [ls_sentinel l]) a"
      by (intro list_relD(3) [OF assms]) auto
    then show "m a = path_xor (ls_sentinel l # rev xs @ [ls_sentinel l]) a"
      using path_xor_rev [of "ls_sentinel l # xs @ [ls_sentinel l]" a] by simp
  qed (use list_relD(1,2) [OF assms] list_rel_size [OF assms] in \<open>auto simp: list_reverse_def\<close>)
  then show ?thesis by (simp add: list_step_def list_reverse_def)
qed

subsection \<open>Splicing\<close>

lemma path_xor_splice:
  assumes "ys \<noteq> []"
  shows "path_xor (s # (as @ ys @ bs) @ [s]) a =
    path_xor (s # as) a XOR edge_xor a (last (s # as)) (hd ys) XOR path_xor ys a XOR
      edge_xor a (last ys) (hd (bs @ [s])) XOR path_xor (bs @ [s]) a"
proof -
  have "path_xor ((s # as) @ ys @ bs @ [s]) a =
    path_xor (s # as) a XOR edge_xor a (last (s # as)) (hd (ys @ bs @ [s])) XOR path_xor (ys @ bs @ [s]) a"
    by (rule path_xor_append) auto
  moreover have "path_xor (ys @ bs @ [s]) a = path_xor ys a XOR edge_xor a (last ys) (hd (bs @ [s])) XOR path_xor (bs @ [s]) a"
    using assms by (intro path_xor_append) auto
  ultimately show ?thesis using assms by (simp add: xor.assoc del: path_xor.simps last.simps)
qed

lemma path_xor_ring:
  "ys \<noteq> [] \<Longrightarrow> path_xor (s # ys @ [s]) a = edge_xor a s (hd ys) XOR path_xor ys a XOR edge_xor a (last ys) s"
  using path_xor_splice [of ys s "[]" "[]" a] by simp

lemma ring_splice:
  assumes l: "list_rel m l (as @ bs)" and x: "list_rel m x ys" and "ys \<noteq> []"
    and disjoint: "set (ls_sentinel l # as @ bs) \<inter> set (ls_sentinel x # ys) = {}"
    and prev: "prev = last (ls_sentinel l # as)" and cur: "cur = hd (bs @ [ls_sentinel l])"
    and m': "\<And>a. a \<noteq> ls_sentinel x \<Longrightarrow> m' a = m a XOR (if a = prev then cur XOR hd ys else 0) XOR (if a = hd ys then ls_sentinel x XOR prev else 0) XOR
        (if a = last ys then ls_sentinel x XOR cur else 0) XOR (if a = cur then prev XOR last ys else 0)"
    and "ls_sentinel l' = ls_sentinel l" and "ls_tail l' = last (ls_sentinel l # as @ ys @ bs)"
    and "ls_size l' = ls_size l + ls_size x"
  shows "list_rel m' l' (as @ ys @ bs)"
proof (rule list_relI [OF _ _ assms(8) assms(9)])
  have ends: "hd ys \<in> set ys" "last ys \<in> set ys" using assms(3) by auto
  have cursor_in: "prev \<in> set (ls_sentinel l # as @ bs)" "cur \<in> set (ls_sentinel l # as @ bs)"
    using prev cur last_in_set [of "ls_sentinel l # as"] hd_in_set [of "bs @ [ls_sentinel l]"] by auto
  fix a assume a: "a \<in> set (ls_sentinel l # as @ ys @ bs)"
  show "m' a = path_xor (ls_sentinel l # (as @ ys @ bs) @ [ls_sentinel l]) a"
  proof (cases "a \<in> set ys")
    case True
    have "m a = path_xor (ls_sentinel x # ys @ [ls_sentinel x]) a"
      using True by (intro list_relD(3) [OF x]) auto
    moreover have "a \<noteq> ls_sentinel x" using True list_relD(1) [OF x] by auto
    moreover have "a \<noteq> prev" "a \<noteq> cur" "a \<notin> set (ls_sentinel l # as)" "a \<notin> set (bs @ [ls_sentinel l])"
      using True disjoint cursor_in by auto
    ultimately show ?thesis
      unfolding path_xor_splice [OF assms(3)] path_xor_ring [OF assms(3)]
      using m' [of a] prev cur
      by (simp add: path_xor_outside edge_xor_def xor.assoc xor.left_commute xor.commute xor_cancel_left
          del: last.simps path_xor.simps)
  next
    case False
    then have "m a = path_xor (ls_sentinel l # (as @ bs) @ [ls_sentinel l]) a"
      using a by (intro list_relD(3) [OF l]) auto
    moreover have "a \<noteq> ls_sentinel x" "a \<noteq> hd ys" "a \<noteq> last ys" using False a disjoint ends by auto
    ultimately show ?thesis
      unfolding path_xor_splice [OF assms(3)] unfolding path_xor_cut
      using False m' [of a] unfolding prev cur
      by (simp add: path_xor_outside edge_xor_def xor.assoc xor.left_commute xor.commute xor_cancel_left
          del: last.simps path_xor.simps)
  qed
qed (use assms(10) disjoint list_relD(1,2) [OF l] list_relD(1,2) [OF x] list_rel_size [OF l] list_rel_size [OF x] in auto)

lemma list_splice_step:
  assumes l: "list_rel m l (as @ bs)" and x: "list_rel m x ys"
    and disjoint: "set (ls_sentinel l # as @ bs) \<inter> set (ls_sentinel x # ys) = {}"
  shows "\<exists>m' l' x'. list_splice m l (last (ls_sentinel l # as)) (hd (bs @ [ls_sentinel l])) x = Inr (m', l', x') \<and>
    list_step m l (as @ ys @ bs @ [ls_sentinel x]) (m', l') (as @ ys @ bs) \<and> list_rel m' x' [] \<and> ls_sentinel x' = ls_sentinel x"
proof (cases "ys = []")
  case True
  have "ls_sentinel x \<noteq> ls_sentinel l" using disjoint by auto
  then have "list_splice m l (last (ls_sentinel l # as)) (hd (bs @ [ls_sentinel l])) x = Inr (m, l, x)"
    using list_rel_size [OF x] True by (simp add: list_splice_def)
  then show ?thesis using l x True by (auto simp: list_step_def)
next
  case False
  let ?prev = "last (ls_sentinel l # as)" and ?cur = "hd (bs @ [ls_sentinel l])"
  let ?m4 = "link_xor (link_xor (link_xor (link_xor m ?prev (?cur XOR hd ys)) (hd ys) (ls_sentinel x XOR ?prev))
    (last ys) (ls_sentinel x XOR ?cur)) ?cur (?prev XOR last ys)"
  let ?m = "?m4(ls_sentinel x := 0)"
  let ?l = "(if ?cur = ls_sentinel l then l\<lparr>ls_tail := last ys\<rparr> else l)\<lparr>ls_size := ls_size l + ls_size x\<rparr>"
  let ?x = "x\<lparr>ls_tail := ls_sentinel x, ls_size := 0\<rparr>"
  have ends: "hd ys \<in> set ys" "last ys \<in> set ys" using False by auto
  have cursor_in: "?prev \<in> set (ls_sentinel l # as @ bs)" "?cur \<in> set (ls_sentinel l # as @ bs)"
    using last_in_set [of "ls_sentinel l # as"] hd_in_set [of "bs @ [ls_sentinel l]"] by auto
  have xs: "ls_tail x = last ys" "ls_tail x XOR m (ls_sentinel x) = hd ys" "ls_size x \<noteq> 0"
    using list_rel_tail [OF x] list_front_rel [OF x] list_rel_size [OF x] False by (auto simp: list_front_def)
  have splice: "list_splice m l ?prev ?cur x = Inr (?m, ?l, ?x)"
    using xs disjoint by (auto simp: list_splice_def list_release_all_def Let_def simp del: last.simps)
  have "list_rel ?m ?l (as @ ys @ bs)"
    by (rule ring_splice [OF l x False disjoint refl refl])
       (use list_rel_tail [OF l] list_rel_hd_sentinel [OF l] False
        in \<open>auto simp: link_xor_apply xor.assoc ring_last simp del: last.simps\<close>)
  moreover have "?m a = m a" if "a \<notin> set (ls_sentinel l # as @ ys @ bs @ [ls_sentinel x])" for a
    using that ends cursor_in by (auto simp: link_xor_apply simp del: last.simps)
  ultimately have step: "list_step m l (as @ ys @ bs @ [ls_sentinel x]) (?m, ?l) (as @ ys @ bs)"
    unfolding list_step_def by simp
  have rest: "list_rel ?m ?x []"
    using list_relD(2) [OF x] by (simp add: list_rel_def edge_xor_def)
  show ?thesis by (rule exI, rule exI, rule exI, intro conjI, rule splice, rule step, rule rest, simp)
qed

subsection \<open>Iterators and loops\<close>

lemma hxlist_begin_cursor: "list_rel m l xs \<Longrightarrow> hxlist_begin m l = cursor l [] xs"
  by (simp add: hxlist_begin_def cursor_def list_front_rel)

lemma hxlist_end_cursor: "list_rel m l xs \<Longrightarrow> hxlist_end l = cursor l xs []"
  by (simp add: hxlist_end_def cursor_def list_rel_tail del: last.simps)

lemma iterator_next_cursor: "list_rel m l (as @ c # bs) \<Longrightarrow> iterator_next m (cursor l as (c # bs)) = Inr (cursor l (as @ [c]) bs)"
  using list_rel_next [of m l as c bs] list_rel_nonnull(1) [of m l "as @ c # bs"]
  by (simp add: iterator_next_def cursor_def ring_last del: last.simps)

lemma iterator_prev_cursor: "list_rel m l (as @ c # bs) \<Longrightarrow> iterator_prev m (cursor l (as @ [c]) bs) = Inr (cursor l as (c # bs))"
  using list_rel_prev [of m l as c bs] list_rel_nonnull(1) [of m l "as @ c # bs"]
  by (simp add: iterator_prev_def cursor_def ring_last del: last.simps)

lemma iterator_eq_end: "list_rel m l (as @ bs) \<Longrightarrow> iterator_eq (cursor l as bs) (cursor l (as @ bs) []) \<longleftrightarrow> bs = []"
  using list_rel_hd_sentinel [of m l as bs] by (simp add: iterator_eq_def cursor_def del: last.simps)

lemma iterator_deref_cursor: "list_rel m l (as @ c # bs) \<Longrightarrow> iterator_deref (cursor l as (c # bs)) = Inr c"
  using list_rel_nonnull [of m l "as @ c # bs"] by (auto simp: iterator_deref_def cursor_def)

lemma iterator_deref_end: "iterator_deref (cursor l as []) = Inl (Assert_debug ''bad_iter'')"
  by (simp add: iterator_deref_def cursor_def)

lemmas cursor_steps = iterator_next_cursor iterator_deref_cursor iterator_eq_end

lemma find_if_loop_cursor:
  "list_rel m l (as @ bs) \<Longrightarrow> find_if_loop m callable (cursor l (as @ bs) []) (cursor l as bs) =
     Some (Inr (cursor l (as @ takeWhile (\<lambda>x. \<not> callable x) bs) (dropWhile (\<lambda>x. \<not> callable x) bs)))"
proof (induction bs arbitrary: as)
  case Nil
  then show ?case using iterator_eq_end [of m l as "[]"] by (subst find_if_loop.simps) simp
next
  case (Cons c bs)
  then show ?case
    using Cons.IH [of "as @ [c]"] by (subst find_if_loop.simps) (simp add: cursor_steps)
qed

lemma hxlist_find_if_rel:
  "list_rel m l xs \<Longrightarrow> hxlist_find_if m l callable =
     Some (Inr (cursor l (takeWhile (\<lambda>x. \<not> callable x) xs) (dropWhile (\<lambda>x. \<not> callable x) xs)))"
  using find_if_loop_cursor [of m l "[]" xs callable]
  by (simp add: hxlist_find_if_def hxlist_begin_cursor hxlist_end_cursor)

lemma for_each_loop_cursor:
  "list_rel m l (as @ bs) \<Longrightarrow>
   for_each_loop m (cursor l (as @ bs) []) (cursor l as bs) visited = Some (Inr (visited @ bs))"
proof (induction bs arbitrary: as visited)
  case Nil
  then show ?case using iterator_eq_end [of m l as "[]"] by (subst for_each_loop.simps) simp
next
  case (Cons c bs)
  then show ?case
    using Cons.IH [of "as @ [c]" "visited @ [c]"] by (subst for_each_loop.simps) (simp add: cursor_steps)
qed

lemma hxlist_for_each_rel: "list_rel m l xs \<Longrightarrow> hxlist_for_each m l = Some (Inr xs)"
  using for_each_loop_cursor [of m l "[]" xs "[]"]
  by (simp add: hxlist_for_each_def hxlist_begin_cursor hxlist_end_cursor)

text \<open>The part of the ring that \<open>clear\<close> still has to visit; its nodes are intact although the
  sentinel and the nodes before them are not.\<close>

fun link_chain :: "links \<Rightarrow> addr \<Rightarrow> addr list \<Rightarrow> addr \<Rightarrow> bool" where
  "link_chain m prev [] s = True"
| "link_chain m prev (c # bs) s = (m c = prev XOR hd (bs @ [s]) \<and> link_chain m c bs s)"

lemma link_chain_frame: "link_chain m prev bs s \<Longrightarrow> (\<And>a. a \<in> set bs \<Longrightarrow> m' a = m a) \<Longrightarrow> link_chain m' prev bs s"
  by (induction bs arbitrary: prev) auto

lemma list_rel_chain: "list_rel m l (as @ bs) \<Longrightarrow> link_chain m (last (ls_sentinel l # as)) bs (ls_sentinel l)"
proof (induction bs arbitrary: as)
  case (Cons c bs)
  then show ?case
    using Cons.IH [of "as @ [c]"] list_rel_link [of m l as c bs] by (simp add: ring_last del: last.simps)
qed simp

lemma clear_loop_chain:
  "link_chain m prev bs s \<Longrightarrow> distinct bs \<Longrightarrow> s \<notin> set bs \<Longrightarrow>
   \<exists>m'. clear_loop f s prev (hd (bs @ [s])) m log = Some (m', log @ bs) \<and> (\<forall>a. a \<notin> set bs \<longrightarrow> m' a = m a)"
proof (induction bs arbitrary: prev m log)
  case Nil
  then show ?case by (subst clear_loop.simps) simp
next
  case (Cons c bs)
  let ?m = "m(c := f c m)"
  have "link_chain ?m c bs s"
    by (rule link_chain_frame [of m]) (use Cons.prems in auto)
  then obtain m' where "clear_loop f s c (hd (bs @ [s])) ?m (log @ [c]) = Some (m', (log @ [c]) @ bs)"
    "\<forall>a. a \<notin> set bs \<longrightarrow> m' a = ?m a"
    using Cons.IH [OF \<open>link_chain ?m c bs s\<close>, of "log @ [c]"] Cons.prems(2,3) by (auto simp del: append_assoc fun_upd_apply)
  moreover have "prev XOR m c = hd (bs @ [s])" using Cons.prems(1) by (simp add: xor_cancel_left)
  ultimately show ?case
    using Cons.prems by (subst clear_loop.simps) (auto simp: run_deleter_def)
qed

lemma hxlist_clear_step:
  assumes "list_rel m l xs"
  shows "\<exists>s. hxlist_clear m l d = Some (s, if d = None then [] else xs) \<and> list_step m l xs s []"
proof (cases "xs = [] \<or> d = None")
  case True
  then show ?thesis
    using assms list_release_all_step [OF assms] list_rel_size [OF assms]
    by (cases "list_release_all m l") (auto simp: hxlist_clear_def list_step_def)
next
  case False
  then obtain f where f: "d = Some f" by auto
  obtain m1 l1 where r: "list_release_all m l = (m1, l1)" by force
  have m1: "m1 = m(ls_sentinel l := 0)" using r by (auto simp: list_release_all_def)
  have "link_chain m1 (ls_sentinel l) xs (ls_sentinel l)"
    using list_rel_chain [of m l "[]" xs] assms list_relD(1) [OF assms]
    by (auto simp: m1 intro: link_chain_frame [of m])
  then obtain m' where m': "clear_loop f (ls_sentinel l) (ls_sentinel l) (hd (xs @ [ls_sentinel l])) m1 [] = Some (m', xs)"
    "\<forall>a. a \<notin> set xs \<longrightarrow> m' a = m1 a"
    using clear_loop_chain [of m1 "ls_sentinel l" xs "ls_sentinel l" f "[]"] list_relD(1) [OF assms] by auto
  have "hxlist_clear m l d = Some ((m', l1), xs)"
    using False f r m'(1) list_rel_size [OF assms] list_front_rel [OF assms] by (simp add: hxlist_clear_def)
  moreover have "list_step m l xs (m', l1) []"
    using list_release_all_step [OF assms] list_relD(1) [OF assms] m'(2) m1
    by (auto simp: r list_step_def list_rel_def)
  ultimately show ?thesis using f by auto
qed

lemma remove_if_loop_step:
  "list_rel m l (as @ bs) \<Longrightarrow>
   \<exists>s. remove_if_loop callable d (last (ls_sentinel l # as)) (hd (bs @ [ls_sentinel l])) m l removed log =
       Some (Inr (s, removed + int (length (filter callable bs)), log @ (if d = None then [] else filter callable bs))) \<and>
     list_step m l (as @ bs) s (as @ filter (\<lambda>x. \<not> callable x) bs)"
proof (induction bs arbitrary: as m l removed log)
  case Nil
  then show ?case by (subst remove_if_loop.simps) (auto simp: list_step_def)
next
  case (Cons c bs)
  have ne: "c \<noteq> ls_sentinel l" using list_rel_nonnull(3) [OF Cons.prems] by simp
  note next_eq = list_rel_next [OF Cons.prems]
  show ?case
  proof (cases "callable c")
    case False
    then show ?thesis
      using Cons.IH [of m l "as @ [c]" removed log] Cons.prems ne next_eq
      by (subst remove_if_loop.simps) (auto simp: ring_last simp del: last.simps)
  next
    case True
    obtain m1 l1 where ex: "list_extract m l (last (ls_sentinel l # as)) c = Inr (m1, l1)"
      "list_step m l (as @ bs) (m1, l1) (as @ bs)"
      using list_extract_step [OF Cons.prems] by auto
    obtain m2 log2 where del: "run_deleter d c m1 log = (m2, log2)" by force
    have m2: "\<And>a. a \<noteq> c \<Longrightarrow> m2 a = m1 a" and log2: "log2 = log @ (if d = None then [] else [c])"
      using del by (auto simp: run_deleter_def split: option.splits)
    have s1: "ls_sentinel l1 = ls_sentinel l" and rel1: "list_rel m1 l1 (as @ bs)"
      using ex(2) by (auto simp: list_step_def)
    have "list_rel m2 l1 (as @ bs)"
      using list_relD(1) [OF Cons.prems] s1 by (intro list_rel_frame [OF rel1]) (auto intro!: m2)
    from Cons.IH [OF this, of "removed + 1" log2] obtain s where
      s: "remove_if_loop callable d (last (ls_sentinel l # as)) (hd (bs @ [ls_sentinel l])) m2 l1 (removed + 1) log2 =
        Some (Inr (s, removed + 1 + int (length (filter callable bs)), log2 @ (if d = None then [] else filter callable bs)))"
      "list_step m2 l1 (as @ bs) s (as @ filter (\<lambda>x. \<not> callable x) bs)"
      using s1 by auto
    have "list_step m l (as @ c # bs) s (as @ filter (\<lambda>x. \<not> callable x) bs)"
      using s(2) ex(2) m2 s1 by (auto simp: list_step_def)
    then show ?thesis
      using True ne next_eq ex(1) del s(1) log2
      by (subst remove_if_loop.simps) (auto simp del: last.simps)
  qed
qed

lemma hxlist_remove_if_step:
  assumes "list_rel m l xs"
  shows "\<exists>s. hxlist_remove_if m l callable d =
       Some (Inr (s, int (length (filter callable xs)), if d = None then [] else filter callable xs)) \<and>
     list_step m l xs s (filter (\<lambda>x. \<not> callable x) xs)"
  using remove_if_loop_step [of m l "[]" xs callable d 0 "[]"] assms list_front_rel [OF assms]
  by (simp add: hxlist_remove_if_def)

section \<open>Properties\<close>

text \<open>On a list that holds \<open>as @ bs\<close>, inserting a node that is not in the list at the iterator between
  \<open>as\<close> and \<open>bs\<close>, or at either end, gives the list with the node there and the iterator of the node, and
  changes no link outside the ring; a null node is refused.\<close>

lemma hxlist_inserts:
  assumes "list_rel m l (as @ bs)" and "p \<noteq> 0" and "p \<notin> set (ls_sentinel l # as @ bs)"
  shows "(\<exists>s. hxlist_insert m l (cursor l as bs) p = Inr (s, cursor l as (p # bs)) \<and> list_step m l (as @ p # bs) s (as @ p # bs)) \<and>
    (\<exists>s. hxlist_push_back m l p = Inr (s, cursor l (as @ bs) [p]) \<and> list_step m l (as @ bs @ [p]) s (as @ bs @ [p])) \<and>
    (\<exists>s. hxlist_push_front m l p = Inr (s, cursor l [] (p # as @ bs)) \<and> list_step m l (p # as @ bs) s (p # as @ bs)) \<and>
    (\<exists>s as' bs'. hxlist_insert_after m l (cursor l as bs) p = Inr (s, cursor l as' bs') \<and>
       as' @ bs' = (case bs of [] \<Rightarrow> p # as | c # cs \<Rightarrow> as @ c # p # cs) \<and> list_step m l (as' @ bs') s (as' @ bs')) \<and>
    \<not> hx_ok (hxlist_insert m l (cursor l as bs) 0) \<and> \<not> hx_ok (hxlist_push_back m l 0) \<and> \<not> hx_ok (hxlist_push_front m l 0)"
proof (intro conjI)
  show "\<exists>s. hxlist_insert m l (cursor l as bs) p = Inr (s, cursor l as (p # bs)) \<and> list_step m l (as @ p # bs) s (as @ p # bs)"
    using list_insert_before_step [OF assms] by (auto simp: hxlist_insert_def cursor_def simp del: last.simps)
  show "\<exists>s. hxlist_push_back m l p = Inr (s, cursor l (as @ bs) [p]) \<and> list_step m l (as @ bs @ [p]) s (as @ bs @ [p])"
    using list_push_back_step [of m l "as @ bs" p] assms list_rel_tail [OF assms(1)]
    by (auto simp: hxlist_push_back_def cursor_def simp del: last.simps)
  show "\<exists>s. hxlist_push_front m l p = Inr (s, cursor l [] (p # as @ bs)) \<and> list_step m l (p # as @ bs) s (p # as @ bs)"
    using list_push_front_step [of m l "as @ bs" p] assms by (auto simp: hxlist_push_front_def cursor_def)
  show "\<exists>s as' bs'. hxlist_insert_after m l (cursor l as bs) p = Inr (s, cursor l as' bs') \<and>
       as' @ bs' = (case bs of [] \<Rightarrow> p # as | c # cs \<Rightarrow> as @ c # p # cs) \<and> list_step m l (as' @ bs') s (as' @ bs')"
  proof (cases bs)
    case Nil
    then obtain s where "list_insert_after m l (last (ls_sentinel l # as)) (ls_sentinel l) p = Inr s" "list_step m l (p # as) s (p # as)"
      using list_insert_after_end_step [of m l as p] assms by auto
    then have "hxlist_insert_after m l (cursor l as []) p = Inr (s, cursor l [] (p # as))"
      by (simp add: hxlist_insert_after_def cursor_def ring_last del: last.simps)
    then show ?thesis using \<open>list_step m l (p # as) s (p # as)\<close> Nil by (intro exI [of _ s] exI [of _ "[]"] exI [of _ "p # as"]) simp
  next
    case (Cons c cs)
    then obtain s where s: "list_insert_after m l (last (ls_sentinel l # as)) c p = Inr s"
      "list_step m l (as @ c # p # cs) s (as @ c # p # cs)"
      using list_insert_after_step [of m l as c cs p] assms by auto
    then have "hxlist_insert_after m l (cursor l as (c # cs)) p = Inr (s, cursor l (as @ [c]) (p # cs))"
      by (simp add: hxlist_insert_after_def cursor_def ring_last del: last.simps)
    then show ?thesis using s(2) Cons by (intro exI [of _ s] exI [of _ "as @ [c]"] exI [of _ "p # cs"]) simp
  qed
qed (simp_all add: hxlist_insert_def list_insert_before_def hxlist_push_back_def list_push_back_def
    hxlist_push_front_def list_push_front_def)

text \<open>A list of two nodes for the witnesses: the sentinel at 16, the nodes at 32 and 48.\<close>

definition example_links :: links where
  "example_links a = (if a = 16 then 32 XOR 48 else if a = 32 then 16 XOR 48 else if a = 48 then 32 XOR 16 else 0)"

definition example_list :: hxlist_base where
  "example_list = \<lparr>ls_size = 2, ls_sentinel = 16, ls_tail = 48\<rparr>"

lemma example_list_rel: "list_rel example_links example_list [32, 48]"
  by (simp add: list_rel_def example_links_def example_list_def edge_xor_def)

lemma hxlist_inserts_witness:
  "\<exists>s. hxlist_insert example_links example_list (cursor example_list [32] [48]) 64 = Inr (s, cursor example_list [32] [64, 48]) \<and>
    list_rel (fst s) (snd s) [32, 64, 48]"
  using hxlist_inserts [of example_links example_list "[32]" "[48]" 64] example_list_rel
  by (auto simp: example_list_def list_step_def)

text \<open>Popping, extracting and erasing remove exactly the node at that place, whether or not its
  neighbours are the sentinel, erase deletes that node once and may leave anything in its memory, and
  popping from an empty list stops.\<close>

lemma hxlist_removes:
  assumes "list_rel m l xs"
  shows "(if xs = [] then list_pop_back m l = Inl (Assert_hard ''list_empty'') \<and> list_pop_front m l = Inl (Assert_hard ''list_empty'')
     else (\<exists>s. list_pop_back m l = Inr (last xs, s) \<and> list_step m l (butlast xs) s (butlast xs)) \<and>
          (\<exists>s. list_pop_front m l = Inr (hd xs, s) \<and> list_step m l (tl xs) s (tl xs))) \<and>
    (xs = as @ c # bs \<longrightarrow>
      (\<exists>s. hxlist_extract m l (cursor l as (c # bs)) = Inr (c, s) \<and> list_step m l (as @ bs) s (as @ bs)) \<and>
      (\<exists>s. hxlist_erase m l (cursor l as (c # bs)) d = Inr (s, if d = None then [] else [c]) \<and> list_step m l xs s (as @ bs)))"
proof (intro conjI impI)
  show "if xs = [] then list_pop_back m l = Inl (Assert_hard ''list_empty'') \<and> list_pop_front m l = Inl (Assert_hard ''list_empty'')
     else (\<exists>s. list_pop_back m l = Inr (last xs, s) \<and> list_step m l (butlast xs) s (butlast xs)) \<and>
          (\<exists>s. list_pop_front m l = Inr (hd xs, s) \<and> list_step m l (tl xs) s (tl xs))"
    using list_pop_back_step [of m l "butlast xs" "last xs"] list_pop_front_step [of m l "hd xs" "tl xs"]
      assms list_rel_size [OF assms] by (auto simp: list_pop_back_def list_pop_front_def)
next
  assume xs: "xs = as @ c # bs"
  then obtain m1 l1 where s: "list_extract m l (last (ls_sentinel l # as)) c = Inr (m1, l1)" "list_step m l (as @ bs) (m1, l1) (as @ bs)"
    using list_extract_step [of m l as c bs] assms by auto
  show "\<exists>s. hxlist_extract m l (cursor l as (c # bs)) = Inr (c, s) \<and> list_step m l (as @ bs) s (as @ bs)"
    using s by (simp add: hxlist_extract_def cursor_def del: last.simps)
  obtain m2 where del: "run_deleter d c m1 [] = (m2, if d = None then [] else [c])" "\<And>a. a \<noteq> c \<Longrightarrow> m2 a = m1 a"
    by (cases d) (auto simp: run_deleter_def)
  have "list_rel m1 l1 (as @ bs)" "ls_sentinel l1 = ls_sentinel l" using s(2) by (auto simp: list_step_def)
  then have "list_rel m2 l1 (as @ bs)"
    using list_relD(1) [OF assms] xs by (auto intro!: list_rel_frame [of m1] del(2))
  then have "list_step m l xs (m2, l1) (as @ bs)" using s(2) del(2) xs by (auto simp: list_step_def)
  then show "\<exists>s. hxlist_erase m l (cursor l as (c # bs)) d = Inr (s, if d = None then [] else [c]) \<and> list_step m l xs s (as @ bs)"
    using s(1) del(1) by (auto simp: hxlist_erase_def cursor_def simp del: last.simps)
qed

lemma hxlist_removes_witness:
  "\<exists>s. hxlist_extract example_links example_list (cursor example_list [32] [48]) = Inr (48, s) \<and>
    list_rel (fst s) (snd s) [32]"
  using hxlist_removes [OF example_list_rel, of "[32]" 48 "[]" None] by (auto simp: list_step_def)

text \<open>Reversing changes no node at all and splicing moves all nodes of another list to the iterator and
  leaves the other list empty, both without a loop.\<close>

lemma hxlist_reverse_splice:
  assumes "list_rel m l (as @ bs)" and "list_rel m x ys"
    and "set (ls_sentinel l # as @ bs) \<inter> set (ls_sentinel x # ys) = {}"
  shows "list_rel m (list_reverse m l) (rev (as @ bs)) \<and>
    (\<exists>m' l' x'. hxlist_splice m l (cursor l as bs) x = Inr (m', l', x') \<and> list_rel m' l' (as @ ys @ bs) \<and> list_rel m' x' [] \<and>
      (\<forall>a. a \<notin> set (ls_sentinel l # as @ bs) \<union> set (ls_sentinel x # ys) \<longrightarrow> m' a = m a))"
  using list_reverse_step [OF assms(1)] list_splice_step [OF assms]
  by (fastforce simp: hxlist_splice_def cursor_def list_step_def simp del: last.simps)

lemma hxlist_reverse_splice_witness:
  "list_rel example_links (list_reverse example_links example_list) [48, 32] \<and>
   (\<exists>m' l' x'. hxlist_splice example_links example_list (cursor example_list [32] [48]) \<lparr>ls_size = 0, ls_sentinel = 8, ls_tail = 8\<rparr> =
      Inr (m', l', x') \<and> list_rel m' l' [32, 48])"
proof -
  have "list_rel example_links \<lparr>ls_size = 0, ls_sentinel = 8, ls_tail = 8\<rparr> []"
    by (simp add: list_rel_def example_links_def edge_xor_def)
  from hxlist_reverse_splice [of example_links example_list "[32]" "[48]", OF _ this]
  show ?thesis using example_list_rel by (fastforce simp: example_list_def)
qed

text \<open>The loops over the links of a list end: iterating visits the nodes in order, find_if returns the
  first node the callable accepts or the end, clear deletes every node once in order although deleting a
  node may destroy its link, and remove_if removes and deletes exactly the nodes the callable accepts and
  returns their number.\<close>

lemma hxlist_loops_end:
  assumes "list_rel m l xs"
  shows "hxlist_for_each m l = Some (Inr xs) \<and>
    hxlist_find_if m l callable =
      Some (Inr (cursor l (takeWhile (\<lambda>x. \<not> callable x) xs) (dropWhile (\<lambda>x. \<not> callable x) xs))) \<and>
    (\<exists>s. hxlist_clear m l d = Some (s, if d = None then [] else xs) \<and> list_step m l xs s []) \<and>
    (\<exists>s. hxlist_remove_if m l callable d =
       Some (Inr (s, int (length (filter callable xs)), if d = None then [] else filter callable xs)) \<and>
     list_step m l xs s (filter (\<lambda>x. \<not> callable x) xs))"
  using hxlist_for_each_rel [OF assms] hxlist_find_if_rel [OF assms, of callable]
    hxlist_clear_step [OF assms, of d] hxlist_remove_if_step [OF assms, of callable d]
  by (intro conjI)

lemma hxlist_loops_end_witness:
  "hxlist_for_each example_links example_list = Some (Inr [32, 48]) \<and>
   (\<exists>s. hxlist_remove_if example_links example_list (\<lambda>a. a = 32) (Some (\<lambda>p m. 7)) = Some (Inr (s, 1, [32])) \<and>
      list_rel (fst s) (snd s) [48])"
  using hxlist_loops_end [OF example_list_rel, of "\<lambda>a. a = 32" "Some (\<lambda>p m. 7)"] by (auto simp: list_step_def)

end
