(* ===== verification/HxListConstexpr.thy ===== *)
theory HxListConstexpr
  imports HxList
begin

text \<open>
  The \<open>constexpr\<close> twin of the list, \<^verbatim>\<open>include/hx/hxlist_constexpr.hpp\<close> and \<^verbatim>\<open>detail/hxlist_constexpr.inl\<close>: an intrusive
  ring with both links in every node, which needs no pointer arithmetic. The memory maps an address to the two links stored there; the
  sentinel is a node whose address names the list.
\<close>

section \<open>State\<close>

record dlinks =
  dl_prev :: "addr \<Rightarrow> addr"
  dl_next :: "addr \<Rightarrow> addr"

record hxlist_constexpr =
  lc_sentinel :: addr
  lc_size :: hxsize_t

type_synonym clist_state = "dlinks \<times> hxlist_constexpr"

definition set_prev :: "dlinks \<Rightarrow> addr \<Rightarrow> addr \<Rightarrow> dlinks" where
  "set_prev m a p = m\<lparr>dl_prev := (dl_prev m)(a := p)\<rparr>"

definition set_next_link :: "dlinks \<Rightarrow> addr \<Rightarrow> addr \<Rightarrow> dlinks" where
  "set_next_link m a n = m\<lparr>dl_next := (dl_next m)(a := n)\<rparr>"

definition clist_release_all :: "dlinks \<Rightarrow> hxlist_constexpr \<Rightarrow> clist_state" where
  "clist_release_all m l =
     (let s = lc_sentinel l in (set_next_link (set_prev m s s) s s, l\<lparr>lc_size := 0\<rparr>))"

definition hxlist_constexpr_new :: "dlinks \<Rightarrow> addr \<Rightarrow> clist_state" where
  "hxlist_constexpr_new m s = (set_next_link (set_prev m s s) s s, \<lparr>lc_sentinel = s, lc_size = 0\<rparr>)"

section \<open>Iterators\<close>

record clist_iterator =
  ci_current :: addr
  ci_sentinel :: addr

definition clist_iterator_next :: "dlinks \<Rightarrow> clist_iterator \<Rightarrow> clist_iterator hx" where
  "clist_iterator_next m it =
     (if ci_current it = 0 then Inl (Assert_debug ''bad_iter'') else Inr (it\<lparr>ci_current := dl_next m (ci_current it)\<rparr>))"

definition clist_iterator_prev :: "dlinks \<Rightarrow> clist_iterator \<Rightarrow> clist_iterator hx" where
  "clist_iterator_prev m it =
     (if ci_current it = 0 then Inl (Assert_debug ''bad_iter'') else Inr (it\<lparr>ci_current := dl_prev m (ci_current it)\<rparr>))"

definition clist_iterator_eq :: "clist_iterator \<Rightarrow> clist_iterator \<Rightarrow> bool" where
  "clist_iterator_eq it x = (ci_current it = ci_current x)"

definition clist_iterator_deref :: "clist_iterator \<Rightarrow> addr hx" where
  "clist_iterator_deref it =
     (if ci_current it = 0 \<or> ci_current it = ci_sentinel it then Inl (Assert_debug ''bad_iter'') else Inr (ci_current it))"

definition clist_begin :: "dlinks \<Rightarrow> hxlist_constexpr \<Rightarrow> clist_iterator" where
  "clist_begin m l = \<lparr>ci_current = dl_next m (lc_sentinel l), ci_sentinel = lc_sentinel l\<rparr>"

definition clist_end :: "hxlist_constexpr \<Rightarrow> clist_iterator" where
  "clist_end l = \<lparr>ci_current = lc_sentinel l, ci_sentinel = lc_sentinel l\<rparr>"

section \<open>Operations\<close>

definition clist_empty :: "hxlist_constexpr \<Rightarrow> bool" where
  "clist_empty l = (lc_size l = 0)"

definition clist_front :: "dlinks \<Rightarrow> hxlist_constexpr \<Rightarrow> addr hx" where
  "clist_front m l = (if clist_empty l then Inl (Assert_hard ''list_empty'') else Inr (dl_next m (lc_sentinel l)))"

definition clist_back :: "dlinks \<Rightarrow> hxlist_constexpr \<Rightarrow> addr hx" where
  "clist_back m l = (if clist_empty l then Inl (Assert_hard ''list_empty'') else Inr (dl_prev m (lc_sentinel l)))"

text \<open>\<open>insert_\<close> and \<open>extract_\<close>, which the others are made of.\<close>

definition clist_insert_node :: "dlinks \<Rightarrow> hxlist_constexpr \<Rightarrow> addr \<Rightarrow> addr \<Rightarrow> addr \<Rightarrow> clist_state hx" where
  "clist_insert_node m l prev nxt ptr =
     (if ptr = 0 then Inl (Assert_debug ''bad_node'')
      else let m1 = set_prev m ptr prev; m2 = set_next_link m1 ptr nxt;
               m3 = set_next_link m2 prev ptr; m4 = set_prev m3 nxt ptr
           in Inr (m4, l\<lparr>lc_size := lc_size l + 1\<rparr>))"

definition clist_extract_node :: "dlinks \<Rightarrow> hxlist_constexpr \<Rightarrow> addr \<Rightarrow> clist_state hx" where
  "clist_extract_node m l ptr =
     (if clist_empty l then Inl (Assert_hard ''list_empty'')
      else if ptr = 0 then Inl (Assert_debug ''bad_node'')
      else let m1 = set_next_link m (dl_prev m ptr) (dl_next m ptr);
               m2 = set_prev m1 (dl_next m1 ptr) (dl_prev m1 ptr)
           in Inr (m2, l\<lparr>lc_size := lc_size l - 1\<rparr>))"

definition clist_push_back :: "dlinks \<Rightarrow> hxlist_constexpr \<Rightarrow> addr \<Rightarrow> (clist_state \<times> clist_iterator) hx" where
  "clist_push_back m l ptr =
     hx_map (\<lambda>s. (s, \<lparr>ci_current = ptr, ci_sentinel = lc_sentinel l\<rparr>))
       (clist_insert_node m l (dl_prev m (lc_sentinel l)) (lc_sentinel l) ptr)"

definition clist_push_front :: "dlinks \<Rightarrow> hxlist_constexpr \<Rightarrow> addr \<Rightarrow> (clist_state \<times> clist_iterator) hx" where
  "clist_push_front m l ptr =
     hx_map (\<lambda>s. (s, \<lparr>ci_current = ptr, ci_sentinel = lc_sentinel l\<rparr>))
       (clist_insert_node m l (lc_sentinel l) (dl_next m (lc_sentinel l)) ptr)"

definition clist_insert :: "dlinks \<Rightarrow> hxlist_constexpr \<Rightarrow> clist_iterator \<Rightarrow> addr \<Rightarrow> (clist_state \<times> clist_iterator) hx" where
  "clist_insert m l it ptr =
     hx_map (\<lambda>s. (s, \<lparr>ci_current = ptr, ci_sentinel = lc_sentinel l\<rparr>))
       (clist_insert_node m l (dl_prev m (ci_current it)) (ci_current it) ptr)"

definition clist_insert_after :: "dlinks \<Rightarrow> hxlist_constexpr \<Rightarrow> clist_iterator \<Rightarrow> addr \<Rightarrow> (clist_state \<times> clist_iterator) hx" where
  "clist_insert_after m l it ptr =
     hx_map (\<lambda>s. (s, \<lparr>ci_current = ptr, ci_sentinel = lc_sentinel l\<rparr>))
       (clist_insert_node m l (ci_current it) (dl_next m (ci_current it)) ptr)"

definition clist_pop_back :: "dlinks \<Rightarrow> hxlist_constexpr \<Rightarrow> (addr \<times> clist_state) hx" where
  "clist_pop_back m l =
     (if clist_empty l then Inl (Assert_hard ''list_empty'')
      else let s = lc_sentinel l; ptr = dl_prev m s; prev = dl_prev m ptr;
               m1 = set_next_link m prev s; m2 = set_prev m1 s prev
           in Inr (ptr, m2, l\<lparr>lc_size := lc_size l - 1\<rparr>))"

definition clist_pop_front :: "dlinks \<Rightarrow> hxlist_constexpr \<Rightarrow> (addr \<times> clist_state) hx" where
  "clist_pop_front m l =
     (if clist_empty l then Inl (Assert_hard ''list_empty'')
      else let s = lc_sentinel l; ptr = dl_next m s; nxt = dl_next m ptr;
               m1 = set_next_link m s nxt; m2 = set_prev m1 nxt s
           in Inr (ptr, m2, l\<lparr>lc_size := lc_size l - 1\<rparr>))"

text \<open>A deleter frees the node: its links hold anything after the call.\<close>

type_synonym clist_deleter = "(addr \<Rightarrow> dlinks \<Rightarrow> addr \<times> addr) option"

definition run_clist_deleter :: "clist_deleter \<Rightarrow> addr \<Rightarrow> dlinks \<Rightarrow> addr list \<Rightarrow> dlinks \<times> addr list" where
  "run_clist_deleter d p m log =
     (case d of None \<Rightarrow> (m, log) | Some f \<Rightarrow> (set_next_link (set_prev m p (fst (f p m))) p (snd (f p m)), log @ [p]))"

definition clist_erase :: "dlinks \<Rightarrow> hxlist_constexpr \<Rightarrow> clist_iterator \<Rightarrow> clist_deleter \<Rightarrow> (clist_state \<times> addr list) hx" where
  "clist_erase m l it d =
     hx_map (\<lambda>(m1, l1). let (m2, log) = run_clist_deleter d (ci_current it) m1 [] in ((m2, l1), log))
       (clist_extract_node m l (ci_current it))"

definition clist_extract :: "dlinks \<Rightarrow> hxlist_constexpr \<Rightarrow> clist_iterator \<Rightarrow> (addr \<times> clist_state) hx" where
  "clist_extract m l it = hx_map (\<lambda>s. (ci_current it, s)) (clist_extract_node m l (ci_current it))"

text \<open>The loops follow links, so they end only on a closed ring: \<open>None\<close> is a loop that does not end.\<close>

partial_function (option) clist_clear_loop ::
  "clist_deleter \<Rightarrow> addr \<Rightarrow> addr \<Rightarrow> dlinks \<Rightarrow> addr list \<Rightarrow> (dlinks \<times> addr list) option" where
  "clist_clear_loop d s node m log =
     (if node \<noteq> s
      then let nxt = dl_next m node; (m1, log1) = run_clist_deleter d node m log in clist_clear_loop d s nxt m1 log1
      else Some (m, log))"

definition clist_clear :: "dlinks \<Rightarrow> hxlist_constexpr \<Rightarrow> clist_deleter \<Rightarrow> (clist_state \<times> addr list) option" where
  "clist_clear m l d =
     (if lc_size l \<noteq> 0
      then (if d = None then Some (clist_release_all m l, [])
            else case clist_clear_loop d (lc_sentinel l) (dl_next m (lc_sentinel l)) m [] of None \<Rightarrow> None
                 | Some (m1, log) \<Rightarrow> Some (clist_release_all m1 l, log))
      else Some ((m, l), []))"

partial_function (option) clist_find_loop ::
  "dlinks \<Rightarrow> (addr \<Rightarrow> bool) \<Rightarrow> clist_iterator \<Rightarrow> clist_iterator \<Rightarrow> clist_iterator hx option" where
  "clist_find_loop m callable end_it it =
     (if \<not> clist_iterator_eq it end_it
      then case clist_iterator_deref it of Inl e \<Rightarrow> Some (Inl e)
           | Inr x \<Rightarrow> if callable x then Some (Inr it)
                     else case clist_iterator_next m it of Inl e \<Rightarrow> Some (Inl e)
                          | Inr it' \<Rightarrow> clist_find_loop m callable end_it it'
      else Some (Inr end_it))"

definition clist_find_if :: "dlinks \<Rightarrow> hxlist_constexpr \<Rightarrow> (addr \<Rightarrow> bool) \<Rightarrow> clist_iterator hx option" where
  "clist_find_if m l callable = clist_find_loop m callable (clist_end l) (clist_begin m l)"

text \<open>\<open>for_each\<close>: the nodes the callable is called with, in order.\<close>

partial_function (option) clist_each_loop :: "dlinks \<Rightarrow> addr \<Rightarrow> addr \<Rightarrow> addr list \<Rightarrow> addr list option" where
  "clist_each_loop m s node visited =
     (if node \<noteq> s then clist_each_loop m s (dl_next m node) (visited @ [node]) else Some visited)"

definition clist_for_each :: "dlinks \<Rightarrow> hxlist_constexpr \<Rightarrow> addr list option" where
  "clist_for_each m l = clist_each_loop m (lc_sentinel l) (dl_next m (lc_sentinel l)) []"

partial_function (option) clist_remove_loop ::
  "(addr \<Rightarrow> bool) \<Rightarrow> clist_deleter \<Rightarrow> addr \<Rightarrow> addr \<Rightarrow> addr \<Rightarrow> hxsize_t \<Rightarrow> dlinks \<Rightarrow> addr list
    \<Rightarrow> (dlinks \<times> hxsize_t \<times> addr list) option" where
  "clist_remove_loop callable d s prev node sz m log =
     (if node \<noteq> s
      then let nxt = dl_next m node
           in if callable node
              then let m1 = set_next_link m prev nxt; m2 = set_prev m1 nxt prev;
                       (m3, log3) = run_clist_deleter d node m2 log
                   in clist_remove_loop callable d s prev nxt (sz - 1) m3 log3
              else clist_remove_loop callable d s node nxt sz m log
      else Some (m, sz, log))"

definition clist_remove_if ::
  "dlinks \<Rightarrow> hxlist_constexpr \<Rightarrow> (addr \<Rightarrow> bool) \<Rightarrow> clist_deleter \<Rightarrow> (clist_state \<times> hxsize_t \<times> addr list) option" where
  "clist_remove_if m l callable d =
     map_option (\<lambda>(m1, sz, log). ((m1, l\<lparr>lc_size := sz\<rparr>), lc_size l - sz, log))
       (clist_remove_loop callable d (lc_sentinel l) (lc_sentinel l) (dl_next m (lc_sentinel l)) (lc_size l) m [])"

definition swap_links :: "dlinks \<Rightarrow> addr \<Rightarrow> dlinks" where
  "swap_links m a = (let nxt = dl_next m a in set_prev (set_next_link m a (dl_prev m a)) a nxt)"

partial_function (option) clist_reverse_loop :: "addr \<Rightarrow> addr \<Rightarrow> dlinks \<Rightarrow> dlinks option" where
  "clist_reverse_loop s node m =
     (let nxt = dl_next m node; m1 = swap_links m node
      in if nxt \<noteq> s then clist_reverse_loop s nxt m1 else Some m1)"

definition clist_reverse :: "dlinks \<Rightarrow> hxlist_constexpr \<Rightarrow> dlinks option" where
  "clist_reverse m l = clist_reverse_loop (lc_sentinel l) (lc_sentinel l) m"

text \<open>\<open>&x_ != this\<close> compares the addresses of the lists, which are those of their sentinels.\<close>

definition clist_splice ::
  "dlinks \<Rightarrow> hxlist_constexpr \<Rightarrow> clist_iterator \<Rightarrow> hxlist_constexpr \<Rightarrow> (dlinks \<times> hxlist_constexpr \<times> hxlist_constexpr) hx" where
  "clist_splice m l it x =
     (if lc_sentinel x = lc_sentinel l then Inl (Assert_debug ''bad_splice same list'')
      else if ci_current it = 0 then Inl (Assert_debug ''bad_iter'')
      else if clist_empty x then Inr (m, l, x)
      else let pos = ci_current it; prev = dl_prev m pos;
               first = dl_next m (lc_sentinel x); lst = dl_prev m (lc_sentinel x);
               m1 = set_next_link m prev first; m2 = set_prev m1 first prev;
               m3 = set_next_link m2 lst pos; m4 = set_prev m3 pos lst;
               (m5, x1) = clist_release_all m4 x
           in Inr (m5, l\<lparr>lc_size := lc_size l + lc_size x\<rparr>, x1))"

fun clist_add_range :: "dlinks \<Rightarrow> hxlist_constexpr \<Rightarrow> addr list \<Rightarrow> clist_state hx" where
  "clist_add_range m l [] = Inr (m, l)"
| "clist_add_range m l (p # ps) = hx_bind (clist_push_back m l p) (\<lambda>((m1, l1), _). clist_add_range m1 l1 ps)"

text \<open>Comparison is that of the sequences of nodes; \<open>equal\<close> and \<open>lt\<close> read the nodes' values.\<close>

definition clist_equal :: "(addr \<Rightarrow> addr \<Rightarrow> bool) \<Rightarrow> dlinks \<Rightarrow> hxlist_constexpr \<Rightarrow> hxlist_constexpr \<Rightarrow> bool option" where
  "clist_equal equal m l x =
     Option.bind (clist_for_each m l) (\<lambda>xs. map_option (hxequal_range_forward equal xs) (clist_for_each m x))"

definition clist_less :: "(addr \<Rightarrow> addr \<Rightarrow> bool) \<Rightarrow> (addr \<Rightarrow> addr \<Rightarrow> bool) \<Rightarrow> dlinks \<Rightarrow> hxlist_constexpr \<Rightarrow> hxlist_constexpr \<Rightarrow> bool option" where
  "clist_less equal lt m l x =
     Option.bind (clist_for_each m l) (\<lambda>xs. map_option (hxless_range equal lt xs) (clist_for_each m x))"

section \<open>The ring\<close>

text \<open>\<open>dlinked m p\<close>: along the path \<open>p\<close> every node's next is the following one and every node's previous the one before.\<close>

fun dlinked :: "dlinks \<Rightarrow> addr list \<Rightarrow> bool" where
  "dlinked m (u # v # p) = (dl_next m u = v \<and> dl_prev m v = u \<and> dlinked m (v # p))"
| "dlinked m p = True"

definition clist_rel :: "dlinks \<Rightarrow> hxlist_constexpr \<Rightarrow> addr list \<Rightarrow> bool" where
  "clist_rel m l xs \<longleftrightarrow> distinct (lc_sentinel l # xs) \<and> 0 \<notin> set (lc_sentinel l # xs) \<and> lc_size l = int (length xs) \<and>
     dlinked m (lc_sentinel l # xs @ [lc_sentinel l])"

text \<open>An iterator in front of \<open>bs\<close>.\<close>

definition clist_cursor :: "hxlist_constexpr \<Rightarrow> addr list \<Rightarrow> clist_iterator" where
  "clist_cursor l bs = \<lparr>ci_current = hd (bs @ [lc_sentinel l]), ci_sentinel = lc_sentinel l\<rparr>"

lemma link_simps [simp]:
  "dl_prev (set_prev m a p) = (dl_prev m)(a := p)" "dl_next (set_prev m a p) = dl_next m"
  "dl_next (set_next_link m a p) = (dl_next m)(a := p)" "dl_prev (set_next_link m a p) = dl_prev m"
  by (simp_all add: set_prev_def set_next_link_def)

lemma dlinked_append:
  "us \<noteq> [] \<Longrightarrow> vs \<noteq> [] \<Longrightarrow> dlinked m (us @ vs) \<longleftrightarrow>
    dlinked m us \<and> dl_next m (last us) = hd vs \<and> dl_prev m (hd vs) = last us \<and> dlinked m vs"
  by (induction m us rule: dlinked.induct) (auto simp: neq_Nil_conv)

lemma dlinked_cong:
  "(\<And>u. u \<in> set (butlast p) \<Longrightarrow> dl_next m' u = dl_next m u) \<Longrightarrow> (\<And>v. v \<in> set (tl p) \<Longrightarrow> dl_prev m' v = dl_prev m v) \<Longrightarrow>
    dlinked m' p = dlinked m p"
  by (induction m p rule: dlinked.induct) auto

text \<open>The ring cut in two at a position, and joined again over a path of other nodes.\<close>

lemma ring_cut:
  "dlinked m (s # as @ bs @ [s]) \<longleftrightarrow>
    dlinked m (s # as) \<and> dl_next m (last (s # as)) = hd (bs @ [s]) \<and> dl_prev m (hd (bs @ [s])) = last (s # as) \<and> dlinked m (bs @ [s])"
  using dlinked_append [of "s # as" "bs @ [s]" m] by simp

lemma ring_ends:
  assumes "distinct (s # as @ bs)"
  shows "last (s # as) \<notin> set (butlast (s # as))" and "hd (bs @ [s]) \<notin> set as"
    and "last (s # as) \<notin> set bs" and "hd (bs @ [s]) \<notin> set (tl (bs @ [s]))"
proof -
  show "last (s # as) \<notin> set (butlast (s # as))" using assms by (cases as rule: rev_cases) (auto simp: butlast_append)
  show "hd (bs @ [s]) \<notin> set as" "hd (bs @ [s]) \<notin> set (tl (bs @ [s]))" using assms by (cases bs; auto)+
  have "last (s # as) \<in> set (s # as)" by (rule last_in_set) simp
  then show "last (s # as) \<notin> set bs" using assms by auto
qed

lemma ring_keep:
  assumes "distinct (s # as @ bs)" and "dlinked m (s # as @ cs @ bs @ [s])" and "set ps \<inter> set (s # as @ bs) = {}"
    and "\<And>a. a \<notin> insert (last (s # as)) (set ps) \<Longrightarrow> dl_next m' a = dl_next m a"
    and "\<And>a. a \<notin> insert (hd (bs @ [s])) (set ps) \<Longrightarrow> dl_prev m' a = dl_prev m a"
  shows "dlinked m' (s # as)" and "dlinked m' (bs @ [s])"
proof -
  have old: "dlinked m (s # as)" "dlinked m (bs @ [s])"
    using assms(2) dlinked_append [of "s # as" "cs @ bs @ [s]" m] dlinked_append [of cs "bs @ [s]" m] by (cases cs; auto)+
  have "dlinked m' (s # as) = dlinked m (s # as)"
  proof (rule dlinked_cong)
    fix u assume u: "u \<in> set (butlast (s # as))"
    then have "u \<in> set (s # as @ bs)" using in_set_butlastD [of u "s # as"] by auto
    then have "u \<notin> insert (last (s # as)) (set ps)" using u ring_ends(1) [OF assms(1)] assms(3) by auto
    then show "dl_next m' u = dl_next m u" by (rule assms(4))
  next
    fix v assume v: "v \<in> set (tl (s # as))"
    then have "v \<notin> insert (hd (bs @ [s])) (set ps)" using ring_ends(2) [OF assms(1)] assms(3) by auto
    then show "dl_prev m' v = dl_prev m v" by (rule assms(5))
  qed
  then show "dlinked m' (s # as)" using old by simp
  have "dlinked m' (bs @ [s]) = dlinked m (bs @ [s])"
  proof (rule dlinked_cong)
    fix u assume "u \<in> set (butlast (bs @ [s]))"
    then have "u \<notin> insert (last (s # as)) (set ps)" using ring_ends(3) [OF assms(1)] assms(3) by auto
    then show "dl_next m' u = dl_next m u" by (rule assms(4))
  next
    fix v assume v: "v \<in> set (tl (bs @ [s]))"
    then have "v \<in> set (bs @ [s])" by (cases bs) auto
    then have "v \<notin> insert (hd (bs @ [s])) (set ps)" using ring_ends(4) [OF assms(1)] v assms(3) by auto
    then show "dl_prev m' v = dl_prev m v" by (rule assms(5))
  qed
  then show "dlinked m' (bs @ [s])" using old by simp
qed

lemma clist_relD:
  assumes "clist_rel m l (as @ bs)"
  shows "distinct (lc_sentinel l # as @ bs)" and "dlinked m (lc_sentinel l # as @ bs @ [lc_sentinel l])" and "lc_size l = int (length as + length bs)"
    and "dl_next m (last (lc_sentinel l # as)) = hd (bs @ [lc_sentinel l])" and "dl_prev m (hd (bs @ [lc_sentinel l])) = last (lc_sentinel l # as)"
    and "0 \<notin> set (lc_sentinel l # as @ bs)"
  using assms ring_cut [of m "lc_sentinel l" as bs] by (simp_all add: clist_rel_def)

text \<open>A step that leaves a list of \<open>ys\<close> and changes no link outside the sentinel and \<open>xs\<close>.\<close>

definition clist_step :: "dlinks \<Rightarrow> hxlist_constexpr \<Rightarrow> addr list \<Rightarrow> clist_state \<Rightarrow> addr list \<Rightarrow> bool" where
  "clist_step m l xs s ys \<longleftrightarrow> clist_rel (fst s) (snd s) ys \<and> lc_sentinel (snd s) = lc_sentinel l \<and>
     (\<forall>a. a \<notin> set (lc_sentinel l # xs) \<longrightarrow> dl_next (fst s) a = dl_next m a \<and> dl_prev (fst s) a = dl_prev m a)"

lemma clist_new_rel: "s \<noteq> 0 \<Longrightarrow> clist_rel (fst (hxlist_constexpr_new m s)) (snd (hxlist_constexpr_new m s)) []"
  by (simp add: clist_rel_def hxlist_constexpr_new_def)

lemma clist_release_all_rel: "clist_rel m l xs \<Longrightarrow> clist_rel (fst (clist_release_all m' l)) (snd (clist_release_all m' l)) []"
  by (simp add: clist_rel_def clist_release_all_def Let_def)

section \<open>Inserting and extracting\<close>

lemma clist_insert_node_rel:
  assumes rel: "clist_rel m l (as @ bs)" and ptr: "ptr \<noteq> 0" "ptr \<notin> set (lc_sentinel l # as @ bs)"
  shows "\<exists>s. clist_insert_node m l (last (lc_sentinel l # as)) (hd (bs @ [lc_sentinel l])) ptr = Inr s \<and>
    clist_step m l (as @ ptr # bs) s (as @ ptr # bs)"
proof -
  let ?s = "lc_sentinel l" and ?u = "last (lc_sentinel l # as)" and ?v = "hd (bs @ [lc_sentinel l])"
  note d = clist_relD [OF rel]
  have in_ring: "?u \<in> set (?s # as @ bs)" "?v \<in> set (?s # as @ bs)" by (simp_all, cases bs) auto
  then have ne: "?u \<noteq> ptr" "?v \<noteq> ptr" using ptr(2) by metis+
  define m1 where "m1 = set_prev (set_next_link (set_next_link (set_prev m ptr ?u) ptr ?v) ?u ptr) ?v ptr"
  have keep: "dlinked m1 (?s # as)" "dlinked m1 (bs @ [?s])"
    using ring_keep [where m = m and cs = "[]" and ps = "[ptr]" and m' = m1, OF d(1)] d(2) ptr(2) by (auto simp: m1_def)
  have links: "dl_next m1 ?u = ptr" "dl_prev m1 ptr = ?u" "dl_next m1 ptr = ?v" "dl_prev m1 ?v = ptr"
    using ne by (simp_all add: m1_def)
  have "dlinked m1 (?s # as @ ptr # bs @ [?s])"
  proof -
    have "dlinked m1 (ptr # bs @ [?s])" using keep(2) links(3,4) by (cases bs) auto
    then show ?thesis using keep(1) links(1,2) dlinked_append [of "?s # as" "ptr # bs @ [?s]" m1] by simp
  qed
  then have "clist_rel m1 (l\<lparr>lc_size := lc_size l + 1\<rparr>) (as @ ptr # bs)" using d(1,3,6) ptr by (auto simp: clist_rel_def)
  moreover have "dl_next m1 a = dl_next m a \<and> dl_prev m1 a = dl_prev m a" if "a \<notin> set (?s # as @ ptr # bs)" for a
    using that in_ring by (auto simp: m1_def)
  ultimately have "clist_step m l (as @ ptr # bs) (m1, l\<lparr>lc_size := lc_size l + 1\<rparr>) (as @ ptr # bs)" by (simp add: clist_step_def)
  moreover have "clist_insert_node m l ?u ?v ptr = Inr (m1, l\<lparr>lc_size := lc_size l + 1\<rparr>)"
    using ptr(1) by (simp add: clist_insert_node_def m1_def Let_def)
  ultimately show ?thesis by simp
qed

text \<open>The two writes that take a node out of the ring, and any change to the node's own links afterwards.\<close>

abbreviation unlink :: "dlinks \<Rightarrow> addr \<Rightarrow> addr \<Rightarrow> dlinks" where
  "unlink m u v \<equiv> set_prev (set_next_link m u v) v u"

lemma clist_unlink_rel:
  assumes rel: "clist_rel m l (as @ x # bs)"
  defines "u \<equiv> last (lc_sentinel l # as)" and "v \<equiv> hd (bs @ [lc_sentinel l])"
  shows "dl_next m x = v" and "dl_prev m x = u" and "x \<noteq> u" and "x \<noteq> v" and "x \<noteq> 0"
    and "(\<And>a. a \<noteq> x \<Longrightarrow> dl_next m' a = dl_next (unlink m u v) a \<and> dl_prev m' a = dl_prev (unlink m u v) a) \<Longrightarrow>
      clist_rel m' (l\<lparr>lc_size := lc_size l - 1\<rparr>) (as @ bs)"
proof -
  let ?s = "lc_sentinel l"
  note d = clist_relD [OF rel]
  have rel': "clist_rel m l ((as @ [x]) @ bs)" using rel by simp
  note d' = clist_relD [OF rel']
  show nx: "dl_next m x = v" "dl_prev m x = u" using d(5) d'(4) by (simp_all add: u_def v_def)
  have dist: "distinct (?s # as @ bs)" using d(1) by simp
  have "u \<in> set (?s # as)" unfolding u_def by (rule last_in_set) simp
  moreover have "v \<in> set (?s # bs)" by (cases bs) (simp_all add: v_def)
  ultimately show ne: "x \<noteq> u" "x \<noteq> v" using d(1) by auto
  show "x \<noteq> 0" using d(6) by auto
  assume m': "\<And>a. a \<noteq> x \<Longrightarrow> dl_next m' a = dl_next (unlink m u v) a \<and> dl_prev m' a = dl_prev (unlink m u v) a"
  have "dlinked m' (?s # as)" "dlinked m' (bs @ [?s])"
    using ring_keep [where m = m and cs = "[x]" and ps = "[x]" and m' = m', OF dist] d(1,2) m' by (auto simp: u_def v_def)
  then have "dlinked m' (?s # as @ bs @ [?s])" unfolding ring_cut u_def [symmetric] v_def [symmetric] using m' [of u] m' [of v] ne by simp
  then show "clist_rel m' (l\<lparr>lc_size := lc_size l - 1\<rparr>) (as @ bs)" using d(1,3,6) by (simp add: clist_rel_def)
qed

lemma run_clist_deleter_other:
  "a \<noteq> p \<Longrightarrow> dl_next (fst (run_clist_deleter d p m log)) a = dl_next m a \<and> dl_prev (fst (run_clist_deleter d p m log)) a = dl_prev m a"
  by (simp add: run_clist_deleter_def split: option.split)

lemma clist_unlink_step:
  assumes rel: "clist_rel m l (as @ x # bs)"
    and m': "\<And>a. a \<noteq> x \<Longrightarrow> dl_next m' a = dl_next (unlink m (last (lc_sentinel l # as)) (hd (bs @ [lc_sentinel l]))) a \<and>
      dl_prev m' a = dl_prev (unlink m (last (lc_sentinel l # as)) (hd (bs @ [lc_sentinel l]))) a"
  shows "clist_step m l (as @ x # bs) (m', l\<lparr>lc_size := lc_size l - 1\<rparr>) (as @ bs)"
proof -
  have "last (lc_sentinel l # as) \<in> set (lc_sentinel l # as)" by (rule last_in_set) simp
  moreover have "hd (bs @ [lc_sentinel l]) \<in> set (lc_sentinel l # bs)" by (cases bs) simp_all
  ultimately have "dl_next m' a = dl_next m a \<and> dl_prev m' a = dl_prev m a" if "a \<notin> set (lc_sentinel l # as @ x # bs)" for a
    using that m' [of a] by (auto simp del: last.simps)
  then show ?thesis using clist_unlink_rel(6) [OF rel m'] by (simp add: clist_step_def)
qed

lemma clist_extract_node_eq:
  assumes rel: "clist_rel m l (as @ x # bs)"
  shows "clist_extract_node m l x = Inr (unlink m (last (lc_sentinel l # as)) (hd (bs @ [lc_sentinel l])), l\<lparr>lc_size := lc_size l - 1\<rparr>)"
proof -
  have "\<not> clist_empty l" using clist_relD(3) [OF rel] by (simp add: clist_empty_def)
  then show ?thesis unfolding clist_extract_node_def Let_def using clist_unlink_rel(1-5) [OF rel] by simp
qed

section \<open>The operations at an iterator and at the ends\<close>

lemma clist_ends:
  assumes "clist_rel m l xs"
  shows "dl_next m (lc_sentinel l) = hd (xs @ [lc_sentinel l])" and "dl_prev m (lc_sentinel l) = last (lc_sentinel l # xs)"
    and "clist_empty l \<longleftrightarrow> xs = []"
  using clist_relD(4) [of m l "[]" xs] clist_relD(5) [of m l xs "[]"] clist_relD(3) [of m l "[]" xs] assms by (simp_all add: clist_empty_def)

lemma clist_begin_cursor: "clist_rel m l xs \<Longrightarrow> clist_begin m l = clist_cursor l xs"
  by (simp add: clist_begin_def clist_cursor_def clist_ends(1))

lemma clist_end_cursor: "clist_end l = clist_cursor l []"
  by (simp add: clist_end_def clist_cursor_def)

lemma clist_insert_step:
  assumes "clist_rel m l (as @ bs)" and "p \<noteq> 0" and "p \<notin> set (lc_sentinel l # as @ bs)"
  shows "\<exists>s. clist_insert m l (clist_cursor l bs) p = Inr (s, clist_cursor l (p # bs)) \<and> clist_step m l (as @ p # bs) s (as @ p # bs)"
  using clist_insert_node_rel [OF assms] clist_relD(5) [OF assms(1)] by (auto simp: clist_insert_def clist_cursor_def simp del: last.simps)

lemma clist_insert_after_step:
  assumes "clist_rel m l (as @ bs)" and "p \<noteq> 0" and "p \<notin> set (lc_sentinel l # as @ bs)"
  shows "\<exists>s. clist_insert_after m l \<lparr>ci_current = last (lc_sentinel l # as), ci_sentinel = lc_sentinel l\<rparr> p = Inr (s, clist_cursor l (p # bs)) \<and>
    clist_step m l (as @ p # bs) s (as @ p # bs)"
  using clist_insert_node_rel [OF assms] clist_relD(4) [OF assms(1)] by (auto simp: clist_insert_after_def clist_cursor_def simp del: last.simps)

lemma clist_push_steps:
  assumes "clist_rel m l xs" and "p \<noteq> 0" and "p \<notin> set (lc_sentinel l # xs)"
  shows "\<exists>s. clist_push_back m l p = Inr (s, clist_cursor l [p]) \<and> clist_step m l (xs @ [p]) s (xs @ [p])"
    and "\<exists>s. clist_push_front m l p = Inr (s, clist_cursor l (p # xs)) \<and> clist_step m l (p # xs) s (p # xs)"
  using clist_insert_node_rel [of m l xs "[]" p] clist_insert_node_rel [of m l "[]" xs p] assms clist_ends [OF assms(1)]
  by (auto simp: clist_push_back_def clist_push_front_def clist_cursor_def simp del: last.simps) simp_all

lemma clist_erase_step:
  assumes "clist_rel m l (as @ c # bs)"
  shows "\<exists>s. clist_erase m l (clist_cursor l (c # bs)) d = Inr (s, if d = None then [] else [c]) \<and> clist_step m l (as @ c # bs) s (as @ bs)"
    and "\<exists>s. clist_extract m l (clist_cursor l (c # bs)) = Inr (c, s) \<and> clist_step m l (as @ c # bs) s (as @ bs)"
proof -
  let ?m1 = "unlink m (last (lc_sentinel l # as)) (hd (bs @ [lc_sentinel l]))"
  have log: "snd (run_clist_deleter d c ?m1 []) = (if d = None then [] else [c])" by (simp add: run_clist_deleter_def split: option.split)
  have "clist_step m l (as @ c # bs) (fst (run_clist_deleter d c ?m1 []), l\<lparr>lc_size := lc_size l - 1\<rparr>) (as @ bs)"
    by (rule clist_unlink_step [OF assms]) (rule run_clist_deleter_other)
  then show "\<exists>s. clist_erase m l (clist_cursor l (c # bs)) d = Inr (s, if d = None then [] else [c]) \<and> clist_step m l (as @ c # bs) s (as @ bs)"
    using log by (auto simp: clist_erase_def clist_cursor_def clist_extract_node_eq [OF assms] split_beta simp del: last.simps)
  have "clist_step m l (as @ c # bs) (?m1, l\<lparr>lc_size := lc_size l - 1\<rparr>) (as @ bs)" by (rule clist_unlink_step [OF assms]) simp
  then show "\<exists>s. clist_extract m l (clist_cursor l (c # bs)) = Inr (c, s) \<and> clist_step m l (as @ c # bs) s (as @ bs)"
    by (auto simp: clist_extract_def clist_cursor_def clist_extract_node_eq [OF assms] simp del: last.simps)
qed

lemma clist_pop_steps:
  shows "clist_rel m l (as @ [c]) \<Longrightarrow> \<exists>s. clist_pop_back m l = Inr (c, s) \<and> clist_step m l (as @ [c]) s as"
    and "clist_rel m l (c # bs) \<Longrightarrow> \<exists>s. clist_pop_front m l = Inr (c, s) \<and> clist_step m l (c # bs) s bs"
proof -
  assume rel: "clist_rel m l (as @ [c])"
  note u = clist_unlink_rel [of m l as c "[]"]
  have "clist_pop_back m l = Inr (c, unlink m (last (lc_sentinel l # as)) (lc_sentinel l), l\<lparr>lc_size := lc_size l - 1\<rparr>)"
    using clist_ends(2,3) [OF rel] u(2) rel by (simp add: clist_pop_back_def Let_def)
  moreover have "clist_step m l (as @ [c]) (unlink m (last (lc_sentinel l # as)) (lc_sentinel l), l\<lparr>lc_size := lc_size l - 1\<rparr>) as"
    using clist_unlink_step [of m l as c "[]"] rel by (simp del: last.simps)
  ultimately show "\<exists>s. clist_pop_back m l = Inr (c, s) \<and> clist_step m l (as @ [c]) s as" by blast
next
  assume rel: "clist_rel m l (c # bs)"
  note u = clist_unlink_rel [of m l "[]" c bs]
  have "clist_pop_front m l = Inr (c, unlink m (lc_sentinel l) (hd (bs @ [lc_sentinel l])), l\<lparr>lc_size := lc_size l - 1\<rparr>)"
    using clist_ends(1,3) [OF rel] u(1) rel by (simp add: clist_pop_front_def Let_def)
  moreover have "clist_step m l (c # bs) (unlink m (lc_sentinel l) (hd (bs @ [lc_sentinel l])), l\<lparr>lc_size := lc_size l - 1\<rparr>) bs"
    using clist_unlink_step [of m l "[]" c bs] rel by simp
  ultimately show "\<exists>s. clist_pop_front m l = Inr (c, s) \<and> clist_step m l (c # bs) s bs" by blast
qed

section \<open>Splicing and reversing\<close>

lemma last_not_butlast: "distinct xs \<Longrightarrow> last xs \<notin> set (butlast xs)"
  by (cases xs rule: rev_cases) auto

lemma clist_splice_step:
  assumes rel: "clist_rel m l (as @ bs)" and other: "clist_rel m x ys"
    and apart: "set (lc_sentinel l # as @ bs) \<inter> set (lc_sentinel x # ys) = {}"
  shows "\<exists>m' l' x'. clist_splice m l (clist_cursor l bs) x = Inr (m', l', x') \<and> clist_step m l (as @ bs @ lc_sentinel x # ys) (m', l') (as @ ys @ bs) \<and>
    clist_rel m' x' []"
proof (cases "ys = []")
  case True
  have "hd (bs @ [lc_sentinel l]) \<noteq> 0" using clist_relD(6) [OF rel] by (cases bs) auto
  then have "clist_splice m l (clist_cursor l bs) x = Inr (m, l, x)"
    using clist_ends(3) [OF other] True apart by (auto simp: clist_splice_def clist_cursor_def)
  then show ?thesis using rel other True by (simp add: clist_step_def)
next
  case False
  let ?s = "lc_sentinel l" and ?t = "lc_sentinel x" and ?u = "last (lc_sentinel l # as)" and ?v = "hd (bs @ [lc_sentinel l])"
  note d = clist_relD [OF rel] and e = clist_ends [OF other]
  have in_ring: "?u \<in> set (?s # as @ bs)" "?v \<in> set (?s # as @ bs)" by (simp_all, cases bs) auto
  have in_ys: "hd ys \<in> set ys" "last ys \<in> set ys" using False by simp_all
  define m4 where "m4 = set_prev (set_next_link (set_prev (set_next_link m ?u (hd ys)) (hd ys) ?u) (last ys) ?v) ?v (last ys)"
  define m' where "m' = fst (clist_release_all m4 x)"
  have "?t \<notin> set ys" using other by (simp add: clist_rel_def)
  then have ends: "hd ys \<noteq> ?t" "last ys \<noteq> ?t" using in_ys by metis+
  have "?u \<notin> set (?t # ys)" "?v \<notin> set (?t # ys)" using in_ring apart by blast+
  then have ne: "?u \<noteq> last ys" "?v \<noteq> hd ys" "?u \<noteq> ?t" "?v \<noteq> ?t" "hd ys \<noteq> ?t" "last ys \<noteq> ?t"
    using in_ys ends by (metis list.set_intros)+
  have mem: "dl_next m' = ((dl_next m)(?u := hd ys, last ys := ?v))(?t := ?t)" "dl_prev m' = ((dl_prev m)(hd ys := ?u, ?v := last ys))(?t := ?t)"
    by (simp_all add: m'_def m4_def clist_release_all_def Let_def)
  have "?v \<noteq> 0" using d(6) in_ring(2) by metis
  then have run: "clist_splice m l (clist_cursor l bs) x = Inr (m', l\<lparr>lc_size := lc_size l + lc_size x\<rparr>, x\<lparr>lc_size := 0\<rparr>)"
  proof -
    have "dl_next m ?t = hd ys" "dl_prev m ?t = last ys" "\<not> clist_empty x" "?t \<noteq> ?s" using e False apart by auto
    then show ?thesis using \<open>?v \<noteq> 0\<close> d(5)
      by (simp add: clist_splice_def clist_cursor_def Let_def m'_def m4_def clist_release_all_def del: last.simps)
  qed
  have keep: "dlinked m' (?s # as)" "dlinked m' (bs @ [?s])"
  proof -
    have "set (?t # ys) \<inter> set (?s # as @ bs) = {}" using apart by blast
    moreover have "a \<notin> insert ?u (set (?t # ys)) \<Longrightarrow> dl_next m' a = dl_next m a" "a \<notin> insert ?v (set (?t # ys)) \<Longrightarrow> dl_prev m' a = dl_prev m a" for a
      using in_ys by (auto simp: mem simp del: last.simps)
    ultimately show "dlinked m' (?s # as)" "dlinked m' (bs @ [?s])"
      using ring_keep [where m = m and cs = "[]" and ps = "?t # ys" and m' = m', OF d(1)] d(2) by (simp_all del: last.simps)
  qed
  have dist: "distinct ys" "?t \<notin> set ys" "dlinked m ys"
  proof -
    show "distinct ys" "?t \<notin> set ys" using other by (simp_all add: clist_rel_def)
    have "dlinked m ([?t] @ ys @ [?t])" using other by (simp add: clist_rel_def)
    then show "dlinked m ys" using dlinked_append [of "[?t]" "ys @ [?t]" m] dlinked_append [of ys "[?t]" m] False by simp
  qed
  have "dlinked m' ys = dlinked m ys"
  proof (rule dlinked_cong)
    fix a assume a: "a \<in> set (butlast ys)"
    then have "a \<in> set ys" "a \<noteq> last ys" using last_not_butlast [OF dist(1)] in_set_butlastD [of a ys] by auto
    then show "dl_next m' a = dl_next m a" using apart in_ring dist(2) unfolding mem by auto
  next
    fix a assume a: "a \<in> set (tl ys)"
    then have "a \<in> set ys" "a \<noteq> hd ys" using dist(1) False by (cases ys; auto)+
    then show "dl_prev m' a = dl_prev m a" using apart in_ring dist(2) unfolding mem by auto
  qed
  then have mid: "dlinked m' ys" using dist(3) by simp
  have "dlinked m' ((?s # as) @ ys @ bs @ [?s])"
    using keep mid False ne dlinked_append [of "?s # as" "ys @ bs @ [?s]" m'] dlinked_append [of ys "bs @ [?s]" m']
    by (auto simp: mem simp del: last.simps)
  moreover have "distinct (?s # as @ ys @ bs)" "0 \<notin> set (?s # as @ ys @ bs)" using d(1,6) dist(1) apart other by (auto simp: clist_rel_def)
  moreover have "lc_size x = int (length ys)" using other by (simp add: clist_rel_def)
  ultimately have "clist_rel m' (l\<lparr>lc_size := lc_size l + lc_size x\<rparr>) (as @ ys @ bs)" using d(3) by (simp add: clist_rel_def)
  moreover have "dl_next m' a = dl_next m a \<and> dl_prev m' a = dl_prev m a" if "a \<notin> set (?s # as @ bs @ ?t # ys)" for a
  proof -
    have "a \<noteq> ?u" "a \<noteq> ?v" "a \<noteq> hd ys" "a \<noteq> last ys" "a \<noteq> ?t" using that in_ring in_ys by auto
    then show ?thesis unfolding mem by simp
  qed
  ultimately have "clist_step m l (as @ bs @ ?t # ys) (m', l\<lparr>lc_size := lc_size l + lc_size x\<rparr>) (as @ ys @ bs)" by (simp add: clist_step_def)
  moreover have "clist_rel m' (x\<lparr>lc_size := 0\<rparr>) []" using other by (simp add: clist_rel_def mem)
  ultimately show ?thesis using run by blast
qed

text \<open>Reversing swaps the links of every node of the ring, which it follows as it was.\<close>

definition swapped :: "dlinks \<Rightarrow> addr set \<Rightarrow> dlinks" where
  "swapped m A = \<lparr>dl_prev = (\<lambda>a. if a \<in> A then dl_next m a else dl_prev m a), dl_next = (\<lambda>a. if a \<in> A then dl_prev m a else dl_next m a)\<rparr>"

lemma swap_links_swapped: "a \<notin> A \<Longrightarrow> swap_links (swapped m A) a = swapped m (insert a A)"
  by (auto simp: swap_links_def swapped_def set_prev_def set_next_link_def Let_def fun_eq_iff)

lemma dlinked_rev: "dlinked m (rev p) = dlinked (swapped m UNIV) p"
proof (induction m p rule: dlinked.induct)
  case (1 m u v p)
  have "dlinked m (rev (v # p) @ [u]) \<longleftrightarrow> dlinked m (rev (v # p)) \<and> dl_next m v = u \<and> dl_prev m u = v"
    using dlinked_append [of "rev (v # p)" "[u]" m] by simp
  then show ?case using 1 by (auto simp: swapped_def)
qed simp_all

lemma clist_reverse_loop_swaps:
  "distinct (a # as) \<Longrightarrow> s \<notin> set as \<Longrightarrow> A \<inter> set (a # as) = {} \<Longrightarrow> dlinked m (a # as @ [s]) \<Longrightarrow>
    clist_reverse_loop s a (swapped m A) = Some (swapped m (A \<union> set (a # as)))"
proof (induction as arbitrary: a A)
  case Nil
  then have "dl_next (swapped m A) a = s" by (simp add: swapped_def)
  then show ?case using Nil by (subst clist_reverse_loop.simps) (simp add: swap_links_swapped)
next
  case (Cons b as)
  then have "dl_next (swapped m A) a = b" by (simp add: swapped_def)
  moreover have "clist_reverse_loop s b (swapped m (insert a A)) = Some (swapped m (insert a A \<union> set (b # as)))"
    using Cons.prems by (intro Cons.IH) auto
  ultimately show ?case using Cons.prems
    by (subst clist_reverse_loop.simps) (auto simp: swap_links_swapped insert_commute)
qed

lemma clist_reverse_step:
  assumes rel: "clist_rel m l xs"
  shows "\<exists>m'. clist_reverse m l = Some m' \<and> clist_step m l xs (m', l) (rev xs)"
proof -
  let ?s = "lc_sentinel l" and ?A = "set (lc_sentinel l # xs)"
  have ring: "dlinked m (?s # xs @ [?s])" and dist: "distinct (?s # xs)" "?s \<notin> set xs" using rel by (simp_all add: clist_rel_def)
  have "swapped m {} = m" by (simp add: swapped_def)
  then have run: "clist_reverse m l = Some (swapped m ?A)"
    using clist_reverse_loop_swaps [OF dist(1,2), of "{}" m] ring by (simp add: clist_reverse_def)
  have "dlinked (swapped m UNIV) (rev (?s # xs @ [?s]))" using dlinked_rev [of "swapped m UNIV" "?s # xs @ [?s]"] ring
    by (simp add: swapped_def) (metis dlinks.surjective old.unit.exhaust)
  moreover have "dlinked (swapped m ?A) (?s # rev xs @ [?s]) = dlinked (swapped m UNIV) (?s # rev xs @ [?s])"
    by (rule dlinked_cong) (auto simp: swapped_def dest: in_set_butlastD)
  ultimately have "clist_rel (swapped m ?A) l (rev xs)" using rel by (simp add: clist_rel_def)
  then show ?thesis using run by (auto simp: clist_step_def swapped_def)
qed

section \<open>The loops\<close>

fun next_chain :: "dlinks \<Rightarrow> addr list \<Rightarrow> addr \<Rightarrow> bool" where
  "next_chain m [] s = True"
| "next_chain m (b # bs) s = (dl_next m b = hd (bs @ [s]) \<and> next_chain m bs s)"

lemma next_chain_cong: "(\<And>b. b \<in> set bs \<Longrightarrow> dl_next m' b = dl_next m b) \<Longrightarrow> next_chain m' bs s = next_chain m bs s"
  by (induction bs) auto

lemma dlinked_next_chain: "dlinked m (x # bs @ [s]) \<Longrightarrow> next_chain m bs s"
proof (induction bs arbitrary: x)
  case (Cons b bs)
  then show ?case by (cases bs) auto
qed simp

lemma clist_rel_chain: "clist_rel m l xs \<Longrightarrow> next_chain m xs (lc_sentinel l)"
  by (auto simp: clist_rel_def intro: dlinked_next_chain)

lemma clist_each_loop_chain:
  "next_chain m bs s \<Longrightarrow> s \<notin> set bs \<Longrightarrow> clist_each_loop m s (hd (bs @ [s])) visited = Some (visited @ bs)"
proof (induction bs arbitrary: visited)
  case Nil
  then show ?case by (subst clist_each_loop.simps) simp
next
  case (Cons b bs)
  then show ?case by (subst clist_each_loop.simps) auto
qed

lemma clist_for_each_rel: "clist_rel m l xs \<Longrightarrow> clist_for_each m l = Some xs"
  using clist_each_loop_chain [OF clist_rel_chain] clist_ends(1) by (fastforce simp: clist_for_each_def clist_rel_def)

lemma clist_equal_rel:
  "clist_rel m l xs \<Longrightarrow> clist_rel m x ys \<Longrightarrow> clist_equal equal m l x = Some (list_all2 equal xs ys)"
  by (simp add: clist_equal_def clist_for_each_rel hxequal_range_forward_spec)

lemma clist_find_loop_chain:
  "next_chain m bs (lc_sentinel l) \<Longrightarrow> lc_sentinel l \<notin> set bs \<Longrightarrow> 0 \<notin> set bs \<Longrightarrow>
    clist_find_loop m callable (clist_end l) (clist_cursor l bs) = Some (Inr (clist_cursor l (dropWhile (\<lambda>x. \<not> callable x) bs)))"
proof (induction bs)
  case Nil
  then show ?case by (subst clist_find_loop.simps) (simp add: clist_iterator_eq_def clist_end_def clist_cursor_def)
next
  case (Cons b bs)
  have "clist_iterator_deref (clist_cursor l (b # bs)) = Inr b" "\<not> clist_iterator_eq (clist_cursor l (b # bs)) (clist_end l)"
      "clist_iterator_next m (clist_cursor l (b # bs)) = Inr (clist_cursor l bs)"
    using Cons.prems by (auto simp: clist_iterator_deref_def clist_iterator_eq_def clist_iterator_next_def clist_cursor_def clist_end_def)
  then show ?case using Cons by (subst clist_find_loop.simps) simp
qed

lemma clist_find_if_rel: "clist_rel m l xs \<Longrightarrow> clist_find_if m l callable = Some (Inr (clist_cursor l (dropWhile (\<lambda>x. \<not> callable x) xs)))"
  unfolding clist_find_if_def clist_begin_cursor
  by (rule clist_find_loop_chain) (auto simp: clist_rel_chain, auto simp: clist_rel_def)

lemma clist_clear_loop_chain:
  "next_chain m bs s \<Longrightarrow> distinct bs \<Longrightarrow> s \<notin> set bs \<Longrightarrow>
    \<exists>m'. clist_clear_loop d s (hd (bs @ [s])) m log = Some (m', log @ (if d = None then [] else bs)) \<and>
      (\<forall>a. a \<notin> set bs \<longrightarrow> dl_next m' a = dl_next m a \<and> dl_prev m' a = dl_prev m a)"
proof (induction bs arbitrary: m log)
  case Nil
  then show ?case by (subst clist_clear_loop.simps) simp
next
  case (Cons b bs)
  obtain m1 log1 where run: "run_clist_deleter d b m log = (m1, log1)" by fastforce
  then have log1: "log1 = log @ (if d = None then [] else [b])" and keep: "\<And>a. a \<noteq> b \<Longrightarrow> dl_next m1 a = dl_next m a \<and> dl_prev m1 a = dl_prev m a"
    using run_clist_deleter_other [of _ b d m log] by (auto simp: run_clist_deleter_def split: option.splits)
  have "next_chain m1 bs s = next_chain m bs s"
  proof (rule next_chain_cong)
    fix a assume "a \<in> set bs"
    then have "a \<noteq> b" using Cons.prems(2) by auto
    then show "dl_next m1 a = dl_next m a" using keep by blast
  qed
  then obtain m' where "clist_clear_loop d s (hd (bs @ [s])) m1 log1 = Some (m', log1 @ (if d = None then [] else bs))"
    and "\<forall>a. a \<notin> set bs \<longrightarrow> dl_next m' a = dl_next m1 a \<and> dl_prev m' a = dl_prev m1 a"
    using Cons.IH [of m1 log1] Cons.prems by auto
  then show ?case using Cons.prems run log1 keep by (subst clist_clear_loop.simps) auto
qed

lemma clist_clear_step:
  assumes rel: "clist_rel m l xs"
  shows "\<exists>s. clist_clear m l d = Some (s, if d = None then [] else xs) \<and> clist_step m l xs s []"
proof (cases "xs = []")
  case True
  then show ?thesis using rel clist_ends(3) [OF rel] by (auto simp: clist_clear_def clist_empty_def clist_step_def)
next
  case False
  have some: "lc_size l \<noteq> 0" using rel False by (simp add: clist_rel_def)
  obtain m1 where m1: "clist_clear_loop d (lc_sentinel l) (dl_next m (lc_sentinel l)) m [] = Some (m1, if d = None then [] else xs)"
    and keep: "\<forall>a. a \<notin> set xs \<longrightarrow> dl_next m1 a = dl_next m a \<and> dl_prev m1 a = dl_prev m a"
    using clist_clear_loop_chain [OF clist_rel_chain [OF rel], of d "[]"] clist_ends(1) [OF rel] rel by (auto simp: clist_rel_def)
  have step: "clist_step m l xs (clist_release_all m' l) []" if "\<forall>a. a \<notin> set xs \<longrightarrow> dl_next m' a = dl_next m a \<and> dl_prev m' a = dl_prev m a" for m'
    using clist_release_all_rel [OF rel, of m'] that by (simp add: clist_step_def clist_release_all_def Let_def)
  show ?thesis
  proof (cases d)
    case None
    then show ?thesis using some step [of m] by (intro exI [of _ "clist_release_all m l"]) (simp add: clist_clear_def)
  next
    case (Some f)
    then show ?thesis using some m1 step [OF keep] by (intro exI [of _ "clist_release_all m1 l"]) (simp add: clist_clear_def)
  qed
qed

lemma clist_remove_loop_step:
  "clist_rel m (l\<lparr>lc_size := sz\<rparr>) (as @ bs) \<Longrightarrow>
    \<exists>m'. clist_remove_loop callable d (lc_sentinel l) (last (lc_sentinel l # as)) (hd (bs @ [lc_sentinel l])) sz m log =
        Some (m', sz - int (length (filter callable bs)), log @ (if d = None then [] else filter callable bs)) \<and>
      clist_rel m' (l\<lparr>lc_size := sz - int (length (filter callable bs))\<rparr>) (as @ filter (\<lambda>x. \<not> callable x) bs) \<and>
      (\<forall>a. a \<notin> set (lc_sentinel l # as @ bs) \<longrightarrow> dl_next m' a = dl_next m a \<and> dl_prev m' a = dl_prev m a)"
proof (induction bs arbitrary: as m sz log)
  case Nil
  then show ?case by (subst clist_remove_loop.simps) simp
next
  case (Cons b bs)
  let ?s = "lc_sentinel l" and ?u = "last (lc_sentinel l # as)" and ?v = "hd (bs @ [lc_sentinel l])"
  note u = clist_unlink_rel [OF Cons.prems, simplified]
  have b: "b \<noteq> ?s" using Cons.prems by (auto simp: clist_rel_def)
  show ?case
  proof (cases "callable b")
    case True
    obtain m3 log3 where run: "run_clist_deleter d b (unlink m ?u ?v) log = (m3, log3)" by fastforce
    then have log3: "log3 = log @ (if d = None then [] else [b])"
      and keep: "\<And>a. a \<noteq> b \<Longrightarrow> dl_next m3 a = dl_next (unlink m ?u ?v) a \<and> dl_prev m3 a = dl_prev (unlink m ?u ?v) a"
      using run_clist_deleter_other [of _ b d "unlink m ?u ?v" log] by (auto simp: run_clist_deleter_def split: option.splits)
    have step: "clist_step m (l\<lparr>lc_size := sz\<rparr>) (as @ b # bs) (m3, l\<lparr>lc_size := sz - 1\<rparr>) (as @ bs)"
      using clist_unlink_step [OF Cons.prems, of m3] keep by (simp del: last.simps)
    then have "clist_rel m3 (l\<lparr>lc_size := sz - 1\<rparr>) (as @ bs)" by (simp add: clist_step_def)
    from Cons.IH [OF this, of log3] obtain m' where loop: "clist_remove_loop callable d ?s ?u ?v (sz - 1) m3 log3 =
        Some (m', sz - 1 - int (length (filter callable bs)), log3 @ (if d = None then [] else filter callable bs))"
      and rel': "clist_rel m' (l\<lparr>lc_size := sz - 1 - int (length (filter callable bs))\<rparr>) (as @ filter (\<lambda>x. \<not> callable x) bs)"
      and fr: "\<forall>a. a \<notin> set (?s # as @ bs) \<longrightarrow> dl_next m' a = dl_next m3 a \<and> dl_prev m' a = dl_prev m3 a" by blast
    have "clist_remove_loop callable d ?s ?u b sz m log = clist_remove_loop callable d ?s ?u ?v (sz - 1) m3 log3"
      using b True u(1) run by (subst clist_remove_loop.simps) (simp add: Let_def del: last.simps)
    then show ?thesis using loop rel' fr step log3 True
      by (intro exI [of _ m']) (simp add: clist_step_def algebra_simps del: last.simps)
  next
    case False
    have "clist_rel m (l\<lparr>lc_size := sz\<rparr>) ((as @ [b]) @ bs)" using Cons.prems by simp
    from Cons.IH [OF this, of log] obtain m' where loop: "clist_remove_loop callable d ?s b ?v sz m log =
        Some (m', sz - int (length (filter callable bs)), log @ (if d = None then [] else filter callable bs))"
      and rel': "clist_rel m' (l\<lparr>lc_size := sz - int (length (filter callable bs))\<rparr>) (as @ b # filter (\<lambda>x. \<not> callable x) bs)"
      and fr: "\<forall>a. a \<notin> set (?s # as @ b # bs) \<longrightarrow> dl_next m' a = dl_next m a \<and> dl_prev m' a = dl_prev m a" by auto
    have "clist_remove_loop callable d ?s ?u b sz m log = clist_remove_loop callable d ?s b ?v sz m log"
      using b False u(1) by (subst clist_remove_loop.simps) (simp add: Let_def del: last.simps)
    then show ?thesis using loop rel' fr False by (intro exI [of _ m']) (simp del: last.simps)
  qed
qed

lemma clist_remove_if_step:
  assumes rel: "clist_rel m l xs"
  shows "\<exists>s. clist_remove_if m l callable d = Some (s, int (length (filter callable xs)), if d = None then [] else filter callable xs) \<and>
    clist_step m l xs s (filter (\<lambda>x. \<not> callable x) xs)"
  using clist_remove_loop_step [where m = m and l = l and sz = "lc_size l" and as = "[]" and bs = xs and callable = callable and d = d and log = "[]"]
    rel clist_ends(1) [OF rel] by (auto simp: clist_remove_if_def clist_step_def)

lemma clist_add_range_rel:
  "clist_rel m l xs \<Longrightarrow> distinct (xs @ ps) \<Longrightarrow> set ps \<inter> {0, lc_sentinel l} = {} \<Longrightarrow>
    \<exists>m' l'. clist_add_range m l ps = Inr (m', l') \<and> clist_rel m' l' (xs @ ps) \<and> lc_sentinel l' = lc_sentinel l"
proof (induction ps arbitrary: m l xs)
  case (Cons p ps)
  then obtain m1 l1 where "clist_push_back m l p = Inr ((m1, l1), clist_cursor l [p])" and step: "clist_step m l (xs @ [p]) (m1, l1) (xs @ [p])"
    using clist_push_steps(1) [of m l xs p] by auto
  moreover have "clist_rel m1 l1 (xs @ [p])" "lc_sentinel l1 = lc_sentinel l" using step by (simp_all add: clist_step_def)
  ultimately show ?case using Cons.IH [of m1 l1 "xs @ [p]"] Cons.prems by auto
qed simp

section \<open>Properties\<close>

text \<open>A list of two nodes for the witnesses: the sentinel at 16, the nodes at 32 and 48.\<close>

definition example_dlinks :: dlinks where
  "example_dlinks = \<lparr>dl_prev = (\<lambda>a. if a = 16 then 48 else if a = 32 then 16 else 32), dl_next = (\<lambda>a. if a = 16 then 32 else if a = 32 then 48 else 16)\<rparr>"

definition example_clist :: hxlist_constexpr where
  "example_clist = \<lparr>lc_sentinel = 16, lc_size = 2\<rparr>"

lemma example_clist_rel: "clist_rel example_dlinks example_clist [32, 48]"
  by (simp add: clist_rel_def example_dlinks_def example_clist_def)

text \<open>C16: the doubly linked ring is a list. Inserting a new node in front of an iterator, after the node it names or at either end,
  extracting or erasing the node at an iterator, popping, and splicing another list in give the list with exactly that change, return its
  iterator or node, and change no link outside the lists involved.\<close>

theorem clist_refines_list:
  assumes "clist_rel m l (as @ bs)"
  shows "(p \<noteq> 0 \<longrightarrow> p \<notin> set (lc_sentinel l # as @ bs) \<longrightarrow>
      (\<exists>s. clist_insert m l (clist_cursor l bs) p = Inr (s, clist_cursor l (p # bs)) \<and> clist_step m l (as @ p # bs) s (as @ p # bs)) \<and>
      (\<exists>s. clist_insert_after m l \<lparr>ci_current = last (lc_sentinel l # as), ci_sentinel = lc_sentinel l\<rparr> p = Inr (s, clist_cursor l (p # bs)) \<and>
        clist_step m l (as @ p # bs) s (as @ p # bs)) \<and>
      (\<exists>s. clist_push_back m l p = Inr (s, clist_cursor l [p]) \<and> clist_step m l (as @ bs @ [p]) s (as @ bs @ [p])) \<and>
      (\<exists>s. clist_push_front m l p = Inr (s, clist_cursor l (p # as @ bs)) \<and> clist_step m l (p # as @ bs) s (p # as @ bs))) \<and>
    (\<forall>c cs. bs = c # cs \<longrightarrow>
      (\<exists>s. clist_extract m l (clist_cursor l bs) = Inr (c, s) \<and> clist_step m l (as @ bs) s (as @ cs)) \<and>
      (\<exists>s. clist_erase m l (clist_cursor l bs) d = Inr (s, if d = None then [] else [c]) \<and> clist_step m l (as @ bs) s (as @ cs)) \<and>
      (as = [] \<longrightarrow> (\<exists>s. clist_pop_front m l = Inr (c, s) \<and> clist_step m l bs s cs)) \<and>
      (cs = [] \<longrightarrow> (\<exists>s. clist_pop_back m l = Inr (c, s) \<and> clist_step m l (as @ bs) s as))) \<and>
    (as @ bs = [] \<longrightarrow> clist_pop_back m l = Inl (Assert_hard ''list_empty'') \<and> clist_pop_front m l = Inl (Assert_hard ''list_empty'')) \<and>
    (\<forall>x ys. clist_rel m x ys \<longrightarrow> set (lc_sentinel l # as @ bs) \<inter> set (lc_sentinel x # ys) = {} \<longrightarrow>
      (\<exists>m' l' x'. clist_splice m l (clist_cursor l bs) x = Inr (m', l', x') \<and>
        clist_step m l (as @ bs @ lc_sentinel x # ys) (m', l') (as @ ys @ bs) \<and> clist_rel m' x' []))"
  (is "(_ \<longrightarrow> _ \<longrightarrow> ?ins) \<and> ?rem \<and> _ \<and> ?splice")
proof (intro conjI)
  show "p \<noteq> 0 \<longrightarrow> p \<notin> set (lc_sentinel l # as @ bs) \<longrightarrow> ?ins"
    using clist_insert_step [OF assms, of p] clist_insert_after_step [OF assms, of p] clist_push_steps [OF assms, of p] by simp
  show ?rem
    using clist_erase_step(1) [of m l as _ _ d] clist_erase_step(2) [of m l as] clist_pop_steps [of m l] assms by auto
  show ?splice using clist_splice_step [OF assms] by blast
  have "as @ bs = [] \<Longrightarrow> clist_empty l" using clist_ends(3) [OF assms] by simp
  then show "as @ bs = [] \<longrightarrow> clist_pop_back m l = Inl (Assert_hard ''list_empty'') \<and> clist_pop_front m l = Inl (Assert_hard ''list_empty'')"
    by (simp add: clist_pop_back_def clist_pop_front_def)
qed

theorem clist_refines_list_witness:
  "\<exists>s. clist_insert example_dlinks example_clist (clist_cursor example_clist [48]) 64 = Inr (s, clist_cursor example_clist [64, 48]) \<and>
    clist_rel (fst s) (snd s) [32, 64, 48]"
proof -
  have rel: "clist_rel example_dlinks example_clist ([32] @ [48])" using example_clist_rel by simp
  have "64 \<noteq> (0 :: addr)" "64 \<notin> set (lc_sentinel example_clist # [32] @ [48])" by (simp_all add: example_clist_def)
  from clist_refines_list [OF rel, THEN conjunct1, rule_format, OF this, THEN conjunct1]
  show ?thesis by (auto simp: clist_step_def)
qed

text \<open>C29: the loops of the doubly linked list end: iterating visits the nodes in order, \<open>find_if\<close> returns the first node the callable
  accepts or the end, \<open>reverse\<close> reverses, \<open>clear\<close> deletes every node once in order although that may destroy its links, and
  \<open>remove_if\<close> removes, deletes and counts exactly the nodes the callable accepts.\<close>

theorem clist_loops_end:
  assumes "clist_rel m l xs"
  shows "clist_for_each m l = Some xs \<and>
    clist_find_if m l callable = Some (Inr (clist_cursor l (dropWhile (\<lambda>x. \<not> callable x) xs))) \<and>
    (\<exists>m'. clist_reverse m l = Some m' \<and> clist_step m l xs (m', l) (rev xs)) \<and>
    (\<exists>s. clist_clear m l d = Some (s, if d = None then [] else xs) \<and> clist_step m l xs s []) \<and>
    (\<exists>s. clist_remove_if m l callable d = Some (s, int (length (filter callable xs)), if d = None then [] else filter callable xs) \<and>
      clist_step m l xs s (filter (\<lambda>x. \<not> callable x) xs))"
  using clist_for_each_rel [OF assms] clist_find_if_rel [OF assms, of callable] clist_reverse_step [OF assms]
    clist_clear_step [OF assms, of d] clist_remove_if_step [OF assms, of callable d]
  by (intro conjI)

theorem clist_loops_end_witness:
  "clist_for_each example_dlinks example_clist = Some [32, 48] \<and> (\<exists>m'. clist_reverse example_dlinks example_clist = Some m' \<and> clist_rel m' example_clist [48, 32])"
  using clist_loops_end [OF example_clist_rel, of "\<lambda>_. True" None] by (auto simp: clist_step_def)

definition node_at :: "addr \<Rightarrow> addr \<Rightarrow> addr option" where
  "node_at s a = (if a = s then None else Some a)"

text \<open>C30: the two lists are interchangeable. On the same nodes the XOR list and the doubly linked list return the same results: the same
  nodes from the ends, the same visits, the same search, the same nodes deleted by \<open>clear\<close> and the same nodes removed, deleted and
  counted by \<open>remove_if\<close>, and reversed or not they again hold the same nodes.\<close>

theorem list_twins_agree:
  assumes "list_rel m l xs" and "clist_rel cm cl xs" and "d = None \<longleftrightarrow> cd = None"
  shows "hxlist_front m l = clist_front cm cl \<and>
    hxlist_back l = clist_back cm cl \<and>
    hx_map fst (list_pop_front m l) = hx_map fst (clist_pop_front cm cl) \<and>
    hx_map fst (list_pop_back m l) = hx_map fst (clist_pop_back cm cl) \<and>
    hxlist_for_each m l = map_option Inr (clist_for_each cm cl) \<and>
    map_option (hx_map (node_at (ls_sentinel l) \<circ> it_current)) (hxlist_find_if m l callable) =
      map_option (hx_map (node_at (lc_sentinel cl) \<circ> ci_current)) (clist_find_if cm cl callable) \<and>
    map_option snd (hxlist_clear m l d) = map_option snd (clist_clear cm cl cd) \<and>
    map_option (hx_map snd) (hxlist_remove_if m l callable d) = map_option (\<lambda>r. Inr (snd r)) (clist_remove_if cm cl callable cd) \<and>
    (\<exists>cm'. clist_reverse cm cl = Some cm' \<and> hxlist_for_each m (list_reverse m l) = map_option Inr (clist_for_each cm' cl))"
proof (intro conjI)
  have len: "ls_size l = int (length xs)" "lc_size cl = int (length xs)" using list_rel_size [OF assms(1)] assms(2) by (simp_all add: clist_rel_def)
  note ends = clist_ends [OF assms(2)]
  show "hxlist_front m l = clist_front cm cl"
    using list_front_rel [OF assms(1)] ends len by (simp add: hxlist_front_def clist_front_def)
  show "hxlist_back l = clist_back cm cl" using list_rel_tail [OF assms(1)] ends len by (simp add: hxlist_back_def clist_back_def)
  show "hx_map fst (list_pop_front m l) = hx_map fst (clist_pop_front cm cl)"
  proof (cases xs)
    case Nil
    then show ?thesis using len ends by (simp add: list_pop_front_def clist_pop_front_def)
  next
    case (Cons c cs)
    then show ?thesis using list_pop_front_step [of m l c cs] clist_pop_steps(2) [of cm cl c cs] assms(1,2) by auto
  qed
  show "hx_map fst (list_pop_back m l) = hx_map fst (clist_pop_back cm cl)"
  proof (cases xs rule: rev_cases)
    case Nil
    then show ?thesis using len ends by (simp add: list_pop_back_def clist_pop_back_def)
  next
    case (snoc cs c)
    then show ?thesis using list_pop_back_step [of m l cs c] clist_pop_steps(1) [of cm cl cs c] assms(1,2) by auto
  qed
  show "hxlist_for_each m l = map_option Inr (clist_for_each cm cl)"
    using hxlist_for_each_rel [OF assms(1)] clist_for_each_rel [OF assms(2)] by simp
  show "map_option (hx_map (node_at (ls_sentinel l) \<circ> it_current)) (hxlist_find_if m l callable) =
      map_option (hx_map (node_at (lc_sentinel cl) \<circ> ci_current)) (clist_find_if cm cl callable)"
  proof -
    have "ls_sentinel l \<notin> set xs" "lc_sentinel cl \<notin> set xs" using assms(1,2) by (simp_all add: list_rel_def clist_rel_def)
    then have "node_at (ls_sentinel l) (hd (dropWhile P xs @ [ls_sentinel l])) = node_at (lc_sentinel cl) (hd (dropWhile P xs @ [lc_sentinel cl]))" for P
    proof (cases "dropWhile P xs")
      case Nil
      show ?thesis unfolding Nil by (simp add: node_at_def)
    next
      case (Cons b bs)
      then have "b \<in> set xs" using set_dropWhileD [of b P xs] by simp
      then show ?thesis using \<open>ls_sentinel l \<notin> set xs\<close> \<open>lc_sentinel cl \<notin> set xs\<close> Cons by (auto simp: node_at_def)
    qed
    then show ?thesis using hxlist_find_if_rel [OF assms(1), of callable] clist_find_if_rel [OF assms(2), of callable]
      by (simp add: cursor_def clist_cursor_def)
  qed
  show "map_option snd (hxlist_clear m l d) = map_option snd (clist_clear cm cl cd)"
    using hxlist_clear_step [OF assms(1), of d] clist_clear_step [OF assms(2), of cd] assms(3) by auto
  show "map_option (hx_map snd) (hxlist_remove_if m l callable d) = map_option (\<lambda>r. Inr (snd r)) (clist_remove_if cm cl callable cd)"
    using hxlist_remove_if_step [OF assms(1), of callable d] clist_remove_if_step [OF assms(2), of callable cd] assms(3) by auto
  obtain cm' where "clist_reverse cm cl = Some cm'" and "clist_rel cm' cl (rev xs)"
    using clist_reverse_step [OF assms(2)] by (auto simp: clist_step_def)
  moreover have "hxlist_for_each m (list_reverse m l) = Some (Inr (rev xs))"
    using hxlist_for_each_rel [of m "list_reverse m l" "rev xs"] list_reverse_step [OF assms(1)] by (simp add: list_step_def)
  ultimately show "\<exists>cm'. clist_reverse cm cl = Some cm' \<and> hxlist_for_each m (list_reverse m l) = map_option Inr (clist_for_each cm' cl)"
    using clist_for_each_rel by (intro exI [of _ cm']) simp
qed

theorem list_twins_agree_witness:
  "hxlist_for_each example_links example_list = map_option Inr (clist_for_each example_dlinks example_clist)"
  using list_twins_agree [OF example_list_rel example_clist_rel, of None None] by simp

end
