(* ===== verification/HxHashTable.thy ===== *)
theory HxHashTable
  imports HxAllocator HxKey
begin

text \<open>
  The intrusive hash table of \<^verbatim>\<open>include/hx/hxhash_table.hpp\<close>, its type-erased parts in
  \<^verbatim>\<open>src/hxhash_table.cpp\<close> and \<^verbatim>\<open>detail/hxhash_table.inl\<close>. Nodes live at addresses of an
  explicit store and are chained by \<open>hash_next\<close>; the table is an array of bucket heads whose
  index is the hash shifted right. Keys are compared by value: the key argument of an operation
  is not a reference into a node that the operation deletes.
\<close>

section \<open>State\<close>

type_synonym hash_addr = "64 word"
type_synonym hxhash_t = u32

record 'k hash_node =
  hash_next :: hash_addr
  hash_val :: hxhash_t
  hash_key :: 'k

type_synonym 'k nodes = "hash_addr \<Rightarrow> 'k hash_node"

text \<open>The template parameters: the trait flags, the key functions and a fixed \<open>table_size_bits\<close>
  (or \<open>hxallocator_dynamic_capacity\<close>).\<close>

record 'k hash_traits =
  trait_multi :: bool
  trait_three_way :: bool
  tr_key_equal :: "'k \<Rightarrow> 'k \<Rightarrow> bool"
  tr_key_three_way :: "'k \<Rightarrow> 'k \<Rightarrow> int"
  tr_hash :: "'k \<Rightarrow> hxhash_t"

record hxhash_table =
  ht_size :: hxsize_t
  ht_fixed_bits :: nat
  ht_table :: "hash_addr hxallocator"
  ht_shift :: nat

type_synonym 'k hash_state = "'k nodes \<times> hxhash_table"

definition hxhash_equal :: "'k hash_traits \<Rightarrow> 'k hash_node \<Rightarrow> 'k \<Rightarrow> bool" where
  "hxhash_equal tr node key =
     (if trait_three_way tr then tr_key_three_way tr (hash_key node) key = 0 else tr_key_equal tr (hash_key node) key)"

definition hash_node_new :: "'k hash_traits \<Rightarrow> 'k \<Rightarrow> 'k hash_node" where
  "hash_node_new tr key = \<lparr>hash_next = 0, hash_val = tr_hash tr key, hash_key = key\<rparr>"

section \<open>The bucket array\<close>

definition hxhash_bits :: nat where "hxhash_bits = 32"

text \<open>\<open>memset\<close> of the whole array to null pointers.\<close>

definition zero_table :: "hash_addr hxallocator \<Rightarrow> hash_addr hxallocator" where
  "zero_table al = al\<lparr>al_data := replicate (length (al_data al)) (Some 0)\<rparr>"

definition hxhash_table_new :: "nat \<Rightarrow> hxhash_table" where
  "hxhash_table_new bits =
     (if bits = 0
      then \<lparr>ht_size = 0, ht_fixed_bits = 0, ht_table = hxallocator_new hxallocator_dynamic_capacity False, ht_shift = 0\<rparr>
      else \<lparr>ht_size = 0, ht_fixed_bits = bits, ht_table = zero_table (hxallocator_new (2 ^ bits) False),
             ht_shift = hxhash_bits - bits\<rparr>)"

text \<open>\<open>set_size_bits\<close> exists for dynamic tables only; \<open>bits - 1u\<close> wraps around for 0.\<close>

definition hxhash_set_size_bits :: "hxhash_table \<Rightarrow> hxhash_t \<Rightarrow> hxhash_table hx" where
  "hxhash_set_size_bits t bits =
     (if \<not> bits - 1 < 30 then Inl (Assert_debug ''bad_bits'')
      else hx_map (\<lambda>al. t\<lparr>ht_shift := unat (of_nat hxhash_bits - bits :: hxhash_t), ht_table := zero_table al\<rparr>)
             (reserve_storage (2 ^ unat bits) (ht_table t)))"

definition get_bucket_head :: "hxhash_table \<Rightarrow> hxhash_t \<Rightarrow> nat hx" where
  "get_bucket_head t hash =
     (let index = drop_bit (ht_shift t) hash
      in if index < word_of_int (al_capacity (ht_table t)) then Inr (unat index) else Inl (Assert_debug ''sys_err''))"

definition read_head :: "hxhash_table \<Rightarrow> nat \<Rightarrow> hash_addr hx" where
  "read_head t b = read_slot (al_data (ht_table t)) b"

definition write_head :: "hxhash_table \<Rightarrow> nat \<Rightarrow> hash_addr \<Rightarrow> hxhash_table" where
  "write_head t b p = t\<lparr>ht_table := (ht_table t)\<lparr>al_data := (al_data (ht_table t))[b := Some p]\<rparr>\<rparr>"

definition set_next :: "'k nodes \<Rightarrow> hash_addr \<Rightarrow> hash_addr \<Rightarrow> 'k nodes" where
  "set_next m p q = m(p := (m p)\<lparr>hash_next := q\<rparr>)"

text \<open>Assign to the link that leads to a node: the link of the previous node, or the bucket head.\<close>

definition set_link :: "'k hash_state \<Rightarrow> nat \<Rightarrow> hash_addr \<Rightarrow> hash_addr \<Rightarrow> 'k hash_state" where
  "set_link s b previous q =
     (if previous \<noteq> 0 then (set_next (fst s) previous q, snd s) else (fst s, write_head (snd s) b q))"

section \<open>Operations on chains\<close>

text \<open>The loops follow \<open>hash_next\<close>; \<open>None\<close> is a chain that does not end.\<close>

partial_function (option) chain_find :: "'k hash_traits \<Rightarrow> 'k nodes \<Rightarrow> 'k \<Rightarrow> hash_addr \<Rightarrow> hash_addr option" where
  "chain_find tr m key node =
     (if node \<noteq> 0
      then if hxhash_equal tr (m node) key then Some node else chain_find tr m key (hash_next (m node))
      else Some 0)"

partial_function (option) chain_count_multi ::
  "'k hash_traits \<Rightarrow> 'k nodes \<Rightarrow> 'k \<Rightarrow> hash_addr \<Rightarrow> hxsize_t \<Rightarrow> hxsize_t option" where
  "chain_count_multi tr m key node tot =
     (if node \<noteq> 0
      then chain_count_multi tr m key (hash_next (m node)) (if hxhash_equal tr (m node) key then tot + 1 else tot)
      else Some tot)"

partial_function (option) chain_length :: "'k nodes \<Rightarrow> hash_addr \<Rightarrow> hxsize_t \<Rightarrow> hxsize_t option" where
  "chain_length m node n = (if node \<noteq> 0 then chain_length m (hash_next (m node)) (n + 1) else Some n)"

partial_function (option) chain_extract ::
  "'k hash_traits \<Rightarrow> 'k hash_state \<Rightarrow> nat \<Rightarrow> 'k \<Rightarrow> hash_addr \<Rightarrow> hash_addr \<Rightarrow> (hash_addr \<times> 'k hash_state) option" where
  "chain_extract tr s b key previous node =
     (if node \<noteq> 0
      then if hxhash_equal tr (fst s node) key
           then Some (node, set_link s b previous (hash_next (fst s node)))
           else chain_extract tr s b key node (hash_next (fst s node))
      else Some (0, s))"

text \<open>\<open>chain_erase_at_\<close> does not look for the end: on a chain without the node it dereferences null.\<close>

partial_function (option) chain_erase_at ::
  "'k hash_state \<Rightarrow> nat \<Rightarrow> hash_addr \<Rightarrow> hash_addr \<Rightarrow> hash_addr \<Rightarrow> 'k hash_state hx option" where
  "chain_erase_at s b node previous it =
     (if it \<noteq> node
      then if it = 0 then Some (Inl (Undefined_behavior ''null pointer''))
           else chain_erase_at s b node it (hash_next (fst s it))
      else Some (Inr (set_link s b previous (hash_next (fst s node)))))"

partial_function (option) chain_replace ::
  "'k hash_traits \<Rightarrow> 'k hash_state \<Rightarrow> nat \<Rightarrow> hash_addr \<Rightarrow> 'k \<Rightarrow> hash_addr \<Rightarrow> hash_addr \<Rightarrow> hash_addr
    \<Rightarrow> (hash_addr \<times> 'k hash_state) option" where
  "chain_replace tr s b node key previous head existing =
     (if existing \<noteq> 0
      then if hxhash_equal tr (fst s existing) key
           then Some (existing, set_link (set_next (fst s) node (hash_next (fst s existing)), snd s) b previous node)
           else chain_replace tr s b node key existing head (hash_next (fst s existing))
      else Some (0, (set_next (fst s) node head, write_head (snd s) b node)))"

text \<open>A deleter may leave anything in the memory of the node; the calls are recorded in order.\<close>

type_synonym 'k hash_deleter = "(hash_addr \<Rightarrow> 'k nodes \<Rightarrow> 'k hash_node) option"

definition run_hash_deleter :: "'k hash_deleter \<Rightarrow> hash_addr \<Rightarrow> 'k nodes \<times> hash_addr list \<Rightarrow> 'k nodes \<times> hash_addr list" where
  "run_hash_deleter d p w = (case d of None \<Rightarrow> w | Some f \<Rightarrow> ((fst w)(p := f p (fst w)), snd w @ [p]))"

text \<open>The two loops of \<open>chain_erase_multi_\<close>: the matching prefix, then the nodes behind one that stays.\<close>

partial_function (option) erase_prefix ::
  "'k hash_traits \<Rightarrow> 'k hash_deleter \<Rightarrow> 'k \<Rightarrow> hash_addr \<Rightarrow> hxsize_t \<Rightarrow> 'k nodes \<times> hash_addr list
    \<Rightarrow> (hash_addr \<times> hxsize_t \<times> 'k nodes \<times> hash_addr list) option" where
  "erase_prefix tr d key node cnt w =
     (if node \<noteq> 0 \<and> hxhash_equal tr (fst w node) key
      then let nxt = hash_next (fst w node)
           in erase_prefix tr d key nxt (cnt + 1) (run_hash_deleter d node w)
      else Some (node, cnt, w))"

partial_function (option) erase_behind ::
  "'k hash_traits \<Rightarrow> 'k hash_deleter \<Rightarrow> 'k \<Rightarrow> hash_addr \<Rightarrow> hash_addr \<Rightarrow> hxsize_t \<Rightarrow> 'k nodes \<times> hash_addr list
    \<Rightarrow> (hxsize_t \<times> 'k nodes \<times> hash_addr list) option" where
  "erase_behind tr d key previous node cnt w =
     (if node \<noteq> 0
      then let nxt = hash_next (fst w node)
           in if hxhash_equal tr (fst w node) key
              then erase_behind tr d key previous nxt (cnt + 1) (run_hash_deleter d node (set_next (fst w) previous nxt, snd w))
              else erase_behind tr d key node nxt cnt w
      else Some (cnt, w))"

definition chain_erase_multi ::
  "'k hash_traits \<Rightarrow> 'k hash_deleter \<Rightarrow> 'k hash_state \<Rightarrow> nat \<Rightarrow> 'k \<Rightarrow> hash_addr
    \<Rightarrow> (hxsize_t \<times> 'k hash_state \<times> hash_addr list) option" where
  "chain_erase_multi tr d s b key head =
     (if head = 0 then Some (0, s, [])
      else case
        (if hxhash_equal tr (fst s head) key
         then case erase_prefix tr d key head 0 (fst s, []) of None \<Rightarrow> None
              | Some (node, cnt, w) \<Rightarrow> Some (node, cnt, w, write_head (snd s) b node)
         else Some (head, 0, (fst s, []), snd s))
      of None \<Rightarrow> None
      | Some (node, cnt, w, t) \<Rightarrow>
          if node \<noteq> 0
          then case erase_behind tr d key node (hash_next (fst w node)) cnt w of None \<Rightarrow> None
               | Some (cnt', m, log) \<Rightarrow> Some (cnt', (m, t), log)
          else Some (cnt, (fst w, t), snd w))"

partial_function (option) delete_chain ::
  "'k hash_deleter \<Rightarrow> hash_addr \<Rightarrow> 'k nodes \<times> hash_addr list \<Rightarrow> ('k nodes \<times> hash_addr list) option" where
  "delete_chain d node w =
     (if node \<noteq> 0
      then let nxt = hash_next (fst w node) in delete_chain d nxt (run_hash_deleter d node w)
      else Some w)"

fun table_clear ::
  "'k hash_deleter \<Rightarrow> hash_addr option list \<Rightarrow> 'k nodes \<times> hash_addr list
    \<Rightarrow> (hash_addr option list \<times> 'k nodes \<times> hash_addr list) hx option" where
  "table_clear d [] w = Some (Inr ([], w))"
| "table_clear d (None # hs) w = Some (Inl (Undefined_behavior ''read of raw memory''))"
| "table_clear d (Some node # hs) w =
     (case delete_chain d node w of None \<Rightarrow> None
      | Some w1 \<Rightarrow> (case table_clear d hs w1 of None \<Rightarrow> None
          | Some r \<Rightarrow> Some (hx_map (\<lambda>(hs', w2). (Some 0 # hs', w2)) r)))"

section \<open>Iterators\<close>

record hash_iterator =
  hi_next_bucket :: nat
  hi_bucket_end :: nat
  hi_current :: hash_addr

definition hash_end :: hash_iterator where
  "hash_end = \<lparr>hi_next_bucket = 0, hi_bucket_end = 0, hi_current = 0\<rparr>"

definition hash_iterator_at :: "'k hash_state \<Rightarrow> hash_addr \<Rightarrow> hash_iterator hx" where
  "hash_iterator_at s node =
     hx_map (\<lambda>b. \<lparr>hi_next_bucket = b + 1, hi_bucket_end = nat (al_capacity (ht_table (snd s))), hi_current = node\<rparr>)
       (get_bucket_head (snd s) (hash_val (fst s node)))"

fun next_bucket_loop :: "hxhash_table \<Rightarrow> hash_iterator \<Rightarrow> nat list \<Rightarrow> hash_iterator hx" where
  "next_bucket_loop t it [] = Inr it"
| "next_bucket_loop t it (b # bs) =
     hx_bind (read_head t b)
       (\<lambda>node. if node \<noteq> 0 then Inr (it\<lparr>hi_current := node, hi_next_bucket := b + 1\<rparr>) else next_bucket_loop t it bs)"

definition next_bucket :: "hxhash_table \<Rightarrow> hash_iterator \<Rightarrow> hash_iterator hx" where
  "next_bucket t it =
     (if hi_current it \<noteq> 0 then Inl (Assert_debug ''sys_err'')
      else next_bucket_loop t it [hi_next_bucket it..<hi_bucket_end it])"

definition hash_iterator_next :: "'k hash_state \<Rightarrow> hash_iterator \<Rightarrow> hash_iterator hx" where
  "hash_iterator_next s it =
     (if hi_current it = 0 then Inl (Assert_debug ''bad_iter'')
      else let it1 = it\<lparr>hi_current := hash_next (fst s (hi_current it))\<rparr>
           in if hi_current it1 = 0 then next_bucket (snd s) it1 else Inr it1)"

definition hash_begin :: "'k hash_state \<Rightarrow> hash_iterator hx" where
  "hash_begin s =
     next_bucket (snd s) \<lparr>hi_next_bucket = 0, hi_bucket_end = nat (al_capacity (ht_table (snd s))), hi_current = 0\<rparr>"

definition hash_iterator_eq :: "hash_iterator \<Rightarrow> hash_iterator \<Rightarrow> bool" where
  "hash_iterator_eq it x = (hi_current it = hi_current x)"

definition hash_iterator_deref :: "hash_iterator \<Rightarrow> hash_addr hx" where
  "hash_iterator_deref it = (if hi_current it = 0 then Inl (Assert_debug ''bad_iter'') else Inr (hi_current it))"

section \<open>Operations on the table\<close>

text \<open>The bucket of a hash and the first node of its chain.\<close>

definition bucket_of :: "hxhash_table \<Rightarrow> hxhash_t \<Rightarrow> (nat \<times> hash_addr) hx" where
  "bucket_of t hash = hx_bind (get_bucket_head t hash) (\<lambda>b. hx_map (\<lambda>p. (b, p)) (read_head t b))"

definition iterator_or_end :: "'k hash_state \<Rightarrow> hash_addr \<Rightarrow> hash_iterator run" where
  "iterator_or_end s node = Some (if node = 0 then Inr hash_end else hash_iterator_at s node)"

definition hash_find :: "'k hash_traits \<Rightarrow> 'k hash_state \<Rightarrow> 'k \<Rightarrow> hash_iterator \<Rightarrow> hash_iterator run" where
  "hash_find tr s key previous =
     (let hash = tr_hash tr key; previous_node = hi_current previous; pn = fst s previous_node
      in if previous_node = 0
         then run_bind (Some (bucket_of (snd s) hash))
           (\<lambda>(b, head). run_bind (run_loop (chain_find tr (fst s) key head)) (iterator_or_end s))
         else if trait_multi tr
         then if \<not> (if trait_three_way tr then tr_key_three_way tr key (hash_key pn) = 0 else tr_key_equal tr key (hash_key pn))
              then Some (Inl (Assert_debug ''history_mismatch''))
              else if hash \<noteq> hash_val pn then Some (Inl (Assert_debug ''history_mismatch''))
              else run_bind (run_loop (chain_find tr (fst s) key (hash_next pn))) (iterator_or_end s)
         else Some (Inr hash_end))"

definition hash_has_value :: "'k hash_traits \<Rightarrow> 'k hash_state \<Rightarrow> 'k \<Rightarrow> bool run" where
  "hash_has_value tr s key =
     run_bind (hash_find tr s key hash_end) (\<lambda>it. Some (Inr (\<not> hash_iterator_eq it hash_end)))"

definition hash_count :: "'k hash_traits \<Rightarrow> 'k hash_state \<Rightarrow> 'k \<Rightarrow> hxsize_t run" where
  "hash_count tr s key =
     run_bind (Some (bucket_of (snd s) (tr_hash tr key)))
       (\<lambda>(b, head). if \<not> trait_multi tr
          then run_loop (map_option (\<lambda>node. if node \<noteq> 0 then 1 else 0) (chain_find tr (fst s) key head))
          else run_loop (chain_count_multi tr (fst s) key head 0))"

text \<open>Link the node at the front of its bucket: the end of both overloads of \<open>insert\<close>.\<close>

definition hash_link :: "'k hash_state \<Rightarrow> nat \<Rightarrow> hash_addr \<Rightarrow> hash_addr \<Rightarrow> 'k hash_state" where
  "hash_link s b ptr head =
     (let t1 = write_head (snd s) b ptr in (set_next (fst s) ptr head, t1\<lparr>ht_size := ht_size t1 + 1\<rparr>))"

definition insert_check :: "'k hash_traits \<Rightarrow> 'k hash_state \<Rightarrow> hash_addr \<Rightarrow> unit run" where
  "insert_check tr s ptr =
     (if ptr = 0 then Some (Inl (Undefined_behavior ''null pointer''))
      else run_bind (hash_find tr s (hash_key (fst s ptr)) hash_end)
        (\<lambda>found. if hash_iterator_eq found hash_end \<or> hi_current found \<noteq> ptr then Some (Inr ())
                 else Some (Inl (Assert_debug ''reinsert_err''))))"

definition hash_insert ::
  "'k hash_traits \<Rightarrow> 'k hash_deleter \<Rightarrow> 'k hash_state \<Rightarrow> hash_addr \<Rightarrow> (hash_iterator \<times> 'k hash_state \<times> hash_addr list) run" where
  "hash_insert tr d s ptr =
     run_bind (insert_check tr s ptr) (\<lambda>_.
     run_bind (Some (bucket_of (snd s) (hash_val (fst s ptr)))) (\<lambda>(b, head).
     run_bind (if trait_multi tr then Some (Inr 0) else run_loop (chain_find tr (fst s) (hash_key (fst s ptr)) head)) (\<lambda>existing.
       if existing \<noteq> 0
       then let (m1, log) = run_hash_deleter d ptr (fst s, []); s1 = (m1, snd s)
            in Some (hx_map (\<lambda>it. (it, s1, log)) (hash_iterator_at s1 existing))
       else let s1 = hash_link s b ptr head
            in Some (hx_map (\<lambda>it. (it, s1, [])) (hash_iterator_at s1 ptr)))))"

text \<open>Inserting through an owning pointer: the last component says whether the pointer was released.\<close>

definition hash_insert_owned ::
  "'k hash_traits \<Rightarrow> 'k hash_state \<Rightarrow> hash_addr \<Rightarrow> (hash_iterator \<times> 'k hash_state \<times> bool) run" where
  "hash_insert_owned tr s raw =
     run_bind (insert_check tr s raw) (\<lambda>_.
     run_bind (Some (bucket_of (snd s) (hash_val (fst s raw)))) (\<lambda>(b, head).
     run_bind (if trait_multi tr then Some (Inr 0) else run_loop (chain_find tr (fst s) (hash_key (fst s raw)) head)) (\<lambda>existing.
       if existing \<noteq> 0 then Some (hx_map (\<lambda>it. (it, s, False)) (hash_iterator_at s existing))
       else let s1 = hash_link s b raw head
            in Some (hx_map (\<lambda>it. (it, s1, True)) (hash_iterator_at s1 raw)))))"

fun hash_add_range ::
  "'k hash_traits \<Rightarrow> 'k hash_deleter \<Rightarrow> 'k hash_state \<Rightarrow> hash_addr list \<Rightarrow> hash_addr list \<Rightarrow> ('k hash_state \<times> hash_addr list) run" where
  "hash_add_range tr d s [] log = Some (Inr (s, log))"
| "hash_add_range tr d s (p # ps) log =
     run_bind (hash_insert tr d s p) (\<lambda>(it, s1, log1). hash_add_range tr d s1 ps (log @ log1))"

text \<open>\<open>hxnew\<close> gives the address of a new node constructed from the arguments.\<close>

definition hash_try_emplace ::
  "'k hash_traits \<Rightarrow> 'k hash_deleter \<Rightarrow> 'k hash_state \<Rightarrow> 'k \<Rightarrow> hash_addr \<Rightarrow> 'k hash_node \<Rightarrow> (hash_iterator \<times> 'k hash_state \<times> hash_addr list) run" where
  "hash_try_emplace tr d s key fresh constructed =
     run_bind (hash_find tr s key hash_end) (\<lambda>existing.
       if \<not> hash_iterator_eq existing hash_end then Some (Inr (existing, s, []))
       else hash_insert tr d ((fst s)(fresh := constructed), snd s) fresh)"

definition hash_erase_key ::
  "'k hash_traits \<Rightarrow> 'k hash_deleter \<Rightarrow> 'k hash_state \<Rightarrow> 'k \<Rightarrow> (hxsize_t \<times> 'k hash_state \<times> hash_addr list) run" where
  "hash_erase_key tr d s key =
     run_bind (Some (bucket_of (snd s) (tr_hash tr key))) (\<lambda>(b, head).
       if \<not> trait_multi tr
       then run_bind (run_loop (chain_extract tr s b key 0 head)) (\<lambda>(node, m, t).
              if node = 0 then Some (Inr (0, (m, t), []))
              else let (m1, log) = run_hash_deleter d node (m, [])
                   in Some (Inr (1, (m1, t\<lparr>ht_size := ht_size t - 1\<rparr>), log)))
       else run_bind (run_loop (chain_erase_multi tr d s b key head)) (\<lambda>(erased, (m, t), log).
              Some (Inr (erased, (m, t\<lparr>ht_size := ht_size t - erased\<rparr>), log))))"

definition hash_release_key :: "'k hash_traits \<Rightarrow> 'k hash_state \<Rightarrow> 'k \<Rightarrow> (hxsize_t \<times> 'k hash_state \<times> hash_addr list) run" where
  "hash_release_key tr s key = hash_erase_key tr None s key"

text \<open>Unlink the node of an iterator: the common part of \<open>erase\<close> and \<open>extract\<close>.\<close>

definition hash_unlink :: "'k hash_state \<Rightarrow> hash_addr \<Rightarrow> 'k hash_state run" where
  "hash_unlink s node =
     run_bind (Some (bucket_of (snd s) (hash_val (fst s node)))) (\<lambda>(b, head).
     run_bind (chain_erase_at s b node 0 head) (\<lambda>(m, t). Some (Inr (m, t\<lparr>ht_size := ht_size t - 1\<rparr>))))"

definition hash_erase_it ::
  "'k hash_deleter \<Rightarrow> 'k hash_state \<Rightarrow> hash_iterator \<Rightarrow> (hash_iterator \<times> 'k hash_state \<times> hash_addr list) run" where
  "hash_erase_it d s it =
     (let node = hi_current it
      in if node = 0 then Some (Inl (Assert_debug ''bad_iter''))
         else run_bind (Some (hx_bind (hash_iterator_at s node) (hash_iterator_next s))) (\<lambda>nxt.
              run_bind (hash_unlink s node) (\<lambda>(m, t).
                let (m1, log) = run_hash_deleter d node (m, []) in Some (Inr (nxt, (m1, t), log)))))"

definition hash_extract_it :: "'k hash_state \<Rightarrow> hash_iterator \<Rightarrow> (hash_addr \<times> 'k hash_state) run" where
  "hash_extract_it s it =
     (let node = hi_current it
      in if node = 0 then Some (Inl (Assert_debug ''bad_iter''))
         else run_bind (hash_unlink s node) (\<lambda>s1. Some (Inr (node, s1))))"

definition hash_extract_key :: "'k hash_traits \<Rightarrow> 'k hash_state \<Rightarrow> 'k \<Rightarrow> (hash_addr \<times> 'k hash_state) run" where
  "hash_extract_key tr s key =
     run_bind (Some (bucket_of (snd s) (tr_hash tr key))) (\<lambda>(b, head).
     run_bind (run_loop (chain_extract tr s b key 0 head)) (\<lambda>(node, m, t).
       Some (Inr (node, (m, t\<lparr>ht_size := ht_size t - (if node \<noteq> 0 then 1 else 0)\<rparr>)))))"

definition hash_replace :: "'k hash_traits \<Rightarrow> 'k hash_state \<Rightarrow> hash_addr \<Rightarrow> (hash_addr \<times> 'k hash_state) run" where
  "hash_replace tr s ptr =
     (if ptr = 0 then Some (Inl (Assert_debug ''null_node''))
      else run_bind (Some (bucket_of (snd s) (hash_val (fst s ptr)))) (\<lambda>(b, head).
           run_bind (run_loop (chain_replace tr s b ptr (hash_key (fst s ptr)) 0 head head)) (\<lambda>(replaced, m, t).
             Some (Inr (replaced, (m, t\<lparr>ht_size := ht_size t + (if replaced = 0 then 1 else 0)\<rparr>))))))"

definition hash_release_all :: "'k hash_state \<Rightarrow> 'k hash_state" where
  "hash_release_all s =
     (if ht_size (snd s) \<noteq> 0 then (fst s, (snd s)\<lparr>ht_table := zero_table (ht_table (snd s)), ht_size := 0\<rparr>) else s)"

definition hash_clear :: "'k hash_deleter \<Rightarrow> 'k hash_state \<Rightarrow> ('k hash_state \<times> hash_addr list) run" where
  "hash_clear d s =
     (if ht_size (snd s) \<noteq> 0
      then if d \<noteq> None
           then run_bind (table_clear d (al_data (ht_table (snd s))) (fst s, [])) (\<lambda>(hs, m, log).
                  Some (Inr ((m, (snd s)\<lparr>ht_table := (ht_table (snd s))\<lparr>al_data := hs\<rparr>, ht_size := 0\<rparr>), log)))
           else Some (Inr (hash_release_all s, []))
      else Some (Inr (s, [])))"

fun load_max_loop :: "'k nodes \<Rightarrow> hash_addr option list \<Rightarrow> hxsize_t \<Rightarrow> hxsize_t run" where
  "load_max_loop m [] maximum = Some (Inr maximum)"
| "load_max_loop m (None # hs) maximum = Some (Inl (Undefined_behavior ''read of raw memory''))"
| "load_max_loop m (Some head # hs) maximum =
     run_bind (run_loop (chain_length m head 0)) (\<lambda>n. load_max_loop m hs (max maximum n))"

definition hash_load_max :: "'k hash_state \<Rightarrow> hxsize_t run" where
  "hash_load_max s = load_max_loop (fst s) (al_data (ht_table (snd s))) 0"

text \<open>The monadic lookups of C++23, by key.\<close>

definition hash_and_then :: "'k hash_traits \<Rightarrow> 'k hash_state \<Rightarrow> 'k \<Rightarrow> (hash_addr \<Rightarrow> 'r option) \<Rightarrow> 'r option run" where
  "hash_and_then tr s key callable =
     run_bind (hash_find tr s key hash_end) (\<lambda>found.
       if \<not> hash_iterator_eq found hash_end
       then run_bind (Some (hash_iterator_deref found)) (\<lambda>x. Some (Inr (callable x))) else Some (Inr None))"

definition hash_or_else :: "'k hash_traits \<Rightarrow> 'k hash_state \<Rightarrow> 'k \<Rightarrow> hash_iterator \<Rightarrow> hash_iterator run" where
  "hash_or_else tr s key alternative =
     run_bind (hash_find tr s key hash_end) (\<lambda>found.
       Some (Inr (if \<not> hash_iterator_eq found hash_end then found else alternative)))"

section \<open>Chains\<close>

fun chain :: "'k nodes \<Rightarrow> hash_addr \<Rightarrow> hash_addr list \<Rightarrow> bool" where
  "chain m p [] = (p = 0)"
| "chain m p (n # ns) = (p = n \<and> n \<noteq> 0 \<and> chain m (hash_next (m n)) ns)"

definition head_of :: "hash_addr list \<Rightarrow> hash_addr" where
  "head_of ns = (case ns of [] \<Rightarrow> 0 | n # _ \<Rightarrow> n)"

definition prev_of :: "hash_addr list \<Rightarrow> hash_addr" where
  "prev_of ns = (if ns = [] then 0 else last ns)"

text \<open>Key and hash of a node are what an operation on the links leaves alone.\<close>

definition same_node :: "'k nodes \<Rightarrow> 'k nodes \<Rightarrow> hash_addr \<Rightarrow> bool" where
  "same_node m m' a \<longleftrightarrow> hash_key (m' a) = hash_key (m a) \<and> hash_val (m' a) = hash_val (m a)"

definition first_match :: "'k hash_traits \<Rightarrow> 'k nodes \<Rightarrow> 'k \<Rightarrow> hash_addr list \<Rightarrow> hash_addr" where
  "first_match tr m key ns = head_of (filter (\<lambda>n. hxhash_equal tr (m n) key) ns)"

lemma head_of_simps [simp]: "head_of [] = 0" "head_of (n # ns) = n" "ns \<noteq> [] \<Longrightarrow> head_of (ns @ us) = head_of ns"
  by (auto simp: head_of_def split: list.splits)

lemma prev_of_simps [simp]: "prev_of [] = 0" "prev_of (ns @ [n]) = n" "ns \<noteq> [] \<Longrightarrow> prev_of ns = last ns"
  by (auto simp: prev_of_def)

lemma same_node_refl [simp]: "same_node m m a" by (simp add: same_node_def)

lemma same_node_trans: "same_node m m' a \<Longrightarrow> same_node m' m'' a \<Longrightarrow> same_node m m'' a"
  by (simp add: same_node_def)

lemma same_node_set_next [simp]: "same_node m (set_next m p q) a"
  by (simp add: same_node_def set_next_def)

lemma set_next_apply: "a \<noteq> p \<Longrightarrow> set_next m p q a = m a" "hash_next (set_next m p q p) = q"
  by (simp_all add: set_next_def)

lemma hxhash_equal_cong: "hash_key n = hash_key n' \<Longrightarrow> hxhash_equal tr n key = hxhash_equal tr n' key"
  by (simp add: hxhash_equal_def)

lemma chain_head: "chain m p ns \<Longrightarrow> p = head_of ns"
  by (cases ns) auto

lemma chain_nonnull: "chain m p ns \<Longrightarrow> 0 \<notin> set ns"
  by (induction ns arbitrary: p) auto

lemma chain_frame: "chain m p ns \<Longrightarrow> (\<And>a. a \<in> set ns \<Longrightarrow> m' a = m a) \<Longrightarrow> chain m' p ns"
  by (induction ns arbitrary: p) auto

lemma chain_append: "chain m p (us @ n # ns) \<Longrightarrow> n \<noteq> 0 \<and> chain m n (n # ns)"
  by (induction us arbitrary: p) auto

lemma chain_suffix: "chain m p (us @ n # ns) \<Longrightarrow> hash_next (m n) = head_of ns \<and> chain m (head_of ns) ns"
  using chain_append [of m p us n ns] chain_head [of m "hash_next (m n)" ns] by auto

lemma chain_find_chain: "chain m p ns \<Longrightarrow> chain_find tr m key p = Some (first_match tr m key ns)"
proof (induction ns arbitrary: p)
  case Nil
  then show ?case by (subst chain_find.simps) (simp add: first_match_def)
next
  case (Cons n ns)
  then show ?case by (subst chain_find.simps) (auto simp: first_match_def)
qed

lemma chain_count_chain:
  "chain m p ns \<Longrightarrow>
   chain_count_multi tr m key p tot = Some (tot + int (length (filter (\<lambda>n. hxhash_equal tr (m n) key) ns)))"
proof (induction ns arbitrary: p tot)
  case Nil
  then show ?case by (subst chain_count_multi.simps) simp
next
  case (Cons n ns)
  then show ?case by (subst chain_count_multi.simps) auto
qed

lemma chain_length_chain: "chain m p ns \<Longrightarrow> chain_length m p c = Some (c + int (length ns))"
proof (induction ns arbitrary: p c)
  case Nil
  then show ?case by (subst chain_length.simps) simp
next
  case (Cons n ns)
  then show ?case by (subst chain_length.simps) auto
qed

lemma chain_extract_none:
  "chain m p ns \<Longrightarrow> (\<And>a. a \<in> set ns \<Longrightarrow> \<not> hxhash_equal tr (m a) key) \<Longrightarrow>
   chain_extract tr (m, t) b key previous p = Some (0, (m, t))"
proof (induction ns arbitrary: p previous)
  case Nil
  then show ?case by (subst chain_extract.simps) simp
next
  case (Cons n ns)
  then show ?case by (subst chain_extract.simps) auto
qed

lemma chain_extract_chain:
  "chain m p (as @ n # bs) \<Longrightarrow> (\<And>a. a \<in> set as \<Longrightarrow> \<not> hxhash_equal tr (m a) key) \<Longrightarrow> hxhash_equal tr (m n) key \<Longrightarrow>
   chain_extract tr (m, t) b key (prev_of us) p = Some (n, set_link (m, t) b (prev_of (us @ as)) (head_of bs))"
proof (induction as arbitrary: p us)
  case Nil
  then have "hash_next (m n) = head_of bs" by (auto dest: chain_head)
  then show ?case using Nil by (subst chain_extract.simps) simp
next
  case (Cons a as)
  then show ?case using Cons.IH [of "hash_next (m a)" "us @ [a]"] by (subst chain_extract.simps) auto
qed

lemma chain_replace_none:
  "chain m p ns \<Longrightarrow> (\<And>a. a \<in> set ns \<Longrightarrow> \<not> hxhash_equal tr (m a) key) \<Longrightarrow>
   chain_replace tr (m, t) b node key previous head p = Some (0, (set_next m node head, write_head t b node))"
proof (induction ns arbitrary: p previous)
  case Nil
  then show ?case by (subst chain_replace.simps) simp
next
  case (Cons n ns)
  then show ?case by (subst chain_replace.simps) auto
qed

lemma chain_replace_chain:
  "chain m p (as @ n # bs) \<Longrightarrow> (\<And>a. a \<in> set as \<Longrightarrow> \<not> hxhash_equal tr (m a) key) \<Longrightarrow> hxhash_equal tr (m n) key \<Longrightarrow>
   chain_replace tr (m, t) b node key (prev_of us) head p =
     Some (n, set_link (set_next m node (head_of bs), t) b (prev_of (us @ as)) node)"
proof (induction as arbitrary: p us)
  case Nil
  then have "hash_next (m n) = head_of bs" by (auto dest: chain_head)
  then show ?case using Nil by (subst chain_replace.simps) simp
next
  case (Cons a as)
  then show ?case using Cons.IH [of "hash_next (m a)" "us @ [a]"] by (subst chain_replace.simps) auto
qed

lemma chain_erase_at_chain:
  "chain m p (as @ n # bs) \<Longrightarrow> n \<notin> set as \<Longrightarrow>
   chain_erase_at (m, t) b n (prev_of us) p = Some (Inr (set_link (m, t) b (prev_of (us @ as)) (head_of bs)))"
proof (induction as arbitrary: p us)
  case Nil
  then have "hash_next (m n) = head_of bs" by (auto dest: chain_head)
  then show ?case using Nil by (subst chain_erase_at.simps) simp
next
  case (Cons a as)
  then show ?case using Cons.IH [of "hash_next (m a)" "us @ [a]"] by (subst chain_erase_at.simps) auto
qed

text \<open>Assigning the link behind \<open>us\<close> replaces the rest of the chain.\<close>

lemma chain_set_last:
  "chain m (head_of (us @ old)) (us @ old) \<Longrightarrow> us \<noteq> [] \<Longrightarrow> distinct us \<Longrightarrow> set us \<inter> set new = {} \<Longrightarrow> chain m q new \<Longrightarrow>
   chain (set_next m (last us) q) (head_of us) (us @ new)"
proof (induction us)
  case (Cons u us)
  show ?case
  proof (cases us)
    case Nil
    have "chain (set_next m u q) q new" using Cons.prems Nil by (auto intro!: chain_frame [of m] set_next_apply(1))
    then show ?thesis using Cons.prems Nil by (simp add: set_next_apply)
  next
    case (Cons u' us')
    have "hash_next (m u) = head_of us" using Cons.prems Cons by auto
    moreover have "u \<noteq> last us" using Cons.prems Cons by auto
    ultimately show ?thesis using Cons.IH Cons.prems Cons by (auto simp: set_next_apply)
  qed
qed simp

lemma write_head_same:
  "al_data (ht_table t) ! b = Some p \<Longrightarrow> write_head t b p = t"
  using list_update_id [of "al_data (ht_table t)" b] by (simp add: write_head_def)

lemma set_link_chain:
  assumes "chain m (head_of (us @ old)) (us @ old)" and "distinct us" and "set us \<inter> set new = {}"
    and "chain m (head_of new) new" and "al_data (ht_table t) ! b = Some (head_of (us @ old))"
  shows "\<exists>m'. set_link (m, t) b (prev_of us) (head_of new) = (m', write_head t b (head_of (us @ new))) \<and>
    chain m' (head_of (us @ new)) (us @ new) \<and> (\<forall>a. a \<notin> set us \<longrightarrow> m' a = m a) \<and> (\<forall>a. same_node m m' a)"
proof (cases "us = []")
  case True
  then show ?thesis using assms(4) by (intro exI [of _ m]) (simp add: set_link_def)
next
  case False
  have "last us \<noteq> 0" using chain_nonnull [OF assms(1)] last_in_set [OF False] by auto
  then have "set_link (m, t) b (prev_of us) (head_of new) = (set_next m (last us) (head_of new), write_head t b (head_of (us @ new)))"
    using False assms(5) by (simp add: set_link_def write_head_same)
  moreover have "chain (set_next m (last us) (head_of new)) (head_of (us @ new)) (us @ new)"
    using chain_set_last [OF assms(1) False assms(2,3,4)] False by simp
  moreover have "a \<notin> set us \<Longrightarrow> set_next m (last us) (head_of new) a = m a" for a
    using False by (auto intro: set_next_apply(1))
  ultimately show ?thesis by auto
qed

subsection \<open>The erasing loops\<close>

abbreviation deleted_log :: "'k hash_deleter \<Rightarrow> hash_addr list \<Rightarrow> hash_addr list" where
  "deleted_log d ns \<equiv> (if d = None then [] else ns)"

lemma run_hash_deleter_facts:
  "snd (run_hash_deleter d n w) = snd w @ deleted_log d [n]"
  "a \<noteq> n \<Longrightarrow> fst (run_hash_deleter d n w) a = fst w a"
  by (auto simp: run_hash_deleter_def split: option.splits)

lemma deleted_log_append [simp]: "deleted_log d [n] @ deleted_log d ns = deleted_log d (n # ns)"
  by simp

lemma filter_equal_cong:
  "(\<And>a. a \<in> set ns \<Longrightarrow> m' a = m a) \<Longrightarrow>
   filter (\<lambda>n. hxhash_equal tr (m' n) key) ns = filter (\<lambda>n. hxhash_equal tr (m n) key) ns \<and>
   filter (\<lambda>n. \<not> hxhash_equal tr (m' n) key) ns = filter (\<lambda>n. \<not> hxhash_equal tr (m n) key) ns"
  by (auto intro!: filter_cong)

lemma erase_behind_chain:
  "chain (fst w) (hash_next (fst w prev)) ns \<Longrightarrow> distinct (prev # ns) \<Longrightarrow>
   \<exists>m'. erase_behind tr d key prev (head_of ns) cnt w =
       Some (cnt + int (length (filter (\<lambda>n. hxhash_equal tr (fst w n) key) ns)), m',
         snd w @ deleted_log d (filter (\<lambda>n. hxhash_equal tr (fst w n) key) ns)) \<and>
     chain m' (hash_next (m' prev)) (filter (\<lambda>n. \<not> hxhash_equal tr (fst w n) key) ns) \<and>
     (\<forall>a. a \<notin> set (filter (\<lambda>n. hxhash_equal tr (fst w n) key) ns) \<longrightarrow> same_node (fst w) m' a) \<and>
     (\<forall>a. a \<notin> set (prev # ns) \<longrightarrow> m' a = fst w a)"
proof (induction ns arbitrary: prev cnt w)
  case Nil
  then show ?case by (subst erase_behind.simps) (auto intro!: exI [of _ "fst w"])
next
  case (Cons n ns)
  have n: "n \<noteq> 0" "hash_next (fst w prev) = n" "hash_next (fst w n) = head_of ns"
    and ch: "chain (fst w) (hash_next (fst w n)) ns"
    using Cons.prems by (auto dest: chain_head)
  show ?case
  proof (cases "hxhash_equal tr (fst w n) key")
    case False
    have "distinct (n # ns)" using Cons.prems(2) by simp
    from Cons.IH [OF ch this, of cnt] obtain m' where
      m': "erase_behind tr d key n (head_of ns) cnt w =
        Some (cnt + int (length (filter (\<lambda>n. hxhash_equal tr (fst w n) key) ns)), m',
          snd w @ deleted_log d (filter (\<lambda>n. hxhash_equal tr (fst w n) key) ns))"
      "chain m' (hash_next (m' n)) (filter (\<lambda>n. \<not> hxhash_equal tr (fst w n) key) ns)"
      "\<forall>a. a \<notin> set (filter (\<lambda>n. hxhash_equal tr (fst w n) key) ns) \<longrightarrow> same_node (fst w) m' a"
      "\<forall>a. a \<notin> set (n # ns) \<longrightarrow> m' a = fst w a" by blast
    have "m' prev = fst w prev" using m'(4) Cons.prems(2) by auto
    then show ?thesis
      using m' n False by (subst erase_behind.simps) (auto intro!: exI [of _ m'])
  next
    case True
    define w1 where "w1 = run_hash_deleter d n (set_next (fst w) prev (head_of ns), snd w)"
    have w1: "snd w1 = snd w @ deleted_log d [n]" "\<And>a. a \<noteq> n \<Longrightarrow> fst w1 a = set_next (fst w) prev (head_of ns) a"
      by (simp_all add: w1_def run_hash_deleter_facts)
    have same: "fst w1 a = fst w a" if "a \<in> set ns" for a
    proof -
      have "a \<noteq> n" "a \<noteq> prev" using that Cons.prems(2) by auto
      then show ?thesis using w1(2) [of a] by (simp add: set_next_apply)
    qed
    have next1: "hash_next (fst w1 prev) = head_of ns" using w1(2) [of prev] Cons.prems(2) by (auto simp: set_next_apply)
    have "chain (fst w1) (hash_next (fst w1 prev)) ns"
      unfolding next1 using ch n(3) by (auto intro: chain_frame [of "fst w"] same)
    moreover have "distinct (prev # ns)" using Cons.prems(2) by simp
    moreover note filter_equal_cong [of ns "fst w1" "fst w" tr key, OF same]
    ultimately obtain m' where
      m': "erase_behind tr d key prev (head_of ns) (cnt + 1) w1 =
        Some (cnt + 1 + int (length (filter (\<lambda>n. hxhash_equal tr (fst w n) key) ns)), m',
          snd w1 @ deleted_log d (filter (\<lambda>n. hxhash_equal tr (fst w n) key) ns))"
      "chain m' (hash_next (m' prev)) (filter (\<lambda>n. \<not> hxhash_equal tr (fst w n) key) ns)"
      "\<forall>a. a \<notin> set (filter (\<lambda>n. hxhash_equal tr (fst w n) key) ns) \<longrightarrow> same_node (fst w1) m' a"
      "\<forall>a. a \<notin> set (prev # ns) \<longrightarrow> m' a = fst w1 a"
      using Cons.IH [of w1 prev "cnt + 1"] by auto
    have "same_node (fst w) (fst w1) a" if "a \<noteq> n" for a using w1(2) [OF that] by (simp add: same_node_def set_next_def)
    then have "\<forall>a. a \<notin> set (filter (\<lambda>n. hxhash_equal tr (fst w n) key) (n # ns)) \<longrightarrow> same_node (fst w) m' a"
      using m'(3) True by (auto intro: same_node_trans)
    moreover have "\<forall>a. a \<notin> set (prev # n # ns) \<longrightarrow> m' a = fst w a"
      using m'(4) w1(2) by (auto simp: set_next_apply)
    moreover have "erase_behind tr d key prev (head_of (n # ns)) cnt w = erase_behind tr d key prev (head_of ns) (cnt + 1) w1"
      using True n by (subst erase_behind.simps) (simp add: w1_def Let_def)
    ultimately show ?thesis using m'(1,2) w1(1) True by (intro exI [of _ m']) (simp del: deleted_log_append)
  qed
qed

lemma erase_prefix_chain:
  "chain (fst w) (head_of ns) ns \<Longrightarrow> distinct ns \<Longrightarrow>
   \<exists>m'. erase_prefix tr d key (head_of ns) cnt w =
       Some (head_of (dropWhile (\<lambda>n. hxhash_equal tr (fst w n) key) ns),
         cnt + int (length (takeWhile (\<lambda>n. hxhash_equal tr (fst w n) key) ns)), m',
         snd w @ deleted_log d (takeWhile (\<lambda>n. hxhash_equal tr (fst w n) key) ns)) \<and>
     (\<forall>a. a \<notin> set (takeWhile (\<lambda>n. hxhash_equal tr (fst w n) key) ns) \<longrightarrow> m' a = fst w a)"
proof (induction ns arbitrary: cnt w)
  case Nil
  then show ?case by (subst erase_prefix.simps) (auto intro!: exI [of _ "fst w"])
next
  case (Cons n ns)
  have n: "n \<noteq> 0" "hash_next (fst w n) = head_of ns" and ch: "chain (fst w) (head_of ns) ns"
    using Cons.prems chain_head [of "fst w" "hash_next (fst w n)" ns] by auto
  show ?case
  proof (cases "hxhash_equal tr (fst w n) key")
    case False
    then show ?thesis by (subst erase_prefix.simps) (auto intro!: exI [of _ "fst w"])
  next
    case True
    define w1 where "w1 = run_hash_deleter d n w"
    have w1: "snd w1 = snd w @ deleted_log d [n]" "\<And>a. a \<noteq> n \<Longrightarrow> fst w1 a = fst w a"
      by (simp_all add: w1_def run_hash_deleter_facts)
    have same: "fst w1 a = fst w a" if "a \<in> set ns" for a using w1(2) [of a] that Cons.prems(2) by auto
    have cong: "takeWhile (\<lambda>n. hxhash_equal tr (fst w1 n) key) ns = takeWhile (\<lambda>n. hxhash_equal tr (fst w n) key) ns"
      "dropWhile (\<lambda>n. hxhash_equal tr (fst w1 n) key) ns = dropWhile (\<lambda>n. hxhash_equal tr (fst w n) key) ns"
      using same by (auto intro: takeWhile_cong dropWhile_cong)
    have "chain (fst w1) (head_of ns) ns" using ch by (rule chain_frame) (rule same)
    then obtain m' where m': "erase_prefix tr d key (head_of ns) (cnt + 1) w1 =
       Some (head_of (dropWhile (\<lambda>n. hxhash_equal tr (fst w n) key) ns),
         cnt + 1 + int (length (takeWhile (\<lambda>n. hxhash_equal tr (fst w n) key) ns)), m',
         snd w1 @ deleted_log d (takeWhile (\<lambda>n. hxhash_equal tr (fst w n) key) ns))"
      "\<forall>a. a \<notin> set (takeWhile (\<lambda>n. hxhash_equal tr (fst w n) key) ns) \<longrightarrow> m' a = fst w1 a"
      using Cons.IH [of w1 "cnt + 1"] Cons.prems(2) unfolding cong by auto
    have "erase_prefix tr d key (head_of (n # ns)) cnt w = erase_prefix tr d key (head_of ns) (cnt + 1) w1"
      using True n by (subst erase_prefix.simps) (simp add: w1_def)
    then show ?thesis using m' w1 True by (intro exI [of _ m']) (auto simp del: deleted_log_append)
  qed
qed

lemma filter_prefix: "filter P ns = takeWhile P ns @ filter P (dropWhile P ns)"
  by (induction ns) auto

lemma filter_prefix_not: "filter (\<lambda>n. \<not> P n) ns = filter (\<lambda>n. \<not> P n) (dropWhile P ns)"
  by (induction ns) auto

lemma delete_chain_chain:
  "chain (fst w) (head_of ns) ns \<Longrightarrow> distinct ns \<Longrightarrow>
   \<exists>m'. delete_chain d (head_of ns) w = Some (m', snd w @ deleted_log d ns) \<and> (\<forall>a. a \<notin> set ns \<longrightarrow> m' a = fst w a)"
proof (induction ns arbitrary: w)
  case Nil
  then show ?case by (subst delete_chain.simps) (auto intro!: exI [of _ "fst w"])
next
  case (Cons n ns)
  define w1 where "w1 = run_hash_deleter d n w"
  have w1: "snd w1 = snd w @ deleted_log d [n]" "\<And>a. a \<noteq> n \<Longrightarrow> fst w1 a = fst w a"
    by (simp_all add: w1_def run_hash_deleter_facts)
  have n: "n \<noteq> 0" "hash_next (fst w n) = head_of ns" and ch: "chain (fst w) (head_of ns) ns"
    using Cons.prems chain_head [of "fst w" "hash_next (fst w n)" ns] by auto
  have "chain (fst w1) (head_of ns) ns" using ch by (rule chain_frame) (use Cons.prems(2) in \<open>auto intro!: w1(2)\<close>)
  then obtain m' where m': "delete_chain d (head_of ns) w1 = Some (m', snd w1 @ deleted_log d ns)"
    "\<forall>a. a \<notin> set ns \<longrightarrow> m' a = fst w1 a"
    using Cons.IH [of w1] Cons.prems(2) by auto
  have "delete_chain d (head_of (n # ns)) w = delete_chain d (head_of ns) w1"
    using n by (subst delete_chain.simps) (simp add: w1_def)
  then show ?case using m' w1 by (intro exI [of _ m']) (auto simp del: deleted_log_append)
qed

lemma chain_erase_multi_chain:
  fixes tr :: "'k hash_traits" and m :: "'k nodes" and key :: 'k
  assumes ch: "chain m (head_of ns) ns" and "distinct ns" and head: "al_data (ht_table t) ! b = Some (head_of ns)"
  defines "P \<equiv> \<lambda>n. hxhash_equal tr (m n) key"
  shows "\<exists>m'. chain_erase_multi tr d (m, t) b key (head_of ns) =
      Some (int (length (filter P ns)), (m', write_head t b (head_of (filter (\<lambda>n. \<not> P n) ns))), deleted_log d (filter P ns)) \<and>
    chain m' (head_of (filter (\<lambda>n. \<not> P n) ns)) (filter (\<lambda>n. \<not> P n) ns) \<and>
    (\<forall>a. a \<notin> set (filter P ns) \<longrightarrow> same_node m m' a) \<and> (\<forall>a. a \<notin> set ns \<longrightarrow> m' a = m a)"
proof (cases ns)
  case Nil
  then show ?thesis using write_head_same [OF head] by (auto simp: chain_erase_multi_def intro!: exI [of _ m])
next
  case (Cons n0 rest0)
  have n0: "head_of ns \<noteq> 0" using chain_nonnull [OF ch] Cons by auto
  let ?pre = "takeWhile P ns" and ?suf = "dropWhile P ns"
  obtain m1 where pre: "erase_prefix tr d key (head_of ns) 0 (m, []) = Some (head_of ?suf, int (length ?pre), m1, deleted_log d ?pre)"
    "\<And>a. a \<notin> set ?pre \<Longrightarrow> m1 a = m a"
    using erase_prefix_chain [of "(m, [])" ns tr d key 0] ch assms(2) by (auto simp: P_def)
  have start: "(if hxhash_equal tr (fst (m, t) (head_of ns)) key
         then case erase_prefix tr d key (head_of ns) 0 (fst (m, t), []) of None \<Rightarrow> None
              | Some (node, cnt, w) \<Rightarrow> Some (node, cnt, w, write_head (snd (m, t)) b node)
         else Some (head_of ns, 0, (fst (m, t), []), snd (m, t))) =
      Some (head_of ?suf, int (length ?pre), (if P n0 then m1 else m, deleted_log d ?pre), write_head t b (head_of ?suf))"
    using pre(1) Cons write_head_same [OF head] by (auto simp: P_def)
  let ?m1 = "if P n0 then m1 else m"
  have m1: "?m1 a = m a" if "a \<notin> set ?pre" for a using pre(2) [OF that] by simp
  have disj: "set ?pre \<inter> set ?suf = {}" "distinct ?suf"
    using assms(2) takeWhile_dropWhile_id [of P ns] distinct_append [of ?pre ?suf] by auto
  have eq0: "chain_erase_multi tr d (m, t) b key (head_of ns) =
      (if head_of ?suf \<noteq> 0
       then case erase_behind tr d key (head_of ?suf) (hash_next (?m1 (head_of ?suf))) (int (length ?pre)) (?m1, deleted_log d ?pre) of None \<Rightarrow> None
            | Some (cnt', m', log) \<Rightarrow> Some (cnt', (m', write_head t b (head_of ?suf)), log)
       else Some (int (length ?pre), (?m1, write_head t b (head_of ?suf)), deleted_log d ?pre))"
    using n0 unfolding chain_erase_multi_def start by simp
  show ?thesis
  proof (cases ?suf)
    case Nil
    then have "filter P ns = ?pre" "filter (\<lambda>n. \<not> P n) ns = []"
      unfolding filter_prefix [of P ns] filter_prefix_not [of P ns] Nil by simp_all
    then show ?thesis using eq0 Nil m1 by (auto intro!: exI [of _ ?m1] simp: same_node_def dest: set_takeWhileD)
  next
    case (Cons n rest)
    have notP: "\<not> P n" using Cons hd_dropWhile [of P ns] by auto
    have filters: "filter P ns = ?pre @ filter P rest" "filter (\<lambda>n. \<not> P n) ns = n # filter (\<lambda>n. \<not> P n) rest"
      using filter_prefix [of P ns] filter_prefix_not [of P ns] Cons notP by simp_all
    have split: "ns = ?pre @ n # rest" using takeWhile_dropWhile_id [of P ns] Cons by simp
    have "chain m (head_of ns) (?pre @ n # rest)" using ch split by simp
    from chain_suffix [OF this] have nxt: "hash_next (m n) = head_of rest" "chain m (head_of rest) rest" by auto
    have "n \<in> set ns" by (subst split) simp
    then have n: "n \<noteq> 0" "n \<notin> set ?pre" using chain_nonnull [OF ch] disj Cons by auto
    have same: "?m1 a = m a" if "a \<in> set rest" for a
    proof (rule m1)
      show "a \<notin> set ?pre" using that disj(1) Cons by auto
    qed
    have ch1: "chain ?m1 (hash_next (?m1 n)) rest"
      unfolding m1 [OF n(2)] nxt(1) using nxt(2) by (rule chain_frame) (rule same)
    have P1: "filter (\<lambda>n. hxhash_equal tr (?m1 n) key) rest = filter P rest"
      "filter (\<lambda>n. \<not> hxhash_equal tr (?m1 n) key) rest = filter (\<lambda>n. \<not> P n) rest"
      using filter_equal_cong [of rest ?m1 m tr key, OF same] by (simp_all add: P_def)
    obtain m' where m': "erase_behind tr d key n (head_of rest) (int (length ?pre)) (?m1, deleted_log d ?pre) =
        Some (int (length ?pre) + int (length (filter P rest)), m', deleted_log d ?pre @ deleted_log d (filter P rest))"
      "chain m' (hash_next (m' n)) (filter (\<lambda>n. \<not> P n) rest)"
      "\<forall>a. a \<notin> set (filter P rest) \<longrightarrow> same_node ?m1 m' a" "\<forall>a. a \<notin> set (n # rest) \<longrightarrow> m' a = ?m1 a"
      using erase_behind_chain [of "(?m1, deleted_log d ?pre)" n rest tr d key "int (length ?pre)"] ch1 disj(2) Cons P1 by auto
    have "a \<notin> set (filter P ns) \<Longrightarrow> same_node m m' a" for a
      using m'(3) m1 [of a] filters(1) by (auto simp: same_node_def)
    moreover have "a \<notin> set ns \<Longrightarrow> m' a = m a" for a
    proof -
      assume "a \<notin> set ns"
      then have "a \<notin> set ?pre" "a \<notin> set (n # rest)" by (subst (asm) split, simp)+
      then show ?thesis using m'(4) m1 by simp
    qed
    moreover have "chain m' (head_of (filter (\<lambda>n. \<not> P n) ns)) (filter (\<lambda>n. \<not> P n) ns)"
      using m'(2) n(1) filters(2) by simp
    ultimately show ?thesis
      using eq0 Cons n m'(1) nxt(1) m1 [OF n(2)] filters by (intro exI [of _ m']) auto
  qed
qed

end
