(* ===== verification/HxHashRefine.thy ===== *)
theory HxHashRefine
  imports HxHashTable
begin

text \<open>
  What the hash table promises: a table holds a list of chains, one for each bucket; every node is
  in the bucket of its hash; and, unless equal keys are allowed, no two nodes have equal keys.
  Every operation is shown to change exactly the chain of one bucket, so the table behaves as a
  finite collection of nodes that are found by key.
\<close>

section \<open>The abstraction\<close>

definition tr_equal :: "'k hash_traits \<Rightarrow> 'k \<Rightarrow> 'k \<Rightarrow> bool" where
  "tr_equal tr a b = (if trait_three_way tr then tr_key_three_way tr a b = 0 else tr_key_equal tr a b)"

lemma hxhash_equal_iff: "hxhash_equal tr n key = tr_equal tr (hash_key n) key"
  by (simp add: hxhash_equal_def tr_equal_def)

text \<open>What the table relies on: key equality is an equivalence that the hash respects.\<close>

locale hash_keys = key_hash "tr_equal tr" "tr_hash tr" for tr :: "'k hash_traits"
begin

lemma equal_cong: "tr_equal tr a b \<Longrightarrow> tr_equal tr a c = tr_equal tr b c"
  using equiv_sym equiv_trans by blast

end

definition num_traits :: "bool \<Rightarrow> bool \<Rightarrow> int hash_traits" where
  "num_traits multi three_way = \<lparr>trait_multi = multi, trait_three_way = three_way, tr_key_equal = hxkey_equal_num,
     tr_key_three_way = hxkey_three_way_num, tr_hash = hxkey_hash_num\<rparr>"

definition str_traits :: "bool \<Rightarrow> bool \<Rightarrow> string hash_traits" where
  "str_traits multi three_way = \<lparr>trait_multi = multi, trait_three_way = three_way, tr_key_equal = hxkey_equal_str,
     tr_key_three_way = hxkey_three_way_str, tr_hash = hxkey_hash_str\<rparr>"

lemma tr_equal_num: "tr_equal (num_traits multi three_way) = hxkey_equal_num"
  by (intro ext) (simp add: num_traits_def tr_equal_def num_key.three_way_zero)

lemma tr_equal_str: "tr_equal (str_traits multi three_way) = hxkey_equal_str"
  by (intro ext) (simp add: str_traits_def tr_equal_def str_key.three_way_zero)

interpretation num_keys: hash_keys "num_traits multi three_way" for multi three_way
  unfolding hash_keys_def tr_equal_num by (simp add: num_traits_def num_hash.key_hash_axioms)

interpretation str_keys: hash_keys "str_traits multi three_way" for multi three_way
  unfolding hash_keys_def tr_equal_str by (simp add: str_traits_def str_hash.key_hash_axioms)

definition bucket_index :: "hxhash_table \<Rightarrow> hxhash_t \<Rightarrow> nat" where
  "bucket_index t hash = unat (drop_bit (ht_shift t) hash)"

definition chain_ok :: "'k hash_traits \<Rightarrow> 'k hash_state \<Rightarrow> nat \<Rightarrow> hash_addr list \<Rightarrow> bool" where
  "chain_ok tr s b c \<longleftrightarrow> chain (fst s) (head_of c) c \<and>
     (\<forall>n\<in>set c. hash_val (fst s n) = tr_hash tr (hash_key (fst s n)) \<and> bucket_index (snd s) (hash_val (fst s n)) = b) \<and>
     (\<not> trait_multi tr \<longrightarrow>
        (\<forall>x\<in>set c. \<forall>y\<in>set c. x \<noteq> y \<longrightarrow> \<not> tr_equal tr (hash_key (fst s x)) (hash_key (fst s y))))"

definition table_shape :: "hxhash_table \<Rightarrow> nat \<Rightarrow> bool" where
  "table_shape t n \<longleftrightarrow> (\<exists>bits. 0 < bits \<and> bits < 32 \<and> n = 2 ^ bits \<and> ht_shift t = 32 - bits \<and> al_capacity (ht_table t) = 2 ^ bits)"

definition table_rel :: "'k hash_traits \<Rightarrow> 'k hash_state \<Rightarrow> hash_addr list list \<Rightarrow> bool" where
  "table_rel tr s css \<longleftrightarrow> table_shape (snd s) (length css) \<and>
     al_data (ht_table (snd s)) = map (\<lambda>c. Some (head_of c)) css \<and>
     distinct (concat css) \<and> ht_size (snd s) = int (length (concat css)) \<and>
     (\<forall>b<length css. chain_ok tr s b (css ! b))"

lemma table_relD:
  assumes "table_rel tr s css"
  shows "table_shape (snd s) (length css)" and "al_data (ht_table (snd s)) = map (\<lambda>c. Some (head_of c)) css"
    and "distinct (concat css)" and "ht_size (snd s) = int (length (concat css))"
    and "\<And>us c vs. css = us @ c # vs \<Longrightarrow> chain_ok tr s (length us) c"
proof -
  show "chain_ok tr s (length us) c" if "css = us @ c # vs" for us c vs
  proof -
    have "length us < length css" "css ! length us = c" using that by simp_all
    then show ?thesis using assms by (auto simp: table_rel_def)
  qed
qed (use assms in \<open>auto simp: table_rel_def\<close>)

lemma bucket_index_less:
  assumes "table_shape t n"
  shows "bucket_index t h < n"
proof -
  obtain bits where "0 < bits" "bits < 32" "n = 2 ^ bits" "ht_shift t = 32 - bits" using assms by (auto simp: table_shape_def)
  moreover have "unat h < 2 ^ (32 - bits) * 2 ^ bits"
    using unat_bound [of h] \<open>bits < 32\<close> by (simp flip: power_add)
  ultimately show ?thesis
    by (simp add: bucket_index_def unat_drop_bit less_mult_imp_div_less mult.commute)
qed

lemma get_bucket_head_shape:
  assumes "table_shape t n"
  shows "get_bucket_head t h = Inr (bucket_index t h)"
proof -
  obtain bits where bits: "bits < 32" "n = 2 ^ bits" "al_capacity (ht_table t) = 2 ^ bits"
    using assms by (auto simp: table_shape_def)
  have "(2 :: nat) ^ bits < 2 ^ 32" using bits(1) by (intro power_strict_increasing) auto
  then have "unat (word_of_nat (2 ^ bits) :: hxhash_t) = 2 ^ bits" by (intro unat_of_nat_small) simp
  then have "unat (word_of_int (2 ^ bits) :: hxhash_t) = 2 ^ bits" by (simp only: of_nat_power of_int_power) simp
  then have "drop_bit (ht_shift t) h < word_of_int (al_capacity (ht_table t))"
    using bucket_index_less [OF assms, of h] bits by (simp add: word_less_nat_alt bucket_index_def)
  then show ?thesis by (simp add: get_bucket_head_def bucket_index_def)
qed

text \<open>Every hash has its bucket.\<close>

lemma bucket_of_rel:
  assumes "table_rel tr s css"
  obtains us c vs where "css = us @ c # vs" and "length us = bucket_index (snd s) h"
    and "bucket_of (snd s) h = Inr (length us, head_of c)"
    and "al_data (ht_table (snd s)) ! length us = Some (head_of c)"
proof -
  note shape = table_relD(1) [OF assms] and data = table_relD(2) [OF assms]
  let ?b = "bucket_index (snd s) h"
  have b: "?b < length css" by (rule bucket_index_less [OF shape])
  then have "css = take ?b css @ css ! ?b # drop (Suc ?b) css" by (rule id_take_nth_drop)
  moreover have "length (take ?b css) = ?b" using b by simp
  moreover have "bucket_of (snd s) h = Inr (?b, head_of (css ! ?b))"
    using b data by (simp add: bucket_of_def get_bucket_head_shape [OF shape] read_head_def slot_simps)
  moreover have "al_data (ht_table (snd s)) ! ?b = Some (head_of (css ! ?b))" using b data by simp
  ultimately show thesis using that by metis
qed

text \<open>An operation that replaces the chain of one bucket.\<close>

lemma chain_ok_frame:
  assumes "chain_ok tr (m, t) b c" and "\<And>a. a \<in> set c \<Longrightarrow> m' a = m a" and "ht_shift t' = ht_shift t"
  shows "chain_ok tr (m', t') b c"
  using assms chain_frame [of m "head_of c" c m'] by (auto simp: chain_ok_def bucket_index_def)

lemma table_rel_update:
  assumes rel: "table_rel tr (m, t) (us @ c # vs)" and ch: "chain_ok tr (m', t) (length us) c'"
    and dist: "distinct c'" "set c' \<inter> (set (concat us) \<union> set (concat vs)) = {}"
    and frame: "\<And>a. a \<in> set (concat us) \<union> set (concat vs) \<Longrightarrow> m' a = m a"
    and t': "ht_table t' = ht_table (write_head t (length us) (head_of c'))" "ht_shift t' = ht_shift t"
    and sz: "ht_size t' = int (length (concat (us @ c' # vs)))"
  shows "table_rel tr (m', t') (us @ c' # vs)"
proof -
  have shape: "table_shape t' (length (us @ c' # vs))"
    using table_relD(1) [OF rel] t' by (simp add: table_shape_def write_head_def)
  have data: "al_data (ht_table t') = map (\<lambda>c. Some (head_of c)) (us @ c' # vs)"
    using table_relD(2) [OF rel] t' by (simp add: write_head_def list_update_append)
  have "distinct (concat (us @ c' # vs))"
    using table_relD(3) [OF rel] dist by auto
  moreover have "chain_ok tr (m', t') b ((us @ c' # vs) ! b)" if b: "b < length (us @ c' # vs)" for b
  proof (cases "b = length us")
    case True
    then show ?thesis using ch t'(2) by (auto intro: chain_ok_frame)
  next
    case False
    then have eq: "(us @ c' # vs) ! b = (us @ c # vs) ! b" by (auto simp: nth_append nth_Cons')
    have "(us @ c # vs) ! b \<in> set us \<union> set vs"
      using False b by (auto simp: nth_append nth_Cons')
    then have "set ((us @ c # vs) ! b) \<subseteq> set (concat us) \<union> set (concat vs)" by auto
    moreover have ok: "chain_ok tr (m, t) b ((us @ c # vs) ! b)" using rel b by (auto simp: table_rel_def)
    ultimately show ?thesis
      unfolding eq by (intro chain_ok_frame [OF ok _ t'(2)] frame) blast
  qed
  ultimately show ?thesis using shape data sz by (simp add: table_rel_def)
qed

text \<open>A table only depends on its own nodes.\<close>

lemma table_rel_frame:
  assumes "table_rel tr (m, t) css" and "\<And>a. a \<in> set (concat css) \<Longrightarrow> m' a = m a"
  shows "table_rel tr (m', t) css"
proof -
  have "chain_ok tr (m', t) b (css ! b)" if b: "b < length css" for b
  proof (rule chain_ok_frame [of tr m t])
    show "chain_ok tr (m, t) b (css ! b)" using assms(1) b by (simp add: table_rel_def)
    show "m' a = m a" if "a \<in> set (css ! b)" for a using that b by (intro assms(2)) auto
  qed simp
  then show ?thesis using assms(1) by (simp add: table_rel_def)
qed

text \<open>The keys of a table: a node with an equal key is in the bucket of the key.\<close>

lemma chain_in_table: "css = us @ c # vs \<Longrightarrow> set c \<subseteq> set (concat css)"
  by auto

lemma equal_in_bucket:
  assumes "hash_keys tr" and rel: "table_rel tr s css" and css: "css = us @ c # vs"
    and b: "length us = bucket_index (snd s) (tr_hash tr key)"
    and n: "n \<in> set (concat css)" "hxhash_equal tr (fst s n) key"
  shows "n \<in> set c"
proof -
  obtain us' c' vs' where c': "css = us' @ c' # vs'" "n \<in> set c'"
    using n(1) by (auto dest: split_list)
  then have "bucket_index (snd s) (hash_val (fst s n)) = length us'" "hash_val (fst s n) = tr_hash tr (hash_key (fst s n))"
    using table_relD(5) [OF rel c'(1)] by (auto simp: chain_ok_def)
  moreover have "tr_hash tr (hash_key (fst s n)) = tr_hash tr key"
    using key_hash.hash_eq [OF hash_keys.axioms [OF assms(1)]] n(2) by (simp add: hxhash_equal_iff)
  ultimately have "length us' = length us" using b by simp
  then show ?thesis using c' css by simp
qed

lemma chain_find_none:
  "first_match tr m key ns = 0 \<Longrightarrow> 0 \<notin> set ns \<Longrightarrow> n \<in> set ns \<Longrightarrow> \<not> hxhash_equal tr (m n) key"
  by (induction ns) (auto simp: first_match_def split: if_splits)

lemma first_match_split:
  "first_match tr m key ns \<noteq> 0 \<Longrightarrow> \<exists>as bs. ns = as @ first_match tr m key ns # bs \<and>
     (\<forall>a\<in>set as. \<not> hxhash_equal tr (m a) key) \<and> hxhash_equal tr (m (first_match tr m key ns)) key"
proof (induction ns)
  case (Cons n ns)
  show ?case
  proof (cases "hxhash_equal tr (m n) key")
    case True
    then show ?thesis by (intro exI [of _ "[]"] exI [of _ ns]) (simp add: first_match_def)
  next
    case False
    then have eq: "first_match tr m key (n # ns) = first_match tr m key ns" by (simp add: first_match_def)
    then obtain as bs where "ns = as @ first_match tr m key ns # bs" "\<forall>a\<in>set as. \<not> hxhash_equal tr (m a) key"
      "hxhash_equal tr (m (first_match tr m key ns)) key" using Cons by auto
    then show ?thesis using False eq by (intro exI [of _ "n # as"] exI [of _ bs]) simp
  qed
qed (simp add: first_match_def)

section \<open>Looking up\<close>

lemma chain_okD:
  assumes "chain_ok tr s b c"
  shows "chain (fst s) (head_of c) c" and "n \<in> set c \<Longrightarrow> hash_val (fst s n) = tr_hash tr (hash_key (fst s n))"
    and "n \<in> set c \<Longrightarrow> bucket_index (snd s) (hash_val (fst s n)) = b"
    and "\<not> trait_multi tr \<Longrightarrow> x \<in> set c \<Longrightarrow> y \<in> set c \<Longrightarrow> x \<noteq> y \<Longrightarrow> \<not> tr_equal tr (hash_key (fst s x)) (hash_key (fst s y))"
  using assms unfolding chain_ok_def by blast+

lemma hash_iterator_at_rel:
  assumes "table_rel tr s css" and "css = us @ (as @ n # bs) # vs"
  shows "hash_iterator_at s n = Inr \<lparr>hi_next_bucket = length us + 1, hi_bucket_end = length css, hi_current = n\<rparr>"
proof -
  have "bucket_index (snd s) (hash_val (fst s n)) = length us"
    by (rule chain_okD(3) [OF table_relD(5) [OF assms]]) simp
  moreover have "nat (al_capacity (ht_table (snd s))) = length css"
    using table_relD(1) [OF assms(1)] by (auto simp: table_shape_def nat_power_eq)
  ultimately show ?thesis
    by (simp add: hash_iterator_at_def get_bucket_head_shape [OF table_relD(1) [OF assms(1)]])
qed

lemma chain_ok_nonnull: "chain_ok tr s b c \<Longrightarrow> 0 \<notin> set c"
  by (auto simp: chain_ok_def dest: chain_nonnull)

lemma table_nonnull:
  assumes "table_rel tr s css"
  shows "0 \<notin> set (concat css)"
proof
  assume "0 \<in> set (concat css)"
  then obtain c where "c \<in> set css" "0 \<in> set c" by auto
  then show False using chain_ok_nonnull [OF table_relD(5) [OF assms]] by (auto dest!: split_list [of c])
qed

text \<open>A first lookup scans the bucket of the key.\<close>

lemma hash_find_bucket:
  assumes "table_rel tr s css" and css: "css = us @ c # vs"
    and b: "bucket_of (snd s) (tr_hash tr key) = Inr (length us, head_of c)"
  shows "hash_find tr s key hash_end = iterator_or_end s (first_match tr (fst s) key c)"
  using chain_find_chain [OF chain_okD(1) [OF table_relD(5) [OF assms(1) css]]] b
  by (simp add: hash_find_def hash_end_def)

lemma first_match_none:
  "\<forall>n\<in>set c. \<not> hxhash_equal tr (m n) key \<Longrightarrow> first_match tr m key c = 0"
  by (simp add: first_match_def)

lemma first_match_in: "first_match tr m key ns \<noteq> 0 \<Longrightarrow>
  first_match tr m key ns \<in> set ns \<and> hxhash_equal tr (m (first_match tr m key ns)) key"
  using first_match_split [of tr m key ns] by (metis in_set_conv_decomp)

lemma iterator_or_end_rel:
  assumes "table_rel tr s css" and "css = us @ c # vs" and "n = 0 \<or> n \<in> set c"
  shows "\<exists>it. iterator_or_end s n = Some (Inr it) \<and> hi_current it = n"
proof (cases "n = 0")
  case True
  then show ?thesis by (simp add: iterator_or_end_def hash_end_def)
next
  case False
  then obtain as bs where "c = as @ n # bs" using assms(3) by (auto dest: split_list)
  then show ?thesis using hash_iterator_at_rel [OF assms(1), of us as n bs vs] assms(2) False
    by (simp add: iterator_or_end_def)
qed

lemma hash_find_rel:
  assumes "hash_keys tr" and rel: "table_rel tr s css"
  shows "\<exists>it. hash_find tr s key hash_end = Some (Inr it) \<and>
    (if \<exists>n\<in>set (concat css). hxhash_equal tr (fst s n) key
     then hi_current it \<in> set (concat css) \<and> hi_current it \<noteq> 0 \<and> hxhash_equal tr (fst s (hi_current it)) key
     else hi_current it = 0)"
proof -
  obtain us c vs where css: "css = us @ c # vs" "length us = bucket_index (snd s) (tr_hash tr key)"
    "bucket_of (snd s) (tr_hash tr key) = Inr (length us, head_of c)"
    by (rule bucket_of_rel [OF rel]) blast
  let ?n = "first_match tr (fst s) key c"
  have in_c: "?n = 0 \<or> ?n \<in> set c \<and> hxhash_equal tr (fst s ?n) key" by (cases "?n = 0") (auto dest: first_match_in)
  then obtain it where it: "hash_find tr s key hash_end = Some (Inr it)" "hi_current it = ?n"
    using iterator_or_end_rel [OF rel css(1), of ?n] hash_find_bucket [OF rel css(1) css(3)] by auto
  show ?thesis
  proof (cases "\<exists>n\<in>set (concat css). hxhash_equal tr (fst s n) key")
    case True
    then obtain n where n: "n \<in> set c" "hxhash_equal tr (fst s n) key"
      using equal_in_bucket [OF assms(1) rel css(1,2)] by blast
    have "?n \<noteq> 0"
    proof
      assume "?n = 0"
      from chain_find_none [OF this chain_ok_nonnull [OF table_relD(5) [OF rel css(1)]] n(1)] n(2) show False by simp
    qed
    then show ?thesis using True it in_c chain_in_table [OF css(1)] by auto
  next
    case False
    then have "\<forall>n\<in>set c. \<not> hxhash_equal tr (fst s n) key" using css(1) by auto
    then show ?thesis using False it first_match_none by auto
  qed
qed

section \<open>Inserting\<close>

lemma insert_check_ok:
  assumes "hash_keys tr" and "table_rel tr s css" and "ptr \<noteq> 0" and "ptr \<notin> set (concat css)"
  shows "insert_check tr s ptr = Some (Inr ())"
proof -
  obtain it where "hash_find tr s (hash_key (fst s ptr)) hash_end = Some (Inr it)" "hi_current it \<noteq> ptr"
    using hash_find_rel [OF assms(1,2), of "hash_key (fst s ptr)"] assms(3,4) by (auto split: if_splits)
  then show ?thesis using assms(3) by (simp add: insert_check_def)
qed

lemma hash_link_rel:
  assumes rel: "table_rel tr s (us @ c # vs)" and "ptr \<noteq> 0" and fresh: "ptr \<notin> set (concat (us @ c # vs))"
    and val: "hash_val (fst s ptr) = tr_hash tr (hash_key (fst s ptr))"
    and b: "length us = bucket_index (snd s) (hash_val (fst s ptr))"
    and new: "\<not> trait_multi tr \<Longrightarrow> \<forall>n\<in>set c. \<not> tr_equal tr (hash_key (fst s n)) (hash_key (fst s ptr)) \<and>
       \<not> tr_equal tr (hash_key (fst s ptr)) (hash_key (fst s n))"
  shows "table_rel tr (hash_link s (length us) ptr (head_of c)) (us @ (ptr # c) # vs)"
proof -
  obtain m t where s: "s = (m, t)" by force
  let ?m = "set_next m ptr (head_of c)"
  have ok: "chain_ok tr (m, t) (length us) c" using table_relD(5) [OF rel, of us c vs] s by simp
  have same: "?m a = m a" if "a \<noteq> ptr" for a using that by (rule set_next_apply(1))
  have kv: "hash_key (?m a) = hash_key (m a)" "hash_val (?m a) = hash_val (m a)" for a
    using same_node_set_next [of m ptr "head_of c" a] by (auto simp: same_node_def)
  have ne: "a \<noteq> ptr" if "a \<in> set c" for a using that fresh by auto
  have "chain ?m (head_of c) c" using ok ne by (auto simp: chain_ok_def intro: chain_frame same)
  then have chain: "chain ?m (head_of (ptr # c)) (ptr # c)" using \<open>ptr \<noteq> 0\<close> by (simp add: set_next_apply)
  have ok': "chain_ok tr (?m, t) (length us) (ptr # c)"
    unfolding chain_ok_def fst_conv snd_conv kv
    using chain ok val b new s by (auto simp: chain_ok_def)
  show ?thesis
    unfolding hash_link_def s fst_conv snd_conv Let_def
  proof (rule table_rel_update [OF rel [unfolded s] ok'])
    show "distinct (ptr # c)" "set (ptr # c) \<inter> (set (concat us) \<union> set (concat vs)) = {}"
      using table_relD(3) [OF rel] fresh by auto
    show "?m a = m a" if "a \<in> set (concat us) \<union> set (concat vs)" for a
      using that fresh by (intro same) auto
  qed (use table_relD(4) [OF rel] s in \<open>simp_all add: write_head_def\<close>)
qed

text \<open>The nodes a table holds, whatever their order.\<close>

definition table_holds :: "'k hash_traits \<Rightarrow> 'k hash_state \<Rightarrow> hash_addr set \<Rightarrow> bool" where
  "table_holds tr s N \<longleftrightarrow> (\<exists>css. table_rel tr s css \<and> set (concat css) = N)"

lemma table_holds_size: "table_holds tr s N \<Longrightarrow> ht_size (snd s) = int (card N)"
  by (auto simp: table_holds_def distinct_card table_relD(3,4) simp del: set_concat)

lemma table_holdsE:
  assumes "table_holds tr s N"
  obtains css where "table_rel tr s css" and "set (concat css) = N"
  using assms by (auto simp: table_holds_def)

lemma table_holdsI: "table_rel tr s css \<Longrightarrow> set (concat css) = N \<Longrightarrow> table_holds tr s N"
  by (auto simp: table_holds_def)

lemma hash_insert_holds:
  assumes keys: "hash_keys tr" and holds: "table_holds tr s N" and ptr: "ptr \<noteq> 0" "ptr \<notin> N"
    and val: "hash_val (fst s ptr) = tr_hash tr (hash_key (fst s ptr))"
  shows "\<exists>it s1 log. hash_insert tr d s ptr = Some (Inr (it, s1, log)) \<and>
    (if \<not> trait_multi tr \<and> (\<exists>n\<in>N. hxhash_equal tr (fst s n) (hash_key (fst s ptr)))
     then hi_current it \<in> N \<and> hxhash_equal tr (fst s (hi_current it)) (hash_key (fst s ptr)) \<and>
          table_holds tr s1 N \<and> log = deleted_log d [ptr] \<and> (\<forall>a. a \<noteq> ptr \<longrightarrow> fst s1 a = fst s a)
     else hi_current it = ptr \<and> table_holds tr s1 (insert ptr N) \<and> log = [] \<and> (\<forall>a. same_node (fst s) (fst s1) a))"
proof -
  obtain css where rel: "table_rel tr s css" and N: "set (concat css) = N" by (rule table_holdsE [OF holds])
  obtain us c vs where css: "css = us @ c # vs" "length us = bucket_index (snd s) (hash_val (fst s ptr))"
    "bucket_of (snd s) (hash_val (fst s ptr)) = Inr (length us, head_of c)"
    by (rule bucket_of_rel [OF rel]) blast
  note ok = table_relD(5) [OF rel css(1)]
  let ?key = "hash_key (fst s ptr)"
  let ?e = "if trait_multi tr then 0 else first_match tr (fst s) ?key c"
  have check: "insert_check tr s ptr = Some (Inr ())"
    by (rule insert_check_ok [OF keys rel ptr(1)], unfold N) (rule ptr(2))
  have scan: "(if trait_multi tr then Some (Inr 0) else run_loop (chain_find tr (fst s) ?key (head_of c))) = Some (Inr ?e)"
    using chain_find_chain [OF chain_okD(1) [OF ok]] by simp
  have unfold: "hash_insert tr d s ptr =
      (if ?e \<noteq> 0 then let (m1, log) = run_hash_deleter d ptr (fst s, []); s1 = (m1, snd s)
            in Some (hx_map (\<lambda>it. (it, s1, log)) (hash_iterator_at s1 ?e))
       else let s1 = hash_link s (length us) ptr (head_of c)
            in Some (hx_map (\<lambda>it. (it, s1, [])) (hash_iterator_at s1 ptr)))"
    unfolding hash_insert_def check css(3) scan run_bind_simps prod.case ..
  have found: "?e \<noteq> 0 \<longleftrightarrow> \<not> trait_multi tr \<and> (\<exists>n\<in>N. hxhash_equal tr (fst s n) ?key)"
  proof -
    have "(\<exists>n\<in>N. hxhash_equal tr (fst s n) ?key) \<longleftrightarrow> (\<exists>n\<in>set c. hxhash_equal tr (fst s n) ?key)"
      using equal_in_bucket [OF keys rel css(1), of ?key] css(2) val N chain_in_table [OF css(1)] by auto
    moreover have "(\<exists>n\<in>set c. hxhash_equal tr (fst s n) ?key) \<longleftrightarrow> first_match tr (fst s) ?key c \<noteq> 0"
      using first_match_in [of tr "fst s" ?key c] chain_find_none [OF _ chain_ok_nonnull [OF ok], of tr "fst s" ?key] by blast
    ultimately show ?thesis by auto
  qed
  show ?thesis
  proof (cases "?e \<noteq> 0")
    case True
    then have e: "?e \<in> set c" "hxhash_equal tr (fst s ?e) ?key" using first_match_in [of tr "fst s" ?key c] by (auto split: if_splits)
    obtain m1 log where del: "run_hash_deleter d ptr (fst s, []) = (m1, log)" by force
    have m1: "\<And>a. a \<noteq> ptr \<Longrightarrow> m1 a = fst s a" "log = deleted_log d [ptr]"
      using run_hash_deleter_facts [where d = d and n = ptr and w = "(fst s, [])"] unfolding del by auto
    have "m1 a = fst s a" if "a \<in> set (concat css)" for a
      using that ptr(2) unfolding N by (intro m1(1)) auto
    then have rel1: "table_rel tr (m1, snd s) css"
      using table_rel_frame [of tr "fst s" "snd s" css m1] rel by simp
    obtain as bs where "c = as @ ?e # bs" using e(1) by (auto dest: split_list)
    then obtain it where "hash_iterator_at (m1, snd s) ?e = Inr it" "hi_current it = ?e"
      using hash_iterator_at_rel [OF rel1, of us as ?e bs vs] css(1) by simp
    then have "hash_insert tr d s ptr = Some (Inr (it, (m1, snd s), log))" "hi_current it = ?e"
      unfolding unfold using True del by auto
    moreover have "?e \<in> N" using e(1) N chain_in_table [OF css(1)] by auto
    ultimately show ?thesis
      using True found e(2) m1 table_holdsI [OF rel1 N] by (intro exI [of _ it] exI [of _ "(m1, snd s)"] exI [of _ log]) auto
  next
    case False
    let ?s1 = "hash_link s (length us) ptr (head_of c)"
    have new: "\<forall>n\<in>set c. \<not> tr_equal tr (hash_key (fst s n)) ?key \<and> \<not> tr_equal tr ?key (hash_key (fst s n))" if "\<not> trait_multi tr"
      using that False chain_find_none [OF _ chain_ok_nonnull [OF ok], of tr "fst s" ?key]
        key_hash.equiv_sym [OF hash_keys.axioms [OF keys]] by (auto simp: hxhash_equal_iff)
    have rel1: "table_rel tr ?s1 (us @ (ptr # c) # vs)"
      using rel css(1) ptr N by (intro hash_link_rel val css(2) new) auto
    have "set (concat (us @ (ptr # c) # vs)) = insert ptr N" using N css(1) by auto
    moreover obtain it where "hash_iterator_at ?s1 ptr = Inr it" "hi_current it = ptr"
      using hash_iterator_at_rel [OF rel1, of us "[]" ptr c vs] by auto
    moreover have "\<forall>a. same_node (fst s) (fst ?s1) a" by (simp add: hash_link_def Let_def)
    ultimately show ?thesis
      unfolding unfold using False found table_holdsI [OF rel1] by (intro exI [of _ it] exI [of _ ?s1] exI [of _ "[]"]) auto
  qed
qed

section \<open>Erasing\<close>

lemma table_rel_shrink:
  assumes rel: "table_rel tr (m, t) (us @ c # vs)" and ch: "chain m' (head_of c') c'" and "distinct c'" and sub: "set c' \<subseteq> set c"
    and same: "\<And>a. a \<in> set c' \<Longrightarrow> same_node m m' a" and frame: "\<And>a. a \<notin> set c \<Longrightarrow> m' a = m a"
    and t': "ht_table t' = ht_table (write_head t (length us) (head_of c'))" "ht_shift t' = ht_shift t"
    and sz: "ht_size t' = ht_size t - int (length c) + int (length c')"
  shows "table_rel tr (m', t') (us @ c' # vs)"
proof (rule table_rel_update [OF rel _ _ _ _ t'])
  have ok: "chain_ok tr (m, t) (length us) c" using table_relD(5) [OF rel, of us c vs] by simp
  have dist: "distinct (concat us @ c @ concat vs)" using table_relD(3) [OF rel] by simp
  show "chain_ok tr (m', t) (length us) c'"
    unfolding chain_ok_def fst_conv snd_conv
    using ch same sub chain_okD(2,3,4) [OF ok] by (auto simp: same_node_def subset_iff)
  show "set c' \<inter> (set (concat us) \<union> set (concat vs)) = {}" using dist sub by auto
  show "m' a = m a" if "a \<in> set (concat us) \<union> set (concat vs)" for a
    using that dist by (intro frame) auto
  show "ht_size t' = int (length (concat (us @ c' # vs)))"
    using sz table_relD(4) [OF rel] by simp
qed (rule \<open>distinct c'\<close>)

lemma unlink_rel:
  assumes rel: "table_rel tr (m, t) (us @ (as @ n # bs) # vs)"
  shows "\<exists>m' t'. set_link (m, t) (length us) (prev_of as) (head_of bs) = (m', t') \<and>
    table_rel tr (m', t'\<lparr>ht_size := ht_size t' - 1\<rparr>) (us @ (as @ bs) # vs) \<and> (\<forall>a. same_node m m' a)"
proof -
  have ok: "chain_ok tr (m, t) (length us) (as @ n # bs)" using table_relD(5) [OF rel] by simp
  have dist: "distinct (as @ n # bs)" using table_relD(3) [OF rel] by auto
  have head: "al_data (ht_table t) ! length us = Some (head_of (as @ n # bs))"
    using table_relD(2) [OF rel] by (simp add: nth_append)
  have ch: "chain m (head_of (as @ n # bs)) (as @ n # bs)" using chain_okD(1) [OF ok] by simp
  have "chain m (head_of bs) bs" using chain_suffix [OF ch] by simp
  then obtain m' where m': "set_link (m, t) (length us) (prev_of as) (head_of bs) = (m', write_head t (length us) (head_of (as @ bs)))"
    "chain m' (head_of (as @ bs)) (as @ bs)" "\<forall>a. a \<notin> set as \<longrightarrow> m' a = m a" "\<forall>a. same_node m m' a"
    using set_link_chain [OF ch, of bs t "length us"] dist head by auto
  let ?t = "write_head t (length us) (head_of (as @ bs))"
  have "table_rel tr (m', ?t\<lparr>ht_size := ht_size ?t - 1\<rparr>) (us @ (as @ bs) # vs)"
    by (rule table_rel_shrink [OF rel m'(2)]) (use dist m'(3,4) in \<open>auto simp: write_head_def\<close>)
  then show ?thesis using m'(1,4) by auto
qed

lemma run_hash_deleter_rel:
  assumes "table_rel tr (m, t) css" and "n \<notin> set (concat css)" and "run_hash_deleter d n (m, []) = (m1, log)"
  shows "table_rel tr (m1, t) css" and "log = deleted_log d [n]" and "a \<noteq> n \<Longrightarrow> m1 a = m a"
proof -
  show m1: "m1 a = m a" if "a \<noteq> n" for a using run_hash_deleter_facts(2) [OF that, of d "(m, [])"] assms(3) by simp
  show "table_rel tr (m1, t) css"
    by (rule table_rel_frame [OF assms(1)]) (use assms(2) in \<open>metis m1\<close>)
  show "log = deleted_log d [n]" using run_hash_deleter_facts(1) [of d n "(m, [])"] assms(3) by simp
qed

definition matching :: "'k hash_traits \<Rightarrow> 'k hash_state \<Rightarrow> 'k \<Rightarrow> hash_addr set \<Rightarrow> hash_addr set" where
  "matching tr s key N = {n \<in> N. hxhash_equal tr (fst s n) key}"

lemma hash_erase_key_holds:
  assumes keys: "hash_keys tr" and holds: "table_holds tr s N"
  shows "\<exists>cnt s1 log. hash_erase_key tr d s key = Some (Inr (cnt, s1, log)) \<and> cnt = int (card (matching tr s key N)) \<and>
    table_holds tr s1 (N - matching tr s key N) \<and> distinct log \<and> set log = (if d = None then {} else matching tr s key N) \<and>
    (\<forall>a\<in>N - matching tr s key N. same_node (fst s) (fst s1) a)"
proof -
  obtain css where rel0: "table_rel tr s css" and N0: "set (concat css) = N" by (rule table_holdsE [OF holds])
  obtain us c vs where css: "css = us @ c # vs" "length us = bucket_index (snd s) (tr_hash tr key)"
    "bucket_of (snd s) (tr_hash tr key) = Inr (length us, head_of c)" "al_data (ht_table (snd s)) ! length us = Some (head_of c)"
    by (rule bucket_of_rel [OF rel0]) blast
  obtain m t where s: "s = (m, t)" by force
  note rel = rel0 [unfolded css(1) s] and N = N0 [unfolded css(1)]
  have ok: "chain_ok tr (m, t) (length us) c" using table_relD(5) [OF rel] by simp
  have dist: "distinct c" using table_relD(3) [OF rel] by simp
  let ?P = "\<lambda>n. hxhash_equal tr (m n) key"
  have M: "matching tr s key N = set (filter ?P c)"
    using equal_in_bucket [OF keys rel0 css(1,2)] chain_in_table [OF css(1)] N0 by (auto simp: matching_def s)
  then have card: "card (matching tr s key N) = length (filter ?P c)" using dist by (simp add: distinct_card del: set_filter)
  have rest: "set (concat (us @ filter (\<lambda>n. \<not> ?P n) c # vs)) = N - matching tr s key N"
    using N table_relD(3) [OF rel] unfolding M by auto
  show ?thesis
  proof (cases "trait_multi tr")
    case True
    obtain m' where m': "chain_erase_multi tr d (m, t) (length us) key (head_of c) =
        Some (int (length (filter ?P c)), (m', write_head t (length us) (head_of (filter (\<lambda>n. \<not> ?P n) c))), deleted_log d (filter ?P c))"
      "chain m' (head_of (filter (\<lambda>n. \<not> ?P n) c)) (filter (\<lambda>n. \<not> ?P n) c)"
      "\<forall>a. a \<notin> set (filter ?P c) \<longrightarrow> same_node m m' a" "\<forall>a. a \<notin> set c \<longrightarrow> m' a = m a"
      using chain_erase_multi_chain [of m c t "length us" tr d key] chain_okD(1) [OF ok] dist css(4) s by auto
    let ?t = "write_head t (length us) (head_of (filter (\<lambda>n. \<not> ?P n) c))"
    let ?s1 = "(m', ?t\<lparr>ht_size := ht_size ?t - int (length (filter ?P c))\<rparr>)"
    have "table_rel tr ?s1 (us @ filter (\<lambda>n. \<not> ?P n) c # vs)"
      by (rule table_rel_shrink [OF rel m'(2)])
         (use dist m'(3,4) sum_length_filter_compl [of ?P c] in \<open>auto simp: write_head_def\<close>)
    then have "table_holds tr ?s1 (N - matching tr s key N)" using rest by (rule table_holdsI)
    moreover have "hash_erase_key tr d s key = Some (Inr (int (length (filter ?P c)), ?s1, deleted_log d (filter ?P c)))"
      using True css(3) m'(1) by (simp add: hash_erase_key_def s)
    ultimately show ?thesis using card dist m'(3) M s by auto
  next
    case False
    show ?thesis
    proof (cases "\<exists>n\<in>set c. ?P n")
      case none: False
      then have "chain_extract tr (m, t) (length us) key 0 (head_of c) = Some (0, (m, t))"
        using chain_extract_none [of m "head_of c" c tr key t "length us" 0] chain_okD(1) [OF ok] by simp
      then have "hash_erase_key tr d s key = Some (Inr (0, s, []))"
        using False css(3) by (simp add: hash_erase_key_def s)
      moreover have "matching tr s key N = {}" unfolding M using none by simp
      ultimately show ?thesis using holds by auto
    next
      case True
      then obtain as n bs where c: "c = as @ n # bs" "?P n" "\<forall>a\<in>set as. \<not> ?P a"
        using split_list_first_prop [OF True] by blast
      have "\<not> ?P a" if "a \<in> set bs" for a
      proof -
        have "a \<noteq> n" "a \<in> set c" "n \<in> set c" using that dist c(1) by auto
        from chain_okD(4) [OF ok False this(2,3,1)]
        have ne: "\<not> tr_equal tr (hash_key (m a)) (hash_key (m n))" by simp
        show ?thesis
        proof
          assume "?P a"
          then have "tr_equal tr (hash_key (m a)) key" "tr_equal tr key (hash_key (m n))"
            using c(2) key_hash.equiv_sym [OF hash_keys.axioms [OF keys]] by (simp_all add: hxhash_equal_iff)
          from key_hash.equiv_trans [OF hash_keys.axioms [OF keys] this] ne show False by contradiction
        qed
      qed
      then have only: "filter ?P c = [n]" "filter (\<lambda>n. \<not> ?P n) c = as @ bs"
        using c by (auto simp: filter_empty_conv filter_id_conv)
      have ex: "chain_extract tr (m, t) (length us) key 0 (head_of c) = Some (n, set_link (m, t) (length us) (prev_of as) (head_of bs))"
        using chain_extract_chain [of m "head_of c" as n bs tr key t "length us" "[]"] chain_okD(1) [OF ok] c by simp
      obtain m' t' where m': "set_link (m, t) (length us) (prev_of as) (head_of bs) = (m', t')"
        "table_rel tr (m', t'\<lparr>ht_size := ht_size t' - 1\<rparr>) (us @ (as @ bs) # vs)" "\<forall>a. same_node m m' a"
        using unlink_rel [of tr m t us as n bs vs] rel c(1) by blast
      obtain m1 log where del: "run_hash_deleter d n (m', []) = (m1, log)" by force
      have n: "n \<notin> set (concat (us @ (as @ bs) # vs))" "n \<noteq> 0"
        using table_relD(3) [OF rel] c(1) chain_ok_nonnull [OF ok] by auto
      note del_facts = run_hash_deleter_rel [OF m'(2) n(1) del]
      let ?s1 = "(m1, t'\<lparr>ht_size := ht_size t' - 1\<rparr>)"
      have "hash_erase_key tr d s key = Some (Inr (1, ?s1, log))"
        using False css(3) ex m'(1) n(2) del by (simp add: hash_erase_key_def s)
      moreover have "table_holds tr ?s1 (N - matching tr s key N)"
        using del_facts(1) rest unfolding only by (rule table_holdsI)
      moreover have "same_node (fst s) m1 a" if "a \<in> N - matching tr s key N" for a
        using that del_facts(3) [of a] m'(3) M only s by (auto simp: same_node_def)
      ultimately show ?thesis using card M del_facts(2) unfolding only by (intro exI [of _ 1] exI [of _ ?s1] exI [of _ log]) auto
    qed
  qed
qed

section \<open>Iterating\<close>

text \<open>An iterator with the nodes \<open>xs\<close> behind it and \<open>ys\<close> ahead.\<close>

definition iter_at :: "'k hash_state \<Rightarrow> hash_addr list list \<Rightarrow> hash_iterator \<Rightarrow> hash_addr list \<Rightarrow> hash_addr list \<Rightarrow> bool" where
  "iter_at s css it xs ys \<longleftrightarrow> concat css = xs @ ys \<and> hi_bucket_end it = length css \<and> hi_current it = head_of ys \<and>
     (ys \<noteq> [] \<longrightarrow> hi_next_bucket it = bucket_index (snd s) (hash_val (fst s (hd ys))) + 1)"

lemma read_head_rel:
  assumes "table_rel tr s (us @ c # vs)"
  shows "read_head (snd s) (length us) = Inr (head_of c)"
  using table_relD(2) [OF assms] by (simp add: read_head_def slot_simps nth_append)

lemma next_bucket_loop_rel:
  "table_rel tr s (us @ vs) \<Longrightarrow> hi_current it = 0 \<Longrightarrow> hi_bucket_end it = length (us @ vs) \<Longrightarrow>
   \<exists>it'. next_bucket_loop (snd s) it [length us..<length us + length vs] = Inr it' \<and> iter_at s (us @ vs) it' (concat us) (concat vs)"
proof (induction vs arbitrary: us)
  case Nil
  then show ?case by (simp add: iter_at_def)
next
  case (Cons c vs)
  have upt: "[length us..<length us + length (c # vs)] = length us # [length (us @ [c])..<length (us @ [c]) + length vs]"
    by (subst upt_conv_Cons) simp_all
  note read = read_head_rel [OF Cons.prems(1)]
  note ok = table_relD(5) [OF Cons.prems(1) refl]
  show ?case
  proof (cases c)
    case Nil
    then show ?thesis using Cons.IH [of "us @ [c]"] Cons.prems read unfolding upt by simp
  next
    case (Cons n bs)
    have "n \<noteq> 0" using chain_ok_nonnull [OF ok] Cons by auto
    moreover have "bucket_index (snd s) (hash_val (fst s n)) = length us" using chain_okD(3) [OF ok] Cons by simp
    ultimately show ?thesis using Cons.prems read Cons unfolding upt by (simp add: iter_at_def)
  qed
qed

lemma next_bucket_rel:
  assumes "table_rel tr s (us @ vs)" and "hi_current it = 0" and "hi_next_bucket it = length us" and "hi_bucket_end it = length (us @ vs)"
  shows "\<exists>it'. next_bucket (snd s) it = Inr it' \<and> iter_at s (us @ vs) it' (concat us) (concat vs)"
  using next_bucket_loop_rel [OF assms(1,2,4)] assms(2,3,4) by (simp add: next_bucket_def)

lemma table_capacity: "table_rel tr s css \<Longrightarrow> nat (al_capacity (ht_table (snd s))) = length css"
  by (auto simp: table_rel_def table_shape_def nat_power_eq)

lemma hash_begin_rel:
  assumes "table_rel tr s css"
  shows "\<exists>it. hash_begin s = Inr it \<and> iter_at s css it [] (concat css)"
  using next_bucket_rel [of tr s "[]" css "\<lparr>hi_next_bucket = 0, hi_bucket_end = length css, hi_current = 0\<rparr>"] assms
  by (simp add: hash_begin_def table_capacity)

text \<open>Where a node of the table is.\<close>

lemma node_position:
  assumes rel: "table_rel tr s css" and "concat css = xs @ n # ys"
  obtains us as bs vs where "css = us @ (as @ n # bs) # vs" and "xs = concat us @ as" and "ys = bs @ concat vs"
    and "bucket_index (snd s) (hash_val (fst s n)) = length us" and "n \<noteq> 0"
proof -
  have "n \<in> set (concat css)" using assms(2) by (metis in_set_conv_decomp)
  then obtain c where "c \<in> set css" "n \<in> set c" by auto
  then obtain us vs as bs where css: "css = us @ (as @ n # bs) # vs" by (metis split_list)
  note ok = table_relD(5) [OF rel css]
  have "distinct (xs @ n # ys)" using table_relD(3) [OF rel] assms(2) by simp
  then have "n \<notin> set xs" "n \<notin> set ys" by auto
  moreover have "xs @ n # ys = (concat us @ as) @ n # (bs @ concat vs)" using css assms(2) by simp
  ultimately have "xs = concat us @ as \<and> ys = bs @ concat vs"
    using append_Cons_eq_iff [of n xs ys "concat us @ as" "bs @ concat vs"] by simp
  then show thesis using that css chain_okD(3) [OF ok, of n] chain_ok_nonnull [OF ok] by auto
qed

lemma hash_iterator_at_iter:
  assumes rel: "table_rel tr s css" and "concat css = xs @ n # ys"
  shows "\<exists>it. hash_iterator_at s n = Inr it \<and> iter_at s css it xs (n # ys)"
proof -
  obtain us as bs vs where pos: "css = us @ (as @ n # bs) # vs" "bucket_index (snd s) (hash_val (fst s n)) = length us"
    by (rule node_position [OF assms])
  show ?thesis using hash_iterator_at_rel [OF rel pos(1)] pos(2) assms(2) by (simp add: iter_at_def)
qed

lemma hash_iterator_next_rel:
  assumes rel: "table_rel tr s css" and it: "iter_at s css it xs (n # ys)"
  shows "\<exists>it'. hash_iterator_next s it = Inr it' \<and> iter_at s css it' (xs @ [n]) ys"
proof -
  have conc: "concat css = xs @ n # ys" using it by (simp add: iter_at_def)
  obtain us as bs vs where pos: "css = us @ (as @ n # bs) # vs" "xs = concat us @ as" "ys = bs @ concat vs"
    "bucket_index (snd s) (hash_val (fst s n)) = length us" "n \<noteq> 0"
    by (rule node_position [OF rel conc])
  note ok = table_relD(5) [OF rel pos(1)]
  have nxt: "hash_next (fst s n) = head_of bs" using chain_suffix [OF chain_okD(1) [OF ok]] by simp
  have cur: "hi_current it = n" "hi_bucket_end it = length css" "hi_next_bucket it = length us + 1"
    using it pos(4) by (simp_all add: iter_at_def)
  show ?thesis
  proof (cases bs)
    case Nil
    let ?it = "it\<lparr>hi_current := 0\<rparr>"
    have "table_rel tr s ((us @ [as @ [n]]) @ vs)" using rel pos(1) Nil by simp
    from next_bucket_rel [OF this, of ?it] obtain it' where
      "next_bucket (snd s) ?it = Inr it'" "iter_at s ((us @ [as @ [n]]) @ vs) it' (concat (us @ [as @ [n]])) (concat vs)"
      using cur pos(1) Nil by auto
    then show ?thesis using cur nxt Nil pos by (simp add: hash_iterator_next_def)
  next
    case (Cons b bs')
    then have "b \<noteq> 0" "bucket_index (snd s) (hash_val (fst s b)) = length us"
      using chain_ok_nonnull [OF ok] chain_okD(3) [OF ok, of b] by auto
    then show ?thesis using cur nxt Cons pos conc by (simp add: hash_iterator_next_def iter_at_def)
  qed
qed

text \<open>The range-based loop over a table: the nodes dereferenced from \<open>begin\<close> to \<open>end\<close>.\<close>

partial_function (option) hash_visit :: "'k hash_state \<Rightarrow> hash_iterator \<Rightarrow> hash_addr list \<Rightarrow> hash_addr list run" where
  "hash_visit s it visited =
     (if \<not> hash_iterator_eq it hash_end
      then run_bind (Some (hash_iterator_deref it)) (\<lambda>n. run_bind (Some (hash_iterator_next s it)) (\<lambda>it'. hash_visit s it' (visited @ [n])))
      else Some (Inr visited))"

lemma hash_visit_rel:
  assumes rel: "table_rel tr s css"
  shows "iter_at s css it xs ys \<Longrightarrow> hash_visit s it visited = Some (Inr (visited @ ys))"
proof (induction ys arbitrary: it xs visited)
  case Nil
  then show ?case by (subst hash_visit.simps) (simp add: iter_at_def hash_iterator_eq_def hash_end_def)
next
  case (Cons n ys)
  have conc: "concat css = xs @ n # ys" using Cons.prems by (simp add: iter_at_def)
  have n: "hi_current it = n" "n \<noteq> 0"
    using Cons.prems by (auto simp: iter_at_def intro: node_position [OF rel conc])
  obtain it' where "hash_iterator_next s it = Inr it'" "iter_at s css it' (xs @ [n]) ys"
    using hash_iterator_next_rel [OF rel Cons.prems] by auto
  then show ?case
    using n Cons.IH [of it' "xs @ [n]" "visited @ [n]"]
    by (subst hash_visit.simps) (simp add: hash_iterator_eq_def hash_end_def hash_iterator_deref_def)
qed

section \<open>Removing the node of an iterator\<close>

lemma hash_unlink_rel:
  assumes rel: "table_rel tr s css" and conc: "concat css = xs @ n # ys"
  shows "\<exists>s1 css1. hash_unlink s n = Some (Inr s1) \<and> table_rel tr s1 css1 \<and> concat css1 = xs @ ys \<and> length css1 = length css \<and>
    (\<forall>a. same_node (fst s) (fst s1) a) \<and> ht_shift (snd s1) = ht_shift (snd s)"
proof -
  obtain m t where s: "s = (m, t)" by force
  obtain us as bs vs where pos: "css = us @ (as @ n # bs) # vs" "xs = concat us @ as" "ys = bs @ concat vs"
    "bucket_index (snd s) (hash_val (fst s n)) = length us" "n \<noteq> 0"
    by (rule node_position [OF rel conc])
  note ok = table_relD(5) [OF rel pos(1)]
  have bucket: "bucket_of t (hash_val (m n)) = Inr (length us, head_of (as @ n # bs))"
    using pos read_head_rel [of tr s us "as @ n # bs" vs] rel get_bucket_head_shape [OF table_relD(1) [OF rel]] s
    by (simp add: bucket_of_def)
  have "n \<notin> set as" using table_relD(3) [OF rel] pos(1) by auto
  then have er: "chain_erase_at (m, t) (length us) n 0 (head_of (as @ n # bs)) = Some (Inr (set_link (m, t) (length us) (prev_of as) (head_of bs)))"
    using chain_erase_at_chain [of m "head_of (as @ n # bs)" as n bs t "length us" "[]"] chain_okD(1) [OF ok] s by simp
  obtain m' t' where m': "set_link (m, t) (length us) (prev_of as) (head_of bs) = (m', t')"
    "table_rel tr (m', t'\<lparr>ht_size := ht_size t' - 1\<rparr>) (us @ (as @ bs) # vs)" "\<forall>a. same_node m m' a"
    using unlink_rel [of tr m t us as n bs vs] rel pos(1) s by blast
  have "ht_shift t' = ht_shift t" using m'(1) by (auto simp: set_link_def write_head_def split: if_splits)
  moreover have "hash_unlink s n = Some (Inr (m', t'\<lparr>ht_size := ht_size t' - 1\<rparr>))"
    using bucket er m'(1) by (simp add: hash_unlink_def s)
  ultimately show ?thesis using m'(2,3) pos s by (intro exI [of _ "(m', t'\<lparr>ht_size := ht_size t' - 1\<rparr>)"] exI [of _ "us @ (as @ bs) # vs"]) auto
qed

text \<open>Erasing at an iterator returns an iterator to the node that followed, in the table that is left.\<close>

lemma hash_erase_it_rel:
  assumes rel: "table_rel tr s css" and it: "iter_at s css it xs (n # ys)"
  shows "\<exists>nxt s1 css1. hash_erase_it d s it = Some (Inr (nxt, s1, deleted_log d [n])) \<and> table_rel tr s1 css1 \<and>
    iter_at s1 css1 nxt xs ys \<and> (\<forall>a. a \<noteq> n \<longrightarrow> same_node (fst s) (fst s1) a)"
proof -
  have conc: "concat css = xs @ n # ys" and cur: "hi_current it = n" using it by (simp_all add: iter_at_def)
  have n0: "n \<noteq> 0" by (rule node_position [OF rel conc])
  obtain it0 where it0: "hash_iterator_at s n = Inr it0" "iter_at s css it0 xs (n # ys)"
    using hash_iterator_at_iter [OF rel conc] by auto
  obtain nxt where nxt: "hash_iterator_next s it0 = Inr nxt" "iter_at s css nxt (xs @ [n]) ys"
    using hash_iterator_next_rel [OF rel it0(2)] by auto
  obtain m1 t1 css1 where un: "hash_unlink s n = Some (Inr (m1, t1))" "table_rel tr (m1, t1) css1" "concat css1 = xs @ ys"
    "length css1 = length css" "\<forall>a. same_node (fst s) m1 a" "ht_shift t1 = ht_shift (snd s)"
    using hash_unlink_rel [OF rel conc] by auto
  have fresh: "n \<notin> set (xs @ ys)" using table_relD(3) [OF rel] conc by auto
  obtain m2 log where del: "run_hash_deleter d n (m1, []) = (m2, log)" by force
  note facts = run_hash_deleter_rel [OF un(2) _ del]
  have rel2: "table_rel tr (m2, t1) css1" "log = deleted_log d [n]" "\<And>a. a \<noteq> n \<Longrightarrow> m2 a = m1 a"
    using facts fresh unfolding un(3) by blast+
  have "iter_at (m2, t1) css1 nxt xs ys"
  proof -
    have "hash_val (m2 (hd ys)) = hash_val (fst s (hd ys))" if "ys \<noteq> []"
    proof -
      have "hd ys \<noteq> n" using that fresh hd_in_set [of ys] by auto
      then show ?thesis using rel2(3) [of "hd ys"] un(5) by (simp add: same_node_def)
    qed
    then show ?thesis using nxt(2) un by (simp add: iter_at_def bucket_index_def)
  qed
  moreover have "hash_erase_it d s it = Some (Inr (nxt, (m2, t1), log))"
    using cur n0 it0(1) nxt(1) un(1) del by (simp add: hash_erase_it_def Let_def)
  moreover have "\<forall>a. a \<noteq> n \<longrightarrow> same_node (fst s) m2 a" using un(5) rel2(3) by (simp add: same_node_def)
  ultimately show ?thesis using rel2 by auto
qed

section \<open>Clearing\<close>

lemma zero_table_rel:
  assumes "table_rel tr s css" and "ht_size t' = 0" and "ht_shift t' = ht_shift (snd s)"
    and "al_capacity (ht_table t') = al_capacity (ht_table (snd s))" and "al_data (ht_table t') = replicate (length css) (Some 0)"
  shows "table_rel tr (m', t') (replicate (length css) [])"
  using table_relD(1) [OF assms(1)] assms(2-)
  by (auto simp: table_rel_def table_shape_def chain_ok_def)

lemma hash_release_all_rel: "table_rel tr s css \<Longrightarrow> table_holds tr (hash_release_all s) {}"
proof (cases "ht_size (snd s) = 0")
  case True
  assume "table_rel tr s css"
  with True show ?thesis
    using table_relD(4) [of tr s css] by (auto simp: hash_release_all_def table_holds_def)
next
  case False
  assume rel: "table_rel tr s css"
  let ?t = "(snd s)\<lparr>ht_table := zero_table (ht_table (snd s)), ht_size := 0\<rparr>"
  have "table_rel tr (fst s, ?t) (replicate (length css) [])"
    using table_relD(2) [OF rel] by (intro zero_table_rel [OF rel]) (simp_all add: zero_table_def)
  then show ?thesis using False by (auto simp: hash_release_all_def table_holds_def)
qed

lemma table_clear_chains:
  "(\<forall>c\<in>set css. chain (fst w) (head_of c) c) \<Longrightarrow> distinct (concat css) \<Longrightarrow>
   \<exists>m'. table_clear d (map (\<lambda>c. Some (head_of c)) css) w =
     Some (Inr (replicate (length css) (Some 0), m', snd w @ deleted_log d (concat css)))"
proof (induction css arbitrary: w)
  case (Cons c css)
  obtain m1 where m1: "delete_chain d (head_of c) w = Some (m1, snd w @ deleted_log d c)" "\<forall>a. a \<notin> set c \<longrightarrow> m1 a = fst w a"
    using delete_chain_chain [of w c d] Cons.prems by auto
  have "\<forall>c'\<in>set css. chain m1 (head_of c') c'"
  proof
    fix c' assume c': "c' \<in> set css"
    then have "set c' \<inter> set c = {}" using Cons.prems(2) by auto
    then show "chain m1 (head_of c') c'" using Cons.prems(1) c' m1(2) by (auto intro: chain_frame [of "fst w"])
  qed
  then show ?case using Cons.IH [of "(m1, snd w @ deleted_log d c)"] Cons.prems(2) m1(1) by auto
qed (auto intro: prod.collapse [symmetric])

lemma hash_clear_holds:
  assumes rel: "table_rel tr s css"
  shows "\<exists>s1. hash_clear d s = Some (Inr (s1, deleted_log d (concat css))) \<and> table_holds tr s1 {}"
proof (cases "ht_size (snd s) = 0 \<or> d = None")
  case True
  have empty: "concat css = []" if "ht_size (snd s) = 0" using that table_relD(4) [OF rel] by simp
  show ?thesis
  proof (cases "ht_size (snd s) = 0")
    case True
    have "table_holds tr s {}" by (rule table_holdsI [OF rel]) (simp only: empty [OF True] list.set)
    then show ?thesis using True by (intro exI [of _ s]) (simp add: hash_clear_def empty [OF True] del: concat_eq_Nil_conv)
  next
    case False
    then show ?thesis using True hash_release_all_rel [OF rel]
      by (intro exI [of _ "hash_release_all s"]) (simp add: hash_clear_def)
  qed
next
  case False
  have "chain (fst s) (head_of c) c" if c: "c \<in> set css" for c
    using chain_okD(1) [OF table_relD(5) [OF rel]] split_list [OF c] by blast
  then obtain m' where "table_clear d (al_data (ht_table (snd s))) (fst s, []) =
      Some (Inr (replicate (length css) (Some 0), m', deleted_log d (concat css)))"
    using table_clear_chains [of css "(fst s, [])" d] table_relD(2,3) [OF rel] by auto
  moreover have "table_rel tr (m', (snd s)\<lparr>ht_table := (ht_table (snd s))\<lparr>al_data := replicate (length css) (Some 0)\<rparr>, ht_size := 0\<rparr>)
      (replicate (length css) [])"
    by (rule zero_table_rel [OF rel]) simp_all
  ultimately show ?thesis using False by (auto simp: hash_clear_def table_holds_def)
qed

section \<open>Replacing and counting\<close>

lemma hash_replace_holds:
  assumes keys: "hash_keys tr" and holds: "table_holds tr s N" and ptr: "ptr \<noteq> 0" "ptr \<notin> N"
    and val: "hash_val (fst s ptr) = tr_hash tr (hash_key (fst s ptr))"
  shows "\<exists>r s1. hash_replace tr s ptr = Some (Inr (r, s1)) \<and> table_holds tr s1 (insert ptr (N - {r})) \<and>
    (if \<exists>n\<in>N. hxhash_equal tr (fst s n) (hash_key (fst s ptr)) then r \<in> N \<and> hxhash_equal tr (fst s r) (hash_key (fst s ptr)) else r = 0) \<and>
    (\<forall>a. same_node (fst s) (fst s1) a)"
proof -
  obtain css where rel0: "table_rel tr s css" and N0: "set (concat css) = N" by (rule table_holdsE [OF holds])
  obtain us c vs where css: "css = us @ c # vs" "length us = bucket_index (snd s) (hash_val (fst s ptr))"
    "bucket_of (snd s) (hash_val (fst s ptr)) = Inr (length us, head_of c)" "al_data (ht_table (snd s)) ! length us = Some (head_of c)"
    by (rule bucket_of_rel [OF rel0]) blast
  obtain m t where s: "s = (m, t)" by force
  note rel = rel0 [unfolded css(1) s] and N = N0 [unfolded css(1)]
  have ok: "chain_ok tr (m, t) (length us) c" using table_relD(5) [OF rel] by simp
  let ?key = "hash_key (m ptr)" and ?P = "\<lambda>n. hxhash_equal tr (m n) (hash_key (m ptr))"
  have in_bucket: "(\<exists>n\<in>N. ?P n) \<longleftrightarrow> (\<exists>n\<in>set c. ?P n)"
    using equal_in_bucket [OF keys rel0 css(1), of ?key] css(2) val N0 chain_in_table [OF css(1)] s by auto
  note eq_sym = key_hash.equiv_sym [OF hash_keys.axioms [OF keys]]
  note eq_trans = key_hash.equiv_trans [OF hash_keys.axioms [OF keys]]
  show ?thesis
  proof (cases "\<exists>n\<in>set c. ?P n")
    case False
    let ?s1 = "hash_link s (length us) ptr (head_of c)"
    have "chain_replace tr s (length us) ptr ?key 0 (head_of c) (head_of c) =
        Some (0, (set_next m ptr (head_of c), write_head t (length us) ptr))"
      using chain_replace_none [OF chain_okD(1) [OF ok], of tr ?key] False by (simp add: s)
    then have "hash_replace tr s ptr = Some (Inr (0, ?s1))"
      using ptr css(3) s by (simp add: hash_replace_def hash_link_def Let_def)
    moreover have "table_rel tr ?s1 (us @ (ptr # c) # vs)"
      using rel0 css(1,2) ptr N0 val False eq_sym s by (intro hash_link_rel) (auto simp: hxhash_equal_iff)
    then have "table_holds tr ?s1 (insert ptr (N - {0}))"
      by (rule table_holdsI) (use N table_nonnull [OF rel] in auto)
    ultimately show ?thesis using False in_bucket s by (intro exI [of _ 0] exI [of _ ?s1]) (auto simp: hash_link_def Let_def)
  next
    case True
    then obtain as n bs where c: "c = as @ n # bs" "?P n" "\<forall>a\<in>set as. \<not> ?P a"
      using split_list_first_prop [OF True] by blast
    let ?m1 = "set_next m ptr (head_of bs)"
    have fresh: "ptr \<notin> set (concat (us @ c # vs))" using ptr N by auto
    have m1: "?m1 a = m a" if "a \<noteq> ptr" for a using that by (rule set_next_apply(1))
    have kv: "hash_key (?m1 a) = hash_key (m a)" "hash_val (?m1 a) = hash_val (m a)" for a
      using same_node_set_next [of m ptr "head_of bs" a] by (auto simp: same_node_def)
    have dist: "distinct (as @ n # bs)" using table_relD(3) [OF rel] c(1) by auto
    have ch: "chain m (head_of c) c" using chain_okD(1) [OF ok] by simp
    have "chain m (head_of bs) bs" using chain_suffix [of m "head_of c" as n bs] ch c(1) by simp
    then have bs: "chain ?m1 (head_of bs) bs" using fresh c(1) by (auto intro!: chain_frame [of m] m1)
    have ch1: "chain ?m1 (head_of (as @ n # bs)) (as @ n # bs)"
    proof (rule chain_frame)
      show "chain m (head_of (as @ n # bs)) (as @ n # bs)" using ch c(1) by simp
      show "?m1 a = m a" if "a \<in> set (as @ n # bs)" for a
      proof (rule m1)
        show "a \<noteq> ptr" using that fresh c(1) by auto
      qed
    qed
    have new: "chain ?m1 (head_of (ptr # bs)) (ptr # bs)" using bs ptr by (simp add: set_next_apply)
    obtain m' where m': "set_link (?m1, t) (length us) (prev_of as) ptr = (m', write_head t (length us) (head_of (as @ ptr # bs)))"
      "chain m' (head_of (as @ ptr # bs)) (as @ ptr # bs)" "\<forall>a. a \<notin> set as \<longrightarrow> m' a = ?m1 a" "\<forall>a. same_node ?m1 m' a"
    proof -
      have "distinct as" "set as \<inter> set (ptr # bs) = {}" "al_data (ht_table t) ! length us = Some (head_of (as @ n # bs))"
        using dist fresh css(4) c(1) s by auto
      from set_link_chain [OF ch1 this(1,2) new this(3)] show thesis using that by auto
    qed
    have same: "hash_key (m' a) = hash_key (m a)" "hash_val (m' a) = hash_val (m a)" for a
      using m'(4) kv by (auto simp: same_node_def)
    let ?s1 = "(m', write_head t (length us) (head_of (as @ ptr # bs)))"
    have ok': "chain_ok tr (m', t) (length us) (as @ ptr # bs)"
    proof -
      have old: "x \<in> set c \<and> x \<noteq> n" if "x \<in> set as \<union> set bs" for x using that c(1) dist by auto
      have other: "\<not> tr_equal tr (hash_key (m x)) ?key \<and> \<not> tr_equal tr ?key (hash_key (m x))"
        if "\<not> trait_multi tr" "x \<in> set as \<union> set bs" for x
      proof -
        have "\<not> tr_equal tr (hash_key (m x)) (hash_key (m n))"
        proof -
          have "x \<in> set c" "n \<in> set c" "x \<noteq> n" using old [OF that(2)] c(1) by auto
          from chain_okD(4) [OF ok that(1) this] show ?thesis by simp
        qed
        then show ?thesis using c(2) eq_sym eq_trans unfolding hxhash_equal_iff by blast
      qed
      show ?thesis
        unfolding chain_ok_def fst_conv snd_conv same
        using m'(2) chain_okD(2,3,4) [OF ok] old other val css(2) s by auto
    qed
    have "table_rel tr ?s1 (us @ (as @ ptr # bs) # vs)"
    proof (rule table_rel_update [OF rel ok'])
      show "distinct (as @ ptr # bs)" "set (as @ ptr # bs) \<inter> (set (concat us) \<union> set (concat vs)) = {}"
        using table_relD(3) [OF rel] fresh c(1) by auto
      show "m' a = m a" if "a \<in> set (concat us) \<union> set (concat vs)" for a
      proof -
        have "a \<noteq> ptr" "a \<notin> set as" using that fresh table_relD(3) [OF rel] c(1) by auto
        then show ?thesis using m'(3) m1 by simp
      qed
    qed (use table_relD(4) [OF rel] c(1) in \<open>simp_all add: write_head_def\<close>)
    moreover have "set (concat (us @ (as @ ptr # bs) # vs)) = insert ptr (N - {n})"
      using N c(1) table_relD(3) [OF rel] by auto
    ultimately have "table_holds tr ?s1 (insert ptr (N - {n}))" by (rule table_holdsI)
    moreover have "hash_replace tr s ptr = Some (Inr (n, ?s1))"
    proof -
      have "chain_replace tr s (length us) ptr ?key 0 (head_of c) (head_of c) = Some (n, ?s1)"
        using chain_replace_chain [of m "head_of c" as n bs tr ?key t "length us" ptr "[]" "head_of c"] ch c m'(1) s by simp
      moreover have "n \<noteq> 0" using chain_ok_nonnull [OF ok] c(1) by auto
      ultimately show ?thesis using ptr css(3) s by (simp add: hash_replace_def write_head_def)
    qed
    moreover have "n \<in> N" using N c(1) by auto
    ultimately show ?thesis using True in_bucket c(2) same s by (intro exI [of _ n] exI [of _ ?s1]) (auto simp: same_node_def)
  qed
qed

lemma hash_count_holds:
  assumes keys: "hash_keys tr" and holds: "table_holds tr s N"
  shows "hash_count tr s key = Some (Inr (int (card (matching tr s key N))))"
proof -
  obtain css where rel: "table_rel tr s css" and N: "set (concat css) = N" by (rule table_holdsE [OF holds])
  obtain us c vs where css: "css = us @ c # vs" "length us = bucket_index (snd s) (tr_hash tr key)"
    "bucket_of (snd s) (tr_hash tr key) = Inr (length us, head_of c)"
    by (rule bucket_of_rel [OF rel]) blast
  note ok = table_relD(5) [OF rel css(1)]
  let ?P = "\<lambda>n. hxhash_equal tr (fst s n) key"
  have dist: "distinct c" using table_relD(3) [OF rel] css(1) by simp
  have "matching tr s key N = set (filter ?P c)"
    using equal_in_bucket [OF keys rel css(1,2)] chain_in_table [OF css(1)] N by (auto simp: matching_def)
  then have card: "card (matching tr s key N) = length (filter ?P c)" using dist by (simp add: distinct_card del: set_filter)
  show ?thesis
  proof (cases "trait_multi tr")
    case True
    then show ?thesis using chain_count_chain [OF chain_okD(1) [OF ok], of tr key 0] css(3) card by (simp add: hash_count_def)
  next
    case False
    have "length (filter ?P c) = (if first_match tr (fst s) key c \<noteq> 0 then 1 else 0)"
    proof (cases "filter ?P c")
      case Nil
      then show ?thesis by (simp add: first_match_def)
    next
      case (Cons n ns)
      have "n \<in> set (filter ?P c)" using Cons by simp
      then have n: "n \<in> set c" "?P n" by auto
      have "ns = []"
      proof (rule ccontr)
        assume "ns \<noteq> []"
        then obtain x where x: "x \<in> set ns" by (cases ns) auto
        then have "x \<in> set (filter ?P c)" "x \<noteq> n" using Cons distinct_filter [OF dist, of ?P] by auto
        then have "\<not> tr_equal tr (hash_key (fst s x)) (hash_key (fst s n))"
          using chain_okD(4) [OF ok False, of x n] n by simp
        moreover have "tr_equal tr (hash_key (fst s x)) key" "tr_equal tr key (hash_key (fst s n))"
          using \<open>x \<in> set (filter ?P c)\<close> n(2) key_hash.equiv_sym [OF hash_keys.axioms [OF keys]] by (auto simp: hxhash_equal_iff)
        ultimately show False using key_hash.equiv_trans [OF hash_keys.axioms [OF keys]] by blast
      qed
      moreover have "n \<noteq> 0" using n(1) chain_ok_nonnull [OF ok] by auto
      ultimately show ?thesis using Cons by (simp add: first_match_def)
    qed
    then show ?thesis using False chain_find_chain [OF chain_okD(1) [OF ok], of tr key] css(3) card by (simp add: hash_count_def)
  qed
qed

lemma hxhash_table_new_rel:
  assumes "0 < bits" and "bits < 32"
  shows "table_rel tr (m, hxhash_table_new bits) (replicate (2 ^ bits) [])"
proof -
  have "(2 :: int) ^ bits \<noteq> 0" "nat (2 ^ bits) = (2 :: nat) ^ bits" by (simp_all add: nat_power_eq)
  then show ?thesis
    using assms by (auto simp: table_rel_def table_shape_def hxhash_table_new_def zero_table_def hxallocator_new_def
        element_count_def hxallocator_dynamic_capacity_def hxhash_bits_def chain_ok_def)
qed

lemma num_traits_simps:
  "hxhash_equal (num_traits multi three_way) n key \<longleftrightarrow> hash_key n = key"
  "trait_multi (num_traits multi three_way) = multi"
  "tr_hash (num_traits multi three_way) = hxkey_hash_num"
  by (simp_all add: hxhash_equal_iff tr_equal_num hxkey_equal_num_def) (simp_all add: num_traits_def)

text \<open>A node whose key is its address, and a table of two buckets, for the witnesses.\<close>

definition example_nodes :: "int nodes" where
  "example_nodes a = hash_node_new (num_traits False False) (uint a)"

lemma example_empty: "table_holds (num_traits False False) (example_nodes, hxhash_table_new 1) {}"
  by (rule table_holdsI [OF hxhash_table_new_rel]) simp_all

lemma example_node: "hash_key (example_nodes 8) = 8" "hash_val (example_nodes 8) = hxkey_hash_num 8"
  by (simp_all add: example_nodes_def hash_node_new_def num_traits_def)

lemma example_one: "\<exists>it s1. hash_insert (num_traits False False) None (example_nodes, hxhash_table_new 1) 8 = Some (Inr (it, s1, [])) \<and>
    hi_current it = 8 \<and> table_holds (num_traits False False) s1 {8} \<and> hash_key (fst s1 8) = 8"
proof -
  obtain it s1 log where r: "hash_insert (num_traits False False) None (example_nodes, hxhash_table_new 1) 8 = Some (Inr (it, s1, log))"
    "hi_current it = 8 \<and> table_holds (num_traits False False) s1 {8} \<and> log = [] \<and> (\<forall>a. same_node example_nodes (fst s1) a)"
    using hash_insert_holds [OF num_keys.hash_keys_axioms example_empty, of 8 None]
    by (auto simp: num_traits_simps example_node)
  then show ?thesis by (auto simp: same_node_def example_node)
qed

section \<open>Properties\<close>

text \<open>C7: a lookup ends and finds a node with an equal key exactly when the table holds one, and count is the
  number of nodes with an equal key, for every key type whose hash respects its equality.\<close>

theorem hash_lookup_complete:
  assumes "hash_keys tr" and "table_holds tr s N"
  shows "(\<exists>it. hash_find tr s key hash_end = Some (Inr it) \<and>
      (if \<exists>n\<in>N. hxhash_equal tr (fst s n) key
       then hi_current it \<in> N \<and> hi_current it \<noteq> 0 \<and> hxhash_equal tr (fst s (hi_current it)) key
       else hi_current it = 0)) \<and>
    hash_has_value tr s key = Some (Inr (\<exists>n\<in>N. hxhash_equal tr (fst s n) key)) \<and>
    hash_count tr s key = Some (Inr (int (card {n \<in> N. hxhash_equal tr (fst s n) key})))"
proof -
  obtain css where rel: "table_rel tr s css" and N: "set (concat css) = N" by (rule table_holdsE [OF assms(2)])
  obtain it where it: "hash_find tr s key hash_end = Some (Inr it)"
    "if \<exists>n\<in>N. hxhash_equal tr (fst s n) key
     then hi_current it \<in> N \<and> hi_current it \<noteq> 0 \<and> hxhash_equal tr (fst s (hi_current it)) key else hi_current it = 0"
    using hash_find_rel [OF assms(1) rel, of key] unfolding N by blast
  then have "hash_has_value tr s key = Some (Inr (\<exists>n\<in>N. hxhash_equal tr (fst s n) key))"
    by (auto simp: hash_has_value_def hash_iterator_eq_def hash_end_def split: if_splits)
  then show ?thesis using it hash_count_holds [OF assms, of key] by (auto simp: matching_def)
qed

theorem hash_lookup_complete_witness:
  "\<exists>s it. table_holds (num_traits False False) s {8} \<and>
    hash_find (num_traits False False) s 8 hash_end = Some (Inr it) \<and> hi_current it = 8 \<and>
    hash_has_value (num_traits False False) s 9 = Some (Inr False)"
proof -
  obtain s1 where s1: "table_holds (num_traits False False) s1 {8}" "hash_key (fst s1 8) = 8"
    using example_one by blast
  show ?thesis
    using hash_lookup_complete [OF num_keys.hash_keys_axioms s1(1), of 8]
      hash_lookup_complete [OF num_keys.hash_keys_axioms s1(1), of 9] s1
    by (intro exI [of _ s1]) (auto simp: num_traits_simps)
qed

text \<open>C6: insert keeps the table well formed: it adds the node, unless equal keys are not allowed and there is
  one, and then it returns that node and deletes the argument once.\<close>

theorem hash_insert_refines:
  assumes "hash_keys tr" and "table_holds tr s N" and "ptr \<noteq> 0" and "ptr \<notin> N"
    and "hash_val (fst s ptr) = tr_hash tr (hash_key (fst s ptr))"
  shows "\<exists>it s1 log. hash_insert tr d s ptr = Some (Inr (it, s1, log)) \<and>
    (if \<not> trait_multi tr \<and> (\<exists>n\<in>N. hxhash_equal tr (fst s n) (hash_key (fst s ptr)))
     then hi_current it \<in> N \<and> hxhash_equal tr (fst s (hi_current it)) (hash_key (fst s ptr)) \<and>
          table_holds tr s1 N \<and> log = (if d = None then [] else [ptr]) \<and> (\<forall>a. a \<noteq> ptr \<longrightarrow> fst s1 a = fst s a)
     else hi_current it = ptr \<and> table_holds tr s1 (insert ptr N) \<and> log = [] \<and> (\<forall>a. same_node (fst s) (fst s1) a))"
  by (rule hash_insert_holds [OF assms])

theorem hash_insert_refines_witness:
  "\<exists>it s1. hash_insert (num_traits False False) None (example_nodes, hxhash_table_new 1) 8 = Some (Inr (it, s1, [])) \<and>
    hi_current it = 8 \<and> table_holds (num_traits False False) s1 {8}"
proof -
  obtain it s1 log where "hash_insert (num_traits False False) None (example_nodes, hxhash_table_new 1) 8 = Some (Inr (it, s1, log))"
    "hi_current it = 8 \<and> table_holds (num_traits False False) s1 {8} \<and> log = []"
    using hash_insert_refines [OF num_keys.hash_keys_axioms example_empty, of 8 None]
    by (auto simp: num_traits_simps example_node)
  then show ?thesis by auto
qed

text \<open>C8: erasing a key removes exactly the nodes with an equal key, in both kinds of table, deletes each of them
  once although deleting may destroy its link, returns their number and leaves the keys of the others alone.\<close>

theorem hash_erase_refines:
  assumes "hash_keys tr" and "table_holds tr s N"
  shows "\<exists>cnt s1 log. hash_erase_key tr d s key = Some (Inr (cnt, s1, log)) \<and> cnt = int (card (matching tr s key N)) \<and>
    table_holds tr s1 (N - matching tr s key N) \<and> distinct log \<and> set log = (if d = None then {} else matching tr s key N) \<and>
    (\<forall>a\<in>N - matching tr s key N. same_node (fst s) (fst s1) a)"
  by (rule hash_erase_key_holds [OF assms])

theorem hash_erase_refines_witness:
  "\<exists>s s1. table_holds (num_traits False False) s {8} \<and>
     hash_erase_key (num_traits False False) (Some (\<lambda>a m. m 0)) s 8 = Some (Inr (1, s1, [8])) \<and>
     table_holds (num_traits False False) s1 {}"
proof -
  obtain s where s: "table_holds (num_traits False False) s {8}" "hash_key (fst s 8) = 8" using example_one by blast
  have M: "matching (num_traits False False) s 8 {8} = {8}"
    using s(2) by (auto simp: matching_def num_traits_simps)
  obtain cnt s1 log where r: "hash_erase_key (num_traits False False) (Some (\<lambda>a m. m 0)) s 8 = Some (Inr (cnt, s1, log))"
    "cnt = 1" "table_holds (num_traits False False) s1 {}" "distinct log" "set log = {8}"
    using hash_erase_refines [OF num_keys.hash_keys_axioms s(1), of "Some (\<lambda>a m. m 0)" 8] unfolding M by auto
  have "length log = 1" using distinct_card [OF r(4)] r(5) by simp
  then have "log = [8]" using r(5) by (cases log) auto
  then show ?thesis using s(1) r by blast
qed

text \<open>Iterating from begin to end visits every node of the table exactly once, and erasing at an iterator
  deletes that node and returns an iterator from which exactly the nodes that followed are visited.\<close>

lemma hash_iteration_exact:
  assumes "table_rel tr s css"
  shows "(\<exists>it. hash_begin s = Inr it \<and> hash_visit s it [] = Some (Inr (concat css))) \<and>
    (iter_at s css it xs (n # ys) \<longrightarrow>
      (\<exists>nxt s1 css1. hash_erase_it d s it = Some (Inr (nxt, s1, if d = None then [] else [n])) \<and> table_rel tr s1 css1 \<and>
        concat css1 = xs @ ys \<and> hash_visit s1 nxt [] = Some (Inr ys)))"
proof (intro conjI impI)
  show "\<exists>it. hash_begin s = Inr it \<and> hash_visit s it [] = Some (Inr (concat css))"
    using hash_begin_rel [OF assms] hash_visit_rel [OF assms, of _ "[]" "concat css" "[]"] by auto
  assume "iter_at s css it xs (n # ys)"
  then obtain nxt s1 css1 where r: "hash_erase_it d s it = Some (Inr (nxt, s1, deleted_log d [n]))" "table_rel tr s1 css1"
    "iter_at s1 css1 nxt xs ys"
    using hash_erase_it_rel [OF assms, of it xs n ys d] by blast
  then show "\<exists>nxt s1 css1. hash_erase_it d s it = Some (Inr (nxt, s1, if d = None then [] else [n])) \<and> table_rel tr s1 css1 \<and>
        concat css1 = xs @ ys \<and> hash_visit s1 nxt [] = Some (Inr ys)"
    using hash_visit_rel [OF r(2,3), of "[]"] by (auto simp: iter_at_def)
qed

lemma hash_iteration_exact_witness:
  "\<exists>it s1 css it1. hash_insert (num_traits False False) None (example_nodes, hxhash_table_new 1) 8 = Some (Inr (it, s1, [])) \<and>
    table_rel (num_traits False False) s1 css \<and> hash_begin s1 = Inr it1 \<and> hash_visit s1 it1 [] = Some (Inr (concat css))"
proof -
  obtain it s1 where s1: "hash_insert (num_traits False False) None (example_nodes, hxhash_table_new 1) 8 = Some (Inr (it, s1, []))"
    "table_holds (num_traits False False) s1 {8}"
    using example_one by blast
  obtain css where "table_rel (num_traits False False) s1 css" by (rule table_holdsE [OF s1(2)])
  then show ?thesis using s1(1) hash_iteration_exact [of "num_traits False False" s1 css] by blast
qed

text \<open>Replace puts the node in the place of one node with an equal key and returns that one, or inserts it
  when there is none; clear empties the table and deletes each node once.\<close>

lemma hash_replace_clear:
  assumes "hash_keys tr" and "table_holds tr s N" and "ptr \<noteq> 0" and "ptr \<notin> N"
    and "hash_val (fst s ptr) = tr_hash tr (hash_key (fst s ptr))"
  shows "(\<exists>r s1. hash_replace tr s ptr = Some (Inr (r, s1)) \<and> table_holds tr s1 (insert ptr (N - {r})) \<and>
      (if \<exists>n\<in>N. hxhash_equal tr (fst s n) (hash_key (fst s ptr))
       then r \<in> N \<and> hxhash_equal tr (fst s r) (hash_key (fst s ptr)) else r = 0)) \<and>
    (\<exists>s1 log. hash_clear d s = Some (Inr (s1, log)) \<and> table_holds tr s1 {} \<and>
      distinct log \<and> set log = (if d = None then {} else N))"
proof -
  obtain css where rel: "table_rel tr s css" and N: "set (concat css) = N" by (rule table_holdsE [OF assms(2)])
  have "\<exists>s1 log. hash_clear d s = Some (Inr (s1, log)) \<and> table_holds tr s1 {} \<and> distinct log \<and> set log = (if d = None then {} else N)"
    using hash_clear_holds [OF rel, of d] table_relD(3) [OF rel] N by fastforce
  then show ?thesis using hash_replace_holds [OF assms] by blast
qed

lemma hash_replace_clear_witness:
  "\<exists>s1. hash_replace (num_traits False False) (example_nodes, hxhash_table_new 1) 8 = Some (Inr (0, s1)) \<and>
    table_holds (num_traits False False) s1 {8}"
proof -
  obtain r s1 where "hash_replace (num_traits False False) (example_nodes, hxhash_table_new 1) 8 = Some (Inr (r, s1))"
    "table_holds (num_traits False False) s1 {8}" "r = 0"
    using hash_replace_clear [OF num_keys.hash_keys_axioms example_empty, of 8 None]
    by (auto simp: num_traits_simps example_node)
  then show ?thesis by auto
qed

end
