(* ===== verification/HxFlat.thy ===== *)
theory HxFlat
  imports HxVector
begin

text \<open>
  What \<^verbatim>\<open>hxflat_set\<close> and \<^verbatim>\<open>hxflat_map\<close> share: the traits that choose the comparison, sorted arrays
  of live objects, the loops that shift elements, and what a binary search on a sorted array finds. Keys and values are passed
  as values, so the \<open>bad_ref\<close> assertions that an inserted key does not lie in the array it is inserted into, and that a container is
  not assigned to itself, hold and are left out.
\<close>

section \<open>Traits and orders\<close>

record 'k flat_traits =
  flat_multi :: bool
  flat_compare :: "'k hxcompare"

text \<open>\<open>hxcompare_<...>::before\<close> decides whether a key goes after the last one.\<close>

definition ordered_after :: "'k flat_traits \<Rightarrow> 'k list \<Rightarrow> 'k \<Rightarrow> bool" where
  "ordered_after tr ks key =
     (if \<not> flat_multi tr then ks = [] \<or> hxcompare_before (flat_compare tr) (last ks) key
      else ks = [] \<or> \<not> hxcompare_before (flat_compare tr) key (last ks))"

text \<open>\<open>correct_\<close> checks the keys from \<open>original\<close> on against their predecessors.\<close>

function flat_correct_loop :: "'k flat_traits \<Rightarrow> 'k list \<Rightarrow> nat \<Rightarrow> bool" where
  "flat_correct_loop tr ks i =
     (if i < length ks
      then if \<not> flat_multi tr
           then if \<not> hxcompare_after (flat_compare tr) (ks ! i) (ks ! (i - 1)) then False else flat_correct_loop tr ks (i + 1)
           else if hxcompare_before (flat_compare tr) (ks ! i) (ks ! (i - 1)) then False else flat_correct_loop tr ks (i + 1)
      else True)"
  by pat_completeness auto
termination by (relation "measure (\<lambda>(tr, ks, i). length ks - i)") auto

declare flat_correct_loop.simps [simp del]

definition flat_correct :: "'k flat_traits \<Rightarrow> 'k list \<Rightarrow> nat \<Rightarrow> bool" where
  "flat_correct tr ks original =
     (if original = length ks then True else flat_correct_loop tr ks (if original > 0 then original else 1))"

section \<open>Shifting live objects\<close>

text \<open>\<open>for(pos_ = end_ - 1; pos_ != it_; --pos_) *pos_ = move(*(pos_ - 1))\<close>, on one array and on two.\<close>

fun shift_up :: "('a \<Rightarrow> 'a) \<Rightarrow> 'a option list \<Rightarrow> nat \<Rightarrow> nat \<Rightarrow> 'a option list hx" where
  "shift_up moved m it 0 = (if it = 0 then Inr m else Inl (Undefined_behavior ''pointer before the array''))"
| "shift_up moved m it (Suc pos) =
     (if Suc pos \<noteq> it then hx_bind (move_slot moved m pos (Suc pos)) (\<lambda>m1. shift_up moved m1 it pos) else Inr m)"

fun shift_up_pair :: "('k \<Rightarrow> 'k) \<Rightarrow> ('v \<Rightarrow> 'v) \<Rightarrow> 'k option list \<times> 'v option list \<Rightarrow> nat \<Rightarrow> nat \<Rightarrow> ('k option list \<times> 'v option list) hx" where
  "shift_up_pair mk mv (k, v) index 0 = Inr (k, v)"
| "shift_up_pair mk mv (k, v) index (Suc i) =
     (if index < Suc i
      then hx_bind (move_slot mk k i (Suc i)) (\<lambda>k1. hx_bind (move_slot mv v i (Suc i)) (\<lambda>v1. shift_up_pair mk mv (k1, v1) index i))
      else Inr (k, v))"

text \<open>\<open>for(; src_ != end_; ++dst_, ++src_) *dst_ = move(*src_)\<close>; the searches give \<open>src \<le> e\<close>.\<close>

function move_block :: "('a \<Rightarrow> 'a) \<Rightarrow> 'a option list \<Rightarrow> nat \<Rightarrow> nat \<Rightarrow> nat \<Rightarrow> 'a option list hx" where
  "move_block moved m dst src e =
     (if src < e then hx_bind (move_slot moved m src dst) (\<lambda>m1. move_block moved m1 (dst + 1) (src + 1) e) else Inr m)"
  by pat_completeness auto
termination by (relation "measure (\<lambda>(moved, m, dst, src, e). e - src)") auto

function move_block_pair :: "('k \<Rightarrow> 'k) \<Rightarrow> ('v \<Rightarrow> 'v) \<Rightarrow> 'k option list \<times> 'v option list \<Rightarrow> nat \<Rightarrow> nat \<Rightarrow> nat \<Rightarrow>
    ('k option list \<times> 'v option list) hx" where
  "move_block_pair mk mv (k, v) dst src e =
     (if src < e
      then hx_bind (move_slot mk k src dst) (\<lambda>k1. hx_bind (move_slot mv v src dst) (\<lambda>v1.
           move_block_pair mk mv (k1, v1) (dst + 1) (src + 1) e))
      else Inr (k, v))"
  by pat_completeness auto
termination by (relation "measure (\<lambda>(mk, mv, kv, dst, src, e). e - src)") auto

fun destruct_pairs :: "'k option list \<times> 'v option list \<Rightarrow> nat list \<Rightarrow> ('k option list \<times> 'v option list) hx" where
  "destruct_pairs (k, v) [] = Inr (k, v)"
| "destruct_pairs (k, v) (i # is) =
     hx_bind (destroy_slot k i) (\<lambda>k1. hx_bind (destroy_slot v i) (\<lambda>v1. destruct_pairs (k1, v1) is))"

declare move_block.simps [simp del] move_block_pair.simps [simp del]

text \<open>The loops over two arrays are the loops over each.\<close>

lemma shift_up_pair_split:
  "index \<le> i \<Longrightarrow> shift_up mk k index i = Inr k' \<Longrightarrow> shift_up mv v index i = Inr v' \<Longrightarrow> shift_up_pair mk mv (k, v) index i = Inr (k', v')"
proof (induction i arbitrary: k v)
  case (Suc i)
  show ?case
  proof (cases "Suc i = index")
    case False
    then obtain k1 v1 where "move_slot mk k i (Suc i) = Inr k1" "shift_up mk k1 index i = Inr k'"
      "move_slot mv v i (Suc i) = Inr v1" "shift_up mv v1 index i = Inr v'"
      using Suc.prems(2,3) by (auto simp: hx_bind_Inr_iff)
    then show ?thesis using Suc.IH [of k1 v1] Suc.prems(1) False by simp
  next
    case True
    then show ?thesis using Suc.prems(2,3) unfolding True [symmetric] by simp
  qed
qed simp

lemma move_block_pair_split:
  "move_block mk k dst src e = Inr k' \<Longrightarrow> move_block mv v dst src e = Inr v' \<Longrightarrow> move_block_pair mk mv (k, v) dst src e = Inr (k', v')"
proof (induction "e - src" arbitrary: k v dst src)
  case 0
  then show ?case using move_block.simps [of mk k dst src e] move_block.simps [of mv v dst src e]
    by (subst move_block_pair.simps) simp
next
  case (Suc n)
  then have less: "src < e" by simp
  then obtain k1 v1 where step: "move_slot mk k src dst = Inr k1" "move_block mk k1 (dst + 1) (src + 1) e = Inr k'"
    "move_slot mv v src dst = Inr v1" "move_block mv v1 (dst + 1) (src + 1) e = Inr v'"
    using Suc.prems move_block.simps [of mk k dst src e] move_block.simps [of mv v dst src e] by (auto simp: hx_bind_Inr_iff)
  then show ?case
    using Suc.hyps(1) [OF _ step(2,4)] Suc.hyps(2) less by (subst move_block_pair.simps) simp
qed

lemma destruct_pairs_split:
  "destruct_slots k is = Inr k' \<Longrightarrow> destruct_slots v is = Inr v' \<Longrightarrow> destruct_pairs (k, v) is = Inr (k', v')"
  by (induction "is" arbitrary: k v) (auto simp: hx_bind_Inr_iff)

text \<open>What they do to live objects.\<close>

lemma shift_up_insert: "it < pos \<Longrightarrow> insert_shift moved m it pos = hx_map (\<lambda>m1. (m1, it)) (shift_up moved m it (pos - 1))"
proof (induction pos arbitrary: m)
  case (Suc p)
  show ?case
  proof (cases "it = p")
    case True
    then show ?thesis by (cases p) simp_all
  next
    case False
    then obtain q where p: "p = Suc q" using Suc.prems by (cases p) auto
    have "it < p" using False Suc.prems by simp
    then show ?thesis using Suc.IH False p by (auto simp: hx_bind_def hx_map_def split: sum.splits)
  qed
qed simp

lemma shift_up_live:
  assumes "it \<le> pos" and "pos < length ys" and "length ys \<le> c"
  shows "\<exists>ys'. shift_up moved (live_prefix ys c) it pos = Inr (live_prefix ys' c) \<and> length ys' = length ys \<and>
    ys'[it := x] = take it ys @ [x] @ take (pos - it) (drop it ys) @ drop (Suc pos) ys"
proof -
  obtain ys' where "insert_shift moved (live_prefix ys c) it (Suc pos) = Inr (live_prefix ys' c, it)" "length ys' = length ys"
    "ys'[it := x] = take it ys @ [x] @ take (Suc pos - 1 - it) (drop it ys) @ drop (Suc pos) ys"
    using insert_shift_live [of it "Suc pos" ys c moved x] assms by auto
  then show ?thesis
    using shift_up_insert [of it "Suc pos" moved "live_prefix ys c"] assms(1)
    by (cases "shift_up moved (live_prefix ys c) it pos") auto
qed

text \<open>Opening a gap in a full run of live objects and filling it, as \<open>insert_at_\<close> does.\<close>

lemma open_gap_live:
  assumes "i < length xs" and "length xs < c"
  shows "\<exists>m1 m2 m3. assign_slot (live_prefix xs c) (length xs - 1) (moved (xs ! (length xs - 1))) = Inr m1 \<and>
    construct_slot m1 (length xs) (xs ! (length xs - 1)) = Inr m2 \<and> shift_up moved m2 i (length xs - 1) = Inr m3 \<and>
    assign_slot m3 i x = Inr (live_prefix (take i xs @ x # drop i xs) c)"
proof -
  let ?n = "length xs" and ?y = "xs ! (length xs - 1)"
  let ?zs = "xs[?n - 1 := moved ?y]"
  have build: "construct_slot (live_prefix ?zs c) ?n ?y = Inr (live_prefix (?zs @ [?y]) c)"
    using construct_slot_live [of ?zs c ?y] assms(2) by simp
  obtain ys' where ys': "shift_up moved (live_prefix (?zs @ [?y]) c) i (?n - 1) = Inr (live_prefix ys' c)" "length ys' = Suc ?n"
    "ys'[i := x] = take i (?zs @ [?y]) @ [x] @ take (?n - 1 - i) (drop i (?zs @ [?y])) @ drop (Suc (?n - 1)) (?zs @ [?y])"
  proof -
    have "i \<le> ?n - 1" "?n - 1 < length (?zs @ [?y])" "length (?zs @ [?y]) \<le> c" "length (?zs @ [?y]) = Suc ?n" using assms by auto
    with shift_up_live [OF this(1,2,3), of moved x] show ?thesis using that by metis
  qed
  have "take (?n - 1 - i) (drop i (?zs @ [?y])) = take (?n - 1 - i) (drop i xs)"
    using assms(1) by (simp add: drop_update_swap list_update_beyond)
  moreover have "drop i xs = take (?n - 1 - i) (drop i xs) @ [?y]"
  proof -
    have "drop i xs = take (Suc (?n - 1 - i)) (drop i xs)" using assms(1) by simp
    also have "\<dots> = take (?n - 1 - i) (drop i xs) @ [drop i xs ! (?n - 1 - i)]" using assms(1) by (intro take_Suc_conv_app_nth) simp
    finally show ?thesis using assms(1) by simp
  qed
  ultimately have final: "ys'[i := x] = take i xs @ x # drop i xs" using ys'(3) assms(1) by simp
  have "assign_slot (live_prefix ys' c) i x = Inr (live_prefix (take i xs @ x # drop i xs) c)"
    using assign_slot_live [of i ys' c x] ys'(2) assms unfolding final by simp
  then show ?thesis using ys'(1) build assms assign_slot_live [of "?n - 1" xs c "moved ?y"] by auto
qed

lemma move_block_live:
  "dst < src \<Longrightarrow> src \<le> length xs \<Longrightarrow> length xs \<le> c \<Longrightarrow>
   \<exists>junk. move_block moved (live_prefix xs c) dst src (length xs) =
     Inr (live_prefix (take dst xs @ drop src xs @ junk) c) \<and> length junk = src - dst"
proof (induction "length xs - src" arbitrary: xs dst src)
  case 0
  then have "drop src xs = []" "src = length xs" by simp_all
  then show ?case using 0 by (subst move_block.simps) (auto intro!: exI [of _ "drop dst xs"])
next
  case (Suc n)
  let ?ys = "xs[src := moved (xs ! src), dst := xs ! src]"
  have less: "src < length xs" using Suc.hyps(2) by simp
  obtain junk where junk: "move_block moved (live_prefix ?ys c) (dst + 1) (src + 1) (length xs) =
      Inr (live_prefix (take (dst + 1) ?ys @ drop (src + 1) ?ys @ junk) c)" "length junk = src - dst"
  proof -
    have "n = length ?ys - (src + 1)" "dst + 1 < src + 1" "src + 1 \<le> length ?ys" "length ?ys \<le> c"
      using Suc.hyps(2) Suc.prems less by auto
    from Suc.hyps(1) [OF this] show ?thesis using that by auto
  qed
  have "take (dst + 1) ?ys = take dst xs @ [xs ! src]" using less Suc.prems(1) by (simp add: take_Suc_conv_app_nth)
  moreover have "drop src xs = xs ! src # drop (src + 1) ?ys"
    using less Suc.prems(1) Cons_nth_drop_Suc [OF less] by simp
  ultimately show ?case
    using junk less Suc.prems by (subst move_block.simps) (auto simp: move_slot_live)
qed

text \<open>Closing a gap: the equivalent keys are overwritten and the tail destroyed.\<close>

lemma close_gap_live:
  assumes "dst < src" and "src \<le> length xs" and "length xs \<le> c"
  shows "\<exists>m. move_block moved (live_prefix xs c) dst src (length xs) = Inr m \<and>
    destruct_slots m [length xs - (src - dst)..<length xs] = Inr (live_prefix (take dst xs @ drop src xs) c)"
proof -
  obtain junk where junk: "move_block moved (live_prefix xs c) dst src (length xs) =
      Inr (live_prefix (take dst xs @ drop src xs @ junk) c)" "length junk = src - dst"
    using move_block_live [OF assms] by blast
  let ?zs = "take dst xs @ drop src xs @ junk" and ?k = "length xs - (src - dst)"
  have len: "length ?zs = length xs" "?k \<le> length ?zs" "take ?k ?zs = take dst xs @ drop src xs"
    using junk(2) assms by auto
  have "destruct_slots (live_prefix ?zs c) [?k..<length ?zs] = Inr (live_prefix (take ?k ?zs) c)"
    using len(1,2) assms(3) by (intro destruct_slots_live) auto
  then show ?thesis using junk(1) len(1,3) by simp
qed

lemma erase_gap_live:
  assumes "i < length xs" and "length xs \<le> c"
  shows "\<exists>m. erase_shift moved (live_prefix xs c) i (length xs - 1) = Inr m \<and>
    destroy_slot m (length xs - 1) = Inr (live_prefix (take i xs @ drop (Suc i) xs) c)"
proof -
  obtain j where "erase_shift moved (live_prefix xs c) i (length xs - 1) = Inr (live_prefix (take i xs @ drop (i + 1) xs @ [j]) c)"
    using erase_shift_live [OF assms] by blast
  then show ?thesis
    using destroy_slot_live [of "(take i xs @ drop (Suc i) xs) @ [j]" c] assms by (simp add: butlast_append)
qed

section \<open>Orders\<close>

text \<open>The keys equivalent to \<open>k\<close>, and the others.\<close>

definition flat_matches :: "('k \<Rightarrow> 'k \<Rightarrow> bool) \<Rightarrow> 'k list \<Rightarrow> 'k \<Rightarrow> 'k list" where
  "flat_matches lt xs k = filter (\<lambda>x. \<not> lt x k \<and> \<not> lt k x) xs"

definition flat_rest :: "('k \<Rightarrow> 'k \<Rightarrow> bool) \<Rightarrow> 'k list \<Rightarrow> 'k \<Rightarrow> 'k list" where
  "flat_rest lt xs k = filter (\<lambda>x. \<not> (\<not> lt x k \<and> \<not> lt k x)) xs"

text \<open>What a comparison object promises: it is the strict weak order \<open>lt\<close>, and the search with it
  finds the lower bound and whether an equivalent key is there.\<close>

locale flat_order = strict_weak_order lt for lt :: "'k \<Rightarrow> 'k \<Rightarrow> bool" +
  fixes tr :: "'k flat_traits"
  assumes before_lt: "hxcompare_before (flat_compare tr) a b = lt a b"
    and after_lt: "hxcompare_after (flat_compare tr) a b \<longleftrightarrow> \<not> lt a b"
    and pair_search: "sorted_range xs \<Longrightarrow>
      hxlower_bound_pair (flat_compare tr) xs v = (hxlower_bound lt xs v, \<exists>x\<in>set xs. \<not> lt x v \<and> \<not> lt v x)"
begin

abbreviation equiv :: "'k \<Rightarrow> 'k \<Rightarrow> bool" where
  "equiv x v \<equiv> \<not> lt x v \<and> \<not> lt v x"

definition flat_has :: "'k list \<Rightarrow> 'k \<Rightarrow> bool" where
  "flat_has xs v \<longleftrightarrow> (\<exists>x\<in>set xs. equiv x v)"

lemma pair_search_has: "sorted_range xs \<Longrightarrow> hxlower_bound_pair (flat_compare tr) xs v = (hxlower_bound lt xs v, flat_has xs v)"
  by (simp add: pair_search flat_has_def)

definition flat_sorted :: "'k list \<Rightarrow> bool" where
  "flat_sorted xs \<longleftrightarrow> sorted_range xs \<and> (\<not> flat_multi tr \<longrightarrow> sorted_wrt lt xs)"

lemma strict_sorted_range: "sorted_wrt lt xs \<Longrightarrow> sorted_range xs"
  by (rule sorted_wrt_mono_rel) (auto dest: asym)

lemma lower_bound_iterator: "hxlower_bound_iterator (flat_compare tr) xs v = hxlower_bound lt xs v"
  by (simp add: hxlower_bound_iterator_def hxlower_bound_def before_lt)

lemma upper_bound_iterator: "hxupper_bound_iterator (flat_compare tr) xs v = hxupper_bound lt xs v"
  by (simp add: hxupper_bound_iterator_def hxupper_bound_def after_lt)

lemma lower_point:
  assumes "sorted_range xs"
  shows "hxlower_bound lt xs v \<le> length xs" and "i < hxlower_bound lt xs v \<Longrightarrow> lt (xs ! i) v"
    and "hxlower_bound lt xs v \<le> i \<Longrightarrow> i < length xs \<Longrightarrow> \<not> lt (xs ! i) v"
  using hxlower_bound_point [OF assms, of v] by (auto simp: is_partition_point_def)

lemma upper_point:
  assumes "sorted_range xs"
  shows "hxupper_bound lt xs v \<le> length xs" and "i < hxupper_bound lt xs v \<Longrightarrow> \<not> lt v (xs ! i)"
    and "hxupper_bound lt xs v \<le> i \<Longrightarrow> i < length xs \<Longrightarrow> lt v (xs ! i)"
  using hxupper_bound_point [OF assms, of v] by (auto simp: is_partition_point_def)

lemma take_lower: "sorted_range xs \<Longrightarrow> x \<in> set (take (hxlower_bound lt xs v) xs) \<Longrightarrow> lt x v"
  using lower_point(2) [of xs] by (auto simp: in_set_conv_nth)

lemma drop_lower: "sorted_range xs \<Longrightarrow> x \<in> set (drop (hxlower_bound lt xs v) xs) \<Longrightarrow> \<not> lt x v"
  using lower_point(3) [of xs v] by (auto simp: in_set_conv_nth)

lemma take_upper: "sorted_range xs \<Longrightarrow> x \<in> set (take (hxupper_bound lt xs v) xs) \<Longrightarrow> \<not> lt v x"
  using upper_point(2) [of xs] by (auto simp: in_set_conv_nth)

lemma drop_upper: "sorted_range xs \<Longrightarrow> x \<in> set (drop (hxupper_bound lt xs v) xs) \<Longrightarrow> lt v x"
  using upper_point(3) [of xs v] by (auto simp: in_set_conv_nth)

text \<open>A key can go wherever the keys before it are not after it and those behind it are not before it.\<close>

lemma sorted_insert_at:
  assumes "sorted_range xs" and "\<And>x. x \<in> set (take i xs) \<Longrightarrow> \<not> lt v x" and "\<And>x. x \<in> set (drop i xs) \<Longrightarrow> \<not> lt x v"
  shows "sorted_range (take i xs @ v # drop i xs)"
proof -
  have "sorted_range (take i xs @ drop i xs)" using assms(1) by simp
  then show ?thesis using assms(2,3) unfolding sorted_wrt_append by auto
qed

lemma strict_insert_at:
  assumes "sorted_wrt lt xs" and "\<And>x. x \<in> set (take i xs) \<Longrightarrow> lt x v" and "\<And>x. x \<in> set (drop i xs) \<Longrightarrow> lt v x"
  shows "sorted_wrt lt (take i xs @ v # drop i xs)"
proof -
  have "sorted_wrt lt (take i xs @ drop i xs)" using assms(1) by simp
  then show ?thesis using assms(2,3) unfolding sorted_wrt_append by auto
qed

lemma flat_insert_lower:
  assumes "flat_sorted xs" and "flat_multi tr \<or> \<not> flat_has xs v"
  shows "flat_sorted (take (hxlower_bound lt xs v) xs @ v # drop (hxlower_bound lt xs v) xs)"
proof -
  let ?l = "hxlower_bound lt xs v"
  have sorted: "sorted_range xs" using assms(1) by (simp add: flat_sorted_def)
  have "sorted_range (take ?l xs @ v # drop ?l xs)"
    using take_lower [OF sorted] drop_lower [OF sorted] asym by (intro sorted_insert_at [OF sorted]) blast+
  moreover have "sorted_wrt lt (take ?l xs @ v # drop ?l xs)" if "\<not> flat_multi tr"
  proof (rule strict_insert_at)
    show "sorted_wrt lt xs" using assms(1) that by (simp add: flat_sorted_def)
    show "lt x v" if "x \<in> set (take ?l xs)" for x using take_lower [OF sorted that] .
    show "lt v x" if "x \<in> set (drop ?l xs)" for x
      using drop_lower [OF sorted that] assms(2) \<open>\<not> flat_multi tr\<close> in_set_dropD [OF that] unfolding flat_has_def by blast
  qed
  ultimately show ?thesis by (simp add: flat_sorted_def)
qed

lemma flat_insert_last:
  assumes "flat_sorted xs" and "ordered_after tr xs v"
  shows "flat_sorted (xs @ [v])" and "\<not> flat_multi tr \<Longrightarrow> x \<in> set xs \<Longrightarrow> lt x v"
proof -
  have sorted: "sorted_range xs" using assms(1) by (simp add: flat_sorted_def)
  have last: "\<not> lt (last xs) x" if "x \<in> set xs" for x
  proof -
    have xs: "xs = butlast xs @ [last xs]" using that by (cases xs rule: rev_cases) auto
    then have "sorted_range (butlast xs @ [last xs])" using sorted by simp
    then have "x \<in> set (butlast xs) \<Longrightarrow> \<not> lt (last xs) x" for x unfolding sorted_wrt_append by simp
    then show ?thesis using that xs irrefl by (metis in_set_conv_decomp_last append_self_conv2 set_ConsD in_set_butlastD Un_iff set_append list.set(1) singletonD list.simps(15))
  qed
  have strict: "lt x v" if "\<not> flat_multi tr" "x \<in> set xs" for x
    using assms(2) that last [OF that(2)] cotrans [of "last xs" v x] by (auto simp: ordered_after_def before_lt)
  then show "\<not> flat_multi tr \<Longrightarrow> x \<in> set xs \<Longrightarrow> lt x v" by blast
  have "\<not> lt v x" if "x \<in> set xs" for x
  proof (cases "flat_multi tr")
    case True
    then have "\<not> lt v (last xs)" using assms(2) that by (auto simp: ordered_after_def before_lt)
    then show ?thesis using last [OF that] cotrans [of v x "last xs"] by blast
  next
    case False
    then show ?thesis using strict [OF _ that] asym by blast
  qed
  then show "flat_sorted (xs @ [v])"
    using assms(1) strict by (auto simp: flat_sorted_def sorted_wrt_append)
qed

text \<open>The two bounds cut the equivalent keys out of the array.\<close>

lemma equal_slice_map:
  fixes v :: 'k
  assumes "sorted_range (map f ps)"
  defines "l \<equiv> hxlower_bound lt (map f ps) v" and "u \<equiv> hxupper_bound lt (map f ps) v"
  shows "take l ps @ drop u ps = filter (\<lambda>p. \<not> equiv (f p) v) ps" and "u - l = length (filter (\<lambda>p. equiv (f p) v) ps)"
proof -
  have lu: "l \<le> u" "u \<le> length ps"
    using hxlower_bound_le_upper_bound [OF assms(1)] upper_point(1) [OF assms(1)] by (auto simp: l_def u_def)
  have split: "ps = take l ps @ drop l (take u ps) @ drop u ps"
    using lu by (metis append.assoc append_take_drop_id min_def take_take)
  have front: "lt (f p) v" if "p \<in> set (take l ps)" for p
    using take_lower [OF assms(1), of "f p" v] that by (auto simp: l_def take_map)
  have rear: "lt v (f p)" if "p \<in> set (drop u ps)" for p
    using drop_upper [OF assms(1), of "f p" v] that by (auto simp: u_def drop_map)
  have mid: "equiv (f p) v" if "p \<in> set (drop l (take u ps))" for p
  proof -
    have "drop l (take u ps) = take (u - l) (drop l ps)" by (simp add: drop_take)
    then have "p \<in> set (drop l ps)" using that in_set_takeD by metis
    moreover have "p \<in> set (take u ps)" using that in_set_dropD by metis
    ultimately show ?thesis
      using drop_lower [OF assms(1), of "f p" v] take_upper [OF assms(1), of "f p" v] by (auto simp: l_def u_def drop_map take_map)
  qed
  have "filter (\<lambda>p. \<not> equiv (f p) v) (take l ps @ drop l (take u ps) @ drop u ps) = take l ps @ drop u ps"
    using front rear mid by (auto simp: filter_id_conv filter_empty_conv)
  then show "take l ps @ drop u ps = filter (\<lambda>p. \<not> equiv (f p) v) ps" using split by simp
  have "filter (\<lambda>p. equiv (f p) v) (take l ps @ drop l (take u ps) @ drop u ps) = drop l (take u ps)"
    using front rear mid asym by (auto simp: filter_id_conv filter_empty_conv)
  then have "filter (\<lambda>p. equiv (f p) v) ps = drop l (take u ps)" using split by simp
  then show "u - l = length (filter (\<lambda>p. equiv (f p) v) ps)" using lu by simp
qed

lemma equal_slice:
  assumes "sorted_range xs"
  shows "take (hxlower_bound lt xs v) xs @ drop (hxupper_bound lt xs v) xs = filter (\<lambda>x. \<not> equiv x v) xs"
    and "hxupper_bound lt xs v - hxlower_bound lt xs v = length (filter (\<lambda>x. equiv x v) xs)"
  using equal_slice_map [of "\<lambda>x. x" xs v] assms by simp_all

text \<open>The upper bound searched for only from the lower bound on.\<close>

lemma upper_from_lower:
  assumes "sorted_range xs"
  shows "hxlower_bound lt xs v + hxupper_bound lt (drop (hxlower_bound lt xs v) xs) v = hxupper_bound lt xs v"
proof -
  let ?l = "hxlower_bound lt xs v"
  let ?k = "?l + hxupper_bound lt (drop ?l xs) v"
  have sorted: "sorted_range (drop ?l xs)" using assms by (rule sorted_wrt_drop)
  note l = lower_point(1) [OF assms, of v]
  have "is_partition_point (\<lambda>m. \<not> lt v m) xs ?k"
    unfolding is_partition_point_def
  proof (intro conjI allI impI)
    show "?k \<le> length xs" using upper_point(1) [OF sorted, of v] l by simp
    fix i
    show "\<not> lt v (xs ! i)" if "i < ?k"
    proof (cases "i < ?l")
      case True
      then show ?thesis using lower_point(2) [OF assms] asym by blast
    next
      case False
      then show ?thesis using upper_point(2) [OF sorted, of "i - ?l" v] that l by simp
    qed
    show "\<not> \<not> lt v (xs ! i)" if "?k \<le> i" "i < length xs"
      using upper_point(3) [OF sorted, of v "i - ?l"] that l by simp
  qed
  then show ?thesis using hxupper_bound_point [OF assms, of v] by (rule is_partition_point_unique)
qed

lemma unique_equiv:
  assumes "sorted_wrt lt xs"
  shows "length (filter (\<lambda>x. equiv x v) xs) = (if flat_has xs v then 1 else 0)"
  using assms unfolding flat_has_def
proof (induction xs)
  case (Cons x xs)
  show ?case
  proof (cases "equiv x v")
    case True
    then have "\<not> equiv y v" if "y \<in> set xs" for y using Cons.prems that cotrans [of x y v] by auto
    then have "filter (\<lambda>x. equiv x v) xs = []" by (auto simp: filter_empty_conv)
    then show ?thesis using True by simp
  next
    case False
    then have "(\<exists>y\<in>set (x # xs). equiv y v) \<longleftrightarrow> (\<exists>y\<in>set xs. equiv y v)" by auto
    then show ?thesis using False Cons by auto
  qed
qed simp

end

context flat_order begin

lemma flat_sorted_filter: "flat_sorted xs \<Longrightarrow> flat_sorted (filter P xs)"
  by (auto simp: flat_sorted_def sorted_wrt_filter)

lemma flat_has_lower:
  assumes "flat_sorted xs" and "flat_has xs k"
  shows "hxlower_bound lt xs k < length xs \<and> equiv (xs ! hxlower_bound lt xs k) k"
  using lower_bound_hit [of xs k] lower_point(3) [of xs k "hxlower_bound lt xs k"] assms by (auto simp: flat_sorted_def flat_has_def)

lemma flat_correct_loop_iff:
  "0 < i \<Longrightarrow> flat_correct_loop tr ks i \<longleftrightarrow> (\<forall>j. i \<le> j \<longrightarrow> j < length ks \<longrightarrow> \<not> lt (ks ! j) (ks ! (j - 1)))"
proof (induction "length ks - i" arbitrary: i)
  case 0
  then show ?case by (subst flat_correct_loop.simps) auto
next
  case (Suc n)
  then have "i < length ks" by simp
  then have "flat_correct_loop tr ks i \<longleftrightarrow> \<not> lt (ks ! i) (ks ! (i - 1)) \<and> flat_correct_loop tr ks (i + 1)"
    by (subst flat_correct_loop.simps) (simp add: before_lt after_lt)
  also have "\<dots> \<longleftrightarrow> \<not> lt (ks ! i) (ks ! (i - 1)) \<and> (\<forall>j. i + 1 \<le> j \<longrightarrow> j < length ks \<longrightarrow> \<not> lt (ks ! j) (ks ! (j - 1)))"
    using Suc.hyps(1) [of "i + 1"] Suc.hyps(2) by simp
  also have "\<dots> \<longleftrightarrow> (\<forall>j. i \<le> j \<longrightarrow> j < length ks \<longrightarrow> \<not> lt (ks ! j) (ks ! (j - 1)))"
    using Suc.hyps(2) by (auto simp: Suc_le_eq dest: le_neq_implies_less)
  finally show ?case .
qed

lemma flat_correct_iff:
  assumes "sorted_range xs"
  shows "flat_correct tr (xs @ ys) (length xs) \<longleftrightarrow> sorted_range (xs @ ys)"
proof -
  let ?zs = "xs @ ys"
  have adj: "sorted_range zs \<longleftrightarrow> (\<forall>j. 1 \<le> j \<longrightarrow> j < length zs \<longrightarrow> \<not> lt (zs ! j) (zs ! (j - 1)))" for zs
  proof
    assume zs: "sorted_range zs"
    show "\<forall>j. 1 \<le> j \<longrightarrow> j < length zs \<longrightarrow> \<not> lt (zs ! j) (zs ! (j - 1))"
      using zs by (auto simp: sorted_wrt_iff_nth_less)
  next
    assume zs: "\<forall>j. 1 \<le> j \<longrightarrow> j < length zs \<longrightarrow> \<not> lt (zs ! j) (zs ! (j - 1))"
    have "\<not> lt (zs ! Suc i) (zs ! i)" if "Suc i < length zs" for i using zs [rule_format, of "Suc i"] that by simp
    then show "sorted_range zs" unfolding sorted_wrt_iff_nth_Suc_transp [OF transp_nlt] by blast
  qed
  have pre: "\<not> lt (?zs ! j) (?zs ! (j - 1))" if "1 \<le> j" "j < length xs" for j
    using that assms less_imp_diff_less [of j "length xs" 1] unfolding adj by (auto simp: nth_append)
  show ?thesis
  proof (cases "ys = []")
    case False
    then have "flat_correct tr ?zs (length xs) \<longleftrightarrow> (\<forall>j. max 1 (length xs) \<le> j \<longrightarrow> j < length ?zs \<longrightarrow> \<not> lt (?zs ! j) (?zs ! (j - 1)))"
      by (cases xs) (auto simp: flat_correct_def flat_correct_loop_iff max_def)
    also have "\<dots> \<longleftrightarrow> sorted_range ?zs" 
    proof
      assume all: "\<forall>j. max 1 (length xs) \<le> j \<longrightarrow> j < length ?zs \<longrightarrow> \<not> lt (?zs ! j) (?zs ! (j - 1))"
      have "\<not> lt (?zs ! j) (?zs ! (j - 1))" if "1 \<le> j" "j < length ?zs" for j
        using pre [OF that(1)] all that by (cases "j < length xs") simp_all
      then show "sorted_range ?zs" unfolding adj by blast
    next
      assume "sorted_range ?zs"
      then have all: "\<not> lt (?zs ! j) (?zs ! (j - 1))" if "1 \<le> j" "j < length ?zs" for j unfolding adj using that by blast
      show "\<forall>j. max 1 (length xs) \<le> j \<longrightarrow> j < length ?zs \<longrightarrow> \<not> lt (?zs ! j) (?zs ! (j - 1))"
        using all by simp
    qed
    finally show ?thesis .
  qed (use assms in \<open>simp add: flat_correct_def\<close>)
qed

end

context key_order begin

lemma flat_order_less: "flat_order lt \<lparr>flat_multi = multi, flat_compare = Compare_less lt\<rparr>"
proof
  fix xs v assume "sorted_range xs"
  then show "hxlower_bound_pair (flat_compare \<lparr>flat_multi = multi, flat_compare = Compare_less lt\<rparr>) xs v =
      (hxlower_bound lt xs v, \<exists>x\<in>set xs. \<not> lt x v \<and> \<not> lt v x)"
    using hxlower_bound_pair_less [of xs v] by (simp add: eq_iff)
qed simp_all

lemma flat_order_three_way: "flat_order lt \<lparr>flat_multi = multi, flat_compare = Compare_three_way three_way\<rparr>"
proof
  fix xs v assume "sorted_range xs"
  then show "hxlower_bound_pair (flat_compare \<lparr>flat_multi = multi, flat_compare = Compare_three_way three_way\<rparr>) xs v =
      (hxlower_bound lt xs v, \<exists>x\<in>set xs. \<not> lt x v \<and> \<not> lt v x)"
    using hxlower_bound_pair_less [of xs v] hxlower_bound_pair_three_way [of xs v] by (simp add: eq_iff)
qed (simp_all add: three_way_neg three_way_nonneg)

end

text \<open>The comparisons the library chooses by default: \<open><\<close> for numbers, three ways for everything else.\<close>

definition num_flat :: "bool \<Rightarrow> int flat_traits" where
  "num_flat multi = \<lparr>flat_multi = multi, flat_compare = Compare_less hxkey_less_num\<rparr>"

definition str_flat :: "bool \<Rightarrow> string flat_traits" where
  "str_flat multi = \<lparr>flat_multi = multi, flat_compare = Compare_three_way hxkey_three_way_str\<rparr>"

interpretation flat_num: flat_order hxkey_less_num "num_flat multi" for multi
  unfolding num_flat_def by (rule num_key.flat_order_less)

interpretation flat_str: flat_order hxkey_less_str "str_flat multi" for multi
  unfolding str_flat_def by (rule str_key.flat_order_three_way)

end
