(* ===== verification/HxFlatSet.thy ===== *)
theory HxFlatSet
  imports HxFlat
begin

text \<open>
  The sorted set of \<^verbatim>\<open>include/hx/hxflat_set.hpp\<close> and \<^verbatim>\<open>detail/hxflat_set.inl\<close>. Pointers to keys are
  offsets from \<open>data()\<close>; \<open>m_end_\<close> is null before \<open>reserve\<close>, as \<open>data()\<close> is, so that its offset is 0
  then. A key argument is a value: it never refers to a key of the set (the assertion \<open>bad_ref\<close>).
\<close>

section \<open>State and operations\<close>

record 'k hxflat_set =
  fs_alloc :: "'k hxallocator"
  fs_end :: nat

abbreviation fs_data :: "'k hxflat_set \<Rightarrow> 'k option list" where
  "fs_data s \<equiv> al_data (fs_alloc s)"

definition fs_set :: "'k hxflat_set \<Rightarrow> 'k option list \<Rightarrow> nat \<Rightarrow> 'k hxflat_set" where
  "fs_set s m e = s\<lparr>fs_alloc := (fs_alloc s)\<lparr>al_data := m\<rparr>, fs_end := e\<rparr>"

text \<open>The range \<open>[data(), m_end_)\<close>.\<close>

definition flat_set_keys :: "'k hxflat_set \<Rightarrow> 'k list hx" where
  "flat_set_keys s = read_slots (fs_data s) [0..<fs_end s]"

definition flat_set_capacity :: "'k hxflat_set \<Rightarrow> hxsize_t" where
  "flat_set_capacity s = al_capacity (fs_alloc s)"

definition flat_set_empty :: "'k hxflat_set \<Rightarrow> bool" where
  "flat_set_empty s = (fs_end s = 0)"

definition flat_set_full :: "'k hxflat_set \<Rightarrow> bool" where
  "flat_set_full s = (int (fs_end s) = flat_set_capacity s)"

definition flat_set_size :: "'k hxflat_set \<Rightarrow> hxsize_t" where
  "flat_set_size s = int (fs_end s)"

definition flat_set_new :: "hxsize_t \<Rightarrow> 'k hxflat_set" where
  "flat_set_new fixed = \<lparr>fs_alloc = hxallocator_new fixed False, fs_end = 0\<rparr>"

definition flat_set_reserve :: "'k hxflat_set \<Rightarrow> hxsize_t \<Rightarrow> 'k hxflat_set hx" where
  "flat_set_reserve s sz = hx_map (\<lambda>al. s\<lparr>fs_alloc := al\<rparr>) (reserve_storage sz (fs_alloc s))"

definition flat_set_clear :: "'k hxflat_set \<Rightarrow> 'k hxflat_set hx" where
  "flat_set_clear s = hx_map (\<lambda>m. fs_set s m 0) (destruct_slots (fs_data s) [0..<fs_end s])"

definition flat_set_assign :: "'k hxflat_set \<Rightarrow> 'k hxflat_set \<Rightarrow> 'k hxflat_set hx" where
  "flat_set_assign s x =
     hx_bind (flat_set_clear s) (\<lambda>s1.
     if \<not> int (fs_end x) \<le> flat_set_capacity s1 then Inl (Assert_hard ''hxflat_set capacity exceeded'')
     else hx_bind (flat_set_keys x) (\<lambda>ks. hx_map (\<lambda>m. fs_set s1 m (length ks)) (construct_slots (fs_data s1) 0 ks)))"

definition flat_set_copy :: "hxsize_t \<Rightarrow> 'k hxflat_set \<Rightarrow> 'k hxflat_set hx" where
  "flat_set_copy fixed x =
     (let s = flat_set_new fixed
      in hx_bind (if flat_set_capacity s = 0 then flat_set_reserve s (flat_set_size x) else Inr s) (\<lambda>s1. flat_set_assign s1 x))"

definition flat_set_move :: "'k hxflat_set \<Rightarrow> 'k hxflat_set \<times> 'k hxflat_set" where
  "flat_set_move x = (x, flat_set_new hxallocator_dynamic_capacity)"

definition flat_set_swap :: "'k hxflat_set \<Rightarrow> 'k hxflat_set \<Rightarrow> 'k hxflat_set \<times> 'k hxflat_set" where
  "flat_set_swap s x = (x, s)"

text \<open>\<open>operator[]\<close> compares the pointer with the end only.\<close>

definition flat_set_at :: "'k hxflat_set \<Rightarrow> hxsize_t \<Rightarrow> hxsize_t hx" where
  "flat_set_at s index = (if \<not> index < int (fs_end s) then Inl (Assert_hard ''bad_index'') else Inr index)"

definition flat_set_equal :: "('k \<Rightarrow> 'k \<Rightarrow> bool) \<Rightarrow> 'k hxflat_set \<Rightarrow> 'k hxflat_set \<Rightarrow> bool hx" where
  "flat_set_equal equal s x = hx_bind (flat_set_keys s) (\<lambda>xs. hx_map (hxequal_range equal xs) (flat_set_keys x))"

definition flat_set_less :: "('k \<Rightarrow> 'k \<Rightarrow> bool) \<Rightarrow> ('k \<Rightarrow> 'k \<Rightarrow> bool) \<Rightarrow> 'k hxflat_set \<Rightarrow> 'k hxflat_set \<Rightarrow> bool hx" where
  "flat_set_less equal lt s x = hx_bind (flat_set_keys s) (\<lambda>xs. hx_map (hxless_range equal lt xs) (flat_set_keys x))"

text \<open>\<open>add_range\<close>: the loop constructs the keys behind the end, each one checked in a debug build.\<close>

fun flat_set_add_loop :: "hxsize_t \<Rightarrow> 'k option list \<Rightarrow> nat \<Rightarrow> 'k list \<Rightarrow> ('k option list \<times> nat) hx" where
  "flat_set_add_loop capacity m dst [] = Inr (m, dst)"
| "flat_set_add_loop capacity m dst (x # xs) =
     (if \<not> int dst < capacity then Inl (Assert_debug ''bad_alloc already sized'')
      else hx_bind (construct_slot m dst x) (\<lambda>m1. flat_set_add_loop capacity m1 (dst + 1) xs))"

definition flat_set_add_range :: "'k flat_traits \<Rightarrow> 'k hxflat_set \<Rightarrow> bool \<Rightarrow> 'k list \<Rightarrow> 'k hxflat_set hx" where
  "flat_set_add_range tr s is_correct xs =
     hx_bind (flat_set_add_loop (flat_set_capacity s) (fs_data s) (fs_end s) xs) (\<lambda>(m, dst).
     if \<not> int dst \<le> flat_set_capacity s then Inl (Assert_hard ''bad_alloc already sized'')
     else hx_bind (read_slots m [0..<dst]) (\<lambda>ks.
       if \<not> is_correct
       then hx_bind (hxsort (hxcompare_before (flat_compare tr)) ks 0 dst) (\<lambda>sorted.
            hx_map (\<lambda>m1. fs_set s m1 dst) (write_slots m 0 sorted))
       else if \<not> flat_correct tr ks (fs_end s) then Inl (Assert_debug ''bad_ordering'')
       else Inr (fs_set s m dst)))"

definition flat_set_of_list :: "'k flat_traits \<Rightarrow> hxsize_t \<Rightarrow> 'k list \<Rightarrow> 'k hxflat_set hx" where
  "flat_set_of_list tr fixed xs =
     (let s = flat_set_new fixed
      in hx_bind (if flat_set_capacity s = 0 then flat_set_reserve s (int (length xs)) else Inr s) (\<lambda>s1.
         flat_set_add_range tr s1 True xs))"

definition flat_set_count :: "'k flat_traits \<Rightarrow> 'k hxflat_set \<Rightarrow> 'k \<Rightarrow> hxsize_t hx" where
  "flat_set_count tr s key =
     hx_map (\<lambda>ks.
       if \<not> flat_multi tr then if hxbinary_search (flat_compare tr) ks key then 1 else 0
       else let it = hxlower_bound_iterator (flat_compare tr) ks key
            in int (hxupper_bound_iterator (flat_compare tr) (drop it ks) key)) (flat_set_keys s)"

definition flat_set_find :: "'k flat_traits \<Rightarrow> 'k hxflat_set \<Rightarrow> 'k \<Rightarrow> nat hx" where
  "flat_set_find tr s key =
     hx_map (\<lambda>ks. let lo = hxlower_bound_pair (flat_compare tr) ks key in if snd lo then fst lo else fs_end s) (flat_set_keys s)"

definition flat_set_has_value :: "'k flat_traits \<Rightarrow> 'k hxflat_set \<Rightarrow> 'k \<Rightarrow> bool hx" where
  "flat_set_has_value tr s key = hx_map (\<lambda>it. it \<noteq> fs_end s) (flat_set_find tr s key)"

definition flat_set_lower_bound :: "'k flat_traits \<Rightarrow> 'k hxflat_set \<Rightarrow> 'k \<Rightarrow> nat hx" where
  "flat_set_lower_bound tr s key = hx_map (\<lambda>ks. hxlower_bound_iterator (flat_compare tr) ks key) (flat_set_keys s)"

definition flat_set_upper_bound :: "'k flat_traits \<Rightarrow> 'k hxflat_set \<Rightarrow> 'k \<Rightarrow> nat hx" where
  "flat_set_upper_bound tr s key = hx_map (\<lambda>ks. hxupper_bound_iterator (flat_compare tr) ks key) (flat_set_keys s)"

text \<open>\<open>insert_at_\<close> opens a gap at \<open>it\<close>, for a key that does not lie in the array.\<close>

definition flat_set_insert_at :: "('k \<Rightarrow> 'k) \<Rightarrow> 'k hxflat_set \<Rightarrow> nat \<Rightarrow> 'k \<Rightarrow> ('k hxflat_set \<times> nat) hx" where
  "flat_set_insert_at moved s it key =
     (let e = fs_end s; m = fs_data s
      in if \<not> int e < flat_set_capacity s then Inl (Assert_hard ''bad_alloc already sized'')
         else hx_map (\<lambda>m1. (fs_set s m1 (e + 1), it))
           (if e \<noteq> it
            then hx_bind (read_slot m (e - 1)) (\<lambda>y.
                 hx_bind (assign_slot m (e - 1) (moved y)) (\<lambda>m1.
                 hx_bind (construct_slot m1 e y) (\<lambda>m2.
                 hx_bind (shift_up moved m2 it (e - 1)) (\<lambda>m3. assign_slot m3 it key))))
            else construct_slot m it key))"

definition flat_set_insert :: "('k \<Rightarrow> 'k) \<Rightarrow> 'k flat_traits \<Rightarrow> 'k hxflat_set \<Rightarrow> 'k \<Rightarrow> ('k hxflat_set \<times> nat) hx" where
  "flat_set_insert moved tr s key =
     hx_bind (flat_set_keys s) (\<lambda>ks.
       if \<not> flat_multi tr
       then let lo = hxlower_bound_pair (flat_compare tr) ks key
            in if snd lo then Inr (s, fst lo) else flat_set_insert_at moved s (fst lo) key
       else flat_set_insert_at moved s (hxlower_bound_iterator (flat_compare tr) ks key) key)"

definition flat_set_push_back :: "('k \<Rightarrow> 'k) \<Rightarrow> 'k flat_traits \<Rightarrow> 'k hxflat_set \<Rightarrow> 'k \<Rightarrow> ('k hxflat_set \<times> nat) hx" where
  "flat_set_push_back moved tr s key =
     hx_bind (flat_set_keys s) (\<lambda>ks.
       if ordered_after tr ks key then flat_set_insert_at moved s (fs_end s) key else flat_set_insert moved tr s key)"

definition flat_set_emplace :: "('k \<Rightarrow> 'k) \<Rightarrow> 'k flat_traits \<Rightarrow> 'k hxflat_set \<Rightarrow> ('b \<Rightarrow> 'k) \<Rightarrow> 'b \<Rightarrow> ('k hxflat_set \<times> nat) hx" where
  "flat_set_emplace moved tr s constructor args = flat_set_insert moved tr s (constructor args)"

definition flat_set_emplace_back :: "('k \<Rightarrow> 'k) \<Rightarrow> 'k flat_traits \<Rightarrow> 'k hxflat_set \<Rightarrow> ('b \<Rightarrow> 'k) \<Rightarrow> 'b \<Rightarrow> ('k hxflat_set \<times> nat) hx" where
  "flat_set_emplace_back moved tr s constructor args = flat_set_push_back moved tr s (constructor args)"

definition flat_set_erase_it :: "('k \<Rightarrow> 'k) \<Rightarrow> 'k hxflat_set \<Rightarrow> nat \<Rightarrow> ('k hxflat_set \<times> nat) hx" where
  "flat_set_erase_it moved s it =
     (if \<not> it < fs_end s then Inl (Assert_debug ''bad_iter'')
      else let e = fs_end s - 1
           in hx_bind (erase_shift moved (fs_data s) it e) (\<lambda>m. hx_map (\<lambda>m1. (fs_set s m1 e, it)) (destroy_slot m e)))"

definition flat_set_erase :: "('k \<Rightarrow> 'k) \<Rightarrow> 'k flat_traits \<Rightarrow> 'k hxflat_set \<Rightarrow> 'k \<Rightarrow> ('k hxflat_set \<times> hxsize_t) hx" where
  "flat_set_erase moved tr s key =
     hx_bind (flat_set_keys s) (\<lambda>ks.
       if \<not> flat_multi tr
       then let lo = hxlower_bound_pair (flat_compare tr) ks key
            in if \<not> snd lo then Inr (s, 0) else hx_map (\<lambda>(s1, _). (s1, 1)) (flat_set_erase_it moved s (fst lo))
       else let it = hxlower_bound_iterator (flat_compare tr) ks key;
                hi = it + hxupper_bound_iterator (flat_compare tr) (drop it ks) key;
                count = hi - it
            in if count = 0 then Inr (s, 0)
               else hx_bind (move_block moved (fs_data s) it hi (fs_end s)) (\<lambda>m.
                    hx_map (\<lambda>m1. (fs_set s m1 (fs_end s - count), int count)) (destruct_slots m [fs_end s - count..<fs_end s])))"

text \<open>The lookups of C++23, by key and by iterator.\<close>

definition flat_set_and_then_it :: "'k hxflat_set \<Rightarrow> nat \<Rightarrow> ('k \<Rightarrow> 'r option) \<Rightarrow> 'r option hx" where
  "flat_set_and_then_it s it callable = (if it \<noteq> fs_end s then hx_map callable (read_slot (fs_data s) it) else Inr None)"

definition flat_set_and_then :: "'k flat_traits \<Rightarrow> 'k hxflat_set \<Rightarrow> 'k \<Rightarrow> ('k \<Rightarrow> 'r option) \<Rightarrow> 'r option hx" where
  "flat_set_and_then tr s key callable = hx_bind (flat_set_find tr s key) (\<lambda>it. flat_set_and_then_it s it callable)"

definition flat_set_or_else_it :: "'k hxflat_set \<Rightarrow> nat \<Rightarrow> nat \<Rightarrow> nat" where
  "flat_set_or_else_it s it alternative = (if it \<noteq> fs_end s then it else alternative)"

definition flat_set_or_else :: "'k flat_traits \<Rightarrow> 'k hxflat_set \<Rightarrow> 'k \<Rightarrow> nat \<Rightarrow> nat hx" where
  "flat_set_or_else tr s key alternative = hx_map (\<lambda>it. flat_set_or_else_it s it alternative) (flat_set_find tr s key)"

definition flat_set_value_or_it :: "'k hxflat_set \<Rightarrow> nat \<Rightarrow> 'k \<Rightarrow> 'k hx" where
  "flat_set_value_or_it s it alternative = (if it \<noteq> fs_end s then read_slot (fs_data s) it else Inr alternative)"

definition flat_set_value_or :: "'k flat_traits \<Rightarrow> 'k hxflat_set \<Rightarrow> 'k \<Rightarrow> 'k \<Rightarrow> 'k hx" where
  "flat_set_value_or tr s key alternative = hx_bind (flat_set_find tr s key) (\<lambda>it. flat_set_value_or_it s it alternative)"

section \<open>The abstraction\<close>

abbreviation fs_room :: "'k hxflat_set \<Rightarrow> nat" where
  "fs_room s \<equiv> nat (flat_set_capacity s)"

definition fs_rel :: "'k hxflat_set \<Rightarrow> 'k list \<Rightarrow> bool" where
  "fs_rel s xs \<longleftrightarrow> allocator_ok (fs_alloc s) \<and> \<not> al_pow2 (fs_alloc s) \<and> fs_end s = length xs \<and>
     length xs \<le> fs_room s \<and> fs_data s = live_prefix xs (fs_room s)"

lemma fs_relD:
  assumes "fs_rel s xs"
  shows "fs_end s = length xs" and "length xs \<le> fs_room s" and "fs_data s = live_prefix xs (fs_room s)"
    and "0 \<le> flat_set_capacity s" and "flat_set_keys s = Inr xs"
  using assms by (auto simp: fs_rel_def allocator_ok_def flat_set_capacity_def flat_set_keys_def read_all_live)

lemma fs_set_rel:
  assumes "fs_rel s xs" and "length ys \<le> fs_room s"
  shows "fs_rel (fs_set s (live_prefix ys (fs_room s)) (length ys)) ys" and "fs_room (fs_set s m e) = fs_room s"
proof -
  show "fs_room (fs_set s m e) = fs_room s" for m e by (simp add: fs_set_def flat_set_capacity_def)
  have "length (fs_data s) = fs_room s" using fs_relD [OF assms(1)] by simp
  then show "fs_rel (fs_set s (live_prefix ys (fs_room s)) (length ys)) ys"
    using assms by (auto simp: fs_rel_def fs_set_def allocator_ok_def flat_set_capacity_def)
qed

lemma fs_rel_new: "0 \<le> fixed \<Longrightarrow> fs_rel (flat_set_new fixed) []"
  using allocator_new_ok [of fixed False]
  by (auto simp: fs_rel_def flat_set_new_def hxallocator_new_def flat_set_capacity_def live_prefix_def element_count_def hxallocator_dynamic_capacity_def)

text \<open>A result that holds a list in the same storage, with a second value.\<close>

definition fs_holds :: "'k hxflat_set \<Rightarrow> ('k hxflat_set \<times> 'r) hx \<Rightarrow> 'k list \<Rightarrow> 'r \<Rightarrow> bool" where
  "fs_holds s r ys v \<longleftrightarrow> (\<exists>s'. r = Inr (s', v) \<and> fs_rel s' ys \<and> fs_room s' = fs_room s)"

lemma fs_holdsI:
  assumes "fs_rel s xs" and "length ys \<le> fs_room s" and "r = Inr (fs_set s (live_prefix ys (fs_room s)) (length ys), v)"
  shows "fs_holds s r ys v"
  using fs_set_rel [OF assms(1,2)] assms(3) by (auto simp: fs_holds_def)

lemma fs_holds_same: "fs_rel s xs \<Longrightarrow> fs_holds s (Inr (s, v)) xs v"
  by (auto simp: fs_holds_def)

lemma fs_full_iff: "fs_rel s xs \<Longrightarrow> int (fs_end s) < flat_set_capacity s \<longleftrightarrow> length xs < fs_room s"
  using fs_relD [of s xs] by auto

lemma flat_set_insert_at_rel:
  assumes rel: "fs_rel s xs" and i: "i \<le> length xs"
  shows "if length xs < fs_room s then fs_holds s (flat_set_insert_at moved s i x) (take i xs @ x # drop i xs) i
    else flat_set_insert_at moved s i x = Inl (Assert_hard ''bad_alloc already sized'')"
proof (cases "length xs < fs_room s")
  case True
  note s = fs_relD [OF rel]
  have "flat_set_insert_at moved s i x = Inr (fs_set s (live_prefix (take i xs @ x # drop i xs) (fs_room s)) (Suc (length xs)), i)"
  proof (cases "i = length xs")
    case True
    then show ?thesis
      using \<open>length xs < fs_room s\<close> s construct_slot_live [of xs "fs_room s" x] fs_full_iff [OF rel]
      by (simp add: flat_set_insert_at_def Let_def)
  next
    case False
    then have "i < length xs" using i by simp
    then show ?thesis
      using \<open>length xs < fs_room s\<close> s open_gap_live [of i xs "fs_room s" moved x] fs_full_iff [OF rel]
      by (auto simp: flat_set_insert_at_def Let_def read_slot_live)
  qed
  then have "fs_holds s (flat_set_insert_at moved s i x) (take i xs @ x # drop i xs) i"
    using True i by (intro fs_holdsI [OF rel]) simp_all
  then show ?thesis using True by simp
next
  case False
  then show ?thesis using fs_full_iff [OF rel] by (simp add: flat_set_insert_at_def Let_def)
qed

lemma flat_set_erase_it_rel:
  assumes rel: "fs_rel s xs"
  shows "if i < length xs then fs_holds s (flat_set_erase_it moved s i) (take i xs @ drop (Suc i) xs) i
    else flat_set_erase_it moved s i = Inl (Assert_debug ''bad_iter'')"
proof (cases "i < length xs")
  case True
  note s = fs_relD [OF rel]
  have "flat_set_erase_it moved s i = Inr (fs_set s (live_prefix (take i xs @ drop (Suc i) xs) (fs_room s)) (length xs - 1), i)"
    using True s erase_gap_live [OF True s(2), of moved] by (auto simp: flat_set_erase_it_def Let_def)
  then have "fs_holds s (flat_set_erase_it moved s i) (take i xs @ drop (Suc i) xs) i"
    using True s(2) by (intro fs_holdsI [OF rel]) simp_all
  then show ?thesis using True by simp
next
  case False
  then show ?thesis using fs_relD(1) [OF rel] by (simp add: flat_set_erase_it_def)
qed

lemma flat_set_clear_rel:
  assumes "fs_rel s xs"
  shows "\<exists>s'. flat_set_clear s = Inr s' \<and> fs_rel s' [] \<and> fs_room s' = fs_room s"
  using fs_relD [OF assms] destruct_slots_live [of 0 xs "fs_room s"] fs_set_rel [OF assms, of "[]"]
  by (auto simp: flat_set_clear_def)

lemma flat_set_assign_rel:
  assumes "fs_rel s xs" and "fs_rel t ys" and "length ys \<le> fs_room s"
  shows "\<exists>s'. flat_set_assign s t = Inr s' \<and> fs_rel s' ys \<and> fs_room s' = fs_room s"
proof -
  obtain s1 where s1: "flat_set_clear s = Inr s1" "fs_rel s1 []" "fs_room s1 = fs_room s"
    using flat_set_clear_rel [OF assms(1)] by blast
  have "construct_slots (fs_data s1) 0 ys = Inr (live_prefix ys (fs_room s1))"
    using construct_slots_live [of "[]" ys "fs_room s1"] fs_relD(3) [OF s1(2)] assms(3) s1(3) by simp
  moreover have "int (fs_end t) \<le> flat_set_capacity s1"
    using assms(3) s1(3) fs_relD(1) [OF assms(2)] fs_relD(4) [OF s1(2)] by simp
  ultimately show ?thesis
    using s1 fs_relD(5) [OF assms(2)] fs_set_rel [OF s1(2), of ys] assms(3) by (simp add: flat_set_assign_def)
qed

section \<open>Refinement of a sorted list\<close>

context flat_order begin

lemma flat_set_find_rel:
  assumes "fs_rel s xs" and "flat_sorted xs"
  shows "flat_set_find tr s k = Inr (if flat_has xs k then hxlower_bound lt xs k else length xs)"
  using fs_relD [OF assms(1)] pair_search_has [of xs k] assms(2) by (simp add: flat_set_find_def flat_sorted_def)

lemma flat_set_count_rel:
  assumes "fs_rel s xs" and "flat_sorted xs"
  shows "flat_set_count tr s k = Inr (int (length (filter (\<lambda>x. equiv x k) xs)))"
proof (cases "flat_multi tr")
  case True
  then show ?thesis
    using fs_relD(5) [OF assms(1)] assms(2) upper_from_lower [of xs k] equal_slice(2) [of xs k]
    by (simp add: flat_set_count_def lower_bound_iterator upper_bound_iterator Let_def flat_sorted_def flip: of_nat_diff)
next
  case False
  then show ?thesis
    using fs_relD(5) [OF assms(1)] assms(2) pair_search_has [of xs k] unique_equiv [of xs k]
    by (simp add: flat_set_count_def hxbinary_search_def flat_sorted_def)
qed

lemma flat_set_insert_rel:
  assumes rel: "fs_rel s xs" and sorted: "flat_sorted xs"
  shows "if \<not> flat_multi tr \<and> flat_has xs k then flat_set_insert moved tr s k = Inr (s, hxlower_bound lt xs k)
    else if length xs < fs_room s
    then fs_holds s (flat_set_insert moved tr s k) (take (hxlower_bound lt xs k) xs @ k # drop (hxlower_bound lt xs k) xs) (hxlower_bound lt xs k)
    else flat_set_insert moved tr s k = Inl (Assert_hard ''bad_alloc already sized'')"
proof -
  have range: "sorted_range xs" using sorted by (simp add: flat_sorted_def)
  show ?thesis
    using fs_relD(5) [OF rel] pair_search_has [OF range, of k] flat_set_insert_at_rel [OF rel lower_point(1) [OF range], of moved k k]
    by (simp add: flat_set_insert_def lower_bound_iterator Let_def)
qed

lemma flat_set_push_back_rel:
  assumes rel: "fs_rel s xs" and sorted: "flat_sorted xs"
  shows "flat_set_push_back moved tr s k =
    (if ordered_after tr xs k then flat_set_insert_at moved s (length xs) k else flat_set_insert moved tr s k)"
  using fs_relD [OF rel] by (simp add: flat_set_push_back_def)

lemma flat_set_erase_rel:
  assumes rel: "fs_rel s xs" and sorted: "flat_sorted xs"
  shows "fs_holds s (flat_set_erase moved tr s k) (filter (\<lambda>x. \<not> equiv x k) xs) (int (length (filter (\<lambda>x. equiv x k) xs)))"
proof -
  note s = fs_relD [OF rel]
  have range: "sorted_range xs" using sorted by (simp add: flat_sorted_def)
  let ?l = "hxlower_bound lt xs k" and ?u = "hxupper_bound lt xs k"
  note slice = equal_slice [OF range, of k]
  have lu: "?l \<le> ?u" "?u \<le> length xs" using hxlower_bound_le_upper_bound [OF range] upper_point(1) [OF range] by auto
  have none: "filter (\<lambda>x. \<not> equiv x k) xs = xs \<and> length (filter (\<lambda>x. equiv x k) xs) = 0" if "?u - ?l = 0"
  proof -
    have "?u = ?l" using lu that by simp
    then show ?thesis using slice by simp
  qed
  show ?thesis
  proof (cases "flat_multi tr")
    case True
    show ?thesis
    proof (cases "?u - ?l = 0")
      case empty: True
      then have "flat_set_erase moved tr s k = Inr (s, 0)"
        using True s(5) upper_from_lower [OF range, of k]
        by (simp add: flat_set_erase_def lower_bound_iterator upper_bound_iterator Let_def)
      then show ?thesis using none [OF empty] fs_holds_same [OF rel, of 0] by simp
    next
      case False
      then have "?l < ?u" by simp
      from close_gap_live [OF this lu(2) s(2), of moved]
      obtain m where m: "move_block moved (fs_data s) ?l ?u (length xs) = Inr m"
        "destruct_slots m [length xs - (?u - ?l)..<length xs] = Inr (live_prefix (take ?l xs @ drop ?u xs) (fs_room s))"
        using s(3) by auto
      have "flat_set_erase moved tr s k = Inr (fs_set s (live_prefix (take ?l xs @ drop ?u xs) (fs_room s)) (length xs - (?u - ?l)), int (?u - ?l))"
        using True False s(1,5) m upper_from_lower [OF range, of k]
        by (simp add: flat_set_erase_def lower_bound_iterator upper_bound_iterator Let_def)
      moreover have "length (take ?l xs @ drop ?u xs) = length xs - (?u - ?l)" using lu by simp
      ultimately have "fs_holds s (flat_set_erase moved tr s k) (take ?l xs @ drop ?u xs) (int (?u - ?l))"
        using s(2) by (intro fs_holdsI [OF rel]) simp_all
      then show ?thesis using slice by simp
    qed
  next
    case False
    then have unique: "length (filter (\<lambda>x. equiv x k) xs) = (if flat_has xs k then 1 else 0)"
      using sorted unique_equiv by (simp add: flat_sorted_def)
    show ?thesis
    proof (cases "flat_has xs k")
      case there: True
      then have u: "?u = Suc ?l" using slice(2) unique lu by (simp split: if_splits)
      then have "fs_holds s (flat_set_erase_it moved s ?l) (filter (\<lambda>x. \<not> equiv x k) xs) ?l"
        using flat_set_erase_it_rel [OF rel, of ?l moved] lu slice(1) by simp
      then show ?thesis
        using False there unique s(5) pair_search_has [OF range, of k] by (auto simp: fs_holds_def flat_set_erase_def Let_def)
    next
      case gone: False
      then have "?u - ?l = 0" using slice(2) unique by simp
      then show ?thesis
        using none gone False s(5) pair_search_has [OF range, of k] fs_holds_same [OF rel, of 0] by (simp add: flat_set_erase_def Let_def)
    qed
  qed
qed

lemma flat_set_add_loop_live:
  "length xs + length ys \<le> c \<Longrightarrow>
   flat_set_add_loop (int c) (live_prefix xs c) (length xs) ys = Inr (live_prefix (xs @ ys) c, length xs + length ys)"
proof (induction ys arbitrary: xs)
  case (Cons y ys)
  then show ?case using Cons.IH [of "xs @ [y]"] by (simp add: construct_slot_live)
qed simp

lemma flat_set_add_range_rel:
  assumes rel: "fs_rel s xs" and room: "length xs + length ys \<le> fs_room s"
  shows "\<not> 2 ^ 32 dvd length (xs @ ys) \<Longrightarrow>
      \<exists>s' zs. flat_set_add_range tr s False ys = Inr s' \<and> fs_rel s' zs \<and> mset zs = mset xs + mset ys \<and> sorted_range zs"
    and "sorted_range xs \<Longrightarrow> sorted_range (xs @ ys) \<Longrightarrow>
      \<exists>s'. flat_set_add_range tr s True ys = Inr s' \<and> fs_rel s' (xs @ ys)"
    and "sorted_range xs \<Longrightarrow> \<not> sorted_range (xs @ ys) \<Longrightarrow>
      flat_set_add_range tr s True ys = Inl (Assert_debug ''bad_ordering'')"
proof -
  note s = fs_relD [OF rel]
  let ?zs = "xs @ ys" and ?c = "fs_room s"
  have loop: "flat_set_add_loop (flat_set_capacity s) (fs_data s) (length xs) ys = Inr (live_prefix ?zs ?c, length ?zs)"
    using flat_set_add_loop_live [OF room] s by simp
  have keys: "read_slots (live_prefix ?zs ?c) [0..<length ?zs] = Inr ?zs" using room by (intro read_all_live) simp
  have size: "int (length ?zs) \<le> flat_set_capacity s" using room s(4) by simp
  have lt_eq: "hxcompare_before (flat_compare tr) = lt" by (intro ext before_lt)
  note unfold = flat_set_add_range_def s(1) loop hx_bind_simps prod.case size keys not_True_eq_False not_False_eq_True if_True if_False
  show "\<exists>s' zs. flat_set_add_range tr s False ys = Inr s' \<and> fs_rel s' zs \<and> mset zs = mset xs + mset ys \<and> sorted_range zs"
    if nz: "\<not> 2 ^ 32 dvd length ?zs"
  proof -
    have "?zs \<noteq> []" using nz by auto
    then obtain zs where zs: "hxsort lt ?zs 0 (length ?zs) = Inr zs" "range_perm 0 (length ?zs) ?zs zs" "sorted_between lt zs 0 (length ?zs)"
      using hxsort_result [OF strict_weak_order_axioms, of 0 "length ?zs" ?zs] nz by auto
    then have len: "length zs = length ?zs" "mset zs = mset xs + mset ys" by (simp_all add: range_perm_def)
    have "write_slots (live_prefix ?zs ?c) 0 zs = Inr (live_prefix zs ?c)" using len room by (intro write_all_live) auto
    then have "flat_set_add_range tr s False ys = Inr (fs_set s (live_prefix zs ?c) (length zs))"
      unfolding unfold lt_eq zs(1) using len size by simp
    moreover have "fs_rel (fs_set s (live_prefix zs ?c) (length zs)) zs" using len room by (intro fs_set_rel [OF rel]) simp
    moreover have "sorted_range zs"
      using zs(3) len by (auto simp: sorted_between_def sorted_wrt_iff_nth_less)
    ultimately show ?thesis using len by blast
  qed
  assume range: "sorted_range xs"
  show "\<exists>s'. flat_set_add_range tr s True ys = Inr s' \<and> fs_rel s' ?zs" if "sorted_range ?zs"
  proof -
    have "flat_set_add_range tr s True ys = Inr (fs_set s (live_prefix ?zs ?c) (length ?zs))"
      unfolding unfold flat_correct_iff [OF range] using that size by simp
    then show ?thesis using fs_set_rel(1) [OF rel, of ?zs] room by simp
  qed
  show "flat_set_add_range tr s True ys = Inl (Assert_debug ''bad_ordering'')" if "\<not> sorted_range ?zs"
    unfolding unfold flat_correct_iff [OF range] using that size by simp
qed

end

section \<open>Claims\<close>

definition example_flat_set :: "int hxflat_set" where
  "example_flat_set = \<lparr>fs_alloc = \<lparr>al_fixed = 4, al_pow2 = False, al_capacity = 4, al_data = live_prefix [3, 5, 8] 4\<rparr>, fs_end = 3\<rparr>"

lemma example_flat_set_rel: "fs_rel example_flat_set [3, 5, 8]" and example_flat_set_room: "fs_room example_flat_set = 4"
  by (simp_all add: example_flat_set_def fs_rel_def flat_set_capacity_def allocator_ok_def element_count_def hxallocator_dynamic_capacity_def)

lemma example_flat_set_sorted: "flat_num.flat_sorted multi [3, 5, 8]"
  by (simp add: flat_num.flat_sorted_def hxkey_less_num_def)

text \<open>C21: a \<open>hxflat_set\<close> over a sorted array of keys is a sorted set or multiset. \<open>find\<close> and \<open>count\<close> see
  exactly the keys equivalent to the argument; \<open>insert\<close> refuses a duplicate unless the set is
  a multiset, stops the program when the storage is full, and otherwise keeps the keys sorted;
  \<open>erase\<close> removes exactly the equivalent keys and returns their number.\<close>

theorem flat_set_refines_sorted_list:
  assumes order: "flat_order lt tr" and rel: "fs_rel s xs" and sorted: "flat_order.flat_sorted lt tr xs"
  shows "(flat_set_find tr s k = Inr (if flat_matches lt xs k = [] then length xs else hxlower_bound lt xs k)) \<and>
    (flat_set_count tr s k = Inr (int (length (flat_matches lt xs k)))) \<and>
    (if \<not> flat_multi tr \<and> flat_matches lt xs k \<noteq> [] then flat_set_insert moved tr s k = Inr (s, hxlower_bound lt xs k)
     else if length xs < fs_room s
     then \<exists>i ys. fs_holds s (flat_set_insert moved tr s k) ys i \<and> ys = take i xs @ k # drop i xs \<and> flat_order.flat_sorted lt tr ys
     else flat_set_insert moved tr s k = Inl (Assert_hard ''bad_alloc already sized'')) \<and>
    (\<exists>ys. fs_holds s (flat_set_erase moved tr s k) ys (int (length (flat_matches lt xs k))) \<and>
       ys = flat_rest lt xs k \<and> flat_order.flat_sorted lt tr ys)"
proof (intro conjI)
  have has: "flat_matches lt xs k \<noteq> [] \<longleftrightarrow> flat_order.flat_has lt xs k"
    by (auto simp: flat_matches_def flat_order.flat_has_def [OF order] filter_empty_conv)
  show "flat_set_find tr s k = Inr (if flat_matches lt xs k = [] then length xs else hxlower_bound lt xs k)"
    using flat_order.flat_set_find_rel [OF order rel sorted, of k] has by auto
  show "flat_set_count tr s k = Inr (int (length (flat_matches lt xs k)))"
    unfolding flat_matches_def by (rule flat_order.flat_set_count_rel [OF order rel sorted])
  have keep: "flat_multi tr \<or> flat_matches lt xs k = [] \<Longrightarrow>
      flat_order.flat_sorted lt tr (take (hxlower_bound lt xs k) xs @ k # drop (hxlower_bound lt xs k) xs)"
    using flat_order.flat_insert_lower [OF order sorted, of k] has by blast
  show "if \<not> flat_multi tr \<and> flat_matches lt xs k \<noteq> [] then flat_set_insert moved tr s k = Inr (s, hxlower_bound lt xs k)
      else if length xs < fs_room s
      then \<exists>i ys. fs_holds s (flat_set_insert moved tr s k) ys i \<and> ys = take i xs @ k # drop i xs \<and> flat_order.flat_sorted lt tr ys
      else flat_set_insert moved tr s k = Inl (Assert_hard ''bad_alloc already sized'')"
    using flat_order.flat_set_insert_rel [OF order rel sorted, of k moved] has keep by (auto split: if_splits)
  show "\<exists>ys. fs_holds s (flat_set_erase moved tr s k) ys (int (length (flat_matches lt xs k))) \<and>
      ys = flat_rest lt xs k \<and> flat_order.flat_sorted lt tr ys"
    unfolding flat_matches_def flat_rest_def
    using flat_order.flat_set_erase_rel [OF order rel sorted, of moved k] flat_order.flat_sorted_filter [OF order sorted] by blast
qed

theorem flat_set_refines_sorted_list_witness:
  "flat_set_count (num_flat False) example_flat_set 5 = Inr 1 \<and>
   (\<exists>ys. fs_holds example_flat_set (flat_set_erase uminus (num_flat False) example_flat_set 5) ys 1 \<and> ys = [3, 8])"
  using flat_set_refines_sorted_list [OF flat_num.flat_order_axioms example_flat_set_rel example_flat_set_sorted, where k = 5 and moved = uminus]
  by (auto simp: hxkey_less_num_def flat_matches_def flat_rest_def)

text \<open>\<open>add_range\<close> appends and sorts, so the array holds all the old and new keys sorted; with
  \<open>is_correct\<close> it only appends, and its debug check accepts the result if and only if it is sorted.
  For a set without \<open>hxtrait_multi\<close> that is not the strict order the header asks for: equal
  neighbours pass the check.\<close>

lemma flat_set_add_range_sorts:
  assumes order: "flat_order lt tr" and rel: "fs_rel s xs" and room: "length xs + length ys \<le> fs_room s"
    and sorted: "sorted_wrt (\<lambda>x y. \<not> lt y x) xs" and size: "\<not> 2 ^ 32 dvd length (xs @ ys)"
  shows "(\<exists>s' zs. flat_set_add_range tr s False ys = Inr s' \<and> fs_rel s' zs \<and> mset zs = mset xs + mset ys \<and>
      sorted_wrt (\<lambda>x y. \<not> lt y x) zs) \<and>
    (if sorted_wrt (\<lambda>x y. \<not> lt y x) (xs @ ys)
     then \<exists>s'. flat_set_add_range tr s True ys = Inr s' \<and> fs_rel s' (xs @ ys)
     else flat_set_add_range tr s True ys = Inl (Assert_debug ''bad_ordering''))"
  using flat_order.flat_set_add_range_rel(1) [OF order rel room size] flat_order.flat_set_add_range_rel(2,3) [OF order rel room sorted]
  by presburger

lemma flat_set_add_range_sorts_witness:
  "\<exists>s'. flat_set_add_range (num_flat False) example_flat_set True [8] = Inr s' \<and> fs_rel s' [3, 5, 8, 8]"
proof -
  have "\<not> (2 :: nat) ^ 32 dvd 4" by (rule nat_dvd_not_less) simp_all
  moreover have "length ([3, 5, 8] @ [8 :: int]) = 4" by simp
  ultimately have "\<not> 2 ^ 32 dvd length ([3, 5, 8] @ [8 :: int])" by metis
  from flat_set_add_range_sorts [OF flat_num.flat_order_axioms example_flat_set_rel _ _ this, of False]
  show ?thesis by (simp add: example_flat_set_room hxkey_less_num_def)
qed

end
