(* ===== verification/HxFlatMap.thy ===== *)
theory HxFlatMap
  imports HxFlat
begin

text \<open>
  The sorted map of \<^verbatim>\<open>include/hx/hxflat_map.hpp\<close> and \<^verbatim>\<open>detail/hxflat_map.inl\<close>: two parallel arrays of
  live objects and one size. The operations on the map give the index of the iterator they return;
  an iterator itself holds the map it belongs to, here a number, and an index. The
  map is sorted as an array of pairs, which is what \<open>sort_iterator_\<close> shows to \<open>hxsort\<close>.
\<close>

section \<open>State\<close>

record ('k, 'v) hxflat_map =
  fm_size :: nat
  fm_keys :: "'k hxallocator"
  fm_values :: "'v hxallocator"

definition fm_set :: "('k, 'v) hxflat_map \<Rightarrow> 'k option list \<times> 'v option list \<Rightarrow> nat \<Rightarrow> ('k, 'v) hxflat_map" where
  "fm_set m kv n =
     m\<lparr>fm_size := n, fm_keys := (fm_keys m)\<lparr>al_data := fst kv\<rparr>, fm_values := (fm_values m)\<lparr>al_data := snd kv\<rparr>\<rparr>"

definition flat_map_key_range :: "('k, 'v) hxflat_map \<Rightarrow> 'k list hx" where
  "flat_map_key_range m = read_slots (al_data (fm_keys m)) [0..<fm_size m]"

definition flat_map_pairs :: "('k, 'v) hxflat_map \<Rightarrow> ('k \<times> 'v) list hx" where
  "flat_map_pairs m =
     hx_bind (flat_map_key_range m) (\<lambda>ks. hx_map (zip ks) (read_slots (al_data (fm_values m)) [0..<fm_size m]))"

definition flat_map_capacity :: "('k, 'v) hxflat_map \<Rightarrow> hxsize_t" where
  "flat_map_capacity m = al_capacity (fm_keys m)"

section \<open>Iterators\<close>

record flat_map_iter =
  it_map :: "nat option"
  it_index :: hxsize_t

definition flat_map_iter_end :: flat_map_iter where
  "flat_map_iter_end = \<lparr>it_map = None, it_index = 0\<rparr>"

definition iter_add :: "nat \<Rightarrow> flat_map_iter \<Rightarrow> hxsize_t \<Rightarrow> flat_map_iter hx" where
  "iter_add sz it n =
     (let it1 = it\<lparr>it_index := it_index it + n\<rparr>
      in if it_map it1 = None then Inl (Assert_debug ''bad_iter'')
         else if \<not> (word_of_int (it_index it1) :: size_t) \<le> word_of_int (int sz) then Inl (Assert_debug ''bad_iter'')
         else Inr it1)"

definition iter_sub :: "nat \<Rightarrow> flat_map_iter \<Rightarrow> hxsize_t \<Rightarrow> flat_map_iter hx" where
  "iter_sub sz it n = iter_add sz it (- n)"

definition iter_distance :: "flat_map_iter \<Rightarrow> flat_map_iter \<Rightarrow> hxsize_t hx" where
  "iter_distance it x =
     (if \<not> (it_map it \<noteq> None \<and> it_map it = it_map x) then Inl (Assert_debug ''bad_iter'') else Inr (it_index it - it_index x))"

definition iter_equal :: "flat_map_iter \<Rightarrow> flat_map_iter \<Rightarrow> bool hx" where
  "iter_equal it x =
     (if \<not> (it_map it \<noteq> None \<and> it_map it = it_map x) then Inl (Assert_debug ''bad_iter'') else Inr (it_index it = it_index x))"

definition iter_less :: "flat_map_iter \<Rightarrow> flat_map_iter \<Rightarrow> bool hx" where
  "iter_less it x =
     (if \<not> (it_map it \<noteq> None \<and> it_map it = it_map x) then Inl (Assert_debug ''bad_iter'') else Inr (it_index it < it_index x))"

definition iter_check :: "nat \<Rightarrow> flat_map_iter \<Rightarrow> unit hx" where
  "iter_check sz it =
     (if it_map it = None then Inl (Assert_debug ''bad_iter'')
      else if \<not> (word_of_int (it_index it) :: size_t) < word_of_int (int sz) then Inl (Assert_debug ''bad_iter'')
      else Inr ())"

definition iter_key :: "('k, 'v) hxflat_map \<Rightarrow> flat_map_iter \<Rightarrow> 'k hx" where
  "iter_key m it = hx_bind (iter_check (fm_size m) it) (\<lambda>_. read_slot (al_data (fm_keys m)) (nat (it_index it)))"

definition iter_value :: "('k, 'v) hxflat_map \<Rightarrow> flat_map_iter \<Rightarrow> 'v hx" where
  "iter_value m it = hx_bind (iter_check (fm_size m) it) (\<lambda>_. read_slot (al_data (fm_values m)) (nat (it_index it)))"

definition iter_deref :: "('k, 'v) hxflat_map \<Rightarrow> flat_map_iter \<Rightarrow> ('k \<times> 'v) hx" where
  "iter_deref m it = hx_bind (iter_key m it) (\<lambda>k. hx_map (\<lambda>v. (k, v)) (iter_value m it))"

definition iter_at :: "('k, 'v) hxflat_map \<Rightarrow> flat_map_iter \<Rightarrow> hxsize_t \<Rightarrow> ('k \<times> 'v) hx" where
  "iter_at m it n = hx_bind (iter_add (fm_size m) it n) (\<lambda>it1. iter_deref m it1)"

section \<open>Operations\<close>

definition flat_map_new :: "hxsize_t \<Rightarrow> ('k, 'v) hxflat_map" where
  "flat_map_new fixed = \<lparr>fm_size = 0, fm_keys = hxallocator_new fixed False, fm_values = hxallocator_new fixed False\<rparr>"

definition flat_map_reserve :: "('k, 'v) hxflat_map \<Rightarrow> hxsize_t \<Rightarrow> ('k, 'v) hxflat_map hx" where
  "flat_map_reserve m sz =
     hx_bind (reserve_storage sz (fm_keys m)) (\<lambda>k. hx_map (\<lambda>v. m\<lparr>fm_keys := k, fm_values := v\<rparr>) (reserve_storage sz (fm_values m)))"

definition flat_map_clear :: "('k, 'v) hxflat_map \<Rightarrow> ('k, 'v) hxflat_map hx" where
  "flat_map_clear m =
     hx_map (\<lambda>kv. fm_set m kv 0) (destruct_pairs (al_data (fm_keys m), al_data (fm_values m)) [0..<fm_size m])"

fun construct_pairs :: "'k option list \<times> 'v option list \<Rightarrow> nat \<Rightarrow> ('k \<times> 'v) list \<Rightarrow> ('k option list \<times> 'v option list) hx" where
  "construct_pairs (k, v) i [] = Inr (k, v)"
| "construct_pairs (k, v) i (p # ps) =
     hx_bind (construct_slot k i (fst p)) (\<lambda>k1. hx_bind (construct_slot v i (snd p)) (\<lambda>v1. construct_pairs (k1, v1) (i + 1) ps))"

definition flat_map_assign :: "('k, 'v) hxflat_map \<Rightarrow> ('k, 'v) hxflat_map \<Rightarrow> ('k, 'v) hxflat_map hx" where
  "flat_map_assign m x =
     hx_bind (flat_map_clear m) (\<lambda>m1.
     if \<not> int (fm_size x) \<le> flat_map_capacity m1 then Inl (Assert_hard ''hxflat_map capacity exceeded'')
     else hx_bind (flat_map_pairs x) (\<lambda>ps.
          hx_map (\<lambda>kv. fm_set m1 kv (fm_size x)) (construct_pairs (al_data (fm_keys m1), al_data (fm_values m1)) 0 ps)))"

definition flat_map_copy :: "hxsize_t \<Rightarrow> ('k, 'v) hxflat_map \<Rightarrow> ('k, 'v) hxflat_map hx" where
  "flat_map_copy fixed x =
     (let m = flat_map_new fixed
      in hx_bind (if flat_map_capacity m = 0 then flat_map_reserve m (int (fm_size x)) else Inr m) (\<lambda>m1. flat_map_assign m1 x))"

definition flat_map_move :: "('k, 'v) hxflat_map \<Rightarrow> ('k, 'v) hxflat_map \<times> ('k, 'v) hxflat_map" where
  "flat_map_move x = (x, flat_map_new hxallocator_dynamic_capacity)"

definition flat_map_swap :: "('k, 'v) hxflat_map \<Rightarrow> ('k, 'v) hxflat_map \<Rightarrow> ('k, 'v) hxflat_map \<times> ('k, 'v) hxflat_map" where
  "flat_map_swap m x = (x, m)"

definition flat_map_at :: "('k, 'v) hxflat_map \<Rightarrow> hxsize_t \<Rightarrow> hxsize_t hx" where
  "flat_map_at m index =
     (if \<not> (word_of_int index :: size_t) < word_of_int (int (fm_size m)) then Inl (Assert_hard ''bad_index'') else Inr index)"

definition flat_map_equal :: "('k \<times> 'v \<Rightarrow> 'k \<times> 'v \<Rightarrow> bool) \<Rightarrow> ('k, 'v) hxflat_map \<Rightarrow> ('k, 'v) hxflat_map \<Rightarrow> bool hx" where
  "flat_map_equal equal m x = hx_bind (flat_map_pairs m) (\<lambda>xs. hx_map (hxequal_range equal xs) (flat_map_pairs x))"

definition flat_map_less ::
    "('k \<times> 'v \<Rightarrow> 'k \<times> 'v \<Rightarrow> bool) \<Rightarrow> ('k \<times> 'v \<Rightarrow> 'k \<times> 'v \<Rightarrow> bool) \<Rightarrow> ('k, 'v) hxflat_map \<Rightarrow> ('k, 'v) hxflat_map \<Rightarrow> bool hx" where
  "flat_map_less equal lt m x = hx_bind (flat_map_pairs m) (\<lambda>xs. hx_map (hxless_range equal lt xs) (flat_map_pairs x))"

fun flat_map_add_loop :: "hxsize_t \<Rightarrow> 'k option list \<times> 'v option list \<Rightarrow> nat \<Rightarrow> ('k \<times> 'v) list \<Rightarrow>
    (('k option list \<times> 'v option list) \<times> nat) hx" where
  "flat_map_add_loop capacity (k, v) sz [] = Inr ((k, v), sz)"
| "flat_map_add_loop capacity (k, v) sz (p # ps) =
     (if \<not> int sz < capacity then Inl (Assert_debug ''bad_alloc already sized'')
      else hx_bind (construct_slot k sz (fst p)) (\<lambda>k1. hx_bind (construct_slot v sz (snd p)) (\<lambda>v1.
           flat_map_add_loop capacity (k1, v1) (sz + 1) ps)))"

definition flat_map_add_range :: "'k flat_traits \<Rightarrow> ('k, 'v) hxflat_map \<Rightarrow> bool \<Rightarrow> ('k \<times> 'v) list \<Rightarrow> ('k, 'v) hxflat_map hx" where
  "flat_map_add_range tr m is_correct ps =
     hx_bind (flat_map_add_loop (flat_map_capacity m) (al_data (fm_keys m), al_data (fm_values m)) (fm_size m) ps) (\<lambda>(kv, sz).
     if \<not> int sz \<le> flat_map_capacity m then Inl (Assert_hard ''bad_alloc already sized'')
     else let m1 = fm_set m kv sz
          in if \<not> is_correct
             then hx_bind (flat_map_pairs m1) (\<lambda>qs.
                  hx_bind (hxsort (\<lambda>a b. hxcompare_before (flat_compare tr) (fst a) (fst b)) qs 0 sz) (\<lambda>rs.
                  hx_bind (write_slots (fst kv) 0 (map fst rs)) (\<lambda>k1.
                  hx_map (\<lambda>v1. fm_set m (k1, v1) sz) (write_slots (snd kv) 0 (map snd rs)))))
             else hx_bind (flat_map_key_range m1) (\<lambda>ks.
                  if \<not> flat_correct tr ks (fm_size m) then Inl (Assert_debug ''bad_ordering'') else Inr m1))"

definition flat_map_of_list :: "'k flat_traits \<Rightarrow> hxsize_t \<Rightarrow> ('k \<times> 'v) list \<Rightarrow> ('k, 'v) hxflat_map hx" where
  "flat_map_of_list tr fixed ps =
     (let m = flat_map_new fixed
      in hx_bind (if flat_map_capacity m = 0 then flat_map_reserve m (int (length ps)) else Inr m) (\<lambda>m1.
         flat_map_add_range tr m1 True ps))"

definition flat_map_count :: "'k flat_traits \<Rightarrow> ('k, 'v) hxflat_map \<Rightarrow> 'k \<Rightarrow> hxsize_t hx" where
  "flat_map_count tr m key =
     hx_map (\<lambda>ks.
       if \<not> flat_multi tr then if hxbinary_search (flat_compare tr) ks key then 1 else 0
       else let it = hxlower_bound_iterator (flat_compare tr) ks key
            in int (hxupper_bound_iterator (flat_compare tr) (drop it ks) key)) (flat_map_key_range m)"

definition flat_map_find :: "'k flat_traits \<Rightarrow> ('k, 'v) hxflat_map \<Rightarrow> 'k \<Rightarrow> nat hx" where
  "flat_map_find tr m key =
     hx_map (\<lambda>ks. let lo = hxlower_bound_pair (flat_compare tr) ks key in if snd lo then fst lo else fm_size m) (flat_map_key_range m)"

definition flat_map_has_value :: "'k flat_traits \<Rightarrow> ('k, 'v) hxflat_map \<Rightarrow> 'k \<Rightarrow> bool hx" where
  "flat_map_has_value tr m key = hx_map (\<lambda>it. it \<noteq> fm_size m) (flat_map_find tr m key)"

definition flat_map_lower_bound :: "'k flat_traits \<Rightarrow> ('k, 'v) hxflat_map \<Rightarrow> 'k \<Rightarrow> nat hx" where
  "flat_map_lower_bound tr m key = hx_map (\<lambda>ks. hxlower_bound_iterator (flat_compare tr) ks key) (flat_map_key_range m)"

definition flat_map_upper_bound :: "'k flat_traits \<Rightarrow> ('k, 'v) hxflat_map \<Rightarrow> 'k \<Rightarrow> nat hx" where
  "flat_map_upper_bound tr m key = hx_map (\<lambda>ks. hxupper_bound_iterator (flat_compare tr) ks key) (flat_map_key_range m)"

text \<open>A position of both arrays is moved from, then constructed behind the end.\<close>

definition grow_slot :: "('a \<Rightarrow> 'a) \<Rightarrow> 'a option list \<Rightarrow> nat \<Rightarrow> 'a option list hx" where
  "grow_slot moved m sz =
     hx_bind (read_slot m (sz - 1)) (\<lambda>y. hx_bind (assign_slot m (sz - 1) (moved y)) (\<lambda>m1. construct_slot m1 sz y))"

text \<open>\<open>insert_at_\<close> opens a gap at \<open>index\<close> in both arrays, for a key that does not lie in them.\<close>

definition flat_map_insert_at ::
    "('k \<Rightarrow> 'k) \<Rightarrow> ('v \<Rightarrow> 'v) \<Rightarrow> ('k, 'v) hxflat_map \<Rightarrow> nat \<Rightarrow> 'k \<Rightarrow> 'v \<Rightarrow> (('k, 'v) hxflat_map \<times> nat) hx" where
  "flat_map_insert_at mk mv m index key mapped =
     (let sz = fm_size m; k = al_data (fm_keys m); v = al_data (fm_values m)
      in if \<not> int sz < flat_map_capacity m then Inl (Assert_hard ''bad_alloc already sized'')
         else hx_map (\<lambda>kv. (fm_set m kv (sz + 1), index))
           (if sz > index
            then hx_bind (grow_slot mk k sz) (\<lambda>k1. hx_bind (grow_slot mv v sz) (\<lambda>v1.
                 hx_bind (shift_up_pair mk mv (k1, v1) index (sz - 1)) (\<lambda>(k2, v2).
                 hx_bind (assign_slot k2 index key) (\<lambda>k3. hx_map (\<lambda>v3. (k3, v3)) (assign_slot v2 index mapped)))))
            else hx_bind (construct_slot k index key) (\<lambda>k1. hx_map (\<lambda>v1. (k1, v1)) (construct_slot v index mapped))))"

definition flat_map_insert ::
    "('k \<Rightarrow> 'k) \<Rightarrow> ('v \<Rightarrow> 'v) \<Rightarrow> 'k flat_traits \<Rightarrow> ('k, 'v) hxflat_map \<Rightarrow> 'k \<Rightarrow> 'v \<Rightarrow> (('k, 'v) hxflat_map \<times> nat) hx" where
  "flat_map_insert mk mv tr m key mapped =
     hx_bind (flat_map_key_range m) (\<lambda>ks.
       if \<not> flat_multi tr
       then let lo = hxlower_bound_pair (flat_compare tr) ks key
            in if snd lo then Inr (m, fst lo) else flat_map_insert_at mk mv m (fst lo) key mapped
       else flat_map_insert_at mk mv m (hxlower_bound_iterator (flat_compare tr) ks key) key mapped)"

text \<open>\<open>emplace\<close> constructs the value only when it is inserted, \<open>emplace_back\<close> always.\<close>

definition flat_map_emplace ::
    "('k \<Rightarrow> 'k) \<Rightarrow> ('v \<Rightarrow> 'v) \<Rightarrow> 'k flat_traits \<Rightarrow> ('k, 'v) hxflat_map \<Rightarrow> 'k \<Rightarrow> ('b \<Rightarrow> 'v) \<Rightarrow> 'b \<Rightarrow> (('k, 'v) hxflat_map \<times> nat) hx" where
  "flat_map_emplace mk mv tr m key constructor args =
     hx_bind (flat_map_key_range m) (\<lambda>ks.
       if \<not> flat_multi tr
       then let lo = hxlower_bound_pair (flat_compare tr) ks key
            in if snd lo then Inr (m, fst lo) else flat_map_insert_at mk mv m (fst lo) key (constructor args)
       else flat_map_insert_at mk mv m (hxlower_bound_iterator (flat_compare tr) ks key) key (constructor args))"

definition flat_map_push_back ::
    "('k \<Rightarrow> 'k) \<Rightarrow> ('v \<Rightarrow> 'v) \<Rightarrow> 'k flat_traits \<Rightarrow> ('k, 'v) hxflat_map \<Rightarrow> 'k \<Rightarrow> 'v \<Rightarrow> (('k, 'v) hxflat_map \<times> nat) hx" where
  "flat_map_push_back mk mv tr m key mapped =
     hx_bind (flat_map_key_range m) (\<lambda>ks.
       if ordered_after tr ks key then flat_map_insert_at mk mv m (fm_size m) key mapped else flat_map_insert mk mv tr m key mapped)"

definition flat_map_emplace_back ::
    "('k \<Rightarrow> 'k) \<Rightarrow> ('v \<Rightarrow> 'v) \<Rightarrow> 'k flat_traits \<Rightarrow> ('k, 'v) hxflat_map \<Rightarrow> 'k \<Rightarrow> ('b \<Rightarrow> 'v) \<Rightarrow> 'b \<Rightarrow> (('k, 'v) hxflat_map \<times> nat) hx" where
  "flat_map_emplace_back mk mv tr m key constructor args =
     hx_bind (flat_map_key_range m) (\<lambda>ks.
       let after = ordered_after tr ks key; mapped = constructor args
       in if after then flat_map_insert_at mk mv m (fm_size m) key mapped else flat_map_insert mk mv tr m key mapped)"

text \<open>\<open>erase\<close>: the tail is moved down over the erased positions, which is the loop \<open>move_block_pair\<close>.\<close>

definition flat_map_erase_it :: "('k \<Rightarrow> 'k) \<Rightarrow> ('v \<Rightarrow> 'v) \<Rightarrow> ('k, 'v) hxflat_map \<Rightarrow> nat \<Rightarrow> (('k, 'v) hxflat_map \<times> nat) hx" where
  "flat_map_erase_it mk mv m index =
     (if \<not> index < fm_size m then Inl (Assert_debug ''bad_iter'')
      else let n = fm_size m - 1
           in hx_bind (move_block_pair mk mv (al_data (fm_keys m), al_data (fm_values m)) index (index + 1) (fm_size m)) (\<lambda>kv.
              hx_map (\<lambda>kv1. (fm_set m kv1 n, index)) (destruct_pairs kv [n])))"

definition flat_map_erase :: "('k \<Rightarrow> 'k) \<Rightarrow> ('v \<Rightarrow> 'v) \<Rightarrow> 'k flat_traits \<Rightarrow> ('k, 'v) hxflat_map \<Rightarrow> 'k \<Rightarrow> (('k, 'v) hxflat_map \<times> hxsize_t) hx" where
  "flat_map_erase mk mv tr m key =
     hx_bind (flat_map_key_range m) (\<lambda>ks.
       if \<not> flat_multi tr
       then let lo = hxlower_bound_pair (flat_compare tr) ks key
            in if \<not> snd lo then Inr (m, 0) else hx_map (\<lambda>(m1, _). (m1, 1)) (flat_map_erase_it mk mv m (fst lo))
       else let index = hxlower_bound_iterator (flat_compare tr) ks key;
                hi = index + hxupper_bound_iterator (flat_compare tr) (drop index ks) key;
                count = hi - index
            in if count = 0 then Inr (m, 0)
               else hx_bind (move_block_pair mk mv (al_data (fm_keys m), al_data (fm_values m)) index hi (fm_size m)) (\<lambda>kv.
                    hx_map (\<lambda>kv1. (fm_set m kv1 (fm_size m - count), int count)) (destruct_pairs kv [fm_size m - count..<fm_size m])))"

text \<open>The lookups of C++23, by key and by iterator.\<close>

definition flat_map_and_then_it :: "('k, 'v) hxflat_map \<Rightarrow> nat \<Rightarrow> ('v \<Rightarrow> 'r option) \<Rightarrow> 'r option hx" where
  "flat_map_and_then_it m it callable =
     (if it \<noteq> fm_size m then hx_map callable (iter_value m \<lparr>it_map = Some 0, it_index = int it\<rparr>) else Inr None)"

definition flat_map_and_then :: "'k flat_traits \<Rightarrow> ('k, 'v) hxflat_map \<Rightarrow> 'k \<Rightarrow> ('v \<Rightarrow> 'r option) \<Rightarrow> 'r option hx" where
  "flat_map_and_then tr m key callable = hx_bind (flat_map_find tr m key) (\<lambda>it.
     if it \<noteq> fm_size m then hx_map callable (iter_value m \<lparr>it_map = Some 0, it_index = int it\<rparr>) else Inr None)"

definition flat_map_or_else_it :: "('k, 'v) hxflat_map \<Rightarrow> nat \<Rightarrow> nat \<Rightarrow> nat" where
  "flat_map_or_else_it m it alternative = (if it \<noteq> fm_size m then it else alternative)"

definition flat_map_or_else :: "'k flat_traits \<Rightarrow> ('k, 'v) hxflat_map \<Rightarrow> 'k \<Rightarrow> nat \<Rightarrow> nat hx" where
  "flat_map_or_else tr m key alternative = hx_map (\<lambda>it. if it \<noteq> fm_size m then it else alternative) (flat_map_find tr m key)"

definition flat_map_value_or_it :: "('k, 'v) hxflat_map \<Rightarrow> nat \<Rightarrow> 'v \<Rightarrow> 'v hx" where
  "flat_map_value_or_it m it alternative =
     (if it \<noteq> fm_size m then iter_value m \<lparr>it_map = Some 0, it_index = int it\<rparr> else Inr alternative)"

definition flat_map_value_or :: "'k flat_traits \<Rightarrow> ('k, 'v) hxflat_map \<Rightarrow> 'k \<Rightarrow> 'v \<Rightarrow> 'v hx" where
  "flat_map_value_or tr m key alternative = hx_bind (flat_map_find tr m key) (\<lambda>it.
     if it \<noteq> fm_size m then iter_value m \<lparr>it_map = Some 0, it_index = int it\<rparr> else Inr alternative)"

section \<open>The abstraction\<close>

abbreviation fm_room :: "('k, 'v) hxflat_map \<Rightarrow> nat" where
  "fm_room m \<equiv> nat (flat_map_capacity m)"

definition live_store :: "'a hxallocator \<Rightarrow> 'a list \<Rightarrow> bool" where
  "live_store al xs \<longleftrightarrow> allocator_ok al \<and> \<not> al_pow2 al \<and> length xs \<le> nat (al_capacity al) \<and> al_data al = live_prefix xs (nat (al_capacity al))"

definition fm_rel :: "('k, 'v) hxflat_map \<Rightarrow> ('k \<times> 'v) list \<Rightarrow> bool" where
  "fm_rel m ps \<longleftrightarrow> fm_size m = length ps \<and> al_capacity (fm_values m) = al_capacity (fm_keys m) \<and>
     live_store (fm_keys m) (map fst ps) \<and> live_store (fm_values m) (map snd ps)"

lemma fm_relD:
  assumes "fm_rel m ps"
  shows "fm_size m = length ps" and "length ps \<le> fm_room m" and "al_data (fm_keys m) = live_prefix (map fst ps) (fm_room m)"
    and "al_data (fm_values m) = live_prefix (map snd ps) (fm_room m)" and "0 \<le> flat_map_capacity m"
    and "flat_map_key_range m = Inr (map fst ps)"
  using assms read_all_live [of "map fst ps" "fm_room m"]
  by (auto simp: fm_rel_def live_store_def allocator_ok_def flat_map_capacity_def flat_map_key_range_def)

lemma live_store_update:
  assumes "live_store al xs" and "length ys \<le> nat (al_capacity al)"
  shows "live_store (al\<lparr>al_data := live_prefix ys (nat (al_capacity al))\<rparr>) ys"
proof -
  have "length (al_data al) = nat (al_capacity al)" using assms(1) by (simp add: live_store_def)
  then show ?thesis using assms by (auto simp: live_store_def allocator_ok_def)
qed

lemma fm_set_rel:
  assumes "fm_rel m ps" and "length qs \<le> fm_room m"
  shows "fm_rel (fm_set m (live_prefix (map fst qs) (fm_room m), live_prefix (map snd qs) (fm_room m)) (length qs)) qs"
    and "fm_room (fm_set m kv n) = fm_room m"
  using assms live_store_update [of "fm_keys m" "map fst ps" "map fst qs"] live_store_update [of "fm_values m" "map snd ps" "map snd qs"]
  by (auto simp: fm_rel_def fm_set_def flat_map_capacity_def)

lemma flat_map_pairs_rel: "fm_rel m ps \<Longrightarrow> flat_map_pairs m = Inr ps"
  using fm_relD [of m ps] read_all_live [of "map snd ps" "fm_room m"] by (simp add: flat_map_pairs_def zip_map_fst_snd)

lemma live_store_new: "0 \<le> fixed \<Longrightarrow> live_store (hxallocator_new fixed False) []"
  using allocator_new_ok [of fixed False]
  by (auto simp: live_store_def hxallocator_new_def live_prefix_def element_count_def hxallocator_dynamic_capacity_def)

lemma fm_rel_new: "0 \<le> fixed \<Longrightarrow> fm_rel (flat_map_new fixed) []"
  by (simp add: fm_rel_def flat_map_new_def live_store_new) (simp add: hxallocator_new_def)

definition fm_holds :: "('k, 'v) hxflat_map \<Rightarrow> (('k, 'v) hxflat_map \<times> 'r) hx \<Rightarrow> ('k \<times> 'v) list \<Rightarrow> 'r \<Rightarrow> bool" where
  "fm_holds m r qs x \<longleftrightarrow> (\<exists>m'. r = Inr (m', x) \<and> fm_rel m' qs \<and> fm_room m' = fm_room m)"

lemma fm_holdsI:
  assumes "fm_rel m ps" and "length qs \<le> fm_room m"
    and "r = Inr (fm_set m (live_prefix (map fst qs) (fm_room m), live_prefix (map snd qs) (fm_room m)) (length qs), x)"
  shows "fm_holds m r qs x"
  using fm_set_rel [OF assms(1,2)] assms(3) by (auto simp: fm_holds_def)

lemma fm_holds_same: "fm_rel m ps \<Longrightarrow> fm_holds m (Inr (m, x)) ps x"
  by (auto simp: fm_holds_def)

lemma fm_full_iff: "fm_rel m ps \<Longrightarrow> int (fm_size m) < flat_map_capacity m \<longleftrightarrow> length ps < fm_room m"
  using fm_relD [of m ps] by auto

lemma map_insert_at: "take i (map f xs) @ f x # drop i (map f xs) = map f (take i xs @ x # drop i xs)"
  by (simp add: take_map drop_map)

lemma grow_gap_live:
  assumes "i < length xs" and "length xs < c"
  shows "\<exists>m2 m3. grow_slot moved (live_prefix xs c) (length xs) = Inr m2 \<and> shift_up moved m2 i (length xs - 1) = Inr m3 \<and>
    assign_slot m3 i x = Inr (live_prefix (take i xs @ x # drop i xs) c)"
  using open_gap_live [OF assms, of moved x] assms by (auto simp: grow_slot_def read_slot_live)

lemma flat_map_insert_at_rel:
  assumes rel: "fm_rel m ps" and i: "i \<le> length ps"
  shows "if length ps < fm_room m then fm_holds m (flat_map_insert_at mk mv m i k v) (take i ps @ (k, v) # drop i ps) i
    else flat_map_insert_at mk mv m i k v = Inl (Assert_hard ''bad_alloc already sized'')"
proof (cases "length ps < fm_room m")
  case True
  note m = fm_relD [OF rel]
  let ?qs = "take i ps @ (k, v) # drop i ps" and ?c = "fm_room m"
  have keys: "map fst ?qs = take i (map fst ps) @ k # drop i (map fst ps)"
    and vals: "map snd ?qs = take i (map snd ps) @ v # drop i (map snd ps)"
    by (simp_all add: take_map drop_map)
  have "flat_map_insert_at mk mv m i k v = Inr (fm_set m (live_prefix (map fst ?qs) ?c, live_prefix (map snd ?qs) ?c) (Suc (length ps)), i)"
  proof (cases "i = length ps")
    case True
    then show ?thesis
      using \<open>length ps < fm_room m\<close> m construct_slot_live [of "map fst ps" ?c k] construct_slot_live [of "map snd ps" ?c v] fm_full_iff [OF rel]
      by (simp add: flat_map_insert_at_def Let_def)
  next
    case False
    then have less: "i < length ps" using i by simp
    obtain k2 k3 where k: "grow_slot mk (live_prefix (map fst ps) ?c) (length ps) = Inr k2" "shift_up mk k2 i (length ps - 1) = Inr k3"
      "assign_slot k3 i k = Inr (live_prefix (map fst ?qs) ?c)"
      using grow_gap_live [of i "map fst ps" ?c mk k] less True unfolding keys by auto
    obtain v2 v3 where v: "grow_slot mv (live_prefix (map snd ps) ?c) (length ps) = Inr v2" "shift_up mv v2 i (length ps - 1) = Inr v3"
      "assign_slot v3 i v = Inr (live_prefix (map snd ?qs) ?c)"
      using grow_gap_live [of i "map snd ps" ?c mv v] less True unfolding vals by auto
    have "shift_up_pair mk mv (k2, v2) i (length ps - 1) = Inr (k3, v3)"
      using less by (intro shift_up_pair_split [OF _ k(2) v(2)]) simp
    then show ?thesis
      using True less m k(1,3) v(1,3) fm_full_iff [OF rel] by (simp add: flat_map_insert_at_def Let_def)
  qed
  moreover have "length ?qs = Suc (length ps)" using i by simp
  ultimately have "fm_holds m (flat_map_insert_at mk mv m i k v) ?qs i"
    using True by (intro fm_holdsI [OF rel]) simp_all
  then show ?thesis using True by simp
next
  case False
  then show ?thesis using fm_full_iff [OF rel] by (simp add: flat_map_insert_at_def Let_def)
qed

text \<open>Cutting the positions from \<open>a\<close> up to \<open>b\<close> out of both arrays.\<close>

lemma cut_pairs_live:
  assumes rel: "fm_rel m ps" and ab: "a < b" "b \<le> length ps"
  shows "\<exists>kv. move_block_pair mk mv (al_data (fm_keys m), al_data (fm_values m)) a b (fm_size m) = Inr kv \<and>
    destruct_pairs kv [length ps - (b - a)..<length ps] =
      Inr (live_prefix (map fst (take a ps @ drop b ps)) (fm_room m), live_prefix (map snd (take a ps @ drop b ps)) (fm_room m))"
proof -
  note m = fm_relD [OF rel]
  obtain k1 where k1: "move_block mk (live_prefix (map fst ps) (fm_room m)) a b (length ps) = Inr k1"
    "destruct_slots k1 [length ps - (b - a)..<length ps] = Inr (live_prefix (take a (map fst ps) @ drop b (map fst ps)) (fm_room m))"
    using close_gap_live [OF ab(1), of "map fst ps" "fm_room m" mk] ab(2) m(2) by auto
  obtain v1 where v1: "move_block mv (live_prefix (map snd ps) (fm_room m)) a b (length ps) = Inr v1"
    "destruct_slots v1 [length ps - (b - a)..<length ps] = Inr (live_prefix (take a (map snd ps) @ drop b (map snd ps)) (fm_room m))"
    using close_gap_live [OF ab(1), of "map snd ps" "fm_room m" mv] ab(2) m(2) by auto
  show ?thesis
    unfolding m(1,3,4)
    using move_block_pair_split [OF k1(1) v1(1)] destruct_pairs_split [OF k1(2) v1(2)] by (auto simp: take_map drop_map)
qed

lemma flat_map_erase_it_rel:
  assumes rel: "fm_rel m ps"
  shows "if i < length ps then fm_holds m (flat_map_erase_it mk mv m i) (take i ps @ drop (Suc i) ps) i
    else flat_map_erase_it mk mv m i = Inl (Assert_debug ''bad_iter'')"
proof (cases "i < length ps")
  case True
  note m = fm_relD [OF rel]
  let ?qs = "take i ps @ drop (Suc i) ps"
  have last: "[length ps - 1..<length ps] = [length ps - 1]" using True by (cases "length ps") simp_all
  obtain kv where "move_block_pair mk mv (al_data (fm_keys m), al_data (fm_values m)) i (Suc i) (fm_size m) = Inr kv"
    "destruct_pairs kv [length ps - 1..<length ps] = Inr (live_prefix (map fst ?qs) (fm_room m), live_prefix (map snd ?qs) (fm_room m))"
    using cut_pairs_live [OF rel, of i "Suc i" mk mv] True by auto
  moreover from this(2) have "destruct_pairs kv [length ps - 1] = Inr (live_prefix (map fst ?qs) (fm_room m), live_prefix (map snd ?qs) (fm_room m))"
    unfolding last .
  ultimately have "flat_map_erase_it mk mv m i = Inr (fm_set m (live_prefix (map fst ?qs) (fm_room m), live_prefix (map snd ?qs) (fm_room m)) (length ps - 1), i)"
    using True m(1) by (simp add: flat_map_erase_it_def Let_def)
  then have "fm_holds m (flat_map_erase_it mk mv m i) ?qs i"
    using True m(2) by (intro fm_holdsI [OF rel]) simp_all
  then show ?thesis using True by simp
next
  case False
  then show ?thesis using fm_relD(1) [OF rel] by (simp add: flat_map_erase_it_def)
qed

section \<open>Refinement of a sorted list of pairs\<close>

context flat_order begin

lemma flat_map_find_rel:
  assumes "fm_rel m ps" and "flat_sorted (map fst ps)"
  shows "flat_map_find tr m k = Inr (if flat_has (map fst ps) k then hxlower_bound lt (map fst ps) k else length ps)"
  using fm_relD [OF assms(1)] pair_search_has [of "map fst ps" k] assms(2) by (simp add: flat_map_find_def flat_sorted_def)

lemma flat_map_count_rel:
  assumes "fm_rel m ps" and "flat_sorted (map fst ps)"
  shows "flat_map_count tr m k = Inr (int (length (filter (\<lambda>x. equiv x k) (map fst ps))))"
proof (cases "flat_multi tr")
  case True
  then show ?thesis
    using fm_relD(6) [OF assms(1)] assms(2) upper_from_lower [of "map fst ps" k] equal_slice(2) [of "map fst ps" k]
    by (simp add: flat_map_count_def lower_bound_iterator upper_bound_iterator Let_def flat_sorted_def del: filter_map flip: of_nat_diff)
next
  case False
  then show ?thesis
    using fm_relD(6) [OF assms(1)] assms(2) pair_search_has [of "map fst ps" k] unique_equiv [of "map fst ps" k]
    by (simp add: flat_map_count_def hxbinary_search_def flat_sorted_def)
qed

lemma flat_map_insert_rel:
  fixes k :: 'k
  assumes rel: "fm_rel m ps" and sorted: "flat_sorted (map fst ps)"
  defines "l \<equiv> hxlower_bound lt (map fst ps) k"
  shows "if \<not> flat_multi tr \<and> flat_has (map fst ps) k then flat_map_insert mk mv tr m k v = Inr (m, l)
    else if length ps < fm_room m then fm_holds m (flat_map_insert mk mv tr m k v) (take l ps @ (k, v) # drop l ps) l
    else flat_map_insert mk mv tr m k v = Inl (Assert_hard ''bad_alloc already sized'')"
proof -
  have range: "sorted_range (map fst ps)" using sorted by (simp add: flat_sorted_def)
  have "l \<le> length ps" using lower_point(1) [OF range] by (simp add: l_def)
  then show ?thesis
    using fm_relD(6) [OF rel] pair_search_has [OF range, of k] flat_map_insert_at_rel [OF rel, of l mk mv k v]
    unfolding l_def by (simp add: flat_map_insert_def lower_bound_iterator Let_def)
qed

lemma flat_map_erase_rel:
  assumes rel: "fm_rel m ps" and sorted: "flat_sorted (map fst ps)"
  shows "fm_holds m (flat_map_erase mk mv tr m k) (filter (\<lambda>p. \<not> equiv (fst p) k) ps) (int (length (filter (\<lambda>p. equiv (fst p) k) ps)))"
proof -
  note m = fm_relD [OF rel]
  have range: "sorted_range (map fst ps)" using sorted by (simp add: flat_sorted_def)
  let ?l = "hxlower_bound lt (map fst ps) k" and ?u = "hxupper_bound lt (map fst ps) k"
  note slice = equal_slice_map [OF range, of k]
  have lu: "?l \<le> ?u" "?u \<le> length ps" using hxlower_bound_le_upper_bound [OF range] upper_point(1) [OF range] by auto
  have none: "filter (\<lambda>p. \<not> equiv (fst p) k) ps = ps \<and> length (filter (\<lambda>p. equiv (fst p) k) ps) = 0" if "?u - ?l = 0"
  proof -
    have "?u = ?l" using lu that by simp
    then show ?thesis using slice by simp
  qed
  show ?thesis
  proof (cases "flat_multi tr")
    case True
    show ?thesis
    proof (cases "?u - ?l = 0")
      case empty: True
      then have "flat_map_erase mk mv tr m k = Inr (m, 0)"
        using True m(6) upper_from_lower [OF range, of k]
        by (simp add: flat_map_erase_def lower_bound_iterator upper_bound_iterator Let_def)
      then show ?thesis using none [OF empty] fm_holds_same [OF rel, of 0] by simp
    next
      case False
      then have "?l < ?u" by simp
      let ?qs = "take ?l ps @ drop ?u ps"
      obtain kv where kv: "move_block_pair mk mv (al_data (fm_keys m), al_data (fm_values m)) ?l ?u (fm_size m) = Inr kv"
        "destruct_pairs kv [length ps - (?u - ?l)..<length ps] = Inr (live_prefix (map fst ?qs) (fm_room m), live_prefix (map snd ?qs) (fm_room m))"
        using cut_pairs_live [OF rel \<open>?l < ?u\<close> lu(2), of mk mv] by blast
      have "flat_map_erase mk mv tr m k =
          Inr (fm_set m (live_prefix (map fst ?qs) (fm_room m), live_prefix (map snd ?qs) (fm_room m)) (length ps - (?u - ?l)), int (?u - ?l))"
        using True False m(1,6) kv upper_from_lower [OF range, of k]
        by (simp add: flat_map_erase_def lower_bound_iterator upper_bound_iterator Let_def)
      moreover have "length ?qs = length ps - (?u - ?l)" using lu by simp
      ultimately have "fm_holds m (flat_map_erase mk mv tr m k) ?qs (int (?u - ?l))"
        using m(2) by (intro fm_holdsI [OF rel]) simp_all
      then show ?thesis using slice by simp
    qed
  next
    case False
    have "length (filter (\<lambda>p. equiv (fst p) k) ps) = length (filter (\<lambda>x. equiv x k) (map fst ps))" by (simp add: filter_map o_def)
    then have unique: "length (filter (\<lambda>p. equiv (fst p) k) ps) = (if flat_has (map fst ps) k then 1 else 0)"
      using False sorted unique_equiv [of "map fst ps" k] by (simp add: flat_sorted_def)
    show ?thesis
    proof (cases "flat_has (map fst ps) k")
      case there: True
      then have u: "?u = Suc ?l" using slice(2) unique lu by (simp split: if_splits)
      then have "fm_holds m (flat_map_erase_it mk mv m ?l) (filter (\<lambda>p. \<not> equiv (fst p) k) ps) ?l"
        using flat_map_erase_it_rel [OF rel, of ?l mk mv] lu slice(1) by simp
      then show ?thesis
        using False there unique m(6) pair_search_has [OF range, of k] by (auto simp: fm_holds_def flat_map_erase_def Let_def)
    next
      case gone: False
      then have "?u - ?l = 0" using slice(2) unique by simp
      then show ?thesis
        using none gone False m(6) pair_search_has [OF range, of k] fm_holds_same [OF rel, of 0] by (simp add: flat_map_erase_def Let_def)
    qed
  qed
qed

lemma flat_map_add_loop_live:
  "length xs + length ys \<le> c \<Longrightarrow>
   flat_map_add_loop (int c) (live_prefix (map fst xs) c, live_prefix (map snd xs) c) (length xs) ys =
     Inr ((live_prefix (map fst (xs @ ys)) c, live_prefix (map snd (xs @ ys)) c), length xs + length ys)"
proof (induction ys arbitrary: xs)
  case (Cons y ys)
  have "construct_slot (live_prefix (map fst xs) c) (length xs) (fst y) = Inr (live_prefix (map fst (xs @ [y])) c)"
    "construct_slot (live_prefix (map snd xs) c) (length xs) (snd y) = Inr (live_prefix (map snd (xs @ [y])) c)"
    using Cons.prems construct_slot_live [of "map fst xs" c "fst y"] construct_slot_live [of "map snd xs" c "snd y"] by simp_all
  then show ?case using Cons.IH [of "xs @ [y]"] Cons.prems by simp
qed simp

lemma flat_map_add_range_rel:
  assumes rel: "fm_rel m ps" and room: "length ps + length qs \<le> fm_room m"
  shows "\<not> 2 ^ 32 dvd length (ps @ qs) \<Longrightarrow>
      \<exists>m' rs. flat_map_add_range tr m False qs = Inr m' \<and> fm_rel m' rs \<and> mset rs = mset ps + mset qs \<and> sorted_range (map fst rs)"
    and "sorted_range (map fst ps) \<Longrightarrow>
      if sorted_range (map fst (ps @ qs)) then \<exists>m'. flat_map_add_range tr m True qs = Inr m' \<and> fm_rel m' (ps @ qs)
      else flat_map_add_range tr m True qs = Inl (Assert_debug ''bad_ordering'')"
proof -
  note m = fm_relD [OF rel]
  let ?zs = "ps @ qs" and ?c = "fm_room m"
  let ?lt = "\<lambda>a b. lt (fst a) (fst b)"
  let ?kv = "(live_prefix (map fst ?zs) ?c, live_prefix (map snd ?zs) ?c)"
  have loop: "flat_map_add_loop (flat_map_capacity m) (live_prefix (map fst ps) ?c, live_prefix (map snd ps) ?c) (length ps) qs =
      Inr (?kv, length ?zs)"
    using flat_map_add_loop_live [OF room] m(5) by simp
  have m1: "fm_rel (fm_set m ?kv (length ?zs)) ?zs" using room by (intro fm_set_rel [OF rel]) simp
  have size: "int (length ?zs) \<le> flat_map_capacity m" using room m(5) by simp
  have lt_eq: "(\<lambda>a b. hxcompare_before (flat_compare tr) (fst a) (fst b)) = ?lt" by (intro ext) (simp add: before_lt)
  have order: "strict_weak_order ?lt" by unfold_locales (auto dest: asym cotrans)
  show "\<exists>m' rs. flat_map_add_range tr m False qs = Inr m' \<and> fm_rel m' rs \<and> mset rs = mset ps + mset qs \<and> sorted_range (map fst rs)"
    if nz: "\<not> 2 ^ 32 dvd length ?zs"
  proof -
    have "?zs \<noteq> []" using nz by auto
    then obtain rs where rs: "hxsort ?lt ?zs 0 (length ?zs) = Inr rs" "range_perm 0 (length ?zs) ?zs rs" "sorted_between ?lt rs 0 (length ?zs)"
      using hxsort_result [OF order, of 0 "length ?zs" ?zs] nz by auto
    then have len: "length rs = length ?zs" "mset rs = mset ps + mset qs" by (simp_all add: range_perm_def)
    have "write_slots (fst ?kv) 0 (map fst rs) = Inr (live_prefix (map fst rs) ?c)"
      "write_slots (snd ?kv) 0 (map snd rs) = Inr (live_prefix (map snd rs) ?c)"
      using len room write_all_live [of "map fst rs" "map fst ?zs" ?c] write_all_live [of "map snd rs" "map snd ?zs" ?c] by simp_all
    then have "flat_map_add_range tr m False qs = Inr (fm_set m (live_prefix (map fst rs) ?c, live_prefix (map snd rs) ?c) (length rs))"
      unfolding flat_map_add_range_def m(1,3,4) loop hx_bind_simps prod.case lt_eq Let_def flat_map_pairs_rel [OF m1] rs(1)
      using len size by simp
    moreover have "fm_rel (fm_set m (live_prefix (map fst rs) ?c, live_prefix (map snd rs) ?c) (length rs)) rs"
      using len room by (intro fm_set_rel [OF rel]) simp
    moreover have "sorted_range (map fst rs)"
      using rs(3) len by (auto simp: sorted_between_def sorted_wrt_iff_nth_less)
    ultimately show ?thesis using len by blast
  qed
  assume range: "sorted_range (map fst ps)"
  have "flat_correct tr (map fst ?zs) (length ps) = sorted_range (map fst ?zs)"
    using flat_correct_iff [OF range, of "map fst qs"] by simp
  then show "if sorted_range (map fst ?zs) then \<exists>m'. flat_map_add_range tr m True qs = Inr m' \<and> fm_rel m' ?zs
      else flat_map_add_range tr m True qs = Inl (Assert_debug ''bad_ordering'')"
    unfolding flat_map_add_range_def m(1,3,4) loop hx_bind_simps prod.case Let_def fm_relD(6) [OF m1]
    using m1 size by simp
qed

text \<open>What the map means when equivalent keys are equal.\<close>

lemma map_of_insert_mid: "k \<notin> fst ` set ps \<Longrightarrow> map_of (ps @ (k, v) # qs) = (map_of (ps @ qs))(k \<mapsto> v)"
  by (induction ps) (auto simp del: map_of_append)

lemma map_of_insert:
  assumes "k \<notin> fst ` set ps"
  shows "map_of (take i ps @ (k, v) # drop i ps) = (map_of ps)(k \<mapsto> v)"
proof -
  have "k \<notin> fst ` set (take i ps)" using assms by (auto dest: in_set_takeD)
  then have "map_of (take i ps @ (k, v) # drop i ps) = (map_of (take i ps @ drop i ps))(k \<mapsto> v)"
    by (rule map_of_insert_mid)
  then show ?thesis by simp
qed

lemma map_of_erase: "map_of (filter (\<lambda>p. fst p \<noteq> k) ps) = (map_of ps)(k := None)"
  by (induction ps) (auto simp: fun_eq_iff)

lemma sorted_distinct: "sorted_wrt lt xs \<Longrightarrow> distinct xs"
  by (induction xs) (auto simp: irrefl)

text \<open>Equivalent keys are equal: the lower bound is the position of the key.\<close>

lemma key_equiv: "\<forall>x y. \<not> lt x y \<and> \<not> lt y x \<longrightarrow> x = y \<Longrightarrow> (\<not> lt x k \<and> \<not> lt k x) \<longleftrightarrow> x = k"
  using irrefl by auto

lemma has_dom:
  assumes "\<forall>x y. \<not> lt x y \<and> \<not> lt y x \<longrightarrow> x = y"
  shows "flat_has (map fst ps) k \<longleftrightarrow> k \<in> dom (map_of ps)"
proof -
  have "flat_has (map fst ps) k \<longleftrightarrow> k \<in> set (map fst ps)" unfolding flat_has_def key_equiv [OF assms] by blast
  then show ?thesis by (simp add: dom_map_of_conv_image_fst)
qed

lemma key_position:
  assumes linear: "\<forall>x y. \<not> lt x y \<and> \<not> lt y x \<longrightarrow> x = y" and sorted: "flat_sorted (map fst ps)" and there: "k \<in> dom (map_of ps)"
  shows "hxlower_bound lt (map fst ps) k < length ps \<and> fst (ps ! hxlower_bound lt (map fst ps) k) = k"
proof -
  let ?l = "hxlower_bound lt (map fst ps) k"
  have has: "flat_has (map fst ps) k" using has_dom [OF linear, of ps k] there by simp
  have l: "?l < length (map fst ps) \<and> (\<not> lt (map fst ps ! ?l) k \<and> \<not> lt k (map fst ps ! ?l))"
    using flat_has_lower [OF sorted, of k] has by blast
  then have "map fst ps ! ?l = k" using key_equiv [OF linear] by blast
  then show ?thesis using l by simp
qed

lemma insert_position:
  assumes linear: "\<forall>x y. \<not> lt x y \<and> \<not> lt y x \<longrightarrow> x = y" and sorted: "flat_sorted (map fst ps)" and absent: "k \<notin> dom (map_of ps)"
  shows "let l = hxlower_bound lt (map fst ps) k; qs = take l ps @ (k, v) # drop l ps
    in l < length qs \<and> qs ! l = (k, v) \<and> flat_sorted (map fst qs) \<and> map_of qs = (map_of ps)(k \<mapsto> v)"
proof -
  let ?l = "hxlower_bound lt (map fst ps) k"
  let ?qs = "take ?l ps @ (k, v) # drop ?l ps"
  have "?l \<le> length ps" using lower_point(1) [of "map fst ps" k] sorted by (simp add: flat_sorted_def)
  then have "?l < length ?qs" "?qs ! ?l = (k, v)" by (simp_all add: nth_append)
  moreover have keys: "map fst ?qs = take ?l (map fst ps) @ k # drop ?l (map fst ps)" by (simp add: take_map drop_map)
  have "\<not> flat_has (map fst ps) k" using has_dom [OF linear, of ps k] absent by simp
  then have "flat_sorted (map fst ?qs)" unfolding keys by (intro flat_insert_lower [OF sorted]) simp
  moreover have "map_of ?qs = (map_of ps)(k \<mapsto> v)"
    using absent by (intro map_of_insert) (simp add: dom_map_of_conv_image_fst)
  ultimately show ?thesis unfolding Let_def by blast
qed

end

section \<open>Claims\<close>

definition example_flat_map :: "(int, string) hxflat_map" where
  "example_flat_map =
     \<lparr>fm_size = 2, fm_keys = \<lparr>al_fixed = 4, al_pow2 = False, al_capacity = 4, al_data = live_prefix [3, 8] 4\<rparr>,
      fm_values = \<lparr>al_fixed = 4, al_pow2 = False, al_capacity = 4, al_data = live_prefix [''three'', ''eight''] 4\<rparr>\<rparr>"

lemma example_flat_map_rel: "fm_rel example_flat_map [(3, ''three''), (8, ''eight'')]" and example_flat_map_room: "fm_room example_flat_map = 4"
  by (simp_all add: example_flat_map_def fm_rel_def live_store_def flat_map_capacity_def allocator_ok_def element_count_def hxallocator_dynamic_capacity_def)

lemma example_flat_map_sorted: "flat_num.flat_sorted multi (map fst [(3, ''three''), (8, ''eight'')])"
  by (simp add: flat_num.flat_sorted_def hxkey_less_num_def)

text \<open>The two arrays of a \<open>hxflat_map\<close> stay one list of pairs sorted by key: \<open>insert\<close> and \<open>erase\<close> move the
  keys and the values by the same loops, so that every value stays with its key, and
  \<open>add_range\<close> sorts the pairs by their keys.\<close>

lemma flat_map_refines_sorted_pairs:
  assumes order: "flat_order lt tr" and rel: "fm_rel m ps" and sorted: "flat_order.flat_sorted lt tr (map fst ps)"
  shows "(if \<not> flat_multi tr \<and> flat_matches lt (map fst ps) k \<noteq> []
      then flat_map_insert mk mv tr m k v = Inr (m, hxlower_bound lt (map fst ps) k)
      else if length ps < fm_room m
      then \<exists>i qs. fm_holds m (flat_map_insert mk mv tr m k v) qs i \<and> qs = take i ps @ (k, v) # drop i ps \<and> flat_order.flat_sorted lt tr (map fst qs)
      else flat_map_insert mk mv tr m k v = Inl (Assert_hard ''bad_alloc already sized'')) \<and>
    (\<exists>qs. fm_holds m (flat_map_erase mk mv tr m k) qs (int (length (flat_matches lt (map fst ps) k))) \<and>
       qs = filter (\<lambda>p. \<not> (\<not> lt (fst p) k \<and> \<not> lt k (fst p))) ps \<and> flat_order.flat_sorted lt tr (map fst qs)) \<and>
    (length ps + length rs \<le> fm_room m \<and> \<not> 2 ^ 32 dvd length (ps @ rs) \<longrightarrow>
       (\<exists>m' qs. flat_map_add_range tr m False rs = Inr m' \<and> fm_rel m' qs \<and> mset qs = mset ps + mset rs \<and>
          sorted_wrt (\<lambda>x y. \<not> lt y x) (map fst qs)))"
proof (intro conjI impI)
  let ?l = "hxlower_bound lt (map fst ps) k"
  have has: "flat_matches lt (map fst ps) k \<noteq> [] \<longleftrightarrow> flat_order.flat_has lt (map fst ps) k"
    by (auto simp: flat_matches_def flat_order.flat_has_def [OF order] filter_empty_conv)
  have keep: "flat_order.flat_sorted lt tr (map fst (take ?l ps @ (k, v) # drop ?l ps))"
    if "flat_multi tr \<or> flat_matches lt (map fst ps) k = []"
  proof -
    have "map fst (take ?l ps @ (k, v) # drop ?l ps) = take ?l (map fst ps) @ k # drop ?l (map fst ps)" by (simp add: take_map drop_map)
    then show ?thesis using flat_order.flat_insert_lower [OF order sorted, of k] has that by metis
  qed
  show "if \<not> flat_multi tr \<and> flat_matches lt (map fst ps) k \<noteq> []
      then flat_map_insert mk mv tr m k v = Inr (m, ?l)
      else if length ps < fm_room m
      then \<exists>i qs. fm_holds m (flat_map_insert mk mv tr m k v) qs i \<and> qs = take i ps @ (k, v) # drop i ps \<and> flat_order.flat_sorted lt tr (map fst qs)
      else flat_map_insert mk mv tr m k v = Inl (Assert_hard ''bad_alloc already sized'')"
    using flat_order.flat_map_insert_rel [OF order rel sorted, of k mk mv v] has keep by (auto split: if_splits)
  have count: "length (flat_matches lt (map fst ps) k) = length (filter (\<lambda>p. \<not> lt (fst p) k \<and> \<not> lt k (fst p)) ps)"
    by (simp add: flat_matches_def filter_map o_def)
  have "map fst (filter (\<lambda>p. Q (fst p)) ps) = filter Q (map fst ps)" for Q by (simp add: filter_map o_def)
  then have "flat_order.flat_sorted lt tr (map fst (filter (\<lambda>p. Q (fst p)) ps))" for Q
    using flat_order.flat_sorted_filter [OF order sorted] by metis
  then show "\<exists>qs. fm_holds m (flat_map_erase mk mv tr m k) qs (int (length (flat_matches lt (map fst ps) k))) \<and>
      qs = filter (\<lambda>p. \<not> (\<not> lt (fst p) k \<and> \<not> lt k (fst p))) ps \<and> flat_order.flat_sorted lt tr (map fst qs)"
    unfolding count using flat_order.flat_map_erase_rel [OF order rel sorted, of mk mv k]
    by (intro exI [of _ "filter (\<lambda>p. \<not> (\<not> lt (fst p) k \<and> \<not> lt k (fst p))) ps"]) simp
  assume "length ps + length rs \<le> fm_room m \<and> \<not> 2 ^ 32 dvd length (ps @ rs)"
  then show "\<exists>m' qs. flat_map_add_range tr m False rs = Inr m' \<and> fm_rel m' qs \<and> mset qs = mset ps + mset rs \<and>
      sorted_wrt (\<lambda>x y. \<not> lt y x) (map fst qs)"
    by (intro flat_order.flat_map_add_range_rel(1) [OF order rel]) auto
qed

lemma flat_map_refines_sorted_pairs_witness:
  "\<exists>qs. fm_holds example_flat_map (flat_map_erase uminus id (num_flat False) example_flat_map 3) qs 1 \<and> qs = [(8, ''eight'')]"
  using flat_map_refines_sorted_pairs [OF flat_num.flat_order_axioms example_flat_map_rel example_flat_map_sorted,
      where k = 3 and mk = uminus and mv = id]
  by (auto simp: hxkey_less_num_def flat_matches_def)

text \<open>C11: a \<open>hxflat_map\<close> without \<open>hxtrait_multi\<close> whose equivalent keys are equal (and which holds fewer than
  \<open>2\<^sup>63\<close> pairs) implements a finite map, kept as pairs in strictly increasing order of their keys: looking up is the map;
  inserting an absent key while there is room gives a map whose pairs are again in order, updated at the key, and returns the
  position of the new pair, and without room it stops; inserting a present key changes nothing and returns its
  position; erasing keeps the order, removes the key and returns how many pairs that were.\<close>

theorem flat_map_refines_map:
  assumes order: "flat_order lt tr" and rel: "fm_rel m ps" and sorted: "flat_order.flat_sorted lt tr (map fst ps)"
    and single: "\<not> flat_multi tr" and linear: "\<And>x y. \<not> lt x y \<and> \<not> lt y x \<Longrightarrow> x = y" and small: "length ps < 2 ^ 63"
  shows "hx_bind (flat_map_find tr m k) (\<lambda>it. flat_map_value_or_it m it alternative) = Inr (case map_of ps k of None \<Rightarrow> alternative | Some v \<Rightarrow> v) \<and>
    (if k \<in> dom (map_of ps)
      then \<exists>i. flat_map_insert mk mv tr m k v = Inr (m, i) \<and> i < length ps \<and> fst (ps ! i) = k
      else if length ps < fm_room m
      then \<exists>i qs. fm_holds m (flat_map_insert mk mv tr m k v) qs i \<and> i < length qs \<and> qs ! i = (k, v) \<and>
        sorted_wrt lt (map fst qs) \<and> map_of qs = (map_of ps)(k \<mapsto> v)
      else flat_map_insert mk mv tr m k v = Inl (Assert_hard ''bad_alloc already sized'')) \<and>
    (\<exists>qs. fm_holds m (flat_map_erase mk mv tr m k) qs (if k \<in> dom (map_of ps) then 1 else 0) \<and>
      sorted_wrt lt (map fst qs) \<and> map_of qs = (map_of ps)(k := None))"
proof (intro conjI)
  let ?l = "hxlower_bound lt (map fst ps) k"
  have strict: "sorted_wrt lt (map fst qs)" if "flat_order.flat_sorted lt tr (map fst qs)" for qs :: "('a \<times> 'b) list"
    using that single by (simp add: flat_order.flat_sorted_def [OF order])
  have eq: "\<forall>x y. \<not> lt x y \<and> \<not> lt y x \<longrightarrow> x = y" using linear by blast
  note has = flat_order.has_dom [OF order eq, of ps k]
  note there = flat_order.key_position [OF order eq sorted, of k]
  note absent = flat_order.insert_position [OF order eq sorted, of k v, unfolded Let_def]
  have distinct: "distinct (map fst ps)" by (rule flat_order.sorted_distinct [OF order strict [OF sorted]])
  have read: "flat_map_value_or_it m i alternative = Inr (snd (ps ! i))" if "i < length ps" for i
  proof -
    have "(word_of_int (int i) :: size_t) < word_of_int (int (length ps))"
      using that small by (subst size_t_compare) (simp_all flip: of_nat_less_numeral_iff)
    then show ?thesis
      using that fm_relD [OF rel] by (simp add: flat_map_value_or_it_def iter_value_def iter_check_def read_slot_live)
  qed
  show "hx_bind (flat_map_find tr m k) (\<lambda>it. flat_map_value_or_it m it alternative) = Inr (case map_of ps k of None \<Rightarrow> alternative | Some v \<Rightarrow> v)"
  proof (cases "k \<in> dom (map_of ps)")
    case True
    then have "(k, snd (ps ! ?l)) \<in> set ps" using there by (metis nth_mem prod.collapse)
    then have "map_of ps k = Some (snd (ps ! ?l))" using distinct by simp
    then show ?thesis
      using True has there read [of ?l] flat_order.flat_map_find_rel [OF order rel sorted, of k] by simp
  next
    case False
    then show ?thesis
      using has flat_order.flat_map_find_rel [OF order rel sorted, of k] fm_relD(1) [OF rel]
      by (auto simp: flat_map_value_or_it_def dom_def)
  qed
  note ins = flat_order.flat_map_insert_rel [OF order rel sorted, of k mk mv v]
  show "if k \<in> dom (map_of ps)
      then \<exists>i. flat_map_insert mk mv tr m k v = Inr (m, i) \<and> i < length ps \<and> fst (ps ! i) = k
      else if length ps < fm_room m
      then \<exists>i qs. fm_holds m (flat_map_insert mk mv tr m k v) qs i \<and> i < length qs \<and> qs ! i = (k, v) \<and>
        sorted_wrt lt (map fst qs) \<and> map_of qs = (map_of ps)(k \<mapsto> v)
      else flat_map_insert mk mv tr m k v = Inl (Assert_hard ''bad_alloc already sized'')"
  proof (cases "k \<in> dom (map_of ps)")
    case True
    then show ?thesis using ins single has there by auto
  next
    case False
    show ?thesis
    proof (cases "length ps < fm_room m")
      case room: True
      have "fm_holds m (flat_map_insert mk mv tr m k v) (take ?l ps @ (k, v) # drop ?l ps) ?l"
        using ins False has room by (simp only: if_True if_False simp_thms)
      then show ?thesis using False room absent [OF False] strict by (simp only: if_True if_False) blast
    next
      case full: False
      then show ?thesis using ins False has by (simp only: if_True if_False simp_thms)
    qed
  qed
  note rest = flat_order.key_equiv [OF order eq]
  have n: "int (length (filter (\<lambda>p. fst p = k) ps)) = (if k \<in> dom (map_of ps) then 1 else 0)"
    using flat_order.unique_equiv [OF order strict [OF sorted], of k] has by (simp add: rest filter_map o_def)
  have "map fst (filter (\<lambda>p. fst p \<noteq> k) ps) = filter (\<lambda>x. x \<noteq> k) (map fst ps)" by (simp add: filter_map o_def)
  then have kept: "sorted_wrt lt (map fst (filter (\<lambda>p. fst p \<noteq> k) ps))"
    using sorted_wrt_filter [OF strict [OF sorted]] by simp
  have "fm_holds m (flat_map_erase mk mv tr m k) (filter (\<lambda>p. fst p \<noteq> k) ps) (if k \<in> dom (map_of ps) then 1 else 0)"
    using flat_order.flat_map_erase_rel [OF order rel sorted, of mk mv k] unfolding rest n .
  then show "\<exists>qs. fm_holds m (flat_map_erase mk mv tr m k) qs (if k \<in> dom (map_of ps) then 1 else 0) \<and>
      sorted_wrt lt (map fst qs) \<and> map_of qs = (map_of ps)(k := None)"
    using flat_order.map_of_erase [OF order, of k ps] kept by blast
qed

theorem flat_map_refines_map_witness:
  "\<exists>i qs. fm_holds example_flat_map (flat_map_insert uminus id (num_flat False) example_flat_map 5 ''five'') qs i \<and>
     i < length qs \<and> qs ! i = (5, ''five'') \<and> sorted_wrt hxkey_less_num (map fst qs) \<and>
     map_of qs = (map_of [(3, ''three''), (8, ''eight'')])(5 \<mapsto> ''five'')"
  using flat_map_refines_map [OF flat_num.flat_order_axioms [of False] example_flat_map_rel example_flat_map_sorted [of False],
      where k = 5 and v = "''five''" and mk = uminus and mv = id]
  by (simp add: hxkey_less_num_def num_flat_def example_flat_map_room)

end
