(* ===== verification/HxBitset.thy ===== *)
theory HxBitset
  imports HxPrelude
begin

text \<open>
  The fixed size bit set of \<^verbatim>\<open>include/hx/hxbitset.hpp\<close> and \<^verbatim>\<open>detail/hxbitset.inl\<close> on 64-bit words: the array of words
  with a trailing mask, bit access, the bitwise operations, the shifts with their two loops that run in place, and the
  queries. It refines sets of bit positions. \<open>n\<close> is the template parameter \<open>bit_count\<close>.
\<close>

section \<open>Layout\<close>

type_synonym bitset = "u64 list"

definition bits_per_word :: nat where "bits_per_word = 64"
definition log2_bits_per_word :: nat where "log2_bits_per_word = 6"
definition bit_mask :: u64 where "bit_mask = 63"

definition bitset_words :: "nat \<Rightarrow> nat" where
  "bitset_words n = (n + 63) div 64"

definition trailing_mask :: "nat \<Rightarrow> u64" where
  "trailing_mask n = (if n mod 64 \<noteq> 0 then push_bit (n mod 64) 1 - 1 else NOT 0)"

definition stray_check :: "nat \<Rightarrow> bitset \<Rightarrow> bitset hx" where
  "stray_check n m = (if m ! (bitset_words n - 1) AND NOT (trailing_mask n) \<noteq> 0 then Inl (Assert_debug ''stray_bits'') else Inr m)"

definition mask_last :: "nat \<Rightarrow> bitset \<Rightarrow> bitset" where
  "mask_last n m = m[bitset_words n - 1 := m ! (bitset_words n - 1) AND trailing_mask n]"

section \<open>Construction and single bits\<close>

definition bitset_reset_all :: "nat \<Rightarrow> bitset" where
  "bitset_reset_all n = replicate (bitset_words n) 0"

definition bitset_new :: "nat \<Rightarrow> bitset" where "bitset_new n = bitset_reset_all n"

definition bitset_copy :: "bitset \<Rightarrow> bitset" where "bitset_copy x = x"

text \<open>The single word constructor exists for 64 bits.\<close>

definition bitset_from_word :: "u64 \<Rightarrow> bitset" where "bitset_from_word v = [v]"

text \<open>Packing a list of integers of \<open>eb\<close> bits, low element first; a wider sign extension of an element is masked off.\<close>

definition pack_word :: "nat \<Rightarrow> u64 list \<Rightarrow> u64" where
  "pack_word eb xs = foldl (\<lambda>word i. word OR push_bit (i * eb) (xs ! i AND (push_bit eb 1 - 1))) 0 [0..<64 div eb]"

definition bitset_from_list :: "nat \<Rightarrow> nat \<Rightarrow> u64 list \<Rightarrow> bitset hx" where
  "bitset_from_list n eb xs =
     (if length xs \<noteq> bitset_words n * (64 div eb) then Inl (Assert_debug ''initializer_list size'')
      else stray_check n (if eb = 64 then xs else map (\<lambda>j. pack_word eb (drop (j * (64 div eb)) xs)) [0..<bitset_words n]))"

definition word_index :: "u64 \<Rightarrow> nat" where "word_index pos = unat (drop_bit log2_bits_per_word pos)"

definition bit_word :: "u64 \<Rightarrow> u64" where "bit_word pos = push_bit (unat (pos AND bit_mask)) 1"

definition bitset_test :: "nat \<Rightarrow> bitset \<Rightarrow> u64 \<Rightarrow> bool hx" where
  "bitset_test n m pos =
     (if \<not> unat pos < n then Inl (Assert_hard ''bad_index'') else Inr (m ! word_index pos AND bit_word pos \<noteq> 0))"

definition bitset_flip :: "nat \<Rightarrow> bitset \<Rightarrow> u64 \<Rightarrow> bitset hx" where
  "bitset_flip n m pos =
     (if \<not> unat pos < n then Inl (Assert_hard ''bad_index'')
      else Inr (m[word_index pos := m ! word_index pos XOR bit_word pos]))"

definition bitset_reset :: "nat \<Rightarrow> bitset \<Rightarrow> u64 \<Rightarrow> bitset hx" where
  "bitset_reset n m pos =
     (if \<not> unat pos < n then Inl (Assert_hard ''bad_index'')
      else Inr (m[word_index pos := m ! word_index pos AND NOT (bit_word pos)]))"

definition bitset_set :: "nat \<Rightarrow> bitset \<Rightarrow> u64 \<Rightarrow> bool \<Rightarrow> bitset hx" where
  "bitset_set n m pos v =
     (if \<not> unat pos < n then Inl (Assert_hard ''bad_index'')
      else let shift = unat (pos AND bit_mask); word = m ! word_index pos
           in Inr (m[word_index pos := (word AND NOT (push_bit shift 1)) OR push_bit shift (of_bool v)]))"

section \<open>Whole sets\<close>

definition bitset_and :: "bitset \<Rightarrow> bitset \<Rightarrow> bitset" where "bitset_and m x = map2 (AND) m x"

definition bitset_or :: "nat \<Rightarrow> bitset \<Rightarrow> bitset \<Rightarrow> bitset hx" where "bitset_or n m x = stray_check n (map2 (OR) m x)"

definition bitset_xor :: "nat \<Rightarrow> bitset \<Rightarrow> bitset \<Rightarrow> bitset hx" where "bitset_xor n m x = stray_check n (map2 (XOR) m x)"

definition bitset_flip_all :: "nat \<Rightarrow> bitset \<Rightarrow> bitset" where
  "bitset_flip_all n m = mask_last n (map (\<lambda>w. w XOR NOT 0) m)"

definition bitset_set_all :: "nat \<Rightarrow> bitset \<Rightarrow> bitset" where
  "bitset_set_all n m = mask_last n (map (\<lambda>w. NOT 0) m)"

definition bitset_eq :: "bitset \<Rightarrow> bitset \<Rightarrow> bool" where "bitset_eq m x = (m = x)"

definition bitset_all :: "nat \<Rightarrow> bitset \<Rightarrow> bool hx" where
  "bitset_all n m =
     hx_map (\<lambda>m. foldl (\<lambda>missing w. missing OR NOT w) (m ! (bitset_words n - 1) XOR trailing_mask n) (take (bitset_words n - 1) m) = 0)
       (stray_check n m)"

definition bitset_any :: "nat \<Rightarrow> bitset \<Rightarrow> bool hx" where
  "bitset_any n m = hx_map (\<lambda>m. foldl (OR) 0 m \<noteq> 0) (stray_check n m)"

definition bitset_none :: "nat \<Rightarrow> bitset \<Rightarrow> bool hx" where
  "bitset_none n m = hx_map Not (bitset_any n m)"

definition bitset_bytes :: "nat \<Rightarrow> nat" where "bitset_bytes n = bitset_words n * 8"

section \<open>Shifts\<close>

text \<open>The loops assign to the words from the top down or from the bottom up; each assignment may read words of the array.\<close>

fun words_down :: "(bitset \<Rightarrow> nat \<Rightarrow> u64) \<Rightarrow> nat \<Rightarrow> nat \<Rightarrow> bitset \<Rightarrow> bitset \<times> nat" where
  "words_down f lo i m = (if i > lo then words_down f lo (i - 1) (m[i - 1 := f m (i - 1)]) else (m, i))"

function words_up :: "(bitset \<Rightarrow> nat \<Rightarrow> u64) \<Rightarrow> nat \<Rightarrow> nat \<Rightarrow> bitset \<Rightarrow> bitset \<times> nat" where
  "words_up f hi i m = (if i < hi then words_up f hi (i + 1) (m[i := f m i]) else (m, i))"
  by pat_completeness auto
termination by (relation "measure (\<lambda>(f, hi, i, m). hi - i)") auto

declare words_down.simps [simp del] words_up.simps [simp del]

definition bitset_shl :: "nat \<Rightarrow> bitset \<Rightarrow> u64 \<Rightarrow> bitset" where
  "bitset_shl n m c =
     (if c = 0 then m
      else let word_shift = word_index c; bit_shift = unat (c AND bit_mask);
               (m2, i2) =
                 (if bit_shift = 0 then words_down (\<lambda>m i. m ! (i - word_shift)) word_shift (bitset_words n) m
                  else let (m1, i1) = words_down (\<lambda>m i. push_bit bit_shift (m ! (i - word_shift)) OR
                               drop_bit (bits_per_word - bit_shift) (m ! (i - word_shift - 1))) (word_shift + 1) (bitset_words n) m
                       in if i1 > word_shift then (m1[i1 - 1 := push_bit bit_shift (m1 ! 0)], i1 - 1) else (m1, i1))
           in mask_last n (fst (words_down (\<lambda>m i. 0) 0 i2 m2)))"

definition bitset_shr :: "nat \<Rightarrow> bitset \<Rightarrow> u64 \<Rightarrow> bitset hx" where
  "bitset_shr n m c =
     (if c = 0 then Inr m
      else let word_shift = word_index c; bit_shift = unat (c AND bit_mask);
               (m2, i2) =
                 (if bit_shift = 0 then words_up (\<lambda>m i. m ! (i + word_shift)) (bitset_words n - word_shift) 0 m
                  else let (m1, i1) = words_up (\<lambda>m i. drop_bit bit_shift (m ! (i + word_shift)) OR
                               push_bit (bits_per_word - bit_shift) (m ! (i + word_shift + 1))) (bitset_words n - (word_shift + 1)) 0 m
                       in if i1 + word_shift < bitset_words n then (m1[i1 := drop_bit bit_shift (m1 ! (i1 + word_shift))], i1 + 1) else (m1, i1))
           in stray_check n (fst (words_up (\<lambda>m i. 0) (bitset_words n) i2 m2)))"

section \<open>Sets of positions\<close>

definition bit_at :: "bitset \<Rightarrow> nat \<Rightarrow> bool" where
  "bit_at m p = bit (m ! (p div 64)) (p mod 64)"

text \<open>The words hold exactly the positions of the set; the bits past the end are clear.\<close>

definition bitset_rel :: "nat \<Rightarrow> bitset \<Rightarrow> nat set \<Rightarrow> bool" where
  "bitset_rel n m S = (0 < n \<and> length m = bitset_words n \<and> S \<subseteq> {..<n} \<and> (\<forall>p < 64 * bitset_words n. bit_at m p \<longleftrightarrow> p \<in> S))"

lemma words_pos: "0 < n \<Longrightarrow> 0 < bitset_words n" by (auto simp: bitset_words_def)

lemma words_bound: "n \<le> 64 * bitset_words n" by (simp add: bitset_words_def)

lemma word_of_pos: "p < n \<Longrightarrow> p div 64 < bitset_words n"
  unfolding bitset_words_def by (simp add: less_mult_imp_div_less)

text \<open>A position is a word and a bit of it.\<close>

lemma all_positions:
  fixes w :: nat
  shows "(\<forall>p < 64 * w. P p) \<longleftrightarrow> (\<forall>j < w. \<forall>k < 64. P (64 * j + k))"
proof (intro iffI allI impI)
  fix j k :: nat assume all: "\<forall>p<64 * w. P p" and "j < w" "k < 64"
  hence "64 * j + k < 64 * w" by linarith
  thus "P (64 * j + k)" using all by blast
next
  fix p assume all: "\<forall>j<w. \<forall>k<64. P (64 * j + k)" and p: "p < 64 * w"
  have "p div 64 < w" "p mod 64 < 64" using p by (auto simp: less_mult_imp_div_less mult.commute)
  hence "P (64 * (p div 64) + p mod 64)" using all by blast
  thus "P p" by simp
qed

lemma bit_at_parts: "k < 64 \<Longrightarrow> bit_at m (64 * j + k) = bit (m ! j) k"
  by (simp add: bit_at_def)

lemma bitset_relI:
  assumes "0 < n" "length m = bitset_words n" "S \<subseteq> {..<n}"
    and "\<And>j k. j < bitset_words n \<Longrightarrow> k < 64 \<Longrightarrow> bit (m ! j) k \<longleftrightarrow> 64 * j + k \<in> S"
  shows "bitset_rel n m S"
  using assms by (auto simp: bitset_rel_def all_positions bit_at_parts)

lemma bitset_relD:
  assumes "bitset_rel n m S"
  shows "0 < n" "length m = bitset_words n" "S \<subseteq> {..<n}"
    and "j < bitset_words n \<Longrightarrow> k < 64 \<Longrightarrow> bit (m ! j) k \<longleftrightarrow> 64 * j + k \<in> S"
  using assms by (auto simp: bitset_rel_def all_positions bit_at_parts)

text \<open>The trailing mask covers the positions of the last word below \<open>n\<close>.\<close>

lemma bit_trailing_mask:
  assumes "0 < n" "k < 64"
  shows "bit (trailing_mask n) k \<longleftrightarrow> 64 * (bitset_words n - 1) + k < n"
proof (cases "n mod 64 = 0")
  case True
  hence eq: "n = 64 * bitset_words n" by (auto simp: bitset_words_def elim!: dvdE simp flip: dvd_eq_mod_eq_0)
  have pos: "0 < bitset_words n" by (rule words_pos [OF assms(1)])
  have "64 * (bitset_words n - 1) + k < 64 * bitset_words n" using pos assms(2) by linarith
  hence "64 * (bitset_words n - 1) + k < n" using eq by simp
  moreover have "bit (trailing_mask n) k" using assms True by (simp add: trailing_mask_def bit_simps)
  ultimately show ?thesis by blast
next
  case False
  have w: "bitset_words n = n div 64 + 1"
  proof -
    have "n + 63 = 64 * (n div 64) + (n mod 64 + 63)" by simp
    hence "(n + 63) div 64 = n div 64 + (n mod 64 + 63) div 64" by (metis div_mult_self4 zero_neq_numeral)
    moreover have "(n mod 64 + 63) div 64 = 1" using False by (intro div_nat_eqI) auto
    ultimately show ?thesis by (simp add: bitset_words_def)
  qed
  have "n = 64 * (n div 64) + n mod 64" by simp
  hence "64 * (bitset_words n - 1) + k < n \<longleftrightarrow> k < n mod 64" unfolding w by linarith
  moreover have "bit (trailing_mask n) k \<longleftrightarrow> k < n mod 64"
    using False assms(2) by (simp add: trailing_mask_def push_bit_of_1 bit_mask_iff flip: mask_eq_exp_minus_1)
  ultimately show ?thesis by simp
qed

lemma below_last: "j < bitset_words n \<Longrightarrow> j \<noteq> bitset_words n - 1 \<Longrightarrow> k < 64 \<Longrightarrow> 64 * j + k < n"
  unfolding bitset_words_def by (rule ccontr) (auto simp: not_less)


section \<open>Refinement\<close>

lemma bit_last_word: "0 < n \<Longrightarrow> j < bitset_words n \<Longrightarrow> k < 64 \<Longrightarrow>
   64 * j + k < n \<longleftrightarrow> (j = bitset_words n - 1 \<longrightarrow> bit (trailing_mask n) k)"
  using below_last [of j n k] by (cases "j = bitset_words n - 1") (auto simp: bit_trailing_mask)

lemma mask_last_rel:
  assumes "0 < n" "length m = bitset_words n"
    and "\<And>j k. j < bitset_words n \<Longrightarrow> k < 64 \<Longrightarrow> 64 * j + k < n \<Longrightarrow> bit (m ! j) k \<longleftrightarrow> 64 * j + k \<in> S"
  shows "bitset_rel n (mask_last n m) (S \<inter> {..<n})"
proof (rule bitset_relI)
  fix j k assume j: "j < bitset_words n" and k: "k < (64 :: nat)"
  show "bit (mask_last n m ! j) k \<longleftrightarrow> 64 * j + k \<in> S \<inter> {..<n}"
  proof (cases "j = bitset_words n - 1")
    case True
    thus ?thesis using assms j k bit_last_word [OF assms(1) j k] by (auto simp: mask_last_def bit_simps)
  next
    case False
    hence "64 * j + k < n" using below_last j k by blast
    thus ?thesis using assms j k False by (simp add: mask_last_def)
  qed
qed (use assms in \<open>auto simp: mask_last_def\<close>)

lemma no_stray:
  assumes "bitset_rel n m S"
  shows "stray_check n m = Inr m"
proof -
  note r = bitset_relD [OF assms]
  have "m ! (bitset_words n - 1) AND NOT (trailing_mask n) = 0"
  proof (rule bit_word_eqI)
    fix k assume "k < LENGTH(64)"
    hence k: "k < 64" by simp
    have j: "bitset_words n - 1 < bitset_words n" using words_pos [OF r(1)] by simp
    have "bit (m ! (bitset_words n - 1)) k \<longrightarrow> 64 * (bitset_words n - 1) + k < n" using r(3) r(4) [OF j k] by blast
    thus "bit (m ! (bitset_words n - 1) AND NOT (trailing_mask n)) k = bit 0 k"
      using bit_trailing_mask [OF r(1) k] by (auto simp: bit_simps)
  qed
  thus ?thesis by (simp add: stray_check_def)
qed

lemma word_index_div: "word_index pos = unat pos div 64"
  unfolding word_index_def log2_bits_per_word_def unat_drop_bit_eq by (simp add: drop_bit_eq_div)

lemma mask_mod: "unat (pos AND bit_mask) = unat pos mod 64"
proof -
  have eq: "pos AND bit_mask = take_bit 6 pos" by (simp add: bit_mask_def take_bit_eq_mask mask_eq_exp_minus_1)
  show ?thesis unfolding eq unsigned_take_bit_eq by (simp add: take_bit_eq_mod)
qed

lemma bit_bit_word: "k < 64 \<Longrightarrow> bit (bit_word pos) k \<longleftrightarrow> k = unat pos mod 64"
  by (auto simp: bit_word_def mask_mod push_bit_of_1 bit_simps)

lemma pos_parts: "k < 64 \<Longrightarrow> unat pos = 64 * j + k \<longleftrightarrow> unat pos div 64 = j \<and> unat pos mod 64 = k"
  by auto

text \<open>Changing one bit.\<close>

lemma update_bit_rel:
  assumes rel: "bitset_rel n m S" and pos: "unat pos < n"
    and w: "\<And>k. k < 64 \<Longrightarrow> bit w k \<longleftrightarrow> (if k = unat pos mod 64 then v else bit (m ! word_index pos) k)"
  shows "bitset_rel n (m[word_index pos := w]) (if v then insert (unat pos) S else S - {unat pos})"
proof -
  note r = bitset_relD [OF rel]
  have idx: "word_index pos < bitset_words n" using word_of_pos [OF pos] by (simp add: word_index_div)
  show ?thesis
  proof (rule bitset_relI)
    fix j k assume j: "j < bitset_words n" and k: "k < (64 :: nat)"
    have "64 * j + k = unat pos \<longleftrightarrow> j = word_index pos \<and> k = unat pos mod 64"
      using pos_parts [OF k, of pos j] by (auto simp: word_index_div)
    thus "bit (m[word_index pos := w] ! j) k \<longleftrightarrow> 64 * j + k \<in> (if v then insert (unat pos) S else S - {unat pos})"
      using r(4) [OF j k] w [OF k] idx r(2) by (cases "j = word_index pos") auto
  qed (use r pos in auto)
qed

lemma bitset_single_bits:
  assumes rel: "bitset_rel n m S" and pos: "unat pos < n"
  shows "bitset_test n m pos = Inr (unat pos \<in> S)"
    and "\<exists>m1. bitset_set n m pos v = Inr m1 \<and> bitset_rel n m1 (if v then insert (unat pos) S else S - {unat pos})"
    and "\<exists>m1. bitset_reset n m pos = Inr m1 \<and> bitset_rel n m1 (S - {unat pos})"
    and "\<exists>m1. bitset_flip n m pos = Inr m1 \<and> bitset_rel n m1 (if unat pos \<in> S then S - {unat pos} else insert (unat pos) S)"
proof -
  note r = bitset_relD [OF rel]
  have idx: "word_index pos < bitset_words n" using word_of_pos [OF pos] by (simp add: word_index_div)
  have mod: "unat pos mod 64 < 64" by simp
  have at: "bit (m ! word_index pos) (unat pos mod 64) \<longleftrightarrow> unat pos \<in> S"
    using r(4) [OF idx mod] by (simp add: word_index_div)
  have "m ! word_index pos AND bit_word pos \<noteq> 0 \<longleftrightarrow> bit (m ! word_index pos) (unat pos mod 64)"
    by (simp add: bit_word_def mask_mod push_bit_of_1 and_exp_eq_0_iff_not_bit)
  thus "bitset_test n m pos = Inr (unat pos \<in> S)" using pos at by (simp add: bitset_test_def)
  have "bitset_rel n (m[word_index pos := (m ! word_index pos AND NOT (push_bit (unat (pos AND bit_mask)) 1)) OR
      push_bit (unat (pos AND bit_mask)) (of_bool v)]) (if v then insert (unat pos) S else S - {unat pos})"
    by (rule update_bit_rel [OF rel pos]) (auto simp: mask_mod bit_simps)
  thus "\<exists>m1. bitset_set n m pos v = Inr m1 \<and> bitset_rel n m1 (if v then insert (unat pos) S else S - {unat pos})"
    using pos by (simp add: bitset_set_def Let_def)
  have "bitset_rel n (m[word_index pos := m ! word_index pos AND NOT (bit_word pos)]) (if False then insert (unat pos) S else S - {unat pos})"
    by (rule update_bit_rel [OF rel pos]) (auto simp: bit_simps bit_bit_word)
  thus "\<exists>m1. bitset_reset n m pos = Inr m1 \<and> bitset_rel n m1 (S - {unat pos})" using pos by (simp add: bitset_reset_def)
  have "bitset_rel n (m[word_index pos := m ! word_index pos XOR bit_word pos])
     (if unat pos \<notin> S then insert (unat pos) S else S - {unat pos})"
    by (rule update_bit_rel [OF rel pos]) (use at in \<open>auto simp: bit_simps bit_bit_word\<close>)
  thus "\<exists>m1. bitset_flip n m pos = Inr m1 \<and> bitset_rel n m1 (if unat pos \<in> S then S - {unat pos} else insert (unat pos) S)"
    using pos by (auto simp: bitset_flip_def)
qed

lemma bitset_combine:
  assumes "bitset_rel n m S" "bitset_rel n x T"
  shows "bitset_rel n (bitset_and m x) (S \<inter> T)"
    and "\<exists>m1. bitset_or n m x = Inr m1 \<and> bitset_rel n m1 (S \<union> T)"
    and "\<exists>m1. bitset_xor n m x = Inr m1 \<and> bitset_rel n m1 ((S - T) \<union> (T - S))"
    and "bitset_eq m x \<longleftrightarrow> S = T"
proof -
  note r = bitset_relD [OF assms(1)] and r2 = bitset_relD [OF assms(2)]
  show "bitset_rel n (bitset_and m x) (S \<inter> T)"
    by (rule bitset_relI) (use r r2 in \<open>auto simp: bitset_and_def bit_simps\<close>)
  have "bitset_rel n (map2 (OR) m x) (S \<union> T)"
    by (rule bitset_relI) (use r r2 in \<open>auto simp: bit_simps\<close>)
  thus "\<exists>m1. bitset_or n m x = Inr m1 \<and> bitset_rel n m1 (S \<union> T)" by (simp add: bitset_or_def no_stray)
  have "bitset_rel n (map2 (XOR) m x) ((S - T) \<union> (T - S))"
    by (rule bitset_relI) (use r r2 in \<open>auto simp: bit_simps\<close>)
  thus "\<exists>m1. bitset_xor n m x = Inr m1 \<and> bitset_rel n m1 ((S - T) \<union> (T - S))" by (simp add: bitset_xor_def no_stray)
  show "bitset_eq m x \<longleftrightarrow> S = T"
  proof
    assume "bitset_eq m x"
    hence "\<forall>p < 64 * bitset_words n. p \<in> S \<longleftrightarrow> p \<in> T" using assms by (auto simp: bitset_rel_def bitset_eq_def)
    thus "S = T" using r(3) r2(3) words_bound [of n] by (auto simp: subset_iff)
  next
    assume eq: "S = T"
    have "m ! j = x ! j" if j: "j < bitset_words n" for j
      by (rule bit_word_eqI) (use r(4) [OF j] r2(4) [OF j] eq in simp)
    thus "bitset_eq m x" using r(2) r2(2) by (auto simp: bitset_eq_def intro: nth_equalityI)
  qed
qed

lemma bitset_whole:
  assumes rel: "bitset_rel n m S"
  shows "bitset_rel n (bitset_flip_all n m) ({..<n} - S)" and "bitset_rel n (bitset_set_all n m) {..<n}"
    and "bitset_rel n (bitset_reset_all n) {}"
proof -
  note r = bitset_relD [OF rel]
  have "bitset_rel n (bitset_flip_all n m) ((- S) \<inter> {..<n})"
    unfolding bitset_flip_all_def by (rule mask_last_rel) (use r in \<open>auto simp: bit_simps\<close>)
  moreover have "(- S) \<inter> {..<n} = {..<n} - S" by blast
  ultimately show "bitset_rel n (bitset_flip_all n m) ({..<n} - S)" by simp
  have "bitset_rel n (bitset_set_all n m) (UNIV \<inter> {..<n})"
    unfolding bitset_set_all_def by (rule mask_last_rel) (use r in \<open>auto simp: bit_simps\<close>)
  thus "bitset_rel n (bitset_set_all n m) {..<n}" by simp
  show "bitset_rel n (bitset_reset_all n) {}" by (rule bitset_relI) (use r(1) in \<open>auto simp: bitset_reset_all_def\<close>)
qed

lemma bit_foldl_or: "bit (foldl (OR) a ws) k \<longleftrightarrow> bit (a :: u64) k \<or> (\<exists>w\<in>set ws. bit w k)"
  by (induction ws arbitrary: a) (auto simp: bit_simps)

lemma bit_foldl_missing: "k < 64 \<Longrightarrow> bit (foldl (\<lambda>missing w. missing OR NOT w) a ws) k \<longleftrightarrow> bit (a :: u64) k \<or> (\<exists>w\<in>set ws. \<not> bit w k)"
  by (induction ws arbitrary: a) (auto simp: bit_simps)

lemma word_zero_iff: "(w :: u64) = 0 \<longleftrightarrow> (\<forall>k<64. \<not> bit w k)"
  by (auto intro: bit_word_eqI)

lemma bitset_queries:
  assumes rel: "bitset_rel n m S"
  shows "bitset_any n m = Inr (S \<noteq> {})" and "bitset_none n m = Inr (S = {})" and "bitset_all n m = Inr (S = {..<n})"
proof -
  note r = bitset_relD [OF rel]
  let ?l = "bitset_words n - 1"
  have pos: "0 < bitset_words n" by (rule words_pos [OF r(1)])
  have member: "p \<in> S \<Longrightarrow> p div 64 < bitset_words n \<and> bit (m ! (p div 64)) (p mod 64)" for p
    using r(3) word_of_pos [of p n] r(4) [of "p div 64" "p mod 64"] by auto
  have "foldl (OR) 0 m = 0 \<longleftrightarrow> S = {}"
  proof -
    have "foldl (OR) 0 m = 0 \<longleftrightarrow> (\<forall>j<bitset_words n. \<forall>k<64. \<not> bit (m ! j) k)"
      using r(2) by (auto simp: word_zero_iff bit_foldl_or all_set_conv_all_nth in_set_conv_nth)
    also have "\<dots> \<longleftrightarrow> S = {}" using r(4) member by (metis all_not_in_conv mod_less_divisor zero_less_numeral)
    finally show ?thesis .
  qed
  thus any: "bitset_any n m = Inr (S \<noteq> {})" by (simp add: bitset_any_def no_stray [OF rel])
  show "bitset_none n m = Inr (S = {})" by (simp add: bitset_none_def any)
  have "foldl (\<lambda>missing w. missing OR NOT w) (m ! ?l XOR trailing_mask n) (take ?l m) = 0 \<longleftrightarrow>
      (\<forall>k<64. (bit (m ! ?l) k \<longleftrightarrow> bit (trailing_mask n) k) \<and> (\<forall>j<?l. bit (m ! j) k))"
    using r(2) by (auto simp: word_zero_iff bit_foldl_missing bit_simps all_set_conv_all_nth)
  also have "\<dots> \<longleftrightarrow> (\<forall>j<bitset_words n. \<forall>k<64. 64 * j + k < n \<longrightarrow> 64 * j + k \<in> S)"
  proof -
    have last: "bit (m ! ?l) k = bit (trailing_mask n) k \<longleftrightarrow> (64 * ?l + k < n \<longrightarrow> 64 * ?l + k \<in> S)" if k: "k < 64" for k
      using r(3) r(4) [of ?l k] bit_trailing_mask [OF r(1) k] pos k by (auto simp: subset_iff)
    have early: "bit (m ! j) k \<longleftrightarrow> (64 * j + k < n \<longrightarrow> 64 * j + k \<in> S)" if "j < ?l" "k < 64" for j k
      using r(4) [of j k] below_last [of j n k] that by auto
    have split: "(\<forall>j<bitset_words n. Q j) \<longleftrightarrow> Q ?l \<and> (\<forall>j<?l. Q j)" for Q
    proof -
      have "{..<bitset_words n} = insert ?l {..<?l}" using pos by auto
      thus ?thesis by (metis insert_iff lessThan_iff)
    qed
    show ?thesis unfolding split using last early by blast
  qed
  also have "\<dots> \<longleftrightarrow> S = {..<n}"
  proof
    assume all: "\<forall>j<bitset_words n. \<forall>k<64. 64 * j + k < n \<longrightarrow> 64 * j + k \<in> S"
    have "p \<in> S" if p: "p < n" for p
    proof -
      have "64 * (p div 64) + p mod 64 < n \<longrightarrow> 64 * (p div 64) + p mod 64 \<in> S"
        using all word_of_pos [OF p] by (metis mod_less_divisor zero_less_numeral)
      thus ?thesis using p by simp
    qed
    thus "S = {..<n}" using r(3) by auto
  qed simp
  finally show "bitset_all n m = Inr (S = {..<n})" by (simp add: bitset_all_def no_stray [OF rel])
qed


section \<open>The shifts\<close>

text \<open>Downwards a word may be computed from words at or below it: they are not assigned yet.\<close>

lemma words_down_result:
  assumes local: "\<And>m m' i. (\<And>k. k \<le> i \<Longrightarrow> m ! k = m' ! k) \<Longrightarrow> f m i = f m' i"
  shows "i \<le> length m \<Longrightarrow> \<exists>m1. words_down f lo i m = (m1, min i lo) \<and> length m1 = length m \<and>
    (\<forall>j < length m. m1 ! j = (if lo \<le> j \<and> j < i then f m j else m ! j))"
proof (induction "i - lo" arbitrary: i m)
  case 0
  thus ?case by (subst words_down.simps) auto
next
  case (Suc d)
  hence lt: "lo < i" by simp
  have dec: "d = i - 1 - lo" using Suc.hyps(2) by linarith
  let ?m = "m[i - 1 := f m (i - 1)]"
  have ihp: "i - 1 \<le> length ?m" using Suc.prems by simp
  obtain m1 where m1: "words_down f lo (i - 1) ?m = (m1, min (i - 1) lo)" "length m1 = length m"
    "\<forall>j < length m. m1 ! j = (if lo \<le> j \<and> j < i - 1 then f ?m j else ?m ! j)"
    using Suc.hyps(1) [OF dec ihp] by auto
  have same: "f ?m j = f m j" if "j < i - 1" for j by (rule local) (use that in auto)
  have "m1 ! j = (if lo \<le> j \<and> j < i then f m j else m ! j)" if j: "j < length m" for j
  proof (cases "j = i - 1")
    case True
    thus ?thesis using m1(3) j lt by auto
  next
    case False
    thus ?thesis using m1(3) j lt same by auto
  qed
  moreover have "words_down f lo i m = (m1, min i lo)" using m1(1) lt by (subst words_down.simps) simp
  ultimately show ?case using m1(2) by blast
qed

lemma words_up_result:
  assumes local: "\<And>m m' i. (\<And>k. i \<le> k \<Longrightarrow> m ! k = m' ! k) \<Longrightarrow> f m i = f m' i"
  shows "hi \<le> length m \<Longrightarrow> \<exists>m1. words_up f hi i m = (m1, max i hi) \<and> length m1 = length m \<and>
    (\<forall>j < length m. m1 ! j = (if i \<le> j \<and> j < hi then f m j else m ! j))"
proof (induction "hi - i" arbitrary: i m)
  case 0
  thus ?case by (subst words_up.simps) auto
next
  case (Suc d)
  hence lt: "i < hi" by simp
  have dec: "d = hi - (i + 1)" using Suc.hyps(2) by linarith
  let ?m = "m[i := f m i]"
  obtain m1 where m1: "words_up f hi (i + 1) ?m = (m1, max (i + 1) hi)" "length m1 = length m"
    "\<forall>j < length m. m1 ! j = (if i + 1 \<le> j \<and> j < hi then f ?m j else ?m ! j)"
    using Suc.hyps(1) [OF dec, of ?m] Suc.prems lt by auto
  have same: "f ?m j = f m j" if "i < j" for j by (rule local) (use that in auto)
  have "m1 ! j = (if i \<le> j \<and> j < hi then f m j else m ! j)" if j: "j < length m" for j
  proof (cases "j = i")
    case True
    thus ?thesis using m1(3) j lt by auto
  next
    case False
    thus ?thesis using m1(3) j lt same by auto
  qed
  moreover have "words_up f hi i m = (m1, max i hi)" using m1(1) lt by (subst words_up.simps) simp
  ultimately show ?case using m1(2) by blast
qed

text \<open>The word that a left shift by \<open>64 * ws + b\<close> puts at index \<open>j\<close>.\<close>

definition shl_word :: "bitset \<Rightarrow> nat \<Rightarrow> nat \<Rightarrow> nat \<Rightarrow> u64" where
  "shl_word m ws b j =
     (if j < ws then 0
      else if b = 0 then m ! (j - ws)
      else if j = ws then push_bit b (m ! 0)
      else push_bit b (m ! (j - ws)) OR drop_bit (64 - b) (m ! (j - ws - 1)))"

definition shr_word :: "bitset \<Rightarrow> nat \<Rightarrow> nat \<Rightarrow> nat \<Rightarrow> nat \<Rightarrow> u64" where
  "shr_word m w ws b j =
     (if w \<le> j + ws then 0
      else if b = 0 then m ! (j + ws)
      else if j + ws + 1 = w then drop_bit b (m ! (j + ws))
      else drop_bit b (m ! (j + ws)) OR push_bit (64 - b) (m ! (j + ws + 1)))"

lemma bit_shl_word:
  assumes "b < 64" "k < 64"
  shows "bit (shl_word m ws b j) k \<longleftrightarrow> 64 * ws + b \<le> 64 * j + k \<and> bit_at m (64 * j + k - (64 * ws + b))"
proof (cases "j < ws")
  case True
  thus ?thesis using assms by (auto simp: shl_word_def)
next
  case False
  then obtain d where d: "j = ws + d" by (metis le_add_diff_inverse not_less)
  show ?thesis
  proof (cases "b \<le> k")
    case True
    have "64 * j + k - (64 * ws + b) = 64 * d + (k - b)" using True d by simp
    hence "bit_at m (64 * j + k - (64 * ws + b)) = bit (m ! d) (k - b)" using assms by (simp add: bit_at_parts)
    moreover have "bit (shl_word m ws b j) k = bit (m ! d) (k - b)"
    proof (cases "b = 0 \<or> d = 0")
      case False
      have "\<not> bit (drop_bit (64 - b) (m ! (d - 1))) k" using True assms by (auto simp: bit_simps dest: bit_imp_le_length)
      thus ?thesis using False True assms d by (simp add: shl_word_def bit_simps)
    qed (use True assms d in \<open>auto simp: shl_word_def bit_simps\<close>)
    ultimately show ?thesis using True d by simp
  next
    case kb: False
    show ?thesis
    proof (cases d)
      case 0
      thus ?thesis using kb assms d by (simp add: shl_word_def bit_simps)
    next
      case (Suc e)
      have "64 * j + k - (64 * ws + b) = 64 * e + (64 + k - b)" using kb d Suc assms by simp
      moreover have "64 + k - b < 64" using kb assms by linarith
      ultimately have "bit_at m (64 * j + k - (64 * ws + b)) = bit (m ! e) (64 + k - b)" by (simp only: bit_at_parts)
      moreover have "bit (shl_word m ws b j) k = bit (m ! e) (64 + k - b)"
      proof -
        have "64 - b + k = 64 + k - b" using assms by simp
        thus ?thesis using kb assms d Suc by (simp add: shl_word_def bit_simps)
      qed
      ultimately show ?thesis using kb d Suc assms by simp
    qed
  qed
qed

lemma bit_shr_word:
  assumes "b < 64" "k < 64" "length m = w"
  shows "bit (shr_word m w ws b j) k \<longleftrightarrow> 64 * j + k + (64 * ws + b) < 64 * w \<and> bit_at m (64 * j + k + (64 * ws + b))"
proof (cases "w \<le> j + ws")
  case True
  thus ?thesis using assms by (simp add: shr_word_def)
next
  case False
  show ?thesis
  proof (cases "k + b < 64")
    case True
    have "64 * j + k + (64 * ws + b) = 64 * (j + ws) + (k + b)" by simp
    hence "bit_at m (64 * j + k + (64 * ws + b)) = bit (m ! (j + ws)) (k + b)" using True by (simp only: bit_at_parts)
    moreover have "bit (shr_word m w ws b j) k = bit (m ! (j + ws)) (k + b)"
    proof (cases "b = 0 \<or> j + ws + 1 = w")
      case last: False
      have "\<not> 64 - b \<le> k" using True by linarith
      thus ?thesis using last False True by (simp add: shr_word_def bit_simps add.commute)
    qed (use True False in \<open>auto simp: shr_word_def bit_simps add.commute\<close>)
    moreover have "64 * j + k + (64 * ws + b) < 64 * w" using False True by linarith
    ultimately show ?thesis by simp
  next
    case over: False
    have b: "b \<noteq> 0" using over assms by auto
    show ?thesis
    proof (cases "j + ws + 1 = w")
      case True
      have "\<not> 64 * j + k + (64 * ws + b) < 64 * w" using True over by linarith
      moreover have "\<not> bit (shr_word m w ws b j) k"
        using True over b assms by (auto simp: shr_word_def bit_simps dest: bit_imp_le_length)
      ultimately show ?thesis by blast
    next
      case more: False
      have "64 * j + k + (64 * ws + b) = 64 * (j + ws + 1) + (k + b - 64)" using over by simp
      hence "bit_at m (64 * j + k + (64 * ws + b)) = bit (m ! (j + ws + 1)) (k + b - 64)"
        using assms by (simp only: bit_at_parts)
      moreover have "bit (shr_word m w ws b j) k = bit (m ! (j + ws + 1)) (k + b - 64)"
      proof -
        have low: "\<not> bit (drop_bit b (m ! (j + ws))) k" using over by (auto simp: bit_simps dest: bit_imp_le_length)
        have "k - (64 - b) = k + b - 64" "64 - b \<le> k" using assms over by simp_all
        thus ?thesis using low over more False b assms by (simp add: shr_word_def bit_simps)
      qed
      moreover have "64 * j + k + (64 * ws + b) < 64 * w" using False more over assms by linarith
      ultimately show ?thesis by simp
    qed
  qed
qed


lemma shl_words:
  assumes len: "length m = bitset_words n" and b: "b < 64"
  shows "\<exists>m2 i2. (if b = 0 then words_down (\<lambda>m i. m ! (i - ws)) ws (bitset_words n) m
       else let (m1, i1) = words_down (\<lambda>m i. push_bit b (m ! (i - ws)) OR drop_bit (bits_per_word - b) (m ! (i - ws - 1))) (ws + 1) (bitset_words n) m
            in if i1 > ws then (m1[i1 - 1 := push_bit b (m1 ! 0)], i1 - 1) else (m1, i1)) = (m2, i2) \<and>
     i2 = min (bitset_words n) ws \<and> length m2 = bitset_words n \<and> (\<forall>j<bitset_words n. i2 \<le> j \<longrightarrow> m2 ! j = shl_word m ws b j)"
proof (cases "b = 0")
  case True
  obtain m1 where "words_down (\<lambda>m i. m ! (i - ws)) ws (bitset_words n) m = (m1, min (bitset_words n) ws)" "length m1 = length m"
    "\<forall>j < length m. m1 ! j = (if ws \<le> j \<and> j < bitset_words n then m ! (j - ws) else m ! j)"
    using words_down_result [of "\<lambda>m i. m ! (i - ws)" "bitset_words n" m ws] len by auto
  thus ?thesis using True len by (auto simp: shl_word_def)
next
  case False
  let ?f = "\<lambda>m i. push_bit b (m ! (i - ws)) OR drop_bit (bits_per_word - b) (m ! (i - ws - 1))"
  obtain m1 where m1: "words_down ?f (ws + 1) (bitset_words n) m = (m1, min (bitset_words n) (ws + 1))" "length m1 = length m"
    "\<forall>j < length m. m1 ! j = (if ws + 1 \<le> j \<and> j < bitset_words n then ?f m j else m ! j)"
    using words_down_result [of ?f "bitset_words n" m "ws + 1"] len by auto
  show ?thesis
  proof (cases "ws < bitset_words n")
    case True
    have "m1 ! 0 = m ! 0" using m1(3) len True by auto
    thus ?thesis using False True m1 len by (auto simp: shl_word_def bits_per_word_def nth_list_update)
  next
    case out: False
    thus ?thesis using False m1 len by (auto simp: bits_per_word_def)
  qed
qed

lemma shr_words:
  assumes len: "length m = bitset_words n" and b: "b < 64"
  shows "\<exists>m2 i2. (if b = 0 then words_up (\<lambda>m i. m ! (i + ws)) (bitset_words n - ws) 0 m
       else let (m1, i1) = words_up (\<lambda>m i. drop_bit b (m ! (i + ws)) OR push_bit (bits_per_word - b) (m ! (i + ws + 1))) (bitset_words n - (ws + 1)) 0 m
            in if i1 + ws < bitset_words n then (m1[i1 := drop_bit b (m1 ! (i1 + ws))], i1 + 1) else (m1, i1)) = (m2, i2) \<and>
     i2 = bitset_words n - ws \<and> length m2 = bitset_words n \<and> (\<forall>j<i2. m2 ! j = shr_word m (bitset_words n) ws b j)"
proof (cases "b = 0")
  case True
  obtain m1 where "words_up (\<lambda>m i. m ! (i + ws)) (bitset_words n - ws) 0 m = (m1, bitset_words n - ws)" "length m1 = length m"
    "\<forall>j < length m. m1 ! j = (if 0 \<le> j \<and> j < bitset_words n - ws then m ! (j + ws) else m ! j)"
    using words_up_result [of "\<lambda>m i. m ! (i + ws)" "bitset_words n - ws" m 0] len by auto
  thus ?thesis using True len by (auto simp: shr_word_def)
next
  case False
  let ?f = "\<lambda>m i. drop_bit b (m ! (i + ws)) OR push_bit (bits_per_word - b) (m ! (i + ws + 1))"
  obtain m1 where m1: "words_up ?f (bitset_words n - (ws + 1)) 0 m = (m1, bitset_words n - (ws + 1))" "length m1 = length m"
    "\<forall>j < length m. m1 ! j = (if 0 \<le> j \<and> j < bitset_words n - (ws + 1) then ?f m j else m ! j)"
    using words_up_result [of ?f "bitset_words n - (ws + 1)" m 0] len by auto
  show ?thesis
  proof (cases "ws < bitset_words n")
    case True
    have i1: "bitset_words n - (ws + 1) + ws = bitset_words n - 1" "bitset_words n - (ws + 1) < bitset_words n"
      "bitset_words n - (ws + 1) + 1 = bitset_words n - ws" using True by simp_all
    have last: "m1 ! (bitset_words n - 1) = m ! (bitset_words n - 1)" using m1(3) len True by auto
    have "m1[bitset_words n - (ws + 1) := drop_bit b (m1 ! (bitset_words n - 1))] ! j = shr_word m (bitset_words n) ws b j"
      if j: "j < bitset_words n - ws" for j
    proof (cases "j = bitset_words n - (ws + 1)")
      case jl: True
      have "j + ws + 1 = bitset_words n" "j + ws = bitset_words n - 1" using jl True by simp_all
      thus ?thesis using jl i1(2) m1(2) len last False by (simp add: shr_word_def)
    next
      case jn: False
      hence "j < bitset_words n - (ws + 1)" "\<not> bitset_words n \<le> j + ws" "j + ws + 1 \<noteq> bitset_words n" "j < length m" using j len by simp_all
      thus ?thesis using jn m1(3) False by (simp add: shr_word_def bits_per_word_def)
    qed
    thus ?thesis using False True m1(1,2) len i1 by simp
  next
    case out: False
    thus ?thesis using False m1 len by (auto simp: bits_per_word_def)
  qed
qed

lemma count_parts: "unat c = 64 * word_index c + unat (c AND bit_mask)" "unat (c AND bit_mask) < 64"
  by (simp_all add: word_index_div mask_mod)

lemma bit_at_rel: "bitset_rel n m S \<Longrightarrow> p < 64 * bitset_words n \<Longrightarrow> bit_at m p \<longleftrightarrow> p \<in> S"
  by (simp add: bitset_rel_def)

lemma bitset_shl_rel:
  assumes rel: "bitset_rel n m S"
  shows "bitset_rel n (bitset_shl n m c) ((\<lambda>p. p + unat c) ` S \<inter> {..<n})"
proof (cases "c = 0")
  case True
  thus ?thesis using rel bitset_relD(3) [OF rel] by (simp add: bitset_shl_def Int_absorb2)
next
  case False
  note r = bitset_relD [OF rel]
  define ws b where "ws = word_index c" and "b = unat (c AND bit_mask)"
  have c: "unat c = 64 * ws + b" "b < 64" using count_parts [of c] by (simp_all add: ws_def b_def)
  obtain m2 i2 where m2: "(if b = 0 then words_down (\<lambda>m i. m ! (i - ws)) ws (bitset_words n) m
       else let (m1, i1) = words_down (\<lambda>m i. push_bit b (m ! (i - ws)) OR drop_bit (bits_per_word - b) (m ! (i - ws - 1))) (ws + 1) (bitset_words n) m
            in if i1 > ws then (m1[i1 - 1 := push_bit b (m1 ! 0)], i1 - 1) else (m1, i1)) = (m2, i2)"
    "i2 = min (bitset_words n) ws" "length m2 = bitset_words n" "\<forall>j<bitset_words n. i2 \<le> j \<longrightarrow> m2 ! j = shl_word m ws b j"
    using shl_words [OF r(2) c(2), of ws] by blast
  obtain m3 where m3: "words_down (\<lambda>m i. 0) 0 i2 m2 = (m3, min i2 0)" "length m3 = length m2"
    "\<forall>j < length m2. m3 ! j = (if 0 \<le> j \<and> j < i2 then 0 else m2 ! j)"
    using words_down_result [of "\<lambda>m i. 0" i2 m2 0] m2(2,3) by auto
  have eq: "bitset_shl n m c = mask_last n m3"
    using False m2(1) m3(1) unfolding bitset_shl_def Let_def ws_def b_def by simp
  have words: "m3 ! j = shl_word m ws b j" if "j < bitset_words n" for j
    using m3(3) m2 that by (auto simp: shl_word_def)
  show ?thesis unfolding eq
  proof (rule mask_last_rel)
    fix j k assume j: "j < bitset_words n" and k: "k < (64 :: nat)" and "64 * j + k < n"
    have "bit (m3 ! j) k \<longleftrightarrow> unat c \<le> 64 * j + k \<and> bit_at m (64 * j + k - unat c)"
      unfolding words [OF j] c(1) by (rule bit_shl_word [OF c(2) k])
    also have "\<dots> \<longleftrightarrow> unat c \<le> 64 * j + k \<and> 64 * j + k - unat c \<in> S"
      using bit_at_rel [OF rel, of "64 * j + k - unat c"] j k by auto
    also have "\<dots> \<longleftrightarrow> 64 * j + k \<in> (\<lambda>p. p + unat c) ` S"
      by (auto intro: image_eqI [of _ _ "64 * j + k - unat c"])
    finally show "bit (m3 ! j) k \<longleftrightarrow> 64 * j + k \<in> (\<lambda>p. p + unat c) ` S" .
  qed (use r m2 m3 in auto)
qed

lemma bitset_shr_rel:
  assumes rel: "bitset_rel n m S"
  shows "\<exists>m1. bitset_shr n m c = Inr m1 \<and> bitset_rel n m1 {p. p + unat c \<in> S}"
proof (cases "c = 0")
  case True
  thus ?thesis using rel by (simp add: bitset_shr_def)
next
  case False
  note r = bitset_relD [OF rel]
  define ws b where "ws = word_index c" and "b = unat (c AND bit_mask)"
  have c: "unat c = 64 * ws + b" "b < 64" using count_parts [of c] by (simp_all add: ws_def b_def)
  obtain m2 i2 where m2: "(if b = 0 then words_up (\<lambda>m i. m ! (i + ws)) (bitset_words n - ws) 0 m
       else let (m1, i1) = words_up (\<lambda>m i. drop_bit b (m ! (i + ws)) OR push_bit (bits_per_word - b) (m ! (i + ws + 1))) (bitset_words n - (ws + 1)) 0 m
            in if i1 + ws < bitset_words n then (m1[i1 := drop_bit b (m1 ! (i1 + ws))], i1 + 1) else (m1, i1)) = (m2, i2)"
    "i2 = bitset_words n - ws" "length m2 = bitset_words n" "\<forall>j<i2. m2 ! j = shr_word m (bitset_words n) ws b j"
    using shr_words [OF r(2) c(2), of ws] by blast
  obtain m3 where m3: "words_up (\<lambda>m i. 0) (bitset_words n) i2 m2 = (m3, max i2 (bitset_words n))" "length m3 = length m2"
    "\<forall>j < length m2. m3 ! j = (if i2 \<le> j \<and> j < bitset_words n then 0 else m2 ! j)"
    using words_up_result [of "\<lambda>m i. 0" "bitset_words n" m2 i2] m2(3) by auto
  have eq: "bitset_shr n m c = stray_check n m3"
    using False m2(1) m3(1) unfolding bitset_shr_def Let_def ws_def b_def by simp
  have words: "m3 ! j = shr_word m (bitset_words n) ws b j" if "j < bitset_words n" for j
    using m3(3) m2 that by (auto simp: shr_word_def)
  have rel3: "bitset_rel n m3 {p. p + unat c \<in> S}"
  proof (rule bitset_relI)
    show "{p. p + unat c \<in> S} \<subseteq> {..<n}" using r(3) by auto
    fix j k assume j: "j < bitset_words n" and k: "k < (64 :: nat)"
    have "bit (m3 ! j) k \<longleftrightarrow> 64 * j + k + unat c < 64 * bitset_words n \<and> bit_at m (64 * j + k + unat c)"
      unfolding words [OF j] c(1) by (rule bit_shr_word [OF c(2) k r(2)])
    also have "\<dots> \<longleftrightarrow> 64 * j + k + unat c \<in> S"
      using bit_at_rel [OF rel, of "64 * j + k + unat c"] r(3) words_bound [of n] by auto
    finally show "bit (m3 ! j) k \<longleftrightarrow> 64 * j + k \<in> {p. p + unat c \<in> S}" by simp
  qed (use r m2 m3 in auto)
  thus ?thesis using eq no_stray [OF rel3] by auto
qed

section \<open>Packing\<close>

lemma bit_foldl_pack:
  "bit (foldl (\<lambda>word i. word OR g i) (a :: u64) is) k \<longleftrightarrow> bit a k \<or> (\<exists>i\<in>set is. bit (g i) k)"
  by (induction "is" arbitrary: a) (auto simp: bit_simps)

lemma bit_pack_word:
  assumes eb: "0 < eb" "eb dvd 64" "eb < 64" and k: "k < 64"
  shows "bit (pack_word eb xs) k \<longleftrightarrow> bit (xs ! (k div eb)) (k mod eb)"
proof -
  have part: "bit (push_bit (i * eb) (xs ! i AND (push_bit eb 1 - 1))) k \<longleftrightarrow> i = k div eb \<and> bit (xs ! i) (k mod eb)" for i
  proof -
    have "bit (push_bit (i * eb) (xs ! i AND (push_bit eb 1 - 1))) k \<longleftrightarrow> i * eb \<le> k \<and> k - i * eb < eb \<and> bit (xs ! i) (k - i * eb)"
      using k eb(3) by (auto simp: bit_simps push_bit_of_1 bit_mask_iff simp flip: mask_eq_exp_minus_1)
    also have "\<dots> \<longleftrightarrow> i = k div eb \<and> bit (xs ! i) (k mod eb)"
    proof (cases "i * eb \<le> k \<and> k - i * eb < eb")
      case True
      hence "k div eb = i" by (intro div_nat_eqI) (auto simp: algebra_simps)
      moreover from this have "k mod eb = k - i * eb" by (simp add: minus_div_mult_eq_mod [symmetric])
      ultimately show ?thesis using True by auto
    next
      case False
      have "i \<noteq> k div eb"
      proof
        assume "i = k div eb"
        hence "i * eb \<le> k" "k - i * eb = k mod eb" by (simp_all add: minus_div_mult_eq_mod)
        thus False using False eb(1) by simp
      qed
      thus ?thesis using False by blast
    qed
    finally show ?thesis .
  qed
  obtain q where q: "64 = eb * q" using eb(2) by (rule dvdE)
  have "k div eb < q" using k unfolding q by (intro less_mult_imp_div_less) (simp add: mult.commute)
  moreover have "64 div eb = q" unfolding q using eb(1) by simp
  ultimately have "k div eb < 64 div eb" by simp
  thus ?thesis unfolding pack_word_def bit_foldl_pack part by auto
qed

section \<open>Properties\<close>

text \<open>C26: the bit set is a set of positions below \<open>bit_count\<close>: single bits, the bitwise operations, both shifts by any count,
  the queries and the comparison are the operations on sets, no bit ever strays past the end, and none of the assertions fails.\<close>

theorem bitset_refines_sets:
  assumes "bitset_rel n m S" and "bitset_rel n x T" and "unat pos < n"
  shows "bitset_test n m pos = Inr (unat pos \<in> S) \<and>
    (\<exists>m1. bitset_set n m pos v = Inr m1 \<and> bitset_rel n m1 (if v then insert (unat pos) S else S - {unat pos})) \<and>
    (\<exists>m1. bitset_reset n m pos = Inr m1 \<and> bitset_rel n m1 (S - {unat pos})) \<and>
    (\<exists>m1. bitset_flip n m pos = Inr m1 \<and> bitset_rel n m1 (if unat pos \<in> S then S - {unat pos} else insert (unat pos) S)) \<and>
    bitset_rel n (bitset_and m x) (S \<inter> T) \<and>
    (\<exists>m1. bitset_or n m x = Inr m1 \<and> bitset_rel n m1 (S \<union> T)) \<and>
    (\<exists>m1. bitset_xor n m x = Inr m1 \<and> bitset_rel n m1 ((S - T) \<union> (T - S))) \<and>
    bitset_rel n (bitset_shl n m c) ((\<lambda>p. p + unat c) ` S \<inter> {..<n}) \<and>
    (\<exists>m1. bitset_shr n m c = Inr m1 \<and> bitset_rel n m1 {p. p + unat c \<in> S}) \<and>
    bitset_rel n (bitset_flip_all n m) ({..<n} - S) \<and> bitset_rel n (bitset_set_all n m) {..<n} \<and> bitset_rel n (bitset_new n) {} \<and>
    bitset_any n m = Inr (S \<noteq> {}) \<and> bitset_none n m = Inr (S = {}) \<and> bitset_all n m = Inr (S = {..<n}) \<and>
    (bitset_eq m x \<longleftrightarrow> S = T)"
  unfolding bitset_new_def
  by (intro conjI bitset_single_bits [OF assms(1,3)] bitset_combine [OF assms(1,2)] bitset_shl_rel [OF assms(1)]
      bitset_shr_rel [OF assms(1)] bitset_whole [OF assms(1)] bitset_queries [OF assms(1)])

theorem bitset_refines_sets_witness:
  "bitset_rel 70 (bitset_shl 70 [2 ^ 63, 0] 6) {69} \<and> bitset_test 70 [2 ^ 63, 0] 63 = Inr True"
proof -
  have rel: "bitset_rel 70 [2 ^ 63, 0] {63}"
    by (rule bitset_relI) (auto simp: bitset_words_def less_Suc_eq numeral_2_eq_2 bit_simps)
  show ?thesis using bitset_refines_sets [OF rel rel, of 63 True 6] by simp
qed

end
