(* ===== verification/HxSlotMap.thy ===== *)
theory HxSlotMap
  imports HxAllocator
begin

text \<open>
  The slot map of \<^verbatim>\<open>include/hx/hxslot_map.hpp\<close> and \<^verbatim>\<open>detail/hxslot_map.inl\<close>: dense values and the slots that
  handles name, with the back references that tie them together. 32-bit indices never exceed \<open>2 ^ 30\<close> and are
  natural numbers; handles are 64-bit words whose generation wraps. A position equal to the
  size is \<open>end()\<close>.
\<close>

section \<open>The map\<close>

type_synonym hxhandle_t = u64

record map_slot =
  sl_handle :: hxhandle_t
  sl_index :: nat
  sl_backref :: nat

record 'a hxslot_map =
  sm_size :: nat
  sm_mask :: nat
  sm_slots :: "map_slot list"
  sm_values :: "'a option list"

text \<open>\<open>build_free_list_\<close> over \<open>capacity\<close> slots; \<open>raw\<close> is what the last back reference and the sentinel's index are left as.\<close>

definition built_slot :: "nat \<Rightarrow> nat \<Rightarrow> nat \<Rightarrow> map_slot" where
  "built_slot raw capacity i =
     \<lparr>sl_handle = (if i = 0 then 1 else word_of_nat i OR word_of_nat capacity),
      sl_index = (if i = 0 then raw else i - 1),
      sl_backref = (if i + 1 = capacity then raw else i + 1)\<rparr>"

definition build_free_list :: "nat \<Rightarrow> 'a hxslot_map \<Rightarrow> 'a hxslot_map" where
  "build_free_list raw m = m\<lparr>sm_slots := map (built_slot raw (length (sm_slots m))) [0..<length (sm_slots m)], sm_size := 0\<rparr>"

definition raw_slot :: "nat \<Rightarrow> map_slot" where
  "raw_slot raw = \<lparr>sl_handle = 0, sl_index = raw, sl_backref = raw\<rparr>"

text \<open>A map of \<open>table_size_bits\<close>; with 0 it has no table yet.\<close>

definition hxslot_map_new :: "nat \<Rightarrow> nat \<Rightarrow> 'a hxslot_map" where
  "hxslot_map_new raw bits =
     (if bits \<noteq> 0
      then build_free_list raw \<lparr>sm_size = 0, sm_mask = 2 ^ bits - 1, sm_slots = replicate (2 ^ bits) (raw_slot raw), sm_values = replicate (2 ^ bits - 1) None\<rparr>
      else \<lparr>sm_size = 0, sm_mask = 0, sm_slots = [], sm_values = []\<rparr>)"

definition slot_map_set_size_bits :: "nat \<Rightarrow> 'a hxslot_map \<Rightarrow> nat \<Rightarrow> 'a hxslot_map hx" where
  "slot_map_set_size_bits raw m bits =
     (if \<not> (1 \<le> bits \<and> bits \<le> 30) then Inl (Assert_debug ''bad_bits'')
      else if sm_slots m \<noteq> [] \<and> length (sm_slots m) \<noteq> 2 ^ bits then Inl (Assert_always ''bad_reserve already sized'')
      else let m1 = m\<lparr>sm_mask := 2 ^ bits - 1\<rparr>;
               m2 = (if sm_slots m = [] then m1\<lparr>sm_slots := replicate (2 ^ bits) (raw_slot raw), sm_values := replicate (2 ^ bits - 1) None\<rparr> else m1)
           in Inr (build_free_list raw m2))"

definition slot_map_capacity :: "'a hxslot_map \<Rightarrow> hxsize_t" where
  "slot_map_capacity m = int (sm_mask m)"

definition slot_map_size :: "'a hxslot_map \<Rightarrow> hxsize_t" where
  "slot_map_size m = int (sm_size m)"

definition slot_map_full :: "'a hxslot_map \<Rightarrow> bool" where
  "slot_map_full m = (sm_size m = sm_mask m)"

definition slot_of :: "nat \<Rightarrow> hxhandle_t \<Rightarrow> nat" where
  "slot_of msk h = unat ((ucast h :: u32) AND word_of_nat msk)"

definition slot_map_value :: "'a hxslot_map \<Rightarrow> hxhandle_t \<Rightarrow> nat hx" where
  "slot_map_value m h =
     (if sm_slots m = [] then Inl (Assert_debug ''no_table'')
      else let slot = sm_slots m ! slot_of (sm_mask m) h
           in Inr (if sl_handle slot = h then sl_index slot else sm_size m))"

definition slot_map_handle_at :: "'a hxslot_map \<Rightarrow> hxsize_t \<Rightarrow> hxhandle_t hx" where
  "slot_map_handle_at m index =
     (if \<not> (0 \<le> index \<and> index < int (sm_size m)) then Inl (Assert_debug ''bad_index'')
      else Inr (sl_handle (sm_slots m ! sl_backref (sm_slots m ! nat index))))"

definition slot_map_and_then :: "('a \<Rightarrow> 'b option) \<Rightarrow> 'a hxslot_map \<Rightarrow> hxhandle_t \<Rightarrow> 'b option hx" where
  "slot_map_and_then callable m h =
     hx_bind (slot_map_value m h) (\<lambda>p. if p \<noteq> sm_size m then hx_map callable (read_slot (sm_values m) p) else Inr None)"

definition slot_map_or_else :: "nat \<Rightarrow> 'a hxslot_map \<Rightarrow> hxhandle_t \<Rightarrow> nat hx" where
  "slot_map_or_else alternative m h = hx_map (\<lambda>p. if p \<noteq> sm_size m then p else alternative) (slot_map_value m h)"

definition slot_map_value_or :: "'a \<Rightarrow> 'a hxslot_map \<Rightarrow> hxhandle_t \<Rightarrow> 'a hx" where
  "slot_map_value_or alternative m h =
     hx_bind (slot_map_value m h) (\<lambda>p. if p \<noteq> sm_size m then read_slot (sm_values m) p else Inr alternative)"

definition slot_map_emplace :: "'a hxslot_map \<Rightarrow> 'a \<Rightarrow> ('a hxslot_map \<times> hxhandle_t) hx" where
  "slot_map_emplace m x =
     (if \<not> sm_size m < sm_mask m then Inl (Assert_hard ''table_full'')
      else let h = sl_handle (sm_slots m ! sl_backref (sm_slots m ! sm_size m))
           in hx_map (\<lambda>vs. (m\<lparr>sm_size := sm_size m + 1, sm_values := vs\<rparr>, h)) (construct_slot (sm_values m) (sm_size m) x))"

definition slot_map_insert :: "'a hxslot_map \<Rightarrow> 'a \<Rightarrow> ('a hxslot_map \<times> hxhandle_t) hx" where
  "slot_map_insert m x = slot_map_emplace m x"

text \<open>The four writes by which the last value takes the place of another.\<close>

definition slot_relink :: "map_slot list \<Rightarrow> nat \<Rightarrow> nat \<Rightarrow> nat \<Rightarrow> nat \<Rightarrow> map_slot list" where
  "slot_relink slots val lst index owner =
     (let s1 = slots[lst := (slots ! lst)\<lparr>sl_backref := index\<rparr>];
          s2 = s1[val := (s1 ! val)\<lparr>sl_backref := owner\<rparr>];
          s3 = s2[owner := (s2 ! owner)\<lparr>sl_index := val\<rparr>]
      in s3[index := (s3 ! index)\<lparr>sl_index := lst\<rparr>])"

text \<open>Moving the last value into the position of one that goes, unless it is the last itself.\<close>

definition slot_fill :: "map_slot list \<Rightarrow> 'a option list \<Rightarrow> nat \<Rightarrow> nat \<Rightarrow> nat \<Rightarrow> nat \<Rightarrow> (map_slot list \<times> 'a option list) hx" where
  "slot_fill slots values val lst index owner =
     (if val \<noteq> lst
      then hx_bind (read_slot values lst) (\<lambda>x.
           hx_map (\<lambda>vs. (slot_relink slots val lst index owner, vs)) (assign_slot values val x))
      else Inr (slots, values))"

definition slot_map_reset :: "'a hxslot_map \<Rightarrow> hxhandle_t \<Rightarrow> ('a hxslot_map \<times> bool) hx" where
  "slot_map_reset m h =
     (if sm_slots m = [] then Inl (Assert_debug ''no_table'')
      else let index = slot_of (sm_mask m) h; slot = sm_slots m ! index in
        if sl_handle slot \<noteq> h then Inr (m, False)
        else let val = sl_index slot; lst = sm_size m - 1; owner = sl_backref (sm_slots m ! lst) in
          hx_bind (slot_fill (sm_slots m) (sm_values m) val lst index owner) (\<lambda>(slots, vs).
          hx_map (\<lambda>vs2. (m\<lparr>sm_slots := slots[index := (slots ! index)\<lparr>sl_handle := h + (word_of_nat (sm_mask m) + 1)\<rparr>],
                           sm_size := lst, sm_values := vs2\<rparr>, True))
            (destroy_slot vs lst)))"

fun slot_map_erase_loop :: "('a \<Rightarrow> bool) \<Rightarrow> nat \<Rightarrow> nat \<Rightarrow> map_slot list \<Rightarrow> 'a option list \<Rightarrow> nat \<Rightarrow>
    (map_slot list \<times> 'a option list \<times> nat \<times> nat) hx" where
  "slot_map_erase_loop callable msk 0 slots values lst = Inr (slots, values, lst, 0)"
| "slot_map_erase_loop callable msk (Suc val) slots values lst =
     hx_bind (read_slot values val) (\<lambda>v.
     if callable v
     then let last1 = lst - 1; owner = sl_backref (slots ! last1); index = sl_backref (slots ! val) in
       hx_bind (slot_fill slots values val last1 index owner) (\<lambda>(slots1, values1).
       hx_bind (destroy_slot values1 last1) (\<lambda>values2.
       hx_map (\<lambda>(s, vs, l, erased). (s, vs, l, erased + 1))
         (slot_map_erase_loop callable msk val
           (slots1[index := (slots1 ! index)\<lparr>sl_handle := sl_handle (slots1 ! index) + (word_of_nat msk + 1)\<rparr>]) values2 last1)))
     else slot_map_erase_loop callable msk val slots values lst)"

definition slot_map_erase_if :: "('a \<Rightarrow> bool) \<Rightarrow> 'a hxslot_map \<Rightarrow> ('a hxslot_map \<times> hxsize_t) hx" where
  "slot_map_erase_if callable m =
     (if sm_slots m = [] then Inl (Assert_debug ''no_table'')
      else hx_map (\<lambda>(slots, values, lst, erased). (m\<lparr>sm_slots := slots, sm_values := values, sm_size := lst\<rparr>, int erased))
        (slot_map_erase_loop callable (sm_mask m) (sm_size m) (sm_slots m) (sm_values m) (sm_size m)))"

fun slot_map_clear_loop :: "nat \<Rightarrow> nat \<Rightarrow> nat \<Rightarrow> map_slot list \<Rightarrow> 'a option list \<Rightarrow> (map_slot list \<times> 'a option list) hx" where
  "slot_map_clear_loop increment i 0 slots values = Inr (slots, values)"
| "slot_map_clear_loop increment i (Suc n) slots values =
     (let b = sl_backref (slots ! i) in
      hx_bind (destroy_slot values i) (\<lambda>values1.
      slot_map_clear_loop increment (i + 1) n
        (slots[b := (slots ! b)\<lparr>sl_handle := sl_handle (slots ! b) + word_of_nat increment\<rparr>]) values1))"

definition slot_map_clear :: "'a hxslot_map \<Rightarrow> 'a hxslot_map hx" where
  "slot_map_clear m =
     (if sm_size m = 0 then Inr m
      else hx_map (\<lambda>(slots, values). m\<lparr>sm_slots := slots, sm_values := values, sm_size := 0\<rparr>)
        (slot_map_clear_loop (length (sm_slots m)) 0 (sm_size m) (sm_slots m) (sm_values m)))"

section \<open>Handles\<close>

text \<open>The handle of slot \<open>b\<close> after \<open>j\<close> releases.\<close>

definition slot_handle :: "nat \<Rightarrow> nat \<Rightarrow> nat \<Rightarrow> hxhandle_t" where
  "slot_handle bits b j = word_of_nat (b + 2 ^ bits * (1 + j))"

lemma increment_eq: "(word_of_nat (2 ^ bits) :: u64) = word_of_nat (2 ^ bits - 1) + 1"
proof -
  have "(2::nat) ^ bits = (2 ^ bits - 1) + 1" by simp
  then show ?thesis by (metis of_nat_1 of_nat_add)
qed

lemma slot_handle_Suc: "slot_handle bits b (Suc j) = slot_handle bits b j + (word_of_nat (2 ^ bits - 1) + 1)"
proof -
  have "b + 2 ^ bits * (1 + Suc j) = b + 2 ^ bits * (1 + j) + 2 ^ bits" by simp
  then show ?thesis using increment_eq [of bits] by (simp add: slot_handle_def)
qed

lemma slot_of_handle:
  assumes "b < 2 ^ bits" and "bits \<le> 30"
  shows "slot_of (2 ^ bits - 1) (slot_handle bits b j) = b"
proof -
  have m: "(word_of_nat (2 ^ bits - 1) :: u32) = 2 ^ bits - 1" by (simp add: of_nat_diff)
  have dvd: "(2::nat) ^ bits dvd 2 ^ 32" "(2::nat) ^ bits dvd 2 ^ 64" using assms(2) by (intro le_imp_power_dvd; simp)+
  have "unat (slot_handle bits b j) = (b + 2 ^ bits * (1 + j)) mod 2 ^ 64"
    unfolding slot_handle_def by (simp only: unat_of_nat len_num1 len_bit0) simp
  then have "unat (ucast (slot_handle bits b j) :: u32) = (b + 2 ^ bits * (1 + j)) mod 2 ^ 64 mod 2 ^ 32"
    by (simp add: unsigned_ucast_eq take_bit_eq_mod)
  then have "slot_of (2 ^ bits - 1) (slot_handle bits b j) = (b + 2 ^ bits * (1 + j)) mod 2 ^ 64 mod 2 ^ 32 mod 2 ^ bits"
    unfolding slot_of_def m unat_and_mask by simp
  then have "slot_of (2 ^ bits - 1) (slot_handle bits b j) = (b + 2 ^ bits * (1 + j)) mod 2 ^ bits" using dvd by (simp add: mod_mod_cancel)
  also have "\<dots> = b" using assms(1) by (simp only: mod_mult_self2 mod_less)
  finally show ?thesis .
qed

lemma slot_handle_inj:
  assumes "slot_handle bits b j = slot_handle bits b' j'" and "b < 2 ^ bits" and "b' < 2 ^ bits" and "bits \<le> 30"
  shows "b = b'"
  using slot_of_handle [OF assms(2,4), of j] slot_of_handle [OF assms(3,4), of j'] assms(1) by simp

lemma slot_handle_stale:
  assumes "j < j'" and "j' < 2 ^ (64 - bits)" and "bits \<le> 30"
  shows "slot_handle bits b j \<noteq> slot_handle bits b j'"
proof
  assume "slot_handle bits b j = slot_handle bits b j'"
  then have "(b + 2 ^ bits * (1 + j)) mod 2 ^ 64 = (b + 2 ^ bits * (1 + j')) mod 2 ^ 64"
    unfolding slot_handle_def by (simp only: of_nat_eq_iff [symmetric] word_of_nat_eq_iff take_bit_eq_mod len_num1 len_bit0) simp
  then have "2 ^ 64 dvd (b + 2 ^ bits * (1 + j')) - (b + 2 ^ bits * (1 + j))"
    using assms(1) by (intro mod_eq_dvd_iff_nat [THEN iffD1]) auto
  moreover have "(b + 2 ^ bits * (1 + j')) - (b + 2 ^ bits * (1 + j)) = 2 ^ bits * (j' - j)"
    using assms(1) by (simp add: algebra_simps diff_mult_distrib2)
  moreover have "2 ^ bits * (j' - j) < (2::nat) ^ bits * 2 ^ (64 - bits)" using assms(2) by simp
  moreover have "(2::nat) ^ bits * 2 ^ (64 - bits) = 2 ^ 64" using assms(3) by (simp add: power_add [symmetric])
  moreover have "0 < 2 ^ bits * (j' - j)" using assms(1) by simp
  ultimately show False by (simp add: nat_dvd_not_less)
qed

lemma built_handle: "0 < i \<Longrightarrow> i < 2 ^ bits \<Longrightarrow> word_of_nat i OR word_of_nat (2 ^ bits) = slot_handle bits i 0"
proof -
  assume i: "0 < i" "i < 2 ^ bits"
  have "\<not> bit (word_of_nat i :: u64) n \<or> \<not> bit (word_of_nat (2 ^ bits) :: u64) n" for n
  proof (cases "n < bits")
    case True
    then show ?thesis by (simp add: bit_of_nat_iff bit_exp_iff)
  next
    case False
    then have "i < 2 ^ n" using i(2) by (meson less_le_trans linorder_not_less one_le_numeral power_increasing)
    then have "\<not> bit i n" by (simp add: bit_iff_odd)
    then show ?thesis by (simp add: bit_of_nat_iff)
  qed
  then have "(word_of_nat i :: u64) OR word_of_nat (2 ^ bits) = word_of_nat i + word_of_nat (2 ^ bits)"
    by (simp add: disjunctive_add)
  then show ?thesis by (simp add: slot_handle_def)
qed

section \<open>The map as a list of pairs\<close>

text \<open>\<open>slot_ok bits m g xs\<close>: the map holds the values \<open>xs\<close>, the back references and indices are mutual inverses, and slot
  \<open>b\<close> has been released \<open>g b\<close> times.\<close>

definition links_ok :: "nat \<Rightarrow> map_slot list \<Rightarrow> bool" where
  "links_ok c slots \<longleftrightarrow> length slots = c \<and>
     (\<forall>i<c - 1. 1 \<le> sl_backref (slots ! i) \<and> sl_backref (slots ! i) < c \<and> sl_index (slots ! sl_backref (slots ! i)) = i) \<and>
     (\<forall>b. 1 \<le> b \<longrightarrow> b < c \<longrightarrow> sl_index (slots ! b) < c - 1 \<and> sl_backref (slots ! sl_index (slots ! b)) = b)"

definition handles_ok :: "nat \<Rightarrow> map_slot list \<Rightarrow> (nat \<Rightarrow> nat) \<Rightarrow> bool" where
  "handles_ok bits slots g \<longleftrightarrow> sl_handle (slots ! 0) = 1 \<and> (\<forall>b. 1 \<le> b \<longrightarrow> b < 2 ^ bits \<longrightarrow> sl_handle (slots ! b) = slot_handle bits b (g b))"

definition slot_ok :: "nat \<Rightarrow> 'a hxslot_map \<Rightarrow> (nat \<Rightarrow> nat) \<Rightarrow> 'a list \<Rightarrow> bool" where
  "slot_ok bits m g xs \<longleftrightarrow> 1 \<le> bits \<and> bits \<le> 30 \<and> links_ok (2 ^ bits) (sm_slots m) \<and> handles_ok bits (sm_slots m) g \<and>
     sm_mask m = 2 ^ bits - 1 \<and> sm_size m = length xs \<and> length xs \<le> 2 ^ bits - 1 \<and> sm_values m = live_prefix xs (2 ^ bits - 1)"

lemma built_links: "2 \<le> c \<Longrightarrow> links_ok c (map (built_slot raw c) [0..<c])"
  by (auto simp: links_ok_def built_slot_def)

lemma built_handles: "1 \<le> bits \<Longrightarrow> handles_ok bits (map (built_slot raw (2 ^ bits)) [0..<2 ^ bits]) (\<lambda>_. 0)"
  using built_handle by (auto simp: handles_ok_def built_slot_def)

text \<open>What the relinking does to the links: positions \<open>val\<close> and \<open>last\<close> trade slots.\<close>

lemma nth_update_keep: "f y = f (xs ! i) \<Longrightarrow> f (xs[i := y] ! b) = f (xs ! b)"
  by (cases "i < length xs"; cases "i = b") (simp_all add: list_update_beyond not_less)

lemma relink_handle: "length slots = length (slot_relink slots val lst index owner)"
  "sl_handle (slot_relink slots val lst index owner ! b) = sl_handle (slots ! b)"
  by (simp_all add: slot_relink_def Let_def nth_update_keep [where f = sl_handle])

lemma relink_links:
  assumes ok: "links_ok c slots" and "val < c - 1" and "lst < c - 1" and "val \<noteq> lst"
    and index: "index = sl_backref (slots ! val)" and owner: "owner = sl_backref (slots ! lst)"
  shows "links_ok c (slot_relink slots val lst index owner)"
    and "i < c - 1 \<Longrightarrow> sl_backref (slot_relink slots val lst index owner ! i) =
      (if i = val then owner else if i = lst then index else sl_backref (slots ! i))"
proof -
  have len: "length slots = c" and b: "\<And>i. i < c - 1 \<Longrightarrow> 1 \<le> sl_backref (slots ! i) \<and> sl_backref (slots ! i) < c \<and> sl_index (slots ! sl_backref (slots ! i)) = i"
    and x: "\<And>b. 1 \<le> b \<Longrightarrow> b < c \<Longrightarrow> sl_index (slots ! b) < c - 1 \<and> sl_backref (slots ! sl_index (slots ! b)) = b"
    using ok by (auto simp: links_ok_def)
  have lt: "val < c" "lst < c" "index < c" "owner < c" "1 \<le> index" "1 \<le> owner" and neq: "index \<noteq> owner"
    using assms(2-4) b [of val] b [of lst] by (auto simp: index owner)
  have bk: "sl_backref (slot_relink slots val lst index owner ! i) = (if i = val then owner else if i = lst then index else sl_backref (slots ! i))"
    if "i < c" for i using that lt len assms(4) by (auto simp: slot_relink_def Let_def nth_list_update)
  have ix: "sl_index (slot_relink slots val lst index owner ! i) = (if i = index then lst else if i = owner then val else sl_index (slots ! i))"
    if "i < c" for i using that lt len neq by (auto simp: slot_relink_def Let_def nth_list_update)
  show "i < c - 1 \<Longrightarrow> sl_backref (slot_relink slots val lst index owner ! i) =
      (if i = val then owner else if i = lst then index else sl_backref (slots ! i))" using bk [of i] by simp
  show "links_ok c (slot_relink slots val lst index owner)"
    unfolding links_ok_def
  proof (intro conjI allI impI)
    show "length (slot_relink slots val lst index owner) = c" using len relink_handle(1) by metis
    fix i assume i: "i < c - 1"
    show "1 \<le> sl_backref (slot_relink slots val lst index owner ! i)" "sl_backref (slot_relink slots val lst index owner ! i) < c"
      using bk [of i] i b [of i] lt by auto
    then show "sl_index (slot_relink slots val lst index owner ! sl_backref (slot_relink slots val lst index owner ! i)) = i"
      using bk [of i] i b [of i] b [of val] b [of lst] assms(2,3) neq ix [of "sl_backref (slot_relink slots val lst index owner ! i)"]
      by (auto simp: index owner split: if_splits)
  next
    fix j assume j: "1 \<le> j" "j < c"
    show "sl_index (slot_relink slots val lst index owner ! j) < c - 1" using ix [OF j(2)] x [OF j] assms(2,3) by auto
    then show "sl_backref (slot_relink slots val lst index owner ! sl_index (slot_relink slots val lst index owner ! j)) = j"
      using ix [OF j(2)] x [OF j] bk [of "sl_index (slot_relink slots val lst index owner ! j)"] assms(2-4) b [of val] b [of lst]
      by (auto simp: index owner split: if_splits)
  qed
qed

lemma handle_update_links:
  assumes "links_ok c slots" and "b < c"
  shows "links_ok c (slots[b := (slots ! b)\<lparr>sl_handle := h\<rparr>])"
    and "sl_backref (slots[b := (slots ! b)\<lparr>sl_handle := h\<rparr>] ! i) = sl_backref (slots ! i)"
proof -
  have len: "length slots = c" using assms by (simp add: links_ok_def)
  have same: "sl_backref (slots[b := (slots ! b)\<lparr>sl_handle := h\<rparr>] ! i) = sl_backref (slots ! i)"
    "sl_index (slots[b := (slots ! b)\<lparr>sl_handle := h\<rparr>] ! i) = sl_index (slots ! i)" for i
    using assms(2) len by (cases "i = b"; simp)+
  show "sl_backref (slots[b := (slots ! b)\<lparr>sl_handle := h\<rparr>] ! i) = sl_backref (slots ! i)" by (rule same)
  show "links_ok c (slots[b := (slots ! b)\<lparr>sl_handle := h\<rparr>])" using assms(1) unfolding links_ok_def same by simp
qed

lemma handle_update_ok:
  assumes "handles_ok bits slots g" and "1 \<le> b" and "b < 2 ^ bits" and "length slots = 2 ^ bits"
  shows "handles_ok bits (slots[b := (slots ! b)\<lparr>sl_handle := sl_handle (slots ! b) + (word_of_nat (2 ^ bits - 1) + 1)\<rparr>]) (g(b := Suc (g b)))"
  using assms by (auto simp: handles_ok_def nth_list_update slot_handle_Suc)

text \<open>Releasing the value at a position, which \<open>reset\<close> and \<open>erase_if\<close> share. The last takes its place.\<close>

definition swap_remove :: "nat \<Rightarrow> 'a list \<Rightarrow> 'a list" where
  "swap_remove k xs = butlast (xs[k := last xs])"

definition live_handles :: "map_slot list \<Rightarrow> nat \<Rightarrow> hxhandle_t list" where
  "live_handles slots n = map (\<lambda>i. sl_handle (slots ! sl_backref (slots ! i))) [0..<n]"

lemma swap_remove_length [simp]: "length (swap_remove k xs) = length xs - 1"
  by (simp add: swap_remove_def)

lemma swap_remove_nth: "k < length xs \<Longrightarrow> i < length xs - 1 \<Longrightarrow> swap_remove k xs ! i = (if i = k then last xs else xs ! i)"
  by (simp add: swap_remove_def nth_butlast nth_list_update)

lemma swap_remove_map: "xs \<noteq> [] \<Longrightarrow> map f (swap_remove k xs) = swap_remove k (map f xs)"
  by (simp add: swap_remove_def map_butlast map_update last_map)

lemma swap_remove_mset: "k < length xs \<Longrightarrow> add_mset (xs ! k) (mset (swap_remove k xs)) = mset xs"
proof (cases "k = length xs - 1")
  case True
  assume "k < length xs"
  then have "xs = butlast xs @ [xs ! k]" using True by (metis append_butlast_last_id last_conv_nth length_0_conv less_nat_zero_code)
  then have "mset xs = add_mset (xs ! k) (mset (butlast xs))" by (metis mset.simps(2) mset_append add_mset_add_single mset.simps(1))
  moreover have "xs[k := last xs] = xs" using True \<open>k < length xs\<close> by (metis last_conv_nth length_0_conv less_nat_zero_code list_update_id)
  ultimately show ?thesis by (simp add: swap_remove_def)
next
  case False
  assume k: "k < length xs"
  then have "xs \<noteq> []" by auto
  then obtain ys x where xs: "xs = ys @ [x]" by (metis append_butlast_last_id)
  then have "k < length ys" using k False by simp
  then have "swap_remove k xs = ys[k := x]" by (simp add: swap_remove_def xs list_update_append)
  then show ?thesis using \<open>k < length ys\<close> by (simp add: xs nth_append mset_update)
qed

lemma release_step:
  assumes links: "links_ok (2 ^ bits) slots" and handles: "handles_ok bits slots g" and n: "length xs \<le> 2 ^ bits - 1" and k: "k < length xs"
  defines "lst \<equiv> length xs - 1" and "index \<equiv> sl_backref (slots ! k)"
  obtains slots1 values1 where
    "slot_fill slots (live_prefix xs (2 ^ bits - 1)) k lst index (sl_backref (slots ! lst)) = Inr (slots1, values1)"
    "destroy_slot values1 lst = Inr (live_prefix (swap_remove k xs) (2 ^ bits - 1))"
    "sl_handle (slots1 ! index) = sl_handle (slots ! index)"
    "links_ok (2 ^ bits) (slots1[index := (slots1 ! index)\<lparr>sl_handle := sl_handle (slots1 ! index) + (word_of_nat (2 ^ bits - 1) + 1)\<rparr>])"
    "handles_ok bits (slots1[index := (slots1 ! index)\<lparr>sl_handle := sl_handle (slots1 ! index) + (word_of_nat (2 ^ bits - 1) + 1)\<rparr>]) (g(index := Suc (g index)))"
    "live_handles (slots1[index := (slots1 ! index)\<lparr>sl_handle := sl_handle (slots1 ! index) + (word_of_nat (2 ^ bits - 1) + 1)\<rparr>]) (length xs - 1) =
      swap_remove k (live_handles slots (length xs))"
proof -
  let ?c = "2 ^ bits :: nat"
  note ieq = meta_eq_to_obj_eq [OF index_def]
  have some: "xs \<noteq> []" using k by auto
  have kc: "k < ?c - 1" "lst < ?c - 1" using k n unfolding lst_def by linarith+
  have len: "length slots = ?c" and b: "\<And>i. i < ?c - 1 \<Longrightarrow> 1 \<le> sl_backref (slots ! i) \<and> sl_backref (slots ! i) < ?c \<and> sl_index (slots ! sl_backref (slots ! i)) = i"
    using links by (auto simp: links_ok_def)
  have idx: "1 \<le> index" "index < ?c" using b [OF kc(1)] by (simp_all add: index_def)
  define slots1 where "slots1 = (if k \<noteq> lst then slot_relink slots k lst index (sl_backref (slots ! lst)) else slots)"
  define values1 where "values1 = live_prefix (xs[k := last xs]) (?c - 1)"
  have last: "xs ! lst = last xs" using some by (simp add: lst_def last_conv_nth)
  have fill: "slot_fill slots (live_prefix xs (?c - 1)) k lst index (sl_backref (slots ! lst)) = Inr (slots1, values1)"
  proof (cases "k = lst")
    case True
    then have "xs[k := last xs] = xs" using last by (metis list_update_id)
    then show ?thesis using True by (simp add: slot_fill_def slots1_def values1_def)
  next
    case False
    have "lst < length xs" using some by (simp add: lst_def)
    then show ?thesis using False k n last by (simp add: slot_fill_def slots1_def values1_def read_slot_live assign_slot_live)
  qed
  have destroy: "destroy_slot values1 lst = Inr (live_prefix (swap_remove k xs) (?c - 1))"
    using destroy_slot_live [of "xs[k := last xs]" "?c - 1"] some n by (simp add: values1_def lst_def swap_remove_def)
  have same: "sl_handle (slots1 ! j) = sl_handle (slots ! j)" for j by (simp add: slots1_def relink_handle(2))
  have links1: "links_ok ?c slots1" using links relink_links(1) [OF links kc _ ieq refl] by (simp add: slots1_def)
  have back1: "sl_backref (slots1 ! i) = (if i = k then sl_backref (slots ! lst) else sl_backref (slots ! i))" if "i < ?c - 1" "i \<noteq> lst" for i
    using that relink_links(2) [OF links kc _ ieq refl that(1)] by (auto simp: slots1_def)
  have len1: "length slots1 = ?c" using links1 by (simp add: links_ok_def)
  have handles1: "handles_ok bits slots1 g" using handles by (simp add: handles_ok_def same)
  let ?s2 = "slots1[index := (slots1 ! index)\<lparr>sl_handle := sl_handle (slots1 ! index) + (word_of_nat (2 ^ bits - 1) + 1)\<rparr>]"
  note links2 = handle_update_links [OF links1 idx(2), of "sl_handle (slots1 ! index) + (word_of_nat (2 ^ bits - 1) + 1)"]
  have live: "live_handles ?s2 (length xs - 1) = swap_remove k (live_handles slots (length xs))"
  proof (rule nth_equalityI)
    show "length (live_handles ?s2 (length xs - 1)) = length (swap_remove k (live_handles slots (length xs)))"
      by (simp add: live_handles_def swap_remove_def)
    fix i assume "i < length (live_handles ?s2 (length xs - 1))"
    then have i: "i < lst" by (simp add: live_handles_def lst_def)
    then have ic: "i < ?c - 1" using kc by simp
    let ?b = "if i = k then sl_backref (slots ! lst) else sl_backref (slots ! i)"
    have other: "?b \<noteq> index" using b [OF ic] b [OF kc(1)] b [OF kc(2)] i by (auto simp: index_def)
    have "live_handles ?s2 (length xs - 1) ! i = sl_handle (?s2 ! ?b)"
      using i back1 [OF ic] links2(2) [of i] by (simp add: live_handles_def lst_def)
    also have "\<dots> = sl_handle (slots ! ?b)" using other same by simp
    also have "\<dots> = swap_remove k (live_handles slots (length xs)) ! i"
      using i k some by (auto simp: swap_remove_def live_handles_def nth_butlast nth_list_update last_conv_nth lst_def)
    finally show "live_handles ?s2 (length xs - 1) ! i = swap_remove k (live_handles slots (length xs)) ! i" .
  qed
  show ?thesis
    by (rule that [OF fill destroy same links2(1) handle_update_ok [OF handles1 idx len1] live])
qed

text \<open>The contract: the pairs of handle and value in the order of the values, the handles given out and released, and a
  bound on how often any slot was released. Generations do not repeat while it is below \<open>2 ^ (64 - bits)\<close>.\<close>

definition slot_rel :: "nat \<Rightarrow> 'a hxslot_map \<Rightarrow> (hxhandle_t \<times> 'a) list \<Rightarrow> hxhandle_t set \<Rightarrow> nat \<Rightarrow> bool" where
  "slot_rel bits m pairs dead n \<longleftrightarrow> (\<exists>g. slot_ok bits m g (map snd pairs) \<and> live_handles (sm_slots m) (length pairs) = map fst pairs \<and>
     (\<forall>h\<in>dead. \<exists>b j. 1 \<le> b \<and> b < 2 ^ bits \<and> j < g b \<and> h = slot_handle bits b j) \<and> (\<forall>b. g b \<le> n))"

lemma slot_new_rel:
  assumes "1 \<le> bits" and "bits \<le> 30"
  shows "slot_rel bits (hxslot_map_new raw bits) [] {} 0"
proof -
  have "(2::nat) ^ 1 \<le> 2 ^ bits" using assms(1) by (intro power_increasing) simp_all
  then have "links_ok (2 ^ bits) (map (built_slot raw (2 ^ bits)) [0..<2 ^ bits])" by (intro built_links) simp
  then show ?thesis
    using assms built_handles [OF assms(1), of raw]
    by (auto simp: slot_rel_def slot_ok_def hxslot_map_new_def build_free_list_def live_handles_def live_prefix_def intro!: exI [of _ "\<lambda>_. 0"])
qed

lemma slot_live:
  assumes "slot_ok bits m g xs" and "i < 2 ^ bits - 1"
  shows "slot_of (sm_mask m) (sl_handle (sm_slots m ! sl_backref (sm_slots m ! i))) = sl_backref (sm_slots m ! i)"
    and "sl_index (sm_slots m ! sl_backref (sm_slots m ! i)) = i"
    and "sl_handle (sm_slots m ! sl_backref (sm_slots m ! i)) = slot_handle bits (sl_backref (sm_slots m ! i)) (g (sl_backref (sm_slots m ! i)))"
    and "1 \<le> sl_backref (sm_slots m ! i)" and "sl_backref (sm_slots m ! i) < 2 ^ bits"
proof -
  let ?b = "sl_backref (sm_slots m ! i)"
  have b: "1 \<le> ?b \<and> ?b < 2 ^ bits \<and> sl_index (sm_slots m ! ?b) = i" using assms by (simp add: slot_ok_def links_ok_def)
  then show h: "sl_handle (sm_slots m ! ?b) = slot_handle bits ?b (g ?b)" using assms(1) by (simp add: slot_ok_def handles_ok_def)
  have "bits \<le> 30" "sm_mask m = 2 ^ bits - 1" using assms(1) by (simp_all add: slot_ok_def)
  then show "slot_of (sm_mask m) (sl_handle (sm_slots m ! ?b)) = ?b" unfolding h using b slot_of_handle by simp
  show "sl_index (sm_slots m ! ?b) = i" "1 \<le> ?b" "?b < 2 ^ bits" using b by simp_all
qed

lemma slot_dead:
  assumes "slot_ok bits m g xs" and "1 \<le> b" "b < 2 ^ bits" "j < g b" "g b < 2 ^ (64 - bits)"
  shows "slot_of (sm_mask m) (slot_handle bits b j) = b" and "sl_handle (sm_slots m ! b) \<noteq> slot_handle bits b j"
proof -
  have *: "bits \<le> 30" "sm_mask m = 2 ^ bits - 1" using assms(1) by (simp_all add: slot_ok_def)
  then show "slot_of (sm_mask m) (slot_handle bits b j) = b" using slot_of_handle [OF assms(3)] by simp
  have "sl_handle (sm_slots m ! b) = slot_handle bits b (g b)" using assms(1-3) by (simp add: slot_ok_def handles_ok_def)
  then show "sl_handle (sm_slots m ! b) \<noteq> slot_handle bits b j" using slot_handle_stale [OF assms(4,5) *(1), of b] by metis
qed

lemma slot_size: "slot_rel bits m pairs dead n \<Longrightarrow> sm_size m = length pairs \<and> sm_slots m \<noteq> [] \<and> sm_mask m = 2 ^ bits - 1 \<and> length pairs \<le> 2 ^ bits - 1"
  by (auto simp: slot_rel_def slot_ok_def links_ok_def)

lemma slot_value_live:
  assumes "slot_rel bits m pairs dead n" and "i < length pairs"
  shows "slot_map_value m (fst (pairs ! i)) = Inr i" and "read_slot (sm_values m) i = Inr (snd (pairs ! i))"
    and "slot_map_handle_at m (int i) = Inr (fst (pairs ! i))"
proof -
  obtain g where g: "slot_ok bits m g (map snd pairs)" "live_handles (sm_slots m) (length pairs) = map fst pairs"
    using assms(1) by (auto simp: slot_rel_def)
  have i: "i < 2 ^ bits - 1" using assms slot_size [OF assms(1)] by simp
  note live = slot_live [OF g(1) i]
  have h: "fst (pairs ! i) = sl_handle (sm_slots m ! sl_backref (sm_slots m ! i))"
    using arg_cong [OF g(2), of "\<lambda>l. l ! i"] assms(2) by (simp add: live_handles_def)
  show "slot_map_value m (fst (pairs ! i)) = Inr i"
    using slot_size [OF assms(1)] live(1,2) by (simp add: slot_map_value_def h Let_def)
  show "slot_map_handle_at m (int i) = Inr (fst (pairs ! i))" using slot_size [OF assms(1)] assms(2) by (simp add: slot_map_handle_at_def h)
  show "read_slot (sm_values m) i = Inr (snd (pairs ! i))"
    using g(1) assms(2) read_slot_live [of i "map snd pairs" "2 ^ bits - 1"] by (simp add: slot_ok_def)
qed

lemma slot_value_dead:
  assumes "slot_rel bits m pairs dead n" and "n < 2 ^ (64 - bits)" and "h \<in> dead"
  shows "slot_map_value m h = Inr (sm_size m)" and "slot_map_reset m h = Inr (m, False)"
proof -
  obtain g b j where g: "slot_ok bits m g (map snd pairs)" "1 \<le> b" "b < 2 ^ bits" "j < g b" "h = slot_handle bits b j" "g b \<le> n"
    using assms(1,3) unfolding slot_rel_def by blast
  have "g b < 2 ^ (64 - bits)" using g(6) assms(2) by simp
  note dead = slot_dead [OF g(1-4) this]
  show "slot_map_value m h = Inr (sm_size m)" "slot_map_reset m h = Inr (m, False)"
    using slot_size [OF assms(1)] dead by (simp_all add: slot_map_value_def slot_map_reset_def Let_def g(5))
qed

lemma slot_emplace_room:
  assumes rel: "slot_rel bits m pairs dead n" and "length pairs < 2 ^ bits - 1"
  shows "\<exists>m' h. slot_map_emplace m x = Inr (m', h) \<and> slot_rel bits m' (pairs @ [(h, x)]) dead n"
proof -
  obtain g where g: "slot_ok bits m g (map snd pairs)" "live_handles (sm_slots m) (length pairs) = map fst pairs"
    "\<forall>h\<in>dead. \<exists>b j. 1 \<le> b \<and> b < 2 ^ bits \<and> j < g b \<and> h = slot_handle bits b j" "\<forall>b. g b \<le> n"
    using rel by (auto simp: slot_rel_def)
  let ?h = "sl_handle (sm_slots m ! sl_backref (sm_slots m ! length pairs))"
  let ?vs = "live_prefix (map snd pairs @ [x]) (2 ^ bits - 1)"
  have "construct_slot (sm_values m) (sm_size m) x = Inr ?vs"
    using g(1) assms(2) construct_slot_live [of "map snd pairs" "2 ^ bits - 1" x] by (simp add: slot_ok_def)
  then have run: "slot_map_emplace m x = Inr (m\<lparr>sm_size := sm_size m + 1, sm_values := ?vs\<rparr>, ?h)"
    using slot_size [OF rel] assms(2) by (simp add: slot_map_emplace_def)
  have "live_handles (sm_slots m) (Suc (length pairs)) = map fst (pairs @ [(?h, x)])" using g(2) by (simp add: live_handles_def)
  moreover have "slot_ok bits (m\<lparr>sm_size := sm_size m + 1, sm_values := ?vs\<rparr>) g (map snd (pairs @ [(?h, x)]))"
    using g(1) assms(2) by (simp add: slot_ok_def)
  ultimately show ?thesis using run g(3,4) unfolding slot_rel_def by auto
qed

lemma slot_fresh:
  assumes rel: "slot_rel bits m pairs dead n" and "n < 2 ^ (64 - bits)"
  shows "distinct (map fst pairs)" and "fst ` set pairs \<inter> dead = {}" and "0 \<notin> fst ` set pairs"
proof -
  obtain g where g: "slot_ok bits m g (map snd pairs)" "live_handles (sm_slots m) (length pairs) = map fst pairs"
    using rel by (auto simp: slot_rel_def)
  have pos: "i = k" if "i < length pairs" "k < length pairs" "map fst pairs ! i = map fst pairs ! k" for i k
  proof -
    have eq: "fst (pairs ! i) = fst (pairs ! k)" using that by simp
    have "(Inr i :: nat hx) = slot_map_value m (fst (pairs ! i))" by (rule slot_value_live(1) [OF rel that(1), symmetric])
    also have "\<dots> = Inr k" unfolding eq by (rule slot_value_live(1) [OF rel that(2)])
    finally show ?thesis by simp
  qed
  show "distinct (map fst pairs)"
    unfolding distinct_conv_nth
  proof (intro allI impI)
    fix i k assume "i < length (map fst pairs)" "k < length (map fst pairs)" "i \<noteq> k"
    then show "map fst pairs ! i \<noteq> map fst pairs ! k" using pos [of i k] by auto
  qed
  show "fst ` set pairs \<inter> dead = {}"
  proof (intro equals0I)
    fix h assume "h \<in> fst ` set pairs \<inter> dead"
    then obtain i where i: "i < length pairs" "h = fst (pairs ! i)" "h \<in> dead" by (auto simp: in_set_conv_nth)
    then show False using slot_value_live(1) [OF rel i(1)] slot_value_dead(1) [OF rel assms(2) i(3)] slot_size [OF rel] by simp
  qed
  show "0 \<notin> fst ` set pairs"
  proof
    assume "0 \<in> fst ` set pairs"
    then obtain i where i: "i < length pairs" "fst (pairs ! i) = 0" by (auto simp: in_set_conv_nth)
    then have ic: "i < 2 ^ bits - 1" using slot_size [OF rel] by simp
    have "sl_handle (sm_slots m ! sl_backref (sm_slots m ! i)) = 0"
      using arg_cong [OF g(2), of "\<lambda>l. l ! i"] i by (simp add: live_handles_def)
    then have "slot_of (sm_mask m) 0 = sl_backref (sm_slots m ! i)" using slot_live(1) [OF g(1) ic] by simp
    moreover have "slot_of (sm_mask m) 0 = 0" by (simp add: slot_of_def)
    ultimately show False using slot_live(4) [OF g(1) ic] by simp
  qed
qed

abbreviation set_live :: "'a hxslot_map \<Rightarrow> map_slot list \<Rightarrow> 'a option list \<Rightarrow> nat \<Rightarrow> 'a hxslot_map" where
  "set_live m slots values n \<equiv> m\<lparr>sm_slots := slots, sm_values := values, sm_size := n\<rparr>"

text \<open>One release, as the two operations perform it.\<close>

lemma slot_release:
  assumes rel: "slot_rel bits m pairs dead n" and k: "k < length pairs"
  defines "lst \<equiv> length pairs - 1" and "index \<equiv> sl_backref (sm_slots m ! k)"
  obtains slots1 values1 values2 where
    "slot_fill (sm_slots m) (sm_values m) k lst index (sl_backref (sm_slots m ! lst)) = Inr (slots1, values1)"
    "destroy_slot values1 lst = Inr values2" "sl_handle (slots1 ! index) = fst (pairs ! k)"
    "slot_rel bits (set_live m (slots1[index := (slots1 ! index)\<lparr>sl_handle := sl_handle (slots1 ! index) + (word_of_nat (sm_mask m) + 1)\<rparr>]) values2 lst)
       (swap_remove k pairs) (insert (fst (pairs ! k)) dead) (n + 1)"
proof -
  obtain g where g: "slot_ok bits m g (map snd pairs)" "live_handles (sm_slots m) (length pairs) = map fst pairs"
    "\<forall>h\<in>dead. \<exists>b j. 1 \<le> b \<and> b < 2 ^ bits \<and> j < g b \<and> h = slot_handle bits b j" "\<forall>b. g b \<le> n"
    using rel by (auto simp: slot_rel_def)
  have ok: "links_ok (2 ^ bits) (sm_slots m)" "handles_ok bits (sm_slots m) g" "length (map snd pairs) \<le> 2 ^ bits - 1" "k < length (map snd pairs)"
    "sm_values m = live_prefix (map snd pairs) (2 ^ bits - 1)" "sm_mask m = 2 ^ bits - 1" using g(1) k by (simp_all add: slot_ok_def)
  obtain slots1 values1 where r:
    "slot_fill (sm_slots m) (sm_values m) k lst index (sl_backref (sm_slots m ! lst)) = Inr (slots1, values1)"
    "destroy_slot values1 lst = Inr (live_prefix (swap_remove k (map snd pairs)) (2 ^ bits - 1))"
    "sl_handle (slots1 ! index) = sl_handle (sm_slots m ! index)"
    "links_ok (2 ^ bits) (slots1[index := (slots1 ! index)\<lparr>sl_handle := sl_handle (slots1 ! index) + (word_of_nat (2 ^ bits - 1) + 1)\<rparr>])"
    "handles_ok bits (slots1[index := (slots1 ! index)\<lparr>sl_handle := sl_handle (slots1 ! index) + (word_of_nat (2 ^ bits - 1) + 1)\<rparr>]) (g(index := Suc (g index)))"
    "live_handles (slots1[index := (slots1 ! index)\<lparr>sl_handle := sl_handle (slots1 ! index) + (word_of_nat (2 ^ bits - 1) + 1)\<rparr>]) (length pairs - 1) =
      swap_remove k (live_handles (sm_slots m) (length pairs))"
    using release_step [OF ok(1-4)] unfolding ok(5) lst_def index_def by (metis length_map)
  have some: "pairs \<noteq> []" using k by auto
  have small: "length pairs - 1 \<le> 2 ^ bits - 1" using ok(3) by simp
  have kc: "k < 2 ^ bits - 1" using k slot_size [OF rel] by simp
  have h: "sl_handle (sm_slots m ! index) = fst (pairs ! k)"
    using arg_cong [OF g(2), of "\<lambda>l. l ! k"] k by (simp add: live_handles_def index_def)
  note live = slot_live [OF g(1) kc, folded index_def]
  let ?g = "g(index := Suc (g index))"
  let ?m = "set_live m (slots1[index := (slots1 ! index)\<lparr>sl_handle := sl_handle (slots1 ! index) + (word_of_nat (sm_mask m) + 1)\<rparr>])
    (live_prefix (swap_remove k (map snd pairs)) (2 ^ bits - 1)) lst"
  have "slot_ok bits ?m ?g (map snd (swap_remove k pairs))"
    using g(1) r(4,5) ok(6) small by (simp add: slot_ok_def swap_remove_map [OF some] lst_def)
  moreover have "live_handles (sm_slots ?m) (length (swap_remove k pairs)) = map fst (swap_remove k pairs)"
    using r(6) g(2) by (simp add: swap_remove_map [OF some] ok(6))
  moreover have "\<exists>b j. 1 \<le> b \<and> b < 2 ^ bits \<and> j < ?g b \<and> x = slot_handle bits b j" if x: "x \<in> insert (fst (pairs ! k)) dead" for x
  proof (cases "x = fst (pairs ! k)")
    case True
    then show ?thesis using h live(3-5) by (intro exI [of _ index] exI [of _ "g index"]) simp
  next
    case False
    then obtain b j where "1 \<le> b" "b < 2 ^ bits" "j < g b" "x = slot_handle bits b j" using x g(3) by blast
    then show ?thesis by (intro exI [of _ b] exI [of _ j]) auto
  qed
  moreover have "?g b \<le> n + 1" for b using g(4) [rule_format, of b] g(4) [rule_format, of index] by simp
  ultimately have "slot_rel bits ?m (swap_remove k pairs) (insert (fst (pairs ! k)) dead) (n + 1)" unfolding slot_rel_def by blast
  then show ?thesis using that [OF r(1,2)] r(3) h by simp
qed

lemma slot_reset_live:
  assumes rel: "slot_rel bits m pairs dead n" and k: "k < length pairs"
  shows "\<exists>m'. slot_map_reset m (fst (pairs ! k)) = Inr (m', True) \<and> slot_rel bits m' (swap_remove k pairs) (insert (fst (pairs ! k)) dead) (n + 1)"
proof -
  let ?h = "fst (pairs ! k)" and ?lst = "length pairs - 1" and ?index = "sl_backref (sm_slots m ! k)"
  obtain g where g: "slot_ok bits m g (map snd pairs)" "live_handles (sm_slots m) (length pairs) = map fst pairs"
    using rel by (auto simp: slot_rel_def)
  have kc: "k < 2 ^ bits - 1" using k slot_size [OF rel] by simp
  have h: "sl_handle (sm_slots m ! ?index) = ?h" using arg_cong [OF g(2), of "\<lambda>l. l ! k"] k by (simp add: live_handles_def)
  have sz: "sm_size m = length pairs" "sm_slots m \<noteq> []" using slot_size [OF rel] by simp_all
  have at: "slot_of (sm_mask m) ?h = ?index" "sl_index (sm_slots m ! ?index) = k" using slot_live(1,2) [OF g(1) kc] h by simp_all
  obtain slots1 values1 values2 where r:
    "slot_fill (sm_slots m) (sm_values m) k ?lst ?index (sl_backref (sm_slots m ! ?lst)) = Inr (slots1, values1)"
    "destroy_slot values1 ?lst = Inr values2" "sl_handle (slots1 ! ?index) = ?h"
    "slot_rel bits (set_live m (slots1[?index := (slots1 ! ?index)\<lparr>sl_handle := sl_handle (slots1 ! ?index) + (word_of_nat (sm_mask m) + 1)\<rparr>]) values2 ?lst)
       (swap_remove k pairs) (insert ?h dead) (n + 1)"
    by (rule slot_release [OF rel k])
  have "slot_map_reset m ?h = Inr (set_live m (slots1[?index := (slots1 ! ?index)\<lparr>sl_handle := ?h + (word_of_nat (sm_mask m) + 1)\<rparr>]) values2 ?lst, True)"
    using sz r(1,2) h by (simp add: slot_map_reset_def Let_def at)
  then show ?thesis using r(3,4) by simp
qed

text \<open>\<open>erase_if\<close> goes down the positions.\<close>

fun erase_spec :: "('a \<Rightarrow> bool) \<Rightarrow> nat \<Rightarrow> 'a list \<Rightarrow> 'a list" where
  "erase_spec P 0 ps = ps"
| "erase_spec P (Suc k) ps = (if P (ps ! k) then erase_spec P k (swap_remove k ps) else erase_spec P k ps)"

lemma swap_remove_take:
  assumes "k < length ps"
  shows "take k (swap_remove k ps) = take k ps"
proof -
  have "min k (length ps - 1) = k" using assms by simp
  then show ?thesis by (simp add: swap_remove_def butlast_conv_take)
qed

lemma swap_remove_drop:
  assumes "k < length ps"
  shows "mset (drop k (swap_remove k ps)) = mset (drop (Suc k) ps)"
proof -
  have "add_mset (ps ! k) (mset (take k ps) + mset (drop k (swap_remove k ps))) = mset (take k ps) + mset (ps ! k # drop (Suc k) ps)"
    using swap_remove_mset [OF assms] swap_remove_take [OF assms] assms
    by (metis append_take_drop_id mset_append Cons_nth_drop_Suc)
  then show ?thesis by simp
qed

lemma erase_spec_mset: "k \<le> length ps \<Longrightarrow> mset (erase_spec P k ps) = mset (filter (\<lambda>x. \<not> P x) (take k ps)) + mset (drop k ps)"
proof (induction P k ps rule: erase_spec.induct)
  case (2 P k ps)
  then have k: "k < length ps" by simp
  show ?case
  proof (cases "P (ps ! k)")
    case True
    then show ?thesis
      using 2 k swap_remove_drop [OF k] swap_remove_take [OF k] by (simp add: take_Suc_conv_app_nth)
  next
    case False
    then show ?thesis using 2 k by (simp add: take_Suc_conv_app_nth Cons_nth_drop_Suc [symmetric])
  qed
qed simp

lemma slot_erase_loop:
  assumes "slot_rel bits (set_live m slots vs lst) pairs dead n" and "k \<le> length pairs"
  shows "\<exists>slots' vs'. slot_map_erase_loop P (sm_mask m) k slots vs lst =
      Inr (slots', vs', length (erase_spec (\<lambda>p. P (snd p)) k pairs), length pairs - length (erase_spec (\<lambda>p. P (snd p)) k pairs)) \<and>
    length (erase_spec (\<lambda>p. P (snd p)) k pairs) \<le> length pairs \<and>
    slot_rel bits (set_live m slots' vs' (length (erase_spec (\<lambda>p. P (snd p)) k pairs))) (erase_spec (\<lambda>p. P (snd p)) k pairs)
      (dead \<union> {h. \<exists>x. (h, x) \<in> set (take k pairs) \<and> P x}) (n + (length pairs - length (erase_spec (\<lambda>p. P (snd p)) k pairs)))"
  using assms
proof (induction k arbitrary: slots vs lst pairs dead n)
  case base: 0
  then have "lst = length pairs" using slot_size [OF base.prems(1)] by simp
  then show ?case using base.prems(1) by simp
next
  case (Suc k)
  let ?Q = "\<lambda>p. P (snd p)"
  have k: "k < length pairs" using Suc.prems(2) by simp
  have lst: "lst = length pairs" using slot_size [OF Suc.prems(1)] by simp
  have read: "read_slot vs k = Inr (snd (pairs ! k))" using slot_value_live(2) [OF Suc.prems(1) k] by simp
  have taken: "{h. \<exists>x. (h, x) \<in> set (take (Suc k) pairs) \<and> P x} =
      (if ?Q (pairs ! k) then insert (fst (pairs ! k)) {h. \<exists>x. (h, x) \<in> set (take k pairs) \<and> P x} else {h. \<exists>x. (h, x) \<in> set (take k pairs) \<and> P x})"
    using k by (cases "pairs ! k") (auto simp: take_Suc_conv_app_nth)
  show ?case
  proof (cases "?Q (pairs ! k)")
    case False
    then show ?thesis using Suc.IH [OF Suc.prems(1)] k read taken by simp
  next
    case True
    let ?index = "sl_backref (slots ! k)" and ?lst = "length pairs - 1"
    obtain slots1 values1 values2 where r:
      "slot_fill slots vs k ?lst ?index (sl_backref (slots ! ?lst)) = Inr (slots1, values1)"
      "destroy_slot values1 ?lst = Inr values2" "sl_handle (slots1 ! ?index) = fst (pairs ! k)"
      "slot_rel bits (set_live m (slots1[?index := (slots1 ! ?index)\<lparr>sl_handle := sl_handle (slots1 ! ?index) + (word_of_nat (sm_mask m) + 1)\<rparr>]) values2 ?lst)
         (swap_remove k pairs) (insert (fst (pairs ! k)) dead) (n + 1)"
      using slot_release [OF Suc.prems(1) k] by auto
    let ?slots2 = "slots1[?index := (slots1 ! ?index)\<lparr>sl_handle := sl_handle (slots1 ! ?index) + (word_of_nat (sm_mask m) + 1)\<rparr>]"
    have "k \<le> length (swap_remove k pairs)" using k by simp
    from Suc.IH [OF r(4) this] obtain slots' vs' where IH:
      "slot_map_erase_loop P (sm_mask m) k ?slots2 values2 ?lst = Inr (slots', vs', length (erase_spec ?Q k (swap_remove k pairs)),
         length (swap_remove k pairs) - length (erase_spec ?Q k (swap_remove k pairs)))"
      "length (erase_spec ?Q k (swap_remove k pairs)) \<le> length (swap_remove k pairs)"
      "slot_rel bits (set_live m slots' vs' (length (erase_spec ?Q k (swap_remove k pairs)))) (erase_spec ?Q k (swap_remove k pairs))
        (insert (fst (pairs ! k)) dead \<union> {h. \<exists>x. (h, x) \<in> set (take k (swap_remove k pairs)) \<and> P x})
        (n + 1 + (length (swap_remove k pairs) - length (erase_spec ?Q k (swap_remove k pairs))))" by blast
    have spec: "erase_spec ?Q (Suc k) pairs = erase_spec ?Q k (swap_remove k pairs)" using True by simp
    have count: "length pairs - length (erase_spec ?Q k (swap_remove k pairs)) =
        Suc (length (swap_remove k pairs) - length (erase_spec ?Q k (swap_remove k pairs)))" using IH(2) k by simp
    have run: "slot_map_erase_loop P (sm_mask m) (Suc k) slots vs lst =
        Inr (slots', vs', length (erase_spec ?Q k (swap_remove k pairs)), length pairs - length (erase_spec ?Q k (swap_remove k pairs)))"
      unfolding lst count using True read r(1,2) IH(1) by (simp add: Let_def)
    have dead: "insert (fst (pairs ! k)) dead \<union> {h. \<exists>x. (h, x) \<in> set (take k (swap_remove k pairs)) \<and> P x} =
        dead \<union> {h. \<exists>x. (h, x) \<in> set (take (Suc k) pairs) \<and> P x}" using taken True swap_remove_take [OF k] by auto
    have bound: "n + 1 + (length (swap_remove k pairs) - length (erase_spec ?Q k (swap_remove k pairs))) =
        n + (length pairs - length (erase_spec ?Q k (swap_remove k pairs)))" unfolding count by simp
    show ?thesis
      unfolding spec
    proof (intro exI conjI)
      show "length (erase_spec ?Q k (swap_remove k pairs)) \<le> length pairs" using IH(2) by simp
    qed (use run IH(3) [unfolded dead bound] in auto)
  qed
qed

definition owners :: "map_slot list \<Rightarrow> nat \<Rightarrow> nat \<Rightarrow> nat set" where
  "owners slots i n = (\<lambda>j. sl_backref (slots ! j)) ` {i..<i + n}"

lemma slot_clear_loop:
  assumes "links_ok (2 ^ bits) slots" and "handles_ok bits slots g" and "i + n \<le> 2 ^ bits - 1" and "length vs = 2 ^ bits - 1"
    and "\<forall>j. i \<le> j \<longrightarrow> j < i + n \<longrightarrow> vs ! j \<noteq> None"
  shows "\<exists>slots'. slot_map_clear_loop (2 ^ bits) i n slots vs = Inr (slots', take i vs @ replicate n None @ drop (i + n) vs) \<and>
    links_ok (2 ^ bits) slots' \<and> handles_ok bits slots' (\<lambda>b. if b \<in> owners slots i n then Suc (g b) else g b)"
  using assms
proof (induction n arbitrary: i slots vs g)
  case base: 0
  then show ?case by (simp add: owners_def)
next
  case (Suc n)
  let ?b = "sl_backref (slots ! i)"
  have i: "i < 2 ^ bits - 1" using Suc.prems(3) by simp
  have bk: "1 \<le> sl_backref (slots ! j) \<and> sl_backref (slots ! j) < 2 ^ bits \<and> sl_index (slots ! sl_backref (slots ! j)) = j" if "j < 2 ^ bits - 1" for j
    using Suc.prems(1) that by (simp add: links_ok_def)
  have len: "length slots = 2 ^ bits" using Suc.prems(1) by (simp add: links_ok_def)
  let ?slots = "slots[?b := (slots ! ?b)\<lparr>sl_handle := sl_handle (slots ! ?b) + word_of_nat (2 ^ bits)\<rparr>]"
  note links1 = handle_update_links [OF Suc.prems(1) bk [OF i, THEN conjunct2, THEN conjunct1], of "sl_handle (slots ! ?b) + word_of_nat (2 ^ bits)"]
  have handles1: "handles_ok bits ?slots (g(?b := Suc (g ?b)))"
    unfolding increment_eq using handle_update_ok [OF Suc.prems(2) _ _ len] bk [OF i] by simp
  obtain x where x: "vs ! i = Some x" using Suc.prems(5) by auto
  have destroy: "destroy_slot vs i = Inr (vs[i := None])" using i Suc.prems(4) x by (simp add: slot_simps)
  have "\<forall>j. i + 1 \<le> j \<longrightarrow> j < i + 1 + n \<longrightarrow> vs[i := None] ! j \<noteq> None" using Suc.prems(5) by simp
  from Suc.IH [OF links1(1) handles1 _ _ this] Suc.prems(3,4) obtain slots' where IH:
    "slot_map_clear_loop (2 ^ bits) (i + 1) n ?slots (vs[i := None]) = Inr (slots', take (i + 1) (vs[i := None]) @ replicate n None @ drop (i + 1 + n) (vs[i := None]))"
    "links_ok (2 ^ bits) slots'" "handles_ok bits slots' (\<lambda>b. if b \<in> owners ?slots (i + 1) n then Suc ((g(?b := Suc (g ?b))) b) else (g(?b := Suc (g ?b))) b)"
    by auto
  have own: "owners ?slots (i + 1) n = owners slots (i + 1) n" unfolding owners_def links1(2) by (rule refl)
  have "{i..<i + Suc n} = insert i {i + 1..<i + 1 + n}" by auto
  then have split: "owners slots i (Suc n) = insert ?b (owners slots (i + 1) n)" by (simp add: owners_def)
  have fresh: "?b \<notin> owners slots (i + 1) n"
  proof
    assume "?b \<in> owners slots (i + 1) n"
    then obtain j where "i + 1 \<le> j" "j < i + 1 + n" "?b = sl_backref (slots ! j)" by (auto simp: owners_def)
    then show False using bk [OF i] bk [of j] Suc.prems(3) by auto
  qed
  have g: "(\<lambda>b. if b \<in> owners ?slots (i + 1) n then Suc ((g(?b := Suc (g ?b))) b) else (g(?b := Suc (g ?b))) b) =
      (\<lambda>b. if b \<in> owners slots i (Suc n) then Suc (g b) else g b)"
    unfolding own split using fresh by (intro ext) auto
  have "take (i + 1) (vs[i := None]) @ replicate n None @ drop (i + 1 + n) (vs[i := None]) = take i vs @ replicate (Suc n) None @ drop (i + Suc n) vs"
    using i Suc.prems(4) by (simp add: take_Suc_conv_app_nth)
  then have "slot_map_clear_loop (2 ^ bits) i (Suc n) slots vs = Inr (slots', take i vs @ replicate (Suc n) None @ drop (i + Suc n) vs)"
    using IH(1) destroy by (simp add: Let_def)
  then show ?case using IH(2,3) unfolding g by blast
qed

lemma slot_clear:
  assumes rel: "slot_rel bits m pairs dead n"
  shows "\<exists>m'. slot_map_clear m = Inr m' \<and> slot_rel bits m' [] (dead \<union> fst ` set pairs) (n + 1)"
proof (cases "pairs = []")
  case True
  then have "slot_map_clear m = Inr m" using slot_size [OF rel] by (simp add: slot_map_clear_def)
  moreover have "slot_rel bits m [] dead (n + 1)" using rel True unfolding slot_rel_def by (meson le_SucI Suc_eq_plus1 eq_refl trans_le_add1 order_trans)
  ultimately show ?thesis using True by auto
next
  case False
  obtain g where g: "slot_ok bits m g (map snd pairs)" "live_handles (sm_slots m) (length pairs) = map fst pairs"
    "\<forall>h\<in>dead. \<exists>b j. 1 \<le> b \<and> b < 2 ^ bits \<and> j < g b \<and> h = slot_handle bits b j" "\<forall>b. g b \<le> n"
    using rel by (auto simp: slot_rel_def)
  let ?c = "2 ^ bits :: nat"
  let ?g = "\<lambda>b. if b \<in> owners (sm_slots m) 0 (length pairs) then Suc (g b) else g b"
  have ok: "links_ok ?c (sm_slots m)" "handles_ok bits (sm_slots m) g" "0 + length pairs \<le> ?c - 1" "sm_values m = live_prefix (map snd pairs) (?c - 1)"
    "length (sm_slots m) = ?c" using g(1) by (simp_all add: slot_ok_def links_ok_def)
  have vals: "length (sm_values m) = ?c - 1" "\<forall>j. 0 \<le> j \<longrightarrow> j < 0 + length pairs \<longrightarrow> sm_values m ! j \<noteq> None"
    using ok(3) by (simp_all add: ok(4))
  from slot_clear_loop [OF ok(1-3) vals] obtain slots' where loop:
    "slot_map_clear_loop ?c 0 (length pairs) (sm_slots m) (sm_values m) = Inr (slots', replicate (length pairs) None @ drop (length pairs) (sm_values m))"
    "links_ok ?c slots'" "handles_ok bits slots' ?g" by auto
  have "drop (length pairs) (sm_values m) = replicate (?c - 1 - length pairs) None" by (simp add: ok(4) live_prefix_def)
  then have "replicate (length pairs) None @ drop (length pairs) (sm_values m) = live_prefix [] (?c - 1)"
    using ok(3) by (simp add: live_prefix_def replicate_add [symmetric])
  then have run: "slot_map_clear m = Inr (m\<lparr>sm_slots := slots', sm_values := live_prefix [] (?c - 1), sm_size := 0\<rparr>)" (is "_ = Inr ?m")
    using loop(1) ok(5) slot_size [OF rel] False by (simp add: slot_map_clear_def)
  have "\<exists>b j. 1 \<le> b \<and> b < ?c \<and> j < ?g b \<and> h = slot_handle bits b j" if h: "h \<in> dead \<union> fst ` set pairs" for h
  proof (cases "h \<in> dead")
    case True
    then obtain b j where "1 \<le> b" "b < ?c" "j < g b" "h = slot_handle bits b j" using g(3) by blast
    then show ?thesis by (intro exI [of _ b] exI [of _ j]) auto
  next
    case False
    then obtain i where i: "i < length pairs" "h = fst (pairs ! i)" using h by (auto simp: in_set_conv_nth)
    let ?b = "sl_backref (sm_slots m ! i)"
    have "i < ?c - 1" using i ok(3) by simp
    note live = slot_live [OF g(1) this]
    have "sl_handle (sm_slots m ! ?b) = h" using arg_cong [OF g(2), of "\<lambda>l. l ! i"] i by (simp add: live_handles_def)
    moreover have "?b \<in> owners (sm_slots m) 0 (length pairs)" using i(1) by (auto simp: owners_def)
    ultimately show ?thesis using live(3-5) by (intro exI [of _ ?b] exI [of _ "g ?b"]) simp
  qed
  moreover have "slot_ok bits ?m ?g (map snd [])" using g(1) loop(2,3) by (simp add: slot_ok_def)
  moreover have "?g b \<le> n + 1" for b using g(4) [rule_format, of b] by simp
  ultimately have "slot_rel bits ?m [] (dead \<union> fst ` set pairs) (n + 1)"
    unfolding slot_rel_def by (intro exI [of _ ?g]) (auto simp: live_handles_def)
  then show ?thesis using run by blast
qed

lemma slot_rel_mono: "slot_rel bits m pairs dead n \<Longrightarrow> n \<le> n' \<Longrightarrow> slot_rel bits m pairs dead n'"
  unfolding slot_rel_def using order_trans by blast

lemma slot_erase_if:
  assumes rel: "slot_rel bits m pairs dead n"
  shows "\<exists>m' pairs'. slot_map_erase_if P m = Inr (m', int (length (filter (\<lambda>p. P (snd p)) pairs))) \<and>
    mset pairs' = mset (filter (\<lambda>p. \<not> P (snd p)) pairs) \<and>
    slot_rel bits m' pairs' (dead \<union> {h. \<exists>x. (h, x) \<in> set pairs \<and> P x}) (n + length pairs)"
proof -
  let ?Q = "\<lambda>p. P (snd p)" and ?left = "erase_spec (\<lambda>p. P (snd p)) (length pairs) pairs"
  have "slot_rel bits (set_live m (sm_slots m) (sm_values m) (sm_size m)) pairs dead n" using rel by simp
  from slot_erase_loop [OF this order_refl, of P] obtain slots' vs' where loop:
    "slot_map_erase_loop P (sm_mask m) (length pairs) (sm_slots m) (sm_values m) (sm_size m) = Inr (slots', vs', length ?left, length pairs - length ?left)"
    "length ?left \<le> length pairs"
    "slot_rel bits (set_live m slots' vs' (length ?left)) ?left (dead \<union> {h. \<exists>x. (h, x) \<in> set (take (length pairs) pairs) \<and> P x}) (n + (length pairs - length ?left))"
    by blast
  have m: "mset ?left = mset (filter (\<lambda>p. \<not> ?Q p) pairs)" using erase_spec_mset [of "length pairs" pairs ?Q] by simp
  have "length ?left = length (filter (\<lambda>p. \<not> ?Q p) pairs)" using m by (metis size_mset)
  then have "length ?left + length (filter ?Q pairs) = length pairs"
    using sum_length_filter_compl [of ?Q pairs] by simp
  then have erased: "length pairs - length ?left = length (filter ?Q pairs)" by simp
  have "slot_map_erase_if P m = Inr (set_live m slots' vs' (length ?left), int (length (filter ?Q pairs)))"
    using loop(1) slot_size [OF rel] unfolding erased by (simp add: slot_map_erase_if_def)
  moreover have "slot_rel bits (set_live m slots' vs' (length ?left)) ?left (dead \<union> {h. \<exists>x. (h, x) \<in> set pairs \<and> P x}) (n + length pairs)"
    using slot_rel_mono [OF loop(3), of "n + length pairs"] by simp
  ultimately show ?thesis using m by blast
qed

section \<open>Claims\<close>

text \<open>C23: handles of a slot map resolve. While fewer than \<open>2 ^ (64 - bits)\<close> values were released: the handle at a position leads
  back to that position and its value, the handles of the values are different and not 0, and a handle whose value was
  released resolves to \<open>end()\<close> and cannot be released again, whatever took its slot since.\<close>

theorem slot_map_handles_resolve:
  assumes "slot_rel bits m pairs dead n" and "n < 2 ^ (64 - bits)"
  shows "(\<forall>i<length pairs. slot_map_handle_at m (int i) = Inr (fst (pairs ! i)) \<and> slot_map_value m (fst (pairs ! i)) = Inr i \<and>
      read_slot (sm_values m) i = Inr (snd (pairs ! i))) \<and>
    distinct (map fst pairs) \<and> 0 \<notin> fst ` set pairs \<and> fst ` set pairs \<inter> dead = {} \<and>
    (\<forall>h\<in>dead. slot_map_value m h = Inr (sm_size m) \<and> slot_map_reset m h = Inr (m, False))"
  using slot_value_live [OF assms(1)] slot_fresh [OF assms] slot_value_dead [OF assms] by blast

theorem slot_map_handles_resolve_witness:
  "\<exists>m' h. slot_map_emplace (hxslot_map_new 0 2) (5 :: int) = Inr (m', h) \<and> slot_map_value m' h = Inr 0 \<and> h \<noteq> 0"
proof -
  have "slot_rel 2 (hxslot_map_new 0 2) ([] :: (hxhandle_t \<times> int) list) {} 0" by (rule slot_new_rel) simp_all
  from slot_emplace_room [OF this, of 5] obtain m' h where e: "slot_map_emplace (hxslot_map_new 0 2) (5 :: int) = Inr (m', h)"
    "slot_rel 2 m' [(h, 5)] {} 0" by auto
  from slot_map_handles_resolve [OF e(2)] show ?thesis using e(1) by auto
qed

text \<open>C13: the operations of a slot map are those on the list of pairs of handle and value: \<open>emplace\<close> appends while there is room
  and stops when full, \<open>reset\<close> of a value's handle removes its pair and moves the last pair there, \<open>erase_if\<close> removes the
  pairs it is asked to and counts them, \<open>clear\<close> removes all; removed handles become dead.\<close>

theorem slot_map_refines_pairs:
  assumes "slot_rel bits m pairs dead n"
  shows "(length pairs < 2 ^ bits - 1 \<longrightarrow> (\<exists>m' h. slot_map_emplace m x = Inr (m', h) \<and> slot_rel bits m' (pairs @ [(h, x)]) dead n)) \<and>
    (length pairs = 2 ^ bits - 1 \<longrightarrow> slot_map_emplace m x = Inl (Assert_hard ''table_full'')) \<and>
    (\<forall>i<length pairs. \<exists>m'. slot_map_reset m (fst (pairs ! i)) = Inr (m', True) \<and>
      slot_rel bits m' (swap_remove i pairs) (insert (fst (pairs ! i)) dead) (n + 1)) \<and>
    (\<exists>m' pairs'. slot_map_erase_if P m = Inr (m', int (length (filter (\<lambda>p. P (snd p)) pairs))) \<and>
      mset pairs' = mset (filter (\<lambda>p. \<not> P (snd p)) pairs) \<and>
      slot_rel bits m' pairs' (dead \<union> {h. \<exists>x. (h, x) \<in> set pairs \<and> P x}) (n + length pairs)) \<and>
    (\<exists>m'. slot_map_clear m = Inr m' \<and> slot_rel bits m' [] (dead \<union> fst ` set pairs) (n + 1))"
proof (intro conjI impI)
  show "slot_map_emplace m x = Inl (Assert_hard ''table_full'')" if "length pairs = 2 ^ bits - 1"
    using that slot_size [OF assms] by (simp add: slot_map_emplace_def)
qed (use slot_emplace_room [OF assms] slot_reset_live [OF assms] slot_erase_if [OF assms] slot_clear [OF assms] in blast)+

theorem slot_map_refines_pairs_witness:
  "\<exists>m'. slot_map_clear (hxslot_map_new 0 2 :: int hxslot_map) = Inr m' \<and> slot_rel 2 m' [] {} 1"
proof -
  have "slot_rel 2 (hxslot_map_new 0 2) ([] :: (hxhandle_t \<times> int) list) {} 0" by (rule slot_new_rel) simp_all
  from slot_map_refines_pairs [OF this] show ?thesis by simp
qed

end
