(* ===== verification/HxHandleTable.thy ===== *)
theory HxHandleTable
  imports HxSlotMap
begin

text \<open>
  The handle table of \<^verbatim>\<open>include/hx/hxhandle_table.hpp\<close> and \<^verbatim>\<open>detail/hxhandle_table.inl\<close>: 64-bit handles for owned
  pointers. A slot is a key and a union of the owned pointer and the link of the free list; the code tells the two apart by whether the
  word points into the table, so both are 64-bit addresses here. The free list ends at slot 0, which is never handed out. A deleter
  is whether it tests true and the pointers it is called with.
\<close>

section \<open>The table\<close>

record handle_slot =
  hs_key :: u64
  hs_ptr :: u64

record hxhandle_table =
  ht_data :: u64
  ht_slots :: "handle_slot list"
  ht_mask :: nat
  ht_size :: u32
  ht_free :: u64

definition handle_addr :: "hxhandle_table \<Rightarrow> nat \<Rightarrow> u64" where
  "handle_addr m i = ht_data m + word_of_nat (16 * i)"

text \<open>Following a link: the slot at an address.\<close>

definition handle_index :: "hxhandle_table \<Rightarrow> u64 \<Rightarrow> nat hx" where
  "handle_index m p =
     (let i = unat (p - ht_data m) div 16
      in if i < length (ht_slots m) \<and> p = handle_addr m i then Inr i else Inl (Undefined_behavior ''not a slot''))"

text \<open>\<open>build_free_list_\<close>; the word of slot 0 is not written.\<close>

definition built_handle_slot :: "hxhandle_table \<Rightarrow> nat \<Rightarrow> handle_slot" where
  "built_handle_slot m i =
     (let c = length (ht_slots m)
      in if i = 0 then (ht_slots m ! 0)\<lparr>hs_key := word_of_nat c\<rparr>
         else \<lparr>hs_key = word_of_nat i, hs_ptr = (if i + 1 = c then ht_data m else handle_addr m (i + 1))\<rparr>)"

definition handle_build :: "hxhandle_table \<Rightarrow> hxhandle_table" where
  "handle_build m = m\<lparr>ht_slots := map (built_handle_slot m) [0..<length (ht_slots m)], ht_free := handle_addr m 1\<rparr>"

text \<open>A table of \<open>table_size_bits\<close> at \<open>data\<close> in memory that holds \<open>raw\<close>; with 0 it has no table yet.\<close>

definition hxhandle_table_new :: "handle_slot \<Rightarrow> nat \<Rightarrow> u64 \<Rightarrow> hxhandle_table" where
  "hxhandle_table_new raw bits data =
     (if bits \<noteq> 0
      then handle_build \<lparr>ht_data = data, ht_slots = replicate (2 ^ bits) raw, ht_mask = 2 ^ bits - 1, ht_size = 0, ht_free = 0\<rparr>
      else \<lparr>ht_data = 0, ht_slots = [], ht_mask = 0, ht_size = 0, ht_free = 0\<rparr>)"

definition handle_set_size_bits :: "handle_slot \<Rightarrow> u64 \<Rightarrow> hxhandle_table \<Rightarrow> nat \<Rightarrow> hxhandle_table hx" where
  "handle_set_size_bits raw data m bits =
     (if \<not> (1 \<le> bits \<and> bits \<le> 30) then Inl (Assert_debug ''bad_bits'')
      else if ht_slots m \<noteq> [] \<and> length (ht_slots m) \<noteq> 2 ^ bits then Inl (Assert_always ''bad_reserve already sized'')
      else let m1 = m\<lparr>ht_mask := 2 ^ bits - 1\<rparr>;
               m2 = (if ht_slots m = [] then m1\<lparr>ht_data := data, ht_slots := replicate (2 ^ bits) raw\<rparr> else m1)
           in Inr (handle_build m2))"

definition handle_capacity :: "hxhandle_table \<Rightarrow> hxsize_t" where
  "handle_capacity m = int (ht_mask m)"

definition handle_size :: "hxhandle_table \<Rightarrow> hxsize_t" where
  "handle_size m = int (unat (ht_size m))"

definition handle_empty :: "hxhandle_table \<Rightarrow> bool" where
  "handle_empty m = (ht_size m = 0)"

definition handle_full :: "hxhandle_table \<Rightarrow> bool" where
  "handle_full m = (ht_free m = ht_data m)"

section \<open>Operations\<close>

definition handle_value :: "hxhandle_table \<Rightarrow> hxhandle_t \<Rightarrow> u64 hx" where
  "handle_value m h =
     (if ht_slots m = [] then Inl (Assert_debug ''no_table'')
      else let slot = ht_slots m ! slot_of (ht_mask m) h in Inr (if hs_key slot = h then hs_ptr slot else 0))"

definition handle_and_then :: "(u64 \<Rightarrow> 'b option) \<Rightarrow> hxhandle_table \<Rightarrow> hxhandle_t \<Rightarrow> 'b option hx" where
  "handle_and_then callable m h = hx_map (\<lambda>p. if p \<noteq> 0 then callable p else None) (handle_value m h)"

definition handle_or_else :: "u64 \<Rightarrow> hxhandle_table \<Rightarrow> hxhandle_t \<Rightarrow> u64 hx" where
  "handle_or_else alternative m h = hx_map (\<lambda>p. if p \<noteq> 0 then p else alternative) (handle_value m h)"

definition handle_value_or :: "(u64 \<Rightarrow> 'a) \<Rightarrow> 'a \<Rightarrow> hxhandle_table \<Rightarrow> hxhandle_t \<Rightarrow> 'a hx" where
  "handle_value_or memory alternative m h = hx_map (\<lambda>p. if p \<noteq> 0 then memory p else alternative) (handle_value m h)"

definition handle_insert :: "hxhandle_table \<Rightarrow> u64 \<Rightarrow> (hxhandle_table \<times> hxhandle_t) hx" where
  "handle_insert m p =
     (if ht_slots m = [] then Inl (Assert_debug ''no_table'')
      else if ht_free m = ht_data m then Inl (Assert_hard ''table_full'')
      else if p = 0 then Inr (m, 0)
      else hx_map (\<lambda>i. let slot = ht_slots m ! i
              in (m\<lparr>ht_free := hs_ptr slot, ht_slots := (ht_slots m)[i := slot\<lparr>hs_ptr := p\<rparr>], ht_size := ht_size m + 1\<rparr>, hs_key slot))
            (handle_index m (ht_free m)))"

text \<open>The writes by which \<open>extract\<close>, \<open>reset\<close> and \<open>erase_if\<close> return slot \<open>i\<close> to the free list.\<close>

definition handle_free_slot :: "hxhandle_table \<Rightarrow> nat \<Rightarrow> u64 \<Rightarrow> hxhandle_table" where
  "handle_free_slot m i k =
     m\<lparr>ht_slots := (ht_slots m)[i := \<lparr>hs_key = k, hs_ptr = ht_free m\<rparr>], ht_free := handle_addr m i, ht_size := ht_size m - 1\<rparr>"

definition handle_extract :: "hxhandle_table \<Rightarrow> hxhandle_t \<Rightarrow> (hxhandle_table \<times> u64) hx" where
  "handle_extract m h =
     (if ht_slots m = [] then Inl (Assert_debug ''no_table'')
      else let i = slot_of (ht_mask m) h; slot = ht_slots m ! i
           in if hs_key slot \<noteq> h then Inr (m, 0)
              else Inr (handle_free_slot m i (h + word_of_nat (ht_mask m + 1)), hs_ptr slot))"

definition handle_reset :: "bool \<Rightarrow> hxhandle_table \<Rightarrow> hxhandle_t \<Rightarrow> (hxhandle_table \<times> bool \<times> u64 list) hx" where
  "handle_reset deleter m h =
     (if ht_slots m = [] then Inl (Assert_debug ''no_table'')
      else let i = slot_of (ht_mask m) h; slot = ht_slots m ! i
           in if hs_key slot \<noteq> h then Inr (m, False, [])
              else Inr (handle_free_slot m i (h + word_of_nat (ht_mask m + 1)), True, if deleter then [hs_ptr slot] else []))"

text \<open>\<open>size_t(m_next_) - begin_ >= bytes_\<close>: the word does not point into the table.\<close>

definition handle_owned :: "hxhandle_table \<Rightarrow> u64 \<Rightarrow> bool" where
  "handle_owned m p = (word_of_nat (16 * length (ht_slots m)) \<le> p - ht_data m)"

fun handle_erase_loop :: "(u64 \<Rightarrow> bool) \<Rightarrow> bool \<Rightarrow> nat \<Rightarrow> nat \<Rightarrow> hxhandle_table \<Rightarrow> hxhandle_table \<times> nat \<times> u64 list" where
  "handle_erase_loop callable deleter 0 i m = (m, 0, [])"
| "handle_erase_loop callable deleter (Suc k) i m =
     (let slot = ht_slots m ! i
      in if handle_owned m (hs_ptr slot) \<and> callable (hs_ptr slot)
         then let (m1, erased, log) = handle_erase_loop callable deleter k (i + 1)
                    (handle_free_slot m i (hs_key slot + word_of_nat (ht_mask m + 1)))
              in (m1, erased + 1, if deleter then hs_ptr slot # log else log)
         else handle_erase_loop callable deleter k (i + 1) m)"

text \<open>The loop counts from 1 to the size of the table with \<open>!=\<close>, which a table that was never sized does not meet.\<close>

definition handle_erase_if :: "(u64 \<Rightarrow> bool) \<Rightarrow> bool \<Rightarrow> hxhandle_table \<Rightarrow> (hxhandle_table \<times> hxsize_t \<times> u64 list) hx" where
  "handle_erase_if callable deleter m =
     (if ht_slots m = [] then Inl (Undefined_behavior ''walks off null'')
      else let (m1, erased, log) = handle_erase_loop callable deleter (length (ht_slots m) - 1) 1 m in Inr (m1, int erased, log))"

definition cleared_slot :: "hxhandle_table \<Rightarrow> nat \<Rightarrow> handle_slot" where
  "cleared_slot m i =
     (let slot = ht_slots m ! i; c = length (ht_slots m)
      in if i = 0 then slot
         else \<lparr>hs_key = (if handle_owned m (hs_ptr slot) then hs_key slot + word_of_nat c else hs_key slot),
               hs_ptr = (if i + 1 = c then ht_data m else handle_addr m (i + 1))\<rparr>)"

definition owned_ptrs :: "hxhandle_table \<Rightarrow> u64 list" where
  "owned_ptrs m = filter (handle_owned m) (map hs_ptr (drop 1 (ht_slots m)))"

definition handle_clear :: "bool \<Rightarrow> hxhandle_table \<Rightarrow> hxhandle_table \<times> u64 list" where
  "handle_clear deleter m =
     (if ht_size m \<noteq> 0
      then (m\<lparr>ht_slots := map (cleared_slot m) [0..<length (ht_slots m)], ht_free := handle_addr m 1, ht_size := 0\<rparr>,
            if deleter then owned_ptrs m else [])
      else (m, []))"

definition handle_release_all :: "hxhandle_table \<Rightarrow> hxhandle_table" where
  "handle_release_all m = fst (handle_clear False m)"

text \<open>The pointers the destructor deletes.\<close>

definition handle_destroy :: "bool \<Rightarrow> hxhandle_table \<Rightarrow> u64 list" where
  "handle_destroy deleter m = (if ht_size m \<noteq> 0 \<and> deleter then owned_ptrs m else [])"

section \<open>Keys and addresses\<close>

text \<open>The key of slot \<open>b\<close> after \<open>j\<close> releases.\<close>

definition table_key :: "nat \<Rightarrow> nat \<Rightarrow> nat \<Rightarrow> hxhandle_t" where
  "table_key bits b j = word_of_nat (b + 2 ^ bits * j)"

lemma table_key_slot_handle: "table_key bits b j = slot_handle bits b (j + (2 ^ 64 - 1))"
proof -
  have "b + 2 ^ bits * (1 + (j + (2 ^ 64 - 1))) = (b + 2 ^ bits * j) + 2 ^ bits * 2 ^ 64"
    by (simp add: algebra_simps)
  then show ?thesis unfolding table_key_def slot_handle_def
    by (simp only: word_of_nat_eq_iff take_bit_eq_mod len_num1 len_bit0) simp
qed

lemma slot_of_table_key: "b < 2 ^ bits \<Longrightarrow> bits \<le> 30 \<Longrightarrow> slot_of (2 ^ bits - 1) (table_key bits b j) = b"
  by (simp only: table_key_slot_handle slot_of_handle)

lemma table_key_shift: "table_key bits b j + word_of_nat (2 ^ bits) = slot_handle bits b j"
  by (simp add: table_key_def slot_handle_def)

lemma table_key_Suc: "table_key bits b j + word_of_nat (2 ^ bits) = table_key bits b (Suc j)"
  by (simp add: table_key_def)

lemma table_key_stale: "j < j' \<Longrightarrow> j' < 2 ^ (64 - bits) \<Longrightarrow> bits \<le> 30 \<Longrightarrow> table_key bits b j \<noteq> table_key bits b j'"
  using slot_handle_stale [of j j' bits b] table_key_shift by metis

lemma table_key_inj:
  "table_key bits b j = table_key bits b' j' \<Longrightarrow> b < 2 ^ bits \<Longrightarrow> b' < 2 ^ bits \<Longrightarrow> bits \<le> 30 \<Longrightarrow> b = b'"
  using slot_of_table_key [of b bits j] slot_of_table_key [of b' bits j'] by simp

lemma table_key_nonzero: "1 \<le> b \<Longrightarrow> b < 2 ^ bits \<Longrightarrow> bits \<le> 30 \<Longrightarrow> table_key bits b j \<noteq> 0"
  using slot_of_table_key [of b bits j] by (auto simp: slot_of_def)

section \<open>The table as a map from handles to pointers\<close>

fun handle_chain :: "hxhandle_table \<Rightarrow> u64 \<Rightarrow> nat list \<Rightarrow> bool" where
  "handle_chain m p [] = (p = ht_data m)"
| "handle_chain m p (i # is) = (p = handle_addr m i \<and> handle_chain m (hs_ptr (ht_slots m ! i)) is)"

text \<open>\<open>table_ok bits m g own fs\<close>: slot \<open>b\<close> has been released \<open>g b\<close> times and holds the pointer \<open>own b\<close>, and \<open>fs\<close> are the free slots in
  the order of the free list.\<close>

definition handle_shape :: "nat \<Rightarrow> hxhandle_table \<Rightarrow> bool" where
  "handle_shape bits m \<longleftrightarrow> 1 \<le> bits \<and> bits \<le> 30 \<and> length (ht_slots m) = 2 ^ bits \<and> ht_mask m = 2 ^ bits - 1 \<and>
     ht_data m \<noteq> 0 \<and> unat (ht_data m) + 16 * 2 ^ bits < 2 ^ 64"

definition table_keys :: "nat \<Rightarrow> handle_slot list \<Rightarrow> (nat \<Rightarrow> nat) \<Rightarrow> bool" where
  "table_keys bits slots g \<longleftrightarrow> hs_key (slots ! 0) = word_of_nat (2 ^ bits) \<and>
     (\<forall>b. 1 \<le> b \<longrightarrow> b < 2 ^ bits \<longrightarrow> hs_key (slots ! b) = table_key bits b (g b))"

definition table_owns :: "hxhandle_table \<Rightarrow> (nat \<rightharpoonup> u64) \<Rightarrow> nat list \<Rightarrow> bool" where
  "table_owns m own fs \<longleftrightarrow> handle_chain m (ht_free m) fs \<and> distinct fs \<and> set fs \<inter> dom own = {} \<and>
     set fs \<union> dom own = {1..<length (ht_slots m)} \<and> ht_size m = word_of_nat (card (dom own)) \<and>
     (\<forall>b p. own b = Some p \<longrightarrow> hs_ptr (ht_slots m ! b) = p \<and> p \<noteq> 0 \<and> handle_owned m p)"

definition table_ok :: "nat \<Rightarrow> hxhandle_table \<Rightarrow> (nat \<Rightarrow> nat) \<Rightarrow> (nat \<rightharpoonup> u64) \<Rightarrow> nat list \<Rightarrow> bool" where
  "table_ok bits m g own fs \<longleftrightarrow> handle_shape bits m \<and> table_keys bits (ht_slots m) g \<and> table_owns m own fs"

lemma handle_addr_unat:
  assumes "handle_shape bits m" and "i < 2 ^ bits"
  shows "unat (word_of_nat (16 * i) :: u64) = 16 * i"
proof -
  have "16 * i < 2 ^ LENGTH(64)" using assms by (simp add: handle_shape_def)
  then show ?thesis by (rule unat_of_nat_small)
qed

lemma handle_addr_diff: "handle_addr m i - ht_data m = word_of_nat (16 * i)"
  unfolding handle_addr_def by (rule add_diff_cancel_left')

lemma handle_index_addr:
  assumes "handle_shape bits m" and "i < 2 ^ bits"
  shows "handle_index m (handle_addr m i) = Inr i"
  unfolding handle_index_def Let_def handle_addr_diff handle_addr_unat [OF assms]
  using assms by (simp add: handle_shape_def)

lemma handle_addr_data:
  assumes "handle_shape bits m" and "1 \<le> i" and "i < 2 ^ bits"
  shows "handle_addr m i \<noteq> ht_data m"
proof
  assume "handle_addr m i = ht_data m"
  then have "unat (word_of_nat (16 * i) :: u64) = 0" using handle_addr_diff [of m i] by simp
  then show False using handle_addr_unat [OF assms(1,3)] assms(2) by simp
qed

lemma handle_owned_iff:
  assumes "handle_shape bits m"
  shows "handle_owned m p \<longleftrightarrow> 16 * 2 ^ bits \<le> unat (p - ht_data m)"
proof -
  have "16 * 2 ^ bits < (2::nat) ^ LENGTH(64)" using assms by (simp add: handle_shape_def)
  then show ?thesis using assms unat_of_nat_small [where 'a = 64 and n = "16 * 2 ^ bits"]
    by (simp add: handle_owned_def word_le_nat_alt handle_shape_def)
qed

lemma handle_link_not_owned:
  assumes "handle_shape bits m" and "i < 2 ^ bits"
  shows "\<not> handle_owned m (handle_addr m i)"
  unfolding handle_owned_iff [OF assms(1)] handle_addr_diff handle_addr_unat [OF assms] using assms(2) by simp

lemma handle_data_not_owned: "handle_shape bits m \<Longrightarrow> \<not> handle_owned m (ht_data m)"
  by (simp add: handle_owned_iff)

lemma handle_chain_cong:
  "ht_data m' = ht_data m \<Longrightarrow> (\<And>i. i \<in> set fs \<Longrightarrow> hs_ptr (ht_slots m' ! i) = hs_ptr (ht_slots m ! i)) \<Longrightarrow> handle_chain m' p fs = handle_chain m p fs"
  by (induction fs arbitrary: p) (simp_all add: handle_addr_def)

lemma handle_chain_slot_update:
  "b \<notin> set fs \<Longrightarrow> ht_data m' = ht_data m \<Longrightarrow> ht_slots m' = (ht_slots m)[b := x] \<Longrightarrow> handle_chain m' p fs = handle_chain m p fs"
  by (rule handle_chain_cong) (metis nth_list_update_neq)+

lemma handle_chain_free_not_owned:
  "handle_shape bits m \<Longrightarrow> handle_chain m p fs \<Longrightarrow> set fs \<subseteq> {1..<2 ^ bits} \<Longrightarrow> \<not> handle_owned m p \<and> (\<forall>i\<in>set fs. \<not> handle_owned m (hs_ptr (ht_slots m ! i)))"
  by (induction fs arbitrary: p) (auto simp: handle_link_not_owned handle_data_not_owned)

lemma table_own_iff:
  assumes "table_ok bits m g own fs" and "1 \<le> b" and "b < 2 ^ bits"
  shows "own b = (if handle_owned m (hs_ptr (ht_slots m ! b)) then Some (hs_ptr (ht_slots m ! b)) else None)"
proof -
  have shape: "handle_shape bits m" and owns: "table_owns m own fs" using assms(1) by (simp_all add: table_ok_def)
  have len: "length (ht_slots m) = 2 ^ bits" using shape by (simp add: handle_shape_def)
  have part: "set fs \<union> dom own = {1..<2 ^ bits}" using owns len by (simp add: table_owns_def)
  have "\<not> handle_owned m (hs_ptr (ht_slots m ! b))" if "b \<in> set fs"
    using handle_chain_free_not_owned [OF shape, of "ht_free m" fs] owns part that by (auto simp: table_owns_def)
  moreover have "own b = Some (hs_ptr (ht_slots m ! b)) \<and> handle_owned m (hs_ptr (ht_slots m ! b))" if "b \<in> dom own"
    using owns that by (auto simp: table_owns_def)
  moreover have "b \<in> set fs \<or> b \<in> dom own" using part assms(2,3) by (metis Un_iff atLeastLessThan_iff)
  moreover have "b \<in> set fs \<Longrightarrow> own b = None" using owns by (auto simp: table_owns_def)
  ultimately show ?thesis by auto
qed

text \<open>Returning an owned slot.\<close>

lemma table_free_slot:
  assumes ok: "table_ok bits m g own fs" and own: "own b = Some p"
  shows "table_ok bits (handle_free_slot m b (table_key bits b (g b) + word_of_nat (2 ^ bits))) (g(b := Suc (g b))) (own(b := None)) (b # fs)"
    (is "table_ok _ ?m _ _ _")
proof -
  have shape: "handle_shape bits m" and keys: "table_keys bits (ht_slots m) g" and owns: "table_owns m own fs" using ok by (simp_all add: table_ok_def)
  have len: "length (ht_slots m) = 2 ^ bits" using shape by (simp add: handle_shape_def)
  have part: "set fs \<union> dom own = {1..<2 ^ bits}" "set fs \<inter> dom own = {}" using owns len by (simp_all add: table_owns_def)
  have "b \<in> dom own" using own by auto
  then have b: "1 \<le> b" "b < 2 ^ bits" "b \<notin> set fs" using part by auto
  have shape': "handle_shape bits ?m" using shape by (simp add: handle_shape_def handle_free_slot_def)
  have keys': "table_keys bits (ht_slots ?m) (g(b := Suc (g b)))"
    using keys b len by (auto simp: table_keys_def handle_free_slot_def nth_list_update table_key_Suc [simplified])
  have chain: "handle_chain ?m (ht_free m) fs"
  proof -
    have "handle_chain ?m (ht_free m) fs = handle_chain m (ht_free m) fs"
      using b(3) by (rule handle_chain_slot_update) (simp_all add: handle_free_slot_def)
    then show ?thesis using owns by (simp add: table_owns_def)
  qed
  have card: "word_of_nat (card (dom (own(b := None)))) = ht_size m - (1 :: u32)"
  proof -
    have fin: "finite (dom own)" using part(1) by (metis finite_Un finite_atLeastLessThan)
    then have "card (dom own) = Suc (card (dom own - {b}))" using \<open>b \<in> dom own\<close> by (metis card.remove)
    then show ?thesis using owns by (simp add: table_owns_def dom_fun_upd)
  qed
  have "table_owns ?m (own(b := None)) (b # fs)"
    unfolding table_owns_def
  proof (intro conjI allI impI)
    show "handle_chain ?m (ht_free ?m) (b # fs)" using chain b len by (simp add: handle_free_slot_def handle_addr_def)
    show "distinct (b # fs)" using owns b by (simp add: table_owns_def)
    show "set (b # fs) \<inter> dom (own(b := None)) = {}" using part(2) by auto
    show "set (b # fs) \<union> dom (own(b := None)) = {1..<length (ht_slots ?m)}" using part b len by (auto simp: handle_free_slot_def)
    show "ht_size ?m = word_of_nat (card (dom (own(b := None))))" using card by (simp add: handle_free_slot_def)
    fix c q assume "(own(b := None)) c = Some q"
    then have c: "c \<noteq> b" "own c = Some q" by (auto split: if_splits)
    then show "hs_ptr (ht_slots ?m ! c) = q" "q \<noteq> 0" "handle_owned ?m q"
      using owns by (auto simp: table_owns_def handle_free_slot_def handle_owned_def)
  qed
  then show ?thesis using shape' keys' by (simp add: table_ok_def)
qed

abbreviation handle_take_slot :: "hxhandle_table \<Rightarrow> nat \<Rightarrow> u64 \<Rightarrow> hxhandle_table" where
  "handle_take_slot m b p \<equiv>
     m\<lparr>ht_free := hs_ptr (ht_slots m ! b), ht_slots := (ht_slots m)[b := (ht_slots m ! b)\<lparr>hs_ptr := p\<rparr>], ht_size := ht_size m + 1\<rparr>"

lemma table_take_slot:
  assumes ok: "table_ok bits m g own (b # fs)" and p: "p \<noteq> 0" "handle_owned m p"
  shows "handle_insert m p = Inr (handle_take_slot m b p, table_key bits b (g b))"
    and "table_ok bits (handle_take_slot m b p) g (own(b \<mapsto> p)) fs" and "own b = None"
proof -
  let ?m = "handle_take_slot m b p"
  have shape: "handle_shape bits m" and keys: "table_keys bits (ht_slots m) g" and owns: "table_owns m own (b # fs)" using ok by (simp_all add: table_ok_def)
  have len: "length (ht_slots m) = 2 ^ bits" using shape by (simp add: handle_shape_def)
  have part: "set (b # fs) \<union> dom own = {1..<2 ^ bits}" "set (b # fs) \<inter> dom own = {}" using owns len by (simp_all add: table_owns_def)
  have b: "1 \<le> b" "b < 2 ^ bits" "b \<notin> set fs" using part owns by (auto simp: table_owns_def)
  show none: "own b = None" using part(2) by auto
  have head: "ht_free m = handle_addr m b" and rest: "handle_chain m (hs_ptr (ht_slots m ! b)) fs" using owns by (simp_all add: table_owns_def)
  show "handle_insert m p = Inr (?m, table_key bits b (g b))"
    using handle_index_addr [OF shape b(2)] handle_addr_data [OF shape b(1,2)] p(1) len keys b(1,2)
    by (auto simp: handle_insert_def head Let_def table_keys_def)
  have fin: "finite (dom own)" using part(1) by (metis finite_Un finite_atLeastLessThan)
  have "table_owns ?m (own(b \<mapsto> p)) fs"
    unfolding table_owns_def
  proof (intro conjI allI impI)
    have "handle_chain ?m (hs_ptr (ht_slots m ! b)) fs = handle_chain m (hs_ptr (ht_slots m ! b)) fs"
      using b(3) by (rule handle_chain_slot_update) simp_all
    then show "handle_chain ?m (ht_free ?m) fs" using rest by simp
    show "distinct fs" using owns by (simp add: table_owns_def)
    show "set fs \<inter> dom (own(b \<mapsto> p)) = {}" using part(2) b(3) by auto
    show "set fs \<union> dom (own(b \<mapsto> p)) = {1..<length (ht_slots ?m)}" using part(1) len by auto
    have "card (dom (own(b \<mapsto> p))) = Suc (card (dom own))" using fin none by (simp add: domIff)
    then show "ht_size ?m = word_of_nat (card (dom (own(b \<mapsto> p))))" using owns by (simp add: table_owns_def)
    fix c q assume c: "(own(b \<mapsto> p)) c = Some q"
    show "hs_ptr (ht_slots ?m ! c) = q" "q \<noteq> 0" "handle_owned ?m q"
      using c owns p b len by (auto simp: table_owns_def handle_owned_def split: if_splits)
  qed
  moreover have "handle_shape bits ?m" using shape by (simp add: handle_shape_def)
  moreover have "table_keys bits (ht_slots ?m) g" using keys b len by (auto simp: table_keys_def nth_list_update)
  ultimately show "table_ok bits ?m g (own(b \<mapsto> p)) fs" by (simp add: table_ok_def)
qed

text \<open>The loop of \<open>erase_if\<close> releases the chosen slots of its range.\<close>

definition chosen :: "(u64 \<Rightarrow> bool) \<Rightarrow> (nat \<rightharpoonup> u64) \<Rightarrow> nat \<Rightarrow> bool" where
  "chosen P own b = (case own b of None \<Rightarrow> False | Some p \<Rightarrow> P p)"

definition drop_chosen :: "(u64 \<Rightarrow> bool) \<Rightarrow> nat \<Rightarrow> nat \<Rightarrow> (nat \<rightharpoonup> u64) \<Rightarrow> nat \<rightharpoonup> u64" where
  "drop_chosen P i j own = (\<lambda>b. if i \<le> b \<and> b < j \<and> chosen P own b then None else own b)"

definition bump_chosen :: "(u64 \<Rightarrow> bool) \<Rightarrow> nat \<Rightarrow> nat \<Rightarrow> (nat \<rightharpoonup> u64) \<Rightarrow> (nat \<Rightarrow> nat) \<Rightarrow> nat \<Rightarrow> nat" where
  "bump_chosen P i j own g = (\<lambda>b. if i \<le> b \<and> b < j \<and> chosen P own b then Suc (g b) else g b)"

lemma handle_erase_loop_ok:
  "table_ok bits m g own fs \<Longrightarrow> 1 \<le> i \<Longrightarrow> i + k = 2 ^ bits \<Longrightarrow>
    \<exists>m' fs'. handle_erase_loop P d k i m = (m', length (filter (chosen P own) [i..<i + k]), if d then map (the \<circ> own) (filter (chosen P own) [i..<i + k]) else []) \<and>
      table_ok bits m' (bump_chosen P i (i + k) own g) (drop_chosen P i (i + k) own) fs' \<and> ht_data m' = ht_data m"
proof (induction k arbitrary: i m g own fs)
  case 0
  have "bump_chosen P i i own g = g" "drop_chosen P i i own = own" by (intro ext; auto simp: bump_chosen_def drop_chosen_def)+
  then show ?case using 0 by auto
next
  case (Suc k)
  have i: "i < 2 ^ bits" "1 \<le> i" "1 \<le> i + 1" "i + 1 + k = 2 ^ bits" using Suc.prems(2,3) by simp_all
  let ?slot = "ht_slots m ! i"
  have own: "own i = (if handle_owned m (hs_ptr ?slot) then Some (hs_ptr ?slot) else None)" by (rule table_own_iff [OF Suc.prems(1) i(2,1)])
  have test: "handle_owned m (hs_ptr ?slot) \<and> P (hs_ptr ?slot) \<longleftrightarrow> chosen P own i" using own by (simp add: chosen_def)
  have upt: "[i..<i + Suc k] = i # [i + 1..<i + 1 + k]" by (simp add: upt_conv_Cons)
  show ?case
  proof (cases "chosen P own i")
    case True
    define p where "p = hs_ptr ?slot"
    have p: "own i = Some p" "hs_ptr ?slot = p" using own True by (auto simp: chosen_def p_def split: if_splits)
    have key: "hs_key ?slot = table_key bits i (g i)" "ht_mask m + 1 = 2 ^ bits" using Suc.prems(1) i by (simp_all add: table_ok_def table_keys_def handle_shape_def)
    let ?m = "handle_free_slot m i (hs_key ?slot + word_of_nat (ht_mask m + 1))"
    have ok: "table_ok bits ?m (g(i := Suc (g i))) (own(i := None)) (i # fs)"
      using table_free_slot [OF Suc.prems(1) p(1)] unfolding key .
    obtain m' fs' where loop: "handle_erase_loop P d k (i + 1) ?m = (m', length (filter (chosen P (own(i := None))) [i + 1..<i + 1 + k]),
        if d then map (the \<circ> own(i := None)) (filter (chosen P (own(i := None))) [i + 1..<i + 1 + k]) else [])"
      and ok': "table_ok bits m' (bump_chosen P (i + 1) (i + 1 + k) (own(i := None)) (g(i := Suc (g i)))) (drop_chosen P (i + 1) (i + 1 + k) (own(i := None))) fs'"
      and data: "ht_data m' = ht_data ?m"
      using Suc.IH [OF ok i(3,4)] by blast
    have same: "filter (chosen P (own(i := None))) [i + 1..<i + 1 + k] = filter (chosen P own) [i + 1..<i + 1 + k]"
      by (rule filter_cong) (auto simp: chosen_def)
    have logs: "map (the \<circ> own(i := None)) (filter (chosen P own) [i + 1..<i + 1 + k]) = map (the \<circ> own) (filter (chosen P own) [i + 1..<i + 1 + k])"
      by (rule map_cong) auto
    have "bump_chosen P (i + 1) (i + 1 + k) (own(i := None)) (g(i := Suc (g i))) = bump_chosen P i (i + Suc k) own g"
      using True by (intro ext) (auto simp: bump_chosen_def chosen_def)
    moreover have "drop_chosen P (i + 1) (i + 1 + k) (own(i := None)) = drop_chosen P i (i + Suc k) own"
      using True by (intro ext) (auto simp: drop_chosen_def chosen_def)
    ultimately have "table_ok bits m' (bump_chosen P i (i + Suc k) own g) (drop_chosen P i (i + Suc k) own) fs'" using ok' by (simp only:)
    moreover have "handle_erase_loop P d (Suc k) i m = (m', length (filter (chosen P own) [i..<i + Suc k]),
        if d then map (the \<circ> own) (filter (chosen P own) [i..<i + Suc k]) else [])"
      unfolding handle_erase_loop.simps Let_def test upt using True loop same logs p by simp
    ultimately show ?thesis using data by (auto simp: handle_free_slot_def)
  next
    case False
    obtain m' fs' where loop: "handle_erase_loop P d k (i + 1) m = (m', length (filter (chosen P own) [i + 1..<i + 1 + k]),
        if d then map (the \<circ> own) (filter (chosen P own) [i + 1..<i + 1 + k]) else [])"
      and ok': "table_ok bits m' (bump_chosen P (i + 1) (i + 1 + k) own g) (drop_chosen P (i + 1) (i + 1 + k) own) fs'" and data: "ht_data m' = ht_data m"
      using Suc.IH [OF Suc.prems(1) i(3,4)] by blast
    have le: "Suc i \<le> b \<longleftrightarrow> i \<le> b" if "chosen P own b" for b using that False by (metis Suc_leI le_eq_less_or_eq Suc_leD)
    have "bump_chosen P (i + 1) (i + 1 + k) own g = bump_chosen P i (i + Suc k) own g"
      using le by (intro ext) (auto simp: bump_chosen_def)
    moreover have "drop_chosen P (i + 1) (i + 1 + k) own = drop_chosen P i (i + Suc k) own"
      using le by (intro ext) (auto simp: drop_chosen_def)
    ultimately have "table_ok bits m' (bump_chosen P i (i + Suc k) own g) (drop_chosen P i (i + Suc k) own) fs'" using ok' by (simp only:)
    moreover have "handle_erase_loop P d (Suc k) i m = (m', length (filter (chosen P own) [i..<i + Suc k]),
        if d then map (the \<circ> own) (filter (chosen P own) [i..<i + Suc k]) else [])"
      unfolding handle_erase_loop.simps Let_def test upt using False loop by simp
    ultimately show ?thesis using data by blast
  qed
qed

lemma handle_clear_ok:
  assumes ok: "table_ok bits m g own fs"
  shows "\<exists>m' g' fs'. fst (handle_clear d m) = m' \<and> table_ok bits m' g' Map.empty fs' \<and>
      (\<forall>b. g' b = (if own b = None then g b else Suc (g b)))"
    and "snd (handle_clear d m) = (if d then map (the \<circ> own) (filter (chosen (\<lambda>_. True) own) [1..<2 ^ bits]) else [])"
proof -
  have shape: "handle_shape bits m" and keys: "table_keys bits (ht_slots m) g" and owns: "table_owns m own fs" using ok by (simp_all add: table_ok_def)
  have len: "length (ht_slots m) = 2 ^ bits" and bits: "1 \<le> bits" "bits \<le> 30" using shape by (simp_all add: handle_shape_def)
  have part: "set fs \<union> dom own = {1..<2 ^ bits}" "set fs \<inter> dom own = {}" using owns len by (simp_all add: table_owns_def)
  have fin: "finite (dom own)" using part(1) by (metis finite_Un finite_atLeastLessThan)
  have "card (dom own) \<le> card {1..<(2::nat) ^ bits}" using part(1) by (intro card_mono) auto
  then have small: "card (dom own) < 2 ^ 30" using bits(2) power_increasing [of bits 30 "2::nat"] by simp
  have empty: "ht_size m = 0 \<longleftrightarrow> dom own = {}"
  proof -
    have "ht_size m = word_of_nat (card (dom own))" using owns by (simp add: table_owns_def)
    moreover have "card (dom own) < 2 ^ LENGTH(32)" using small by simp
    ultimately have "unat (ht_size m) = card (dom own)" by (simp only: unat_of_nat_small)
    then show ?thesis using fin by (metis card_0_eq unat_eq_zero)
  qed
  note own_iff = table_own_iff [OF ok]
  show "\<exists>m' g' fs'. fst (handle_clear d m) = m' \<and> table_ok bits m' g' Map.empty fs' \<and> (\<forall>b. g' b = (if own b = None then g b else Suc (g b)))"
  proof (cases "ht_size m = 0")
    case True
    then have "own = Map.empty" using empty by simp
    then show ?thesis using ok True by (intro exI [of _ m] exI [of _ g] exI [of _ fs]) (simp add: handle_clear_def)
  next
    case False
    define m' where "m' = fst (handle_clear d m)"
    have m': "m' = m\<lparr>ht_slots := map (cleared_slot m) [0..<2 ^ bits], ht_free := handle_addr m 1, ht_size := 0\<rparr>"
      using False len by (simp add: m'_def handle_clear_def)
    let ?g = "\<lambda>b. if own b = None then g b else Suc (g b)"
    have shape': "handle_shape bits m'" using shape by (simp add: m' handle_shape_def)
    have keys': "table_keys bits (ht_slots m') ?g"
      using keys own_iff len by (auto simp: m' table_keys_def cleared_slot_def Let_def table_key_Suc [simplified])
    have two: "(2::nat) \<le> 2 ^ bits" using bits(1) power_increasing [of 1 bits "2::nat"] by simp
    have chain: "handle_chain m' (if i = 2 ^ bits then ht_data m else handle_addr m i) [i..<2 ^ bits]" if "1 \<le> i" "i \<le> 2 ^ bits" for i
      using that(2,1)
    proof (induction i rule: inc_induct)
      case base
      then show ?case by (simp add: m')
    next
      case (step i)
      have "hs_ptr (ht_slots m' ! i) = (if Suc i = 2 ^ bits then ht_data m else handle_addr m (Suc i))"
        using step.hyps step.prems len by (simp add: m' cleared_slot_def Let_def)
      then show ?case using step.IH step.hyps(2) by (simp add: upt_conv_Cons) (simp add: m' handle_addr_def)
    qed
    have "table_owns m' Map.empty [1..<2 ^ bits]"
      using chain [of 1] two by (auto simp: table_owns_def m')
    then have "table_ok bits m' ?g Map.empty [1..<2 ^ bits]" using shape' keys' by (simp add: table_ok_def)
    then show ?thesis using m'_def by (intro exI [of _ m'] exI [of _ ?g] exI [of _ "[1..<2 ^ bits]"]) simp
  qed
  show "snd (handle_clear d m) = (if d then map (the \<circ> own) (filter (chosen (\<lambda>_. True) own) [1..<2 ^ bits]) else [])"
  proof (cases "ht_size m = 0")
    case True
    then have "own = Map.empty" using empty by simp
    then show ?thesis using True by (simp add: handle_clear_def chosen_def)
  next
    case False
    have "drop 1 (ht_slots m) = map (\<lambda>b. ht_slots m ! b) [1..<2 ^ bits]"
      using len by (intro nth_equalityI) simp_all
    then have "owned_ptrs m = filter (handle_owned m) (map (\<lambda>b. hs_ptr (ht_slots m ! b)) [1..<2 ^ bits])" by (simp add: owned_ptrs_def comp_def)
    also have "\<dots> = map (\<lambda>b. hs_ptr (ht_slots m ! b)) (filter (\<lambda>b. handle_owned m (hs_ptr (ht_slots m ! b))) [1..<2 ^ bits])"
      by (simp add: filter_map comp_def)
    also have "\<dots> = map (\<lambda>b. hs_ptr (ht_slots m ! b)) (filter (chosen (\<lambda>_. True) own) [1..<2 ^ bits])"
      using own_iff by (intro arg_cong [where f = "map _"] filter_cong) (auto simp: chosen_def)
    also have "\<dots> = map (the \<circ> own) (filter (chosen (\<lambda>_. True) own) [1..<2 ^ bits])"
      using own_iff by (intro map_cong) (auto simp: chosen_def split: if_splits)
    finally show ?thesis using False by (simp add: handle_clear_def)
  qed
qed

text \<open>The contract: the pointers by handle, the handles given out and released, and a bound on how often any slot was released.\<close>

definition live_map :: "nat \<Rightarrow> (nat \<Rightarrow> nat) \<Rightarrow> (nat \<rightharpoonup> u64) \<Rightarrow> hxhandle_t \<rightharpoonup> u64" where
  "live_map bits g own h =
     (let b = slot_of (2 ^ bits - 1) h in if 1 \<le> b \<and> b < 2 ^ bits \<and> h = table_key bits b (g b) then own b else None)"

definition handle_rel :: "nat \<Rightarrow> hxhandle_table \<Rightarrow> (hxhandle_t \<rightharpoonup> u64) \<Rightarrow> hxhandle_t set \<Rightarrow> nat \<Rightarrow> bool" where
  "handle_rel bits m live dead n \<longleftrightarrow> (\<exists>g own fs. table_ok bits m g own fs \<and> live = live_map bits g own \<and>
     (\<forall>h\<in>dead. \<exists>b j. 1 \<le> b \<and> b < 2 ^ bits \<and> j < g b \<and> h = table_key bits b j) \<and> (\<forall>b. g b \<le> n))"

lemma own_dom: "table_ok bits m g own fs \<Longrightarrow> own b = Some p \<Longrightarrow> 1 \<le> b \<and> b < 2 ^ bits"
proof -
  assume "table_ok bits m g own fs" "own b = Some p"
  then have "b \<in> {1..<2 ^ bits}" by (auto simp: table_ok_def table_owns_def handle_shape_def)
  then show ?thesis by simp
qed

lemma live_map_key: "b < 2 ^ bits \<Longrightarrow> bits \<le> 30 \<Longrightarrow> 1 \<le> b \<Longrightarrow> live_map bits g own (table_key bits b j) = (if table_key bits b j = table_key bits b (g b) then own b else None)"
  unfolding live_map_def by (simp only: slot_of_table_key Let_def) simp

lemma live_map_Some:
  assumes "table_ok bits m g own fs"
  shows "live_map bits g own h = Some p \<longleftrightarrow> (\<exists>b. own b = Some p \<and> h = table_key bits b (g b))"
proof -
  have bits: "bits \<le> 30" using assms by (simp add: table_ok_def handle_shape_def)
  show ?thesis
  proof
    assume "live_map bits g own h = Some p"
    then show "\<exists>b. own b = Some p \<and> h = table_key bits b (g b)" by (auto simp: live_map_def Let_def split: if_splits)
  next
    assume "\<exists>b. own b = Some p \<and> h = table_key bits b (g b)"
    then obtain b where b: "own b = Some p" "h = table_key bits b (g b)" by blast
    then show "live_map bits g own h = Some p" using own_dom [OF assms b(1)] bits by (simp add: b(2) live_map_key b(1))
  qed
qed

lemma slot_at_key:
  assumes "table_ok bits m g own fs" and "1 \<le> b" and "b < 2 ^ bits"
  shows "slot_of (ht_mask m) (table_key bits b j) = b" and "hs_key (ht_slots m ! b) = table_key bits b (g b)"
    and "ht_slots m \<noteq> []" and "word_of_nat (ht_mask m + 1) = (word_of_nat (2 ^ bits) :: u64)"
  using assms slot_of_table_key [of b bits j] by (auto simp: table_ok_def handle_shape_def table_keys_def)

text \<open>Live handles, dead handles and the null handle.\<close>

lemma handle_live:
  assumes ok: "table_ok bits m g own fs" and own: "own b = Some p"
  shows "handle_value m (table_key bits b (g b)) = Inr p"
    and "handle_extract m (table_key bits b (g b)) = Inr (handle_free_slot m b (table_key bits b (g b) + word_of_nat (2 ^ bits)), p)"
    and "handle_reset d m (table_key bits b (g b)) =
      Inr (handle_free_slot m b (table_key bits b (g b) + word_of_nat (2 ^ bits)), True, if d then [p] else [])"
proof -
  have b: "1 \<le> b" "b < 2 ^ bits" using own_dom [OF ok own] by simp_all
  have "hs_ptr (ht_slots m ! b) = p" using ok own by (auto simp: table_ok_def table_owns_def)
  note slot = this slot_at_key [OF ok b]
  show "handle_value m (table_key bits b (g b)) = Inr p"
    "handle_extract m (table_key bits b (g b)) = Inr (handle_free_slot m b (table_key bits b (g b) + word_of_nat (2 ^ bits)), p)"
    "handle_reset d m (table_key bits b (g b)) =
      Inr (handle_free_slot m b (table_key bits b (g b) + word_of_nat (2 ^ bits)), True, if d then [p] else [])"
    unfolding handle_value_def handle_extract_def handle_reset_def Let_def slot(2,5) using slot(1,3,4) by simp_all
qed

lemma handle_mismatch:
  assumes "ht_slots m \<noteq> []" and "hs_key (ht_slots m ! slot_of (ht_mask m) h) \<noteq> h"
  shows "handle_value m h = Inr 0 \<and> handle_extract m h = Inr (m, 0) \<and> handle_reset d m h = Inr (m, False, [])"
  using assms by (simp add: handle_value_def handle_extract_def handle_reset_def Let_def)

lemma handle_null:
  assumes "table_ok bits m g own fs"
  shows "handle_value m 0 = Inr 0 \<and> handle_extract m 0 = Inr (m, 0) \<and> handle_reset d m 0 = Inr (m, False, [])"
proof (rule handle_mismatch)
  have shape: "length (ht_slots m) = 2 ^ bits" "bits \<le> 30" and key: "hs_key (ht_slots m ! 0) = word_of_nat (2 ^ bits)"
    using assms by (simp_all add: table_ok_def handle_shape_def table_keys_def)
  show "ht_slots m \<noteq> []" using shape(1) by auto
  have "(2::nat) ^ bits < 2 ^ LENGTH(64)" using shape(2) by (intro power_strict_increasing) simp_all
  then have "unat (word_of_nat (2 ^ bits) :: u64) = 2 ^ bits" by (rule unat_of_nat_small)
  moreover have "slot_of (ht_mask m) 0 = 0" by (simp add: slot_of_def)
  ultimately show "hs_key (ht_slots m ! slot_of (ht_mask m) 0) \<noteq> 0" using key by (metis power_not_zero unsigned_0 zero_neq_numeral)
qed

lemma handle_dead:
  assumes ok: "table_ok bits m g own fs" and "1 \<le> b" "b < 2 ^ bits" "j < g b" "g b < 2 ^ (64 - bits)"
  shows "handle_value m (table_key bits b j) = Inr 0 \<and> handle_extract m (table_key bits b j) = Inr (m, 0) \<and>
    handle_reset d m (table_key bits b j) = Inr (m, False, [])"
proof (rule handle_mismatch)
  have "bits \<le> 30" using ok by (simp add: table_ok_def handle_shape_def)
  then show "hs_key (ht_slots m ! slot_of (ht_mask m) (table_key bits b j)) \<noteq> table_key bits b j"
    using slot_at_key(1) [OF assms(1-3), of j] slot_at_key(2) [OF assms(1-3)] table_key_stale [OF assms(4,5), of b] by auto
  show "ht_slots m \<noteq> []" by (rule slot_at_key(3) [OF assms(1-3)])
qed

lemma handle_new_rel:
  assumes "1 \<le> bits" and "bits \<le> 30" and "data \<noteq> 0" and "unat data + 16 * 2 ^ bits < 2 ^ 64"
  shows "handle_rel bits (hxhandle_table_new raw bits data) Map.empty {} 0"
proof -
  define m0 where "m0 = \<lparr>ht_data = data, ht_slots = replicate (2 ^ bits) raw, ht_mask = 2 ^ bits - 1, ht_size = 0, ht_free = 0\<rparr>"
  define m where "m = hxhandle_table_new raw bits data"
  have m: "m = handle_build m0" using assms(1) by (simp add: m_def m0_def hxhandle_table_new_def)
  have two: "(2::nat) \<le> 2 ^ bits" using assms(1) power_increasing [of 1 bits "2::nat"] by simp
  have shape: "handle_shape bits m" using assms by (simp add: m m0_def handle_build_def handle_shape_def)
  have keys: "table_keys bits (ht_slots m) (\<lambda>_. 0)"
    by (auto simp: m m0_def handle_build_def table_keys_def built_handle_slot_def Let_def table_key_def)
  have chain: "handle_chain m (if i = 2 ^ bits then ht_data m else handle_addr m i) [i..<2 ^ bits]" if "1 \<le> i" "i \<le> 2 ^ bits" for i
    using that(2,1)
  proof (induction i rule: inc_induct)
    case base
    then show ?case by simp
  next
    case (step i)
    have "hs_ptr (ht_slots m ! i) = (if Suc i = 2 ^ bits then ht_data m else handle_addr m (Suc i))"
      using step.hyps step.prems by (simp add: m m0_def handle_build_def built_handle_slot_def Let_def handle_addr_def)
    then show ?case using step.IH step.hyps(2) by (simp add: upt_conv_Cons)
  qed
  have "table_owns m Map.empty [1..<2 ^ bits]"
    using chain [of 1] two by (auto simp: table_owns_def m m0_def handle_build_def handle_addr_def)
  then have ok: "table_ok bits m (\<lambda>_. 0) Map.empty [1..<2 ^ bits]" using shape keys by (simp add: table_ok_def)
  have "live_map bits (\<lambda>_. 0) Map.empty = Map.empty" by (simp add: live_map_def fun_eq_iff Let_def)
  then show ?thesis using ok unfolding handle_rel_def m_def [symmetric]
    by (intro exI [of _ "\<lambda>_. 0"] exI [of _ Map.empty] exI [of _ "[1..<2 ^ bits]"]) simp
qed

section \<open>The contract of the operations\<close>

lemma map_eqI: "(\<And>x y. f x = Some y \<longleftrightarrow> g x = Some y) \<Longrightarrow> f = g"
  by (intro ext) (metis not_Some_eq)

lemma live_map_dom:
  assumes "table_ok bits m g own fs"
  shows "dom (live_map bits g own) = (\<lambda>b. table_key bits b (g b)) ` dom own" and "inj_on (\<lambda>b. table_key bits b (g b)) (dom own)"
    and "finite (dom own)" and "card (dom (live_map bits g own)) = card (dom own)" and "handle_size m = int (card (dom own))"
    and "card (dom own) + length fs = 2 ^ bits - 1"
proof -
  have bits: "bits \<le> 30" and len: "length (ht_slots m) = 2 ^ bits" using assms by (simp_all add: table_ok_def handle_shape_def)
  have owns: "table_owns m own fs" using assms by (simp add: table_ok_def)
  have part: "set fs \<union> dom own = {1..<2 ^ bits}" "set fs \<inter> dom own = {}" using owns len by (simp_all add: table_owns_def)
  show dom: "dom (live_map bits g own) = (\<lambda>b. table_key bits b (g b)) ` dom own"
    using live_map_Some [OF assms] by (auto simp: dom_def)
  show inj: "inj_on (\<lambda>b. table_key bits b (g b)) (dom own)"
  proof (rule inj_onI)
    fix b c assume "b \<in> dom own" "c \<in> dom own" and eq: "table_key bits b (g b) = table_key bits c (g c)"
    then have "b < 2 ^ bits" "c < 2 ^ bits" using own_dom [OF assms] by auto
    then show "b = c" using table_key_inj [OF eq] bits by simp
  qed
  show fin: "finite (dom own)" using part(1) by (metis finite_Un finite_atLeastLessThan)
  show "card (dom (live_map bits g own)) = card (dom own)" unfolding dom by (rule card_image [OF inj])
  have "card (set fs \<union> dom own) = card (set fs) + card (dom own)" using part(2) fin by (intro card_Un_disjoint) simp_all
  moreover have "card (set fs) = length fs" using owns by (simp add: table_owns_def distinct_card)
  ultimately show sum: "card (dom own) + length fs = 2 ^ bits - 1" using part(1) by simp
  have "(0::nat) < 2 ^ bits" by simp
  then have "card (dom own) < 2 ^ bits" using sum by linarith
  also have "(2::nat) ^ bits < 2 ^ LENGTH(32)" using bits by (intro power_strict_increasing) simp_all
  finally show "handle_size m = int (card (dom own))" using owns by (simp only: handle_size_def table_owns_def unat_of_nat_small)
qed

lemma handle_rel_insert:
  assumes rel: "handle_rel bits m live dead n" and room: "card (dom live) < 2 ^ bits - 1" and p: "p \<noteq> 0" "handle_owned m p"
  shows "\<exists>m' h. handle_insert m p = Inr (m', h) \<and> h \<noteq> 0 \<and> h \<notin> dom live \<and> handle_rel bits m' (live(h \<mapsto> p)) dead n"
proof -
  obtain g own fs where ok: "table_ok bits m g own fs" and live: "live = live_map bits g own"
    and dead: "\<forall>h\<in>dead. \<exists>b j. 1 \<le> b \<and> b < 2 ^ bits \<and> j < g b \<and> h = table_key bits b j" "\<forall>b. g b \<le> n"
    using rel unfolding handle_rel_def by blast
  note dom = live_map_dom [OF ok]
  have "fs \<noteq> []" using room dom(4,6) live by auto
  then obtain b fs' where fs: "fs = b # fs'" by (cases fs) auto
  note take = table_take_slot [OF ok [unfolded fs] p]
  let ?h = "table_key bits b (g b)" and ?m = "handle_take_slot m b p"
  have b: "1 \<le> b" "b < 2 ^ bits" using own_dom [OF take(2), of b p] by simp_all
  have bits: "bits \<le> 30" using ok by (simp add: table_ok_def handle_shape_def)
  have eq: "live_map bits g (own(b \<mapsto> p)) = live(?h \<mapsto> p)"
  proof (rule map_eqI)
    fix h q
    have ki: "c = b" if "(own(b \<mapsto> p)) c = Some r" "?h = table_key bits c (g c)" for c r
      using table_key_inj [OF that(2)] own_dom [OF take(2) that(1)] b(2) bits by simp
    show "live_map bits g (own(b \<mapsto> p)) h = Some q \<longleftrightarrow> (live(?h \<mapsto> p)) h = Some q"
    proof (cases "h = ?h")
      case True
      have "(\<exists>c. (own(b \<mapsto> p)) c = Some q \<and> ?h = table_key bits c (g c)) \<longleftrightarrow> p = q"
      proof
        assume "\<exists>c. (own(b \<mapsto> p)) c = Some q \<and> ?h = table_key bits c (g c)"
        then obtain c where c: "(own(b \<mapsto> p)) c = Some q" "?h = table_key bits c (g c)" by blast
        then show "p = q" using ki [OF c] by simp
      next
        assume "p = q"
        then show "\<exists>c. (own(b \<mapsto> p)) c = Some q \<and> ?h = table_key bits c (g c)" by (intro exI [of _ b]) simp
      qed
      then show ?thesis unfolding live_map_Some [OF take(2)] True by simp
    next
      case False
      have "(own(b \<mapsto> p)) c = Some q \<and> h = table_key bits c (g c) \<longleftrightarrow> own c = Some q \<and> h = table_key bits c (g c)" for c
        using False take(3) by (cases "c = b") simp_all
      then show ?thesis unfolding live_map_Some [OF take(2)] live using live_map_Some [OF ok, of h q] False by simp
    qed
  qed
  have "?h \<notin> dom live" using take(3) b bits by (auto simp: live live_map_key)
  moreover have "handle_rel bits ?m (live(?h \<mapsto> p)) dead n"
    unfolding handle_rel_def using take(2) eq dead by metis
  ultimately show ?thesis using take(1) table_key_nonzero [OF b bits] by blast
qed

lemma handle_rel_full:
  assumes rel: "handle_rel bits m live dead n" and full: "card (dom live) = 2 ^ bits - 1"
  shows "handle_insert m p = Inl (Assert_hard ''table_full'')"
proof -
  obtain g own fs where ok: "table_ok bits m g own fs" and live: "live = live_map bits g own"
    using rel unfolding handle_rel_def by blast
  have "(0::nat) < 2 ^ bits" by simp
  then have "fs = []" using full live_map_dom(4,6) [OF ok] unfolding live length_0_conv [symmetric] by linarith
  then have "ht_free m = ht_data m" "ht_slots m \<noteq> []" using ok by (auto simp: table_ok_def table_owns_def handle_shape_def)
  then show ?thesis by (simp add: handle_insert_def)
qed

text \<open>Dropping the slots that a predicate chooses, as the loops do, and their handles.\<close>

definition erased_handles :: "(u64 \<Rightarrow> bool) \<Rightarrow> (hxhandle_t \<rightharpoonup> u64) \<Rightarrow> hxhandle_t set" where
  "erased_handles P live = {h. \<exists>p. live h = Some p \<and> P p}"

lemma dropped_live:
  assumes ok: "table_ok bits m g own fs" and ok': "table_ok bits m' (bump_chosen P 1 (2 ^ bits) own g) (drop_chosen P 1 (2 ^ bits) own) fs'"
  shows "live_map bits (bump_chosen P 1 (2 ^ bits) own g) (drop_chosen P 1 (2 ^ bits) own) = live_map bits g own |` (- erased_handles P (live_map bits g own))"
    (is "?new = ?old |` _")
proof (rule map_eqI)
  fix h q
  have ch: "chosen P own b \<longleftrightarrow> (\<exists>p. own b = Some p \<and> P p)" for b by (auto simp: chosen_def split: option.split)
  have same: "bump_chosen P 1 (2 ^ bits) own g b = g b" "drop_chosen P 1 (2 ^ bits) own b = own b" if "\<not> chosen P own b" for b
    using that by (simp_all add: bump_chosen_def drop_chosen_def)
  have gone: "drop_chosen P 1 (2 ^ bits) own b = None" if "chosen P own b" for b
    using that own_dom [OF ok, of b] by (auto simp: drop_chosen_def ch)
  have "?new h = Some q \<longleftrightarrow> (\<exists>b. own b = Some q \<and> \<not> chosen P own b \<and> h = table_key bits b (g b))"
    unfolding live_map_Some [OF ok'] using same gone by (metis option.distinct(1))
  also have "\<dots> \<longleftrightarrow> ?old h = Some q \<and> \<not> P q" unfolding live_map_Some [OF ok] ch by auto
  also have "\<dots> \<longleftrightarrow> (?old |` (- erased_handles P ?old)) h = Some q" by (auto simp: erased_handles_def restrict_map_def)
  finally show "?new h = Some q \<longleftrightarrow> (?old |` (- erased_handles P ?old)) h = Some q" .
qed

lemma erased_handles_eq:
  assumes ok: "table_ok bits m g own fs"
  shows "erased_handles P (live_map bits g own) = (\<lambda>b. table_key bits b (g b)) ` set (filter (chosen P own) [1..<2 ^ bits])"
  using own_dom [OF ok] by (fastforce simp: erased_handles_def live_map_Some [OF ok] chosen_def split: option.splits)

lemma erased_count:
  fixes P :: "u64 \<Rightarrow> bool"
  assumes ok: "table_ok bits m g own fs"
  defines "bs \<equiv> filter (chosen P own) [1..<2 ^ bits]"
  shows "card (erased_handles P (live_map bits g own)) = length bs"
    and "image_mset (the \<circ> live_map bits g own) (mset_set (erased_handles P (live_map bits g own))) = mset (map (the \<circ> own) bs)"
proof -
  let ?k = "\<lambda>b. table_key bits b (g b)"
  have sub: "set bs \<subseteq> dom own" by (auto simp: bs_def chosen_def split: option.splits)
  then have inj: "inj_on ?k (set bs)" using live_map_dom(2) [OF ok] by (rule inj_on_subset [rotated])
  have eq: "erased_handles P (live_map bits g own) = ?k ` set bs" unfolding bs_def by (rule erased_handles_eq [OF ok])
  have dist: "distinct bs" by (simp add: bs_def)
  show "card (erased_handles P (live_map bits g own)) = length bs" unfolding eq using card_image [OF inj] distinct_card [OF dist] by simp
  have "image_mset (the \<circ> live_map bits g own) (mset_set (?k ` set bs)) = image_mset (the \<circ> live_map bits g own) (image_mset ?k (mset bs))"
    using image_mset_mset_set [OF inj] mset_set_set [OF dist] by simp
  also have "\<dots> = image_mset (the \<circ> own) (mset bs)"
    unfolding multiset.map_comp
  proof (rule image_mset_cong)
    fix b assume "b \<in># mset bs"
    then have "b \<in> dom own" using sub by auto
    then obtain p where "own b = Some p" by blast
    then show "((the \<circ> live_map bits g own) \<circ> ?k) b = (the \<circ> own) b" using live_map_Some [OF ok, of "?k b" p] by auto
  qed
  finally show "image_mset (the \<circ> live_map bits g own) (mset_set (erased_handles P (live_map bits g own))) = mset (map (the \<circ> own) bs)"
    unfolding eq by simp
qed

lemma dropped_rel:
  assumes rel: "table_ok bits m g own fs" "\<forall>h\<in>dead. \<exists>b j. 1 \<le> b \<and> b < 2 ^ bits \<and> j < g b \<and> h = table_key bits b j" "\<forall>b. g b \<le> n"
    and ok': "table_ok bits m' (bump_chosen P 1 (2 ^ bits) own g) (drop_chosen P 1 (2 ^ bits) own) fs'"
  shows "handle_rel bits m' (live_map bits g own |` (- erased_handles P (live_map bits g own))) (dead \<union> erased_handles P (live_map bits g own)) (n + 1)"
proof -
  let ?g = "bump_chosen P 1 (2 ^ bits) own g"
  have ge: "g b \<le> ?g b" "?g b \<le> g b + 1" for b by (simp_all add: bump_chosen_def)
  have dead': "\<exists>b j. 1 \<le> b \<and> b < 2 ^ bits \<and> j < ?g b \<and> h = table_key bits b j" if h: "h \<in> dead \<union> erased_handles P (live_map bits g own)" for h
  proof (cases "h \<in> dead")
    case True
    then show ?thesis using rel(2) ge(1) by (meson less_le_trans)
  next
    case False
    then obtain b where "b \<in> set (filter (chosen P own) [1..<2 ^ bits])" "h = table_key bits b (g b)" using h erased_handles_eq [OF rel(1)] by auto
    then show ?thesis by (intro exI [of _ b] exI [of _ "g b"]) (simp add: bump_chosen_def)
  qed
  have "?g b \<le> n + 1" for b using ge(2) [of b] rel(3) by (meson add_le_mono1 le_trans)
  then show ?thesis
    unfolding handle_rel_def using ok' dropped_live [OF rel(1) ok'] dead'
    by (intro exI [of _ ?g] exI [of _ "drop_chosen P 1 (2 ^ bits) own"] exI [of _ fs']) simp
qed

lemma released_live:
  assumes ok: "table_ok bits m g own fs" and own: "own b = Some p" and ok': "table_ok bits m' (g(b := Suc (g b))) (own(b := None)) fs'"
  shows "live_map bits (g(b := Suc (g b))) (own(b := None)) = (live_map bits g own)(table_key bits b (g b) := None)"
proof (rule map_eqI)
  fix h q
  have b: "b < 2 ^ bits" and bits: "bits \<le> 30" using own_dom [OF ok own] ok by (simp_all add: table_ok_def handle_shape_def)
  have ki: "c = b" if "own c = Some r" "table_key bits b (g b) = table_key bits c (g c)" for c r
    using table_key_inj [OF that(2)] own_dom [OF ok that(1)] b bits by simp
  have "live_map bits (g(b := Suc (g b))) (own(b := None)) h = Some q \<longleftrightarrow> (\<exists>c. c \<noteq> b \<and> own c = Some q \<and> h = table_key bits c (g c))"
    unfolding live_map_Some [OF ok'] by (intro arg_cong [where f = Ex] ext) auto
  also have "\<dots> \<longleftrightarrow> h \<noteq> table_key bits b (g b) \<and> live_map bits g own h = Some q"
    unfolding live_map_Some [OF ok]
  proof (intro iffI conjI notI; elim exE conjE)
    fix c assume "c \<noteq> b" "own c = Some q" "h = table_key bits c (g c)" "h = table_key bits b (g b)"
    then show False using ki [of c q] by simp
  next
    fix c assume "c \<noteq> b" "own c = Some q" "h = table_key bits c (g c)"
    then show "\<exists>b. own b = Some q \<and> h = table_key bits b (g b)" by blast
  next
    fix c assume "h \<noteq> table_key bits b (g b)" "own c = Some q" "h = table_key bits c (g c)"
    then show "\<exists>c. c \<noteq> b \<and> own c = Some q \<and> h = table_key bits c (g c)" by (intro exI [of _ c]) auto
  qed
  finally show "live_map bits (g(b := Suc (g b))) (own(b := None)) h = Some q \<longleftrightarrow>
      ((live_map bits g own)(table_key bits b (g b) := None)) h = Some q" by simp
qed

lemma handle_rel_release:
  assumes rel: "handle_rel bits m live dead n" and h: "live h = Some p"
  shows "\<exists>m'. handle_extract m h = Inr (m', p) \<and> handle_reset d m h = Inr (m', True, if d then [p] else []) \<and>
    handle_rel bits m' (live(h := None)) (insert h dead) (n + 1)"
proof -
  obtain g own fs where ok: "table_ok bits m g own fs" and live: "live = live_map bits g own"
    and dead: "\<forall>h\<in>dead. \<exists>b j. 1 \<le> b \<and> b < 2 ^ bits \<and> j < g b \<and> h = table_key bits b j" and le: "\<forall>b. g b \<le> n"
    using rel unfolding handle_rel_def by blast
  obtain b where b: "own b = Some p" "h = table_key bits b (g b)" using h unfolding live live_map_Some [OF ok] by blast
  let ?g = "g(b := Suc (g b))"
  note ok' = table_free_slot [OF ok b(1)]
  have dead': "\<exists>c j. 1 \<le> c \<and> c < 2 ^ bits \<and> j < ?g c \<and> x = table_key bits c j" if x: "x \<in> insert h dead" for x
  proof (cases "x = h")
    case True
    then show ?thesis using own_dom [OF ok b(1)] b(2) by (intro exI [of _ b] exI [of _ "g b"]) simp
  next
    case False
    then obtain c j where "1 \<le> c" "c < 2 ^ bits" "j < g c" "x = table_key bits c j" using x dead by blast
    then show ?thesis by (intro exI [of _ c] exI [of _ j]) auto
  qed
  have le': "?g c \<le> n + 1" for c using le [rule_format, of c] le [rule_format, of b] by simp
  have "handle_rel bits (handle_free_slot m b (table_key bits b (g b) + word_of_nat (2 ^ bits))) (live(h := None)) (insert h dead) (n + 1)"
    unfolding handle_rel_def using ok' released_live [OF ok b(1) ok'] dead' le'
    by (intro exI [of _ ?g] exI [of _ "own(b := None)"] exI [of _ "b # fs"]) (simp add: live b(2))
  then show ?thesis using handle_live(2,3) [OF ok b(1)] unfolding b(2) by blast
qed

lemma handle_rel_erase_if:
  assumes rel: "handle_rel bits m live dead n"
  shows "\<exists>m' log. handle_erase_if P True m = Inr (m', int (card (erased_handles P live)), log) \<and>
    mset log = image_mset (the \<circ> live) (mset_set (erased_handles P live)) \<and>
    handle_rel bits m' (live |` (- erased_handles P live)) (dead \<union> erased_handles P live) (n + 1)"
proof -
  obtain g own fs where ok: "table_ok bits m g own fs" and live: "live = live_map bits g own"
    and dead: "\<forall>h\<in>dead. \<exists>b j. 1 \<le> b \<and> b < 2 ^ bits \<and> j < g b \<and> h = table_key bits b j" "\<forall>b. g b \<le> n"
    using rel unfolding handle_rel_def by blast
  have len: "length (ht_slots m) = 2 ^ bits" using ok by (simp add: table_ok_def handle_shape_def)
  have "(0::nat) < 2 ^ bits" by simp
  then have k: "1 + (2 ^ bits - 1) = (2 ^ bits :: nat)" by linarith
  have some: "ht_slots m \<noteq> []" using len by auto
  obtain m' fs' where loop: "handle_erase_loop P True (2 ^ bits - 1) 1 m =
      (m', length (filter (chosen P own) [1..<2 ^ bits]), map (the \<circ> own) (filter (chosen P own) [1..<2 ^ bits]))"
    and ok': "table_ok bits m' (bump_chosen P 1 (2 ^ bits) own g) (drop_chosen P 1 (2 ^ bits) own) fs'"
    using handle_erase_loop_ok [OF ok order_refl k, of P True] unfolding k by auto
  have "handle_erase_if P True m = Inr (m', int (card (erased_handles P live)), map (the \<circ> own) (filter (chosen P own) [1..<2 ^ bits]))"
    unfolding handle_erase_if_def len loop live erased_count(1) [OF ok] using some by simp
  then show ?thesis using erased_count(2) [OF ok, of P] dropped_rel [OF ok dead ok'] unfolding live by auto
qed

lemma handle_rel_clear:
  assumes rel: "handle_rel bits m live dead n"
  shows "mset (snd (handle_clear True m)) = image_mset (the \<circ> live) (mset_set (dom live))"
    and "handle_rel bits (fst (handle_clear d m)) Map.empty (dead \<union> dom live) (n + 1)"
proof -
  obtain g own fs where ok: "table_ok bits m g own fs" and live: "live = live_map bits g own"
    and dead: "\<forall>h\<in>dead. \<exists>b j. 1 \<le> b \<and> b < 2 ^ bits \<and> j < g b \<and> h = table_key bits b j" "\<forall>b. g b \<le> n"
    using rel unfolding handle_rel_def by blast
  have all: "erased_handles (\<lambda>_. True) live = dom live" by (auto simp: erased_handles_def)
  show "mset (snd (handle_clear True m)) = image_mset (the \<circ> live) (mset_set (dom live))"
    using handle_clear_ok(2) [OF ok, of True] erased_count(2) [OF ok, of "\<lambda>_. True", folded live] unfolding all by simp
  obtain g' fs' where ok': "table_ok bits (fst (handle_clear d m)) g' Map.empty fs'" and g': "\<forall>b. g' b = (if own b = None then g b else Suc (g b))"
    using handle_clear_ok(1) [OF ok, of d] by blast
  have "g' = bump_chosen (\<lambda>_. True) 1 (2 ^ bits) own g" "Map.empty = drop_chosen (\<lambda>_. True) 1 (2 ^ bits) own"
    using g' own_dom [OF ok] by (intro ext; auto simp: bump_chosen_def drop_chosen_def chosen_def split: option.split)+
  then have "table_ok bits (fst (handle_clear d m)) (bump_chosen (\<lambda>_. True) 1 (2 ^ bits) own g) (drop_chosen (\<lambda>_. True) 1 (2 ^ bits) own) fs'"
    using ok' by simp
  have none: "live |` (- dom live) = Map.empty" by (auto simp: restrict_map_def fun_eq_iff)
  from dropped_rel [OF ok dead \<open>table_ok bits (fst (handle_clear d m)) (bump_chosen (\<lambda>_. True) 1 (2 ^ bits) own g) (drop_chosen (\<lambda>_. True) 1 (2 ^ bits) own) fs'\<close>, folded live]
  show "handle_rel bits (fst (handle_clear d m)) Map.empty (dead \<union> dom live) (n + 1)" unfolding all none .
qed

lemma handle_rel_live_dead:
  assumes rel: "handle_rel bits m live dead n" and n: "n < 2 ^ (64 - bits)"
  shows "live h = Some p \<Longrightarrow> handle_value m h = Inr p \<and> p \<noteq> 0 \<and> h \<noteq> 0"
    and "h \<in> insert 0 dead \<Longrightarrow> live h = None \<and> handle_value m h = Inr 0 \<and> handle_extract m h = Inr (m, 0) \<and> handle_reset d m h = Inr (m, False, [])"
proof -
  obtain g own fs where ok: "table_ok bits m g own fs" and live: "live = live_map bits g own"
    and dead: "\<forall>h\<in>dead. \<exists>b j. 1 \<le> b \<and> b < 2 ^ bits \<and> j < g b \<and> h = table_key bits b j" and le: "\<forall>b. g b \<le> n"
    using rel unfolding handle_rel_def by blast
  have bits: "bits \<le> 30" using ok by (simp add: table_ok_def handle_shape_def)
  have lv: "handle_value m h = Inr p \<and> p \<noteq> 0 \<and> h \<noteq> 0" if h: "live h = Some p" for h p
  proof -
    obtain b where b: "own b = Some p" "h = table_key bits b (g b)" using h unfolding live live_map_Some [OF ok] by blast
    have "p \<noteq> 0" using ok b(1) by (auto simp: table_ok_def table_owns_def)
    moreover have "h \<noteq> 0" using table_key_nonzero [of b bits "g b"] own_dom [OF ok b(1)] bits b(2) by simp
    ultimately show ?thesis using handle_live(1) [OF ok b(1)] b(2) by simp
  qed
  show "live h = Some p \<Longrightarrow> handle_value m h = Inr p \<and> p \<noteq> 0 \<and> h \<noteq> 0" by (rule lv)
  assume h: "h \<in> insert 0 dead"
  have miss: "handle_value m h = Inr 0 \<and> handle_extract m h = Inr (m, 0) \<and> handle_reset d m h = Inr (m, False, [])"
  proof (cases "h = 0")
    case True
    then show ?thesis using handle_null [OF ok] by simp
  next
    case False
    then obtain b j where b: "1 \<le> b" "b < 2 ^ bits" "j < g b" "h = table_key bits b j" using h dead by blast
    have "g b < 2 ^ (64 - bits)" using le n by (meson le_less_trans)
    then show ?thesis using handle_dead [OF ok b(1-3)] b(4) by simp
  qed
  have "live h \<noteq> Some q" for q using lv [of h q] miss by auto
  then show "live h = None \<and> handle_value m h = Inr 0 \<and> handle_extract m h = Inr (m, 0) \<and> handle_reset d m h = Inr (m, False, [])"
    using miss by auto
qed

section \<open>Properties\<close>

text \<open>C28: handles of a handle table resolve. While no slot was released \<open>2 ^ (64 - bits)\<close> times: the handle of a stored pointer gives the
  pointer and is not null, and the null handle and every handle that was released, whatever took its slot since, gives a null
  pointer and is refused by \<open>extract\<close> and \<open>reset\<close>.\<close>

theorem handle_table_handles_resolve:
  assumes "handle_rel bits m live dead n" and "n < 2 ^ (64 - bits)"
  shows "(\<forall>h p. live h = Some p \<longrightarrow> handle_value m h = Inr p \<and> p \<noteq> 0 \<and> h \<noteq> 0) \<and>
    (\<forall>h\<in>insert 0 dead. live h = None \<and> handle_value m h = Inr 0 \<and> handle_extract m h = Inr (m, 0) \<and> handle_reset d m h = Inr (m, False, []))"
  using handle_rel_live_dead [OF assms] by blast

theorem handle_table_handles_resolve_witness:
  "handle_value (hxhandle_table_new \<lparr>hs_key = 0, hs_ptr = 0\<rparr> 2 4096) 0 = Inr 0"
proof -
  have "handle_rel 2 (hxhandle_table_new \<lparr>hs_key = 0, hs_ptr = 0\<rparr> 2 4096) Map.empty {} 0" by (rule handle_new_rel) simp_all
  then show ?thesis using handle_table_handles_resolve [of 2 "hxhandle_table_new \<lparr>hs_key = 0, hs_ptr = 0\<rparr> 2 4096" Map.empty "{}" 0] by simp
qed

text \<open>C14: the operations of a handle table are those of a finite map from handles to pointers: \<open>insert\<close> of a pointer outside the table
  adds it under a handle not in use while there is room and stops when full, \<open>extract\<close> and \<open>reset\<close> remove what a handle names,
  \<open>erase_if\<close> removes the pointers it is asked to, deletes each once and counts them, and \<open>clear\<close> removes and deletes all.\<close>

theorem handle_table_refines_map:
  assumes "handle_rel bits m live dead n"
  shows "handle_size m = int (card (dom live)) \<and>
    (p \<noteq> 0 \<longrightarrow> handle_owned m p \<longrightarrow> card (dom live) < 2 ^ bits - 1 \<longrightarrow>
      (\<exists>m' h. handle_insert m p = Inr (m', h) \<and> h \<noteq> 0 \<and> h \<notin> dom live \<and> handle_rel bits m' (live(h \<mapsto> p)) dead n)) \<and>
    (card (dom live) = 2 ^ bits - 1 \<longrightarrow> handle_insert m p = Inl (Assert_hard ''table_full'')) \<and>
    (\<forall>h q. live h = Some q \<longrightarrow> (\<exists>m'. handle_extract m h = Inr (m', q) \<and> handle_reset True m h = Inr (m', True, [q]) \<and>
      handle_rel bits m' (live(h := None)) (insert h dead) (n + 1))) \<and>
    (\<exists>m' log. handle_erase_if P True m = Inr (m', int (card (erased_handles P live)), log) \<and>
      mset log = image_mset (the \<circ> live) (mset_set (erased_handles P live)) \<and>
      handle_rel bits m' (live |` (- erased_handles P live)) (dead \<union> erased_handles P live) (n + 1)) \<and>
    mset (snd (handle_clear True m)) = image_mset (the \<circ> live) (mset_set (dom live)) \<and>
    handle_rel bits (fst (handle_clear True m)) Map.empty (dead \<union> dom live) (n + 1)"
proof (intro conjI)
  show "handle_size m = int (card (dom live))" using assms live_map_dom(4,5) unfolding handle_rel_def by metis
  show "p \<noteq> 0 \<longrightarrow> handle_owned m p \<longrightarrow> card (dom live) < 2 ^ bits - 1 \<longrightarrow>
      (\<exists>m' h. handle_insert m p = Inr (m', h) \<and> h \<noteq> 0 \<and> h \<notin> dom live \<and> handle_rel bits m' (live(h \<mapsto> p)) dead n)"
    using handle_rel_insert [OF assms] by blast
  show "card (dom live) = 2 ^ bits - 1 \<longrightarrow> handle_insert m p = Inl (Assert_hard ''table_full'')" using handle_rel_full [OF assms] by blast
  show "\<forall>h q. live h = Some q \<longrightarrow> (\<exists>m'. handle_extract m h = Inr (m', q) \<and> handle_reset True m h = Inr (m', True, [q]) \<and>
      handle_rel bits m' (live(h := None)) (insert h dead) (n + 1))"
  proof (intro allI impI)
    fix h q assume "live h = Some q"
    from handle_rel_release [OF assms this, of True]
    show "\<exists>m'. handle_extract m h = Inr (m', q) \<and> handle_reset True m h = Inr (m', True, [q]) \<and>
        handle_rel bits m' (live(h := None)) (insert h dead) (n + 1)" by simp
  qed
qed (rule handle_rel_erase_if [OF assms] handle_rel_clear [OF assms])+

theorem handle_table_refines_map_witness:
  "\<exists>m h. handle_insert (hxhandle_table_new \<lparr>hs_key = 0, hs_ptr = 0\<rparr> 2 4096) 8192 = Inr (m, h) \<and> h \<noteq> 0"
proof -
  let ?m = "hxhandle_table_new \<lparr>hs_key = 0, hs_ptr = 0\<rparr> 2 4096"
  have "handle_rel 2 ?m Map.empty {} 0" by (rule handle_new_rel) simp_all
  moreover have "handle_owned ?m 8192" by (simp add: handle_owned_def hxhandle_table_new_def handle_build_def)
  ultimately show ?thesis using handle_table_refines_map [of 2 ?m Map.empty "{}" 0 8192 "\<lambda>_. True"] by fastforce
qed

text \<open>On a dynamic table that was never sized every other operation is caught or does nothing, but the loop of \<open>erase_if\<close> walks off null.\<close>

lemma handle_erase_if_unsized:
  "handle_erase_if P d (hxhandle_table_new raw 0 data) = Inl (Undefined_behavior ''walks off null'')"
  "handle_clear d (hxhandle_table_new raw 0 data) = (hxhandle_table_new raw 0 data, [])"
  "handle_insert (hxhandle_table_new raw 0 data) p = Inl (Assert_debug ''no_table'')"
  by (simp_all add: handle_erase_if_def handle_clear_def handle_insert_def hxhandle_table_new_def)

text \<open>A handle that was never given out may resolve: the one that the next \<open>insert\<close> returns gives a link of the free list.\<close>

lemma handle_unissued_resolves:
  "handle_value (hxhandle_table_new \<lparr>hs_key = 0, hs_ptr = 0\<rparr> 2 4096) 1 = Inr 4128"
  by (simp add: handle_value_def hxhandle_table_new_def handle_build_def built_handle_slot_def handle_addr_def slot_of_def Let_def upt_rec)

end
