(* ===== verification/HxFreeList.thy ===== *)
theory HxFreeList
  imports HxPrelude
begin

text \<open>
  The pool of \<^verbatim>\<open>include/hx/hxfree_list.hpp\<close> and \<^verbatim>\<open>detail/hxfree_list.inl\<close>: a singly linked free list threaded
  through the slots of a storage of \<open>capacity\<close> objects. A slot is a union of a link and an object, found by its address; the
  size of an object is a parameter, because the storage is sized by the object and walked by the slot. Ownership by
  \<open>hxptr\<close> is the returned address.
\<close>

section \<open>State\<close>

datatype 'a free_slot = Slot_next u64 | Slot_value 'a | Slot_raw

record 'a hxfree_list =
  fl_data :: u64
  fl_capacity :: hxsize_t
  fl_head :: u64
  fl_size :: hxsize_t
  fl_slots :: "u64 \<Rightarrow> 'a free_slot"

text \<open>\<open>sizeof(slot_)\<close>: a union with a pointer, whose alignment is at least that of a pointer.\<close>

definition free_slot_size :: "nat \<Rightarrow> nat" where
  "free_slot_size t = 8 * ((max 8 t + 7) div 8)"

text \<open>A write of some bytes must stay inside the storage.\<close>

definition write_free_slot :: "nat \<Rightarrow> 'a hxfree_list \<Rightarrow> u64 \<Rightarrow> nat \<Rightarrow> 'a free_slot \<Rightarrow> 'a hxfree_list hx" where
  "write_free_slot t s p bytes x =
     (if unat (fl_data s) \<le> unat p \<and> unat p + bytes \<le> unat (fl_data s) + nat (fl_capacity s) * t
      then Inr (s\<lparr>fl_slots := (fl_slots s)(p := x)\<rparr>) else Inl (Undefined_behavior ''out of bounds''))"

fun enqueue_loop :: "nat \<Rightarrow> nat \<Rightarrow> u64 \<Rightarrow> 'a hxfree_list \<Rightarrow> ('a hxfree_list \<times> u64) hx" where
  "enqueue_loop t 0 head s = Inr (s, head)"
| "enqueue_loop t (Suc k) head s =
     (let it = fl_data s + word_of_nat (k * free_slot_size t)
      in hx_bind (write_free_slot t s it 8 (Slot_next head)) (enqueue_loop t k it))"

definition enqueue_all :: "nat \<Rightarrow> hxsize_t \<Rightarrow> 'a hxfree_list \<Rightarrow> 'a hxfree_list hx" where
  "enqueue_all t n s = hx_map (\<lambda>(s, head). s\<lparr>fl_head := head, fl_size := n\<rparr>) (enqueue_loop t (nat n) 0 s)"

section \<open>Operations\<close>

text \<open>A fixed capacity has its storage inside the object, at \<open>data\<close>; the dynamic capacity 0 starts without storage.\<close>

definition hxfree_list_new :: "nat \<Rightarrow> hxsize_t \<Rightarrow> u64 \<Rightarrow> 'a hxfree_list hx" where
  "hxfree_list_new t cap data =
     (if cap > 0
      then enqueue_all t cap \<lparr>fl_data = data, fl_capacity = cap, fl_head = 0, fl_size = 0, fl_slots = (\<lambda>_. Slot_raw)\<rparr>
      else Inr \<lparr>fl_data = 0, fl_capacity = 0, fl_head = 0, fl_size = 0, fl_slots = (\<lambda>_. Slot_raw)\<rparr>)"

text \<open>\<open>reserve_storage\<close> of an allocator without storage; the allocated block is \<open>data\<close>.\<close>

definition free_list_reserve :: "nat \<Rightarrow> 'a hxfree_list \<Rightarrow> hxsize_t \<Rightarrow> u64 \<Rightarrow> 'a hxfree_list hx" where
  "free_list_reserve t s n data =
     (if fl_capacity s \<noteq> 0 then Inl (Assert_hard ''bad_reserve already sized'')
      else if n < 0 then Inl (Assert_always ''hxmalloc_ext'')
      else if n = 0 then Inr (s\<lparr>fl_head := 0, fl_size := n\<rparr>)
      else enqueue_all t n (s\<lparr>fl_data := data, fl_capacity := n, fl_slots := (\<lambda>_. Slot_raw)\<rparr>))"

definition free_list_empty :: "'a hxfree_list \<Rightarrow> bool" where
  "free_list_empty s = (fl_head s = 0)"

definition take_slot :: "nat \<Rightarrow> 'a hxfree_list \<Rightarrow> 'a \<Rightarrow> ('a hxfree_list \<times> u64) hx" where
  "take_slot t s v =
     (case fl_slots s (fl_head s) of
        Slot_next nxt \<Rightarrow> hx_map (\<lambda>s1. (s1, fl_head s)) (write_free_slot t (s\<lparr>fl_head := nxt, fl_size := fl_size s - 1\<rparr>) (fl_head s) t (Slot_value v))
      | _ \<Rightarrow> Inl (Undefined_behavior ''not a link''))"

definition free_list_allocate :: "nat \<Rightarrow> 'a hxfree_list \<Rightarrow> 'a \<Rightarrow> ('a hxfree_list \<times> u64) hx" where
  "free_list_allocate t s v = (if fl_head s = 0 then Inl (Assert_hard ''hxfree_list empty'') else take_slot t s v)"

definition free_list_try_allocate :: "nat \<Rightarrow> 'a hxfree_list \<Rightarrow> 'a \<Rightarrow> ('a hxfree_list \<times> u64) hx" where
  "free_list_try_allocate t s v = (if fl_head s = 0 then Inr (s, 0) else take_slot t s v)"

definition is_allocator :: "nat \<Rightarrow> 'a hxfree_list \<Rightarrow> u64 \<Rightarrow> bool" where
  "is_allocator t s p = (p - fl_data s < word_of_int (fl_capacity s) * word_of_nat t)"

text \<open>The destructor runs on a live object; debug builds then overwrite the whole slot.\<close>

definition free_list_release :: "nat \<Rightarrow> 'a hxfree_list \<Rightarrow> u64 \<Rightarrow> 'a hxfree_list hx" where
  "free_list_release t s p =
     (if \<not> is_allocator t s p then Inl (Assert_debug ''bad_ptr'')
      else case fl_slots s p of
        Slot_value v \<Rightarrow> hx_bind (write_free_slot t s p (free_slot_size t) Slot_raw) (\<lambda>s1.
          hx_map (\<lambda>s2. s2\<lparr>fl_head := p, fl_size := fl_size s + 1\<rparr>) (write_free_slot t s1 p 8 (Slot_next (fl_head s))))
      | _ \<Rightarrow> Inl (Undefined_behavior ''no object''))"

definition free_list_deleter :: "nat \<Rightarrow> 'a hxfree_list \<Rightarrow> u64 \<Rightarrow> 'a hxfree_list hx" where
  "free_list_deleter t s p = (if p \<noteq> 0 then free_list_release t s p else Inr s)"

text \<open>The move constructor copies the members and clears the source.\<close>

definition free_list_move :: "'a hxfree_list \<Rightarrow> 'a hxfree_list \<times> 'a hxfree_list" where
  "free_list_move x = (x, \<lparr>fl_data = 0, fl_capacity = 0, fl_head = 0, fl_size = 0, fl_slots = (\<lambda>_. Slot_raw)\<rparr>)"

definition free_list_destroy :: "'a hxfree_list \<Rightarrow> unit hx" where
  "free_list_destroy s =
     (if fl_size s \<noteq> fl_capacity s then Inl (Assert_debug ''hxfree_list destroyed with unreleased slots'') else Inr ())"

section \<open>The pool it implements\<close>

text \<open>The abstract pool keeps its free slots as a stack and its objects as a map from the slots in use.\<close>

record 'a pool =
  pool_free :: "u64 list"
  pool_live :: "u64 \<rightharpoonup> 'a"

datatype 'a pool_op = Pool_allocate 'a | Pool_try_allocate 'a | Pool_release u64 | Pool_delete u64

definition pool_slots :: "nat \<Rightarrow> u64 \<Rightarrow> nat \<Rightarrow> u64 list" where
  "pool_slots t base n = map (\<lambda>i. base + word_of_nat (i * t)) [0..<n]"

definition pool_take :: "'a pool \<Rightarrow> 'a \<Rightarrow> 'a pool \<times> u64" where
  "pool_take a v = (let p = hd (pool_free a) in (\<lparr>pool_free = tl (pool_free a), pool_live = (pool_live a)(p \<mapsto> v)\<rparr>, p))"

definition pool_put :: "nat \<Rightarrow> u64 \<Rightarrow> nat \<Rightarrow> 'a pool \<Rightarrow> u64 \<Rightarrow> 'a pool hx" where
  "pool_put t base n a p =
     (if unat p < unat base \<or> unat base + n * t \<le> unat p then Inl (Assert_debug ''bad_ptr'')
      else if pool_live a p = None then Inl (Undefined_behavior ''no object'')
      else Inr \<lparr>pool_free = p # pool_free a, pool_live = (pool_live a)(p := None)\<rparr>)"

fun pool_step :: "nat \<Rightarrow> u64 \<Rightarrow> nat \<Rightarrow> 'a pool \<Rightarrow> 'a pool_op \<Rightarrow> ('a pool \<times> u64) hx" where
  "pool_step t base n a (Pool_allocate v) =
     (if pool_free a = [] then Inl (Assert_hard ''hxfree_list empty'') else Inr (pool_take a v))"
| "pool_step t base n a (Pool_try_allocate v) = (if pool_free a = [] then Inr (a, 0) else Inr (pool_take a v))"
| "pool_step t base n a (Pool_release p) = hx_map (\<lambda>a. (a, 0)) (pool_put t base n a p)"
| "pool_step t base n a (Pool_delete p) = (if p = 0 then Inr (a, 0) else hx_map (\<lambda>a. (a, 0)) (pool_put t base n a p))"

fun free_list_step :: "nat \<Rightarrow> 'a hxfree_list \<Rightarrow> 'a pool_op \<Rightarrow> ('a hxfree_list \<times> u64) hx" where
  "free_list_step t s (Pool_allocate v) = free_list_allocate t s v"
| "free_list_step t s (Pool_try_allocate v) = free_list_try_allocate t s v"
| "free_list_step t s (Pool_release p) = hx_map (\<lambda>s. (s, 0)) (free_list_release t s p)"
| "free_list_step t s (Pool_delete p) = hx_map (\<lambda>s. (s, 0)) (free_list_deleter t s p)"

fun free_chain :: "(u64 \<Rightarrow> 'a free_slot) \<Rightarrow> u64 \<Rightarrow> u64 list \<Rightarrow> bool" where
  "free_chain m h [] = (h = 0)"
| "free_chain m h (p # ps) = (h = p \<and> p \<noteq> 0 \<and> (case m p of Slot_next nxt \<Rightarrow> free_chain m nxt ps | _ \<Rightarrow> False))"

text \<open>Objects whose size is a multiple of a link, in a storage that is not at null and does not wrap around.\<close>

definition pool_storage :: "nat \<Rightarrow> u64 \<Rightarrow> nat \<Rightarrow> bool" where
  "pool_storage t base n \<longleftrightarrow> 8 dvd t \<and> 0 < t \<and> 0 < n \<and> base \<noteq> 0 \<and> unat base + n * t < 2 ^ 64"

definition pool_wf :: "nat \<Rightarrow> u64 \<Rightarrow> nat \<Rightarrow> 'a pool \<Rightarrow> bool" where
  "pool_wf t base n a \<longleftrightarrow> distinct (pool_free a) \<and> set (pool_free a) \<inter> dom (pool_live a) = {} \<and>
     set (pool_free a) \<union> dom (pool_live a) = set (pool_slots t base n)"

definition pool_rel :: "nat \<Rightarrow> u64 \<Rightarrow> nat \<Rightarrow> 'a hxfree_list \<Rightarrow> 'a pool \<Rightarrow> bool" where
  "pool_rel t base n s a \<longleftrightarrow> fl_data s = base \<and> fl_capacity s = int n \<and> pool_wf t base n a \<and>
     free_chain (fl_slots s) (fl_head s) (pool_free a) \<and> fl_size s = int (length (pool_free a)) \<and>
     (\<forall>p v. fl_slots s p = Slot_value v \<longleftrightarrow> pool_live a p = Some v)"

section \<open>Slots and addresses\<close>

lemma slot_size_aligned: "8 dvd t \<Longrightarrow> 0 < t \<Longrightarrow> free_slot_size t = t"
  by (auto simp: free_slot_size_def elim!: dvdE)

lemma unat_slot:
  assumes "pool_storage t base n" and "i < n"
  shows "unat (base + word_of_nat (i * t)) = unat base + i * t" and "unat base + i * t + t \<le> unat base + n * t"
proof -
  have "Suc i * t \<le> n * t" using assms(2) by (intro mult_right_mono) simp_all
  then have le: "i * t + t \<le> n * t" by simp
  then show "unat base + i * t + t \<le> unat base + n * t" by simp
  have "unat base + i * t < 2 ^ 64" using assms(1) le by (simp add: pool_storage_def)
  then have it: "unat (word_of_nat (i * t) :: u64) = i * t" and sum: "unat base + i * t < 2 ^ LENGTH(64)"
    using unat_of_nat_small [where 'a = 64 and n = "i * t"] by simp_all
  show "unat (base + word_of_nat (i * t)) = unat base + i * t"
    unfolding unat_add_wrap it using sum by (rule mod_less)
qed

lemma pool_slotE:
  assumes "pool_storage t base n" and "p \<in> set (pool_slots t base n)"
  obtains i where "i < n" and "p = base + word_of_nat (i * t)" and "unat p = unat base + i * t"
  using assms unat_slot(1) [OF assms(1)] by (auto simp: pool_slots_def)

lemma pool_slot_bounds:
  assumes st: "pool_storage t base n" and "p \<in> set (pool_slots t base n)"
  shows "unat base \<le> unat p" and "unat p + t \<le> unat base + n * t" and "p \<noteq> 0" and "8 \<le> t"
proof -
  obtain i where i: "i < n" and p: "unat p = unat base + i * t" using assms by (rule pool_slotE)
  show "unat base \<le> unat p" using p by simp
  show "unat p + t \<le> unat base + n * t" using unat_slot(2) [OF st i] p by simp
  have "0 < unat base" using st by (auto simp: pool_storage_def unat_gt_0)
  then show "p \<noteq> 0" using p by auto
  show "8 \<le> t" using st by (auto simp: pool_storage_def intro: dvd_imp_le)
qed

lemma distinct_pool_slots:
  assumes "pool_storage t base n"
  shows "distinct (pool_slots t base n)"
proof -
  have "0 < t" using assms by (simp add: pool_storage_def)
  then have "inj_on (\<lambda>i. base + word_of_nat (i * t)) (set [0..<n])"
    by (intro inj_onI) (metis unat_slot(1) [OF assms] add_left_cancel atLeastLessThan_iff mult_right_cancel not_gr_zero set_upt)
  then show ?thesis by (simp add: pool_slots_def distinct_map)
qed

lemma is_allocator_iff:
  assumes "pool_storage t (fl_data s) n" and "fl_capacity s = int n"
  shows "is_allocator t s p \<longleftrightarrow> unat (fl_data s) \<le> unat p \<and> unat p < unat (fl_data s) + n * t"
proof -
  have nt: "unat (word_of_int (fl_capacity s) * word_of_nat t :: u64) = n * t"
  proof -
    have w: "word_of_int (fl_capacity s) * word_of_nat t = (word_of_nat (n * t) :: u64)" using assms(2) by simp
    have "n * t < 2 ^ LENGTH(64)" using assms(1) by (simp add: pool_storage_def)
    then show ?thesis unfolding w by (rule unat_of_nat_small)
  qed
  have eq: "is_allocator t s p \<longleftrightarrow> unat (p - fl_data s) < n * t"
    by (simp only: is_allocator_def word_less_nat_alt nt)
  show ?thesis
  proof (cases "fl_data s \<le> p")
    case True
    then have "unat (p - fl_data s) = unat p - unat (fl_data s)" by (simp add: unat_sub)
    then show ?thesis using True unfolding eq by (auto simp: word_le_nat_alt)
  next
    case False
    then have lt: "unat p < unat (fl_data s)" by (simp add: word_le_nat_alt)
    have "unat (p - fl_data s) = 2 ^ 64 + unat p - unat (fl_data s)"
      using lt by (simp add: unat_sub_if_size word_size)
    then have "n * t \<le> unat (p - fl_data s)" using assms(1) unfolding pool_storage_def by linarith
    then show ?thesis using lt unfolding eq by simp
  qed
qed

lemma write_free_slot_ok:
  "pool_storage t (fl_data s) n \<Longrightarrow> fl_capacity s = int n \<Longrightarrow> p \<in> set (pool_slots t (fl_data s) n) \<Longrightarrow> k \<le> t \<Longrightarrow>
    write_free_slot t s p k x = Inr (s\<lparr>fl_slots := (fl_slots s)(p := x)\<rparr>)"
  using pool_slot_bounds [of t "fl_data s" n p] by (simp add: write_free_slot_def)

lemma free_chain_upd: "p \<notin> set fs \<Longrightarrow> free_chain (m(p := x)) h fs = free_chain m h fs"
  by (induction m h fs rule: free_chain.induct) (auto split: free_slot.splits)

lemma free_chain_head: "free_chain m h fs \<Longrightarrow> h = 0 \<longleftrightarrow> fs = []"
  by (cases fs) auto

section \<open>Construction\<close>

lemma enqueue_loop_chain:
  assumes st: "pool_storage t base n"
  shows "k \<le> n \<Longrightarrow> fl_data s = base \<Longrightarrow> fl_capacity s = int n \<Longrightarrow> free_chain (fl_slots s) head fs \<Longrightarrow>
      set fs \<inter> set (pool_slots t base k) = {} \<Longrightarrow> (\<forall>p v. fl_slots s p \<noteq> Slot_value v) \<Longrightarrow>
      \<exists>m h. enqueue_loop t k head s = Inr (s\<lparr>fl_slots := m\<rparr>, h) \<and> free_chain m h (pool_slots t base k @ fs) \<and>
        (\<forall>p v. m p \<noteq> Slot_value v)"
proof (induction k arbitrary: head s fs)
  case 0
  then show ?case by (auto simp: pool_slots_def intro!: exI [of _ "fl_slots s"])
next
  case (Suc k)
  define p where "p = base + word_of_nat (k * t)"
  have sz: "free_slot_size t = t" using st by (simp add: pool_storage_def slot_size_aligned)
  have pin: "p \<in> set (pool_slots t base n)" using Suc.prems(1) by (auto simp: pool_slots_def p_def)
  have split: "pool_slots t base (Suc k) = pool_slots t base k @ [p]" by (simp add: pool_slots_def p_def)
  have stk: "pool_storage t base n" "distinct (pool_slots t base (Suc k))"
  proof -
    have "unat base + Suc k * t < 2 ^ 64"
      using st Suc.prems(1) mult_le_mono1 [of "Suc k" n t] unfolding pool_storage_def by linarith
    then show "distinct (pool_slots t base (Suc k))" using st by (intro distinct_pool_slots) (simp add: pool_storage_def)
  qed (rule st)
  have w: "write_free_slot t s p 8 (Slot_next head) = Inr (s\<lparr>fl_slots := (fl_slots s)(p := Slot_next head)\<rparr>)"
    using write_free_slot_ok [of t s n p 8] st pin Suc.prems(2,3) pool_slot_bounds(4) [OF st pin] by simp
  define s1 where "s1 = s\<lparr>fl_slots := (fl_slots s)(p := Slot_next head)\<rparr>"
  have "p \<notin> set fs" using Suc.prems(5) split by auto
  then have chain: "free_chain (fl_slots s1) p (p # fs)"
    using Suc.prems(4) pool_slot_bounds(3) [OF st pin] by (simp add: s1_def free_chain_upd)
  have "set (p # fs) \<inter> set (pool_slots t base k) = {}" using Suc.prems(5) stk(2) split by auto
  moreover have "\<forall>q v. fl_slots s1 q \<noteq> Slot_value v" using Suc.prems(6) by (simp add: s1_def)
  ultimately obtain m h where "enqueue_loop t k p s1 = Inr (s1\<lparr>fl_slots := m\<rparr>, h)"
    and "free_chain m h (pool_slots t base k @ p # fs)" and "\<forall>p v. m p \<noteq> Slot_value v"
    using Suc.IH [of s1 p "p # fs"] chain Suc.prems(1,2,3) s1_def Suc_leD by (metis (no_types, lifting) hxfree_list.select_convs(1,2) hxfree_list.surjective hxfree_list.update_convs(5))
  moreover have "enqueue_loop t (Suc k) head s = enqueue_loop t k p s1"
    unfolding enqueue_loop.simps sz Suc.prems(2) p_def [symmetric] Let_def w by (simp add: s1_def)
  ultimately show ?case by (intro exI [of _ m] exI [of _ h]) (simp add: s1_def split)
qed

lemma hxfree_list_new_rel:
  assumes st: "pool_storage t base n"
  shows "\<exists>s. hxfree_list_new t (int n) base = Inr (s :: 'a hxfree_list) \<and>
      pool_rel t base n s \<lparr>pool_free = pool_slots t base n, pool_live = Map.empty\<rparr>"
proof -
  define s0 :: "'a hxfree_list" where
    "s0 = \<lparr>fl_data = base, fl_capacity = int n, fl_head = 0, fl_size = 0, fl_slots = (\<lambda>_. Slot_raw)\<rparr>"
  obtain m h where loop: "enqueue_loop t n 0 s0 = Inr (s0\<lparr>fl_slots := m\<rparr>, h)" and chain: "free_chain m h (pool_slots t base n)"
    and nov: "\<forall>p v. m p \<noteq> Slot_value v"
    using enqueue_loop_chain [OF st order_refl, of s0 0 "[]"] by (auto simp: s0_def)
  have "0 < n" using st by (simp add: pool_storage_def)
  then have "hxfree_list_new t (int n) base = Inr (s0\<lparr>fl_slots := m, fl_head := h, fl_size := int n\<rparr>)"
    using loop by (simp add: hxfree_list_new_def enqueue_all_def s0_def)
  moreover have "pool_rel t base n (s0\<lparr>fl_slots := m, fl_head := h, fl_size := int n\<rparr>)
      \<lparr>pool_free = pool_slots t base n, pool_live = Map.empty\<rparr>"
    using chain nov distinct_pool_slots [OF st]
    by (simp add: pool_rel_def pool_wf_def s0_def) (simp add: pool_slots_def)
  ultimately show ?thesis by blast
qed

lemma free_list_reserve_new:
  "0 < n \<Longrightarrow> free_list_reserve t \<lparr>fl_data = 0, fl_capacity = 0, fl_head = 0, fl_size = 0, fl_slots = (\<lambda>_. Slot_raw)\<rparr> n data =
    hxfree_list_new t n data"
  by (simp add: free_list_reserve_def hxfree_list_new_def)

section \<open>The operations\<close>

lemma pool_wf_take:
  assumes "pool_wf t base n a" and "pool_free a = p # ps"
  shows "pool_wf t base n (fst (pool_take a v))"
  using assms by (auto simp: pool_wf_def pool_take_def)

lemma pool_wf_put: "pool_wf t base n a \<Longrightarrow> pool_put t base n a p = Inr b \<Longrightarrow> pool_wf t base n b"
  by (auto simp: pool_wf_def pool_put_def split: if_splits)

lemma take_slot_rel:
  assumes st: "pool_storage t base n" and rel: "pool_rel t base n s a" and some: "pool_free a \<noteq> []"
  shows "\<exists>s1. take_slot t s v = Inr (s1, snd (pool_take a v)) \<and> pool_rel t base n s1 (fst (pool_take a v))"
proof -
  obtain p ps where free: "pool_free a = p # ps" using some by (cases "pool_free a") auto
  have wf: "pool_wf t base n a" and chain: "free_chain (fl_slots s) (fl_head s) (p # ps)" and sz: "fl_size s = int (Suc (length ps))"
    and vals: "\<forall>q v. fl_slots s q = Slot_value v \<longleftrightarrow> pool_live a q = Some v" and data: "fl_data s = base" "fl_capacity s = int n"
    using rel free by (simp_all add: pool_rel_def)
  obtain nxt where nxt: "fl_slots s p = Slot_next nxt" "free_chain (fl_slots s) nxt ps" and head: "fl_head s = p"
    using chain by (auto split: free_slot.splits)
  have p: "p \<in> set (pool_slots t base n)" "p \<notin> set ps" using wf free by (auto simp: pool_wf_def)
  define s1 where "s1 = s\<lparr>fl_head := nxt, fl_size := fl_size s - 1, fl_slots := (fl_slots s)(p := Slot_value v)\<rparr>"
  have "take_slot t s v = Inr (s1, p)"
    using st p data by (simp add: take_slot_def head nxt write_free_slot_ok [where n = n] s1_def)
  moreover have "pool_rel t base n s1 (fst (pool_take a v))"
    using pool_wf_take [OF wf free, of v] nxt(2) p(2) sz vals data
    by (auto simp: pool_rel_def s1_def pool_take_def free free_chain_upd)
  ultimately show ?thesis by (auto simp: pool_take_def free)
qed

lemma release_rel:
  assumes st: "pool_storage t base n" and rel: "pool_rel t base n s a"
  shows "rel_sum (=) (pool_rel t base n) (free_list_release t s p) (pool_put t base n a p)"
proof -
  have wf: "pool_wf t base n a" and chain: "free_chain (fl_slots s) (fl_head s) (pool_free a)" and sz: "fl_size s = int (length (pool_free a))"
    and vals: "\<forall>q v. fl_slots s q = Slot_value v \<longleftrightarrow> pool_live a q = Some v" and data: "fl_data s = base" "fl_capacity s = int n"
    using rel by (simp_all add: pool_rel_def)
  have alloc: "is_allocator t s p \<longleftrightarrow> unat base \<le> unat p \<and> unat p < unat base + n * t"
    using is_allocator_iff [of t s n p] st data by simp
  show ?thesis
  proof (cases "pool_live a p")
    case None
    then have "fl_slots s p \<noteq> Slot_value v" for v using vals by simp
    then show ?thesis using None alloc by (auto simp: free_list_release_def pool_put_def split: free_slot.split)
  next
    case (Some v)
    then have p: "p \<in> set (pool_slots t base n)" "p \<notin> set (pool_free a)" using wf by (auto simp: pool_wf_def)
    note bounds = pool_slot_bounds [OF st p(1)]
    have inside: "is_allocator t s p" "unat base \<le> unat p" "unat p < unat base + n * t" using alloc bounds(1,2,4) by auto
    define s1 where "s1 = s\<lparr>fl_slots := (fl_slots s)(p := Slot_next (fl_head s)), fl_head := p, fl_size := fl_size s + 1\<rparr>"
    have put: "pool_put t base n a p = Inr \<lparr>pool_free = p # pool_free a, pool_live = (pool_live a)(p := None)\<rparr>"
      using inside Some by (simp add: pool_put_def)
    have sz_t: "free_slot_size t = t" using st by (simp add: pool_storage_def slot_size_aligned)
    have "fl_slots s p = Slot_value v" using vals Some by simp
    then have "free_list_release t s p = Inr s1"
      using inside st p data bounds(4) by (simp add: free_list_release_def write_free_slot_ok [where n = n] s1_def sz_t)
    moreover have "pool_rel t base n s1 \<lparr>pool_free = p # pool_free a, pool_live = (pool_live a)(p := None)\<rparr>"
      using pool_wf_put [OF wf put] chain p(2) sz vals data bounds(3) by (auto simp: pool_rel_def s1_def free_chain_upd)
    ultimately show ?thesis by (simp add: put)
  qed
qed

lemma free_list_step_rel:
  assumes st: "pool_storage t base n" and rel: "pool_rel t base n s a"
  shows "rel_sum (=) (rel_prod (pool_rel t base n) (=)) (free_list_step t s x) (pool_step t base n a x)"
proof -
  have none: "fl_head s = 0 \<longleftrightarrow> pool_free a = []" using rel free_chain_head by (auto simp: pool_rel_def)
  have take: "pool_free a \<noteq> [] \<Longrightarrow> rel_sum (=) (rel_prod (pool_rel t base n) (=)) (take_slot t s v) (Inr (pool_take a v))" for v
    using take_slot_rel [OF st rel, of v] by (auto simp: rel_prod_sel)
  have put: "rel_sum (=) (rel_prod (pool_rel t base n) (=)) (hx_map (\<lambda>s. (s, 0)) (free_list_release t s p))
      (hx_map (\<lambda>a. (a, 0)) (pool_put t base n a p))" for p
    using release_rel [OF st rel, of p] by (cases rule: rel_sum.cases) auto
  show ?thesis
    using none take put rel
    by (cases x) (auto simp: free_list_allocate_def free_list_try_allocate_def free_list_deleter_def)
qed

lemma free_list_destroy_rel: "pool_storage t base n \<Longrightarrow> pool_rel t base n s a \<Longrightarrow> hx_ok (free_list_destroy s) \<longleftrightarrow> pool_live a = Map.empty"
proof -
  assume st: "pool_storage t base n" and rel: "pool_rel t base n s a"
  have wf: "distinct (pool_free a)" "set (pool_free a) \<inter> dom (pool_live a) = {}"
      "set (pool_free a) \<union> dom (pool_live a) = set (pool_slots t base n)" using rel by (simp_all add: pool_rel_def pool_wf_def)
  have "length (pool_slots t base n) = n" by (simp add: pool_slots_def)
  then have card: "card (set (pool_slots t base n)) = n" using distinct_card [OF distinct_pool_slots [OF st]] by simp
  have "hx_ok (free_list_destroy s) \<longleftrightarrow> length (pool_free a) = n" using rel by (auto simp: free_list_destroy_def pool_rel_def)
  also have "\<dots> \<longleftrightarrow> card (set (pool_free a)) = card (set (pool_slots t base n))" using distinct_card [OF wf(1)] card by simp
  also have "\<dots> \<longleftrightarrow> set (pool_free a) = set (pool_slots t base n)" using card_subset_eq [OF finite_set] wf(3) by (metis Un_upper1)
  also have "\<dots> \<longleftrightarrow> dom (pool_live a) = {}" using wf(2,3) by blast
  finally show ?thesis by simp
qed

section \<open>Properties\<close>

text \<open>C15: a free list is a pool. Over a storage of \<open>n\<close> objects whose size is a multiple of a link, every sequence of \<open>allocate\<close>,
  \<open>try_allocate\<close>, \<open>release\<close> and deleter calls returns what the abstract pool returns and stops where it stops: free slots are taken
  last released first, an address is never given out twice while its object lives, releasing what is not an object is caught or undefined,
  and the state keeps the partition of the slots into free and live ones.\<close>

theorem free_list_refines_pool:
  assumes "pool_storage t base n"
  shows "\<exists>s. hxfree_list_new t (int n) base = Inr s \<and>
    (\<forall>ops. rel_prod (=) (rel_sum (=) (pool_rel t base n)) (run_ops (free_list_step t) s ops)
      (run_ops (pool_step t base n) \<lparr>pool_free = pool_slots t base n, pool_live = Map.empty\<rparr> ops))"
proof -
  have sim: "rel_prod (=) (rel_sum (=) (pool_rel t base n)) (run_ops (free_list_step t) s ops) (run_ops (pool_step t base n) a ops)"
    if "pool_rel t base n s a" for s :: "'a hxfree_list" and a ops
    by (rule run_ops_refines [OF free_list_step_rel [OF assms] that])
  obtain s :: "'a hxfree_list" where "hxfree_list_new t (int n) base = Inr s"
    and "pool_rel t base n s \<lparr>pool_free = pool_slots t base n, pool_live = Map.empty\<rparr>"
    using hxfree_list_new_rel [OF assms] by blast
  then show ?thesis using sim by blast
qed

theorem free_list_refines_pool_witness:
  "\<exists>s :: int hxfree_list. hxfree_list_new 16 2 4096 = Inr s \<and>
    fst (run_ops (free_list_step 16) s [Pool_allocate 5, Pool_allocate 6, Pool_release 4096, Pool_try_allocate 7, Pool_release 4104]) =
      [4096, 4112, 0, 4096]"
proof -
  have st: "pool_storage 16 4096 2" by (simp add: pool_storage_def)
  let ?ops = "[Pool_allocate 5, Pool_allocate 6, Pool_release 4096, Pool_try_allocate 7, Pool_release 4104]"
  have pool: "fst (run_ops (pool_step 16 4096 2) \<lparr>pool_free = pool_slots 16 4096 2, pool_live = Map.empty\<rparr> ?ops) = [4096, 4112, 0, 4096]"
    by (simp add: pool_slots_def pool_take_def pool_put_def upt_rec)
  obtain s :: "int hxfree_list" where "hxfree_list_new 16 (int 2) 4096 = Inr s" and sim: "\<And>ops. rel_prod (=) (rel_sum (=) (pool_rel 16 4096 2))
      (run_ops (free_list_step 16) s ops) (run_ops (pool_step 16 4096 2) \<lparr>pool_free = pool_slots 16 4096 2, pool_live = Map.empty\<rparr> ops)"
    using free_list_refines_pool [OF st] by blast
  moreover have "fst (run_ops (free_list_step 16) s ?ops) = [4096, 4112, 0, 4096]" using sim [of ?ops] pool by (simp only: rel_prod_sel)
  ultimately show ?thesis by auto
qed

text \<open>C27: the storage is sized by the object but walked by the slot, which holds a link. Whenever the last link does not fit,
  as for one object of four bytes or three of twelve, the constructor writes outside the storage.\<close>

theorem free_list_overruns_small_storage:
  assumes "0 < n" and "n * t < (n - 1) * free_slot_size t + 8" and "unat base + n * free_slot_size t < 2 ^ 64"
  shows "hxfree_list_new t (int n) base = Inl (Undefined_behavior ''out of bounds'')"
proof -
  obtain k where n: "n = Suc k" using assms(1) by (cases n) auto
  have "8 \<le> free_slot_size t" by (simp add: free_slot_size_def)
  then have small: "k * free_slot_size t < 2 ^ LENGTH(64)" "unat base + k * free_slot_size t < 2 ^ LENGTH(64)" using assms(3) by (simp_all add: n)
  have "unat (base + word_of_nat (k * free_slot_size t)) = unat base + k * free_slot_size t"
    unfolding unat_add_wrap unat_of_nat_small [OF small(1)] using small(2) by (rule mod_less)
  then have "\<not> unat (base + word_of_nat (k * free_slot_size t)) + 8 \<le> unat base + n * t" using assms(2) by (simp add: n)
  then have "write_free_slot t s (base + word_of_nat (k * free_slot_size t)) 8 x = Inl (Undefined_behavior ''out of bounds'')"
    if "fl_data s = base" "fl_capacity s = int n" for s :: "'a hxfree_list" and x using that by (simp add: write_free_slot_def del: of_nat_mult)
  then show ?thesis
    unfolding hxfree_list_new_def enqueue_all_def nat_int by (simp add: n Let_def del: of_nat_mult)
qed

theorem free_list_overruns_small_storage_witness:
  "hxfree_list_new 4 1 4096 = Inl (Undefined_behavior ''out of bounds'') \<and> hxfree_list_new 12 3 4096 = Inl (Undefined_behavior ''out of bounds'')"
  using free_list_overruns_small_storage [of 1 4 4096] free_list_overruns_small_storage [of 3 12 4096] by (simp add: free_slot_size_def)

end
