(* ===== verification/HxSlab.thy ===== *)
theory HxSlab
  imports HxPrelude "HOL-Library.Disjoint_Sets"
begin

text \<open>
  The memory manager of \<^verbatim>\<open>src/hxslab_allocator.cpp\<close> with the slab allocator enabled, in the debug
  configuration: heap allocations carry a header, a permanent stack, and temporary stacks with scopes. What \<open>malloc\<close>
  returns is an argument of every operation that calls it, and the address given to \<open>free\<close> is part
  of the result. Operations run under the lock, so each is one function. \<open>tid\<close> is \<open>hxthread_id()\<close>.
\<close>

section \<open>Heap allocations\<close>

type_synonym hxalignment_t = u32

definition allocation_header_size :: u64 where "allocation_header_size = 16"

record os_heap =
  oh_count :: size_t
  oh_bytes :: size_t
  oh_high :: size_t
  oh_headers :: "u64 \<Rightarrow> (size_t \<times> uintptr_t) option"

definition heap_construct :: os_heap where
  "heap_construct = \<lparr>oh_count = 0, oh_bytes = 0, oh_high = 0, oh_headers = (\<lambda>_. None)\<rparr>"

definition hxmalloc_checked :: "uintptr_t \<Rightarrow> uintptr_t hx" where
  "hxmalloc_checked t = (if t = 0 then Inl (Assert_hard ''malloc'') else Inr t)"

text \<open>The header in front of a block is found by the address of the block.\<close>

definition heap_total :: "size_t \<Rightarrow> hxalignment_t \<Rightarrow> size_t" where
  "heap_total sz alignment = sz + allocation_header_size + (ucast alignment - 1)"

definition heap_allocate :: "os_heap \<Rightarrow> size_t \<Rightarrow> hxalignment_t \<Rightarrow> uintptr_t \<Rightarrow> (os_heap \<times> uintptr_t) hx" where
  "heap_allocate h sz alignment malloc =
     (let alignment_mask = ucast alignment - 1 :: size_t; total = heap_total sz alignment in
      if \<not> total > sz then Inl (Assert_debug ''no_memory'')
      else hx_map (\<lambda>actual.
        let aligned = (actual + allocation_header_size + alignment_mask) AND NOT alignment_mask;
            bytes = oh_bytes h + sz
        in (\<lparr>oh_count = oh_count h + 1, oh_bytes = bytes, oh_high = max (oh_high h) bytes,
             oh_headers = (oh_headers h)(aligned := Some (sz, actual))\<rparr>, aligned))
        (hxmalloc_checked malloc))"

definition heap_deallocate :: "os_heap \<Rightarrow> uintptr_t \<Rightarrow> (os_heap \<times> uintptr_t) hx" where
  "heap_deallocate h ptr =
     (case oh_headers h ptr of None \<Rightarrow> Inl (Undefined_behavior ''no header'')
      | Some (sz, actual) \<Rightarrow>
          if \<not> oh_count h > 0 then Inl (Assert_debug ''bad_free'')
          else if \<not> sz \<le> oh_bytes h then Inl (Assert_debug ''bad_free'')
          else Inr (h\<lparr>oh_count := oh_count h - 1, oh_bytes := oh_bytes h - sz, oh_headers := (oh_headers h)(ptr := None)\<rparr>, actual))"

section \<open>Stacks\<close>

record slab_stack =
  st_count :: size_t
  st_begin :: uintptr_t
  st_end :: uintptr_t
  st_current :: uintptr_t

definition stack_construct :: "uintptr_t \<Rightarrow> size_t \<Rightarrow> slab_stack" where
  "stack_construct ptr sz = \<lparr>st_count = 0, st_begin = ptr, st_end = ptr + sz, st_current = ptr\<rparr>"

definition stack_release :: "'z slab_stack_scheme \<Rightarrow> uintptr_t" where
  "stack_release st = st_begin st"

definition stack_allocate :: "'z slab_stack_scheme \<Rightarrow> size_t \<Rightarrow> hxalignment_t \<Rightarrow> 'z slab_stack_scheme \<times> uintptr_t" where
  "stack_allocate st sz alignment =
     (let alignment_mask = ucast (alignment - 1) :: uintptr_t;
          aligned = (st_current st + alignment_mask) AND NOT alignment_mask
      in if aligned + sz > st_end st then (st, 0)
         else (st\<lparr>st_count := st_count st + 1, st_current := aligned + sz\<rparr>, aligned))"

definition stack_contains :: "'z slab_stack_scheme \<Rightarrow> uintptr_t \<Rightarrow> bool" where
  "stack_contains st ptr = (ptr \<ge> st_begin st \<and> ptr < st_end st)"

definition stack_deallocate :: "'z slab_stack_scheme \<Rightarrow> uintptr_t \<Rightarrow> 'z slab_stack_scheme hx" where
  "stack_deallocate st ptr =
     (if \<not> (st_count st > 0 \<and> ptr \<ge> st_begin st \<and> ptr \<le> st_current st) then Inl (Assert_debug ''bad_free'')
      else Inr (st\<lparr>st_count := st_count st - 1\<rparr>))"

definition stack_get_bytes_allocated :: "'z slab_stack_scheme \<Rightarrow> size_t" where
  "stack_get_bytes_allocated st = st_current st - st_begin st"

section \<open>Temporary stacks\<close>

record temp_stack = slab_stack +
  ts_high :: uintptr_t
  ts_owner :: size_t
  ts_depth :: size_t

record slab_scope =
  sc_this :: int
  sc_initial :: int
  sc_count :: size_t
  sc_bytes :: size_t

definition temp_stack_construct :: "uintptr_t \<Rightarrow> size_t \<Rightarrow> temp_stack" where
  "temp_stack_construct ptr sz = slab_stack.extend (stack_construct ptr sz) (temp_stack.fields 0 0 0)"

definition temp_stack_begin_scope :: "size_t \<Rightarrow> temp_stack \<Rightarrow> slab_scope \<Rightarrow> (temp_stack \<times> slab_scope) hx" where
  "temp_stack_begin_scope tid st scope =
     (if \<not> (ts_owner st = 0 \<or> ts_owner st = tid) then Inl (Assert_debug ''temp_stack cross-thread scope'')
      else Inr (st\<lparr>ts_owner := tid, ts_depth := ts_depth st + 1\<rparr>,
        scope\<lparr>sc_count := st_count st, sc_bytes := st_current st - st_begin st\<rparr>))"

definition temp_stack_end_scope :: "size_t \<Rightarrow> temp_stack \<Rightarrow> slab_scope \<Rightarrow> temp_stack hx" where
  "temp_stack_end_scope tid st scope =
     (if ts_owner st \<noteq> tid then Inl (Assert_debug ''temp_stack cross-thread scope'')
      else let depth = ts_depth st - 1;
               st1 = st\<lparr>ts_depth := depth, ts_owner := (if depth = 0 then 0 else ts_owner st)\<rparr>
           in if \<not> st_count st1 \<le> sc_count scope then Inl (Assert_debug ''memory_leak scope'')
              else Inr (st1\<lparr>ts_high := max (ts_high st1) (st_current st1), st_current := st_begin st1 + sc_bytes scope\<rparr>))"

definition temp_stack_get_high_water :: "temp_stack \<Rightarrow> temp_stack \<times> size_t" where
  "temp_stack_get_high_water st =
     (let high = max (ts_high st) (st_current st) in (st\<lparr>ts_high := high\<rparr>, high - st_begin st))"

section \<open>The memory manager\<close>

definition slab_budget_permanent :: size_t where "slab_budget_permanent = 4 * 1024"
definition slab_max_stacks :: nat where "slab_max_stacks = 3"

definition allocator_current :: int where "allocator_current = -1"
definition allocator_heap :: int where "allocator_heap = 0"
definition allocator_permanent :: int where "allocator_permanent = 1"
definition allocator_stack_0 :: int where "allocator_stack_0 = 2"

text \<open>\<open>sa_stacks\<close> are the first \<open>m_stack_count\<close> of the array; \<open>sa_current\<close> is thread-local and starts as the heap.\<close>

record slab_allocator =
  sa_heap :: os_heap
  sa_permanent :: slab_stack
  sa_stacks :: "temp_stack list"
  sa_overflows :: size_t
  sa_current :: "size_t \<Rightarrow> int"

definition slab_construct :: "uintptr_t \<Rightarrow> slab_allocator hx" where
  "slab_construct malloc =
     hx_map (\<lambda>ptr. \<lparr>sa_heap = heap_construct, sa_permanent = stack_construct ptr slab_budget_permanent, sa_stacks = [],
       sa_overflows = 0, sa_current = (\<lambda>_. allocator_heap)\<rparr>) (hxmalloc_checked malloc)"

fun construct_stacks :: "size_t list \<Rightarrow> uintptr_t list \<Rightarrow> temp_stack list hx" where
  "construct_stacks (sz # sizes) (malloc # mallocs) =
     hx_bind (hxmalloc_checked malloc) (\<lambda>ptr. hx_map (\<lambda>sts. temp_stack_construct ptr sz # sts) (construct_stacks sizes mallocs))"
| "construct_stacks sizes mallocs = Inr []"

definition slab_allocate_stacks :: "slab_allocator \<Rightarrow> size_t list \<Rightarrow> uintptr_t list \<Rightarrow> slab_allocator hx" where
  "slab_allocate_stacks s sizes mallocs =
     (if sa_stacks s \<noteq> [] then Inl (Assert_always ''memory_manager stacks reinitialized'')
      else if \<not> length sizes \<le> slab_max_stacks then Inl (Assert_always ''memory_manager too many stacks'')
      else hx_map (\<lambda>sts. s\<lparr>sa_stacks := sts\<rparr>) (construct_stacks sizes mallocs))"

text \<open>\<open>destruct\<close> gives back these addresses.\<close>

definition slab_destruct :: "slab_allocator \<Rightarrow> slab_allocator \<times> uintptr_t list" where
  "slab_destruct s = (s\<lparr>sa_stacks := []\<rparr>, stack_release (sa_permanent s) # map stack_release (sa_stacks s))"

definition id_ok :: "slab_allocator \<Rightarrow> int \<Rightarrow> bool" where
  "id_ok s aid = (aid \<ge> 0 \<and> aid < allocator_stack_0 + int (length (sa_stacks s)))"

definition stack_index :: "int \<Rightarrow> nat" where
  "stack_index aid = nat (aid - allocator_stack_0)"

text \<open>The fixed size part of \<open>allocate\<close>.\<close>

definition slab_try_stack :: "slab_allocator \<Rightarrow> size_t \<Rightarrow> int \<Rightarrow> hxalignment_t \<Rightarrow> slab_allocator \<times> uintptr_t" where
  "slab_try_stack s sz aid alignment =
     (if aid \<ge> allocator_stack_0
      then let (st, p) = stack_allocate (sa_stacks s ! stack_index aid) sz alignment
           in (s\<lparr>sa_stacks := (sa_stacks s)[stack_index aid := st]\<rparr>, p)
      else if aid = allocator_permanent
      then let (st, p) = stack_allocate (sa_permanent s) sz alignment in (s\<lparr>sa_permanent := st\<rparr>, p)
      else (s, 0))"

text \<open>\<open>malloc\<close> is only asked when a stack has no room or the heap is asked for.\<close>

definition slab_allocate :: "size_t \<Rightarrow> slab_allocator \<Rightarrow> size_t \<Rightarrow> int \<Rightarrow> hxalignment_t \<Rightarrow> uintptr_t \<Rightarrow> (slab_allocator \<times> uintptr_t) hx" where
  "slab_allocate tid s sz id0 alignment malloc =
     (let aid = (if id0 = allocator_current then sa_current s tid else id0) in
      if alignment = 0 then Inl (Assert_debug ''bad_align use 1 not 0'')
      else if (alignment - 1) AND alignment \<noteq> 0 then Inl (Assert_debug ''bad_align not pow2'')
      else if \<not> id_ok s aid then Inl (Assert_debug ''bad_arg'')
      else let (s1, ptr) = slab_try_stack s sz aid alignment
        in hx_bind
          (if ptr = 0
           then let s2 = (if aid \<ge> allocator_permanent then s1\<lparr>sa_overflows := sa_overflows s1 + 1\<rparr> else s1)
                in hx_map (\<lambda>(h, p). (s2\<lparr>sa_heap := h\<rparr>, p)) (heap_allocate (sa_heap s2) sz alignment malloc)
           else Inr (s1, ptr)) (\<lambda>(s3, p).
          if p AND (ucast alignment - 1) \<noteq> 0 then Inl (Assert_debug ''bad_align wrong'') else Inr (s3, p)))"

text \<open>The first stack that contains the pointer.\<close>

fun find_stack :: "temp_stack list \<Rightarrow> uintptr_t \<Rightarrow> nat option" where
  "find_stack [] ptr = None"
| "find_stack (st # sts) ptr = (if stack_contains st ptr then Some 0 else map_option Suc (find_stack sts ptr))"

definition slab_free :: "slab_allocator \<Rightarrow> uintptr_t \<Rightarrow> (slab_allocator \<times> uintptr_t option) hx" where
  "slab_free s ptr =
     (if ptr = 0 then Inr (s, None)
      else case find_stack (sa_stacks s) ptr of
        Some k \<Rightarrow> hx_map (\<lambda>st. (s\<lparr>sa_stacks := (sa_stacks s)[k := st]\<rparr>, None)) (stack_deallocate (sa_stacks s ! k) ptr)
      | None \<Rightarrow>
          if stack_contains (sa_permanent s) ptr
          then hx_map (\<lambda>st. (s\<lparr>sa_permanent := st\<rparr>, None)) (stack_deallocate (sa_permanent s) ptr)
          else hx_map (\<lambda>(h, actual). (s\<lparr>sa_heap := h\<rparr>, Some actual)) (heap_deallocate (sa_heap s) ptr))"

definition slab_get_allocation_count :: "slab_allocator \<Rightarrow> int \<Rightarrow> size_t hx" where
  "slab_get_allocation_count s aid =
     (if \<not> id_ok s aid then Inl (Assert_debug ''bad_arg'')
      else Inr (if aid \<ge> allocator_stack_0 then st_count (sa_stacks s ! stack_index aid)
                else if aid = allocator_permanent then st_count (sa_permanent s) else oh_count (sa_heap s)))"

definition slab_get_bytes_allocated :: "slab_allocator \<Rightarrow> int \<Rightarrow> size_t hx" where
  "slab_get_bytes_allocated s aid =
     (if \<not> id_ok s aid then Inl (Assert_debug ''bad_arg'')
      else Inr (if aid \<ge> allocator_stack_0 then stack_get_bytes_allocated (sa_stacks s ! stack_index aid)
                else if aid = allocator_permanent then stack_get_bytes_allocated (sa_permanent s) else oh_bytes (sa_heap s)))"

text \<open>The constructor and destructor of \<open>hxslab_allocator_scope\<close>.\<close>

definition slab_begin_scope :: "size_t \<Rightarrow> slab_allocator \<Rightarrow> int \<Rightarrow> (slab_allocator \<times> slab_scope) hx" where
  "slab_begin_scope tid s aid =
     (if \<not> id_ok s aid then Inl (Assert_debug ''bad_arg'')
      else let scope = \<lparr>sc_this = aid, sc_initial = sa_current s tid, sc_count = 0, sc_bytes = 0\<rparr>;
               s1 = s\<lparr>sa_current := (sa_current s)(tid := aid)\<rparr>
           in if aid \<ge> allocator_stack_0
              then hx_map (\<lambda>(st, sc). (s1\<lparr>sa_stacks := (sa_stacks s1)[stack_index aid := st]\<rparr>, sc))
                (temp_stack_begin_scope tid (sa_stacks s1 ! stack_index aid) scope)
              else hx_bind (slab_get_allocation_count s1 aid) (\<lambda>count.
                   hx_map (\<lambda>bytes. (s1, scope\<lparr>sc_count := count, sc_bytes := bytes\<rparr>)) (slab_get_bytes_allocated s1 aid)))"

definition slab_end_scope :: "size_t \<Rightarrow> slab_allocator \<Rightarrow> slab_scope \<Rightarrow> slab_allocator hx" where
  "slab_end_scope tid s scope =
     (let aid = sa_current s tid in
      hx_map (\<lambda>s1. s1\<lparr>sa_current := (sa_current s1)(tid := sc_initial scope)\<rparr>)
        (if aid \<ge> allocator_stack_0
         then if \<not> aid < allocator_stack_0 + int (length (sa_stacks s)) then Inl (Assert_debug ''bad_arg'')
              else hx_map (\<lambda>st. s\<lparr>sa_stacks := (sa_stacks s)[stack_index aid := st]\<rparr>)
                (temp_stack_end_scope tid (sa_stacks s ! stack_index aid) scope)
         else Inr s))"

definition scope_get_current_allocation_count :: "slab_allocator \<Rightarrow> slab_scope \<Rightarrow> size_t hx" where
  "scope_get_current_allocation_count s scope = slab_get_allocation_count s (sc_this scope)"

definition scope_get_current_bytes_allocated :: "slab_allocator \<Rightarrow> slab_scope \<Rightarrow> size_t hx" where
  "scope_get_current_bytes_allocated s scope = slab_get_bytes_allocated s (sc_this scope)"

record slab_stats =
  stats_allocations :: size_t
  stats_bytes :: size_t
  stats_overflows :: size_t

definition slab_utilization :: "slab_allocator \<Rightarrow> bool \<Rightarrow> slab_stats" where
  "slab_utilization s stacks_only =
     (let report = (\<lambda>count bytes st. st\<lparr>stats_allocations := stats_allocations st + count, stats_bytes := stats_bytes st + bytes\<rparr>);
          st0 = \<lparr>stats_allocations = 0, stats_bytes = 0, stats_overflows = sa_overflows s\<rparr>;
          st1 = (if \<not> stacks_only
            then report (st_count (sa_permanent s)) (stack_get_bytes_allocated (sa_permanent s)) (report (oh_count (sa_heap s)) (oh_bytes (sa_heap s)) st0)
            else st0)
      in fold (\<lambda>stack. report (st_count stack) (stack_get_bytes_allocated stack)) (sa_stacks s) st1)"

definition slab_shut_down :: "slab_allocator \<Rightarrow> (slab_allocator \<times> uintptr_t list) hx" where
  "slab_shut_down s =
     (if stats_allocations (slab_utilization s False) \<noteq> 0 then Inl (Assert_hard ''memory_leak at shutdown'') else Inr (slab_destruct s))"

text \<open>The C API; \<open>alignof(max_align_t)\<close> is 16. Filling the memory with a pattern is not modelled.\<close>

definition hxalignment :: hxalignment_t where "hxalignment = 16"

definition hxmalloc_ext :: "size_t \<Rightarrow> slab_allocator \<Rightarrow> size_t \<Rightarrow> int \<Rightarrow> hxalignment_t \<Rightarrow> uintptr_t \<Rightarrow> (slab_allocator \<times> uintptr_t) hx" where
  "hxmalloc_ext tid s sz aid alignment malloc = slab_allocate tid s sz aid alignment malloc"

definition hxmalloc :: "size_t \<Rightarrow> slab_allocator \<Rightarrow> size_t \<Rightarrow> uintptr_t \<Rightarrow> (slab_allocator \<times> uintptr_t) hx" where
  "hxmalloc tid s sz malloc = hxmalloc_ext tid s sz allocator_current hxalignment malloc"

definition hxfree :: "slab_allocator \<Rightarrow> uintptr_t \<Rightarrow> (slab_allocator \<times> uintptr_t option) hx" where
  "hxfree s ptr = slab_free s ptr"

section \<open>Aligning an address\<close>

lemma unat_and_not: "unat ((w :: u64) AND NOT m) + unat (w AND m) = unat w"
proof -
  have "(w AND NOT m) + (w AND m) = w"
    using disjunctive_add [of "w AND NOT m" "w AND m"] by (auto simp: bit_simps intro: bit_word_eqI)
  moreover have "(w AND m) \<le> w" using word_and_le1 word_and_le2 by blast
  ultimately show ?thesis by (metis add.commute le_add_diff_inverse2 unat_sub word_le_nat_alt add_diff_cancel_right')
qed

lemma and_le_mask: "unat ((w :: u64) AND m) \<le> unat m"
  using word_and_le1 word_and_le2 word_le_nat_alt by blast

lemma align_up_bounds:
  fixes c m :: u64
  assumes "unat c + unat m < 2 ^ 64"
  shows "unat c \<le> unat ((c + m) AND NOT m)" and "unat ((c + m) AND NOT m) \<le> unat c + unat m"
proof -
  have "unat (c + m) = unat c + unat m" using assms by (simp add: unat_word_ariths)
  thus "unat c \<le> unat ((c + m) AND NOT m)" "unat ((c + m) AND NOT m) \<le> unat c + unat m"
    using unat_and_not [of "c + m" m] and_le_mask [of "c + m" m] by linarith+
qed

lemma align_up_aligned: "((x :: u64) AND NOT m) AND m = 0"
  by (rule bit_word_eqI) (auto simp: bit_simps)


section \<open>Live blocks\<close>

text \<open>
  A live allocation: the pointer and size given to the client, the memory it keeps reserved (what \<open>malloc\<close> returned for
  the heap, the block itself in a stack) and its owner: the heap or the stack of that index, the permanent one first.
\<close>

record slab_block =
  sb_owner :: "nat option"
  sb_ptr :: u64
  sb_size :: u64
  sb_start :: u64
  sb_len :: nat

definition block_bytes :: "slab_block \<Rightarrow> nat set" where
  "block_bytes b = {unat (sb_start b) ..< unat (sb_start b) + sb_len b}"

definition stack_bytes :: "slab_stack \<Rightarrow> nat set" where
  "stack_bytes st = {unat (st_begin st) ..< unat (st_end st)}"

definition stack_ok :: "slab_stack \<Rightarrow> bool" where
  "stack_ok st = (st_begin st \<noteq> 0 \<and> st_begin st \<le> st_current st \<and> st_current st \<le> st_end st)"

definition block_ok :: "os_heap \<Rightarrow> slab_stack list \<Rightarrow> slab_block \<Rightarrow> bool" where
  "block_ok h rs b = (sb_size b \<noteq> 0 \<and> sb_start b \<noteq> 0 \<and> unat (sb_start b) + sb_len b < 2 ^ 64 \<and>
     unat (sb_start b) \<le> unat (sb_ptr b) \<and> unat (sb_ptr b) + unat (sb_size b) \<le> unat (sb_start b) + sb_len b \<and>
     (case sb_owner b of
        None \<Rightarrow> oh_headers h (sb_ptr b) = Some (sb_size b, sb_start b) \<and> unat (sb_start b) + 16 \<le> unat (sb_ptr b) \<and>
          (\<forall>st\<in>set rs. block_bytes b \<inter> stack_bytes st = {})
      | Some j \<Rightarrow> j < length rs \<and> sb_start b = sb_ptr b \<and> sb_len b = unat (sb_size b) \<and>
          unat (st_begin (rs ! j)) \<le> unat (sb_ptr b) \<and> unat (sb_ptr b) + unat (sb_size b) \<le> unat (st_current (rs ! j))))"

definition owned :: "slab_block set \<Rightarrow> nat option \<Rightarrow> slab_block set" where
  "owned L own = {b \<in> L. sb_owner b = own}"

definition slab_view_inv :: "os_heap \<Rightarrow> slab_stack list \<Rightarrow> slab_block set \<Rightarrow> bool" where
  "slab_view_inv h rs L = (finite L \<and> (\<forall>st\<in>set rs. stack_ok st) \<and> disjoint_family_on (\<lambda>j. stack_bytes (rs ! j)) {..<length rs} \<and>
     disjoint_family_on block_bytes L \<and> (\<forall>b\<in>L. block_ok h rs b) \<and>
     unat (oh_count h) = card (owned L None) \<and> unat (oh_bytes h) = (\<Sum>b\<in>owned L None. unat (sb_size b)) \<and>
     (\<forall>j<length rs. unat (st_count (rs ! j)) = card (owned L (Some j))))"

lemma finite_owned [simp]: "finite L \<Longrightarrow> finite (owned L own)" by (simp add: owned_def)

lemma owned_insert: "owned (insert b L) own = (if sb_owner b = own then insert b (owned L own) else owned L own)"
  by (auto simp: owned_def)

lemma owned_remove: "owned (L - {b}) own = (if sb_owner b = own then owned L own - {b} else owned L own)"
  by (auto simp: owned_def)

lemma mem_owned [simp]: "b \<in> owned L own \<longleftrightarrow> b \<in> L \<and> sb_owner b = own" by (auto simp: owned_def)

lemma owned_pos:
  assumes "finite L" "b \<in> L" "sb_owner b = own"
  shows "0 < card (owned L own)"
proof -
  have "b \<in> owned L own" using assms by simp
  thus ?thesis unfolding card_gt_0_iff using assms(1) by auto
qed

text \<open>Blocks that do not overlap fit in the address space.\<close>

lemma block_lengths:
  assumes "finite L" "disjoint_family_on block_bytes L" "\<And>b. b \<in> L \<Longrightarrow> block_ok h rs b"
  shows "(\<Sum>b\<in>L. sb_len b) < 2 ^ 64"
proof -
  have sub: "(\<Union>b\<in>L. block_bytes b) \<subseteq> {1 ..< 2 ^ 64}"
  proof (rule UN_least)
    fix b assume "b \<in> L"
    hence "unat (sb_start b) \<noteq> 0" "unat (sb_start b) + sb_len b < 2 ^ 64" using assms(3) by (auto simp: block_ok_def unat_eq_0)
    thus "block_bytes b \<subseteq> {1 ..< 2 ^ 64}" by (auto simp: block_bytes_def)
  qed
  have "(\<Sum>b\<in>L. sb_len b) = (\<Sum>b\<in>L. card (block_bytes b))" by (simp add: block_bytes_def)
  also have "\<dots> = card (\<Union>b\<in>L. block_bytes b)"
    using assms(1,2) by (subst card_UN_disjoint) (auto simp: disjoint_family_on_def block_bytes_def)
  also have "\<dots> \<le> card {1 ..< 2 ^ 64 :: nat}" by (rule card_mono [OF _ sub]) simp
  finally show ?thesis by simp
qed

lemma block_ok_size:
  assumes "block_ok h rs b"
  shows "unat (sb_size b) \<le> sb_len b" "0 < unat (sb_size b)" "0 < sb_len b"
proof -
  have nz: "unat (sb_size b) \<noteq> 0" using assms by (simp add: block_ok_def unat_eq_0)
  have le: "unat (sb_size b) \<le> sb_len b" using assms unfolding block_ok_def by linarith
  show "unat (sb_size b) \<le> sb_len b" "0 < unat (sb_size b)" "0 < sb_len b" using nz le by linarith+
qed

lemma owned_bounds:
  assumes "finite L" "disjoint_family_on block_bytes L" "\<And>b. b \<in> L \<Longrightarrow> block_ok h rs b"
  shows "card (owned L own) < 2 ^ 64" and "(\<Sum>b\<in>owned L own. unat (sb_size b)) < 2 ^ 64"
proof -
  have "card (owned L own) = (\<Sum>b\<in>owned L own. 1)" by simp
  also have "\<dots> \<le> (\<Sum>b\<in>owned L own. sb_len b)"
  proof (rule sum_mono)
    fix b assume "b \<in> owned L own"
    thus "1 \<le> sb_len b" using block_ok_size(3) [OF assms(3), of b] by simp
  qed
  also have "\<dots> \<le> (\<Sum>b\<in>L. sb_len b)" using assms(1) by (intro sum_mono2) (auto simp: owned_def)
  also have "\<dots> < 2 ^ 64" by (rule block_lengths [OF assms])
  finally show "card (owned L own) < 2 ^ 64" .
  have "(\<Sum>b\<in>owned L own. unat (sb_size b)) \<le> (\<Sum>b\<in>owned L own. sb_len b)"
    by (rule sum_mono) (use block_ok_size(1) assms(3) in auto)
  also have "\<dots> \<le> (\<Sum>b\<in>L. sb_len b)" using assms(1) by (intro sum_mono2) (auto simp: owned_def)
  also have "\<dots> < 2 ^ 64" by (rule block_lengths [OF assms])
  finally show "(\<Sum>b\<in>owned L own. unat (sb_size b)) < 2 ^ 64" .
qed


lemma unat_plus1: "unat (x :: u64) + 1 < 2 ^ 64 \<Longrightarrow> unat (x + 1) = unat x + 1"
  by (simp add: unat_word_ariths)

lemma unat_plus: "unat (x :: u64) + unat y < 2 ^ 64 \<Longrightarrow> unat (x + y) = unat x + unat y"
  by (simp add: unat_word_ariths)

lemma unat_minus: "unat y \<le> unat (x :: u64) \<Longrightarrow> unat (x - y) = unat x - unat y"
  by (simp add: unat_sub word_le_nat_alt)

lemma view_inv_insert:
  assumes inv: "slab_view_inv h rs L" and new: "block_ok h' rs' b" and keep: "\<And>c. c \<in> L \<Longrightarrow> block_ok h' rs' c"
    and fresh: "\<And>c. c \<in> L \<Longrightarrow> block_bytes b \<inter> block_bytes c = {}"
    and len: "length rs' = length rs" and same: "\<And>j. j < length rs \<Longrightarrow> stack_bytes (rs' ! j) = stack_bytes (rs ! j)"
    and ok: "\<And>st. st \<in> set rs' \<Longrightarrow> stack_ok st"
    and count: "oh_count h' = oh_count h + (if sb_owner b = None then 1 else 0)"
    and bytes: "oh_bytes h' = oh_bytes h + (if sb_owner b = None then sb_size b else 0)"
    and counts: "\<And>j. j < length rs \<Longrightarrow> st_count (rs' ! j) = st_count (rs ! j) + (if sb_owner b = Some j then 1 else 0)"
  shows "slab_view_inv h' rs' (insert b L)"
proof -
  have fin: "finite L" and dis: "disjoint_family_on block_bytes L" using inv by (auto simp: slab_view_inv_def)
  have ne: "block_bytes b \<noteq> {}" using block_ok_size(3) [OF new] by (simp add: block_bytes_def)
  have notin: "b \<notin> L" using fresh ne by blast
  have dis': "disjoint_family_on block_bytes (insert b L)"
    using dis notin fresh by (subst disjoint_family_on_insert) auto
  have okb: "\<And>c. c \<in> insert b L \<Longrightarrow> block_ok h' rs' c" using new keep by blast
  note bounds = owned_bounds [OF finite.insertI [OF fin] dis' okb]
  have ins: "card (insert b (owned L own)) = card (owned L own) + 1" for own using fin notin by simp
  have hc: "unat (oh_count h') = card (owned (insert b L) None)"
    using inv bounds(1) [of None] count by (auto simp: owned_insert ins slab_view_inv_def unat_plus1)
  have hb: "unat (oh_bytes h') = (\<Sum>c\<in>owned (insert b L) None. unat (sb_size c))"
    using inv bounds(2) [of None] bytes fin notin by (auto simp: owned_insert slab_view_inv_def unat_plus)
  have sc: "unat (st_count (rs' ! j)) = card (owned (insert b L) (Some j))" if "j < length rs" for j
    using inv bounds(1) [of "Some j"] counts [OF that] that by (auto simp: owned_insert ins slab_view_inv_def unat_plus1)
  have dr: "disjoint_family_on (\<lambda>j. stack_bytes (rs' ! j)) {..<length rs'}"
    using inv same by (simp add: slab_view_inv_def len disjoint_family_on_def)
  show ?thesis unfolding slab_view_inv_def using fin dis' okb hc hb sc dr ok len by auto
qed

lemma view_inv_remove:
  assumes inv: "slab_view_inv h rs L" and b: "b \<in> L" and keep: "\<And>c. c \<in> L \<Longrightarrow> c \<noteq> b \<Longrightarrow> block_ok h' rs' c"
    and len: "length rs' = length rs" and same: "\<And>j. j < length rs \<Longrightarrow> stack_bytes (rs' ! j) = stack_bytes (rs ! j)"
    and ok: "\<And>st. st \<in> set rs' \<Longrightarrow> stack_ok st"
    and count: "oh_count h' = oh_count h - (if sb_owner b = None then 1 else 0)"
    and bytes: "oh_bytes h' = oh_bytes h - (if sb_owner b = None then sb_size b else 0)"
    and counts: "\<And>j. j < length rs \<Longrightarrow> st_count (rs' ! j) = st_count (rs ! j) - (if sb_owner b = Some j then 1 else 0)"
  shows "slab_view_inv h' rs' (L - {b})"
proof -
  have fin: "finite L" and dis: "disjoint_family_on block_bytes L" using inv by (auto simp: slab_view_inv_def)
  have dis': "disjoint_family_on block_bytes (L - {b})" using dis by (auto simp: disjoint_family_on_def)
  have pos: "0 < card (owned L (sb_owner b))" using b fin by (auto simp: card_gt_0_iff)
  have card: "card (owned L (sb_owner b) - {b}) = card (owned L (sb_owner b)) - 1" using b by (simp add: card_Diff_singleton)
  have dec: "unat (x - 1) = unat x - 1" if "0 < unat x" for x :: u64 using that unat_minus [of 1 x] by simp
  have hc: "unat (oh_count h') = card (owned (L - {b}) None)"
    using inv count pos card by (auto simp: owned_remove slab_view_inv_def dec)
  have hb: "unat (oh_bytes h') = (\<Sum>c\<in>owned (L - {b}) None. unat (sb_size c))"
  proof (cases "sb_owner b = None")
    case True
    have "(\<Sum>c\<in>owned L None. unat (sb_size c)) = unat (sb_size b) + (\<Sum>c\<in>owned L None - {b}. unat (sb_size c))"
      using True b fin by (intro sum.remove) auto
    thus ?thesis using inv bytes True by (simp add: owned_remove slab_view_inv_def unat_minus)
  qed (use inv bytes in \<open>auto simp: owned_remove slab_view_inv_def\<close>)
  have sc: "unat (st_count (rs' ! j)) = card (owned (L - {b}) (Some j))" if "j < length rs" for j
    using inv counts [OF that] pos card that by (auto simp: owned_remove slab_view_inv_def dec)
  have dr: "disjoint_family_on (\<lambda>j. stack_bytes (rs' ! j)) {..<length rs'}"
    using inv same by (simp add: slab_view_inv_def len disjoint_family_on_def)
  show ?thesis unfolding slab_view_inv_def using fin dis' keep hc hb sc dr ok len by auto
qed


section \<open>One stack\<close>

lemma unat_ucast_up: "unat (ucast (x :: u32) :: u64) = unat x"
  using unat_bound [of x] by (simp add: unsigned_ucast_eq take_bit_nat_eq_self_iff)

lemma ucast_minus1: "(al :: u32) \<noteq> 0 \<Longrightarrow> (ucast (al - 1) :: u64) = ucast al - 1"
proof -
  assume "al \<noteq> 0"
  hence ge: "1 \<le> unat al" by (simp add: Suc_le_eq unat_gt_0)
  have "unat (ucast (al - 1) :: u64) = unat al - 1"
    using ge by (simp add: unat_ucast_up unat_sub word_le_nat_alt)
  moreover have "unat (ucast al - 1 :: u64) = unat al - 1"
    using ge by (subst unat_sub) (simp_all add: unat_ucast_up word_le_nat_alt)
  ultimately show ?thesis by (simp add: word_unat_eq_iff)
qed

lemma unat_ucast_mask: "(al :: u32) \<noteq> 0 \<Longrightarrow> unat (ucast al - 1 :: u64) + 1 = unat al"
proof -
  assume "al \<noteq> 0"
  hence ge: "1 \<le> unat al" by (simp add: Suc_le_eq unat_gt_0)
  thus ?thesis by (subst unat_sub) (simp_all add: unat_ucast_up word_le_nat_alt)
qed

lemma stack_allocate_cases:
  assumes ok: "stack_ok st" and al: "al \<noteq> 0" and fit: "unat (st_end st) + unat al + unat sz < 2 ^ 64"
  obtains (full) "stack_allocate st sz al = (st, 0)"
  | (room) p where "stack_allocate st sz al = (st\<lparr>st_count := st_count st + 1, st_current := p + sz\<rparr>, p)" "p \<noteq> 0"
      "p AND (ucast al - 1) = 0" "unat (st_current st) \<le> unat p" "unat p + unat sz \<le> unat (st_end st)"
      "unat (p + sz) = unat p + unat sz"
proof -
  define m :: u64 where "m = ucast al - 1"
  define p where "p = (st_current st + m) AND NOT m"
  have m: "unat m < unat al" using unat_ucast_mask [OF al] by (simp add: m_def)
  have le: "st_begin st \<noteq> 0" "unat (st_begin st) \<le> unat (st_current st)" "unat (st_current st) \<le> unat (st_end st)"
    using ok by (auto simp: stack_ok_def word_le_nat_alt)
  hence up: "unat (st_current st) \<le> unat p" "unat p \<le> unat (st_current st) + unat m"
    unfolding p_def using m fit by (intro align_up_bounds; linarith)+
  have sum: "unat (p + sz) = unat p + unat sz" using up m le fit by (intro unat_plus) linarith
  have nz: "p \<noteq> 0" using up le by (metis unat_eq_0 le_zero_eq)
  have res: "stack_allocate st sz al = (if p + sz > st_end st then (st, 0)
     else (st\<lparr>st_count := st_count st + 1, st_current := p + sz\<rparr>, p))"
    by (simp add: stack_allocate_def Let_def p_def m_def ucast_minus1 [OF al])
  show thesis
  proof (cases "p + sz > st_end st")
    case True
    show thesis by (rule full) (simp add: res True)
  next
    case False
    hence "unat p + unat sz \<le> unat (st_end st)" using sum by (simp add: word_less_nat_alt)
    thus thesis using nz up sum False align_up_aligned [of "st_current st + m" m]
      by (intro room [of p]) (auto simp: res p_def [symmetric] m_def [symmetric])
  qed
qed

lemma disjoint_other:
  assumes "disjoint_family_on (\<lambda>j. stack_bytes (rs ! j)) {..<length rs}" "i < length rs" "j < length rs" "i \<noteq> j"
  shows "stack_bytes (rs ! i) \<inter> stack_bytes (rs ! j) = {}"
  using assms by (auto simp: disjoint_family_on_def)

lemma stack_block_in_stack:
  assumes "block_ok h rs b" "sb_owner b = Some j" "stack_ok (rs ! j)"
  shows "block_bytes b \<subseteq> stack_bytes (rs ! j)" and "block_bytes b \<subseteq> {..<unat (st_current (rs ! j))}"
  using assms by (auto simp: block_ok_def block_bytes_def stack_bytes_def stack_ok_def word_le_nat_alt)

lemma stack_allocate_inv:
  assumes inv: "slab_view_inv h rs L" and j: "j < length rs" and sz: "sz \<noteq> 0" and al: "al \<noteq> 0"
    and fit: "unat (st_end (rs ! j)) + unat al + unat sz < 2 ^ 64"
    and run: "stack_allocate (rs ! j) sz al = (st', p)" and nz: "p \<noteq> 0"
    and b: "b = \<lparr>sb_owner = Some j, sb_ptr = p, sb_size = sz, sb_start = p, sb_len = unat sz\<rparr>"
  shows "slab_view_inv h (rs[j := st']) (insert b L)" and "\<forall>c\<in>L. block_bytes b \<inter> block_bytes c = {}"
    and "p AND (ucast al - 1) = 0"
proof -
  have okj: "stack_ok (rs ! j)" using inv j by (auto simp: slab_view_inv_def)
  note old = inv [unfolded slab_view_inv_def]
  obtain st: "st' = (rs ! j)\<lparr>st_count := st_count (rs ! j) + 1, st_current := p + sz\<rparr>" and al0: "p AND (ucast al - 1) = 0"
    and le: "unat (st_current (rs ! j)) \<le> unat p" "unat p + unat sz \<le> unat (st_end (rs ! j))" "unat (p + sz) = unat p + unat sz"
    by (rule stack_allocate_cases [OF okj al fit]) (use run nz in auto)
  show "p AND (ucast al - 1) = 0" by (rule al0)
  have start: "st_begin (rs ! j) \<noteq> 0" "unat (st_begin (rs ! j)) \<le> unat (st_current (rs ! j))"
    using okj by (auto simp: stack_ok_def word_le_nat_alt)
  have sub: "block_bytes b \<subseteq> stack_bytes (rs ! j)" using le start by (auto simp: block_bytes_def stack_bytes_def b)
  have fresh: "block_bytes b \<inter> block_bytes c = {}" if c: "c \<in> L" for c
  proof -
    have okc: "block_ok h rs c" using old c by blast
    show ?thesis
    proof (cases "sb_owner c")
      case None
      hence "block_bytes c \<inter> stack_bytes (rs ! j) = {}" using okc j by (simp add: block_ok_def)
      thus ?thesis using sub by blast
    next
      case (Some i)
      hence i: "i < length rs" using okc by (simp add: block_ok_def)
      hence oki: "stack_ok (rs ! i)" using old by auto
      show ?thesis
      proof (cases "i = j")
        case True
        have "block_bytes c \<subseteq> {..<unat (st_current (rs ! j))}" using stack_block_in_stack(2) [OF okc Some oki] True by simp
        moreover have "block_bytes b \<subseteq> {unat (st_current (rs ! j))..}" using le by (auto simp: block_bytes_def b)
        ultimately show ?thesis by fastforce
      next
        case False
        have "disjoint_family_on (\<lambda>j. stack_bytes (rs ! j)) {..<length rs}" using old by blast
        from disjoint_other [OF this i j False] show ?thesis using stack_block_in_stack(1) [OF okc Some oki] sub by blast
      qed
    qed
  qed
  show "\<forall>c\<in>L. block_bytes b \<inter> block_bytes c = {}" using fresh by blast
  have same: "stack_bytes (rs[j := st'] ! i) = stack_bytes (rs ! i)" for i
    using j by (cases "i = j") (simp_all add: st stack_bytes_def)
  have sames: "(\<forall>x\<in>set (rs[j := st']). B \<inter> stack_bytes x = {}) \<longleftrightarrow> (\<forall>x\<in>set rs. B \<inter> stack_bytes x = {})" for B
    by (simp add: all_set_conv_all_nth same)
  have keep: "block_ok h (rs[j := st']) c" if c: "c \<in> L" for c
  proof -
    have okc: "block_ok h rs c" using old c by blast
    have "st_begin (rs[j := st'] ! i) = st_begin (rs ! i) \<and> unat (st_current (rs ! i)) \<le> unat (st_current (rs[j := st'] ! i))" for i
      using j le by (cases "i = j") (simp_all add: st)
    thus ?thesis using okc unfolding block_ok_def sames by (auto split: option.splits intro: order_trans)
  qed
  have new: "block_ok h (rs[j := st']) b"
    using sz nz j le start unat_bound [of "st_end (rs ! j)"] by (simp add: block_ok_def b st)
  have okst: "stack_ok st'" using okj le start by (simp add: stack_ok_def st word_le_nat_alt)
  have oks: "stack_ok x" if "x \<in> set (rs[j := st'])" for x
    using that old okst set_update_subset_insert [of rs j st'] by blast
  show "slab_view_inv h (rs[j := st']) (insert b L)"
  proof (rule view_inv_insert [OF inv new keep fresh])
    fix i assume "i < length rs"
    thus "st_count (rs[j := st'] ! i) = st_count (rs ! i) + (if sb_owner b = Some i then 1 else 0)"
      by (cases "i = j") (auto simp: st b)
  qed (use same oks in \<open>auto simp: b\<close>)
qed


lemma stack_deallocate_inv:
  assumes inv: "slab_view_inv h rs L" and b: "b \<in> L" "sb_owner b = Some j"
  shows "stack_contains (rs ! j) (sb_ptr b)"
    and "stack_deallocate (rs ! j) (sb_ptr b) = Inr ((rs ! j)\<lparr>st_count := st_count (rs ! j) - 1\<rparr>)"
    and "slab_view_inv h (rs[j := (rs ! j)\<lparr>st_count := st_count (rs ! j) - 1\<rparr>]) (L - {b})"
proof -
  note old = inv [unfolded slab_view_inv_def]
  let ?st = "(rs ! j)\<lparr>st_count := st_count (rs ! j) - 1\<rparr>"
  have okb: "block_ok h rs b" using old b by blast
  hence j: "j < length rs" and ptr: "unat (st_begin (rs ! j)) \<le> unat (sb_ptr b)"
    "unat (sb_ptr b) + unat (sb_size b) \<le> unat (st_current (rs ! j))" using b by (auto simp: block_ok_def)
  have okj: "stack_ok (rs ! j)" using old j by auto
  have size: "0 < unat (sb_size b)" by (rule block_ok_size(2) [OF okb])
  show "stack_contains (rs ! j) (sb_ptr b)"
    using ptr okj size by (auto simp: stack_contains_def stack_ok_def word_le_nat_alt word_less_nat_alt)
  have "0 < card (owned L (Some j))" by (rule owned_pos [OF _ b]) (use old in blast)
  hence "0 < unat (st_count (rs ! j))" using old j by simp
  hence "0 < st_count (rs ! j)" by (simp add: word_less_nat_alt)
  thus "stack_deallocate (rs ! j) (sb_ptr b) = Inr ?st" using ptr by (simp add: stack_deallocate_def word_le_nat_alt)
  have same: "stack_bytes (rs[j := ?st] ! i) = stack_bytes (rs ! i)" for i
    using j by (cases "i = j") (simp_all add: stack_bytes_def)
  have sames: "(\<forall>x\<in>set (rs[j := ?st]). B \<inter> stack_bytes x = {}) \<longleftrightarrow> (\<forall>x\<in>set rs. B \<inter> stack_bytes x = {})" for B
    by (simp add: all_set_conv_all_nth same)
  have keep: "block_ok h (rs[j := ?st]) c" if c: "c \<in> L" for c
  proof -
    have okc: "block_ok h rs c" using old c by blast
    have "st_begin (rs[j := ?st] ! i) = st_begin (rs ! i) \<and> st_current (rs[j := ?st] ! i) = st_current (rs ! i)" for i
      using j by (cases "i = j") simp_all
    thus ?thesis using okc unfolding block_ok_def sames by (auto split: option.splits)
  qed
  have oks: "stack_ok x" if "x \<in> set (rs[j := ?st])" for x
  proof -
    have "x = ?st \<or> x \<in> set rs" using that set_update_subset_insert [of rs j ?st] by blast
    thus ?thesis using old okj by (auto simp: stack_ok_def)
  qed
  show "slab_view_inv h (rs[j := ?st]) (L - {b})"
  proof (rule view_inv_remove [OF inv b(1) keep])
    fix i assume "i < length rs"
    thus "st_count (rs[j := ?st] ! i) = st_count (rs ! i) - (if sb_owner b = Some i then 1 else 0)"
      using b by (cases "i = j") auto
  qed (use same oks b in auto)
qed

section \<open>The heap\<close>

text \<open>What \<open>malloc\<close> promises of the block it returns: room for the request, apart from everything in use.\<close>

definition malloc_ok :: "slab_stack list \<Rightarrow> slab_block set \<Rightarrow> size_t \<Rightarrow> hxalignment_t \<Rightarrow> uintptr_t \<Rightarrow> bool" where
  "malloc_ok rs L sz al malloc = (malloc \<noteq> 0 \<and> unat malloc + unat sz + 15 + unat al < 2 ^ 64 \<and>
     (\<forall>st\<in>set rs. {unat malloc ..< unat malloc + unat sz + 15 + unat al} \<inter> stack_bytes st = {}) \<and>
     (\<forall>c\<in>L. {unat malloc ..< unat malloc + unat sz + 15 + unat al} \<inter> block_bytes c = {}))"

lemma heap_allocate_inv:
  assumes inv: "slab_view_inv h rs L" and sz: "sz \<noteq> 0" and al: "al \<noteq> 0" and m: "malloc_ok rs L sz al malloc"
  obtains h' p b where "heap_allocate h sz al malloc = Inr (h', p)"
    "b = \<lparr>sb_owner = None, sb_ptr = p, sb_size = sz, sb_start = malloc, sb_len = unat (heap_total sz al)\<rparr>"
    "slab_view_inv h' rs (insert b L)" "\<forall>c\<in>L. block_bytes b \<inter> block_bytes c = {}" "p AND (ucast al - 1) = 0"
proof -
  note old = inv [unfolded slab_view_inv_def] and malloc = m [unfolded malloc_ok_def]
  define mask :: u64 where "mask = ucast al - 1"
  define p where "p = (malloc + 16 + mask) AND NOT mask"
  have mask: "unat mask + 1 = unat al" using unat_ucast_mask [OF al] by (simp add: mask_def)
  have s16: "unat (sz + 16) = unat sz + 16" using malloc mask by (subst unat_plus) simp_all
  have tot: "unat (heap_total sz al) = unat sz + 15 + unat al"
    unfolding heap_total_def allocation_header_size_def mask_def [symmetric]
    using malloc mask s16 by (subst unat_plus) simp_all
  have m16: "unat (malloc + 16) = unat malloc + 16" using malloc mask by (subst unat_plus) simp_all
  have "unat (malloc + 16) + unat mask < 2 ^ 64" using m16 malloc mask by linarith
  from align_up_bounds [OF this] have p: "unat malloc + 16 \<le> unat p" "unat p \<le> unat malloc + 16 + unat mask"
    by (simp_all add: p_def m16)
  define h' where "h' = \<lparr>oh_count = oh_count h + 1, oh_bytes = oh_bytes h + sz, oh_high = max (oh_high h) (oh_bytes h + sz),
     oh_headers = (oh_headers h)(p := Some (sz, malloc))\<rparr>"
  define b where "b = \<lparr>sb_owner = None, sb_ptr = p, sb_size = sz, sb_start = malloc, sb_len = unat (heap_total sz al)\<rparr>"
  have "sz < heap_total sz al" using tot mask by (simp add: word_less_nat_alt)
  hence run: "heap_allocate h sz al malloc = Inr (h', p)"
    using malloc unfolding heap_allocate_def hxmalloc_checked_def Let_def allocation_header_size_def mask_def [symmetric]
    by (simp add: h'_def p_def)
  have szp: "0 < unat sz" using sz by (simp add: unat_gt_0)
  have bytes: "block_bytes b = {unat malloc ..< unat malloc + unat sz + 15 + unat al}"
    by (simp add: block_bytes_def b_def tot add.assoc)
  have fresh: "block_bytes b \<inter> block_bytes c = {}" if "c \<in> L" for c using malloc that by (simp add: bytes)
  have new: "block_ok h' rs b"
    unfolding block_ok_def bytes using sz malloc p mask tot by (simp add: b_def h'_def)
  have keep: "block_ok h' rs c" if c: "c \<in> L" for c
  proof -
    have okc: "block_ok h rs c" using old c by blast
    have "sb_ptr c \<in> {x. unat (sb_start c) \<le> unat x \<and> unat x < unat (sb_start c) + sb_len c}"
      using okc block_ok_size(2) [OF okc] by (auto simp: block_ok_def)
    hence "unat (sb_ptr c) \<in> block_bytes c" by (simp add: block_bytes_def)
    moreover have "unat p \<in> block_bytes b" using p mask szp by (simp add: bytes)
    ultimately have "sb_ptr c \<noteq> p" using fresh [OF c] by auto
    thus ?thesis using okc by (auto simp: block_ok_def h'_def split: option.splits)
  qed
  have inv': "slab_view_inv h' rs (insert b L)"
    by (rule view_inv_insert [OF inv new keep fresh]) (use old in \<open>auto simp: b_def h'_def\<close>)
  show thesis using run inv' fresh align_up_aligned [of "malloc + 16 + mask" mask]
    by (intro that [of h' p b]) (auto simp: b_def p_def mask_def)
qed

lemma heap_deallocate_inv:
  assumes inv: "slab_view_inv h rs L" and b: "b \<in> L" "sb_owner b = None"
  obtains h' where "heap_deallocate h (sb_ptr b) = Inr (h', sb_start b)" "slab_view_inv h' rs (L - {b})"
proof -
  note old = inv [unfolded slab_view_inv_def]
  have okb: "block_ok h rs b" using old b by blast
  hence hdr: "oh_headers h (sb_ptr b) = Some (sb_size b, sb_start b)" using b by (simp add: block_ok_def)
  have "0 < card (owned L None)" by (rule owned_pos [OF _ b]) (use old in blast)
  hence "0 < unat (oh_count h)" using old by simp
  hence count: "0 < oh_count h" by (simp add: word_less_nat_alt)
  have "unat (sb_size b) \<le> (\<Sum>c\<in>owned L None. unat (sb_size c))" using old b by (intro member_le_sum) auto
  hence bytes: "sb_size b \<le> oh_bytes h" using old by (simp add: word_le_nat_alt)
  define h' where "h' = h\<lparr>oh_count := oh_count h - 1, oh_bytes := oh_bytes h - sb_size b,
     oh_headers := (oh_headers h)(sb_ptr b := None)\<rparr>"
  have run: "heap_deallocate h (sb_ptr b) = Inr (h', sb_start b)"
    using hdr count bytes by (simp add: heap_deallocate_def h'_def)
  have inside: "unat (sb_ptr c) \<in> block_bytes c" if "c \<in> L" for c
  proof -
    have okc: "block_ok h rs c" using old that by blast
    show ?thesis using okc block_ok_size(2) [OF okc] by (auto simp: block_bytes_def block_ok_def)
  qed
  have keep: "block_ok h' rs c" if c: "c \<in> L" "c \<noteq> b" for c
  proof -
    have okc: "block_ok h rs c" using old c by blast
    have "block_bytes b \<inter> block_bytes c = {}" using old b c by (auto simp: disjoint_family_on_def)
    hence "sb_ptr c \<noteq> sb_ptr b" using inside [OF c(1)] inside [OF b(1)] by auto
    thus ?thesis using okc by (auto simp: block_ok_def h'_def split: option.splits)
  qed
  have "slab_view_inv h' rs (L - {b})"
    by (rule view_inv_remove [OF inv b(1) keep]) (use old b in \<open>auto simp: h'_def\<close>)
  with run show thesis by (rule that)
qed


section \<open>The memory manager\<close>

definition slab_regions :: "slab_allocator \<Rightarrow> slab_stack list" where
  "slab_regions s = sa_permanent s # map slab_stack.truncate (sa_stacks s)"

definition slab_inv :: "slab_allocator \<Rightarrow> slab_block set \<Rightarrow> bool" where
  "slab_inv s L = slab_view_inv (sa_heap s) (slab_regions s) L"

lemma stack_truncate [simp]:
  "st_count (slab_stack.truncate st) = st_count st" "st_begin (slab_stack.truncate st) = st_begin st"
  "st_end (slab_stack.truncate st) = st_end st" "st_current (slab_stack.truncate st) = st_current st"
  by (simp_all add: slab_stack.defs)

lemma stack_allocate_truncate:
  "stack_allocate (slab_stack.truncate st) sz al = (slab_stack.truncate (fst (stack_allocate st sz al)), snd (stack_allocate st sz al))"
  by (simp add: stack_allocate_def Let_def slab_stack.defs)

lemma stack_contains_bytes: "stack_contains st p \<longleftrightarrow> unat p \<in> stack_bytes st"
  by (auto simp: stack_contains_def stack_bytes_def word_le_nat_alt word_less_nat_alt)

lemma find_stack_None: "find_stack sts p = None \<longleftrightarrow> (\<forall>st\<in>set sts. \<not> stack_contains st p)"
  by (induction sts) auto

lemma find_stack_Some:
  "k < length sts \<Longrightarrow> stack_contains (sts ! k) p \<Longrightarrow> (\<And>i. i < k \<Longrightarrow> \<not> stack_contains (sts ! i) p) \<Longrightarrow> find_stack sts p = Some k"
proof (induction sts arbitrary: k)
  case (Cons st sts)
  show ?case
  proof (cases k)
    case 0
    thus ?thesis using Cons.prems by simp
  next
    case (Suc i)
    have "\<not> stack_contains st p" using Cons.prems(3) [of 0] Suc by simp
    moreover have "find_stack sts p = Some i" using Cons.prems Suc by (intro Cons.IH) force+
    ultimately show ?thesis using Suc by simp
  qed
qed simp

lemma regions_update:
  "slab_regions (s\<lparr>sa_stacks := (sa_stacks s)[k := st]\<rparr>) = (slab_regions s)[Suc k := slab_stack.truncate st]"
  "slab_regions (s\<lparr>sa_permanent := pst\<rparr>) = (slab_regions s)[0 := pst]"
  by (simp_all add: slab_regions_def map_update)

lemma regions_nth: "k < length (sa_stacks s) \<Longrightarrow> slab_regions s ! Suc k = slab_stack.truncate (sa_stacks s ! k)"
  by (simp add: slab_regions_def)

text \<open>The requests that do not wrap the address space in a stack.\<close>

definition request_fits :: "slab_allocator \<Rightarrow> size_t \<Rightarrow> hxalignment_t \<Rightarrow> bool" where
  "request_fits s sz al = (\<forall>st\<in>set (slab_regions s). unat (st_end st) + unat al + unat sz < 2 ^ 64)"

definition stack_of :: "int \<Rightarrow> nat option" where
  "stack_of aid = (if aid \<le> 0 then None else Some (nat aid - 1))"

lemma stack_of_region:
  assumes "id_ok s aid" "stack_of aid = Some j"
  shows "j < length (slab_regions s)"
  using assms by (auto simp: stack_of_def id_ok_def slab_regions_def allocator_stack_0_def split: if_splits)

lemma slab_try_stack_eq:
  assumes ok: "id_ok s aid" and own: "stack_of aid = Some j" and run: "slab_try_stack s sz aid al = (s1, p)"
  shows "sa_heap s1 = sa_heap s" and "stack_allocate (slab_regions s ! j) sz al = (slab_regions s1 ! j, p)"
    and "slab_regions s1 = (slab_regions s)[j := slab_regions s1 ! j]"
proof -
  have "sa_heap s1 = sa_heap s \<and> stack_allocate (slab_regions s ! j) sz al = (slab_regions s1 ! j, p) \<and>
      slab_regions s1 = (slab_regions s)[j := slab_regions s1 ! j]"
  proof (cases "aid \<ge> allocator_stack_0")
    case True
    define k where "k = stack_index aid"
    have j: "j = Suc k" and k: "k < length (sa_stacks s)"
      using True own ok by (auto simp: stack_of_def k_def stack_index_def allocator_stack_0_def id_ok_def split: if_splits)
    obtain st where a: "stack_allocate (sa_stacks s ! k) sz al = (st, p)" and s1: "s1 = s\<lparr>sa_stacks := (sa_stacks s)[k := st]\<rparr>"
      using run True by (auto simp: slab_try_stack_def k_def split: prod.splits)
    have "k < length (slab_regions s) - 1" using k by (simp add: slab_regions_def)
    thus ?thesis using k by (simp add: j s1 map_update stack_allocate_truncate a slab_regions_def)
  next
    case False
    have id1: "aid = 1" and j: "j = 0" using False own by (auto simp: stack_of_def allocator_stack_0_def split: if_splits)
    obtain st where a: "stack_allocate (sa_permanent s) sz al = (st, p)" and s1: "s1 = s\<lparr>sa_permanent := st\<rparr>"
      using run id1 by (auto simp: slab_try_stack_def allocator_stack_0_def allocator_permanent_def split: prod.splits)
    show ?thesis by (simp add: j s1 a slab_regions_def)
  qed
  thus "sa_heap s1 = sa_heap s" "stack_allocate (slab_regions s ! j) sz al = (slab_regions s1 ! j, p)"
    "slab_regions s1 = (slab_regions s)[j := slab_regions s1 ! j]" by blast+
qed


lemma stack_allocate_full:
  assumes inv: "slab_view_inv h rs L" and j: "j < length rs" and al: "al \<noteq> 0"
    and fit: "unat (st_end (rs ! j)) + unat al + unat sz < 2 ^ 64"
    and run: "stack_allocate (rs ! j) sz al = (st', 0)"
  shows "st' = rs ! j"
proof -
  have "stack_ok (rs ! j)" using inv j by (auto simp: slab_view_inv_def)
  from this al fit show ?thesis by (rule stack_allocate_cases) (use run in auto)
qed

lemma slab_try_stack_heap: "stack_of aid = None \<Longrightarrow> slab_try_stack s sz aid al = (s, 0)"
  by (auto simp: stack_of_def slab_try_stack_def allocator_stack_0_def allocator_permanent_def split: if_splits)

lemma slab_try_stack_inv:
  assumes inv: "slab_inv s L" and ok: "id_ok s aid" and sz: "sz \<noteq> 0" and al: "al \<noteq> 0" and fit: "request_fits s sz al"
  obtains (heap) s1 where "slab_try_stack s sz aid al = (s1, 0)" "sa_heap s1 = sa_heap s" "slab_regions s1 = slab_regions s"
  | (stack) s1 b j where "slab_try_stack s sz aid al = (s1, sb_ptr b)" "sb_ptr b \<noteq> 0" "sb_size b = sz" "sb_owner b = Some j"
      "stack_of aid = Some j"
      "sb_ptr b AND (ucast al - 1) = 0" "slab_inv s1 (insert b L)" "\<forall>c\<in>L. block_bytes b \<inter> block_bytes c = {}"
proof (cases "stack_of aid")
  case None
  show thesis by (rule heap [OF slab_try_stack_heap [OF None]]) simp_all
next
  case (Some j)
  obtain s1 p where run: "slab_try_stack s sz aid al = (s1, p)" by fastforce
  note eq = slab_try_stack_eq [OF ok Some run]
  note inv' = inv [unfolded slab_inv_def]
  have j: "j < length (slab_regions s)" by (rule stack_of_region [OF ok Some])
  hence fitj: "unat (st_end (slab_regions s ! j)) + unat al + unat sz < 2 ^ 64" using fit by (simp add: request_fits_def)
  show thesis
  proof (cases "p = 0")
    case True
    have "slab_regions s1 ! j = slab_regions s ! j" by (rule stack_allocate_full [OF inv' j al fitj eq(2) [unfolded True]])
    hence "slab_regions s1 = slab_regions s" using eq(3) by simp
    thus thesis using run eq(1) unfolding True by (intro heap)
  next
    case False
    define b where "b = \<lparr>sb_owner = Some j, sb_ptr = p, sb_size = sz, sb_start = p, sb_len = unat sz\<rparr>"
    note new = stack_allocate_inv [OF inv' j sz al fitj eq(2) False b_def]
    have "slab_inv s1 (insert b L)" unfolding slab_inv_def eq(1) using new(1) eq(3) by simp
    thus thesis using new run False Some by (intro stack [of s1 b j]) (simp_all add: b_def)
  qed
qed

lemma slab_allocate_ok:
  assumes inv: "slab_inv s L" and ok: "id_ok s aid" and sz: "sz \<noteq> 0" and al: "al \<noteq> 0" "(al - 1) AND al = 0"
    and fit: "request_fits s sz al" and m: "malloc_ok (slab_regions s) L sz al malloc"
    and aid: "aid = (if id0 = allocator_current then sa_current s tid else id0)"
  shows "\<exists>s' b. slab_allocate tid s sz id0 al malloc = Inr (s', sb_ptr b) \<and> sb_size b = sz \<and> sb_ptr b AND (ucast al - 1) = 0 \<and>
    sb_owner b \<in> {None, stack_of aid} \<and> (\<forall>c\<in>L. block_bytes b \<inter> block_bytes c = {}) \<and> slab_inv s' (insert b L)"
proof -
  have unfold: "slab_allocate tid s sz id0 al malloc =
     (let (s1, ptr) = slab_try_stack s sz aid al
        in hx_bind
          (if ptr = 0
           then let s2 = (if aid \<ge> allocator_permanent then s1\<lparr>sa_overflows := sa_overflows s1 + 1\<rparr> else s1)
                in hx_map (\<lambda>(h, p). (s2\<lparr>sa_heap := h\<rparr>, p)) (heap_allocate (sa_heap s2) sz al malloc)
           else Inr (s1, ptr)) (\<lambda>(s3, p).
          if p AND (ucast al - 1) \<noteq> 0 then Inl (Assert_debug ''bad_align wrong'') else Inr (s3, p)))"
    using ok al by (simp add: slab_allocate_def aid [symmetric] Let_def)
  from inv ok sz al(1) fit show ?thesis
  proof (cases rule: slab_try_stack_inv)
    case (heap s1)
    define s2 where "s2 = (if aid \<ge> allocator_permanent then s1\<lparr>sa_overflows := sa_overflows s1 + 1\<rparr> else s1)"
    have h2: "sa_heap s2 = sa_heap s" "slab_regions s2 = slab_regions s" using heap by (simp_all add: s2_def slab_regions_def)
    obtain h' p b where a: "heap_allocate (sa_heap s) sz al malloc = Inr (h', p)"
      "b = \<lparr>sb_owner = None, sb_ptr = p, sb_size = sz, sb_start = malloc, sb_len = unat (heap_total sz al)\<rparr>"
      "slab_view_inv h' (slab_regions s) (insert b L)" "\<forall>c\<in>L. block_bytes b \<inter> block_bytes c = {}" "p AND (ucast al - 1) = 0"
      by (rule heap_allocate_inv [OF inv [unfolded slab_inv_def] sz al(1) m])
    have run: "slab_allocate tid s sz id0 al malloc = Inr (s2\<lparr>sa_heap := h'\<rparr>, p)"
      unfolding unfold heap(1) using a(1,5) by (simp add: s2_def [symmetric] h2)
    have "slab_regions (s2\<lparr>sa_heap := h'\<rparr>) = slab_regions s" using h2 by (simp add: slab_regions_def)
    hence "slab_inv (s2\<lparr>sa_heap := h'\<rparr>) (insert b L)" using a(3) by (simp add: slab_inv_def)
    thus ?thesis using run a(2,4,5) by (intro exI [of _ "s2\<lparr>sa_heap := h'\<rparr>"] exI [of _ b]) simp
  next
    case (stack s1 b j)
    have "slab_allocate tid s sz id0 al malloc = Inr (s1, sb_ptr b)"
      unfolding unfold stack(1) using stack(2,6) by simp
    thus ?thesis using stack by (intro exI [of _ s1] exI [of _ b]) simp
  qed
qed

lemma block_not_in_other:
  assumes inv: "slab_view_inv h rs L" and b: "b \<in> L" and i: "i < length rs" "sb_owner b \<noteq> Some i"
  shows "\<not> stack_contains (rs ! i) (sb_ptr b)"
proof -
  note old = inv [unfolded slab_view_inv_def]
  have okb: "block_ok h rs b" using old b by blast
  have inb: "unat (sb_ptr b) \<in> block_bytes b" using okb block_ok_size(2) [OF okb] by (auto simp: block_bytes_def block_ok_def)
  show ?thesis
  proof (cases "sb_owner b")
    case None
    hence "block_bytes b \<inter> stack_bytes (rs ! i) = {}" using okb i by (simp add: block_ok_def)
    thus ?thesis using inb by (auto simp: stack_contains_bytes)
  next
    case (Some j)
    hence j: "j < length rs" using okb by (simp add: block_ok_def)
    have okj: "stack_ok (rs ! j)" using old j by auto
    have "stack_bytes (rs ! i) \<inter> stack_bytes (rs ! j) = {}"
      by (rule disjoint_other [OF _ i(1) j]) (use old Some i in auto)
    thus ?thesis using inb stack_block_in_stack(1) [OF okb Some okj] by (auto simp: stack_contains_bytes)
  qed
qed

lemma slab_free_ok:
  assumes inv: "slab_inv s L" and b: "b \<in> L"
  shows "\<exists>s'. slab_free s (sb_ptr b) = Inr (s', if sb_owner b = None then Some (sb_start b) else None) \<and> slab_inv s' (L - {b})"
proof -
  note view = inv [unfolded slab_inv_def]
  note old = view [unfolded slab_view_inv_def]
  have okb: "block_ok (sa_heap s) (slab_regions s) b" using old b by blast
  have nz: "sb_ptr b \<noteq> 0" using okb unfolding block_ok_def by (metis le_zero_eq unat_eq_0)
  note other = block_not_in_other [OF view b]
  have trunc: "stack_contains (slab_stack.truncate st) p = stack_contains st p" for st :: temp_stack and p
    by (simp add: stack_contains_def)
  have others: "\<not> stack_contains (sa_stacks s ! k) (sb_ptr b)" if "k < length (sa_stacks s)" "sb_owner b \<noteq> Some (Suc k)" for k
    using other [of "Suc k"] that by (simp add: regions_nth trunc) (simp add: slab_regions_def)
  show ?thesis
  proof (cases "sb_owner b")
    case None
    have "find_stack (sa_stacks s) (sb_ptr b) = None"
      unfolding find_stack_None all_set_conv_all_nth using others None by simp
    moreover have "\<not> stack_contains (sa_permanent s) (sb_ptr b)" using other [of 0] None by (simp add: slab_regions_def)
    moreover obtain h' where h: "heap_deallocate (sa_heap s) (sb_ptr b) = Inr (h', sb_start b)"
        "slab_view_inv h' (slab_regions s) (L - {b})"
      by (rule heap_deallocate_inv [OF view b None])
    ultimately have "slab_free s (sb_ptr b) = Inr (s\<lparr>sa_heap := h'\<rparr>, Some (sb_start b))" using nz by (simp add: slab_free_def)
    moreover have "slab_inv (s\<lparr>sa_heap := h'\<rparr>) (L - {b})" using h(2) by (simp add: slab_inv_def slab_regions_def)
    ultimately show ?thesis using None by auto
  next
    case (Some j)
    note d = stack_deallocate_inv [OF view b Some]
    have j: "j < length (slab_regions s)" using okb Some by (simp add: block_ok_def)
    show ?thesis
    proof (cases j)
      case 0
      have "find_stack (sa_stacks s) (sb_ptr b) = None"
        unfolding find_stack_None all_set_conv_all_nth using others Some 0 by simp
      hence "slab_free s (sb_ptr b) = Inr (s\<lparr>sa_permanent := (sa_permanent s)\<lparr>st_count := st_count (sa_permanent s) - 1\<rparr>\<rparr>, None)"
        using nz d(1,2) 0 by (simp add: slab_free_def slab_regions_def)
      moreover have "slab_inv (s\<lparr>sa_permanent := (sa_permanent s)\<lparr>st_count := st_count (sa_permanent s) - 1\<rparr>\<rparr>) (L - {b})"
        using d(3) 0 by (simp add: slab_inv_def slab_regions_def)
      ultimately show ?thesis using Some by auto
    next
      case (Suc k)
      have k: "k < length (sa_stacks s)" using j Suc by (simp add: slab_regions_def)
      have cont: "stack_contains (sa_stacks s ! k) (sb_ptr b)" using d(1) Suc k by (simp add: regions_nth trunc)
      have find: "find_stack (sa_stacks s) (sb_ptr b) = Some k"
        by (rule find_stack_Some [OF k cont]) (use others Some Suc k in auto)
      define st where "st = (sa_stacks s ! k)\<lparr>st_count := st_count (sa_stacks s ! k) - 1\<rparr>"
      have "stack_deallocate (sa_stacks s ! k) (sb_ptr b) = Inr st"
        using d(2) Suc k by (auto simp: stack_deallocate_def regions_nth st_def split: if_splits)
      hence "slab_free s (sb_ptr b) = Inr (s\<lparr>sa_stacks := (sa_stacks s)[k := st]\<rparr>, None)" using nz find by (simp add: slab_free_def)
      moreover have "slab_stack.truncate st = (slab_regions s ! j)\<lparr>st_count := st_count (slab_regions s ! j) - 1\<rparr>"
        using Suc k by (simp add: regions_nth st_def slab_stack.defs)
      hence "slab_inv (s\<lparr>sa_stacks := (sa_stacks s)[k := st]\<rparr>) (L - {b})"
        using d(3) Suc by (simp add: slab_inv_def regions_update)
      ultimately show ?thesis using Some by auto
    qed
  qed
qed


section \<open>Setting up\<close>

lemma slab_construct_inv:
  assumes "malloc \<noteq> 0" "unat malloc + 4096 < 2 ^ 64"
  shows "\<exists>s. slab_construct malloc = Inr s \<and> slab_inv s {} \<and> sa_stacks s = [] \<and> st_begin (sa_permanent s) = malloc \<and>
    st_end (sa_permanent s) = malloc + 4096"
proof -
  have le: "malloc \<le> malloc + 4096" using assms by (simp add: word_le_nat_alt unat_plus)
  show ?thesis using assms(1) le
    by (simp add: slab_construct_def hxmalloc_checked_def slab_inv_def slab_view_inv_def slab_regions_def stack_construct_def
      stack_ok_def heap_construct_def owned_def disjoint_family_on_def slab_budget_permanent_def)
qed

text \<open>The blocks that \<open>malloc\<close> returns for the stacks.\<close>

definition stack_mallocs_ok :: "slab_allocator \<Rightarrow> slab_block set \<Rightarrow> size_t list \<Rightarrow> uintptr_t list \<Rightarrow> bool" where
  "stack_mallocs_ok s L sizes mallocs = (length mallocs = length sizes \<and>
     (\<forall>i<length sizes. mallocs ! i \<noteq> 0 \<and> unat (mallocs ! i) + unat (sizes ! i) < 2 ^ 64 \<and>
       {unat (mallocs ! i) ..< unat (mallocs ! i) + unat (sizes ! i)} \<inter> stack_bytes (sa_permanent s) = {} \<and>
       (\<forall>c\<in>L. {unat (mallocs ! i) ..< unat (mallocs ! i) + unat (sizes ! i)} \<inter> block_bytes c = {})) \<and>
     disjoint_family_on (\<lambda>i. {unat (mallocs ! i) ..< unat (mallocs ! i) + unat (sizes ! i)}) {..<length sizes})"

lemma construct_stacks_eq:
  "length mallocs = length sizes \<Longrightarrow> 0 \<notin> set mallocs \<Longrightarrow>
   construct_stacks sizes mallocs = Inr (map (\<lambda>(sz, ptr). temp_stack_construct ptr sz) (zip sizes mallocs))"
  by (induction sizes mallocs rule: construct_stacks.induct) (auto simp: hxmalloc_checked_def)

lemma temp_construct_truncate: "slab_stack.truncate (temp_stack_construct ptr sz) = stack_construct ptr sz"
  by (simp add: temp_stack_construct_def slab_stack.defs temp_stack.defs stack_construct_def)

lemma slab_allocate_stacks_inv:
  assumes inv: "slab_inv s L" and no: "sa_stacks s = []" and n: "length sizes \<le> 3" and m: "stack_mallocs_ok s L sizes mallocs"
  shows "\<exists>s'. slab_allocate_stacks s sizes mallocs = Inr s' \<and> slab_inv s' L \<and>
    slab_regions s' = sa_permanent s # map (\<lambda>(sz, ptr). stack_construct ptr sz) (zip sizes mallocs) \<and> sa_heap s' = sa_heap s"
proof -
  note old = inv [unfolded slab_inv_def slab_view_inv_def]
  define news where "news = map (\<lambda>(sz, ptr). stack_construct ptr sz) (zip sizes mallocs)"
  define s' where "s' = s\<lparr>sa_stacks := map (\<lambda>(sz, ptr). temp_stack_construct ptr sz) (zip sizes mallocs)\<rparr>"
  have len: "length mallocs = length sizes" "length news = length sizes" using m by (auto simp: stack_mallocs_ok_def news_def)
  have mi: "mallocs ! i \<noteq> 0" "unat (mallocs ! i + sizes ! i) = unat (mallocs ! i) + unat (sizes ! i)"
    "news ! i = stack_construct (mallocs ! i) (sizes ! i)" if "i < length sizes" for i
    using m that by (auto simp: stack_mallocs_ok_def news_def unat_plus)
  have nz: "0 \<notin> set mallocs" using mi(1) len by (auto simp: in_set_conv_nth)
  have run: "slab_allocate_stacks s sizes mallocs = Inr s'"
    using no n by (simp add: slab_allocate_stacks_def slab_max_stacks_def construct_stacks_eq [OF len(1) nz] s'_def)
  have rs: "slab_regions s = [sa_permanent s]" using no by (simp add: slab_regions_def)
  have rs': "slab_regions s' = sa_permanent s # news"
    by (simp add: slab_regions_def s'_def news_def temp_construct_truncate split_def)
  have nb: "stack_bytes (news ! i) = {unat (mallocs ! i) ..< unat (mallocs ! i) + unat (sizes ! i)}" if "i < length sizes" for i
    using mi [OF that] by (simp add: stack_bytes_def stack_construct_def)
  have apart: "stack_bytes (news ! i) \<inter> stack_bytes (sa_permanent s) = {}"
    "\<forall>c\<in>L. stack_bytes (news ! i) \<inter> block_bytes c = {}" if "i < length sizes" for i
    using m that by (simp_all add: stack_mallocs_ok_def nb)
  have "disjoint_family_on (\<lambda>i. stack_bytes (news ! i)) {..<length sizes}"
    using m by (simp add: stack_mallocs_ok_def disjoint_family_on_def nb)
  hence dr: "disjoint_family_on (\<lambda>j. stack_bytes (slab_regions s' ! j)) {..<length (slab_regions s')}"
    using apart(1) by (auto simp: rs' disjoint_family_on_def nth_Cons len Int_commute split: nat.splits)
  have okn: "stack_ok (news ! i)" if "i < length sizes" for i
    using mi [OF that] by (simp add: stack_ok_def stack_construct_def word_le_nat_alt)
  have oks: "\<forall>st\<in>set (slab_regions s'). stack_ok st"
    using old okn by (auto simp: rs rs' in_set_conv_nth len)
  have newapart: "\<forall>st\<in>set news. block_bytes b \<inter> stack_bytes st = {}" if "b \<in> L" for b
  proof
    fix st assume "st \<in> set news"
    then obtain i where i: "i < length sizes" "st = news ! i" by (auto simp: in_set_conv_nth len)
    have "stack_bytes (news ! i) \<inter> block_bytes b = {}" using apart(2) [OF i(1)] that by blast
    thus "block_bytes b \<inter> stack_bytes st = {}" using i(2) by (simp add: Int_commute)
  qed
  have okb: "block_ok (sa_heap s) (slab_regions s') b" if "b \<in> L" for b
  proof -
    have "block_ok (sa_heap s) [sa_permanent s] b" using old that by (simp add: rs)
    thus ?thesis using newapart [OF that] by (auto simp: rs' block_ok_def split: option.splits)
  qed
  have none: "owned L (Some (Suc k)) = {}" for k
  proof -
    have "sb_owner b \<noteq> Some (Suc k)" if "b \<in> L" for b
    proof
      assume "sb_owner b = Some (Suc k)"
      moreover have "block_ok (sa_heap s) [sa_permanent s] b" using old that by (simp add: rs)
      ultimately show False by (simp add: block_ok_def)
    qed
    thus ?thesis by (auto simp: owned_def)
  qed
  have counts: "unat (st_count (slab_regions s' ! j)) = card (owned L (Some j))" if "j < length (slab_regions s')" for j
    using that old by (cases j) (auto simp: rs rs' none mi len stack_construct_def)
  have "sa_heap s' = sa_heap s" by (simp add: s'_def)
  moreover have "slab_inv s' L" unfolding slab_inv_def slab_view_inv_def using old dr oks okb counts by (simp add: s'_def)
  ultimately show ?thesis using run rs' by (auto simp: news_def)
qed


section \<open>Scopes\<close>

text \<open>Resetting a stack to a mark keeps every block below the mark.\<close>

lemma stack_reset_inv:
  assumes inv: "slab_view_inv h rs L" and j: "j < length rs" and lo: "st_begin (rs ! j) \<le> m" and hi: "m \<le> st_end (rs ! j)"
    and below: "\<And>b. b \<in> L \<Longrightarrow> sb_owner b = Some j \<Longrightarrow> unat (sb_ptr b) + unat (sb_size b) \<le> unat m"
  shows "slab_view_inv h (rs[j := (rs ! j)\<lparr>st_current := m\<rparr>]) L"
proof -
  note old = inv [unfolded slab_view_inv_def]
  let ?st = "(rs ! j)\<lparr>st_current := m\<rparr>"
  have okj: "stack_ok (rs ! j)" using old j by auto
  have shape: "st_begin (rs[j := ?st] ! i) = st_begin (rs ! i)" "stack_bytes (rs[j := ?st] ! i) = stack_bytes (rs ! i)"
    "st_count (rs[j := ?st] ! i) = st_count (rs ! i)" for i
    using j by (cases "i = j"; simp add: stack_bytes_def)+
  have current: "st_current (rs[j := ?st] ! i) = (if i = j then m else st_current (rs ! i))" for i
    using j by simp
  have sames: "(\<forall>x\<in>set (rs[j := ?st]). B \<inter> stack_bytes x = {}) \<longleftrightarrow> (\<forall>x\<in>set rs. B \<inter> stack_bytes x = {})" for B
    by (simp add: all_set_conv_all_nth shape)
  have okb: "block_ok h (rs[j := ?st]) b" if b: "b \<in> L" for b
  proof -
    have "block_ok h rs b" using old b by blast
    thus ?thesis using below [OF b] unfolding block_ok_def sames by (auto simp: shape current split: option.splits)
  qed
  have oks: "\<forall>x\<in>set (rs[j := ?st]). stack_ok x"
    unfolding all_set_conv_all_nth using old okj lo hi j by (auto simp: nth_list_update stack_ok_def)
  show ?thesis unfolding slab_view_inv_def shape using old okb oks by (simp add: shape)
qed

definition same_stacks :: "slab_allocator \<Rightarrow> slab_allocator \<Rightarrow> bool" where
  "same_stacks s s' = (map (\<lambda>st. (st_begin st, st_end st)) (sa_stacks s') = map (\<lambda>st. (st_begin st, st_end st)) (sa_stacks s))"

lemma same_stacks_nth:
  assumes "same_stacks s s'"
  shows "length (sa_stacks s') = length (sa_stacks s)"
    and "k < length (sa_stacks s) \<Longrightarrow> st_begin (sa_stacks s' ! k) = st_begin (sa_stacks s ! k) \<and> st_end (sa_stacks s' ! k) = st_end (sa_stacks s ! k)"
proof -
  have eq: "map (\<lambda>st. (st_begin st, st_end st)) (sa_stacks s') = map (\<lambda>st. (st_begin st, st_end st)) (sa_stacks s)"
    using assms by (simp add: same_stacks_def)
  thus len: "length (sa_stacks s') = length (sa_stacks s)" by (rule map_eq_imp_length_eq)
  assume "k < length (sa_stacks s)"
  thus "st_begin (sa_stacks s' ! k) = st_begin (sa_stacks s ! k) \<and> st_end (sa_stacks s' ! k) = st_end (sa_stacks s ! k)"
    using arg_cong [OF eq, of "\<lambda>xs. xs ! k"] len by simp
qed

text \<open>
  A scope on a temporary stack, with any work in between that leaves only blocks of before alive in that stack.
\<close>

lemma slab_scope_stack:
  assumes inv: "slab_inv s L" and aid: "aid = 2 + int k" "k < length (sa_stacks s)"
    and opened: "slab_begin_scope tid s aid = Inr (s1, scope)"
    and inv2: "slab_inv s2 L2" and same: "same_stacks s s2" and cur: "sa_current s2 tid = aid"
    and thread: "ts_owner (sa_stacks s2 ! k) = tid" and freed: "owned L2 (Some (Suc k)) \<subseteq> L"
  shows "\<exists>s3. slab_end_scope tid s2 scope = Inr s3 \<and> slab_inv s3 L2 \<and> sa_current s3 = (sa_current s2)(tid := sa_current s tid) \<and>
    st_current (sa_stacks s3 ! k) = st_current (sa_stacks s ! k)"
proof -
  note old = inv [unfolded slab_inv_def slab_view_inv_def] and old2 = inv2 [unfolded slab_inv_def slab_view_inv_def]
  note shape = same_stacks_nth [OF same]
  let ?st = "sa_stacks s ! k" and ?st2 = "sa_stacks s2 ! k"
  have idx: "stack_index aid = k" "aid \<ge> allocator_stack_0" by (simp_all add: aid stack_index_def allocator_stack_0_def)
  have sc: "sc_count scope = st_count ?st" "sc_bytes scope = st_current ?st - st_begin ?st" "sc_initial scope = sa_current s tid"
    using opened by (auto simp: slab_begin_scope_def idx temp_stack_begin_scope_def Let_def split: if_splits)
  have k2: "k < length (sa_stacks s2)" using aid(2) shape(1) by simp
  have rk: "slab_regions s ! Suc k = slab_stack.truncate ?st" "slab_regions s2 ! Suc k = slab_stack.truncate ?st2"
    "Suc k < length (slab_regions s)" "Suc k < length (slab_regions s2)"
    using aid(2) k2 by (simp_all add: regions_nth) (simp_all add: slab_regions_def)
  have ends: "st_begin ?st2 = st_begin ?st" "st_end ?st2 = st_end ?st" using shape(2) [OF aid(2)] by blast+
  have ok: "stack_ok (slab_regions s ! Suc k)" using old rk(3) by auto
  have "owned L2 (Some (Suc k)) \<subseteq> owned L (Some (Suc k))" using freed by (auto simp: owned_def)
  hence "card (owned L2 (Some (Suc k))) \<le> card (owned L (Some (Suc k)))" using old by (intro card_mono) auto
  hence "unat (st_count ?st2) \<le> unat (st_count ?st)" using old old2 rk by (metis stack_truncate(1))
  hence count: "st_count ?st2 \<le> st_count ?st" by (simp add: word_le_nat_alt)
  define st3 where "st3 = ?st2\<lparr>ts_depth := ts_depth ?st2 - 1, ts_owner := (if ts_depth ?st2 - 1 = 0 then 0 else ts_owner ?st2),
     ts_high := max (ts_high ?st2) (st_current ?st2), st_current := st_current ?st\<rparr>"
  have run2: "temp_stack_end_scope tid ?st2 scope = Inr st3"
    using thread count ends by (simp add: temp_stack_end_scope_def Let_def sc st3_def)
  define s3 where "s3 = s2\<lparr>sa_stacks := (sa_stacks s2)[k := st3], sa_current := (sa_current s2)(tid := sa_current s tid)\<rparr>"
  have run: "slab_end_scope tid s2 scope = Inr s3"
    using run2 k2 idx by (simp add: slab_end_scope_def cur sc s3_def) (simp add: aid allocator_stack_0_def)
  have trunc: "slab_stack.truncate st3 = (slab_regions s2 ! Suc k)\<lparr>st_current := st_current ?st\<rparr>"
    by (simp add: rk st3_def slab_stack.defs)
  have below: "unat (sb_ptr b) + unat (sb_size b) \<le> unat (st_current ?st)" if "b \<in> L2" "sb_owner b = Some (Suc k)" for b
  proof -
    have "b \<in> L" using that freed by auto
    hence "block_ok (sa_heap s) (slab_regions s) b" using old by blast
    thus ?thesis using that(2) by (simp add: block_ok_def rk)
  qed
  have "slab_view_inv (sa_heap s2) ((slab_regions s2)[Suc k := (slab_regions s2 ! Suc k)\<lparr>st_current := st_current ?st\<rparr>]) L2"
    by (rule stack_reset_inv [OF inv2 [unfolded slab_inv_def] rk(4) _ _ below]) (use ok ends in \<open>simp_all add: rk stack_ok_def\<close>)
  moreover have "slab_regions s3 = (slab_regions s2)[Suc k := slab_stack.truncate st3]"
    by (simp add: s3_def slab_regions_def map_update)
  ultimately have "slab_inv s3 L2" by (simp add: slab_inv_def s3_def trunc)
  moreover have "st_current (sa_stacks s3 ! k) = st_current ?st" using k2 by (simp add: s3_def st3_def)
  ultimately show ?thesis using run by (simp add: s3_def)
qed


section \<open>A small instance\<close>

definition slab_example_block :: slab_block where
  "slab_example_block = \<lparr>sb_owner = Some 0, sb_ptr = 0x1000, sb_size = 24, sb_start = 0x1000, sb_len = 24\<rparr>"

definition slab_example :: "temp_stack \<Rightarrow> (size_t \<Rightarrow> int) \<Rightarrow> slab_allocator" where
  "slab_example st cur = \<lparr>sa_heap = heap_construct,
     sa_permanent = \<lparr>st_count = 1, st_begin = 0x1000, st_end = 0x2000, st_current = 0x1018\<rparr>,
     sa_stacks = [st], sa_overflows = 0, sa_current = cur\<rparr>"

lemma slab_example_inv:
  assumes "st_begin st = 0x4000" "st_end st = 0x4040" "st_current st = 0x4000 \<or> st_current st = 0x4020" "st_count st = 0"
  shows "slab_inv (slab_example st cur) {slab_example_block}"
proof -
  have own: "owned {slab_example_block} own = (if own = Some 0 then {slab_example_block} else {})" for own
    by (auto simp: owned_def slab_example_block_def)
  have rs: "slab_regions (slab_example st cur) = [\<lparr>st_count = 1, st_begin = 0x1000, st_end = 0x2000, st_current = 0x1018\<rparr>,
     slab_stack.truncate st]" by (simp add: slab_regions_def slab_example_def)
  have dis: "disjoint_family_on (\<lambda>j. stack_bytes (slab_regions (slab_example st cur) ! j)) {..<length (slab_regions (slab_example st cur))}"
  proof -
    have "stack_bytes \<lparr>st_count = 1, st_begin = 0x1000, st_end = 0x2000, st_current = 0x1018\<rparr> \<inter> stack_bytes (slab_stack.truncate st) = {}"
      using assms by (simp add: stack_bytes_def)
    thus ?thesis by (auto simp: rs disjoint_family_on_def less_Suc_eq disjoint_iff)
  qed
  have "stack_ok (slab_stack.truncate st)" using assms by (auto simp: stack_ok_def)
  hence oks: "\<forall>x\<in>set (slab_regions (slab_example st cur)). stack_ok x" by (simp add: rs) (simp add: stack_ok_def)
  have okb: "block_ok (sa_heap (slab_example st cur)) (slab_regions (slab_example st cur)) slab_example_block"
    by (simp add: block_ok_def rs slab_example_block_def)
  have counts: "\<forall>j<length (slab_regions (slab_example st cur)).
      unat (st_count (slab_regions (slab_example st cur) ! j)) = card (owned {slab_example_block} (Some j))"
    using assms by (auto simp: rs own less_Suc_eq)
  have heap: "unat (oh_count (sa_heap (slab_example st cur))) = 0" "unat (oh_bytes (sa_heap (slab_example st cur))) = 0"
    by (simp_all add: slab_example_def heap_construct_def)
  show ?thesis unfolding slab_inv_def slab_view_inv_def
  proof (intro conjI)
    show "disjoint_family_on block_bytes {slab_example_block}" by (simp add: disjoint_family_on_def)
  qed (use dis oks okb counts heap in \<open>simp_all add: own\<close>)
qed

section \<open>Properties\<close>

text \<open>C5: an allocation of a positive size from the heap, the permanent stack or a temporary stack returns an aligned block that
  shares no byte with a live allocation, whether the stack has room or the request overflows to the heap, and the memory
  manager stays consistent: counts, bytes, headers and stack bounds describe the live allocations. The hypotheses are the
  asserted argument checks, no wrap of the address space in a stack, and \<open>malloc\<close>'s own contract.
\<close>

theorem slab_allocate_apart:
  assumes "slab_inv s L" and "id_ok s (if id0 = allocator_current then sa_current s tid else id0)" and "sz \<noteq> 0"
    and "al \<noteq> 0" and "(al - 1) AND al = 0"
    and "request_fits s sz al" and "malloc_ok (slab_regions s) L sz al malloc"
  shows "\<exists>s' b. slab_allocate tid s sz id0 al malloc = Inr (s', sb_ptr b) \<and> sb_size b = sz \<and> sb_ptr b AND (ucast al - 1) = 0 \<and>
    sb_owner b \<in> {None, stack_of (if id0 = allocator_current then sa_current s tid else id0)} \<and>
    (\<forall>c\<in>L. block_bytes b \<inter> block_bytes c = {}) \<and> slab_inv s' (insert b L)"
  by (rule slab_allocate_ok [OF assms(1-7) refl])

theorem slab_allocate_apart_witness:
  "\<exists>s' b. slab_allocate 7 (slab_example (temp_stack_construct 0x4000 64) (\<lambda>_. 2)) 24 (-1) 8 0x8000 = Inr (s', sb_ptr b) \<and>
    sb_size b = 24 \<and> slab_inv s' {b, slab_example_block}"
proof -
  have inv: "slab_inv (slab_example (temp_stack_construct 0x4000 64) (\<lambda>_. 2)) {slab_example_block}"
    by (rule slab_example_inv) (simp_all add: temp_stack_construct_def slab_stack.defs temp_stack.defs stack_construct_def)
  have rs: "slab_regions (slab_example (temp_stack_construct 0x4000 64) (\<lambda>_. 2)) =
     [\<lparr>st_count = 1, st_begin = 0x1000, st_end = 0x2000, st_current = 0x1018\<rparr>, stack_construct 0x4000 64]"
    by (simp add: slab_regions_def slab_example_def temp_construct_truncate)
  have "id_ok (slab_example (temp_stack_construct 0x4000 64) (\<lambda>_. 2))
     (if -1 = allocator_current then sa_current (slab_example (temp_stack_construct 0x4000 64) (\<lambda>_. 2)) 7 else -1)"
    by (simp add: id_ok_def allocator_current_def slab_example_def allocator_stack_0_def)
  moreover have "request_fits (slab_example (temp_stack_construct 0x4000 64) (\<lambda>_. 2)) 24 8"
    by (simp add: request_fits_def rs stack_construct_def)
  moreover have "malloc_ok (slab_regions (slab_example (temp_stack_construct 0x4000 64) (\<lambda>_. 2))) {slab_example_block} 24 8 0x8000"
    by (simp add: malloc_ok_def rs stack_construct_def stack_bytes_def block_bytes_def slab_example_block_def)
  ultimately show ?thesis
    using slab_allocate_apart [OF inv, of "-1" 7 24 8 "0x8000"] by simp blast
qed

text \<open>\<open>free\<close> of a live allocation finds the allocator it came from by its address alone, returns a heap block to \<open>malloc\<close> by the
  address \<open>malloc\<close> gave, raises no assertion, and leaves the other allocations live and the counters exact.
\<close>

lemma slab_free_finds_owner:
  assumes "slab_inv s L" and "b \<in> L"
  shows "\<exists>s'. slab_free s (sb_ptr b) = Inr (s', if sb_owner b = None then Some (sb_start b) else None) \<and> slab_inv s' (L - {b})"
  by (rule slab_free_ok [OF assms])

lemma slab_free_finds_owner_witness:
  "\<exists>s'. slab_free (slab_example (temp_stack_construct 0x4000 64) (\<lambda>_. 0)) 0x1000 = Inr (s', None) \<and> slab_inv s' {}"
proof -
  have "slab_inv (slab_example (temp_stack_construct 0x4000 64) (\<lambda>_. 0)) {slab_example_block}"
    by (rule slab_example_inv) (simp_all add: temp_stack_construct_def slab_stack.defs temp_stack.defs stack_construct_def)
  from slab_free_finds_owner [OF this, of slab_example_block] show ?thesis by (simp add: slab_example_block_def)
qed

text \<open>Closing a scope on a temporary stack puts the stack back where the scope found it and the thread back on its previous
  allocator, passes the leak check, and keeps every live allocation, provided only allocations of before the scope are still
  live in that stack and the scope is closed on the thread that opened it.
\<close>

lemma slab_scope_restores:
  assumes "slab_inv s L" and "aid = 2 + int k" and "k < length (sa_stacks s)"
    and "slab_begin_scope tid s aid = Inr (s1, scope)"
    and "slab_inv s2 L2" and "same_stacks s s2" and "sa_current s2 tid = aid"
    and "ts_owner (sa_stacks s2 ! k) = tid" and "owned L2 (Some (Suc k)) \<subseteq> L"
  shows "\<exists>s3. slab_end_scope tid s2 scope = Inr s3 \<and> slab_inv s3 L2 \<and> sa_current s3 = (sa_current s2)(tid := sa_current s tid) \<and>
    st_current (sa_stacks s3 ! k) = st_current (sa_stacks s ! k)"
  by (rule slab_scope_stack [OF assms])

lemma slab_scope_restores_witness:
  "\<exists>s1 scope s3. slab_begin_scope 7 (slab_example (temp_stack_construct 0x4000 64) (\<lambda>_. 0)) 2 = Inr (s1, scope) \<and>
    slab_end_scope 7 (slab_example ((temp_stack_construct 0x4000 64)\<lparr>st_current := 0x4020, ts_owner := 7, ts_depth := 1\<rparr>) (\<lambda>_. 2)) scope = Inr s3 \<and>
    sa_current s3 7 = 0 \<and> st_current (sa_stacks s3 ! 0) = 0x4000"
proof -
  let ?st = "temp_stack_construct 0x4000 64"
  let ?s = "slab_example ?st (\<lambda>_. 0)"
  let ?s2 = "slab_example (?st\<lparr>st_current := 0x4020, ts_owner := 7, ts_depth := 1\<rparr>) (\<lambda>_. 2)"
  note defs = temp_stack_construct_def slab_stack.defs temp_stack.defs stack_construct_def
  have inv: "slab_inv ?s {slab_example_block}" by (rule slab_example_inv) (simp_all add: defs)
  have inv2: "slab_inv ?s2 {slab_example_block}" by (rule slab_example_inv) (simp_all add: defs)
  have len: "0 < length (sa_stacks ?s)" and same: "same_stacks ?s ?s2" and cur: "sa_current ?s2 7 = 2 + int 0"
    and thread: "ts_owner (sa_stacks ?s2 ! 0) = 7" by (simp_all add: slab_example_def same_stacks_def)
  have sub: "owned {slab_example_block} (Some (Suc 0)) \<subseteq> {slab_example_block}" by (auto simp: owned_def)
  obtain s1 scope where run: "slab_begin_scope 7 ?s (2 + int 0) = Inr (s1, scope)"
    by (cases "slab_begin_scope 7 ?s (2 + int 0)")
      (auto simp: slab_begin_scope_def id_ok_def slab_example_def temp_stack_begin_scope_def allocator_stack_0_def stack_index_def defs)
  obtain s3 where s3: "slab_end_scope 7 ?s2 scope = Inr s3" "sa_current s3 = (sa_current ?s2)(7 := sa_current ?s 7)"
    "st_current (sa_stacks s3 ! 0) = st_current (sa_stacks ?s ! 0)"
    using slab_scope_restores [OF inv refl len run inv2 same cur thread sub] by blast
  have "sa_current s3 7 = 0" "st_current (sa_stacks s3 ! 0) = 0x4000" using s3(2,3) by (simp_all add: slab_example_def defs)
  moreover have "slab_begin_scope 7 ?s 2 = Inr (s1, scope)" using run by simp
  ultimately show ?thesis using s3(1) by blast
qed

text \<open>An allocation of size 0 from a full permanent stack returns the end of the stack, which \<open>contains\<close> does not count as the
  stack's own, so \<open>free\<close> of it goes on to the heap and reads a header that is not there.
\<close>

lemma zero_size_free_misses_its_stack:
  assumes "st_current (sa_permanent s) = st_end (sa_permanent s)" and "st_end (sa_permanent s) \<noteq> 0"
    and "find_stack (sa_stacks s) (st_end (sa_permanent s)) = None"
    and "oh_headers (sa_heap s) (st_end (sa_permanent s)) = None"
  shows "\<exists>s'. slab_allocate tid s 0 allocator_permanent 1 malloc = Inr (s', st_end (sa_permanent s)) \<and>
    slab_free s' (st_end (sa_permanent s)) = Inl (Undefined_behavior ''no header'')"
proof -
  let ?p = "st_end (sa_permanent s)"
  let ?s' = "s\<lparr>sa_permanent := (sa_permanent s)\<lparr>st_count := st_count (sa_permanent s) + 1, st_current := ?p\<rparr>\<rparr>"
  have "slab_allocate tid s 0 allocator_permanent 1 malloc = Inr (?s', ?p)"
    using assms(1,2) by (simp add: slab_allocate_def slab_try_stack_def stack_allocate_def id_ok_def allocator_permanent_def
      allocator_current_def allocator_stack_0_def Let_def)
  moreover have "slab_free ?s' ?p = Inl (Undefined_behavior ''no header'')"
    using assms(2-4) by (simp add: slab_free_def stack_contains_def heap_deallocate_def)
  ultimately show ?thesis by blast
qed

lemma zero_size_free_misses_its_stack_witness:
  "\<exists>s'. slab_allocate 7 \<lparr>sa_heap = heap_construct, sa_permanent = \<lparr>st_count = 1, st_begin = 0x1000, st_end = 0x2000, st_current = 0x2000\<rparr>,
     sa_stacks = [], sa_overflows = 0, sa_current = (\<lambda>_. 0)\<rparr> 0 allocator_permanent 1 0 = Inr (s', 0x2000) \<and>
   slab_free s' 0x2000 = Inl (Undefined_behavior ''no header'')"
  using zero_size_free_misses_its_stack [of "\<lparr>sa_heap = heap_construct, sa_permanent = \<lparr>st_count = 1, st_begin = 0x1000,
     st_end = 0x2000, st_current = 0x2000\<rparr>, sa_stacks = [], sa_overflows = 0, sa_current = (\<lambda>_. 0)\<rparr>" 7 0]
  by (simp add: heap_construct_def)

end
