(* ===== verification/HxExpected.thy ===== *)
theory HxExpected
  imports HxVector
begin

text \<open>
  The expected value of \<^verbatim>\<open>include/hx/hxexpected.hpp\<close> and \<^verbatim>\<open>detail/hxexpected.inl\<close>: an error of a type \<open>E\<close> beside a
  storage for one value of a type \<open>T\<close>, which holds an object exactly while the error converts to false. What \<open>E\<close> provides is the
  record \<open>error_ops\<close>: its conversion to \<open>bool\<close>, its construction from a \<open>bool\<close> and what a move leaves of it; \<open>moved\<close> is what
  a move leaves of a value.
\<close>

section \<open>State\<close>

record 'e error_ops =
  err_bool :: "'e \<Rightarrow> bool"
  err_of_bool :: "bool \<Rightarrow> 'e"
  err_moved :: "'e \<Rightarrow> 'e"

text \<open>The default, \<open>E = bool\<close>.\<close>

definition bool_error :: "bool error_ops" where
  "bool_error = \<lparr>err_bool = (\<lambda>b. b), err_of_bool = (\<lambda>b. b), err_moved = (\<lambda>b. b)\<rparr>"

record ('a, 'e) hxexpected =
  ex_data :: "'a option list"
  ex_error :: 'e

definition ex_has_value :: "'e error_ops \<Rightarrow> ('a, 'e) hxexpected \<Rightarrow> bool" where
  "ex_has_value K x = (\<not> err_bool K (ex_error x))"

text \<open>What the constructors and assignments do to the storage.\<close>

definition ex_construct :: "'a \<Rightarrow> ('a, 'e) hxexpected \<Rightarrow> ('a, 'e) hxexpected hx" where
  "ex_construct v x = hx_map (\<lambda>m. x\<lparr>ex_data := m\<rparr>) (construct_slot (ex_data x) 0 v)"

definition ex_overwrite :: "'a \<Rightarrow> ('a, 'e) hxexpected \<Rightarrow> ('a, 'e) hxexpected hx" where
  "ex_overwrite v x = hx_map (\<lambda>m. x\<lparr>ex_data := m\<rparr>) (assign_slot (ex_data x) 0 v)"

definition ex_destruct :: "('a, 'e) hxexpected \<Rightarrow> ('a, 'e) hxexpected hx" where
  "ex_destruct x = hx_map (\<lambda>m. x\<lparr>ex_data := m\<rparr>) (destroy_slot (ex_data x) 0)"

abbreviation ex_read :: "('a, 'e) hxexpected \<Rightarrow> 'a hx" where
  "ex_read x \<equiv> read_slot (ex_data x) 0"

text \<open>\<open>hxmove(*x.data())\<close>: the value, and the object that held it.\<close>

definition ex_take :: "('a \<Rightarrow> 'a) \<Rightarrow> ('a, 'e) hxexpected \<Rightarrow> ('a \<times> ('a, 'e) hxexpected) hx" where
  "ex_take moved x = hx_bind (ex_read x) (\<lambda>v. hx_map (Pair v) (ex_overwrite (moved v) x))"

section \<open>Construction and destruction\<close>

definition hxexpected_new :: "'e error_ops \<Rightarrow> ('a, 'e) hxexpected" where
  "hxexpected_new K = \<lparr>ex_data = [None], ex_error = err_of_bool K True\<rparr>"

definition ex_reset :: "'e error_ops \<Rightarrow> ('a, 'e) hxexpected \<Rightarrow> ('a, 'e) hxexpected hx" where
  "ex_reset K x = hx_map (\<lambda>x1. x1\<lparr>ex_error := err_of_bool K True\<rparr>) (if ex_has_value K x then ex_destruct x else Inr x)"

definition hxexpected_copy :: "'e error_ops \<Rightarrow> ('a, 'e) hxexpected \<Rightarrow> ('a, 'e) hxexpected hx" where
  "hxexpected_copy K x =
     (let y = \<lparr>ex_data = [None], ex_error = ex_error x\<rparr>
      in if ex_has_value K y then hx_bind (ex_read x) (\<lambda>v. ex_construct v y) else Inr y)"

definition hxexpected_move :: "'e error_ops \<Rightarrow> ('a \<Rightarrow> 'a) \<Rightarrow> ('a, 'e) hxexpected \<Rightarrow> (('a, 'e) hxexpected \<times> ('a, 'e) hxexpected) hx" where
  "hxexpected_move K moved x =
     (let y = \<lparr>ex_data = [None], ex_error = ex_error x\<rparr>; x1 = x\<lparr>ex_error := err_moved K (ex_error x)\<rparr>
      in if ex_has_value K y
         then hx_bind (ex_take moved x1) (\<lambda>(v, x2). hx_bind (ex_construct v y) (\<lambda>y1. hx_map (Pair y1) (ex_reset K x2)))
         else Inr (y, x1))"

text \<open>From an error, and the arguments of the value when the error converts to false.\<close>

definition hxexpected_of_error :: "'e error_ops \<Rightarrow> 'e \<Rightarrow> 'a \<Rightarrow> ('a, 'e) hxexpected hx" where
  "hxexpected_of_error K e v =
     (let y = \<lparr>ex_data = [None], ex_error = e\<rparr> in if ex_has_value K y then ex_construct v y else Inr y)"

definition hxexpected_destroy :: "'e error_ops \<Rightarrow> ('a, 'e) hxexpected \<Rightarrow> ('a, 'e) hxexpected hx" where
  "hxexpected_destroy K x = (if ex_has_value K x then ex_destruct x else Inr x)"

section \<open>Assignment\<close>

text \<open>Assigning an object to itself is the assertion \<open>self_copy\<close>; the two arguments here are different objects.\<close>

definition ex_assign :: "'e error_ops \<Rightarrow> ('a, 'e) hxexpected \<Rightarrow> ('a, 'e) hxexpected \<Rightarrow> ('a, 'e) hxexpected hx" where
  "ex_assign K x y = hx_map (\<lambda>x1. x1\<lparr>ex_error := ex_error y\<rparr>)
     (if ex_has_value K y
      then hx_bind (ex_read y) (\<lambda>v. if ex_has_value K x then ex_overwrite v x else ex_construct v x)
      else if ex_has_value K x then ex_destruct x else Inr x)"

definition ex_move_assign :: "'e error_ops \<Rightarrow> ('a \<Rightarrow> 'a) \<Rightarrow> ('a, 'e) hxexpected \<Rightarrow> ('a, 'e) hxexpected \<Rightarrow> (('a, 'e) hxexpected \<times> ('a, 'e) hxexpected) hx" where
  "ex_move_assign K moved x y = hx_bind
     (if ex_has_value K y
      then hx_bind (ex_take moved y) (\<lambda>(v, y1). hx_map (\<lambda>x1. (x1, y1)) (if ex_has_value K x then ex_overwrite v x else ex_construct v x))
      else if ex_has_value K x then hx_map (\<lambda>x1. (x1, y)) (ex_destruct x) else Inr (x, y))
     (\<lambda>(x1, y1). let x2 = x1\<lparr>ex_error := ex_error y1\<rparr>; y2 = y1\<lparr>ex_error := err_moved K (ex_error y1)\<rparr>
       in hx_map (Pair x2) (if ex_has_value K y then ex_reset K y2 else Inr y2))"

definition ex_assign_value :: "'e error_ops \<Rightarrow> ('a, 'e) hxexpected \<Rightarrow> 'a \<Rightarrow> ('a, 'e) hxexpected hx" where
  "ex_assign_value K x v = hx_map (\<lambda>x1. x1\<lparr>ex_error := err_of_bool K False\<rparr>) (if ex_has_value K x then ex_overwrite v x else ex_construct v x)"

definition ex_emplace :: "'e error_ops \<Rightarrow> ('a, 'e) hxexpected \<Rightarrow> 'a \<Rightarrow> ('a, 'e) hxexpected hx" where
  "ex_emplace K x v = hx_bind (if ex_has_value K x then ex_destruct x else Inr x) (\<lambda>x1.
     hx_map (\<lambda>x2. x2\<lparr>ex_error := err_of_bool K False\<rparr>) (ex_construct v x1))"

definition ex_reset_error :: "'e error_ops \<Rightarrow> 'a \<Rightarrow> ('a, 'e) hxexpected \<Rightarrow> 'e \<Rightarrow> ('a, 'e) hxexpected hx" where
  "ex_reset_error K initial x e = hx_map (\<lambda>x1. x1\<lparr>ex_error := e\<rparr>)
     (let has_value = ex_has_value K x; new_has_value = (\<not> err_bool K e)
      in if has_value \<and> \<not> new_has_value then ex_destruct x
         else if \<not> has_value \<and> new_has_value then ex_construct initial x else Inr x)"

definition ex_swap :: "'e error_ops \<Rightarrow> ('a \<Rightarrow> 'a) \<Rightarrow> ('a, 'e) hxexpected \<Rightarrow> ('a, 'e) hxexpected \<Rightarrow> (('a, 'e) hxexpected \<times> ('a, 'e) hxexpected) hx" where
  "ex_swap K moved x y = hx_map (\<lambda>(x1, y1). (x1\<lparr>ex_error := ex_error y\<rparr>, y1\<lparr>ex_error := ex_error x\<rparr>))
     (let left_has_value = ex_has_value K x; right_has_value = ex_has_value K y
      in if left_has_value \<and> right_has_value
         then hx_bind (ex_read x) (\<lambda>v. hx_bind (ex_read y) (\<lambda>w. hx_bind (ex_overwrite w x) (\<lambda>x1. hx_map (Pair x1) (ex_overwrite v y))))
         else if left_has_value
         then hx_bind (ex_take moved x) (\<lambda>(v, x1). hx_bind (ex_construct v y) (\<lambda>y1. hx_map (\<lambda>x2. (x2, y1)) (ex_destruct x1)))
         else if right_has_value
         then hx_bind (ex_take moved y) (\<lambda>(v, y1). hx_bind (ex_construct v x) (\<lambda>x1. hx_map (Pair x1) (ex_destruct y1)))
         else Inr (x, y))"

section \<open>Access\<close>

definition ex_value :: "'e error_ops \<Rightarrow> ('a, 'e) hxexpected \<Rightarrow> 'a hx" where
  "ex_value K x = (if \<not> ex_has_value K x then Inl (Assert_debug ''bad_value'') else ex_read x)"

definition ex_deref :: "'e error_ops \<Rightarrow> ('a, 'e) hxexpected \<Rightarrow> 'a hx" where
  "ex_deref K x = (if \<not> ex_has_value K x then Inl (Assert_debug ''bad_value'') else ex_read x)"

definition ex_error_value :: "'e error_ops \<Rightarrow> ('a, 'e) hxexpected \<Rightarrow> 'e hx" where
  "ex_error_value K x = (if \<not> err_bool K (ex_error x) then Inl (Assert_debug ''wanted_error'') else Inr (ex_error x))"

definition ex_equal :: "'e error_ops \<Rightarrow> ('a \<Rightarrow> 'a \<Rightarrow> bool) \<Rightarrow> ('e \<Rightarrow> 'e \<Rightarrow> bool) \<Rightarrow> ('a, 'e) hxexpected \<Rightarrow> ('a, 'e) hxexpected \<Rightarrow> bool hx" where
  "ex_equal K equal equal_error x y =
     (if ex_has_value K x \<noteq> ex_has_value K y then Inr False
      else if \<not> ex_has_value K x then Inr (equal_error (ex_error x) (ex_error y))
      else hx_bind (ex_read x) (\<lambda>v. hx_map (equal v) (ex_read y)))"

definition ex_equal_nil :: "'e error_ops \<Rightarrow> ('a, 'e) hxexpected \<Rightarrow> bool" where
  "ex_equal_nil K x = err_bool K (ex_error x)"

definition ex_equal_value :: "'e error_ops \<Rightarrow> ('a \<Rightarrow> 'a \<Rightarrow> bool) \<Rightarrow> ('a, 'e) hxexpected \<Rightarrow> 'a \<Rightarrow> bool hx" where
  "ex_equal_value K equal x w = (if ex_has_value K x then hx_map (\<lambda>v. equal v w) (ex_read x) else Inr False)"

definition ex_and_then :: "'e error_ops \<Rightarrow> ('a \<Rightarrow> 'r option) \<Rightarrow> ('a, 'e) hxexpected \<Rightarrow> 'r option hx" where
  "ex_and_then K callable x = (if ex_has_value K x then hx_map callable (ex_read x) else Inr None)"

definition ex_or_else :: "'e error_ops \<Rightarrow> ('a, 'e) hxexpected \<Rightarrow> ('a, 'e) hxexpected \<Rightarrow> ('a, 'e) hxexpected hx" where
  "ex_or_else K alternative x = (if ex_has_value K x then hxexpected_copy K x else Inr alternative)"

definition ex_hash :: "'e error_ops \<Rightarrow> ('a \<Rightarrow> u32) \<Rightarrow> ('a, 'e) hxexpected \<Rightarrow> u32 hx" where
  "ex_hash K hash_of x = (if ex_has_value K x then hx_map hash_of (ex_read x) else Inr 31)"

definition ex_value_or :: "'e error_ops \<Rightarrow> 'a \<Rightarrow> ('a, 'e) hxexpected \<Rightarrow> 'a hx" where
  "ex_value_or K alternative x = (if ex_has_value K x then ex_read x else Inr alternative)"

text \<open>\<open>hxmake_expected\<close> and \<open>hxemplace_expected\<close>.\<close>

definition hxmake_expected :: "'a \<Rightarrow> ('a, bool) hxexpected hx" where
  "hxmake_expected v = hxexpected_of_error bool_error False v"

definition hxmake_expected_error :: "'e error_ops \<Rightarrow> 'a \<Rightarrow> ('a, 'e) hxexpected hx" where
  "hxmake_expected_error K v = ex_emplace K (hxexpected_new K) v"

section \<open>The expected value as a sum\<close>

definition ex_rel :: "'e error_ops \<Rightarrow> ('a, 'e) hxexpected \<Rightarrow> 'e + 'a \<Rightarrow> bool" where
  "ex_rel K x s \<longleftrightarrow> (case s of Inl e \<Rightarrow> ex_error x = e \<and> err_bool K e \<and> ex_data x = [None]
     | Inr v \<Rightarrow> \<not> err_bool K (ex_error x) \<and> ex_data x = [Some v])"

definition ex_holds :: "'e error_ops \<Rightarrow> ('a, 'e) hxexpected hx \<Rightarrow> 'e + 'a \<Rightarrow> bool" where
  "ex_holds K r s \<longleftrightarrow> (\<exists>x. r = Inr x \<and> ex_rel K x s)"

definition ex_holds2 :: "'e error_ops \<Rightarrow> (('a, 'e) hxexpected \<times> ('a, 'e) hxexpected) hx \<Rightarrow> 'e + 'a \<Rightarrow> 'e + 'a \<Rightarrow> bool" where
  "ex_holds2 K r s t \<longleftrightarrow> (\<exists>x y. r = Inr (x, y) \<and> ex_rel K x s \<and> ex_rel K y t)"

text \<open>What a move leaves: no value, and either the error a default construction has or what the move left of the error.\<close>

definition moved_from :: "'e error_ops \<Rightarrow> 'e + 'a \<Rightarrow> 'e + 'a" where
  "moved_from K s = (case s of Inl e \<Rightarrow> Inl (err_moved K e) | Inr v \<Rightarrow> Inl (err_of_bool K True))"

text \<open>The two shapes an expected value has.\<close>

lemma ex_rel_cases:
  assumes "ex_rel K x s"
  obtains (failed) e where "s = Inl e" "err_bool K e" "x = \<lparr>ex_data = [None], ex_error = e\<rparr>"
    | (valued) v e where "s = Inr v" "\<not> err_bool K e" "x = \<lparr>ex_data = [Some v], ex_error = e\<rparr>"
  using assms by (cases x; cases s) (auto simp: ex_rel_def)

lemma ex_read_simp [simp]: "read_slot [Some v] 0 = Inr v" by (simp add: read_slot_def)

lemma ex_storage_simps [simp]:
  "ex_construct v \<lparr>ex_data = [None], ex_error = e\<rparr> = Inr \<lparr>ex_data = [Some v], ex_error = e\<rparr>"
  "ex_overwrite v \<lparr>ex_data = [Some w], ex_error = e\<rparr> = Inr \<lparr>ex_data = [Some v], ex_error = e\<rparr>"
  "ex_destruct \<lparr>ex_data = [Some w], ex_error = e\<rparr> = Inr \<lparr>ex_data = [None], ex_error = e\<rparr>"
  "ex_take moved \<lparr>ex_data = [Some w], ex_error = e\<rparr> = Inr (w, \<lparr>ex_data = [Some (moved w)], ex_error = e\<rparr>)"
  "ex_has_value K \<lparr>ex_data = m, ex_error = e\<rparr> = (\<not> err_bool K e)"
  by (simp_all add: ex_construct_def ex_overwrite_def ex_destruct_def ex_take_def ex_has_value_def construct_slot_def assign_slot_def destroy_slot_def)

lemmas ex_steps = ex_holds_def ex_holds2_def ex_rel_def Let_def

text \<open>What an error type has to promise: it keeps the \<open>bool\<close> it is made from, and a move does not change the \<open>bool\<close> it converts to.
  The concept \<open>hxunexpected_concept_\<close> asks for the operations, not for these laws.\<close>

locale error_type =
  fixes K :: "'e error_ops"
  assumes of_bool [simp]: "err_bool K (err_of_bool K b) = b"
    and moved_bool [simp]: "err_bool K (err_moved K e) = err_bool K e"
begin

lemma copy_rel: "ex_rel K x s \<Longrightarrow> ex_holds K (hxexpected_copy K x) s"
  by (erule ex_rel_cases) (simp_all add: hxexpected_copy_def ex_steps)

lemma move_rel: "ex_rel K x s \<Longrightarrow> ex_holds2 K (hxexpected_move K moved x) s (moved_from K s)"
  by (erule ex_rel_cases) (simp_all add: hxexpected_move_def ex_reset_def ex_steps moved_from_def)

lemma assign_rel: "ex_rel K x s \<Longrightarrow> ex_rel K y t \<Longrightarrow> ex_holds K (ex_assign K x y) t"
  by (erule ex_rel_cases; erule ex_rel_cases) (simp_all add: ex_assign_def ex_steps)

lemma move_assign_rel: "ex_rel K x s \<Longrightarrow> ex_rel K y t \<Longrightarrow> ex_holds2 K (ex_move_assign K moved x y) t (moved_from K t)"
  by (erule ex_rel_cases; erule ex_rel_cases) (simp_all add: ex_move_assign_def ex_reset_def ex_steps moved_from_def)

lemma assign_value_rel: "ex_rel K x s \<Longrightarrow> ex_holds K (ex_assign_value K x v) (Inr v)"
  by (erule ex_rel_cases) (simp_all add: ex_assign_value_def ex_steps)

lemma emplace_rel: "ex_rel K x s \<Longrightarrow> ex_holds K (ex_emplace K x v) (Inr v)"
  by (erule ex_rel_cases) (simp_all add: ex_emplace_def ex_steps)

lemma reset_rel: "ex_rel K x s \<Longrightarrow> ex_holds K (ex_reset K x) (Inl (err_of_bool K True))"
  by (erule ex_rel_cases) (simp_all add: ex_reset_def ex_steps)

lemma reset_error_rel: "ex_rel K x s \<Longrightarrow>
    ex_holds K (ex_reset_error K initial x e) (if err_bool K e then Inl e else Inr (case s of Inl _ \<Rightarrow> initial | Inr v \<Rightarrow> v))"
  by (erule ex_rel_cases) (simp_all add: ex_reset_error_def ex_steps)

lemma swap_rel: "ex_rel K x s \<Longrightarrow> ex_rel K y t \<Longrightarrow> ex_holds2 K (ex_swap K moved x y) t s"
  by (erule ex_rel_cases; erule ex_rel_cases) (simp_all add: ex_swap_def ex_steps)

lemma make_rel: "ex_holds K (hxmake_expected_error K v) (Inr v)"
  by (rule emplace_rel [of "hxexpected_new K" "Inl (err_of_bool K True)", folded hxmake_expected_error_def]) (simp add: hxexpected_new_def ex_rel_def)

end

interpretation bool_err: error_type bool_error
  by unfold_locales (simp_all add: bool_error_def)

lemma ex_destroy_rel: "ex_rel K x s \<Longrightarrow> \<exists>x'. hxexpected_destroy K x = Inr x' \<and> ex_data x' = [None]"
  by (erule ex_rel_cases) (simp_all add: hxexpected_destroy_def)

lemma ex_value_rel: "ex_rel K x s \<Longrightarrow> ex_value K x = (case s of Inl _ \<Rightarrow> Inl (Assert_debug ''bad_value'') | Inr v \<Rightarrow> Inr v)"
  by (erule ex_rel_cases) (simp_all add: ex_value_def)

lemma ex_error_rel: "ex_rel K x s \<Longrightarrow> ex_error_value K x = (case s of Inl e \<Rightarrow> Inr e | Inr _ \<Rightarrow> Inl (Assert_debug ''wanted_error''))"
  by (erule ex_rel_cases) (simp_all add: ex_error_value_def)

lemma ex_equal_rel: "ex_rel K x s \<Longrightarrow> ex_rel K y t \<Longrightarrow> ex_equal K equal equal_error x y =
    Inr (case s of Inl e \<Rightarrow> (case t of Inl f \<Rightarrow> equal_error e f | Inr _ \<Rightarrow> False) | Inr v \<Rightarrow> (case t of Inl _ \<Rightarrow> False | Inr w \<Rightarrow> equal v w))"
  by (erule ex_rel_cases; erule ex_rel_cases) (simp_all add: ex_equal_def)

section \<open>Claims\<close>

text \<open>C34: an expected value is the sum of its error and its value: whichever of the two each object holds, copying, moving, the
  assignments, \<open>emplace\<close>, both \<open>reset\<close>s and \<open>swap\<close> give the state the sum says and never construct over a live value, destroy or
  read raw storage, access of the absent part is the assertion of the code, and destruction leaves no live value. A
  moved-from object holds no value.\<close>

theorem hxexpected_refines_sum:
  assumes K: "error_type K" and x: "ex_rel K x s" and y: "ex_rel K y t"
  shows "ex_holds K (hxexpected_copy K x) s \<and>
    ex_holds2 K (hxexpected_move K moved x) s (moved_from K s) \<and>
    ex_holds K (ex_assign K x y) t \<and>
    ex_holds2 K (ex_move_assign K moved x y) t (moved_from K t) \<and>
    ex_holds K (ex_assign_value K x v) (Inr v) \<and>
    ex_holds K (ex_emplace K x v) (Inr v) \<and>
    ex_holds K (ex_reset K x) (Inl (err_of_bool K True)) \<and>
    ex_holds K (ex_reset_error K initial x e) (if err_bool K e then Inl e else Inr (case s of Inl _ \<Rightarrow> initial | Inr w \<Rightarrow> w)) \<and>
    ex_holds2 K (ex_swap K moved x y) t s \<and>
    ex_value K x = (case s of Inl _ \<Rightarrow> Inl (Assert_debug ''bad_value'') | Inr w \<Rightarrow> Inr w) \<and>
    ex_error_value K x = (case s of Inl f \<Rightarrow> Inr f | Inr _ \<Rightarrow> Inl (Assert_debug ''wanted_error'')) \<and>
    ex_equal K equal equal_error x y =
      Inr (case s of Inl f \<Rightarrow> (case t of Inl g \<Rightarrow> equal_error f g | Inr _ \<Rightarrow> False) | Inr w \<Rightarrow> (case t of Inl _ \<Rightarrow> False | Inr u \<Rightarrow> equal w u)) \<and>
    (\<exists>x'. hxexpected_destroy K x = Inr x' \<and> ex_data x' = [None])"
  using error_type.copy_rel [OF K x] error_type.move_rel [OF K x] error_type.assign_rel [OF K x y] error_type.move_assign_rel [OF K x y]
    error_type.assign_value_rel [OF K x] error_type.emplace_rel [OF K x] error_type.reset_rel [OF K x] error_type.reset_error_rel [OF K x]
    error_type.swap_rel [OF K x y] ex_value_rel [OF x] ex_error_rel [OF x] ex_equal_rel [OF x y] ex_destroy_rel [OF x]
  by (intro conjI) simp_all

theorem hxexpected_refines_sum_witness:
  "ex_holds2 bool_error (ex_swap bool_error uminus \<lparr>ex_data = [Some (3 :: int)], ex_error = False\<rparr> \<lparr>ex_data = [None], ex_error = True\<rparr>) (Inl True) (Inr 3) \<and>
   ex_holds2 bool_error (hxexpected_move bool_error uminus \<lparr>ex_data = [Some (3 :: int)], ex_error = False\<rparr>) (Inr 3) (Inl True)"
  using hxexpected_refines_sum [OF bool_err.error_type_axioms,
      of "\<lparr>ex_data = [Some (3 :: int)], ex_error = False\<rparr>" "Inr 3" "\<lparr>ex_data = [None], ex_error = True\<rparr>" "Inl True" uminus]
  by (simp add: ex_rel_def bool_error_def moved_from_def)

text \<open>The operations need that law of moving an error. When a move leaves an error that converts to false, as it does for an
  error that owns something, moving or move-assigning from an expected value that holds an error leaves its source with the claim to hold a
  value: the source's destructor destroys raw storage and reading its value reads raw storage.\<close>

lemma hxexpected_moved_error_becomes_value:
  assumes "err_bool K e" and "\<not> err_bool K (err_moved K e)" and "err_bool K f"
  shows "\<exists>z. hxexpected_move K moved \<lparr>ex_data = [None], ex_error = e\<rparr> = Inr (\<lparr>ex_data = [None], ex_error = e\<rparr>, z) \<and>
    ex_move_assign K moved \<lparr>ex_data = [None], ex_error = f\<rparr> \<lparr>ex_data = [None], ex_error = e\<rparr> = Inr (\<lparr>ex_data = [None], ex_error = e\<rparr>, z) \<and>
    ex_has_value K z \<and> ex_value K z = Inl (Undefined_behavior ''read of raw memory'') \<and>
    hxexpected_destroy K z = Inl (Undefined_behavior ''destroy raw memory'')"
  using assms by (simp add: hxexpected_move_def ex_move_assign_def ex_value_def hxexpected_destroy_def ex_destruct_def
      ex_has_value_def read_slot_def destroy_slot_def)

text \<open>An error that owns a resource, named by a number: moving it leaves zero.\<close>

definition owning_error :: "nat error_ops" where
  "owning_error = \<lparr>err_bool = (\<lambda>n. n \<noteq> 0), err_of_bool = (\<lambda>b. if b then 1 else 0), err_moved = (\<lambda>n. 0)\<rparr>"

lemma hxexpected_moved_error_becomes_value_witness:
  "\<exists>z. hxexpected_move owning_error uminus \<lparr>ex_data = [None :: int option], ex_error = 7\<rparr> = Inr (\<lparr>ex_data = [None], ex_error = 7\<rparr>, z) \<and>
    hxexpected_destroy owning_error z = Inl (Undefined_behavior ''destroy raw memory'')"
  using hxexpected_moved_error_becomes_value [of owning_error 7 7 "uminus :: int \<Rightarrow> int"] by (auto simp: owning_error_def)

end
