(* ===== verification/HxSmartPtr.thy ===== *)
theory HxSmartPtr
  imports HxKey HxExpected
begin

text \<open>
  The owning pointer of \<^verbatim>\<open>include/hx/hxptr.hpp\<close> and \<^verbatim>\<open>detail/hxptr.inl\<close> and the optional reference of \<^verbatim>\<open>include/hx/hxref.hpp\<close>
  and \<^verbatim>\<open>detail/hxref.inl\<close>. A pointer is \<open>None\<close> when it is \<open>hxnull\<close>, \<open>mem\<close> is what the objects hold. An operation returns the calls
  of deleters it makes, each with its pointer, in order. A deleter, or a destructor it runs, does not use the \<open>hxptr\<close> it is called
  from: the pointer there still names the object that is being deleted.
\<close>

section \<open>hxptr\<close>

record ('d, 'p) hxptr =
  ptr_deleter :: 'd
  ptr_get :: "'p option"

definition hxptr_new :: "'p option \<Rightarrow> 'd \<Rightarrow> ('d, 'p) hxptr" where
  "hxptr_new p d = \<lparr>ptr_deleter = d, ptr_get = p\<rparr>"

text \<open>\<open>moved\<close> is what a move leaves of a deleter.\<close>

definition hxptr_move :: "('d \<Rightarrow> 'd) \<Rightarrow> ('d, 'p) hxptr \<Rightarrow> ('d, 'p) hxptr \<times> ('d, 'p) hxptr" where
  "hxptr_move moved x = (\<lparr>ptr_deleter = ptr_deleter x, ptr_get = ptr_get x\<rparr>, x\<lparr>ptr_deleter := moved (ptr_deleter x), ptr_get := None\<rparr>)"

text \<open>The call of the deleter that a destructor, an assignment and \<open>reset\<close> make.\<close>

definition hxptr_destroy :: "('d, 'p) hxptr \<Rightarrow> ('d \<times> 'p) list" where
  "hxptr_destroy x = (case ptr_get x of None \<Rightarrow> [] | Some p \<Rightarrow> [(ptr_deleter x, p)])"

text \<open>Assigning an \<open>hxptr\<close> to itself is the assertion \<open>self_copy\<close>; the two here are different objects.\<close>

definition hxptr_move_assign :: "('d \<Rightarrow> 'd) \<Rightarrow> ('d, 'p) hxptr \<Rightarrow> ('d, 'p) hxptr \<Rightarrow> ('d, 'p) hxptr \<times> ('d, 'p) hxptr \<times> ('d \<times> 'p) list" where
  "hxptr_move_assign moved x y =
     (x\<lparr>ptr_get := ptr_get y, ptr_deleter := ptr_deleter y\<rparr>, y\<lparr>ptr_deleter := moved (ptr_deleter y), ptr_get := None\<rparr>, hxptr_destroy x)"

definition hxptr_reset :: "('d, 'p) hxptr \<Rightarrow> 'p option \<Rightarrow> (('d, 'p) hxptr \<times> ('d \<times> 'p) list) hx" where
  "hxptr_reset x p =
     (if \<not> (p \<noteq> ptr_get x \<or> ptr_get x = None) then Inl (Assert_debug ''self_reset'')
      else Inr (x\<lparr>ptr_get := p\<rparr>, hxptr_destroy x))"

text \<open>\<open>fresh\<close> is where \<open>hxnew\<close> puts the new object.\<close>

definition hxptr_emplace :: "('d, 'p) hxptr \<Rightarrow> 'p \<Rightarrow> (('d, 'p) hxptr \<times> ('d \<times> 'p) list) hx" where
  "hxptr_emplace x fresh = hxptr_reset x (Some fresh)"

definition hxmake_ptr :: "'p \<Rightarrow> 'd \<Rightarrow> ('d, 'p) hxptr" where
  "hxmake_ptr fresh d = hxptr_new (Some fresh) d"

definition hxptr_release :: "('d, 'p) hxptr \<Rightarrow> ('d, 'p) hxptr \<times> 'p option" where
  "hxptr_release x = (x\<lparr>ptr_get := None\<rparr>, ptr_get x)"

definition hxptr_swap :: "('d, 'p) hxptr \<Rightarrow> ('d, 'p) hxptr \<Rightarrow> ('d, 'p) hxptr \<times> ('d, 'p) hxptr" where
  "hxptr_swap x y = (\<lparr>ptr_deleter = ptr_deleter y, ptr_get = ptr_get y\<rparr>, \<lparr>ptr_deleter = ptr_deleter x, ptr_get = ptr_get x\<rparr>)"

definition hxptr_has_value :: "('d, 'p) hxptr \<Rightarrow> bool" where
  "hxptr_has_value x = (ptr_get x \<noteq> None)"

definition hxptr_value :: "('p \<Rightarrow> 'a) \<Rightarrow> ('d, 'p) hxptr \<Rightarrow> 'a hx" where
  "hxptr_value mem x = (case ptr_get x of None \<Rightarrow> Inl (Assert_debug ''null_ptr'') | Some p \<Rightarrow> Inr (mem p))"

definition hxptr_deref :: "('p \<Rightarrow> 'a) \<Rightarrow> ('d, 'p) hxptr \<Rightarrow> 'a hx" where
  "hxptr_deref mem x = (case ptr_get x of None \<Rightarrow> Inl (Assert_debug ''null_ptr'') | Some p \<Rightarrow> Inr (mem p))"

text \<open>Two pointers are equal when both are null or their objects are.\<close>

definition hxptr_equal :: "('p \<Rightarrow> 'a) \<Rightarrow> ('a \<Rightarrow> 'a \<Rightarrow> bool) \<Rightarrow> ('d, 'p) hxptr \<Rightarrow> ('d, 'p) hxptr \<Rightarrow> bool" where
  "hxptr_equal mem equal x y =
     (case (ptr_get x, ptr_get y) of (Some p, Some q) \<Rightarrow> equal (mem p) (mem q) | (p, q) \<Rightarrow> p = None \<and> q = None)"

definition hxptr_equal_nil :: "('d, 'p) hxptr \<Rightarrow> bool" where
  "hxptr_equal_nil x = (ptr_get x = None)"

definition hxptr_and_then :: "('p \<Rightarrow> 'a) \<Rightarrow> ('a \<Rightarrow> 'r option) \<Rightarrow> ('d, 'p) hxptr \<Rightarrow> 'r option" where
  "hxptr_and_then mem callable x = (case ptr_get x of None \<Rightarrow> None | Some p \<Rightarrow> callable (mem p))"

definition hxptr_or_else :: "('d \<Rightarrow> 'd) \<Rightarrow> ('d, 'p) hxptr \<Rightarrow> ('d, 'p) hxptr \<Rightarrow> ('d, 'p) hxptr \<times> ('d, 'p) hxptr" where
  "hxptr_or_else moved alternative x = (if ptr_get x \<noteq> None then hxptr_move moved x else (alternative, x))"

definition hxptr_value_or :: "('p \<Rightarrow> 'a) \<Rightarrow> 'a \<Rightarrow> ('d, 'p) hxptr \<Rightarrow> 'a" where
  "hxptr_value_or mem alternative x = (case ptr_get x of None \<Rightarrow> alternative | Some p \<Rightarrow> mem p)"

definition hxptr_hash :: "('p \<Rightarrow> 'a) \<Rightarrow> ('a \<Rightarrow> u32) \<Rightarrow> ('d, 'p) hxptr \<Rightarrow> u32" where
  "hxptr_hash mem hash_of x = (case ptr_get x of None \<Rightarrow> 31 | Some p \<Rightarrow> hash_of (mem p))"

section \<open>hxref\<close>

record 'p hxref =
  ref_value :: "'p option"

definition hxref_new :: "'p hxref" where
  "hxref_new = \<lparr>ref_value = None\<rparr>"

definition hxref_to :: "'p \<Rightarrow> 'p hxref" where
  "hxref_to p = \<lparr>ref_value = Some p\<rparr>"

text \<open>\<open>p\<close> is the address of the storage of the expected value.\<close>

definition hxref_of_expected :: "'e error_ops \<Rightarrow> 'p \<Rightarrow> ('a, 'e) hxexpected \<Rightarrow> 'p hxref" where
  "hxref_of_expected K p x = \<lparr>ref_value = (if ex_has_value K x then Some p else None)\<rparr>"

definition hxref_has_value :: "'p hxref \<Rightarrow> bool" where
  "hxref_has_value r = (ref_value r \<noteq> None)"

definition hxref_assign :: "'p hxref \<Rightarrow> 'p \<Rightarrow> 'p hxref" where
  "hxref_assign r p = r\<lparr>ref_value := Some p\<rparr>"

definition hxref_reset :: "'p hxref \<Rightarrow> 'p hxref" where
  "hxref_reset r = r\<lparr>ref_value := None\<rparr>"

definition hxref_value :: "('p \<Rightarrow> 'a) \<Rightarrow> 'p hxref \<Rightarrow> 'a hx" where
  "hxref_value mem r = (case ref_value r of None \<Rightarrow> Inl (Assert_debug ''bad_value'') | Some p \<Rightarrow> Inr (mem p))"

definition hxref_deref :: "('p \<Rightarrow> 'a) \<Rightarrow> 'p hxref \<Rightarrow> 'a hx" where
  "hxref_deref mem r = (case ref_value r of None \<Rightarrow> Inl (Assert_debug ''bad_value'') | Some p \<Rightarrow> Inr (mem p))"

definition hxref_equal :: "('p \<Rightarrow> 'a) \<Rightarrow> ('a \<Rightarrow> 'a \<Rightarrow> bool) \<Rightarrow> 'p hxref \<Rightarrow> 'p hxref \<Rightarrow> bool" where
  "hxref_equal mem equal r s =
     (case (ref_value r, ref_value s) of (Some p, Some q) \<Rightarrow> equal (mem p) (mem q) | (p, q) \<Rightarrow> p = None \<and> q = None)"

definition hxref_equal_nil :: "'p hxref \<Rightarrow> bool" where
  "hxref_equal_nil r = (ref_value r = None)"

definition hxref_equal_value :: "('p \<Rightarrow> 'a) \<Rightarrow> ('a \<Rightarrow> 'a \<Rightarrow> bool) \<Rightarrow> 'p hxref \<Rightarrow> 'a \<Rightarrow> bool" where
  "hxref_equal_value mem equal r v = (case ref_value r of None \<Rightarrow> False | Some p \<Rightarrow> equal (mem p) v)"

definition hxref_and_then :: "('p \<Rightarrow> 'a) \<Rightarrow> ('a \<Rightarrow> 'r option) \<Rightarrow> 'p hxref \<Rightarrow> 'r option" where
  "hxref_and_then mem callable r = (case ref_value r of None \<Rightarrow> None | Some p \<Rightarrow> callable (mem p))"

definition hxref_or_else :: "'p hxref \<Rightarrow> 'p hxref \<Rightarrow> 'p hxref" where
  "hxref_or_else alternative r = (if ref_value r \<noteq> None then r else alternative)"

definition hxref_hash :: "('p \<Rightarrow> 'a) \<Rightarrow> ('a \<Rightarrow> u32) \<Rightarrow> 'p hxref \<Rightarrow> u32" where
  "hxref_hash mem hash_of r = (case ref_value r of None \<Rightarrow> 31 | Some p \<Rightarrow> hash_of (mem p))"

definition hxref_swap :: "'p hxref \<Rightarrow> 'p hxref \<Rightarrow> 'p hxref \<times> 'p hxref" where
  "hxref_swap r s = (s, r)"

definition hxref_value_or :: "('p \<Rightarrow> 'a) \<Rightarrow> 'a \<Rightarrow> 'p hxref \<Rightarrow> 'a" where
  "hxref_value_or mem alternative r = (case ref_value r of None \<Rightarrow> alternative | Some p \<Rightarrow> mem p)"

section \<open>A program with several owners\<close>

text \<open>What a program can do with its \<open>hxptr\<close> objects, named by their place in a list; a destroyed one keeps its place empty.\<close>

datatype ('d, 'p) ptr_op =
    Ptr_construct "'p option" 'd
  | Ptr_move nat
  | Ptr_assign nat nat
  | Ptr_reset nat "'p option"
  | Ptr_emplace nat 'p
  | Ptr_release nat
  | Ptr_swap nat nat
  | Ptr_destroy nat

record ('d, 'p) ptr_world =
  own_ptrs :: "('d, 'p) hxptr option list"
  own_log :: "('d \<times> 'p) list"
  own_released :: "('d \<times> 'p) list"

text \<open>A step returns the pairs of deleter and pointer that it hands to a \<open>hxptr\<close>. Using a destroyed one is undefined.\<close>

fun owner_step :: "('d \<Rightarrow> 'd) \<Rightarrow> ('d, 'p) ptr_world \<Rightarrow> ('d, 'p) ptr_op \<Rightarrow> (('d, 'p) ptr_world \<times> ('d \<times> 'p) list) hx" where
  "owner_step moved w (Ptr_construct p d) = Inr (w\<lparr>own_ptrs := own_ptrs w @ [Some (hxptr_new p d)]\<rparr>, hxptr_destroy (hxptr_new p d))"
| "owner_step moved w (Ptr_move i) = hx_map (\<lambda>x. let (new, x1) = hxptr_move moved x in
     (w\<lparr>own_ptrs := (own_ptrs w)[i := Some x1] @ [Some new]\<rparr>, [])) (read_slot (own_ptrs w) i)"
| "owner_step moved w (Ptr_assign i j) = hx_bind (read_slot (own_ptrs w) i) (\<lambda>x. hx_bind (read_slot (own_ptrs w) j) (\<lambda>y.
     if i = j then Inl (Assert_debug ''self_copy'')
     else let (x1, y1, log) = hxptr_move_assign moved x y in
       Inr (w\<lparr>own_ptrs := (own_ptrs w)[i := Some x1, j := Some y1], own_log := own_log w @ log\<rparr>, [])))"
| "owner_step moved w (Ptr_reset i p) = hx_bind (read_slot (own_ptrs w) i) (\<lambda>x. hx_map (\<lambda>(x1, log).
     (w\<lparr>own_ptrs := (own_ptrs w)[i := Some x1], own_log := own_log w @ log\<rparr>, hxptr_destroy x1)) (hxptr_reset x p))"
| "owner_step moved w (Ptr_emplace i p) = hx_bind (read_slot (own_ptrs w) i) (\<lambda>x. hx_map (\<lambda>(x1, log).
     (w\<lparr>own_ptrs := (own_ptrs w)[i := Some x1], own_log := own_log w @ log\<rparr>, hxptr_destroy x1)) (hxptr_emplace x p))"
| "owner_step moved w (Ptr_release i) = hx_map (\<lambda>x. let (x1, p) = hxptr_release x in
     (w\<lparr>own_ptrs := (own_ptrs w)[i := Some x1], own_released := own_released w @ (case p of None \<Rightarrow> [] | Some q \<Rightarrow> [(ptr_deleter x, q)])\<rparr>, []))
     (read_slot (own_ptrs w) i)"
| "owner_step moved w (Ptr_swap i j) = hx_bind (read_slot (own_ptrs w) i) (\<lambda>x. hx_map (\<lambda>y.
     if i = j then (w, []) else let (x1, y1) = hxptr_swap x y in (w\<lparr>own_ptrs := (own_ptrs w)[i := Some x1, j := Some y1]\<rparr>, [])) (read_slot (own_ptrs w) j))"
| "owner_step moved w (Ptr_destroy i) = hx_map (\<lambda>x. (w\<lparr>own_ptrs := (own_ptrs w)[i := None], own_log := own_log w @ hxptr_destroy x\<rparr>, []))
     (read_slot (own_ptrs w) i)"


definition no_world :: "('d, 'p) ptr_world" where
  "no_world = \<lparr>own_ptrs = [], own_log = [], own_released = []\<rparr>"

text \<open>The pair that a \<open>hxptr\<close> holds, and all pairs that are held, deleted or released.\<close>

definition held :: "('d, 'p) hxptr \<Rightarrow> ('d \<times> 'p) multiset" where
  "held x = mset (hxptr_destroy x)"

abbreviation all_held :: "('d, 'p) hxptr option list \<Rightarrow> ('d \<times> 'p) multiset" where
  "all_held \<equiv> slots_held held"

definition accounted :: "('d, 'p) ptr_world \<Rightarrow> ('d \<times> 'p) multiset" where
  "accounted w = all_held (own_ptrs w) + mset (own_log w) + mset (own_released w)"

lemmas ptr_defs = hxptr_new_def hxptr_move_def hxptr_destroy_def hxptr_move_assign_def hxptr_reset_def hxptr_emplace_def hxptr_release_def hxptr_swap_def

lemmas ptr_steps = hx_bind_Inr_iff hx_map_Inr_iff accounted_def ptr_defs held_def

text \<open>Every step accounts for what is handed in.\<close>

lemma owner_step_accounts: "owner_step moved w op = Inr (w', given) \<Longrightarrow> accounted w' = accounted w + mset given"
proof (cases op)
  case (Ptr_move i)
  assume "owner_step moved w op = Inr (w', given)"
  then show ?thesis using Ptr_move by (auto simp: ptr_steps slots_held_update slots_held_read [of i "own_ptrs w"] dest!: read_slot_InrD split: option.splits)
next
  case (Ptr_assign i j)
  assume "owner_step moved w op = Inr (w', given)"
  then show ?thesis using Ptr_assign by (auto simp: ptr_steps slots_held_two(1) slots_held_two(2) [of i "own_ptrs w" j] dest!: read_slot_InrD split: option.splits if_splits)
next
  case (Ptr_reset i p)
  assume "owner_step moved w op = Inr (w', given)"
  then show ?thesis using Ptr_reset by (auto simp: ptr_steps slots_held_update slots_held_read [of i "own_ptrs w"] dest!: read_slot_InrD split: option.splits if_splits)
next
  case (Ptr_emplace i p)
  assume "owner_step moved w op = Inr (w', given)"
  then show ?thesis using Ptr_emplace by (auto simp: ptr_steps slots_held_update slots_held_read [of i "own_ptrs w"] dest!: read_slot_InrD split: option.splits if_splits)
next
  case (Ptr_release i)
  assume "owner_step moved w op = Inr (w', given)"
  then obtain x where x: "i < length (own_ptrs w)" "own_ptrs w ! i = Some x" and given: "given = []"
    and w': "w' = w\<lparr>own_ptrs := (own_ptrs w)[i := Some (x\<lparr>ptr_get := None\<rparr>)],
      own_released := own_released w @ (case ptr_get x of None \<Rightarrow> [] | Some q \<Rightarrow> [(ptr_deleter x, q)])\<rparr>"
    using Ptr_release by (auto simp: hx_map_Inr_iff hxptr_release_def dest!: read_slot_InrD)
  show ?thesis unfolding w' given using slots_held_read [OF x, of held] x
    by (cases "ptr_get x") (simp_all add: ptr_steps slots_held_update)
next
  case (Ptr_swap i j)
  assume "owner_step moved w op = Inr (w', given)"
  then show ?thesis using Ptr_swap by (auto simp: ptr_steps slots_held_two(1) slots_held_two(2) [of i "own_ptrs w" j] dest!: read_slot_InrD split: option.splits if_splits)
next
  case (Ptr_destroy i)
  assume "owner_step moved w op = Inr (w', given)"
  then show ?thesis using Ptr_destroy by (auto simp: ptr_steps slots_held_update slots_held_read [of i "own_ptrs w"] dest!: read_slot_InrD)
qed (auto simp: ptr_steps split: option.splits)

lemma owners_account:
  "run_ops (owner_step moved) w ops = (rs, Inr w') \<Longrightarrow> accounted w' = accounted w + mset (concat rs)"
  by (rule run_ops_sum [where f = accounted, OF owner_step_accounts])

text \<open>Two \<open>hxptr\<close> objects that hold the same pointer.\<close>

lemma held_twice:
  assumes "i < length xs" and "j < length xs" and "i \<noteq> j" and "xs ! i = Some x" and "xs ! j = Some y" and "ptr_get x = Some p" and "ptr_get y = Some p"
  shows "add_mset p {#p#} \<subseteq># image_mset snd (all_held xs)"
  using slots_held_two(2) [OF assms(1-5), of held] assms(6,7) by (simp add: held_def hxptr_destroy_def)

section \<open>Claims\<close>

text \<open>C35: Owning pointers own: whatever a program does with its \<open>hxptr\<close> objects (construction, moves, assignments, \<open>reset\<close>, \<open>emplace\<close>,
  \<open>release\<close>, \<open>swap\<close>, destruction), every pointer ever handed in, with the deleter it belongs to, is held by one of them or was deleted or
  released, so that none is lost; when the pointers handed in are distinct, none is deleted twice, deleted after its release or still
  held after either, and no two objects hold the same; and after the last destructor each has been deleted or released.\<close>

theorem hxptr_deletes_once:
  assumes run: "run_ops (owner_step moved) no_world ops = (rs, Inr w)"
  shows "mset (concat rs) = all_held (own_ptrs w) + mset (own_log w @ own_released w) \<and>
    (distinct (map snd (concat rs)) \<longrightarrow>
      distinct (map snd (own_log w @ own_released w)) \<and>
      (\<forall>p x. p \<in> snd ` set (own_log w @ own_released w) \<longrightarrow> Some x \<in> set (own_ptrs w) \<longrightarrow> ptr_get x \<noteq> Some p) \<and>
      (\<forall>i j x y. i < length (own_ptrs w) \<longrightarrow> j < length (own_ptrs w) \<longrightarrow> own_ptrs w ! i = Some x \<longrightarrow> own_ptrs w ! j = Some y \<longrightarrow>
        ptr_get x \<noteq> None \<longrightarrow> ptr_get x = ptr_get y \<longrightarrow> i = j)) \<and>
    (set (own_ptrs w) \<subseteq> {None} \<longrightarrow> mset (concat rs) = mset (own_log w @ own_released w))"
proof (intro conjI impI)
  show all: "mset (concat rs) = all_held (own_ptrs w) + mset (own_log w @ own_released w)"
    using owners_account [OF run] by (simp add: accounted_def no_world_def add.assoc)
  show "mset (concat rs) = mset (own_log w @ own_released w)" if "set (own_ptrs w) \<subseteq> {None}"
    using all slots_held_none [OF that, of held] by simp
  assume distinct: "distinct (map snd (concat rs))"
  note account = distinct_account [OF all distinct]
  show "distinct (map snd (own_log w @ own_released w))" by (rule account(1))
  show "\<forall>p x. p \<in> snd ` set (own_log w @ own_released w) \<longrightarrow> Some x \<in> set (own_ptrs w) \<longrightarrow> ptr_get x \<noteq> Some p"
  proof (intro allI impI notI)
    fix p x
    assume p: "p \<in> snd ` set (own_log w @ own_released w)" and x: "Some x \<in> set (own_ptrs w)" "ptr_get x = Some p"
    obtain i where "i < length (own_ptrs w)" "own_ptrs w ! i = Some x" using x(1) by (metis in_set_conv_nth)
    then have "p \<in># image_mset snd (all_held (own_ptrs w))" using slots_held_read [of i "own_ptrs w" x held] x(2) by (simp add: held_def hxptr_destroy_def)
    then show False using account(2) [OF p] by contradiction
  qed
  show "\<forall>i j x y. i < length (own_ptrs w) \<longrightarrow> j < length (own_ptrs w) \<longrightarrow> own_ptrs w ! i = Some x \<longrightarrow> own_ptrs w ! j = Some y \<longrightarrow>
      ptr_get x \<noteq> None \<longrightarrow> ptr_get x = ptr_get y \<longrightarrow> i = j"
  proof (intro allI impI, rule ccontr)
    fix i j x y
    assume ij: "i < length (own_ptrs w)" "j < length (own_ptrs w)" "own_ptrs w ! i = Some x" "own_ptrs w ! j = Some y"
      "ptr_get x \<noteq> None" "ptr_get x = ptr_get y" "i \<noteq> j"
    obtain p where "ptr_get x = Some p" using ij(5) by blast
    then show False using held_twice [OF ij(1,2,7,3,4), of p] ij(6) account(3) [of p] by simp
  qed
qed

text \<open>Two owners; the first is moved into the second, whose object is deleted, and both are destroyed.\<close>

theorem hxptr_deletes_once_witness:
  "fst (run_ops (owner_step id) no_world
     [Ptr_construct (Some 10) ''a'', Ptr_construct (Some (20 :: nat)) ''b'', Ptr_assign 1 0, Ptr_destroy 0, Ptr_destroy 1]) =
     [[(''a'', 10)], [(''b'', 20)], [], [], []] \<and>
   (\<exists>w. snd (run_ops (owner_step id) no_world
     [Ptr_construct (Some 10) ''a'', Ptr_construct (Some (20 :: nat)) ''b'', Ptr_assign 1 0, Ptr_destroy 0, Ptr_destroy 1]) = Inr w \<and>
     mset (own_log w @ own_released w) = {#(''a'', 10), (''b'', 20)#})"
proof -
  let ?ops = "[Ptr_construct (Some 10) ''a'', Ptr_construct (Some (20 :: nat)) ''b'', Ptr_assign 1 0, Ptr_destroy 0, Ptr_destroy 1]"
  have run: "run_ops (owner_step id) no_world ?ops =
      ([[(''a'', 10)], [(''b'', 20)], [], [], []], Inr \<lparr>own_ptrs = [None, None], own_log = [(''b'', 20), (''a'', 10)], own_released = []\<rparr>)"
    by (simp add: no_world_def ptr_defs read_slot_def)
  show ?thesis using hxptr_deletes_once [OF run] run by simp
qed

end
