(* ===== verification/HxTaskQueue.thy ===== *)
theory HxTaskQueue
  imports HxVector
begin

text \<open>
  The task queue of \<^verbatim>\<open>include/hx/hxtask_queue.hpp\<close>, \<^verbatim>\<open>detail/hxtask_queue.inl\<close> and
  \<^verbatim>\<open>src/hxtask_queue.cpp\<close>. A task is a number, its address. What a critical section does is a function
  of the queue that also gives the notifications it sends; threads interleave between
  critical sections and while they execute tasks, outside the lock. A thread blocked on a
  condition variable is woken by a notification or spuriously and then evaluates its predicate again.
  The callables of \<open>erase_if\<close> are predicates: they do not modify the records.
\<close>

section \<open>The queue\<close>

type_synonym hxtask = nat

record task_record =
  rec_task :: hxtask
  rec_priority :: int

definition record_less :: "task_record \<Rightarrow> task_record \<Rightarrow> bool" where
  "record_less a b = (rec_priority a < rec_priority b)"

interpretation record_order: strict_weak_order record_less
  by unfold_locales (auto simp: record_less_def)

datatype run_level = Running | Stopped
datatype thread_mode = Pool | Waiting | Stopping

record task_queue =
  tq_tasks :: "task_record hxvector"
  tq_level :: run_level
  tq_pool :: int
  tq_executing :: int

datatype tq_notify = Notify_one_new | Notify_all_new | Notify_all_done

text \<open>The constructor, without the threads it starts.\<close>

definition task_queue_new :: "int \<Rightarrow> int \<Rightarrow> task_queue hx" where
  "task_queue_new task_queue_size thread_pool_size =
     hx_map (\<lambda>v. \<lparr>tq_tasks = v, tq_level = Running, tq_pool = thread_pool_size, tq_executing = 0\<rparr>)
       (hxvector_reserve (hxvector_new hxallocator_dynamic_capacity) task_queue_size)"

definition task_queue_clear :: "task_queue \<Rightarrow> (task_queue \<times> tq_notify list) hx" where
  "task_queue_clear q = hx_map (\<lambda>v. (q\<lparr>tq_tasks := v\<rparr>, [Notify_all_done])) (hxvector_clear (tq_tasks q))"

text \<open>\<open>cancel\<close>; when the last component is true, \<open>on_cancel\<close> is called after the lock is released.\<close>

definition task_queue_cancel :: "task_queue \<Rightarrow> hxtask \<Rightarrow> (task_queue \<times> tq_notify list \<times> bool) hx" where
  "task_queue_cancel q t =
     hx_bind (hxvector_find_if (\<lambda>r. rec_task r = t) (tq_tasks q)) (\<lambda>found.
     if found \<noteq> vec_end (tq_tasks q)
     then hx_bind (hxvector_erase_unordered_it (\<lambda>r. r) (tq_tasks q) (int found)) (\<lambda>v1.
          hx_map (\<lambda>v2. (q\<lparr>tq_tasks := v2\<rparr>, if hxvector_empty v2 then [Notify_all_done] else [], True))
            (hxvector_make_heap record_less v1))
     else Inr (q, [], False))"

definition task_queue_enqueue :: "task_queue \<Rightarrow> hxtask \<Rightarrow> int \<Rightarrow> (task_queue \<times> tq_notify list) hx" where
  "task_queue_enqueue q t priority =
     (let entry = \<lparr>rec_task = t, rec_priority = priority\<rparr>;
          push = hxvector_push_heap record_less (\<lambda>r. r) (tq_tasks q) entry
      in if tq_pool q > 0
         then if tq_level q \<noteq> Running then Inl (Assert_hard ''queue_stopped'')
              else hx_map (\<lambda>v. (q\<lparr>tq_tasks := v\<rparr>, [Notify_one_new])) push
         else hx_map (\<lambda>v. (q\<lparr>tq_tasks := v\<rparr>, [])) push)"

definition task_queue_erase_if :: "task_queue \<Rightarrow> (task_record \<Rightarrow> bool) \<Rightarrow> (task_queue \<times> tq_notify list \<times> hxsize_t) hx" where
  "task_queue_erase_if q callable =
     hx_bind (hxvector_erase_if_unordered (\<lambda>r. r) (tq_tasks q) callable) (\<lambda>(v1, erased).
     hx_map (\<lambda>v2. (q\<lparr>tq_tasks := v2\<rparr>, if erased \<noteq> 0 \<and> hxvector_empty v2 then [Notify_all_done] else [], erased))
       (hxvector_make_heap record_less v1))"

text \<open>Both \<open>for_each\<close>: the one on a constant queue leaves the records and their order alone.\<close>

definition task_queue_for_each_const :: "('s \<Rightarrow> task_record \<Rightarrow> 's) \<Rightarrow> 's \<Rightarrow> task_queue \<Rightarrow> 's hx" where
  "task_queue_for_each_const callable s q =
     hx_map (\<lambda>rs. fst (hxfor_each (\<lambda>s r. (callable s r, r)) s rs)) (vec_values (tq_tasks q))"

definition task_queue_for_each :: "('s \<Rightarrow> task_record \<Rightarrow> 's \<times> task_record) \<Rightarrow> 's \<Rightarrow> task_queue \<Rightarrow> ('s \<times> task_queue) hx" where
  "task_queue_for_each callable s q =
     hx_bind (hxvector_for_each callable s (tq_tasks q)) (\<lambda>(s1, v1).
     hx_map (\<lambda>v2. (s1, q\<lparr>tq_tasks := v2\<rparr>)) (hxvector_make_heap record_less v1))"

definition task_queue_all_of :: "(task_record \<Rightarrow> bool) \<Rightarrow> task_queue \<Rightarrow> bool hx" where
  "task_queue_all_of callable q = hxvector_all_of callable (tq_tasks q)"

definition task_queue_any_of :: "(task_record \<Rightarrow> bool) \<Rightarrow> task_queue \<Rightarrow> bool hx" where
  "task_queue_any_of callable q = hxvector_any_of callable (tq_tasks q)"

definition task_queue_empty :: "task_queue \<Rightarrow> bool" where
  "task_queue_empty q = hxvector_empty (tq_tasks q)"

definition task_queue_full :: "task_queue \<Rightarrow> bool" where
  "task_queue_full q = hxvector_full (tq_tasks q)"

definition task_queue_max_size :: "task_queue \<Rightarrow> hxsize_t" where
  "task_queue_max_size q = hxvector_capacity (tq_tasks q)"

definition task_queue_size :: "task_queue \<Rightarrow> hxsize_t" where
  "task_queue_size q = hxvector_size (tq_tasks q)"

text \<open>\<open>m_tasks_.front().task\<close> and \<open>m_tasks_.pop_heap()\<close>.\<close>

definition take_front :: "task_queue \<Rightarrow> (hxtask \<times> task_queue) hx" where
  "take_front q =
     hx_bind (hxvector_front (tq_tasks q)) (\<lambda>r.
     hx_map (\<lambda>v. (rec_task r, q\<lparr>tq_tasks := v\<rparr>)) (hxvector_pop_heap record_less (tq_tasks q)))"

section \<open>Without threads\<close>

text \<open>\<open>wait_for_all\<close> of a queue without a pool. \<open>process\<close> is the virtual call on the task: it may
  change the queue and a state \<open>s\<close> outside it, and may not return.\<close>

partial_function (option) wait_for_all_loop ::
    "(hxtask \<Rightarrow> 's \<times> task_queue \<Rightarrow> ('s \<times> task_queue) run) \<Rightarrow> 's \<Rightarrow> task_queue \<Rightarrow> ('s \<times> task_queue) run" where
  "wait_for_all_loop process s q =
     (if \<not> task_queue_empty q
      then run_bind (Some (take_front q)) (\<lambda>(t, q1).
           run_bind (process t (s, q1)) (\<lambda>(s2, q2). wait_for_all_loop process s2 q2))
      else Some (Inr (s, q)))"

section \<open>The critical sections of a thread\<close>

text \<open>Where a thread is between critical sections: about to lock, with the task it has just finished if any;
  blocked on one of the condition variables, or woken; executing a task; or gone.\<close>

datatype loop_pc =
    Loop_top "hxtask option"
  | Wait_new bool
  | Wait_done bool
  | Run_task hxtask
  | Loop_return

definition loop_finish :: "task_queue \<Rightarrow> (task_queue \<times> tq_notify list) hx" where
  "loop_finish q =
     (if \<not> tq_executing q > 0 then Inl (Assert_debug ''sys_err'')
      else let n = tq_executing q - 1
           in Inr (q\<lparr>tq_executing := n\<rparr>, if n = 0 \<and> task_queue_empty q then [Notify_all_done] else []))"

definition loop_new_pred :: "task_queue \<Rightarrow> bool" where
  "loop_new_pred q = (\<not> task_queue_empty q \<or> tq_level q = Stopped)"

definition loop_done_pred :: "task_queue \<Rightarrow> bool hx" where
  "loop_done_pred q =
     (if tq_level q \<noteq> Running then Inl (Assert_debug ''bad_thread'') else Inr (task_queue_empty q \<and> tq_executing q = 0))"

definition loop_leave :: "thread_mode \<Rightarrow> task_queue \<Rightarrow> task_queue \<times> loop_pc \<times> tq_notify list" where
  "loop_leave mode q =
     (if mode = Stopping then (q\<lparr>tq_level := Stopped\<rparr>, Loop_return, [Notify_all_new, Notify_all_done])
      else (q, Loop_return, []))"

definition loop_check_done :: "thread_mode \<Rightarrow> task_queue \<Rightarrow> (task_queue \<times> loop_pc \<times> tq_notify list) hx" where
  "loop_check_done mode q =
     hx_map (\<lambda>ok. if ok then loop_leave mode q else (q, Wait_done False, [])) (loop_done_pred q)"

definition loop_take :: "thread_mode \<Rightarrow> task_queue \<Rightarrow> (task_queue \<times> loop_pc \<times> tq_notify list) hx" where
  "loop_take mode q =
     (if \<not> task_queue_empty q
      then hx_map (\<lambda>(t, q1). (q1\<lparr>tq_executing := tq_executing q1 + 1\<rparr>, Run_task t, [])) (take_front q)
      else if mode = Pool then Inr (q, Loop_return, [])
      else loop_check_done mode q)"

definition loop_check_new :: "thread_mode \<Rightarrow> task_queue \<Rightarrow> (task_queue \<times> loop_pc \<times> tq_notify list) hx" where
  "loop_check_new mode q = (if loop_new_pred q then loop_take mode q else Inr (q, Wait_new False, []))"

definition loop_enter :: "thread_mode \<Rightarrow> hxtask option \<Rightarrow> task_queue \<Rightarrow> (task_queue \<times> loop_pc \<times> tq_notify list) hx" where
  "loop_enter mode finished q =
     hx_bind (if finished \<noteq> None then loop_finish q else Inr (q, [])) (\<lambda>(q1, ns).
     hx_map (\<lambda>(q2, pc, ns2). (q2, pc, ns @ ns2)) (if mode = Pool then loop_check_new mode q1 else loop_take mode q1))"

text \<open>The next critical section of a thread that wants the lock.\<close>

fun loop_critical :: "thread_mode \<Rightarrow> loop_pc \<Rightarrow> task_queue \<Rightarrow> (task_queue \<times> loop_pc \<times> tq_notify list) hx option" where
  "loop_critical mode (Loop_top finished) q = Some (loop_enter mode finished q)"
| "loop_critical mode (Wait_new True) q = Some (loop_check_new mode q)"
| "loop_critical mode (Wait_done True) q = Some (loop_check_done mode q)"
| "loop_critical mode pc q = None"

section \<open>Interleaving\<close>

type_synonym tq_threads = "(thread_mode \<times> loop_pc) list"

definition wake_new :: "thread_mode \<times> loop_pc \<Rightarrow> thread_mode \<times> loop_pc" where
  "wake_new th = (if snd th = Wait_new False then (fst th, Wait_new True) else th)"

definition wake_done :: "thread_mode \<times> loop_pc \<Rightarrow> thread_mode \<times> loop_pc" where
  "wake_done th = (if snd th = Wait_done False then (fst th, Wait_done True) else th)"

inductive tq_notified :: "tq_notify list \<Rightarrow> tq_threads \<Rightarrow> tq_threads \<Rightarrow> bool" where
  notified_nil: "tq_notified [] ths ths"
| notified_one: "i < length ths \<Longrightarrow> snd (ths ! i) = Wait_new False \<Longrightarrow> tq_notified ns (ths[i := wake_new (ths ! i)]) ths' \<Longrightarrow>
    tq_notified (Notify_one_new # ns) ths ths'"
| notified_nobody: "Wait_new False \<notin> snd ` set ths \<Longrightarrow> tq_notified ns ths ths' \<Longrightarrow> tq_notified (Notify_one_new # ns) ths ths'"
| notified_all_new: "tq_notified ns (map wake_new ths) ths' \<Longrightarrow> tq_notified (Notify_all_new # ns) ths ths'"
| notified_all_done: "tq_notified ns (map wake_done ths) ths' \<Longrightarrow> tq_notified (Notify_all_done # ns) ths ths'"

datatype tq_label = Enqueued hxtask | Started hxtask | Finished hxtask | Removed "hxtask list" | Silent

definition pc_label :: "loop_pc \<Rightarrow> tq_label" where
  "pc_label pc = (case pc of Run_task t \<Rightarrow> Started t | _ \<Rightarrow> Silent)"

text \<open>The steps of the threads in the loop are the work of the queue; the others are calls of its
  operations, wherever they come from, and spurious wakeups. A client thread waits or destroys the queue;
  there is one at a time, as the header asks.\<close>

definition client_active :: "tq_threads \<Rightarrow> bool" where
  "client_active ths = (\<exists>th\<in>set ths. fst th \<noteq> Pool \<and> snd th \<noteq> Loop_return)"

definition queued_tasks :: "task_queue \<Rightarrow> hxtask list" where
  "queued_tasks q = (case vec_values (tq_tasks q) of Inl e \<Rightarrow> [] | Inr rs \<Rightarrow> map rec_task rs)"

inductive tq_work :: "task_queue \<times> tq_threads \<Rightarrow> tq_label \<Rightarrow> task_queue \<times> tq_threads \<Rightarrow> bool" where
  work_critical: "i < length ths \<Longrightarrow> ths ! i = (mode, pc) \<Longrightarrow> loop_critical mode pc q = Some (Inr (q', pc', ns)) \<Longrightarrow>
    tq_notified ns (ths[i := (mode, pc')]) ths' \<Longrightarrow> tq_work (q, ths) (pc_label pc') (q', ths')"
| work_process: "i < length ths \<Longrightarrow> ths ! i = (mode, Run_task t) \<Longrightarrow>
    tq_work (q, ths) (Finished t) (q, ths[i := (mode, Loop_top (Some t))])"

inductive tq_step :: "task_queue \<times> tq_threads \<Rightarrow> tq_label \<Rightarrow> task_queue \<times> tq_threads \<Rightarrow> bool" where
  step_work: "tq_work s l s' \<Longrightarrow> tq_step s l s'"
| step_spurious_new: "i < length ths \<Longrightarrow> tq_step (q, ths) Silent (q, ths[i := wake_new (ths ! i)])"
| step_spurious_done: "i < length ths \<Longrightarrow> tq_step (q, ths) Silent (q, ths[i := wake_done (ths ! i)])"
| step_enqueue: "task_queue_enqueue q t p = Inr (q', ns) \<Longrightarrow> tq_notified ns ths ths' \<Longrightarrow> tq_step (q, ths) (Enqueued t) (q', ths')"
| step_cancel: "task_queue_cancel q t = Inr (q', ns, erased) \<Longrightarrow> tq_notified ns ths ths' \<Longrightarrow>
    tq_step (q, ths) (Removed (if erased then [t] else [])) (q', ths')"
| step_erase_if: "task_queue_erase_if q P = Inr (q', ns, n) \<Longrightarrow> tq_notified ns ths ths' \<Longrightarrow>
    vec_values (tq_tasks q) = Inr rs \<Longrightarrow> tq_step (q, ths) (Removed (map rec_task (filter P rs))) (q', ths')"
| step_clear: "task_queue_clear q = Inr (q', ns) \<Longrightarrow> tq_notified ns ths ths' \<Longrightarrow> tq_step (q, ths) (Removed (queued_tasks q)) (q', ths')"
| step_for_each: "task_queue_for_each (\<lambda>u r. ((), f r)) () q = Inr (u, q') \<Longrightarrow> (\<And>r. rec_task (f r) = rec_task r) \<Longrightarrow>
    tq_step (q, ths) Silent (q', ths)"
| step_wait: "\<not> client_active ths \<Longrightarrow> tq_level q = Running \<Longrightarrow> tq_step (q, ths) Silent (q, ths @ [(Waiting, Loop_top None)])"
| step_destroy: "\<not> client_active ths \<Longrightarrow> tq_level q = Running \<Longrightarrow> tq_step (q, ths) Silent (q, ths @ [(Stopping, Loop_top None)])"

inductive tq_run :: "task_queue \<times> tq_threads \<Rightarrow> tq_label list \<Rightarrow> task_queue \<times> tq_threads \<Rightarrow> bool" where
  run_nil: "tq_run s [] s"
| run_snoc: "tq_run s ls s1 \<Longrightarrow> tq_step s1 l s2 \<Longrightarrow> tq_run s (ls @ [l]) s2"

section \<open>The operations on the queue\<close>

text \<open>The queue holds the records \<open>xs\<close> as a heap; operations on it leave the other fields alone.\<close>

definition queue_rel :: "task_queue \<Rightarrow> task_record list \<Rightarrow> bool" where
  "queue_rel q xs \<longleftrightarrow> vec_rel (tq_tasks q) xs \<and> heap_from record_less xs 0 (length xs) 0"

definition same_fields :: "task_queue \<Rightarrow> task_queue \<Rightarrow> bool" where
  "same_fields q q' \<longleftrightarrow> tq_level q' = tq_level q \<and> tq_pool q' = tq_pool q \<and> tq_executing q' = tq_executing q"

lemma queue_empty_iff: "queue_rel q xs \<Longrightarrow> task_queue_empty q \<longleftrightarrow> xs = []"
  by (simp add: queue_rel_def task_queue_empty_def hxvector_empty_rel)

lemma queue_tasks: "queue_rel q xs \<Longrightarrow> queued_tasks q = map rec_task xs"
  using vec_values_rel [of "tq_tasks q" xs] by (simp add: queue_rel_def queued_tasks_def)

lemma queue_rel_fields: "queue_rel q xs \<Longrightarrow> tq_tasks q' = tq_tasks q \<Longrightarrow> queue_rel q' xs"
  by (simp add: queue_rel_def)

lemma vec_holds_queue:
  assumes "vec_holds v r ys" and "heap_from record_less ys 0 (length ys) 0"
  obtains v' where "r = Inr v'" "queue_rel (q\<lparr>tq_tasks := v'\<rparr>) ys"
  using assms by (auto simp: vec_holds_def queue_rel_def)

lemma vec_holds_empty: "vec_holds v (Inr v') ys \<Longrightarrow> hxvector_empty v' \<longleftrightarrow> ys = []"
  by (auto simp: vec_holds_def hxvector_empty_rel)

lemma heap_push_result:
  assumes "queue_rel q xs" and "hxvector_push_heap record_less (\<lambda>r. r) (tq_tasks q) r = Inr v"
  obtains ys where "queue_rel (q\<lparr>tq_tasks := v\<rparr>) ys" "mset ys = add_mset r (mset xs)"
proof (cases "length xs < vec_room (tq_tasks q)")
  case True
  then obtain ys where "vec_holds (tq_tasks q) (Inr v) ys" "heap_from record_less ys 0 (length ys) 0" "mset ys = add_mset r (mset xs)"
    using record_order.hxvector_push_heap_rel [of "tq_tasks q" xs "\<lambda>r. r" r] assms by (auto simp: queue_rel_def)
  then show ?thesis using that by (auto simp: queue_rel_def vec_holds_def)
next
  case False
  then have "hxvector_full (tq_tasks q)"
    using assms(1) vec_relD(2) [of "tq_tasks q" xs] by (auto simp: queue_rel_def hxvector_full_rel)
  then show ?thesis using assms(2) by (simp add: hxvector_push_heap_def push_back_unconstructed_def)
qed

lemma enqueue_result:
  assumes "queue_rel q xs" and "task_queue_enqueue q t p = Inr (q', ns)"
  obtains ys where "queue_rel q' ys" "mset ys = add_mset \<lparr>rec_task = t, rec_priority = p\<rparr> (mset xs)" "same_fields q q'"
    "0 < tq_pool q \<Longrightarrow> tq_level q = Running \<and> ns = [Notify_one_new]"
proof -
  obtain v where v: "hxvector_push_heap record_less (\<lambda>r. r) (tq_tasks q) \<lparr>rec_task = t, rec_priority = p\<rparr> = Inr v" "q' = q\<lparr>tq_tasks := v\<rparr>"
    and n: "0 < tq_pool q \<Longrightarrow> tq_level q = Running \<and> ns = [Notify_one_new]"
    using assms(2) by (cases "hxvector_push_heap record_less (\<lambda>r. r) (tq_tasks q) \<lparr>rec_task = t, rec_priority = p\<rparr>")
      (auto simp: task_queue_enqueue_def Let_def split: if_splits)
  from heap_push_result [OF assms(1) v(1)] obtain ys where "queue_rel q' ys" "mset ys = add_mset \<lparr>rec_task = t, rec_priority = p\<rparr> (mset xs)"
    unfolding v(2) by blast
  then show ?thesis using that v(2) n by (simp add: same_fields_def)
qed

lemma take_front_room:
  assumes "queue_rel q xs" and "xs \<noteq> []"
  obtains q' ys where "take_front q = Inr (rec_task (xs ! 0), q')" "queue_rel q' ys" "mset xs = add_mset (xs ! 0) (mset ys)" "same_fields q q'"
    "vec_room (tq_tasks q') = vec_room (tq_tasks q)"
proof -
  have rel: "vec_rel (tq_tasks q) xs" and heap: "heap_from record_less xs 0 (length xs) 0" using assms(1) by (simp_all add: queue_rel_def)
  obtain ys where ys: "vec_holds (tq_tasks q) (hxvector_pop_heap record_less (tq_tasks q)) ys" "heap_from record_less ys 0 (length ys) 0"
    "mset xs = add_mset (xs ! 0) (mset ys)"
    using record_order.hxvector_pop_heap_rel [OF rel assms(2) heap] by blast
  from ys(1) obtain v where v: "hxvector_pop_heap record_less (tq_tasks q) = Inr v" "vec_rel v ys" "vec_room v = vec_room (tq_tasks q)"
    by (auto simp: vec_holds_def)
  have "hxvector_front (tq_tasks q) = Inr (xs ! 0)"
    using vec_relD [OF rel] assms(2) by (simp add: hxvector_front_def hxvector_empty_rel [OF rel] read_slot_live)
  then show ?thesis using that [of "q\<lparr>tq_tasks := v\<rparr>" ys] v ys(2,3) by (simp add: take_front_def same_fields_def queue_rel_def)
qed

lemma take_front_result:
  assumes "queue_rel q xs" and "xs \<noteq> []"
  obtains q' ys where "take_front q = Inr (rec_task (xs ! 0), q')" "queue_rel q' ys" "mset xs = add_mset (xs ! 0) (mset ys)" "same_fields q q'"
  using take_front_room [OF assms] by metis

lemma cancel_result:
  assumes "queue_rel q xs" and "task_queue_cancel q t = Inr (q', ns, erased)"
  obtains ys where "queue_rel q' ys" "same_fields q q'" "erased \<Longrightarrow> \<exists>r. rec_task r = t \<and> mset xs = add_mset r (mset ys)"
    "\<not> erased \<Longrightarrow> ys = xs" "ns = (if erased \<and> ys = [] then [Notify_all_done] else [])"
    "erased \<longleftrightarrow> t \<in> rec_task ` set xs"
proof -
  have rel: "vec_rel (tq_tasks q) xs" using assms(1) by (simp add: queue_rel_def)
  let ?i = "length (takeWhile (\<lambda>r. rec_task r \<noteq> t) xs)"
  have find: "hxvector_find_if (\<lambda>r. rec_task r = t) (tq_tasks q) = Inr ?i"
    by (simp add: hxvector_find_if_def vec_values_rel [OF rel] hxfind_if_spec)
  have e: "vec_end (tq_tasks q) = length xs" by (rule vec_relD(1) [OF rel])
  show ?thesis
  proof (cases "?i = length xs")
    case True
    then have "takeWhile (\<lambda>r. rec_task r \<noteq> t) xs = xs" by (metis takeWhile_eq_take take_all order_refl)
    then have "\<forall>r\<in>set xs. rec_task r \<noteq> t" by (simp add: takeWhile_eq_all_conv)
    moreover have "q' = q" "ns = []" "\<not> erased" using assms(2) find e True by (auto simp: task_queue_cancel_def)
    ultimately show ?thesis using that [of xs] assms(1) by (auto simp: same_fields_def)
  next
    case False
    then have i: "?i < length xs" using length_takeWhile_le [of "\<lambda>r. rec_task r \<noteq> t" xs] by linarith
    then have r: "rec_task (xs ! ?i) = t" using nth_length_takeWhile [of "\<lambda>r. rec_task r \<noteq> t" xs] by simp
    obtain us where us: "vec_holds (tq_tasks q) (hxvector_erase_unordered_it (\<lambda>r. r) (tq_tasks q) (int ?i)) us"
      "add_mset (xs ! ?i) (mset us) = mset xs"
      using hxvector_erase_unordered_it_rel [OF rel i, of "\<lambda>r. r"] by blast
    from us(1) obtain v1 where v1: "hxvector_erase_unordered_it (\<lambda>r. r) (tq_tasks q) (int ?i) = Inr v1" "vec_rel v1 us"
      by (auto simp: vec_holds_def)
    obtain ys where ys: "vec_holds v1 (hxvector_make_heap record_less v1) ys" "mset ys = mset us" "heap_from record_less ys 0 (length ys) 0"
      using hxvector_make_heap_rel [OF record_order.strict_weak_order_axioms v1(2)] by blast
    from ys(1,3) obtain v2 where v2: "hxvector_make_heap record_less v1 = Inr v2" "queue_rel (q\<lparr>tq_tasks := v2\<rparr>) ys"
      by (rule vec_holds_queue)
    have "hxvector_empty v2 \<longleftrightarrow> ys = []" using ys(1) v2(1) vec_holds_empty by auto
    moreover have "task_queue_cancel q t = Inr (q\<lparr>tq_tasks := v2\<rparr>, if hxvector_empty v2 then [Notify_all_done] else [], True)"
      unfolding task_queue_cancel_def find hx_bind_simps e v1(1) v2(1) using False by simp
    ultimately have res: "q' = q\<lparr>tq_tasks := v2\<rparr>" "erased" "ns = (if ys = [] then [Notify_all_done] else [])"
      using assms(2) by simp_all
    have t: "t \<in> rec_task ` set xs" by (rule image_eqI [where f = rec_task and A = "set xs" and x = "xs ! ?i"]) (simp_all only: r nth_mem [OF i])
    have m: "mset xs = add_mset (xs ! ?i) (mset ys)" using us(2) ys(2) by metis
    show ?thesis
    proof (rule that)
      show "queue_rel q' ys" "same_fields q q'" using res(1) v2(2) by (simp_all add: same_fields_def)
      show "\<exists>r. rec_task r = t \<and> mset xs = add_mset r (mset ys)" using r m by blast
    qed (use res t in simp_all)
  qed
qed

lemma erase_if_result:
  assumes "queue_rel q xs" and "task_queue_erase_if q P = Inr (q', ns, n)"
  obtains ys where "queue_rel q' ys" "same_fields q q'" "mset ys = mset (filter (\<lambda>r. \<not> P r) xs)"
    "ns = (if filter P xs \<noteq> [] \<and> ys = [] then [Notify_all_done] else [])" "n = int (length (filter P xs))"
proof -
  have rel: "vec_rel (tq_tasks q) xs" using assms(1) by (simp add: queue_rel_def)
  obtain v1 us where v1: "hxvector_erase_if_unordered (\<lambda>r. r) (tq_tasks q) P = Inr (v1, int (length (filter P xs)))"
    "vec_rel v1 us" "mset us = mset (filter (\<lambda>r. \<not> P r) xs)"
    using hxvector_erase_if_rel [OF rel, of "\<lambda>r. r" P] by (auto simp: vec_holds_def)
  obtain ys where ys: "vec_holds v1 (hxvector_make_heap record_less v1) ys" "mset ys = mset us" "heap_from record_less ys 0 (length ys) 0"
    using hxvector_make_heap_rel [OF record_order.strict_weak_order_axioms v1(2)] by blast
  from ys(1,3) obtain v2 where v2: "hxvector_make_heap record_less v1 = Inr v2" "queue_rel (q\<lparr>tq_tasks := v2\<rparr>) ys"
    by (rule vec_holds_queue)
  have "hxvector_empty v2 \<longleftrightarrow> ys = []" using ys(1) v2(1) vec_holds_empty by auto
  then show ?thesis
    using that [of ys] assms(2) v1 v2 ys(2) by (auto simp: task_queue_erase_if_def same_fields_def)
qed

lemma for_each_result:
  assumes "queue_rel q xs" and "task_queue_for_each (\<lambda>u r. ((), f r)) () q = Inr (u, q')"
  obtains ys where "queue_rel q' ys" "same_fields q q'" "mset ys = mset (map f xs)"
proof -
  have rel: "vec_rel (tq_tasks q) xs" using assms(1) by (simp add: queue_rel_def)
  note v = vec_relD [OF rel]
  have each: "hxfor_each (\<lambda>u r. ((), f r)) () xs = ((), map f xs)" by (induction xs) simp_all
  let ?v = "vec_set (tq_tasks q) (live_prefix (map f xs) (vec_room (tq_tasks q))) (length (map f xs))"
  have run: "hxvector_for_each (\<lambda>u r. ((), f r)) () (tq_tasks q) = Inr ((), ?v)"
    using v write_all_live [of "map f xs" xs "vec_room (tq_tasks q)"] by (simp add: hxvector_for_each_def vec_values_rel [OF rel] each)
  have "vec_rel ?v (map f xs)" using vec_set_rel [OF rel, of "map f xs"] v(2) by simp
  then obtain ys where ys: "vec_holds ?v (hxvector_make_heap record_less ?v) ys" "mset ys = mset (map f xs)" "heap_from record_less ys 0 (length ys) 0"
    using hxvector_make_heap_rel [OF record_order.strict_weak_order_axioms] by blast
  from ys(1,3) obtain v2 where v2: "hxvector_make_heap record_less ?v = Inr v2" "queue_rel (q\<lparr>tq_tasks := v2\<rparr>) ys"
    by (rule vec_holds_queue)
  have "q' = q\<lparr>tq_tasks := v2\<rparr>" using assms(2) v2(1) by (simp add: task_queue_for_each_def run)
  then show ?thesis using that ys(2) v2(2) by (simp add: same_fields_def)
qed

lemma clear_result:
  assumes "queue_rel q xs" and "task_queue_clear q = Inr (q', ns)"
  shows "queue_rel q' [] \<and> same_fields q q' \<and> ns = [Notify_all_done]"
proof -
  have "vec_holds (tq_tasks q) (hxvector_clear (tq_tasks q)) []"
    using assms(1) by (intro hxvector_clear_rel [of _ xs]) (simp add: queue_rel_def)
  then show ?thesis
    using assms(2) by (auto simp: vec_holds_def task_queue_clear_def queue_rel_def same_fields_def heap_from_def)
qed

section \<open>The invariant of the system\<close>

fun busy_pc :: "loop_pc \<Rightarrow> bool" where
  "busy_pc (Run_task t) = True"
| "busy_pc (Loop_top (Some t)) = True"
| "busy_pc pc = False"

fun awake_pc :: "loop_pc \<Rightarrow> bool" where
  "awake_pc (Loop_top f) = True"
| "awake_pc (Wait_new woken) = woken"
| "awake_pc (Run_task t) = True"
| "awake_pc pc = False"

fun kind_ok :: "thread_mode \<times> loop_pc \<Rightarrow> bool" where
  "kind_ok (mode, Wait_new woken) = (mode = Pool)"
| "kind_ok (mode, Wait_done woken) = (mode \<noteq> Pool)"
| "kind_ok th = True"

definition busy_th :: "thread_mode \<times> loop_pc \<Rightarrow> bool" where
  "busy_th th = busy_pc (snd th)"

definition client_th :: "thread_mode \<times> loop_pc \<Rightarrow> bool" where
  "client_th th = (fst th \<noteq> Pool \<and> snd th \<noteq> Loop_return)"

definition awake_pool :: "thread_mode \<times> loop_pc \<Rightarrow> bool" where
  "awake_pool th = (fst th = Pool \<and> awake_pc (snd th))"

abbreviation cnt :: "('a \<Rightarrow> bool) \<Rightarrow> 'a list \<Rightarrow> nat" where
  "cnt P xs \<equiv> length (filter P xs)"

text \<open>What holds of the threads and the queue but for the two condition variables, then what the
  notifications ensure: nobody sleeps on a condition that holds.\<close>

definition threads_inv :: "task_record list \<Rightarrow> task_queue \<Rightarrow> tq_threads \<Rightarrow> bool" where
  "threads_inv xs q ths \<longleftrightarrow> queue_rel q xs \<and> 0 < tq_pool q \<and> (\<exists>th\<in>set ths. fst th = Pool) \<and>
     tq_executing q = int (cnt busy_th ths) \<and> cnt client_th ths \<le> 1 \<and> (\<forall>th\<in>set ths. kind_ok th) \<and>
     (tq_level q = Running \<longrightarrow> (\<forall>th\<in>set ths. th \<noteq> (Pool, Loop_return))) \<and>
     (tq_level q = Stopped \<longrightarrow> xs = [] \<and> tq_executing q = 0 \<and> cnt client_th ths = 0)"

definition wake_inv :: "task_record list \<Rightarrow> task_queue \<Rightarrow> tq_threads \<Rightarrow> bool" where
  "wake_inv xs q ths \<longleftrightarrow>
     (xs = [] \<and> tq_executing q = 0 \<longrightarrow> (\<forall>th\<in>set ths. snd th \<noteq> Wait_done False)) \<and>
     (xs \<noteq> [] \<longrightarrow> (\<exists>th\<in>set ths. awake_pool th)) \<and>
     (tq_level q = Stopped \<longrightarrow> (\<forall>th\<in>set ths. snd th \<noteq> Wait_new False))"

definition sys_inv :: "task_record list \<Rightarrow> task_queue \<times> tq_threads \<Rightarrow> bool" where
  "sys_inv xs s \<longleftrightarrow> threads_inv xs (fst s) (snd s) \<and> wake_inv xs (fst s) (snd s)"

lemma cnt_update: "i < length xs \<Longrightarrow> cnt P (xs[i := x]) + (if P (xs ! i) then 1 else 0) = cnt P xs + (if P x then 1 else 0)"
proof (induction xs arbitrary: i)
  case (Cons y ys)
  then show ?case by (cases i) auto
qed simp

lemma cnt_zero: "cnt P xs = 0 \<longleftrightarrow> (\<forall>x\<in>set xs. \<not> P x)"
  by (auto simp: filter_empty_conv)

lemma set_update_other: "th \<in> set ths \<Longrightarrow> th \<noteq> ths ! i \<Longrightarrow> th \<in> set (ths[i := x])"
  by (metis in_set_conv_nth length_list_update nth_list_update_neq)

lemma set_update_in: "th \<in> set (ths[i := x]) \<Longrightarrow> th = x \<or> th \<in> set ths"
  using set_update_subset_insert [of ths i x] by blast

lemma set_update_all: "\<forall>th\<in>set ths. P th \<Longrightarrow> P x \<Longrightarrow> \<forall>th\<in>set (ths[i := x]). P th"
  using set_update_in by metis

text \<open>A notification only wakes threads.\<close>

definition woken_thread :: "thread_mode \<times> loop_pc \<Rightarrow> thread_mode \<times> loop_pc \<Rightarrow> bool" where
  "woken_thread a b \<longleftrightarrow> b = a \<or> b = wake_new a \<or> b = wake_done a"

lemma woken_facts:
  assumes "woken_thread a b"
  shows "fst b = fst a" and "busy_th b = busy_th a" and "client_th b = client_th a" and "kind_ok a \<Longrightarrow> kind_ok b"
    and "awake_pool a \<Longrightarrow> awake_pool b" and "snd b = Wait_new False \<Longrightarrow> snd a = Wait_new False"
    and "snd b = Wait_done False \<Longrightarrow> snd a = Wait_done False" and "b = (Pool, Loop_return) \<Longrightarrow> a = (Pool, Loop_return)"
  using assms
  by (cases a; auto simp: woken_thread_def wake_new_def wake_done_def busy_th_def client_th_def awake_pool_def split: if_splits)+

lemma woken_trans: "woken_thread a b \<Longrightarrow> woken_thread b c \<Longrightarrow> woken_thread a c"
  by (cases a) (auto simp: woken_thread_def wake_new_def wake_done_def split: if_splits)

abbreviation woken :: "tq_threads \<Rightarrow> tq_threads \<Rightarrow> bool" where
  "woken \<equiv> list_all2 woken_thread"

lemma woken_refl: "woken ths ths"
  by (simp add: list_all2_refl woken_thread_def)

lemma woken_map: "(\<And>a. woken_thread a (f a)) \<Longrightarrow> woken ths (map f ths)"
  by (simp add: list_all2_conv_all_nth)

lemma woken_update: "woken_thread (ths ! i) b \<Longrightarrow> woken ths (ths[i := b])"
proof (rule list_all2_all_nthI)
  fix k assume "woken_thread (ths ! i) b" "k < length ths"
  then show "woken_thread (ths ! k) (ths[i := b] ! k)" by (cases "k = i") (auto simp: woken_thread_def)
qed simp

lemma woken_comp: "woken a b \<Longrightarrow> woken b c \<Longrightarrow> woken a c"
  by (rule list_all2_trans [of woken_thread woken_thread woken_thread]) (auto intro: woken_trans)

lemma notified_woken: "tq_notified ns ths ths' \<Longrightarrow> woken ths ths'"
proof (induction rule: tq_notified.induct)
  case (notified_one i ths ns ths')
  have "woken ths (ths[i := wake_new (ths ! i)])" by (intro woken_update) (simp add: woken_thread_def)
  then show ?case using notified_one by (blast intro: woken_comp)
next
  case (notified_all_new ns ths ths')
  have "woken ths (map wake_new ths)" by (intro woken_map) (simp add: woken_thread_def)
  then show ?case using notified_all_new by (blast intro: woken_comp)
next
  case (notified_all_done ns ths ths')
  have "woken ths (map wake_done ths)" by (intro woken_map) (simp add: woken_thread_def)
  then show ?case using notified_all_done by (blast intro: woken_comp)
qed (auto simp: woken_refl)

lemma woken_from: "woken ths ths' \<Longrightarrow> b \<in> set ths' \<Longrightarrow> \<exists>a\<in>set ths. woken_thread a b"
  by (induction rule: list_all2_induct) auto

lemma woken_to: "woken ths ths' \<Longrightarrow> a \<in> set ths \<Longrightarrow> \<exists>b\<in>set ths'. woken_thread a b"
  by (induction rule: list_all2_induct) auto

lemma woken_no_wait_done: "woken ths ths' \<Longrightarrow> \<forall>th\<in>set ths. snd th \<noteq> Wait_done False \<Longrightarrow> \<forall>th\<in>set ths'. snd th \<noteq> Wait_done False"
  using woken_from woken_facts(7) by metis

lemma woken_no_wait_new: "woken ths ths' \<Longrightarrow> \<forall>th\<in>set ths. snd th \<noteq> Wait_new False \<Longrightarrow> \<forall>th\<in>set ths'. snd th \<noteq> Wait_new False"
  using woken_from woken_facts(6) by metis

lemma woken_awake: "woken ths ths' \<Longrightarrow> \<exists>th\<in>set ths. awake_pool th \<Longrightarrow> \<exists>th\<in>set ths'. awake_pool th"
  using woken_to woken_facts(5) by metis

lemma woken_threads_inv:
  assumes "woken ths ths'" and "threads_inv xs q ths"
  shows "threads_inv xs q ths'"
proof -
  have cnt: "cnt P ths' = cnt P ths" if "\<And>a b. woken_thread a b \<Longrightarrow> P b = P a" for P
    using assms(1) that by (induction rule: list_all2_induct) auto
  have inv: "queue_rel q xs" "0 < tq_pool q" "\<exists>th\<in>set ths. fst th = Pool" "tq_executing q = int (cnt busy_th ths)"
    "cnt client_th ths \<le> 1" "\<forall>th\<in>set ths. kind_ok th" "tq_level q = Running \<longrightarrow> (\<forall>th\<in>set ths. th \<noteq> (Pool, Loop_return))"
    "tq_level q = Stopped \<longrightarrow> xs = [] \<and> tq_executing q = 0 \<and> cnt client_th ths = 0"
    using assms(2) unfolding threads_inv_def by blast+
  have "\<exists>th\<in>set ths'. fst th = Pool" using inv(3) woken_to [OF assms(1)] woken_facts(1) by metis
  moreover have "\<forall>th\<in>set ths'. kind_ok th" using inv(6) woken_from [OF assms(1)] woken_facts(4) by metis
  moreover have "tq_level q = Running \<longrightarrow> (\<forall>th\<in>set ths'. th \<noteq> (Pool, Loop_return))"
    using inv(7) woken_from [OF assms(1)] woken_facts(8) by metis
  moreover have "cnt busy_th ths' = cnt busy_th ths" by (rule cnt) (rule woken_facts(2))
  moreover have "cnt client_th ths' = cnt client_th ths" by (rule cnt) (rule woken_facts(3))
  ultimately show ?thesis
    unfolding threads_inv_def using inv by simp
qed

lemma woken_wake_inv: "woken ths ths' \<Longrightarrow> wake_inv xs q ths \<Longrightarrow> wake_inv xs q ths'"
  using woken_no_wait_done [of ths ths'] woken_no_wait_new [of ths ths'] woken_awake [of ths ths'] by (auto simp: wake_inv_def)

lemma woken_sys_inv: "woken ths ths' \<Longrightarrow> sys_inv xs (q, ths) \<Longrightarrow> sys_inv xs (q, ths')"
  using woken_threads_inv woken_wake_inv by (auto simp: sys_inv_def)

text \<open>What each notification achieves.\<close>

lemma notified_all_done_wakes:
  "tq_notified ns ths ths' \<Longrightarrow> Notify_all_done \<in> set ns \<Longrightarrow> \<forall>th\<in>set ths'. snd th \<noteq> Wait_done False"
proof (induction rule: tq_notified.induct)
  case (notified_all_done ns ths ths')
  have "\<forall>th\<in>set (map wake_done ths). snd th \<noteq> Wait_done False" by (auto simp: wake_done_def)
  then show ?case using notified_woken [OF notified_all_done.hyps] woken_no_wait_done by blast
qed auto

lemma notified_all_new_wakes:
  "tq_notified ns ths ths' \<Longrightarrow> Notify_all_new \<in> set ns \<Longrightarrow> \<forall>th\<in>set ths'. snd th \<noteq> Wait_new False"
proof (induction rule: tq_notified.induct)
  case (notified_all_new ns ths ths')
  have "\<forall>th\<in>set (map wake_new ths). snd th \<noteq> Wait_new False" by (auto simp: wake_new_def)
  then show ?case using notified_woken [OF notified_all_new.hyps] woken_no_wait_new by blast
qed auto

lemma notified_one_wakes:
  assumes "tq_notified [Notify_one_new] ths ths'" and inv: "threads_inv xs q ths" and "tq_level q = Running"
  shows "\<exists>th\<in>set ths'. awake_pool th"
  using assms(1)
proof (cases rule: tq_notified.cases)
  case (notified_one i)
  have k: "kind_ok (ths ! i)" using inv notified_one(1) nth_mem by (auto simp: threads_inv_def)
  obtain mode where th: "ths ! i = (mode, Wait_new False)" using notified_one(2) by (cases "ths ! i") auto
  then have "mode = Pool" using k by simp
  then have "awake_pool (wake_new (ths ! i))" using th by (simp add: awake_pool_def wake_new_def)
  moreover have "wake_new (ths ! i) \<in> set (ths[i := wake_new (ths ! i)])" using notified_one(1) by (rule set_update_memI)
  ultimately show ?thesis using woken_awake [OF notified_woken [OF notified_one(3)]] by blast
next
  case notified_nobody
  obtain th where th: "th \<in> set ths" "fst th = Pool" using inv by (auto simp: threads_inv_def)
  have "th \<noteq> (Pool, Loop_return)" "kind_ok th" using inv th(1) assms(3) by (auto simp: threads_inv_def)
  moreover have "snd th \<noteq> Wait_new False" using notified_nobody(1) th(1) by force
  ultimately have "awake_pool th" using th(2) by (cases th; cases "snd th") (auto simp: awake_pool_def)
  then show ?thesis using woken_awake [OF notified_woken [OF notified_nobody(2)]] th(1) by blast
qed

section \<open>What a critical section does\<close>

lemma loop_check_done_result:
  assumes "queue_rel q xs" and "loop_check_done mode q = Inr (q', pc', ns)"
  obtains (sleep) "tq_level q = Running" "\<not> (xs = [] \<and> tq_executing q = 0)" "q' = q" "pc' = Wait_done False" "ns = []"
  | (leave) "tq_level q = Running" "xs = []" "tq_executing q = 0" "pc' = Loop_return"
      "q' = (if mode = Stopping then q\<lparr>tq_level := Stopped\<rparr> else q)"
      "ns = (if mode = Stopping then [Notify_all_new, Notify_all_done] else [])"
proof (cases "tq_level q = Running \<and> xs = [] \<and> tq_executing q = 0")
  case True
  then have "loop_check_done mode q = Inr (loop_leave mode q)"
    using queue_empty_iff [OF assms(1)] by (simp add: loop_check_done_def loop_done_pred_def)
  then have "loop_leave mode q = (q', pc', ns)" using assms(2) by simp
  then have "q' = (if mode = Stopping then q\<lparr>tq_level := Stopped\<rparr> else q)" "pc' = Loop_return"
    "ns = (if mode = Stopping then [Notify_all_new, Notify_all_done] else [])"
    by (auto simp: loop_leave_def split: if_splits)
  then show ?thesis using True by (intro leave) simp_all
next
  case False
  have running: "tq_level q = Running" using assms(2) by (simp add: loop_check_done_def loop_done_pred_def split: if_splits)
  then have "loop_check_done mode q = Inr (q, Wait_done False, [])"
    using False queue_empty_iff [OF assms(1)] by (auto simp: loop_check_done_def loop_done_pred_def)
  then show ?thesis using assms(2) False running by (intro sleep) auto
qed

lemma loop_take_result:
  assumes "queue_rel q xs" and "loop_take mode q = Inr (q', pc', ns)"
  obtains (take) ys where "xs \<noteq> []" "pc' = Run_task (rec_task (xs ! 0))" "ns = []" "queue_rel q' ys"
      "mset xs = add_mset (xs ! 0) (mset ys)" "tq_level q' = tq_level q" "tq_pool q' = tq_pool q" "tq_executing q' = tq_executing q + 1"
  | (return) "mode = Pool" "xs = []" "pc' = Loop_return" "q' = q" "ns = []"
  | (check) "mode \<noteq> Pool" "xs = []" "loop_check_done mode q = Inr (q', pc', ns)"
proof (cases "xs = []")
  case True
  then show ?thesis
    using assms(2) queue_empty_iff [OF assms(1)] return check by (auto simp: loop_take_def split: if_splits)
next
  case False
  obtain q1 ys where q1: "take_front q = Inr (rec_task (xs ! 0), q1)" "queue_rel q1 ys" "mset xs = add_mset (xs ! 0) (mset ys)" "same_fields q q1"
    using take_front_result [OF assms(1) False] .
  then have "q' = q1\<lparr>tq_executing := tq_executing q1 + 1\<rparr>" "pc' = Run_task (rec_task (xs ! 0))" "ns = []"
    using assms(2) False queue_empty_iff [OF assms(1)] by (auto simp: loop_take_def)
  then show ?thesis
    using take [of ys] False q1(2,3,4) by (simp add: same_fields_def queue_rel_def)
qed

text \<open>The outcomes of a critical section; \<open>e\<close> counts the tasks executing once the thread has reported its own.\<close>

lemma critical_result:
  assumes inv: "threads_inv xs q ths" and i: "i < length ths" "ths ! i = (mode, pc)"
    and run: "loop_critical mode pc q = Some (Inr (q', pc', ns))"
  defines "e \<equiv> tq_executing q - (if busy_pc pc then 1 else 0)"
  obtains (take) ys where "xs \<noteq> []" "pc' = Run_task (rec_task (xs ! 0))" "queue_rel q' ys" "mset xs = add_mset (xs ! 0) (mset ys)"
      "tq_level q' = tq_level q" "tq_pool q' = tq_pool q" "tq_executing q' = e + 1"
  | (sleep_new) "mode = Pool" "xs = []" "tq_level q = Running" "pc' = Wait_new False" "queue_rel q' []" "same_fields (q\<lparr>tq_executing := e\<rparr>) q'"
      "busy_pc pc \<and> e = 0 \<Longrightarrow> Notify_all_done \<in> set ns"
  | (pool_return) "mode = Pool" "xs = []" "tq_level q = Stopped" "pc' = Loop_return" "queue_rel q' []" "same_fields (q\<lparr>tq_executing := e\<rparr>) q'"
      "busy_pc pc \<and> e = 0 \<Longrightarrow> Notify_all_done \<in> set ns"
  | (sleep_done) "mode \<noteq> Pool" "tq_level q = Running" "\<not> (xs = [] \<and> e = 0)" "pc' = Wait_done False" "queue_rel q' xs"
      "same_fields (q\<lparr>tq_executing := e\<rparr>) q'"
  | (leave) "mode \<noteq> Pool" "xs = []" "e = 0" "tq_level q = Running" "pc' = Loop_return" "queue_rel q' []"
      "same_fields (q\<lparr>tq_executing := 0, tq_level := (if mode = Stopping then Stopped else Running)\<rparr>) q'"
      "busy_pc pc \<or> mode = Stopping \<Longrightarrow> Notify_all_done \<in> set ns" "mode = Stopping \<Longrightarrow> Notify_all_new \<in> set ns"
proof -
  note outcomes = that
  have rel: "queue_rel q xs" using inv by (simp add: threads_inv_def)
  have kind: "kind_ok (mode, pc)" using inv i nth_mem [of i ths] by (auto simp: threads_inv_def)
  obtain q1 n1 n2 where first: "queue_rel q1 xs" "same_fields (q\<lparr>tq_executing := e\<rparr>) q1" "ns = n1 @ n2"
      "busy_pc pc \<and> e = 0 \<and> xs = [] \<Longrightarrow> Notify_all_done \<in> set n1"
    and second: "(if mode = Pool then loop_check_new mode q1 = Inr (q', pc', n2)
      else loop_take mode q1 = Inr (q', pc', n2) \<or> loop_check_done mode q1 = Inr (q', pc', n2))"
  proof (cases pc)
    case (Loop_top finished)
    show ?thesis
    proof (cases finished)
      case None
      then have "if mode = Pool then loop_check_new mode q = Inr (q', pc', ns) else loop_take mode q = Inr (q', pc', ns)"
        using run Loop_top by (auto simp: loop_enter_def hx_map_def split: sum.splits if_splits)
      then show ?thesis
        using that [of q "[]" ns] rel Loop_top None by (auto simp: e_def same_fields_def split: if_splits)
    next
      case (Some t)
      let ?q1 = "q\<lparr>tq_executing := e\<rparr>"
      let ?n1 = "if e = 0 \<and> xs = [] then [Notify_all_done] else []"
      have fin: "loop_finish q = Inr (?q1, ?n1)"
        using run Loop_top Some queue_empty_iff [OF rel]
        by (auto simp: loop_enter_def loop_finish_def e_def task_queue_empty_def Let_def split: if_splits)
      obtain n2 where "ns = ?n1 @ n2" "if mode = Pool then loop_check_new mode ?q1 = Inr (q', pc', n2) else loop_take mode ?q1 = Inr (q', pc', n2)"
        using run Loop_top Some fin by (auto simp: loop_enter_def hx_map_def split: sum.splits if_splits)
      moreover have "queue_rel ?q1 xs" using rel by (rule queue_rel_fields) simp
      ultimately show ?thesis using that [of ?q1 ?n1 n2] by (auto simp: same_fields_def split: if_splits)
    qed
  next
    case (Wait_new woken)
    then show ?thesis
      using that [of q "[]" ns] rel run kind by (cases woken) (auto simp: e_def same_fields_def)
  next
    case (Wait_done woken)
    then show ?thesis
      using that [of q "[]" ns] rel run kind by (cases woken) (auto simp: e_def same_fields_def)
  qed (use run in simp_all)
  have lv: "tq_level q1 = tq_level q" "tq_pool q1 = tq_pool q" "tq_executing q1 = e" using first(2) by (simp_all add: same_fields_def)
  show ?thesis
  proof (cases "mode = Pool")
    case True
    then have new: "loop_check_new mode q1 = Inr (q', pc', n2)" using second by simp
    show ?thesis
    proof (cases "loop_new_pred q1")
      case pred: True
      then have "loop_take mode q1 = Inr (q', pc', n2)" using new by (simp add: loop_check_new_def)
      from first(1) this show ?thesis
      proof (cases rule: loop_take_result)
        case (take ys)
        then show ?thesis using outcomes(1) [of ys] lv by simp
      next
        case return
        then have "tq_level q = Stopped" using pred queue_empty_iff [OF first(1)] lv by (simp add: loop_new_pred_def)
        then show ?thesis using outcomes(3) return first by auto
      qed (use True in simp)
    next
      case False
      then have "xs = []" "tq_level q = Running" "q' = q1" "pc' = Wait_new False" "n2 = []"
        using new queue_empty_iff [OF first(1)] lv by (auto simp: loop_check_new_def loop_new_pred_def intro: run_level.exhaust)
      then show ?thesis using outcomes(2) True first by auto
    qed
  next
    case False
    have done_case: ?thesis if check: "loop_check_done mode q1 = Inr (q', pc', n2)"
      using first(1) check
    proof (cases rule: loop_check_done_result)
      case sleep
      then show ?thesis using outcomes(4) False first lv by auto
    next
      case leave
      have q': "tq_tasks q' = tq_tasks q1" "tq_level q' = (if mode = Stopping then Stopped else Running)" "tq_pool q' = tq_pool q" "tq_executing q' = 0"
        using leave lv by (simp_all split: if_splits)
      show ?thesis
      proof (rule outcomes(5))
        show "queue_rel q' []" using first(1) leave(2) q'(1) queue_rel_fields by metis
        show "same_fields (q\<lparr>tq_executing := 0, tq_level := (if mode = Stopping then Stopped else Running)\<rparr>) q'"
          using q' by (simp add: same_fields_def)
        show "Notify_all_done \<in> set ns" if "busy_pc pc \<or> mode = Stopping"
          using that first(3,4) leave lv by (auto split: if_splits)
        show "Notify_all_new \<in> set ns" if "mode = Stopping" using that first(3) leave(6) by simp
      qed (use False leave lv in simp_all)
    qed
    show ?thesis
    proof (cases "loop_check_done mode q1 = Inr (q', pc', n2)")
      case True
      then show ?thesis by (rule done_case)
    next
      case ndone: False
      then have "loop_take mode q1 = Inr (q', pc', n2)" using second False by simp
      from first(1) this show ?thesis
      proof (cases rule: loop_take_result)
        case (take ys)
        then show ?thesis using outcomes(1) [of ys] lv by simp
      next
        case check
        then show ?thesis using ndone by simp
      qed (use False in simp)
    qed
  qed
qed

section \<open>Every step keeps the invariant\<close>

lemma busy_nonneg: "threads_inv xs q ths \<Longrightarrow> i < length ths \<Longrightarrow> (if busy_th (ths ! i) then 1 else 0) \<le> tq_executing q"
  using cnt_update [of i ths busy_th "(Pool, Loop_return)"] by (auto simp: threads_inv_def busy_th_def)

lemma threads_inv_update:
  assumes inv: "threads_inv xs q ths" and i: "i < length ths" "ths ! i = (mode, pc)" and pc: "pc \<noteq> Loop_return"
    and q': "queue_rel q' ys" "tq_pool q' = tq_pool q" "kind_ok (mode, pc')"
      "tq_executing q' = tq_executing q - (if busy_pc pc then 1 else 0) + (if busy_pc pc' then 1 else 0)"
    and running: "tq_level q' = Running \<Longrightarrow> tq_level q = Running \<and> \<not> (mode = Pool \<and> pc' = Loop_return)"
    and stopped: "tq_level q' = Stopped \<Longrightarrow> ys = [] \<and> tq_executing q' = 0 \<and> cnt client_th (ths[i := (mode, pc')]) = 0"
  shows "threads_inv ys q' (ths[i := (mode, pc')])"
  unfolding threads_inv_def
proof (intro conjI)
  let ?m = "ths[i := (mode, pc')]"
  show "queue_rel q' ys" "0 < tq_pool q'" using inv q' by (simp_all add: threads_inv_def)
  obtain th where th: "th \<in> set ths" "fst th = Pool" using inv by (auto simp: threads_inv_def)
  show "\<exists>th\<in>set ?m. fst th = Pool"
  proof (cases "th = ths ! i")
    case True
    then have "mode = Pool" using th(2) i(2) by simp
    then show ?thesis by (intro bexI [where x = "(mode, pc')"] set_update_memI [OF i(1)]) simp
  next
    case False
    then show ?thesis using th(2) by (intro bexI [where x = th] set_update_other th(1)) simp_all
  qed
  show "tq_executing q' = int (cnt busy_th ?m)"
    using inv q'(4) cnt_update [OF i(1), of busy_th "(mode, pc')"] i(2) by (auto simp: threads_inv_def busy_th_def split: if_splits)
  have "cnt client_th ths \<le> 1" using inv by (simp add: threads_inv_def)
  then show "cnt client_th ?m \<le> 1"
    using cnt_update [OF i(1), of client_th "(mode, pc')"] i(2) pc by (auto simp: client_th_def split: if_splits)
  have "\<forall>th\<in>set ths. kind_ok th" using inv by (simp add: threads_inv_def)
  then show "\<forall>th\<in>set ?m. kind_ok th" using q'(3) set_update_in by metis
  show "tq_level q' = Running \<longrightarrow> (\<forall>th\<in>set ?m. th \<noteq> (Pool, Loop_return))"
  proof (intro impI ballI)
    fix th assume "tq_level q' = Running" "th \<in> set ?m"
    then show "th \<noteq> (Pool, Loop_return)" using running inv set_update_in [of th ths i] by (auto simp: threads_inv_def)
  qed
  show "tq_level q' = Stopped \<longrightarrow> ys = [] \<and> tq_executing q' = 0 \<and> cnt client_th ?m = 0" using stopped by simp
qed

lemma wake_inv_update:
  assumes inv: "wake_inv xs q ths" and i: "i < length ths" "ths ! i = (mode, pc)"
    and notified: "tq_notified ns (ths[i := (mode, pc')]) ths'"
    and quiet: "ys = [] \<and> tq_executing q' = 0 \<Longrightarrow> Notify_all_done \<in> set ns \<or> (xs = [] \<and> tq_executing q = 0 \<and> pc' \<noteq> Wait_done False)"
    and pending: "ys \<noteq> [] \<Longrightarrow> xs \<noteq> [] \<and> (mode \<noteq> Pool \<or> awake_pc pc')"
    and stopped: "tq_level q' = Stopped \<Longrightarrow> Notify_all_new \<in> set ns \<or> (tq_level q = Stopped \<and> pc' \<noteq> Wait_new False)"
  shows "wake_inv ys q' ths'"
  unfolding wake_inv_def
proof (intro conjI impI)
  let ?m = "ths[i := (mode, pc')]"
  note wok = notified_woken [OF notified]
  show "\<forall>th\<in>set ths'. snd th \<noteq> Wait_done False" if "ys = [] \<and> tq_executing q' = 0"
  proof (cases "Notify_all_done \<in> set ns")
    case True
    with notified show ?thesis by (rule notified_all_done_wakes)
  next
    case False
    then have calm: "xs = [] \<and> tq_executing q = 0" "pc' \<noteq> Wait_done False" using quiet [OF that] by simp_all
    then have "\<forall>th\<in>set ths. snd th \<noteq> Wait_done False" using inv by (simp add: wake_inv_def)
    then have "\<forall>th\<in>set ?m. snd th \<noteq> Wait_done False" using calm(2) by (intro set_update_all) simp_all
    with wok show ?thesis by (rule woken_no_wait_done)
  qed
  show "\<exists>th\<in>set ths'. awake_pool th" if "ys \<noteq> []"
  proof -
    have "\<exists>th\<in>set ths. awake_pool th" using pending [OF that] inv by (simp add: wake_inv_def)
    then obtain th where th: "th \<in> set ths" "awake_pool th" by blast
    have "\<exists>th\<in>set ?m. awake_pool th"
    proof (cases "mode = Pool")
      case True
      then have "awake_pool (mode, pc')" using pending [OF that] by (simp add: awake_pool_def)
      then show ?thesis by (intro bexI [where x = "(mode, pc')"] set_update_memI [OF i(1)])
    next
      case False
      then have "th \<noteq> ths ! i" using th(2) i(2) by (auto simp: awake_pool_def)
      then show ?thesis using th by (intro bexI [where x = th] set_update_other)
    qed
    with wok show ?thesis by (rule woken_awake)
  qed
  show "\<forall>th\<in>set ths'. snd th \<noteq> Wait_new False" if "tq_level q' = Stopped"
  proof (cases "Notify_all_new \<in> set ns")
    case True
    with notified show ?thesis by (rule notified_all_new_wakes)
  next
    case False
    then have calm: "tq_level q = Stopped" "pc' \<noteq> Wait_new False" using stopped [OF that] by simp_all
    then have "\<forall>th\<in>set ths. snd th \<noteq> Wait_new False" using inv by (simp add: wake_inv_def)
    then have "\<forall>th\<in>set ?m. snd th \<noteq> Wait_new False" using calm(2) by (intro set_update_all) simp_all
    with wok show ?thesis by (rule woken_no_wait_new)
  qed
qed

text \<open>The tasks that a step puts into the queue and those it takes out.\<close>

fun label_in :: "tq_label \<Rightarrow> hxtask multiset" where
  "label_in (Enqueued t) = {#t#}"
| "label_in l = {#}"

fun label_out :: "tq_label \<Rightarrow> hxtask multiset" where
  "label_out (Started t) = {#t#}"
| "label_out (Removed ts) = mset ts"
| "label_out l = {#}"

abbreviation tasks_of :: "task_record list \<Rightarrow> hxtask multiset" where
  "tasks_of xs \<equiv> image_mset rec_task (mset xs)"

definition balanced :: "task_record list \<Rightarrow> tq_label \<Rightarrow> task_record list \<Rightarrow> bool" where
  "balanced xs l ys \<longleftrightarrow> tasks_of xs + label_in l = tasks_of ys + label_out l"

lemma critical_pc: "loop_critical mode pc q = Some r \<Longrightarrow> pc \<noteq> Loop_return \<and> \<not> (\<exists>t. pc = Run_task t)"
  by auto

lemma critical_keeps:
  assumes inv: "threads_inv xs q ths" "wake_inv xs q ths" and i: "i < length ths" "ths ! i = (mode, pc)"
    and run: "loop_critical mode pc q = Some (Inr (q', pc', ns))" and notified: "tq_notified ns (ths[i := (mode, pc')]) ths'"
  shows "\<exists>ys. threads_inv ys q' (ths[i := (mode, pc')]) \<and> wake_inv ys q' ths' \<and> balanced xs (pc_label pc') ys"
proof -
  have pc: "pc \<noteq> Loop_return" using critical_pc [OF run] by simp
  note threads = threads_inv_update [OF inv(1) i pc] and wake = wake_inv_update [OF inv(2) i notified]
  have stopped: "tq_level q = Stopped \<Longrightarrow> xs = [] \<and> tq_executing q = 0 \<and> cnt client_th ths = 0" using inv(1) unfolding threads_inv_def by blast
  have busy: "(if busy_pc pc then 1 else 0) \<le> tq_executing q" using busy_nonneg [OF inv(1) i(1)] i(2) by (simp add: busy_th_def)
  have client: "cnt client_th ths \<le> 1" using inv(1) by (simp add: threads_inv_def)
  have count: "cnt client_th (ths[i := (mode, pc')]) + (if mode \<noteq> Pool then 1 else 0) =
    cnt client_th ths + (if mode \<noteq> Pool \<and> pc' \<noteq> Loop_return then 1 else 0)"
    using cnt_update [OF i(1), of client_th "(mode, pc')"] i(2) pc by (simp add: client_th_def)
  from inv(1) i run show ?thesis
  proof (cases rule: critical_result)
    case (take ys)
    have "tq_level q = Running" using stopped take(1) run_level.exhaust by blast
    then have "threads_inv ys q' (ths[i := (mode, pc')])" using take by (intro threads) auto
    moreover have "wake_inv ys q' ths'" using take busy \<open>tq_level q = Running\<close> by (intro wake) auto
    moreover have "balanced xs (pc_label pc') ys" using take(2,4) by (simp add: balanced_def pc_label_def)
    ultimately show ?thesis by blast
  next
    case sleep_new
    then have "threads_inv [] q' (ths[i := (mode, pc')])" by (intro threads) (auto simp: same_fields_def)
    moreover have "wake_inv [] q' ths'" using sleep_new by (intro wake) (auto simp: same_fields_def split: if_splits)
    moreover have "balanced xs (pc_label pc') []" using sleep_new by (simp add: balanced_def pc_label_def)
    ultimately show ?thesis by blast
  next
    case pool_return
    then have "\<not> busy_pc pc" using stopped busy by (auto split: if_splits)
    have "threads_inv [] q' (ths[i := (mode, pc')])"
      using pool_return stopped count \<open>\<not> busy_pc pc\<close> by (intro threads) (auto simp: same_fields_def)
    moreover have "wake_inv [] q' ths'"
      using pool_return stopped \<open>\<not> busy_pc pc\<close> by (intro wake) (auto simp: same_fields_def)
    moreover have "balanced xs (pc_label pc') []" using pool_return by (simp add: balanced_def pc_label_def)
    ultimately show ?thesis by blast
  next
    case sleep_done
    then have "threads_inv xs q' (ths[i := (mode, pc')])" by (intro threads) (auto simp: same_fields_def)
    moreover have "wake_inv xs q' ths'" using sleep_done by (intro wake) (auto simp: same_fields_def)
    moreover have "balanced xs (pc_label pc') xs" using sleep_done by (simp add: balanced_def pc_label_def)
    ultimately show ?thesis by blast
  next
    case leave
    have "cnt client_th (ths[i := (mode, pc')]) + 1 = cnt client_th ths" using count leave(1,5) by simp
    then have "cnt client_th (ths[i := (mode, pc')]) = 0" using client by linarith
    with leave have "threads_inv [] q' (ths[i := (mode, pc')])" by (intro threads) (auto simp: same_fields_def split: if_splits)
    moreover have "wake_inv [] q' ths'"
      using leave by (intro wake) (auto simp: same_fields_def split: if_splits)
    moreover have "balanced xs (pc_label pc') []" using leave by (simp add: balanced_def pc_label_def)
    ultimately show ?thesis by blast
  qed
qed

definition pc_tasks :: "loop_pc \<Rightarrow> hxtask multiset" where
  "pc_tasks pc = (case pc of Run_task t \<Rightarrow> {#t#} | _ \<Rightarrow> {#})"

definition running :: "tq_threads \<Rightarrow> hxtask multiset" where
  "running ths = (\<Sum>th\<leftarrow>ths. pc_tasks (snd th))"

lemma running_update: "i < length ths \<Longrightarrow> running (ths[i := x]) + pc_tasks (snd (ths ! i)) = running ths + pc_tasks (snd x)"
proof (induction ths arbitrary: i)
  case (Cons th ths)
  then show ?case by (cases i) (auto simp: running_def)
qed simp

lemma woken_running: "woken ths ths' \<Longrightarrow> running ths' = running ths"
proof (induction rule: list_all2_induct)
  case (Cons a as b bs)
  then have "pc_tasks (snd b) = pc_tasks (snd a)"
    by (cases a) (auto simp: woken_thread_def wake_new_def wake_done_def pc_tasks_def split: if_splits)
  then show ?case using Cons by (simp add: running_def)
qed simp

lemma running_busy: "cnt busy_th ths = 0 \<Longrightarrow> running ths = {#}"
proof (induction ths)
  case (Cons th ths)
  then show ?case by (cases "snd th") (auto simp: running_def busy_th_def pc_tasks_def split: if_splits)
qed (simp add: running_def)

fun label_started :: "tq_label \<Rightarrow> hxtask multiset" where
  "label_started (Started t) = {#t#}"
| "label_started l = {#}"

fun label_finished :: "tq_label \<Rightarrow> hxtask multiset" where
  "label_finished (Finished t) = {#t#}"
| "label_finished l = {#}"

definition step_ok :: "task_record list \<Rightarrow> tq_threads \<Rightarrow> tq_label \<Rightarrow> task_queue \<times> tq_threads \<Rightarrow> bool" where
  "step_ok xs ths l s' \<longleftrightarrow> (\<exists>ys. sys_inv ys s' \<and> balanced xs l ys) \<and> running ths + label_started l = running (snd s') + label_finished l"

lemma step_okI:
  "\<lbrakk>threads_inv ys q' ths1; woken ths1 ths'; wake_inv ys q' ths'; balanced xs l ys; running ths + label_started l = running ths1 + label_finished l\<rbrakk> \<Longrightarrow>
    step_ok xs ths l (q', ths')"
  using woken_threads_inv [of ths1 ths' ys q'] woken_running [of ths1 ths'] by (auto simp: step_ok_def sys_inv_def)

lemma pc_label_running: "label_started (pc_label pc) = pc_tasks pc" "label_finished (pc_label pc) = {#}"
  by (cases pc; simp add: pc_label_def pc_tasks_def)+

lemma work_ok:
  assumes "sys_inv xs (q, ths)" and "tq_work (q, ths) l s'"
  shows "step_ok xs ths l s'"
  using assms(2)
proof (cases rule: tq_work.cases)
  case (work_critical i mode pc q' pc' ns ths')
  have inv: "threads_inv xs q ths" "wake_inv xs q ths" using assms(1) by (simp_all add: sys_inv_def)
  obtain ys where ys: "threads_inv ys q' (ths[i := (mode, pc')])" "wake_inv ys q' ths'" "balanced xs (pc_label pc') ys"
    using critical_keeps [OF inv work_critical(3-6)] by blast
  have "pc_tasks pc = {#}" using critical_pc [OF work_critical(5)] by (cases pc) (auto simp: pc_tasks_def)
  then have "running ths + label_started l = running (ths[i := (mode, pc')]) + label_finished l"
    using running_update [OF work_critical(3), of "(mode, pc')"] work_critical(1,2,4) by (simp add: pc_label_running)
  moreover have "balanced xs l ys" using ys(3) work_critical(1) by simp
  ultimately show ?thesis
    unfolding work_critical(2) by (intro step_okI [OF ys(1) notified_woken [OF work_critical(6)] ys(2)])
next
  case (work_process i mode t)
  have inv: "threads_inv xs q ths" "wake_inv xs q ths" using assms(1) by (simp_all add: sys_inv_def)
  have level: "tq_level q = Stopped \<Longrightarrow> tq_executing q = 0 \<and> xs = [] \<and> cnt client_th ths = 0" using inv(1) unfolding threads_inv_def by blast
  have busy: "tq_executing q \<ge> 1" using busy_nonneg [OF inv(1) work_process(3)] work_process(4) by (simp add: busy_th_def)
  have ran: "tq_level q = Running" using level busy by (cases "tq_level q") simp_all
  have "threads_inv xs q (ths[i := (mode, Loop_top (Some t))])"
    using inv(1) ran by (intro threads_inv_update [OF inv(1) work_process(3,4)]) (auto simp: threads_inv_def)
  moreover have "wake_inv xs q (ths[i := (mode, Loop_top (Some t))])"
    using ran busy by (intro wake_inv_update [OF inv(2) work_process(3,4) notified_nil]) simp_all
  moreover have "running ths + label_started l = running (ths[i := (mode, Loop_top (Some t))]) + label_finished l"
    using running_update [OF work_process(3), of "(mode, Loop_top (Some t))"] work_process(1,2,4) by (simp add: pc_tasks_def)
  moreover have "balanced xs l xs" using work_process(1) by (simp add: balanced_def)
  ultimately show ?thesis unfolding work_process(2) by (intro step_okI [OF _ woken_refl])
qed

lemma shrink_ok:
  assumes inv: "sys_inv xs (q, ths)" and q': "queue_rel q' ys" "same_fields q q'" and notified: "tq_notified ns ths ths'"
    and out: "xs = [] \<Longrightarrow> ys = []" "ys = [] \<Longrightarrow> xs = [] \<or> Notify_all_done \<in> set ns" "mset (map rec_task xs) = mset (map rec_task ys) + mset ts"
  shows "step_ok xs ths (Removed ts) (q', ths')"
proof (rule step_okI)
  note wok = notified_woken [OF notified]
  have i: "threads_inv xs q ths" "wake_inv xs q ths" using inv by (simp_all add: sys_inv_def)
  show "threads_inv ys q' ths"
    unfolding threads_inv_def
  proof (intro conjI)
    show "tq_level q' = Stopped \<longrightarrow> ys = [] \<and> tq_executing q' = 0 \<and> cnt client_th ths = 0"
      using i(1) q'(2) out(1) unfolding threads_inv_def same_fields_def by metis
  qed (use i(1) q' in \<open>simp_all add: threads_inv_def same_fields_def\<close>)
  show "woken ths ths'" by (rule wok)
  have "\<forall>th\<in>set ths'. snd th \<noteq> Wait_done False" if "ys = [] \<and> tq_executing q' = 0"
    using that out(2) notified_all_done_wakes [OF notified] woken_no_wait_done [OF wok] i(2) q'(2) by (auto simp: wake_inv_def same_fields_def)
  then show "wake_inv ys q' ths'"
    using i(2) q'(2) out(1) woken_awake [OF wok] woken_no_wait_new [OF wok] by (auto simp: wake_inv_def same_fields_def)
  show "balanced xs (Removed ts) ys" using out(3) by (simp add: balanced_def)
qed simp

lemma enqueue_ok:
  assumes inv: "sys_inv xs (q, ths)" and run: "task_queue_enqueue q t p = Inr (q', ns)" and notified: "tq_notified ns ths ths'"
  shows "step_ok xs ths (Enqueued t) (q', ths')"
proof -
  note wok = notified_woken [OF notified]
  have i: "threads_inv xs q ths" "wake_inv xs q ths" using inv by (simp_all add: sys_inv_def)
  then have "queue_rel q xs" "0 < tq_pool q" by (simp_all add: threads_inv_def)
  from enqueue_result [OF this(1) run] this(2) obtain ys where ys: "queue_rel q' ys" "mset ys = add_mset \<lparr>rec_task = t, rec_priority = p\<rparr> (mset xs)"
    "same_fields q q'" "tq_level q = Running" "ns = [Notify_one_new]" by blast
  then have "ys \<noteq> []" by auto
  show ?thesis
  proof (rule step_okI [of ys])
    show "threads_inv ys q' ths" using i(1) ys by (simp add: threads_inv_def same_fields_def)
    show "woken ths ths'" by (rule wok)
    have "\<exists>th\<in>set ths'. awake_pool th" using notified_one_wakes [of ths ths' xs q] notified i(1) ys by simp
    then show "wake_inv ys q' ths'" using \<open>ys \<noteq> []\<close> ys by (simp add: wake_inv_def same_fields_def)
    show "balanced xs (Enqueued t) ys" using ys(2) by (simp add: balanced_def)
  qed simp
qed

lemma client_ok:
  assumes inv: "sys_inv xs (q, ths)" and c: "\<not> client_active ths" "tq_level q = Running" "mode \<noteq> Pool"
  shows "step_ok xs ths Silent (q, ths @ [(mode, Loop_top None)])"
proof -
  have "cnt client_th ths = 0" using c(1) by (auto simp: client_active_def client_th_def cnt_zero)
  then have "sys_inv xs (q, ths @ [(mode, Loop_top None)])"
    using inv c by (auto simp: sys_inv_def threads_inv_def wake_inv_def client_th_def busy_th_def)
  then show ?thesis by (auto simp: step_ok_def balanced_def running_def pc_tasks_def)
qed

lemma for_each_ok:
  assumes inv: "sys_inv xs (q, ths)" and run: "task_queue_for_each (\<lambda>u r. ((), f r)) () q = Inr (u, q')" and f: "\<And>r. rec_task (f r) = rec_task r"
  shows "step_ok xs ths Silent (q', ths)"
proof -
  have i: "threads_inv xs q ths" "wake_inv xs q ths" using inv by (simp_all add: sys_inv_def)
  then have "queue_rel q xs" by (simp add: threads_inv_def)
  from for_each_result [OF this run] obtain ys where ys: "queue_rel q' ys" "same_fields q q'" "mset ys = mset (map f xs)" .
  have len: "ys = [] \<longleftrightarrow> xs = []" using ys(3) by (metis map_is_Nil_conv mset_zero_iff)
  have "threads_inv ys q' ths"
    unfolding threads_inv_def
  proof (intro conjI)
    show "tq_level q' = Stopped \<longrightarrow> ys = [] \<and> tq_executing q' = 0 \<and> cnt client_th ths = 0"
      using i(1) ys(2) len unfolding threads_inv_def same_fields_def by metis
  qed (use i(1) ys in \<open>simp_all add: threads_inv_def same_fields_def\<close>)
  moreover have "wake_inv ys q' ths" using i(2) ys(2) len by (simp add: wake_inv_def same_fields_def)
  moreover have "balanced xs Silent ys" using ys(3) f by (simp add: balanced_def image_mset.compositionality comp_def)
  ultimately show ?thesis by (intro step_okI [OF _ woken_refl]) simp_all
qed

lemma spurious_ok:
  assumes inv: "sys_inv xs (q, ths)" and "woken ths ths'"
  shows "step_ok xs ths Silent (q, ths')"
  using inv assms(2) woken_wake_inv [OF assms(2)] by (intro step_okI [of xs]) (auto simp: sys_inv_def balanced_def)

lemma mset_map_partition: "mset (map f xs) = mset (map f (filter (\<lambda>x. \<not> P x) xs)) + mset (map f (filter P xs))"
  by (induction xs) auto

lemma step_keeps:
  assumes inv: "sys_inv xs (q, ths)" and step: "tq_step (q, ths) l s'"
  shows "step_ok xs ths l s'"
proof -
  have rel: "queue_rel q xs" using inv by (simp add: sys_inv_def threads_inv_def)
  from step show ?thesis
  proof (cases rule: tq_step.cases)
    case step_work
    then show ?thesis by (rule work_ok [OF inv])
  next
    case (step_spurious_new i)
    then show ?thesis using inv by (auto intro!: spurious_ok woken_update simp: woken_thread_def)
  next
    case (step_spurious_done i)
    then show ?thesis using inv by (auto intro!: spurious_ok woken_update simp: woken_thread_def)
  next
    case (step_enqueue t p q' ns ths')
    then show ?thesis using enqueue_ok [OF inv] by simp
  next
    case (step_cancel t q' ns erased ths')
    obtain ys where ys: "queue_rel q' ys" "same_fields q q'" "erased \<Longrightarrow> \<exists>r. rec_task r = t \<and> mset xs = add_mset r (mset ys)"
      "\<not> erased \<Longrightarrow> ys = xs" "ns = (if erased \<and> ys = [] then [Notify_all_done] else [])"
      using cancel_result [OF rel step_cancel(3)] by metis
    have "mset (map rec_task xs) = mset (map rec_task ys) + mset (if erased then [t] else [])" using ys(3,4) by auto
    then show ?thesis
      unfolding step_cancel(1,2) using ys by (intro shrink_ok [OF inv ys(1,2) step_cancel(4)]) (auto split: if_splits)
  next
    case (step_erase_if P q' ns n ths' rs)
    have rs: "rs = xs" using step_erase_if(5) rel vec_values_rel [of "tq_tasks q" xs] by (simp add: queue_rel_def)
    obtain ys where ys: "queue_rel q' ys" "same_fields q q'" "mset ys = mset (filter (\<lambda>r. \<not> P r) xs)"
      "ns = (if filter P xs \<noteq> [] \<and> ys = [] then [Notify_all_done] else [])"
      using erase_if_result [OF rel step_erase_if(3)] by metis
    have "mset (map rec_task xs) = mset (map rec_task ys) + mset (map rec_task (filter P xs))"
      using mset_map_partition [of rec_task xs P] ys(3) by simp
    then show ?thesis
      unfolding step_erase_if(1,2) rs using ys by (intro shrink_ok [OF inv ys(1,2) step_erase_if(4)]) (auto split: if_splits simp: filter_empty_conv)
  next
    case (step_clear q' ns ths')
    then have "queue_rel q' [] \<and> same_fields q q' \<and> ns = [Notify_all_done]" using clear_result [OF rel] by simp
    then show ?thesis
      unfolding step_clear(1,2) using queue_tasks [OF rel] by (intro shrink_ok [OF inv _ _ step_clear(4)]) auto
  next
    case (step_for_each f u q')
    then show ?thesis using for_each_ok [OF inv] by simp
  next
    case step_wait
    then show ?thesis using client_ok [OF inv] by simp
  next
    case step_destroy
    then show ?thesis using client_ok [OF inv] by simp
  qed
qed

section \<open>Runs of a queue with a pool\<close>

text \<open>The threads that the constructor starts.\<close>

definition pool_threads :: "task_queue \<Rightarrow> tq_threads" where
  "pool_threads q = replicate (nat (tq_pool q)) (Pool, Loop_top None)"

lemma task_queue_new_result:
  assumes "task_queue_new sz pool = Inr q"
  shows "queue_rel q [] \<and> tq_level q = Running \<and> tq_pool q = pool \<and> tq_executing q = 0"
proof -
  obtain al where al: "reserve_storage sz (hxallocator_new hxallocator_dynamic_capacity False :: task_record hxallocator) = Inr al"
    and q: "q = \<lparr>tq_tasks = \<lparr>vec_alloc = al, vec_end = 0\<rparr>, tq_level = Running, tq_pool = pool, tq_executing = 0\<rparr>"
    using assms by (cases "reserve_storage sz (hxallocator_new hxallocator_dynamic_capacity False :: task_record hxallocator)")
      (auto simp: task_queue_new_def hxvector_reserve_def hxvector_new_def)
  have "vec_rel \<lparr>vec_alloc = al, vec_end = 0\<rparr> ([] :: task_record list)"
    using al by (auto simp: vec_rel_def reserve_storage_def hxallocator_new_def allocator_ok_def hxvector_capacity_def live_prefix_def
      hxallocator_dynamic_capacity_def element_count_def split: if_splits)
  then show ?thesis by (simp add: q queue_rel_def heap_from_def)
qed

lemma start_inv:
  assumes "task_queue_new sz pool = Inr q" and "0 < pool"
  shows "sys_inv [] (q, pool_threads q)" and "running (pool_threads q) = {#}"
proof -
  note q = task_queue_new_result [OF assms(1)]
  have "cnt busy_th (pool_threads q) = 0" "cnt client_th (pool_threads q) = 0"
    by (auto simp: cnt_zero pool_threads_def busy_th_def client_th_def)
  then show "sys_inv [] (q, pool_threads q)" "running (pool_threads q) = {#}"
    using q assms(2) running_busy by (auto simp: sys_inv_def threads_inv_def wake_inv_def pool_threads_def)
qed

fun label_removed :: "tq_label \<Rightarrow> hxtask multiset" where
  "label_removed (Removed ts) = mset ts"
| "label_removed l = {#}"

lemma label_out_split: "label_out l = label_started l + label_removed l"
  by (cases l) auto

text \<open>The tasks of a history, counted by what happened to them.\<close>

definition traced :: "(tq_label \<Rightarrow> hxtask multiset) \<Rightarrow> tq_label list \<Rightarrow> hxtask multiset" where
  "traced f ls = (\<Sum>l\<leftarrow>ls. f l)"

lemma traced_simps: "traced f [] = {#}" "traced f (ls @ [l]) = traced f ls + f l"
  by (simp_all add: traced_def)

lemma run_inv:
  assumes "tq_run s0 ls s" and "task_queue_new sz pool = Inr q0" and "0 < pool" and "s0 = (q0, pool_threads q0)"
  shows "\<exists>xs. sys_inv xs s \<and> traced label_in ls = tasks_of xs + traced label_started ls + traced label_removed ls \<and>
    traced label_started ls = running (snd s) + traced label_finished ls"
  using assms
proof (induction rule: tq_run.induct)
  case (run_nil s)
  then show ?case using start_inv [OF run_nil(1,2)] by (auto simp: traced_simps)
next
  case (run_snoc s ls s1 l s2)
  then obtain xs where xs: "sys_inv xs s1" "traced label_in ls = tasks_of xs + traced label_started ls + traced label_removed ls"
    "traced label_started ls = running (snd s1) + traced label_finished ls" by blast
  obtain q1 ths1 where s1: "s1 = (q1, ths1)" by (cases s1)
  have "step_ok xs ths1 l s2" using step_keeps xs(1) run_snoc.hyps(2) s1 by blast
  then obtain ys where ys: "sys_inv ys s2" "balanced xs l ys" "running ths1 + label_started l = running (snd s2) + label_finished l"
    unfolding step_ok_def by blast
  have "traced label_in (ls @ [l]) = tasks_of ys + traced label_started (ls @ [l]) + traced label_removed (ls @ [l])"
    using xs(2) ys(2) by (simp add: traced_simps balanced_def label_out_split)
  moreover have "traced label_started (ls @ [l]) = running (snd s2) + traced label_finished (ls @ [l])"
    using xs(3) ys(3) s1 by (simp add: traced_simps add_ac)
  ultimately show ?case using ys(1) by blast
qed

section \<open>Progress\<close>

lemma notified_total: "\<exists>ths'. tq_notified ns ths ths'"
proof (induction ns arbitrary: ths)
  case Nil
  show ?case by (blast intro: notified_nil)
next
  case (Cons n ns)
  show ?case
  proof (cases n)
    case Notify_one_new
    show ?thesis
    proof (cases "Wait_new False \<in> snd ` set ths")
      case True
      then obtain i where i: "i < length ths" "snd (ths ! i) = Wait_new False" by (metis imageE in_set_conv_nth)
      obtain ths' where "tq_notified ns (ths[i := wake_new (ths ! i)]) ths'" using Cons by blast
      then show ?thesis using notified_one [OF i] Notify_one_new by blast
    next
      case False
      then show ?thesis using Cons notified_nobody Notify_one_new by metis
    qed
  qed (use Cons notified_all_new notified_all_done in metis)+
qed

lemma critical_no_error:
  assumes inv: "threads_inv xs q ths" and i: "i < length ths" "ths ! i = (mode, pc)" and run: "loop_critical mode pc q = Some r"
  shows "\<exists>r'. r = Inr r'"
proof -
  have rel: "queue_rel q xs" using inv by (simp add: threads_inv_def)
  have busy: "(if busy_pc pc then 1 else 0) \<le> tq_executing q" using busy_nonneg [OF inv i(1)] i(2) by (simp add: busy_th_def)
  have pc: "pc \<noteq> Loop_return" using critical_pc [OF run] by simp
  have level: "tq_level q = Running" if "mode \<noteq> Pool"
  proof (rule ccontr)
    assume "tq_level q \<noteq> Running"
    then have "tq_level q = Stopped" by (cases "tq_level q") simp_all
    then have "cnt client_th ths = 0" using inv unfolding threads_inv_def by blast
    then have "\<not> client_th (ths ! i)" using i(1) by (simp add: filter_empty_conv)
    then show False using i(2) pc that by (simp add: client_th_def)
  qed
  have chk: "\<exists>r'. loop_check_done mode q1 = Inr r'" if "mode \<noteq> Pool" "tq_level q1 = tq_level q" for q1
    using level that by (cases "loop_leave mode q1") (simp add: loop_check_done_def loop_done_pred_def)
  have take: "\<exists>r'. loop_take mode q1 = Inr r'" if q1: "queue_rel q1 xs" "tq_level q1 = tq_level q" for q1
  proof (cases "xs = []")
    case True
    then show ?thesis using chk [OF _ q1(2)] queue_empty_iff [OF q1(1)] by (cases "mode = Pool") (simp_all add: loop_take_def)
  next
    case False
    then obtain q2 where "take_front q1 = Inr (rec_task (xs ! 0), q2)" using take_front_result [OF q1(1)] by metis
    then show ?thesis using False queue_empty_iff [OF q1(1)] by (simp add: loop_take_def)
  qed
  have new: "\<exists>r'. loop_check_new mode q1 = Inr r'" if "queue_rel q1 xs" "tq_level q1 = tq_level q" for q1
    using take [OF that] by (simp add: loop_check_new_def)
  show ?thesis
  proof (cases pc)
    case (Loop_top finished)
    obtain q1 n1 where q1: "(if finished \<noteq> None then loop_finish q else Inr (q, [])) = Inr (q1, n1)" "queue_rel q1 xs" "tq_level q1 = tq_level q"
    proof (cases finished)
      case None
      then show ?thesis using that rel by simp
    next
      case (Some t)
      then have "0 < tq_executing q" using busy Loop_top by simp
      then show ?thesis
        using that [of "q\<lparr>tq_executing := tq_executing q - 1\<rparr>"] Some queue_rel_fields [OF rel] by (simp add: loop_finish_def Let_def)
    qed
    then have "\<exists>r'. loop_enter mode finished q = Inr r'"
      using take [OF q1(2,3)] new [OF q1(2,3)] unfolding loop_enter_def q1(1) by (cases "mode = Pool") auto
    then show ?thesis using run Loop_top by simp
  next
    case (Wait_new w)
    then show ?thesis using run new [OF rel] by (cases w) auto
  next
    case (Wait_done w)
    have "kind_ok (ths ! i)" using inv i(1) by (simp add: threads_inv_def)
    then have "mode \<noteq> Pool" using i(2) Wait_done by simp
    then show ?thesis using run chk [of q] Wait_done by (cases w) auto
  qed (use run in simp_all)
qed

definition can_work :: "task_queue \<times> tq_threads \<Rightarrow> bool" where
  "can_work s \<longleftrightarrow> (\<exists>l s'. tq_work s l s')"

lemma quiet_when_stuck:
  assumes inv: "sys_inv xs (q, ths)" and stuck: "\<not> can_work (q, ths)"
  shows "xs = [] \<and> tq_executing q = 0 \<and> \<not> client_active ths \<and> (tq_level q = Stopped \<longrightarrow> (\<forall>th\<in>set ths. snd th = Loop_return))"
proof -
  have t: "threads_inv xs q ths" "wake_inv xs q ths" using inv by (simp_all add: sys_inv_def)
  have pcs: "snd th \<in> {Wait_new False, Wait_done False, Loop_return}" if "th \<in> set ths" for th
  proof -
    obtain i where i: "i < length ths" "ths ! i = th" using \<open>th \<in> set ths\<close> by (auto simp: in_set_conv_nth)
    obtain mode pc where th: "th = (mode, pc)" by (cases th)
    have "loop_critical mode pc q = None"
    proof (rule ccontr)
      assume "loop_critical mode pc q \<noteq> None"
      then obtain r where "loop_critical mode pc q = Some (Inr r)" using critical_no_error [OF t(1) i(1), of mode pc] i(2) th by blast
      moreover obtain q' pc' ns where "r = (q', pc', ns)" by (cases r)
      ultimately have run: "loop_critical mode pc q = Some (Inr (q', pc', ns))" by simp
      obtain ths' where "tq_notified ns (ths[i := (mode, pc')]) ths'" using notified_total by blast
      then show False using work_critical [OF i(1) _ run] i(2) th stuck by (auto simp: can_work_def)
    qed
    moreover have "pc \<noteq> Run_task t" for t using work_process [OF i(1), of mode t q] i(2) th stuck by (auto simp: can_work_def)
    ultimately show ?thesis using th by (cases "(mode, pc, q)" rule: loop_critical.cases) auto
  qed
  have "\<forall>th\<in>set ths. \<not> busy_th th" using pcs by (fastforce simp: busy_th_def)
  then have "cnt busy_th ths = 0" by (simp add: cnt_zero)
  then have e: "tq_executing q = 0" using t(1) by (simp add: threads_inv_def)
  have "\<forall>th\<in>set ths. \<not> awake_pool th" using pcs by (fastforce simp: awake_pool_def)
  then have xs: "xs = []" using t(2) unfolding wake_inv_def by blast
  have nd: "\<forall>th\<in>set ths. snd th \<noteq> Wait_done False" using t(2) xs e unfolding wake_inv_def by blast
  have k: "\<forall>th\<in>set ths. kind_ok th" using t(1) unfolding threads_inv_def by blast
  have "snd th = Loop_return" if "th \<in> set ths" "fst th \<noteq> Pool" for th
    using pcs [OF that(1)] nd k that by (cases th) auto
  then have "\<not> client_active ths" by (auto simp: client_active_def)
  moreover have "snd th = Loop_return" if "th \<in> set ths" "tq_level q = Stopped" for th
    using pcs [OF that(1)] nd t(2) that unfolding wake_inv_def by blast
  ultimately show ?thesis using xs e by blast
qed

section \<open>The work left\<close>

fun pc_weight :: "loop_pc \<Rightarrow> nat" where
  "pc_weight (Run_task t) = 4"
| "pc_weight (Loop_top (Some t)) = 3"
| "pc_weight (Loop_top None) = 2"
| "pc_weight (Wait_new True) = 1"
| "pc_weight (Wait_done True) = 1"
| "pc_weight pc = 0"

text \<open>A thread that is to stop the queue may still wake all the others.\<close>

definition thread_weight :: "nat \<Rightarrow> thread_mode \<times> loop_pc \<Rightarrow> nat" where
  "thread_weight n th = pc_weight (snd th) + (if fst th = Stopping \<and> snd th \<noteq> Loop_return then n + 1 else 0)"

definition threads_weight :: "nat \<Rightarrow> tq_threads \<Rightarrow> nat" where
  "threads_weight n ths = (\<Sum>th\<leftarrow>ths. thread_weight n th)"

definition work_left :: "task_queue \<times> tq_threads \<Rightarrow> nat" where
  "work_left s = 5 * length (queued_tasks (fst s)) + threads_weight (length (snd s)) (snd s)"

lemma weight_update:
  "i < length ths \<Longrightarrow> threads_weight n (ths[i := x]) + thread_weight n (ths ! i) = threads_weight n ths + thread_weight n x"
proof (induction ths arbitrary: i)
  case (Cons th ths)
  then show ?case by (cases i) (auto simp: threads_weight_def)
qed simp

lemma woken_weight: "woken ths ths' \<Longrightarrow> threads_weight n ths' \<le> threads_weight n ths + length ths"
proof (induction rule: list_all2_induct)
  case (Cons a as b bs)
  then have "thread_weight n b \<le> thread_weight n a + 1"
    by (cases a) (auto simp: woken_thread_def wake_new_def wake_done_def thread_weight_def split: if_splits)
  then show ?case using Cons by (simp add: threads_weight_def)
qed (simp add: threads_weight_def)

text \<open>Without a notification to the pool only clients are woken.\<close>

definition client_woken :: "thread_mode \<times> loop_pc \<Rightarrow> thread_mode \<times> loop_pc \<Rightarrow> bool" where
  "client_woken a b \<longleftrightarrow> b = a \<or> b = wake_done a"

lemma client_woken_trans: "client_woken a b \<Longrightarrow> client_woken b c \<Longrightarrow> client_woken a c"
  by (auto simp: client_woken_def wake_done_def)

lemma notified_clients: "tq_notified ns ths ths' \<Longrightarrow> set ns \<subseteq> {Notify_all_done} \<Longrightarrow> list_all2 client_woken ths ths'"
proof (induction rule: tq_notified.induct)
  case (notified_nil ths)
  show ?case by (simp add: list_all2_refl client_woken_def)
next
  case (notified_all_done ns ths ths')
  have "list_all2 client_woken ths (map wake_done ths)" by (simp add: list_all2_conv_all_nth client_woken_def)
  then show ?case
    using notified_all_done by (auto intro: list_all2_trans [of client_woken client_woken client_woken] client_woken_trans)
qed auto

lemma clients_weight: "list_all2 client_woken ths ths' \<Longrightarrow> \<forall>th\<in>set ths. kind_ok th \<Longrightarrow> threads_weight n ths' \<le> threads_weight n ths + cnt client_th ths"
proof (induction rule: list_all2_induct)
  case (Cons a as b bs)
  then have "thread_weight n b \<le> thread_weight n a + (if client_th a then 1 else 0)"
    by (cases a) (auto simp: client_woken_def wake_done_def thread_weight_def client_th_def split: if_splits)
  then show ?case using Cons by (cases "client_th a") (simp_all add: threads_weight_def)
qed (simp add: threads_weight_def)

lemma critical_notifies:
  assumes "loop_critical mode pc q = Some (Inr (q', pc', ns))"
  shows "set ns \<subseteq> {Notify_all_done} \<and> (ns \<noteq> [] \<longrightarrow> busy_pc pc) \<or> mode = Stopping \<and> pc' = Loop_return"
proof -
  have chk: "ns = [] \<or> mode = Stopping \<and> pc' = Loop_return" if "loop_check_done mode q = Inr (q', pc', ns)" for q ns
    using that by (auto simp: loop_check_done_def loop_leave_def loop_done_pred_def split: if_splits)
  have take: "ns = [] \<or> mode = Stopping \<and> pc' = Loop_return" if "loop_take mode q = Inr (q', pc', ns)" for q ns
    using that chk by (auto simp: loop_take_def hx_map_def split: if_splits sum.splits)
  have new: "ns = [] \<or> mode = Stopping \<and> pc' = Loop_return" if "loop_check_new mode q = Inr (q', pc', ns)" for q ns
    using that take by (auto simp: loop_check_new_def split: if_splits)
  show ?thesis
  proof (cases pc)
    case (Loop_top finished)
    obtain q1 n1 where q1: "(if finished \<noteq> None then loop_finish q else Inr (q, [])) = Inr (q1, n1)"
      using assms Loop_top by (cases "if finished \<noteq> None then loop_finish q else Inr (q, [])") (auto simp: loop_enter_def)
    have n1: "set n1 \<subseteq> {Notify_all_done} \<and> (n1 \<noteq> [] \<longrightarrow> busy_pc pc)"
      using q1 Loop_top by (auto simp: loop_finish_def Let_def split: if_splits)
    have "loop_enter mode finished q = hx_map (\<lambda>(q2, pc, ns2). (q2, pc, n1 @ ns2)) (if mode = Pool then loop_check_new mode q1 else loop_take mode q1)"
      unfolding loop_enter_def q1 by simp
    then have "hx_map (\<lambda>(q2, pc, ns2). (q2, pc, n1 @ ns2)) (if mode = Pool then loop_check_new mode q1 else loop_take mode q1) = Inr (q', pc', ns)"
      using assms Loop_top by simp
    then obtain n2 where "ns = n1 @ n2" "loop_check_new mode q1 = Inr (q', pc', n2) \<or> loop_take mode q1 = Inr (q', pc', n2)"
      by (auto simp: hx_map_def split: if_splits sum.splits)
    then have "n2 = [] \<or> mode = Stopping \<and> pc' = Loop_return" using new take by blast
    then show ?thesis using n1 \<open>ns = n1 @ n2\<close> by auto
  next
    case (Wait_new w)
    then have "ns = [] \<or> mode = Stopping \<and> pc' = Loop_return" using assms new [of q ns] by (cases w) simp_all
    then show ?thesis by auto
  next
    case (Wait_done w)
    then have "ns = [] \<or> mode = Stopping \<and> pc' = Loop_return" using assms chk [of q ns] by (cases w) simp_all
    then show ?thesis by auto
  qed (use assms in simp_all)
qed

lemma work_left_rel: "sys_inv xs (q, ths) \<Longrightarrow> work_left (q, ths) = 5 * length xs + threads_weight (length ths) ths"
  using queue_tasks [of q xs] by (simp add: work_left_def sys_inv_def threads_inv_def)

lemma critical_weight:
  assumes "loop_critical mode pc q = Some r"
  shows "1 \<le> pc_weight pc \<and> pc_weight pc \<le> 3 \<and> (busy_pc pc \<longrightarrow> pc_weight pc = 3)"
proof (cases pc)
  case (Loop_top finished)
  then show ?thesis by (cases finished) simp_all
next
  case (Wait_new w)
  then show ?thesis using assms by (cases w) simp_all
next
  case (Wait_done w)
  then show ?thesis using assms by (cases w) simp_all
qed (use assms in simp_all)

lemma critical_step_weight:
  assumes "threads_inv xs q ths" "i < length ths" "ths ! i = (mode, pc)" "loop_critical mode pc q = Some (Inr (q', pc', ns))" "balanced xs (pc_label pc') ys"
  shows "length xs = length ys \<and> pc_weight pc' = 0 \<or> length xs = length ys + 1 \<and> pc_weight pc' = 4"
proof -
  have "(\<exists>t. pc' = Run_task t) \<or> pc_weight pc' = 0 \<and> pc_label pc' = Silent"
    using assms(1-4) by (cases rule: critical_result) (simp_all add: pc_label_def)
  moreover have "size (tasks_of xs + label_in (pc_label pc')) = size (tasks_of ys + label_out (pc_label pc'))"
    using assms(5) unfolding balanced_def by simp
  ultimately show ?thesis by (auto simp: pc_label_def)
qed

lemma work_decreases:
  assumes inv: "sys_inv xs (q, ths)" and work: "tq_work (q, ths) l (q', ths')"
  shows "work_left (q', ths') < work_left (q, ths)"
  using work
proof (cases rule: tq_work.cases)
  case (work_process i mode t)
  then show ?thesis
    using weight_update [of i ths "length ths" "(mode, Loop_top (Some t))"] by (simp add: work_left_def thread_weight_def)
next
  case (work_critical i mode pc pc' ns)
  let ?n = "length ths" and ?m = "ths[i := (mode, pc')]"
  have t: "threads_inv xs q ths" "wake_inv xs q ths" using inv by (simp_all add: sys_inv_def)
  obtain ys where ys: "threads_inv ys q' ?m" "wake_inv ys q' ths'" "balanced xs (pc_label pc') ys"
    using critical_keeps [OF t work_critical(2-5)] by blast
  note wok = notified_woken [OF work_critical(5)]
  have len: "length ths' = ?n" using list_all2_lengthD [OF wok] by simp
  have "sys_inv ys (q', ths')" using ys woken_threads_inv [OF wok] by (simp add: sys_inv_def)
  note left = work_left_rel [OF inv] work_left_rel [OF this]
  have upd: "threads_weight ?n ?m + thread_weight ?n (mode, pc) = threads_weight ?n ths + thread_weight ?n (mode, pc')"
    using weight_update [OF work_critical(2), of ?n "(mode, pc')"] work_critical(3) by simp
  have pc: "pc \<noteq> Loop_return" using critical_pc [OF work_critical(4)] by simp
  note w = critical_weight [OF work_critical(4)] and step = critical_step_weight [OF t(1) work_critical(2-4) ys(3)]
  from critical_notifies [OF work_critical(4)] show ?thesis
  proof
    assume quiet: "set ns \<subseteq> {Notify_all_done} \<and> (ns \<noteq> [] \<longrightarrow> busy_pc pc)"
    have "threads_weight ?n ths' \<le> threads_weight ?n ?m + (if busy_pc pc then 1 else 0)"
    proof (cases "ns = []")
      case True
      then have "ths' = ?m" using work_critical(5) by (auto elim: tq_notified.cases)
      then show ?thesis by simp
    next
      case False
      have "\<forall>th\<in>set ?m. kind_ok th" "cnt client_th ?m \<le> 1" using ys(1) unfolding threads_inv_def by blast+
      then show ?thesis using clients_weight [OF notified_clients [OF work_critical(5)], of ?n] quiet False by simp
    qed
    then show ?thesis
      using left upd step w pc len unfolding thread_weight_def by (auto split: if_splits)
  next
    assume "mode = Stopping \<and> pc' = Loop_return"
    then show ?thesis
      using left upd step w pc len woken_weight [OF wok, of ?n] unfolding thread_weight_def by auto
  qed
qed

lemma work_bounded:
  assumes "sys_inv xs s" and "((\<lambda>a b. \<exists>l. tq_work a l b) ^^ n) s s'"
  shows "n + work_left s' \<le> work_left s \<and> (\<exists>ys. sys_inv ys s')"
  using assms
proof (induction n arbitrary: s')
  case (Suc n)
  then obtain s1 l where s1: "((\<lambda>a b. \<exists>l. tq_work a l b) ^^ n) s s1" "tq_work s1 l s'" by auto
  then obtain ys where ys: "n + work_left s1 \<le> work_left s" "sys_inv ys s1" using Suc by blast
  obtain q1 ths1 q2 ths2 where split: "s1 = (q1, ths1)" "s' = (q2, ths2)" by (metis surj_pair)
  have "work_left s' < work_left s1" using work_decreases ys(2) s1(2) split by blast
  moreover have "\<exists>zs. sys_inv zs s'" using work_ok [of ys q1 ths1 l s'] ys(2) s1(2) split by (auto simp: step_ok_def)
  ultimately show ?case using ys(1) by auto
qed auto

lemma front_highest: "queue_rel q xs \<Longrightarrow> r \<in> set xs \<Longrightarrow> rec_priority r \<le> rec_priority (xs ! 0)"
  using record_order.heap_root_max [of xs 0 "length xs"] by (fastforce simp: queue_rel_def record_less_def in_set_conv_nth)

lemma wait_for_all_loop_result:
  assumes "queue_rel q xs" and process: "\<And>t s q. process t (s, q) = Some (Inr (f t s, q))"
  shows "\<exists>ys q'. wait_for_all_loop process s q = Some (Inr (fold f (map rec_task ys) s, q')) \<and> queue_rel q' [] \<and>
    mset ys = mset xs \<and> sorted_wrt (\<lambda>a b. rec_priority b \<le> rec_priority a) ys"
  using assms(1)
proof (induction "length xs" arbitrary: xs q s)
  case 0
  then have "wait_for_all_loop process s q = Some (Inr (s, q))"
    using queue_empty_iff [of q xs] by (subst wait_for_all_loop.simps) simp
  then show ?case using 0 by (intro exI [of _ "[]"] exI [of _ q]) simp
next
  case (Suc n)
  then have some: "xs \<noteq> []" by auto
  obtain q1 zs where q1: "take_front q = Inr (rec_task (xs ! 0), q1)" "queue_rel q1 zs" "mset xs = add_mset (xs ! 0) (mset zs)"
    using take_front_result [OF Suc.prems some] by metis
  have "n = length zs" using Suc.hyps(2) arg_cong [OF q1(3), of size] by simp
  from Suc.hyps(1) [OF this q1(2), of "f (rec_task (xs ! 0)) s"] obtain ys q' where
    ys: "wait_for_all_loop process (f (rec_task (xs ! 0)) s) q1 = Some (Inr (fold f (map rec_task ys) (f (rec_task (xs ! 0)) s), q'))"
    "queue_rel q' []" "mset ys = mset zs" "sorted_wrt (\<lambda>a b. rec_priority b \<le> rec_priority a) ys" by blast
  have "set ys \<subseteq> set xs" using ys(3) q1(3) by (metis set_mset_add_mset_insert set_mset_mset subset_insertI)
  then have "\<forall>r\<in>set ys. rec_priority r \<le> rec_priority (xs ! 0)" using front_highest [OF Suc.prems] by blast
  moreover have "wait_for_all_loop process s q = Some (Inr (fold f (map rec_task (xs ! 0 # ys)) s, q'))"
    using some queue_empty_iff [OF Suc.prems] by (subst wait_for_all_loop.simps) (simp add: q1(1) process ys(1))
  ultimately show ?case using ys q1(3) by (intro exI [of _ "xs ! 0 # ys"] exI [of _ q']) simp
qed

section \<open>Claims\<close>

text \<open>A queue for four tasks with one thread, and the same queue with one task of priority 1.\<close>

definition example_queue :: task_queue where
  "example_queue = \<lparr>tq_tasks = \<lparr>vec_alloc = \<lparr>al_fixed = 0, al_pow2 = False, al_capacity = 4, al_data = [None, None, None, None]\<rparr>, vec_end = 0\<rparr>,
     tq_level = Running, tq_pool = 1, tq_executing = 0\<rparr>"

definition example_queue_task :: task_queue where
  "example_queue_task = example_queue\<lparr>tq_tasks := \<lparr>vec_alloc = \<lparr>al_fixed = 0, al_pow2 = False, al_capacity = 4,
     al_data = [Some \<lparr>rec_task = 7, rec_priority = 1\<rparr>, None, None, None]\<rparr>, vec_end = 1\<rparr>\<rparr>"

lemma example_queue_new: "task_queue_new 4 1 = Inr example_queue"
  by code_simp

lemma example_threads: "pool_threads example_queue = [(Pool, Loop_top None)]"
  by code_simp

lemma example_enqueue: "task_queue_enqueue example_queue 7 1 = Inr (example_queue_task, [Notify_one_new])"
  by code_simp

lemma example_take: "loop_critical Pool (Loop_top None) example_queue_task = Some (Inr (example_queue\<lparr>tq_executing := 1\<rparr>, Run_task 7, []))"
  by code_simp

lemma example_finish: "loop_critical Pool (Loop_top (Some 7)) (example_queue\<lparr>tq_executing := 1\<rparr>) =
    Some (Inr (example_queue, Wait_new False, [Notify_all_done]))"
  by code_simp

lemma example_leave: "loop_critical Waiting (Loop_top None) example_queue = Some (Inr (example_queue, Loop_return, []))"
  by code_simp

lemma example_sleep: "loop_critical Pool (Loop_top None) example_queue = Some (Inr (example_queue, Wait_new False, []))"
  by code_simp

lemma example_run:
  "tq_run (example_queue, [(Pool, Loop_top None)]) [Enqueued 7, Started 7, Finished 7, Silent, Silent]
     (example_queue, [(Pool, Wait_new False), (Waiting, Loop_top None)])"
proof -
  let ?s0 = "(example_queue, [(Pool, Loop_top None)])" and ?q = "example_queue\<lparr>tq_executing := 1\<rparr>"
  have "tq_step ?s0 (Enqueued 7) (example_queue_task, [(Pool, Loop_top None)])"
    by (rule step_enqueue [OF example_enqueue notified_nobody [OF _ notified_nil]]) simp
  with run_nil have "tq_run ?s0 ([] @ [Enqueued 7]) (example_queue_task, [(Pool, Loop_top None)])" by (rule run_snoc)
  moreover have "tq_work (example_queue_task, [(Pool, Loop_top None)]) (pc_label (Run_task 7)) (?q, [(Pool, Run_task 7)])"
    by (rule work_critical [of 0, OF _ _ example_take]) (simp_all add: notified_nil)
  ultimately have "tq_run ?s0 (([] @ [Enqueued 7]) @ [pc_label (Run_task 7)]) (?q, [(Pool, Run_task 7)])"
    by (rule run_snoc [OF _ step_work])
  moreover have "tq_work (?q, [(Pool, Run_task 7)]) (Finished 7) (?q, [(Pool, Loop_top (Some 7))])"
    using work_process [of 0 "[(Pool, Run_task 7)]" Pool 7 ?q] by simp
  ultimately have "tq_run ?s0 ((([] @ [Enqueued 7]) @ [pc_label (Run_task 7)]) @ [Finished 7]) (?q, [(Pool, Loop_top (Some 7))])"
    by (rule run_snoc [OF _ step_work])
  moreover have "tq_step (?q, [(Pool, Loop_top (Some 7))]) Silent (?q, [(Pool, Loop_top (Some 7)), (Waiting, Loop_top None)])"
    using step_wait [of "[(Pool, Loop_top (Some 7))]" ?q] by (simp add: client_active_def example_queue_def)
  ultimately have "tq_run ?s0 (((([] @ [Enqueued 7]) @ [pc_label (Run_task 7)]) @ [Finished 7]) @ [Silent])
      (?q, [(Pool, Loop_top (Some 7)), (Waiting, Loop_top None)])"
    by (rule run_snoc)
  moreover have "tq_work (?q, [(Pool, Loop_top (Some 7)), (Waiting, Loop_top None)]) (pc_label (Wait_new False))
      (example_queue, [(Pool, Wait_new False), (Waiting, Loop_top None)])"
    by (rule work_critical [of 0, OF _ _ example_finish notified_all_done]) (simp_all add: wake_done_def notified_nil)
  ultimately have "tq_run ?s0 ((((([] @ [Enqueued 7]) @ [pc_label (Run_task 7)]) @ [Finished 7]) @ [Silent]) @ [pc_label (Wait_new False)])
      (example_queue, [(Pool, Wait_new False), (Waiting, Loop_top None)])"
    by (rule run_snoc [OF _ step_work])
  then show ?thesis by (simp add: pc_label_def)
qed

text \<open>C1: however the pool, the caller of \<open>wait_for_all\<close> or of the destructor, and calls of the other operations
  interleave, when that caller leaves the loop no task is queued or executing, and the tasks enqueued so far are
  exactly those that have finished and those that were cancelled, erased or cleared.\<close>

theorem wait_for_all_completes:
  assumes "task_queue_new sz pool = Inr q0" and "0 < pool" and "tq_run (q0, pool_threads q0) ls (q, ths)"
    and "i < length ths" and "ths ! i = (mode, pc)" and "mode \<noteq> Pool"
    and "loop_critical mode pc q = Some (Inr (q', Loop_return, ns))"
  shows "task_queue_empty q' \<and> tq_executing q' = 0 \<and> traced label_started ls = traced label_finished ls \<and>
    traced label_in ls = traced label_finished ls + traced label_removed ls"
proof -
  from run_inv [OF assms(3,1,2) refl] obtain xs where xs: "sys_inv xs (q, ths)"
    "traced label_in ls = tasks_of xs + traced label_started ls + traced label_removed ls"
    "traced label_started ls = running ths + traced label_finished ls" by auto
  then have t: "threads_inv xs q ths" by (simp add: sys_inv_def)
  have left: "xs = [] \<and> tq_executing q = (if busy_pc pc then 1 else 0) \<and> queue_rel q' [] \<and> tq_executing q' = 0"
    using t assms(4,5,7) by (cases rule: critical_result) (use assms(6) in \<open>auto simp: same_fields_def\<close>)
  have "\<not> pc_tasks pc \<noteq> {#}" using critical_pc [OF assms(7)] by (cases pc) (simp_all add: pc_tasks_def)
  have "cnt busy_th (ths[i := (mode, Loop_return)]) = 0"
    using cnt_update [OF assms(4), of busy_th "(mode, Loop_return)"] assms(5) left t by (simp add: threads_inv_def busy_th_def split: if_splits)
  then have "running (ths[i := (mode, Loop_return)]) = {#}" by (rule running_busy)
  then have "running ths = {#}"
    using running_update [OF assms(4), of "(mode, Loop_return)"] \<open>\<not> pc_tasks pc \<noteq> {#}\<close> assms(5) by (simp add: pc_tasks_def)
  then show ?thesis using xs(2,3) left queue_empty_iff [of q' "[]"] by simp
qed

theorem wait_for_all_completes_witness:
  "task_queue_empty example_queue \<and> traced label_in [Enqueued 7, Started 7, Finished 7, Silent, Silent] = {#7#}"
  using wait_for_all_completes [OF example_queue_new _ example_run [folded example_threads], of 1 Waiting "Loop_top None" example_queue "[]"]
    example_leave by (simp add: traced_def)

text \<open>C2: work always ends. From any state that a queue with a pool can reach, the threads take a bounded number of steps
  between two outside events (an operation or a spurious wakeup), and they stop only where nothing is left to do: no
  task queued or executing, the caller of \<open>wait_for_all\<close> or the destructor gone, and once the queue is
  stopped every thread of the pool gone too, so that joining them returns. There is no deadlock and no lost wakeup.\<close>

theorem task_queue_drains:
  assumes "task_queue_new sz pool = Inr q0" and "0 < pool" and "tq_run (q0, pool_threads q0) ls s"
    and "((\<lambda>a b. \<exists>l. tq_work a l b) ^^ n) s (q, ths)"
  shows "n \<le> work_left s \<and> (can_work (q, ths) \<or> task_queue_empty q \<and> tq_executing q = 0 \<and> \<not> client_active ths \<and>
    (tq_level q = Stopped \<longrightarrow> (\<forall>th\<in>set ths. snd th = Loop_return)))"
proof -
  from run_inv [OF assms(3,1,2) refl] obtain xs where "sys_inv xs s" by auto
  from work_bounded [OF this assms(4)] obtain ys where ys: "n \<le> work_left s" "sys_inv ys (q, ths)" by auto
  then have "queue_rel q ys" by (simp add: sys_inv_def threads_inv_def)
  then show ?thesis using ys quiet_when_stuck [OF ys(2)] queue_empty_iff by auto
qed

theorem task_queue_drains_witness:
  "0 < work_left (example_queue, [(Pool, Loop_top None)]) \<and> \<not> client_active [(Pool, Wait_new False)]"
proof -
  have work: "tq_work (example_queue, [(Pool, Loop_top None)]) (pc_label (Wait_new False)) (example_queue, [(Pool, Wait_new False)])"
    by (rule work_critical [of 0, OF _ _ example_sleep]) (simp_all add: notified_nil)
  then have "((\<lambda>a b. \<exists>l. tq_work a l b) ^^ 1) (example_queue, pool_threads example_queue) (example_queue, [(Pool, Wait_new False)])"
    by (auto simp: example_threads)
  from task_queue_drains [OF example_queue_new _ run_nil this] show ?thesis
    by (auto simp: example_threads client_active_def)
qed

text \<open>C22: in every state that a queue with a pool can reach: the count of executing tasks is the number of threads between
  taking a task and reporting it, no assertion of the loop can fail, a queued task has a
  thread of the pool that is not asleep, nobody sleeps waiting for completion when all is complete, and no thread sleeps
  waiting for tasks when the queue is stopped.\<close>

theorem task_queue_invariant:
  assumes "task_queue_new sz pool = Inr q0" and "0 < pool" and "tq_run (q0, pool_threads q0) ls (q, ths)"
  shows "tq_executing q = int (cnt busy_th ths) \<and>
    (\<forall>(mode, pc)\<in>set ths. \<forall>e. loop_critical mode pc q \<noteq> Some (Inl e)) \<and>
    (\<not> task_queue_empty q \<longrightarrow> (\<exists>th\<in>set ths. awake_pool th)) \<and>
    (task_queue_empty q \<and> tq_executing q = 0 \<longrightarrow> (\<forall>th\<in>set ths. snd th \<noteq> Wait_done False)) \<and>
    (tq_level q = Stopped \<longrightarrow> (\<forall>th\<in>set ths. snd th \<noteq> Wait_new False))"
proof -
  from run_inv [OF assms(3,1,2) refl] obtain xs where xs: "threads_inv xs q ths" "wake_inv xs q ths" by (auto simp: sys_inv_def)
  then have rel: "queue_rel q xs" and e: "tq_executing q = int (cnt busy_th ths)" unfolding threads_inv_def by blast+
  have "loop_critical mode pc q \<noteq> Some (Inl e)" if th: "(mode, pc) \<in> set ths" for mode pc e
  proof
    obtain i where i: "i < length ths" "ths ! i = (mode, pc)" using th by (metis in_set_conv_nth)
    assume "loop_critical mode pc q = Some (Inl e)"
    then show False using critical_no_error [OF xs(1) i] by auto
  qed
  then show ?thesis using e xs(2) queue_empty_iff [OF rel] unfolding wake_inv_def by auto
qed

theorem task_queue_invariant_witness:
  "tq_executing example_queue = int (cnt busy_th [(Pool, Wait_new False), (Waiting, Loop_top None)])"
  using task_queue_invariant [OF example_queue_new _ example_run [folded example_threads]] by simp

text \<open>Without a pool \<open>wait_for_all\<close> returns, whatever the tasks do to the program outside the queue, having run
  every queued task once, those of higher priority first, and leaves the queue empty.\<close>

lemma wait_for_all_runs_by_priority:
  assumes "queue_rel q xs" and "\<And>t s q. process t (s, q) = Some (Inr (f t s, q))"
  shows "\<exists>ys q'. wait_for_all_loop process s q = Some (Inr (fold f (map rec_task ys) s, q')) \<and> task_queue_empty q' \<and>
    mset ys = mset xs \<and> sorted_wrt (\<lambda>a b. rec_priority b \<le> rec_priority a) ys"
  using wait_for_all_loop_result [of q xs process f s, OF assms] by (auto simp: queue_empty_iff [of _ "[]"])

lemma wait_for_all_runs_by_priority_witness:
  "\<exists>q'. wait_for_all_loop (\<lambda>t (s, q). Some (Inr (t # s, q))) [] example_queue_task = Some (Inr ([7], q')) \<and> task_queue_empty q'"
proof -
  have "queue_rel example_queue_task [\<lparr>rec_task = 7, rec_priority = 1\<rparr>]"
    by (simp add: example_queue_task_def example_queue_def queue_rel_def vec_rel_def heap_from_def allocator_ok_def hxvector_capacity_def
      live_prefix_def element_count_def hxallocator_dynamic_capacity_def numeral_eq_Suc)
  from wait_for_all_runs_by_priority [OF this, of "\<lambda>t (s, q). Some (Inr (t # s, q))" "\<lambda>t s. t # s" "[]"] show ?thesis
    by auto
qed

end
