(* ===== verification/HxTaskDag.thy ===== *)
theory HxTaskDag
  imports HxTaskQueue
begin

text \<open>
  The nodes of \<^verbatim>\<open>include/hx/hxtask_dag_node.hpp\<close> and \<^verbatim>\<open>detail/hxtask_dag_node.inl\<close>: tasks with successors,
  which completion enqueues and failure or cancellation cancels. A completion takes the lock of the queue
  once, so a history is a sequence of completions; what follows the lock is modelled for the queue
  without threads, where the whole graph runs inside \<open>wait_for_all\<close>.
\<close>

section \<open>Nodes and edges\<close>

text \<open>A node of the graph: its count of unfinished predecessors and the first \<open>m_successor_count_\<close> entries of the array of
  successors. The nodes are objects at addresses, so a graph is a store.\<close>

record dag_edge =
  edge_node :: hxtask
  edge_priority :: int

record dag_node =
  dn_predecessors :: int
  dn_successors :: "dag_edge list"

type_synonym dag_store = "hxtask \<Rightarrow> dag_node"

definition dag_node_new :: dag_node where
  "dag_node_new = \<lparr>dn_predecessors = 0, dn_successors = []\<rparr>"

definition dag_set_count :: "dag_store \<Rightarrow> hxtask \<Rightarrow> int \<Rightarrow> dag_store" where
  "dag_set_count d n c = d(n := (d n)\<lparr>dn_predecessors := c\<rparr>)"

definition dag_add_successor :: "nat \<Rightarrow> dag_store \<Rightarrow> hxtask \<Rightarrow> hxtask \<Rightarrow> int \<Rightarrow> dag_store hx" where
  "dag_add_successor max_successors d n succ priority =
     (if \<not> length (dn_successors (d n)) < max_successors then Inl (Assert_always ''max_successors'')
      else let d1 = d(n := (d n)\<lparr>dn_successors := dn_successors (d n) @ [\<lparr>edge_node = succ, edge_priority = priority\<rparr>]\<rparr>)
           in Inr (dag_set_count d1 succ (dn_predecessors (d1 succ) + 1)))"

definition dag_reset :: "dag_store \<Rightarrow> hxtask \<Rightarrow> dag_store" where
  "dag_reset d n = d(n := (d n)\<lparr>dn_predecessors := 0, dn_successors := []\<rparr>)"

text \<open>The loop under the lock, which collects the edges whose node is now ready, or cancelled.\<close>

fun dag_propagate :: "bool \<Rightarrow> dag_store \<Rightarrow> dag_edge list \<Rightarrow> dag_store \<times> dag_edge list" where
  "dag_propagate is_cancelled d [] = (d, [])"
| "dag_propagate is_cancelled d (e # es) =
     (let c = dn_predecessors (d (edge_node e)) in
      if c \<noteq> 0
      then let c1 = (if is_cancelled then 0 else c - 1);
               (d2, ready) = dag_propagate is_cancelled (dag_set_count d (edge_node e) c1) es
           in (d2, if c1 = 0 then e # ready else ready)
      else dag_propagate is_cancelled d es)"

definition dag_node_completed :: "bool \<Rightarrow> dag_store \<Rightarrow> hxtask \<Rightarrow> dag_store \<times> dag_edge list" where
  "dag_node_completed is_cancelled d n =
     (let (d1, ready) = dag_propagate is_cancelled d (dn_successors (d n))
      in (d1(n := (d1 n)\<lparr>dn_successors := []\<rparr>), ready))"

text \<open>\<open>on_failure\<close> and \<open>on_cancel\<close>: after the lock is released every collected node is cancelled in turn. The
  second argument is the rest of the collected edges.\<close>

partial_function (option) dag_cancel :: "dag_store \<Rightarrow> dag_edge list \<Rightarrow> dag_store option" where
  "dag_cancel d es =
     (case es of [] \<Rightarrow> Some d
      | e # rest \<Rightarrow> (let (d1, ready) = dag_node_completed True d (edge_node e)
                    in Option.bind (dag_cancel d1 ready) (\<lambda>d2. dag_cancel d2 rest)))"

section \<open>Completions\<close>

text \<open>A graph given by its edges, and what it looks like when the completions of some nodes have passed the lock,
  the first of each node with its outcome in \<open>fin\<close>.\<close>

type_synonym edges = "(hxtask \<times> dag_edge) list"

definition into :: "edges \<Rightarrow> hxtask \<Rightarrow> (hxtask \<times> dag_edge) list" where
  "into E v = filter (\<lambda>(u, e). edge_node e = v) E"

definition out_of :: "edges \<Rightarrow> hxtask \<Rightarrow> dag_edge list" where
  "out_of E u = map snd (filter (\<lambda>(w, e). w = u) E)"

definition pending :: "edges \<Rightarrow> (hxtask \<rightharpoonup> bool) \<Rightarrow> hxtask \<Rightarrow> nat" where
  "pending E fin v = length (filter (\<lambda>(u, e). fin u = None) (into E v))"

definition doomed :: "edges \<Rightarrow> (hxtask \<rightharpoonup> bool) \<Rightarrow> hxtask \<Rightarrow> bool" where
  "doomed E fin v \<longleftrightarrow> (\<exists>(u, e)\<in>set (into E v). fin u = Some True)"

definition dag_rel :: "edges \<Rightarrow> (hxtask \<rightharpoonup> bool) \<Rightarrow> dag_store \<Rightarrow> bool" where
  "dag_rel E fin d \<longleftrightarrow> (\<forall>v. dn_predecessors (d v) = (if doomed E fin v then 0 else int (pending E fin v)) \<and>
     dn_successors (d v) = (if fin v = None then out_of E v else []))"

text \<open>Building the graph.\<close>

fun dag_build :: "nat \<Rightarrow> dag_store \<Rightarrow> edges \<Rightarrow> dag_store hx" where
  "dag_build max_successors d [] = Inr d"
| "dag_build max_successors d ((u, e) # E) =
     hx_bind (dag_add_successor max_successors d u (edge_node e) (edge_priority e)) (\<lambda>d1. dag_build max_successors d1 E)"

lemma build_rel:
  assumes "dag_rel E0 (\<lambda>_. None) d" and "dag_build m d E = Inr d'"
  shows "dag_rel (E0 @ E) (\<lambda>_. None) d'"
  using assms
proof (induction E arbitrary: E0 d)
  case (Cons x E)
  obtain u e where x: "x = (u, e)" by (cases x)
  have e: "\<lparr>edge_node = edge_node e, edge_priority = edge_priority e\<rparr> = e" by (cases e) simp
  obtain d1 where d1: "dag_add_successor m d u (edge_node e) (edge_priority e) = Inr d1" "dag_build m d1 E = Inr d'"
    using Cons.prems(2) x by (auto elim: hx_bindE)
  have "dag_rel (E0 @ [(u, e)]) (\<lambda>_. None) d1"
    using Cons.prems(1) d1(1) e
    by (auto simp: dag_rel_def dag_add_successor_def dag_set_count_def Let_def into_def out_of_def doomed_def pending_def split: if_splits)
  from Cons.IH [OF this d1(2)] show ?case using x by simp
qed simp

text \<open>What one completion collects from the edges out of the node.\<close>

abbreviation edges_to :: "hxtask \<Rightarrow> dag_edge list \<Rightarrow> nat" where
  "edges_to v es \<equiv> length (filter (\<lambda>e. edge_node e = v) es)"

lemma dag_set_count_simps [simp]:
  "dn_successors (dag_set_count d n c v) = dn_successors (d v)"
  "dn_predecessors (dag_set_count d n c v) = (if v = n then c else dn_predecessors (d v))"
  by (simp_all add: dag_set_count_def)

lemma propagate_step:
  assumes "dag_propagate c d (e # es) = (d', ready)"
  obtains (skip) "dn_predecessors (d (edge_node e)) = 0" "dag_propagate c d es = (d', ready)"
  | (count) ready1 where "dn_predecessors (d (edge_node e)) \<noteq> 0"
      "dag_propagate c (dag_set_count d (edge_node e) (if c then 0 else dn_predecessors (d (edge_node e)) - 1)) es = (d', ready1)"
      "ready = (if c \<or> dn_predecessors (d (edge_node e)) = 1 then e # ready1 else ready1)"
  using assms by (auto simp: Let_def split: if_splits prod.splits)

lemma propagate_successors: "dag_propagate c d es = (d', ready) \<Longrightarrow> dn_successors (d' v) = dn_successors (d v)"
proof (induction es arbitrary: d ready)
  case (Cons e es)
  from Cons.prems show ?case by (cases rule: propagate_step) (auto dest: Cons.IH)
qed simp

lemma propagate_cancelled:
  "dag_propagate True d es = (d', ready) \<Longrightarrow>
    dn_predecessors (d' v) = (if 0 < edges_to v es then 0 else dn_predecessors (d v)) \<and>
    edges_to v ready = (if 0 < edges_to v es \<and> dn_predecessors (d v) \<noteq> 0 then 1 else 0)"
proof (induction es arbitrary: d ready)
  case (Cons e es)
  from Cons.prems show ?case
  proof (cases rule: propagate_step)
    case skip
    then show ?thesis using Cons.IH [OF skip(2)] by auto
  next
    case (count ready1)
    then show ?thesis using Cons.IH [OF count(2)] by auto
  qed
qed simp

lemma propagate_completed:
  "dag_propagate False d es = (d', ready) \<Longrightarrow> 0 \<le> dn_predecessors (d v) \<Longrightarrow>
    dn_predecessors (d' v) = max 0 (dn_predecessors (d v) - int (edges_to v es)) \<and>
    edges_to v ready = (if 0 < dn_predecessors (d v) \<and> dn_predecessors (d v) \<le> int (edges_to v es) then 1 else 0)"
proof (induction es arbitrary: d ready)
  case (Cons e es)
  from Cons.prems(1) show ?case
  proof (cases rule: propagate_step)
    case skip
    then show ?thesis using Cons.IH [OF skip(2) Cons.prems(2)] Cons.prems(2) by auto
  next
    case (count ready1)
    have "0 \<le> dn_predecessors (dag_set_count d (edge_node e) (if False then 0 else dn_predecessors (d (edge_node e)) - 1) v)"
      using Cons.prems(2) count(1) by auto
    from Cons.IH [OF count(2) this] show ?thesis using count(1,3) Cons.prems(2) by auto
  qed
qed simp

lemma into_out: "length (filter (\<lambda>(w, e). w = u) (into E v)) = edges_to v (out_of E u)"
  by (induction E) (auto simp: into_def out_of_def)

lemma pending_update:
  assumes "fin u = None"
  shows "pending E fin v = pending E (fin(u \<mapsto> r)) v + edges_to v (out_of E u)"
proof -
  have "length (filter (\<lambda>(w, e). fin w = None) L) = length (filter (\<lambda>(w, e). (fin(u \<mapsto> r)) w = None) L) + length (filter (\<lambda>(w, e). w = u) L)"
    for L :: edges using assms by (induction L) auto
  from this [of "into E v"] show ?thesis by (simp add: pending_def into_out)
qed

lemma doomed_update:
  assumes "fin u = None"
  shows "doomed E (fin(u \<mapsto> r)) v \<longleftrightarrow> doomed E fin v \<or> r \<and> 0 < edges_to v (out_of E u)"
proof -
  have "(\<exists>(w, e)\<in>set (into E v). w = u) \<longleftrightarrow> 0 < edges_to v (out_of E u)"
    unfolding into_out [symmetric] by (auto simp: filter_empty_conv)
  moreover have "doomed E (fin(u \<mapsto> r)) v \<longleftrightarrow> (\<exists>(w, e)\<in>set (into E v). fin w = Some True \<or> w = u \<and> r)"
    using assms unfolding doomed_def by (intro bex_cong) (auto split: prod.splits)
  ultimately show ?thesis unfolding doomed_def by blast
qed

text \<open>One completion: which successors it collects, and that the store still is the graph with it taken into account.\<close>

lemma completed_step:
  assumes rel: "dag_rel E fin d" and run: "dag_node_completed r d u = (d', ready)"
  shows "dag_rel E (case fin u of None \<Rightarrow> fin(u \<mapsto> r) | Some _ \<Rightarrow> fin) d'"
    and "edges_to v ready = (if fin u = None \<and> \<not> doomed E fin v \<and> 0 < edges_to v (out_of E u) \<and>
      (r \<or> pending E (fin(u \<mapsto> r)) v = 0) then 1 else 0)"
proof -
  obtain d1 where d1: "dag_propagate r d (dn_successors (d u)) = (d1, ready)" "d' = d1(u := (d1 u)\<lparr>dn_successors := []\<rparr>)"
    using run by (auto simp: dag_node_completed_def split: prod.splits)
  have succ: "dn_successors (d1 v) = dn_successors (d v)" for v using propagate_successors [OF d1(1)] .
  have pred: "dn_predecessors (d v) = (if doomed E fin v then 0 else int (pending E fin v))"
    "dn_successors (d v) = (if fin v = None then out_of E v else [])" for v using rel by (simp_all add: dag_rel_def)
  show "dag_rel E (case fin u of None \<Rightarrow> fin(u \<mapsto> r) | Some _ \<Rightarrow> fin) d'"
  proof (cases "fin u")
    case (Some b)
    then have "d1 = d" using d1(1) pred(2) by simp
    then have "d' = d" using d1(2) pred(2) [of u] Some by (simp add: fun_upd_idem)
    then show ?thesis using Some rel by simp
  next
    case None
    have "dn_predecessors (d1 v) = (if doomed E (fin(u \<mapsto> r)) v then 0 else int (pending E (fin(u \<mapsto> r)) v))" for v
      using None pending_update [where fin = fin and u = u, OF None, of E v r] doomed_update [where fin = fin and u = u, OF None, of E r v] pred [of v] pred(2) [of u]
        propagate_cancelled [of d "out_of E u" d1 ready v] propagate_completed [of d "out_of E u" d1 ready v] d1(1)
      by (cases r) (auto simp: max_def)
    then show ?thesis using None succ pred(2) by (auto simp: dag_rel_def d1(2))
  qed
  show "edges_to v ready = (if fin u = None \<and> \<not> doomed E fin v \<and> 0 < edges_to v (out_of E u) \<and>
      (r \<or> pending E (fin(u \<mapsto> r)) v = 0) then 1 else 0)"
  proof (cases "fin u")
    case (Some b)
    then show ?thesis using d1(1) pred(2) by simp
  next
    case None
    then show ?thesis
      using pending_update [where fin = fin and u = u, OF None, of E v r] pred [of v] pred(2) [of u]
        propagate_cancelled [of d "out_of E u" d1 ready v] propagate_completed [of d "out_of E u" d1 ready v] d1(1)
      by (cases r) (auto simp del: length_greater_0_conv length_0_conv)
  qed
qed

text \<open>A history of completions; what each collects is enqueued, or cancelled, with the outcome of the completion.\<close>

fun dag_run :: "dag_store \<Rightarrow> (hxtask \<times> bool) list \<Rightarrow> dag_store \<times> (dag_edge \<times> bool) list" where
  "dag_run d [] = (d, [])"
| "dag_run d ((u, r) # evs) =
     (let (d1, ready) = dag_node_completed r d u; (d2, rest) = dag_run d1 evs
      in (d2, map (\<lambda>e. (e, r)) ready @ rest))"

definition released :: "hxtask \<Rightarrow> bool \<Rightarrow> (dag_edge \<times> bool) list \<Rightarrow> nat" where
  "released v r l = length (filter (\<lambda>(e, s). edge_node e = v \<and> s = r) l)"

definition first_outcomes :: "(hxtask \<rightharpoonup> bool) \<Rightarrow> (hxtask \<times> bool) list \<Rightarrow> hxtask \<rightharpoonup> bool" where
  "first_outcomes fin evs = map_of evs ++ fin"

lemma first_outcomes_simps: "first_outcomes fin [] = fin"
  "first_outcomes fin ((u, r) # evs) = first_outcomes (case fin u of None \<Rightarrow> fin(u \<mapsto> r) | Some _ \<Rightarrow> fin) evs"
  by (auto simp: first_outcomes_def map_add_def fun_eq_iff split: option.splits)

definition all_done :: "edges \<Rightarrow> (hxtask \<rightharpoonup> bool) \<Rightarrow> hxtask \<Rightarrow> bool" where
  "all_done E fin v \<longleftrightarrow> into E v \<noteq> [] \<and> (\<forall>(u, e)\<in>set (into E v). fin u = Some False)"

lemma all_done_pending: "all_done E fin v \<longleftrightarrow> into E v \<noteq> [] \<and> \<not> doomed E fin v \<and> pending E fin v = 0"
proof -
  have "fin u = Some False \<longleftrightarrow> fin u \<noteq> Some True \<and> fin u \<noteq> None" for u by (cases "fin u") auto
  then show ?thesis by (auto simp: all_done_def doomed_def pending_def filter_empty_conv)
qed

lemma released_cons: "released v r (map (\<lambda>e. (e, s)) ready @ l) = (if r = s then edges_to v ready else 0) + released v r l"
proof -
  have "length (filter (\<lambda>(e, s). edge_node e = v \<and> s = r) (map (\<lambda>e. (e, s)) ready)) = (if r = s then edges_to v ready else 0)"
    by (induction ready) auto
  then show ?thesis by (simp add: released_def)
qed

lemma into_some: "0 < edges_to v (out_of E u) \<Longrightarrow> into E v \<noteq> []"
  using into_out [of u E v] by auto

lemma doomed_mono: "fin \<subseteq>\<^sub>m fin' \<Longrightarrow> doomed E fin v \<Longrightarrow> doomed E fin' v"
  by (force simp: doomed_def map_le_def dom_def)

lemma all_done_mono: "fin \<subseteq>\<^sub>m fin' \<Longrightarrow> all_done E fin v \<Longrightarrow> all_done E fin' v"
  by (force simp: all_done_def map_le_def dom_def)

lemma first_outcomes_le: "fin \<subseteq>\<^sub>m first_outcomes fin evs"
  by (auto simp: map_le_def first_outcomes_def map_add_def)

definition newly :: "bool \<Rightarrow> edges \<Rightarrow> (hxtask \<rightharpoonup> bool) \<Rightarrow> (hxtask \<rightharpoonup> bool) \<Rightarrow> hxtask \<Rightarrow> bool" where
  "newly r E fin fin' v \<longleftrightarrow> (if r then doomed E fin' v \<and> \<not> doomed E fin v else all_done E fin' v \<and> \<not> all_done E fin v)"

lemma newly_trans: "fin \<subseteq>\<^sub>m fin1 \<Longrightarrow> fin1 \<subseteq>\<^sub>m fin2 \<Longrightarrow> newly r E fin fin2 v \<longleftrightarrow> newly r E fin fin1 v \<or> newly r E fin1 fin2 v"
  using doomed_mono [of fin fin1 E v] doomed_mono [of fin1 fin2 E v] all_done_mono [of fin fin1 E v] all_done_mono [of fin1 fin2 E v]
  by (auto simp: newly_def)

lemma newly_once: "fin \<subseteq>\<^sub>m fin1 \<Longrightarrow> fin1 \<subseteq>\<^sub>m fin2 \<Longrightarrow> \<not> (newly r E fin fin1 v \<and> newly r E fin1 fin2 v)"
  by (auto simp: newly_def)

lemma newly_one:
  assumes "fin u = None"
  shows "newly s E fin (fin(u \<mapsto> r)) v \<longleftrightarrow>
    s = r \<and> \<not> doomed E fin v \<and> 0 < edges_to v (out_of E u) \<and> (r \<or> pending E (fin(u \<mapsto> r)) v = 0)"
  using doomed_update [where fin = fin and u = u, OF assms, of E r v] pending_update [where fin = fin and u = u, OF assms, of E v r] into_some [of v E u]
  unfolding newly_def all_done_pending by (cases s; cases r; cases "edges_to v (out_of E u)") (auto simp del: length_0_conv length_greater_0_conv)

lemma run_result:
  assumes "dag_rel E fin d" and "dag_run d evs = (d', l)"
  shows "dag_rel E (first_outcomes fin evs) d' \<and> released v s l = (if newly s E fin (first_outcomes fin evs) v then 1 else 0)"
  using assms
proof (induction evs arbitrary: fin d l)
  case Nil
  then show ?case by (auto simp: first_outcomes_simps released_def newly_def)
next
  case (Cons x evs)
  obtain u r where x: "x = (u, r)" by (cases x)
  obtain d1 ready where d1: "dag_node_completed r d u = (d1, ready)" by (cases "dag_node_completed r d u")
  obtain rest where rest: "dag_run d1 evs = (d', rest)" "l = map (\<lambda>e. (e, r)) ready @ rest"
    using Cons.prems(2) x d1 by (auto split: prod.splits)
  define fin1 where "fin1 = (case fin u of None \<Rightarrow> fin(u \<mapsto> r) | Some _ \<Rightarrow> fin)"
  note IH = Cons.IH [OF completed_step(1) [OF Cons.prems(1) d1, folded fin1_def] rest(1)]
  have "(if s = r then edges_to v ready else 0) = (if newly s E fin fin1 v then 1 else 0)"
  proof (cases "fin u")
    case None
    then show ?thesis using newly_one [of fin u s E r v] completed_step(2) [OF Cons.prems(1) d1, of v] by (cases r) (auto simp: fin1_def)
  next
    case (Some b)
    then show ?thesis using completed_step(2) [OF Cons.prems(1) d1, of v] by (simp add: fin1_def newly_def)
  qed
  moreover have "first_outcomes fin (x # evs) = first_outcomes fin1 evs" by (simp add: x first_outcomes_simps fin1_def)
  moreover have "fin \<subseteq>\<^sub>m fin1" by (auto simp: fin1_def map_le_def split: option.splits)
  ultimately show ?case
    using IH newly_trans [of fin fin1 "first_outcomes fin1 evs" s E v] newly_once [of fin fin1 "first_outcomes fin1 evs" s E v] first_outcomes_le [of fin1 evs]
    by (simp add: rest(2) released_cons)
qed

section \<open>Cancellation\<close>

definition dag_on_failure :: "dag_store \<Rightarrow> hxtask \<Rightarrow> dag_store option" where
  "dag_on_failure d n = (let (d1, ready) = dag_node_completed True d n in dag_cancel d1 ready)"

definition live_counts :: "dag_store \<Rightarrow> hxtask set" where
  "live_counts d = {v. dn_predecessors (d v) \<noteq> 0}"

lemma completed_counts:
  assumes "dag_node_completed True d u = (d1, ready)"
  shows "live_counts d1 \<subseteq> live_counts d" and "ready \<noteq> [] \<Longrightarrow> live_counts d1 \<subset> live_counts d"
proof -
  obtain d0 where d0: "dag_propagate True d (dn_successors (d u)) = (d0, ready)" "d1 = d0(u := (d0 u)\<lparr>dn_successors := []\<rparr>)"
    using assms by (auto simp: dag_node_completed_def split: prod.splits)
  note p = propagate_cancelled [OF d0(1)]
  have "dn_predecessors (d1 v) = dn_predecessors (d0 v)" for v by (simp add: d0(2))
  then show le: "live_counts d1 \<subseteq> live_counts d" using p by (auto simp: live_counts_def split: if_splits)
  assume "ready \<noteq> []"
  then have "0 < edges_to (edge_node (hd ready)) ready" by (cases ready) simp_all
  then have "edge_node (hd ready) \<in> live_counts d - live_counts d1"
    using p [of "edge_node (hd ready)"] by (auto simp: live_counts_def d0(2) split: if_splits)
  then show "live_counts d1 \<subset> live_counts d" using le by blast
qed

text \<open>Cancelling a list of nodes ends, and cancels everything that depends on them.\<close>

definition cascade :: "edges \<Rightarrow> (hxtask \<rightharpoonup> bool) \<Rightarrow> (hxtask \<rightharpoonup> bool) \<Rightarrow> dag_edge list \<Rightarrow> bool" where
  "cascade E fin fin' es \<longleftrightarrow> fin \<subseteq>\<^sub>m fin' \<and> (\<forall>e\<in>set es. fin' (edge_node e) \<noteq> None) \<and>
     (\<forall>u. fin u = None \<longrightarrow> fin' u \<noteq> Some False) \<and>
     (\<forall>u. fin u = None \<longrightarrow> fin' u \<noteq> None \<longrightarrow> u \<in> edge_node ` set es \<or> newly True E fin fin' u) \<and>
     (\<forall>v. newly True E fin fin' v \<longrightarrow> fin' v \<noteq> None)"

lemma edges_to_member: "0 < edges_to v es \<longleftrightarrow> v \<in> edge_node ` set es"
  by (auto simp: filter_empty_conv)

lemma cascade_step:
  assumes rel: "dag_rel E fin d" and run: "dag_node_completed True d u = (d1, ready)"
    and fin1: "fin1 = (case fin u of None \<Rightarrow> fin(u \<mapsto> True) | Some _ \<Rightarrow> fin)" and rest: "cascade E fin1 fin' ready"
  shows "fin \<subseteq>\<^sub>m fin'" and "fin' u \<noteq> None" and "fin w = None \<Longrightarrow> fin' w \<noteq> Some False"
    and "fin w = None \<Longrightarrow> fin' w \<noteq> None \<Longrightarrow> w = u \<or> newly True E fin fin' w"
    and "newly True E fin fin' v \<Longrightarrow> fin' v \<noteq> None"
proof -
  have le: "fin \<subseteq>\<^sub>m fin1" "fin1 u \<noteq> None" by (auto simp: fin1 map_le_def split: option.splits)
  have le': "fin1 \<subseteq>\<^sub>m fin'" using rest by (simp add: cascade_def)
  show "fin \<subseteq>\<^sub>m fin'" using le(1) le' by (rule map_le_trans)
  show "fin' u \<noteq> None" using le(2) le' by (force simp: map_le_def dom_def)
  have fin1_w: "fin1 w = None \<or> w = u \<and> fin1 w = Some True" if "fin w = None" for w using that by (auto simp: fin1 split: option.splits)
  show "fin' w \<noteq> Some False" if "fin w = None"
    using fin1_w [OF that] rest le' by (auto simp: cascade_def map_le_def dom_def)
  have ready: "v \<in> edge_node ` set ready \<longleftrightarrow> newly True E fin fin1 v" for v
  proof (cases "fin u")
    case None
    then show ?thesis
      using completed_step(2) [OF rel run, of v] newly_one [of fin u True E True v] edges_to_member [of v ready] by (auto simp: fin1 split: if_splits)
  next
    case (Some b)
    then show ?thesis using completed_step(2) [OF rel run, of v] edges_to_member [of v ready] by (simp add: fin1 newly_def)
  qed
  note split = newly_trans [OF le(1) le']
  show "w = u \<or> newly True E fin fin' w" if w: "fin w = None" "fin' w \<noteq> None"
    using fin1_w [OF w(1)] w(2) rest ready [of w] split [of True E w] unfolding cascade_def by blast
  show "fin' v \<noteq> None" if "newly True E fin fin' v"
    using that rest ready [of v] split [of True E v] unfolding cascade_def by blast
qed

lemma cascade_trans:
  assumes "cascade E fin fin1 [e]" and "cascade E fin1 fin2 es"
  shows "cascade E fin fin2 (e # es)"
proof -
  have le: "fin \<subseteq>\<^sub>m fin1" "fin1 \<subseteq>\<^sub>m fin2" using assms by (simp_all add: cascade_def)
  note split = newly_trans [OF le]
  have keep: "fin1 u \<noteq> None \<Longrightarrow> fin2 u = fin1 u" for u using le(2) by (auto simp: map_le_def dom_def)
  show ?thesis
    unfolding cascade_def
  proof (intro conjI allI impI ballI)
    show "fin \<subseteq>\<^sub>m fin2" using le by (rule map_le_trans)
    show "fin2 (edge_node x) \<noteq> None" if "x \<in> set (e # es)" for x
      using that assms keep [of "edge_node e"] by (auto simp: cascade_def)
    show "fin2 u \<noteq> Some False" if "fin u = None" for u
      using that assms keep [of u] unfolding cascade_def by metis
    show "u \<in> edge_node ` set (e # es) \<or> newly True E fin fin2 u" if "fin u = None" "fin2 u \<noteq> None" for u
    proof (cases "fin1 u = None")
      case True
      then have "u \<in> edge_node ` set es \<or> newly True E fin1 fin2 u" using assms(2) that(2) unfolding cascade_def by blast
      then show ?thesis using split [of True E u] by auto
    next
      case False
      then have "u \<in> edge_node ` set [e] \<or> newly True E fin fin1 u" using assms(1) that(1) unfolding cascade_def by blast
      then show ?thesis using split [of True E u] by auto
    qed
    show "fin2 v \<noteq> None" if "newly True E fin fin2 v" for v
      using that assms split [of True E v] keep [of v] unfolding cascade_def by metis
  qed
qed

lemma cancel_ends_bounded:
  assumes "finite (live_counts d)" and "dag_rel E fin d" and "card (live_counts d) \<le> n"
  shows "\<exists>d' fin'. dag_cancel d es = Some d' \<and> dag_rel E fin' d' \<and> live_counts d' \<subseteq> live_counts d \<and> cascade E fin fin' es"
  using assms
proof (induction n arbitrary: d fin es rule: less_induct)
  case (less n)
  note outer = less.IH
  from less.prems show ?case
  proof (induction es arbitrary: d fin)
    case Nil
    show ?case
      using Nil.prems by (intro exI [of _ d] exI [of _ fin]) (simp add: dag_cancel.simps cascade_def newly_def)
  next
    case (Cons e es)
    obtain d1 ready where d1: "dag_node_completed True d (edge_node e) = (d1, ready)" by (cases "dag_node_completed True d (edge_node e)")
    define fin1 where "fin1 = (case fin (edge_node e) of None \<Rightarrow> fin(edge_node e \<mapsto> True) | Some _ \<Rightarrow> fin)"
    note fin = Cons.prems(1) and rel = Cons.prems(2) and counts = completed_counts [OF d1]
    have rel1: "dag_rel E fin1 d1" using completed_step(1) [OF rel d1] by (simp add: fin1_def)
    have fin1: "finite (live_counts d1)" using counts(1) fin by (rule finite_subset)
    have "\<exists>d2 fin2. dag_cancel d1 ready = Some d2 \<and> dag_rel E fin2 d2 \<and> live_counts d2 \<subseteq> live_counts d1 \<and> cascade E fin1 fin2 ready"
    proof (cases ready)
      case Nil
      then show ?thesis
        using rel1 by (intro exI [of _ d1] exI [of _ fin1]) (simp add: dag_cancel.simps cascade_def newly_def)
    next
      case more: (Cons x xs)
      then have "card (live_counts d1) < card (live_counts d)" using counts(2) fin by (simp add: psubset_card_mono)
      then have "card (live_counts d1) < n" using Cons.prems(3) by simp
      from outer [OF this fin1 rel1 order_refl] show ?thesis .
    qed
    then obtain d2 fin2 where d2: "dag_cancel d1 ready = Some d2" "dag_rel E fin2 d2" "live_counts d2 \<subseteq> live_counts d1" "cascade E fin1 fin2 ready"
      by blast
    have first: "cascade E fin fin2 [e]"
      unfolding cascade_def using cascade_step [OF rel d1 fin1_def d2(4)] by simp
    have "finite (live_counts d2)" using d2(3) fin1 by (rule finite_subset)
    moreover have "card (live_counts d2) \<le> n" using card_mono [OF fin subset_trans [OF d2(3) counts(1)]] Cons.prems(3) by simp
    ultimately obtain d3 fin3 where d3: "dag_cancel d2 es = Some d3" "dag_rel E fin3 d3" "live_counts d3 \<subseteq> live_counts d2" "cascade E fin2 fin3 es"
      using Cons.IH [OF _ d2(2)] by blast
    have "dag_cancel d (e # es) = Some d3" using d1 d2(1) d3(1) by (subst dag_cancel.simps) simp
    then show ?case using d3(2,3) d2(3) counts(1) cascade_trans [OF first d3(4)] by blast
  qed
qed

lemmas cancel_ends = cancel_ends_bounded [OF _ _ order_refl]

lemma dag_on_failure_ends:
  assumes "finite (live_counts d)" and "dag_rel E fin d"
  shows "\<exists>d' fin'. dag_on_failure d n = Some d' \<and> dag_rel E fin' d' \<and> live_counts d' \<subseteq> live_counts d \<and>
    cascade E fin fin' [\<lparr>edge_node = n, edge_priority = 0\<rparr>]"
proof -
  let ?e = "\<lparr>edge_node = n, edge_priority = 0\<rparr>"
  obtain d1 ready where d1: "dag_node_completed True d n = (d1, ready)" by (cases "dag_node_completed True d n")
  have "dag_cancel d [?e] = Option.bind (dag_cancel d1 ready) Some"
    using d1 by (subst dag_cancel.simps) (simp add: dag_cancel.simps)
  then have "dag_on_failure d n = dag_cancel d [?e]" by (simp add: dag_on_failure_def d1)
  then show ?thesis using cancel_ends [OF assms, of "[?e]"] by simp
qed

section \<open>A graph on a queue without threads\<close>

text \<open>After a completion the collected nodes are enqueued; \<open>dag_process\<close> is \<open>hxtask::process\<close> for a node whose
  \<open>execute\<close> only returns its outcome. It also records the history.\<close>

fun dag_enqueue_all :: "task_queue \<Rightarrow> dag_edge list \<Rightarrow> task_queue hx" where
  "dag_enqueue_all q [] = Inr q"
| "dag_enqueue_all q (e # es) =
     hx_bind (task_queue_enqueue q (edge_node e) (edge_priority e)) (\<lambda>(q1, ns). dag_enqueue_all q1 es)"

definition dag_on_completion :: "dag_store \<Rightarrow> task_queue \<Rightarrow> hxtask \<Rightarrow> (dag_store \<times> task_queue) hx" where
  "dag_on_completion d q n = (let (d1, ready) = dag_node_completed False d n in hx_map (\<lambda>q1. (d1, q1)) (dag_enqueue_all q ready))"

fun dag_process :: "(hxtask \<Rightarrow> bool) \<Rightarrow> hxtask \<Rightarrow> (dag_store \<times> hxtask list) \<times> task_queue \<Rightarrow> ((dag_store \<times> hxtask list) \<times> task_queue) run" where
  "dag_process execute t ((d, hist), q) =
     (if execute t then Some (hx_map (\<lambda>(d1, q1). ((d1, hist @ [t]), q1)) (dag_on_completion d q t))
      else map_option (\<lambda>d1. Inr ((d1, hist @ [t]), q)) (dag_on_failure d t))"

lemma enqueue_room:
  assumes "queue_rel q xs" and "tq_pool q \<le> 0" and "length xs < vec_room (tq_tasks q)"
  shows "\<exists>q' ys. task_queue_enqueue q t p = Inr (q', []) \<and> queue_rel q' ys \<and> tasks_of ys = add_mset t (tasks_of xs) \<and>
    same_fields q q' \<and> vec_room (tq_tasks q') = vec_room (tq_tasks q)"
proof -
  let ?r = "\<lparr>rec_task = t, rec_priority = p\<rparr>"
  have rel: "vec_rel (tq_tasks q) xs" "heap_from record_less xs 0 (length xs) 0" using assms(1) by (simp_all add: queue_rel_def)
  obtain ys where ys: "vec_holds (tq_tasks q) (hxvector_push_heap record_less (\<lambda>r. r) (tq_tasks q) ?r) ys"
    "heap_from record_less ys 0 (length ys) 0" "mset ys = add_mset ?r (mset xs)"
    using record_order.hxvector_push_heap_rel [OF rel(1) assms(3) rel(2), of "\<lambda>r. r" ?r] by blast
  from ys(1) obtain v where v: "hxvector_push_heap record_less (\<lambda>r. r) (tq_tasks q) ?r = Inr v" "vec_rel v ys" "vec_room v = vec_room (tq_tasks q)"
    by (auto simp: vec_holds_def)
  then have "task_queue_enqueue q t p = Inr (q\<lparr>tq_tasks := v\<rparr>, [])" using assms(2) by (simp add: task_queue_enqueue_def Let_def)
  then show ?thesis
    using ys(2,3) v(2,3) by (intro exI [of _ "q\<lparr>tq_tasks := v\<rparr>"] exI [of _ ys]) (simp add: queue_rel_def same_fields_def)
qed

lemma enqueue_all_room:
  assumes "queue_rel q xs" and "tq_pool q \<le> 0" and "length xs + length es \<le> vec_room (tq_tasks q)"
  shows "\<exists>q' ys. dag_enqueue_all q es = Inr q' \<and> queue_rel q' ys \<and> tasks_of ys = tasks_of xs + mset (map edge_node es) \<and>
    same_fields q q' \<and> vec_room (tq_tasks q') = vec_room (tq_tasks q)"
  using assms
proof (induction es arbitrary: q xs)
  case Nil
  then show ?case by (auto simp: same_fields_def)
next
  case (Cons e es)
  have "length xs < vec_room (tq_tasks q)" using Cons.prems(3) by simp
  from enqueue_room [OF Cons.prems(1,2) this] obtain q1 ys where q1: "task_queue_enqueue q (edge_node e) (edge_priority e) = Inr (q1, [])"
    "queue_rel q1 ys" "tasks_of ys = add_mset (edge_node e) (tasks_of xs)" "same_fields q q1" "vec_room (tq_tasks q1) = vec_room (tq_tasks q)"
    by blast
  have "length ys = Suc (length xs)" using arg_cong [OF q1(3), of size] by simp
  then have "length ys + length es \<le> vec_room (tq_tasks q1)" "tq_pool q1 \<le> 0" using Cons.prems q1(4,5) by (simp_all add: same_fields_def)
  from Cons.IH [OF q1(2) this(2,1)] obtain q2 zs where "dag_enqueue_all q1 es = Inr q2" "queue_rel q2 zs"
    "tasks_of zs = tasks_of ys + mset (map edge_node es)" "same_fields q1 q2" "vec_room (tq_tasks q2) = vec_room (tq_tasks q1)" by blast
  then show ?case using q1 by (auto simp: same_fields_def)
qed

text \<open>The nodes that may run: the roots and those whose predecessors have all completed.\<close>

definition runnable :: "edges \<Rightarrow> hxtask set \<Rightarrow> (hxtask \<rightharpoonup> bool) \<Rightarrow> hxtask set" where
  "runnable E R fin = R \<union> {v. all_done E fin v}"

definition dag_inv :: "edges \<Rightarrow> hxtask set \<Rightarrow> (hxtask \<Rightarrow> bool) \<Rightarrow> (hxtask \<rightharpoonup> bool) \<Rightarrow> hxtask list \<Rightarrow> dag_store \<Rightarrow> bool" where
  "dag_inv E R execute fin hist d \<longleftrightarrow> dag_rel E fin d \<and> distinct hist \<and> set hist \<subseteq> runnable E R fin \<and>
     (\<forall>v\<in>set hist. fin v = Some (\<not> execute v)) \<and> (\<forall>v. fin v = Some False \<longrightarrow> v \<in> set hist) \<and>
     (\<forall>v. fin v = Some True \<longrightarrow> v \<in> set hist \<or> doomed E fin v) \<and> (\<forall>v. doomed E fin v \<longrightarrow> fin v \<noteq> None) \<and>
     (\<forall>k<length hist. \<forall>(u, e)\<in>set (into E (hist ! k)). u \<in> set (take k hist) \<and> execute u)"

definition dag_queue_inv :: "nat \<Rightarrow> hxtask set \<Rightarrow> task_queue \<Rightarrow> bool" where
  "dag_queue_inv room Q q \<longleftrightarrow> (\<exists>xs. queue_rel q xs \<and> finite Q \<and> tasks_of xs = mset_set Q) \<and> tq_pool q \<le> 0 \<and> vec_room (tq_tasks q) = room"

lemma runnable_not_doomed: "v \<in> runnable E R fin \<Longrightarrow> \<forall>r\<in>R. into E r = [] \<Longrightarrow> \<not> doomed E fin v"
  by (auto simp: runnable_def doomed_def all_done_pending)

lemma runnable_preds:
  assumes "dag_inv E R execute fin hist d" and "v \<in> runnable E R fin" and "\<forall>r\<in>R. into E r = []" and "(u, e) \<in> set (into E v)"
  shows "u \<in> set hist \<and> execute u"
proof -
  have "all_done E fin v" using assms(2,3,4) by (auto simp: runnable_def)
  then have "fin u = Some False" using assms(4) by (auto simp: all_done_def)
  then have "u \<in> set hist" "fin u = Some (\<not> execute u)" using assms(1) by (auto simp: dag_inv_def)
  then show ?thesis using \<open>fin u = Some False\<close> by simp
qed

lemma hist_order_snoc:
  assumes "\<forall>k<length hist. \<forall>(u, e)\<in>set (into E (hist ! k)). u \<in> set (take k hist) \<and> execute u"
    and "\<And>u e. (u, e) \<in> set (into E t) \<Longrightarrow> u \<in> set hist \<and> execute u"
  shows "\<forall>k<length (hist @ [t]). \<forall>(u, e)\<in>set (into E ((hist @ [t]) ! k)). u \<in> set (take k (hist @ [t])) \<and> execute u"
proof (intro allI impI)
  fix k assume "k < length (hist @ [t])"
  then consider "k < length hist" | "k = length hist" by fastforce
  then show "\<forall>(u, e)\<in>set (into E ((hist @ [t]) ! k)). u \<in> set (take k (hist @ [t])) \<and> execute u"
    by cases (use assms in \<open>auto simp: nth_append\<close>)
qed

definition dag_nodes :: "edges \<Rightarrow> hxtask set \<Rightarrow> hxtask set" where
  "dag_nodes E R = R \<union> (\<lambda>(u, e). edge_node e) ` set E"

lemma into_nonempty: "into E v \<noteq> [] \<Longrightarrow> v \<in> dag_nodes E R"
  by (force simp: into_def dag_nodes_def filter_empty_conv)

lemma runnable_nodes: "runnable E R fin \<subseteq> dag_nodes E R"
  using into_nonempty [of E _ R] by (auto simp: runnable_def all_done_def dag_nodes_def)

lemma pending_into: "pending E fin v \<noteq> 0 \<Longrightarrow> into E v \<noteq> []"
  by (auto simp: pending_def)

lemma runnable_fresh:
  assumes "dag_inv E R execute fin hist d" and "\<forall>r\<in>R. into E r = []" and "t \<in> runnable E R fin - set hist"
  shows "fin t = None"
proof (cases "fin t")
  case (Some b)
  then have "t \<in> set hist \<or> doomed E fin t" using assms(1) by (cases b) (auto simp: dag_inv_def)
  then show ?thesis using assms(3) runnable_not_doomed [OF _ assms(2)] by blast
qed

lemma rel_finite: "dag_rel E fin d \<Longrightarrow> finite (live_counts d)"
proof -
  assume "dag_rel E fin d"
  then have "live_counts d \<subseteq> dag_nodes E {}"
    using into_nonempty [of E _ "{}"] pending_into [of E fin] by (fastforce simp: live_counts_def dag_rel_def split: if_splits)
  then show ?thesis by (rule finite_subset) (simp add: dag_nodes_def)
qed

lemma dag_step_fails:
  assumes inv: "dag_inv E R execute fin hist d" and R: "\<forall>r\<in>R. into E r = []"
    and t: "t \<in> runnable E R fin - set hist" and fails: "\<not> execute t" and queue: "dag_queue_inv room (runnable E R fin - set hist - {t}) q"
  shows "\<exists>fin' d' q'. dag_process execute t ((d, hist), q) = Some (Inr ((d', hist @ [t]), q')) \<and>
    dag_inv E R execute fin' (hist @ [t]) d' \<and> dag_queue_inv room (runnable E R fin' - set (hist @ [t])) q'"
proof -
  have rel: "dag_rel E fin d" using inv by (simp add: dag_inv_def)
  obtain d' fin' where d': "dag_on_failure d t = Some d'" "dag_rel E fin' d'" and c: "cascade E fin fin' [\<lparr>edge_node = t, edge_priority = 0\<rparr>]"
    using dag_on_failure_ends [OF rel_finite [OF rel] rel, of t] by blast
  have le: "fin \<subseteq>\<^sub>m fin'" and done_t: "fin' t \<noteq> None" and no_false: "\<And>u. fin u = None \<Longrightarrow> fin' u \<noteq> Some False"
    and new: "\<And>u. fin u = None \<Longrightarrow> fin' u \<noteq> None \<Longrightarrow> u = t \<or> newly True E fin fin' u" and doom: "\<And>v. newly True E fin fin' v \<Longrightarrow> fin' v \<noteq> None"
    using c by (simp_all add: cascade_def)
  have keep: "fin' u = fin u" if "fin u \<noteq> None" for u using le that by (auto simp: map_le_def dom_def)
  have none: "fin t = None" by (rule runnable_fresh [OF inv R t])
  have false_iff: "fin' u = Some False \<longleftrightarrow> fin u = Some False" for u using keep [of u] no_false [of u] by (cases "fin u") auto
  have same: "runnable E R fin' = runnable E R fin" using false_iff by (simp add: runnable_def all_done_def)
  have "dag_inv E R execute fin' (hist @ [t]) d'"
    unfolding dag_inv_def
  proof (intro conjI)
    show "dag_rel E fin' d'" "distinct (hist @ [t])" "set (hist @ [t]) \<subseteq> runnable E R fin'"
      using d'(2) inv t by (auto simp: dag_inv_def same)
    have "fin' t = Some True" using done_t no_false [OF none] by (cases "fin' t") auto
    then show "\<forall>v\<in>set (hist @ [t]). fin' v = Some (\<not> execute v)" using inv keep fails by (auto simp: dag_inv_def)
    show "\<forall>v. fin' v = Some False \<longrightarrow> v \<in> set (hist @ [t])" using inv false_iff by (auto simp: dag_inv_def)
    show "\<forall>v. fin' v = Some True \<longrightarrow> v \<in> set (hist @ [t]) \<or> doomed E fin' v"
    proof (intro allI impI)
      fix v assume v: "fin' v = Some True"
      show "v \<in> set (hist @ [t]) \<or> doomed E fin' v"
      proof (cases "fin v")
        case None
        then show ?thesis using new [OF None] v by (auto simp: newly_def)
      next
        case (Some b)
        then show ?thesis using keep [of v] v inv doomed_mono [OF le, of E v] by (auto simp: dag_inv_def)
      qed
    qed
    show "\<forall>v. doomed E fin' v \<longrightarrow> fin' v \<noteq> None"
      using doom inv keep unfolding newly_def dag_inv_def by metis
    show "\<forall>k<length (hist @ [t]). \<forall>(u, e)\<in>set (into E ((hist @ [t]) ! k)). u \<in> set (take k (hist @ [t])) \<and> execute u"
      using inv runnable_preds [OF inv _ R, of t] t by (intro hist_order_snoc) (auto simp: dag_inv_def)
  qed
  moreover have "runnable E R fin' - set (hist @ [t]) = runnable E R fin - set hist - {t}" using same by auto
  ultimately show ?thesis using d'(1) fails queue by auto
qed

lemma ready_nodes:
  assumes "dag_rel E fin d" and "fin t = None" and "dag_node_completed False d t = (d1, ready)"
  shows "mset (map edge_node ready) = mset_set {v. newly False E fin (fin(t \<mapsto> False)) v}" and "finite {v. newly False E fin (fin(t \<mapsto> False)) v}"
proof -
  have cnt: "edges_to v ready = (if newly False E fin (fin(t \<mapsto> False)) v then 1 else 0)" for v
    using completed_step(2) [OF assms(1,3), of v] newly_one [of fin t False E False v, OF assms(2)] assms(2) by simp
  have "{v. newly False E fin (fin(t \<mapsto> False)) v} \<subseteq> edge_node ` set ready"
  proof
    fix v assume "v \<in> {v. newly False E fin (fin(t \<mapsto> False)) v}"
    then have "0 < edges_to v ready" unfolding cnt by simp
    then show "v \<in> edge_node ` set ready" by (simp only: edges_to_member)
  qed
  then show fin: "finite {v. newly False E fin (fin(t \<mapsto> False)) v}" by (rule finite_subset) simp
  have "count (mset (map edge_node ready)) v = edges_to v ready" for v by (induction ready) auto
  then show "mset (map edge_node ready) = mset_set {v. newly False E fin (fin(t \<mapsto> False)) v}"
    using cnt fin by (intro multiset_eqI) (simp add: count_mset_set')
qed

lemma dag_step_completes:
  assumes inv: "dag_inv E R execute fin hist d" and R: "\<forall>r\<in>R. into E r = []" "finite R"
    and t: "t \<in> runnable E R fin - set hist" and ok: "execute t" and queue: "dag_queue_inv room (runnable E R fin - set hist - {t}) q"
    and room: "card (dag_nodes E R) \<le> room"
  shows "\<exists>fin' d' q'. dag_process execute t ((d, hist), q) = Some (Inr ((d', hist @ [t]), q')) \<and>
    dag_inv E R execute fin' (hist @ [t]) d' \<and> dag_queue_inv room (runnable E R fin' - set (hist @ [t])) q'"
proof -
  have rel: "dag_rel E fin d" using inv by (simp add: dag_inv_def)
  have none: "fin t = None" by (rule runnable_fresh [OF inv R(1) t])
  obtain d1 ready where d1: "dag_node_completed False d t = (d1, ready)" by (cases "dag_node_completed False d t")
  let ?fin = "fin(t \<mapsto> False)"
  let ?new = "{v. newly False E fin ?fin v}"
  have le: "fin \<subseteq>\<^sub>m ?fin" using none by (auto simp: map_le_def)
  have same_doom: "doomed E ?fin v \<longleftrightarrow> doomed E fin v" for v using doomed_update [where fin = fin and u = t, OF none, of E False v] by simp
  have runs: "runnable E R ?fin = runnable E R fin \<union> ?new" using all_done_mono [OF le] by (auto simp: runnable_def newly_def)
  have fresh: "v \<notin> runnable E R fin" if "v \<in> ?new" for v using that R(1) by (auto simp: runnable_def newly_def all_done_def)
  have hist_sub: "set hist \<subseteq> runnable E R fin" using inv by (simp add: dag_inv_def)
  have left: "runnable E R ?fin - set (hist @ [t]) = (runnable E R fin - set hist - {t}) \<union> ?new" (is "_ = ?Q \<union> _")
    using runs fresh hist_sub t by auto
  obtain xs where xs: "queue_rel q xs" "finite ?Q" "tasks_of xs = mset_set ?Q" and q: "tq_pool q \<le> 0" "vec_room (tq_tasks q) = room"
    using queue by (auto simp: dag_queue_inv_def)
  note ready = ready_nodes [OF rel none d1]
  have disj: "?Q \<inter> ?new = {}" using fresh by blast
  have "length xs = card ?Q" "length ready = card ?new" using arg_cong [OF xs(3), of size] arg_cong [OF ready(1), of size] by simp_all
  moreover have "card ?Q + card ?new = card (?Q \<union> ?new)" using card_Un_disjoint [OF xs(2) ready(2) disj] by simp
  moreover have "card (?Q \<union> ?new) \<le> card (dag_nodes E R)"
  proof (rule card_mono)
    show "?Q \<union> ?new \<subseteq> dag_nodes E R" using left runnable_nodes by blast
  qed (simp add: dag_nodes_def R(2))
  ultimately have fit: "length xs + length ready \<le> vec_room (tq_tasks q)" using room q(2) by linarith
  obtain q1 ys where q1: "dag_enqueue_all q ready = Inr q1" "queue_rel q1 ys" "tasks_of ys = tasks_of xs + mset (map edge_node ready)"
    "same_fields q q1" "vec_room (tq_tasks q1) = vec_room (tq_tasks q)" using enqueue_all_room [OF xs(1) q(1) fit] by blast
  have "tasks_of ys = mset_set (?Q \<union> ?new)" using q1(3) xs(2,3) ready disj by (simp add: mset_set_Union)
  then have "dag_queue_inv room (runnable E R ?fin - set (hist @ [t])) q1"
    unfolding left dag_queue_inv_def using q1(2,4,5) q xs(2) ready(2) by (auto simp: same_fields_def)
  moreover have "dag_inv E R execute ?fin (hist @ [t]) d1"
    unfolding dag_inv_def
  proof (intro conjI)
    show "dag_rel E ?fin d1" using completed_step(1) [OF rel d1] none by simp
    show "distinct (hist @ [t])" "set (hist @ [t]) \<subseteq> runnable E R ?fin" using inv t by (auto simp: dag_inv_def runs)
    show "\<forall>v\<in>set (hist @ [t]). ?fin v = Some (\<not> execute v)" using inv ok t by (auto simp: dag_inv_def)
    show "\<forall>v. ?fin v = Some False \<longrightarrow> v \<in> set (hist @ [t])" "\<forall>v. ?fin v = Some True \<longrightarrow> v \<in> set (hist @ [t]) \<or> doomed E ?fin v"
      "\<forall>v. doomed E ?fin v \<longrightarrow> ?fin v \<noteq> None"
      using inv same_doom by (auto simp: dag_inv_def)
    show "\<forall>k<length (hist @ [t]). \<forall>(u, e)\<in>set (into E ((hist @ [t]) ! k)). u \<in> set (take k (hist @ [t])) \<and> execute u"
      using inv runnable_preds [OF inv _ R(1), of t] t by (intro hist_order_snoc) (auto simp: dag_inv_def)
  qed
  ultimately show ?thesis using ok d1 q1(1) by (auto simp: dag_on_completion_def)
qed

lemma dag_loop:
  assumes "dag_inv E R execute fin hist d" and R: "\<forall>r\<in>R. into E r = []" "finite R" and "card (dag_nodes E R) \<le> room"
    and "dag_queue_inv room (runnable E R fin - set hist) q"
  shows "\<exists>fin' d' hist' q'. wait_for_all_loop (dag_process execute) (d, hist) q = Some (Inr ((d', hist'), q')) \<and>
    dag_inv E R execute fin' hist' d' \<and> task_queue_empty q' \<and> runnable E R fin' = set hist'"
  using assms(1,5)
proof (induction "card (dag_nodes E R - set hist)" arbitrary: fin hist d q rule: less_induct)
  case less
  obtain xs where xs: "queue_rel q xs" "finite (runnable E R fin - set hist)" "tasks_of xs = mset_set (runnable E R fin - set hist)"
    and q: "tq_pool q \<le> 0" "vec_room (tq_tasks q) = room" using less.prems(2) by (auto simp: dag_queue_inv_def)
  show ?case
  proof (cases "xs = []")
    case True
    then have "runnable E R fin - set hist = {}" using xs(2,3) by (simp add: mset_set_empty_iff)
    then have "runnable E R fin = set hist" using less.prems(1) by (auto simp: dag_inv_def)
    moreover have "wait_for_all_loop (dag_process execute) (d, hist) q = Some (Inr ((d, hist), q))"
      using True queue_empty_iff [OF xs(1)] by (subst wait_for_all_loop.simps) simp
    ultimately show ?thesis using less.prems(1) True queue_empty_iff [OF xs(1)] by blast
  next
    case False
    let ?t = "rec_task (xs ! 0)"
    obtain q1 ys where q1: "take_front q = Inr (?t, q1)" "queue_rel q1 ys" "mset xs = add_mset (xs ! 0) (mset ys)" "same_fields q q1"
      "vec_room (tq_tasks q1) = vec_room (tq_tasks q)" by (rule take_front_room [OF xs(1) False])
    have add: "mset_set (runnable E R fin - set hist) = add_mset ?t (tasks_of ys)" using xs(3) q1(3) by simp
    then have "?t \<in># mset_set (runnable E R fin - set hist)" by simp
    then have t: "?t \<in> runnable E R fin - set hist" using xs(2) by simp
    have "tasks_of ys = mset_set (runnable E R fin - set hist - {?t})" using add xs(2) t by (simp add: mset_set_Diff)
    then have "dag_queue_inv room (runnable E R fin - set hist - {?t}) q1"
      unfolding dag_queue_inv_def using q1(2,4,5) q xs(2) by (auto simp: same_fields_def)
    then obtain fin' d' q' where step: "dag_process execute ?t ((d, hist), q1) = Some (Inr ((d', hist @ [?t]), q'))"
      "dag_inv E R execute fin' (hist @ [?t]) d'" "dag_queue_inv room (runnable E R fin' - set (hist @ [?t])) q'"
      using dag_step_completes [OF less.prems(1) R t _ _ assms(4)] dag_step_fails [OF less.prems(1) R(1) t] by (cases "execute ?t") blast+
    have "?t \<in> dag_nodes E R" using t runnable_nodes by blast
    then have "dag_nodes E R - set (hist @ [?t]) \<subset> dag_nodes E R - set hist" using t by auto
    then have "card (dag_nodes E R - set (hist @ [?t])) < card (dag_nodes E R - set hist)"
      by (intro psubset_card_mono) (simp_all add: dag_nodes_def R(2))
    from less.hyps [OF this step(2,3)] show ?thesis
      using False queue_empty_iff [OF xs(1)] by (subst wait_for_all_loop.simps) (simp only: q1(1) step(1) run_bind_simps prod.case if_True simp_thms)
  qed
qed

lemma build_start: "dag_build m (\<lambda>_. dag_node_new) E = Inr d \<Longrightarrow> dag_rel E (\<lambda>_. None) d"
  using build_rel [of "[]" "\<lambda>_. dag_node_new" m E d] by (simp add: dag_rel_def dag_node_new_def doomed_def pending_def into_def out_of_def)

lemma start_none: "\<not> doomed E (\<lambda>_. None) v" "\<not> all_done E (\<lambda>_. None) v"
  by (auto simp: doomed_def all_done_def) (cases "into E v"; auto)

section \<open>Claims\<close>

definition example_edges :: edges where
  "example_edges = [(7, \<lparr>edge_node = 8, edge_priority = 3\<rparr>)]"

definition example_dag :: dag_store where
  "example_dag = (\<lambda>_. dag_node_new)(7 := \<lparr>dn_predecessors = 0, dn_successors = [\<lparr>edge_node = 8, edge_priority = 3\<rparr>]\<rparr>,
     8 := \<lparr>dn_predecessors = 1, dn_successors = []\<rparr>)"

lemma example_dag_build: "dag_build 4 (\<lambda>_. dag_node_new) example_edges = Inr example_dag"
  by (simp add: example_edges_def example_dag_def dag_add_successor_def dag_set_count_def dag_node_new_def)

text \<open>C4: in any order in which nodes of a graph complete, fail or are cancelled, repeatedly or not, a node is handed to
  \<open>enqueue\<close> once if the first outcome of each of its predecessors is completion, is handed to \<open>on_cancel\<close> once if the first outcome of
  one of them is not, and otherwise neither. It is never both.\<close>

theorem dag_releases_once:
  assumes "dag_build max_successors (\<lambda>_. dag_node_new) E = Inr d" and "dag_run d evs = (d', l)"
  shows "released v False l = (if all_done E (map_of evs) v then 1 else 0) \<and>
    released v True l = (if doomed E (map_of evs) v then 1 else 0) \<and> \<not> (all_done E (map_of evs) v \<and> doomed E (map_of evs) v)"
proof -
  have "first_outcomes (\<lambda>_. None) evs = map_of evs" by (simp add: first_outcomes_def)
  then show ?thesis
    using start_none run_result [OF build_start [OF assms(1)] assms(2), of v False] run_result [OF build_start [OF assms(1)] assms(2), of v True]
      all_done_pending [of E "map_of evs" v] by (auto simp: newly_def)
qed

theorem dag_releases_once_witness:
  "released 8 False (snd (dag_run example_dag [(7, False), (7, True)])) = 1"
  using dag_releases_once [OF example_dag_build, of "[(7, False), (7, True)]", OF surjective_pairing, of 8]
  by (simp add: all_done_def into_def example_edges_def)

text \<open>A graph whose roots are enqueued on a queue without threads, with room for its nodes, runs inside one
  \<open>wait_for_all\<close>, whatever its nodes return: the call returns, no node runs twice, every node runs after all of its predecessors, and
  the nodes that run are exactly the roots and those whose predecessors all ran and succeeded. Failures cancel the rest.\<close>

lemma dag_wait_for_all:
  assumes "dag_build max_successors (\<lambda>_. dag_node_new) E = Inr d" and "finite R" and "\<forall>r\<in>R. into E r = []"
    and "queue_rel q xs" and "tasks_of xs = mset_set R" and "tq_pool q \<le> 0" and "card (dag_nodes E R) \<le> vec_room (tq_tasks q)"
  shows "\<exists>d' hist q'. wait_for_all_loop (dag_process execute) (d, []) q = Some (Inr ((d', hist), q')) \<and> task_queue_empty q' \<and> distinct hist \<and>
    (\<forall>v. v \<in> set hist \<longleftrightarrow> v \<in> R \<or> into E v \<noteq> [] \<and> (\<forall>(u, e)\<in>set (into E v). u \<in> set hist \<and> execute u)) \<and>
    (\<forall>k<length hist. \<forall>(u, e)\<in>set (into E (hist ! k)). u \<in> set (take k hist))"
proof -
  have "runnable E R (\<lambda>_. None) = R" by (simp add: runnable_def start_none)
  then have "dag_queue_inv (vec_room (tq_tasks q)) (runnable E R (\<lambda>_. None) - set []) q"
    using assms(2,4-6) by (auto simp: dag_queue_inv_def)
  moreover have "dag_inv E R execute (\<lambda>_. None) [] d" using build_start [OF assms(1)] by (simp add: dag_inv_def doomed_def)
  ultimately obtain fin d' hist q' where run: "wait_for_all_loop (dag_process execute) (d, []) q = Some (Inr ((d', hist), q'))"
    "dag_inv E R execute fin hist d'" "task_queue_empty q'" "runnable E R fin = set hist"
    using dag_loop [OF _ assms(3,2,7)] by blast
  have fin: "fin u = Some False \<longleftrightarrow> u \<in> set hist \<and> execute u" for u using run(2) by (auto simp: dag_inv_def)
  have "v \<in> set hist \<longleftrightarrow> v \<in> R \<or> into E v \<noteq> [] \<and> (\<forall>(u, e)\<in>set (into E v). u \<in> set hist \<and> execute u)" for v
  proof -
    have "v \<in> set hist \<longleftrightarrow> v \<in> runnable E R fin" using run(4) by simp
    also have "\<dots> \<longleftrightarrow> v \<in> R \<or> into E v \<noteq> [] \<and> (\<forall>(u, e)\<in>set (into E v). u \<in> set hist \<and> execute u)"
      by (simp add: runnable_def all_done_def fin)
    finally show ?thesis .
  qed
  moreover have "distinct hist" "\<forall>k<length hist. \<forall>(u, e)\<in>set (into E (hist ! k)). u \<in> set (take k hist)"
    using run(2) by (auto simp: dag_inv_def)
  ultimately show ?thesis using run(1,3) by blast
qed

lemma dag_wait_for_all_witness:
  "\<exists>d' hist q'. wait_for_all_loop (dag_process (\<lambda>_. True)) (example_dag, []) (example_queue_task\<lparr>tq_pool := 0\<rparr>) = Some (Inr ((d', hist), q')) \<and>
     8 \<in> set hist"
proof -
  have rel: "queue_rel (example_queue_task\<lparr>tq_pool := 0\<rparr>) [\<lparr>rec_task = 7, rec_priority = 1\<rparr>]"
    by (simp add: example_queue_task_def example_queue_def queue_rel_def vec_rel_def heap_from_def allocator_ok_def hxvector_capacity_def
      live_prefix_def element_count_def hxallocator_dynamic_capacity_def numeral_eq_Suc)
  have "card (dag_nodes example_edges {7}) \<le> vec_room (tq_tasks (example_queue_task\<lparr>tq_pool := 0\<rparr>))"
    by (simp add: dag_nodes_def example_edges_def example_queue_task_def hxvector_capacity_def)
  from dag_wait_for_all [OF example_dag_build _ _ rel _ _ this, of "\<lambda>_. True"] obtain d' hist q' where
    run: "wait_for_all_loop (dag_process (\<lambda>_. True)) (example_dag, []) (example_queue_task\<lparr>tq_pool := 0\<rparr>) = Some (Inr ((d', hist), q'))"
    and nodes: "\<And>v. v \<in> set hist \<longleftrightarrow> v \<in> {7} \<or> into example_edges v \<noteq> [] \<and> (\<forall>(u, e)\<in>set (into example_edges v). u \<in> set hist \<and> True)"
    by (auto simp: into_def example_edges_def)
  have "7 \<in> set hist" using nodes [of 7] by simp
  then have "8 \<in> set hist" using nodes [of 8] by (simp add: into_def example_edges_def)
  then show ?thesis using run by blast
qed

end
