(* ===== verification/HxConsole.thy ===== *)
theory HxConsole
  imports HxHashRefine HxUtility HxSort
begin

text \<open>
  The console of \<^verbatim>\<open>src/hxconsole.cpp\<close> and \<^verbatim>\<open>detail/hxconsole_detail.hpp\<close>: parsing of arguments with range checks, the
  commands and variables, the command table on the hash table of this development, the execution of a line, the reading
  of a file through a line buffer, and the listing of the commands. A C string is the list of its
  characters without the terminator, and a pointer into it is a suffix. The state the commands work on is a type parameter, a
  function that throws returns \<open>None\<close>. The conversion of floating point text is a parameter.
\<close>

section \<open>The conversions of the C library\<close>

text \<open>\<open>strtol\<close> and \<open>strtoul\<close> with base 0: white space, a sign, a prefix that selects the base, digits. The result is
  the value, the rest of the text and whether \<open>errno\<close> became \<open>ERANGE\<close>; without digits the rest is the whole text.\<close>

definition char_code :: "char \<Rightarrow> nat" where "char_code c = of_char c"

definition digit_value :: "char \<Rightarrow> nat" where
  "digit_value c =
     (if 48 \<le> char_code c \<and> char_code c \<le> 57 then char_code c - 48
      else if 97 \<le> char_code c \<and> char_code c \<le> 122 then char_code c - 87
      else if 65 \<le> char_code c \<and> char_code c \<le> 90 then char_code c - 55
      else 36)"

definition is_digit :: "nat \<Rightarrow> char \<Rightarrow> bool" where "is_digit base c = (digit_value c < base)"

definition digits_value :: "nat \<Rightarrow> string \<Rightarrow> nat" where
  "digits_value base ds = foldl (\<lambda>n c. base * n + digit_value c) 0 ds"

definition digits_in :: "nat \<Rightarrow> string \<Rightarrow> (nat \<times> string) option" where
  "digits_in base s =
     (let ds = takeWhile (is_digit base) s in if ds = [] then None else Some (digits_value base ds, drop (length ds) s))"

definition unsigned_text :: "string \<Rightarrow> (nat \<times> string) option" where
  "unsigned_text s =
     (case s of
        c # x # d # s' \<Rightarrow>
          if c = CHR ''0'' \<and> (x = CHR ''x'' \<or> x = CHR ''X'') \<and> is_digit 16 d then digits_in 16 (d # s')
          else if c = CHR ''0'' then digits_in 8 s else digits_in 10 s
      | c # s' \<Rightarrow> if c = CHR ''0'' then digits_in 8 s else digits_in 10 s
      | [] \<Rightarrow> None)"

definition signed_text :: "string \<Rightarrow> (bool \<times> nat \<times> string) option" where
  "signed_text s =
     (case dropWhile hxisspace s of
        c # s' \<Rightarrow> if c = CHR ''-'' then map_option (\<lambda>r. (True, r)) (unsigned_text s')
                  else if c = CHR ''+'' then map_option (\<lambda>r. (False, r)) (unsigned_text s')
                  else map_option (\<lambda>r. (False, r)) (unsigned_text (c # s'))
      | [] \<Rightarrow> None)"

definition long_min :: int where "long_min = - (2 ^ 63)"
definition long_max :: int where "long_max = 2 ^ 63 - 1"
definition ulong_max :: int where "ulong_max = 2 ^ 64 - 1"

definition strtol :: "string \<Rightarrow> int \<times> string \<times> bool" where
  "strtol s =
     (case signed_text s of None \<Rightarrow> (0, s, False)
      | Some (neg, n, rest) \<Rightarrow>
          let v = (if neg then - int n else int n)
          in if v < long_min then (long_min, rest, True) else if v > long_max then (long_max, rest, True) else (v, rest, False))"

definition strtoul :: "string \<Rightarrow> int \<times> string \<times> bool" where
  "strtoul s =
     (case signed_text s of None \<Rightarrow> (0, s, False)
      | Some (neg, n, rest) \<Rightarrow>
          if int n > ulong_max then (ulong_max, rest, True)
          else ((if neg then (ulong_max + 1 - int n) mod (ulong_max + 1) else int n), rest, False))"

section \<open>Arguments\<close>

text \<open>The wrappers return the value and what \<open>next\<close> points to: the start again when the conversion fails.\<close>

definition hxconsole_strtol :: "string \<Rightarrow> int \<Rightarrow> int \<Rightarrow> int \<times> string" where
  "hxconsole_strtol str lo hi =
     (let (v, nxt, erange) = strtol str in (v, if erange \<or> v < lo \<or> v > hi then str else nxt))"

definition hxconsole_strtoll :: "string \<Rightarrow> int \<times> string" where
  "hxconsole_strtoll str = (let (v, nxt, erange) = strtol str in (v, if erange then str else nxt))"

definition minus_next :: "string \<Rightarrow> bool" where
  "minus_next p = (case p of [] \<Rightarrow> False | c # _ \<Rightarrow> c = CHR ''-'')"

definition hxconsole_strtoul :: "string \<Rightarrow> int \<Rightarrow> int \<times> string" where
  "hxconsole_strtoul str hi =
     (let p = dropWhile hxisspace str
      in if minus_next p then (0, str)
         else let (v, nxt, erange) = strtoul str in (v, if erange \<or> v > hi then str else nxt))"

definition hxconsole_strtoull :: "string \<Rightarrow> int \<times> string" where
  "hxconsole_strtoull str =
     (let p = dropWhile hxisspace str
      in if minus_next p then (0, str)
         else let (v, nxt, erange) = strtoul str in (v, if erange then str else nxt))"

text \<open>\<open>strtof\<close> and \<open>strtod\<close>: the precision, the text, and value, rest and \<open>ERANGE\<close>.\<close>

type_synonym 'f strto_fp = "bool \<Rightarrow> string \<Rightarrow> 'f \<times> string \<times> bool"

definition hxconsole_strtofp :: "'f strto_fp \<Rightarrow> bool \<Rightarrow> string \<Rightarrow> 'f \<times> string" where
  "hxconsole_strtofp fp double str = (let (v, nxt, erange) = fp double str in (v, if erange then str else nxt))"

datatype arg_type = Arg_float | Arg_double | Arg_char | Arg_bool | Arg_schar | Arg_short | Arg_int | Arg_long | Arg_llong
  | Arg_uchar | Arg_ushort | Arg_uint | Arg_ulong | Arg_ullong | Arg_str

datatype 'f arg_value = Int_val int | Bool_val bool | Float_val 'f | Str_val string

definition retype :: "('a \<Rightarrow> 'b) \<Rightarrow> 'a \<times> string \<Rightarrow> 'b \<times> string" where
  "retype f r = (f (fst r), snd r)"

lemma retype_iff [simp]: "retype f r = (v, nxt) \<longleftrightarrow> (\<exists>x. r = (x, nxt) \<and> v = f x)"
  by (cases r) (auto simp: retype_def)

text \<open>The specializations of \<open>hxconsole_parse_arg_\<close>, for the 64-bit target with signed \<open>char\<close>.\<close>

fun console_parse_arg :: "'f strto_fp \<Rightarrow> arg_type \<Rightarrow> string \<Rightarrow> 'f arg_value \<times> string" where
  "console_parse_arg fp Arg_float s = retype Float_val (hxconsole_strtofp fp False s)"
| "console_parse_arg fp Arg_double s = retype Float_val (hxconsole_strtofp fp True s)"
| "console_parse_arg fp Arg_char s = retype Int_val (hxconsole_strtol s (-128) 127)"
| "console_parse_arg fp Arg_bool s = retype (\<lambda>v. Bool_val (v \<noteq> 0)) (hxconsole_strtol s 0 1)"
| "console_parse_arg fp Arg_schar s = retype Int_val (hxconsole_strtol s (-128) 127)"
| "console_parse_arg fp Arg_short s = retype Int_val (hxconsole_strtol s (-32768) 32767)"
| "console_parse_arg fp Arg_int s = retype Int_val (hxconsole_strtol s (-2147483648) 2147483647)"
| "console_parse_arg fp Arg_long s = retype Int_val (hxconsole_strtol s long_min long_max)"
| "console_parse_arg fp Arg_llong s = retype Int_val (hxconsole_strtoll s)"
| "console_parse_arg fp Arg_uchar s = retype Int_val (hxconsole_strtoul s 255)"
| "console_parse_arg fp Arg_ushort s = retype Int_val (hxconsole_strtoul s 65535)"
| "console_parse_arg fp Arg_uint s = retype Int_val (hxconsole_strtoul s 4294967295)"
| "console_parse_arg fp Arg_ulong s = retype Int_val (hxconsole_strtoul s ulong_max)"
| "console_parse_arg fp Arg_ullong s = retype Int_val (hxconsole_strtoull s)"
| "console_parse_arg fp Arg_str s = (Str_val (dropWhile hxisspace s), [])"

fun console_arg_label :: "arg_type \<Rightarrow> string" where
  "console_arg_label Arg_float = ''f32''"
| "console_arg_label Arg_double = ''f64''"
| "console_arg_label Arg_char = ''char''"
| "console_arg_label Arg_bool = ''bool''"
| "console_arg_label Arg_schar = ''i8''"
| "console_arg_label Arg_uchar = ''u8''"
| "console_arg_label Arg_short = ''i16''"
| "console_arg_label Arg_ushort = ''u16''"
| "console_arg_label Arg_int = ''i32''"
| "console_arg_label Arg_uint = ''u32''"
| "console_arg_label Arg_long = ''i64''"
| "console_arg_label Arg_ulong = ''u64''"
| "console_arg_label Arg_llong = ''i64''"
| "console_arg_label Arg_ullong = ''u64''"
| "console_arg_label Arg_str = ''char*''"

section \<open>Commands\<close>

definition console_is_end_of_line :: "string \<Rightarrow> bool" where
  "console_is_end_of_line str = (case dropWhile hxisspace str of [] \<Rightarrow> True | c # _ \<Rightarrow> c = CHR ''#'')"

text \<open>The recursion over the argument types: the parsed arguments to call the function with, or a parse error.\<close>

fun console_call :: "'f strto_fp \<Rightarrow> arg_type list \<Rightarrow> string \<Rightarrow> 'f arg_value list \<Rightarrow> 'f arg_value list option" where
  "console_call fp [] str parsed = (if console_is_end_of_line str then Some parsed else None)"
| "console_call fp (t # ts) str parsed =
     (let (v, nxt) = console_parse_arg fp t str
      in if t = Arg_str then console_call fp ts nxt (parsed @ [v])
         else if length nxt < length str then console_call fp ts nxt (parsed @ [v]) else None)"

text \<open>A command is a function with its argument types or a variable with its type and the assignment to it.\<close>

datatype ('f, 'w) console_command =
    Console_fn "arg_type list" "'f arg_value list \<Rightarrow> 'w \<Rightarrow> 'w \<times> bool option"
  | Console_var arg_type "'f arg_value \<Rightarrow> 'w \<Rightarrow> 'w"

definition console_execute_fn ::
  "'f strto_fp \<Rightarrow> arg_type list \<Rightarrow> ('f arg_value list \<Rightarrow> 'w \<Rightarrow> 'w \<times> bool option) \<Rightarrow> string \<Rightarrow> 'w \<Rightarrow> 'w \<times> bool option" where
  "console_execute_fn fp ts fn str w =
     (case console_call fp ts str [] of None \<Rightarrow> (w, Some False) | Some vs \<Rightarrow> fn vs w)"

definition console_variable_execute ::
  "'f strto_fp \<Rightarrow> arg_type \<Rightarrow> ('f arg_value \<Rightarrow> 'w \<Rightarrow> 'w) \<Rightarrow> string \<Rightarrow> 'w \<Rightarrow> 'w \<times> bool option" where
  "console_variable_execute fp t assign str w =
     (if console_is_end_of_line str then (w, Some True)
      else let (v, nxt) = console_parse_arg fp t str
           in if length nxt < length str \<and> console_is_end_of_line nxt then (assign v w, Some True) else (w, Some False))"

fun console_execute :: "'f strto_fp \<Rightarrow> ('f, 'w) console_command \<Rightarrow> string \<Rightarrow> 'w \<Rightarrow> 'w \<times> bool option" where
  "console_execute fp (Console_fn ts fn) str w = console_execute_fn fp ts fn str w"
| "console_execute fp (Console_var t assign) str w = console_variable_execute fp t assign str w"

text \<open>The words of the usage text after the name.\<close>

fun console_labels :: "('f, 'w) console_command \<Rightarrow> string list" where
  "console_labels (Console_fn ts fn) = map console_arg_label ts"
| "console_labels (Console_var t assign) = [''<optional-value>'']"

definition console_usage :: "('f, 'w) console_command \<Rightarrow> string option \<Rightarrow> string" where
  "console_usage cmd name =
     (case name of Some n \<Rightarrow> n | None \<Rightarrow> ''usage_error:'') @ concat (map (\<lambda>l. '' '' @ l) (console_labels cmd)) @ [CHR 0x0a]"

section \<open>The command table\<close>

text \<open>A \<open>char\<close> is signed, so it is extended with its sign.\<close>

definition char_sext :: "char \<Rightarrow> u32" where
  "char_sext c = (if char_code c < 128 then word_of_nat (char_code c) else word_of_int (int (char_code c) - 256))"

fun console_hash_loop :: "hxhash_t \<Rightarrow> string \<Rightarrow> hxhash_t" where
  "console_hash_loop x [] = x"
| "console_hash_loop x (c # cs) = (if hxisgraph c then console_hash_loop ((x XOR char_sext c) * 0x01000193) cs else x)"

definition console_key_hash :: "string \<Rightarrow> hxhash_t" where
  "console_key_hash k = console_hash_loop 0x811c9dc5 k"

definition graph_next :: "string \<Rightarrow> bool" where
  "graph_next p = (case p of [] \<Rightarrow> False | c # _ \<Rightarrow> hxisgraph c)"

fun console_key_equal :: "string \<Rightarrow> string \<Rightarrow> bool" where
  "console_key_equal (a # as) (b # bs) =
     (if hxisgraph a \<and> a = b then console_key_equal as bs else \<not> hxisgraph a \<and> \<not> hxisgraph b)"
| "console_key_equal as bs = (\<not> graph_next as \<and> \<not> graph_next bs)"

definition console_traits :: "string hash_traits" where
  "console_traits = \<lparr>trait_multi = False, trait_three_way = False, tr_key_equal = console_key_equal,
     tr_key_three_way = hxkey_three_way_str, tr_hash = console_key_hash\<rparr>"

definition hxconsole_commands :: hxhash_table where
  "hxconsole_commands = hxhash_table_new 3"

definition console_node_new :: "string \<Rightarrow> string hash_node hx" where
  "console_node_new key =
     (if dropWhile hxisgraph key = [] then Inr (hash_node_new console_traits key) else Inl (Assert_debug ''bad_glyph in name''))"

text \<open>Registration returns the node that was replaced, or null.\<close>

definition hxconsole_register :: "string hash_state \<Rightarrow> hash_addr \<Rightarrow> (hash_addr \<times> string hash_state) run" where
  "hxconsole_register s node = hash_replace console_traits s node"

definition hxconsole_deregister :: "string hash_state \<Rightarrow> string \<Rightarrow> (hxsize_t \<times> string hash_state \<times> hash_addr list) run" where
  "hxconsole_deregister s name = hash_release_key console_traits s name"

text \<open>\<open>cmds\<close> is the \<open>m_command_\<close> member of the nodes. A false result is logged.\<close>

definition hxconsole_exec_line ::
  "'f strto_fp \<Rightarrow> (hash_addr \<Rightarrow> ('f, 'w) console_command) \<Rightarrow> string hash_state \<Rightarrow> string \<Rightarrow> 'w \<Rightarrow> ('w \<times> bool) run" where
  "hxconsole_exec_line fp cmds s command w =
     (let pos = dropWhile hxisspace command
      in if console_is_end_of_line pos then Some (Inr (w, True))
         else run_bind (hash_find console_traits s pos hash_end) (\<lambda>node.
           if hash_iterator_eq node hash_end then Some (Inr (w, False))
           else run_bind (Some (hash_iterator_deref node)) (\<lambda>n.
             let (w1, result) = console_execute fp (cmds n) (dropWhile hxisgraph pos) w
             in Some (Inr (w1, result = Some True)))))"

section \<open>Help\<close>

definition strncmp_eq :: "string \<Rightarrow> string \<Rightarrow> bool" where
  "strncmp_eq s prefix = (take (length prefix) s = prefix)"

definition hxconsole_less :: "string nodes \<Rightarrow> hash_addr \<Rightarrow> hash_addr \<Rightarrow> bool" where
  "hxconsole_less m a b = hxkey_less_str (hash_key (m a)) (hash_key (m b))"

text \<open>The usage lines in the order of the names; the test symbols are skipped.\<close>

definition hxconsole_help :: "(hash_addr \<Rightarrow> ('f, 'w) console_command) \<Rightarrow> string hash_state \<Rightarrow> string list run" where
  "hxconsole_help cmds s =
     run_bind (Some (hash_begin s)) (\<lambda>it. run_bind (hash_visit s it []) (\<lambda>nodes.
       let listed = filter (\<lambda>n. \<not> (strncmp_eq (hash_key (fst s n)) ''hxconsole_test'' \<or> strncmp_eq (hash_key (fst s n)) ''hxs_console_test'')) nodes;
           sorted = hxinsertion_sort (hxconsole_less (fst s)) listed 0 (length listed)
       in Some (Inr (map (\<lambda>n. console_usage (cmds n) (Some (hash_key (fst s n)))) sorted))))"

section \<open>Files\<close>

definition hx_max_line :: nat where "hx_max_line = 2048"

text \<open>\<open>hxfile::read\<close> of a file whose remaining bytes are \<open>content\<close>: as many bytes as there are, failing when that is not enough.\<close>

record input_file =
  if_content :: string
  if_fail :: bool

definition file_read :: "input_file \<Rightarrow> nat \<Rightarrow> string \<times> input_file" where
  "file_read f want =
     (let got = take want (if_content f)
      in (got, \<lparr>if_content = drop want (if_content f), if_fail = (if_fail f \<or> length got \<noteq> want)\<rparr>))"

text \<open>\<open>memchr\<close> between two indices of the buffer.\<close>

definition find_newline :: "string \<Rightarrow> nat \<Rightarrow> nat \<Rightarrow> nat option" where
  "find_newline buf scan fin =
     (let k = length (takeWhile (\<lambda>c. c \<noteq> CHR 0x0a) (drop scan (take fin buf)))
      in if scan + k < fin then Some (scan + k) else None)"

text \<open>A C string read at an index of the buffer must end inside the buffer.\<close>

definition read_c_str :: "string \<Rightarrow> nat \<Rightarrow> string hx" where
  "read_c_str buf i =
     (if CHR 0x00 \<in> set (drop i buf) then Inr (c_str (drop i buf)) else Inl (Undefined_behavior ''unterminated string''))"

definition write_char :: "string \<Rightarrow> nat \<Rightarrow> char \<Rightarrow> string hx" where
  "write_char buf i c = (if i < length buf then Inr (buf[i := c]) else Inl (Undefined_behavior ''buffer overrun''))"

type_synonym 'w exec_fn = "string \<Rightarrow> 'w \<Rightarrow> ('w \<times> bool) run"

definition exec_buffer :: "'w exec_fn \<Rightarrow> string \<Rightarrow> nat \<Rightarrow> 'w \<Rightarrow> ('w \<times> bool) run" where
  "exec_buffer exec buf i w = run_bind (Some (read_c_str buf i)) (\<lambda>line. exec line w)"

text \<open>The inner loop over the complete lines of the buffer: the buffer, the start of the line, the position of the search.\<close>

partial_function (option) exec_lines ::
  "'w exec_fn \<Rightarrow> string \<Rightarrow> nat \<Rightarrow> nat \<Rightarrow> nat \<Rightarrow> 'w \<Rightarrow> bool \<Rightarrow> (string \<times> nat \<times> 'w \<times> bool) run" where
  "exec_lines exec buf line_begin scan fin w result =
     (if result
      then case find_newline buf scan fin of
          None \<Rightarrow> Some (Inr (buf, line_begin, w, result))
        | Some newline \<Rightarrow>
            run_bind (Some (write_char buf newline (CHR 0x00))) (\<lambda>buf1.
            run_bind (exec_buffer exec buf1 line_begin w) (\<lambda>(w1, result1).
              exec_lines exec buf1 (newline + 1) (newline + 1) fin w1 result1))
      else Some (Inr (buf, line_begin, w, result)))"

definition store_bytes :: "string \<Rightarrow> nat \<Rightarrow> string \<Rightarrow> string hx" where
  "store_bytes buf i bs =
     (if i + length bs \<le> length buf then Inr (take i buf @ bs @ drop (i + length bs) buf) else Inl (Undefined_behavior ''buffer overrun''))"

partial_function (option) exec_file_loop :: "'w exec_fn \<Rightarrow> string \<Rightarrow> nat \<Rightarrow> input_file \<Rightarrow> 'w \<Rightarrow> bool \<Rightarrow> ('w \<times> bool) run" where
  "exec_file_loop exec buf carried f w result =
     (if result \<and> \<not> if_fail f
      then let want = hx_max_line - 1 - carried; (bytes, f1) = file_read f want; fin = carried + length bytes
           in run_bind (Some (store_bytes buf carried bytes)) (\<lambda>buf1.
              run_bind (exec_lines exec buf1 0 carried fin w result) (\<lambda>(buf2, line_begin, w2, result2).
              let carried2 = fin - line_begin
              in if if_fail f1 \<or> carried2 \<ge> hx_max_line - 1
                 then run_bind
                   (if result2 \<and> carried2 \<noteq> 0
                    then run_bind (Some (write_char buf2 fin (CHR 0x00))) (\<lambda>buf3.
                         run_bind (exec_buffer exec buf3 line_begin w2) (\<lambda>(w3, result3). Some (Inr (buf3, w3, result3))))
                    else Some (Inr (buf2, w2, result2)))
                   (\<lambda>(buf3, w3, result3).
                     if if_fail f1 then Some (Inr (w3, result3)) else exec_file_loop exec buf3 0 f1 w3 result3)
                 else exec_file_loop exec (take carried2 (drop line_begin buf2) @ drop carried2 buf2) carried2 f1 w2 result2))
      else Some (Inr (w, result)))"

text \<open>The buffer is not initialized; its contents are an argument.\<close>

definition hxconsole_exec_file :: "'w exec_fn \<Rightarrow> string \<Rightarrow> input_file \<Rightarrow> 'w \<Rightarrow> ('w \<times> bool) run" where
  "hxconsole_exec_file exec line_buf f w = exec_file_loop exec line_buf 0 f w True"

definition hxconsole_exec_filename :: "'w exec_fn \<Rightarrow> string \<Rightarrow> input_file option \<Rightarrow> 'w \<Rightarrow> ('w \<times> bool) run" where
  "hxconsole_exec_filename exec line_buf opened w =
     (case opened of Some f \<Rightarrow> hxconsole_exec_file exec line_buf f w | None \<Rightarrow> Some (Inr (w, False)))"


section \<open>Types of arguments\<close>

fun arg_range :: "arg_type \<Rightarrow> (int \<times> int) option" where
  "arg_range Arg_char = Some (-128, 127)"
| "arg_range Arg_schar = Some (-128, 127)"
| "arg_range Arg_short = Some (-32768, 32767)"
| "arg_range Arg_int = Some (-2147483648, 2147483647)"
| "arg_range Arg_long = Some (long_min, long_max)"
| "arg_range Arg_llong = Some (long_min, long_max)"
| "arg_range Arg_uchar = Some (0, 255)"
| "arg_range Arg_ushort = Some (0, 65535)"
| "arg_range Arg_uint = Some (0, 4294967295)"
| "arg_range Arg_ulong = Some (0, ulong_max)"
| "arg_range Arg_ullong = Some (0, ulong_max)"
| "arg_range t = None"

fun value_has_type :: "arg_type \<Rightarrow> 'f arg_value \<Rightarrow> bool" where
  "value_has_type t (Int_val n) = (case arg_range t of Some (lo, hi) \<Rightarrow> lo \<le> n \<and> n \<le> hi | None \<Rightarrow> False)"
| "value_has_type t (Bool_val b) = (t = Arg_bool)"
| "value_has_type t (Float_val f) = (t = Arg_float \<or> t = Arg_double)"
| "value_has_type t (Str_val s) = (t = Arg_str)"

lemma hxconsole_strtol_range:
  "hxconsole_strtol s lo hi = (v, nxt) \<Longrightarrow> length nxt < length s \<Longrightarrow> lo \<le> v \<and> v \<le> hi"
  by (auto simp: hxconsole_strtol_def split: prod.splits if_splits)

lemma hxconsole_strtoll_range:
  "hxconsole_strtoll s = (v, nxt) \<Longrightarrow> length nxt < length s \<Longrightarrow> long_min \<le> v \<and> v \<le> long_max"
  by (auto simp: hxconsole_strtoll_def strtol_def Let_def split: prod.splits if_splits option.splits)

lemma strtoul_range: "strtoul s = (v, nxt, e) \<Longrightarrow> 0 \<le> v \<and> v \<le> ulong_max"
proof -
  have "0 \<le> x mod (ulong_max + 1) \<and> x mod (ulong_max + 1) \<le> ulong_max" for x
    using pos_mod_bound [of "ulong_max + 1" x] pos_mod_sign [of "ulong_max + 1" x] by (auto simp: ulong_max_def)
  thus "strtoul s = (v, nxt, e) \<Longrightarrow> 0 \<le> v \<and> v \<le> ulong_max"
    by (auto simp: strtoul_def Let_def ulong_max_def split: option.splits prod.splits if_splits)
qed

lemma hxconsole_strtoul_range:
  "hxconsole_strtoul s hi = (v, nxt) \<Longrightarrow> length nxt < length s \<Longrightarrow> 0 \<le> v \<and> v \<le> hi"
  by (auto simp: hxconsole_strtoul_def Let_def split: prod.splits if_splits dest: strtoul_range)

lemma hxconsole_strtoull_range:
  "hxconsole_strtoull s = (v, nxt) \<Longrightarrow> length nxt < length s \<Longrightarrow> 0 \<le> v \<and> v \<le> ulong_max"
  by (auto simp: hxconsole_strtoull_def Let_def split: prod.splits if_splits dest: strtoul_range)

lemmas conversion_ranges = hxconsole_strtol_range hxconsole_strtoll_range hxconsole_strtoul_range hxconsole_strtoull_range

lemma console_parse_typed:
  assumes "console_parse_arg fp t s = (v, nxt)" and "t = Arg_str \<or> length nxt < length s"
  shows "value_has_type t v"
  using assms by (cases t) (auto dest: conversion_ranges)

lemma console_call_typed:
  "console_call fp ts s parsed = Some vs \<Longrightarrow> \<exists>us. vs = parsed @ us \<and> list_all2 value_has_type ts us"
proof (induction ts arbitrary: s parsed)
  case (Cons t ts)
  obtain v nxt where p: "console_parse_arg fp t s = (v, nxt)" by fastforce
  have ok: "t = Arg_str \<or> length nxt < length s" and rest: "console_call fp ts nxt (parsed @ [v]) = Some vs"
    using Cons.prems p by (auto simp: Let_def split: if_splits)
  from Cons.IH [OF rest] console_parse_typed [OF p ok] show ?case by auto
qed (auto split: if_splits)

section \<open>Decimal text\<close>

fun decimal :: "nat \<Rightarrow> string" where
  "decimal n = (if n < 10 then [char_of (48 + n)] else decimal (n div 10) @ [char_of (48 + n mod 10)])"

declare decimal.simps [simp del]

definition int_text :: "int \<Rightarrow> string" where
  "int_text n = (if n < 0 then CHR ''-'' # decimal (nat (- n)) else decimal (nat n))"

lemma char_code_digit: "d < 10 \<Longrightarrow> char_code (char_of (48 + d)) = 48 + d"
  by (simp add: char_code_def of_char_of)

lemma digit_value_digit: "d < 10 \<Longrightarrow> digit_value (char_of (48 + d)) = d"
  by (simp add: digit_value_def char_code_digit)

lemma is_digit_digit: "(d :: nat) < 10 \<Longrightarrow> is_digit 10 (char_of (48 + d))"
  by (simp add: is_digit_def digit_value_digit)

lemma decimal_digits: "list_all (is_digit 10) (decimal n)"
proof (induction n rule: decimal.induct)
  case (1 n)
  thus ?case by (cases "n < 10") (subst decimal.simps, simp add: is_digit_digit)+
qed

lemma decimal_value: "digits_value 10 (decimal n) = n"
proof (induction n rule: decimal.induct)
  case (1 n)
  show ?case
  proof (cases "n < 10")
    case False
    hence "digits_value 10 (decimal (n div 10)) = n div 10" by (rule 1)
    thus ?thesis using False by (subst decimal.simps) (simp add: digits_value_def digit_value_digit)
  qed (subst decimal.simps, simp add: digits_value_def digit_value_digit)
qed

lemma decimal_nonempty: "decimal n \<noteq> []"
  by (subst decimal.simps) simp

lemma decimal_head:
  "0 < n \<Longrightarrow> hd (decimal n) \<noteq> CHR ''0''"
proof (induction n rule: decimal.induct)
  case (1 n)
  show ?case
  proof (cases "n < 10")
    case True
    have "char_of (48 + n) \<noteq> CHR ''0''"
    proof
      assume "char_of (48 + n) = CHR ''0''"
      from arg_cong [OF this, of char_code] have "48 + n = char_code (CHR ''0'')" unfolding char_code_digit [OF True] .
      thus False using 1(2) by (simp add: char_code_def)
    qed
    thus ?thesis using True by (subst decimal.simps) simp
  next
    case False
    have "hd (decimal (n div 10)) \<noteq> CHR ''0''" using 1(1) [OF False] False by simp
    thus ?thesis using False decimal_nonempty [of "n div 10"] by (subst decimal.simps) simp
  qed
qed

text \<open>The text stops where no digit of any base follows.\<close>

definition ends_number :: "string \<Rightarrow> bool" where
  "ends_number s = (case s of [] \<Rightarrow> True | c # _ \<Rightarrow> digit_value c = 36)"

lemma ends_number_takeWhile: "ends_number s \<Longrightarrow> b \<le> 36 \<Longrightarrow> takeWhile (is_digit b) s = []"
  by (cases s) (auto simp: ends_number_def is_digit_def)

lemma digits_in_decimal:
  assumes "ends_number rest"
  shows "digits_in 10 (decimal n @ rest) = Some (n, rest)"
proof -
  have "takeWhile (is_digit 10) (decimal n @ rest) = decimal n"
    using decimal_digits [of n] ends_number_takeWhile [OF assms, of 10] by (simp add: takeWhile_append2 list_all_iff)
  thus ?thesis using decimal_nonempty by (simp add: digits_in_def decimal_value)
qed

lemma unsigned_text_decimal:
  assumes "ends_number rest"
  shows "unsigned_text (decimal n @ rest) = Some (n, rest)"
proof (cases "n = 0")
  case True
  have z: "decimal 0 = ''0''" by (subst decimal.simps) (simp add: char_of_def bit_nat_def)
  have oct: "digits_in 8 (CHR ''0'' # rest) = Some (0, rest)"
    using ends_number_takeWhile [OF assms, of 8] by (simp add: digits_in_def digits_value_def is_digit_def digit_value_def char_code_def)
  show ?thesis
  proof (cases rest)
    case (Cons x ys)
    have "x \<noteq> CHR ''x''" "x \<noteq> CHR ''X''" using assms Cons by (auto simp: ends_number_def digit_value_def char_code_def)
    thus ?thesis using oct unfolding True z Cons by (cases ys) (simp_all add: unsigned_text_def)
  qed (use oct in \<open>simp add: True z unsigned_text_def\<close>)
next
  case False
  obtain c cs where d: "decimal n = c # cs" using decimal_nonempty by (cases "decimal n") auto
  hence c: "c \<noteq> CHR ''0''" using decimal_head [of n] False by simp
  show ?thesis using digits_in_decimal [OF assms, of n] c by (auto simp: unsigned_text_def d split: list.splits)
qed


lemma char_u32_code: "char_u32 c = word_of_nat (char_code c)" by (simp add: char_u32_def char_code_def)

lemma char_code_less: "char_code c < 256" by (simp add: char_code_def)

lemma unat_char_u32: "unat (char_u32 c) = char_code c"
  using char_code_less [of c] unfolding char_u32_code by (simp add: unat_of_nat)

lemma hxisspace_code: "hxisspace c \<Longrightarrow> char_code c = 32 \<or> (9 \<le> char_code c \<and> char_code c \<le> 13)"
proof -
  assume "hxisspace c"
  then consider "c = CHR '' ''" | "char_u32 c - 9 < 5" by (auto simp: hxisspace_def)
  thus ?thesis
  proof cases
    case 2
    have "9 \<le> char_code c"
    proof (rule ccontr)
      assume "\<not> 9 \<le> char_code c"
      hence less: "char_code c < 9" by simp
      have "unat (char_u32 c - 9) = 2 ^ 32 + char_code c - 9"
        using less by (simp add: unat_sub_if' unat_char_u32)
      thus False using 2 by (simp add: word_less_nat_alt)
    qed
    moreover from this have "unat (char_u32 c - 9) = char_code c - 9" by (simp add: unat_sub_if' unat_char_u32)
    hence "char_code c - 9 < 5" using 2 by (simp add: word_less_nat_alt)
    ultimately show ?thesis by linarith
  qed (simp add: char_code_def)
qed

lemma digit_not_space: "digit_value c < 36 \<Longrightarrow> \<not> hxisspace c"
  using hxisspace_code [of c] by (auto simp: digit_value_def)

lemma decimal_first:
  obtains c cs where "decimal n = c # cs" "\<not> hxisspace c" "c \<noteq> CHR ''-''" "c \<noteq> CHR ''+''"
proof -
  obtain c cs where d: "decimal n = c # cs" using decimal_nonempty by (cases "decimal n") auto
  hence "digit_value c < 10" using decimal_digits [of n] by (simp add: is_digit_def)
  thus thesis using d digit_not_space [of c] by (intro that [of c cs]) (auto simp: digit_value_def char_code_def)
qed

lemma signed_text_int:
  assumes sp: "list_all hxisspace blanks" and e: "ends_number rest"
  shows "signed_text (blanks @ int_text n @ rest) = Some (n < 0, nat \<bar>n\<bar>, rest)"
proof (cases "n < 0")
  case True
  have ns: "\<not> hxisspace (CHR ''-'')" by (simp add: hxisspace_def char_u32_def)
  have "dropWhile hxisspace (blanks @ int_text n @ rest) = CHR ''-'' # decimal (nat (- n)) @ rest"
    using True ns sp by (simp add: dropWhile_append2 list_all_iff int_text_def)
  thus ?thesis using True unsigned_text_decimal [OF e] by (simp add: signed_text_def)
next
  case False
  obtain c cs where c: "decimal (nat n) = c # cs" "\<not> hxisspace c" "c \<noteq> CHR ''-''" "c \<noteq> CHR ''+''" by (rule decimal_first)
  have "dropWhile hxisspace (blanks @ int_text n @ rest) = c # cs @ rest"
    using False c sp by (simp add: dropWhile_append2 list_all_iff int_text_def)
  moreover have "unsigned_text (c # cs @ rest) = Some (nat n, rest)" using unsigned_text_decimal [OF e, of "nat n"] c(1) by simp
  ultimately show ?thesis using False c(3,4) by (simp add: signed_text_def)
qed

lemma console_parse_int_text:
  assumes sp: "list_all hxisspace blanks" and e: "ends_number rest" and r: "arg_range t = Some (lo, hi)" "lo \<le> n" "n \<le> hi"
  shows "console_parse_arg fp t (blanks @ int_text n @ rest) = (Int_val n, rest)"
proof -
  let ?s = "blanks @ int_text n @ rest"
  note parse = signed_text_int [OF sp e, of n]
  have sl: "strtol ?s = (n, rest, False)" if "long_min \<le> n" "n \<le> long_max"
    using parse that by (auto simp: strtol_def Let_def)
  have ul: "strtoul ?s = (n, rest, False)" "\<not> minus_next (dropWhile hxisspace ?s)" if "0 \<le> n" "n \<le> ulong_max"
  proof -
    obtain c cs where c: "decimal (nat n) = c # cs" "\<not> hxisspace c" "c \<noteq> CHR ''-''" "c \<noteq> CHR ''+''" by (rule decimal_first)
    show "\<not> minus_next (dropWhile hxisspace ?s)"
      using that c sp by (simp add: dropWhile_append2 list_all_iff int_text_def minus_next_def)
    show "strtoul ?s = (n, rest, False)" using parse that by (auto simp: strtoul_def Let_def)
  qed
  show ?thesis
    using r sl ul
    by (cases t) (auto simp: hxconsole_strtol_def hxconsole_strtoll_def hxconsole_strtoul_def hxconsole_strtoull_def Let_def
        long_min_def long_max_def ulong_max_def)
qed


section \<open>Names\<close>

definition first_word :: "string \<Rightarrow> string" where
  "first_word s = takeWhile hxisgraph s"

lemma console_key_equal_iff: "console_key_equal a b \<longleftrightarrow> first_word a = first_word b"
  by (induction a b rule: console_key_equal.induct) (auto simp: first_word_def graph_next_def split: list.splits)

lemma console_hash_first_word: "console_hash_loop x s = console_hash_loop x (first_word s)"
  by (induction s arbitrary: x) (simp_all add: first_word_def)

interpretation console_key: key_hash console_key_equal console_key_hash
  by unfold_locales (auto simp: console_key_equal_iff console_key_hash_def, metis console_hash_first_word)

lemma tr_equal_console: "tr_equal console_traits = console_key_equal"
  by (intro ext) (simp add: console_traits_def tr_equal_def)

interpretation console_keys: hash_keys console_traits
  unfolding hash_keys_def tr_equal_console by (simp add: console_traits_def console_key.key_hash_axioms)

lemma console_equal: "hxhash_equal console_traits n key \<longleftrightarrow> first_word (hash_key n) = first_word key"
  by (simp add: hxhash_equal_iff tr_equal_console console_key_equal_iff)

text \<open>The table has one node for a name.\<close>

definition console_table :: "string hash_state \<Rightarrow> hash_addr set \<Rightarrow> bool" where
  "console_table s N = (table_holds console_traits s N \<and> inj_on (\<lambda>n. first_word (hash_key (fst s n))) N)"

lemma console_table_new: "console_table (m, hxconsole_commands) {}"
  unfolding console_table_def hxconsole_commands_def by (auto intro!: table_holdsI [OF hxhash_table_new_rel])

lemma end_of_line_skip [simp]: "console_is_end_of_line (dropWhile hxisspace s) = console_is_end_of_line s"
  by (simp add: console_is_end_of_line_def dropWhile_idem)

lemma console_table_find:
  assumes tab: "console_table s N"
  shows "\<exists>it. hash_find console_traits s key hash_end = Some (Inr it) \<and>
    (if \<exists>n\<in>N. first_word (hash_key (fst s n)) = first_word key
     then hi_current it \<in> N \<and> hi_current it \<noteq> 0 \<and> first_word (hash_key (fst s (hi_current it))) = first_word key
     else hi_current it = 0)"
proof -
  obtain css where css: "table_rel console_traits s css" "set (concat css) = N"
    using tab unfolding console_table_def by (blast elim: table_holdsE)
  show ?thesis using hash_find_rel [OF console_keys.hash_keys_axioms css(1), of key] unfolding css(2) console_equal .
qed

text \<open>The first word of a line selects the node.\<close>

lemma exec_line_found:
  assumes tab: "console_table s N" and n: "n \<in> N" "first_word (hash_key (fst s n)) = first_word (dropWhile hxisspace line)"
    and some: "\<not> console_is_end_of_line line"
  shows "hxconsole_exec_line fp cmds s line w =
    (let (w1, result) = console_execute fp (cmds n) (dropWhile hxisgraph (dropWhile hxisspace line)) w
     in Some (Inr (w1, result = Some True)))"
proof -
  have ex: "\<exists>n\<in>N. first_word (hash_key (fst s n)) = first_word (dropWhile hxisspace line)" using n by blast
  obtain it where it: "hash_find console_traits s (dropWhile hxisspace line) hash_end = Some (Inr it)"
    "hi_current it \<in> N" "hi_current it \<noteq> 0" "first_word (hash_key (fst s (hi_current it))) = first_word (dropWhile hxisspace line)"
    using console_table_find [OF tab, of "dropWhile hxisspace line"] unfolding if_P [OF ex] by blast
  have "hi_current it = n"
    using tab it(2,4) n unfolding console_table_def inj_on_def by metis
  thus ?thesis using it some
    by (simp add: hxconsole_exec_line_def Let_def hash_iterator_eq_def hash_end_def hash_iterator_deref_def)
qed

lemma exec_line_unknown:
  assumes tab: "console_table s N" and none: "\<And>n. n \<in> N \<Longrightarrow> first_word (hash_key (fst s n)) \<noteq> first_word (dropWhile hxisspace line)"
    and some: "\<not> console_is_end_of_line line"
  shows "hxconsole_exec_line fp cmds s line w = Some (Inr (w, False))"
proof -
  obtain it where it: "hash_find console_traits s (dropWhile hxisspace line) hash_end = Some (Inr it)" "hi_current it = 0"
    using console_table_find [OF tab, of "dropWhile hxisspace line"] none by auto
  thus ?thesis using some by (simp add: hxconsole_exec_line_def Let_def hash_iterator_eq_def hash_end_def)
qed

lemma exec_line_blank: "console_is_end_of_line line \<Longrightarrow> hxconsole_exec_line fp cmds s line w = Some (Inr (w, True))"
  by (simp add: hxconsole_exec_line_def Let_def)

text \<open>So a line always returns.\<close>

lemma exec_line_returns:
  assumes "console_table s N"
  shows "\<exists>r. hxconsole_exec_line fp cmds s line w = Some (Inr r)"
proof (cases "console_is_end_of_line line")
  case False
  show ?thesis
  proof (cases "\<exists>n\<in>N. first_word (hash_key (fst s n)) = first_word (dropWhile hxisspace line)")
    case True
    then obtain n where n: "n \<in> N" "first_word (hash_key (fst s n)) = first_word (dropWhile hxisspace line)" by blast
    show ?thesis unfolding exec_line_found [OF assms n False] by (simp add: Let_def split: prod.splits)
  next
    case none: False
    have "hxconsole_exec_line fp cmds s line w = Some (Inr (w, False))"
      by (rule exec_line_unknown [OF assms _ False]) (use none in blast)
    thus ?thesis by blast
  qed
next
  case True
  thus ?thesis by (intro exI) (rule exec_line_blank)
qed

lemma console_register_table:
  assumes tab: "console_table s N" and node: "node \<noteq> 0" "node \<notin> N"
    and val: "hash_val (fst s node) = tr_hash console_traits (hash_key (fst s node))"
  shows "\<exists>r s1. hxconsole_register s node = Some (Inr (r, s1)) \<and> console_table s1 (insert node (N - {r})) \<and>
    (\<forall>a. hash_key (fst s1 a) = hash_key (fst s a)) \<and>
    (if \<exists>n\<in>N. first_word (hash_key (fst s n)) = first_word (hash_key (fst s node))
     then r \<in> N \<and> first_word (hash_key (fst s r)) = first_word (hash_key (fst s node)) else r = 0)"
proof -
  have holds: "table_holds console_traits s N" and inj: "inj_on (\<lambda>n. first_word (hash_key (fst s n))) N"
    using tab by (auto simp: console_table_def)
  obtain r s1 where r: "hash_replace console_traits s node = Some (Inr (r, s1))"
    "table_holds console_traits s1 (insert node (N - {r}))"
    "if \<exists>n\<in>N. first_word (hash_key (fst s n)) = first_word (hash_key (fst s node))
     then r \<in> N \<and> first_word (hash_key (fst s r)) = first_word (hash_key (fst s node)) else r = 0"
    "\<forall>a. same_node (fst s) (fst s1) a"
    using hash_replace_holds [OF console_keys.hash_keys_axioms holds node val] unfolding console_equal by blast
  have key: "hash_key (fst s1 a) = hash_key (fst s a)" for a using r(4) by (simp add: same_node_def)
  have other: "first_word (hash_key (fst s n)) \<noteq> first_word (hash_key (fst s node))" if n: "n \<in> N - {r}" for n
  proof
    assume eq: "first_word (hash_key (fst s n)) = first_word (hash_key (fst s node))"
    have ex: "\<exists>n\<in>N. first_word (hash_key (fst s n)) = first_word (hash_key (fst s node))" using eq n by blast
    have "r \<in> N \<and> first_word (hash_key (fst s r)) = first_word (hash_key (fst s node))"
      using r(3) unfolding if_P [OF ex] by blast
    hence "n = r" using inj eq n unfolding inj_on_def by auto
    thus False using n by blast
  qed
  have "first_word (hash_key (fst s node)) \<notin> (\<lambda>n. first_word (hash_key (fst s n))) ` (N - {r} - {node})"
  proof
    assume "first_word (hash_key (fst s node)) \<in> (\<lambda>n. first_word (hash_key (fst s n))) ` (N - {r} - {node})"
    then obtain n where "n \<in> N - {r}" "first_word (hash_key (fst s node)) = first_word (hash_key (fst s n))" by blast
    thus False using other [of n] by simp
  qed
  hence "inj_on (\<lambda>n. first_word (hash_key (fst s n))) (insert node (N - {r}))"
    unfolding inj_on_insert using inj_on_diff [OF inj, of "{r}"] by blast
  hence "console_table s1 (insert node (N - {r}))" using r(2) by (simp add: console_table_def key)
  thus ?thesis using r(1,3) key unfolding hxconsole_register_def by blast
qed

lemma console_deregister_table:
  assumes tab: "console_table s N" and n: "n \<in> N" "first_word (hash_key (fst s n)) = first_word name"
  shows "\<exists>s1. hxconsole_deregister s name = Some (Inr (1, s1, [])) \<and> console_table s1 (N - {n}) \<and>
    (\<forall>a\<in>N - {n}. hash_key (fst s1 a) = hash_key (fst s a))"
proof -
  have holds: "table_holds console_traits s N" and inj: "inj_on (\<lambda>n. first_word (hash_key (fst s n))) N"
    using tab by (auto simp: console_table_def)
  have m: "matching console_traits s name N = {n}"
    using inj n unfolding matching_def console_equal inj_on_def by fastforce
  obtain cnt s1 log where r: "hash_erase_key console_traits None s name = Some (Inr (cnt, s1, log))" "cnt = 1"
    "table_holds console_traits s1 (N - {n})" "log = []" "\<forall>a\<in>N - {n}. same_node (fst s) (fst s1) a"
    using hash_erase_key_holds [OF console_keys.hash_keys_axioms holds, of None name] unfolding m by auto
  have key: "\<forall>a\<in>N - {n}. hash_key (fst s1 a) = hash_key (fst s a)" using r(5) by (auto simp: same_node_def)
  have "inj_on (\<lambda>n. first_word (hash_key (fst s1 n))) (N - {n})"
    using inj_on_diff [OF inj, of "{n}"] key by (auto simp: inj_on_def)
  thus ?thesis using r key unfolding hxconsole_deregister_def hash_release_key_def console_table_def by auto
qed


section \<open>Lines of a file\<close>

function split_lines :: "string \<Rightarrow> string list" where
  "split_lines s =
     (let l = takeWhile (\<lambda>c. c \<noteq> CHR 0x0a) s
      in if length l < length s then l # split_lines (drop (length l + 1) s) else if l = [] then [] else [l])"
  by pat_completeness auto
termination by (relation "measure length") auto

declare split_lines.simps [simp del]

text \<open>Run the lines in order up to the first that fails.\<close>

fun run_lines :: "(string \<Rightarrow> 'w \<Rightarrow> 'w \<times> bool) \<Rightarrow> string list \<Rightarrow> 'w \<Rightarrow> 'w \<times> bool" where
  "run_lines ex [] w = (w, True)"
| "run_lines ex (l # ls) w = (case ex (c_str l) w of (w1, r) \<Rightarrow> if r then run_lines ex ls w1 else (w1, False))"

lemma split_lines_line:
  assumes "CHR 0x0a \<notin> set l"
  shows "split_lines (l @ CHR 0x0a # s) = l # split_lines s" and "split_lines l = (if l = [] then [] else [l])"
proof -
  have t: "takeWhile (\<lambda>c. c \<noteq> CHR 0x0a) l = l" "takeWhile (\<lambda>c. c \<noteq> CHR 0x0a) (l @ CHR 0x0a # s) = l"
    using assms by (auto simp: takeWhile_eq_all_conv takeWhile_tail intro: takeWhile_append2 [where P = "\<lambda>c. c \<noteq> CHR 0x0a", THEN trans])
  show "split_lines (l @ CHR 0x0a # s) = l # split_lines s" by (subst split_lines.simps) (simp add: t)
  show "split_lines l = (if l = [] then [] else [l])" by (subst split_lines.simps) (simp add: t)
qed

text \<open>What the inner loop does to the text of the buffer: the complete lines run, the rest is left.\<close>

inductive lines_run :: "(string \<Rightarrow> 'w \<Rightarrow> 'w \<times> bool) \<Rightarrow> string \<Rightarrow> 'w \<Rightarrow> string \<Rightarrow> 'w \<Rightarrow> bool \<Rightarrow> bool" for ex where
  rest: "CHR 0x0a \<notin> set s \<Longrightarrow> lines_run ex s w s w True"
| stop: "CHR 0x0a \<notin> set l \<Longrightarrow> ex (c_str l) w = (w1, False) \<Longrightarrow> lines_run ex (l @ CHR 0x0a # s) w s w1 False"
| line: "CHR 0x0a \<notin> set l \<Longrightarrow> ex (c_str l) w = (w1, True) \<Longrightarrow> lines_run ex s w1 s2 w2 r \<Longrightarrow>
    lines_run ex (l @ CHR 0x0a # s) w s2 w2 r"

lemma lines_run_split:
  "lines_run ex s w s2 w2 r \<Longrightarrow>
   run_lines ex (split_lines (s @ u)) w = (if r then run_lines ex (split_lines (s2 @ u)) w2 else (w2, False)) \<and>
   (r \<longrightarrow> CHR 0x0a \<notin> set s2)"
  by (induction rule: lines_run.induct) (simp_all add: split_lines_line)

lemma find_newline_None:
  assumes "scan \<le> fin" "fin \<le> length buf" "find_newline buf scan fin = None"
  shows "CHR 0x0a \<notin> set (drop scan (take fin buf))"
proof -
  have "length (takeWhile (\<lambda>c. c \<noteq> CHR 0x0a) (drop scan (take fin buf))) = length (drop scan (take fin buf))"
    using assms length_takeWhile_le [of "\<lambda>c. c \<noteq> CHR 0x0a" "drop scan (take fin buf)"]
    by (auto simp: find_newline_def Let_def split: if_splits)
  hence "takeWhile (\<lambda>c. c \<noteq> CHR 0x0a) (drop scan (take fin buf)) = drop scan (take fin buf)"
    by (metis takeWhile_eq_take take_all order_refl)
  thus ?thesis by (auto simp: takeWhile_eq_all_conv)
qed

lemma find_newline_Some:
  assumes "scan \<le> fin" "fin \<le> length buf" "find_newline buf scan fin = Some i"
  shows "scan \<le> i" "i < fin" "buf ! i = CHR 0x0a" "CHR 0x0a \<notin> set (drop scan (take i buf))"
proof -
  define t where "t = takeWhile (\<lambda>c. c \<noteq> CHR 0x0a) (drop scan (take fin buf))"
  have i: "i = scan + length t" "i < fin" using assms(3) by (auto simp: find_newline_def Let_def t_def split: if_splits)
  show "scan \<le> i" "i < fin" using i by simp_all
  have len: "length t < length (drop scan (take fin buf))" using i assms by simp
  have "drop scan (take fin buf) ! length t = CHR 0x0a"
    using nth_length_takeWhile [OF len [unfolded t_def]] unfolding t_def by simp
  thus "buf ! i = CHR 0x0a" using i assms by simp
  have "take (length t) (drop scan (take fin buf)) = t" unfolding t_def by (rule takeWhile_eq_take [symmetric])
  moreover have "take (length t) (drop scan (take fin buf)) = drop scan (take i buf)"
    using i assms by (simp add: take_drop min_def add.commute)
  moreover have "CHR 0x0a \<notin> set t" unfolding t_def by (auto dest: set_takeWhileD)
  ultimately show "CHR 0x0a \<notin> set (drop scan (take i buf))" by simp
qed

lemma read_line:
  assumes "lb \<le> i" "i < length buf"
  shows "read_c_str (buf[i := CHR 0x00]) lb = Inr (c_str (drop lb (take i buf)))"
proof -
  have d: "drop lb (buf[i := CHR 0x00]) = drop lb (take i buf) @ CHR 0x00 # drop (Suc i) buf"
    using assms by (simp add: upd_conv_take_nth_drop)
  have "c_str (xs @ CHR 0x00 # ys) = c_str xs" for xs ys by (simp add: c_str_def takeWhile_tail)
  thus ?thesis by (simp add: read_c_str_def d)
qed

lemma drop_take_split:
  assumes "lb \<le> scan" "scan \<le> fin" "fin \<le> length buf"
  shows "drop lb (take fin buf) = drop lb (take scan buf) @ drop scan (take fin buf)"
proof -
  have "take fin buf = take scan buf @ drop scan (take fin buf)"
    using append_take_drop_id [of scan "take fin buf"] assms by (simp add: min_def)
  hence "drop lb (take fin buf) = drop lb (take scan buf @ drop scan (take fin buf))" by simp
  thus ?thesis using assms by (simp only: drop_append) simp
qed

lemma exec_lines_runs:
  assumes exec: "\<And>l w. exec l w = Some (Inr (ex l w))"
  shows "lb \<le> scan \<Longrightarrow> scan \<le> fin \<Longrightarrow> fin \<le> length buf \<Longrightarrow> CHR 0x0a \<notin> set (drop lb (take scan buf)) \<Longrightarrow>
    \<exists>buf2 lb2 w2 r. exec_lines exec buf lb scan fin w True = Some (Inr (buf2, lb2, w2, r)) \<and> lb2 \<le> fin \<and> length buf2 = length buf \<and>
      lines_run ex (drop lb (take fin buf)) w (drop lb2 (take fin buf2)) w2 r"
proof (induction "fin - scan" arbitrary: buf lb scan w rule: less_induct)
  case less
  show ?case
  proof (cases "find_newline buf scan fin")
    case None
    note seg = drop_take_split [OF less.prems(1-3)]
    have "CHR 0x0a \<notin> set (drop lb (take fin buf))"
      unfolding seg using less.prems find_newline_None [OF less.prems(2,3) None] by simp
    thus ?thesis using less.prems None by (subst exec_lines.simps) (auto intro: lines_run.rest)
  next
    case (Some i)
    note nl = find_newline_Some [OF less.prems(2,3) Some]
    have len: "i < length buf" using nl less.prems by simp
    define buf1 where "buf1 = buf[i := CHR 0x00]"
    define l where "l = drop lb (take i buf)"
    have lnl: "CHR 0x0a \<notin> set l"
      unfolding l_def drop_take_split [OF less.prems(1) nl(1) less_imp_le [OF len]] using less.prems(4) nl(4) by simp
    have seg: "drop lb (take fin buf) = l @ CHR 0x0a # drop (i + 1) (take fin buf)"
    proof -
      have "drop lb (take fin buf) = l @ drop i (take fin buf)"
        unfolding l_def using less.prems nl by (intro drop_take_split) auto
      moreover have "drop i (take fin buf) = CHR 0x0a # drop (i + 1) (take fin buf)"
        using nl less.prems Cons_nth_drop_Suc [of i "take fin buf"] by simp
      ultimately show ?thesis by simp
    qed
    have tail: "drop (i + 1) (take fin buf1) = drop (i + 1) (take fin buf)"
      using nl by (simp add: buf1_def take_update_swap drop_update_cancel)
    have run: "exec_buffer exec buf1 lb w = Some (Inr (ex (c_str l) w))"
      using read_line [of lb i buf] nl less.prems len by (simp add: exec_buffer_def buf1_def l_def exec)
    obtain w1 r1 where r1: "ex (c_str l) w = (w1, r1)" by fastforce
    have step: "exec_lines exec buf lb scan fin w True = exec_lines exec buf1 (i + 1) (i + 1) fin w1 r1"
      using run r1 len by (subst exec_lines.simps) (simp add: Some write_char_def buf1_def [symmetric])
    show ?thesis
    proof (cases r1)
      case True
      have dec: "fin - (i + 1) < fin - scan" using nl by linarith
      obtain buf2 lb2 w2 r where ih: "exec_lines exec buf1 (i + 1) (i + 1) fin w1 True = Some (Inr (buf2, lb2, w2, r))" "lb2 \<le> fin"
        "length buf2 = length buf1" "lines_run ex (drop (i + 1) (take fin buf1)) w1 (drop lb2 (take fin buf2)) w2 r"
        using less.hyps [OF dec, where buf = buf1 and lb = "i + 1" and w = w1] nl less.prems by (auto simp: buf1_def)
      have "lines_run ex (drop lb (take fin buf)) w (drop lb2 (take fin buf2)) w2 r"
        unfolding seg using lines_run.line [OF lnl _ ih(4) [unfolded tail]] r1 True by simp
      thus ?thesis using step ih True by (auto simp: buf1_def)
    next
      case False
      have "exec_lines exec buf1 (i + 1) (i + 1) fin w1 r1 = Some (Inr (buf1, i + 1, w1, False))"
        using False by (subst exec_lines.simps) simp
      moreover have "lines_run ex (drop lb (take fin buf)) w (drop (i + 1) (take fin buf1)) w1 False"
        unfolding seg tail using lines_run.stop [OF lnl] r1 False by simp
      ultimately show ?thesis using step nl by (auto simp: buf1_def)
    qed
  qed
qed


section \<open>The line buffer\<close>

lemma run_lines_rest:
  assumes "CHR 0x0a \<notin> set s"
  shows "run_lines ex (split_lines s) w = (if s = [] then (w, True) else ex (c_str s) w)"
  using assms by (auto simp: split_lines_line(2) split: prod.splits)

lemma read_rest:
  assumes "lb \<le> fin" "fin < length buf"
  shows "exec_buffer exec (buf[fin := CHR 0x00]) lb w = exec (c_str (drop lb (take fin buf))) w"
  using read_line [OF assms] by (simp add: exec_buffer_def)

text \<open>Every line fits the buffer.\<close>

definition lines_fit :: "string \<Rightarrow> bool" where
  "lines_fit s = (\<forall>l\<in>set (split_lines s). length l < hx_max_line - 1)"

lemma lines_fit_run: "lines_run ex s w s2 w2 r \<Longrightarrow> lines_fit (s @ u) \<Longrightarrow> lines_fit (s2 @ u)"
  by (induction rule: lines_run.induct) (simp_all add: lines_fit_def split_lines_line)

lemma lines_fit_first:
  assumes "lines_fit (s @ u)" "CHR 0x0a \<notin> set s"
  shows "length s < hx_max_line - 1"
proof -
  let ?l = "takeWhile (\<lambda>c. c \<noteq> CHR 0x0a) (s @ u)"
  have l: "?l = s @ takeWhile (\<lambda>c. c \<noteq> CHR 0x0a) u" using assms(2) by (intro takeWhile_append2) auto
  show ?thesis
  proof (cases "s = []")
    case False
    hence "?l \<in> set (split_lines (s @ u))" using l by (subst split_lines.simps) (simp add: Let_def)
    hence "length ?l < hx_max_line - 1" using assms(1) unfolding lines_fit_def by blast
    thus ?thesis using l by simp
  qed (simp add: hx_max_line_def)
qed

lemma exec_file_loop_runs:
  assumes exec: "\<And>l w. exec l w = Some (Inr (ex l w))"
  shows "length buf = hx_max_line \<Longrightarrow> carried < hx_max_line - 1 \<Longrightarrow> CHR 0x0a \<notin> set (take carried buf) \<Longrightarrow>
    lines_fit (take carried buf @ content) \<Longrightarrow>
    exec_file_loop exec buf carried \<lparr>if_content = content, if_fail = False\<rparr> w True =
      Some (Inr (run_lines ex (split_lines (take carried buf @ content)) w))"
proof (induction "length content" arbitrary: buf carried content w rule: less_induct)
  case less
  define want where "want = hx_max_line - 1 - carried"
  define bytes where "bytes = take want content"
  define fin where "fin = carried + length bytes"
  define buf1 where "buf1 = take carried buf @ bytes @ drop fin buf"
  define rest where "rest = drop want content"
  define failed where "failed = (length bytes \<noteq> want)"
  have fin: "carried \<le> fin" "fin \<le> hx_max_line - 1" using less.prems by (auto simp: fin_def bytes_def want_def)
  have store: "store_bytes buf carried bytes = Inr buf1"
    using fin less.prems by (simp add: store_bytes_def buf1_def fin_def)
  have len1: "length buf1 = hx_max_line" using fin less.prems by (simp add: buf1_def fin_def)
  have text1: "take fin buf1 = take carried buf @ bytes" "take carried buf1 = take carried buf"
    using fin less.prems by (simp_all add: buf1_def fin_def)
  have all: "take carried buf @ content = take fin buf1 @ rest" by (simp add: text1 bytes_def rest_def)
  have want0: "hx_max_line - Suc carried = want" by (simp add: want_def)
  have finle: "fin \<le> hx_max_line" using fin by linarith
  obtain buf2 lb w2 r where lines: "exec_lines exec buf1 0 carried fin w True = Some (Inr (buf2, lb, w2, r))" "lb \<le> fin"
    "length buf2 = length buf1" "lines_run ex (take fin buf1) w (drop lb (take fin buf2)) w2 r"
    using exec_lines_runs [where exec = exec and ex = ex and lb = 0 and scan = carried and fin = fin and buf = buf1 and w = w, OF exec] fin finle len1 less.prems(3) text1(2) by auto
  define s2 where "s2 = drop lb (take fin buf2)"
  have len2: "length buf2 = hx_max_line" using lines(3) len1 by simp
  have ls2: "length s2 = fin - lb" using fin len2 lines(2) by (simp add: s2_def hx_max_line_def)
  have spec: "run_lines ex (split_lines (take carried buf @ content)) w =
      (if r then run_lines ex (split_lines (s2 @ rest)) w2 else (w2, False))" and nl: "r \<Longrightarrow> CHR 0x0a \<notin> set s2"
    using lines_run_split [OF lines(4), of rest] unfolding all s2_def by auto
  have fit2: "lines_fit (s2 @ rest)" using lines_fit_run [OF lines(4)] less.prems(4) unfolding all s2_def by blast
  have reads: "file_read \<lparr>if_content = content, if_fail = False\<rparr> want = (bytes, \<lparr>if_content = rest, if_fail = failed\<rparr>)"
    by (simp add: file_read_def bytes_def rest_def failed_def Let_def)
  have fin2: "fin < length buf2" using fin len2 by (simp add: hx_max_line_def)
  have wr: "write_char buf2 fin (CHR 0x00) = Inr (buf2[fin := CHR 0x00])" using fin2 by (simp add: write_char_def)
  have rd: "exec_buffer exec (buf2[fin := CHR 0x00]) lb w2 = Some (Inr (ex (c_str s2) w2))"
    unfolding read_rest [OF lines(2) fin2] by (simp add: exec s2_def)
  have step: "exec_file_loop exec buf carried \<lparr>if_content = content, if_fail = False\<rparr> w True =
     (let carried2 = fin - lb
      in if failed \<or> carried2 \<ge> hx_max_line - 1
         then run_bind
           (if r \<and> carried2 \<noteq> 0
            then run_bind (Some (write_char buf2 fin (CHR 0x00))) (\<lambda>buf3.
                 run_bind (exec_buffer exec buf3 lb w2) (\<lambda>(w3, result3). Some (Inr (buf3, w3, result3))))
            else Some (Inr (buf2, w2, r)))
           (\<lambda>(buf3, w3, result3).
             if failed then Some (Inr (w3, result3)) else exec_file_loop exec buf3 0 \<lparr>if_content = rest, if_fail = failed\<rparr> w3 result3)
         else exec_file_loop exec (take carried2 (drop lb buf2) @ drop carried2 buf2) carried2 \<lparr>if_content = rest, if_fail = failed\<rparr> w2 r)"
    by (subst exec_file_loop.simps)
      (simp add: want0 reads fin_def [symmetric] store lines(1) Let_def)
  show ?case
  proof (cases failed)
    case True
    hence "rest = []" by (auto simp: failed_def bytes_def rest_def)
    thus ?thesis using True nl ls2 wr rd unfolding step spec Let_def
      by (auto simp: run_lines_rest split: prod.splits)
  next
    case ok: False
    show ?thesis
    proof (cases r)
      case False
      have stop: "exec_file_loop exec b c f w2 False = Some (Inr (w2, False))" for b c f
        by (subst exec_file_loop.simps) simp
      show ?thesis unfolding step spec Let_def using False ok by (simp add: stop)
    next
      case True
      have small: "fin - lb < hx_max_line - 1" using lines_fit_first [OF fit2 nl [OF True]] ls2 by simp
      define buf3 where "buf3 = take (fin - lb) (drop lb buf2) @ drop (fin - lb) buf2"
      have t3: "take (fin - lb) buf3 = s2" "length buf3 = hx_max_line"
        using fin2 len2 lines(2) by (simp_all add: buf3_def s2_def drop_take)
      have "length content = want + length rest" "0 < want" using ok less.prems by (auto simp: failed_def bytes_def rest_def want_def)
      hence "length rest < length content" by simp
      from less.hyps [OF this t3(2), where carried = "fin - lb" and w = w2] small nl [OF True] fit2
      have "exec_file_loop exec buf3 (fin - lb) \<lparr>if_content = rest, if_fail = False\<rparr> w2 True =
          Some (Inr (run_lines ex (split_lines (s2 @ rest)) w2))" by (simp add: t3)
      thus ?thesis unfolding step spec Let_def using small ok True by (simp add: buf3_def)
    qed
  qed
qed


text \<open>The outcome of a line, which always returns.\<close>

definition line_outcome ::
  "'f strto_fp \<Rightarrow> (hash_addr \<Rightarrow> ('f, 'w) console_command) \<Rightarrow> string hash_state \<Rightarrow> string \<Rightarrow> 'w \<Rightarrow> 'w \<times> bool" where
  "line_outcome fp cmds s line w =
     (case hxconsole_exec_line fp cmds s line w of Some (Inr r) \<Rightarrow> r | _ \<Rightarrow> (w, False))"

lemma exec_line_outcome:
  assumes "console_table s N"
  shows "hxconsole_exec_line fp cmds s line w = Some (Inr (line_outcome fp cmds s line w))"
proof -
  obtain r where "hxconsole_exec_line fp cmds s line w = Some (Inr r)" using exec_line_returns [OF assms, of fp cmds line w] by blast
  thus ?thesis by (simp add: line_outcome_def)
qed

section \<open>The listing\<close>

definition console_test_name :: "string \<Rightarrow> bool" where
  "console_test_name k = (strncmp_eq k ''hxconsole_test'' \<or> strncmp_eq k ''hxs_console_test'')"

lemma hxconsole_less_order: "strict_weak_order (hxconsole_less m)"
  by unfold_locales (auto simp: hxconsole_less_def dest: str_key.asym str_key.cotrans)

lemma console_help_lists:
  assumes tab: "console_table s N"
  shows "\<exists>ns. hxconsole_help cmds s = Some (Inr (map (\<lambda>n. console_usage (cmds n) (Some (hash_key (fst s n)))) ns)) \<and>
    distinct ns \<and> set ns = {n \<in> N. \<not> console_test_name (hash_key (fst s n))} \<and>
    sorted_wrt (\<lambda>a b. \<not> hxkey_less_str (hash_key (fst s b)) (hash_key (fst s a))) ns"
proof -
  obtain css where css: "table_rel console_traits s css" "set (concat css) = N"
    using tab unfolding console_table_def by (blast elim: table_holdsE)
  obtain it where it: "hash_begin s = Inr it" "hash_visit s it [] = Some (Inr (concat css))"
    using hash_begin_rel [OF css(1)] hash_visit_rel [OF css(1), of _ "[]" "concat css" "[]"] by auto
  define listed where "listed = filter (\<lambda>n. \<not> console_test_name (hash_key (fst s n))) (concat css)"
  define ns where "ns = hxinsertion_sort (hxconsole_less (fst s)) listed 0 (length listed)"
  have perm: "range_perm 0 (length listed) listed ns" unfolding ns_def by (rule hxinsertion_sort_perm) simp
  have ord: "sorted_between (hxconsole_less (fst s)) ns 0 (length listed)"
    unfolding ns_def by (rule strict_weak_order.hxinsertion_sort_sorted [OF hxconsole_less_order]) simp_all
  have mset: "mset ns = mset listed" and len: "length ns = length listed" using perm by (simp_all add: range_perm_def)
  have "distinct listed" using table_relD(3) [OF css(1)] by (simp add: listed_def)
  hence "distinct ns" using mset by (metis mset_eq_imp_distinct_iff)
  moreover have "set ns = {n \<in> N. \<not> console_test_name (hash_key (fst s n))}"
    using mset_eq_setD [OF mset] css(2) by (auto simp: listed_def)
  moreover have "sorted_wrt (\<lambda>a b. \<not> hxkey_less_str (hash_key (fst s b)) (hash_key (fst s a))) ns"
    using ord len by (auto simp: sorted_wrt_iff_nth_less sorted_between_def hxconsole_less_def)
  moreover have "hxconsole_help cmds s = Some (Inr (map (\<lambda>n. console_usage (cmds n) (Some (hash_key (fst s n)))) ns))"
    using it by (simp add: hxconsole_help_def Let_def ns_def listed_def console_test_name_def)
  ultimately show ?thesis by blast
qed

section \<open>Properties\<close>

text \<open>C24: a command is called only with arguments of its types: as many as it declares, integers inside the range of the
  declared type, whatever text was typed; every other line is a parse error.\<close>

theorem console_arguments_typed:
  assumes "console_call fp ts str [] = Some vs"
  shows "list_all2 value_has_type ts vs"
  using console_call_typed [OF assms] by simp

theorem console_arguments_typed_witness:
  "list_all2 value_has_type [Arg_uchar, Arg_str] [Int_val 255, Str_val ''a b'' :: int arg_value]"
proof -
  have "console_call (\<lambda>_ s. (0 :: int, s, False)) [Arg_uchar, Arg_str] '' 0xff a b'' [] = Some [Int_val 255, Str_val ''a b'']"
    by code_simp
  thus ?thesis by (rule console_arguments_typed)
qed

text \<open>C25: the decimal text of a value in the range of an integer type, after any white space and before anything that is not
  a letter or digit, parses to that value, and the rest is what follows.\<close>

theorem console_parses_decimals:
  assumes "arg_range t = Some (lo, hi)" and "lo \<le> n" and "n \<le> hi" and "list_all hxisspace blanks" and "ends_number rest"
  shows "console_parse_arg fp t (blanks @ int_text n @ rest) = (Int_val n, rest)"
  by (rule console_parse_int_text [OF assms(4,5,1,2,3)])

theorem console_parses_decimals_witness:
  "console_parse_arg (\<lambda>_ s. (0 :: int, s, False)) Arg_schar ('' '' @ int_text (-128) @ '', 5'') = (Int_val (-128), '', 5'')"
  by (rule console_parses_decimals [where lo = "-128" and hi = 127]) (simp_all add: hxisspace_def ends_number_def digit_value_def char_code_def)

text \<open>After a command is registered, a line whose first word is its name runs that command on the rest of the
  line, also when the name was registered before; after it is deregistered the line is unknown. The table keeps one node for a
  name.\<close>

lemma console_register_dispatch:
  assumes "console_table s N" and "node \<noteq> 0" and "node \<notin> N"
    and "hash_val (fst s node) = tr_hash console_traits (hash_key (fst s node))"
    and "first_word (dropWhile hxisspace line) = first_word (hash_key (fst s node))" and "\<not> console_is_end_of_line line"
  shows "\<exists>r s1 s2. hxconsole_register s node = Some (Inr (r, s1)) \<and> console_table s1 (insert node (N - {r})) \<and>
    hxconsole_exec_line fp cmds s1 line w =
      (let (w1, result) = console_execute fp (cmds node) (dropWhile hxisgraph (dropWhile hxisspace line)) w
       in Some (Inr (w1, result = Some True))) \<and>
    hxconsole_deregister s1 (hash_key (fst s node)) = Some (Inr (1, s2, [])) \<and> console_table s2 (N - {r}) \<and>
    hxconsole_exec_line fp cmds s2 line w = Some (Inr (w, False))"
proof -
  obtain r s1 where r: "hxconsole_register s node = Some (Inr (r, s1))" "console_table s1 (insert node (N - {r}))"
    "\<forall>a. hash_key (fst s1 a) = hash_key (fst s a)" using console_register_table [OF assms(1-4)] by blast
  have name: "first_word (hash_key (fst s1 node)) = first_word (hash_key (fst s node))" using r(3) by simp
  obtain s2 where s2: "hxconsole_deregister s1 (hash_key (fst s node)) = Some (Inr (1, s2, []))"
    "console_table s2 (insert node (N - {r}) - {node})" "\<forall>a\<in>insert node (N - {r}) - {node}. hash_key (fst s2 a) = hash_key (fst s1 a)"
    using console_deregister_table [OF r(2) insertI1 name] by blast
  have rest: "insert node (N - {r}) - {node} = N - {r}" using assms(3) by blast
  have run: "hxconsole_exec_line fp cmds s1 line w =
      (let (w1, result) = console_execute fp (cmds node) (dropWhile hxisgraph (dropWhile hxisspace line)) w
       in Some (Inr (w1, result = Some True)))"
    by (rule exec_line_found [OF r(2) insertI1 _ assms(6)]) (use name assms(5) in simp)
  have gone: "hxconsole_exec_line fp cmds s2 line w = Some (Inr (w, False))"
  proof (rule exec_line_unknown [OF s2(2) _ assms(6)])
    fix n assume n: "n \<in> insert node (N - {r}) - {node}"
    have "first_word (hash_key (fst s1 n)) \<noteq> first_word (hash_key (fst s1 node))"
      using r(2) n unfolding console_table_def inj_on_def by blast
    thus "first_word (hash_key (fst s2 n)) \<noteq> first_word (dropWhile hxisspace line)" using s2(3) n name assms(5) by simp
  qed
  show ?thesis using r run s2(1,2) gone unfolding rest by blast
qed

definition example_console :: "string hash_state" where
  "example_console = ((\<lambda>_. hash_node_new console_traits ''set''), hxconsole_commands)"

lemma console_register_dispatch_witness:
  "\<exists>r s1. hxconsole_register example_console 8 = Some (Inr (r, s1)) \<and>
    hxconsole_exec_line (\<lambda>_ s. (0 :: int, s, False)) (\<lambda>_. Console_var Arg_int (\<lambda>v _. v)) s1 '' set 7 # seven'' (Int_val 0) =
      Some (Inr (Int_val 7, True))"
proof -
  have tab: "console_table example_console {}" unfolding example_console_def by (rule console_table_new)
  have key: "hash_val (fst example_console 8) = tr_hash console_traits (hash_key (fst example_console 8))"
    by (simp add: example_console_def hash_node_new_def)
  have word: "first_word (dropWhile hxisspace '' set 7 # seven'') = first_word (hash_key (fst example_console 8))"
    unfolding example_console_def hash_node_new_def by code_simp
  have eol: "\<not> console_is_end_of_line '' set 7 # seven''" by code_simp
  have run: "console_execute (\<lambda>_ s. (0 :: int, s, False)) (Console_var Arg_int (\<lambda>v _. v)) (dropWhile hxisgraph (dropWhile hxisspace '' set 7 # seven''))
      (Int_val 0) = (Int_val 7, Some True)"
    unfolding console_execute.simps console_variable_execute_def by code_simp
  obtain r s1 where "hxconsole_register example_console 8 = Some (Inr (r, s1))"
    "hxconsole_exec_line (\<lambda>_ s. (0 :: int, s, False)) (\<lambda>_. Console_var Arg_int (\<lambda>v _. v)) s1 '' set 7 # seven'' (Int_val 0) =
      (let (w1, result) = console_execute (\<lambda>_ s. (0 :: int, s, False)) (Console_var Arg_int (\<lambda>v _. v))
         (dropWhile hxisgraph (dropWhile hxisspace '' set 7 # seven'')) (Int_val 0) in Some (Inr (w1, result = Some True)))"
    using console_register_dispatch [OF tab _ _ key word eol, of "\<lambda>_ s. (0 :: int, s, False)" "\<lambda>_. Console_var Arg_int (\<lambda>v _. v)" "Int_val 0"]
    by auto
  thus ?thesis unfolding run by auto
qed

text \<open>C17: executing a file runs its lines in order up to the first that fails, through a buffer that is filled by reads that
  do not stop at line ends: no byte is lost or run twice, nothing is written outside the buffer, and the loop ends. The lines are
  shorter than the buffer.\<close>

theorem console_exec_file_runs_lines:
  assumes "console_table s N" and "length line_buf = hx_max_line" and "lines_fit content"
  shows "hxconsole_exec_file (hxconsole_exec_line fp cmds s) line_buf \<lparr>if_content = content, if_fail = False\<rparr> w =
    Some (Inr (run_lines (line_outcome fp cmds s) (split_lines content) w))"
  unfolding hxconsole_exec_file_def
  using exec_file_loop_runs [where exec = "hxconsole_exec_line fp cmds s" and ex = "line_outcome fp cmds s" and buf = line_buf and
      carried = 0 and content = content and w = w, OF exec_line_outcome [OF assms(1)] assms(2)] assms(3)
  by (simp add: hx_max_line_def)

theorem console_exec_file_runs_lines_witness:
  "hxconsole_exec_file (hxconsole_exec_line (\<lambda>_ s. (0 :: int, s, False)) (\<lambda>_. Console_var Arg_int (\<lambda>v _. v)) example_console)
     (replicate hx_max_line (CHR ''?'')) \<lparr>if_content = ''# first'' @ CHR 0x0a # ''b'', if_fail = False\<rparr> (Int_val 5) =
   Some (Inr (Int_val 5, False))"
proof -
  let ?ex = "line_outcome (\<lambda>_ s. (0 :: int, s, False)) (\<lambda>_. Console_var Arg_int (\<lambda>v _. v)) example_console"
  have tab: "console_table example_console {}" unfolding example_console_def by (rule console_table_new)
  have split: "split_lines (''# first'' @ CHR 0x0a # ''b'') = [''# first'', ''b'']" by code_simp
  have "hxconsole_exec_line (\<lambda>_ s. (0 :: int, s, False)) (\<lambda>_. Console_var Arg_int (\<lambda>v _. v)) example_console ''# first'' (Int_val 5) =
      Some (Inr (Int_val 5, True))" by (rule exec_line_blank) code_simp
  moreover have "hxconsole_exec_line (\<lambda>_ s. (0 :: int, s, False)) (\<lambda>_. Console_var Arg_int (\<lambda>v _. v)) example_console ''b'' (Int_val 5) =
      Some (Inr (Int_val 5, False))" by (rule exec_line_unknown [OF tab]) (simp, code_simp)
  moreover have "c_str ''# first'' = ''# first''" "c_str ''b'' = ''b''" by code_simp+
  ultimately have "run_lines ?ex [''# first'', ''b''] (Int_val 5) = (Int_val 5, False)" by (simp add: line_outcome_def)
  moreover have "lines_fit (''# first'' @ CHR 0x0a # ''b'')" unfolding lines_fit_def split hx_max_line_def by simp
  ultimately show ?thesis
    using console_exec_file_runs_lines [OF tab, of "replicate hx_max_line (CHR ''?'')" "''# first'' @ CHR 0x0a # ''b''"
        "\<lambda>_ s. (0 :: int, s, False)" "\<lambda>_. Console_var Arg_int (\<lambda>v _. v)" "Int_val 5"] unfolding split by simp
qed

text \<open>The listing prints the usage of every registered command once, in the order of the names, and leaves out
  exactly the internal test symbols.\<close>

lemma console_help_complete:
  assumes "console_table s N"
  shows "\<exists>ns. hxconsole_help cmds s = Some (Inr (map (\<lambda>n. console_usage (cmds n) (Some (hash_key (fst s n)))) ns)) \<and>
    distinct ns \<and> set ns = {n \<in> N. \<not> console_test_name (hash_key (fst s n))} \<and>
    sorted_wrt (\<lambda>a b. \<not> hxkey_less_str (hash_key (fst s b)) (hash_key (fst s a))) ns"
  by (rule console_help_lists [OF assms])

lemma console_help_complete_witness:
  "hxconsole_help (\<lambda>_. Console_var Arg_int (\<lambda>v _. v)) example_console = Some (Inr [])"
proof -
  have "console_table example_console {}" unfolding example_console_def by (rule console_table_new)
  from console_help_complete [OF this, of "\<lambda>_. Console_var Arg_int (\<lambda>v _. v)"] show ?thesis by auto
qed

end
