(* ===== verification/HxFile.thy ===== *)
theory HxFile
  imports HxConsole
begin

text \<open>
  The file class of \<^verbatim>\<open>include/hx/hxfile.hpp\<close> on POSIX, \<^verbatim>\<open>src/hxfile_posix.cpp\<close>. The system calls are those of POSIX: \<open>open\<close>
  returns a descriptor that is not open or a negative number, \<open>read\<close> and \<open>write\<close> transfer at least one and at most the wanted number
  of bytes at the position of the file, or fail, or are interrupted, and \<open>read\<close> returns 0 at the end of the file. What they reply is
  an argument. A call for which there is no reply does not return: \<open>None\<close>. File names and printed text are given formatted.
\<close>

section \<open>State\<close>

type_synonym byte = "8 word"

record hxfile =
  fi_fd :: int
  fi_mode :: byte
  fi_owns :: bool
  fi_fail :: bool
  fi_eof :: bool

definition open_mode_none :: byte where "open_mode_none = 0"
definition open_mode_in :: byte where "open_mode_in = 1"
definition open_mode_out :: byte where "open_mode_out = 2"
definition open_mode_asserts :: byte where "open_mode_asserts = 4"

definition has_mode :: "hxfile \<Rightarrow> byte \<Rightarrow> bool" where
  "has_mode f m = (fi_mode f AND m \<noteq> 0)"

definition hxfile_new :: hxfile where
  "hxfile_new = \<lparr>fi_fd = - 1, fi_mode = 0, fi_owns = False, fi_fail = False, fi_eof = False\<rparr>"

definition hxfile_of_fd :: "byte \<Rightarrow> int \<Rightarrow> hxfile" where
  "hxfile_of_fd mode fd = \<lparr>fi_fd = fd, fi_mode = mode, fi_owns = False, fi_fail = False, fi_eof = False\<rparr>"

definition hxfile_is_open :: "hxfile \<Rightarrow> bool" where
  "hxfile_is_open f = (fi_fd f \<ge> 0)"

definition hxfile_good :: "hxfile \<Rightarrow> bool" where
  "hxfile_good f = (fi_fd f \<ge> 0 \<and> \<not> fi_fail f)"

definition hxfile_set_fail :: "hxfile \<Rightarrow> hxfile" where
  "hxfile_set_fail f = f\<lparr>fi_fail := True\<rparr>"

definition hxfile_clear :: "hxfile \<Rightarrow> hxfile" where
  "hxfile_clear f = f\<lparr>fi_fail := False, fi_eof := False\<rparr>"

section \<open>Opening and closing\<close>

datatype open_flags = Read_only | Write_create_truncate | Read_write_create_truncate

definition open_flags_of :: "byte \<Rightarrow> open_flags option" where
  "open_flags_of mode =
     (let m = mode AND (open_mode_in OR open_mode_out)
      in if m = open_mode_none then None
         else if m = open_mode_in then Some Read_only
         else if m = open_mode_out then Some Write_create_truncate
         else Some Read_write_create_truncate)"

text \<open>\<open>reply fl name\<close> is what the system call \<open>open\<close> returns.\<close>

definition hxfile_openv :: "(open_flags \<Rightarrow> string \<Rightarrow> int) \<Rightarrow> hxfile \<Rightarrow> byte \<Rightarrow> string \<Rightarrow> (hxfile \<times> bool) hx" where
  "hxfile_openv reply f mode filename =
     (if \<not> fi_fd f < 0 then Inl (Assert_debug ''sys_err'')
      else let f1 = f\<lparr>fi_mode := mode\<rparr>
        in case open_flags_of mode of None \<Rightarrow> Inr (f1\<lparr>fi_fail := True\<rparr>, False)
          | Some fl \<Rightarrow>
            if \<not> length filename < hx_max_line then Inl (Assert_debug ''vsnprintf'')
            else let fd = reply fl filename
              in if \<not> (fd \<ge> 0 \<or> mode AND open_mode_asserts = 0) then Inl (Assert_hard ''open'')
                 else let f2 = f1\<lparr>fi_fail := fd < 0, fi_owns := \<not> fd < 0\<rparr>
                   in Inr (if fd < 0 then f2 else f2\<lparr>fi_fd := fd\<rparr>, \<not> fd < 0))"

text \<open>The descriptor passed to the system call \<open>close\<close>, which returns \<open>code\<close>.\<close>

definition hxfile_close :: "int \<Rightarrow> hxfile \<Rightarrow> (hxfile \<times> int list) hx" where
  "hxfile_close code f =
     (if fi_owns f \<and> code \<noteq> 0 then Inl (Assert_debug ''close'')
      else Inr (hxfile_new, if fi_owns f then [fi_fd f] else []))"

definition hxfile_open :: "int \<Rightarrow> (open_flags \<Rightarrow> string \<Rightarrow> int) \<Rightarrow> hxfile \<Rightarrow> byte \<Rightarrow> string \<Rightarrow> (hxfile \<times> int list \<times> bool) hx" where
  "hxfile_open code reply f mode filename =
     hx_bind (hxfile_close code f) (\<lambda>(f1, closed). hx_map (\<lambda>(f2, ok). (f2, closed, ok)) (hxfile_openv reply f1 mode filename))"

definition hxfile_destroy :: "int \<Rightarrow> hxfile \<Rightarrow> int list hx" where
  "hxfile_destroy code f = hx_map snd (hxfile_close code f)"

definition hxfile_move :: "hxfile \<Rightarrow> hxfile \<times> hxfile" where
  "hxfile_move f = (f, hxfile_new)"

text \<open>Assigning a file to itself is the assertion \<open>self_copy\<close>; the two here are different objects.\<close>

definition hxfile_move_assign :: "int \<Rightarrow> hxfile \<Rightarrow> hxfile \<Rightarrow> (hxfile \<times> hxfile \<times> int list) hx" where
  "hxfile_move_assign code f g = hx_map (\<lambda>(_, closed). (g, hxfile_new, closed)) (hxfile_close code f)"

section \<open>Reading and writing\<close>

record kernel_file =
  kf_data :: "byte list"
  kf_pos :: nat

datatype io_reply = Io_up_to nat | Io_interrupted | Io_error

text \<open>The effect POSIX documents for the system calls \<open>read\<close> and \<open>write\<close>, which are not part of the library: \<open>Io_up_to n\<close>
  transfers at most \<open>n + 1\<close> bytes. A write behind the end fills the gap with zeros.\<close>

definition kernel_read :: "kernel_file \<Rightarrow> nat \<Rightarrow> byte list \<times> kernel_file" where
  "kernel_read k want = (let bs = take want (drop (kf_pos k) (kf_data k)) in (bs, k\<lparr>kf_pos := kf_pos k + length bs\<rparr>))"

definition kernel_write :: "kernel_file \<Rightarrow> byte list \<Rightarrow> kernel_file" where
  "kernel_write k bs =
     (let d = kf_data k @ replicate (kf_pos k - length (kf_data k)) 0
      in k\<lparr>kf_data := take (kf_pos k) d @ bs @ drop (kf_pos k + length bs) d, kf_pos := kf_pos k + length bs\<rparr>)"

text \<open>The loops end with the bytes transferred, the last result (read), the file and the replies left.\<close>

fun read_loop :: "io_reply list \<Rightarrow> kernel_file \<Rightarrow> nat \<Rightarrow> byte list \<Rightarrow> (byte list \<times> int \<times> kernel_file \<times> io_reply list) option" where
  "read_loop rs k byte_count dst =
     (if \<not> length dst < byte_count then Some (dst, 1, k, rs)
      else case rs of [] \<Rightarrow> None
        | Io_interrupted # rs1 \<Rightarrow> read_loop rs1 k byte_count dst
        | Io_error # rs1 \<Rightarrow> Some (dst, - 1, k, rs1)
        | Io_up_to n # rs1 \<Rightarrow>
          (let (bs, k1) = kernel_read k (min (n + 1) (byte_count - length dst))
           in if bs = [] then Some (dst, 0, k1, rs1) else read_loop rs1 k1 byte_count (dst @ bs)))"

fun write_loop :: "io_reply list \<Rightarrow> kernel_file \<Rightarrow> byte list \<Rightarrow> nat \<Rightarrow> (nat \<times> kernel_file \<times> io_reply list) option" where
  "write_loop rs k src written =
     (if \<not> written < length src then Some (written, k, rs)
      else case rs of [] \<Rightarrow> None
        | Io_interrupted # rs1 \<Rightarrow> write_loop rs1 k src written
        | Io_error # rs1 \<Rightarrow> Some (written, k, rs1)
        | Io_up_to n # rs1 \<Rightarrow>
          (let bs = take (n + 1) (drop written src) in write_loop rs1 (kernel_write k bs) src (written + length bs)))"

declare read_loop.simps [simp del] write_loop.simps [simp del]

definition hxfile_read :: "io_reply list \<Rightarrow> kernel_file \<Rightarrow> hxfile \<Rightarrow> nat \<Rightarrow> nat \<Rightarrow> (byte list \<times> hxfile \<times> kernel_file \<times> io_reply list) run" where
  "hxfile_read rs k f buffer_size byte_count =
     (if \<not> (has_mode f open_mode_in \<and> fi_fd f \<ge> 0) then Some (Inl (Assert_debug ''bad_file''))
      else if \<not> (byte_count \<le> buffer_size \<or> \<not> has_mode f open_mode_asserts) then Some (Inl (Assert_hard ''read''))
      else if byte_count > buffer_size then Some (Inr ([], f\<lparr>fi_fail := True\<rparr>, k, rs))
      else case read_loop rs k byte_count [] of None \<Rightarrow> None
        | Some (dst, last_n, k1, rs1) \<Rightarrow>
          if \<not> (length dst = byte_count \<or> \<not> has_mode f open_mode_asserts) then Some (Inl (Assert_debug ''read''))
          else Some (Inr (dst, if length dst \<noteq> byte_count then f\<lparr>fi_fail := True, fi_eof := last_n = 0\<rparr> else f, k1, rs1)))"

definition hxfile_write :: "io_reply list \<Rightarrow> kernel_file \<Rightarrow> hxfile \<Rightarrow> byte list \<Rightarrow> (nat \<times> hxfile \<times> kernel_file \<times> io_reply list) run" where
  "hxfile_write rs k f bytes =
     (if \<not> has_mode f open_mode_out then Some (Inl (Assert_debug ''bad_file mode''))
      else if fi_fd f < 0 then Some (Inr (length bytes, f, k, rs))
      else case write_loop rs k bytes 0 of None \<Rightarrow> None
        | Some (written, k1, rs1) \<Rightarrow>
          if \<not> (written = length bytes \<or> \<not> has_mode f open_mode_asserts) then Some (Inl (Assert_debug ''write''))
          else Some (Inr (written, f\<lparr>fi_fail := written \<noteq> length bytes\<rparr>, k1, rs1)))"

definition hxfile_flush :: "hxfile \<Rightarrow> bool hx" where
  "hxfile_flush f = (if \<not> has_mode f open_mode_out then Inl (Assert_debug ''bad_file mode'') else Inr True)"

text \<open>\<open>text\<close> is what \<open>vsnprintf\<close> would print; more than \<open>HX_MAX_LINE\<close> characters of it are cut off.\<close>

definition hxfile_print :: "io_reply list \<Rightarrow> kernel_file \<Rightarrow> hxfile \<Rightarrow> byte list \<Rightarrow> (bool \<times> hxfile \<times> kernel_file \<times> io_reply list) run" where
  "hxfile_print rs k f printed =
     (if \<not> has_mode f open_mode_out then Some (Inl (Assert_debug ''bad_file mode''))
      else if fi_fd f < 0 then Some (Inr (True, f, k, rs))
      else let to_write = (if length printed \<le> hx_max_line then length printed else hx_max_line)
        in case write_loop rs k (take to_write printed) 0 of None \<Rightarrow> None
          | Some (written, k1, rs1) \<Rightarrow>
            if \<not> (written = to_write \<or> \<not> has_mode f open_mode_asserts) then Some (Inl (Assert_hard ''write''))
            else if written \<noteq> to_write then Some (Inr (False, f\<lparr>fi_fail := True\<rparr>, k1, rs1))
            else Some (Inr (True, f, k1, rs1)))"

text \<open>\<open>seekable\<close> says whether \<open>lseek\<close> succeeds; a position is a non-negative \<open>off_t\<close>.\<close>

definition hxfile_get_pos :: "bool \<Rightarrow> kernel_file \<Rightarrow> hxfile \<Rightarrow> nat hx" where
  "hxfile_get_pos seekable k f =
     (if \<not> fi_fd f \<ge> 0 then Inl (Assert_debug ''bad_file'')
      else if \<not> (seekable \<or> \<not> has_mode f open_mode_asserts) then Inl (Assert_debug ''bad_seek'')
      else Inr (if seekable then kf_pos k else 0))"

definition hxfile_set_pos :: "bool \<Rightarrow> kernel_file \<Rightarrow> hxfile \<Rightarrow> nat \<Rightarrow> (bool \<times> hxfile \<times> kernel_file) hx" where
  "hxfile_set_pos seekable k f position =
     (if \<not> fi_fd f \<ge> 0 then Inl (Assert_debug ''bad_file'')
      else if \<not> (seekable \<or> \<not> has_mode f open_mode_asserts) then Inl (Assert_debug ''bad_seek'')
      else Inr (seekable, if seekable then f\<lparr>fi_fail := False, fi_eof := False\<rparr> else f\<lparr>fi_fail := True\<rparr>,
        if seekable then k\<lparr>kf_pos := position\<rparr> else k))"

section \<open>Transfers in pieces\<close>

text \<open>The replies never fail and there are enough of them.\<close>

definition serves :: "io_reply list \<Rightarrow> nat \<Rightarrow> bool" where
  "serves rs n \<longleftrightarrow> Io_error \<notin> set rs \<and> n \<le> length (filter (\<lambda>r. r \<noteq> Io_interrupted) rs)"

lemma kernel_write_append: "kernel_write (kernel_write k bs) cs = kernel_write k (bs @ cs)"
  by (cases k) (auto simp: kernel_write_def Let_def min_def ac_simps)

lemma kernel_write_Nil: "kernel_write k [] = (if kf_pos k \<le> length (kf_data k) then k else k\<lparr>kf_data := kf_data k @ replicate (kf_pos k - length (kf_data k)) 0\<rparr>)"
  by (cases k) (simp add: kernel_write_def)

text \<open>Whatever the replies, the file holds what was transferred, which is a prefix of what was to be written.\<close>

lemma write_loop_prefix:
  "write_loop rs k src written = Some (w, k', rs') \<Longrightarrow> written \<le> length src \<Longrightarrow>
   written \<le> w \<and> w \<le> length src \<and> k' = (if w = written then k else kernel_write k (take (w - written) (drop written src)))"
proof (induction rs arbitrary: k written)
  case Nil
  then show ?case by (auto simp: write_loop.simps [of "[]"] split: if_splits)
next
  case (Cons r rs)
  show ?case
  proof (cases "written < length src")
    case False
    then show ?thesis using Cons.prems by (simp add: write_loop.simps [of "r # rs"])
  next
    case True
    note step = write_loop.simps [of "r # rs" k src written]
    show ?thesis
    proof (cases r)
      case (Io_up_to n)
      obtain bs where bs: "bs = take (Suc n) (drop written src)" by blast
      have some: "0 < length bs" "written + length bs \<le> length src" using True by (simp_all add: bs)
      have first: "take (length bs) (drop written src) = bs" unfolding bs by (cases "Suc n \<le> length (drop written src)") simp_all
      have loop: "write_loop rs (kernel_write k bs) src (written + length bs) = Some (w, k', rs')"
        using Cons.prems(1) True unfolding step unfolding Io_up_to by (simp add: Let_def del: length_take flip: bs)
      from Cons.IH [OF loop some(2)] have IH: "written + length bs \<le> w" "w \<le> length src"
        "k' = (if w = written + length bs then kernel_write k bs else kernel_write (kernel_write k bs) (take (w - (written + length bs)) (drop (written + length bs) src)))"
        by blast+
      have "take (w - written) (drop written src) = bs @ take (w - (written + length bs)) (drop (written + length bs) src)"
        using IH(1) take_add [of "length bs" "w - (written + length bs)" "drop written src"] first by (simp add: add.commute)
      then show ?thesis using IH some by (auto simp: kernel_write_append)
    next
      case Io_interrupted
      then show ?thesis using Cons.IH [of k written] Cons.prems True unfolding step by simp
    next
      case Io_error
      then show ?thesis using Cons.prems True unfolding step by auto
    qed
  qed
qed

lemma write_loop_serves:
  "serves rs (length src - written) \<Longrightarrow> written \<le> length src \<Longrightarrow> \<exists>k' rs'. write_loop rs k src written = Some (length src, k', rs') \<and> serves rs' 0"
proof (induction rs arbitrary: k written)
  case Nil
  then show ?case by (simp add: write_loop.simps [of "[]"] serves_def)
next
  case (Cons r rs)
  note step = write_loop.simps [of "r # rs" k src written]
  show ?case
  proof (cases "written < length src")
    case False
    then show ?thesis using Cons.prems unfolding step by (simp add: serves_def)
  next
    case True
    show ?thesis
    proof (cases r)
      case (Io_up_to n)
      obtain bs where bs: "bs = take (Suc n) (drop written src)" by blast
      then have some: "0 < length bs" "written + length bs \<le> length src" using True by simp_all
      have "Io_error \<notin> set rs" "length src - written \<le> Suc (length (filter (\<lambda>r. r \<noteq> Io_interrupted) rs))"
        using Cons.prems(1) Io_up_to by (simp_all add: serves_def)
      moreover from this(2) some have "length src - (written + length bs) \<le> length (filter (\<lambda>r. r \<noteq> Io_interrupted) rs)" by linarith
      ultimately have "serves rs (length src - (written + length bs))" by (simp add: serves_def)
      from Cons.IH [OF this some(2), of "kernel_write k bs"] show ?thesis
        using True unfolding step unfolding Io_up_to by (simp add: Let_def del: length_take flip: bs)
    next
      case Io_interrupted
      then show ?thesis using Cons.IH [of written k] Cons.prems True unfolding step by (simp add: serves_def)
    next
      case Io_error
      then show ?thesis using Cons.prems by (simp add: serves_def)
    qed
  qed
qed

text \<open>Reading: what is transferred is what follows the position, in order, once.\<close>

lemma read_loop_prefix:
  "read_loop rs k byte_count dst = Some (d, last_n, k', rs') \<Longrightarrow>
   \<exists>n. d = dst @ take n (drop (kf_pos k) (kf_data k)) \<and> kf_pos k' = kf_pos k + (length d - length dst) \<and> kf_data k' = kf_data k \<and>
     (length dst \<le> byte_count \<longrightarrow> length d \<le> byte_count) \<and> (last_n = 0 \<longrightarrow> length (kf_data k) \<le> kf_pos k')"
proof (induction rs arbitrary: k dst)
  case Nil
  then show ?case by (auto simp: read_loop.simps [of "[]"] intro!: exI [of _ 0] split: if_splits)
next
  case (Cons r rs)
  note step = read_loop.simps [of "r # rs" k byte_count dst]
  show ?case
  proof (cases "length dst < byte_count")
    case False
    then show ?thesis using Cons.prems unfolding step by (auto intro!: exI [of _ 0])
  next
    case True
    show ?thesis
    proof (cases r)
      case (Io_up_to n)
      obtain bs k1 where bs: "kernel_read k (min (n + 1) (byte_count - length dst)) = (bs, k1)" by (cases "kernel_read k (min (n + 1) (byte_count - length dst))")
      obtain m where m: "m = min (n + 1) (byte_count - length dst)" "0 < m" "m \<le> byte_count - length dst" using True by simp
      have k1: "bs = take m (drop (kf_pos k) (kf_data k))" "kf_pos k1 = kf_pos k + length bs" "kf_data k1 = kf_data k"
        using bs unfolding m(1) by (auto simp: kernel_read_def Let_def)
      show ?thesis
      proof (cases "bs = []")
        case empty: True
        then have "length (kf_data k) \<le> kf_pos k" using k1(1) m(2) by simp
        then show ?thesis using Cons.prems True bs empty k1 unfolding step unfolding Io_up_to by (auto intro!: exI [of _ 0])
      next
        case some: False
        then have "read_loop rs k1 byte_count (dst @ bs) = Some (d, last_n, k', rs')"
          using Cons.prems True bs unfolding step unfolding Io_up_to by simp
        from Cons.IH [OF this] obtain l where l: "d = (dst @ bs) @ take l (drop (kf_pos k1) (kf_data k1))" "kf_pos k' = kf_pos k1 + (length d - length (dst @ bs))"
          "kf_data k' = kf_data k1" "length (dst @ bs) \<le> byte_count \<longrightarrow> length d \<le> byte_count" "last_n = 0 \<longrightarrow> length (kf_data k1) \<le> kf_pos k'" by blast
        have "drop (kf_pos k1) (kf_data k1) = drop (length bs) (drop (kf_pos k) (kf_data k))" unfolding k1(2,3) by (simp add: add.commute)
        moreover have "take (length bs) (drop (kf_pos k) (kf_data k)) = bs"
          unfolding k1(1) by (cases "m \<le> length (drop (kf_pos k) (kf_data k))") simp_all
        ultimately have "bs @ take l (drop (kf_pos k1) (kf_data k1)) = take (length bs + l) (drop (kf_pos k) (kf_data k))"
          by (simp only: take_add)
        moreover have "length bs \<le> m" "length bs \<le> length (kf_data k) - kf_pos k" using k1(1) by simp_all
        ultimately show ?thesis using l k1(2,3) m(3) True by (intro exI [of _ "length bs + l"]) auto
      qed
    next
      case Io_interrupted
      then show ?thesis using Cons.IH [of k dst] Cons.prems True unfolding step by auto
    next
      case Io_error
      then show ?thesis using Cons.prems True unfolding step by (auto intro!: exI [of _ 0])
    qed
  qed
qed

lemma read_loop_serves:
  "serves rs (byte_count - length dst) \<Longrightarrow> length dst \<le> byte_count \<Longrightarrow> byte_count - length dst \<le> length (kf_data k) - kf_pos k \<Longrightarrow>
   \<exists>last_n k' rs'. read_loop rs k byte_count dst = Some (dst @ take (byte_count - length dst) (drop (kf_pos k) (kf_data k)), last_n, k', rs')"
proof (induction rs arbitrary: k dst)
  case Nil
  then show ?case by (simp add: read_loop.simps [of "[]"] serves_def)
next
  case (Cons r rs)
  note step = read_loop.simps [of "r # rs" k byte_count dst]
  show ?case
  proof (cases "length dst < byte_count")
    case False
    then show ?thesis using Cons.prems unfolding step by simp
  next
    case True
    show ?thesis
    proof (cases r)
      case (Io_up_to n)
      obtain bs k1 where bs: "kernel_read k (min (n + 1) (byte_count - length dst)) = (bs, k1)" by (cases "kernel_read k (min (n + 1) (byte_count - length dst))")
      obtain m where m: "m = min (n + 1) (byte_count - length dst)" "0 < m" "m \<le> byte_count - length dst" using True by simp
      have k1: "bs = take m (drop (kf_pos k) (kf_data k))" "kf_pos k1 = kf_pos k + length bs" "kf_data k1 = kf_data k"
        using bs unfolding m(1) by (auto simp: kernel_read_def Let_def)
      have lenbs: "length bs = m" using k1(1) Cons.prems(3) m(3) by simp
      have "Io_error \<notin> set rs" "byte_count - length dst \<le> Suc (length (filter (\<lambda>r. r \<noteq> Io_interrupted) rs))"
        using Cons.prems(1) Io_up_to by (simp_all add: serves_def)
      moreover from this(2) m(2) lenbs have "byte_count - length (dst @ bs) \<le> length (filter (\<lambda>r. r \<noteq> Io_interrupted) rs)" by simp
      ultimately have "serves rs (byte_count - length (dst @ bs))" by (simp add: serves_def)
      moreover have "length (dst @ bs) \<le> byte_count" "byte_count - length (dst @ bs) \<le> length (kf_data k1) - kf_pos k1"
        using lenbs m(3) True Cons.prems(3) k1(2,3) by simp_all
      ultimately obtain last_n k' rs' where loop: "read_loop rs k1 byte_count (dst @ bs) =
          Some ((dst @ bs) @ take (byte_count - length (dst @ bs)) (drop (kf_pos k1) (kf_data k1)), last_n, k', rs')"
        using Cons.IH by blast
      have "bs @ take (byte_count - length (dst @ bs)) (drop (kf_pos k1) (kf_data k1)) = take (m + (byte_count - length (dst @ bs))) (drop (kf_pos k) (kf_data k))"
        unfolding take_add using k1 lenbs by (simp add: add.commute)
      moreover have "m + (byte_count - length (dst @ bs)) = byte_count - length dst" using lenbs m(3) True by simp
      moreover have "bs \<noteq> []" using lenbs m(2) by auto
      ultimately show ?thesis using True bs loop unfolding step unfolding Io_up_to by simp
    next
      case Io_interrupted
      then show ?thesis using Cons.IH [of dst k] Cons.prems True unfolding step by (simp add: serves_def)
    next
      case Io_error
      then show ?thesis using Cons.prems by (simp add: serves_def)
    qed
  qed
qed

lemma kernel_write_data:
  "length bs \<le> length (kf_data (kernel_write k bs)) - kf_pos k" "take (length bs) (drop (kf_pos k) (kf_data (kernel_write k bs))) = bs"
  by (simp_all add: kernel_write_def Let_def)

section \<open>Programs with several files\<close>

text \<open>What a program does with its files, named by their place in a list, with the replies of \<open>open\<close> and \<open>close\<close>.\<close>

datatype file_op =
    File_construct
  | File_wrap byte int
  | File_open nat byte string int int
  | File_close nat int
  | File_move nat
  | File_assign nat nat int
  | File_destroy nat int

record file_world =
  fw_files :: "hxfile option list"
  fw_closed :: "int list"

definition no_files :: file_world where
  "no_files = \<lparr>fw_files = [], fw_closed = []\<rparr>"

text \<open>A step returns the descriptors that it opens.\<close>

fun file_step :: "file_world \<Rightarrow> file_op \<Rightarrow> (file_world \<times> int list) hx" where
  "file_step w File_construct = Inr (w\<lparr>fw_files := fw_files w @ [Some hxfile_new]\<rparr>, [])"
| "file_step w (File_wrap mode fd) = Inr (w\<lparr>fw_files := fw_files w @ [Some (hxfile_of_fd mode fd)]\<rparr>, [])"
| "file_step w (File_open i mode filename fd code) = hx_bind (read_slot (fw_files w) i) (\<lambda>f. hx_map (\<lambda>(f1, closed, ok).
     (w\<lparr>fw_files := (fw_files w)[i := Some f1], fw_closed := fw_closed w @ closed\<rparr>, if ok then [fd] else []))
     (hxfile_open code (\<lambda>fl name. fd) f mode filename))"
| "file_step w (File_close i code) = hx_bind (read_slot (fw_files w) i) (\<lambda>f. hx_map (\<lambda>(f1, closed).
     (w\<lparr>fw_files := (fw_files w)[i := Some f1], fw_closed := fw_closed w @ closed\<rparr>, [])) (hxfile_close code f))"
| "file_step w (File_move i) = hx_map (\<lambda>f. let (g, f1) = hxfile_move f in
     (w\<lparr>fw_files := (fw_files w)[i := Some f1] @ [Some g]\<rparr>, [])) (read_slot (fw_files w) i)"
| "file_step w (File_assign i j code) = hx_bind (read_slot (fw_files w) i) (\<lambda>f. hx_bind (read_slot (fw_files w) j) (\<lambda>g.
     if i = j then Inl (Assert_debug ''self_copy'')
     else hx_map (\<lambda>(f1, g1, closed). (w\<lparr>fw_files := (fw_files w)[i := Some f1, j := Some g1], fw_closed := fw_closed w @ closed\<rparr>, []))
       (hxfile_move_assign code f g)))"
| "file_step w (File_destroy i code) = hx_bind (read_slot (fw_files w) i) (\<lambda>f. hx_map (\<lambda>closed.
     (w\<lparr>fw_files := (fw_files w)[i := None], fw_closed := fw_closed w @ closed\<rparr>, [])) (hxfile_destroy code f))"

definition file_held :: "hxfile \<Rightarrow> int multiset" where
  "file_held f = (if fi_owns f then {#fi_fd f#} else {#})"

definition files_account :: "file_world \<Rightarrow> int multiset" where
  "files_account w = slots_held file_held (fw_files w) + mset (fw_closed w)"

lemma close_held: "hxfile_close code f = Inr (f1, closed) \<Longrightarrow> f1 = hxfile_new \<and> mset closed = file_held f"
  by (auto simp: hxfile_close_def file_held_def split: if_splits)

lemma openv_held: "hxfile_openv (\<lambda>fl name. fd) hxfile_new mode filename = Inr (f, ok) \<Longrightarrow> file_held f = (if ok then {#fd#} else {#})"
  by (auto simp: hxfile_openv_def hxfile_new_def file_held_def Let_def split: if_splits option.splits)

lemma new_held: "file_held hxfile_new = {#}"
  by (simp add: file_held_def hxfile_new_def)

lemmas file_steps = hx_bind_Inr_iff hx_map_Inr_iff files_account_def new_held

lemma file_step_accounts: "file_step w op = Inr (w', opened) \<Longrightarrow> files_account w' = files_account w + mset opened"
proof (cases op)
  case (File_open i mode filename fd code)
  assume "file_step w op = Inr (w', opened)"
  then show ?thesis using File_open
    by (auto simp: file_steps hxfile_open_def slots_held_update slots_held_read [of i "fw_files w"] dest!: read_slot_InrD close_held openv_held)
next
  case (File_close i code)
  assume "file_step w op = Inr (w', opened)"
  then show ?thesis using File_close
    by (auto simp: file_steps slots_held_update slots_held_read [of i "fw_files w"] dest!: read_slot_InrD close_held)
next
  case (File_move i)
  assume "file_step w op = Inr (w', opened)"
  then show ?thesis using File_move
    by (auto simp: file_steps hxfile_move_def slots_held_update slots_held_read [of i "fw_files w"] dest!: read_slot_InrD)
next
  case (File_assign i j code)
  assume "file_step w op = Inr (w', opened)"
  then show ?thesis using File_assign
    by (auto simp: file_steps hxfile_move_assign_def slots_held_two(1) slots_held_two(2) [of i "fw_files w" j] dest!: read_slot_InrD close_held split: if_splits)
next
  case (File_destroy i code)
  assume "file_step w op = Inr (w', opened)"
  then show ?thesis using File_destroy
    by (auto simp: file_steps hxfile_destroy_def slots_held_read [of i "fw_files w"] dest!: read_slot_InrD close_held)
qed (auto simp: file_steps hxfile_of_fd_def hxfile_new_def file_held_def)

section \<open>Claims\<close>

text \<open>C39: Bytes survive a round trip through a file, however the kernel splits, shortens and interrupts the transfers: \<open>write\<close> transfers all of
  them, and after \<open>set_pos\<close> to where they were written \<open>read\<close> returns exactly them, with no failure and no end of file reported.\<close>

theorem hxfile_write_read_roundtrip:
  assumes f: "has_mode f open_mode_in" "has_mode f open_mode_out" "fi_fd f \<ge> 0"
    and replies: "serves ws (length bytes)" "serves rs (length bytes)" and room: "length bytes \<le> buffer_size"
  shows "\<exists>f1 k1 ws1 f2 k2 k3 rs1. hxfile_write ws k f bytes = Some (Inr (length bytes, f1, k1, ws1)) \<and>
    hxfile_set_pos True k1 f1 (kf_pos k) = Inr (True, f2, k2) \<and>
    hxfile_read rs k2 f2 buffer_size (length bytes) = Some (Inr (bytes, f2, k3, rs1)) \<and> \<not> fi_fail f2 \<and> \<not> fi_eof f2"
proof -
  obtain k1 ws1 where w: "write_loop ws k bytes 0 = Some (length bytes, k1, ws1)" using write_loop_serves [of ws bytes 0 k] replies(1) by auto
  then have k1: "k1 = (if bytes = [] then k else kernel_write k bytes)" using write_loop_prefix [of ws k bytes 0] by auto
  have data: "length bytes \<le> length (kf_data k1) - kf_pos k" "take (length bytes) (drop (kf_pos k) (kf_data k1)) = bytes"
    unfolding k1 using kernel_write_data [of bytes k] by auto
  then obtain last_n k3 rs1 where r: "read_loop rs (k1\<lparr>kf_pos := kf_pos k\<rparr>) (length bytes) [] = Some (bytes, last_n, k3, rs1)"
    using read_loop_serves [of rs "length bytes" "[]" "k1\<lparr>kf_pos := kf_pos k\<rparr>"] replies(2) by auto
  show ?thesis using f room w r by (simp add: hxfile_write_def hxfile_set_pos_def hxfile_read_def has_mode_def)
qed

text \<open>A pipe of mode 3: a file of three bytes, appended to in two pieces after an interrupt.\<close>

theorem hxfile_write_read_roundtrip_witness:
  "\<exists>f1 k1 ws1 f2 k2 k3 rs1. hxfile_write [Io_interrupted, Io_up_to 0, Io_up_to 5] \<lparr>kf_data = [1, 2, 3], kf_pos = 3\<rparr> (hxfile_of_fd 3 7) [8, 9] =
      Some (Inr (2, f1, k1, ws1)) \<and>
    hxfile_set_pos True k1 f1 3 = Inr (True, f2, k2) \<and> hxfile_read [Io_up_to 9, Io_up_to 0] k2 f2 4 2 = Some (Inr ([8, 9], f2, k3, rs1)) \<and>
    \<not> fi_fail f2 \<and> \<not> fi_eof f2"
  using hxfile_write_read_roundtrip [of "hxfile_of_fd 3 7" "[Io_interrupted, Io_up_to 0, Io_up_to 5]" "[8, 9]" "[Io_up_to 9, Io_up_to 0]" 4 "\<lparr>kf_data = [1, 2, 3], kf_pos = 3\<rparr>"]
  by (simp add: has_mode_def hxfile_of_fd_def open_mode_in_def open_mode_out_def serves_def numeral_2_eq_2)

text \<open>C40: every descriptor that a file opens is passed to \<open>close\<close> exactly once, whatever a program does with its file objects (opening again, closing,
  moving, assigning, destroying), and a descriptor that an object was only given never is.\<close>

theorem hxfile_closes_once:
  assumes "run_ops file_step no_files ops = (rs, Inr w)"
  shows "mset (concat rs) = slots_held file_held (fw_files w) + mset (fw_closed w) \<and>
    (set (fw_files w) \<subseteq> {None} \<longrightarrow> mset (fw_closed w) = mset (concat rs))"
proof -
  have "files_account w = files_account no_files + mset (concat rs)"
    by (rule run_ops_sum [where f = files_account, OF file_step_accounts assms])
  then have account: "mset (concat rs) = slots_held file_held (fw_files w) + mset (fw_closed w)" by (simp add: files_account_def no_files_def)
  moreover have "mset (fw_closed w) = mset (concat rs)" if "set (fw_files w) \<subseteq> {None}"
    unfolding account slots_held_none [OF that] by simp
  ultimately show ?thesis by blast
qed

theorem hxfile_closes_once_witness:
  "\<exists>w. run_ops file_step no_files [File_construct, File_open 0 1 ''a'' 5 0, File_wrap 2 1, File_open 0 2 ''b'' 6 0, File_assign 1 0 0, File_destroy 0 0, File_destroy 1 0] =
    ([[], [5], [], [6], [], [], []], Inr w) \<and> mset (fw_closed w) = {#5, 6#}"
proof -
  have run: "run_ops file_step no_files [File_construct, File_open 0 1 ''a'' 5 0, File_wrap 2 1, File_open 0 2 ''b'' 6 0, File_assign 1 0 0, File_destroy 0 0, File_destroy 1 0] =
    ([[], [5], [], [6], [], [], []], Inr \<lparr>fw_files = [None, None], fw_closed = [5, 6]\<rparr>)"
    by (simp add: no_files_def hxfile_new_def hxfile_of_fd_def read_slot_def hxfile_open_def hxfile_close_def hxfile_openv_def open_flags_of_def
        open_mode_none_def open_mode_in_def open_mode_out_def hx_max_line_def hxfile_move_assign_def hxfile_destroy_def Let_def)
  show ?thesis using hxfile_closes_once [OF run] run by simp
qed

end
