(* ===== verification/HxThread.thy ===== *)
theory HxThread
  imports HxPrelude
begin

text \<open>
  The threading classes of \<^verbatim>\<open>include/hx/hxthread.hpp\<close> on POSIX. The code that each pthread function returns is an argument, 0
  being success, and a scoped lock records what it does to its mutex. The construction and destruction of the pthread objects, the thread-local
  variables and the waits are not modelled here; the task queue has the condition variables as transitions.
\<close>

section \<open>Mutexes and scoped locks\<close>

definition eagain :: int where "eagain = 11"

definition hxmutex_lock :: "int \<Rightarrow> bool hx" where
  "hxmutex_lock code = (if \<not> (code = 0 \<or> code = eagain) then Inl (Assert_debug ''pthread_mutex_lock'') else Inr (code = 0))"

definition hxmutex_unlock :: "int \<Rightarrow> bool hx" where
  "hxmutex_unlock code = (if \<not> code = 0 then Inl (Assert_debug ''pthread_mutex_unlock'') else Inr (code = 0))"

datatype mutex_call = Locked | Lock_failed | Unlocked

record hxunique_lock =
  ul_owns :: bool
  ul_calls :: "mutex_call list"

definition unique_lock_lock :: "int \<Rightarrow> hxunique_lock \<Rightarrow> hxunique_lock hx" where
  "unique_lock_lock code l =
     (if \<not> ul_owns l then hx_map (\<lambda>ok. l\<lparr>ul_owns := ok, ul_calls := ul_calls l @ [if ok then Locked else Lock_failed]\<rparr>) (hxmutex_lock code)
      else Inr l)"

definition unique_lock_unlock :: "int \<Rightarrow> hxunique_lock \<Rightarrow> hxunique_lock hx" where
  "unique_lock_unlock code l =
     (if ul_owns l then hx_map (\<lambda>_. l\<lparr>ul_owns := False, ul_calls := ul_calls l @ [Unlocked]\<rparr>) (hxmutex_unlock code) else Inr l)"

definition unique_lock_new :: "int \<Rightarrow> bool \<Rightarrow> hxunique_lock hx" where
  "unique_lock_new code defer_lock =
     (let l = \<lparr>ul_owns = False, ul_calls = []\<rparr> in if \<not> defer_lock then unique_lock_lock code l else Inr l)"

definition unique_lock_destroy :: "int \<Rightarrow> hxunique_lock \<Rightarrow> hxunique_lock hx" where
  "unique_lock_destroy code l = (if ul_owns l then unique_lock_unlock code l else Inr l)"

section \<open>Threads\<close>

record hxthread =
  th_joinable :: bool

definition hxthread_new :: hxthread where "hxthread_new = \<lparr>th_joinable = False\<rparr>"

definition hxthread_start :: "int \<Rightarrow> hxthread \<Rightarrow> hxthread hx" where
  "hxthread_start code t =
     (if \<not> \<not> th_joinable t then Inl (Assert_debug ''thread_busy'')
      else if \<not> code = 0 then Inl (Assert_always ''pthread_create'')
      else Inr (t\<lparr>th_joinable := True\<rparr>))"

definition hxthread_join :: "int \<Rightarrow> hxthread \<Rightarrow> hxthread hx" where
  "hxthread_join code t =
     (if \<not> th_joinable t then Inl (Assert_debug ''task_idle'')
      else if \<not> code = 0 then Inl (Assert_always ''pthread_join'')
      else Inr (t\<lparr>th_joinable := False\<rparr>))"

definition hxthread_destroy :: "hxthread \<Rightarrow> unit hx" where
  "hxthread_destroy t = (if \<not> \<not> th_joinable t then Inl (Assert_hard ''thread_busy'') else Inr ())"

section \<open>Locks are balanced\<close>

text \<open>What a mutex that is used by this lock only sees: it is never locked twice and only unlocked while locked. The result is whether it
  is left locked.\<close>

fun mutex_after :: "bool \<Rightarrow> mutex_call list \<Rightarrow> bool option" where
  "mutex_after locked [] = Some locked"
| "mutex_after locked (Locked # cs) = (if locked then None else mutex_after True cs)"
| "mutex_after locked (Lock_failed # cs) = (if locked then None else mutex_after False cs)"
| "mutex_after locked (Unlocked # cs) = (if locked then mutex_after False cs else None)"

lemma mutex_after_append: "mutex_after locked (xs @ ys) = Option.bind (mutex_after locked xs) (\<lambda>l. mutex_after l ys)"
proof (induction xs arbitrary: locked)
  case (Cons x xs)
  then show ?case by (cases x) simp_all
qed simp

datatype lock_op = Op_lock int | Op_unlock int

fun lock_step :: "hxunique_lock \<Rightarrow> lock_op \<Rightarrow> (hxunique_lock \<times> unit) hx" where
  "lock_step l (Op_lock code) = hx_map (\<lambda>l1. (l1, ())) (unique_lock_lock code l)"
| "lock_step l (Op_unlock code) = hx_map (\<lambda>l1. (l1, ())) (unique_lock_unlock code l)"

definition lock_balanced :: "hxunique_lock \<Rightarrow> bool" where
  "lock_balanced l \<longleftrightarrow> mutex_after False (ul_calls l) = Some (ul_owns l)"

lemma lock_balanced_step: "lock_balanced l \<Longrightarrow> unique_lock_lock code l = Inr l' \<Longrightarrow> lock_balanced l'"
  by (cases "code = 0") (auto simp: lock_balanced_def unique_lock_lock_def hxmutex_lock_def mutex_after_append split: if_splits)

lemma unlock_balanced_step: "lock_balanced l \<Longrightarrow> unique_lock_unlock code l = Inr l' \<Longrightarrow> lock_balanced l' \<and> \<not> ul_owns l'"
  by (auto simp: lock_balanced_def unique_lock_unlock_def hxmutex_unlock_def mutex_after_append split: if_splits)

lemma lock_step_balanced: "lock_balanced l \<Longrightarrow> lock_step l op = Inr (l1, u) \<Longrightarrow> lock_balanced l1"
  by (cases op) (auto simp: hx_map_Inr_iff dest: lock_balanced_step unlock_balanced_step)

lemma lock_steps_balanced: "lock_balanced l \<Longrightarrow> run_ops lock_step l ops = (rs, Inr l') \<Longrightarrow> lock_balanced l'"
proof (induction ops arbitrary: l rs)
  case (Cons op ops)
  then obtain l1 u where step: "lock_step l op = Inr (l1, u)" by (auto split: sum.splits prod.splits)
  then have "lock_balanced l1" by (rule lock_step_balanced [OF Cons.prems(1)])
  moreover obtain rs1 where "run_ops lock_step l1 ops = (rs1, Inr l')" using Cons.prems(2) step by (auto split: prod.splits)
  ultimately show ?case using Cons.IH by blast
qed simp

text \<open>However a scoped lock is locked and unlocked, also when locking fails, its mutex is locked and unlocked alternately, the lock knows
  whether it holds it, and after the destructor it is not held.\<close>

theorem unique_lock_balanced:
  assumes "unique_lock_new code defer_lock = Inr l0" and "run_ops lock_step l0 ops = (rs, Inr l)" and "unique_lock_destroy code' l = Inr l'"
  shows "mutex_after False (ul_calls l) = Some (ul_owns l) \<and> mutex_after False (ul_calls l') = Some False"
proof -
  have "lock_balanced \<lparr>ul_owns = False, ul_calls = []\<rparr>" by (simp add: lock_balanced_def)
  then have "lock_balanced l0" using assms(1) by (auto simp: unique_lock_new_def Let_def dest: lock_balanced_step split: if_splits)
  then have l: "lock_balanced l" using assms(2) by (rule lock_steps_balanced)
  moreover have "lock_balanced l' \<and> \<not> ul_owns l'"
    using l assms(3) by (auto simp: unique_lock_destroy_def dest: unlock_balanced_step split: if_splits)
  ultimately show ?thesis by (simp add: lock_balanced_def)
qed

text \<open>A thread object may only be destroyed after every \<open>start\<close> was followed by a \<open>join\<close>.\<close>

lemma thread_lifecycle:
  "hxthread_start code t = Inr t1 \<Longrightarrow> hxthread_destroy t1 = Inl (Assert_hard ''thread_busy'') \<and> hxthread_start code' t1 = Inl (Assert_debug ''thread_busy'') \<and>
   (\<exists>t2. hxthread_join 0 t1 = Inr t2 \<and> hxthread_destroy t2 = Inr ())"
  by (auto simp: hxthread_start_def hxthread_destroy_def hxthread_join_def split: if_splits)

end
