(* ===== verification/HxPlatform.thy ===== *)
theory HxPlatform
  imports HxConsole
begin

text \<open>
  Initialisation, shutdown, logging and the assert handler of \<^verbatim>\<open>src/libhatchet.cpp\<close>, the settings of \<^verbatim>\<open>src/hxsettings.cpp\<close>, and the
  profiler of \<^verbatim>\<open>src/hxprofiler.cpp\<close> and \<^verbatim>\<open>detail/hxprofiler_detail.hpp\<close>. What is written to a file is the list of its pieces; formatted text is
  given formatted, times are in cycles. The records of the profiler are a list: they are in a vector of fixed capacity, and the locks
  make each call one step.
\<close>

section \<open>Settings, initialisation and shutdown\<close>

datatype hxlog_level = Level_log | Level_console | Level_warning | Level_assert

fun log_rank :: "hxlog_level \<Rightarrow> nat" where
  "log_rank Level_log = 0"
| "log_rank Level_console = 1"
| "log_rank Level_warning = 2"
| "log_rank Level_assert = 3"

record hxsettings =
  set_log_level :: hxlog_level
  set_deallocate_permanent :: bool
  set_test_break_on_failure :: bool
  set_test_filter :: "string option"

definition hxsettings_construct :: hxsettings where
  "hxsettings_construct = \<lparr>set_log_level = Level_log, set_deallocate_permanent = False, set_test_break_on_failure = False, set_test_filter = None\<rparr>"

definition libhatchet_ver :: int where "libhatchet_ver = 15402"

text \<open>\<open>pf_allocating\<close> says whether the memory manager runs.\<close>

record hxplatform =
  pf_init_ver :: int
  pf_settings :: hxsettings
  pf_allocating :: bool

definition hxinit_internal :: "int \<Rightarrow> hxplatform \<Rightarrow> hxplatform hx" where
  "hxinit_internal version p =
     (if \<not> libhatchet_ver = version then Inl (Assert_hard ''hxinit version mismatch'')
      else if \<not> (pf_init_ver p = 0 \<or> pf_init_ver p = libhatchet_ver) then Inl (Assert_hard ''hxinit already run'')
      else if pf_init_ver p = 0
      then Inr (p\<lparr>pf_settings := hxsettings_construct, pf_allocating := True, pf_init_ver := libhatchet_ver\<rparr>)
      else Inr p)"

definition hxinit :: "hxplatform \<Rightarrow> hxplatform hx" where
  "hxinit p = (if pf_init_ver p = libhatchet_ver then Inr p else hxinit_internal libhatchet_ver p)"

definition hxshutdown :: "hxplatform \<Rightarrow> hxplatform" where
  "hxshutdown p = (if pf_init_ver p = libhatchet_ver then p\<lparr>pf_allocating := False, pf_init_ver := 31\<rparr> else p)"

datatype platform_op = Op_init | Op_shutdown

fun platform_step :: "hxplatform \<Rightarrow> platform_op \<Rightarrow> (hxplatform \<times> unit) hx" where
  "platform_step p Op_init = hx_map (\<lambda>p1. (p1, ())) (hxinit p)"
| "platform_step p Op_shutdown = Inr (hxshutdown p, ())"

text \<open>A platform is fresh, running or shut down, and the memory manager runs exactly while it is running.\<close>

definition platform_ok :: "hxplatform \<Rightarrow> bool" where
  "platform_ok p \<longleftrightarrow> pf_init_ver p \<in> {0, libhatchet_ver, 31} \<and> (pf_allocating p \<longleftrightarrow> pf_init_ver p = libhatchet_ver)"

lemma platform_step_ok: "platform_ok p \<Longrightarrow> platform_step p op = Inr (p', u) \<Longrightarrow> platform_ok p'"
  by (cases op) (auto simp: platform_ok_def hxinit_def hxinit_internal_def hxshutdown_def libhatchet_ver_def split: if_splits)

lemma platform_steps_ok: "platform_ok p \<Longrightarrow> run_ops platform_step p ops = (rs, Inr p') \<Longrightarrow> platform_ok p'"
proof (induction ops arbitrary: p rs)
  case (Cons op ops)
  then obtain p1 u where step: "platform_step p op = Inr (p1, u)" by (auto split: sum.splits prod.splits)
  then obtain rs1 where "run_ops platform_step p1 ops = (rs1, Inr p')" using Cons.prems(2) by (auto split: prod.splits)
  then show ?case using Cons.IH [OF platform_step_ok [OF Cons.prems(1) step]] by blast
qed simp

text \<open>Initialising twice does nothing, keeping the settings, and a platform that was shut down never runs again.\<close>

lemma hxinit_once:
  assumes "platform_ok p"
  shows "(pf_init_ver p = libhatchet_ver \<longrightarrow> hxinit p = Inr p) \<and>
    (pf_init_ver p = 0 \<longrightarrow> (\<exists>p'. hxinit p = Inr p' \<and> pf_allocating p' \<and> hxinit p' = Inr p' \<and>
      \<not> pf_allocating (hxshutdown p') \<and> hxinit (hxshutdown p') = Inl (Assert_hard ''hxinit already run'')))"
  by (auto simp: hxinit_def hxinit_internal_def hxshutdown_def libhatchet_ver_def)

section \<open>Logging and asserts\<close>

datatype log_stream = Stream_out | Stream_err

text \<open>\<open>printed\<close> is what \<open>vsnprintf\<close> would print; the result is what is written, if anything.\<close>

definition hxlog_handler_v :: "hxplatform \<Rightarrow> hxlog_level \<Rightarrow> string \<Rightarrow> (log_stream \<times> string) option hx" where
  "hxlog_handler_v p level printed =
     (if log_rank (set_log_level (pf_settings p)) > log_rank level \<and> pf_init_ver p \<noteq> 0 then Inr None
      else if \<not> length printed < hx_max_line - 1 then Inl (Assert_hard ''hxlog_handler_v'')
      else let line = take (hx_max_line - 2) printed
        in Inr (Some (if level = Level_log then Stream_out else Stream_err,
          if level = Level_warning then ''WARNING '' @ line @ [CHR 0x0A]
          else if level = Level_assert then ''ASSERT_FAIL '' @ line @ [CHR 0x0A]
          else line)))"

text \<open>The line with its newline fits the buffer: the newline is written at an index below \<open>HX_MAX_LINE - 1\<close>, and nothing is cut off.\<close>

lemma log_line_fits:
  "hxlog_handler_v p level printed = Inr (Some (stream, out)) \<Longrightarrow>
   length printed < hx_max_line - 1 \<and> (\<exists>pre post. out = pre @ printed @ post \<and> length (printed @ post) \<le> hx_max_line - 1)"
proof -
  assume "hxlog_handler_v p level printed = Inr (Some (stream, out))"
  then have len: "length printed < hx_max_line - 1"
    and out: "out = (if level = Level_warning then ''WARNING '' @ printed @ [CHR 0x0A] else if level = Level_assert then ''ASSERT_FAIL '' @ printed @ [CHR 0x0A] else printed)"
    by (auto simp: hxlog_handler_v_def Let_def split: if_splits)
  show ?thesis
  proof (cases "level = Level_warning \<or> level = Level_assert")
    case True
    then have "\<exists>pre. out = pre @ printed @ [CHR 0x0A]" using out by auto
    then show ?thesis using len by fastforce
  next
    case False
    then have "out = [] @ printed @ []" using out by simp
    then show ?thesis using len by (metis append_Nil2 less_imp_le)
  qed
qed

text \<open>The assert handler cuts the directory off the file name.\<close>

fun after_separators :: "string \<Rightarrow> string \<Rightarrow> string" where
  "after_separators file [] = file"
| "after_separators file (c # it) = (if c = CHR ''/'' \<or> c = CHR 0x5C then after_separators it it else after_separators file it)"

text \<open>The result is the answer of the handler that was set, or a breakpoint message; without either the program ends.\<close>

definition hxassert_handler :: "(string \<Rightarrow> nat \<Rightarrow> bool) option \<Rightarrow> hxplatform \<Rightarrow> string \<Rightarrow> nat \<Rightarrow> bool hx" where
  "hxassert_handler handler p file line =
     (let base = after_separators file file
      in case handler of Some h \<Rightarrow> Inr (h base line)
        | None \<Rightarrow> if set_test_break_on_failure (pf_settings p) then Inr False else Inl Exit_failure)"

lemma after_separators_base:
  "\<exists>pre. pre @ after_separators (w @ it) it = w @ it \<and> (set w \<inter> {CHR ''/'', CHR 0x5C} = {} \<longrightarrow> set (after_separators (w @ it) it) \<inter> {CHR ''/'', CHR 0x5C} = {})"
proof (induction it arbitrary: w)
  case (Cons c it)
  show ?case
  proof (cases "c = CHR ''/'' \<or> c = CHR 0x5C")
    case True
    obtain pre where "pre @ after_separators ([] @ it) it = [] @ it" "set (after_separators ([] @ it) it) \<inter> {CHR ''/'', CHR 0x5C} = {}"
      using Cons.IH [of "[]"] by auto
    then show ?thesis using True by (intro exI [of _ "w @ c # pre"]) auto
  next
    case False
    then show ?thesis using Cons.IH [of "w @ [c]"] by simp
  qed
qed auto

section \<open>The profiler\<close>

record profiler_record =
  rec_label :: string
  rec_begin :: size_t
  rec_end :: size_t
  rec_thread :: u32

record hxprofiler =
  prof_started :: bool
  prof_records :: "profiler_record list"

definition hx_profiler_max_records :: nat where "hx_profiler_max_records = 4096"

definition hxprofiler_new :: hxprofiler where "hxprofiler_new = \<lparr>prof_started = False, prof_records = []\<rparr>"

definition hxprofiler_start :: "hxprofiler \<Rightarrow> hxprofiler" where
  "hxprofiler_start s = s\<lparr>prof_records := [], prof_started := True\<rparr>"

definition hxprofiler_stop :: "hxprofiler \<Rightarrow> hxprofiler" where
  "hxprofiler_stop s = s\<lparr>prof_started := False\<rparr>"

text \<open>The destructor of a scope that was entered at \<open>t0\<close>.\<close>

definition profiler_scope_end :: "size_t \<Rightarrow> hxprofiler \<Rightarrow> string \<Rightarrow> size_t \<Rightarrow> size_t \<Rightarrow> u32 \<Rightarrow> hxprofiler" where
  "profiler_scope_end min_cycles s label t0 t1 thread =
     (if prof_started s
      then if t1 - t0 \<ge> min_cycles
        then if length (prof_records s) \<noteq> hx_profiler_max_records
          then s\<lparr>prof_records := prof_records s @ [\<lparr>rec_label = label, rec_begin = t0, rec_end = t1, rec_thread = thread\<rparr>]\<rparr>
          else s
        else s
      else s)"

record profiler_sample =
  smp_label :: string
  smp_begin :: u64
  smp_end :: u64
  smp_thread :: u32

datatype profiler_piece = Piece_header u64 u32 u32 | Piece_samples "profiler_sample list"

text \<open>\<open>memset\<close> and \<open>strncpy\<close>: at most 15 characters of the label, filled up with zeros.\<close>

definition sample_of :: "profiler_record \<Rightarrow> profiler_sample" where
  "sample_of r = \<lparr>smp_label = take 15 (rec_label r) @ replicate (16 - length (take 15 (rec_label r))) (CHR 0x00),
     smp_begin = rec_begin r, smp_end = rec_end r, smp_thread = rec_thread r\<rparr>"

fun write_samples :: "profiler_record list \<Rightarrow> profiler_sample list \<Rightarrow> profiler_piece list" where
  "write_samples [] samples = (if length samples \<noteq> 0 then [Piece_samples samples] else [])"
| "write_samples (r # recs) samples =
     (let samples1 = samples @ [sample_of r]
      in if length samples1 = 16 then Piece_samples samples1 # write_samples recs [] else write_samples recs samples1)"

definition hxprofiler_write :: "hxprofiler \<Rightarrow> hxprofiler \<times> profiler_piece list" where
  "hxprofiler_write s =
     (s\<lparr>prof_started := False\<rparr>,
      Piece_header 0x0123456789abcdef 100 (word_of_nat (length (prof_records s))) # write_samples (prof_records s) [])"

text \<open>The events of a trace: the label, whether the scope begins or ends, the thread and the cycles since the first record.\<close>

datatype trace_event = Trace_begin string u32 size_t | Trace_end string u32 size_t

definition trace_record :: "size_t \<Rightarrow> profiler_record \<Rightarrow> trace_event list" where
  "trace_record epoch r =
     (if rec_end r < rec_begin r then []
      else [Trace_begin (rec_label r) (rec_thread r) (rec_begin r - epoch), Trace_end (rec_label r) (rec_thread r) (rec_end r - epoch)])"

definition hxprofiler_write_to_chrome_tracing :: "hxprofiler \<Rightarrow> hxprofiler \<times> trace_event list" where
  "hxprofiler_write_to_chrome_tracing s =
     (s\<lparr>prof_started := False\<rparr>,
      if prof_records s \<noteq> [] then let epoch = rec_begin (prof_records s ! 0) in concat (map (trace_record epoch) (prof_records s)) else [])"

text \<open>The pieces of a file hold every record once and in order, none longer than the buffer.\<close>

fun piece_samples :: "profiler_piece \<Rightarrow> profiler_sample list" where
  "piece_samples (Piece_header h v n) = []"
| "piece_samples (Piece_samples xs) = xs"

lemma write_samples_all:
  "length samples < 16 \<Longrightarrow> concat (map piece_samples (write_samples recs samples)) = samples @ map sample_of recs \<and>
   list_all (\<lambda>p. length (piece_samples p) \<le> 16) (write_samples recs samples)"
  by (induction recs arbitrary: samples) (auto simp: Let_def)

lemma sample_label_terminated: "length (smp_label (sample_of r)) = 16 \<and> smp_label (sample_of r) ! 15 = CHR 0x00"
  by (simp add: sample_of_def nth_append)

text \<open>Scopes are recorded when they end, so a scope inside another is recorded first and its beginning is the epoch; the time of
  the outer scope's beginning wraps around to almost \<open>2\<^sup>64\<close> cycles.\<close>

lemma trace_wraps_outer_scope:
  assumes "t0 < t1" and "t1 \<le> t2" and "t2 \<le> t3"
  shows "\<exists>dt. snd (hxprofiler_write_to_chrome_tracing
      (profiler_scope_end 0 (profiler_scope_end 0 (hxprofiler_start s) inner t1 t2 thread) outer t0 t3 thread)) =
    [Trace_begin inner thread 0, Trace_end inner thread (t2 - t1), Trace_begin outer thread dt, Trace_end outer thread (t3 - t1)] \<and>
    uint dt = 2 ^ 64 - (uint t1 - uint t0)"
proof -
  have order: "\<not> t2 < t1" "\<not> t3 < t0" using assms by auto
  have "uint (t0 - t1) = 2 ^ 64 - (uint t1 - uint t0)" using assms(1) by (simp add: uint_sub_if' word_less_def word_le_def)
  then show ?thesis
    using order by (intro exI [of _ "t0 - t1"]) (simp add: hxprofiler_write_to_chrome_tracing_def profiler_scope_end_def hxprofiler_start_def
        trace_record_def hx_profiler_max_records_def Let_def)
qed

end
