(* ===== verification/HxTest.thy ===== *)
theory HxTest
  imports HxKey HxConsole
begin

text \<open>
  The test runner of \<^verbatim>\<open>src/hxtest.cpp\<close> and \<^verbatim>\<open>detail/hxtest_detail.hpp\<close>: the filter of test names by glob patterns, the
  comparison of floating point values by units in the last place, and the dispatcher, which counts what passes and fails. A test is
  the list of the conditions it checks; breakpoints, the calls of the stack allocator (with the
  assertion before the first test that its temporary stacks are empty), exceptions thrown by a test and the text of the messages are not modelled;
  whether a test leaks from the stacks is an argument.
\<close>

section \<open>Glob patterns\<close>

text \<open>The pattern left, the target left, and where to go back to: the pattern after the last star and the target it was tried at.
  The loop is \<open>None\<close> if it does not end.\<close>

partial_function (option) pattern_match_loop :: "string \<Rightarrow> string \<Rightarrow> (string \<times> string) option \<Rightarrow> bool option" where
  "pattern_match_loop p t star =
     (if p \<noteq> [] \<and> hd p = CHR ''*'' then pattern_match_loop (tl p) t (Some (tl p, t))
      else if t \<noteq> [] \<and> p \<noteq> [] \<and> hd p = hd t then pattern_match_loop (tl p) (tl t) star
      else if t = [] then Some (p = [])
      else case star of Some (sp, st) \<Rightarrow> pattern_match_loop sp (tl st) (Some (sp, tl st)) | None \<Rightarrow> Some False)"

definition hxtest_pattern_match :: "string \<Rightarrow> string \<Rightarrow> bool option" where
  "hxtest_pattern_match p t = pattern_match_loop p t None"

text \<open>The lists of patterns separated by colons; \<open>memchr\<close> finds the end of the first.\<close>

definition first_pattern :: "string \<Rightarrow> string" where
  "first_pattern ps = takeWhile (\<lambda>c. c \<noteq> CHR '':'') ps"

definition after_pattern :: "string \<Rightarrow> string" where
  "after_pattern ps = dropWhile (\<lambda>c. c \<noteq> CHR '':'') ps"

lemma after_pattern_shorter: "after_pattern ps \<noteq> [] \<Longrightarrow> length (after_pattern ps) - Suc 0 < length ps"
proof -
  assume "after_pattern ps \<noteq> []"
  moreover have "length (after_pattern ps) \<le> length ps" unfolding after_pattern_def by (rule length_dropWhile_le)
  ultimately show ?thesis by (cases "after_pattern ps") auto
qed

function pattern_list_valid_loop :: "string \<Rightarrow> bool" where
  "pattern_list_valid_loop ps =
     (if first_pattern ps = [] then False
      else if after_pattern ps = [] then True
      else pattern_list_valid_loop (tl (after_pattern ps)))"
  by pat_completeness auto
termination by (relation "measure length") (simp_all add: after_pattern_shorter)

definition hxtest_pattern_list_valid :: "string \<Rightarrow> bool" where
  "hxtest_pattern_list_valid ps = (if ps = [] then False else pattern_list_valid_loop ps)"

function hxtest_pattern_list_match :: "string \<Rightarrow> string \<Rightarrow> bool option" where
  "hxtest_pattern_list_match ps t =
     (case hxtest_pattern_match (first_pattern ps) t of None \<Rightarrow> None
      | Some True \<Rightarrow> Some True
      | Some False \<Rightarrow> if after_pattern ps = [] then Some False else hxtest_pattern_list_match (tl (after_pattern ps)) t)"
  by pat_completeness auto
termination by (relation "measure (\<lambda>(ps, t). length ps)") (simp_all add: after_pattern_shorter)

declare pattern_list_valid_loop.simps [simp del] hxtest_pattern_list_match.simps [simp del]

section \<open>Test cases and the filter\<close>

record hxtest_case =
  tc_suite :: string
  tc_case :: string
  tc_line :: int

definition test_target :: "hxtest_case \<Rightarrow> string" where
  "test_target c = tc_suite c @ ''.'' @ tc_case c"

text \<open>The parts of a filter before and after the first dash; no dash gives no negative part.\<close>

definition filter_positive :: "string \<Rightarrow> string" where
  "filter_positive f = takeWhile (\<lambda>c. c \<noteq> CHR ''-'') f"

definition filter_negative :: "string \<Rightarrow> string option" where
  "filter_negative f = (case dropWhile (\<lambda>c. c \<noteq> CHR ''-'') f of [] \<Rightarrow> None | _ # ps \<Rightarrow> Some ps)"

definition filter_keeps :: "string \<Rightarrow> string \<Rightarrow> bool option" where
  "filter_keeps f t =
     (case (if filter_positive f = [] then Some True else hxtest_pattern_list_match (filter_positive f) t) of None \<Rightarrow> None
      | Some positive_match \<Rightarrow>
        (case (case filter_negative f of None \<Rightarrow> Some False | Some ps \<Rightarrow> hxtest_pattern_list_match ps t) of None \<Rightarrow> None
         | Some negative_match \<Rightarrow> Some (positive_match \<and> \<not> negative_match)))"

text \<open>The loop over the array: a test that is not kept is overwritten with the last one, which is looked at next.\<close>

function filter_loop :: "string \<Rightarrow> hxtest_case list \<Rightarrow> nat \<Rightarrow> nat \<Rightarrow> (hxtest_case list \<times> nat) run" where
  "filter_loop f cs i e =
     (if \<not> i < e then Some (Inr (cs, e))
      else if \<not> length (test_target (cs ! i)) < hx_max_line then Some (Inl (Assert_always ''test_name_size''))
      else case filter_keeps f (test_target (cs ! i)) of None \<Rightarrow> None
        | Some keeps \<Rightarrow> if keeps then filter_loop f cs (i + 1) e else filter_loop f (cs[i := cs ! (e - 1)]) i (e - 1))"
  by pat_completeness auto
termination by (relation "measure (\<lambda>(f, cs, i, e). e - i)") auto

declare filter_loop.simps [simp del]

definition hxtest_filter :: "string \<Rightarrow> hxtest_case list \<Rightarrow> (hxtest_case list \<times> nat) run" where
  "hxtest_filter f cs =
     (let positive = filter_positive f
      in if \<not> (positive = [] \<or> hxtest_pattern_list_valid positive) \<or>
            (case filter_negative f of None \<Rightarrow> False | Some ps \<Rightarrow> \<not> hxtest_pattern_list_valid ps)
         then Some (Inr (cs, 0))
         else filter_loop f cs 0 (length cs))"

section \<open>Comparing floating point values\<close>

text \<open>A \<open>float\<close> or \<open>double\<close> is its bits. Two finite values are equal when their bits are or both are zeros.\<close>

text \<open>The bits as a number in the order of the values.\<close>

definition ulp_key :: "'a::len word \<Rightarrow> 'a word \<Rightarrow> 'a word" where
  "ulp_key sign_mask u = (if u AND sign_mask \<noteq> 0 then NOT u + 1 else sign_mask OR u)"

definition hxtest_float_eq :: "u32 \<Rightarrow> u32 \<Rightarrow> bool" where
  "hxtest_float_eq ua ub =
     (if ua AND 0x7f800000 = 0x7f800000 then False
      else if ub AND 0x7f800000 = 0x7f800000 then False
      else if ua = ub \<or> ua AND 0x7fffffff = 0 \<and> ub AND 0x7fffffff = 0 then True
      else let sign_mask = push_bit 31 1; ba = ulp_key sign_mask ua; bb = ulp_key sign_mask ub;
               delta = (if ba \<ge> bb then ba - bb else bb - ba)
           in delta \<le> 4)"

definition hxtest_double_eq :: "u64 \<Rightarrow> u64 \<Rightarrow> bool" where
  "hxtest_double_eq ua ub =
     (if ua AND 0x7ff0000000000000 = 0x7ff0000000000000 then False
      else if ub AND 0x7ff0000000000000 = 0x7ff0000000000000 then False
      else if ua = ub \<or> ua AND 0x7fffffffffffffff = 0 \<and> ub AND 0x7fffffffffffffff = 0 then True
      else let sign_mask = push_bit 63 1; ba = ulp_key sign_mask ua; bb = ulp_key sign_mask ub;
               delta = (if ba \<ge> bb then ba - bb else bb - ba)
           in delta \<le> 4)"

section \<open>The dispatcher\<close>

datatype test_state = Nothing_asserted | Pass | Fail

datatype test_message = Test_fail_at hxtest_case | Remaining_silent | Test_ok hxtest_case | Test_failed hxtest_case

record hxtest =
  ht_cases :: "hxtest_case list"
  ht_current :: "hxtest_case option"
  ht_state :: test_state
  ht_pass :: int
  ht_fail :: int
  ht_total_assert :: int
  ht_assert :: int
  ht_log :: "test_message list"

definition hxtest_new :: hxtest where
  "hxtest_new = \<lparr>ht_cases = [], ht_current = None, ht_state = Nothing_asserted, ht_pass = 0, ht_fail = 0, ht_total_assert = 0, ht_assert = 0, ht_log = []\<rparr>"

definition hx_test_max_cases :: nat where "hx_test_max_cases = 1024"

definition hxmax_fail_messages :: int where "hxmax_fail_messages = 5"

definition hxtest_add_test :: "hxtest \<Rightarrow> hxtest_case \<Rightarrow> hxtest hx" where
  "hxtest_add_test s c =
     (if length (ht_cases s) = hx_test_max_cases then Inl (Assert_always ''HX_TEST_MAX_CASES overflow'')
      else Inr (s\<lparr>ht_cases := ht_cases s @ [c]\<rparr>))"

definition hxtest_condition_check :: "hxtest \<Rightarrow> bool \<Rightarrow> bool \<Rightarrow> hxtest hx" where
  "hxtest_condition_check s condition is_assert =
     (case ht_current s of None \<Rightarrow> Inl (Assert_always ''test_not_started'')
      | Some c \<Rightarrow>
        let s1 = s\<lparr>ht_state := (if condition \<and> ht_state s \<noteq> Fail then Pass else Fail)\<rparr>
        in if condition then Inr s1
           else let s2 = s1\<lparr>ht_total_assert := ht_total_assert s1 + 1, ht_assert := ht_assert s1 + 1\<rparr>
             in if is_assert then Inl Exit_failure
                else if ht_assert s2 > hxmax_fail_messages
                then Inr (if ht_assert s2 = hxmax_fail_messages + 1 then s2\<lparr>ht_log := ht_log s2 @ [Remaining_silent]\<rparr> else s2)
                else Inr (s2\<lparr>ht_log := ht_log s2 @ [Test_fail_at c]\<rparr>))"

text \<open>A test body: the conditions it checks, each with whether it is an \<open>ASSERT_\<close>, one after the other.\<close>

fun run_body :: "hxtest \<Rightarrow> (bool \<times> bool) list \<Rightarrow> hxtest hx" where
  "run_body s [] = Inr s"
| "run_body s ((condition, is_assert) # checks) = hx_bind (hxtest_condition_check s condition is_assert) (\<lambda>s1. run_body s1 checks)"

text \<open>\<open>checks c\<close> is what the test \<open>c\<close> checks, \<open>leaks c\<close> says that it leaves something allocated on a temporary stack.\<close>

definition run_test :: "(hxtest_case \<Rightarrow> (bool \<times> bool) list) \<Rightarrow> (hxtest_case \<Rightarrow> bool) \<Rightarrow> hxtest \<Rightarrow> hxtest_case \<Rightarrow> hxtest hx" where
  "run_test checks leaks s c =
     hx_bind (run_body (s\<lparr>ht_current := Some c, ht_state := Nothing_asserted, ht_assert := 0\<rparr>) (checks c)) (\<lambda>s1.
     hx_bind (if leaks c then hxtest_condition_check s1 False True else Inr s1) (\<lambda>s2.
     hx_map (\<lambda>s3. if ht_state s3 = Pass then s3\<lparr>ht_pass := ht_pass s3 + 1, ht_log := ht_log s3 @ [Test_ok c]\<rparr>
         else s3\<lparr>ht_fail := ht_fail s3 + 1, ht_log := ht_log s3 @ [Test_failed c]\<rparr>)
       (if ht_state s2 = Nothing_asserted then hxtest_condition_check s2 False False else Inr s2)))"

fun run_tests :: "(hxtest_case \<Rightarrow> (bool \<times> bool) list) \<Rightarrow> (hxtest_case \<Rightarrow> bool) \<Rightarrow> hxtest \<Rightarrow> hxtest_case list \<Rightarrow> hxtest hx" where
  "run_tests checks leaks s [] = Inr s"
| "run_tests checks leaks s (c # cs) = hx_bind (run_test checks leaks s c) (\<lambda>s1. run_tests checks leaks s1 cs)"

text \<open>The order of the tests, by suite and then by line; \<open>qsort\<close> may put tests that compare equal in any order.\<close>

definition test_before :: "hxtest_case \<Rightarrow> hxtest_case \<Rightarrow> bool" where
  "test_before a b = (let compare = strcmp (tc_suite a) (tc_suite b) in if compare \<noteq> 0 then compare < 0 else tc_line a - tc_line b < 0)"

fun insert_test :: "hxtest_case \<Rightarrow> hxtest_case list \<Rightarrow> hxtest_case list" where
  "insert_test c [] = [c]"
| "insert_test c (d # ds) = (if test_before d c then d # insert_test c ds else c # d # ds)"

definition sort_tests :: "hxtest_case list \<Rightarrow> hxtest_case list" where
  "sort_tests cs = foldr insert_test cs []"

text \<open>Running the tests that are left after the filter.\<close>

definition run_filtered :: "(hxtest_case \<Rightarrow> (bool \<times> bool) list) \<Rightarrow> (hxtest_case \<Rightarrow> bool) \<Rightarrow> hxtest \<Rightarrow> (int \<times> hxtest) hx" where
  "run_filtered checks leaks s =
     hx_bind (run_tests checks leaks (s\<lparr>ht_cases := sort_tests (ht_cases s), ht_pass := 0, ht_fail := 0, ht_total_assert := 0\<rparr>) (sort_tests (ht_cases s))) (\<lambda>s1.
       let s2 = s1\<lparr>ht_current := None\<rparr>
       in if ht_pass s2 + ht_fail s2 = 0 then Inl (Assert_always ''nothing_tested'')
          else if ht_pass s2 \<noteq> 0 \<and> ht_fail s2 = 0 then Inr (ht_fail s2, s2)
          else let s3 = s2\<lparr>ht_fail := max (ht_fail s2) 1\<rparr> in Inr (ht_fail s3, s3))"

definition run_all_tests :: "string option \<Rightarrow> (hxtest_case \<Rightarrow> (bool \<times> bool) list) \<Rightarrow> (hxtest_case \<Rightarrow> bool) \<Rightarrow> hxtest \<Rightarrow> (int \<times> hxtest) run" where
  "run_all_tests test_filter checks leaks s =
     (case test_filter of None \<Rightarrow> Some (run_filtered checks leaks s)
      | Some f \<Rightarrow> run_bind (hxtest_filter f (ht_cases s)) (\<lambda>(cs, new_end).
          if take new_end cs = [] then Some (Inl (Assert_always ''gtest_filter no matches''))
          else Some (run_filtered checks leaks (s\<lparr>ht_cases := take new_end cs\<rparr>))))"

section \<open>What a pattern matches\<close>

text \<open>The texts of a pattern: every star stands for some text.\<close>

inductive glob :: "string \<Rightarrow> string \<Rightarrow> bool" where
  glob_Nil: "glob [] []"
| glob_char: "c \<noteq> CHR ''*'' \<Longrightarrow> glob p t \<Longrightarrow> glob (c # p) (c # t)"
| glob_star: "glob p t \<Longrightarrow> glob (CHR ''*'' # p) (s @ t)"

inductive_simps glob_Nil_iff [simp]: "glob [] t"
inductive_simps glob_star_iff: "glob (CHR ''*'' # p) t"
inductive_simps glob_Cons_iff: "glob (c # p) t"

lemma glob_char_iff: "c \<noteq> CHR ''*'' \<Longrightarrow> glob (c # p) t \<longleftrightarrow> (\<exists>u. t = c # u \<and> glob p u)"
  by (auto simp: glob_Cons_iff)

lemma glob_literal: "CHR ''*'' \<notin> set w \<Longrightarrow> glob (w @ p) t \<longleftrightarrow> (\<exists>u. t = w @ u \<and> glob p u)"
  by (induction w arbitrary: t) (auto simp: glob_char_iff)

text \<open>What the loop still has to try after the last star: the pattern after it at a later place.\<close>

definition glob_later :: "string \<Rightarrow> string \<Rightarrow> bool" where
  "glob_later sp st \<longleftrightarrow> (\<exists>s u. st = s @ u \<and> s \<noteq> [] \<and> glob sp u)"

lemma glob_star_later: "glob (CHR ''*'' # p) t \<longleftrightarrow> glob p t \<or> glob_later p t"
proof
  assume "glob (CHR ''*'' # p) t"
  then obtain s u where "t = s @ u" "glob p u" by (auto simp: glob_star_iff)
  then show "glob p t \<or> glob_later p t" unfolding glob_later_def by (cases "s = []") auto
next
  assume "glob p t \<or> glob_later p t"
  then obtain s u where "t = s @ u" "glob p u" by (auto simp: glob_later_def)
  then show "glob (CHR ''*'' # p) t" by (simp add: glob_star)
qed

lemma glob_later_Cons: "glob_later sp (c # st) \<longleftrightarrow> glob sp st \<or> glob_later sp st"
  unfolding glob_star_later [symmetric] glob_star_iff by (auto simp: glob_later_def Cons_eq_append_conv)

text \<open>When the loop reaches the next star, an earlier star need not be tried again: what it would still match is matched by the
  next one.\<close>

lemma glob_later_star:
  assumes w: "CHR ''*'' \<notin> set w" and later: "glob_later (w @ CHR ''*'' # p) (w @ t)"
  shows "glob (CHR ''*'' # p) t"
proof -
  obtain s u where u: "w @ t = (s @ w) @ u" "s \<noteq> []" "glob (CHR ''*'' # p) u"
    using later glob_literal [OF w] by (auto simp: glob_later_def)
  from u(1) obtain us where "t = us @ u"
    unfolding append_eq_append_conv2 using u(2) by (auto dest: arg_cong [of _ _ length])
  moreover obtain s2 u2 where "u = s2 @ u2" "glob p u2" using u(3) by (auto simp: glob_star_iff)
  ultimately show ?thesis using glob_star [of p u2 "us @ s2"] by simp
qed

lemma glob_later_short:
  assumes w: "CHR ''*'' \<notin> set w"
  shows "\<not> glob_later (w @ p) w"
proof
  assume "glob_later (w @ p) w"
  then obtain s u where "w = s @ w @ u" "s \<noteq> []" using glob_literal [OF w] by (auto simp: glob_later_def)
  then have "length w = length s + (length w + length u)" "length s \<noteq> 0" by (metis length_append, simp)
  then show False by simp
qed

text \<open>The loop ends with whether the pattern matches here or after the last star at a later place.\<close>

lemma pattern_match_loop_star:
  "CHR ''*'' \<notin> set w \<Longrightarrow> pattern_match_loop p t (Some (w @ p, w @ t)) = Some (glob p t \<or> glob_later (w @ p) (w @ t))"
proof (induction "(length (w @ p), length (w @ t), length p)" arbitrary: w p t rule: wf_induct_rule [OF wf_measures [of "[fst, fst \<circ> snd, snd \<circ> snd]"]])
  case (1 w p t)
  note step = pattern_match_loop.simps [of p t "Some (w @ p, w @ t)"]
  consider (star) q where "p = CHR ''*'' # q" | (same) c q u where "p = c # q" "t = c # u" "c \<noteq> CHR ''*''"
    | (ended) "t = []" "p = [] \<or> hd p \<noteq> CHR ''*''" | (mismatch) c u where "t = c # u" "p = [] \<or> hd p \<noteq> CHR ''*'' \<and> hd p \<noteq> c"
    by (cases p; cases t) auto
  then show ?case
  proof cases
    case star
    have "pattern_match_loop q t (Some ([] @ q, [] @ t)) = Some (glob q t \<or> glob_later ([] @ q) ([] @ t))"
      by (rule "1.hyps") (simp_all add: star)
    then show ?thesis unfolding step using glob_later_star [OF "1.prems", of q t] by (auto simp: star glob_star_later)
  next
    case same
    have "pattern_match_loop q u (Some ((w @ [c]) @ q, (w @ [c]) @ u)) = Some (glob q u \<or> glob_later ((w @ [c]) @ q) ((w @ [c]) @ u))"
      by (rule "1.hyps") (use same "1.prems" in simp_all)
    then show ?thesis unfolding step using same by (simp add: glob_char_iff)
  next
    case ended
    then have "glob p [] \<longleftrightarrow> p = []" by (cases p) (auto simp: glob_char_iff)
    then show ?thesis using ended glob_later_short [OF "1.prems", of p] unfolding step by auto
  next
    case mismatch
    have "\<not> glob p t" using mismatch by (cases p) (auto simp: glob_char_iff)
    moreover have "pattern_match_loop (w @ p) (tl (w @ t)) (Some ([] @ w @ p, [] @ tl (w @ t))) =
        Some (glob (w @ p) (tl (w @ t)) \<or> glob_later ([] @ w @ p) ([] @ tl (w @ t)))"
      by (rule "1.hyps") (use mismatch in \<open>simp_all\<close>)
    moreover obtain d v where "w @ t = d # v" using mismatch by (cases "w @ t") auto
    ultimately show ?thesis unfolding step using mismatch by (auto simp: glob_later_Cons)
  qed
qed

lemma pattern_match_loop_none: "pattern_match_loop p t None = Some (glob p t)"
proof (induction p arbitrary: t)
  case Nil
  then show ?case by (simp add: pattern_match_loop.simps [of "[]"])
next
  case (Cons c p)
  note step = pattern_match_loop.simps [of "c # p" t None]
  show ?case
  proof (cases "c = CHR ''*''")
    case True
    then show ?thesis unfolding step using pattern_match_loop_star [of "[]" p t] by (simp add: glob_star_later)
  next
    case False
    then show ?thesis using Cons.IH unfolding step by (cases t) (auto simp: glob_char_iff)
  qed
qed


section \<open>Lists of patterns and the filter\<close>

text \<open>The pieces of a text between its colons.\<close>

fun split_colons :: "string \<Rightarrow> string list" where
  "split_colons [] = [[]]"
| "split_colons (c # cs) = (if c = CHR '':'' then [] # split_colons cs else (c # hd (split_colons cs)) # tl (split_colons cs))"

lemma split_colons_unfold:
  "split_colons ps = first_pattern ps # (if after_pattern ps = [] then [] else split_colons (tl (after_pattern ps)))"
  by (induction ps) (auto simp: first_pattern_def after_pattern_def)

lemma pattern_list_valid: "hxtest_pattern_list_valid ps \<longleftrightarrow> [] \<notin> set (split_colons ps)"
proof -
  have "pattern_list_valid_loop ps \<longleftrightarrow> [] \<notin> set (split_colons ps)" for ps
  proof (induction ps rule: pattern_list_valid_loop.induct)
    case (1 ps)
    show ?case using "1.IH" by (subst pattern_list_valid_loop.simps, subst split_colons_unfold) auto
  qed
  then show ?thesis by (simp add: hxtest_pattern_list_valid_def)
qed

lemma pattern_match: "hxtest_pattern_match p t = Some (glob p t)"
  by (simp add: hxtest_pattern_match_def pattern_match_loop_none)

definition glob_any :: "string \<Rightarrow> string \<Rightarrow> bool" where
  "glob_any ps t \<longleftrightarrow> (\<exists>p \<in> set (split_colons ps). glob p t)"

lemma pattern_list_match: "hxtest_pattern_list_match ps t = Some (glob_any ps t)"
proof (induction ps rule: measure_induct_rule [of length])
  case (less ps)
  have "glob_any ps t \<longleftrightarrow> glob (first_pattern ps) t \<or> after_pattern ps \<noteq> [] \<and> glob_any (tl (after_pattern ps)) t"
    unfolding glob_any_def by (subst split_colons_unfold) auto
  then show ?case
    using less.IH [of "tl (after_pattern ps)"] after_pattern_shorter [of ps]
    by (subst hxtest_pattern_list_match.simps) (simp add: pattern_match split: bool.split)
qed

text \<open>The tests a filter selects.\<close>

definition test_selected :: "string \<Rightarrow> string \<Rightarrow> bool" where
  "test_selected f t \<longleftrightarrow> (filter_positive f = [] \<or> glob_any (filter_positive f) t) \<and>
     \<not> (case filter_negative f of None \<Rightarrow> False | Some ps \<Rightarrow> glob_any ps t)"

definition filter_valid :: "string \<Rightarrow> bool" where
  "filter_valid f \<longleftrightarrow> (filter_positive f = [] \<or> [] \<notin> set (split_colons (filter_positive f))) \<and>
     (case filter_negative f of None \<Rightarrow> True | Some ps \<Rightarrow> [] \<notin> set (split_colons ps))"

lemma filter_keeps: "filter_keeps f t = Some (test_selected f t)"
  by (cases "filter_negative f") (simp_all add: filter_keeps_def pattern_list_match test_selected_def)

abbreviation target_fits :: "hxtest_case \<Rightarrow> bool" where
  "target_fits c \<equiv> length (test_target c) < hx_max_line"

lemma slice_Cons: "i < e \<Longrightarrow> e \<le> length cs \<Longrightarrow> drop i (take e cs) = cs ! i # drop (Suc i) (take e cs)"
  using Cons_nth_drop_Suc [of i "take e cs"] by simp

lemma slice_swap:
  assumes "i < e" and "e \<le> length cs"
  shows "mset (drop i (take (e - 1) (cs[i := cs ! (e - 1)]))) + {#cs ! i#} = mset (drop i (take e cs))"
proof -
  have last_one: "take e cs = take (e - 1) cs @ [cs ! (e - 1)]" using assms take_Suc_conv_app_nth [of "e - 1" cs] by simp
  show ?thesis
  proof (cases "i = e - 1")
    case True
    then show ?thesis using assms by (simp add: last_one)
  next
    case False
    then have "drop i (take (e - 1) (cs[i := cs ! (e - 1)])) = cs ! (e - 1) # drop (Suc i) (take (e - 1) cs)"
      using assms slice_Cons [of i "e - 1" "cs[i := cs ! (e - 1)]"] by (simp add: drop_take)
    moreover have "drop i (take e cs) = cs ! i # drop (Suc i) (take (e - 1) cs) @ [cs ! (e - 1)]"
      using False assms slice_Cons [of i "e - 1" cs] by (simp add: last_one)
    ultimately show ?thesis by simp
  qed
qed

lemma filter_loop_selects:
  assumes "i \<le> e" and "e \<le> length cs"
  shows "if \<forall>c \<in> set (drop i (take e cs)). target_fits c
    then \<exists>cs' e'. filter_loop f cs i e = Some (Inr (cs', e')) \<and> i \<le> e' \<and> e' \<le> length cs' \<and> take i cs' = take i cs \<and>
      mset (drop i (take e' cs')) = filter_mset (\<lambda>c. test_selected f (test_target c)) (mset (drop i (take e cs)))
    else filter_loop f cs i e = Some (Inl (Assert_always ''test_name_size''))"
  using assms
proof (induction "e - i" arbitrary: i e cs rule: less_induct)
  case less
  show ?case
  proof (cases "i < e")
    case False
    then show ?thesis using less.prems by (simp add: filter_loop.simps)
  next
    case True
    have here: "drop i (take e cs) = cs ! i # drop (Suc i) (take e cs)" by (rule slice_Cons [OF True less.prems(2)])
    show ?thesis
    proof (cases "target_fits (cs ! i)")
      case False
      then show ?thesis using True here by (simp add: filter_loop.simps)
    next
      case fits: True
      show ?thesis
      proof (cases "test_selected f (test_target (cs ! i))")
        case True
        have step: "filter_loop f cs i e = filter_loop f cs (Suc i) e"
          using True \<open>i < e\<close> fits by (subst filter_loop.simps) (simp add: filter_keeps)
        from less.hyps [of e "Suc i" cs] less.prems \<open>i < e\<close>
        have IH: "if \<forall>c \<in> set (drop (Suc i) (take e cs)). target_fits c
          then \<exists>cs' e'. filter_loop f cs (Suc i) e = Some (Inr (cs', e')) \<and> Suc i \<le> e' \<and> e' \<le> length cs' \<and> take (Suc i) cs' = take (Suc i) cs \<and>
            mset (drop (Suc i) (take e' cs')) = filter_mset (\<lambda>c. test_selected f (test_target c)) (mset (drop (Suc i) (take e cs)))
          else filter_loop f cs (Suc i) e = Some (Inl (Assert_always ''test_name_size''))" by simp
        show ?thesis
        proof (cases "\<forall>c \<in> set (drop (Suc i) (take e cs)). target_fits c")
          case all: True
          then obtain cs' e' where r: "filter_loop f cs (Suc i) e = Some (Inr (cs', e'))" "Suc i \<le> e'" "e' \<le> length cs'" "take (Suc i) cs' = take (Suc i) cs"
            "mset (drop (Suc i) (take e' cs')) = filter_mset (\<lambda>c. test_selected f (test_target c)) (mset (drop (Suc i) (take e cs)))"
            using IH by auto
          have "cs' ! i = cs ! i" using r(4) by (metis lessI nth_take)
          then have "drop i (take e' cs') = cs ! i # drop (Suc i) (take e' cs')" using slice_Cons [of i e' cs'] r(2,3) by simp
          moreover have "take i cs' = take i cs" using arg_cong [OF r(4), of "take i"] by simp
          ultimately show ?thesis using r all fits True here step by (auto intro!: exI [of _ cs'] exI [of _ e'])
        next
          case some: False
          then show ?thesis using IH here step by auto
        qed
      next
        case drops: False
        obtain cs2 e2 where two: "cs2 = cs[i := cs ! (e - 1)]" "e2 = e - 1" by blast
        have step: "filter_loop f cs i e = filter_loop f cs2 i e2"
          using drops \<open>i < e\<close> fits unfolding two by (subst filter_loop.simps) (simp add: filter_keeps)
        have bounds: "e2 - i < e - i" "i \<le> e2" "e2 \<le> length cs2" "take i cs2 = take i cs" using \<open>i < e\<close> less.prems by (simp_all add: two)
        have swap: "mset (drop i (take e cs)) = mset (drop i (take e2 cs2)) + {#cs ! i#}"
          unfolding two using slice_swap [OF \<open>i < e\<close> less.prems(2)] by (simp only:)
        then have members: "set (drop i (take e cs)) = insert (cs ! i) (set (drop i (take e2 cs2)))"
          by (metis add_mset_add_single set_mset_add_mset_insert set_mset_mset)
        have kept: "filter_mset (\<lambda>c. test_selected f (test_target c)) (mset (drop i (take e cs))) =
            filter_mset (\<lambda>c. test_selected f (test_target c)) (mset (drop i (take e2 cs2)))"
          unfolding swap using drops by simp
        show ?thesis
          using less.hyps [OF bounds(1-3)] fits unfolding step kept members bounds(4) by simp
      qed
    qed
  qed
qed

section \<open>Units in the last place\<close>

text \<open>The place of a float among all floats of its width, both zeros at place 0.\<close>

definition float_place :: "'a::len word \<Rightarrow> int" where
  "float_place u = (if bit u (LENGTH('a) - 1) then 2 ^ (LENGTH('a) - 1) - uint u else uint u)"

lemma word_half:
  fixes u :: "'a::len word"
  shows "bit u (LENGTH('a) - 1) \<longleftrightarrow> 2 ^ (LENGTH('a) - 1) \<le> uint u"
proof -
  obtain n where n: "LENGTH('a) = Suc n" using len_gt_0 [where 'a = 'a] by (cases "LENGTH('a)") auto
  have "uint u < 2 * 2 ^ n" using uint_bounded [of u] n by simp
  then have "uint u div 2 ^ n = (if 2 ^ n \<le> uint u then 1 else 0)"
    using uint_nonnegative [of u] by (auto simp: div_pos_pos_trivial int_div_pos_eq [of _ _ 1 "uint u - 2 ^ n"])
  moreover have "bit u n \<longleftrightarrow> bit (uint u) n" using n by (simp add: bit_uint_iff)
  ultimately show ?thesis using n by (simp add: bit_iff_odd [of "uint u"])
qed

lemma uint_ulp_key:
  fixes u :: "'a::len word"
  shows "uint (ulp_key (2 ^ (LENGTH('a) - 1)) u) = 2 ^ (LENGTH('a) - 1) + float_place u"
proof -
  obtain n where n: "LENGTH('a) = Suc n" using len_gt_0 [where 'a = 'a] by (cases "LENGTH('a)") auto
  have test: "u AND 2 ^ n \<noteq> 0 \<longleftrightarrow> bit u n" by (simp add: and_exp_eq_0_iff_not_bit)
  have half: "bit u n \<longleftrightarrow> 2 ^ n \<le> uint u" using word_half [of u] n by simp
  show ?thesis
  proof (cases "bit u n")
    case True
    then have "uint u \<noteq> 0" using half by (auto simp: not_le)
    then have "uint (- u) = 2 ^ Suc n - uint u"
      using uint_bounded [of u] uint_nonnegative [of u] n by (simp add: uint_word_ariths zmod_zminus1_eq_if)
    then show ?thesis using True n test by (simp add: ulp_key_def float_place_def minus_eq_not_plus_1)
  next
    case False
    then have "2 ^ n AND u = 0" using and_exp_eq_0_iff_not_bit [of u n] by (simp add: and.commute)
    then have "2 ^ n OR u = 2 ^ n + u" by (simp add: disjunctive_add_eq_or)
    moreover have "uint (2 ^ n :: 'a word) = 2 ^ n" using uint_word_of_int [of "2 ^ n", where 'a = 'a] n by (simp add: mod_pos_pos_trivial)
    then have "uint (2 ^ n + u) = 2 ^ n + uint u"
      using False half n uint_nonnegative [of u] by (simp add: uint_word_ariths take_bit_eq_mod not_le)
    ultimately show ?thesis using False n test by (simp add: ulp_key_def float_place_def)
  qed
qed


text \<open>The difference of the keys, taken the smaller from the larger, is the distance of the places.\<close>

lemma ulp_delta:
  fixes ua ub :: "'a::len word" and k :: nat
  defines "ba \<equiv> ulp_key (2 ^ (LENGTH('a) - 1)) ua" and "bb \<equiv> ulp_key (2 ^ (LENGTH('a) - 1)) ub"
  shows "uint (if ba \<ge> bb then ba - bb else bb - ba) = \<bar>float_place ua - float_place ub\<bar>"
proof -
  have keys: "uint ba = 2 ^ (LENGTH('a) - 1) + float_place ua" "uint bb = 2 ^ (LENGTH('a) - 1) + float_place ub"
    unfolding ba_def bb_def by (rule uint_ulp_key)+
  have "uint (x - y) = uint x - uint y" if "y \<le> x" for x y :: "'a word"
    using that by (simp add: uint_sub_if' word_le_def)
  then show ?thesis using keys by (auto simp: word_le_def)
qed

text \<open>IEEE equality of finite floats by their bits: the same bits, or two zeros.\<close>

lemma float_place_zero:
  fixes u :: "'a::len word"
  assumes "u AND mask (LENGTH('a) - 1) = 0"
  shows "float_place u = 0"
proof -
  obtain n where n: "LENGTH('a) = Suc n" using len_gt_0 [where 'a = 'a] by (cases "LENGTH('a)") auto
  have "take_bit n u = 0" using assms n by (simp add: take_bit_eq_mask)
  then have "take_bit n (uint u) = 0" by (simp only: unsigned_take_bit_eq [symmetric]) simp
  then have "uint u mod 2 ^ n = 0" by (simp only: take_bit_eq_mod)
  then obtain q where q: "uint u = 2 ^ n * q" by (metis dvdE mod_eq_0_iff_dvd)
  have "0 \<le> uint u" "uint u < 2 ^ n * 2" using uint_bounded [of u] uint_nonnegative [of u] n by simp_all
  then have "0 \<le> q" "q < 2" unfolding q by (simp_all add: zero_le_mult_iff)
  then have "q = 0 \<or> q = 1" by auto
  then show ?thesis using word_half [of u] n q by (auto simp: float_place_def)
qed

definition float_finite :: "u32 \<Rightarrow> bool" where
  "float_finite u \<longleftrightarrow> u AND 0x7f800000 \<noteq> 0x7f800000"

definition double_finite :: "u64 \<Rightarrow> bool" where
  "double_finite u \<longleftrightarrow> u AND 0x7ff0000000000000 \<noteq> 0x7ff0000000000000"

lemma filter_selects:
  assumes "\<forall>c \<in> set cs. target_fits c"
  shows "\<exists>cs' e. hxtest_filter f cs = Some (Inr (cs', e)) \<and>
    mset (take e cs') = (if filter_valid f then filter_mset (\<lambda>c. test_selected f (test_target c)) (mset cs) else {#})"
proof -
  have "\<exists>cs' e. filter_loop f cs 0 (length cs) = Some (Inr (cs', e)) \<and> mset (take e cs') = filter_mset (\<lambda>c. test_selected f (test_target c)) (mset cs)"
    using filter_loop_selects [of 0 "length cs" cs f] assms by auto
  then show ?thesis by (auto simp: hxtest_filter_def filter_valid_def pattern_list_valid Let_def split: option.splits)
qed

definition selected_tests :: "string option \<Rightarrow> hxtest_case list \<Rightarrow> hxtest_case multiset" where
  "selected_tests test_filter cs =
     (case test_filter of None \<Rightarrow> mset cs
      | Some f \<Rightarrow> if filter_valid f then filter_mset (\<lambda>c. test_selected f (test_target c)) (mset cs) else {#})"

section \<open>Counting tests\<close>

definition test_passes :: "(hxtest_case \<Rightarrow> (bool \<times> bool) list) \<Rightarrow> hxtest_case \<Rightarrow> bool" where
  "test_passes checks c \<longleftrightarrow> checks c \<noteq> [] \<and> list_all fst (checks c)"

definition test_aborts :: "(hxtest_case \<Rightarrow> (bool \<times> bool) list) \<Rightarrow> (hxtest_case \<Rightarrow> bool) \<Rightarrow> hxtest_case \<Rightarrow> bool" where
  "test_aborts checks leaks c \<longleftrightarrow> leaks c \<or> (False, True) \<in> set (checks c)"

lemma condition_check_result:
  assumes "ht_current s = Some c"
  shows "\<exists>s'. hxtest_condition_check s condition is_assert = (if \<not> condition \<and> is_assert then Inl Exit_failure else Inr s') \<and>
    ht_current s' = Some c \<and> ht_pass s' = ht_pass s \<and> ht_fail s' = ht_fail s \<and> ht_state s' = (if condition \<and> ht_state s \<noteq> Fail then Pass else Fail)"
  using assms by (cases "\<not> condition \<and> is_assert")
    (auto simp: hxtest_condition_check_def Let_def intro!: exI [of _ "s\<lparr>ht_state := Fail\<rparr>"])

lemma run_body_result:
  assumes "ht_current s = Some c"
  shows "\<exists>s'. run_body s checks = (if (False, True) \<in> set checks then Inl Exit_failure else Inr s') \<and>
    ht_current s' = Some c \<and> ht_pass s' = ht_pass s \<and> ht_fail s' = ht_fail s \<and>
    ht_state s' = (if ht_state s = Fail \<or> \<not> list_all fst checks then Fail else if checks = [] then ht_state s else Pass)"
  using assms
proof (induction checks arbitrary: s)
  case Nil
  then show ?case by auto
next
  case (Cons check checks)
  obtain condition is_assert where check: "check = (condition, is_assert)" by (cases check)
  obtain s1 where s1: "hxtest_condition_check s condition is_assert = (if \<not> condition \<and> is_assert then Inl Exit_failure else Inr s1)"
    "ht_current s1 = Some c" "ht_pass s1 = ht_pass s" "ht_fail s1 = ht_fail s" "ht_state s1 = (if condition \<and> ht_state s \<noteq> Fail then Pass else Fail)"
    using condition_check_result [OF Cons.prems] by blast
  obtain s2 where s2: "run_body s1 checks = (if (False, True) \<in> set checks then Inl Exit_failure else Inr s2)"
    "ht_current s2 = Some c" "ht_pass s2 = ht_pass s1" "ht_fail s2 = ht_fail s1"
    "ht_state s2 = (if ht_state s1 = Fail \<or> \<not> list_all fst checks then Fail else if checks = [] then ht_state s1 else Pass)"
    using Cons.IH [OF s1(2)] by blast
  show ?case using s1 s2 unfolding check by (intro exI [of _ s2]) auto
qed

lemma run_test_result:
  "\<exists>s'. run_test checks leaks s c = (if test_aborts checks leaks c then Inl Exit_failure else Inr s') \<and>
    ht_pass s' = ht_pass s + (if test_passes checks c then 1 else 0) \<and> ht_fail s' = ht_fail s + (if test_passes checks c then 0 else 1)"
proof -
  obtain s1 where s1: "run_body (s\<lparr>ht_current := Some c, ht_state := Nothing_asserted, ht_assert := 0\<rparr>) (checks c) =
      (if (False, True) \<in> set (checks c) then Inl Exit_failure else Inr s1)"
    "ht_current s1 = Some c" "ht_pass s1 = ht_pass s" "ht_fail s1 = ht_fail s"
    "ht_state s1 = (if \<not> list_all fst (checks c) then Fail else if checks c = [] then Nothing_asserted else Pass)"
    using run_body_result [of "s\<lparr>ht_current := Some c, ht_state := Nothing_asserted, ht_assert := 0\<rparr>" c "checks c"] by auto
  obtain s2 where s2: "hxtest_condition_check s1 False False = Inr s2" "ht_pass s2 = ht_pass s1" "ht_fail s2 = ht_fail s1" "ht_state s2 = Fail"
    using condition_check_result [OF s1(2), of False False] by auto
  have leak: "hxtest_condition_check s1 False True = Inl Exit_failure" using condition_check_result [OF s1(2), of False True] by auto
  show ?thesis
  proof (cases "test_aborts checks leaks c")
    case True
    then show ?thesis using s1(1) leak by (auto simp: run_test_def test_aborts_def intro!: exI [of _ "s\<lparr>ht_pass := ht_pass s + (if test_passes checks c then 1 else 0), ht_fail := ht_fail s + (if test_passes checks c then 0 else 1)\<rparr>"])
  next
    case False
    then show ?thesis using s1 s2 by (cases "checks c = []") (auto simp: run_test_def test_aborts_def test_passes_def)
  qed
qed

lemma run_tests_result:
  "\<exists>s'. run_tests checks leaks s cs = (if \<exists>c \<in> set cs. test_aborts checks leaks c then Inl Exit_failure else Inr s') \<and>
    ht_pass s' = ht_pass s + int (length (filter (test_passes checks) cs)) \<and>
    ht_fail s' = ht_fail s + int (length (filter (\<lambda>c. \<not> test_passes checks c) cs))"
proof (induction cs arbitrary: s)
  case Nil
  then show ?case by auto
next
  case (Cons c cs)
  obtain s1 where s1: "run_test checks leaks s c = (if test_aborts checks leaks c then Inl Exit_failure else Inr s1)"
    "ht_pass s1 = ht_pass s + (if test_passes checks c then 1 else 0)" "ht_fail s1 = ht_fail s + (if test_passes checks c then 0 else 1)"
    using run_test_result by blast
  obtain s2 where s2: "run_tests checks leaks s1 cs = (if \<exists>c \<in> set cs. test_aborts checks leaks c then Inl Exit_failure else Inr s2)"
    "ht_pass s2 = ht_pass s1 + int (length (filter (test_passes checks) cs))"
    "ht_fail s2 = ht_fail s1 + int (length (filter (\<lambda>c. \<not> test_passes checks c) cs))"
    using Cons.IH by blast
  show ?case using s1 s2 by (intro exI [of _ s2]) auto
qed

lemma mset_sort_tests: "mset (sort_tests cs) = mset cs"
proof -
  have "mset (insert_test c ds) = add_mset c (mset ds)" for c ds by (induction ds) auto
  then show ?thesis by (induction cs) (simp_all add: sort_tests_def)
qed

lemma run_filtered_result:
  assumes "ht_cases s \<noteq> []"
  shows "if \<exists>c \<in># mset (ht_cases s). test_aborts checks leaks c then run_filtered checks leaks s = Inl Exit_failure
    else \<exists>s'. run_filtered checks leaks s = Inr (int (size (filter_mset (\<lambda>c. \<not> test_passes checks c) (mset (ht_cases s)))), s') \<and>
      ht_pass s' = int (size (filter_mset (test_passes checks) (mset (ht_cases s)))) \<and>
      ht_fail s' = int (size (filter_mset (\<lambda>c. \<not> test_passes checks c) (mset (ht_cases s))))"
proof -
  obtain cs where cs: "sort_tests (ht_cases s) = cs" "mset cs = mset (ht_cases s)" using mset_sort_tests by blast
  obtain s1 where s1: "run_tests checks leaks (s\<lparr>ht_cases := cs, ht_pass := 0, ht_fail := 0, ht_total_assert := 0\<rparr>) cs =
      (if \<exists>c \<in> set cs. test_aborts checks leaks c then Inl Exit_failure else Inr s1)"
    "ht_pass s1 = int (length (filter (test_passes checks) cs))" "ht_fail s1 = int (length (filter (\<lambda>c. \<not> test_passes checks c) cs))"
    using run_tests_result [of checks leaks "s\<lparr>ht_cases := cs, ht_pass := 0, ht_fail := 0, ht_total_assert := 0\<rparr>" cs] by auto
  obtain passed failed where counts: "length (filter (test_passes checks) cs) = passed" "length (filter (\<lambda>c. \<not> test_passes checks c) cs) = failed" by blast
  have sizes: "size (filter_mset (test_passes checks) (mset (ht_cases s))) = passed" "size (filter_mset (\<lambda>c. \<not> test_passes checks c) (mset (ht_cases s))) = failed"
    unfolding counts [symmetric] by (simp_all flip: cs(2) mset_filter)
  have "passed + failed = length cs" unfolding counts [symmetric] by (rule sum_length_filter_compl)
  then have some: "passed + failed \<noteq> 0" using assms cs(2) by auto
  have members: "set cs = set (ht_cases s)" using cs(2) by (metis set_mset_mset)
  show ?thesis
  proof (cases "\<exists>c \<in> set (ht_cases s). test_aborts checks leaks c")
    case True
    then show ?thesis using s1(1) by (simp add: run_filtered_def cs(1) members)
  next
    case False
    then have "run_tests checks leaks (s\<lparr>ht_cases := cs, ht_pass := 0, ht_fail := 0, ht_total_assert := 0\<rparr>) cs = Inr s1"
      using s1(1) members by auto
    then show ?thesis using False some s1(2,3) unfolding run_filtered_def cs(1) sizes counts by (auto simp: Let_def max_def)
  qed
qed

section \<open>Claims\<close>

text \<open>C36: A glob pattern matches exactly the texts that replacing every star in it by some text gives, and the loop that
  goes back to the last star only always ends with that answer; a list of patterns matches what one of its pieces between
  colons matches, and is accepted when no piece is empty.\<close>

theorem hxtest_pattern_match_glob:
  "hxtest_pattern_match p t = Some (glob p t) \<and>
   hxtest_pattern_list_match ps t = Some (\<exists>q. q \<in> set (split_colons ps) \<and> glob q t) \<and>
   (hxtest_pattern_list_valid ps \<longleftrightarrow> [] \<notin> set (split_colons ps))"
  by (simp add: pattern_match pattern_list_match pattern_list_valid glob_any_def Bex_def)

text \<open>C37: Two floats, or two doubles, are equal for the tests exactly when both are finite and at most four representable values
  apart, the zeros being the same value, so that no wrap-around of the unsigned differences is taken for a small distance.\<close>

theorem hxtest_eq_counts_ulps:
  "(hxtest_float_eq ua ub \<longleftrightarrow> float_finite ua \<and> float_finite ub \<and> \<bar>float_place ua - float_place ub\<bar> \<le> 4) \<and>
   (hxtest_double_eq da db \<longleftrightarrow> double_finite da \<and> double_finite db \<and> \<bar>float_place da - float_place db\<bar> \<le> 4)"
proof
  have mask: "(0x7fffffff :: u32) = mask (LENGTH(32) - 1)" "(push_bit 31 1 :: u32) = 2 ^ (LENGTH(32) - 1)" by (simp_all add: mask_eq_exp_minus_1 push_bit_of_1)
  have same: "\<bar>float_place ua - float_place ub\<bar> \<le> 4" if "ua = ub \<or> ua AND 0x7fffffff = 0 \<and> ub AND 0x7fffffff = 0"
    using that float_place_zero [of ua] float_place_zero [of ub] unfolding mask by auto
  show "hxtest_float_eq ua ub \<longleftrightarrow> float_finite ua \<and> float_finite ub \<and> \<bar>float_place ua - float_place ub\<bar> \<le> 4"
    using same ulp_delta [of ub ua] unfolding hxtest_float_eq_def float_finite_def Let_def mask(2) word_le_def by auto
  have mask64: "(0x7fffffffffffffff :: u64) = mask (LENGTH(64) - 1)" "(push_bit 63 1 :: u64) = 2 ^ (LENGTH(64) - 1)" by (simp_all add: mask_eq_exp_minus_1 push_bit_of_1)
  have same64: "\<bar>float_place da - float_place db\<bar> \<le> 4" if "da = db \<or> da AND 0x7fffffffffffffff = 0 \<and> db AND 0x7fffffffffffffff = 0"
    using that float_place_zero [of da] float_place_zero [of db] unfolding mask64 by auto
  show "hxtest_double_eq da db \<longleftrightarrow> double_finite da \<and> double_finite db \<and> \<bar>float_place da - float_place db\<bar> \<le> 4"
    using same64 ulp_delta [of db da] unfolding hxtest_double_eq_def double_finite_def Let_def mask64(2) word_le_def by auto
qed


text \<open>C38: \<open>run_all_tests\<close> runs the tests the filter selects, stops when there is none, exits when a test fails an \<open>ASSERT_\<close> or leaks, and
  otherwise returns the number of tests that failed a check or made none, with every test counted as passed or failed once.\<close>

theorem hxtest_run_all_counts:
  assumes "\<forall>c \<in> set (ht_cases s). target_fits c"
    and "selected = selected_tests test_filter (ht_cases s)"
  shows "\<exists>r. run_all_tests test_filter checks leaks s = Some r \<and>
    (if selected = {#} then \<exists>why. r = Inl (Assert_always why)
     else if \<exists>c \<in># selected. test_aborts checks leaks c then r = Inl Exit_failure
     else \<exists>s'. r = Inr (int (size (filter_mset (\<lambda>c. \<not> test_passes checks c) selected)), s') \<and>
       ht_pass s' = int (size (filter_mset (test_passes checks) selected)) \<and> ht_pass s' + ht_fail s' = int (size selected))"
proof -
  have parts: "size (filter_mset (test_passes checks) M) + size (filter_mset (\<lambda>c. \<not> test_passes checks c) M) = size M" for M
    by (metis multiset_partition size_union)
  have left: "if selected = {#} then \<exists>why. run_filtered checks leaks s1 = Inl (Assert_always why)
     else if \<exists>c \<in># selected. test_aborts checks leaks c then run_filtered checks leaks s1 = Inl Exit_failure
     else \<exists>s'. run_filtered checks leaks s1 = Inr (int (size (filter_mset (\<lambda>c. \<not> test_passes checks c) selected)), s') \<and>
       ht_pass s' = int (size (filter_mset (test_passes checks) selected)) \<and> ht_pass s' + ht_fail s' = int (size selected)"
    if "mset (ht_cases s1) = selected" for s1
  proof (cases "ht_cases s1 = []")
    case True
    then show ?thesis using that by (auto simp: run_filtered_def sort_tests_def)
  next
    case False
    then have "selected \<noteq> {#}" using that by auto
    then show ?thesis using run_filtered_result [OF False, of checks leaks] parts [of selected] unfolding that
      by (auto simp flip: of_nat_add)
  qed
  show ?thesis
  proof (cases test_filter)
    case None
    then show ?thesis using left [of s] assms(2) by (intro exI [of _ "run_filtered checks leaks s"]) (simp add: run_all_tests_def selected_tests_def)
  next
    case (Some f)
    obtain cs e where cs: "hxtest_filter f (ht_cases s) = Some (Inr (cs, e))" "mset (take e cs) = selected"
      using filter_selects [OF assms(1), of f] Some assms(2) by (auto simp: selected_tests_def)
    show ?thesis
    proof (cases "take e cs = []")
      case True
      then have "selected = {#}" using cs(2) by auto
      then show ?thesis using True cs(1) Some by (simp add: run_all_tests_def)
    next
      case False
      then show ?thesis using cs(1) Some left [of "s\<lparr>ht_cases := take e cs\<rparr>"] cs(2)
        by (intro exI [of _ "run_filtered checks leaks (s\<lparr>ht_cases := take e cs\<rparr>)"]) (simp add: run_all_tests_def)
    qed
  qed
qed

text \<open>Three tests, one of which is left out by the filter and one of which fails.\<close>

definition example_test :: "string \<Rightarrow> int \<Rightarrow> hxtest_case" where
  "example_test name n = \<lparr>tc_suite = ''suite'', tc_case = name, tc_line = n\<rparr>"

theorem hxtest_run_all_counts_witness:
  "\<exists>r. run_all_tests None (\<lambda>c. [(tc_line c = 1, False)]) (\<lambda>c. False) (hxtest_new\<lparr>ht_cases := [example_test ''a'' 1, example_test ''b'' 2]\<rparr>) =
    Some (Inr (1, r)) \<and> ht_pass r = 1"
  using hxtest_run_all_counts [of "hxtest_new\<lparr>ht_cases := [example_test ''a'' 1, example_test ''b'' 2]\<rparr>" _ None "\<lambda>c. [(tc_line c = 1, False)]" "\<lambda>c. False", OF _ refl]
  by (auto simp: example_test_def test_target_def hx_max_line_def test_aborts_def test_passes_def selected_tests_def)

end
