(* ===== verification/HxRandom.thy ===== *)
theory HxRandom
  imports HxPrelude
begin

text \<open>
  The random number generator of \<^verbatim>\<open>include/hx/hxrandom.hpp\<close>: a 64-bit linear congruential generator whose upper
  bits choose where in the state the 32 bits of a result are taken. The numbers in a range that the code makes with floating point are
  modelled exactly: \<open>f01\<close> and \<open>d01\<close> are integers over a power of two, and the float product is the integer product rounded to 24
  significant bits.
\<close>

section \<open>The generator\<close>

definition random_next :: "u64 \<Rightarrow> u64" where
  "random_next s = 0x5851f42d4c957f2d * s + 0x14057b7ef767814f"

definition random_shift :: "u64 \<Rightarrow> nat" where
  "random_shift s = unat (drop_bit 60 s + 13)"

definition random_u32 :: "u64 \<Rightarrow> u64 \<times> u32" where
  "random_u32 s = (let s1 = random_next s in (s1, ucast (drop_bit (random_shift s1) s1)))"

definition random_u8 :: "u64 \<Rightarrow> u64 \<times> 8 word" where
  "random_u8 s = (let (s1, x) = random_u32 s in (s1, ucast x))"

definition random_u16 :: "u64 \<Rightarrow> u64 \<times> 16 word" where
  "random_u16 s = (let (s1, x) = random_u32 s in (s1, ucast x))"

text \<open>\<open>u64\<close> calls \<open>u32\<close> twice in one expression, and the language does not say which call comes first: \<open>low_first\<close> is
  the compiler's choice.\<close>

definition random_u64 :: "bool \<Rightarrow> u64 \<Rightarrow> u64 \<times> u64" where
  "random_u64 low_first s =
     (let (s1, x) = random_u32 s; (s2, y) = random_u32 s1
      in (s2, if low_first then ucast x OR push_bit 32 (ucast y) else ucast y OR push_bit 32 (ucast x)))"

text \<open>The numerators of \<open>f01\<close> over \<open>2 ^ 24\<close> and of \<open>d01\<close> over \<open>2 ^ 53\<close>; both products with a power of two are exact.\<close>

definition random_f01 :: "u64 \<Rightarrow> u64 \<times> nat" where
  "random_f01 s = (let (s1, x) = random_u32 s in (s1, unat (drop_bit 8 x)))"

definition random_d01 :: "bool \<Rightarrow> u64 \<Rightarrow> u64 \<times> nat" where
  "random_d01 low_first s = (let (s1, x) = random_u64 low_first s in (s1, unat (drop_bit 11 x)))"

section \<open>Numbers in a range\<close>

fun bit_length :: "nat \<Rightarrow> nat" where
  "bit_length n = (if n = 0 then 0 else Suc (bit_length (n div 2)))"

declare bit_length.simps [simp del]

text \<open>Round to nearest, ties to even, with \<open>p\<close> significant bits.\<close>

definition round_bits :: "nat \<Rightarrow> nat \<Rightarrow> nat" where
  "round_bits p n =
     (if n < 2 ^ p then n
      else let e = bit_length n - p; q = n div 2 ^ e; r = n mod 2 ^ e; half = 2 ^ (e - 1)
           in (if r < half \<or> r = half \<and> even q then q else q + 1) * 2 ^ e)"

text \<open>\<open>range\<close> of an integer type of at most 32 bits: the product of the size and \<open>f01\<close>, both floats, truncated. The source requires that
  \<open>base\<close> plus the size does not overflow, so the sum is exact.\<close>

definition random_range_int :: "u64 \<Rightarrow> int \<Rightarrow> int \<Rightarrow> (u64 \<times> int) hx" where
  "random_range_int s base sz =
     (let mag = round_bits 24 (nat \<bar>sz\<bar>); (s1, k) = random_f01 s
      in if \<not> (sz \<le> 0 \<or> mag < 2 ^ 24) then Inl (Assert_debug ''low_precision'')
         else Inr (s1, base + sgn sz * int (round_bits 24 (mag * k) div 2 ^ 24)))"

definition random_range_i64 :: "bool \<Rightarrow> u64 \<Rightarrow> int \<Rightarrow> int \<Rightarrow> (u64 \<times> int) hx" where
  "random_range_i64 low_first s base sz =
     (if \<not> sz > 0 then Inl (Assert_debug ''bad_range'')
      else let (s1, x) = random_u64 low_first s; r = base + int (unat (x mod word_of_int sz))
           in if r < 2 ^ 63 then Inr (s1, r) else Inl (Undefined_behavior ''signed overflow''))"

definition random_range_u64 :: "bool \<Rightarrow> u64 \<Rightarrow> u64 \<Rightarrow> u64 \<Rightarrow> (u64 \<times> u64) hx" where
  "random_range_u64 low_first s base sz =
     (if \<not> sz \<noteq> 0 then Inl (Assert_debug ''bad_range'')
      else let (s1, x) = random_u64 low_first s in Inr (s1, base + x mod sz))"

section \<open>Bytes\<close>

text \<open>The bytes of a 32-bit word in the memory of the little-endian target.\<close>

definition word_bytes :: "u32 \<Rightarrow> 8 word list" where
  "word_bytes x = map (\<lambda>i. ucast (drop_bit (8 * i) x)) [0..<4]"

function random_read_loop :: "u64 \<Rightarrow> hxsize_t \<Rightarrow> u64 \<times> 8 word list" where
  "random_read_loop s n =
     (if n \<ge> 4 then let (s1, x) = random_u32 s; (s2, bs) = random_read_loop s1 (n - 4) in (s2, word_bytes x @ bs)
      else if n > 0 then let (s1, x) = random_u32 s in (s1, take (nat n) (word_bytes x))
      else (s, []))"
  by pat_completeness auto
termination
  by (relation "measure (\<lambda>(s, n). nat n)") auto

declare random_read_loop.simps [simp del]

definition random_read :: "u64 \<Rightarrow> hxsize_t \<Rightarrow> u64 \<times> 8 word list" where
  "random_read s n = random_read_loop s n"

section \<open>The period\<close>

text \<open>Over the integers, with any multiplier that is 1 modulo 4 and any odd increment: running the generator \<open>2 ^ k\<close> times adds
  \<open>2 ^ k\<close> modulo \<open>2 ^ (k + 1)\<close>. The composition is affine, so this goes up by squaring.\<close>

definition lcg :: "int \<Rightarrow> int \<Rightarrow> int \<Rightarrow> int" where
  "lcg a c x = a * x + c"

lemma lcg_affine: "\<exists>C. \<forall>x. (lcg a c ^^ n) x = a ^ n * x + C"
proof (induction n)
  case (Suc n)
  then obtain C where "\<forall>x. (lcg a c ^^ n) x = a ^ n * x + C" by blast
  then have "(lcg a c ^^ Suc n) x = a ^ Suc n * x + (a * C + c)" for x by (simp add: lcg_def algebra_simps)
  then show ?case by blast
qed (auto intro: exI [of _ 0])

lemma power_cong_one: "(a :: int) mod 4 = 1 \<Longrightarrow> 2 ^ (k + 2) dvd a ^ 2 ^ k - 1"
proof (induction k)
  case 0
  then show ?case using mod_eq_dvd_iff [of a 4 1] by simp
next
  case (Suc k)
  have "odd a" using Suc.prems by presburger
  then have "2 dvd a ^ 2 ^ k + 1" by simp
  moreover have "a ^ 2 ^ Suc k - 1 = (a ^ 2 ^ k - 1) * (a ^ 2 ^ k + 1)" by (simp add: algebra_simps power_mult power2_eq_square)
  moreover have "(2::int) ^ (Suc k + 2) = 2 ^ (k + 2) * 2" by simp
  ultimately show ?case using Suc mult_dvd_mono by metis
qed

lemma lcg_doubling:
  assumes a: "(a :: int) mod 4 = 1" and c: "odd c"
  shows "2 ^ (k + 1) dvd (lcg a c ^^ 2 ^ k) x - x - 2 ^ k"
proof (induction k arbitrary: x)
  case 0
  have "odd a" using a by presburger
  then have "even ((a - 1) * x + (c - 1))" using c by simp
  then show ?case by (simp add: lcg_def algebra_simps)
next
  case (Suc k)
  obtain C where C: "\<And>x. (lcg a c ^^ 2 ^ k) x = a ^ 2 ^ k * x + C" using lcg_affine [where a = a and c = c and n = "2 ^ k"] by blast
  obtain A where A: "a ^ 2 ^ k = 1 + 2 ^ (k + 2) * A" using power_cong_one [OF a, of k] by (metis add.commute diff_eq_eq dvdE)
  obtain D where D: "C = 2 ^ k + 2 ^ (k + 1) * D" using Suc.IH [of 0] C [of 0] by (metis add.commute add.right_neutral diff_eq_eq diff_zero dvdE mult_zero_right add.left_neutral)
  have "(lcg a c ^^ 2 ^ Suc k) x = (lcg a c ^^ 2 ^ k) ((lcg a c ^^ 2 ^ k) x)"
    by (simp add: funpow_add [symmetric] mult_2 [symmetric] flip: comp_apply [of "lcg a c ^^ 2 ^ k" "lcg a c ^^ 2 ^ k"])
  also have "\<dots> = (1 + 2 ^ (k + 2) * A) * ((1 + 2 ^ (k + 2) * A) * x + C) + C" unfolding C A ..
  also have "\<dots> = x + 2 ^ (k + 1) + 2 ^ (k + 2) * (2 * A * x + 2 ^ (k + 2) * A * A * x + A * C + D)"
    by (simp add: D algebra_simps)
  finally show ?case by simp
qed

lemma lcg_multiple:
  assumes "(a :: int) mod 4 = 1" and "odd c"
  shows "2 ^ (j + 1) dvd (lcg a c ^^ (2 ^ j * t)) x - x - 2 ^ j * int t"
proof (induction t)
  case (Suc t)
  let ?y = "(lcg a c ^^ (2 ^ j * t)) x"
  have "(lcg a c ^^ (2 ^ j * Suc t)) x = (lcg a c ^^ 2 ^ j) ?y" by (simp add: funpow_add)
  moreover have "2 ^ (j + 1) dvd (lcg a c ^^ 2 ^ j) ?y - ?y - 2 ^ j" by (rule lcg_doubling [OF assms])
  ultimately have "2 ^ (j + 1) dvd ((lcg a c ^^ (2 ^ j * Suc t)) x - ?y - 2 ^ j) + (?y - x - 2 ^ j * int t)"
    using Suc.IH by (intro dvd_add) simp_all
  then show ?case by (simp add: algebra_simps)
qed simp

lemma random_next_lcg:
  "(random_next ^^ n) s = word_of_int ((lcg 0x5851f42d4c957f2d 0x14057b7ef767814f ^^ n) (uint s))"
proof (induction n)
  case (Suc n)
  then show ?case by (simp add: random_next_def lcg_def)
qed simp

lemma odd_part: "n \<noteq> 0 \<Longrightarrow> \<exists>j m. n = 2 ^ j * m \<and> odd (m :: nat)"
proof (induction n rule: less_induct)
  case (less n)
  show ?case
  proof (cases "odd n")
    case True
    then show ?thesis by (intro exI [of _ 0] exI [of _ n]) simp
  next
    case False
    then obtain k where k: "n = 2 * k" by (auto elim: evenE)
    then obtain j m where "k = 2 ^ j * m" "odd m" using less.IH [of k] less.prems by auto
    then show ?thesis using k by (intro exI [of _ "Suc j"] exI [of _ m]) simp
  qed
qed

lemma word_of_int_eq_self: "word_of_int x = (s :: u64) \<longleftrightarrow> 2 ^ 64 dvd x - uint s"
proof -
  have "word_of_int x = (s :: u64) \<longleftrightarrow> word_of_int x = (word_of_int (uint s) :: u64)" by simp
  also have "\<dots> \<longleftrightarrow> take_bit 64 x = take_bit 64 (uint s)" by (simp only: word_of_int_eq_iff len_num1 len_bit0) simp
  also have "\<dots> \<longleftrightarrow> 2 ^ 64 dvd x - uint s" by (simp only: take_bit_eq_mod mod_eq_dvd_iff)
  finally show ?thesis .
qed

section \<open>Ranges\<close>

lemma bit_length_bounds: "0 < n \<Longrightarrow> 2 ^ (bit_length n - 1) \<le> n \<and> n < 2 ^ bit_length n \<and> 0 < bit_length n"
proof (induction n rule: bit_length.induct)
  case (1 n)
  show ?case
  proof (cases "n div 2 = 0")
    case True
    then have "n = 1" using 1 by linarith
    then show ?thesis by (simp add: bit_length.simps)
  next
    case False
    have "bit_length n = Suc (bit_length (n div 2))" using 1 by (subst bit_length.simps) simp
    moreover obtain l where l: "bit_length (n div 2) = Suc l" using 1 False by (metis gr0_conv_Suc not_gr_zero)
    moreover have "2 ^ l \<le> n div 2" "n div 2 < 2 ^ Suc l" using 1 False l by auto
    ultimately show ?thesis by auto
  qed
qed

lemma round_bits_below:
  assumes k: "k < 2 ^ p" and m: "0 < m" and p: "0 < p"
  shows "round_bits p (m * k) < m * 2 ^ p"
proof (cases "m * k < 2 ^ p")
  case True
  have "m * k < m * 2 ^ p" using k m by simp
  then show ?thesis using True by (simp add: round_bits_def)
next
  case False
  define n where "n = m * k"
  have n: "2 ^ p \<le> n" using False by (simp add: n_def)
  then have "0 < n" using less_le_trans [of 0 "2 ^ p" n] by simp
  note b = bit_length_bounds [OF this]
  have "(2::nat) ^ p < 2 ^ bit_length n" using n b by linarith
  then have "p < bit_length n" by (rule power_less_imp_less_exp [rotated]) simp
  then obtain e where e: "bit_length n = p + Suc e" by (metis less_imp_Suc_add add_Suc_right)
  let ?q = "n div 2 ^ Suc e" and ?r = "n mod 2 ^ Suc e"
  have split: "n = ?q * 2 ^ Suc e + ?r" by (rule div_mult_mod_eq [symmetric])
  have r: "?r < 2 ^ Suc e" by simp
  have "2 * round_bits p n \<le> 2 * n + 2 ^ Suc e"
  proof -
    have "round_bits p n = (if ?r < 2 ^ e \<or> ?r = 2 ^ e \<and> even ?q then ?q else ?q + 1) * 2 ^ Suc e"
      using n by (simp add: round_bits_def e Let_def del: power_Suc)
    moreover have "2 * (?q + 1) * 2 ^ Suc e \<le> 2 * n + 2 ^ Suc e" if "2 ^ e \<le> ?r"
    proof -
      have "2 * (?q + 1) * 2 ^ Suc e = 2 * (?q * 2 ^ Suc e) + 2 * 2 ^ e + 2 ^ Suc e" by (simp add: algebra_simps)
      also have "\<dots> \<le> 2 * (?q * 2 ^ Suc e) + 2 * ?r + 2 ^ Suc e" using that by simp
      also have "\<dots> = 2 * n + 2 ^ Suc e" using split by linarith
      finally show ?thesis .
    qed
    moreover have "2 * ?q * 2 ^ Suc e \<le> 2 * n + 2 ^ Suc e" using split by linarith
    ultimately show ?thesis by (auto simp: not_less mult.assoc)
  qed
  moreover have "2 ^ Suc e < 2 * m"
  proof -
    obtain p' where p': "p = Suc p'" using p by (cases p) auto
    have "2 ^ Suc e * 2 ^ p' \<le> n" using b e p' by (simp add: power_add algebra_simps)
    also have "n < m * 2 ^ p" using k m by (simp add: n_def)
    finally have "2 ^ Suc e * 2 ^ p' < (2 * m) * 2 ^ p'" using p' by (simp add: algebra_simps)
    then show ?thesis by (metis mult_less_cancel2)
  qed
  moreover have "n + m \<le> m * 2 ^ p"
  proof -
    have "m * (k + 1) \<le> m * 2 ^ p" using k by (intro mult_left_mono) simp_all
    then show ?thesis by (simp add: n_def algebra_simps)
  qed
  ultimately show ?thesis unfolding n_def by linarith
qed

lemma random_f01_bound: "snd (random_f01 s) < 2 ^ 24"
proof -
  have "unat (drop_bit 8 x) < 2 ^ 24" for x :: u32
    using unat_bound [of x] by (simp add: unat_drop_bit less_mult_imp_div_less)
  then show ?thesis by (simp add: random_f01_def split: prod.split)
qed

lemma random_d01_bound: "snd (random_d01 b s) < 2 ^ 53"
proof -
  have "unat (drop_bit 11 x) < 2 ^ 53" for x :: u64
    using unat_bound [of x] by (simp add: unat_drop_bit less_mult_imp_div_less)
  then show ?thesis by (simp add: random_d01_def split: prod.split)
qed

lemma random_shift_bound: "13 \<le> random_shift s \<and> random_shift s \<le> 28"
proof -
  have "unat (drop_bit 60 s) < 16" using unat_bound [of s] by (simp add: unat_drop_bit less_mult_imp_div_less)
  then have "unat (drop_bit 60 s + 13) = unat (drop_bit 60 s) + 13" by (simp add: unat_add_wrap)
  then show ?thesis using \<open>unat (drop_bit 60 s) < 16\<close> by (simp add: random_shift_def)
qed

section \<open>Reading\<close>

lemma word_bytes_length: "length (word_bytes x) = 4"
  by (simp add: word_bytes_def)

lemma random_read_spec:
  "0 \<le> n \<Longrightarrow> fst (random_read_loop s n) = (random_next ^^ ((nat n + 3) div 4)) s \<and> length (snd (random_read_loop s n)) = nat n"
proof (induction s n rule: random_read_loop.induct)
  case (1 s n)
  obtain s1 x where x: "random_u32 s = (s1, x)" by fastforce
  then have s1: "s1 = random_next s" by (simp add: random_u32_def Let_def)
  show ?case
  proof (cases "n \<ge> 4")
    case True
    have "nat n + 3 = (nat (n - 4) + 3) + 4" using True by simp
    then have q: "(nat n + 3) div 4 = Suc ((nat (n - 4) + 3) div 4)" by simp
    have "fst (random_read_loop s1 (n - 4)) = (random_next ^^ ((nat (n - 4) + 3) div 4)) s1 \<and>
        length (snd (random_read_loop s1 (n - 4))) = nat (n - 4)"
      using "1.IH"(1) [OF True x [symmetric] refl] True by (simp add: x)
    then show ?thesis
      using True x unfolding q
      by (subst (1 2) random_read_loop.simps, cases "random_read_loop (random_next s) (n - 4)") (simp add: s1 word_bytes_length funpow_swap1)
  next
    case False
    have "(nat n + 3) div 4 = 1" if "0 < n"
    proof -
      have "nat n = 1 \<or> nat n = 2 \<or> nat n = 3" using that False by linarith
      then show ?thesis by auto
    qed
    then show ?thesis using x "1.prems" False
      by (subst (1 2) random_read_loop.simps) (cases "n = 0"; auto simp: s1 word_bytes_length)
  qed
qed

section \<open>Properties\<close>

text \<open>C31: the period of the generator is \<open>2 ^ 64\<close>, as documented, from every seed: after \<open>n\<close> steps it is back in the state
  it started in exactly when \<open>2 ^ 64\<close> divides \<open>n\<close>.\<close>

theorem random_full_period: "(random_next ^^ n) s = s \<longleftrightarrow> 2 ^ 64 dvd n"
proof -
  let ?f = "lcg 0x5851f42d4c957f2d 0x14057b7ef767814f"
  have eq: "(random_next ^^ n) s = s \<longleftrightarrow> 2 ^ 64 dvd (?f ^^ n) (uint s) - uint s"
    by (simp only: random_next_lcg word_of_int_eq_self)
  have step: "2 ^ (j + 1) dvd (?f ^^ (2 ^ j * t)) x - x - 2 ^ j * int t" for j t x
    by (rule lcg_multiple) simp_all
  show ?thesis
  proof
    assume "2 ^ 64 dvd n"
    then obtain t where n: "n = 2 ^ 64 * t" by (elim dvdE)
    have "2 ^ 64 dvd (?f ^^ n) (uint s) - uint s - 2 ^ 64 * int t"
      unfolding n by (rule dvd_trans [OF le_imp_power_dvd step [of 64 t "uint s"]]) simp
    then have "2 ^ 64 dvd ((?f ^^ n) (uint s) - uint s - 2 ^ 64 * int t) + 2 ^ 64 * int t" by (intro dvd_add) simp_all
    then show "(random_next ^^ n) s = s" unfolding eq by simp
  next
    assume home: "(random_next ^^ n) s = s"
    show "2 ^ 64 dvd n"
    proof (rule ccontr)
      assume not: "\<not> 2 ^ 64 dvd n"
      then have "n \<noteq> 0" by (metis dvd_0_right)
      then obtain j m where n: "n = 2 ^ j * m" "odd m" using odd_part by blast
      have j: "j < 64" using not n(1) le_imp_power_dvd [of 64 j "2::nat"] by (meson dvd_mult2 not_less)
      have "2 ^ (j + 1) dvd (?f ^^ n) (uint s) - uint s"
        using home [unfolded eq] dvd_trans [OF le_imp_power_dvd [of "j + 1" 64 "2::int"]] j by simp
      then have "2 ^ (j + 1) dvd ((?f ^^ n) (uint s) - uint s) - ((?f ^^ n) (uint s) - uint s - 2 ^ j * int m)"
        using step [of j m "uint s"] unfolding n(1) by (rule dvd_diff)
      then have "(2::int) ^ j * 2 dvd 2 ^ j * int m" by (simp add: mult.commute)
      then show False using n(2) by simp
    qed
  qed
qed

text \<open>C32: numbers in a range are in the range. For a positive size below \<open>2 ^ 24\<close> the float product, rounded, stays below the size;
  the 64-bit versions take a remainder. None asserts or overflows when base plus size fits, the shift of \<open>u32\<close> never leaves
  the word, and \<open>f01\<close> and \<open>d01\<close> are below 1.\<close>

theorem random_ranges_in_bounds:
  "(0 < sz \<longrightarrow> sz < 2 ^ 24 \<longrightarrow> (\<exists>s' r. random_range_int s base sz = Inr (s', r) \<and> base \<le> r \<and> r < base + sz)) \<and>
   (0 < sz \<longrightarrow> base + sz \<le> 2 ^ 63 \<longrightarrow> sz < 2 ^ 63 \<longrightarrow> (\<exists>s' r. random_range_i64 b s base sz = Inr (s', r) \<and> base \<le> r \<and> r < base + sz)) \<and>
   (0 < usz \<longrightarrow> unat ubase + unat usz \<le> 2 ^ 64 \<longrightarrow>
     (\<exists>s' r. random_range_u64 b s ubase usz = Inr (s', r) \<and> unat ubase \<le> unat r \<and> unat r < unat ubase + unat usz)) \<and>
   13 \<le> random_shift s \<and> random_shift s + 32 \<le> 60 \<and> snd (random_f01 s) < 2 ^ 24 \<and> snd (random_d01 b s) < 2 ^ 53"
proof (intro conjI impI)
  assume sz: "0 < sz" "sz < 2 ^ 24"
  obtain s1 k where k: "random_f01 s = (s1, k)" by fastforce
  then have "k < 2 ^ 24" using random_f01_bound [of s] by simp
  have mag: "round_bits 24 (nat sz) = nat sz" using sz by (simp add: round_bits_def)
  have "round_bits 24 (nat sz * k) < nat sz * 2 ^ 24" by (rule round_bits_below [OF \<open>k < 2 ^ 24\<close>]) (use sz in simp_all)
  then have "round_bits 24 (nat sz * k) div 2 ^ 24 < nat sz" by (simp add: less_mult_imp_div_less)
  then show "\<exists>s' r. random_range_int s base sz = Inr (s', r) \<and> base \<le> r \<and> r < base + sz"
    using sz mag k by (simp add: random_range_int_def Let_def nat_less_iff)
next
  assume sz: "0 < sz" "base + sz \<le> 2 ^ 63" "sz < 2 ^ 63"
  obtain s1 x where x: "random_u64 b s = (s1, x)" by fastforce
  have u: "uint (word_of_int sz :: u64) = sz" using sz by (simp add: uint_word_of_int)
  have "int (unat (x mod word_of_int sz)) = uint x mod sz"
    by (simp add: u uint_mod)
  then show "\<exists>s' r. random_range_i64 b s base sz = Inr (s', r) \<and> base \<le> r \<and> r < base + sz"
    using sz x pos_mod_bound [of sz "uint x"] pos_mod_sign [of sz "uint x"] less_le_trans [of "base + uint x mod sz" "base + sz" "2 ^ 63"]
    by (simp add: random_range_i64_def Let_def)
next
  assume sz: "0 < usz" "unat ubase + unat usz \<le> 2 ^ 64"
  obtain s1 x where x: "random_u64 b s = (s1, x)" by fastforce
  have "0 < unat usz" using sz(1) by (simp add: unat_gt_0)
  then have lt: "unat (x mod usz) < unat usz" by (simp add: unat_mod)
  have "unat (ubase + x mod usz) = unat ubase + unat (x mod usz)" using lt sz(2) by (simp add: unat_add_wrap)
  then show "\<exists>s' r. random_range_u64 b s ubase usz = Inr (s', r) \<and> unat ubase \<le> unat r \<and> unat r < unat ubase + unat usz"
    using sz(1) x lt by (simp add: random_range_u64_def)
qed (use random_shift_bound [of s] random_f01_bound random_d01_bound in auto)

theorem random_ranges_in_bounds_witness:
  "\<exists>s' r. random_range_int 31 5 10 = Inr (s', r) \<and> 5 \<le> r \<and> r < 15"
  using random_ranges_in_bounds [where s = 31 and base = 5 and sz = 10] by simp

end
