(* ===== verification/Spec2Isabelle.thy ===== *)
theory Spec2Isabelle
  imports HxPrelude HxUtility HxKey HxPair HxRange HxSetAlgorithms HxSort HxRadixSort
    HxAllocator HxVector HxArray HxDeque HxList HxListConstexpr HxHashTable HxHashRefine HxFlatSet HxFlatMap HxBitset
    HxSlotMap HxHandleTable HxFreeList HxSlab HxExpected HxSmartPtr HxTaskQueue HxTaskDag HxConsole HxFile HxThread HxPlatform HxTest HxRandom
begin

text \<open>
  A model of libhatchet, a C++ library of containers, algorithms, allocators, tasks and a console for programs that allocate little
  and check a lot. Each theory models one part; its definitions carry the names of the C++ functions and stand in their order,
  its lemmas lead to the theorems about the part, and examples at the end apply them to concrete inputs.

  \<^bold>\<open>The build that is modelled.\<close> The 64-bit target with every assertion compiled in (\<^verbatim>\<open>HX_HARDENING_MODE_DEBUG\<close>), POSIX threads and files,
  the slab allocator enabled. A failed assertion stops the operation with a value that names its kind and message: \<open>Assert_hard\<close>,
  \<open>Assert_debug\<close> and \<open>Assert_always\<close> for \<^verbatim>\<open>hxassert_hard\<close>, \<^verbatim>\<open>hxassertf\<close> and \<^verbatim>\<open>hxassert_always\<close>, \<open>Exit_failure\<close> for \<^verbatim>\<open>hxexit\<close>. What the
  language leaves undefined (reading raw storage, constructing over a live object, an index outside an array) is the error
  \<open>Undefined_behavior\<close>, so a theorem that an operation returns \<open>Inr\<close> also says that it does none of this.

  \<^bold>\<open>Conventions.\<close> \<open>size_t\<close> and hashes are words that wrap around; \<open>hxsize_t\<close> is a signed type whose overflow is undefined, an \<open>int\<close> that the code
  casts to a word where it does. Raw storage is a list of optional objects; nodes that containers link but do not own live in an explicit memory from
  addresses to links. User types are type variables, user callables are functions, and what a move leaves of an object is a function
  \<open>moved\<close> that the theorems leave free. Arguments are values: the \<open>bad_ref\<close> assertions that an argument is not the object or in its storage hold. Pointers and iterators into arrays are indices. A result \<open>'a hx\<close> is an error or a value; a result
  \<open>'a run\<close> is \<open>None\<close> when a loop does not end: loops that follow links or ask the outside are \<open>partial_function\<close>s, and the theorems about them state that they
  end. No fuel is used; all other loops are structural or have a termination proof.

  \<^bold>\<open>Foundations.\<close> \<open>HxPrelude\<close>: errors, storage, sequences of operations and their refinement, accounting for owned resources. \<open>HxUtility\<close>
  (\<^verbatim>\<open>hxutility.h\<close>): logarithms, clamping, character classes. \<open>HxKey\<close> (\<^verbatim>\<open>hxkey.hpp\<close>): equality, order, three-way comparison and hashes of numbers and
  strings, and the interfaces every ordered or hashed container relies on: the locales \<open>strict_weak_order\<close>, \<open>key_order\<close>
  and \<open>key_hash\<close>. \<open>HxPair\<close> (\<^verbatim>\<open>hxpair.hpp\<close>) extends them to pairs. \<open>HxAllocator\<close> (\<^verbatim>\<open>hxallocator.hpp\<close>): the storage of the containers,
  whose capacity is set once, and the locale \<open>back_inserter\<close> for appending ranges.

  \<^bold>\<open>Algorithms.\<close> \<open>HxRange\<close> (\<^verbatim>\<open>hxrange.hpp\<close>): visits, copies, comparisons, binary searches, which return the exact bounds.
  \<open>HxSetAlgorithms\<close> (\<^verbatim>\<open>hxset_algorithms.hpp\<close>): merge is stable, union and intersection are those of multisets, the difference removes the keys of the second range. \<open>HxSort\<close> (\<^verbatim>\<open>hxsort.hpp\<close>): insertion sort,
  heapsort, the dual-pivot partition and the introsort built from them sort any range by a strict weak order in place. \<open>HxRadixSort\<close>
  (\<^verbatim>\<open>hxradix_sort.hpp\<close>, \<^verbatim>\<open>hxradix_sort.cpp\<close>): both digit widths equal the stable sort by key.

  \<^bold>\<open>Containers.\<close> \<open>HxVector\<close>, \<open>HxArray\<close>, \<open>HxDeque\<close>: sequences over live and raw slots; every operation is the list operation or the assertion of
  the code, the deque at every position of its wrapping counters. \<open>HxList\<close> (\<^verbatim>\<open>hxlist.hpp\<close>, \<^verbatim>\<open>hxlist.cpp\<close>) stores the XOR of both neighbours,
  \<open>HxListConstexpr\<close> both of them; operations change exactly the links they should, their loops end, and the two lists agree.
  \<open>HxHashTable\<close> has the operations of the intrusive table and \<open>HxHashRefine\<close> the relation to a finite collection of nodes found by key. \<open>HxFlat\<close>, \<open>HxFlatSet\<close>,
  \<open>HxFlatMap\<close>: sorted arrays, which stay sorted and refine sorted lists and finite maps. \<open>HxBitset\<close>: sets of positions. \<open>HxSlotMap\<close>, \<open>HxHandleTable\<close>: 64-bit
  handles with generations; live handles resolve, dead ones do not, and the tables are finite maps. \<open>HxFreeList\<close>: a pool threaded through its own
  slots, refined to an abstract pool over any sequence of operations.

  \<^bold>\<open>Ownership and memory.\<close> \<open>HxExpected\<close>: a value or an error, with lifetimes exact. \<open>HxSmartPtr\<close> (\<^verbatim>\<open>hxptr.hpp\<close>, \<^verbatim>\<open>hxref.hpp\<close>): every owned pointer is
  deleted or released once. \<open>HxSlab\<close> (\<^verbatim>\<open>hxslab_allocator.cpp\<close>): heap, permanent and temporary stacks, scopes; blocks are aligned and apart.
  The other containers take their memory from it through \<open>hxmalloc_ext\<close>, which does not return without memory.

  \<^bold>\<open>Tasks.\<close> \<open>HxTaskQueue\<close> (\<^verbatim>\<open>hxtask_queue.hpp\<close>, \<^verbatim>\<open>hxtask_queue.cpp\<close>): the priority heap, the single-threaded loop, and the threads as a step relation whose steps are
  the critical sections, with arbitrary interleaving and spurious wakeups; waiting completes, nothing is lost, no thread sleeps on a condition that holds.
  \<open>HxTaskDag\<close> (\<^verbatim>\<open>hxtask_dag_node.hpp\<close>): nodes release their successors once, and failures cancel them.

  \<^bold>\<open>Environment.\<close> \<open>HxConsole\<close> (\<^verbatim>\<open>hxconsole.cpp\<close>): parsing with range checks, commands in a hash table, lines and files. \<open>HxFile\<close> (\<^verbatim>\<open>hxfile_posix.cpp\<close>):
  transfers in pieces with retries, and descriptors closed once. \<open>HxThread\<close>: scoped locks are balanced. \<open>HxPlatform\<close> (\<^verbatim>\<open>libhatchet.cpp\<close>,
  \<^verbatim>\<open>hxprofiler.cpp\<close>): start-up, shutdown, log lines, asserts, profiler records. \<open>HxTest\<close> (\<^verbatim>\<open>hxtest.cpp\<close>): glob filters, distances of floating
  point values, counting of tests. \<open>HxRandom\<close> (\<^verbatim>\<open>hxrandom.hpp\<close>): full period and ranges.

  \<^bold>\<open>How the parts meet.\<close> The sorts are called by \<open>hxvector\<close>, \<open>hxarray\<close> and the flat containers and proved once over indices; the heap functions serve the
  vector and the task queue; the hash table serves the console; the graph of tasks runs on the queue; the
  vectors inside the queue, the console and the profiler are the modelled ones or the lists they refine.

  \<^bold>\<open>Not modelled.\<close> Compile-time machinery (type traits, concepts, configuration macros, the module interface, generated names of
  C++11 fallbacks). Formatting of text, cycle counters, breakpoints and views of raw memory. The C library back end of files,
  C11 threads and the construction of pthread objects. Floating point parsing, which is a parameter of the console, and ranges of random floating point numbers.
  Deleters, callables and destructors that call back into the object that is calling them. Byte-wise \<open>memset\<close> and \<open>memcpy\<close> of typed elements in vectors and \<open>memset\<close> in arrays.
  The per-part omissions are in the opening text of each theory.
\<close>

end
